(* ===== verification/Nx_Prelude.thy ===== *)
theory Nx_Prelude
  imports Main "HOL-Library.Word" "HOL-Library.Monad_Syntax"
begin

text \<open>
  The prelude of the development: C memory as seen by one routine, the parts of
  \<^verbatim>\<open>string.h\<close> and \<^verbatim>\<open>stdlib.h\<close> that nxweb calls, and the lemmas about them that the
  component theories share.

  \<^item> A routine that writes through a pointer works on a \<open>mem\<close>: the bytes of the array the
    pointer points into.  A pointer is an offset into it.  Every read and write is checked;
    \<open>None\<close> stands for C's undefined behaviour (an access outside the array, a failed
    \<^verbatim>\<open>assert\<close>).  A theorem that a routine returns \<open>Some\<close> is thus a memory-safety theorem.
  \<^item> A routine that only reads takes the rest of the array from its pointer on (a \<open>cursor\<close>):
    the string, its terminating NUL and whatever follows.  The empty cursor is the end of
    the array, so reading it is \<open>None\<close> again.
\<close>

named_theorems cmem "evaluation of reads, writes and string functions on split memories"
named_theorems chr_simps "values and classes of concrete characters"

type_synonym mem = "char list"
type_synonym cursor = "char list"

abbreviation NUL :: char where "NUL \<equiv> CHR 0x00"
abbreviation TAB :: char where "TAB \<equiv> CHR 0x09"
abbreviation LF :: char where "LF \<equiv> CHR 0x0A"
abbreviation CR :: char where "CR \<equiv> CHR 0x0D"
abbreviation SP :: char where "SP \<equiv> CHR 0x20"
abbreviation DQ :: char where "DQ \<equiv> CHR 0x22"
abbreviation CRLF :: string where "CRLF \<equiv> [CR, LF]"

text \<open>The value of a byte read as \<^verbatim>\<open>unsigned char\<close>.\<close>

definition code :: "char \<Rightarrow> nat" where
  "code c = of_char c"

definition chr_of :: "nat \<Rightarrow> char" where
  "chr_of n = char_of n"

lemma code_less_256 [simp]: "code c < 256"
  by (simp add: code_def)

lemma code_chr_of [simp]: "code (chr_of n) = n mod 256"
  by (simp add: code_def chr_of_def)

lemma chr_of_code [simp]: "chr_of (code c) = c"
  by (simp add: code_def chr_of_def)

lemma code_eq_iff [simp]: "code a = code b \<longleftrightarrow> a = b"
  by (simp add: code_def)

lemma code_eq_0_iff: "code c = 0 \<longleftrightarrow> c = NUL"
proof -
  have "code NUL = 0" by (simp add: code_def)
  then show ?thesis by (metis code_eq_iff)
qed

text \<open>The test \<^verbatim>\<open>(unsigned char)c <= SPACE\<close>, used for white space all over the sources.\<close>

definition le_sp :: "char \<Rightarrow> bool" where
  "le_sp c \<longleftrightarrow> code c \<le> 32"

lemma le_sp_chars [simp, chr_simps]:
  "le_sp NUL" "le_sp TAB" "le_sp LF" "le_sp CR" "le_sp SP"
  by (simp_all add: le_sp_def code_def)

subsection \<open>Checked memory\<close>

definition rd :: "mem \<Rightarrow> nat \<Rightarrow> char option" where
  "rd m p = (if p < length m then Some (m ! p) else None)"

definition wr :: "mem \<Rightarrow> nat \<Rightarrow> char \<Rightarrow> mem option" where
  "wr m p c = (if p < length m then Some (m[p := c]) else None)"

lemma rd_Some_iff: "rd m p = Some c \<longleftrightarrow> p < length m \<and> m ! p = c"
  by (auto simp: rd_def)

lemma wr_Some_iff: "wr m p c = Some m' \<longleftrightarrow> p < length m \<and> m' = m[p := c]"
  by (auto simp: wr_def)

lemma rd_in [cmem]: "p < length m \<Longrightarrow> rd m p = Some (m ! p)"
  by (simp add: rd_def)

lemma wr_in [cmem]: "p < length m \<Longrightarrow> wr m p c = Some (m[p := c])"
  by (simp add: wr_def)

lemma rd_split [cmem, simp]: "rd (xs @ c # ys) (length xs) = Some c"
  by (simp add: rd_def)

lemma wr_split [cmem, simp]: "wr (xs @ c # ys) (length xs) d = Some (xs @ d # ys)"
  by (simp add: wr_def)

lemma rd_at: "p = length xs \<Longrightarrow> rd (xs @ c # ys) p = Some c"
  by simp

lemma wr_at: "p = length xs \<Longrightarrow> wr (xs @ c # ys) p d = Some (xs @ d # ys)"
  by simp

lemma wr_length: "wr m p c = Some m' \<Longrightarrow> length m' = length m"
  by (auto simp: wr_Some_iff)

text \<open>
  The string at a pointer, for stating results.  \<open>cstr_at m p s\<close>: the bytes from \<open>p\<close> on are
  the string \<open>s\<close> and its terminator.
\<close>

definition cstr :: "mem \<Rightarrow> nat \<Rightarrow> string" where
  "cstr m p = takeWhile (\<lambda>c. c \<noteq> NUL) (drop p m)"

definition cstr_at :: "mem \<Rightarrow> nat \<Rightarrow> string \<Rightarrow> bool" where
  "cstr_at m p s \<longleftrightarrow> NUL \<notin> set s \<and> (\<exists>ys. drop p m = s @ NUL # ys)"

lemma cstr_atI: "NUL \<notin> set s \<Longrightarrow> p = length xs \<Longrightarrow> cstr_at (xs @ s @ NUL # ys) p s"
  by (auto simp: cstr_at_def)

lemma takeWhile_NUL [simp]: "NUL \<notin> set s \<Longrightarrow> takeWhile (\<lambda>c. c \<noteq> NUL) (s @ NUL # ys) = s"
  by (induction s) auto

lemma cstr_split [cmem, simp]:
  "NUL \<notin> set s \<Longrightarrow> cstr (xs @ s @ NUL # ys) (length xs) = s"
  by (simp add: cstr_def)

lemma cstr_at_cstr: "cstr_at m p s \<Longrightarrow> cstr m p = s"
  by (auto simp: cstr_at_def cstr_def)

lemma cstr_at_less: "cstr_at m p s \<Longrightarrow> p + length s < length m"
proof -
  assume "cstr_at m p s"
  then obtain ys where d: "drop p m = s @ NUL # ys" by (auto simp: cstr_at_def)
  have "length (drop p m) = length s + Suc (length ys)" by (simp add: d)
  then show ?thesis by simp
qed

lemma cstr_at_decomp:
  assumes "cstr_at m p s"
  obtains xs ys where "m = xs @ s @ NUL # ys" "length xs = p" "NUL \<notin> set s"
proof -
  from assms obtain ys where d: "drop p m = s @ NUL # ys" and n: "NUL \<notin> set s"
    by (auto simp: cstr_at_def)
  have "p \<le> length m" using cstr_at_less [OF assms] by simp
  then have "m = take p m @ s @ NUL # ys" "length (take p m) = p"
    using append_take_drop_id [of p m] d by auto
  with n show ?thesis by (metis that)
qed

subsection \<open>String functions of the C library on memories\<close>

function c_strlen :: "mem \<Rightarrow> nat \<Rightarrow> nat option" where
  "c_strlen m p = do {
     c \<leftarrow> rd m p;
     if c = NUL then Some 0 else do { n \<leftarrow> c_strlen m (Suc p); Some (Suc n) } }"
  by pat_completeness auto
termination
  by (relation "measure (\<lambda>(m, p). length m - p)") (auto simp: rd_Some_iff)

function c_strchr :: "mem \<Rightarrow> nat \<Rightarrow> char \<Rightarrow> nat option option" where
  "c_strchr m p x = do {
     c \<leftarrow> rd m p;
     if c = x then Some (Some p)
     else if c = NUL then Some None
     else c_strchr m (Suc p) x }"
  by pat_completeness auto
termination
  by (relation "measure (\<lambda>(m, p, x). length m - p)") (auto simp: rd_Some_iff)

declare c_strlen.simps [simp del] c_strchr.simps [simp del]

text \<open>\<^verbatim>\<open>memchr(p, x, n)\<close>: the first of the \<open>n\<close> bytes from \<open>p\<close> that is \<open>x\<close>.\<close>

fun c_memchr :: "mem \<Rightarrow> nat \<Rightarrow> char \<Rightarrow> nat \<Rightarrow> nat option option" where
  "c_memchr m p x 0 = Some None"
| "c_memchr m p x (Suc n) = do {
     c \<leftarrow> rd m p;
     if c = x then Some (Some p) else c_memchr m (Suc p) x n }"

definition c_memmove :: "mem \<Rightarrow> nat \<Rightarrow> nat \<Rightarrow> nat \<Rightarrow> mem option" where
  "c_memmove m d s n =
     (if d + n \<le> length m \<and> s + n \<le> length m
      then Some (take d m @ take n (drop s m) @ drop (d + n) m) else None)"

lemma c_memmove_length: "c_memmove m d s n = Some m' \<Longrightarrow> length m' = length m"
  by (auto simp: c_memmove_def split: if_splits)

lemma c_strlen_split [cmem, simp]:
  "NUL \<notin> set s \<Longrightarrow> c_strlen (xs @ s @ NUL # ys) (length xs) = Some (length s)"
proof (induction s arbitrary: xs)
  case Nil
  then show ?case by (simp add: c_strlen.simps)
next
  case (Cons a s)
  then show ?case
    using Cons.IH [of "xs @ [a]"] by (subst c_strlen.simps) auto
qed

lemma c_strlen_at: "cstr_at m p s \<Longrightarrow> c_strlen m p = Some (length s)"
  by (elim cstr_at_decomp) auto

lemma c_strchr_found [cmem]:
  "\<lbrakk>NUL \<notin> set s; x \<notin> set s\<rbrakk> \<Longrightarrow>
     c_strchr (xs @ s @ x # ys) (length xs) x = Some (Some (length xs + length s))"
proof (induction s arbitrary: xs)
  case Nil
  then show ?case by (simp add: c_strchr.simps)
next
  case (Cons a s)
  then show ?case
    using Cons.IH [of "xs @ [a]"] by (subst c_strchr.simps) auto
qed

lemma c_strchr_none [cmem]:
  "\<lbrakk>NUL \<notin> set s; x \<notin> set s; x \<noteq> NUL\<rbrakk> \<Longrightarrow>
     c_strchr (xs @ s @ NUL # ys) (length xs) x = Some None"
proof (induction s arbitrary: xs)
  case Nil
  then show ?case by (simp add: c_strchr.simps)
next
  case (Cons a s)
  then show ?case
    using Cons.IH [of "xs @ [a]"] by (subst c_strchr.simps) auto
qed

text \<open>The cases of a search, for a string whose content is not known.\<close>

lemma split_first:
  assumes "x \<in> set s" obtains a b where "s = a @ x # b" "x \<notin> set a"
  using assms by (metis split_list_first)

subsection \<open>Reading cursors\<close>

definition cur :: "cursor \<Rightarrow> char option" where
  "cur s = (case s of [] \<Rightarrow> None | c # _ \<Rightarrow> Some c)"

lemma cur_Cons [simp]: "cur (c # s) = Some c"
  by (simp add: cur_def)

lemma cur_Nil [simp]: "cur [] = None"
  by (simp add: cur_def)

text \<open>
  \<^verbatim>\<open>strtol\<close> and its kin on a cursor: leading white space, a sign, an optional
  \<^verbatim>\<open>0x\<close> in base 16, digits.  The result is the (exact) value and the rest of the cursor; with
  no digits the value is 0 and the rest is the whole input.  \<open>clamp_long\<close> is the saturation
  that \<^verbatim>\<open>strtol\<close> applies on overflow of a 64-bit \<^verbatim>\<open>long\<close>.
\<close>

definition is_cspace :: "char \<Rightarrow> bool" where
  "is_cspace c \<longleftrightarrow> c \<in> {SP, TAB, LF, CR, CHR 0x0B, CHR 0x0C}"

definition digit_val :: "char \<Rightarrow> nat option" where
  "digit_val c =
     (if 48 \<le> code c \<and> code c \<le> 57 then Some (code c - 48)
      else if 97 \<le> code c \<and> code c \<le> 122 then Some (code c - 87)
      else if 65 \<le> code c \<and> code c \<le> 90 then Some (code c - 55)
      else None)"

definition digit_in :: "nat \<Rightarrow> char \<Rightarrow> nat option" where
  "digit_in b c = (case digit_val c of None \<Rightarrow> None | Some d \<Rightarrow> if d < b then Some d else None)"

fun skip_cspace :: "cursor \<Rightarrow> cursor option" where
  "skip_cspace [] = None"
| "skip_cspace (c # s) = (if is_cspace c then skip_cspace s else Some (c # s))"

fun scan_digits :: "nat \<Rightarrow> nat \<Rightarrow> cursor \<Rightarrow> (nat \<times> cursor) option" where
  "scan_digits b acc [] = None"
| "scan_digits b acc (c # s) =
     (case digit_in b c of None \<Rightarrow> Some (acc, c # s) | Some d \<Rightarrow> scan_digits b (b * acc + d) s)"

definition clamp_long :: "int \<Rightarrow> int" where
  "clamp_long v = (if v < - (2 ^ 63) then - (2 ^ 63) else if v \<ge> 2 ^ 63 then 2 ^ 63 - 1 else v)"

definition starts_digit :: "nat \<Rightarrow> cursor \<Rightarrow> bool" where
  "starts_digit b s = (case s of [] \<Rightarrow> False | c # _ \<Rightarrow> digit_in b c \<noteq> None)"

definition skip_0x :: "nat \<Rightarrow> cursor \<Rightarrow> cursor" where
  "skip_0x b s =
     (if b = 16 then
        (case s of z # x # r \<Rightarrow>
           if z = CHR ''0'' \<and> (x = CHR ''x'' \<or> x = CHR ''X'') \<and> starts_digit 16 r then r else s
         | _ \<Rightarrow> s)
      else s)"

definition take_sign :: "cursor \<Rightarrow> bool \<times> cursor" where
  "take_sign s =
     (case s of [] \<Rightarrow> (False, [])
      | c # r \<Rightarrow> if c = CHR ''-'' then (True, r) else if c = CHR ''+'' then (False, r) else (False, s))"

definition c_strtol :: "nat \<Rightarrow> cursor \<Rightarrow> (int \<times> cursor) option" where
  "c_strtol b s0 = do {
     s1 \<leftarrow> skip_cspace s0;
     let (neg, s2) = take_sign s1;
     let s3 = skip_0x b s2;
     if s3 = [] then None
     else if \<not> starts_digit b s3 then Some (0, s0)
     else do {
       (n, r) \<leftarrow> scan_digits b 0 s3;
       Some (clamp_long (if neg then - int n else int n), r) } }"

text \<open>\<^verbatim>\<open>atol\<close> is \<^verbatim>\<open>strtol(s, 0, 10)\<close> without the end pointer.\<close>

definition c_atol :: "cursor \<Rightarrow> int option" where
  "c_atol s = map_option fst (c_strtol 10 s)"

lemma digit_in_NUL [simp]: "digit_in b NUL = None"
  by (simp add: digit_in_def digit_val_def code_def)

subsection \<open>Lists\<close>

lemma set_takeWhileI: "x \<in> set (takeWhile P xs) \<Longrightarrow> P x"
  by (rule set_takeWhileD [THEN conjunct2])

lemma list_split_at:
  assumes "n \<le> length xs" obtains a b where "xs = a @ b" "length a = n"
  using assms by (metis append_take_drop_id length_take min_absorb2)

lemma bind_Some_iff: "Option.bind x f = Some y \<longleftrightarrow> (\<exists>a. x = Some a \<and> f a = Some y)"
  by (cases x) auto

end
