(* ===== verification/Nx_Misc.thy ===== *)
theory Nx_Misc
  imports Nx_Prelude
begin

text \<open>
  The text helpers of \<^verbatim>\<open>include/nxweb/misc.h\<close> and \<^verbatim>\<open>lib/misc.c\<close>: printing of unsigned
  numbers in decimal and hexadecimal into a caller's buffer, and in-place trimming.  The
  numbers are C's \<^verbatim>\<open>unsigned long\<close>; only division and remainder are applied to them, so
  they are natural numbers here and callers convert signed values modulo \<open>2 ^ 64\<close>.
\<close>

section \<open>Numbers to text\<close>

definition digit_char :: "nat \<Rightarrow> char" where
  "digit_char d = chr_of (d + 48)"

definition to_ulong :: "int \<Rightarrow> nat" where
  "to_ulong v = nat (v mod 2 ^ 64)"

text \<open>\<^verbatim>\<open>*--p = c\<close>: a store through a pre-decremented pointer.\<close>

definition push_down :: "mem \<Rightarrow> nat \<Rightarrow> char \<Rightarrow> (mem \<times> nat) option" where
  "push_down m p c = (if p = 0 then None else do { m' \<leftarrow> wr m (p - 1) c; Some (m', p - 1) })"

function decimal_loop :: "nat \<Rightarrow> mem \<Rightarrow> nat \<Rightarrow> (mem \<times> nat) option" where
  "decimal_loop n m p =
     (if n = 0 then Some (m, p)
      else do {
        (m', p') \<leftarrow> push_down m p (digit_char (n mod 10));
        decimal_loop (n div 10) m' p' })"
  by pat_completeness auto
termination
  by (relation "measure fst") auto

declare decimal_loop.simps [simp del]

definition uint_to_decimal_string :: "nat \<Rightarrow> mem \<Rightarrow> nat \<Rightarrow> nat \<Rightarrow> (mem \<times> nat) option" where
  "uint_to_decimal_string n m buf buf_size = do {
     (m, p) \<leftarrow> push_down m (buf + buf_size) NUL;
     if n = 0 then push_down m p (CHR ''0'') else decimal_loop n m p }"

fun decimal_pad_loop :: "nat \<Rightarrow> nat \<Rightarrow> mem \<Rightarrow> nat \<Rightarrow> mem option" where
  "decimal_pad_loop 0 n m p = Some m"
| "decimal_pad_loop (Suc k) n m p = do {
     (m', p') \<leftarrow> push_down m p (digit_char (n mod 10));
     decimal_pad_loop k (n div 10) m' p' }"

definition uint_to_decimal_string_zeropad ::
  "nat \<Rightarrow> mem \<Rightarrow> nat \<Rightarrow> nat \<Rightarrow> bool \<Rightarrow> mem option" where
  "uint_to_decimal_string_zeropad n m buf num_digits null_terminate = do {
     m \<leftarrow> (if null_terminate then wr m (buf + num_digits) NUL else Some m);
     decimal_pad_loop num_digits n m (buf + num_digits) }"

text \<open>\<^verbatim>\<open>HEX_DIGIT\<close> masks its argument, so any number may be given to it.\<close>

definition HEX_DIGIT :: "nat \<Rightarrow> char" where
  "HEX_DIGIT n = (let n = n mod 16 in if n < 10 then chr_of (n + 48) else chr_of (n - 10 + 65))"

fun hex_pad_loop :: "nat \<Rightarrow> nat \<Rightarrow> mem \<Rightarrow> nat \<Rightarrow> mem option" where
  "hex_pad_loop 0 n m p = Some m"
| "hex_pad_loop (Suc k) n m p = do {
     (m', p') \<leftarrow> push_down m p (HEX_DIGIT n);
     hex_pad_loop k (n div 16) m' p' }"

definition uint_to_hex_string_zeropad ::
  "nat \<Rightarrow> mem \<Rightarrow> nat \<Rightarrow> nat \<Rightarrow> bool \<Rightarrow> mem option" where
  "uint_to_hex_string_zeropad n m buf num_digits null_terminate = do {
     m \<leftarrow> (if null_terminate then wr m (buf + num_digits) NUL else Some m);
     hex_pad_loop num_digits n m (buf + num_digits) }"

section \<open>Trimming in place\<close>

function skip_leading :: "mem \<Rightarrow> nat \<Rightarrow> nat option" where
  "skip_leading m p = do {
     c \<leftarrow> rd m p;
     if c \<noteq> NUL \<and> le_sp c then skip_leading m (Suc p) else Some p }"
  by pat_completeness auto
termination
  by (relation "measure (\<lambda>(m, p). length m - p)") (auto simp: rd_Some_iff)

function cut_trailing :: "mem \<Rightarrow> nat \<Rightarrow> mem option" where
  "cut_trailing m p =
     (if p = 0 then None
      else do {
        c \<leftarrow> rd m (p - 1);
        if le_sp c then do { m' \<leftarrow> wr m (p - 1) NUL; cut_trailing m' (p - 1) } else Some m })"
  by pat_completeness auto
termination
  by (relation "measure (\<lambda>(m, p). p)") auto

declare skip_leading.simps [simp del] cut_trailing.simps [simp del]

definition nxweb_trunc_space :: "mem \<Rightarrow> nat \<Rightarrow> (mem \<times> nat) option" where
  "nxweb_trunc_space m str = do {
     c \<leftarrow> rd m str;
     if c = NUL then Some (m, str)
     else do {
       p \<leftarrow> skip_leading m str;
       c \<leftarrow> rd m p;
       if c = NUL then Some (m, p)
       else do {
         n \<leftarrow> c_strlen m p;
         m \<leftarrow> cut_trailing m (p + n);
         Some (m, p) } } }"

section \<open>What the helpers print\<close>

text \<open>Reference notations, written most significant digit first.\<close>

fun dec :: "nat \<Rightarrow> string" where
  "dec n = (if n < 10 then [digit_char n] else dec (n div 10) @ [digit_char (n mod 10)])"

fun dec_pad :: "nat \<Rightarrow> nat \<Rightarrow> string" where
  "dec_pad 0 n = []"
| "dec_pad (Suc k) n = dec_pad k (n div 10) @ [digit_char (n mod 10)]"

fun hex_pad :: "nat \<Rightarrow> nat \<Rightarrow> string" where
  "hex_pad 0 n = []"
| "hex_pad (Suc k) n = hex_pad k (n div 16) @ [HEX_DIGIT n]"

definition trim :: "string \<Rightarrow> string" where
  "trim s = rev (dropWhile le_sp (rev (dropWhile le_sp s)))"

declare dec.simps [simp del]

lemma length_dec_pad [simp]: "length (dec_pad k n) = k"
  by (induction k n rule: dec_pad.induct) auto

lemma length_hex_pad [simp]: "length (hex_pad k n) = k"
  by (induction k n rule: hex_pad.induct) auto

lemma digit_char_0 [simp]: "digit_char 0 = CHR ''0''"
  by code_simp

lemma digit_char_code: "d < 10 \<Longrightarrow> code (digit_char d) = d + 48"
  by (simp add: digit_char_def)

lemma HEX_DIGIT_code:
  "code (HEX_DIGIT n) = (if n mod 16 < 10 then n mod 16 + 48 else n mod 16 + 55)"
proof -
  have "n mod 16 < 16" by simp
  then show ?thesis by (auto simp: HEX_DIGIT_def Let_def)
qed

lemma digit_char_not_NUL [simp]: "d < 10 \<Longrightarrow> digit_char d \<noteq> NUL"
  using digit_char_code [of d] by (metis add_is_0 code_eq_0_iff zero_neq_numeral)

lemma HEX_DIGIT_not_NUL [simp]: "HEX_DIGIT n \<noteq> NUL"
  using HEX_DIGIT_code [of n] by (metis add_is_0 code_eq_0_iff zero_neq_numeral)

lemma set_dec: "c \<in> set (dec n) \<Longrightarrow> 48 \<le> code c \<and> code c \<le> 57"
proof (induction n rule: dec.induct)
  case (1 n)
  then show ?case
    by (cases "n < 10") (auto simp: dec.simps [of n] digit_char_code)
qed

lemma NUL_notin_dec [simp]: "NUL \<notin> set (dec n)"
  using set_dec [of NUL n] by (auto simp: code_def)

lemma set_dec_pad: "c \<in> set (dec_pad k n) \<Longrightarrow> 48 \<le> code c \<and> code c \<le> 57"
  by (induction k n rule: dec_pad.induct) (auto simp: digit_char_code)

lemma NUL_notin_dec_pad [simp]: "NUL \<notin> set (dec_pad k n)"
  using set_dec_pad [of NUL k n] by (auto simp: code_def)

lemma dec_nonempty [simp]: "dec n \<noteq> []"
  by (simp add: dec.simps [of n])

lemma length_dec_le: "n < 10 ^ Suc k \<Longrightarrow> length (dec n) \<le> Suc k"
proof (induction k arbitrary: n)
  case 0
  then show ?case by (simp add: dec.simps [of n])
next
  case (Suc k)
  show ?case
  proof (cases "n < 10")
    case True
    then show ?thesis by (simp add: dec.simps [of n])
  next
    case False
    have "n div 10 < 10 ^ Suc k" using Suc.prems by auto
    with Suc.IH have "length (dec (n div 10)) \<le> Suc k" by blast
    with False show ?thesis by (simp add: dec.simps [of n])
  qed
qed

lemma length_dec_ulong: "n < 2 ^ 64 \<Longrightarrow> length (dec n) \<le> 20"
  using length_dec_le [of n 19] by simp

text \<open>A digit string reads back as the number it was printed from.\<close>

lemma digit_in_digit_char: "d < 10 \<Longrightarrow> 10 \<le> b \<Longrightarrow> digit_in b (digit_char d) = Some d"
  by (simp add: digit_in_def digit_val_def digit_char_code)

lemma digit_in_HEX_DIGIT: "digit_in 16 (HEX_DIGIT n) = Some (n mod 16)"
proof -
  have "n mod 16 < 16" by simp
  then show ?thesis by (auto simp: digit_in_def digit_val_def HEX_DIGIT_code)
qed

lemma scan_digits_snoc:
  assumes "scan_digits b acc (ds @ [x]) = Some (v, [x])" "digit_in b x = None" "digit_in b d = Some k"
  shows "scan_digits b acc (ds @ d # x # r) = Some (b * v + k, x # r)"
  using assms
  by (induction ds arbitrary: acc) (auto split: option.splits)

lemma scan_digits_tail:
  "scan_digits b acc (ds @ [x]) = Some (v, [x]) \<Longrightarrow>
   scan_digits b acc (ds @ x # r) = Some (v, x # r)"
  by (induction ds arbitrary: acc) (auto split: option.splits)

lemma scan_digits_dec:
  assumes "digit_in 10 x = None"
  shows "scan_digits 10 0 (dec n @ x # r) = Some (n, x # r)"
proof (induction n arbitrary: r rule: dec.induct)
  case (1 n)
  show ?case
  proof (cases "n < 10")
    case True
    with assms show ?thesis by (simp add: dec.simps [of n] digit_in_digit_char)
  next
    case False
    then have "scan_digits 10 0 (dec (n div 10) @ [x]) = Some (n div 10, [x])"
      using 1 by simp
    from scan_digits_snoc [OF this assms, of "digit_char (n mod 10)" "n mod 10" r]
    show ?thesis using False by (simp add: dec.simps [of n] digit_in_digit_char)
  qed
qed

lemma scan_digits_dec_pad:
  assumes "digit_in 10 x = None"
  shows "n < 10 ^ k \<Longrightarrow> scan_digits 10 0 (dec_pad k n @ x # r) = Some (n, x # r)"
proof (induction k n arbitrary: r rule: dec_pad.induct)
  case (1 n)
  with assms show ?case by simp
next
  case (2 k n)
  have "n div 10 < 10 ^ k" using "2.prems" by auto
  with 2 have "scan_digits 10 0 (dec_pad k (n div 10) @ [x]) = Some (n div 10, [x])" by simp
  from scan_digits_snoc [OF this assms, of "digit_char (n mod 10)" "n mod 10" r]
  show ?case by (simp add: digit_in_digit_char)
qed

lemma push_down_split: "push_down (xs @ a # ys) (Suc (length xs)) c = Some (xs @ c # ys, length xs)"
  by (simp add: push_down_def)

lemma decimal_loop_dec:
  assumes "n \<noteq> 0" "length (dec n) \<le> length as"
  shows "decimal_loop n (xs @ as @ ys) (length xs + length as) =
     Some (xs @ take (length as - length (dec n)) as @ dec n @ ys,
           length xs + (length as - length (dec n)))"
  using assms
proof (induction n arbitrary: as ys rule: dec.induct)
  case (1 n)
  from "1.prems"(2) have "as \<noteq> []" by auto
  then obtain bs b where as: "as = bs @ [b]" by (metis rev_exhaust)
  have step: "decimal_loop n (xs @ as @ ys) (length xs + length as) =
      decimal_loop (n div 10) (xs @ bs @ digit_char (n mod 10) # ys) (length xs + length bs)"
    using push_down_split [of "xs @ bs" b ys "digit_char (n mod 10)"] "1.prems"(1)
    by (subst decimal_loop.simps) (simp add: as)
  show ?case
  proof (cases "n < 10")
    case True
    with "1.prems" show ?thesis
      unfolding step by (subst decimal_loop.simps) (simp add: as dec.simps [of n])
  next
    case False
    with "1.prems" have "n div 10 \<noteq> 0" "length (dec (n div 10)) \<le> length bs"
      by (auto simp: as dec.simps [of n])
    from "1.IH" [OF False this] False show ?thesis
      unfolding step by (simp add: as dec.simps [of n])
  qed
qed

lemma uint_to_decimal_string_correct:
  assumes "length (dec n) < length buf"
  shows "uint_to_decimal_string n (xs @ buf @ ys) (length xs) (length buf) =
     Some (xs @ take (length buf - 1 - length (dec n)) buf @ dec n @ NUL # ys,
           length xs + (length buf - 1 - length (dec n)))"
proof -
  from assms obtain as b where buf: "buf = as @ [b]" by (metis length_0_conv less_nat_zero_code rev_exhaust)
  have nul: "push_down (xs @ buf @ ys) (length xs + length buf) NUL =
      Some (xs @ as @ NUL # ys, length xs + length as)"
    using push_down_split [of "xs @ as" b ys NUL] by (simp add: buf)
  show ?thesis
  proof (cases "n = 0")
    case True
    have "as \<noteq> []" using assms True by (auto simp: buf dec.simps [of 0])
    then obtain bs a where as: "as = bs @ [a]" by (metis rev_exhaust)
    from True show ?thesis
      using push_down_split [of "xs @ bs" a "NUL # ys" "CHR ''0''"] nul
      by (simp add: uint_to_decimal_string_def as buf dec.simps [of 0])
  next
    case False
    with assms decimal_loop_dec [OF False, of as xs "NUL # ys"] nul
    show ?thesis by (simp add: uint_to_decimal_string_def buf)
  qed
qed

lemma decimal_pad_loop_correct:
  "length buf = k \<Longrightarrow>
   decimal_pad_loop k n (xs @ buf @ ys) (length xs + k) = Some (xs @ dec_pad k n @ ys)"
proof (induction k arbitrary: n buf ys)
  case 0
  then show ?case by simp
next
  case (Suc k)
  then obtain as b where buf: "buf = as @ [b]" "length as = k" by (metis length_Suc_conv_rev)
  show ?case
    using push_down_split [of "xs @ as" b ys "digit_char (n mod 10)"]
      Suc.IH [of as "n div 10" "digit_char (n mod 10) # ys"]
    by (simp add: buf)
qed

lemma hex_pad_loop_correct:
  "length buf = k \<Longrightarrow>
   hex_pad_loop k n (xs @ buf @ ys) (length xs + k) = Some (xs @ hex_pad k n @ ys)"
proof (induction k arbitrary: n buf ys)
  case 0
  then show ?case by simp
next
  case (Suc k)
  then obtain as b where buf: "buf = as @ [b]" "length as = k" by (metis length_Suc_conv_rev)
  show ?case
    using push_down_split [of "xs @ as" b ys "HEX_DIGIT n"]
      Suc.IH [of as "n div 16" "HEX_DIGIT n # ys"]
    by (simp add: buf)
qed

lemma uint_to_decimal_string_zeropad_correct:
  "length buf = k \<Longrightarrow>
   uint_to_decimal_string_zeropad n (xs @ buf @ ys) (length xs) k False = Some (xs @ dec_pad k n @ ys)"
  by (simp add: uint_to_decimal_string_zeropad_def decimal_pad_loop_correct)

lemma uint_to_hex_string_zeropad_correct:
  "length buf = k \<Longrightarrow>
   uint_to_hex_string_zeropad n (xs @ buf @ ys) (length xs) k False = Some (xs @ hex_pad k n @ ys)"
  by (simp add: uint_to_hex_string_zeropad_def hex_pad_loop_correct)

section \<open>What trimming does\<close>

lemma skip_leading_split:
  "NUL \<notin> set s \<Longrightarrow>
   skip_leading (xs @ s @ NUL # ys) (length xs) = Some (length xs + length (takeWhile le_sp s))"
proof (induction s arbitrary: xs)
  case Nil
  then show ?case by (simp add: skip_leading.simps)
next
  case (Cons a s)
  then show ?case
    using Cons.IH [of "xs @ [a]"] by (subst skip_leading.simps) auto
qed

lemma cut_trailing_split:
  "\<lbrakk>\<not> le_sp c; \<forall>x \<in> set b. le_sp x\<rbrakk> \<Longrightarrow>
   cut_trailing (xs @ c # b @ ys) (Suc (length xs + length b)) =
     Some (xs @ c # replicate (length b) NUL @ ys)"
proof (induction b arbitrary: ys rule: rev_induct)
  case Nil
  then show ?case by (subst cut_trailing.simps) simp
next
  case (snoc x b)
  have "cut_trailing (xs @ c # (b @ [x]) @ ys) (Suc (length xs + length (b @ [x]))) =
      cut_trailing (xs @ c # b @ NUL # ys) (Suc (length xs + length b))"
    using rd_split [of "xs @ c # b" x ys] wr_split [of "xs @ c # b" x ys NUL] snoc.prems
    by (subst cut_trailing.simps) simp
  also have "\<dots> = Some (xs @ c # replicate (length b) NUL @ NUL # ys)"
    using snoc.IH [of "NUL # ys"] snoc.prems by simp
  finally show ?case by (simp add: replicate_append_same flip: replicate_Suc)
qed

lemma trim_decomp:
  fixes s :: string
  defines "lead \<equiv> takeWhile le_sp s"
  obtains (blank) "trim s = []" "lead = s"
  | (inner) t c b where "s = lead @ t @ c # b" "trim s = t @ [c]" "\<not> le_sp c" "\<forall>x \<in> set b. le_sp x"
      "\<not> le_sp (hd (t @ [c]))"
proof (cases "dropWhile le_sp s = []")
  case True
  then have "\<forall>x \<in> set s. le_sp x" by (simp add: dropWhile_eq_Nil_conv)
  then have "lead = s" by (simp add: lead_def takeWhile_eq_all_conv)
  moreover have "trim s = []" unfolding trim_def True by simp
  ultimately have "trim s = []" "lead = s" by simp_all
  then show ?thesis by (rule blank)
next
  case False
  define d where "d = dropWhile le_sp s"
  have hd: "d \<noteq> []" "\<not> le_sp (hd d)"
    unfolding d_def by (rule False, rule hd_dropWhile [OF False])
  define b where "b = rev (takeWhile le_sp (rev d))"
  define r where "r = rev (dropWhile le_sp (rev d))"
  have d: "d = r @ b" unfolding r_def b_def
    by (metis rev_append rev_rev_ident takeWhile_dropWhile_id)
  have r: "r \<noteq> []"
  proof
    assume "r = []"
    then have "\<forall>x \<in> set d. le_sp x" by (auto simp: r_def dropWhile_eq_Nil_conv)
    with hd show False by simp
  qed
  then obtain t c where tc: "r = t @ [c]" by (metis rev_exhaust)
  have rr: "rev r = dropWhile le_sp (rev d)" by (simp add: r_def)
  then have "dropWhile le_sp (rev d) \<noteq> []" using r by (metis rev_is_Nil_conv)
  then have "\<not> le_sp (hd (dropWhile le_sp (rev d)))" by (rule hd_dropWhile)
  then have c: "\<not> le_sp c" by (simp add: tc flip: rr)
  have s: "s = lead @ t @ c # b"
    using takeWhile_dropWhile_id [of le_sp s] by (simp add: lead_def d [unfolded tc] flip: d_def)
  have b: "\<forall>x \<in> set b. le_sp x" by (auto simp: b_def dest: set_takeWhileD)
  have h: "\<not> le_sp (hd (t @ [c]))" using hd by (simp add: d tc hd_append split: if_splits)
  have "trim s = t @ [c]" by (simp add: trim_def flip: d_def) (simp add: r_def [symmetric] tc)
  with s show ?thesis using c b h by (rule inner)
qed

lemma set_trim: "set (trim s) \<subseteq> set s"
  by (auto simp: trim_def dest!: set_dropWhileD)

lemma nxweb_trunc_space_correct:
  assumes nn: "NUL \<notin> set s"
  shows "nxweb_trunc_space (xs @ s @ NUL # ys) (length xs) =
     Some (xs @ takeWhile le_sp s @ trim s
             @ replicate (length s - length (takeWhile le_sp s) - length (trim s)) NUL @ NUL # ys,
           length xs + length (takeWhile le_sp s))"
proof (cases s rule: trim_decomp)
  case blank
  have "\<And>c r. s = c # r \<Longrightarrow> c \<noteq> NUL" using nn by auto
  then show ?thesis
    using skip_leading_split [OF nn, of xs ys] blank rd_split [of "xs @ s" NUL ys]
    by (cases s) (auto simp: nxweb_trunc_space_def)
next
  case (inner t c b)
  define lead where "lead = takeWhile le_sp s"
  have s: "s = lead @ t @ c # b" using inner by (simp add: lead_def)
  have nn': "NUL \<notin> set (t @ c # b)" using nn s by auto
  obtain d r where dr: "t @ c # b = d # r" "\<not> le_sp d" "d \<noteq> NUL"
    using inner(5) nn' by (cases t) auto
  have rd1: "rd (xs @ s @ NUL # ys) (length xs + length lead) = Some d"
    using rd_split [of "xs @ lead" d "r @ NUL # ys"] by (simp add: s dr)
  have rd0: "\<exists>e. rd (xs @ s @ NUL # ys) (length xs) = Some e \<and> e \<noteq> NUL"
  proof -
    have "s \<noteq> []" by (simp add: s)
    then obtain e r' where "s = e # r'" by (cases s) auto
    with nn show ?thesis by auto
  qed
  have sl: "c_strlen (xs @ s @ NUL # ys) (length xs + length lead) = Some (length (t @ c # b))"
    using c_strlen_split [OF nn', of "xs @ lead" ys] by (simp add: s)
  have ct: "cut_trailing (xs @ s @ NUL # ys) (length xs + length lead + length (t @ c # b)) =
      Some (xs @ lead @ t @ c # replicate (length b) NUL @ NUL # ys)"
    using cut_trailing_split [OF inner(3,4), of "xs @ lead @ t" "NUL # ys"] by (simp add: s add.assoc)
  have len: "length s - length lead - length (trim s) = length b"
    using inner(2) by (simp add: s)
  show ?thesis
    using rd0 rd1 sl ct dr skip_leading_split [OF nn, of xs ys] inner(2) len
    by (auto simp: nxweb_trunc_space_def lead_def [symmetric])
qed

end
