(* ===== verification/Nx_Strings.thy ===== *)
theory Nx_Strings
  imports Nx_Misc
begin

text \<open>
  The inline helpers of \<^verbatim>\<open>include/nxweb/nxweb.h\<close>: case folding and case-insensitive
  comparison, the singly linked map used for headers, parameters and cookies, and the
  matching of URL prefixes and virtual hosts that selects a handler.
\<close>

section \<open>Case folding and comparison\<close>

definition nx_tolower :: "char \<Rightarrow> char" where
  "nx_tolower c = (if 65 \<le> code c \<and> code c \<le> 90 then chr_of (code c + 32) else c)"

definition nx_toupper :: "char \<Rightarrow> char" where
  "nx_toupper c = (if 97 \<le> code c \<and> code c \<le> 122 then chr_of (code c - 32) else c)"

text \<open>
  \<^verbatim>\<open>nx_strtolower(dst, src)\<close> and \<^verbatim>\<open>nx_strntolower\<close> within one array, as their callers use
  them (\<^verbatim>\<open>dst <= src\<close>): the byte is read, folded, stored, and both pointers advance.
\<close>

function nx_strtolower :: "mem \<Rightarrow> nat \<Rightarrow> nat \<Rightarrow> mem option" where
  "nx_strtolower m dst src = do {
     c \<leftarrow> rd m src;
     m' \<leftarrow> wr m dst (nx_tolower c);
     if nx_tolower c = NUL then Some m' else nx_strtolower m' (Suc dst) (Suc src) }"
  by pat_completeness auto
termination
  by (relation "measure (\<lambda>(m, d, s). length m - s)") (auto simp: rd_Some_iff wr_Some_iff)

declare nx_strtolower.simps [simp del]

fun nx_strntolower :: "mem \<Rightarrow> nat \<Rightarrow> nat \<Rightarrow> nat \<Rightarrow> mem option" where
  "nx_strntolower m dst src 0 = Some m"
| "nx_strntolower m dst src (Suc len) = do {
     c \<leftarrow> rd m src;
     m' \<leftarrow> wr m dst (nx_tolower c);
     if nx_tolower c = NUL then Some m' else nx_strntolower m' (Suc dst) (Suc src) len }"

text \<open>A \<^verbatim>\<open>char\<close> is signed: its value as an \<^verbatim>\<open>int\<close> operand.\<close>

definition schar :: "char \<Rightarrow> int" where
  "schar c = (if code c < 128 then int (code c) else int (code c) - 256)"

fun nx_strcasecmp :: "cursor \<Rightarrow> cursor \<Rightarrow> int option" where
  "nx_strcasecmp (a # s) (b # t) =
     (let result = schar (nx_tolower a) - schar (nx_tolower b) in
      if result \<noteq> 0 then Some result
      else if a = NUL then Some result
      else nx_strcasecmp s t)"
| "nx_strcasecmp _ _ = None"

fun strncasecmp_loop :: "cursor \<Rightarrow> cursor \<Rightarrow> nat \<Rightarrow> int option" where
  "strncasecmp_loop (a # s) (b # t) len =
     (let result = schar (nx_tolower a) - schar (nx_tolower b) in
      if result \<noteq> 0 then Some result
      else if len = 0 then Some result
      else if a = NUL then Some result
      else strncasecmp_loop s t (len - 1))"
| "strncasecmp_loop _ _ _ = None"

definition nx_strncasecmp :: "cursor \<Rightarrow> cursor \<Rightarrow> int \<Rightarrow> int option" where
  "nx_strncasecmp s1 s2 len = (if len \<le> 0 then Some 0 else strncasecmp_loop s1 s2 (nat len))"

section \<open>The linked map\<close>

text \<open>
  A \<^verbatim>\<open>nx_simple_map_entry\<close> chain is a list, first entry first; the value pointer may be
  null (a cookie without \<^verbatim>\<open>=\<close>).  \<open>find\<close> returns the entry, \<open>remove\<close> the removed entry and the
  new chain.
\<close>

record nx_simple_map_entry =
  me_name :: string
  me_value :: "string option"

type_synonym nx_simple_map = "nx_simple_map_entry list"

text \<open>\<^verbatim>\<open>strcmp\<close> and \<^verbatim>\<open>nx_strcasecmp\<close> on strings that are values of the model (no terminator).\<close>

definition str_eq_nocase :: "string \<Rightarrow> string \<Rightarrow> bool" where
  "str_eq_nocase s t \<longleftrightarrow> nx_strcasecmp (s @ [NUL]) (t @ [NUL]) = Some 0"

fun nx_simple_map_find :: "nx_simple_map \<Rightarrow> string \<Rightarrow> nx_simple_map_entry option" where
  "nx_simple_map_find [] name = None"
| "nx_simple_map_find (e # es) name = (if me_name e = name then Some e else nx_simple_map_find es name)"

definition nx_simple_map_get :: "nx_simple_map \<Rightarrow> string \<Rightarrow> string option" where
  "nx_simple_map_get es name =
     (case nx_simple_map_find es name of None \<Rightarrow> None | Some e \<Rightarrow> me_value e)"

fun nx_simple_map_find_nocase :: "nx_simple_map \<Rightarrow> string \<Rightarrow> nx_simple_map_entry option" where
  "nx_simple_map_find_nocase [] name = None"
| "nx_simple_map_find_nocase (e # es) name =
     (if str_eq_nocase (me_name e) name then Some e else nx_simple_map_find_nocase es name)"

definition nx_simple_map_get_nocase :: "nx_simple_map \<Rightarrow> string \<Rightarrow> string option" where
  "nx_simple_map_get_nocase es name =
     (case nx_simple_map_find_nocase es name of None \<Rightarrow> None | Some e \<Rightarrow> me_value e)"

definition nx_simple_map_add :: "nx_simple_map \<Rightarrow> nx_simple_map_entry \<Rightarrow> nx_simple_map" where
  "nx_simple_map_add es new_entry = new_entry # es"

fun nx_simple_map_remove ::
  "nx_simple_map \<Rightarrow> string \<Rightarrow> nx_simple_map_entry option \<times> nx_simple_map" where
  "nx_simple_map_remove [] name = (None, [])"
| "nx_simple_map_remove (me # es) name =
     (if me_name me = name then (Some me, es)
      else let (r, es') = nx_simple_map_remove es name in (r, me # es'))"

fun nx_simple_map_remove_nocase ::
  "nx_simple_map \<Rightarrow> string \<Rightarrow> nx_simple_map_entry option \<times> nx_simple_map" where
  "nx_simple_map_remove_nocase [] name = (None, [])"
| "nx_simple_map_remove_nocase (me # es) name =
     (if str_eq_nocase (me_name me) name then (Some me, es)
      else let (r, es') = nx_simple_map_remove_nocase es name in (r, me # es'))"

section \<open>URL prefixes and virtual hosts\<close>

text \<open>
  The strings come with their lengths; \<open>at0 s i\<close> is \<^verbatim>\<open>s[i]\<close> of a terminated string, with the
  terminator at index \<open>length s\<close> and nothing to read behind it.
\<close>

definition at0 :: "string \<Rightarrow> nat \<Rightarrow> char option" where
  "at0 s i = rd (s @ [NUL]) i"

definition nxweb_url_prefix_match :: "string \<Rightarrow> string \<Rightarrow> bool option" where
  "nxweb_url_prefix_match url prefix =
     (if length url < length prefix then Some False
      else do {
        endc \<leftarrow> at0 url (length prefix);
        if endc \<noteq> NUL \<and> endc \<noteq> CHR ''/'' \<and> endc \<noteq> CHR ''?'' \<and> endc \<noteq> CHR '';'' then Some False
        else if length prefix = 1 then Some True
        else do {
          u1 \<leftarrow> at0 url 1;
          p1 \<leftarrow> at0 prefix 1;
          if u1 \<noteq> p1 then Some False
          else Some (take (length prefix) url = prefix) } })"

definition nxweb_vhost_match :: "string \<Rightarrow> string \<Rightarrow> bool option" where
  "nxweb_vhost_match host vhost_suffix = do {
     c \<leftarrow> at0 vhost_suffix 0;
     if c = CHR ''.'' then
       (if length vhost_suffix = length host + 1 then Some (host = drop 1 vhost_suffix)
        else if length vhost_suffix \<le> length host
        then Some (drop (length host - length vhost_suffix) host = vhost_suffix)
        else Some False)
     else Some (length vhost_suffix = length host \<and> host = vhost_suffix) }"

section \<open>Laws\<close>

lemma schar_eq_iff [simp]: "schar a = schar b \<longleftrightarrow> a = b"
proof
  assume "schar a = schar b"
  then have "code a = code b"
    using code_less_256 [of a] code_less_256 [of b]
    by (auto simp: schar_def simp del: code_less_256 code_eq_iff split: if_splits)
  then show "a = b" by simp
qed simp

lemma code_tolower:
  "code (nx_tolower c) = (if 65 \<le> code c \<and> code c \<le> 90 then code c + 32 else code c)"
  by (auto simp: nx_tolower_def)

lemma code_toupper:
  "code (nx_toupper c) = (if 97 \<le> code c \<and> code c \<le> 122 then code c - 32 else code c)"
  by (auto simp: nx_toupper_def)

lemma nx_tolower_idem [simp]: "nx_tolower (nx_tolower c) = nx_tolower c"
  by (simp flip: code_eq_iff add: code_tolower)

lemma nx_tolower_toupper [simp]: "nx_tolower (nx_toupper c) = nx_tolower c"
  by (auto simp flip: code_eq_iff simp: code_tolower code_toupper)

lemma nx_tolower_NUL_iff [simp]: "nx_tolower c = NUL \<longleftrightarrow> c = NUL"
proof -
  have "code (nx_tolower c) = 0 \<longleftrightarrow> code c = 0" by (simp add: code_tolower)
  then show ?thesis by (simp only: code_eq_0_iff)
qed

lemma nx_tolower_NUL [simp]: "nx_tolower NUL = NUL"
  by simp

lemma nx_strtolower_split:
  "NUL \<notin> set s \<Longrightarrow>
   nx_strtolower (xs @ gap @ s @ NUL # ys) (length xs) (length xs + length gap) =
     Some (xs @ map nx_tolower s @ NUL # drop (length s + 1) (gap @ s @ NUL # []) @ ys)"
proof (induction s arbitrary: xs gap)
  case Nil
  show ?case
  proof (cases gap)
    case Nil
    with Nil.prems show ?thesis by (subst nx_strtolower.simps) simp
  next
    case (Cons g gs)
    have "rd (xs @ g # gs @ NUL # ys) (length xs + length gap) = Some NUL"
      using rd_split [of "xs @ g # gs" NUL ys] Nil.prems Cons by simp
    with Nil.prems Cons show ?thesis by (subst nx_strtolower.simps) simp
  qed
next
  case (Cons c s)
  show ?case
  proof (cases gap)
    case Nil
    with Cons Cons.IH [of "xs @ [nx_tolower c]" "[]"] show ?thesis
      by (subst nx_strtolower.simps) (auto simp: Nil)
  next
    case (Cons g gs)
    have r: "rd (xs @ g # gs @ c # s @ NUL # ys) (Suc (length xs + length gs)) = Some c"
      using rd_split [of "xs @ g # gs" c "s @ NUL # ys"] by simp
    from Cons.prems Cons Cons.IH [of "xs @ [nx_tolower c]" "gs @ [c]"] r show ?thesis
      by (subst nx_strtolower.simps) auto
  qed
qed

lemma nx_strtolower_inplace [cmem]:
  "NUL \<notin> set s \<Longrightarrow>
   nx_strtolower (xs @ s @ NUL # ys) (length xs) (length xs) = Some (xs @ map nx_tolower s @ NUL # ys)"
  using nx_strtolower_split [of s xs "[]" ys] by simp

lemma nx_strcasecmp_zero:
  "\<lbrakk>NUL \<notin> set s; NUL \<notin> set t\<rbrakk> \<Longrightarrow>
   nx_strcasecmp (s @ NUL # x) (t @ NUL # y) = Some 0 \<longleftrightarrow> map nx_tolower s = map nx_tolower t"
proof (induction s arbitrary: t)
  case Nil
  then show ?case
    by (cases t) (auto simp: Let_def dest!: sym [of NUL])
next
  case (Cons a s)
  show ?case
  proof (cases t)
    case Nil
    with Cons.prems show ?thesis by (auto simp: Let_def)
  next
    case (Cons b t')
    with Cons.prems Cons.IH [of t'] show ?thesis by (auto simp: Let_def)
  qed
qed

lemma nx_strcasecmp_total:
  "\<lbrakk>NUL \<notin> set s; NUL \<notin> set t\<rbrakk> \<Longrightarrow> \<exists>r. nx_strcasecmp (s @ NUL # x) (t @ NUL # y) = Some r"
proof (induction s arbitrary: t)
  case Nil
  then show ?case by (cases t) (auto simp: Let_def)
next
  case (Cons a s)
  then show ?case by (cases t) (auto simp: Let_def)
qed

lemma str_eq_nocase_iff:
  "\<lbrakk>NUL \<notin> set s; NUL \<notin> set t\<rbrakk> \<Longrightarrow> str_eq_nocase s t \<longleftrightarrow> map nx_tolower s = map nx_tolower t"
  by (simp add: str_eq_nocase_def nx_strcasecmp_zero)

text \<open>
  The contract of the linked map: a lookup after an insertion, and after a removal, which
  uncovers an older entry of the same name.  \<open>same\<close> is the comparison of names, exact for
  the \<^verbatim>\<open>_find\<close>/\<^verbatim>\<open>_remove\<close> pair and case-insensitive for the \<^verbatim>\<open>_nocase\<close> pair.
\<close>

locale entry_chain =
  fixes same :: "string \<Rightarrow> string \<Rightarrow> bool"
    and find :: "nx_simple_map \<Rightarrow> string \<Rightarrow> nx_simple_map_entry option"
    and remove :: "nx_simple_map \<Rightarrow> string \<Rightarrow> nx_simple_map_entry option \<times> nx_simple_map"
    and add :: "nx_simple_map \<Rightarrow> nx_simple_map_entry \<Rightarrow> nx_simple_map"
  assumes find_Nil: "find [] n = None"
    and find_add: "find (add es e) n = (if same (me_name e) n then Some e else find es n)"
    and find_filter: "find es n = (case filter (\<lambda>e. same (me_name e) n) es of [] \<Rightarrow> None | e # _ \<Rightarrow> Some e)"
    and remove_fst: "fst (remove es n) = find es n"
    and remove_Some: "find es n = Some e \<Longrightarrow>
       \<exists>a b. es = a @ e # b \<and> snd (remove es n) = a @ b \<and> find a n = None"
    and remove_None: "find es n = None \<Longrightarrow> snd (remove es n) = es"
begin

lemma find_same: "find es n = Some e \<Longrightarrow> e \<in> set es \<and> same (me_name e) n"
proof -
  assume f: "find es n = Some e"
  then obtain r where "filter (\<lambda>e. same (me_name e) n) es = e # r"
    by (auto simp: find_filter split: list.splits)
  then have "e \<in> set (filter (\<lambda>e. same (me_name e) n) es)" by simp
  then show ?thesis by simp
qed

lemma find_None_iff: "find es n = None \<longleftrightarrow> (\<forall>e \<in> set es. \<not> same (me_name e) n)"
proof -
  have "find es n = None \<longleftrightarrow> filter (\<lambda>e. same (me_name e) n) es = []"
    by (simp add: find_filter split: list.splits)
  then show ?thesis by (simp add: filter_empty_conv)
qed

text \<open>Adding and then removing a name gives back the entry and the chain that was there.\<close>

lemma remove_add:
  assumes "same (me_name e) n"
  shows "fst (remove (add es e) n) = Some e"
  using assms by (simp add: remove_fst find_add)

text \<open>After a removal the next older entry of that name, if any, is the one that is found.\<close>

lemma find_after_remove:
  "find (snd (remove es n)) n =
     (case filter (\<lambda>e. same (me_name e) n) es of _ # e # _ \<Rightarrow> Some e | _ \<Rightarrow> None)"
proof (cases "find es n")
  case None
  then have "filter (\<lambda>e. same (me_name e) n) es = []"
    by (simp add: find_filter split: list.splits)
  with None show ?thesis by (simp add: remove_None)
next
  case (Some e)
  then obtain a b where ab: "es = a @ e # b" "snd (remove es n) = a @ b" "find a n = None"
    using remove_Some by blast
  have fa: "filter (\<lambda>e. same (me_name e) n) a = []"
    using ab(3) by (simp add: find_None_iff filter_empty_conv)
  have "same (me_name e) n" using Some find_same by blast
  then show ?thesis unfolding ab(2) find_filter by (simp add: ab(1) fa split: list.splits)
qed

text \<open>Entries of other names, and their order, are untouched.\<close>

lemma remove_other:
  "filter (\<lambda>e. \<not> same (me_name e) n) (snd (remove es n)) = filter (\<lambda>e. \<not> same (me_name e) n) es"
proof (cases "find es n")
  case None
  then show ?thesis by (simp add: remove_None)
next
  case (Some e)
  then obtain a b where "es = a @ e # b" "snd (remove es n) = a @ b" using remove_Some by blast
  moreover have "same (me_name e) n" using Some find_same by blast
  ultimately show ?thesis by simp
qed

end

lemma nx_simple_map_find_filter:
  "nx_simple_map_find es n = (case filter (\<lambda>e. me_name e = n) es of [] \<Rightarrow> None | e # _ \<Rightarrow> Some e)"
  by (induction es) auto

lemma nx_simple_map_find_nocase_filter:
  "nx_simple_map_find_nocase es n =
     (case filter (\<lambda>e. str_eq_nocase (me_name e) n) es of [] \<Rightarrow> None | e # _ \<Rightarrow> Some e)"
  by (induction es) auto

lemma nx_simple_map_remove_split:
  "nx_simple_map_find es n = Some e \<Longrightarrow>
     \<exists>a b. es = a @ e # b \<and> nx_simple_map_remove es n = (Some e, a @ b) \<and> nx_simple_map_find a n = None"
proof (induction es)
  case (Cons x es)
  show ?case
  proof (cases "me_name x = n")
    case True
    with Cons.prems show ?thesis by (intro exI [of _ "[]"] exI [of _ es]) simp
  next
    case False
    with Cons obtain a b where "es = a @ e # b" "nx_simple_map_remove es n = (Some e, a @ b)"
      "nx_simple_map_find a n = None" by auto
    with False show ?thesis by (intro exI [of _ "x # a"] exI [of _ b]) simp
  qed
qed simp

lemma nx_simple_map_remove_nocase_split:
  "nx_simple_map_find_nocase es n = Some e \<Longrightarrow>
     \<exists>a b. es = a @ e # b \<and> nx_simple_map_remove_nocase es n = (Some e, a @ b)
       \<and> nx_simple_map_find_nocase a n = None"
proof (induction es)
  case (Cons x es)
  show ?case
  proof (cases "str_eq_nocase (me_name x) n")
    case True
    with Cons.prems show ?thesis by (intro exI [of _ "[]"] exI [of _ es]) simp
  next
    case False
    with Cons obtain a b where "es = a @ e # b" "nx_simple_map_remove_nocase es n = (Some e, a @ b)"
      "nx_simple_map_find_nocase a n = None" by auto
    with False show ?thesis by (intro exI [of _ "x # a"] exI [of _ b]) simp
  qed
qed simp

lemma nx_simple_map_remove_none:
  "nx_simple_map_find es n = None \<Longrightarrow> nx_simple_map_remove es n = (None, es)"
  by (induction es) (auto split: if_splits)

lemma nx_simple_map_remove_nocase_none:
  "nx_simple_map_find_nocase es n = None \<Longrightarrow> nx_simple_map_remove_nocase es n = (None, es)"
  by (induction es) (auto split: if_splits)

interpretation exact: entry_chain "(=)" nx_simple_map_find nx_simple_map_remove nx_simple_map_add
proof unfold_locales
  fix es n e
  show "fst (nx_simple_map_remove es n) = nx_simple_map_find es n"
    by (cases "nx_simple_map_find es n")
      (auto dest: nx_simple_map_remove_split simp: nx_simple_map_remove_none)
  show "nx_simple_map_find es n = Some e \<Longrightarrow>
      \<exists>a b. es = a @ e # b \<and> snd (nx_simple_map_remove es n) = a @ b \<and> nx_simple_map_find a n = None"
    by (drule nx_simple_map_remove_split) force
qed (auto simp: nx_simple_map_add_def nx_simple_map_find_filter nx_simple_map_remove_none)

interpretation nocase: entry_chain str_eq_nocase nx_simple_map_find_nocase
  nx_simple_map_remove_nocase nx_simple_map_add
proof unfold_locales
  fix es n e
  show "fst (nx_simple_map_remove_nocase es n) = nx_simple_map_find_nocase es n"
    by (cases "nx_simple_map_find_nocase es n")
      (auto dest: nx_simple_map_remove_nocase_split simp: nx_simple_map_remove_nocase_none)
  show "nx_simple_map_find_nocase es n = Some e \<Longrightarrow>
      \<exists>a b. es = a @ e # b \<and> snd (nx_simple_map_remove_nocase es n) = a @ b
        \<and> nx_simple_map_find_nocase a n = None"
    by (drule nx_simple_map_remove_nocase_split) force
qed (auto simp: nx_simple_map_add_def nx_simple_map_find_nocase_filter nx_simple_map_remove_nocase_none)

end
