(* ===== verification/Nx_Buffer.thy ===== *)
theory Nx_Buffer
  imports Nx_Strings
begin

text \<open>
  The per-request arena of \<^verbatim>\<open>include/nxweb/nx_buffer.h\<close> and \<^verbatim>\<open>lib/nx_buffer.c\<close>: a stream
  that grows up from the start of a chunk and objects that are carved down from its end.

  Addresses are natural numbers.  The state holds the four fields of \<^verbatim>\<open>nxb_buffer\<close> (the
  chunk pointer as the chain of chunks it heads), the bytes of memory, and the allocator:
  \<^verbatim>\<open>nx_alloc\<close> is \<^verbatim>\<open>memalign(64, size + 64)\<close>, here an allocator that hands out ever higher
  addresses until an optional limit, after which it returns a null pointer.  Layout constants
  are those of the x86-64 ABI.  Sizes are natural numbers: the 32-bit \<^verbatim>\<open>int\<close> sizes of the
  code are assumed not to overflow (chunks below 1 GB).

  \<open>None\<close> is undefined behaviour: a store that leaves the room between \<^verbatim>\<open>ptr\<close> and \<^verbatim>\<open>end\<close>
  (which would hit an object of the arena or leave the chunk), or a null chunk.
\<close>

section \<open>State\<close>

record nxb_chunk =
  nc_addr :: nat
  nc_end :: nat
  nc_should_free :: bool
  nc_dirty :: bool

record nxb_buffer =
  nb_base :: nat
  nb_ptr :: nat
  nb_end :: nat
  nb_chunks :: "nxb_chunk list"
  nb_mem :: "nat \<Rightarrow> char"
  nb_brk :: nat
  nb_limit :: "nat option"
  nb_freed :: "nat list"

definition SIZEOF_NXB_BUFFER :: nat where "SIZEOF_NXB_BUFFER = 32"
definition SIZEOF_NXB_CHUNK :: nat where "SIZEOF_NXB_CHUNK = 24"
definition OFFSETOF_BUF :: nat where "OFFSETOF_BUF = 17"
definition NXB_DEFAULT_ALIGNMENT :: nat where "NXB_DEFAULT_ALIGNMENT = 16"
definition MEM_GUARD :: nat where "MEM_GUARD = 64"

lemmas nxb_consts = SIZEOF_NXB_BUFFER_def SIZEOF_NXB_CHUNK_def OFFSETOF_BUF_def
  NXB_DEFAULT_ALIGNMENT_def MEM_GUARD_def

definition nc_buf :: "nxb_chunk \<Rightarrow> nat" where
  "nc_buf c = nc_addr c + OFFSETOF_BUF"

definition align_up :: "nat \<Rightarrow> nat \<Rightarrow> nat" where
  "align_up a n = (n + (a - 1)) div a * a"

definition align_down :: "nat \<Rightarrow> nat \<Rightarrow> nat" where
  "align_down a n = n div a * a"

definition mem_read :: "(nat \<Rightarrow> char) \<Rightarrow> nat \<Rightarrow> nat \<Rightarrow> string" where
  "mem_read mem a n = map mem [a..<a + n]"

definition mem_write :: "(nat \<Rightarrow> char) \<Rightarrow> nat \<Rightarrow> string \<Rightarrow> nat \<Rightarrow> char" where
  "mem_write mem a s = (\<lambda>x. if a \<le> x \<and> x < a + length s then s ! (x - a) else mem x)"

definition nx_alloc :: "nat \<Rightarrow> nxb_buffer \<Rightarrow> nat option \<times> nxb_buffer" where
  "nx_alloc sz nb =
     (let a = align_up MEM_GUARD (nb_brk nb); b = a + sz + MEM_GUARD in
      if (case nb_limit nb of None \<Rightarrow> True | Some l \<Rightarrow> b \<le> l)
      then (Some a, nb\<lparr>nb_brk := b\<rparr>) else (None, nb))"

definition nx_free :: "nat \<Rightarrow> nxb_buffer \<Rightarrow> nxb_buffer" where
  "nx_free a nb = nb\<lparr>nb_freed := a # nb_freed nb\<rparr>"

section \<open>Operations\<close>

definition nxb_init_chunk :: "nat \<Rightarrow> nat \<Rightarrow> bool \<Rightarrow> nxb_chunk" where
  "nxb_init_chunk nxc nxc_allocated_size should_free =
     \<lparr>nc_addr = nxc, nc_end = nxc + nxc_allocated_size, nc_should_free = should_free, nc_dirty = False\<rparr>"

definition nxb_init :: "nat \<Rightarrow> nat \<Rightarrow> nxb_buffer \<Rightarrow> nxb_buffer" where
  "nxb_init nxb nxb_allocated_size nb =
     (let chunk = align_up NXB_DEFAULT_ALIGNMENT (nxb + SIZEOF_NXB_BUFFER);
          c = nxb_init_chunk chunk (nxb_allocated_size - (chunk - nxb)) False
      in nb\<lparr>nb_chunks := [c], nb_ptr := nc_buf c, nb_base := nc_buf c, nb_end := nc_end c\<rparr>)"

definition nxb_create :: "nat \<Rightarrow> nxb_buffer \<Rightarrow> nat option \<times> nxb_buffer" where
  "nxb_create initial_chunk_size nb =
     (let initial_chunk_size = align_up NXB_DEFAULT_ALIGNMENT initial_chunk_size;
          alloc_size = SIZEOF_NXB_BUFFER + SIZEOF_NXB_CHUNK + initial_chunk_size
      in case nx_alloc alloc_size nb of
           (None, nb) \<Rightarrow> (None, nb)
         | (Some nxb, nb) \<Rightarrow> (Some nxb, nxb_init nxb alloc_size nb))"

fun empty_loop :: "nxb_chunk \<Rightarrow> nxb_chunk list \<Rightarrow> nxb_buffer \<Rightarrow> nxb_chunk \<times> nxb_buffer" where
  "empty_loop nxc [] nb = (nxc, nb)"
| "empty_loop nxc (nxcp # rest) nb =
     empty_loop nxcp rest (if nc_should_free nxc then nx_free (nc_addr nxc) nb else nb)"

definition nxb_empty :: "nxb_buffer \<Rightarrow> nxb_buffer option" where
  "nxb_empty nb =
     (case nb_chunks nb of [] \<Rightarrow> None
      | c # cs \<Rightarrow>
          (let (nxc, nb) = empty_loop c cs nb in
           Some (nb\<lparr>nb_chunks := [nxc], nb_ptr := nc_buf nxc, nb_base := nc_buf nxc, nb_end := nc_end nxc\<rparr>)))"

definition nxb_destroy :: "nat \<Rightarrow> nxb_buffer \<Rightarrow> nxb_buffer option" where
  "nxb_destroy nxb nb = do {
     nb \<leftarrow> nxb_empty nb;
     let nb = (case nb_chunks nb of [] \<Rightarrow> nb
               | c # _ \<Rightarrow> if nc_should_free c then nx_free (nc_addr c) nb else nb);
     Some (nx_free nxb nb) }"

definition realloc_size :: "nat \<Rightarrow> nat \<Rightarrow> nat \<Rightarrow> nat" where
  "realloc_size capacity base_size min_room =
     (let new_size = capacity * 2;
          min_room = min_room + base_size;
          min_room = min_room + min_room div 8;
          new_size = (if new_size < min_room then min_room else new_size)
      in align_up NXB_DEFAULT_ALIGNMENT new_size)"

text \<open>The result is the C return value: true for 0, false for -1 (no memory).\<close>

definition nxb_realloc_chunk :: "nat \<Rightarrow> nxb_buffer \<Rightarrow> (bool \<times> nxb_buffer) option" where
  "nxb_realloc_chunk min_room nb =
     (case nb_chunks nb of [] \<Rightarrow> None
      | c # cs \<Rightarrow>
          (let base_size = nb_ptr nb - nb_base nb;
               new_size = realloc_size (nc_end c - nc_buf c) base_size min_room;
               alloc_size = SIZEOF_NXB_CHUNK + new_size
           in case nx_alloc alloc_size nb of
                (None, nb) \<Rightarrow> Some (False, nb)
              | (Some a, nb) \<Rightarrow>
                  (let nxc = nxb_init_chunk a alloc_size True;
                       old = mem_read (nb_mem nb) (nb_base nb) base_size;
                       nb = nb\<lparr>nb_mem := mem_write (nb_mem nb) (nc_buf nxc) old,
                              nb_base := nc_buf nxc, nb_ptr := nc_buf nxc + base_size,
                              nb_end := nc_end nxc\<rparr>
                   in Some (True,
                        if \<not> nc_dirty c \<and> nc_should_free c
                        then (nx_free (nc_addr c) nb)\<lparr>nb_chunks := nxc # cs\<rparr>
                        else nb\<lparr>nb_chunks := nxc # c # cs\<rparr>))))"

definition set_dirty :: "nxb_buffer \<Rightarrow> nxb_buffer" where
  "set_dirty nb =
     (case nb_chunks nb of [] \<Rightarrow> nb | c # cs \<Rightarrow> nb\<lparr>nb_chunks := c\<lparr>nc_dirty := True\<rparr> # cs\<rparr>)"

text \<open>The address may be negative in C only where it is below \<^verbatim>\<open>ptr\<close> anyway.\<close>

definition obj_place :: "nxb_buffer \<Rightarrow> nat \<Rightarrow> nat option" where
  "obj_place nb sz =
     (if nb_end nb < sz then None
      else let obj = align_down NXB_DEFAULT_ALIGNMENT (nb_end nb - sz) in
           if obj < nb_ptr nb then None else Some obj)"

definition nxb_alloc_obj :: "nat \<Rightarrow> nxb_buffer \<Rightarrow> (nat \<times> nxb_buffer) option" where
  "nxb_alloc_obj sz nb =
     (case obj_place nb sz of
        Some obj \<Rightarrow> Some (obj, set_dirty (nb\<lparr>nb_end := obj\<rparr>))
      | None \<Rightarrow> do {
          (_, nb) \<leftarrow> nxb_realloc_chunk sz nb;
          obj \<leftarrow> obj_place nb sz;
          Some (obj, set_dirty (nb\<lparr>nb_end := obj\<rparr>)) })"

definition nxb_calloc_obj :: "nat \<Rightarrow> nxb_buffer \<Rightarrow> (nat \<times> nxb_buffer) option" where
  "nxb_calloc_obj sz nb = do {
     (obj, nb) \<leftarrow> nxb_alloc_obj sz nb;
     Some (obj, nb\<lparr>nb_mem := mem_write (nb_mem nb) obj (replicate sz NUL)\<rparr>) }"

definition nxb_copy_obj :: "string \<Rightarrow> nxb_buffer \<Rightarrow> (nat \<times> nxb_buffer) option" where
  "nxb_copy_obj src nb = do {
     (obj, nb) \<leftarrow> nxb_alloc_obj (length src) nb;
     Some (obj, nb\<lparr>nb_mem := mem_write (nb_mem nb) obj src\<rparr>) }"

definition nxb_copy_str :: "string \<Rightarrow> nxb_buffer \<Rightarrow> (nat \<times> nxb_buffer) option" where
  "nxb_copy_str src nb = nxb_copy_obj (src @ [NUL]) nb"

text \<open>\<^verbatim>\<open>nxb_finish_stream\<close> returns the object and its sz.\<close>

definition nxb_finish_stream :: "nxb_buffer \<Rightarrow> nat \<times> nat \<times> nxb_buffer" where
  "nxb_finish_stream nb =
     (nb_base nb, nb_ptr nb - nb_base nb, set_dirty (nb\<lparr>nb_base := nb_ptr nb\<rparr>))"

definition nxb_finish_partial :: "nat \<Rightarrow> nxb_buffer \<Rightarrow> nat \<times> nxb_buffer" where
  "nxb_finish_partial sz nb = (nb_base nb, set_dirty (nb\<lparr>nb_base := nb_base nb + sz\<rparr>))"

definition nxb_unfinish_stream :: "nxb_buffer \<Rightarrow> nxb_buffer" where
  "nxb_unfinish_stream nb = nb\<lparr>nb_ptr := nb_base nb\<rparr>"

definition nxb_start_stream :: "nxb_buffer \<Rightarrow> nxb_buffer" where
  "nxb_start_stream nb = (if nb_ptr nb \<noteq> nb_base nb then nxb_unfinish_stream nb else nb)"

definition nxb_get_room :: "nxb_buffer \<Rightarrow> nat \<times> nat" where
  "nxb_get_room nb = (nb_ptr nb, nb_end nb - nb_ptr nb)"

definition nxb_get_unfinished :: "nxb_buffer \<Rightarrow> nat \<times> nat" where
  "nxb_get_unfinished nb = (nb_base nb, nb_ptr nb - nb_base nb)"

definition nxb_make_room :: "nat \<Rightarrow> nxb_buffer \<Rightarrow> (bool \<times> nxb_buffer) option" where
  "nxb_make_room min_size nb =
     (if nb_end nb - nb_ptr nb < min_size then nxb_realloc_chunk min_size nb else Some (True, nb))"

definition nxb_append_fast :: "string \<Rightarrow> nxb_buffer \<Rightarrow> nxb_buffer option" where
  "nxb_append_fast s nb =
     (if nb_end nb - nb_ptr nb < length s then None
      else Some (nb\<lparr>nb_mem := mem_write (nb_mem nb) (nb_ptr nb) s, nb_ptr := nb_ptr nb + length s\<rparr>))"

definition nxb_append :: "string \<Rightarrow> nxb_buffer \<Rightarrow> nxb_buffer option" where
  "nxb_append s nb = do {
     (ok, nb) \<leftarrow> nxb_make_room (length s) nb;
     if ok then nxb_append_fast s nb else Some nb }"

definition nxb_append_char_fast :: "char \<Rightarrow> nxb_buffer \<Rightarrow> nxb_buffer option" where
  "nxb_append_char_fast c nb = nxb_append_fast [c] nb"

definition nxb_append_char :: "char \<Rightarrow> nxb_buffer \<Rightarrow> nxb_buffer option" where
  "nxb_append_char c nb = do {
     (ok, nb) \<leftarrow> nxb_make_room 1 nb;
     if ok then nxb_append_char_fast c nb else Some nb }"

definition nxb_append_str :: "string \<Rightarrow> nxb_buffer \<Rightarrow> nxb_buffer option" where
  "nxb_append_str s nb = nxb_append s nb"

definition nxb_append_str_fast :: "string \<Rightarrow> nxb_buffer \<Rightarrow> nxb_buffer option" where
  "nxb_append_str_fast s nb = nxb_append_fast s nb"

definition MAX_UINT_LEN :: nat where "MAX_UINT_LEN = 24"

text \<open>
  \<^verbatim>\<open>nxb_append_uint\<close> prints into the 24 bytes at \<^verbatim>\<open>ptr\<close>, right-aligned, and moves the digits
  down to \<^verbatim>\<open>ptr\<close>.
\<close>

definition nxb_append_uint :: "nat \<Rightarrow> nxb_buffer \<Rightarrow> nxb_buffer option" where
  "nxb_append_uint n nb = do {
     (ok, nb) \<leftarrow> nxb_make_room MAX_UINT_LEN nb;
     if \<not> ok then Some nb
     else do {
       (b, p) \<leftarrow> uint_to_decimal_string n (mem_read (nb_mem nb) (nb_ptr nb) MAX_UINT_LEN) 0 MAX_UINT_LEN;
       plen \<leftarrow> c_strlen b p;
       b \<leftarrow> c_memmove b 0 p plen;
       Some (nb\<lparr>nb_mem := mem_write (nb_mem nb) (nb_ptr nb) b, nb_ptr := nb_ptr nb + plen\<rparr>) } }"

definition nxb_append_uint_hex_zeropad :: "nat \<Rightarrow> nat \<Rightarrow> nxb_buffer \<Rightarrow> nxb_buffer option" where
  "nxb_append_uint_hex_zeropad n num_digits nb = do {
     (_, nb) \<leftarrow> nxb_make_room num_digits nb;
     if nb_end nb - nb_ptr nb < num_digits then None
     else do {
       b \<leftarrow> uint_to_hex_string_zeropad n (mem_read (nb_mem nb) (nb_ptr nb) num_digits) 0 num_digits False;
       Some (nb\<lparr>nb_mem := mem_write (nb_mem nb) (nb_ptr nb) b, nb_ptr := nb_ptr nb + num_digits\<rparr>) } }"

definition nxb_blank_fast :: "nat \<Rightarrow> nxb_buffer \<Rightarrow> nxb_buffer option" where
  "nxb_blank_fast sz nb =
     (if nb_end nb - nb_ptr nb < sz then None else Some (nb\<lparr>nb_ptr := nb_ptr nb + sz\<rparr>))"

definition nxb_blank :: "nat \<Rightarrow> nxb_buffer \<Rightarrow> nxb_buffer option" where
  "nxb_blank sz nb = do {
     (ok, nb) \<leftarrow> nxb_make_room sz nb;
     if ok then nxb_blank_fast sz nb else Some nb }"

definition nxb_resize_fast :: "nat \<Rightarrow> nxb_buffer \<Rightarrow> nxb_buffer" where
  "nxb_resize_fast sz nb = nb\<lparr>nb_ptr := nb_base nb + sz\<rparr>"

text \<open>
  \<^verbatim>\<open>nxb_printf_va\<close>: \<open>txt\<close> is what the format and its arguments produce.  \<^verbatim>\<open>vsnprintf\<close> stores
  as much of it as fits below the sz given, and a terminator.
\<close>

definition vsnprintf_into :: "string \<Rightarrow> nxb_buffer \<Rightarrow> nxb_buffer" where
  "vsnprintf_into txt nb =
     (let room = nb_end nb - nb_ptr nb in
      if room = 0 then nb
      else nb\<lparr>nb_mem := mem_write (nb_mem nb) (nb_ptr nb) (take (room - 1) txt @ [NUL])\<rparr>)"

definition nxb_printf_va :: "string \<Rightarrow> nxb_buffer \<Rightarrow> (nat \<times> nxb_buffer) option" where
  "nxb_printf_va txt nb =
     (let nb1 = vsnprintf_into txt nb; len = length txt in
      if len \<ge> nb_end nb - nb_ptr nb
      then do {
        (ok, nb2) \<leftarrow> nxb_realloc_chunk (len + 1) nb1;
        if \<not> ok then Some (0, nb2)
        else let nb3 = vsnprintf_into txt nb2 in Some (len, nb3\<lparr>nb_ptr := nb_ptr nb3 + len\<rparr>) }
      else Some (len, nb1\<lparr>nb_ptr := nb_ptr nb1 + len\<rparr>))"

section \<open>Invariant and abstraction\<close>

definition nxb_stream :: "nxb_buffer \<Rightarrow> string" where
  "nxb_stream nb = mem_read (nb_mem nb) (nb_base nb) (nb_ptr nb - nb_base nb)"

definition nxb_room :: "nxb_buffer \<Rightarrow> nat" where
  "nxb_room nb = nb_end nb - nb_ptr nb"

text \<open>
  The chunks lie below one another in the order of their age, every address below the
  allocator's next one; only the oldest chunk was not allocated by itself.
\<close>

definition chunks_ok :: "nxb_chunk list \<Rightarrow> nat \<Rightarrow> bool" where
  "chunks_ok cs brk \<longleftrightarrow>
     cs \<noteq> [] \<and> (\<forall>c \<in> set cs. nc_buf c \<le> nc_end c \<and> nc_end c \<le> brk)
     \<and> sorted_wrt (\<lambda>new old. nc_end old \<le> nc_addr new) cs
     \<and> (\<forall>c \<in> set (butlast cs). nc_should_free c) \<and> \<not> nc_should_free (last cs)"

definition nxb_ok :: "nxb_buffer \<Rightarrow> bool" where
  "nxb_ok nb \<longleftrightarrow>
     chunks_ok (nb_chunks nb) (nb_brk nb)
     \<and> nc_buf (hd (nb_chunks nb)) \<le> nb_base nb \<and> nb_base nb \<le> nb_ptr nb
     \<and> nb_ptr nb \<le> nb_end nb \<and> nb_end nb \<le> nc_end (hd (nb_chunks nb))"

text \<open>
  What an operation must not touch: every byte below the allocator's next address that is
  not in the room of the stream.  The room afterwards is part of the room before, or lies in
  a new chunk.
\<close>

definition nxb_frame :: "nxb_buffer \<Rightarrow> nxb_buffer \<Rightarrow> bool" where
  "nxb_frame nb nb' \<longleftrightarrow>
     nb_brk nb \<le> nb_brk nb'
     \<and> (\<forall>a < nb_brk nb. \<not> (nb_ptr nb \<le> a \<and> a < nb_end nb) \<longrightarrow> nb_mem nb' a = nb_mem nb a)
     \<and> (\<forall>a < nb_brk nb. nb_ptr nb' \<le> a \<and> a < nb_end nb' \<longrightarrow> nb_ptr nb \<le> a \<and> a < nb_end nb)"

lemma nxb_frame_refl [simp]: "nxb_frame nb nb"
  by (simp add: nxb_frame_def)

lemma nxb_frame_trans [trans]: "nxb_frame a b \<Longrightarrow> nxb_frame b c \<Longrightarrow> nxb_frame a c"
  unfolding nxb_frame_def by (metis order_less_le_trans order_trans)

section \<open>Memory and alignment\<close>

lemma length_mem_read [simp]: "length (mem_read mem a n) = n"
  by (simp add: mem_read_def)

lemma nth_mem_read [simp]: "i < n \<Longrightarrow> mem_read mem a n ! i = mem (a + i)"
  by (simp add: mem_read_def)

lemma mem_read_0 [simp]: "mem_read mem a 0 = []"
  by (simp add: mem_read_def)

lemma mem_read_eqI: "(\<And>x. a \<le> x \<Longrightarrow> x < a + n \<Longrightarrow> mem x = mem' x) \<Longrightarrow> mem_read mem a n = mem_read mem' a n"
  by (simp add: mem_read_def)

lemma mem_read_append: "mem_read mem a (m + n) = mem_read mem a m @ mem_read mem (a + m) n"
  by (rule nth_equalityI) (auto simp: nth_append)

lemma mem_read_write [simp]: "mem_read (mem_write mem a s) a (length s) = s"
  by (rule nth_equalityI) (auto simp: mem_write_def)

lemma mem_write_same: "length s = n \<Longrightarrow> mem_read (mem_write mem a s) a n = s"
  using mem_read_write by blast

lemma mem_read_write_below:
  "a + n \<le> b \<Longrightarrow> mem_read (mem_write mem b s) a n = mem_read mem a n"
  by (rule mem_read_eqI) (simp add: mem_write_def)

lemma mem_write_outside: "\<not> (a \<le> x \<and> x < a + length s) \<Longrightarrow> mem_write mem a s x = mem x"
  by (auto simp: mem_write_def)

lemma align_up_ge: "0 < a \<Longrightarrow> n \<le> align_up a n"
proof -
  assume "0 < a"
  have "(n + (a - 1)) mod a + (n + (a - 1)) div a * a = n + (a - 1)" by simp
  moreover have "(n + (a - 1)) mod a \<le> a - 1" using \<open>0 < a\<close> by (simp add: Suc_leI mod_less_divisor less_Suc_eq_le [symmetric])
  ultimately show ?thesis unfolding align_up_def by linarith
qed

lemma align_up_dvd: "a dvd align_up a n"
  by (simp add: align_up_def)

lemma align_down_le: "align_down a n \<le> n"
  by (simp add: align_down_def)

lemma align_down_gt: "0 < a \<Longrightarrow> n < align_down a n + a"
proof -
  assume "0 < a"
  have "n mod a + n div a * a = n" by simp
  moreover have "n mod a < a" using \<open>0 < a\<close> by simp
  ultimately show ?thesis unfolding align_down_def by linarith
qed

lemma align_down_dvd: "a dvd align_down a n"
  by (simp add: align_down_def)

lemma realloc_size_ge:
  "capacity * 2 \<le> realloc_size capacity b r" "r + b + (r + b) div 8 \<le> realloc_size capacity b r"
proof -
  define m where "m = (if capacity * 2 < r + b + (r + b) div 8 then r + b + (r + b) div 8 else capacity * 2)"
  have "realloc_size capacity b r = align_up NXB_DEFAULT_ALIGNMENT m"
    by (simp add: realloc_size_def m_def Let_def)
  moreover have "m \<le> align_up NXB_DEFAULT_ALIGNMENT m" by (rule align_up_ge) (simp add: nxb_consts)
  moreover have "capacity * 2 \<le> m" "r + b + (r + b) div 8 \<le> m" by (auto simp: m_def)
  ultimately show "capacity * 2 \<le> realloc_size capacity b r"
    "r + b + (r + b) div 8 \<le> realloc_size capacity b r" by auto
qed

section \<open>Growing\<close>

lemma nx_alloc_unlimited:
  assumes "nb_limit nb = None"
  obtains a where "nx_alloc n nb = (Some a, nb\<lparr>nb_brk := a + n + MEM_GUARD\<rparr>)"
    "nb_brk nb \<le> a" "MEM_GUARD dvd a"
  using assms align_up_ge [of MEM_GUARD "nb_brk nb"] align_up_dvd [of MEM_GUARD "nb_brk nb"]
  by (auto simp: nx_alloc_def Let_def nxb_consts)

lemma chunks_ok_Cons:
  assumes "chunks_ok cs brk" "\<forall>c \<in> set cs. nc_end c \<le> nc_addr n" "nc_buf n \<le> nc_end n" "nc_end n \<le> brk'"
    "brk \<le> brk'" "nc_should_free n"
  shows "chunks_ok (n # cs) brk'"
  using assms by (fastforce simp: chunks_ok_def)

lemma chunks_ok_swap:
  assumes "chunks_ok (c # cs) brk" "nc_should_free c" "brk \<le> nc_addr n" "nc_buf n \<le> nc_end n"
    "nc_end n \<le> brk'" "nc_should_free n"
  shows "chunks_ok (n # cs) brk'"
proof -
  have "cs \<noteq> []" using assms(1,2) by (auto simp: chunks_ok_def)
  with assms(1) have ok: "chunks_ok cs brk" by (auto simp: chunks_ok_def)
  have "nc_addr n \<le> nc_buf n" by (simp add: nc_buf_def)
  with assms have "brk \<le> brk'" by linarith
  moreover have "\<forall>c \<in> set cs. nc_end c \<le> nc_addr n"
    using ok assms(3) by (auto simp: chunks_ok_def)
  ultimately show ?thesis using chunks_ok_Cons [OF ok] assms(4-6) by blast
qed

lemma nxb_ok_chunk:
  assumes "nxb_ok nb" obtains c cs where "nb_chunks nb = c # cs"
  using assms by (cases "nb_chunks nb") (auto simp: nxb_ok_def chunks_ok_def)

lemma nxb_ok_brk: "nxb_ok nb \<Longrightarrow> nb_end nb \<le> nb_brk nb"
  by (auto simp: nxb_ok_def chunks_ok_def elim!: order_trans)

text \<open>
  The facts about a chunk change that the rest needs, when memory does not run out: the
  stream is the same, the room is what was asked for and an eighth more.
\<close>

lemma nxb_realloc_chunk_ok:
  assumes ok: "nxb_ok nb" and lim: "nb_limit nb = None"
  obtains nb' where "nxb_realloc_chunk r nb = Some (True, nb')" "nxb_ok nb'" "nb_limit nb' = None"
    "nxb_stream nb' = nxb_stream nb" "nxb_frame nb nb'" "nb_brk nb \<le> nb_base nb'"
    "r + (r + length (nxb_stream nb)) div 8 + 7 \<le> nxb_room nb'"
    "2 * (nc_end (hd (nb_chunks nb)) - nc_buf (hd (nb_chunks nb))) + 7 \<le> nxb_room nb' + length (nxb_stream nb)"
proof -
  obtain c cs where cs: "nb_chunks nb = c # cs" using ok by (rule nxb_ok_chunk)
  define b where "b = nb_ptr nb - nb_base nb"
  define sz where "sz = realloc_size (nc_end c - nc_buf c) b r"
  obtain a where al: "nx_alloc (SIZEOF_NXB_CHUNK + sz) nb =
      (Some a, nb\<lparr>nb_brk := a + (SIZEOF_NXB_CHUNK + sz) + MEM_GUARD\<rparr>)" and a: "nb_brk nb \<le> a"
    using lim by (rule nx_alloc_unlimited)
  define n where "n = nxb_init_chunk a (SIZEOF_NXB_CHUNK + sz) True"
  define s where "s = mem_read (nb_mem nb) (nb_base nb) b"
  define nb1 where "nb1 = nb\<lparr>nb_brk := a + (SIZEOF_NXB_CHUNK + sz) + MEM_GUARD,
      nb_mem := mem_write (nb_mem nb) (nc_buf n) s, nb_base := nc_buf n,
      nb_ptr := nc_buf n + b, nb_end := nc_end n\<rparr>"
  define nb' where "nb' = (if \<not> nc_dirty c \<and> nc_should_free c
      then (nx_free (nc_addr c) nb1)\<lparr>nb_chunks := n # cs\<rparr> else nb1\<lparr>nb_chunks := n # c # cs\<rparr>)"
  have run: "nxb_realloc_chunk r nb = Some (True, nb')"
    by (simp add: nxb_realloc_chunk_def cs al [unfolded sz_def b_def] Let_def nb'_def nb1_def n_def s_def b_def sz_def)
  have n: "nc_addr n = a" "nc_buf n = a + 17" "nc_end n = a + 24 + sz" "nc_should_free n"
    by (simp_all add: n_def nxb_init_chunk_def nc_buf_def nxb_consts)
  have sz: "(nc_end c - nc_buf c) * 2 \<le> sz" "r + b + (r + b) div 8 \<le> sz"
    unfolding sz_def by (rule realloc_size_ge)+
  have fields: "nb_base nb' = a + 17" "nb_ptr nb' = a + 17 + b" "nb_end nb' = a + 24 + sz"
    "nb_brk nb' = a + 24 + sz + 64" "nb_mem nb' = mem_write (nb_mem nb) (a + 17) s" "nb_limit nb' = None"
    "hd (nb_chunks nb') = n"
    using lim by (auto simp: nb'_def nb1_def nx_free_def n nxb_consts)
  have bl: "b + nb_base nb = nb_ptr nb" using ok by (simp add: b_def nxb_ok_def)
  have chs: "chunks_ok (nb_chunks nb) (nb_brk nb)" using ok by (simp add: nxb_ok_def)
  have chs': "chunks_ok (nb_chunks nb') (nb_brk nb')"
  proof (cases "\<not> nc_dirty c \<and> nc_should_free c")
    case True
    then show ?thesis using chunks_ok_swap [OF chs [unfolded cs]] a n fields(4)
      by (simp add: nb'_def nb1_def nx_free_def nxb_consts)
  next
    case False
    have "\<forall>x \<in> set (c # cs). nc_end x \<le> nc_addr n"
      using chs a n(1) by (auto simp: chunks_ok_def cs)
    from chunks_ok_Cons [OF chs [unfolded cs] this] a n False show ?thesis
      by (auto simp: nb'_def nb1_def nxb_consts)
  qed
  have ok': "nxb_ok nb'" using chs' sz(2) n by (simp add: nxb_ok_def fields)
  have st: "nxb_stream nb' = nxb_stream nb"
    using mem_write_same [of s b] by (simp add: nxb_stream_def fields s_def b_def)
  have ls: "length (nxb_stream nb) = b" by (simp add: nxb_stream_def b_def)
  have fr: "nxb_frame nb nb'"
    using a by (auto simp: nxb_frame_def fields intro!: mem_write_outside)
  show ?thesis
    by (rule that [OF run ok' fields(6) st fr]) (use a sz in \<open>auto simp: fields nxb_room_def ls cs\<close>)
qed

section \<open>A small logic of emitted text\<close>

text \<open>
  \<open>emits r f s r'\<close>: started with at least \<open>r\<close> bytes of room and with memory to allocate, \<open>f\<close>
  runs without undefined behaviour, adds exactly \<open>s\<close> to the stream, touches nothing else of
  the arena, and leaves at least \<open>r'\<close> bytes of room.  The routines that build headers and
  paths are sequences of such steps; the room is what justifies their unchecked
  \<^verbatim>\<open>_fast\<close> steps.
\<close>

definition emits :: "nat \<Rightarrow> (nxb_buffer \<Rightarrow> nxb_buffer option) \<Rightarrow> string \<Rightarrow> nat \<Rightarrow> bool" where
  "emits r f s r' \<longleftrightarrow>
     (\<forall>nb. nxb_ok nb \<and> nb_limit nb = None \<and> r \<le> nxb_room nb \<longrightarrow>
        (\<exists>nb'. f nb = Some nb' \<and> nxb_ok nb' \<and> nb_limit nb' = None
           \<and> nxb_stream nb' = nxb_stream nb @ s \<and> nxb_frame nb nb' \<and> r' \<le> nxb_room nb'))"

named_theorems emits_rules "how much text an operation emits, and the room it leaves"

lemma emitsI:
  assumes "\<And>nb. \<lbrakk>nxb_ok nb; nb_limit nb = None; r \<le> nxb_room nb\<rbrakk> \<Longrightarrow>
     \<exists>nb'. f nb = Some nb' \<and> nxb_ok nb' \<and> nb_limit nb' = None
       \<and> nxb_stream nb' = nxb_stream nb @ s \<and> nxb_frame nb nb' \<and> r' \<le> nxb_room nb'"
  shows "emits r f s r'"
  using assms by (auto simp: emits_def)

lemma emitsE:
  assumes "emits r f s r'" "nxb_ok nb" "nb_limit nb = None" "r \<le> nxb_room nb"
  obtains nb' where "f nb = Some nb'" "nxb_ok nb'" "nb_limit nb' = None"
    "nxb_stream nb' = nxb_stream nb @ s" "nxb_frame nb nb'" "r' \<le> nxb_room nb'"
  using assms by (auto simp: emits_def)

lemma emits_weaken: "emits r f s r' \<Longrightarrow> r \<le> q \<Longrightarrow> q' \<le> r' \<Longrightarrow> emits q f s q'"
  by (rule emitsI) (meson emitsE order_trans)

lemma emits_bind [emits_rules]:
  assumes f: "emits r f s r1" and g: "emits r1 g t r2"
  shows "emits r (\<lambda>nb. f nb \<bind> g) (s @ t) r2"
proof (rule emitsI)
  fix nb
  assume a: "nxb_ok nb" "nb_limit nb = None" "r \<le> nxb_room nb"
  obtain nb1 where 1: "f nb = Some nb1" "nxb_ok nb1" "nb_limit nb1 = None"
    "nxb_stream nb1 = nxb_stream nb @ s" "nxb_frame nb nb1" "r1 \<le> nxb_room nb1"
    using f a by (rule emitsE)
  obtain nb2 where 2: "g nb1 = Some nb2" "nxb_ok nb2" "nb_limit nb2 = None"
    "nxb_stream nb2 = nxb_stream nb1 @ t" "nxb_frame nb1 nb2" "r2 \<le> nxb_room nb2"
    using g 1(2,3,6) by (rule emitsE)
  from 1 2 nxb_frame_trans show "\<exists>nb'. f nb \<bind> g = Some nb' \<and> nxb_ok nb' \<and> nb_limit nb' = None
      \<and> nxb_stream nb' = nxb_stream nb @ s @ t \<and> nxb_frame nb nb' \<and> r2 \<le> nxb_room nb'" by auto
qed

lemma emits_Some [emits_rules]: "emits r Some [] r"
  by (rule emitsI) simp

lemma emits_if [emits_rules]:
  assumes "b \<Longrightarrow> emits r f s r1" "\<not> b \<Longrightarrow> emits r g t r2"
  shows "emits r (\<lambda>nb. if b then f nb else g nb) (if b then s else t) (min r1 r2)"
  using assms by (cases b) (auto intro: emits_weaken [of r f s r1] emits_weaken [of r g t r2])

lemma emits_append_fast [emits_rules]:
  assumes "length s \<le> r"
  shows "emits r (nxb_append_fast s) s (r - length s)"
proof (rule emitsI)
  fix nb
  assume ok: "nxb_ok nb" and lim: "nb_limit nb = None" and r: "r \<le> nxb_room nb"
  define nb' where "nb' = nb\<lparr>nb_mem := mem_write (nb_mem nb) (nb_ptr nb) s, nb_ptr := nb_ptr nb + length s\<rparr>"
  have fits: "nb_ptr nb + length s \<le> nb_end nb"
    using ok r assms unfolding nxb_room_def nxb_ok_def by linarith
  then have run: "nxb_append_fast s nb = Some nb'" by (simp add: nxb_append_fast_def nb'_def)
  obtain k where k: "nb_ptr nb = nb_base nb + k"
    using ok by (metis le_iff_add nxb_ok_def)
  have st: "nxb_stream nb' = nxb_stream nb @ s"
    by (simp add: nxb_stream_def nb'_def k mem_read_append mem_read_write_below)
  have fr: "nxb_frame nb nb'"
    using fits by (auto simp: nxb_frame_def nb'_def intro!: mem_write_outside)
  from run st fr fits ok lim r show "\<exists>nb'. nxb_append_fast s nb = Some nb' \<and> nxb_ok nb' \<and> nb_limit nb' = None
      \<and> nxb_stream nb' = nxb_stream nb @ s \<and> nxb_frame nb nb' \<and> r - length s \<le> nxb_room nb'"
    by (auto simp: nb'_def nxb_ok_def nxb_room_def)
qed

text \<open>\<^verbatim>\<open>nxb_make_room\<close> in a caller that ignores its result.\<close>

definition nxb_reserve :: "nat \<Rightarrow> nxb_buffer \<Rightarrow> nxb_buffer option" where
  "nxb_reserve n nb = map_option snd (nxb_make_room n nb)"

lemma nxb_make_room_ok:
  assumes ok: "nxb_ok nb" and lim: "nb_limit nb = None"
  obtains nb' where "nxb_make_room n nb = Some (True, nb')" "nxb_ok nb'" "nb_limit nb' = None"
    "nxb_stream nb' = nxb_stream nb" "nxb_frame nb nb'" "max (nxb_room nb) n \<le> nxb_room nb'"
proof (cases "nb_end nb - nb_ptr nb < n")
  case True
  obtain nb' where nb': "nxb_realloc_chunk n nb = Some (True, nb')" "nxb_ok nb'" "nb_limit nb' = None"
    "nxb_stream nb' = nxb_stream nb" "nxb_frame nb nb'" "nb_brk nb \<le> nb_base nb'"
    "n + (n + length (nxb_stream nb)) div 8 + 7 \<le> nxb_room nb'"
    using ok lim by (rule nxb_realloc_chunk_ok)
  show ?thesis
    by (rule that [OF _ nb'(2-5)]) (use True nb'(1,7) in \<open>auto simp: nxb_make_room_def nxb_room_def\<close>)
next
  case False
  show ?thesis
    by (rule that [of nb]) (use False ok lim in \<open>auto simp: nxb_make_room_def nxb_room_def\<close>)
qed

lemma emits_reserve [emits_rules]: "emits r (nxb_reserve n) [] (max r n)"
proof (rule emitsI)
  fix nb
  assume a: "nxb_ok nb" "nb_limit nb = None" and r: "r \<le> nxb_room nb"
  obtain nb' where "nxb_make_room n nb = Some (True, nb')" "nxb_ok nb'" "nb_limit nb' = None"
    "nxb_stream nb' = nxb_stream nb" "nxb_frame nb nb'" "max (nxb_room nb) n \<le> nxb_room nb'"
    using a by (rule nxb_make_room_ok)
  with r show "\<exists>nb'. nxb_reserve n nb = Some nb' \<and> nxb_ok nb' \<and> nb_limit nb' = None
      \<and> nxb_stream nb' = nxb_stream nb @ [] \<and> nxb_frame nb nb' \<and> max r n \<le> nxb_room nb'"
    by (auto simp: nxb_reserve_def)
qed

lemma emits_append [emits_rules]: "emits r (nxb_append s) s (r - length s)"
proof (rule emitsI)
  fix nb
  assume a: "nxb_ok nb" "nb_limit nb = None" and r: "r \<le> nxb_room nb"
  obtain nb1 where 1: "nxb_make_room (length s) nb = Some (True, nb1)" "nxb_ok nb1" "nb_limit nb1 = None"
    "nxb_stream nb1 = nxb_stream nb" "nxb_frame nb nb1" "max (nxb_room nb) (length s) \<le> nxb_room nb1"
    using a by (rule nxb_make_room_ok)
  obtain nb2 where 2: "nxb_append_fast s nb1 = Some nb2" "nxb_ok nb2" "nb_limit nb2 = None"
    "nxb_stream nb2 = nxb_stream nb1 @ s" "nxb_frame nb1 nb2"
    "max (nxb_room nb) (length s) - length s \<le> nxb_room nb2"
    using emits_append_fast [OF max.cobounded2] 1(2,3,6) by (rule emitsE)
  have "r - length s \<le> nxb_room nb2" using 2(6) r by linarith
  with 1 2 nxb_frame_trans [OF 1(5) 2(5)] show "\<exists>nb'. nxb_append s nb = Some nb' \<and> nxb_ok nb'
      \<and> nb_limit nb' = None \<and> nxb_stream nb' = nxb_stream nb @ s \<and> nxb_frame nb nb' \<and> r - length s \<le> nxb_room nb'"
    by (auto simp: nxb_append_def)
qed

lemma emits_append_char_fast [emits_rules]: "1 \<le> r \<Longrightarrow> emits r (nxb_append_char_fast c) [c] (r - 1)"
  using emits_append_fast [of "[c]" r] by (simp add: nxb_append_char_fast_def [abs_def])

lemma emits_append_char [emits_rules]: "emits r (nxb_append_char c) [c] (r - 1)"
proof -
  have "nxb_append_char c = nxb_append [c]"
    by (rule ext) (simp add: nxb_append_char_def nxb_append_def nxb_append_char_fast_def cong: if_cong)
  with emits_append [of r "[c]"] show ?thesis by simp
qed

lemma emits_append_str [emits_rules]: "emits r (nxb_append_str s) s (r - length s)"
  using emits_append by (simp add: nxb_append_str_def [abs_def])

lemma emits_append_str_fast [emits_rules]:
  "length s \<le> r \<Longrightarrow> emits r (nxb_append_str_fast s) s (r - length s)"
  using emits_append_fast by (simp add: nxb_append_str_fast_def [abs_def])

lemma emits_uint_buffer:
  assumes len: "length d \<le> k" "length b = k" and b: "take (length d) b = d"
    and run: "\<And>mem p. f (mem_read mem p k) = Some b"
    and r: "k \<le> r"
  shows "emits r (\<lambda>nb. do { b \<leftarrow> f (mem_read (nb_mem nb) (nb_ptr nb) k);
      Some (nb\<lparr>nb_mem := mem_write (nb_mem nb) (nb_ptr nb) b, nb_ptr := nb_ptr nb + length d\<rparr>) }) d (r - length d)"
proof (rule emitsI)
  fix nb
  assume ok: "nxb_ok nb" and lim: "nb_limit nb = None" and room: "r \<le> nxb_room nb"
  define nb' where "nb' = nb\<lparr>nb_mem := mem_write (nb_mem nb) (nb_ptr nb) b, nb_ptr := nb_ptr nb + length d\<rparr>"
  have fits: "nb_ptr nb + k \<le> nb_end nb"
    using ok r room unfolding nxb_room_def nxb_ok_def by linarith
  obtain j where j: "nb_ptr nb = nb_base nb + j" using ok by (metis le_iff_add nxb_ok_def)
  obtain e where e: "b = d @ e" using b by (metis append_take_drop_id)
  have "mem_read (mem_write (nb_mem nb) (nb_ptr nb) b) (nb_ptr nb) (length d) = d"
    by (rule nth_equalityI) (auto simp: mem_write_def e nth_append)
  then have st: "nxb_stream nb' = nxb_stream nb @ d"
    by (simp add: nxb_stream_def nb'_def j mem_read_append mem_read_write_below)
  have fr: "nxb_frame nb nb'"
    using fits len by (auto simp: nxb_frame_def nb'_def intro!: mem_write_outside)
  have "nxb_ok nb'" "nb_limit nb' = None" "r - length d \<le> nxb_room nb'"
    using ok lim room len fits by (auto simp: nb'_def nxb_ok_def nxb_room_def)
  with run st fr show "\<exists>nb'. f (mem_read (nb_mem nb) (nb_ptr nb) k) \<bind> (\<lambda>b. Some (nb\<lparr>nb_mem := mem_write (nb_mem nb) (nb_ptr nb) b,
      nb_ptr := nb_ptr nb + length d\<rparr>)) = Some nb' \<and> nxb_ok nb' \<and> nb_limit nb' = None
      \<and> nxb_stream nb' = nxb_stream nb @ d \<and> nxb_frame nb nb' \<and> r - length d \<le> nxb_room nb'"
    by (simp add: nb'_def)
qed

text \<open>
  The digits of a number of up to 64 bits: printed right-aligned into the 24 bytes and moved
  down.
\<close>

lemma decimal_moved_down:
  assumes "n < 2 ^ 64" "length b = 24"
  obtains e where "do { (b, p) \<leftarrow> uint_to_decimal_string n b 0 24; plen \<leftarrow> c_strlen b p; b \<leftarrow> c_memmove b 0 p plen;
      Some (b, plen) } = Some (dec n @ e, length (dec n))" "length (dec n @ e) = 24"
proof -
  define d where "d = dec n"
  have d: "length d \<le> 20" "NUL \<notin> set d" "length d < length b"
    using length_dec_ulong [OF assms(1)] assms(2) by (simp_all add: d_def)
  define pre where "pre = take (24 - 1 - length d) b"
  have lp: "length pre = 23 - length d" using assms(2) by (simp add: pre_def)
  have 1: "uint_to_decimal_string n b 0 24 = Some (pre @ d @ [NUL], length pre)"
    using uint_to_decimal_string_correct [of n b "[]" "[]"] d assms(2) by (simp add: d_def [symmetric] pre_def)
  have 2: "c_strlen (pre @ d @ [NUL]) (length pre) = Some (length d)" using d by simp
  have 3: "c_memmove (pre @ d @ [NUL]) 0 (length pre) (length d) = Some (d @ drop (length d) (pre @ d @ [NUL]))"
    by (simp add: c_memmove_def)
  show ?thesis
    by (rule that [of "drop (length d) (pre @ d @ [NUL])"])
      (use 1 2 3 lp d in \<open>simp_all add: d_def [symmetric]\<close>)
qed

lemma emits_append_uint [emits_rules]:
  assumes "n < 2 ^ 64"
  shows "emits r (nxb_append_uint n) (dec n) (r - length (dec n))"
proof (rule emitsI)
  fix nb
  assume a: "nxb_ok nb" "nb_limit nb = None" and r: "r \<le> nxb_room nb"
  obtain nb1 where 1: "nxb_make_room 24 nb = Some (True, nb1)" "nxb_ok nb1" "nb_limit nb1 = None"
    "nxb_stream nb1 = nxb_stream nb" "nxb_frame nb nb1" "max (nxb_room nb) 24 \<le> nxb_room nb1"
    using a by (rule nxb_make_room_ok)
  obtain e where e: "do { (b, p) \<leftarrow> uint_to_decimal_string n (mem_read (nb_mem nb1) (nb_ptr nb1) 24) 0 24;
      plen \<leftarrow> c_strlen b p; b \<leftarrow> c_memmove b 0 p plen; Some (b, plen) } = Some (dec n @ e, length (dec n))"
    and le: "length (dec n @ e) = 24"
    by (rule decimal_moved_down [OF assms length_mem_read])
  have "emits (max r 24) (\<lambda>nb. do { b \<leftarrow> Some (dec n @ e);
      Some (nb\<lparr>nb_mem := mem_write (nb_mem nb) (nb_ptr nb) b, nb_ptr := nb_ptr nb + length (dec n)\<rparr>) })
      (dec n) (max r 24 - length (dec n))"
    by (rule emits_uint_buffer [where k = 24 and f = "\<lambda>_. Some (dec n @ e)" and b = "dec n @ e"]) (use le in auto)
  then obtain nb2 where 2: "nb1\<lparr>nb_mem := mem_write (nb_mem nb1) (nb_ptr nb1) (dec n @ e),
      nb_ptr := nb_ptr nb1 + length (dec n)\<rparr> = nb2" "nxb_ok nb2" "nb_limit nb2 = None"
    "nxb_stream nb2 = nxb_stream nb1 @ dec n" "nxb_frame nb1 nb2" "max r 24 - length (dec n) \<le> nxb_room nb2"
    using 1(2,3,6) r by (elim emitsE [of _ _ _ _ nb1]) auto
  have "nxb_append_uint n nb = Some nb2"
    using 1(1) e 2(1) by (auto simp: nxb_append_uint_def MAX_UINT_LEN_def bind_Some_iff split: prod.splits)
  with 1 2 nxb_frame_trans [OF 1(5) 2(5)] show "\<exists>nb'. nxb_append_uint n nb = Some nb' \<and> nxb_ok nb'
      \<and> nb_limit nb' = None \<and> nxb_stream nb' = nxb_stream nb @ dec n \<and> nxb_frame nb nb' \<and> r - length (dec n) \<le> nxb_room nb'"
    by auto
qed

section \<open>Objects\<close>

lemma nxb_ok_set_dirty [simp]: "nxb_ok (set_dirty nb) = nxb_ok nb"
proof (cases "nb_chunks nb")
  case (Cons c cs)
  have "chunks_ok (c\<lparr>nc_dirty := True\<rparr> # cs) brk = chunks_ok (c # cs) brk" for brk
    by (cases cs) (auto simp: chunks_ok_def nc_buf_def)
  with Cons show ?thesis by (simp add: nxb_ok_def set_dirty_def nc_buf_def)
qed (simp add: set_dirty_def)

lemma set_dirty_fields [simp]:
  "nb_base (set_dirty nb) = nb_base nb" "nb_ptr (set_dirty nb) = nb_ptr nb" "nb_end (set_dirty nb) = nb_end nb"
  "nb_mem (set_dirty nb) = nb_mem nb" "nb_brk (set_dirty nb) = nb_brk nb" "nb_limit (set_dirty nb) = nb_limit nb"
  "nb_freed (set_dirty nb) = nb_freed nb" "nxb_stream (set_dirty nb) = nxb_stream nb"
  "nxb_room (set_dirty nb) = nxb_room nb"
  by (simp_all add: set_dirty_def nxb_stream_def nxb_room_def split: list.splits)

lemma obj_placeD:
  assumes "obj_place nb n = Some obj"
  shows "nb_ptr nb \<le> obj" "obj + n \<le> nb_end nb" "NXB_DEFAULT_ALIGNMENT dvd obj"
  using assms align_down_le [of NXB_DEFAULT_ALIGNMENT "nb_end nb - n"]
    align_down_dvd [of NXB_DEFAULT_ALIGNMENT "nb_end nb - n"]
  by (auto simp: obj_place_def Let_def split: if_splits)

lemma obj_place_fits: "n + 15 \<le> nxb_room nb \<Longrightarrow> \<exists>obj. obj_place nb n = Some obj"
  using align_down_gt [of NXB_DEFAULT_ALIGNMENT "nb_end nb - n"]
  by (auto simp: obj_place_def nxb_room_def nxb_consts Let_def)

lemma obj_taken:
  assumes "nxb_ok nb" "obj_place nb n = Some obj"
  shows "nxb_ok (nb\<lparr>nb_end := obj\<rparr>)" "nxb_frame nb (nb\<lparr>nb_end := obj\<rparr>)"
    "nxb_stream (nb\<lparr>nb_end := obj\<rparr>) = nxb_stream nb"
  using assms(1) obj_placeD [OF assms(2)]
  by (auto simp: nxb_ok_def nxb_frame_def nxb_stream_def)

lemma nxb_frame_set_dirty [simp]: "nxb_frame nb (set_dirty nb') = nxb_frame nb nb'"
  by (simp add: nxb_frame_def)

definition nxb_capacity :: "nxb_buffer \<Rightarrow> nat" where
  "nxb_capacity nb = nc_end (hd (nb_chunks nb)) - nc_buf (hd (nb_chunks nb))"

lemma set_dirty_chunk [simp]:
  "nc_end (hd (nb_chunks (set_dirty nb))) = nc_end (hd (nb_chunks nb))" "nxb_capacity (set_dirty nb) = nxb_capacity nb"
  "nxb_capacity (nb\<lparr>nb_end := x\<rparr>) = nxb_capacity nb" "nb_limit (set_dirty nb) = nb_limit nb"
  by (simp_all add: nxb_capacity_def set_dirty_def nc_buf_def split: list.splits)

lemma nxb_alloc_obj_ok:
  assumes ok: "nxb_ok nb" and lim: "nb_limit nb = None"
    and cap: "36 \<le> nxb_capacity nb"
  shows "\<exists>obj nb'. nxb_alloc_obj n nb = Some (obj, nb') \<and> nxb_ok nb' \<and> NXB_DEFAULT_ALIGNMENT dvd obj
    \<and> nb_ptr nb' \<le> obj \<and> nb_end nb' = obj \<and> obj + n \<le> nc_end (hd (nb_chunks nb'))
    \<and> (obj + n \<le> nb_end nb \<or> nb_brk nb \<le> obj)
    \<and> nxb_stream nb' = nxb_stream nb \<and> nxb_frame nb nb'
    \<and> nb_limit nb' = None \<and> nxb_capacity nb \<le> nxb_capacity nb'"
proof (cases "obj_place nb n")
  case (Some obj)
  define nb' where "nb' = set_dirty (nb\<lparr>nb_end := obj\<rparr>)"
  have "nc_end (hd (nb_chunks nb')) = nc_end (hd (nb_chunks nb))" "nxb_capacity nb' = nxb_capacity nb" "nb_limit nb' = None"
    using lim by (simp_all add: nb'_def)
  moreover have "nb_end nb \<le> nc_end (hd (nb_chunks nb))" using ok by (simp add: nxb_ok_def)
  ultimately show ?thesis
    using Some obj_placeD [OF Some] obj_taken [OF ok Some] unfolding nxb_alloc_obj_def
    by (intro exI [of _ obj] exI [of _ nb']) (simp add: nb'_def)
next
  case None
  obtain nb1 where r: "nxb_realloc_chunk n nb = Some (True, nb1)" "nxb_ok nb1" "nb_limit nb1 = None"
    "nxb_stream nb1 = nxb_stream nb" "nxb_frame nb nb1" "nb_brk nb \<le> nb_base nb1"
    "n + (n + length (nxb_stream nb)) div 8 + 7 \<le> nxb_room nb1"
    "2 * (nc_end (hd (nb_chunks nb)) - nc_buf (hd (nb_chunks nb))) + 7 \<le> nxb_room nb1 + length (nxb_stream nb)"
    using ok lim by (rule nxb_realloc_chunk_ok)
  have "n + 15 \<le> nxb_room nb1"
  proof (cases "64 \<le> n + length (nxb_stream nb)")
    case True
    then have "8 \<le> (n + length (nxb_stream nb)) div 8" by simp
    with r(7) show ?thesis by linarith
  next
    case False
    with r(8) cap show ?thesis unfolding nxb_capacity_def by linarith
  qed
  then obtain obj where obj: "obj_place nb1 n = Some obj" using obj_place_fits by blast
  define nb' where "nb' = set_dirty (nb1\<lparr>nb_end := obj\<rparr>)"
  have "nc_end (hd (nb_chunks nb')) = nc_end (hd (nb_chunks nb1))" "nb_limit nb' = None" using r(3) by (simp_all add: nb'_def)
  moreover have "nxb_capacity nb \<le> nxb_capacity nb'"
  proof -
    have "nxb_room nb1 + length (nxb_stream nb1) \<le> nxb_capacity nb1"
      using r(2) by (auto simp: nxb_ok_def nxb_room_def nxb_stream_def nxb_capacity_def)
    with r(4,8) have "nxb_capacity nb \<le> nxb_capacity nb1" unfolding nxb_capacity_def by simp
    then show ?thesis by (simp add: nb'_def)
  qed
  moreover have "nb_end nb1 \<le> nc_end (hd (nb_chunks nb1))" "nb_base nb1 \<le> nb_ptr nb1"
    using r(2) by (simp_all add: nxb_ok_def)
  ultimately show ?thesis
    using None r(1,4,6) obj obj_placeD [OF obj] obj_taken [OF r(2) obj] nxb_frame_trans [OF r(5)]
    unfolding nxb_alloc_obj_def by (intro exI [of _ obj] exI [of _ nb']) (simp add: nb'_def)
qed

text \<open>
  C24: with memory available and a chunk of at least 36 bytes, \<^verbatim>\<open>nxb_alloc_obj\<close> returns a
  16-byte aligned object that lies above the stream and inside the chunk, and that is disjoint
  from every object handed out before (it ends below the old \<^verbatim>\<open>end\<close>, or lies in memory
  allocated only now); the unfinished stream and all other bytes of the arena are unchanged.
\<close>

theorem nxb_alloc_obj_sound:
  assumes ok: "nxb_ok nb" and lim: "nb_limit nb = None"
    and cap: "36 \<le> nc_end (hd (nb_chunks nb)) - nc_buf (hd (nb_chunks nb))"
  shows "\<exists>obj nb'. nxb_alloc_obj n nb = Some (obj, nb') \<and> nxb_ok nb' \<and> NXB_DEFAULT_ALIGNMENT dvd obj
    \<and> nb_ptr nb' \<le> obj \<and> nb_end nb' = obj \<and> obj + n \<le> nc_end (hd (nb_chunks nb'))
    \<and> (obj + n \<le> nb_end nb \<or> nb_brk nb \<le> obj)
    \<and> nxb_stream nb' = nxb_stream nb \<and> nxb_frame nb nb'"
  using nxb_alloc_obj_ok [OF ok lim, of n] cap unfolding nxb_capacity_def by blast

text \<open>An arena as \<^verbatim>\<open>nxb_create(64)\<close> makes it, for concrete runs.\<close>

definition fresh_nxb :: nxb_buffer where
  "fresh_nxb = snd (nxb_create 64 \<lparr>nb_base = 0, nb_ptr = 0, nb_end = 0, nb_chunks = [], nb_mem = (\<lambda>_. NUL),
     nb_brk = 4096, nb_limit = None, nb_freed = []\<rparr>)"

lemma fresh_nxb_eval:
  "nb_base fresh_nxb = 4145" "nb_ptr fresh_nxb = 4145" "nb_end fresh_nxb = 4216" "nb_limit fresh_nxb = None"
  "nb_brk fresh_nxb = 4280" "nb_freed fresh_nxb = []"
  "nb_chunks fresh_nxb = [\<lparr>nc_addr = 4128, nc_end = 4216, nc_should_free = False, nc_dirty = False\<rparr>]"
  by (simp_all add: fresh_nxb_def nxb_create_def nx_alloc_def nxb_init_def nxb_init_chunk_def align_up_def
      nc_buf_def nxb_consts Let_def)

lemma fresh_nxb_ok: "nxb_ok fresh_nxb" "nxb_stream fresh_nxb = []"
  by (simp_all add: nxb_ok_def chunks_ok_def fresh_nxb_eval nc_buf_def nxb_consts nxb_stream_def)

theorem nxb_alloc_obj_sound_witness:
  "\<exists>obj nb'. nxb_alloc_obj 100 fresh_nxb = Some (obj, nb') \<and> nxb_ok nb' \<and> NXB_DEFAULT_ALIGNMENT dvd obj
    \<and> nb_ptr nb' \<le> obj \<and> nb_end nb' = obj \<and> obj + 100 \<le> nc_end (hd (nb_chunks nb'))
    \<and> (obj + 100 \<le> nb_end fresh_nxb \<or> nb_brk fresh_nxb \<le> obj)
    \<and> nxb_stream nb' = nxb_stream fresh_nxb \<and> nxb_frame fresh_nxb nb'"
  by (rule nxb_alloc_obj_sound [OF fresh_nxb_ok(1)]) (simp_all add: fresh_nxb_eval nc_buf_def nxb_consts)

section \<open>Streams and emptying\<close>

text \<open>
  With memory available, \<^verbatim>\<open>nxb_append\<close> never writes outside the room, whatever the
  length of the text: the stream is extended by exactly the text, the invariant is kept, and
  no byte of the arena outside the room (finished streams, objects) changes.
\<close>

theorem nxb_append_sound:
  assumes "nxb_ok nb" "nb_limit nb = None"
  shows "\<exists>nb'. nxb_append s nb = Some nb' \<and> nxb_ok nb' \<and> nxb_stream nb' = nxb_stream nb @ s \<and> nxb_frame nb nb'"
  using emits_append [of 0 s] assms by (elim emitsE) auto

lemma empty_loop_result:
  "\<forall>x \<in> set (butlast (c # cs)). nc_should_free x \<Longrightarrow>
   empty_loop c cs nb = (last (c # cs), nb\<lparr>nb_freed := rev (map nc_addr (butlast (c # cs))) @ nb_freed nb\<rparr>)"
proof (induction c cs nb rule: empty_loop.induct)
  case (1 nxc nb)
  then show ?case by simp
next
  case (2 nxc nxcp rest nb)
  then have f: "nc_should_free nxc" by simp
  from 2 show ?case by (simp add: f nx_free_def)
qed

lemma chunks_ok_distinct: "chunks_ok cs brk \<Longrightarrow> distinct (map nc_addr cs)"
proof (induction cs)
  case (Cons c cs)
  show ?case
  proof (cases "cs = []")
    case False
    with Cons.prems have "chunks_ok cs brk" by (auto simp: chunks_ok_def)
    moreover have "nc_addr c \<notin> nc_addr ` set cs"
    proof
      assume "nc_addr c \<in> nc_addr ` set cs"
      then obtain d where "d \<in> set cs" "nc_addr d = nc_addr c" by auto
      with Cons.prems have "nc_buf d \<le> nc_end d" "nc_end d \<le> nc_addr d" by (auto simp: chunks_ok_def)
      then show False by (simp add: nc_buf_def nxb_consts)
    qed
    ultimately show ?thesis using Cons.IH by simp
  qed simp
qed simp

text \<open>
  \<^verbatim>\<open>nxb_empty\<close> frees every chunk of the arena except the first one, each exactly once,
  and leaves an empty stream in a well-formed arena with only that first chunk.
\<close>

theorem nxb_empty_frees_all:
  assumes ok: "nxb_ok nb"
  shows "\<exists>nb'. nxb_empty nb = Some nb' \<and> nxb_ok nb' \<and> nb_chunks nb' = [last (nb_chunks nb)]
     \<and> nxb_stream nb' = [] \<and> nb_freed nb' = rev (map nc_addr (butlast (nb_chunks nb))) @ nb_freed nb
     \<and> distinct (map nc_addr (nb_chunks nb))"
proof -
  obtain c cs where cs: "nb_chunks nb = c # cs" using ok by (rule nxb_ok_chunk)
  have chs: "chunks_ok (c # cs) (nb_brk nb)" using ok by (simp add: nxb_ok_def cs)
  then have "\<forall>x \<in> set (butlast (c # cs)). nc_should_free x" by (simp add: chunks_ok_def)
  note loop = empty_loop_result [OF this]
  have "chunks_ok [last (c # cs)] (nb_brk nb)"
    using chs last_in_set [of "c # cs"] unfolding chunks_ok_def
    by (metis (no_types, lifting) butlast.simps(2) empty_iff empty_set last_ConsL list.distinct(1) set_ConsD sorted_wrt1)
  then have "nxb_ok (nb\<lparr>nb_freed := fr, nb_chunks := [last (c # cs)], nb_ptr := nc_buf (last (c # cs)),
      nb_base := nc_buf (last (c # cs)), nb_end := nc_end (last (c # cs))\<rparr>)" for fr
    by (simp add: nxb_ok_def chunks_ok_def)
  with chunks_ok_distinct [OF chs] show ?thesis
    by (simp add: nxb_empty_def cs loop nxb_stream_def del: butlast.simps last.simps)
qed

text \<open>Formatted output: the text lands in the stream whether or not it fitted at first.\<close>

lemma nxb_stream_mem_outside:
  "(\<And>x. nb_base nb \<le> x \<Longrightarrow> x < nb_ptr nb \<Longrightarrow> mem' x = nb_mem nb x) \<Longrightarrow>
   nxb_stream (nb\<lparr>nb_mem := mem'\<rparr>) = nxb_stream nb"
  by (auto simp: nxb_stream_def intro!: mem_read_eqI)

lemma vsnprintf_into_fields [simp]:
  "nb_base (vsnprintf_into t nb) = nb_base nb" "nb_ptr (vsnprintf_into t nb) = nb_ptr nb"
  "nb_end (vsnprintf_into t nb) = nb_end nb" "nb_chunks (vsnprintf_into t nb) = nb_chunks nb"
  "nb_brk (vsnprintf_into t nb) = nb_brk nb" "nb_limit (vsnprintf_into t nb) = nb_limit nb"
  "nxb_ok (vsnprintf_into t nb) = nxb_ok nb" "nxb_room (vsnprintf_into t nb) = nxb_room nb"
  by (simp_all add: vsnprintf_into_def Let_def nxb_ok_def nxb_room_def)

lemma vsnprintf_into_frame:
  "nxb_frame nb (vsnprintf_into t nb)" "nxb_stream (vsnprintf_into t nb) = nxb_stream nb"
  by (auto simp: vsnprintf_into_def Let_def nxb_frame_def intro!: mem_write_outside nxb_stream_mem_outside)

lemma vsnprintf_advance:
  assumes ok: "nxb_ok nb" and fits: "length t < nxb_room nb"
  defines "nb1 \<equiv> vsnprintf_into t nb"
  shows "nxb_ok (nb1\<lparr>nb_ptr := nb_ptr nb1 + length t\<rparr>)"
    "nxb_stream (nb1\<lparr>nb_ptr := nb_ptr nb1 + length t\<rparr>) = nxb_stream nb @ t"
proof -
  show "nxb_ok (nb1\<lparr>nb_ptr := nb_ptr nb1 + length t\<rparr>)"
    using ok fits by (simp add: nxb_ok_def nb1_def nxb_room_def)
  obtain k where k: "nb_ptr nb = nb_base nb + k" using ok by (metis le_iff_add nxb_ok_def)
  have mem: "nb_mem nb1 = mem_write (nb_mem nb) (nb_base nb + k) (t @ [NUL])"
    using fits k by (auto simp: nb1_def vsnprintf_into_def nxb_room_def Let_def)
  have "mem_read (nb_mem nb1) (nb_base nb + k) (length t) = t"
    by (rule nth_equalityI) (auto simp: mem mem_write_def nth_append)
  then show "nxb_stream (nb1\<lparr>nb_ptr := nb_ptr nb1 + length t\<rparr>) = nxb_stream nb @ t"
    using k by (simp add: nxb_stream_def nb1_def mem_read_append)
      (simp add: nb1_def [symmetric] mem mem_read_write_below)
qed

lemma nxb_printf_va_correct:
  assumes ok: "nxb_ok nb" and lim: "nb_limit nb = None"
  shows "\<exists>nb'. nxb_printf_va t nb = Some (length t, nb') \<and> nxb_ok nb' \<and> nxb_stream nb' = nxb_stream nb @ t"
proof (cases "length t < nxb_room nb")
  case True
  with vsnprintf_advance [OF ok] show ?thesis by (simp add: nxb_printf_va_def Let_def nxb_room_def)
next
  case False
  define nb1 where "nb1 = vsnprintf_into t nb"
  have ok1: "nxb_ok nb1" "nb_limit nb1 = None" using ok lim by (simp_all add: nb1_def)
  obtain nb2 where r: "nxb_realloc_chunk (length t + 1) nb1 = Some (True, nb2)" "nxb_ok nb2"
    "nb_limit nb2 = None" "nxb_stream nb2 = nxb_stream nb1"
    "length t + 1 + (length t + 1 + length (nxb_stream nb1)) div 8 + 7 \<le> nxb_room nb2"
    using ok1 by (rule nxb_realloc_chunk_ok)
  with vsnprintf_advance [OF r(2), of t] False vsnprintf_into_frame(2) [of t nb] show ?thesis
    by (simp add: nxb_printf_va_def Let_def nxb_room_def nb1_def)
qed

end
