(* ===== verification/Nx_Url.thy ===== *)
theory Nx_Url
  imports Nx_Buffer
begin

text \<open>
  Escaping, decoding and normalising of URLs and file paths
  (\<^verbatim>\<open>lib/http_utils.c\<close>, from \<^verbatim>\<open>init_char_map\<close> on).  The escaping routines append to an
  arena; the decoding and normalising routines rewrite the caller's array in place, so they
  work on a memory with offsets.
\<close>

unbundle bit_operations_syntax

section \<open>The character table\<close>

definition CM_LETTER :: nat where "CM_LETTER = 0x10"
definition CM_DIGIT :: nat where "CM_DIGIT = 0x20"
definition CM_URI_CHAR :: nat where "CM_URI_CHAR = 0x40"
definition CM_FILE_PATH_CHAR :: nat where "CM_FILE_PATH_CHAR = 0x80"
definition CM_HEX_VALUE_MASK :: nat where "CM_HEX_VALUE_MASK = 0xf"

text \<open>The entry \<^verbatim>\<open>_CHAR_MAP[c]\<close> as \<^verbatim>\<open>init_char_map\<close> computes it; entry 0 is 0.\<close>

definition init_char_map :: "nat \<Rightarrow> nat" where
  "init_char_map c =
     (if c = 0 then 0 else
      let m = 0;
          m = (if 48 \<le> c \<and> c \<le> 57 then m OR ((c - 48) AND CM_HEX_VALUE_MASK) else m);
          m = (if 97 \<le> c \<and> c \<le> 102 then m OR ((c - 97 + 0xa) AND CM_HEX_VALUE_MASK) else m);
          m = (if 65 \<le> c \<and> c \<le> 70 then m OR ((c - 65 + 0xa) AND CM_HEX_VALUE_MASK) else m);
          m = (if 48 \<le> c \<and> c \<le> 57 then m OR (CM_DIGIT OR CM_URI_CHAR OR CM_FILE_PATH_CHAR) else m);
          m = (if (97 \<le> c \<and> c \<le> 122) \<or> (65 \<le> c \<and> c \<le> 90)
               then m OR (CM_LETTER OR CM_URI_CHAR OR CM_FILE_PATH_CHAR) else m);
          m = (if chr_of c \<in> set ''.-_~'' then m OR CM_URI_CHAR else m);
          m = (if chr_of c \<in> set ''.-_/'' then m OR CM_FILE_PATH_CHAR else m)
      in m)"

definition HEX_DIGIT_VALUE :: "char \<Rightarrow> nat" where
  "HEX_DIGIT_VALUE c = init_char_map (code c) AND CM_HEX_VALUE_MASK"

definition IS_URI_CHAR :: "char \<Rightarrow> bool" where
  "IS_URI_CHAR c \<longleftrightarrow> init_char_map (code c) AND CM_URI_CHAR \<noteq> 0"

definition IS_FILE_PATH_CHAR :: "char \<Rightarrow> bool" where
  "IS_FILE_PATH_CHAR c \<longleftrightarrow> init_char_map (code c) AND CM_FILE_PATH_CHAR \<noteq> 0"

section \<open>Escaping into an arena\<close>

fun escape_url_loop :: "string \<Rightarrow> nxb_buffer \<Rightarrow> nxb_buffer option" where
  "escape_url_loop [] nb = Some nb"
| "escape_url_loop (c # pt) nb =
     (if IS_URI_CHAR c then do { nb \<leftarrow> nxb_append_char_fast c nb; escape_url_loop pt nb }
      else do {
        nb \<leftarrow> nxb_append_char_fast (CHR ''%'') nb;
        nb \<leftarrow> nxb_append_char_fast (HEX_DIGIT (code c div 16)) nb;
        nb \<leftarrow> nxb_append_char_fast (HEX_DIGIT (code c)) nb;
        escape_url_loop pt nb })"

definition nxb_append_escape_url :: "string \<Rightarrow> nxb_buffer \<Rightarrow> nxb_buffer option" where
  "nxb_append_escape_url url nb = do {
     nb \<leftarrow> nxb_reserve (length url * 3) nb;
     escape_url_loop url nb }"

definition MAX_PATH_SEGMENT :: nat where "MAX_PATH_SEGMENT = 230"

fun encode_file_path_loop :: "string \<Rightarrow> nat \<Rightarrow> nxb_buffer \<Rightarrow> nxb_buffer option" where
  "encode_file_path_loop [] fname_len_count nb = Some nb"
| "encode_file_path_loop (c # pt) fname_len_count nb =
     (if c = CHR ''/'' then do { nb \<leftarrow> nxb_append_char_fast c nb; encode_file_path_loop pt 0 nb }
      else do {
        (fname_len_count, nb) \<leftarrow>
          (if fname_len_count \<ge> MAX_PATH_SEGMENT
           then do { nb \<leftarrow> nxb_append_char_fast (CHR ''/'') nb; Some (0, nb) }
           else Some (fname_len_count, nb));
        if (c = CHR ''.'' \<and> fname_len_count = 0) \<or> \<not> IS_FILE_PATH_CHAR c then do {
          nb \<leftarrow> nxb_append_char_fast (CHR ''$'') nb;
          nb \<leftarrow> nxb_append_char_fast (HEX_DIGIT (code c div 16)) nb;
          nb \<leftarrow> nxb_append_char_fast (HEX_DIGIT (code c)) nb;
          encode_file_path_loop pt (fname_len_count + 3) nb }
        else do {
          nb \<leftarrow> nxb_append_char_fast c nb;
          encode_file_path_loop pt (fname_len_count + 1) nb } })"

definition encode_file_path_max_size :: "string \<Rightarrow> nat" where
  "encode_file_path_max_size path = length path * 3 + length path div MAX_PATH_SEGMENT"

definition nxb_append_encode_file_path :: "string \<Rightarrow> nxb_buffer \<Rightarrow> nxb_buffer option" where
  "nxb_append_encode_file_path path nb =
     (if path = [] then Some nb
      else do {
        nb \<leftarrow> nxb_reserve (encode_file_path_max_size path) nb;
        encode_file_path_loop path 0 nb })"

section \<open>Escaping into a stdio stream\<close>

text \<open>
  The \<^verbatim>\<open>%H\<close> and \<^verbatim>\<open>%U\<close> conversions registered with \<^verbatim>\<open>printf\<close>: the characters put to the stream
  and the returned count; a null argument prints \<^verbatim>\<open>(null)\<close>.
\<close>

definition html_escape_char :: "char \<Rightarrow> string" where
  "html_escape_char c =
     (if c = CHR ''<'' then ''&lt;''
      else if c = CHR ''>'' then ''&gt;''
      else if c = DQ then ''&quot;''
      else if c = CHR 0x27 then ''&#39;''
      else if c = CHR ''&'' then ''&amp;''
      else [c])"

fun html_escape_loop :: "string \<Rightarrow> string \<Rightarrow> nat \<Rightarrow> string \<times> nat" where
  "html_escape_loop [] out len = (out, len)"
| "html_escape_loop (c # pt) out len =
     html_escape_loop pt (out @ html_escape_char c) (len + length (html_escape_char c))"

definition print_html_escaped :: "string option \<Rightarrow> string \<times> nat" where
  "print_html_escaped arg = (case arg of None \<Rightarrow> (''(null)'', 6) | Some s \<Rightarrow> html_escape_loop s [] 0)"

fun print_url_loop :: "string \<Rightarrow> string \<Rightarrow> nat \<Rightarrow> string \<times> nat" where
  "print_url_loop [] out len = (out, len)"
| "print_url_loop (c # pt) out len =
     (if IS_URI_CHAR c then print_url_loop pt (out @ [c]) (len + 1)
      else print_url_loop pt (out @ [CHR ''%'', HEX_DIGIT (code c div 16), HEX_DIGIT (code c)]) (len + 3))"

definition print_url_escaped :: "string option \<Rightarrow> string \<times> nat" where
  "print_url_escaped arg = (case arg of None \<Rightarrow> (''(null)'', 6) | Some s \<Rightarrow> print_url_loop s [] 0)"

section \<open>Decoding in place\<close>

text \<open>\<open>s\<close> and \<open>d\<close> are the pointers of the loop; both \<^verbatim>\<open>s[1]\<close> and \<^verbatim>\<open>s[2]\<close> are read only if needed.\<close>

definition percent_at :: "mem \<Rightarrow> nat \<Rightarrow> (char \<times> char) option option" where
  "percent_at m s = do {
     a \<leftarrow> rd m (s + 1);
     if a = NUL then Some None
     else do {
       b \<leftarrow> rd m (s + 2);
       Some (if b = NUL then None else Some (a, b)) } }"

function url_decode_loop :: "mem \<Rightarrow> nat \<Rightarrow> nat \<Rightarrow> mem option" where
  "url_decode_loop m s d = do {
     c \<leftarrow> rd m s;
     if c = NUL then wr m d NUL
     else if c = CHR ''+'' then do { m' \<leftarrow> wr m d SP; url_decode_loop m' (s + 1) (d + 1) }
     else do {
       h \<leftarrow> (if c = CHR ''%'' then percent_at m s else Some None);
       case h of
         Some (a, b) \<Rightarrow> do {
           m' \<leftarrow> wr m d (chr_of (16 * HEX_DIGIT_VALUE a + HEX_DIGIT_VALUE b));
           url_decode_loop m' (s + 3) (d + 1) }
       | None \<Rightarrow> do { m' \<leftarrow> wr m d c; url_decode_loop m' (s + 1) (d + 1) } } }"
  by pat_completeness auto
termination
  by (relation "measure (\<lambda>(m, s, d). length m - s)") (auto simp: rd_Some_iff wr_Some_iff)

declare url_decode_loop.simps [simp del]

definition nxweb_url_decode :: "mem \<Rightarrow> nat \<Rightarrow> nat option \<Rightarrow> mem option" where
  "nxweb_url_decode m src dst = url_decode_loop m src (case dst of None \<Rightarrow> src | Some d \<Rightarrow> d)"

section \<open>Normalising in place\<close>

text \<open>
  \<^verbatim>\<open>nxweb_remove_dots_from_uri_path\<close>.  \<open>back_up\<close> is the loop
  \<^verbatim>\<open>while ((--dst)[-1] != '/')\<close>; \<open>copy_segment\<close> copies the rest of a segment and then the byte
  that ended it.  The loop ends with the return value and the memory.
\<close>

function back_up :: "mem \<Rightarrow> nat \<Rightarrow> nat option" where
  "back_up m dst =
     (if dst < 2 then None
      else do {
        c \<leftarrow> rd m (dst - 2);
        if c \<noteq> CHR ''/'' then back_up m (dst - 1) else Some (dst - 1) })"
  by pat_completeness auto
termination
  by (relation "measure snd") auto

function copy_segment :: "mem \<Rightarrow> nat \<Rightarrow> nat \<Rightarrow> (mem \<times> nat \<times> nat) option" where
  "copy_segment m src dst = do {
     c \<leftarrow> rd m src;
     if c \<noteq> NUL \<and> c \<noteq> CHR ''/''
     then do { m' \<leftarrow> wr m dst c; copy_segment m' (src + 1) (dst + 1) }
     else Some (m, src, dst) }"
  by pat_completeness auto
termination
  by (relation "measure (\<lambda>(m, s, d). length m - s)") (auto simp: rd_Some_iff wr_Some_iff)

declare back_up.simps [simp del] copy_segment.simps [simp del]

lemma copy_segment_src: "copy_segment m src dst = Some (m', src', dst') \<Longrightarrow> src \<le> src' \<and> length m' = length m"
proof (induction m src dst rule: copy_segment.induct)
  case (1 m src dst)
  show ?case
  proof (cases "rd m src")
    case None
    with "1.prems" show ?thesis by (simp add: copy_segment.simps [of m src])
  next
    case (Some c)
    show ?thesis
    proof (cases "c \<noteq> NUL \<and> c \<noteq> CHR ''/''")
      case True
      with Some "1.prems" obtain m1 where w: "wr m dst c = Some m1"
        and r: "copy_segment m1 (src + 1) (dst + 1) = Some (m', src', dst')"
        by (auto simp: copy_segment.simps [of m src] bind_Some_iff)
      from "1.IH" [OF Some True w r] wr_length [OF w] show ?thesis by simp
    next
      case False
      with Some "1.prems" show ?thesis by (auto simp: copy_segment.simps [of m src])
    qed
  qed
qed

text \<open>What the switch on a segment that starts with a dot decides.\<close>

datatype dot_action = Skip nat | Parent | Ordinary

definition dot_switch :: "mem \<Rightarrow> nat \<Rightarrow> dot_action option" where
  "dot_switch m src = do {
     c1 \<leftarrow> rd m (src + 1);
     if c1 = CHR ''/'' then Some (Skip 2)
     else if c1 = NUL then Some (Skip 1)
     else if c1 = CHR ''.'' then do {
       c2 \<leftarrow> rd m (src + 2);
       Some (if c2 = CHR ''/'' \<or> c2 = NUL then Parent else Ordinary) }
     else Some Ordinary }"

lemma dot_switch_Skip: "dot_switch m src = Some (Skip k) \<Longrightarrow> 0 < k"
  by (auto simp: dot_switch_def bind_Some_iff split: if_splits)

function remove_dots_loop :: "nat \<Rightarrow> mem \<Rightarrow> nat \<Rightarrow> nat \<Rightarrow> (int \<times> mem) option" where
  "remove_dots_loop path m src dst = do {
     c \<leftarrow> rd m src;
     if c = NUL then Some (0, m)
     else if c = CHR ''/'' then remove_dots_loop path m (src + 1) dst
     else do {
       act \<leftarrow> (if c = CHR ''.'' then dot_switch m src else Some Ordinary);
       case act of
         Skip k \<Rightarrow> (if k = 0 then None else remove_dots_loop path m (src + k) dst)
       | Parent \<Rightarrow>
           if dst = path + 1 then Some (-1, m)
           else do { dst' \<leftarrow> back_up m dst; remove_dots_loop path m (src + 3) dst' }
       | Ordinary \<Rightarrow> do {
           m1 \<leftarrow> wr m dst c;
           (m2, src2, dst2) \<leftarrow> copy_segment m1 (src + 1) (dst + 1);
           e \<leftarrow> rd m2 src2;
           m3 \<leftarrow> wr m2 dst2 e;
           if e = NUL then Some (0, m3) else remove_dots_loop path m3 (src2 + 1) (dst2 + 1) } } }"
  by pat_completeness auto
termination
  by (relation "measure (\<lambda>(path, m, s, d). length m - s)")
    (auto simp: rd_Some_iff wr_Some_iff dest!: copy_segment_src)

declare remove_dots_loop.simps [simp del]

definition nxweb_remove_dots_from_uri_path :: "mem \<Rightarrow> nat \<Rightarrow> (int \<times> mem) option" where
  "nxweb_remove_dots_from_uri_path m path = do {
     c \<leftarrow> rd m path;
     if c = NUL then Some (0, m)
     else if c \<noteq> CHR ''/'' then Some (-1, m)
     else remove_dots_loop path m (path + 1) (path + 1) }"

section \<open>Reference functions\<close>

fun url_escape :: "string \<Rightarrow> string" where
  "url_escape [] = []"
| "url_escape (c # s) =
     (if IS_URI_CHAR c then [c] else [CHR ''%'', HEX_DIGIT (code c div 16), HEX_DIGIT (code c)]) @ url_escape s"

fun url_dec :: "string \<Rightarrow> string" where
  "url_dec [] = []"
| "url_dec (c # s) =
     (if c = CHR ''+'' then SP # url_dec s
      else if c = CHR ''%'' then
        (case s of a # b # r \<Rightarrow> chr_of (16 * HEX_DIGIT_VALUE a + HEX_DIGIT_VALUE b) # url_dec r
         | _ \<Rightarrow> c # url_dec s)
      else c # url_dec s)"

fun path_enc :: "nat \<Rightarrow> string \<Rightarrow> string" where
  "path_enc n [] = []"
| "path_enc n (c # s) =
     (if c = CHR ''/'' then c # path_enc 0 s
      else
        let sep = (if n \<ge> MAX_PATH_SEGMENT then ''/'' else []); n = (if n \<ge> MAX_PATH_SEGMENT then 0 else n) in
        if (c = CHR ''.'' \<and> n = 0) \<or> \<not> IS_FILE_PATH_CHAR c
        then sep @ [CHR ''$'', HEX_DIGIT (code c div 16), HEX_DIGIT (code c)] @ path_enc (n + 3) s
        else sep @ c # path_enc (n + 1) s)"

section \<open>The table\<close>

lemma HEX_DIGIT_VALUE_HEX_DIGIT [simp]: "HEX_DIGIT_VALUE (HEX_DIGIT n) = n mod 16"
proof -
  have "list_all (\<lambda>k. init_char_map (if k < 10 then k + 48 else k + 55) AND CM_HEX_VALUE_MASK = k) [0..<16]"
    by code_simp
  then have "\<forall>k<16. init_char_map (if k < 10 then k + 48 else k + 55) AND CM_HEX_VALUE_MASK = k"
    by (simp add: list_all_iff)
  moreover have "n mod 16 < 16" by simp
  ultimately show ?thesis unfolding HEX_DIGIT_VALUE_def HEX_DIGIT_code by blast
qed

lemma uri_char_not [simp]:
  "\<not> IS_URI_CHAR (CHR ''%'')" "\<not> IS_URI_CHAR (CHR ''+'')" "\<not> IS_URI_CHAR NUL"
  by code_simp+

lemma file_path_char_simps [simp]:
  "IS_FILE_PATH_CHAR (CHR ''/'')" "\<not> IS_FILE_PATH_CHAR (CHR ''%'')" "\<not> IS_FILE_PATH_CHAR NUL"
  by code_simp+

section \<open>Escaping and decoding are inverse\<close>

lemma length_url_escape: "length (url_escape s) \<le> 3 * length s"
  by (induction s) auto

lemma emits_escape_url_loop: "3 * length s \<le> r \<Longrightarrow> emits r (escape_url_loop s) (url_escape s) 0"
proof (induction s arbitrary: r)
  case Nil
  have "escape_url_loop [] = Some" by (rule ext) simp
  then show ?case using emits_weaken [OF emits_Some [of r]] by simp
next
  case (Cons c s)
  have fast: "emits q (nxb_append_char_fast x) [x] (q - 1)" if "1 \<le> q" for q x
    using that by (rule emits_append_char_fast)
  show ?case
  proof (cases "IS_URI_CHAR c")
    case True
    have "emits r (\<lambda>nb. nxb_append_char_fast c nb \<bind> escape_url_loop s) ([c] @ url_escape s) 0"
      by (rule emits_bind [OF fast Cons.IH]) (use Cons.prems in auto)
    with True show ?thesis by simp
  next
    case False
    have "emits r (\<lambda>nb. nxb_append_char_fast (CHR ''%'') nb \<bind>
        (\<lambda>nb. nxb_append_char_fast (HEX_DIGIT (code c div 16)) nb \<bind>
        (\<lambda>nb. nxb_append_char_fast (HEX_DIGIT (code c)) nb \<bind> escape_url_loop s)))
        ([CHR ''%''] @ [HEX_DIGIT (code c div 16)] @ [HEX_DIGIT (code c)] @ url_escape s) 0"
      by (intro emits_bind [OF fast emits_bind [OF fast emits_bind [OF fast Cons.IH]]]) (use Cons.prems in auto)
    with False show ?thesis by simp
  qed
qed

lemma emits_append_escape_url: "emits r (nxb_append_escape_url s) (url_escape s) 0"
  using emits_bind [OF emits_reserve emits_escape_url_loop, of s r "length s * 3"]
  by (simp add: nxb_append_escape_url_def [abs_def] mult.commute)

lemma url_dec_escape: "url_dec (url_escape s) = s"
proof (induction s)
  case (Cons c s)
  have "16 * (code c div 16 mod 16) + code c mod 16 = code c"
    using less_mult_imp_div_less [of "code c" 16 16] by simp
  with Cons show ?case by auto
qed simp

lemma url_escape_no_NUL: "NUL \<notin> set s \<Longrightarrow> NUL \<notin> set (url_escape s)"
  by (induction s) (auto dest: sym)

lemma wr_head: "wr (xs @ g # gs @ r) (length xs) x = Some (xs @ x # gs @ r)"
  by simp

lemma nonempty_snoc: obtains g gs where "gap @ [c] = g # gs"
  by (cases gap) auto

lemma url_decode_loop_dec:
  "NUL \<notin> set s \<Longrightarrow>
   url_decode_loop (xs @ gap @ s @ NUL # ys) (length xs + length gap) (length xs) =
     Some (xs @ url_dec s @ NUL # drop (length (url_dec s) + 1) (gap @ s @ [NUL]) @ ys)"
proof (induction s arbitrary: xs gap rule: url_dec.induct)
  case 1
  obtain g gs where g: "gap @ [NUL] = g # gs" by (rule nonempty_snoc)
  have m: "xs @ gap @ NUL # ys = xs @ g # gs @ ys" using g by (metis append.assoc append_Cons append_Nil)
  have "rd (xs @ gap @ NUL # ys) (length xs + length gap) = Some NUL" using rd_split [of "xs @ gap"] by simp
  then show ?case
    using g wr_head [of xs g gs ys NUL] by (subst url_decode_loop.simps) (simp add: m)
next
  case (2 c s)
  have rd0: "rd (xs @ gap @ c # s @ NUL # ys) (length xs + length gap) = Some c"
    using rd_split [of "xs @ gap" c "s @ NUL # ys"] by simp
  have c: "c \<noteq> NUL" and s: "NUL \<notin> set s" using "2.prems" by auto
  obtain g gs where g: "gap @ [c] = g # gs" by (rule nonempty_snoc)
  have lg: "length gs = length gap" using g by (metis Suc_inject length_Cons length_append_singleton)
  have m: "xs @ gap @ c # s @ NUL # ys = xs @ g # gs @ s @ NUL # ys" using g by (metis append.assoc append_Cons append_Nil)
  have wrx: "wr (xs @ gap @ c # s @ NUL # ys) (length xs) x = Some (xs @ x # gs @ s @ NUL # ys)" for x
    unfolding m by (rule wr_head)
  have eqd: "drop (Suc (Suc n)) (gap @ c # s @ [NUL]) = drop (Suc n) (gs @ s @ [NUL])" for n
    using g by (metis append.assoc append_Cons append_Nil drop_Suc_Cons)
  have step: "url_decode_loop (xs @ x # gs @ s @ NUL # ys) (length xs + length gap + 1) (length xs + 1) =
      Some (xs @ (x # url_dec s) @ NUL # drop (length (x # url_dec s) + 1) (gap @ (c # s) @ [NUL]) @ ys)"
    if IH: "\<And>xs gap. url_decode_loop (xs @ gap @ s @ NUL # ys) (length xs + length gap) (length xs) =
       Some (xs @ url_dec s @ NUL # drop (length (url_dec s) + 1) (gap @ s @ [NUL]) @ ys)" for x
  proof -
    show ?thesis using IH [of "xs @ [x]" gs] by (simp add: lg eqd del: drop_append)
  qed
  show ?case
  proof (cases "c = CHR ''+''")
    case True
    then show ?thesis
      using step [of SP] "2.IH"(1) s c rd0 wrx [of SP]
      by (subst url_decode_loop.simps) simp
  next
    case plus: False
    show ?thesis
    proof (cases "c = CHR ''%'' \<and> (\<exists>a b r. s = a # b # r)")
      case True
      then obtain a b r where pc: "c = CHR ''%''" and sabr: "s = a # b # r" by blast
      have rds: "rd (xs @ gap @ c # s @ NUL # ys) (length xs + length gap + 1) = Some a"
        "rd (xs @ gap @ c # s @ NUL # ys) (length xs + length gap + 2) = Some b"
        using rd_split [of "xs @ gap @ [c]" a "b # r @ NUL # ys"] rd_split [of "xs @ gap @ [c, a]" b "r @ NUL # ys"]
        by (simp_all add: sabr)
      have ab: "a \<noteq> NUL" "b \<noteq> NUL" and r: "NUL \<notin> set r" using s sabr by auto
      define x where "x = chr_of (16 * HEX_DIGIT_VALUE a + HEX_DIGIT_VALUE b)"
      have "url_decode_loop (xs @ gap @ c # s @ NUL # ys) (length xs + length gap) (length xs) =
          url_decode_loop (xs @ x # gs @ s @ NUL # ys) (length xs + length gap + 3) (length xs + 1)"
        using rd0 rds ab pc wrx [of x]
        by (subst url_decode_loop.simps) (simp add: percent_at_def flip: x_def)
      also have "\<dots> = Some (xs @ x # url_dec r @ NUL # drop (length (url_dec r) + 1) ((gs @ [a, b]) @ r @ [NUL]) @ ys)"
        using "2.IH"(4) [OF plus pc sabr refl r, of "xs @ [x]" "gs @ [a, b]"] by (simp add: sabr lg numeral_3_eq_3)
      finally show ?thesis
        using eqd [of "length (url_dec r)"] by (simp add: pc sabr x_def del: drop_append)
    next
      case False
      have nopc: "(if c = CHR ''%'' then percent_at (xs @ gap @ c # s @ NUL # ys) (length xs + length gap) else Some None) = Some None"
      proof (cases "c = CHR ''%''")
        case True
        with False consider "s = []" | a where "s = [a]" by (metis list.exhaust)
        then show ?thesis
        proof cases
          case 1
          then show ?thesis using True rd_split [of "xs @ gap @ [c]" NUL ys] by (simp add: percent_at_def)
        next
          case (2 a)
          then show ?thesis
            using True rd_split [of "xs @ gap @ [c]" a "NUL # ys"] rd_split [of "xs @ gap @ [c, a]" NUL ys]
            by (simp add: percent_at_def)
        qed
      qed simp
      have dec: "url_dec (c # s) = c # url_dec s" using plus False by (cases s rule: remdups_adj.cases) auto
      have IH: "\<And>xs gap. url_decode_loop (xs @ gap @ s @ NUL # ys) (length xs + length gap) (length xs) =
         Some (xs @ url_dec s @ NUL # drop (length (url_dec s) + 1) (gap @ s @ [NUL]) @ ys)"
      proof (cases "c = CHR ''%''")
        case True
        with False consider "s = []" | a where "s = [a]" by (metis list.exhaust)
        then show "url_decode_loop (xs @ gap @ s @ NUL # ys) (length xs + length gap) (length xs) =
         Some (xs @ url_dec s @ NUL # drop (length (url_dec s) + 1) (gap @ s @ [NUL]) @ ys)" for xs gap
          by cases (use "2.IH"(2) [OF plus True _ s] "2.IH"(3) [OF plus True _ refl s] in blast)+
      next
        case neq: False
        from "2.IH"(5) [OF plus neq s]
        show "url_decode_loop (xs @ gap @ s @ NUL # ys) (length xs + length gap) (length xs) =
         Some (xs @ url_dec s @ NUL # drop (length (url_dec s) + 1) (gap @ s @ [NUL]) @ ys)" for xs gap .
      qed
      show ?thesis
        unfolding dec using step [OF IH, of c] rd0 c plus nopc wrx [of c]
        by (subst url_decode_loop.simps) (cases "c = CHR ''%''"; simp)
    qed
  qed
qed

text \<open>
  C26: \<^verbatim>\<open>nxweb_url_decode\<close> working in place never leaves the string it was given, and the
  bytes it leaves at the pointer are exactly those of the list-level decoder (a \<^verbatim>\<open>+\<close> becomes a
  space, \<^verbatim>\<open>%XY\<close> one byte, a \<^verbatim>\<open>%\<close> too close to the end is copied), followed by a terminator;
  bytes before and after the string are untouched.
\<close>

theorem nxweb_url_decode_inplace:
  assumes "NUL \<notin> set s"
  shows "nxweb_url_decode (xs @ s @ NUL # ys) (length xs) None =
     Some (xs @ url_dec s @ NUL # drop (length (url_dec s) + 1) (s @ [NUL]) @ ys)"
  using url_decode_loop_dec [OF assms, of xs "[]" ys] by (simp add: nxweb_url_decode_def)

theorem nxweb_url_decode_inplace_witness:
  "nxweb_url_decode ([SP] @ ''a+b%2Fc%'' @ NUL # ''z'') 1 None =
     Some ([SP] @ url_dec ''a+b%2Fc%'' @ NUL # drop (length (url_dec ''a+b%2Fc%'') + 1) (''a+b%2Fc%'' @ [NUL]) @ ''z'')"
  using nxweb_url_decode_inplace [of "''a+b%2Fc%''" "[SP]" "''z''"] by simp

text \<open>
  C27: what \<^verbatim>\<open>_nxb_append_escape_url\<close> appends to an arena, decoded in place by
  \<^verbatim>\<open>nxweb_url_decode\<close>, is the original string again, for every string; and the escaping
  itself stays within the room it reserved.
\<close>

theorem escape_decode_roundtrip:
  assumes "NUL \<notin> set s" "nxb_ok nb" "nb_limit nb = None"
  shows "\<exists>nb' t. nxb_append_escape_url s nb = Some nb' \<and> nxb_stream nb' = nxb_stream nb @ t
     \<and> (\<exists>m. nxweb_url_decode (t @ NUL # ys) 0 None = Some m \<and> cstr_at m 0 s)"
proof -
  obtain nb' where nb': "nxb_append_escape_url s nb = Some nb'" "nxb_stream nb' = nxb_stream nb @ url_escape s"
    using emits_append_escape_url [of 0 s] assms(2,3) by (elim emitsE) auto
  have "cstr_at ([] @ s @ NUL # drop (length s + 1) (url_escape s @ [NUL]) @ ys) 0 s"
    using assms(1) by (intro cstr_atI) auto
  then have "\<exists>m. nxweb_url_decode (url_escape s @ NUL # ys) 0 None = Some m \<and> cstr_at m 0 s"
    using url_decode_loop_dec [OF url_escape_no_NUL [OF assms(1)], of "[]" "[]" ys]
    by (simp add: nxweb_url_decode_def url_dec_escape del: drop_append)
  with nb' show ?thesis by blast
qed

theorem escape_decode_roundtrip_witness:
  "\<exists>nb' t. nxb_append_escape_url ''a b/%'' fresh_nxb = Some nb' \<and> nxb_stream nb' = nxb_stream fresh_nxb @ t
     \<and> (\<exists>m. nxweb_url_decode (t @ NUL # []) 0 None = Some m \<and> cstr_at m 0 ''a b/%'')"
  by (rule escape_decode_roundtrip) (simp_all add: fresh_nxb_ok fresh_nxb_eval)

section \<open>HTML escaping\<close>

fun html_escape :: "string \<Rightarrow> string" where
  "html_escape [] = []"
| "html_escape (c # s) = html_escape_char c @ html_escape s"

lemma html_escape_loop_acc:
  "html_escape_loop s out len = (out @ html_escape s, len + length (html_escape s))"
  by (induction s arbitrary: out len) auto

lemma print_url_loop_acc:
  "print_url_loop s out len = (out @ url_escape s, len + length (url_escape s))"
  by (induction s arbitrary: out len) auto

lemma html_escape_char_safe:
  "x \<in> set (html_escape_char c) \<Longrightarrow> x \<noteq> CHR ''<'' \<and> x \<noteq> CHR ''>'' \<and> x \<noteq> DQ \<and> x \<noteq> CHR 0x27"
  by (auto simp: html_escape_char_def split: if_splits)

text \<open>
  The \<^verbatim>\<open>%H\<close> conversion returns the number of characters it printed, and these contain none
  of the characters that open or close tags and attribute values.
\<close>

theorem print_html_escaped_safe:
  "print_html_escaped (Some s) = (html_escape s, length (html_escape s))
   \<and> set (html_escape s) \<inter> {CHR ''<'', CHR ''>'', DQ, CHR 0x27} = {}"
proof -
  have "set (html_escape s) \<inter> {CHR ''<'', CHR ''>'', DQ, CHR 0x27} = {}"
    by (induction s) (auto dest: html_escape_char_safe)
  then show ?thesis by (simp add: print_html_escaped_def html_escape_loop_acc)
qed

section \<open>Encoded file paths\<close>

fun split_slash :: "string \<Rightarrow> string list" where
  "split_slash [] = [[]]"
| "split_slash (c # t) =
     (if c = CHR ''/'' then [] # split_slash t
      else (case split_slash t of [] \<Rightarrow> [[c]] | s # ss \<Rightarrow> (c # s) # ss))"

definition path_byte :: "char \<Rightarrow> bool" where
  "path_byte c \<longleftrightarrow> c = CHR ''$'' \<or> IS_FILE_PATH_CHAR c"

definition segment_ok :: "nat \<Rightarrow> string \<Rightarrow> bool" where
  "segment_ok n seg \<longleftrightarrow> n + length seg \<le> MAX_PATH_SEGMENT + 2
     \<and> (n = 0 \<longrightarrow> seg = [] \<or> hd seg \<noteq> CHR ''.'') \<and> list_all path_byte seg"

definition segments_ok :: "nat \<Rightarrow> string list \<Rightarrow> bool" where
  "segments_ok n ss \<longleftrightarrow> (case ss of [] \<Rightarrow> False | s # r \<Rightarrow> segment_ok n s \<and> list_all (segment_ok 0) r)"

lemma segments_ok_slash:
  "n \<le> MAX_PATH_SEGMENT + 2 \<Longrightarrow> segments_ok 0 (split_slash t) \<Longrightarrow> segments_ok n (split_slash (CHR ''/'' # t))"
  by (auto simp: segments_ok_def segment_ok_def split: list.splits)

lemma segments_ok_byte:
  "\<lbrakk>c \<noteq> CHR ''/''; path_byte c; n = 0 \<longrightarrow> c \<noteq> CHR ''.''; segments_ok (Suc n) (split_slash t)\<rbrakk>
   \<Longrightarrow> segments_ok n (split_slash (c # t))"
  by (auto simp: segments_ok_def segment_ok_def split: list.splits)

lemma path_byte_HEX_DIGIT: "path_byte (HEX_DIGIT n) \<and> HEX_DIGIT n \<noteq> CHR ''/'' \<and> HEX_DIGIT n \<noteq> CHR ''.''"
proof -
  have "list_all (\<lambda>k. let c = HEX_DIGIT k in path_byte c \<and> c \<noteq> CHR ''/'' \<and> c \<noteq> CHR ''.'') [0..<16]"
    by code_simp
  then have "\<forall>k<16. path_byte (HEX_DIGIT k) \<and> HEX_DIGIT k \<noteq> CHR ''/'' \<and> HEX_DIGIT k \<noteq> CHR ''.''"
    by (simp add: list_all_iff Let_def)
  moreover have "HEX_DIGIT n = HEX_DIGIT (n mod 16)" by (simp add: HEX_DIGIT_def)
  moreover have "n mod 16 < 16" by simp
  ultimately show ?thesis by metis
qed

lemma segments_ok_escape:
  assumes "segments_ok (n + 3) (split_slash t)"
  shows "segments_ok n (split_slash (CHR ''$'' # HEX_DIGIT a # HEX_DIGIT b # t))"
proof -
  have "path_byte (CHR ''$'')" by (simp add: path_byte_def)
  with assms path_byte_HEX_DIGIT show ?thesis
    by (intro segments_ok_byte) (auto simp: numeral_3_eq_3)
qed

lemma path_enc_segments: "n \<le> MAX_PATH_SEGMENT + 2 \<Longrightarrow> segments_ok n (split_slash (path_enc n s))"
proof (induction s arbitrary: n)
  case Nil
  then show ?case by (simp add: segments_ok_def segment_ok_def)
next
  case (Cons c s)
  have esc: "segments_ok n (split_slash (CHR ''$'' # HEX_DIGIT a # HEX_DIGIT b # path_enc (n + 3) s))"
    if "n < MAX_PATH_SEGMENT" for n a b
    using Cons.IH [of "n + 3"] that by (intro segments_ok_escape) simp
  have plain: "segments_ok n (split_slash (c # path_enc (n + 1) s))"
    if "n < MAX_PATH_SEGMENT" "c \<noteq> CHR ''/''" "IS_FILE_PATH_CHAR c" "\<not> (c = CHR ''.'' \<and> n = 0)" for n
    using Cons.IH [of "n + 1"] that by (intro segments_ok_byte) (auto simp: path_byte_def)
  have pos: "0 < MAX_PATH_SEGMENT" by (simp add: MAX_PATH_SEGMENT_def)
  show ?case
  proof (cases "c = CHR ''/''")
    case True
    with segments_ok_slash [OF Cons.prems Cons.IH [of 0]] show ?thesis by simp
  next
    case False
    show ?thesis
    proof (cases "MAX_PATH_SEGMENT \<le> n")
      case True
      with False pos esc [of 0] plain [of 0] segments_ok_slash [OF Cons.prems] show ?thesis
        by (simp add: Let_def del: split_slash.simps)
    next
      case nf: False
      with False esc [of n] plain [of n] show ?thesis by (simp add: Let_def del: split_slash.simps)
    qed
  qed
qed

lemma fast_char_room: "nxb_append_char_fast c nb = Some nb' \<Longrightarrow> nxb_room nb = Suc (nxb_room nb')"
  by (auto simp: nxb_append_char_fast_def nxb_append_fast_def nxb_room_def split: if_splits)

lemma encode_loop_room:
  "encode_file_path_loop s n nb = Some nb' \<Longrightarrow> nxb_room nb = length (path_enc n s) + nxb_room nb'"
proof (induction s arbitrary: n nb)
  case Nil
  then show ?case by simp
next
  case (Cons c s)
  from Cons.prems show ?case
    by (auto simp: bind_Some_iff Let_def dest!: fast_char_room Cons.IH split: if_splits)
qed

lemma emits_encode_loop: "length (path_enc n s) \<le> r \<Longrightarrow> emits r (encode_file_path_loop s n) (path_enc n s) 0"
proof (induction s arbitrary: n r)
  case Nil
  have "encode_file_path_loop [] n = Some" by (rule ext) simp
  then show ?case using emits_weaken [OF emits_Some [of r]] by simp
next
  case (Cons c s)
  have fast: "emits q (\<lambda>nb. nxb_append_char_fast x nb \<bind> g) ([x] @ t) 0"
    if "emits (q - 1) g t 0" "1 \<le> q" for q x g t
    by (rule emits_bind [OF emits_append_char_fast that(1)]) (use that in auto)
  have esc: "emits q (\<lambda>nb. nxb_append_char_fast (CHR ''$'') nb \<bind>
      (\<lambda>nb. nxb_append_char_fast (HEX_DIGIT (code c div 16)) nb \<bind>
      (\<lambda>nb. nxb_append_char_fast (HEX_DIGIT (code c)) nb \<bind> encode_file_path_loop s (k + 3))))
      ([CHR ''$''] @ [HEX_DIGIT (code c div 16)] @ [HEX_DIGIT (code c)] @ path_enc (k + 3) s) 0"
    if "3 + length (path_enc (k + 3) s) \<le> q" for k q
    by (intro fast Cons.IH) (use that in auto)
  have plain: "emits q (\<lambda>nb. nxb_append_char_fast c nb \<bind> encode_file_path_loop s (k + 1)) ([c] @ path_enc (k + 1) s) 0"
    if "1 + length (path_enc (k + 1) s) \<le> q" for k q
    by (intro fast Cons.IH) (use that in auto)
  show ?case
  proof (cases "c = CHR ''/''")
    case True
    with Cons.prems fast [OF Cons.IH [of 0 "r - 1"], of c] show ?thesis by simp
  next
    case False
    show ?thesis
    proof (cases "MAX_PATH_SEGMENT \<le> n")
      case True
      show ?thesis
      proof (cases "c = CHR ''.'' \<or> \<not> IS_FILE_PATH_CHAR c")
        case esc_c: True
        with True False Cons.prems have "3 + length (path_enc 3 s) \<le> r - 1" by (simp add: Let_def)
        with True False esc_c Cons.prems fast [OF esc [of 0 "r - 1"], of "CHR ''/''"] show ?thesis
          by (simp add: Let_def)
      next
        case plain_c: False
        with True False Cons.prems have "1 + length (path_enc 1 s) \<le> r - 1" by (simp add: Let_def)
        with True False plain_c Cons.prems fast [OF plain [of 0 "r - 1"], of "CHR ''/''"] show ?thesis
          by (simp add: Let_def)
      qed
    next
      case nf: False
      with False Cons.prems esc [of n r] plain [of n r] show ?thesis by (auto simp: Let_def)
    qed
  qed
qed

text \<open>
  C28: whatever path is encoded (a host name or a URI used as a cache file name), no segment of
  the result starts with a dot, so it can never be or contain a \<^verbatim>\<open>..\<close> component, every segment
  has at most 232 bytes, and only letters, digits, \<^verbatim>\<open>. - _\<close> and \<^verbatim>\<open>$\<close> occur in it; and when the
  encoded text fits into the reserved room, exactly it is appended.
\<close>

theorem encode_file_path_safe:
  assumes "nxb_ok nb" "nb_limit nb = None" "length (path_enc 0 path) \<le> encode_file_path_max_size path"
  shows "\<exists>nb'. nxb_append_encode_file_path path nb = Some nb' \<and> nxb_ok nb'
     \<and> nxb_stream nb' = nxb_stream nb @ path_enc 0 path \<and> nxb_frame nb nb'
     \<and> list_all (\<lambda>seg. length seg \<le> 232 \<and> (seg = [] \<or> hd seg \<noteq> CHR ''.'') \<and> list_all path_byte seg)
          (split_slash (path_enc 0 path))"
proof -
  have "emits 0 (\<lambda>nb. nxb_reserve (encode_file_path_max_size path) nb \<bind> encode_file_path_loop path 0) ([] @ path_enc 0 path) 0"
    by (rule emits_bind [OF emits_reserve emits_encode_loop]) (use assms(3) in auto)
  then obtain nb' where nb': "nxb_reserve (encode_file_path_max_size path) nb \<bind> encode_file_path_loop path 0 = Some nb'"
    "nxb_ok nb'" "nxb_stream nb' = nxb_stream nb @ path_enc 0 path" "nxb_frame nb nb'"
    using assms(1,2) by (elim emitsE) auto
  have "nxb_append_encode_file_path path nb = Some (if path = [] then nb else nb')"
    using nb'(1) by (simp add: nxb_append_encode_file_path_def)
  moreover have "segments_ok 0 (split_slash (path_enc 0 path))" by (rule path_enc_segments) simp
  then have "list_all (\<lambda>seg. length seg \<le> 232 \<and> (seg = [] \<or> hd seg \<noteq> CHR ''.'') \<and> list_all path_byte seg)
      (split_slash (path_enc 0 path))"
    by (auto simp: segments_ok_def segment_ok_def MAX_PATH_SEGMENT_def list_all_iff split: list.splits)
  ultimately show ?thesis using nb' assms(1) by auto
qed

theorem encode_file_path_safe_witness:
  "\<exists>nb'. nxb_append_encode_file_path ''/../.x'' fresh_nxb = Some nb'
     \<and> nxb_stream nb' = nxb_stream fresh_nxb @ ''/$2E./$2Ex''"
proof -
  have e: "path_enc 0 ''/../.x'' = ''/$2E./$2Ex''" by code_simp
  have "length (path_enc 0 ''/../.x'') \<le> encode_file_path_max_size ''/../.x''"
    unfolding e by code_simp
  from encode_file_path_safe [OF fresh_nxb_ok(1) fresh_nxb_eval(4) this] e show ?thesis by auto
qed

text \<open>An arena with exactly 234 bytes of room.\<close>

definition tight_nxb :: nxb_buffer where
  "tight_nxb = \<lparr>nb_base = 1017, nb_ptr = 1017, nb_end = 1251,
     nb_chunks = [\<lparr>nc_addr = 1000, nc_end = 1251, nc_should_free = False, nc_dirty = False\<rparr>],
     nb_mem = (\<lambda>_. NUL), nb_brk = 2000, nb_limit = None, nb_freed = []\<rparr>"

text \<open>
  The room \<^verbatim>\<open>_nxb_append_encode_file_path\<close> reserves, three bytes per character and one
  separator per 230 characters, is not enough: escaped characters fill a segment after 77 of
  them.  For a path of 78 percent signs on an arena with the reserved 234 bytes of room left,
  the unchecked appends run over the end of the room.
\<close>

theorem encode_file_path_overruns:
  "nxb_ok tight_nxb \<and> nb_limit tight_nxb = None
   \<and> nxb_room tight_nxb = encode_file_path_max_size (replicate 78 (CHR ''%''))
   \<and> nxb_append_encode_file_path (replicate 78 (CHR ''%'')) tight_nxb = None"
proof -
  let ?p = "replicate 78 (CHR ''%'')"
  have ok: "nxb_ok tight_nxb" "nb_limit tight_nxb = None"
    by (simp_all add: tight_nxb_def nxb_ok_def chunks_ok_def nc_buf_def nxb_consts)
  have room: "nxb_room tight_nxb = encode_file_path_max_size ?p" "nxb_room tight_nxb = 234"
    by (simp_all add: tight_nxb_def nxb_room_def encode_file_path_max_size_def MAX_PATH_SEGMENT_def)
  have len: "length (path_enc 0 ?p) = 235" by code_simp
  have "encode_file_path_loop ?p 0 tight_nxb = None"
    using encode_loop_room [of ?p 0 tight_nxb] len room(2) by (cases "encode_file_path_loop ?p 0 tight_nxb") auto
  then have "nxb_append_encode_file_path ?p tight_nxb = None"
    using room by (simp add: nxb_append_encode_file_path_def nxb_reserve_def nxb_make_room_def nxb_room_def)
  with ok room show ?thesis by simp
qed

end
