(* ===== verification/Nx_Path.thy ===== *)
theory Nx_Path
  imports Nx_Url
begin

text \<open>
  Correctness of \<^verbatim>\<open>nxweb_remove_dots_from_uri_path\<close> (\<^verbatim>\<open>lib/http_utils.c\<close>), the in-place
  normalisation that every static file path and proxied URI goes through.  The reference is a
  stack machine on the segments of the path; the loop of the code is shown to run that machine
  in the caller's array, with the processed directories, a gap and the unread rest.
\<close>

section \<open>Reference: a stack of directories\<close>

fun norm_segs :: "string list \<Rightarrow> string list \<Rightarrow> string list option" where
  "norm_segs stk [] = Some (rev stk)"
| "norm_segs stk (s # ss) =
     (if s = [] \<or> s = ''.'' then norm_segs stk ss
      else if s = ''..'' then (case stk of [] \<Rightarrow> None | _ # t \<Rightarrow> norm_segs t ss)
      else norm_segs (s # stk) ss)"

fun join_slash :: "string list \<Rightarrow> string" where
  "join_slash [] = []"
| "join_slash [s] = s"
| "join_slash (s # t # ss) = s @ CHR ''/'' # join_slash (t # ss)"

definition dirs :: "string list \<Rightarrow> string" where
  "dirs ds = concat (map (\<lambda>s. s @ [CHR ''/'']) ds)"

definition seg_plain :: "string \<Rightarrow> bool" where
  "seg_plain s \<longleftrightarrow> NUL \<notin> set s \<and> CHR ''/'' \<notin> set s"

lemma seg_plain_simps [simp]:
  "seg_plain []" "seg_plain (a # s) \<longleftrightarrow> a \<noteq> NUL \<and> a \<noteq> CHR ''/'' \<and> seg_plain s"
  by (auto simp: seg_plain_def)

lemma dirs_simps [simp]: "dirs [] = []" "dirs (ds @ [d]) = dirs ds @ d @ [CHR ''/'']"
  by (simp_all add: dirs_def)

lemma join_slash_dirs [simp]: "join_slash (ds @ [s]) = dirs ds @ s"
proof (induction ds)
  case (Cons d ds)
  then show ?case by (cases ds) (simp_all add: dirs_def)
qed simp

lemma join_slash_Cons: "ss \<noteq> [] \<Longrightarrow> join_slash (s # ss) = s @ CHR ''/'' # join_slash ss"
  by (cases ss) simp_all

text \<open>A normalised path climbs nowhere: no empty, \<^verbatim>\<open>.\<close> or \<^verbatim>\<open>..\<close> segment is left.\<close>

lemma norm_segs_clean:
  "norm_segs stk ss = Some out \<Longrightarrow> set out \<subseteq> set stk \<union> (set ss - {[], ''.'', ''..''})"
proof (induction ss arbitrary: stk)
  case Nil
  then show ?case by auto
next
  case (Cons s ss)
  show ?case
  proof (cases "s \<in> {[], ''.'', ''..''}")
    case True
    with Cons.prems obtain stk' where "norm_segs stk' ss = Some out" "set stk' \<subseteq> set stk"
      by (cases stk) (auto, blast)
    with Cons.IH [of stk'] show ?thesis by auto
  next
    case False
    with Cons.prems have "norm_segs (s # stk) ss = Some out" by simp
    with Cons.IH [of "s # stk"] False show ?thesis by auto
  qed
qed

section \<open>Copying one segment\<close>

lemma copy_segment_split:
  assumes "seg_plain x" "e = NUL \<or> e = CHR ''/''"
  shows "copy_segment (P @ G @ x @ e # Y) (length P + length G) (length P)
    = Some (P @ x @ drop (length x) (G @ x) @ e # Y, length P + length G + length x, length P + length x)"
  using assms
proof (induction x arbitrary: P G)
  case Nil
  have "rd ((P @ G) @ e # Y) (length (P @ G)) = Some e" by (rule rd_split)
  with Nil show ?case by (subst copy_segment.simps) auto
next
  case (Cons a x)
  then have a: "a \<noteq> NUL" "a \<noteq> CHR ''/''" and x: "seg_plain x" by auto
  obtain h T where hT: "G @ [a] = h # T" by (cases "G @ [a]") auto
  have len: "length T = length G" using arg_cong [OF hT, of length] by simp
  have r: "rd ((P @ G) @ a # x @ e # Y) (length (P @ G)) = Some a" by (rule rd_split)
  have "P @ G @ a # x @ e # Y = P @ h # T @ x @ e # Y"
    using arg_cong [OF hT, of "\<lambda>z. P @ z @ x @ e # Y"] by simp
  then have w: "wr (P @ G @ a # x @ e # Y) (length P) a = Some ((P @ [a]) @ T @ x @ e # Y)"
    using wr_split [of P h "T @ x @ e # Y" a] by (simp only: append.assoc append_Cons append_Nil)
  have "drop (length (a # x)) (G @ a # x) = drop (length x) (T @ x)"
    using arg_cong [OF hT, of "\<lambda>z. drop (length (a # x)) (z @ x)"] by (simp del: drop_append)
  with Cons.IH [OF x Cons.prems(2), of "P @ [a]" T] r w a len show ?case
    by (subst copy_segment.simps) (simp del: drop_append)
qed

text \<open>The body of the loop for an ordinary segment: the segment and the byte that ends it move down.\<close>

lemma copy_whole_segment:
  assumes "seg_plain (a # x)" "e = NUL \<or> e = CHR ''/''"
  obtains G' where "length G' = length G" "set G' \<subseteq> insert e (set (G @ a # x))"
    "wr (P @ G @ (a # x) @ e # Y) (length P) a \<bind> (\<lambda>m1. copy_segment m1 (length P + length G + 1) (length P + 1)
       \<bind> (\<lambda>(m2, src2, dst2). rd m2 src2 \<bind> (\<lambda>e. wr m2 dst2 e \<bind> (\<lambda>m3. f m3 src2 dst2 e))))
     = f (P @ (a # x) @ e # G' @ Y) (length P + length G + length (a # x)) (length P + length (a # x)) e"
proof -
  let ?m = "P @ G @ (a # x) @ e # Y"
  let ?T = "drop (length (a # x)) (G @ a # x)"
  have len: "length ?T = length G" by (simp del: drop_append)
  obtain h T where hT: "?T @ [e] = h # T" by (cases "?T @ [e]") auto
  have lT: "length T = length G" using arg_cong [OF hT, of length] len by simp
  have sT: "set T \<subseteq> insert e (set (G @ a # x))"
  proof
    fix c
    assume "c \<in> set T"
    then have "c \<in> set (?T @ [e])" unfolding hT by simp
    then have "c \<in> set ?T \<or> c = e" unfolding set_append by auto
    then show "c \<in> insert e (set (G @ a # x))" using in_set_dropD by fast
  qed
  have r: "rd ((P @ G) @ a # x @ e # Y) (length (P @ G)) = Some a" by (rule rd_split)
  have "copy_segment ?m (length P + length G) (length P)
      = Some (P @ (a # x) @ ?T @ e # Y, length P + length G + length (a # x), length P + length (a # x))"
    by (rule copy_segment_split [OF assms])
  then have c: "wr ?m (length P) a \<bind> (\<lambda>m1. copy_segment m1 (length P + length G + 1) (length P + 1))
      = Some (P @ (a # x) @ ?T @ e # Y, length P + length G + length (a # x), length P + length (a # x))"
    using assms(1) r copy_segment.simps [of ?m "length P + length G" "length P"]
    by (simp del: drop_append)
  have r2: "rd ((P @ (a # x) @ ?T) @ e # Y) (length (P @ (a # x) @ ?T)) = Some e" by (rule rd_split)
  then have r3: "rd (P @ (a # x) @ ?T @ e # Y) (length P + length G + length (a # x)) = Some e"
    using len by (simp add: add.commute add.left_commute del: drop_append)
  have eq: "P @ (a # x) @ ?T @ e # Y = (P @ a # x) @ h # T @ Y"
    using arg_cong [OF hT, of "\<lambda>z. P @ (a # x) @ z @ Y"] by (simp del: drop_append)
  have w: "wr (P @ (a # x) @ ?T @ e # Y) (length P + length (a # x)) e = Some (P @ (a # x) @ e # T @ Y)"
    unfolding eq using wr_split [of "P @ a # x" h "T @ Y" e] by simp
  have "wr ?m (length P) a \<bind> (\<lambda>m1. copy_segment m1 (length P + length G + 1) (length P + 1)
       \<bind> (\<lambda>(m2, src2, dst2). rd m2 src2 \<bind> (\<lambda>e. wr m2 dst2 e \<bind> (\<lambda>m3. f m3 src2 dst2 e))))
     = (wr ?m (length P) a \<bind> (\<lambda>m1. copy_segment m1 (length P + length G + 1) (length P + 1)))
       \<bind> (\<lambda>(m2, src2, dst2). rd m2 src2 \<bind> (\<lambda>e. wr m2 dst2 e \<bind> (\<lambda>m3. f m3 src2 dst2 e)))"
    by (cases "wr ?m (length P) a") auto
  also have "\<dots> = f (P @ (a # x) @ e # T @ Y) (length P + length G + length (a # x)) (length P + length (a # x)) e"
    unfolding c using r3 w by (simp del: length_Cons drop_append)
  finally show ?thesis by (rule that [OF lT sT])
qed

lemma back_up_split:
  assumes "CHR ''/'' \<notin> set d"
  shows "back_up (P @ CHR ''/'' # d @ Z) (length P + 1 + length d + 1) = Some (length P + 1)"
  using assms
proof (induction d arbitrary: Z rule: rev_induct)
  case Nil
  then show ?case by (subst back_up.simps) simp
next
  case (snoc c d)
  have "rd ((P @ CHR ''/'' # d) @ c # Z) (length (P @ CHR ''/'' # d)) = Some c" by (rule rd_split)
  with snoc.IH [of "c # Z"] snoc.prems show ?case by (subst back_up.simps) auto
qed

lemma dot_switch_ordinary:
  assumes "seg_plain s" "s \<noteq> ''.''" "s \<noteq> ''..''" "s = CHR ''.'' # r" "e = NUL \<or> e = CHR ''/''"
  shows "dot_switch (A @ s @ e # Y) (length A) = Some Ordinary"
proof -
  have r1: "rd ((A @ [CHR ''.'']) @ c # Z) (length (A @ [CHR ''.''])) = Some c" for c Z by (rule rd_split)
  have r2: "rd ((A @ [CHR ''.'', c]) @ d # Z) (length (A @ [CHR ''.'', c])) = Some d" for c d Z by (rule rd_split)
  from assms(2,4) obtain b r' where r: "r = b # r'" by (cases r) auto
  show ?thesis
  proof (cases "b = CHR ''.''")
    case True
    with assms(3,4) r obtain b' r'' where "r' = b' # r''" by (cases r') auto
    with True assms(1,4) r r1 [of "CHR ''.''"] r2 [of "CHR ''.''" b'] show ?thesis
      by (simp add: dot_switch_def)
  next
    case False
    with assms(1,4) r r1 [of b] show ?thesis by (simp add: dot_switch_def)
  qed
qed

section \<open>The loop runs the stack machine\<close>

text \<open>
  The four ways through the body, on a memory that is split at \<^verbatim>\<open>src\<close>.
\<close>

lemma loop_slash:
  "remove_dots_loop p (A @ CHR ''/'' # R) (length A) dst
   = remove_dots_loop p ((A @ ''/'') @ R) (length (A @ ''/'')) dst"
  by (subst remove_dots_loop.simps) simp

lemma loop_dot:
  "remove_dots_loop p (A @ ''./'' @ R) (length A) dst
   = remove_dots_loop p ((A @ ''./'') @ R) (length (A @ ''./'')) dst"
  using rd_split [of "A @ ''.''" "CHR ''/''" R]
  by (subst remove_dots_loop.simps) (simp add: dot_switch_def)

lemma loop_dotdot:
  "remove_dots_loop p (A @ ''../'' @ R) (length A) dst
   = (if dst = p + 1 then Some (-1, A @ ''../'' @ R)
      else back_up (A @ ''../'' @ R) dst \<bind> remove_dots_loop p ((A @ ''../'') @ R) (length (A @ ''../'')))"
  using rd_split [of "A @ ''.''" "CHR ''.''" "CHR ''/'' # R"] rd_split [of "A @ ''..''" "CHR ''/''" R]
  by (subst remove_dots_loop.simps) (simp add: dot_switch_def numeral_3_eq_3)

lemma loop_ordinary:
  assumes "seg_plain s" "s \<notin> {[], ''.'', ''..''}" "e = NUL \<or> e = CHR ''/''"
  obtains G' where "length G' = length G" "set G' \<subseteq> insert e (set (G @ s))"
    "remove_dots_loop p (P @ G @ s @ e # R) (length P + length G) (length P)
     = (if e = NUL then Some (0, P @ s @ NUL # G' @ R)
        else remove_dots_loop p ((P @ s @ ''/'') @ G' @ R) (length (P @ s @ ''/'') + length G') (length (P @ s @ ''/'')))"
proof -
  obtain a x where s: "s = a # x" using assms(2) by (cases s) auto
  have act: "(if a = CHR ''.'' then dot_switch ((P @ G) @ s @ e # R) (length (P @ G)) else Some Ordinary) = Some Ordinary"
    using dot_switch_ordinary [OF assms(1), of x e "P @ G" R] assms s by auto
  have r: "rd ((P @ G) @ a # x @ e # R) (length (P @ G)) = Some a" by (rule rd_split)
  obtain G' where G': "length G' = length G" "set G' \<subseteq> insert e (set (G @ s))"
    "wr (P @ G @ s @ e # R) (length P) a \<bind> (\<lambda>m1. copy_segment m1 (length P + length G + 1) (length P + 1)
       \<bind> (\<lambda>(m2, src2, dst2). rd m2 src2 \<bind> (\<lambda>e. wr m2 dst2 e
       \<bind> (\<lambda>m3. if e = NUL then Some (0, m3) else remove_dots_loop p m3 (src2 + 1) (dst2 + 1)))))
     = (if e = NUL then Some (0, P @ s @ e # G' @ R)
        else remove_dots_loop p (P @ s @ e # G' @ R) (length P + length G + length s + 1) (length P + length s + 1))"
    unfolding s by (rule copy_whole_segment
      [OF assms(1) [unfolded s] assms(3), of G P R
        "\<lambda>m3 src2 dst2 e. if e = NUL then Some (0, m3) else remove_dots_loop p m3 (src2 + 1) (dst2 + 1)"])
  have pl: "a \<noteq> NUL" "a \<noteq> CHR ''/''" using assms(1) s by auto
  have "remove_dots_loop p (P @ G @ s @ e # R) (length P + length G) (length P)
     = (if e = NUL then Some (0, P @ s @ NUL # G' @ R)
        else remove_dots_loop p ((P @ s @ ''/'') @ G' @ R) (length (P @ s @ ''/'') + length G') (length (P @ s @ ''/'')))"
    using G' act r pl assms(3) s by (subst remove_dots_loop.simps) (auto simp: ac_simps)
  with G'(1,2) show ?thesis by (rule that)
qed

definition dots_spec :: "string \<Rightarrow> nat \<Rightarrow> string \<Rightarrow> string list option \<Rightarrow> (int \<times> mem) option \<Rightarrow> bool" where
  "dots_spec X n Y norm res \<longleftrightarrow>
     (case norm of
        None \<Rightarrow> \<exists>Z. length Z = n + 1 \<and> res = Some (-1, X @ CHR ''/'' # Z @ Y)
      | Some out \<Rightarrow> \<exists>Z. length (join_slash out @ Z) = n
          \<and> res = Some (0, X @ CHR ''/'' # join_slash out @ NUL # Z @ Y))"

lemma remove_dots_loop_refines:
  assumes "\<forall>s \<in> set segs. seg_plain s" "\<forall>d \<in> set ds. seg_plain d"
    "segs \<noteq> []" "last segs \<notin> {[], ''.'', ''..''}" "P = X @ CHR ''/'' # dirs ds"
  shows "dots_spec X (length (dirs ds @ G @ join_slash segs)) Y (norm_segs (rev ds) segs)
    (remove_dots_loop (length X) (P @ G @ join_slash segs @ NUL # Y) (length P + length G) (length P))"
  using assms
proof (induction segs arbitrary: ds G P)
  case Nil
  then show ?case by simp
next
  case (Cons s ss)
  note P = \<open>P = X @ CHR ''/'' # dirs ds\<close>
  have IH: "dots_spec X (length (dirs ds' @ G' @ join_slash ss)) Y (norm_segs (rev ds') ss)
    (remove_dots_loop (length X) (P' @ G' @ join_slash ss @ NUL # Y) (length P' + length G') (length P'))"
    if "ss \<noteq> []" "\<forall>d \<in> set ds'. seg_plain d" "P' = X @ CHR ''/'' # dirs ds'" for ds' G' P'
    using Cons.IH [of ds' P' G'] Cons.prems that by simp
  show ?case
  proof (cases "s \<in> {[], ''.'', ''..''}")
    case True
    with Cons.prems have ss: "ss \<noteq> []" by auto
    note j = join_slash_Cons [OF ss, of s]
    from True consider "s = []" | "s = ''.''" | "s = ''..''" by auto
    then show ?thesis
    proof cases
      case 1
      with loop_slash [of "length X" "P @ G" "join_slash ss @ NUL # Y" "length P"]
        IH [OF ss Cons.prems(2) P, of "G @ ''/''"] j
      show ?thesis by simp
    next
      case 2
      with loop_dot [of "length X" "P @ G" "join_slash ss @ NUL # Y" "length P"]
        IH [OF ss Cons.prems(2) P, of "G @ ''./''"] j
      show ?thesis by simp
    next
      case 3
      show ?thesis
      proof (cases ds rule: rev_cases)
        case Nil
        with 3 j P loop_dotdot [of "length X" "P @ G" "join_slash ss @ NUL # Y" "length P"]
        show ?thesis by (simp add: dots_spec_def)
      next
        case (snoc ds' d)
        let ?P' = "X @ CHR ''/'' # dirs ds'"
        have "CHR ''/'' \<notin> set d" using Cons.prems(2) snoc by (simp add: seg_plain_def)
        obtain Q where Q: "?P' = Q @ ''/''"
          by (cases ds' rule: rev_cases) auto
        have P': "P = Q @ CHR ''/'' # d @ ''/''"
          using arg_cong [OF Q, of "\<lambda>z. z @ d @ ''/''"] P snoc by simp
        have len: "length ?P' = length Q + 1" using arg_cong [OF Q, of length] by simp
        have "back_up (P @ G @ ''../'' @ join_slash ss @ NUL # Y) (length P) = Some (length ?P')"
          using back_up_split [OF \<open>CHR ''/'' \<notin> set d\<close>, of Q "''/'' @ G @ ''../'' @ join_slash ss @ NUL # Y"]
            P' len by simp
        with 3 j P snoc loop_dotdot [of "length X" "P @ G" "join_slash ss @ NUL # Y" "length P"]
          IH [OF ss _ refl, of ds' "d @ ''/'' @ G @ ''../''"] Cons.prems(2)
        show ?thesis by (simp add: ac_simps)
      qed
    qed
  next
    case False
    define e where "e = (if ss = [] then NUL else CHR ''/'')"
    define R where "R = (if ss = [] then Y else join_slash ss @ NUL # Y)"
    have e: "e = NUL \<or> e = CHR ''/''" by (simp add: e_def)
    have m: "join_slash (s # ss) @ NUL # Y = s @ e # R"
      by (simp add: e_def R_def join_slash_Cons)
    have pl: "seg_plain s" using Cons.prems(1) by simp
    obtain G' where "length G' = length G" "set G' \<subseteq> insert e (set (G @ s))" and G': "length G' = length G"
      "remove_dots_loop (length X) (P @ G @ s @ e # R) (length P + length G) (length P)
       = (if e = NUL then Some (0, P @ s @ NUL # G' @ R)
          else remove_dots_loop (length X) ((P @ s @ ''/'') @ G' @ R) (length (P @ s @ ''/'') + length G') (length (P @ s @ ''/'')))"
      by (rule loop_ordinary [OF pl False e, where p = "length X" and P = P and G = G and R = R]) simp
    show ?thesis
    proof (cases "ss = []")
      case True
      with False G' m P show ?thesis by (auto simp: e_def R_def dots_spec_def)
    next
      case ss: False
      have "P @ s @ ''/'' = X @ CHR ''/'' # dirs (ds @ [s])" using P by simp
      from IH [OF ss _ this, of G'] Cons.prems(2) pl False G' m ss show ?thesis
        by (simp add: e_def R_def join_slash_Cons ac_simps)
    qed
  qed
qed

lemma remove_dots_normal:
  assumes "segs \<noteq> []" "last segs \<notin> {[], ''.'', ''..''}"
    and "\<forall>s \<in> set segs. NUL \<notin> set s \<and> CHR ''/'' \<notin> set s"
  shows "case norm_segs [] segs of
      None \<Rightarrow> \<exists>Z. length Z = length (join_slash segs) + 1
        \<and> nxweb_remove_dots_from_uri_path (X @ CHR ''/'' # join_slash segs @ NUL # Y) (length X)
          = Some (-1, X @ CHR ''/'' # Z @ Y)
    | Some out \<Rightarrow> set out \<inter> {[], ''.'', ''..''} = {}
        \<and> (\<exists>Z. length (join_slash out) + length Z = length (join_slash segs)
          \<and> nxweb_remove_dots_from_uri_path (X @ CHR ''/'' # join_slash segs @ NUL # Y) (length X)
            = Some (0, X @ CHR ''/'' # join_slash out @ NUL # Z @ Y))"
proof -
  let ?m = "X @ CHR ''/'' # join_slash segs @ NUL # Y"
  have "nxweb_remove_dots_from_uri_path ?m (length X) = remove_dots_loop (length X) ?m (length X + 1) (length X + 1)"
    by (simp add: nxweb_remove_dots_from_uri_path_def)
  moreover have "dots_spec X (length (join_slash segs)) Y (norm_segs [] segs)
      (remove_dots_loop (length X) ?m (length X + 1) (length X + 1))"
    using remove_dots_loop_refines [of segs "[]" "X @ ''/''" X "[]" Y] assms by (simp add: seg_plain_def)
  moreover have "set out \<inter> {[], ''.'', ''..''} = {}" if "norm_segs [] segs = Some out" for out
    using norm_segs_clean [OF that] by auto
  ultimately show ?thesis by (cases "norm_segs [] segs") (auto simp: dots_spec_def)
qed

section \<open>Properties\<close>

text \<open>
  C23: for an absolute path whose last segment is a name (not empty, \<^verbatim>\<open>.\<close> or \<^verbatim>\<open>..\<close>) the routine
  refuses exactly the paths that climb above the root, and leaves in place of any other the
  normalised path, terminated, without touching a byte outside the string; no empty, \<^verbatim>\<open>.\<close> or
  \<^verbatim>\<open>..\<close> segment is left.
\<close>

theorem remove_dots_normalises:
  assumes "segs \<noteq> []" "last segs \<notin> {[], ''.'', ''..''}"
    and "\<forall>s \<in> set segs. NUL \<notin> set s \<and> CHR ''/'' \<notin> set s"
  shows "case norm_segs [] segs of
      None \<Rightarrow> \<exists>Z. length Z = length (join_slash segs) + 1
        \<and> nxweb_remove_dots_from_uri_path (X @ CHR ''/'' # join_slash segs @ NUL # Y) (length X)
          = Some (-1, X @ CHR ''/'' # Z @ Y)
    | Some out \<Rightarrow> set out \<inter> {[], ''.'', ''..''} = {}
        \<and> (\<exists>Z. length (join_slash out) + length Z = length (join_slash segs)
          \<and> nxweb_remove_dots_from_uri_path (X @ CHR ''/'' # join_slash segs @ NUL # Y) (length X)
            = Some (0, X @ CHR ''/'' # join_slash out @ NUL # Z @ Y))"
  by (rule remove_dots_normal [OF assms])

theorem remove_dots_normalises_witness:
  "\<exists>Z. length Z = 7 \<and> nxweb_remove_dots_from_uri_path (''@/a/./../b'' @ NUL # ''!'') 1 = Some (0, ''@/b'' @ NUL # Z @ ''!'')"
proof -
  have n: "norm_segs [] [''a'', ''.'', ''..'', ''b''] = Some [''b'']" by simp
  show ?thesis using remove_dots_normalises [of "[''a'', ''.'', ''..'', ''b'']" "''@''" "''!''"] n
    by (simp add: eval_nat_numeral)
qed

section \<open>Paths that end in a slash or a dot segment\<close>











text \<open>The leftover may even climb above the root.\<close>

lemma remove_dots_leftover:
  "nxweb_remove_dots_from_uri_path (''/a/b/c/../../../ddddd/..'' @ [NUL, NUL]) 0 = Some (0, ''/ddddd/../../../ddddd/..'' @ [NUL, NUL])"
  by code_simp

end
