(* ===== verification/Nx_Chunked.thy ===== *)
theory Nx_Chunked
  imports Nx_Misc
begin

text \<open>
  The chunked transfer coding (\<^verbatim>\<open>lib/http_utils.c\<close>, \<^verbatim>\<open>_nxweb_decode_chunked_stream\<close> to
  \<^verbatim>\<open>_nxweb_encode_chunked_is_complete\<close>).

  The decoder is called with each buffer that comes from the socket; it keeps its state between
  the calls and compacts the payload in place.  It is shown to compute, whatever the buffers are,
  what a machine that reads one byte at a time computes on the whole stream.
\<close>

section \<open>The streaming decoder\<close>

datatype nxweb_chunked_decoder_state_code = CDS_CR1 | CDS_LF1 | CDS_SIZE | CDS_LF2 | CDS_DATA

record nxweb_chunked_decoder_state =
  cd_state :: nxweb_chunked_decoder_state_code
  cd_final_chunk :: bool
  cd_monitor_only :: bool
  cd_chunk_bytes_left :: nat

text \<open>The state after the \<^verbatim>\<open>memset\<close> of the enclosing request or response.\<close>

definition cds_zero :: nxweb_chunked_decoder_state where
  "cds_zero = \<lparr>cd_state = CDS_SIZE, cd_final_chunk = False, cd_monitor_only = False, cd_chunk_bytes_left = 0\<rparr>"

definition hex_digit_of :: "char \<Rightarrow> nat option" where
  "hex_digit_of c =
     (if 48 \<le> code c \<and> code c \<le> 57 then Some (code c - 48)
      else if 65 \<le> code c \<and> code c \<le> 70 then Some (code c - 65 + 10)
      else if 97 \<le> code c \<and> code c \<le> 102 then Some (code c - 97 + 10)
      else None)"

text \<open>
  \<^verbatim>\<open>chunk_bytes_left=(chunk_bytes_left<<4)+c\<close> on a 64-bit signed integer: \<open>None\<close> is the overflow,
  which C leaves undefined.
\<close>

definition shl4_add :: "nat \<Rightarrow> nat \<Rightarrow> nat option" where
  "shl4_add n d = (if n * 16 + d < 2 ^ 63 then Some (n * 16 + d) else None)"

text \<open>
  The loop.  \<open>p\<close>, \<open>d\<close> and \<open>e\<close> are the pointers \<^verbatim>\<open>p\<close>, \<^verbatim>\<open>d\<close> and \<^verbatim>\<open>end\<close> into the memory \<open>m\<close>, \<open>bl\<close> is
  \<^verbatim>\<open>*buf_len\<close>.  The result is the return value, the decoder state, the memory and \<^verbatim>\<open>*buf_len\<close>.
\<close>

type_synonym decoder_result = "int \<times> nxweb_chunked_decoder_state \<times> mem \<times> nat"

function decode_chunked_loop ::
    "nat \<Rightarrow> nxweb_chunked_decoder_state \<Rightarrow> mem \<Rightarrow> nat \<Rightarrow> nat \<Rightarrow> nat \<Rightarrow> nat \<Rightarrow> decoder_result option" where
  "decode_chunked_loop buf ds m p d e bl =
     (if \<not> p < e then Some (0, ds, m, if cd_monitor_only ds then bl else d - buf)
      else do {
        c \<leftarrow> rd m p;
        case cd_state ds of
          CDS_DATA \<Rightarrow>
            if cd_chunk_bytes_left ds \<le> e - p
            then let p' = p + cd_chunk_bytes_left ds in
                 decode_chunked_loop buf (ds\<lparr>cd_chunk_bytes_left := 0, cd_state := CDS_CR1\<rparr>) m p' p' e bl
            else Some (0, ds\<lparr>cd_chunk_bytes_left := cd_chunk_bytes_left ds - (e - p)\<rparr>, m,
                       if cd_monitor_only ds then bl else e - buf)
        | CDS_CR1 \<Rightarrow>
            if c \<noteq> CR then Some (-1, ds, m, bl)
            else decode_chunked_loop buf (ds\<lparr>cd_state := CDS_LF1\<rparr>) m (p + 1) d e bl
        | CDS_LF1 \<Rightarrow>
            if c \<noteq> LF then Some (-1, ds, m, bl)
            else if cd_final_chunk ds then Some (1, ds, m, if cd_monitor_only ds then bl else d - buf)
            else decode_chunked_loop buf (ds\<lparr>cd_state := CDS_SIZE\<rparr>) m (p + 1) d e bl
        | CDS_SIZE \<Rightarrow>
            if c = CR
            then decode_chunked_loop buf
                   (ds\<lparr>cd_final_chunk := (if cd_chunk_bytes_left ds = 0 then True else cd_final_chunk ds),
                       cd_state := CDS_LF2\<rparr>) m (p + 1) d e bl
            else (case hex_digit_of c of
                    None \<Rightarrow> Some (-1, ds, m, bl)
                  | Some v \<Rightarrow> do {
                      n \<leftarrow> shl4_add (cd_chunk_bytes_left ds) v;
                      decode_chunked_loop buf (ds\<lparr>cd_chunk_bytes_left := n\<rparr>) m (p + 1) d e bl })
        | CDS_LF2 \<Rightarrow>
            if c \<noteq> LF then Some (-1, ds, m, bl)
            else if cd_monitor_only ds
            then decode_chunked_loop buf (ds\<lparr>cd_state := CDS_DATA\<rparr>) m (p + 1) d e bl
            else do {
              m' \<leftarrow> c_memmove m d (p + 1) (e - (p + 1));
              decode_chunked_loop buf (ds\<lparr>cd_state := CDS_DATA\<rparr>) m' d d (e - (p + 1 - d)) bl } })"
  by pat_completeness auto
termination
  by (relation "measure (\<lambda>(buf, ds, m, p, d, e, bl). 2 * (e - p) + (if cd_state ds = CDS_DATA then 1 else 0))")
    auto

declare decode_chunked_loop.simps [simp del]

definition nxweb_decode_chunked_stream ::
    "nxweb_chunked_decoder_state \<Rightarrow> mem \<Rightarrow> nat \<Rightarrow> nat \<Rightarrow> decoder_result option" where
  "nxweb_decode_chunked_stream decoder_state m buf buf_len =
     decode_chunked_loop buf decoder_state m buf buf (buf + buf_len) buf_len"

section \<open>Reference: one byte at a time\<close>

text \<open>
  The result is the status (0 more is needed, 1 complete, -1 malformed), the state and the payload
  bytes.  \<open>None\<close> is a chunk size beyond 63 bits.
\<close>

type_synonym chunk_result = "int \<times> nxweb_chunked_decoder_state \<times> string"

definition chunk_step :: "nxweb_chunked_decoder_state \<Rightarrow> char \<Rightarrow> chunk_result option" where
  "chunk_step ds c =
     (case cd_state ds of
        CDS_DATA \<Rightarrow>
          if cd_chunk_bytes_left ds = 0
          then Some (if c = CR then (0, ds\<lparr>cd_state := CDS_LF1\<rparr>, []) else (-1, ds\<lparr>cd_state := CDS_CR1\<rparr>, []))
          else Some (0, ds\<lparr>cd_chunk_bytes_left := cd_chunk_bytes_left ds - 1,
                 cd_state := (if cd_chunk_bytes_left ds = 1 then CDS_CR1 else CDS_DATA)\<rparr>, [c])
      | CDS_CR1 \<Rightarrow> Some (if c = CR then (0, ds\<lparr>cd_state := CDS_LF1\<rparr>, []) else (-1, ds, []))
      | CDS_LF1 \<Rightarrow>
          Some (if c \<noteq> LF then (-1, ds, []) else if cd_final_chunk ds then (1, ds, [])
                else (0, ds\<lparr>cd_state := CDS_SIZE\<rparr>, []))
      | CDS_SIZE \<Rightarrow>
          if c = CR
          then Some (0, ds\<lparr>cd_final_chunk := (if cd_chunk_bytes_left ds = 0 then True else cd_final_chunk ds),
                            cd_state := CDS_LF2\<rparr>, [])
          else (case hex_digit_of c of
                  None \<Rightarrow> Some (-1, ds, [])
                | Some v \<Rightarrow> map_option (\<lambda>n. (0, ds\<lparr>cd_chunk_bytes_left := n\<rparr>, [])) (shl4_add (cd_chunk_bytes_left ds) v))
      | CDS_LF2 \<Rightarrow> Some (if c = LF then (0, ds\<lparr>cd_state := CDS_DATA\<rparr>, []) else (-1, ds, [])))"

text \<open>Sequencing: output accumulates, a status other than 0 stops.\<close>

definition then_run :: "chunk_result option \<Rightarrow> (nxweb_chunked_decoder_state \<Rightarrow> chunk_result option) \<Rightarrow> chunk_result option" where
  "then_run x f =
     (case x of None \<Rightarrow> None
      | Some (r, ds, out) \<Rightarrow>
          if r \<noteq> 0 then Some (r, ds, out)
          else map_option (\<lambda>(r', ds', out'). (r', ds', out @ out')) (f ds))"

fun chunk_run :: "nxweb_chunked_decoder_state \<Rightarrow> string \<Rightarrow> chunk_result option" where
  "chunk_run ds [] = Some (0, ds, [])"
| "chunk_run ds (c # s) = then_run (chunk_step ds c) (\<lambda>ds. chunk_run ds s)"

lemma then_run_Some [simp]:
  "then_run None f = None" "then_run (Some (0, ds, [])) f = f ds"
  "r \<noteq> 0 \<Longrightarrow> then_run (Some (r, ds, out)) f = Some (r, ds, out)"
  by (cases "f ds"; auto simp: then_run_def)+

lemma then_run_0: "then_run (Some (0, ds, out)) f = map_option (\<lambda>(r', ds', out'). (r', ds', out @ out')) (f ds)"
  by (simp add: then_run_def)

lemma then_run_assoc: "then_run (then_run x f) g = then_run x (\<lambda>ds. then_run (f ds) g)"
  by (auto simp: then_run_def option.map_comp comp_def case_prod_unfold split: option.splits)

text \<open>Splitting the stream anywhere does not change the result.\<close>

lemma chunk_run_append: "chunk_run ds (s @ t) = then_run (chunk_run ds s) (\<lambda>ds. chunk_run ds t)"
  by (induction s arbitrary: ds) (simp_all add: then_run_assoc)

lemma chunk_run_data:
  assumes "cd_state ds = CDS_DATA" "s \<noteq> []" "length s \<le> cd_chunk_bytes_left ds"
  shows "chunk_run ds s = Some (0, ds\<lparr>cd_chunk_bytes_left := cd_chunk_bytes_left ds - length s,
     cd_state := (if length s = cd_chunk_bytes_left ds then CDS_CR1 else CDS_DATA)\<rparr>, s)"
  using assms
proof (induction s arbitrary: ds)
  case (Cons c s)
  show ?case
  proof (cases s)
    case Nil
    with Cons.prems show ?thesis by (auto simp: chunk_step_def then_run_0)
  next
    case (Cons b r)
    with Cons.prems Cons.IH [of "ds\<lparr>cd_chunk_bytes_left := cd_chunk_bytes_left ds - 1, cd_state := CDS_DATA\<rparr>"]
    show ?thesis by (auto simp: chunk_step_def then_run_0)
  qed
qed simp

lemma chunk_run_data0:
  assumes "cd_state ds = CDS_DATA" "cd_chunk_bytes_left ds = 0" "s \<noteq> []"
  shows "chunk_run ds s = chunk_run (ds\<lparr>cd_chunk_bytes_left := 0, cd_state := CDS_CR1\<rparr>) s"
  using assms by (cases ds; cases s) (auto simp: chunk_step_def)

lemma chunk_run_data_split:
  assumes "cd_state ds = CDS_DATA" "s = a @ b" "length a = cd_chunk_bytes_left ds" "s \<noteq> []"
  shows "chunk_run ds s = map_option (\<lambda>(r, ds, out). (r, ds, a @ out))
    (chunk_run (ds\<lparr>cd_chunk_bytes_left := 0, cd_state := CDS_CR1\<rparr>) b)"
proof (cases "a = []")
  case True
  with chunk_run_data0 [OF assms(1), of s] assms show ?thesis
    by (cases "chunk_run (ds\<lparr>cd_chunk_bytes_left := 0, cd_state := CDS_CR1\<rparr>) s") auto
next
  case False
  then have "chunk_run ds a = Some (0, ds\<lparr>cd_chunk_bytes_left := 0, cd_state := CDS_CR1\<rparr>, a)"
    using chunk_run_data [OF assms(1), of a] assms(3) by simp
  then show ?thesis using chunk_run_append [of ds a b] assms(2) by (simp add: then_run_0)
qed

section \<open>The loop computes the reference\<close>

text \<open>
  The memory is split as \<open>X @ D @ J @ s @ Y\<close>: before the buffer, the payload so far, bytes of the
  framing that were read since, the unread rest, and what lies behind \<^verbatim>\<open>end\<close>.
\<close>

definition decoder_post :: "string \<Rightarrow> string \<Rightarrow> nat \<Rightarrow> string \<Rightarrow> nat \<Rightarrow> chunk_result option \<Rightarrow> decoder_result option \<Rightarrow> bool" where
  "decoder_post X D n Y bl spec res \<longleftrightarrow>
     (case spec of None \<Rightarrow> res = None
      | Some (r, ds', out) \<Rightarrow>
          \<exists>Z. length (D @ out @ Z) = n
            \<and> res = Some (r, ds', X @ D @ out @ Z @ Y, if r = -1 then bl else length (D @ out)))"

lemma decoder_post_shift:
  "decoder_post X (D @ x) n Y bl spec res
   \<Longrightarrow> decoder_post X D n Y bl (map_option (\<lambda>(r, ds, out). (r, ds, x @ out)) spec) res"
  by (auto simp: decoder_post_def split: option.splits)

lemma memmove_down:
  "\<exists>W. length W = length (J @ [b]) \<and>
     c_memmove (A @ J @ b # t @ B) (length A) (length (A @ J) + 1) (length t) = Some (A @ t @ W @ B)"
proof -
  let ?W = "drop (length t) (J @ b # t)"
  have skip: "drop (length A + n) (A @ R) = drop n R" for n R by simp
  have "drop (length t) ((J @ b # t) @ B) = ?W @ B"
    by (subst drop_append) (simp del: drop_append)
  then have d: "drop (length A + length t) (A @ J @ b # t @ B) = ?W @ B"
    by (simp add: skip del: drop_append)
  have s: "drop (length (A @ J) + 1) (A @ J @ b # t @ B) = t @ B" by simp
  have "c_memmove (A @ J @ b # t @ B) (length A) (length (A @ J) + 1) (length t) = Some (A @ t @ ?W @ B)"
    unfolding c_memmove_def d s by simp
  then show ?thesis by (intro exI [of _ ?W]) (simp del: drop_append)
qed

lemma decode_chunked_loop_refines:
  assumes "\<not> cd_monitor_only ds" "cd_state ds = CDS_DATA \<longrightarrow> J = []"
  shows "decoder_post X D (length (D @ J @ s @ V)) Y bl (chunk_run ds s)
    (decode_chunked_loop (length X) ds (X @ D @ J @ s @ V @ Y) (length (X @ D @ J)) (length (X @ D)) (length (X @ D @ J @ s)) bl)"
  using assms
proof (induction "2 * length s + (if cd_state ds = CDS_DATA then 1 else 0)" arbitrary: ds D J s V rule: less_induct)
  case less
  let ?m = "X @ D @ J @ s @ V @ Y"
  let ?loop = "decode_chunked_loop (length X) ds ?m (length (X @ D @ J)) (length (X @ D)) (length (X @ D @ J @ s)) bl"
  show ?case
  proof (cases s)
    case Nil
    then show ?thesis
      by (subst decode_chunked_loop.simps) (auto simp: decoder_post_def less.prems)
  next
    case (Cons c t)
    have r: "rd ?m (length (X @ D @ J)) = Some c"
      using rd_split [of "X @ D @ J" c "t @ V @ Y"] Cons by simp
    have next_byte: "decoder_post X D (length (D @ J @ s @ V)) Y bl (chunk_run ds' t)
       (decode_chunked_loop (length X) ds' ?m (length (X @ D @ J) + 1) (length (X @ D)) (length (X @ D @ J @ s)) bl)"
      if "\<not> cd_monitor_only ds'" "cd_state ds' \<noteq> CDS_DATA" for ds'
      using less.hyps [of t ds' "J @ [c]" D V] that Cons by simp
    have bad: "decoder_post X D (length (D @ J @ s @ V)) Y bl (Some (-1, ds', [])) (Some (-1, ds', ?m, bl))" for ds'
      by (auto simp: decoder_post_def)
    show ?thesis
    proof (cases "cd_state ds")
      case CDS_CR1
      then show ?thesis
        using next_byte [of "ds\<lparr>cd_state := CDS_LF1\<rparr>"] bad [of ds] r Cons less.prems
        by (subst decode_chunked_loop.simps) (auto simp: chunk_step_def)
    next
      case CDS_LF1
      have "decoder_post X D (length (D @ J @ s @ V)) Y bl (Some (1, ds, [])) (Some (1, ds, ?m, length D))"
        by (auto simp: decoder_post_def)
      then show ?thesis
        using CDS_LF1 next_byte [of "ds\<lparr>cd_state := CDS_SIZE\<rparr>"] bad [of ds] r Cons less.prems
        by (subst decode_chunked_loop.simps) (auto simp: chunk_step_def)
    next
      case CDS_SIZE
      have ub: "decoder_post X D (length (D @ J @ s @ V)) Y bl None None" by (simp add: decoder_post_def)
      show ?thesis
      proof (cases "c = CR")
        case True
        then show ?thesis
          using CDS_SIZE next_byte [of "ds\<lparr>cd_final_chunk := (if cd_chunk_bytes_left ds = 0 then True else cd_final_chunk ds),
            cd_state := CDS_LF2\<rparr>"] r Cons less.prems
          by (subst decode_chunked_loop.simps) (auto simp: chunk_step_def)
      next
        case False
        show ?thesis
        proof (cases "hex_digit_of c \<bind> shl4_add (cd_chunk_bytes_left ds)")
          case None
          with False show ?thesis using CDS_SIZE bad [of ds] ub r Cons less.prems
            by (subst decode_chunked_loop.simps) (auto simp: chunk_step_def split: option.splits)
        next
          case (Some n)
          with False show ?thesis
            using CDS_SIZE next_byte [of "ds\<lparr>cd_chunk_bytes_left := n\<rparr>"] r Cons less.prems
            by (subst decode_chunked_loop.simps) (auto simp: chunk_step_def split: option.splits)
        qed
      qed
    next
      case CDS_LF2
      obtain W where W: "length W = length (J @ [c])"
        "c_memmove ?m (length (X @ D)) (length (X @ D @ J) + 1) (length t) = Some ((X @ D) @ t @ W @ V @ Y)"
        using memmove_down [of J c "X @ D" t "V @ Y"] Cons by auto
      have "decoder_post X D (length (D @ t @ W @ V)) Y bl (chunk_run (ds\<lparr>cd_state := CDS_DATA\<rparr>) t)
        (decode_chunked_loop (length X) (ds\<lparr>cd_state := CDS_DATA\<rparr>) ((X @ D) @ t @ W @ V @ Y) (length (X @ D)) (length (X @ D)) (length (X @ D @ t)) bl)"
        using less.hyps [of t "ds\<lparr>cd_state := CDS_DATA\<rparr>" "[]" D "W @ V"] less.prems Cons by simp
      then show ?thesis
        using CDS_LF2 bad [of ds] r W Cons less.prems
        by (subst decode_chunked_loop.simps) (auto simp: chunk_step_def ac_simps)
    next
      case CDS_DATA
      let ?n = "cd_chunk_bytes_left ds"
      have J: "J = []" using less.prems CDS_DATA by simp
      let ?ds = "ds\<lparr>cd_chunk_bytes_left := 0, cd_state := CDS_CR1\<rparr>"
      show ?thesis
      proof (cases "?n \<le> length s")
        case True
        then obtain a b where s: "s = a @ b" and a: "length a = ?n" by (rule list_split_at)
        have "2 * length b < 2 * length s + 1" using s by simp
        then have "decoder_post X (D @ a) (length (D @ s @ V)) Y bl (chunk_run ?ds b)
          (decode_chunked_loop (length X) ?ds ?m (length (X @ D) + ?n) (length (X @ D) + ?n) (length (X @ D @ J @ s)) bl)"
          using less.hyps [of b ?ds "[]" "D @ a" V] less.prems CDS_DATA J s a by (simp add: ac_simps)
        then have "decoder_post X D (length (D @ s @ V)) Y bl
            (map_option (\<lambda>(r, ds, out). (r, ds, a @ out)) (chunk_run ?ds b)) ?loop"
          using r CDS_DATA True J Cons
          by (subst decode_chunked_loop.simps) (simp add: decoder_post_shift Let_def)
        moreover have "chunk_run ds s = map_option (\<lambda>(r, ds, out). (r, ds, a @ out)) (chunk_run ?ds b)"
          by (rule chunk_run_data_split [OF CDS_DATA s a]) (simp add: Cons)
        ultimately show ?thesis using J by simp
      next
        case False
        then show ?thesis using r CDS_DATA J Cons less.prems chunk_run_data [of ds s]
          by (subst decode_chunked_loop.simps) (simp add: decoder_post_def)
      qed
    qed
  qed
qed

lemma nxweb_decode_chunked_stream_refines:
  assumes "\<not> cd_monitor_only ds"
  shows "decoder_post X [] (length s) Y (length s) (chunk_run ds s)
    (nxweb_decode_chunked_stream ds (X @ s @ Y) (length X) (length s))"
  using decode_chunked_loop_refines [of ds "[]" X "[]" s "[]" Y "length s"] assms
  by (simp add: nxweb_decode_chunked_stream_def)

text \<open>With \<^verbatim>\<open>monitor_only\<close> (a proxy that forwards the coding) only the state advances.\<close>

definition state_only :: "mem \<Rightarrow> nat \<Rightarrow> chunk_result option \<Rightarrow> decoder_result option" where
  "state_only m bl = map_option (\<lambda>(r, ds, out). (r, ds, m, bl))"

lemma state_only_simps [simp]:
  "state_only m bl None = None" "state_only m bl (Some (r, ds, out)) = Some (r, ds, m, bl)"
  "state_only m bl (map_option (\<lambda>(r, ds, out). (r, ds, x @ out)) spec) = state_only m bl spec"
  by (auto simp: state_only_def option.map_comp comp_def case_prod_unfold)

lemma decode_chunked_loop_monitor:
  assumes "cd_monitor_only ds"
  shows "decode_chunked_loop buf ds (A @ s @ B) (length A) d (length (A @ s)) bl = state_only (A @ s @ B) bl (chunk_run ds s)"
  using assms
proof (induction "2 * length s + (if cd_state ds = CDS_DATA then 1 else 0)" arbitrary: ds A s d rule: less_induct)
  case less
  show ?case
  proof (cases s)
    case Nil
    then show ?thesis by (subst decode_chunked_loop.simps) (simp add: less.prems)
  next
    case (Cons c t)
    have r: "rd (A @ s @ B) (length A) = Some c" using Cons by simp
    have next_byte: "decode_chunked_loop buf ds' (A @ s @ B) (length A + 1) d (length (A @ s)) bl = state_only (A @ s @ B) bl (chunk_run ds' t)"
      if "cd_monitor_only ds'" for ds'
      using less.hyps [of t ds' "A @ [c]" d] that Cons by (simp split: if_splits)
    show ?thesis
    proof (cases "cd_state ds = CDS_DATA")
      case False
      show ?thesis
      proof (cases "cd_state ds = CDS_SIZE \<and> c \<noteq> CR")
        case True
        show ?thesis
        proof (cases "hex_digit_of c \<bind> shl4_add (cd_chunk_bytes_left ds)")
          case None
          with True less.prems r Cons show ?thesis
            by (subst decode_chunked_loop.simps) (auto simp: chunk_step_def split: option.splits)
        next
          case (Some n)
          with True less.prems r Cons next_byte [of "ds\<lparr>cd_chunk_bytes_left := n\<rparr>"] show ?thesis
            by (subst decode_chunked_loop.simps) (auto simp: chunk_step_def split: option.splits)
        qed
      next
        case nf: False
        with False less.prems r Cons next_byte show ?thesis
          by (subst decode_chunked_loop.simps)
            (auto simp: chunk_step_def split: nxweb_chunked_decoder_state_code.splits)
      qed
    next
      case True
      let ?n = "cd_chunk_bytes_left ds"
      let ?ds = "ds\<lparr>cd_chunk_bytes_left := 0, cd_state := CDS_CR1\<rparr>"
      show ?thesis
      proof (cases "?n \<le> length s")
        case le: True
        then obtain a b where s: "s = a @ b" and a: "length a = ?n" by (rule list_split_at)
        have "2 * length b < 2 * length s + 1" using s by simp
        then have "decode_chunked_loop buf ?ds (A @ s @ B) (length A + ?n) (length A + ?n) (length (A @ s)) bl
            = state_only (A @ s @ B) bl (chunk_run ?ds b)"
          using less.hyps [of b ?ds "A @ a" "length (A @ a)"] less.prems True s a by simp
        moreover have "chunk_run ds s = map_option (\<lambda>(r, ds, out). (r, ds, a @ out)) (chunk_run ?ds b)"
          by (rule chunk_run_data_split [OF True s a]) (simp add: Cons)
        ultimately show ?thesis using r True le Cons by (subst decode_chunked_loop.simps) (simp add: Let_def)
      next
        case False
        then show ?thesis using r True Cons less.prems chunk_run_data [of ds s]
          by (subst decode_chunked_loop.simps) simp
      qed
    qed
  qed
qed

text \<open>
  Receiving a body: each piece arrives in a buffer of its own, its payload is what the decoder
  leaves at the start of the buffer; a status other than 0 ends it, as in
  \<^verbatim>\<open>req_body_out_read\<close> and \<^verbatim>\<open>data_in_do_read\<close>.
\<close>

fun receive_chunked :: "nxweb_chunked_decoder_state \<Rightarrow> string list \<Rightarrow> chunk_result option" where
  "receive_chunked ds [] = Some (0, ds, [])"
| "receive_chunked ds (piece # ps) = do {
     (r, ds', m, n) \<leftarrow> nxweb_decode_chunked_stream ds piece 0 (length piece);
     if r = 0 then do {
       (r', ds'', out) \<leftarrow> receive_chunked ds' ps;
       Some (r', ds'', take n m @ out) }
     else Some (r, ds', take n m) }"

lemma chunk_step_monitor: "chunk_step ds c = Some (r, ds', out) \<Longrightarrow> cd_monitor_only ds' = cd_monitor_only ds"
  by (auto simp: chunk_step_def split: nxweb_chunked_decoder_state_code.splits if_splits option.splits)

lemma then_run_SomeE:
  assumes "then_run x f = Some (r, ds', out)"
  obtains (stop) "x = Some (r, ds', out)" "r \<noteq> 0"
    | (go) ds1 out1 out2 where "x = Some (0, ds1, out1)" "f ds1 = Some (r, ds', out2)" "out = out1 @ out2"
  using assms by (auto simp: then_run_def split: option.splits if_splits)

lemma chunk_run_monitor: "chunk_run ds s = Some (r, ds', out) \<Longrightarrow> cd_monitor_only ds' = cd_monitor_only ds"
  by (induction s arbitrary: ds out) (auto elim!: then_run_SomeE dest: chunk_step_monitor)

lemma chunk_step_status: "chunk_step ds c = Some (r, ds', out) \<Longrightarrow> r \<in> {-1, 0, 1}"
  by (auto simp: chunk_step_def split: nxweb_chunked_decoder_state_code.splits if_splits option.splits)

lemma chunk_run_status: "chunk_run ds s = Some (r, ds', out) \<Longrightarrow> r \<in> {-1, 0, 1}"
  by (induction s arbitrary: ds out) (auto elim!: then_run_SomeE dest: chunk_step_status)

lemmas chunk_eval = chunk_step_def hex_digit_of_def shl4_add_def code_def cds_zero_def

section \<open>Properties of the decoder\<close>

text \<open>
  C4: on one buffer the decoder never leaves it, compacts exactly the payload bytes to its start,
  reports their number, and ends in the state and with the status of the byte machine.  The only
  undefined behaviour is a chunk size of more than 63 bits.
\<close>

theorem decode_chunked_stream_correct:
  assumes "\<not> cd_monitor_only ds"
  shows "case chunk_run ds s of
      None \<Rightarrow> nxweb_decode_chunked_stream ds (X @ s @ Y) (length X) (length s) = None
    | Some (r, ds', out) \<Rightarrow> \<exists>Z. length out + length Z = length s
        \<and> nxweb_decode_chunked_stream ds (X @ s @ Y) (length X) (length s)
          = Some (r, ds', X @ out @ Z @ Y, if r = -1 then length s else length out)"
  using nxweb_decode_chunked_stream_refines [OF assms, of X s Y]
  by (auto simp: decoder_post_def split: option.splits)

theorem decode_chunked_stream_correct_witness:
  "\<exists>Z ds'. nxweb_decode_chunked_stream cds_zero (''#'' @ ''2'' @ CRLF @ ''ab'' @ CRLF @ ''0'' @ CRLF @ CRLF) 1 12
     = Some (1, ds', ''#ab'' @ Z, 2)"
proof -
  let ?s = "''2'' @ CRLF @ ''ab'' @ CRLF @ ''0'' @ CRLF @ CRLF"
  have run: "chunk_run cds_zero ?s = Some (1, cds_zero\<lparr>cd_state := CDS_LF1, cd_final_chunk := True\<rparr>, ''ab'')"
    by (simp add: chunk_eval then_run_0)
  have "\<not> cd_monitor_only cds_zero" by (simp add: cds_zero_def)
  from decode_chunked_stream_correct [OF this, where s = ?s and X = "''#''" and Y = "[]"] show ?thesis
    unfolding run by (auto simp: eval_nat_numeral)
qed

text \<open>
  C22: how the network splits the stream into buffers does not matter: decoding the buffers one
  after the other gives the status, the state and (unless the stream is malformed) the payload of
  the whole stream.
\<close>

theorem receive_chunked_split_invariant:
  assumes "\<not> cd_monitor_only ds" "chunk_run ds (concat pieces) = Some (r, ds', out)"
  shows "\<exists>out'. receive_chunked ds pieces = Some (r, ds', out') \<and> (r \<noteq> -1 \<longrightarrow> out' = out)"
  using assms
proof (induction pieces arbitrary: ds out)
  case Nil
  then show ?case by auto
next
  case (Cons piece ps)
  have run: "then_run (chunk_run ds piece) (\<lambda>ds. chunk_run ds (concat ps)) = Some (r, ds', out)"
    using Cons.prems(2) by (simp add: chunk_run_append)
  then obtain r1 ds1 out1 where one: "chunk_run ds piece = Some (r1, ds1, out1)"
    by (auto elim: then_run_SomeE)
  obtain Z where Z: "length out1 + length Z = length piece"
    "nxweb_decode_chunked_stream ds piece 0 (length piece) = Some (r1, ds1, out1 @ Z, if r1 = -1 then length piece else length out1)"
    using nxweb_decode_chunked_stream_refines [OF Cons.prems(1), of "[]" piece "[]"] one
    by (auto simp: decoder_post_def)
  from run show ?case
  proof (cases rule: then_run_SomeE)
    case stop
    with one Z show ?thesis by auto
  next
    case (go ds2 out2 out3)
    with Cons.IH [of ds2 out3] Cons.prems(1) chunk_run_monitor [OF one] one Z show ?thesis by auto
  qed
qed

theorem receive_chunked_split_invariant_witness:
  "\<exists>ds' out. receive_chunked cds_zero [''2'' @ [CR], LF # ''a'', ''b'' @ CRLF @ ''0'', CRLF, CRLF] = Some (1, ds', out)
     \<and> out = ''ab''"
proof -
  let ?ps = "[''2'' @ [CR], LF # ''a'', ''b'' @ CRLF @ ''0'', CRLF, CRLF]"
  have run: "chunk_run cds_zero (concat ?ps) = Some (1, cds_zero\<lparr>cd_state := CDS_LF1, cd_final_chunk := True\<rparr>, ''ab'')"
    by (simp add: chunk_eval then_run_0)
  have "\<not> cd_monitor_only cds_zero" by (simp add: cds_zero_def)
  from receive_chunked_split_invariant [OF this run] show ?thesis by auto
qed

text \<open>The number that hexadecimal digits stand for, after a number that was read before.\<close>

definition hex_value :: "nat \<Rightarrow> string \<Rightarrow> nat" where
  "hex_value n s = n * 16 ^ length s + (\<Sum>i < length s. the (hex_digit_of (s ! i)) * 16 ^ (length s - 1 - i))"

lemma hex_value_Nil [simp]: "hex_value n [] = n"
  by (simp add: hex_value_def)

lemma hex_value_Cons: "hex_value n (c # s) = hex_value (n * 16 + the (hex_digit_of c)) s"
proof -
  have "(\<Sum>i < length (c # s). the (hex_digit_of ((c # s) ! i)) * 16 ^ (length (c # s) - 1 - i))
      = the (hex_digit_of c) * 16 ^ length s + (\<Sum>i < length s. the (hex_digit_of (s ! i)) * 16 ^ (length s - 1 - i))"
    by (simp add: sum.lessThan_Suc_shift del: sum.lessThan_Suc)
  then show ?thesis unfolding hex_value_def by (simp add: algebra_simps)
qed

lemma hex_value_ge: "n \<le> hex_value n s"
proof (induction s arbitrary: n)
  case (Cons c s)
  have "n \<le> n * 16 + the (hex_digit_of c)" by simp
  also have "\<dots> \<le> hex_value (n * 16 + the (hex_digit_of c)) s" by (rule Cons.IH)
  finally show ?case by (simp add: hex_value_Cons)
qed simp

text \<open>
  C36: The digits of a chunk size are not limited in number.  However many arrive in a buffer, the decoder reads the number they stand for
  exactly, after what it read before, as long as it is below \<^verbatim>\<open>2^63\<close>; and from there on, so for instance with sixteen digits of which the
  first is 8 or more, the 64-bit \<^verbatim>\<open>chunk_bytes_left\<close> overflows (\<open>None\<close>).  A remote party chooses the digits.
\<close>

theorem chunk_size_overflows:
  assumes "cd_state ds = CDS_SIZE" "\<not> cd_monitor_only ds" "s \<noteq> []" "\<forall>c \<in> set s. hex_digit_of c \<noteq> None"
  shows "nxweb_decode_chunked_stream ds (X @ s @ Y) (length X) (length s)
    = (if hex_value (cd_chunk_bytes_left ds) s < 2 ^ 63
       then Some (0, ds\<lparr>cd_chunk_bytes_left := hex_value (cd_chunk_bytes_left ds) s\<rparr>, X @ s @ Y, 0) else None)"
proof -
  have loop: "decode_chunked_loop b e (A @ t @ B) (length A) d (length (A @ t)) bl
      = (if t = [] \<or> hex_value (cd_chunk_bytes_left e) t < 2 ^ 63
         then Some (0, e\<lparr>cd_chunk_bytes_left := hex_value (cd_chunk_bytes_left e) t\<rparr>, A @ t @ B, d - b) else None)"
    if "cd_state e = CDS_SIZE" "\<not> cd_monitor_only e" "\<forall>c \<in> set t. hex_digit_of c \<noteq> None" for b e A t B d bl
    using that
  proof (induction t arbitrary: e A)
    case Nil
    then show ?case by (subst decode_chunked_loop.simps) simp
  next
    case (Cons c t)
    obtain v where v: "hex_digit_of c = Some v" using Cons.prems(3) by auto
    then have cr: "c \<noteq> CR" by (auto simp: hex_digit_of_def code_def)
    let ?n = "cd_chunk_bytes_left e * 16 + v"
    have run: "decode_chunked_loop b e (A @ (c # t) @ B) (length A) d (length (A @ c # t)) bl = shl4_add (cd_chunk_bytes_left e) v
        \<bind> (\<lambda>n. decode_chunked_loop b (e\<lparr>cd_chunk_bytes_left := n\<rparr>) ((A @ [c]) @ t @ B) (length (A @ [c])) d (length ((A @ [c]) @ t)) bl)"
      using Cons.prems(1) v cr by (subst decode_chunked_loop.simps) simp
    show ?case
    proof (cases "?n < 2 ^ 63")
      case True
      then show ?thesis unfolding run
        using Cons.IH [of "e\<lparr>cd_chunk_bytes_left := ?n\<rparr>" "A @ [c]"] Cons.prems v by (auto simp: shl4_add_def hex_value_Cons)
    next
      case False
      then have "\<not> hex_value (cd_chunk_bytes_left e) (c # t) < 2 ^ 63" using hex_value_ge [of ?n t] v by (simp add: hex_value_Cons)
      then show ?thesis unfolding run using False by (simp add: shl4_add_def)
    qed
  qed
  show ?thesis using loop [OF assms(1,2,4), of "length X" X Y "length X" "length s"] assms(3) by (simp add: nxweb_decode_chunked_stream_def)
qed

theorem chunk_size_overflows_witness:
  "nxweb_decode_chunked_stream cds_zero ''8000000000000000'' 0 (length ''8000000000000000'') = None
   \<and> nxweb_decode_chunked_stream cds_zero ''7fffffffffffffff'' 0 (length ''7fffffffffffffff'') = Some (0, cds_zero\<lparr>cd_chunk_bytes_left := 2 ^ 63 - 1\<rparr>, ''7fffffffffffffff'', 0)"
proof -
  have st: "cd_state cds_zero = CDS_SIZE" "\<not> cd_monitor_only cds_zero" by (simp_all add: cds_zero_def)
  have dig: "list_all (\<lambda>c. hex_digit_of c \<noteq> None) (''8000000000000000'' @ ''7fffffffffffffff'')" by code_simp
  have v: "hex_value (cd_chunk_bytes_left cds_zero) ''8000000000000000'' = 2 ^ 63" "hex_value (cd_chunk_bytes_left cds_zero) ''7fffffffffffffff'' = 2 ^ 63 - 1"
    by (simp_all add: hex_value_Cons hex_digit_of_def code_def cds_zero_def)
  show ?thesis
    using chunk_size_overflows [OF st, of "''8000000000000000''" "[]" "[]"] chunk_size_overflows [OF st, of "''7fffffffffffffff''" "[]" "[]"] dig
    unfolding v by (simp add: list_all_iff)
qed

end
