(* ===== verification/Nx_Chunked_Encoder.thy ===== *)
theory Nx_Chunked_Encoder
  imports Nx_Chunked
begin

text \<open>
  The chunked encoder (\<^verbatim>\<open>lib/http_utils.c\<close>) and its driver in the server protocol
  (\<^verbatim>\<open>lib/nxd_http_server_proto.c\<close>, \<^verbatim>\<open>resp_body_in_write_or_sendfile\<close>): the body of a response is
  offered in pieces, the socket takes any part of what is written to it, and the encoder keeps
  the position inside the current frame.  What ends up on the wire is shown to be a chunked
  stream that the decoder turns back into the body.
\<close>

section \<open>The encoder\<close>

record nxweb_chunked_encoder_state =
  ce_final_chunk :: bool
  ce_header_prepared :: bool
  ce_chunk_size :: nat
  ce_pos :: nat
  ce_buf :: mem

definition SIZEOF_CE_BUF :: nat where "SIZEOF_CE_BUF = 8"

definition nxweb_encode_chunked_init :: nxweb_chunked_encoder_state where
  "nxweb_encode_chunked_init = \<lparr>ce_final_chunk = False, ce_header_prepared = False, ce_chunk_size = 0,
     ce_pos = 2, ce_buf = CRLF @ ''0000'' @ CRLF\<rparr>"

text \<open>\<^verbatim>\<open>if (*offered_size > 0xffff) *offered_size=0xffff;\<close>, with an equation for evaluation in small numbers.\<close>

definition clip_chunk :: "nat \<Rightarrow> nat" where
  "clip_chunk n = (if n > 0xffff then 0xffff else n)"

lemma clip_chunk_code [code]: "clip_chunk n = (if n div 256 div 256 = 0 then n else 256 * 255 + 255)"
  by (auto simp: clip_chunk_def)

text \<open>
  The results: the return value, the state, \<^verbatim>\<open>*offered_size\<close>, \<^verbatim>\<open>*send_ptr\<close> (an offset into
  \<^verbatim>\<open>buf\<close>, or null), \<^verbatim>\<open>*send_size\<close> and whether \<^verbatim>\<open>*flags\<close> still has \<^verbatim>\<open>NXEF_EOF\<close>.  A failed
  \<^verbatim>\<open>assert\<close> is \<open>None\<close>.
\<close>

type_synonym encoder_result = "bool \<times> nxweb_chunked_encoder_state \<times> nat \<times> nat option \<times> nat \<times> bool"

definition nxweb_encode_chunked_stream ::
    "nxweb_chunked_encoder_state \<Rightarrow> nat \<Rightarrow> bool \<Rightarrow> encoder_result option" where
  "nxweb_encode_chunked_stream es offered_size eof =
     (if ce_final_chunk es then
        (if \<not> eof then None
         else Some (True, es, offered_size, Some (ce_pos es), 7 - ce_pos es, eof))
      else if ce_pos es \<le> 2 \<and> \<not> ce_header_prepared es then
        (if offered_size = 0 then
           (if eof then do {
              buf \<leftarrow> (if length (ce_buf es) < 7 then None
                     else Some (take 2 (ce_buf es) @ ''0'' @ CRLF @ CRLF @ drop 7 (ce_buf es)));
              Some (True, es\<lparr>ce_final_chunk := True, ce_buf := buf\<rparr>, offered_size, Some (ce_pos es), 7 - ce_pos es, eof) }
            else Some (2 - ce_pos es \<noteq> 0, es, offered_size, Some (ce_pos es), 2 - ce_pos es, eof))
         else do {
           let offered_size = clip_chunk offered_size;
           buf \<leftarrow> uint_to_hex_string_zeropad offered_size (ce_buf es) 2 4 False;
           Some (True, es\<lparr>ce_chunk_size := offered_size, ce_buf := buf, ce_header_prepared := True\<rparr>,
                 offered_size, Some (ce_pos es), SIZEOF_CE_BUF - ce_pos es, False) })
      else if ce_pos es < SIZEOF_CE_BUF then
        (if \<not> offered_size \<ge> ce_chunk_size es then None
         else Some (True, es, if offered_size > ce_chunk_size es then ce_chunk_size es else offered_size,
                    Some (ce_pos es), SIZEOF_CE_BUF - ce_pos es, False))
      else
        (let chunk_bytes_left = ce_chunk_size es - (ce_pos es - SIZEOF_CE_BUF) in
         if \<not> offered_size \<ge> chunk_bytes_left then None
         else Some (False, es, if offered_size > chunk_bytes_left then chunk_bytes_left else offered_size,
                    None, 0, False)))"

definition nxweb_encode_chunked_advance :: "nxweb_chunked_encoder_state \<Rightarrow> nat \<Rightarrow> nxweb_chunked_encoder_state" where
  "nxweb_encode_chunked_advance es pos_delta =
     (if pos_delta = 0 then es
      else let es = es\<lparr>ce_pos := ce_pos es + pos_delta\<rparr> in
           if ce_pos es = SIZEOF_CE_BUF + ce_chunk_size es
           then es\<lparr>ce_pos := 0, ce_header_prepared := False\<rparr> else es)"

definition nxweb_encode_chunked_is_complete :: "nxweb_chunked_encoder_state \<Rightarrow> bool" where
  "nxweb_encode_chunked_is_complete es \<longleftrightarrow> ce_final_chunk es \<and> ce_pos es = 7"

section \<open>The driver in the server protocol\<close>

text \<open>
  \<open>caps\<close> says how many bytes the socket takes at each of the following writes.  A write gives the
  number of bytes taken and the bytes.
\<close>

definition dev_write :: "nat list \<Rightarrow> string \<Rightarrow> nat \<times> string \<times> nat list" where
  "dev_write caps s =
     (case caps of [] \<Rightarrow> (0, [], []) | c # cs \<Rightarrow> (min c (length s), take c s, cs))"

definition encoded_write :: "nat list \<Rightarrow> nxweb_chunked_encoder_state \<Rightarrow> string
    \<Rightarrow> nxweb_chunked_encoder_state \<times> string \<times> nat \<times> bool \<times> nat list" where
  "encoded_write caps es s =
     (let (cbs, out, caps) = dev_write caps s in
      (nxweb_encode_chunked_advance es cbs, out, cbs, cbs \<noteq> length s, caps))"

definition write_if :: "bool \<Rightarrow> nat list \<Rightarrow> nxweb_chunked_encoder_state \<Rightarrow> string
    \<Rightarrow> nxweb_chunked_encoder_state \<times> string \<times> nat \<times> bool \<times> nat list" where
  "write_if b caps es s = (if b then encoded_write caps es s else (es, [], 0, False, caps))"

definition frame_bytes :: "nxweb_chunked_encoder_state \<Rightarrow> nat option \<Rightarrow> nat \<Rightarrow> string" where
  "frame_bytes es send_ptr send_size =
     (case send_ptr of None \<Rightarrow> [] | Some p \<Rightarrow> take send_size (drop p (ce_buf es)))"

text \<open>
  The branch \<^verbatim>\<open>chunked_autoencode\<close> of \<^verbatim>\<open>resp_body_in_write_or_sendfile\<close> for the offered bytes
  \<open>ptr\<close>: the frame header, the data, and then the end of the frame or the last chunk.  The result
  is the encoder state, the bytes put on the wire and \<^verbatim>\<open>bytes_sent\<close>.
\<close>

definition resp_body_write_chunked :: "nxweb_chunked_encoder_state \<Rightarrow> nat list \<Rightarrow> string \<Rightarrow> bool
    \<Rightarrow> (nxweb_chunked_encoder_state \<times> string \<times> nat) option" where
  "resp_body_write_chunked es caps ptr eof = do {
     (r, es, chunk_size, send_ptr, send_size, cwf) \<leftarrow> nxweb_encode_chunked_stream es (length ptr) eof;
     let (es, out1, _, skip, caps) = write_if r caps es (frame_bytes es send_ptr send_size);
     let (es, out2, bytes_sent, skip2, caps) = write_if (\<not> skip \<and> chunk_size \<noteq> 0) caps es (take chunk_size ptr);
     if skip \<or> skip2 then Some (es, out1 @ out2, bytes_sent)
     else do {
       (r, es, _, send_ptr, send_size, _) \<leftarrow>
         nxweb_encode_chunked_stream es 0 (if chunk_size = length ptr then eof else False);
       let (es, out3, _, _, _) = write_if r caps es (frame_bytes es send_ptr send_size);
       Some (es, out1 @ out2 @ out3, bytes_sent) } }"

text \<open>
  A whole response: each call \<open>(caps, sz, eof)\<close> offers the next \<open>sz\<close> bytes of what is left of
  the body.
\<close>

fun send_body :: "nxweb_chunked_encoder_state \<Rightarrow> string \<Rightarrow> (nat list \<times> nat \<times> bool) list
    \<Rightarrow> (nxweb_chunked_encoder_state \<times> string \<times> string) option" where
  "send_body es rest [] = Some (es, [], rest)"
| "send_body es rest ((caps, sz, eof) # calls) = do {
     (es, out, n) \<leftarrow> resp_body_write_chunked es caps (take sz rest) eof;
     (es, wire, rest) \<leftarrow> send_body es (drop n rest) calls;
     Some (es, out @ wire, rest) }"

text \<open>
  What the stream that feeds the body promises: bytes of an announced chunk stay on offer, \<^verbatim>\<open>EOF\<close>
  comes with the last bytes and stays.
\<close>

definition outstanding :: "nxweb_chunked_encoder_state \<Rightarrow> nat" where
  "outstanding es =
     (if ce_header_prepared es \<and> \<not> ce_final_chunk es then ce_chunk_size es - (ce_pos es - SIZEOF_CE_BUF) else 0)"

fun offers_ok :: "nxweb_chunked_encoder_state \<Rightarrow> string \<Rightarrow> (nat list \<times> nat \<times> bool) list \<Rightarrow> bool" where
  "offers_ok es rest [] = True"
| "offers_ok es rest ((caps, sz, eof) # calls) =
     (outstanding es \<le> sz \<and> (eof \<longrightarrow> length rest \<le> sz) \<and> (ce_final_chunk es \<longrightarrow> eof)
      \<and> (case resp_body_write_chunked es caps (take sz rest) eof of
           None \<Rightarrow> True | Some (es, _, n) \<Rightarrow> offers_ok es (drop n rest) calls))"

section \<open>The invariant\<close>

definition chunk_frame :: "string \<Rightarrow> string" where
  "chunk_frame x = CRLF @ hex_pad 4 (length x) @ CRLF @ x"

definition last_frame :: string where
  "last_frame = CRLF @ ''0'' @ CRLF @ CRLF"

definition chunk_ok :: "string \<Rightarrow> bool" where
  "chunk_ok x \<longleftrightarrow> x \<noteq> [] \<and> length x \<le> 0xffff"

text \<open>
  The three phases of the encoder: between two frames, inside the frame of a chunk, in the last
  frame.  \<open>wire\<close> is what was sent, \<open>dat\<close> what was taken of the body; the first two bytes of the
  stream, the end of a chunk before the first one, are not sent.
\<close>

definition between :: "string list \<Rightarrow> nxweb_chunked_encoder_state \<Rightarrow> string \<Rightarrow> string \<Rightarrow> bool" where
  "between past es wire dat \<longleftrightarrow>
     \<not> ce_final_chunk es \<and> \<not> ce_header_prepared es \<and> ce_pos es \<le> 2
     \<and> length (ce_buf es) = 8 \<and> take 2 (ce_buf es) = CRLF \<and> drop 6 (ce_buf es) = CRLF
     \<and> dat = concat past \<and> CRLF @ wire = concat (map chunk_frame past) @ take (ce_pos es) CRLF"

definition inside :: "string list \<Rightarrow> string \<Rightarrow> nxweb_chunked_encoder_state \<Rightarrow> string \<Rightarrow> string \<Rightarrow> bool" where
  "inside past x es wire dat \<longleftrightarrow>
     \<not> ce_final_chunk es \<and> ce_header_prepared es \<and> 0 < ce_chunk_size es \<and> ce_chunk_size es \<le> 0xffff
     \<and> ce_pos es < 8 + ce_chunk_size es \<and> ce_buf es = CRLF @ hex_pad 4 (ce_chunk_size es) @ CRLF
     \<and> length x = ce_pos es - 8 \<and> dat = concat past @ x
     \<and> CRLF @ wire = concat (map chunk_frame past) @ take (ce_pos es) (ce_buf es) @ x"

definition ending :: "string list \<Rightarrow> nxweb_chunked_encoder_state \<Rightarrow> string \<Rightarrow> string \<Rightarrow> bool" where
  "ending past es wire dat \<longleftrightarrow>
     ce_final_chunk es \<and> ce_pos es \<le> 7 \<and> take 7 (ce_buf es) = last_frame
     \<and> dat = concat past \<and> CRLF @ wire = concat (map chunk_frame past) @ take (ce_pos es) last_frame"

definition enc_inv :: "nxweb_chunked_encoder_state \<Rightarrow> string \<Rightarrow> string \<Rightarrow> bool" where
  "enc_inv es wire dat \<longleftrightarrow>
     (\<exists>past. list_all chunk_ok past
       \<and> (between past es wire dat \<or> (\<exists>x. inside past x es wire dat) \<or> ending past es wire dat))"

lemma enc_inv_init: "enc_inv nxweb_encode_chunked_init [] []"
  by (auto simp: enc_inv_def between_def nxweb_encode_chunked_init_def intro!: exI [of _ "[]"])

lemma enc_inv_is_complete:
  assumes "enc_inv es wire dat" "nxweb_encode_chunked_is_complete es"
  obtains past where "list_all chunk_ok past" "dat = concat past" "CRLF @ wire = concat (map chunk_frame past) @ last_frame"
  using assms
  by (auto simp: enc_inv_def nxweb_encode_chunked_is_complete_def between_def inside_def ending_def last_frame_def)

section \<open>Steps of the encoder\<close>

lemma take_prefix: "p \<le> length a \<Longrightarrow> take p (a @ b) = take p a"
  by simp

lemma take_window: "p + k \<le> n \<Longrightarrow> take k (drop p (take n xs)) = take k (drop p xs)"
  by (simp add: drop_take min_def)

lemma wire_extend: "CRLF @ wire = W @ take p xs \<Longrightarrow> CRLF @ wire @ take k (drop p xs) = W @ take (p + k) xs"
  by (metis append.assoc take_add)

lemma encode_announce:
  assumes "between past es wire dat" "0 < n"
  obtains es' where "nxweb_encode_chunked_stream es n eof
      = Some (True, es', min n 0xffff, Some (ce_pos es'), 8 - ce_pos es', False)"
    "inside past [] es' wire dat" "ce_pos es' \<le> 2" "ce_chunk_size es' = min n 0xffff"
proof -
  define k where "k = min n 0xffff"
  have k: "0 < k" "k \<le> 0xffff" "clip_chunk n = k" using assms(2) by (auto simp: k_def clip_chunk_def)
  have "ce_buf es = take 2 (ce_buf es) @ take 4 (drop 2 (ce_buf es)) @ drop 4 (drop 2 (ce_buf es))"
    by (simp only: append_take_drop_id)
  with assms(1) have buf: "ce_buf es = CRLF @ take 4 (drop 2 (ce_buf es)) @ CRLF" "length (take 4 (drop 2 (ce_buf es))) = 4"
    by (auto simp: between_def)
  have "uint_to_hex_string_zeropad k (ce_buf es) 2 4 False = Some (CRLF @ hex_pad 4 k @ CRLF)"
    using uint_to_hex_string_zeropad_correct [OF buf(2), of k CRLF CRLF] buf(1)
    by (metis (no_types, lifting) One_nat_def Suc_1 length_Cons list.size(3))
  then have "nxweb_encode_chunked_stream es n eof = Some (True,
      es\<lparr>ce_chunk_size := k, ce_buf := CRLF @ hex_pad 4 k @ CRLF, ce_header_prepared := True\<rparr>, k,
      Some (ce_pos es), 8 - ce_pos es, False)"
    using assms k by (simp add: between_def nxweb_encode_chunked_stream_def SIZEOF_CE_BUF_def)
  moreover have "take (ce_pos es) CRLF = take (ce_pos es) (CRLF @ hex_pad 4 k @ CRLF)"
    using assms(1) take_prefix [of "ce_pos es" CRLF "hex_pad 4 k @ CRLF"] by (simp add: between_def)
  ultimately show ?thesis
    using assms k that [of "es\<lparr>ce_chunk_size := k, ce_buf := CRLF @ hex_pad 4 k @ CRLF, ce_header_prepared := True\<rparr>"]
    by (simp add: between_def inside_def k_def [symmetric])
qed

lemma inside_header:
  assumes "inside past [] es wire dat" "ce_pos es + k \<le> 8"
  shows "inside past [] (nxweb_encode_chunked_advance es k) (wire @ take k (drop (ce_pos es) (ce_buf es))) dat"
  using assms wire_extend [of wire "concat (map chunk_frame past)" "ce_pos es" "ce_buf es" k]
  by (auto simp: inside_def nxweb_encode_chunked_advance_def SIZEOF_CE_BUF_def Let_def)

lemma inside_data:
  assumes "inside past x es wire dat" "8 \<le> ce_pos es" "ce_pos es + length y < 8 + ce_chunk_size es"
  shows "inside past (x @ y) (nxweb_encode_chunked_advance es (length y)) (wire @ y) (dat @ y)"
  using assms
  by (auto simp: inside_def nxweb_encode_chunked_advance_def SIZEOF_CE_BUF_def Let_def)

lemma inside_last_data:
  assumes "inside past x es wire dat" "8 \<le> ce_pos es" "ce_pos es + length y = 8 + ce_chunk_size es"
  shows "between (past @ [x @ y]) (nxweb_encode_chunked_advance es (length y)) (wire @ y) (dat @ y)"
    "chunk_ok (x @ y)"
proof -
  have len: "length (x @ y) = ce_chunk_size es" "length y \<noteq> 0" using assms by (auto simp: inside_def)
  then show "chunk_ok (x @ y)" using assms(1) by (auto simp: chunk_ok_def inside_def)
  have "length (ce_buf es) = 8" using assms(1) by (simp add: inside_def)
  with assms len show "between (past @ [x @ y]) (nxweb_encode_chunked_advance es (length y)) (wire @ y) (dat @ y)"
    by (auto simp: inside_def between_def nxweb_encode_chunked_advance_def SIZEOF_CE_BUF_def Let_def chunk_frame_def)
qed

lemma between_crlf:
  assumes "between past es wire dat" "ce_pos es + k \<le> 2"
  shows "between past (nxweb_encode_chunked_advance es k) (wire @ take k (drop (ce_pos es) (ce_buf es))) dat"
proof -
  have "take k (drop (ce_pos es) (ce_buf es)) = take k (drop (ce_pos es) CRLF)"
    using assms take_window [of "ce_pos es" k 2 "ce_buf es"] by (simp add: between_def)
  then show ?thesis using assms wire_extend [of wire "concat (map chunk_frame past)" "ce_pos es" CRLF k]
    by (auto simp: between_def nxweb_encode_chunked_advance_def SIZEOF_CE_BUF_def Let_def)
qed

lemma encode_end:
  assumes "between past es wire dat"
  obtains es' where "nxweb_encode_chunked_stream es 0 True = Some (True, es', 0, Some (ce_pos es'), 7 - ce_pos es', True)"
    "ending past es' wire dat"
proof -
  let ?b = "take 2 (ce_buf es) @ ''0'' @ CRLF @ CRLF @ drop 7 (ce_buf es)"
  have "take 7 ?b = last_frame" using assms by (simp add: between_def last_frame_def)
  moreover have "take (ce_pos es) CRLF = take (ce_pos es) last_frame"
    using assms take_prefix [of "ce_pos es" CRLF "''0'' @ CRLF @ CRLF"] by (simp add: between_def last_frame_def)
  ultimately show ?thesis using assms that [of "es\<lparr>ce_final_chunk := True, ce_buf := ?b\<rparr>"]
    by (auto simp: between_def ending_def nxweb_encode_chunked_stream_def)
qed

lemma ending_pos: "ending past es wire dat \<Longrightarrow> ce_pos es \<le> 7 \<and> 7 \<le> length (ce_buf es)"
proof -
  assume e: "ending past es wire dat"
  then have "length (take 7 (ce_buf es)) = 7" by (simp add: ending_def last_frame_def)
  then have "7 \<le> length (ce_buf es)" by (metis length_take min.cobounded1)
  with e show ?thesis by (simp add: ending_def)
qed

lemma ending_send:
  assumes "ending past es wire dat" "ce_pos es + k \<le> 7"
  shows "ending past (nxweb_encode_chunked_advance es k) (wire @ take k (drop (ce_pos es) (ce_buf es))) dat"
proof -
  have "take k (drop (ce_pos es) (ce_buf es)) = take k (drop (ce_pos es) last_frame)"
    using assms take_window [of "ce_pos es" k 7 "ce_buf es"] by (simp add: ending_def)
  then show ?thesis using assms wire_extend [of wire "concat (map chunk_frame past)" "ce_pos es" last_frame k]
    by (auto simp: ending_def nxweb_encode_chunked_advance_def SIZEOF_CE_BUF_def Let_def)
qed

section \<open>One call of the driver\<close>

lemma write_ifE:
  assumes "write_if b caps es s = (es', out, n, skip, caps')"
  obtains "n \<le> length s" "es' = nxweb_encode_chunked_advance es n" "out = take n s"
    "b \<Longrightarrow> skip \<longleftrightarrow> n < length s" "\<not> b \<Longrightarrow> n = 0 \<and> \<not> skip"
  using assms
  by (auto simp: write_if_def encoded_write_def dev_write_def nxweb_encode_chunked_advance_def min_def
      split: if_splits list.splits)

lemma write_frameE:
  assumes "write_if b caps es (frame_bytes es (Some p) ss) = (es', out, n, skip, caps')" "p + ss \<le> length (ce_buf es)"
  obtains "n \<le> ss" "es' = nxweb_encode_chunked_advance es n" "out = take n (drop p (ce_buf es))"
    "b \<Longrightarrow> skip \<longleftrightarrow> n < ss" "\<not> b \<Longrightarrow> n = 0 \<and> \<not> skip"
proof -
  have len: "length (frame_bytes es (Some p) ss) = ss" using assms(2) by (simp add: frame_bytes_def)
  have "take n (frame_bytes es (Some p) ss) = take n (drop p (ce_buf es))" if "n \<le> ss"
    using that by (simp add: frame_bytes_def min_def)
  with assms(1) len that show ?thesis by (elim write_ifE) auto
qed

lemma advance_final [simp]: "ce_final_chunk (nxweb_encode_chunked_advance es n) = ce_final_chunk es"
  by (simp add: nxweb_encode_chunked_advance_def Let_def)

definition idle :: "nxweb_chunked_encoder_state \<Rightarrow> string \<Rightarrow> string \<Rightarrow> bool \<Rightarrow> bool" where
  "idle es wire dat eof \<longleftrightarrow>
     (\<exists>past. list_all chunk_ok past \<and> (between past es wire dat \<or> ending past es wire dat \<and> eof))"

lemma idle_inv: "idle es wire dat eof \<Longrightarrow> enc_inv es wire dat"
  by (auto simp: idle_def enc_inv_def)

lemma idle_outstanding: "idle es wire dat eof \<Longrightarrow> outstanding es = 0 \<and> (ce_final_chunk es \<longrightarrow> eof)"
  by (auto simp: idle_def between_def ending_def outstanding_def)

text \<open>With nothing offered, the encoder sends the end of a frame or, at the end, the last frame.\<close>

lemma tail_frame:
  assumes "idle es wire dat eof"
  obtains r es1 sp ss f where "nxweb_encode_chunked_stream es 0 eof = Some (r, es1, 0, sp, ss, f)"
    "\<And>caps es' out n sk caps'. write_if r caps es1 (frame_bytes es1 sp ss) = (es', out, n, sk, caps')
       \<Longrightarrow> idle es' (wire @ out) dat eof"
proof -
  obtain past where past: "list_all chunk_ok past" "between past es wire dat \<or> ending past es wire dat \<and> eof"
    using assms by (auto simp: idle_def)
  consider (crlf) "between past es wire dat" "\<not> eof" | (final) "between past es wire dat" "eof"
    | (ending) "ending past es wire dat" "eof" using past(2) by auto
  then show ?thesis
  proof cases
    case crlf
    show ?thesis
    proof (rule that)
      show "nxweb_encode_chunked_stream es 0 eof = Some (2 - ce_pos es \<noteq> 0, es, 0, Some (ce_pos es), 2 - ce_pos es, eof)"
        using crlf by (simp add: between_def nxweb_encode_chunked_stream_def)
      fix caps es' out n sk caps'
      assume "write_if (2 - ce_pos es \<noteq> 0) caps es (frame_bytes es (Some (ce_pos es)) (2 - ce_pos es)) = (es', out, n, sk, caps')"
      then show "idle es' (wire @ out) dat eof"
      proof (rule write_frameE)
        show len: "ce_pos es + (2 - ce_pos es) \<le> length (ce_buf es)" using crlf by (simp add: between_def)
        assume n: "n \<le> 2 - ce_pos es" and eq: "es' = nxweb_encode_chunked_advance es n" "out = take n (drop (ce_pos es) (ce_buf es))"
        have "ce_pos es + n \<le> 2" using crlf n by (auto simp: between_def)
        with eq show "idle es' (wire @ out) dat eof"
          using between_crlf [OF crlf(1), of n] past(1) by (auto simp: idle_def)
      qed
    qed
  next
    case final
    obtain es1 where es1: "nxweb_encode_chunked_stream es 0 True = Some (True, es1, 0, Some (ce_pos es1), 7 - ce_pos es1, True)"
      "ending past es1 wire dat" by (rule encode_end [OF final(1)])
    show ?thesis
    proof (rule that)
      show "nxweb_encode_chunked_stream es 0 eof = Some (True, es1, 0, Some (ce_pos es1), 7 - ce_pos es1, True)"
        using es1(1) final by simp
      fix caps es' out n sk caps'
      assume "write_if True caps es1 (frame_bytes es1 (Some (ce_pos es1)) (7 - ce_pos es1)) = (es', out, n, sk, caps')"
      then show "idle es' (wire @ out) dat eof"
      proof (rule write_frameE)
        have pos: "ce_pos es1 \<le> 7" "7 \<le> length (ce_buf es1)"
          using ending_pos [OF es1(2)] by simp_all
        then show "ce_pos es1 + (7 - ce_pos es1) \<le> length (ce_buf es1)" by simp
        assume n: "n \<le> 7 - ce_pos es1" and eq: "es' = nxweb_encode_chunked_advance es1 n" "out = take n (drop (ce_pos es1) (ce_buf es1))"
        have "ce_pos es1 + n \<le> 7" using pos n by simp
        with eq ending_send [OF es1(2), of n] past(1) final(2) show "idle es' (wire @ out) dat eof" by (auto simp: idle_def)
      qed
    qed
  next
    case ending
    show ?thesis
    proof (rule that)
      show "nxweb_encode_chunked_stream es 0 eof = Some (True, es, 0, Some (ce_pos es), 7 - ce_pos es, True)"
        using ending by (simp add: ending_def nxweb_encode_chunked_stream_def)
      fix caps es' out n sk caps'
      assume "write_if True caps es (frame_bytes es (Some (ce_pos es)) (7 - ce_pos es)) = (es', out, n, sk, caps')"
      then show "idle es' (wire @ out) dat eof"
      proof (rule write_frameE)
        have pos: "ce_pos es \<le> 7" "7 \<le> length (ce_buf es)"
          using ending_pos [OF ending(1)] by simp_all
        then show "ce_pos es + (7 - ce_pos es) \<le> length (ce_buf es)" by simp
        assume n: "n \<le> 7 - ce_pos es" and eq: "es' = nxweb_encode_chunked_advance es n" "out = take n (drop (ce_pos es) (ce_buf es))"
        have "ce_pos es + n \<le> 7" using pos n by simp
        with eq ending_send [OF ending(1), of n] past(1) ending(2) show "idle es' (wire @ out) dat eof" by (auto simp: idle_def)
      qed
    qed
  qed
qed

definition at_data :: "nxweb_chunked_encoder_state \<Rightarrow> string \<Rightarrow> string \<Rightarrow> nat \<Rightarrow> bool" where
  "at_data es wire dat cs \<longleftrightarrow>
     (\<exists>past x. list_all chunk_ok past \<and> inside past x es wire dat \<and> 8 \<le> ce_pos es
        \<and> cs + ce_pos es = 8 + ce_chunk_size es)"

lemma at_data_outstanding: "at_data es wire dat cs \<Longrightarrow> enc_inv es wire dat \<and> outstanding es = cs \<and> cs \<noteq> 0 \<and> \<not> ce_final_chunk es"
  by (auto simp: at_data_def enc_inv_def inside_def outstanding_def SIZEOF_CE_BUF_def)

text \<open>Sending the rest of a frame header, all of it or not.\<close>

lemma write_header:
  assumes "list_all chunk_ok past" "inside past [] es wire dat" "ce_pos es < 8"
    "write_if True caps es (frame_bytes es (Some (ce_pos es)) (8 - ce_pos es)) = (es', out, n, sk, caps')"
  shows "enc_inv es' (wire @ out) dat \<and> outstanding es' = ce_chunk_size es \<and> \<not> ce_final_chunk es'
    \<and> (\<not> sk \<longrightarrow> at_data es' (wire @ out) dat (ce_chunk_size es))"
  using assms(4)
proof (rule write_frameE)
  show "ce_pos es + (8 - ce_pos es) \<le> length (ce_buf es)" using assms by (simp add: inside_def)
  assume n: "n \<le> 8 - ce_pos es" and eq: "es' = nxweb_encode_chunked_advance es n" "out = take n (drop (ce_pos es) (ce_buf es))"
    and sk: "True \<Longrightarrow> sk \<longleftrightarrow> n < 8 - ce_pos es"
  from n assms(3) have le: "ce_pos es + n \<le> 8" by simp
  have ins: "inside past [] es' (wire @ out) dat" using inside_header [OF assms(2) le] eq by simp
  have pos: "ce_pos es' = ce_pos es + n" "ce_chunk_size es' = ce_chunk_size es"
    using le assms(2) eq(1) by (auto simp: nxweb_encode_chunked_advance_def Let_def SIZEOF_CE_BUF_def inside_def)
  have "enc_inv es' (wire @ out) dat" using ins assms(1) by (auto simp: enc_inv_def)
  moreover have "outstanding es' = ce_chunk_size es" "\<not> ce_final_chunk es'"
    using ins pos le by (auto simp: outstanding_def inside_def SIZEOF_CE_BUF_def)
  moreover have "at_data es' (wire @ out) dat (ce_chunk_size es)" if "\<not> sk"
    using ins pos sk that n assms(1,3) by (auto simp: at_data_def)
  ultimately show ?thesis by simp
qed

lemma head_frame:
  assumes "enc_inv es wire dat" "outstanding es \<le> k" "ce_final_chunk es \<longrightarrow> eof \<and> k = 0"
  obtains r es1 cs sp ss f where "nxweb_encode_chunked_stream es k eof = Some (r, es1, cs, sp, ss, f)" "cs \<le> k"
    "\<And>caps es' out n sk caps'. write_if r caps es1 (frame_bytes es1 sp ss) = (es', out, n, sk, caps')
       \<Longrightarrow> enc_inv es' (wire @ out) dat \<and> outstanding es' \<le> k \<and> (ce_final_chunk es' \<longrightarrow> eof \<and> k = 0)
         \<and> (\<not> sk \<longrightarrow> (k = 0 \<and> cs = 0 \<and> idle es' (wire @ out) dat eof) \<or> at_data es' (wire @ out) dat cs)"
proof -
  from assms(1) obtain past where past: "list_all chunk_ok past"
    "between past es wire dat \<or> (\<exists>x. inside past x es wire dat) \<or> ending past es wire dat" by (auto simp: enc_inv_def)
  consider (idle) "k = 0" "idle es wire dat eof" | (new) "0 < k" "between past es wire dat"
    | (header) x where "inside past x es wire dat" "ce_pos es < 8" | (data) x where "inside past x es wire dat" "8 \<le> ce_pos es"
    using past assms(3) by (force simp: idle_def ending_def)
  then show ?thesis
  proof cases
    case idle
    from tail_frame [OF idle(2)] obtain r es1 sp ss f where
      e: "nxweb_encode_chunked_stream es 0 eof = Some (r, es1, 0, sp, ss, f)"
      and w: "\<And>caps es' out n sk caps'. write_if r caps es1 (frame_bytes es1 sp ss) = (es', out, n, sk, caps')
        \<Longrightarrow> idle es' (wire @ out) dat eof" by blast
    show ?thesis
    proof (rule that)
      show "nxweb_encode_chunked_stream es k eof = Some (r, es1, 0, sp, ss, f)" "0 \<le> k" using e idle by auto
      fix caps es' out n sk caps'
      assume "write_if r caps es1 (frame_bytes es1 sp ss) = (es', out, n, sk, caps')"
      then have id: "idle es' (wire @ out) dat eof" by (rule w)
      show "enc_inv es' (wire @ out) dat \<and> outstanding es' \<le> k \<and> (ce_final_chunk es' \<longrightarrow> eof \<and> k = 0)
         \<and> (\<not> sk \<longrightarrow> (k = 0 \<and> (0::nat) = 0 \<and> idle es' (wire @ out) dat eof) \<or> at_data es' (wire @ out) dat 0)"
        using id idle_inv [OF id] idle_outstanding [OF id] idle(1) by auto
    qed
  next
    case new
    obtain es1 where es1: "nxweb_encode_chunked_stream es k eof
        = Some (True, es1, min k 0xffff, Some (ce_pos es1), 8 - ce_pos es1, False)"
      "inside past [] es1 wire dat" "ce_pos es1 \<le> 2" "ce_chunk_size es1 = min k 0xffff"
      by (rule encode_announce [OF new(2,1), where eof = eof]) blast
    show ?thesis
      by (rule that [OF es1(1)]) (use write_header [OF past(1) es1(2)] es1(3,4) in \<open>auto\<close>)
  next
    case header
    then have "x = []" by (simp add: inside_def)
    with header have ins: "inside past [] es wire dat" by simp
    have out: "outstanding es = ce_chunk_size es" using header by (simp add: inside_def outstanding_def SIZEOF_CE_BUF_def)
    have e: "nxweb_encode_chunked_stream es k eof = Some (True, es, ce_chunk_size es, Some (ce_pos es), 8 - ce_pos es, False)"
      using header assms(2) out by (auto simp: inside_def nxweb_encode_chunked_stream_def SIZEOF_CE_BUF_def)
    show ?thesis
      by (rule that [OF e]) (use write_header [OF past(1) ins header(2)] assms(2) out in \<open>auto\<close>)
  next
    case data
    have out: "outstanding es + ce_pos es = 8 + ce_chunk_size es" "\<not> ce_final_chunk es"
      using data by (auto simp: inside_def outstanding_def SIZEOF_CE_BUF_def)
    have e: "nxweb_encode_chunked_stream es k eof = Some (False, es, outstanding es, None, 0, False)"
      using data assms(2) out by (auto simp: inside_def nxweb_encode_chunked_stream_def SIZEOF_CE_BUF_def outstanding_def Let_def)
    have "at_data es wire dat (outstanding es)" using data out past(1) by (auto simp: at_data_def)
    with assms out show ?thesis
      by (intro that [OF e]) (auto simp: write_if_def)
  qed
qed

lemma write_data:
  assumes "at_data es wire dat cs" "cs \<le> length ptr"
    "write_if True caps es (take cs ptr) = (es', out, n, sk, caps')"
  shows "n \<le> cs \<and> out = take n ptr \<and> (sk \<longrightarrow> at_data es' (wire @ out) (dat @ out) (cs - n))
    \<and> (\<not> sk \<longrightarrow> n = cs \<and> idle es' (wire @ out) (dat @ out) False)"
  using assms(3)
proof (rule write_ifE)
  assume n: "n \<le> length (take cs ptr)" and eq: "es' = nxweb_encode_chunked_advance es n" "out = take n (take cs ptr)"
    and sk: "True \<Longrightarrow> sk \<longleftrightarrow> n < length (take cs ptr)"
  from assms(1) obtain past x where past: "list_all chunk_ok past" "inside past x es wire dat" "8 \<le> ce_pos es"
    "cs + ce_pos es = 8 + ce_chunk_size es" by (auto simp: at_data_def)
  have "n \<le> cs" using n assms(2) by simp
  then have n': "n \<le> cs" "out = take n ptr" "length out = n" using eq(2) assms(2) by (auto simp: min_def)
  show ?thesis
  proof (cases sk)
    case True
    then have lt: "ce_pos es + length out < 8 + ce_chunk_size es" using sk n' past(4) assms(2) by simp
    have "ce_pos es' = ce_pos es + n" "ce_chunk_size es' = ce_chunk_size es"
      using lt n' eq(1) by (auto simp: nxweb_encode_chunked_advance_def Let_def SIZEOF_CE_BUF_def)
    then have "at_data es' (wire @ out) (dat @ out) (cs - n)"
      using inside_data [OF past(2,3) lt] past n' eq(1) by (auto simp: at_data_def)
    with True n' show ?thesis by simp
  next
    case False
    then have all: "n = cs" using sk n' assms(2) by simp
    then have "ce_pos es + length out = 8 + ce_chunk_size es" using n' past(4) by simp
    from inside_last_data [OF past(2,3) this] past(1) n' eq(1)
    have "idle es' (wire @ out) (dat @ out) False" by (auto simp: idle_def intro!: exI [of _ "past @ [x @ out]"])
    with False n' all show ?thesis by simp
  qed
qed

lemma idle_eof: "idle es wire dat False \<Longrightarrow> idle es wire dat eof"
  by (auto simp: idle_def)

lemma resp_body_write_chunked_inv:
  assumes "enc_inv es wire dat" "outstanding es \<le> length ptr" "ce_final_chunk es \<longrightarrow> eof \<and> ptr = []"
  shows "\<exists>es' out n. resp_body_write_chunked es caps ptr eof = Some (es', out, n) \<and> n \<le> length ptr
    \<and> enc_inv es' (wire @ out) (dat @ take n ptr) \<and> outstanding es' \<le> length ptr - n
    \<and> (ce_final_chunk es' \<longrightarrow> eof \<and> n = length ptr)"
proof -
  have f: "ce_final_chunk es \<longrightarrow> eof \<and> length ptr = 0" using assms(3) by auto
  obtain r es1 cs sp ss f where e1: "nxweb_encode_chunked_stream es (length ptr) eof = Some (r, es1, cs, sp, ss, f)" "cs \<le> length ptr"
    and w1: "\<And>caps es' out n sk caps'. write_if r caps es1 (frame_bytes es1 sp ss) = (es', out, n, sk, caps')
       \<Longrightarrow> enc_inv es' (wire @ out) dat \<and> outstanding es' \<le> length ptr \<and> (ce_final_chunk es' \<longrightarrow> eof \<and> length ptr = 0)
         \<and> (\<not> sk \<longrightarrow> (length ptr = 0 \<and> cs = 0 \<and> idle es' (wire @ out) dat eof) \<or> at_data es' (wire @ out) dat cs)"
    by (rule head_frame [OF assms(1,2) f]) blast
  obtain es2 out1 n1 sk1 caps1 where s1: "write_if r caps es1 (frame_bytes es1 sp ss) = (es2, out1, n1, sk1, caps1)"
    by (cases "write_if r caps es1 (frame_bytes es1 sp ss)")
  note i1 = w1 [OF s1]
  obtain es3 out2 n2 sk2 caps2 where s2: "write_if (\<not> sk1 \<and> cs \<noteq> 0) caps1 es2 (take cs ptr) = (es3, out2, n2, sk2, caps2)"
    by (cases "write_if (\<not> sk1 \<and> cs \<noteq> 0) caps1 es2 (take cs ptr)")
  let ?eof = "if cs = length ptr then eof else False"
  have go: ?thesis if ns: "\<not> sk1" "\<not> sk2" and id: "idle es3 (wire @ out1 @ out2) (dat @ take n2 ptr) ?eof" and n2: "n2 = cs"
  proof -
    obtain r es4 sp ss f where e3: "nxweb_encode_chunked_stream es3 0 ?eof = Some (r, es4, 0, sp, ss, f)"
      and w3: "\<And>caps es' out n sk caps'. write_if r caps es4 (frame_bytes es4 sp ss) = (es', out, n, sk, caps')
       \<Longrightarrow> idle es' ((wire @ out1 @ out2) @ out) (dat @ take n2 ptr) ?eof"
      using tail_frame [OF id] by blast
    obtain es5 out3 n3 sk3 caps3 where s3: "write_if r caps2 es4 (frame_bytes es4 sp ss) = (es5, out3, n3, sk3, caps3)"
      by (cases "write_if r caps2 es4 (frame_bytes es4 sp ss)")
    have "resp_body_write_chunked es caps ptr eof = Some (es5, out1 @ out2 @ out3, n2)"
      using e1 s1 s2 ns e3 s3 by (simp add: resp_body_write_chunked_def)
    moreover note w = w3 [OF s3]
    ultimately show ?thesis
      using idle_inv [OF w] idle_outstanding [OF w] e1(2) n2 by (auto split: if_splits)
  qed
  have stopped: "resp_body_write_chunked es caps ptr eof = Some (es3, out1 @ out2, n2)" if "sk1 \<or> sk2"
    using that e1 s1 s2 by (auto simp: resp_body_write_chunked_def)
  consider (header) "sk1" | (none) "\<not> sk1" "length ptr = 0" "cs = 0" "idle es2 (wire @ out1) dat eof"
    | (data) "\<not> sk1" "at_data es2 (wire @ out1) dat cs" using i1 by auto
  then show ?thesis
  proof cases
    case header
    then have "es3 = es2" "out2 = []" "n2 = 0" using s2 by (auto simp: write_if_def)
    with stopped header i1 show ?thesis by auto
  next
    case none
    then have "es3 = es2" "out2 = []" "n2 = 0" "\<not> sk2" using s2 by (auto simp: write_if_def)
    with go none show ?thesis by simp
  next
    case data
    have cs: "cs \<noteq> 0" using at_data_outstanding [OF data(2)] by simp
    with data s2 have "write_if True caps1 es2 (take cs ptr) = (es3, out2, n2, sk2, caps2)" by simp
    note d = write_data [OF data(2) e1(2) this]
    show ?thesis
    proof (cases sk2)
      case True
      with d have a: "at_data es3 (wire @ out1 @ out2) (dat @ take n2 ptr) (cs - n2)" "n2 \<le> cs" by auto
      with stopped True at_data_outstanding [OF a(1)] e1(2) show ?thesis by auto
    next
      case False
      with d have "idle es3 (wire @ out1 @ out2) (dat @ take n2 ptr) False" "n2 = cs" by auto
      with go data(1) False idle_eof show ?thesis by auto
    qed
  qed
qed

lemma send_body_inv:
  assumes "enc_inv es wire dat" "offers_ok es rest calls" "ce_final_chunk es \<longrightarrow> rest = []" "outstanding es \<le> length rest"
  shows "\<exists>es' wire' n. send_body es rest calls = Some (es', wire', drop n rest) \<and> n \<le> length rest
    \<and> enc_inv es' (wire @ wire') (dat @ take n rest) \<and> (ce_final_chunk es' \<longrightarrow> n = length rest)"
  using assms
proof (induction calls arbitrary: es rest wire dat)
  case Nil
  then show ?case by (auto intro!: exI [of _ "0::nat"])
next
  case (Cons c calls)
  obtain caps sz eof where c: "c = (caps, sz, eof)" by (cases c)
  let ?ptr = "take sz rest"
  have len: "outstanding es \<le> length ?ptr" "ce_final_chunk es \<longrightarrow> eof \<and> ?ptr = []"
    using Cons.prems c by auto
  obtain es1 out n where one: "resp_body_write_chunked es caps ?ptr eof = Some (es1, out, n)" "n \<le> length ?ptr"
    "enc_inv es1 (wire @ out) (dat @ take n ?ptr)" "outstanding es1 \<le> length ?ptr - n"
    "ce_final_chunk es1 \<longrightarrow> eof \<and> n = length ?ptr"
    using resp_body_write_chunked_inv [OF Cons.prems(1) len] by blast
  have "n \<le> sz" using one(2) by simp
  then have tk: "take n ?ptr = take n rest" by (simp add: min_def)
  have next_ok: "offers_ok es1 (drop n rest) calls" "ce_final_chunk es1 \<longrightarrow> drop n rest = []"
    "outstanding es1 \<le> length (drop n rest)"
    using Cons.prems(2) c one by auto
  obtain es' wire' k where rec: "send_body es1 (drop n rest) calls = Some (es', wire', drop k (drop n rest))"
    "k \<le> length (drop n rest)" "enc_inv es' ((wire @ out) @ wire') ((dat @ take n rest) @ take k (drop n rest))"
    "ce_final_chunk es' \<longrightarrow> k = length (drop n rest)"
    using Cons.IH [OF one(3) [unfolded tk] next_ok] by blast
  show ?case
    using rec one(1,2) c take_add [of n k rest]
    by (intro exI [of _ es'] exI [of _ "out @ wire'"] exI [of _ "n + k"]) (auto simp: add.commute)
qed

section \<open>Frames decode to their chunks\<close>

lemma hex_digit_of_HEX_DIGIT [simp]: "hex_digit_of (HEX_DIGIT n) = Some (n mod 16)" "HEX_DIGIT n \<noteq> CR"
proof -
  have "n mod 16 < 16" by simp
  then show v: "hex_digit_of (HEX_DIGIT n) = Some (n mod 16)" by (auto simp: hex_digit_of_def HEX_DIGIT_code)
  have "hex_digit_of CR = None" by (simp add: hex_digit_of_def code_def)
  with v show "HEX_DIGIT n \<noteq> CR" by auto
qed

lemma chunk_run_hex_pad:
  assumes "cd_state ds = CDS_SIZE" "cd_chunk_bytes_left ds = 0" "k \<le> 15"
  shows "chunk_run ds (hex_pad k n) = Some (0, ds\<lparr>cd_chunk_bytes_left := n mod 16 ^ k\<rparr>, [])"
  using assms(3)
proof (induction k arbitrary: n)
  case 0
  then show ?case using assms(2) by (cases ds) simp
next
  case (Suc k)
  have eq: "n div 16 mod 16 ^ k * 16 + n mod 16 = n mod 16 ^ Suc k"
    by (simp add: mod_mult2_eq [of n 16 "16 ^ k"])
  have "n mod 16 ^ Suc k < 16 ^ Suc k" by simp
  also have "\<dots> \<le> 16 ^ 15" using Suc.prems by (intro power_increasing) auto
  also have "(16::nat) ^ 15 < 2 ^ 63" by simp
  finally have "shl4_add (n div 16 mod 16 ^ k) (n mod 16) = Some (n mod 16 ^ Suc k)"
    unfolding shl4_add_def eq by simp
  with Suc assms(1) show ?case by (simp add: chunk_run_append chunk_step_def)
qed

text \<open>The decoder between two chunks.\<close>

definition cds_between :: nxweb_chunked_decoder_state where
  "cds_between = cds_zero\<lparr>cd_state := CDS_CR1\<rparr>"

lemma chunk_run_frame:
  assumes "chunk_ok x"
  shows "chunk_run cds_between (chunk_frame x) = Some (0, cds_between, x)"
proof -
  have n: "length x mod 16 ^ 4 = length x" "x \<noteq> []" using assms by (auto simp: chunk_ok_def)
  have "chunk_run cds_between CRLF = Some (0, cds_zero, [])"
    by (simp add: cds_between_def chunk_eval)
  moreover have "chunk_run cds_zero (hex_pad 4 (length x)) = Some (0, cds_zero\<lparr>cd_chunk_bytes_left := length x\<rparr>, [])"
    using chunk_run_hex_pad [of cds_zero 4 "length x"] n by (simp add: cds_zero_def)
  moreover have "chunk_run (cds_zero\<lparr>cd_chunk_bytes_left := length x\<rparr>) CRLF
      = Some (0, cds_zero\<lparr>cd_chunk_bytes_left := length x, cd_state := CDS_DATA\<rparr>, [])"
    using n by (simp add: cds_zero_def chunk_step_def)
  moreover have "chunk_run (cds_zero\<lparr>cd_chunk_bytes_left := length x, cd_state := CDS_DATA\<rparr>) x = Some (0, cds_between, x)"
    using chunk_run_data [of "cds_zero\<lparr>cd_chunk_bytes_left := length x, cd_state := CDS_DATA\<rparr>" x] n
    by (simp add: cds_between_def cds_zero_def)
  ultimately show ?thesis by (simp only: chunk_frame_def chunk_run_append then_run_Some)
qed

lemma chunk_run_frames:
  "list_all chunk_ok xs \<Longrightarrow> chunk_run cds_between (concat (map chunk_frame xs)) = Some (0, cds_between, concat xs)"
  by (induction xs) (simp_all add: chunk_run_append chunk_run_frame then_run_0)

definition cds_done :: nxweb_chunked_decoder_state where
  "cds_done = cds_zero\<lparr>cd_state := CDS_LF1, cd_final_chunk := True\<rparr>"

lemma chunk_run_stream:
  assumes "list_all chunk_ok xs" "CRLF @ wire = concat (map chunk_frame xs) @ last_frame"
  shows "chunk_run cds_zero wire = Some (1, cds_done, concat xs)"
proof -
  have "chunk_run cds_between (CRLF @ wire) = chunk_run cds_zero wire"
    by (simp add: cds_between_def chunk_step_def cds_zero_def)
  moreover have "chunk_run cds_between last_frame = Some (1, cds_done, [])"
    by (simp add: cds_between_def last_frame_def cds_done_def chunk_eval)
  moreover have "chunk_run cds_between (concat (map chunk_frame xs) @ last_frame) = then_run (Some (0, cds_between, concat xs)) (\<lambda>ds. chunk_run ds last_frame)"
    unfolding chunk_run_append chunk_run_frames [OF assms(1)] ..
  ultimately show ?thesis unfolding assms(2) by (simp add: then_run_0)
qed

section \<open>Properties of the encoder\<close>

text \<open>
  C3: however the body is cut into offers and however little the socket takes at each write, the
  encoder's assertions hold, and once the encoder reports that it is complete the whole body was
  taken and what was sent decodes, by the server's own decoder, to exactly the body.
\<close>

theorem send_body_roundtrip:
  assumes "offers_ok nxweb_encode_chunked_init dat calls"
  shows "\<exists>es wire rest. send_body nxweb_encode_chunked_init dat calls = Some (es, wire, rest)
    \<and> (nxweb_encode_chunked_is_complete es \<longrightarrow>
         rest = [] \<and> receive_chunked cds_zero [wire] = Some (1, cds_done, dat))"
proof -
  obtain es wire n where run: "send_body nxweb_encode_chunked_init dat calls = Some (es, wire, drop n dat)" "n \<le> length dat"
    "enc_inv es wire (take n dat)" "ce_final_chunk es \<longrightarrow> n = length dat"
    using send_body_inv [OF enc_inv_init assms]
    by (auto simp: nxweb_encode_chunked_init_def outstanding_def)
  have "drop n dat = [] \<and> receive_chunked cds_zero [wire] = Some (1, cds_done, dat)"
    if complete: "nxweb_encode_chunked_is_complete es"
  proof -
    from complete run(4) have n: "n = length dat" by (simp add: nxweb_encode_chunked_is_complete_def)
    obtain xs where "list_all chunk_ok xs" "take n dat = concat xs" "CRLF @ wire = concat (map chunk_frame xs) @ last_frame"
      by (rule enc_inv_is_complete [OF run(3) complete])
    then have spec: "chunk_run cds_zero wire = Some (1, cds_done, dat)" using chunk_run_stream n by simp
    have "\<not> cd_monitor_only cds_zero" by (simp add: cds_zero_def)
    from nxweb_decode_chunked_stream_refines [OF this, of "[]" wire "[]"] spec
    have "receive_chunked cds_zero [wire] = Some (1, cds_done, dat)" by (auto simp: decoder_post_def)
    with n show ?thesis by simp
  qed
  with run(1) show ?thesis by blast
qed

theorem send_body_roundtrip_witness:
  "\<exists>es wire. send_body nxweb_encode_chunked_init ''abc'' [([4, 0], 3, True), ([100, 2], 3, True), ([100, 100], 1, True)]
     = Some (es, wire, []) \<and> nxweb_encode_chunked_is_complete es
     \<and> receive_chunked cds_zero [wire] = Some (1, cds_done, ''abc'')"
proof -
  let ?calls = "[([4, 0], 3, True), ([100, 2], 3, True), ([100, 100], 1, True)]"
  have ok: "offers_ok nxweb_encode_chunked_init ''abc'' ?calls"
    by code_simp
  have run: "case send_body nxweb_encode_chunked_init ''abc'' ?calls of None \<Rightarrow> False
      | Some (es, wire, rest) \<Rightarrow> nxweb_encode_chunked_is_complete es"
    by code_simp
  from send_body_roundtrip [OF ok] run show ?thesis by auto
qed

end
