(* ===== verification/Nx_Http_Time.thy ===== *)
theory Nx_Http_Time
  imports Nx_Misc
begin

text \<open>
  HTTP dates (\<^verbatim>\<open>lib/http_utils.c\<close>, \<^verbatim>\<open>nxweb_format_http_time\<close>, \<^verbatim>\<open>nxweb_parse_http_time\<close>,
  \<^verbatim>\<open>nxweb_format_iso8601_time\<close>).  The formatters write into the caller's buffer through a moving
  pointer; the parser reads a cursor.
\<close>

section \<open>Broken-down time\<close>

record tm =
  tm_sec :: int
  tm_min :: int
  tm_hour :: int
  tm_mday :: int
  tm_mon :: int
  tm_year :: int
  tm_wday :: int

text \<open>
  \<^verbatim>\<open>timegm\<close> for a broken-down time in the proleptic Gregorian calendar: seconds since 1970.  A
  day beyond the end of its month counts into the next one.
\<close>

definition days_before_year :: "int \<Rightarrow> int" where
  "days_before_year y = 365 * (y - 1970) + ((y - 1) div 4 - (y - 1) div 100 + (y - 1) div 400) - 477"

definition leap_year :: "int \<Rightarrow> bool" where
  "leap_year y \<longleftrightarrow> y mod 4 = 0 \<and> (y mod 100 \<noteq> 0 \<or> y mod 400 = 0)"

definition days_before_month :: "int \<Rightarrow> int \<Rightarrow> int" where
  "days_before_month y mon =
     ([0, 31, 59, 90, 120, 151, 181, 212, 243, 273, 304, 334] ! nat (mon mod 12))
     + (if mon mod 12 \<ge> 2 \<and> leap_year y then 1 else 0)"

definition timegm :: "tm \<Rightarrow> int" where
  "timegm t =
     (let y = tm_year t + 1900 + tm_mon t div 12;
          days = days_before_year y + days_before_month y (tm_mon t) + (tm_mday t - 1)
      in days * 86400 + tm_hour t * 3600 + tm_min t * 60 + tm_sec t)"

text \<open>Conversion of a 64-bit \<^verbatim>\<open>long\<close> to a 32-bit \<^verbatim>\<open>int\<close>.\<close>

definition to_int32 :: "int \<Rightarrow> int" where
  "to_int32 v = (v + 2 ^ 31) mod 2 ^ 32 - 2 ^ 31"

lemma to_int32_id: "- (2 ^ 31) \<le> v \<Longrightarrow> v < 2 ^ 31 \<Longrightarrow> to_int32 v = v"
  by (simp add: to_int32_def)

definition WEEK_DAY :: "string list" where
  "WEEK_DAY = [''Sun'', ''Mon'', ''Tue'', ''Wed'', ''Thu'', ''Fri'', ''Sat'']"

definition MONTH :: "string list" where
  "MONTH = [''Jan'', ''Feb'', ''Mar'', ''Apr'', ''May'', ''Jun'', ''Jul'', ''Aug'', ''Sep'', ''Oct'', ''Nov'', ''Dec'']"

definition table_at :: "string list \<Rightarrow> int \<Rightarrow> string option" where
  "table_at tab i = (if 0 \<le> i \<and> nat i < length tab then Some (tab ! nat i) else None)"

section \<open>Writing through a moving pointer\<close>

text \<open>The state of a formatter: the memory and the pointer \<^verbatim>\<open>p\<close>.\<close>

definition put_char :: "char \<Rightarrow> mem \<times> nat \<Rightarrow> (mem \<times> nat) option" where
  "put_char c = (\<lambda>(m, p). do { m \<leftarrow> wr m p c; Some (m, p + 1) })"

definition c_strcpy :: "mem \<Rightarrow> nat \<Rightarrow> string \<Rightarrow> mem option" where
  "c_strcpy m p s =
     (if p + length s < length m then Some (take p m @ s @ NUL # drop (p + length s + 1) m) else None)"

definition put_strcpy :: "string \<Rightarrow> nat \<Rightarrow> mem \<times> nat \<Rightarrow> (mem \<times> nat) option" where
  "put_strcpy s k = (\<lambda>(m, p). do { m \<leftarrow> c_strcpy m p s; Some (m, p + k) })"

definition put_zeropad :: "int \<Rightarrow> nat \<Rightarrow> mem \<times> nat \<Rightarrow> (mem \<times> nat) option" where
  "put_zeropad v k = (\<lambda>(m, p). do { m \<leftarrow> uint_to_decimal_string_zeropad (to_ulong v) m p k False; Some (m, p + k) })"

text \<open>The text of \<^verbatim>\<open>uint_to_decimal_string(v, num, sizeof(num))\<close> with \<^verbatim>\<open>char num[16]\<close>.\<close>

definition num16 :: "int \<Rightarrow> string option" where
  "num16 v = do {
     (num, q) \<leftarrow> uint_to_decimal_string (to_ulong v) (replicate 16 NUL) 0 16;
     Some (cstr num q) }"

text \<open>\<^verbatim>\<open>p++; if (*p) p++;\<close> after the day was copied.\<close>

definition skip_day :: "mem \<times> nat \<Rightarrow> (mem \<times> nat) option" where
  "skip_day = (\<lambda>(m, p). do { c \<leftarrow> rd m (p + 1); Some (m, if c \<noteq> NUL then p + 2 else p + 1) })"

definition put_end :: "mem \<times> nat \<Rightarrow> (mem \<times> nat) option" where
  "put_end = (\<lambda>(m, p). do { m \<leftarrow> wr m p NUL; Some (m, p) })"

section \<open>The formatters and the parser\<close>

definition nxweb_format_http_time :: "mem \<Rightarrow> nat \<Rightarrow> tm \<Rightarrow> (mem \<times> nat) option" where
  "nxweb_format_http_time m buf t = do {
     wd \<leftarrow> table_at WEEK_DAY (tm_wday t);
     st \<leftarrow> put_strcpy wd 3 (m, buf);
     st \<leftarrow> put_char (CHR '','') st;
     st \<leftarrow> put_char SP st;
     md \<leftarrow> num16 (tm_mday t);
     st \<leftarrow> put_strcpy md 0 st;
     st \<leftarrow> skip_day st;
     st \<leftarrow> put_char SP st;
     mo \<leftarrow> table_at MONTH (tm_mon t);
     st \<leftarrow> put_strcpy mo 3 st;
     st \<leftarrow> put_char SP st;
     yr \<leftarrow> num16 (tm_year t + 1900);
     st \<leftarrow> put_strcpy yr 4 st;
     st \<leftarrow> put_char SP st;
     st \<leftarrow> put_zeropad (tm_hour t) 2 st;
     st \<leftarrow> put_char (CHR '':'') st;
     st \<leftarrow> put_zeropad (tm_min t) 2 st;
     st \<leftarrow> put_char (CHR '':'') st;
     st \<leftarrow> put_zeropad (tm_sec t) 2 st;
     st \<leftarrow> put_char SP st;
     st \<leftarrow> put_char (CHR ''G'') st;
     st \<leftarrow> put_char (CHR ''M'') st;
     st \<leftarrow> put_char (CHR ''T'') st;
     (m, p) \<leftarrow> put_end st;
     Some (m, p - buf) }"

definition nxweb_format_iso8601_time :: "mem \<Rightarrow> nat \<Rightarrow> tm \<Rightarrow> (mem \<times> nat) option" where
  "nxweb_format_iso8601_time m buf t = do {
     st \<leftarrow> put_zeropad (tm_year t + 1900) 4 (m, buf);
     st \<leftarrow> put_char (CHR ''-'') st;
     st \<leftarrow> put_zeropad (tm_mon t + 1) 2 st;
     st \<leftarrow> put_char (CHR ''-'') st;
     st \<leftarrow> put_zeropad (tm_mday t) 2 st;
     st \<leftarrow> put_char (CHR ''T'') st;
     st \<leftarrow> put_zeropad (tm_hour t) 2 st;
     st \<leftarrow> put_char (CHR '':'') st;
     st \<leftarrow> put_zeropad (tm_min t) 2 st;
     st \<leftarrow> put_char (CHR '':'') st;
     st \<leftarrow> put_zeropad (tm_sec t) 2 st;
     (m, p) \<leftarrow> put_end st;
     if p - buf \<noteq> 19 then None else Some (m, p - buf) }"

text \<open>
  \<open>expect c s k\<close> is \<^verbatim>\<open>if (*p++!=c) return 0;\<close> followed by the rest \<open>k\<close>.  The month is read by a
  switch over its letters; its result is the month and the rest, or \<open>Some None\<close> for \<^verbatim>\<open>return 0\<close>.
\<close>

definition expect :: "char \<Rightarrow> cursor \<Rightarrow> (cursor \<Rightarrow> int option) \<Rightarrow> int option" where
  "expect c s k = do { x \<leftarrow> cur s; if x \<noteq> c then Some 0 else k (tl s) }"

definition letter :: "char \<Rightarrow> cursor \<Rightarrow> (cursor \<Rightarrow> (int \<times> cursor) option option) \<Rightarrow> (int \<times> cursor) option option" where
  "letter c s k = do { x \<leftarrow> cur s; if x \<noteq> c then Some None else k (tl s) }"

definition parse_month :: "cursor \<Rightarrow> (int \<times> cursor) option option" where
  "parse_month s = do {
     a \<leftarrow> cur s;
     let s = tl s;
     if a = CHR ''J'' then do {
       b \<leftarrow> cur s;
       if b = CHR ''a'' then letter (CHR ''n'') (tl s) (\<lambda>s. Some (Some (0, s)))
       else letter (CHR ''u'') s (\<lambda>s. do {
         c \<leftarrow> cur s;
         Some (if c = CHR ''n'' then Some (5, tl s) else if c = CHR ''l'' then Some (6, tl s) else None) }) }
     else if a = CHR ''F'' then letter (CHR ''e'') s (\<lambda>s. letter (CHR ''b'') s (\<lambda>s. Some (Some (1, s))))
     else if a = CHR ''M'' then letter (CHR ''a'') s (\<lambda>s. do {
       c \<leftarrow> cur s;
       Some (if c = CHR ''y'' then Some (4, tl s) else if c = CHR ''r'' then Some (2, tl s) else None) })
     else if a = CHR ''A'' then do {
       b \<leftarrow> cur s;
       if b = CHR ''p'' then letter (CHR ''r'') (tl s) (\<lambda>s. Some (Some (3, s)))
       else if b = CHR ''u'' then letter (CHR ''g'') (tl s) (\<lambda>s. Some (Some (7, s)))
       else Some None }
     else if a = CHR ''S'' then letter (CHR ''e'') s (\<lambda>s. letter (CHR ''p'') s (\<lambda>s. Some (Some (8, s))))
     else if a = CHR ''O'' then letter (CHR ''c'') s (\<lambda>s. letter (CHR ''t'') s (\<lambda>s. Some (Some (9, s))))
     else if a = CHR ''N'' then letter (CHR ''o'') s (\<lambda>s. letter (CHR ''v'') s (\<lambda>s. Some (Some (10, s))))
     else if a = CHR ''D'' then letter (CHR ''e'') s (\<lambda>s. letter (CHR ''c'') s (\<lambda>s. Some (Some (11, s))))
     else Some None }"

text \<open>\<open>field\<close> is \<^verbatim>\<open>x=strtol(p, &p, 10)+off; if (x<lo || x>hi) return 0;\<close> into a 32-bit field.\<close>

definition field :: "int \<Rightarrow> int \<Rightarrow> int \<Rightarrow> cursor \<Rightarrow> (int \<Rightarrow> cursor \<Rightarrow> int option) \<Rightarrow> int option" where
  "field off lo hi s k = do {
     (v, r) \<leftarrow> c_strtol 10 s;
     if v + off < - (2 ^ 63) then None
     else let x = to_int32 (v + off) in if x < lo \<or> x > hi then Some 0 else k x r }"

definition nxweb_parse_http_time :: "cursor \<Rightarrow> int option" where
  "nxweb_parse_http_time str =
     expect (CHR '','') (drop 3 str) (\<lambda>p. expect SP p (\<lambda>p.
     field 0 1 31 p (\<lambda>mday p. expect SP p (\<lambda>p. do {
       mo \<leftarrow> parse_month p;
       case mo of None \<Rightarrow> Some 0
       | Some (mon, p) \<Rightarrow>
         expect SP p (\<lambda>p. field (-1900) 0 1000 p (\<lambda>year p.
         expect SP p (\<lambda>p. field 0 0 23 p (\<lambda>hour p.
         expect (CHR '':'') p (\<lambda>p. field 0 0 59 p (\<lambda>min p.
         expect (CHR '':'') p (\<lambda>p. field 0 0 59 p (\<lambda>sec p.
         expect SP p (\<lambda>p. expect (CHR ''G'') p (\<lambda>p. expect (CHR ''M'') p (\<lambda>p. expect (CHR ''T'') p (\<lambda>p.
           let t = timegm \<lparr>tm_sec = sec, tm_min = min, tm_hour = hour, tm_mday = mday, tm_mon = mon,
                           tm_year = year, tm_wday = 0\<rparr>
           in Some (if t = -1 then 0 else t)))))))))))))}))))"

section \<open>What the formatters write\<close>

text \<open>
  \<open>writes f s\<close>: with more than \<open>length s\<close> bytes left at the pointer, \<open>f\<close> stores \<open>s\<close> there and
  moves the pointer behind it.
\<close>

definition writes :: "(mem \<times> nat \<Rightarrow> (mem \<times> nat) option) \<Rightarrow> string \<Rightarrow> bool" where
  "writes f s \<longleftrightarrow>
     (\<forall>xs ys. length s < length ys \<longrightarrow>
        (\<exists>zs. f (xs @ ys, length xs) = Some (xs @ s @ zs, length xs + length s) \<and> length ys = length s + length zs))"

lemma writes_bind: "writes f s \<Longrightarrow> writes g t \<Longrightarrow> writes (\<lambda>st. f st \<bind> g) (s @ t)"
proof -
  assume f: "writes f s" and g: "writes g t"
  have "\<exists>zs. f (xs @ ys, length xs) \<bind> g = Some (xs @ (s @ t) @ zs, length xs + length (s @ t))
      \<and> length ys = length (s @ t) + length zs" if len: "length (s @ t) < length ys" for xs ys
  proof -
    obtain zs where zs: "f (xs @ ys, length xs) = Some (xs @ s @ zs, length xs + length s)" "length ys = length s + length zs"
      using f len unfolding writes_def by (metis add_lessD1 length_append)
    have "length t < length zs" using len zs(2) by simp
    then obtain ws where "g ((xs @ s) @ zs, length (xs @ s)) = Some ((xs @ s) @ t @ ws, length (xs @ s) + length t)"
      "length zs = length t + length ws"
      using g unfolding writes_def by blast
    with zs show ?thesis by (intro exI [of _ ws]) (simp add: add.assoc)
  qed
  then show ?thesis by (auto simp: writes_def)
qed

lemma writes_put_char: "writes (put_char c) [c]"
  unfolding writes_def
proof (intro allI impI)
  fix xs ys :: string
  assume "length [c] < length ys"
  then obtain y zs where "ys = y # zs" by (cases ys) auto
  then show "\<exists>zs. put_char c (xs @ ys, length xs) = Some (xs @ [c] @ zs, length xs + length [c]) \<and> length ys = length [c] + length zs"
    by (simp add: put_char_def)
qed

lemma writes_put_strcpy: "length s = k \<Longrightarrow> writes (put_strcpy s k) s"
  unfolding writes_def put_strcpy_def c_strcpy_def by auto

lemma writes_put_zeropad: "0 \<le> v \<Longrightarrow> v < 2 ^ 64 \<Longrightarrow> writes (put_zeropad v k) (dec_pad k (nat v))"
  unfolding writes_def
proof (intro allI impI)
  fix xs ys :: string
  assume v: "0 \<le> v" "v < 2 ^ 64" and "length (dec_pad k (nat v)) < length ys"
  then obtain a b where ab: "ys = a @ b" "length a = k" using list_split_at [of k ys] by auto
  have "to_ulong v = nat v" using v by (simp add: to_ulong_def)
  with ab uint_to_decimal_string_zeropad_correct [OF ab(2), of "nat v" xs b]
  show "\<exists>zs. put_zeropad v k (xs @ ys, length xs) = Some (xs @ dec_pad k (nat v) @ zs, length xs + length (dec_pad k (nat v)))
      \<and> length ys = length (dec_pad k (nat v)) + length zs"
    by (simp add: put_zeropad_def)
qed

lemma dec_no_NUL: "NUL \<notin> set (dec n)"
proof (induction n rule: dec.induct)
  case (1 n)
  then show ?case by (subst dec.simps) (auto simp: eq_commute [of NUL])
qed

lemma num16_dec: "0 \<le> v \<Longrightarrow> length (dec (nat v)) < 16 \<Longrightarrow> v < 2 ^ 64 \<Longrightarrow> num16 v = Some (dec (nat v))"
proof -
  assume v: "0 \<le> v" "length (dec (nat v)) < 16" "v < 2 ^ 64"
  have u: "to_ulong v = nat v" using v by (simp add: to_ulong_def)
  let ?k = "15 - length (dec (nat v))"
  have "uint_to_decimal_string (nat v) (replicate 16 NUL) 0 16
      = Some (replicate ?k NUL @ dec (nat v) @ [NUL], ?k)"
    using uint_to_decimal_string_correct [of "nat v" "replicate 16 NUL" "[]" "[]"] v(2) by simp
  moreover have "cstr (replicate ?k NUL @ dec (nat v) @ [NUL]) ?k = dec (nat v)"
    using cstr_split [OF dec_no_NUL, of "replicate ?k NUL" "nat v" "[]"] by simp
  ultimately show ?thesis by (simp add: num16_def u)
qed

lemma dec_day: "0 < n \<Longrightarrow> n < 100 \<Longrightarrow> (\<exists>a. dec n = [a]) \<or> (\<exists>a b. dec n = [a, b] \<and> b \<noteq> NUL)"
  by (cases "n < 10") (auto simp: dec.simps [of n] dec.simps [of "n div 10"])

lemma writes_day:
  assumes "0 < n" "n < 100"
  shows "writes (\<lambda>st. put_strcpy (dec n) 0 st \<bind> skip_day) (dec n)"
  unfolding writes_def
proof (intro allI impI)
  fix xs ys :: string
  assume len: "length (dec n) < length ys"
  let ?m = "xs @ dec n @ NUL # drop (length (dec n) + 1) ys"
  have "c_strcpy (xs @ ys) (length xs) (dec n) = Some ?m" using len by (simp add: c_strcpy_def)
  moreover have "rd ?m (length xs + 1) \<bind> (\<lambda>c. Some (?m, if c \<noteq> NUL then length xs + 2 else length xs + 1))
      = Some (?m, length xs + length (dec n))"
    using dec_day [OF assms]
  proof
    assume "\<exists>a. dec n = [a]"
    then obtain a where a: "dec n = [a]" ..
    show ?thesis using rd_split [of "xs @ [a]" NUL "drop (Suc (Suc 0)) ys"] a by simp
  next
    assume "\<exists>a b. dec n = [a, b] \<and> b \<noteq> NUL"
    then obtain a b where ab: "dec n = [a, b]" "b \<noteq> NUL" by blast
    show ?thesis using rd_split [of "xs @ [a]" b "NUL # drop (Suc (Suc (Suc 0))) ys"] ab by simp
  qed
  ultimately show "\<exists>zs. put_strcpy (dec n) 0 (xs @ ys, length xs) \<bind> skip_day = Some (xs @ dec n @ zs, length xs + length (dec n))
      \<and> length ys = length (dec n) + length zs"
    using len by (auto simp: put_strcpy_def skip_day_def)
qed

text \<open>A formatter to its end: the text, a terminator, and the length as the result.\<close>

definition ends :: "nat \<Rightarrow> (mem \<times> nat \<Rightarrow> (mem \<times> nat) option) \<Rightarrow> string \<Rightarrow> bool" where
  "ends buf f s \<longleftrightarrow>
     (\<forall>xs ys. length s < length ys \<longrightarrow>
        (\<exists>zs. f (xs @ ys, length xs) = Some (xs @ s @ NUL # zs, length xs + length s - buf)
          \<and> length ys = length s + 1 + length zs))"

lemma ends_bind: "writes f s \<Longrightarrow> ends buf g t \<Longrightarrow> ends buf (\<lambda>st. f st \<bind> g) (s @ t)"
proof -
  assume f: "writes f s" and g: "ends buf g t"
  have "\<exists>zs. f (xs @ ys, length xs) \<bind> g = Some (xs @ (s @ t) @ NUL # zs, length xs + length (s @ t) - buf)
      \<and> length ys = length (s @ t) + 1 + length zs" if len: "length (s @ t) < length ys" for xs ys
  proof -
    obtain zs where zs: "f (xs @ ys, length xs) = Some (xs @ s @ zs, length xs + length s)" "length ys = length s + length zs"
      using f len unfolding writes_def by (metis add_lessD1 length_append)
    have "length t < length zs" using len zs(2) by simp
    then obtain ws where "g ((xs @ s) @ zs, length (xs @ s)) = Some ((xs @ s) @ t @ NUL # ws, length (xs @ s) + length t - buf)"
      "length zs = length t + 1 + length ws"
      using g unfolding ends_def by blast
    with zs show ?thesis by (intro exI [of _ ws]) (simp add: add.assoc)
  qed
  then show ?thesis by (auto simp: ends_def)
qed

lemma ends_char: "ends buf g t \<Longrightarrow> ends buf (\<lambda>st. put_char c st \<bind> g) (c # t)"
  using ends_bind [OF writes_put_char] by fastforce

lemma ends_day:
  assumes "0 < n" "n < 100" "ends buf g t"
  shows "ends buf (\<lambda>st. put_strcpy (dec n) 0 st \<bind> (\<lambda>st. skip_day st \<bind> g)) (dec n @ t)"
  using ends_bind [OF writes_day [OF assms(1,2)] assms(3)] by (simp add: Option.bind_assoc)

lemma ends_put_end: "ends buf (\<lambda>st. put_end st \<bind> (\<lambda>(m, p). Some (m, p - buf))) []"
  unfolding ends_def
proof (intro allI impI)
  fix xs ys :: string
  assume "length [] < length ys"
  then obtain y zs where "ys = y # zs" by (cases ys) auto
  then show "\<exists>zs. put_end (xs @ ys, length xs) \<bind> (\<lambda>(m, p). Some (m, p - buf)) = Some (xs @ [] @ NUL # zs, length xs + length [] - buf)
      \<and> length ys = length [] + 1 + length zs"
    by (simp add: put_end_def)
qed

section \<open>Properties\<close>

definition tm_ok :: "tm \<Rightarrow> bool" where
  "tm_ok t \<longleftrightarrow> 0 \<le> tm_wday t \<and> tm_wday t < 7 \<and> 1 \<le> tm_mday t \<and> tm_mday t \<le> 31
     \<and> 0 \<le> tm_mon t \<and> tm_mon t < 12 \<and> 0 \<le> tm_year t \<and> tm_year t \<le> 1000
     \<and> 0 \<le> tm_hour t \<and> tm_hour t < 24 \<and> 0 \<le> tm_min t \<and> tm_min t < 60 \<and> 0 \<le> tm_sec t \<and> tm_sec t < 60"

definition http_date :: "tm \<Rightarrow> string" where
  "http_date t = WEEK_DAY ! nat (tm_wday t) @ '', '' @ dec (nat (tm_mday t)) @ '' '' @ MONTH ! nat (tm_mon t) @ '' ''
     @ dec (nat (tm_year t + 1900)) @ '' '' @ dec_pad 2 (nat (tm_hour t)) @ '':'' @ dec_pad 2 (nat (tm_min t))
     @ '':'' @ dec_pad 2 (nat (tm_sec t)) @ '' GMT''"

lemma length_tables: "w < 7 \<Longrightarrow> length (WEEK_DAY ! w) = 3" "mo < 12 \<Longrightarrow> length (MONTH ! mo) = 3"
proof -
  have "list_all (\<lambda>s. length s = 3) WEEK_DAY" "list_all (\<lambda>s. length s = 3) MONTH"
    by (simp_all add: WEEK_DAY_def MONTH_def)
  moreover have "length WEEK_DAY = 7" "length MONTH = 12" by (simp_all add: WEEK_DAY_def MONTH_def)
  ultimately show "w < 7 \<Longrightarrow> length (WEEK_DAY ! w) = 3" "mo < 12 \<Longrightarrow> length (MONTH ! mo) = 3"
    by (simp_all add: list_all_length)
qed

lemma length_dec_step:
  "10 \<le> n \<Longrightarrow> length (dec n) = Suc (length (dec (n div 10)))" "n < 10 \<Longrightarrow> length (dec n) = 1"
  by (subst dec.simps; simp)+

lemma length_dec_year: "1900 \<le> n \<Longrightarrow> n \<le> 2900 \<Longrightarrow> length (dec n) = 4"
proof -
  assume "1900 \<le> n" "n \<le> 2900"
  then have "10 \<le> n" "10 \<le> n div 10" "10 \<le> n div 10 div 10" "n div 10 div 10 div 10 < 10"
    by simp_all
  then show ?thesis by (simp only: length_dec_step)
qed

lemma length_dec_mday: "0 < n \<Longrightarrow> n < 100 \<Longrightarrow> length (dec n) \<le> 2"
  using dec_day [of n] by auto

lemma length_http_date: "tm_ok t \<Longrightarrow> length (http_date t) \<le> 29"
proof -
  assume t: "tm_ok t"
  have "length (dec (nat (tm_mday t))) \<le> 2" using t by (intro length_dec_mday) (auto simp: tm_ok_def)
  moreover have "length (dec (nat (tm_year t + 1900))) = 4" using t by (intro length_dec_year) (auto simp: tm_ok_def)
  moreover have "length (WEEK_DAY ! nat (tm_wday t)) = 3" "length (MONTH ! nat (tm_mon t)) = 3"
    using t by (auto simp: tm_ok_def intro: length_tables)
  ultimately show ?thesis by (simp add: http_date_def)
qed

lemma format_http_time_end:
  assumes "tm_ok t" "30 \<le> length ys"
  shows "\<exists>zs. nxweb_format_http_time (xs @ ys) (length xs) t = Some (xs @ http_date t @ NUL # zs, length (http_date t))
    \<and> length zs = length ys - length (http_date t) - 1"
proof -
  note ok = assms(1) [unfolded tm_ok_def]
  have tab: "table_at WEEK_DAY (tm_wday t) = Some (WEEK_DAY ! nat (tm_wday t))" "table_at MONTH (tm_mon t) = Some (MONTH ! nat (tm_mon t))"
    using ok by (auto simp: table_at_def WEEK_DAY_def MONTH_def)
  have day: "0 < nat (tm_mday t)" "nat (tm_mday t) < 100" using ok by auto
  have num: "num16 (tm_mday t) = Some (dec (nat (tm_mday t)))" "num16 (tm_year t + 1900) = Some (dec (nat (tm_year t + 1900)))"
    using ok length_dec_mday [OF day] length_dec_year [of "nat (tm_year t + 1900)"] by (auto intro!: num16_dec)
  have len: "length (WEEK_DAY ! nat (tm_wday t)) = 3" "length (MONTH ! nat (tm_mon t)) = 3" "length (dec (nat (tm_year t + 1900))) = 4"
    using ok by (auto intro!: length_tables length_dec_year)
  define F where "F = (\<lambda>st. put_strcpy (WEEK_DAY ! nat (tm_wday t)) 3 st \<bind> (\<lambda>st. put_char (CHR '','') st \<bind> (\<lambda>st. put_char SP st
      \<bind> (\<lambda>st. put_strcpy (dec (nat (tm_mday t))) 0 st \<bind> (\<lambda>st. skip_day st \<bind> (\<lambda>st. put_char SP st
      \<bind> (\<lambda>st. put_strcpy (MONTH ! nat (tm_mon t)) 3 st \<bind> (\<lambda>st. put_char SP st
      \<bind> (\<lambda>st. put_strcpy (dec (nat (tm_year t + 1900))) 4 st \<bind> (\<lambda>st. put_char SP st
      \<bind> (\<lambda>st. put_zeropad (tm_hour t) 2 st \<bind> (\<lambda>st. put_char (CHR '':'') st
      \<bind> (\<lambda>st. put_zeropad (tm_min t) 2 st \<bind> (\<lambda>st. put_char (CHR '':'') st
      \<bind> (\<lambda>st. put_zeropad (tm_sec t) 2 st \<bind> (\<lambda>st. put_char SP st \<bind> (\<lambda>st. put_char (CHR ''G'') st
      \<bind> (\<lambda>st. put_char (CHR ''M'') st \<bind> (\<lambda>st. put_char (CHR ''T'') st
      \<bind> (\<lambda>st. put_end st \<bind> (\<lambda>(m, p). Some (m, p - length xs))))))))))))))))))))))"
  have eq: "nxweb_format_http_time (xs @ ys) (length xs) t = F (xs @ ys, length xs)"
    by (simp add: nxweb_format_http_time_def tab num F_def)
  have "ends (length xs) F
      (WEEK_DAY ! nat (tm_wday t) @ CHR '','' # SP # dec (nat (tm_mday t)) @ SP # (MONTH ! nat (tm_mon t)) @ SP #
        dec (nat (tm_year t + 1900)) @ SP # dec_pad 2 (nat (tm_hour t)) @ CHR '':'' # dec_pad 2 (nat (tm_min t)) @ CHR '':'' #
        dec_pad 2 (nat (tm_sec t)) @ SP # ''GMT'')"
    unfolding F_def by (intro ends_bind ends_char ends_day ends_put_end writes_put_strcpy writes_put_zeropad len) (use ok in auto)
  then have ends: "ends (length xs) F (http_date t)" by (simp add: http_date_def)
  have lt: "length (http_date t) < length ys" using length_http_date [OF assms(1)] assms(2) by simp
  obtain zs where "F (xs @ ys, length xs) = Some (xs @ http_date t @ NUL # zs, length xs + length (http_date t) - length xs)"
      "length ys = length (http_date t) + 1 + length zs"
    using ends lt unfolding ends_def by blast
  with eq show ?thesis by simp
qed

text \<open>
  For every valid time the formatter stays within a buffer of 30 bytes at the pointer, leaves
  the RFC 1123 date and its terminator there, and returns its length.
\<close>

theorem format_http_time_correct:
  assumes "tm_ok t" "30 \<le> length ys"
  shows "\<exists>zs. nxweb_format_http_time (xs @ ys) (length xs) t = Some (xs @ http_date t @ NUL # zs, length (http_date t))
    \<and> length zs = length ys - length (http_date t) - 1"
  by (rule format_http_time_end [OF assms])

definition sample_tm :: tm where
  "sample_tm = \<lparr>tm_sec = 54, tm_min = 5, tm_hour = 13, tm_mday = 24, tm_mon = 0, tm_year = 112, tm_wday = 2\<rparr>"

lemma sample_tm_facts: "tm_ok sample_tm" "http_date sample_tm = ''Tue, 24 Jan 2012 13:05:54 GMT''"
  by (simp add: tm_ok_def sample_tm_def) code_simp

section \<open>Parsing what was formatted\<close>

lemma dec_digit_Cons: "\<exists>k ds. dec n = digit_char k # ds \<and> k < 10"
proof (induction n rule: dec.induct)
  case (1 n)
  then show ?case by (subst dec.simps) (auto, blast)
qed

lemma dec_pad_digit_Cons: "0 < j \<Longrightarrow> \<exists>k ds. dec_pad j n = digit_char k # ds \<and> k < 10"
proof (induction j n rule: dec_pad.induct)
  case (2 j n)
  show ?case
  proof (cases "j = 0")
    case False
    with "2.IH" obtain k ds where "dec_pad j (n div 10) = digit_char k # ds" "k < 10" by auto
    then show ?thesis by auto
  qed auto
qed simp

lemma c_strtol_digits:
  assumes "scan_digits 10 0 (ds @ x # r) = Some (n, x # r)" "ds = digit_char k # ds'" "k < 10" "n < 2 ^ 63"
  shows "c_strtol 10 (ds @ x # r) = Some (int n, x # r)"
proof -
  let ?c = "digit_char k"
  have c: "code ?c = k + 48" using assms(3) by (simp add: digit_char_code)
  have "digit_in 10 ?c = Some k" using assms(3) by (simp add: digit_in_def digit_val_def c)
  moreover have "\<not> is_cspace ?c" "?c \<noteq> CHR ''-''" "?c \<noteq> CHR ''+''"
    using c by (auto simp: is_cspace_def code_def dest!: arg_cong [of _ _ code])
  ultimately show ?thesis
    using assms by (simp add: c_strtol_def take_sign_def skip_0x_def starts_digit_def clamp_long_def)
qed

lemma field_dec:
  assumes "digit_in 10 x = None" "n < 2 ^ 31" "- (2 ^ 31) \<le> int n + off" "lo \<le> int n + off" "int n + off \<le> hi" "int n + off < 2 ^ 31"
  shows "field off lo hi (dec n @ x # r) k = k (int n + off) (x # r)"
proof -
  obtain d ds where "dec n = digit_char d # ds" "d < 10" using dec_digit_Cons by blast
  with c_strtol_digits [OF scan_digits_dec [OF assms(1)], of n d ds r] assms
  show ?thesis by (simp add: field_def to_int32_id)
qed

lemma field_dec_pad:
  assumes "digit_in 10 x = None" "n < 100" "lo \<le> int n" "int n \<le> hi"
  shows "field 0 lo hi (dec_pad 2 n @ x # r) k = k (int n) (x # r)"
proof -
  obtain d ds where d: "dec_pad 2 n = digit_char d # ds" "d < 10" using dec_pad_digit_Cons [of 2 n] by auto
  have "scan_digits 10 0 (dec_pad 2 n @ x # r) = Some (n, x # r)"
    using scan_digits_dec_pad [OF assms(1), of n 2] assms(2) by simp
  from c_strtol_digits [OF this d] assms show ?thesis by (simp add: field_def to_int32_id)
qed

lemma parse_month_MONTH: "i < 12 \<Longrightarrow> parse_month (MONTH ! i @ r) = Some (Some (int i, r))"
proof -
  assume "i < 12"
  then have "i = 0 \<or> i = 1 \<or> i = 2 \<or> i = 3 \<or> i = 4 \<or> i = 5 \<or> i = 6 \<or> i = 7 \<or> i = 8 \<or> i = 9 \<or> i = 10 \<or> i = 11"
    by arith
  then show ?thesis by (elim disjE) (simp_all add: MONTH_def parse_month_def letter_def)
qed

lemma not_digits [simp]: "digit_in 10 SP = None" "digit_in 10 (CHR '':'') = None"
  by (simp_all add: digit_in_def digit_val_def code_def)

lemma expect_Cons [simp]: "expect c (c # s) k = k s"
  by (simp add: expect_def)

lemma parse_http_date:
  assumes "tm_ok t"
  shows "nxweb_parse_http_time (http_date t @ r) = Some (if timegm t = -1 then 0 else timegm t)"
proof -
  note ok = assms [unfolded tm_ok_def]
  have wd: "drop 3 (WEEK_DAY ! nat (tm_wday t) @ s) = s" for s
  proof -
    have "nat (tm_wday t) < 7" using ok by auto
    then show ?thesis using length_tables(1) by simp
  qed
  have day: "field 0 1 31 (dec (nat (tm_mday t)) @ SP # s) k = k (tm_mday t) (SP # s)" for s k
    using ok by (subst field_dec) auto
  have year: "field (-1900) 0 1000 (dec (nat (tm_year t + 1900)) @ SP # s) k = k (tm_year t) (SP # s)" for s k
    using ok by (subst field_dec) auto
  have hour: "field 0 0 23 (dec_pad 2 (nat (tm_hour t)) @ CHR '':'' # s) k = k (tm_hour t) (CHR '':'' # s)" for s k
    using ok by (subst field_dec_pad) auto
  have min: "field 0 0 59 (dec_pad 2 (nat (tm_min t)) @ CHR '':'' # s) k = k (tm_min t) (CHR '':'' # s)" for s k
    using ok by (subst field_dec_pad) auto
  have sec: "field 0 0 59 (dec_pad 2 (nat (tm_sec t)) @ SP # s) k = k (tm_sec t) (SP # s)" for s k
    using ok by (subst field_dec_pad) auto
  have mon: "parse_month (MONTH ! nat (tm_mon t) @ s) = Some (Some (tm_mon t, s))" for s
    using ok by (subst parse_month_MONTH) auto
  have "timegm \<lparr>tm_sec = tm_sec t, tm_min = tm_min t, tm_hour = tm_hour t, tm_mday = tm_mday t, tm_mon = tm_mon t,
      tm_year = tm_year t, tm_wday = 0\<rparr> = timegm t"
    by (simp add: timegm_def)
  then show ?thesis
    by (simp add: nxweb_parse_http_time_def http_date_def wd day year hour min sec mon Let_def del: dec_pad.simps drop_append)
qed

text \<open>
  Parsing a formatted date gives the time back (the parser reports -1 as 0, its failure value,
  and reads nothing behind the date).
\<close>

theorem parse_format_http_time:
  assumes "tm_ok t"
  shows "nxweb_parse_http_time (http_date t @ r) = Some (if timegm t = -1 then 0 else timegm t)"
  by (rule parse_http_date [OF assms])

end
