(* ===== verification/Nx_Http_Headers.thy ===== *)
theory Nx_Http_Headers
  imports Nx_Strings Nx_Http_Time
begin

text \<open>
  What the parsers of requests and of responses share (\<^verbatim>\<open>lib/http_utils.c\<close>): cutting tokens and
  lines out of the received bytes in place, recognising header names, and the loop over the header
  lines.  The two copies of the loop in the source differ only in the switch that stores a header;
  the loop here takes that switch as an argument, and the locale \<open>header_store\<close> states what it has
  to do for the loop to implement its specification on strings.
\<close>

section \<open>Cutting strings in place\<close>

lemma c_strchr_bounds: "c_strchr m p x = Some (Some q) \<Longrightarrow> p \<le> q \<and> q < length m"
proof (induction m p x rule: c_strchr.induct)
  case (1 m p x)
  show ?case
  proof (cases "rd m p")
    case None
    with "1.prems" show ?thesis by (simp add: c_strchr.simps)
  next
    case (Some c)
    show ?thesis
    proof (cases "c = x \<or> c = NUL")
      case True
      with "1.prems" Some show ?thesis by (subst (asm) c_strchr.simps) (auto simp: rd_Some_iff split: if_splits)
    next
      case False
      with "1.prems" Some have "c_strchr m (Suc p) x = Some (Some q)" by (subst (asm) c_strchr.simps) auto
      with "1.IH" [OF Some] False show ?thesis by auto
    qed
  qed
qed

text \<open>\<open>cut_at\<close> is \<^verbatim>\<open>q=strchr(p, x); if (q) *q++=0;\<close>.\<close>

definition cut_at :: "char \<Rightarrow> mem \<Rightarrow> nat \<Rightarrow> (mem \<times> nat option) option" where
  "cut_at x m p = do {
     q \<leftarrow> c_strchr m p x;
     case q of None \<Rightarrow> Some (m, None) | Some q \<Rightarrow> do { m \<leftarrow> wr m q NUL; Some (m, Some (q + 1)) } }"

lemma cut_trailing_length: "cut_trailing m p = Some m' \<Longrightarrow> length m' = length m"
proof (induction p arbitrary: m)
  case (Suc p)
  from Suc.prems show ?case
    by (subst (asm) cut_trailing.simps) (auto simp: bind_Some_iff split: if_splits dest!: Suc.IH wr_length)
qed (simp add: cut_trailing.simps)

lemma trunc_space_length: "nxweb_trunc_space m p = Some (m', q) \<Longrightarrow> length m' = length m"
  by (auto simp: nxweb_trunc_space_def bind_Some_iff split: if_splits dest!: cut_trailing_length)

lemma cut_at_next: "cut_at x m p = Some (m', r) \<Longrightarrow> length m' = length m \<and> (\<forall>q. r = Some q \<longrightarrow> p < q \<and> q \<le> length m)"
  by (auto simp: cut_at_def bind_Some_iff split: option.splits dest!: c_strchr_bounds wr_length)

text \<open>\<^verbatim>\<open>nx_strcasecmp(p, literal)==0\<close>\<close>

definition eq_lit :: "mem \<Rightarrow> nat \<Rightarrow> string \<Rightarrow> bool option" where
  "eq_lit m p lit = do { r \<leftarrow> nx_strcasecmp (drop p m) (lit @ [NUL]); Some (r = 0) }"

text \<open>\<^verbatim>\<open>while ((unsigned char)*p>SPACE) p++;\<close> and \<^verbatim>\<open>while ((unsigned char)*p<=SPACE && p<pl) p++;\<close>\<close>

function skip_token :: "mem \<Rightarrow> nat \<Rightarrow> nat option" where
  "skip_token m p = do { c \<leftarrow> rd m p; if \<not> le_sp c then skip_token m (p + 1) else Some p }"
  by pat_completeness auto
termination
  by (relation "measure (\<lambda>(m, p). length m - p)") (auto simp: rd_Some_iff)

function skip_blanks :: "mem \<Rightarrow> nat \<Rightarrow> nat \<Rightarrow> nat option" where
  "skip_blanks m p pl = do { c \<leftarrow> rd m p; if le_sp c \<and> p < pl then skip_blanks m (p + 1) pl else Some p }"
  by pat_completeness auto
termination
  by (relation "measure (\<lambda>(m, p, pl). pl - p)") auto

declare skip_token.simps [simp del] skip_blanks.simps [simp del]

text \<open>End the token at \<^verbatim>\<open>p\<close> with a NUL and move behind it.\<close>

definition cut_token :: "mem \<Rightarrow> nat \<Rightarrow> (mem \<times> nat) option" where
  "cut_token m p = do { p \<leftarrow> skip_token m p; m \<leftarrow> wr m p NUL; Some (m, p + 1) }"

section \<open>Header names\<close>

datatype nxweb_http_header_name =
    NXWEB_HTTP_UNKNOWN | NXWEB_HTTP_DATE | NXWEB_HTTP_HOST | NXWEB_HTTP_ETAG | NXWEB_HTTP_RANGE
  | NXWEB_HTTP_COOKIE | NXWEB_HTTP_EXPECT | NXWEB_HTTP_SERVER | NXWEB_HTTP_EXPIRES | NXWEB_HTTP_TRAILER
  | NXWEB_HTTP_CONNECTION | NXWEB_HTTP_KEEP_ALIVE | NXWEB_HTTP_USER_AGENT | NXWEB_HTTP_CONTENT_TYPE
  | NXWEB_HTTP_LAST_MODIFIED | NXWEB_HTTP_CACHE_CONTROL | NXWEB_HTTP_ACCEPT_RANGES
  | NXWEB_HTTP_CONTENT_LENGTH | NXWEB_HTTP_ACCEPT_ENCODING | NXWEB_HTTP_IF_MODIFIED_SINCE
  | NXWEB_HTTP_TRANSFER_ENCODING | NXWEB_HTTP_X_NXWEB_SSI | NXWEB_HTTP_X_NXWEB_TEMPLATES

text \<open>
  The switch of \<^verbatim>\<open>identify_http_header\<close>: for a length and a first character at most one literal
  is compared.
\<close>

definition header_switch :: "(nat \<times> char \<times> string \<times> nxweb_http_header_name) list" where
  "header_switch =
     [(4, CHR ''h'', ''Host'', NXWEB_HTTP_HOST), (4, CHR ''d'', ''Date'', NXWEB_HTTP_DATE),
      (4, CHR ''e'', ''ETag'', NXWEB_HTTP_ETAG), (5, CHR ''r'', ''Range'', NXWEB_HTTP_RANGE),
      (6, CHR ''c'', ''Cookie'', NXWEB_HTTP_COOKIE), (6, CHR ''e'', ''Expect'', NXWEB_HTTP_EXPECT),
      (6, CHR ''s'', ''Server'', NXWEB_HTTP_SERVER), (7, CHR ''t'', ''Trailer'', NXWEB_HTTP_TRAILER),
      (7, CHR ''e'', ''Expires'', NXWEB_HTTP_EXPIRES),
      (10, CHR ''c'', ''Connection'', NXWEB_HTTP_CONNECTION), (10, CHR ''k'', ''Keep-Alive'', NXWEB_HTTP_KEEP_ALIVE),
      (10, CHR ''u'', ''User-Agent'', NXWEB_HTTP_USER_AGENT), (11, CHR ''x'', ''X-NXWEB-SSI'', NXWEB_HTTP_X_NXWEB_SSI),
      (12, CHR ''c'', ''Content-Type'', NXWEB_HTTP_CONTENT_TYPE),
      (13, CHR ''c'', ''Cache-Control'', NXWEB_HTTP_CACHE_CONTROL),
      (13, CHR ''l'', ''Last-Modified'', NXWEB_HTTP_LAST_MODIFIED),
      (13, CHR ''a'', ''Accept-Ranges'', NXWEB_HTTP_ACCEPT_RANGES),
      (14, CHR ''c'', ''Content-Length'', NXWEB_HTTP_CONTENT_LENGTH),
      (15, CHR ''a'', ''Accept-Encoding'', NXWEB_HTTP_ACCEPT_ENCODING),
      (17, CHR ''t'', ''Transfer-Encoding'', NXWEB_HTTP_TRANSFER_ENCODING),
      (17, CHR ''i'', ''If-Modified-Since'', NXWEB_HTTP_IF_MODIFIED_SINCE),
      (17, CHR ''x'', ''X-NXWEB-Templates'', NXWEB_HTTP_X_NXWEB_TEMPLATES)]"

definition identify_http_header :: "mem \<Rightarrow> nat \<Rightarrow> nat \<Rightarrow> nxweb_http_header_name option" where
  "identify_http_header m name name_len = do {
     name_len \<leftarrow> (if name_len = 0 then c_strlen m name else Some name_len);
     c \<leftarrow> rd m name;
     let first_char = nx_tolower c;
     case find (\<lambda>(n, f, _). n = name_len \<and> f = first_char) header_switch of
       None \<Rightarrow> Some NXWEB_HTTP_UNKNOWN
     | Some (_, _, lit, hid) \<Rightarrow> do {
         same \<leftarrow> eq_lit m name lit;
         Some (if same then hid else NXWEB_HTTP_UNKNOWN) } }"

section \<open>The header lines\<close>

text \<open>
  A sink takes a header's identity, the memory, the positions of name and value, and a state;
  \<open>Some None\<close> is the early return for a header that is not supported.
\<close>

type_synonym 'st header_sink = "nxweb_http_header_name \<Rightarrow> mem \<Rightarrow> nat \<Rightarrow> nat \<Rightarrow> 'st \<Rightarrow> (mem \<times> 'st) option option"

text \<open>
  One line: \<open>v\<close> is the value of the line before, for a continuation.  \<open>Inl\<close> is the early return, with the memory and the state as they
  are then.
\<close>

definition parse_header_line :: "'st header_sink \<Rightarrow> mem \<Rightarrow> nat \<Rightarrow> nat option \<Rightarrow> 'st
    \<Rightarrow> (mem \<times> 'st + mem \<times> nat option \<times> 'st) option" where
  "parse_header_line store m name v st = do {
     c \<leftarrow> rd m name;
     if c \<noteq> NUL \<and> le_sp c then
       (case v of None \<Rightarrow> Some (Inr (m, v, st))
        | Some value \<Rightarrow> do {
            vlen \<leftarrow> c_strlen m value;
            nlen \<leftarrow> c_strlen m name;
            m \<leftarrow> c_memmove m (value + vlen) name (nlen + 1);
            Some (Inr (m, v, st)) })
     else do {
       q \<leftarrow> c_strchr m name (CHR '':'');
       case q of None \<Rightarrow> Some (Inr (m, None, st))
       | Some q \<Rightarrow> do {
           m \<leftarrow> wr m q NUL;
           (m, value) \<leftarrow> nxweb_trunc_space m (q + 1);
           hid \<leftarrow> identify_http_header m name (q - name);
           r \<leftarrow> store hid m name value st;
           Some (case r of None \<Rightarrow> Inl (m, st) | Some (m, st) \<Rightarrow> Inr (m, Some value, st)) } } }"

function parse_headers_loop :: "'st header_sink \<Rightarrow> mem \<Rightarrow> nat \<Rightarrow> nat \<Rightarrow> nat option \<Rightarrow> 'st \<Rightarrow> (mem \<times> 'st + mem \<times> 'st) option" where
  "parse_headers_loop store m pl end_of_headers v st =
     (if \<not> pl < end_of_headers then Some (Inr (m, st))
      else do {
        (m, nx) \<leftarrow> cut_at LF m pl;
        r \<leftarrow> parse_header_line store m pl v st;
        case r of Inl e \<Rightarrow> Some (Inl e)
        | Inr (m, v, st) \<Rightarrow>
            parse_headers_loop store m (case nx of None \<Rightarrow> end_of_headers | Some q \<Rightarrow> q) end_of_headers v st })"
  by pat_completeness auto
termination
  by (relation "measure (\<lambda>(store, m, pl, e, v, st). e - pl)") (auto split: option.split dest!: cut_at_next)

declare parse_headers_loop.simps [simp del]

section \<open>Specification on strings\<close>

definition same_nocase :: "string \<Rightarrow> string \<Rightarrow> bool" where
  "same_nocase s t \<longleftrightarrow> map nx_tolower s = map nx_tolower t"

definition header_id :: "string \<Rightarrow> nxweb_http_header_name" where
  "header_id name =
     (case find (\<lambda>(_, _, lit, _). same_nocase name lit) header_switch of
        None \<Rightarrow> NXWEB_HTTP_UNKNOWN | Some (_, _, _, hid) \<Rightarrow> hid)"

definition header_name_of :: "string \<Rightarrow> string" where
  "header_name_of L = takeWhile (\<lambda>c. c \<noteq> CHR '':'') L"

definition header_value_of :: "string \<Rightarrow> string" where
  "header_value_of L = trim (drop (length (header_name_of L) + 1) L)"

definition spec_line :: "(string \<Rightarrow> string \<Rightarrow> 'a \<Rightarrow> 'a option) \<Rightarrow> string \<Rightarrow> 'a \<Rightarrow> 'a option" where
  "spec_line sh L a = (if CHR '':'' \<in> set L then sh (header_name_of L) (header_value_of L) a else Some a)"

fun spec_lines :: "(string \<Rightarrow> string \<Rightarrow> 'a \<Rightarrow> 'a option) \<Rightarrow> string list \<Rightarrow> 'a \<Rightarrow> 'a option" where
  "spec_lines sh [] a = Some a"
| "spec_lines sh (L # Ls) a = (case spec_line sh L a of None \<Rightarrow> None | Some a \<Rightarrow> spec_lines sh Ls a)"

text \<open>Lines the specification covers: no NUL or line feed, no continuation, and a value the sink can take.\<close>

definition line_ok :: "(nxweb_http_header_name \<Rightarrow> string \<Rightarrow> bool) \<Rightarrow> string \<Rightarrow> bool" where
  "line_ok vok L \<longleftrightarrow> NUL \<notin> set L \<and> LF \<notin> set L \<and> (L = [] \<or> \<not> le_sp (hd L))
     \<and> (CHR '':'' \<in> set L \<longrightarrow> vok (header_id (header_name_of L)) (header_value_of L))"

definition token :: "string \<Rightarrow> bool" where
  "token s \<longleftrightarrow> s \<noteq> [] \<and> (\<forall>c \<in> set s. \<not> le_sp c)"

lemma tokenD: "token s \<Longrightarrow> NUL \<notin> set s" "token s \<Longrightarrow> LF \<notin> set s"
  by (auto simp: token_def)

section \<open>Recognising header names\<close>

lemma find_unique:
  assumes "distinct (map key es)" "\<And>e. e \<in> set es \<Longrightarrow> Q e \<Longrightarrow> key e = k"
  shows "find Q es = (case find (\<lambda>e. key e = k) es of None \<Rightarrow> None | Some e \<Rightarrow> if Q e then Some e else None)"
  using assms
proof (induction es)
  case (Cons e es)
  show ?case
  proof (cases "key e = k")
    case True
    have "\<not> Q x" if "x \<in> set es" for x
    proof
      assume "Q x"
      then have "key x = key e" using Cons.prems(2) [of x] that True by simp
      with Cons.prems(1) imageI [OF that, of key] show False by simp
    qed
    then have "find Q es = None" by (auto simp: find_None_iff)
    with True show ?thesis by simp
  next
    case False
    then have "\<not> Q e" using Cons.prems(2) by auto
    with False Cons show ?thesis by simp
  qed
qed simp

lemma header_switch_facts:
  "distinct (map (\<lambda>(n, f, lit, hid). (n, f)) header_switch)"
  "list_all (\<lambda>(n, f, lit, _). n = length lit \<and> f = nx_tolower (hd lit) \<and> lit \<noteq> [] \<and> NUL \<notin> set lit) header_switch"
  by code_simp+

lemma eq_lit_split:
  assumes "NUL \<notin> set s" "NUL \<notin> set lit"
  shows "eq_lit (xs @ s @ NUL # ys) (length xs) lit = Some (same_nocase s lit)"
proof -
  obtain r where r: "nx_strcasecmp (s @ NUL # ys) (lit @ [NUL]) = Some r"
    using nx_strcasecmp_total [OF assms] by blast
  with nx_strcasecmp_zero [OF assms, of ys "[]"] show ?thesis by (auto simp: eq_lit_def same_nocase_def)
qed

lemma eq_lit_cstr: "cstr_at m p s \<Longrightarrow> NUL \<notin> set lit \<Longrightarrow> eq_lit m p lit = Some (same_nocase s lit)"
  by (elim cstr_at_decomp) (auto simp: eq_lit_split)

lemma identify_split:
  assumes "NUL \<notin> set name"
  shows "identify_http_header (xs @ name @ NUL # ys) (length xs) (length name) = Some (header_id name)"
proof (cases name)
  case Nil
  have "nx_tolower NUL = NUL" by simp
  moreover have "find (\<lambda>(n, f, _). n = 0 \<and> f = NUL) header_switch = None" by code_simp
  moreover have "header_id [] = NXWEB_HTTP_UNKNOWN" by code_simp
  moreover have "c_strlen (xs @ NUL # ys) (length xs) = Some 0" using c_strlen_split [of "[]" xs ys] by simp
  ultimately show ?thesis using Nil by (simp add: identify_http_header_def Let_def)
next
  case (Cons c r)
  let ?k = "(length name, nx_tolower c)"
  let ?key = "\<lambda>(n, f, lit :: string, hid :: nxweb_http_header_name). (n :: nat, f :: char)"
  have "?key e = ?k" if "e \<in> set header_switch" "case e of (n, f, lit, hid) \<Rightarrow> same_nocase name lit" for e
  proof -
    obtain n f lit hid where e: "e = (n, f, lit, hid)" by (cases e)
    with that(1) header_switch_facts(2) have t: "n = length lit" "f = nx_tolower (hd lit)" "lit \<noteq> []"
      by (auto simp: list_all_iff)
    from that(2) e have "map nx_tolower name = map nx_tolower lit" by (simp add: same_nocase_def)
    then have "length name = length lit" "nx_tolower c = nx_tolower (hd lit)"
      using t(3) Cons by (auto dest: map_eq_imp_length_eq)
    with t e show ?thesis by simp
  qed
  note fu = find_unique [of ?key header_switch "\<lambda>(n, f, lit, hid). same_nocase name lit" ?k, OF header_switch_facts(1) this]
  have key: "(\<lambda>e. ?key e = ?k) = (\<lambda>(n, f, _). n = length name \<and> f = nx_tolower c)" by (auto simp: fun_eq_iff)
  have rd: "rd (xs @ name @ NUL # ys) (length xs) = Some c" using Cons by simp
  show ?thesis
  proof (cases "find (\<lambda>(n, f, _). n = length name \<and> f = nx_tolower c) header_switch")
    case None
    with fu key rd Cons show ?thesis by (simp add: identify_http_header_def header_id_def Let_def)
  next
    case (Some e)
    obtain n f lit hid where e: "e = (n, f, lit, hid)" by (cases e)
    have "e \<in> set header_switch" using Some by (metis (no_types, lifting) find_Some_iff nth_mem)
    then have "NUL \<notin> set lit" using header_switch_facts(2) e by (auto simp: list_all_iff)
    with fu key rd Cons Some e eq_lit_split [OF assms, of lit xs ys]
    show ?thesis by (auto simp: identify_http_header_def header_id_def Let_def)
  qed
qed

section \<open>Strings in a growing memory\<close>

lemma cstr_at_append: "cstr_at A p s \<Longrightarrow> cstr_at (A @ B) p s"
proof -
  assume c: "cstr_at A p s"
  then obtain ys where d: "drop p A = s @ NUL # ys" and n: "NUL \<notin> set s" by (auto simp: cstr_at_def)
  have "p \<le> length A" using cstr_at_less [OF c] by simp
  then have "drop p (A @ B) = s @ NUL # ys @ B" using d by simp
  with n show ?thesis by (auto simp: cstr_at_def)
qed

definition entry_rel :: "mem \<Rightarrow> nat \<times> nat option \<Rightarrow> string \<times> string \<Rightarrow> bool" where
  "entry_rel A e s \<longleftrightarrow> cstr_at A (fst e) (fst s) \<and> (\<exists>q. snd e = Some q \<and> cstr_at A q (snd s))"

section \<open>Numbers behind a pointer\<close>

text \<open>Reading a number stops at the terminator.\<close>

lemma skip_cspace_NUL: "\<exists>u. skip_cspace (v @ NUL # r) = Some (u @ NUL # r) \<and> skip_cspace (v @ [NUL]) = Some (u @ [NUL])"
proof (induction v)
  case Nil
  have "\<not> is_cspace NUL" by (simp add: is_cspace_def)
  then show ?case by (intro exI [of _ "[]"]) simp
next
  case (Cons c v)
  show ?case
  proof (cases "is_cspace c")
    case False
    then show ?thesis by (intro exI [of _ "c # v"]) simp
  qed (use Cons in simp)
qed

lemma scan_digits_NUL:
  "map_option fst (scan_digits b acc (v @ NUL # r)) = map_option fst (scan_digits b acc (v @ [NUL]))"
  by (induction v arbitrary: acc) (auto split: option.split)

lemma take_sign_NUL: "\<exists>g u. take_sign (v @ NUL # r) = (g, u @ NUL # r) \<and> take_sign (v @ [NUL]) = (g, u @ [NUL])"
  by (cases v) (auto simp: take_sign_def)

lemma c_atol_NUL: "c_atol (v @ NUL # r) = c_atol (v @ [NUL])"
proof -
  obtain u where u: "skip_cspace (v @ NUL # r) = Some (u @ NUL # r)" "skip_cspace (v @ [NUL]) = Some (u @ [NUL])"
    using skip_cspace_NUL by blast
  obtain g w where w: "take_sign (u @ NUL # r) = (g, w @ NUL # r)" "take_sign (u @ [NUL]) = (g, w @ [NUL])"
    using take_sign_NUL by blast
  have s: "starts_digit 10 (w @ NUL # r) = starts_digit 10 (w @ [NUL])" by (cases w) (simp_all add: starts_digit_def)
  from scan_digits_NUL [of 10 0 w r] show ?thesis
    by (cases "scan_digits 10 0 (w @ NUL # r)"; cases "scan_digits 10 0 (w @ [NUL])")
      (auto simp: c_atol_def c_strtol_def u w s skip_0x_def)
qed

lemma scan_digits_total: "\<exists>n s. scan_digits b acc (v @ [NUL]) = Some (n, s)"
  by (induction v arbitrary: acc) (auto split: option.split)

lemma c_atol_total: "\<exists>n. c_atol (v @ [NUL]) = Some n"
proof -
  obtain u where u: "skip_cspace (v @ [NUL]) = Some (u @ [NUL])" using skip_cspace_NUL by blast
  obtain g w where w: "take_sign (u @ [NUL]) = (g, w @ [NUL])" using take_sign_NUL by blast
  obtain n s where "scan_digits 10 0 (w @ [NUL]) = Some (n, s)" using scan_digits_total by blast
  then show ?thesis by (simp add: c_atol_def c_strtol_def u w skip_0x_def)
qed

fun lines_text :: "string list \<Rightarrow> string" where
  "lines_text [] = []"
| "lines_text [L] = L"
| "lines_text (L # M # Ls) = L @ LF # lines_text (M # Ls)"

lemma cut_at_found:
  "NUL \<notin> set s \<Longrightarrow> x \<notin> set s \<Longrightarrow> cut_at x (A @ s @ x # R) (length A) = Some (A @ s @ NUL # R, Some (length A + length s + 1))"
  using c_strchr_found [of s x A R] wr_split [of "A @ s" x R NUL] by (simp add: cut_at_def)

lemma cut_at_none:
  "NUL \<notin> set s \<Longrightarrow> x \<notin> set s \<Longrightarrow> x \<noteq> NUL \<Longrightarrow> cut_at x (A @ s @ NUL # R) (length A) = Some (A @ s @ NUL # R, None)"
  using c_strchr_none [of s x A R] by (simp add: cut_at_def)

lemma length_trim: "length (takeWhile le_sp w) + length (trim w) \<le> length w"
proof (cases w rule: trim_decomp)
  case blank
  then show ?thesis using length_takeWhile_le [of le_sp w] by simp
next
  case (inner t c b)
  have "length w = length (takeWhile le_sp w @ t @ c # b)" by (rule arg_cong [OF inner(1)])
  then show ?thesis by (simp add: inner(2))
qed

lemma skip_token_split:
  "\<forall>c \<in> set s. \<not> le_sp c \<Longrightarrow> le_sp d \<Longrightarrow> skip_token (A @ s @ d # R) (length A) = Some (length A + length s)"
proof (induction s arbitrary: A)
  case Nil
  then show ?case by (subst skip_token.simps) (simp add: rd_split)
next
  case (Cons c s)
  with Cons.IH [of "A @ [c]"] show ?case by (subst skip_token.simps) simp
qed

lemma cut_token_split:
  "token s \<Longrightarrow> le_sp d \<Longrightarrow> cut_token (A @ s @ d # R) (length A) = Some (A @ s @ NUL # R, length A + length s + 1)"
  using skip_token_split [of s d A R] wr_split [of "A @ s" d R NUL] by (simp add: cut_token_def token_def)

lemma skip_blanks_token: "token s \<Longrightarrow> skip_blanks (A @ s @ R) (length A) pl = Some (length A)"
  by (cases s) (auto simp: token_def skip_blanks.simps)

section \<open>What the parser needs of a sink\<close>

text \<open>
  The contract between the header loop and the switch that stores a header: the switch, on a name
  and a value cut out of the memory, does what the specification says on their strings, and may
  rewrite the value in place.  What is related to a memory stays related when bytes follow.
\<close>

locale header_store =
  fixes store :: "'st header_sink"
    and spec_header :: "string \<Rightarrow> string \<Rightarrow> 'a \<Rightarrow> 'a option"
    and rel :: "mem \<Rightarrow> 'st \<Rightarrow> 'a \<Rightarrow> bool"
    and value_ok :: "nxweb_http_header_name \<Rightarrow> string \<Rightarrow> bool"
  assumes rel_append: "rel A st a \<Longrightarrow> rel (A @ B) st a"
    and store_refines: "rel A st a \<Longrightarrow> NUL \<notin> set name \<Longrightarrow> NUL \<notin> set v \<Longrightarrow> value_ok (header_id name) v
      \<Longrightarrow> P = A @ name @ NUL # lead \<Longrightarrow>
      (case spec_header name v a of
        None \<Rightarrow> store (header_id name) (P @ v @ NUL # Z) (length A) (length P) st = Some None
      | Some a' \<Rightarrow> \<exists>v' st'. length v' = length v \<and> rel (P @ v' @ [NUL]) st' a'
          \<and> store (header_id name) (P @ v @ NUL # Z) (length A) (length P) st = Some (Some (P @ v' @ NUL # Z, st')))"
begin

lemma parse_header_line_refines:
  assumes ok: "line_ok value_ok L" and rl: "rel A st a"
  shows "case spec_line spec_header L a of
      None \<Rightarrow> \<exists>e. parse_header_line store (A @ L @ NUL # Z) (length A) v st = Some (Inl e)
    | Some a' \<Rightarrow> \<exists>L' v' st'. length L' = length L \<and> rel (A @ L' @ [NUL]) st' a'
        \<and> parse_header_line store (A @ L @ NUL # Z) (length A) v st = Some (Inr (A @ L' @ NUL # Z, v', st'))"
proof -
  have nn: "NUL \<notin> set L" using ok by (simp add: line_ok_def)
  have first: "\<exists>c. rd (A @ L @ NUL # Z) (length A) = Some c \<and> \<not> (c \<noteq> NUL \<and> le_sp c)"
    using ok by (cases L) (auto simp: line_ok_def)
  show ?thesis
  proof (cases "CHR '':'' \<in> set L")
    case False
    have "c_strchr (A @ L @ NUL # Z) (length A) (CHR '':'') = Some None"
      using nn False by (intro c_strchr_none) auto
    then have "parse_header_line store (A @ L @ NUL # Z) (length A) v st = Some (Inr (A @ L @ NUL # Z, None, st))"
      using first by (auto simp: parse_header_line_def)
    moreover have spec: "spec_line spec_header L a = Some a" using False by (simp add: spec_line_def)
    ultimately show ?thesis unfolding spec option.case using rel_append [OF rl, of "L @ [NUL]"] by blast
  next
    case True
    then obtain n w where L: "L = n @ CHR '':'' # w" and n: "CHR '':'' \<notin> set n" by (rule split_first)
    have name: "header_name_of L = n" using n by (auto simp: header_name_of_def L takeWhile_append)
    have value_eq: "header_value_of L = trim w" by (simp add: header_value_of_def name) (simp add: L)
    define lead where "lead = takeWhile le_sp w"
    define k where "k = length w - length lead - length (trim w)"
    define P where "P = A @ n @ NUL # lead"
    have nw: "NUL \<notin> set n" "NUL \<notin> set w" "NUL \<notin> set (trim w)" using nn set_trim [of w] by (auto simp: L)
    have s1: "c_strchr (A @ L @ NUL # Z) (length A) (CHR '':'') = Some (Some (length A + length n))"
      using c_strchr_found [OF nw(1) n, of A "w @ NUL # Z"] by (simp add: L)
    have s2: "wr (A @ L @ NUL # Z) (length A + length n) NUL = Some (A @ n @ NUL # w @ NUL # Z)"
      using wr_split [of "A @ n" "CHR '':''" "w @ NUL # Z" NUL] by (simp add: L)
    have shift: "replicate k NUL @ NUL # Z = NUL # replicate k NUL @ Z"
      by (metis append_Cons replicate_Suc replicate_app_Cons_same)
    have s3: "nxweb_trunc_space (A @ n @ NUL # w @ NUL # Z) (length A + length n + 1)
        = Some (P @ trim w @ NUL # replicate k NUL @ Z, length P)"
      using nxweb_trunc_space_correct [OF nw(2), of "A @ n @ [NUL]" Z] shift by (simp add: lead_def k_def P_def)
    have s4: "identify_http_header (P @ trim w @ NUL # replicate k NUL @ Z) (length A) (length n) = Some (header_id n)"
      using identify_split [OF nw(1), of A "lead @ trim w @ NUL # replicate k NUL @ Z"] by (simp add: P_def)
    have vok: "value_ok (header_id n) (trim w)"
      using ok True by (simp add: line_ok_def name value_eq)
    have len: "length lead + length (trim w) + k = length w"
      using length_trim [of w] by (simp add: k_def lead_def)
    have run: "parse_header_line store (A @ L @ NUL # Z) (length A) v st =
        store (header_id n) (P @ trim w @ NUL # replicate k NUL @ Z) (length A) (length P) st
        \<bind> (\<lambda>r. Some (case r of None \<Rightarrow> Inl (P @ trim w @ NUL # replicate k NUL @ Z, st) | Some (m, st) \<Rightarrow> Inr (m, Some (length P), st)))"
      using first s1 s2 s3 s4 by (auto simp: parse_header_line_def)
    note step = store_refines [OF rl nw(1,3) vok P_def, of "replicate k NUL @ Z"]
    show ?thesis
    proof (cases "spec_header n (trim w) a")
      case None
      with step True name value_eq show ?thesis unfolding run by (simp add: spec_line_def)
    next
      case (Some a')
      with step obtain v' st' where v': "length v' = length (trim w)" "rel (P @ v' @ [NUL]) st' a'"
        "store (header_id n) (P @ trim w @ NUL # replicate k NUL @ Z) (length A) (length P) st
         = Some (Some (P @ v' @ NUL # replicate k NUL @ Z, st'))"
        by auto
      define L' where "L' = n @ NUL # lead @ v' @ replicate k NUL"
      have eq: "P @ v' @ NUL # replicate k NUL @ Z = A @ L' @ NUL # Z" by (simp add: L'_def shift P_def)
      have "replicate k NUL @ [NUL] = NUL # replicate k NUL" by (metis replicate_append_same)
      then have "(P @ v' @ [NUL]) @ replicate k NUL = A @ L' @ [NUL]" by (simp add: L'_def P_def)
      with rel_append [OF v'(2), of "replicate k NUL"] have hr: "rel (A @ L' @ [NUL]) st' a'" by simp
      have "length L' = length L" using len v'(1) by (simp add: L'_def L)
      moreover have "parse_header_line store (A @ L @ NUL # Z) (length A) v st = Some (Inr (A @ L' @ NUL # Z, Some (length P), st'))"
        unfolding run v'(3) eq by simp
      moreover have spec: "spec_line spec_header L a = Some a'" using Some True name value_eq by (simp add: spec_line_def)
      ultimately show ?thesis unfolding spec option.case using hr by blast
    qed
  qed
qed

lemma parse_headers_loop_refines:
  assumes "Ls \<noteq> []" "\<forall>L \<in> set Ls. line_ok value_ok L" "rel A st a"
  shows "case spec_lines spec_header Ls a of
      None \<Rightarrow> \<exists>e. parse_headers_loop store (A @ lines_text Ls @ NUL # Y) (length A) (length A + length (lines_text Ls)) v st = Some (Inl e)
    | Some a' \<Rightarrow> \<exists>A' st'. length A' = length A + length (lines_text Ls) + 1 \<and> rel A' st' a'
        \<and> parse_headers_loop store (A @ lines_text Ls @ NUL # Y) (length A) (length A + length (lines_text Ls)) v st = Some (Inr (A' @ Y, st'))"
  using assms
proof (induction Ls arbitrary: A st a v rule: lines_text.induct)
  case 1
  then show ?case by simp
next
  case (2 L)
  then have ok: "line_ok value_ok L" "NUL \<notin> set L" "LF \<notin> set L" by (auto simp: line_ok_def)
  show ?case
  proof (cases "L = []")
    case True
    have "parse_headers_loop store (A @ NUL # Y) (length A) (length A) v st = Some (Inr (A @ NUL # Y, st))"
      by (subst parse_headers_loop.simps) simp
    with True rel_append [OF "2.prems"(3), of "[NUL]"] show ?thesis
      by (simp add: spec_line_def del: split_paired_Ex)
  next
    case False
    have stop: "parse_headers_loop store m e e v st = Some (Inr (m, st))" for m e v st by (subst parse_headers_loop.simps) simp
    have run: "parse_headers_loop store (A @ L @ NUL # Y) (length A) (length A + length L) v st =
        parse_header_line store (A @ L @ NUL # Y) (length A) v st
        \<bind> (\<lambda>r. case r of Inl e \<Rightarrow> Some (Inl e)
          | Inr (m, v, st) \<Rightarrow> parse_headers_loop store m (length A + length L) (length A + length L) v st)"
      using False cut_at_none [OF ok(2,3), of A Y] by (subst parse_headers_loop.simps) simp
    note step = parse_header_line_refines [OF ok(1) "2.prems"(3), of Y v]
    show ?thesis
    proof (cases "spec_line spec_header L a")
      case None
      with step run show ?thesis by auto
    next
      case (Some a')
      with step obtain L' v' st' where "length L' = length L" "rel (A @ L' @ [NUL]) st' a'"
        "parse_header_line store (A @ L @ NUL # Y) (length A) v st = Some (Inr (A @ L' @ NUL # Y, v', st'))" by auto
      with run have "length (A @ L' @ [NUL]) = length A + length (lines_text [L]) + 1 \<and> rel (A @ L' @ [NUL]) st' a'
          \<and> parse_headers_loop store (A @ lines_text [L] @ NUL # Y) (length A) (length A + length (lines_text [L])) v st = Some (Inr ((A @ L' @ [NUL]) @ Y, st'))"
        by (simp add: stop)
      moreover have spec: "spec_lines spec_header [L] a = Some a'" using Some by simp
      ultimately show ?thesis unfolding spec option.case by blast
    qed
  qed
next
  case (3 L M Ls)
  then have ok: "line_ok value_ok L" "NUL \<notin> set L" "LF \<notin> set L" by (auto simp: line_ok_def)
  let ?R = "lines_text (M # Ls)"
  have run: "parse_headers_loop store (A @ L @ LF # ?R @ NUL # Y) (length A) (length A + length L + 1 + length ?R) v st =
      parse_header_line store (A @ L @ NUL # ?R @ NUL # Y) (length A) v st
      \<bind> (\<lambda>r. case r of Inl e \<Rightarrow> Some (Inl e)
        | Inr (m, v, st) \<Rightarrow> parse_headers_loop store m (length A + length L + 1) (length A + length L + 1 + length ?R) v st)"
    using cut_at_found [OF ok(2,3), of A "?R @ NUL # Y"] by (subst parse_headers_loop.simps) simp
  note step = parse_header_line_refines [OF ok(1) "3.prems"(3), of "?R @ NUL # Y" v]
  have len: "length A + length L + 1 + length ?R = length A + length (lines_text (L # M # Ls))" by simp
  have tx: "A @ L @ LF # ?R @ NUL # Y = A @ lines_text (L # M # Ls) @ NUL # Y" by simp
  show ?case
  proof (cases "spec_line spec_header L a")
    case None
    with step run show ?thesis by (auto simp: add.assoc)
  next
    case (Some a')
    with step obtain L' v' st' where L': "length L' = length L" "rel (A @ L' @ [NUL]) st' a'"
      "parse_header_line store (A @ L @ NUL # ?R @ NUL # Y) (length A) v st = Some (Inr (A @ L' @ NUL # ?R @ NUL # Y, v', st'))" by auto
    have next_ok: "M # Ls \<noteq> []" "\<forall>L \<in> set (M # Ls). line_ok value_ok L" using "3.prems" by auto
    have eq: "parse_headers_loop store (A @ lines_text (L # M # Ls) @ NUL # Y) (length A) (length A + length (lines_text (L # M # Ls))) v st
        = parse_headers_loop store ((A @ L' @ [NUL]) @ ?R @ NUL # Y) (length (A @ L' @ [NUL])) (length (A @ L' @ [NUL]) + length ?R) v' st'"
      unfolding len [symmetric] tx [symmetric] run L'(3) using L'(1) by (simp del: lines_text.simps)
    have lenA: "length (A @ L' @ [NUL]) + length ?R + 1 = length A + length (lines_text (L # M # Ls)) + 1"
      using L'(1) by simp
    have spec: "spec_lines spec_header (L # M # Ls) a = spec_lines spec_header (M # Ls) a'" using Some by simp
    from "3.IH" [OF next_ok L'(2), of v'] show ?thesis
      unfolding eq spec lenA .
  qed
qed

end

end
