(* ===== verification/Nx_Http_Request.thy ===== *)
theory Nx_Http_Request
  imports Nx_Url Nx_Http_Headers
begin

text \<open>
  Parsing of requests (\<^verbatim>\<open>lib/http_utils.c\<close>, \<^verbatim>\<open>nxweb_parse_request_parameters\<close> to
  \<^verbatim>\<open>_nxweb_parse_http_request\<close>).  The parsers cut the received bytes into strings in place; the
  fields of the request are pointers into that memory.  The list nodes that the code takes from
  the request's arena are elements of a list here, newest first.
\<close>

section \<open>The request\<close>

text \<open>A string field: a pointer into the memory, or a literal of the program.\<close>

datatype cptr = Ptr nat | Lit string

record nxweb_http_request =
  rq_http11 :: bool
  rq_head_method :: bool
  rq_get_method :: bool
  rq_post_method :: bool
  rq_other_method :: bool
  rq_accept_gzip_encoding :: bool
  rq_expect_100_continue :: bool
  rq_chunked_encoding :: bool
  rq_keep_alive :: bool
  rq_method :: "cptr option"
  rq_uri :: "nat option"
  rq_http_version :: "nat option"
  rq_host :: "nat option"
  rq_cookie :: "nat option"
  rq_user_agent :: "nat option"
  rq_content_type :: "nat option"
  rq_content :: "nat option"
  rq_content_length :: int
  rq_transfer_encoding :: "nat option"
  rq_accept_encoding :: "nat option"
  rq_range :: "nat option"
  rq_path_info :: "nat option"
  rq_if_modified_since :: int
  rq_headers :: "(nat \<times> nat option) list"
  rq_parameters :: "(nat \<times> nat option) list"
  rq_cookies :: "(nat \<times> nat option) list"

text \<open>A request after \<^verbatim>\<open>memset\<close>.\<close>

definition request_zero :: nxweb_http_request where
  "request_zero = \<lparr>rq_http11 = False, rq_head_method = False, rq_get_method = False, rq_post_method = False,
     rq_other_method = False, rq_accept_gzip_encoding = False, rq_expect_100_continue = False,
     rq_chunked_encoding = False, rq_keep_alive = False, rq_method = None, rq_uri = None,
     rq_http_version = None, rq_host = None, rq_cookie = None, rq_user_agent = None,
     rq_content_type = None, rq_content = None, rq_content_length = 0, rq_transfer_encoding = None,
     rq_accept_encoding = None, rq_range = None, rq_path_info = None, rq_if_modified_since = 0,
     rq_headers = [], rq_parameters = [], rq_cookies = []\<rparr>"

section \<open>Parameters and cookies\<close>

text \<open>
  One iteration of the loops: cut off the item, split it at \<^verbatim>\<open>=\<close>, decode both parts and trim the
  name.  A parameter without \<^verbatim>\<open>=\<close> has the empty value, a cookie without it a null one.  The result
  is the memory, the next item and the new entry, if there is one.
\<close>

definition decode_opt :: "mem \<Rightarrow> nat option \<Rightarrow> mem option" where
  "decode_opt m v = (case v of None \<Rightarrow> Some m | Some q \<Rightarrow> nxweb_url_decode m q None)"

definition parse_item :: "char \<Rightarrow> bool \<Rightarrow> mem \<Rightarrow> nat \<Rightarrow> (mem \<times> nat option \<times> (nat \<times> nat option) option) option" where
  "parse_item sep null_value m name = do {
     (m, nx) \<leftarrow> cut_at sep m name;
     (m, v) \<leftarrow> cut_at (CHR ''='') m name;
     v \<leftarrow> (if v = None \<and> \<not> null_value then do { n \<leftarrow> c_strlen m name; Some (Some (name + n)) } else Some v);
     c \<leftarrow> rd m name;
     if c = NUL then Some (m, nx, None)
     else do {
       m \<leftarrow> nxweb_url_decode m name None;
       (m, name) \<leftarrow> nxweb_trunc_space m name;
       m \<leftarrow> decode_opt m v;
       Some (m, nx, Some (name, v)) } }"

lemma url_decode_loop_length: "url_decode_loop m s d = Some m' \<Longrightarrow> length m' = length m"
proof (induction "length m - s" arbitrary: m s d rule: less_induct)
  case less
  have IH: "length m' = length m" if "url_decode_loop m1 s1 d1 = Some m'" "wr m x c = Some m1" "s < s1" "s < length m" for m1 s1 d1 x c
    using less.hyps [of m1 s1 d1] that wr_length [OF that(2)] by simp
  from less.prems obtain c where "rd m s = Some c" by (subst (asm) url_decode_loop.simps) (auto simp: bind_Some_iff)
  then have "s < length m" by (simp add: rd_Some_iff)
  moreover have "length m' = length m" if "url_decode_loop m1 (s + 3) d1 = Some m'" "wr m x c = Some m1" for m1 d1 x c
    using IH [OF that] calculation by simp
  ultimately show ?case using less.prems
    by (subst (asm) url_decode_loop.simps)
      (auto simp: bind_Some_iff split: if_splits option.splits intro: IH dest: wr_length)
qed

lemma url_decode_length: "nxweb_url_decode m s d = Some m' \<Longrightarrow> length m' = length m"
  by (auto simp: nxweb_url_decode_def dest: url_decode_loop_length)

lemma decode_opt_length: "decode_opt m v = Some m' \<Longrightarrow> length m' = length m"
  by (auto simp: decode_opt_def split: option.splits dest: url_decode_length)

lemma parse_item_next:
  assumes "parse_item sep nv m name = Some (m', nx, e)"
  shows "length m' = length m \<and> (\<forall>q. nx = Some q \<longrightarrow> name < q \<and> q \<le> length m)"
proof -
  from assms obtain m1 m2 v c where s: "cut_at sep m name = Some (m1, nx)" "cut_at (CHR ''='') m1 name = Some (m2, v)"
    "m' = m2 \<or> (\<exists>m3 m4 nm v'. nxweb_url_decode m2 name None = Some m3 \<and> nxweb_trunc_space m3 name = Some (m4, nm)
       \<and> decode_opt m4 v' = Some m')"
    unfolding parse_item_def by (auto simp: bind_Some_iff Let_def split: if_splits)
  then have "length m' = length m2" by (auto dest!: url_decode_length trunc_space_length decode_opt_length)
  with cut_at_next [OF s(1)] cut_at_next [OF s(2)] show ?thesis by simp
qed

function parse_items :: "char \<Rightarrow> bool \<Rightarrow> mem \<Rightarrow> nat option \<Rightarrow> (nat \<times> nat option) list
    \<Rightarrow> (mem \<times> (nat \<times> nat option) list) option" where
  "parse_items sep nv m None acc = Some (m, acc)"
| "parse_items sep nv m (Some name) acc = do {
     (m, nx, e) \<leftarrow> parse_item sep nv m name;
     parse_items sep nv m nx (case e of None \<Rightarrow> acc | Some e \<Rightarrow> e # acc) }"
  by pat_completeness auto
termination
  by (relation "measure (\<lambda>(sep, nv, m, nx, acc). case nx of None \<Rightarrow> 0 | Some q \<Rightarrow> Suc (length m - q))")
    (auto split: option.split dest!: parse_item_next)

text \<open>
  With \<^verbatim>\<open>preserve_uri\<close> the query string is copied to a fresh object of the arena, here at the end
  of the memory.
\<close>

definition query_string :: "mem \<Rightarrow> nat \<Rightarrow> bool \<Rightarrow> (mem \<times> nat option) option" where
  "query_string m uri preserve_uri = do {
     q \<leftarrow> c_strchr m uri (CHR ''?'');
     case q of None \<Rightarrow> Some (m, None)
     | Some q \<Rightarrow>
         if preserve_uri then do {
           n \<leftarrow> c_strlen m (q + 1);
           Some (m @ take (n + 1) (drop (q + 1) m), Some (length m)) }
         else do { m \<leftarrow> wr m q NUL; Some (m, Some (q + 1)) } }"

definition nxweb_parse_request_parameters :: "mem \<Rightarrow> nxweb_http_request \<Rightarrow> bool \<Rightarrow> (mem \<times> nxweb_http_request) option" where
  "nxweb_parse_request_parameters m req preserve_uri =
     (if rq_parameters req \<noteq> [] then Some (m, req)
      else do {
        uri \<leftarrow> rq_uri req;
        (m, qs) \<leftarrow> query_string m uri preserve_uri;
        (m, param_map) \<leftarrow> parse_items (CHR ''&'') False m qs [];
        form \<leftarrow> (case (rq_content req, rq_content_type req) of
                   (Some _, Some ct) \<Rightarrow> eq_lit m ct ''application/x-www-form-urlencoded''
                 | _ \<Rightarrow> Some False);
        if form then do {
          (m, param_map) \<leftarrow> parse_items (CHR ''&'') False m (rq_content req) param_map;
          Some (m, req\<lparr>rq_content := None, rq_parameters := param_map\<rparr>) }
        else Some (m, req\<lparr>rq_parameters := param_map\<rparr>) })"

definition nxweb_parse_request_cookies :: "mem \<Rightarrow> nxweb_http_request \<Rightarrow> (mem \<times> nxweb_http_request) option" where
  "nxweb_parse_request_cookies m req =
     (if rq_cookies req \<noteq> [] then Some (m, req)
      else do {
        (m, cookie_map) \<leftarrow> parse_items (CHR '';'') True m (rq_cookie req) [];
        Some (m, req\<lparr>rq_cookie := None, rq_cookies := cookie_map\<rparr>) })"

section \<open>The end of the headers\<close>

text \<open>
  \<^verbatim>\<open>_nxweb_find_end_of_http_headers\<close>: \<open>Some None\<close> if the buffer does not hold the end yet, else
  the end of the headers and the start of the body.
\<close>

lemma c_memchr_bounds: "c_memchr m p x n = Some (Some q) \<Longrightarrow> p \<le> q \<and> q < p + n"
  by (induction m p x n rule: c_memchr.induct) (auto simp: bind_Some_iff split: if_splits)

function find_end_loop :: "mem \<Rightarrow> nat \<Rightarrow> nat \<Rightarrow> nat \<Rightarrow> (nat \<times> nat) option option" where
  "find_end_loop m buf len p = do {
     q \<leftarrow> c_memchr m p LF (buf + len - p);
     case q of None \<Rightarrow> Some None
     | Some p \<Rightarrow> do {
         c1 \<leftarrow> rd m (p - 1);
         if c1 = LF then Some (Some (p - 1, p + 1))
         else do {
           c3 \<leftarrow> rd m (p - 3);
           c2 \<leftarrow> rd m (p - 2);
           if c3 = CR \<and> c2 = LF \<and> c1 = CR then Some (Some (p - 3, p + 1))
           else find_end_loop m buf len (p + 1) } } }"
  by pat_completeness auto
termination
  by (relation "measure (\<lambda>(m, buf, len, p). buf + len - p)") (auto dest!: c_memchr_bounds)

declare find_end_loop.simps [simp del]

definition nxweb_find_end_of_http_headers :: "mem \<Rightarrow> nat \<Rightarrow> nat \<Rightarrow> (nat \<times> nat) option option" where
  "nxweb_find_end_of_http_headers m buf len = (if len < 4 then Some None else find_end_loop m buf len (buf + 3))"

section \<open>Parsing a request\<close>

text \<open>
  The request line.  \<open>Inl\<close> is an early return with its code, and the memory and the request as they are then.
\<close>

definition absolute_uri :: "mem \<Rightarrow> nxweb_http_request \<Rightarrow> (int \<times> mem \<times> nxweb_http_request + mem \<times> nxweb_http_request) option" where
  "absolute_uri m req = do {
     u \<leftarrow> rq_uri req;
     s \<leftarrow> c_strchr m (u + 7) (CHR ''/'');
     case s of None \<Rightarrow> Some (Inl (-1, m, req))
     | Some uri \<Rightarrow> do {
         let host_len = uri - u - 7;
         m \<leftarrow> nx_strntolower m u (u + 7) host_len;
         m \<leftarrow> wr m (u + host_len) NUL;
         Some (Inr (m, req\<lparr>rq_host := Some u, rq_uri := Some uri\<rparr>)) } }"

text \<open>\<^verbatim>\<open>strncmp(p, literal, length of literal)==0\<close> on a cursor\<close>

fun has_prefix :: "cursor \<Rightarrow> string \<Rightarrow> bool option" where
  "has_prefix s [] = Some True"
| "has_prefix [] (b # t) = None"
| "has_prefix (a # s) (b # t) = (if a \<noteq> b then Some False else has_prefix s t)"

definition parse_request_line :: "mem \<Rightarrow> nat \<Rightarrow> nat \<Rightarrow> nxweb_http_request
    \<Rightarrow> (int \<times> mem \<times> nxweb_http_request + mem \<times> nxweb_http_request) option" where
  "parse_request_line m headers pl req = do {
     let req = req\<lparr>rq_method := Some (Ptr headers)\<rparr>;
     (m, p) \<leftarrow> cut_token m headers;
     p \<leftarrow> skip_blanks m p pl;
     if p \<ge> pl then Some (Inl (-1, m, req))
     else do {
       let req = req\<lparr>rq_uri := Some p\<rparr>;
       (m, p) \<leftarrow> cut_token m p;
       p \<leftarrow> skip_blanks m p pl;
       if p \<ge> pl then Some (Inl (-1, m, req))
       else do {
         let req = req\<lparr>rq_http_version := Some p\<rparr>;
         let v = p;
         (m, p) \<leftarrow> cut_token m p;
         http10 \<leftarrow> eq_lit m v ''HTTP/1.0'';
         let req = req\<lparr>rq_http11 := \<not> http10, rq_keep_alive := \<not> http10\<rparr>;
         u \<leftarrow> rq_uri req;
         absolute \<leftarrow> has_prefix (drop u m) ''http://'';
         r \<leftarrow> (if absolute then absolute_uri m req else Some (Inr (m, req)));
         case r of Inl e \<Rightarrow> Some (Inl e)
         | Inr (m, req) \<Rightarrow> do {
             u \<leftarrow> rq_uri req;
             c \<leftarrow> rd m u;
             if c \<noteq> CHR ''/'' then Some (Inl (-1, m, req)) else Some (Inr (m, req)) } } } }"

text \<open>
  The switch over a header; \<open>None\<close> inside is \<^verbatim>\<open>return -2\<close>.  The state of the loop: the request, the
  header list and the value of \<^verbatim>\<open>Expect\<close>.
\<close>

type_synonym header_state = "nxweb_http_request \<times> (nat \<times> nat option) list \<times> nat option"

definition store_header :: "header_state header_sink" where
  "store_header hid m name value = (\<lambda>(req, hm, ex).
     if hid = NXWEB_HTTP_HOST then do {
       m \<leftarrow> nx_strtolower m value value;
       Some (Some (m, req\<lparr>rq_host := Some value\<rparr>, hm, ex)) }
     else if hid = NXWEB_HTTP_EXPECT then Some (Some (m, req, hm, Some value))
     else if hid = NXWEB_HTTP_COOKIE then Some (Some (m, req\<lparr>rq_cookie := Some value\<rparr>, hm, ex))
     else if hid = NXWEB_HTTP_USER_AGENT then Some (Some (m, req\<lparr>rq_user_agent := Some value\<rparr>, hm, ex))
     else if hid = NXWEB_HTTP_CONTENT_TYPE then Some (Some (m, req\<lparr>rq_content_type := Some value\<rparr>, hm, ex))
     else if hid = NXWEB_HTTP_CONTENT_LENGTH then do {
       n \<leftarrow> c_atol (drop value m);
       Some (Some (m, req\<lparr>rq_content_length := n\<rparr>, hm, ex)) }
     else if hid = NXWEB_HTTP_ACCEPT_ENCODING then Some (Some (m, req\<lparr>rq_accept_encoding := Some value\<rparr>, hm, ex))
     else if hid = NXWEB_HTTP_TRANSFER_ENCODING then Some (Some (m, req\<lparr>rq_transfer_encoding := Some value\<rparr>, hm, ex))
     else if hid = NXWEB_HTTP_IF_MODIFIED_SINCE then do {
       t \<leftarrow> nxweb_parse_http_time (drop value m);
       Some (Some (m, req\<lparr>rq_if_modified_since := t\<rparr>, hm, ex)) }
     else if hid = NXWEB_HTTP_CONNECTION then do {
       ka \<leftarrow> eq_lit m value ''keep-alive'';
       Some (Some (m, req\<lparr>rq_keep_alive := ka\<rparr>, hm, ex)) }
     else if hid = NXWEB_HTTP_RANGE then Some (Some (m, req\<lparr>rq_range := Some value\<rparr>, hm, ex))
     else if hid = NXWEB_HTTP_TRAILER then Some None
     else Some (Some (m, req, (name, Some value) # hm, ex)))"

text \<open>The search for the coding \<^verbatim>\<open>gzip\<close> in \<^verbatim>\<open>Accept-Encoding\<close>.\<close>

definition gzip_here :: "mem \<Rightarrow> nat \<Rightarrow> nat \<Rightarrow> bool option" where
  "gzip_here m start g = do {
     is_gzip \<leftarrow> has_prefix (drop g m) ''gzip'';
     if \<not> is_gzip then Some False
     else do {
       sep_ok \<leftarrow> (if g = start then Some True
                 else do { c \<leftarrow> rd m (g - 1); Some (c = CHR '','' \<or> c = SP) });
       if \<not> sep_ok then Some False
       else do { c \<leftarrow> rd m (g + 4); Some (c = NUL \<or> c = CHR '','' \<or> c = SP) } } }"

function gzip_loop :: "mem \<Rightarrow> nat \<Rightarrow> nat \<Rightarrow> bool option" where
  "gzip_loop m start g = do {
     here \<leftarrow> gzip_here m start g;
     if here then Some True
     else do {
       q \<leftarrow> c_strchr m (g + 1) (CHR ''g'');
       case q of None \<Rightarrow> Some False | Some g \<Rightarrow> gzip_loop m start g } }"
  by pat_completeness auto
termination
  by (relation "measure (\<lambda>(m, start, g). length m - g)") (auto dest!: c_strchr_bounds)

declare gzip_loop.simps [simp del]

text \<open>A comparison with an optional field, false for a null pointer.\<close>

definition opt_eq_lit :: "mem \<Rightarrow> nat option \<Rightarrow> string \<Rightarrow> bool option" where
  "opt_eq_lit m p lit = (case p of None \<Rightarrow> Some False | Some p \<Rightarrow> eq_lit m p lit)"

definition finish_request :: "mem \<Rightarrow> header_state \<Rightarrow> (int \<times> mem \<times> nxweb_http_request) option" where
  "finish_request m = (\<lambda>(req, hm, ex). do {
     let req = req\<lparr>rq_headers := hm\<rparr>;
     has_host \<leftarrow> (case rq_host req of None \<Rightarrow> Some False | Some h \<Rightarrow> do { c \<leftarrow> rd m h; Some (c \<noteq> NUL) });
     if \<not> has_host then Some (-1, m, req)
     else do {
       let req = req\<lparr>rq_path_info := None\<rparr>;
       gz \<leftarrow> (case rq_accept_encoding req of None \<Rightarrow> Some False | Some g \<Rightarrow> gzip_loop m g g);
       let req = req\<lparr>rq_accept_gzip_encoding := rq_accept_gzip_encoding req \<or> gz\<rparr>;
       chunked \<leftarrow> opt_eq_lit m (rq_transfer_encoding req) ''chunked'';
       let req = req\<lparr>rq_chunked_encoding := chunked,
                      rq_content_length := (if chunked then -1 else rq_content_length req)\<rparr>;
       is_100 \<leftarrow> (if rq_content_length req \<noteq> 0 then opt_eq_lit m ex ''100-continue'' else Some False);
       let req = req\<lparr>rq_expect_100_continue := is_100\<rparr>;
       mp \<leftarrow> (case rq_method req of Some (Ptr p) \<Rightarrow> Some p | _ \<Rightarrow> None);
       is_head \<leftarrow> eq_lit m mp ''HEAD'';
       is_get \<leftarrow> (if is_head then Some True else eq_lit m mp ''GET'');
       is_post \<leftarrow> (if is_head then Some False else eq_lit m mp ''POST'');
       Some (0, m, req\<lparr>rq_head_method := is_head,
                       rq_method := (if is_head then Some (Lit ''GET'') else Some (Ptr mp)),
                       rq_get_method := is_get, rq_post_method := is_post,
                       rq_other_method := (\<not> is_get \<and> \<not> is_post)\<rparr>) } })"

definition nxweb_parse_http_request :: "mem \<Rightarrow> nxweb_http_request \<Rightarrow> nat \<Rightarrow> nat option \<Rightarrow> (int \<times> mem \<times> nxweb_http_request) option" where
  "nxweb_parse_http_request m req headers end_of_headers =
     (case end_of_headers of None \<Rightarrow> Some (-1, m, req)
      | Some e \<Rightarrow> do {
          m \<leftarrow> wr m e NUL;
          let req = req\<lparr>rq_content_length := 0\<rparr>;
          nl \<leftarrow> c_strchr m headers LF;
          (m, pl) \<leftarrow> (case nl of None \<Rightarrow> Some (m, e) | Some q \<Rightarrow> do { m \<leftarrow> wr m q NUL; Some (m, q) });
          line \<leftarrow> parse_request_line m headers pl req;
          case line of Inl r \<Rightarrow> Some r
          | Inr (m, req) \<Rightarrow> do {
              r \<leftarrow> parse_headers_loop store_header m (pl + 1) e None (req, [], None);
              case r of Inl (m, req, _) \<Rightarrow> Some (-2, m, req)
              | Inr (m, st) \<Rightarrow> finish_request m st } })"

end
