(* ===== verification/Nx_Http_Request_Spec.thy ===== *)
theory Nx_Http_Request_Spec
  imports Nx_Http_Request
begin

text \<open>
  What \<^verbatim>\<open>_nxweb_parse_http_request\<close> promises, on strings: a request line and a list of header
  lines give a record of strings and flags, or a refusal.  The parser that cuts the received bytes
  in place is shown to implement it.
\<close>

section \<open>Specification\<close>

record areq =
  ar_method :: string
  ar_uri :: string
  ar_version :: string
  ar_host :: "string option"
  ar_cookie :: "string option"
  ar_user_agent :: "string option"
  ar_content_type :: "string option"
  ar_transfer_encoding :: "string option"
  ar_accept_encoding :: "string option"
  ar_range :: "string option"
  ar_expect :: "string option"
  ar_content_length :: int
  ar_if_modified_since :: int
  ar_keep_alive :: bool
  ar_http11 :: bool
  ar_headers :: "(string \<times> string) list"

definition spec_header :: "string \<Rightarrow> string \<Rightarrow> areq \<Rightarrow> areq option" where
  "spec_header name v a =
     (let hid = header_id name in
      if hid = NXWEB_HTTP_HOST then Some (a\<lparr>ar_host := Some (map nx_tolower v)\<rparr>)
      else if hid = NXWEB_HTTP_EXPECT then Some (a\<lparr>ar_expect := Some v\<rparr>)
      else if hid = NXWEB_HTTP_COOKIE then Some (a\<lparr>ar_cookie := Some v\<rparr>)
      else if hid = NXWEB_HTTP_USER_AGENT then Some (a\<lparr>ar_user_agent := Some v\<rparr>)
      else if hid = NXWEB_HTTP_CONTENT_TYPE then Some (a\<lparr>ar_content_type := Some v\<rparr>)
      else if hid = NXWEB_HTTP_CONTENT_LENGTH then Some (a\<lparr>ar_content_length := the (c_atol (v @ [NUL]))\<rparr>)
      else if hid = NXWEB_HTTP_ACCEPT_ENCODING then Some (a\<lparr>ar_accept_encoding := Some v\<rparr>)
      else if hid = NXWEB_HTTP_TRANSFER_ENCODING then Some (a\<lparr>ar_transfer_encoding := Some v\<rparr>)
      else if hid = NXWEB_HTTP_IF_MODIFIED_SINCE then Some (a\<lparr>ar_if_modified_since := the (nxweb_parse_http_time (v @ [NUL]))\<rparr>)
      else if hid = NXWEB_HTTP_CONNECTION then Some (a\<lparr>ar_keep_alive := same_nocase v ''keep-alive''\<rparr>)
      else if hid = NXWEB_HTTP_RANGE then Some (a\<lparr>ar_range := Some v\<rparr>)
      else if hid = NXWEB_HTTP_TRAILER then None
      else Some (a\<lparr>ar_headers := (name, v) # ar_headers a\<rparr>))"

text \<open>
  Values the specification covers: a date in \<^verbatim>\<open>If-Modified-Since\<close> that is well formed, and an
  \<^verbatim>\<open>Accept-Encoding\<close> that is not empty.
\<close>

definition request_value_ok :: "nxweb_http_header_name \<Rightarrow> string \<Rightarrow> bool" where
  "request_value_ok hid v \<longleftrightarrow>
     (hid = NXWEB_HTTP_IF_MODIFIED_SINCE \<longrightarrow> (\<exists>t. tm_ok t \<and> v = http_date t))
     \<and> (hid = NXWEB_HTTP_ACCEPT_ENCODING \<longrightarrow> v \<noteq> [])"

section \<open>The relation of a request in memory to its strings\<close>

definition header_rel :: "mem \<Rightarrow> header_state \<Rightarrow> areq \<Rightarrow> bool" where
  "header_rel A st a \<longleftrightarrow>
     (case st of (req, hm, ex) \<Rightarrow>
        (\<exists>p. rq_method req = Some (Ptr p) \<and> cstr_at A p (ar_method a))
      \<and> rel_option (cstr_at A) (rq_uri req) (Some (ar_uri a))
      \<and> rel_option (cstr_at A) (rq_http_version req) (Some (ar_version a))
      \<and> rel_option (cstr_at A) (rq_host req) (ar_host a)
      \<and> rel_option (cstr_at A) (rq_cookie req) (ar_cookie a)
      \<and> rel_option (cstr_at A) (rq_user_agent req) (ar_user_agent a)
      \<and> rel_option (cstr_at A) (rq_content_type req) (ar_content_type a)
      \<and> rel_option (cstr_at A) (rq_transfer_encoding req) (ar_transfer_encoding a)
      \<and> rel_option (cstr_at A) (rq_accept_encoding req) (ar_accept_encoding a)
      \<and> rel_option (cstr_at A) (rq_range req) (ar_range a)
      \<and> rel_option (cstr_at A) ex (ar_expect a)
      \<and> rq_content_length req = ar_content_length a \<and> rq_if_modified_since req = ar_if_modified_since a
      \<and> rq_keep_alive req = ar_keep_alive a \<and> rq_http11 req = ar_http11 a \<and> \<not> rq_accept_gzip_encoding req
      \<and> list_all2 (entry_rel A) hm (ar_headers a))"

lemma header_rel_append:
  assumes "header_rel A st a"
  shows "header_rel (A @ B) st a"
proof -
  have o: "rel_option (cstr_at A) p s \<Longrightarrow> rel_option (cstr_at (A @ B)) p s" for p s
    by (erule option.rel_mono_strong) (rule cstr_at_append)
  have l: "list_all2 (entry_rel A) xs ys \<Longrightarrow> list_all2 (entry_rel (A @ B)) xs ys" for xs ys
    by (erule list_all2_mono) (auto simp: entry_rel_def dest: cstr_at_append)
  show ?thesis using assms unfolding header_rel_def
    by (cases st) (auto simp del: option_rel_Some1 option_rel_Some2 intro: o l cstr_at_append)
qed

section \<open>One header\<close>

lemma store_header_refines:
  assumes rel: "header_rel A st a" and nn: "NUL \<notin> set name" "NUL \<notin> set v"
    and vok: "request_value_ok (header_id name) v"
    and P_def: "P = A @ name @ NUL # lead"
  shows "case spec_header name v a of
      None \<Rightarrow> store_header (header_id name) (P @ v @ NUL # Z) (length A) (length P) st = Some None
    | Some a' \<Rightarrow> \<exists>v' st'. length v' = length v \<and> header_rel (P @ v' @ [NUL]) st' a'
        \<and> store_header (header_id name) (P @ v @ NUL # Z) (length A) (length P) st = Some (Some (P @ v' @ NUL # Z, st'))"
proof -
  obtain req hm ex where st: "st = (req, hm, ex)" by (cases st)
  have hr: "header_rel (P @ w) st a" for w unfolding P_def using header_rel_append [OF rel] by simp
  have nm: "cstr_at (P @ w) (length A) name" for w
    using cstr_atI [OF nn(1), of "length A" A "lead @ w"] by (simp add: P_def)
  have val: "cstr_at (P @ w @ [NUL]) (length P) w" if "NUL \<notin> set w" for w
    using cstr_atI [OF that, of "length P" P "[]"] by simp
  have low: "nx_strtolower (P @ v @ NUL # Z) (length P) (length P) = Some (P @ map nx_tolower v @ NUL # Z)"
    by (rule nx_strtolower_inplace [OF nn(2)])
  have lown: "NUL \<notin> set (map nx_tolower v)" using nn(2) by (auto simp: eq_commute [of NUL])
  have num: "c_atol (drop (length P) (P @ v @ NUL # Z)) = Some (the (c_atol (v @ [NUL])))"
    using c_atol_total [of v] c_atol_NUL [of v Z] by auto
  have time: "nxweb_parse_http_time (drop (length P) (P @ v @ NUL # Z)) = Some (the (nxweb_parse_http_time (v @ [NUL])))"
    if "header_id name = NXWEB_HTTP_IF_MODIFIED_SINCE"
  proof -
    from that vok obtain t where "tm_ok t" "v = http_date t" by (auto simp: request_value_ok_def)
    then show ?thesis by (simp add: parse_http_date)
  qed
  have ka: "eq_lit (P @ v @ NUL # Z) (length P) ''keep-alive'' = Some (same_nocase v ''keep-alive'')"
    by (rule eq_lit_split [OF nn(2)]) simp
  note facts = hr [of "v @ [NUL]"] hr [of "map nx_tolower v @ [NUL]"] nm [of "v @ [NUL]"] val [OF nn(2)] val [OF lown] low num ka
  have keep: ?thesis if "spec_header name v a = Some a'" "header_rel (P @ v @ [NUL]) st' a'"
    "store_header (header_id name) (P @ v @ NUL # Z) (length A) (length P) st = Some (Some (P @ v @ NUL # Z, st'))" for st' a'
    unfolding that(1) option.case using that(2,3) by blast
  show ?thesis
  proof (cases "header_id name \<in> {NXWEB_HTTP_HOST, NXWEB_HTTP_TRAILER}")
    case True
    with facts show ?thesis
      by (auto simp: spec_header_def store_header_def st header_rel_def Let_def intro!: exI [of _ "map nx_tolower v"])
  next
    case False
    define st' where "st' = (case store_header (header_id name) (P @ v @ NUL # Z) (length A) (length P) st of
      Some (Some (_, s)) \<Rightarrow> s | _ \<Rightarrow> st)"
    define a' where "a' = (case spec_header name v a of Some a' \<Rightarrow> a' | _ \<Rightarrow> a)"
    show ?thesis
    proof (rule keep)
      show "spec_header name v a = Some a'" using False by (simp add: a'_def spec_header_def Let_def)
      show "store_header (header_id name) (P @ v @ NUL # Z) (length A) (length P) st = Some (Some (P @ v @ NUL # Z, st'))"
        using False num ka time by (auto simp: st'_def store_header_def st)
      show "header_rel (P @ v @ [NUL]) st' a'"
        using False hr [of "v @ [NUL]"] nm [of "v @ [NUL]"] val [OF nn(2)] num ka time
        by (cases "header_id name") (simp_all add: st'_def a'_def spec_header_def store_header_def st header_rel_def Let_def entry_rel_def)
    qed
  qed
qed

interpretation request_headers: header_store store_header spec_header header_rel request_value_ok
  by unfold_locales (rule header_rel_append, assumption, rule store_header_refines)

lemma spec_lines_accept:
  "\<forall>L \<in> set Ls. line_ok request_value_ok L \<Longrightarrow> spec_lines spec_header Ls a = Some a' \<Longrightarrow> ar_accept_encoding a \<noteq> Some [] \<Longrightarrow> ar_accept_encoding a' \<noteq> Some []"
proof (induction Ls arbitrary: a)
  case (Cons L Ls)
  then obtain b where b: "spec_line spec_header L a = Some b" "spec_lines spec_header Ls b = Some a'" by (auto split: option.splits)
  have "ar_accept_encoding b \<noteq> Some []"
    using b(1) Cons.prems(1,3) by (auto simp: spec_line_def spec_header_def line_ok_def request_value_ok_def Let_def split: if_splits)
  with Cons.IH [OF _ b(2)] Cons.prems(1) show ?case by simp
qed simp

section \<open>The coding gzip\<close>

definition list_sep :: "char \<Rightarrow> bool" where
  "list_sep c \<longleftrightarrow> c = CHR '','' \<or> c = SP"

definition gzip_at :: "string \<Rightarrow> bool" where
  "gzip_at s \<longleftrightarrow> take 4 s = ''gzip'' \<and> (case drop 4 s of [] \<Rightarrow> True | d # _ \<Rightarrow> list_sep d)"

fun accepts_gzip :: "bool \<Rightarrow> string \<Rightarrow> bool" where
  "accepts_gzip b [] = False"
| "accepts_gzip b (c # s) = (b \<and> gzip_at (c # s) \<or> accepts_gzip (list_sep c) s)"

lemma has_prefix_NUL: "NUL \<notin> set lit \<Longrightarrow> has_prefix (s @ NUL # Y) lit = Some (take (length lit) s = lit)"
proof (induction lit arbitrary: s)
  case (Cons b lit)
  then show ?case by (cases s) auto
qed simp

lemma gzip_here_split:
  assumes "s = c # t" "NUL \<notin> set s"
  shows "gzip_here (X @ pre @ s @ NUL # Y) (length X) (length X + length pre)
    = Some ((pre = [] \<or> list_sep (last pre)) \<and> gzip_at s)"
proof -
  have pfx: "has_prefix (drop (length X + length pre) (X @ pre @ s @ NUL # Y)) ''gzip'' = Some (take 4 s = ''gzip'')"
    using has_prefix_NUL [of "''gzip''" s Y] by (simp add: eval_nat_numeral)
  have before: "rd (X @ pre @ s @ NUL # Y) (length X + length pre - 1) = Some (last pre)" if "pre \<noteq> []"
  proof -
    from that have "pre = butlast pre @ [last pre]" by simp
    then show ?thesis using rd_split [of "X @ butlast pre" "last pre" "s @ NUL # Y"] that
      by (metis (no_types, lifting) append.assoc append_Cons append_Nil length_append length_butlast
          Nat.add_diff_assoc length_greater_0_conv One_nat_def Suc_leI)
  qed
  have after: "rd (X @ pre @ s @ NUL # Y) (length X + length pre + 4) = Some (case drop 4 s of [] \<Rightarrow> NUL | d # _ \<Rightarrow> d)"
    if "take 4 s = ''gzip''"
  proof -
    have "s = ''gzip'' @ drop 4 s" using that append_take_drop_id [of 4 s] by simp
    then obtain r where r: "s = ''gzip'' @ r" by blast
    show ?thesis using rd_split [of "X @ pre @ ''gzip''" _ "NUL # Y"] rd_split [of "X @ pre @ ''gzip''" NUL Y]
      rd_split [of "X @ pre @ ''gzip''" "hd r" "tl r @ NUL # Y"]
      by (cases r) (simp_all add: r eval_nat_numeral)
  qed
  have nul: "(case drop 4 s of [] \<Rightarrow> NUL | d # _ \<Rightarrow> d) = NUL \<longleftrightarrow> drop 4 s = []"
    using assms(2) by (auto split: list.splits dest!: arg_cong [of _ _ set] dest: in_set_dropD)
  show ?thesis
    using pfx before after nul
    by (auto simp: gzip_here_def gzip_at_def list_sep_def split: list.splits)
qed

lemma accepts_gzip_no_g: "CHR ''g'' \<notin> set s \<Longrightarrow> \<not> accepts_gzip b s"
  by (induction s arbitrary: b) (auto simp: gzip_at_def)

lemma accepts_gzip_skip:
  "CHR ''g'' \<notin> set u \<Longrightarrow> accepts_gzip (list_sep c) (u @ CHR ''g'' # w) = accepts_gzip (list_sep (last (c # u))) (CHR ''g'' # w)"
proof (induction u arbitrary: c)
  case (Cons d u)
  have "\<not> gzip_at (d # u @ CHR ''g'' # w)" using Cons.prems by (auto simp: gzip_at_def)
  with Cons show ?case by simp
qed simp

lemma gzip_loop_split:
  assumes "s \<noteq> []" "NUL \<notin> set s"
  shows "gzip_loop (X @ pre @ s @ NUL # Y) (length X) (length X + length pre)
    = Some (accepts_gzip (pre = [] \<or> list_sep (last pre)) s)"
  using assms
proof (induction "length s" arbitrary: pre s rule: less_induct)
  case less
  then obtain c t where s: "s = c # t" by (cases s) auto
  let ?m = "X @ pre @ s @ NUL # Y"
  note here = gzip_here_split [OF s less.prems(2), of X pre Y]
  have m: "?m = (X @ pre @ [c]) @ t @ NUL # Y" by (simp add: s)
  have t: "NUL \<notin> set t" using less.prems(2) s by simp
  show ?case
  proof (cases "CHR ''g'' \<in> set t")
    case False
    have "c_strchr ?m (length X + length pre + 1) (CHR ''g'') = Some None"
      using c_strchr_none [OF t False, of "X @ pre @ [c]" Y] unfolding m by simp
    with here accepts_gzip_no_g [OF False] show ?thesis
      by (subst gzip_loop.simps) (auto simp: s)
  next
    case True
    then obtain u w where uw: "t = u @ CHR ''g'' # w" "CHR ''g'' \<notin> set u" by (rule split_first)
    have "c_strchr ?m (length X + length pre + 1) (CHR ''g'') = Some (Some (length X + length (pre @ c # u)))"
      using c_strchr_found [of u "CHR ''g''" "X @ pre @ [c]" "w @ NUL # Y"] t uw unfolding m by simp
    moreover have "gzip_loop (X @ (pre @ c # u) @ (CHR ''g'' # w) @ NUL # Y) (length X) (length X + length (pre @ c # u))
        = Some (accepts_gzip (list_sep (last (c # u))) (CHR ''g'' # w))"
      using less.hyps [of "CHR ''g'' # w" "pre @ c # u"] less.prems(2) s uw by simp
    then have "gzip_loop ?m (length X) (length X + length (pre @ c # u)) = Some (accepts_gzip (list_sep c) t)"
      using accepts_gzip_skip [OF uw(2), of c w] s uw(1) by simp
    ultimately show ?thesis using here by (subst gzip_loop.simps) (auto simp: s)
  qed
qed

lemma gzip_loop_cstr: "cstr_at m p s \<Longrightarrow> s \<noteq> [] \<Longrightarrow> gzip_loop m p p = Some (accepts_gzip True s)"
  using gzip_loop_split [of s _ "[]"] by (elim cstr_at_decomp) auto

section \<open>The flags of a request\<close>

definition opt_same :: "string option \<Rightarrow> string \<Rightarrow> bool" where
  "opt_same s lit \<longleftrightarrow> (case s of None \<Rightarrow> False | Some s \<Rightarrow> same_nocase s lit)"

definition ar_chunked :: "areq \<Rightarrow> bool" where
  "ar_chunked a = opt_same (ar_transfer_encoding a) ''chunked''"

definition ar_length :: "areq \<Rightarrow> int" where
  "ar_length a = (if ar_chunked a then -1 else ar_content_length a)"

definition request_flags :: "nxweb_http_request \<Rightarrow> areq \<Rightarrow> bool" where
  "request_flags req a \<longleftrightarrow>
     rq_accept_gzip_encoding req = (case ar_accept_encoding a of None \<Rightarrow> False | Some s \<Rightarrow> accepts_gzip True s)
     \<and> rq_http11 req = ar_http11 a \<and> rq_chunked_encoding req = ar_chunked a \<and> rq_content_length req = ar_length a
     \<and> rq_expect_100_continue req = (ar_length a \<noteq> 0 \<and> opt_same (ar_expect a) ''100-continue'')
     \<and> rq_head_method req = same_nocase (ar_method a) ''HEAD''
     \<and> rq_get_method req = (same_nocase (ar_method a) ''HEAD'' \<or> same_nocase (ar_method a) ''GET'')
     \<and> rq_post_method req = same_nocase (ar_method a) ''POST''
     \<and> rq_other_method req = (\<not> rq_get_method req \<and> \<not> rq_post_method req)"

text \<open>The strings of a finished request; \<^verbatim>\<open>HEAD\<close> is replaced by \<^verbatim>\<open>GET\<close>.\<close>

definition request_strings :: "mem \<Rightarrow> nxweb_http_request \<Rightarrow> areq \<Rightarrow> bool" where
  "request_strings m req a \<longleftrightarrow>
     (case rq_method req of Some (Ptr p) \<Rightarrow> cstr_at m p (ar_method a)
      | Some (Lit s) \<Rightarrow> s = ''GET'' \<and> same_nocase (ar_method a) ''HEAD'' | None \<Rightarrow> False)
     \<and> rel_option (cstr_at m) (rq_uri req) (Some (ar_uri a))
     \<and> rel_option (cstr_at m) (rq_http_version req) (Some (ar_version a))
     \<and> rel_option (cstr_at m) (rq_host req) (ar_host a)
     \<and> rel_option (cstr_at m) (rq_cookie req) (ar_cookie a)
     \<and> rel_option (cstr_at m) (rq_user_agent req) (ar_user_agent a)
     \<and> rel_option (cstr_at m) (rq_content_type req) (ar_content_type a)
     \<and> rel_option (cstr_at m) (rq_range req) (ar_range a)
     \<and> rq_if_modified_since req = ar_if_modified_since a \<and> rq_keep_alive req = ar_keep_alive a
     \<and> list_all2 (entry_rel m) (rq_headers req) (ar_headers a)"

lemma opt_eq_lit_rel: "rel_option (cstr_at m) p s \<Longrightarrow> NUL \<notin> set lit \<Longrightarrow> opt_eq_lit m p lit = Some (opt_same s lit)"
  by (cases p; cases s) (auto simp: opt_eq_lit_def opt_same_def eq_lit_cstr)

lemma head_not_post: "same_nocase s ''HEAD'' \<Longrightarrow> \<not> same_nocase s ''POST''"
proof -
  have "map nx_tolower ''HEAD'' \<noteq> map nx_tolower ''POST''" by code_simp
  then show "same_nocase s ''HEAD'' \<Longrightarrow> \<not> same_nocase s ''POST''" by (simp add: same_nocase_def)
qed

lemma finish_request_refines:
  assumes rel: "header_rel m (req, hm, ex) a" and acc: "ar_accept_encoding a \<noteq> Some []"
  shows "if ar_host a = None \<or> ar_host a = Some []
    then \<exists>req'. finish_request m (req, hm, ex) = Some (-1, m, req')
    else \<exists>req'. finish_request m (req, hm, ex) = Some (0, m, req') \<and> request_flags req' a \<and> request_strings m req' a"
proof -
  obtain p where p: "rq_method req = Some (Ptr p)" "cstr_at m p (ar_method a)" using rel by (auto simp: header_rel_def)
  have host: "(case rq_host req of None \<Rightarrow> Some False | Some h \<Rightarrow> do { c \<leftarrow> rd m h; Some (c \<noteq> NUL) })
      = Some (\<not> (ar_host a = None \<or> ar_host a = Some []))"
  proof -
    have r: "rel_option (cstr_at m) (rq_host req) (ar_host a)" using rel by (simp add: header_rel_def)
    show ?thesis
    proof (cases "ar_host a")
      case None
      with r show ?thesis by (cases "rq_host req") auto
    next
      case (Some h)
      with r obtain q where q: "rq_host req = Some q" "cstr_at m q h" by (cases "rq_host req") auto
      from q(2) obtain xs ys where "m = xs @ h @ NUL # ys" "length xs = q" "NUL \<notin> set h" by (rule cstr_at_decomp)
      with q(1) Some show ?thesis by (cases h) auto
    qed
  qed
  have gzip: "(case rq_accept_encoding req of None \<Rightarrow> Some False | Some g \<Rightarrow> gzip_loop m g g)
      = Some (case ar_accept_encoding a of None \<Rightarrow> False | Some s \<Rightarrow> accepts_gzip True s)"
  proof -
    have r: "rel_option (cstr_at m) (rq_accept_encoding req) (ar_accept_encoding a)" using rel by (simp add: header_rel_def)
    with acc show ?thesis
      by (cases "rq_accept_encoding req"; cases "ar_accept_encoding a") (auto simp: gzip_loop_cstr)
  qed
  have te: "opt_eq_lit m (rq_transfer_encoding req) ''chunked'' = Some (ar_chunked a)"
    unfolding ar_chunked_def by (rule opt_eq_lit_rel) (use rel in \<open>auto simp: header_rel_def\<close>)
  have ex: "opt_eq_lit m ex ''100-continue'' = Some (opt_same (ar_expect a) ''100-continue'')"
    by (rule opt_eq_lit_rel) (use rel in \<open>auto simp: header_rel_def\<close>)
  note meth = eq_lit_cstr [OF p(2), of "''HEAD''"] eq_lit_cstr [OF p(2), of "''GET''"] eq_lit_cstr [OF p(2), of "''POST''"]
  note fields = rel [unfolded header_rel_def prod.case]
  show ?thesis
  proof (cases "ar_host a = None \<or> ar_host a = Some []")
    case True
    then show ?thesis using host by (simp add: finish_request_def)
  next
    case False
    define req' where "req' = req\<lparr>rq_headers := hm, rq_path_info := None,
      rq_accept_gzip_encoding := (case ar_accept_encoding a of None \<Rightarrow> False | Some s \<Rightarrow> accepts_gzip True s),
      rq_chunked_encoding := ar_chunked a, rq_content_length := ar_length a,
      rq_expect_100_continue := (ar_length a \<noteq> 0 \<and> opt_same (ar_expect a) ''100-continue''),
      rq_head_method := same_nocase (ar_method a) ''HEAD'',
      rq_method := (if same_nocase (ar_method a) ''HEAD'' then Some (Lit ''GET'') else Some (Ptr p)),
      rq_get_method := same_nocase (ar_method a) ''HEAD'' \<or> same_nocase (ar_method a) ''GET'',
      rq_post_method := same_nocase (ar_method a) ''POST'',
      rq_other_method := \<not> (same_nocase (ar_method a) ''HEAD'' \<or> same_nocase (ar_method a) ''GET'') \<and> \<not> same_nocase (ar_method a) ''POST''\<rparr>"
    have "finish_request m (req, hm, ex) = Some (0, m, req')"
      using host False gzip te ex meth p(1) fields head_not_post [of "ar_method a"]
      by (simp add: finish_request_def req'_def ar_length_def)
    moreover have "request_flags req' a" using fields by (simp add: request_flags_def req'_def)
    moreover have "request_strings m req' a" using fields p by (simp add: request_strings_def req'_def)
    ultimately show ?thesis using False by (simp only: if_False) blast
  qed
qed

section \<open>The request line\<close>

definition request_line_ok :: "string \<Rightarrow> string \<Rightarrow> string \<Rightarrow> string \<Rightarrow> bool" where
  "request_line_ok meth uri ver w \<longleftrightarrow>
     token meth \<and> token uri \<and> hd uri = CHR ''/'' \<and> token ver
     \<and> (w = [] \<or> le_sp (hd w)) \<and> NUL \<notin> set w \<and> LF \<notin> set w"

definition request_line :: "string \<Rightarrow> string \<Rightarrow> string \<Rightarrow> string \<Rightarrow> string" where
  "request_line meth uri ver w = meth @ SP # uri @ SP # ver @ w"

definition areq_init :: "string \<Rightarrow> string \<Rightarrow> string \<Rightarrow> areq" where
  "areq_init meth uri ver =
     \<lparr>ar_method = meth, ar_uri = uri, ar_version = ver, ar_host = None, ar_cookie = None,
      ar_user_agent = None, ar_content_type = None, ar_transfer_encoding = None, ar_accept_encoding = None,
      ar_range = None, ar_expect = None, ar_content_length = 0, ar_if_modified_since = 0,
      ar_keep_alive = (\<not> same_nocase ver ''HTTP/1.0''),
      ar_http11 = (\<not> same_nocase ver ''HTTP/1.0''), ar_headers = []\<rparr>"

text \<open>The line in memory after the tokens have been cut\<close>

definition cut_line :: "string \<Rightarrow> string \<Rightarrow> string \<Rightarrow> string \<Rightarrow> string" where
  "cut_line meth uri ver w = meth @ NUL # uri @ NUL # ver @ NUL # tl (w @ [NUL])"

lemma cut_line_length: "length (cut_line meth uri ver w) = length (request_line meth uri ver w) + 1"
  by (cases w) (simp_all add: cut_line_def request_line_def)

lemma parse_request_line_refines:
  assumes "request_line_ok meth uri ver w"
  obtains req where
    "parse_request_line (X @ request_line meth uri ver w @ NUL # R) (length X) (length X + length (request_line meth uri ver w))
       request_zero = Some (Inr (X @ cut_line meth uri ver w @ R, req))"
    "header_rel (X @ cut_line meth uri ver w) (req, [], None) (areq_init meth uri ver)"
proof -
  have tok: "token meth" "token uri" "token ver" and sl: "hd uri = CHR ''/''" using assms by (auto simp: request_line_ok_def)
  obtain d W where dW: "w @ NUL # R = d # W" "le_sp d" "W = tl (w @ [NUL]) @ R" if True
    using assms by (cases w) (auto simp: request_line_ok_def)
  let ?p1 = "length X + length meth + 1" let ?p2 = "?p1 + length uri + 1"
  let ?m3 = "X @ cut_line meth uri ver w @ R"
  have m3: "?m3 = X @ meth @ NUL # uri @ NUL # ver @ NUL # W" using dW(3) by (cases w) (simp_all add: cut_line_def)
  have line: "X @ request_line meth uri ver w @ NUL # R = X @ meth @ SP # uri @ SP # ver @ d # W"
    using dW(1) by (simp add: request_line_def)
  have len: "length (request_line meth uri ver w) = length meth + (length uri + (length ver + (length w + 2)))"
    by (simp add: request_line_def)
  note cuts = cut_token_split [OF tok(1), of SP X "uri @ SP # ver @ d # W"]
    cut_token_split [OF tok(2), of SP "X @ meth @ [NUL]" "ver @ d # W"]
    cut_token_split [OF tok(3) dW(2), of "X @ meth @ NUL # uri @ [NUL]" W]
  note blanks = skip_blanks_token [OF tok(2), of "X @ meth @ [NUL]"] skip_blanks_token [OF tok(3), of "X @ meth @ NUL # uri @ [NUL]"]
  have ver: "eq_lit ?m3 ?p2 ''HTTP/1.0'' = Some (same_nocase ver ''HTTP/1.0'')"
    using eq_lit_split [OF tokenD(1) [OF tok(3)], of "''HTTP/1.0''" "X @ meth @ NUL # uri @ [NUL]" W] unfolding m3 by (simp add: add.assoc)
  obtain u where u: "uri = CHR ''/'' # u" using tok(2) sl by (cases uri) (auto simp: token_def)
  have slash: "rd ?m3 ?p1 = Some (CHR ''/'')" and rel: "has_prefix (drop ?p1 ?m3) ''http://'' = Some False"
    using rd_split [of "X @ meth @ [NUL]" "CHR ''/''" "u @ NUL # ver @ NUL # W"] unfolding m3 by (simp_all add: u add.assoc)
  define req where "req = request_zero\<lparr>rq_method := Some (Ptr (length X)), rq_uri := Some ?p1, rq_http_version := Some ?p2,
     rq_http11 := \<not> same_nocase ver ''HTTP/1.0'', rq_keep_alive := \<not> same_nocase ver ''HTTP/1.0''\<rparr>"
  show thesis
  proof (rule that [of req])
    show "parse_request_line (X @ request_line meth uri ver w @ NUL # R) (length X) (length X + length (request_line meth uri ver w))
       request_zero = Some (Inr (?m3, req))"
      using cuts blanks ver slash rel tok(2,3) unfolding m3 line
      by (simp add: parse_request_line_def req_def add.assoc len token_def)
    have at: "cstr_at (X @ cut_line meth uri ver w) (length X) meth" "cstr_at (X @ cut_line meth uri ver w) ?p1 uri"
      "cstr_at (X @ cut_line meth uri ver w) ?p2 ver"
      using cstr_atI [OF tokenD(1) [OF tok(1)], of "length X" X "uri @ NUL # ver @ NUL # tl (w @ [NUL])"]
        cstr_atI [OF tokenD(1) [OF tok(2)], of ?p1 "X @ meth @ [NUL]" "ver @ NUL # tl (w @ [NUL])"]
        cstr_atI [OF tokenD(1) [OF tok(3)], of ?p2 "X @ meth @ NUL # uri @ [NUL]" "tl (w @ [NUL])"]
      by (simp_all add: cut_line_def add.assoc)
    then show "header_rel (X @ cut_line meth uri ver w) (req, [], None) (areq_init meth uri ver)"
      by (simp add: header_rel_def req_def areq_init_def request_zero_def)
  qed
qed


section \<open>The parser implements the specification\<close>

definition parse_outcome :: "(int \<times> mem \<times> nxweb_http_request) option \<Rightarrow> areq option \<Rightarrow> bool" where
  "parse_outcome r spec \<longleftrightarrow>
     (case spec of None \<Rightarrow> \<exists>m req. r = Some (-2, m, req)
      | Some a \<Rightarrow>
          if ar_host a = None \<or> ar_host a = Some [] then \<exists>m req. r = Some (-1, m, req)
          else \<exists>m req. r = Some (0, m, req) \<and> request_flags req a \<and> request_strings m req a)"

lemma request_head_start:
  assumes "request_line_ok meth uri ver w" "NUL \<notin> set (lines_text Ls)"
  obtains req where
    "header_rel (X @ cut_line meth uri ver w) (req, [], None) (areq_init meth uri ver)"
    "nxweb_parse_http_request (X @ request_line meth uri ver w @ LF # lines_text Ls @ e # Y) request_zero (length X)
       (Some (length X + length (request_line meth uri ver w) + 1 + length (lines_text Ls)))
     = do { r \<leftarrow> parse_headers_loop store_header ((X @ cut_line meth uri ver w) @ lines_text Ls @ NUL # Y)
                 (length (X @ cut_line meth uri ver w))
                 (length (X @ cut_line meth uri ver w) + length (lines_text Ls)) None (req, [], None);
            case r of Inl (m, req, _) \<Rightarrow> Some (-2, m, req)
            | Inr (m, st) \<Rightarrow> finish_request m st }"
proof -
  let ?L = "request_line meth uri ver w"
  have clean: "NUL \<notin> set ?L" "LF \<notin> set ?L"
    using assms(1) by (auto simp: request_line_def request_line_ok_def dest: tokenD)
  obtain req where req: "parse_request_line (X @ ?L @ NUL # lines_text Ls @ NUL # Y) (length X) (length X + length ?L) request_zero
      = Some (Inr (X @ cut_line meth uri ver w @ lines_text Ls @ NUL # Y, req))"
    "header_rel (X @ cut_line meth uri ver w) (req, [], None) (areq_init meth uri ver)"
    using parse_request_line_refines [OF assms(1), of X "lines_text Ls @ NUL # Y"] by blast
  have zero: "request_zero\<lparr>rq_content_length := 0\<rparr> = request_zero" by (simp add: request_zero_def)
  have "nxweb_parse_http_request (X @ ?L @ LF # lines_text Ls @ e # Y) request_zero (length X)
       (Some (length X + length ?L + 1 + length (lines_text Ls)))
     = do { r \<leftarrow> parse_headers_loop store_header (X @ cut_line meth uri ver w @ lines_text Ls @ NUL # Y)
                 (length X + length ?L + 1)
                 (length X + length ?L + 1 + length (lines_text Ls)) None (req, [], None);
            case r of Inl (m, req, _) \<Rightarrow> Some (-2, m, req)
            | Inr (m, st) \<Rightarrow> finish_request m st }"
    using req(1) zero wr_split [of "X @ ?L @ LF # lines_text Ls" e Y NUL] c_strchr_found [OF _ clean(2), of X "lines_text Ls @ NUL # Y"] clean(1)
      wr_split [of "X @ ?L" LF "lines_text Ls @ NUL # Y" NUL]
    by (simp add: nxweb_parse_http_request_def add.assoc cong: sum.case_cong)
  then show thesis
    by (intro that [OF req(2)]) (simp add: cut_line_length add.assoc)
qed

text \<open>
  C1: Parsing a request head implements the specification on strings.  For a request line of a
  method, a path and a version, and header lines that are well formed, the parser refuses the
  request with code -2 exactly when there is a trailer header, with code -1 exactly when the host is
  missing or empty, and otherwise returns 0 with every field and flag of the request (method, URI,
  version, host, lengths, chunked and gzip flags, keep-alive, expectations, other headers) as
  specified, whatever bytes stand before and behind the head.
\<close>

theorem parse_http_request_refines:
  assumes "request_line_ok meth uri ver w" "Ls \<noteq> []" "\<forall>L \<in> set Ls. line_ok request_value_ok L"
  shows "parse_outcome
    (nxweb_parse_http_request (X @ request_line meth uri ver w @ LF # lines_text Ls @ e # Y) request_zero (length X)
      (Some (length X + length (request_line meth uri ver w) + 1 + length (lines_text Ls))))
    (spec_lines spec_header Ls (areq_init meth uri ver))"
proof -
  have "NUL \<notin> set (lines_text Ls)" using assms(3) by (induction Ls rule: lines_text.induct) (auto simp: line_ok_def)
  then obtain req where req: "header_rel (X @ cut_line meth uri ver w) (req, [], None) (areq_init meth uri ver)"
    and run: "nxweb_parse_http_request (X @ request_line meth uri ver w @ LF # lines_text Ls @ e # Y) request_zero (length X)
       (Some (length X + length (request_line meth uri ver w) + 1 + length (lines_text Ls)))
     = do { r \<leftarrow> parse_headers_loop store_header ((X @ cut_line meth uri ver w) @ lines_text Ls @ NUL # Y)
                 (length (X @ cut_line meth uri ver w))
                 (length (X @ cut_line meth uri ver w) + length (lines_text Ls)) None (req, [], None);
            case r of Inl (m, req, _) \<Rightarrow> Some (-2, m, req)
            | Inr (m, st) \<Rightarrow> finish_request m st }"
    using request_head_start [OF assms(1)] by blast
  note loop = request_headers.parse_headers_loop_refines [OF assms(2,3) req, of Y None]
  show ?thesis
  proof (cases "spec_lines spec_header Ls (areq_init meth uri ver)")
    case None
    then obtain m rq hm ex where "parse_headers_loop store_header ((X @ cut_line meth uri ver w) @ lines_text Ls @ NUL # Y)
        (length (X @ cut_line meth uri ver w)) (length (X @ cut_line meth uri ver w) + length (lines_text Ls)) None (req, [], None)
        = Some (Inl (m, rq, hm, ex))"
      using loop by (auto simp del: split_paired_Ex)
    then show ?thesis unfolding run None by (simp add: parse_outcome_def)
  next
    case (Some a)
    obtain A' st' where st': "header_rel A' st' a" and out: "parse_headers_loop store_header ((X @ cut_line meth uri ver w) @ lines_text Ls @ NUL # Y)
        (length (X @ cut_line meth uri ver w)) (length (X @ cut_line meth uri ver w) + length (lines_text Ls)) None (req, [], None)
        = Some (Inr (A' @ Y, st'))"
      using loop unfolding Some option.case by blast
    obtain rq hm ex where split: "st' = (rq, hm, ex)" by (cases st')
    have "ar_accept_encoding a \<noteq> Some []" using spec_lines_accept [OF assms(3) Some] by (simp add: areq_init_def)
    note fin = finish_request_refines [OF header_rel_append [OF st' [unfolded split]] this, of Y]
    show ?thesis
    proof (cases "ar_host a = None \<or> ar_host a = Some []")
      case True
      with fin show ?thesis unfolding run out Some split parse_outcome_def by auto
    next
      case False
      with fin show ?thesis unfolding run out Some split parse_outcome_def by (simp only: if_False) auto
    qed
  qed
qed

lemma line_ok_plain:
  "NUL \<notin> set L \<Longrightarrow> LF \<notin> set L \<Longrightarrow> \<not> le_sp (hd L) \<Longrightarrow> header_id (header_name_of L) \<noteq> NXWEB_HTTP_IF_MODIFIED_SINCE
   \<Longrightarrow> (header_id (header_name_of L) = NXWEB_HTTP_ACCEPT_ENCODING \<Longrightarrow> header_value_of L \<noteq> []) \<Longrightarrow> line_ok request_value_ok L"
  by (simp add: line_ok_def request_value_ok_def)

theorem parse_http_request_refines_witness:
  "(\<exists>a. spec_lines spec_header [''Host: Example.com'', ''accept-encoding: deflate, gzip''] (areq_init ''HEAD'' ''/a?b'' ''HTTP/1.1'') = Some a
      \<and> ar_host a = Some ''example.com'' \<and> ar_keep_alive a)
   \<and> parse_outcome
    (nxweb_parse_http_request ([] @ request_line ''HEAD'' ''/a?b'' ''HTTP/1.1'' [] @ LF # lines_text [''Host: Example.com'', ''accept-encoding: deflate, gzip''] @ LF # [])
      request_zero (length ([] :: string))
      (Some (length ([] :: string) + length (request_line ''HEAD'' ''/a?b'' ''HTTP/1.1'' []) + 1 + length (lines_text [''Host: Example.com'', ''accept-encoding: deflate, gzip'']))))
    (spec_lines spec_header [''Host: Example.com'', ''accept-encoding: deflate, gzip''] (areq_init ''HEAD'' ''/a?b'' ''HTTP/1.1''))"
proof -
  have line: "request_line_ok ''HEAD'' ''/a?b'' ''HTTP/1.1'' []" by code_simp
  have lines: "\<forall>L \<in> set [''Host: Example.com'', ''accept-encoding: deflate, gzip'']. line_ok request_value_ok L"
    by (simp only: list.set ball_simps insert_iff simp_thms) (intro conjI line_ok_plain; code_simp)
  have "map_option (\<lambda>a. (ar_host a, ar_keep_alive a)) (spec_lines spec_header [''Host: Example.com'', ''accept-encoding: deflate, gzip''] (areq_init ''HEAD'' ''/a?b'' ''HTTP/1.1''))
      = Some (Some ''example.com'', True)" by code_simp
  with parse_http_request_refines [OF line _ lines, of "[]" LF "[]"] show ?thesis by auto
qed

text \<open>
  An empty \<^verbatim>\<open>Accept-Encoding\<close> makes the search for \<^verbatim>\<open>gzip\<close> start one byte behind the terminator:
  with the string at the end of its buffer the read is out of bounds, and in front of other bytes
  a \<^verbatim>\<open>gzip\<close> that belongs to some later string is taken for the client's.
\<close>

theorem empty_accept_encoding_overread:
  "gzip_loop (A @ [NUL]) (length A) (length A) = None \<and>
   gzip_loop (NUL # SP # ''gzip'' @ [NUL]) 0 0 = Some True"
proof
  have "gzip_here (A @ [NUL]) (length A) (length A) = Some False" by (simp add: gzip_here_def)
  moreover have "c_strchr (A @ [NUL]) (length A + 1) (CHR ''g'') = None" by (subst c_strchr.simps) (simp add: rd_def)
  ultimately show "gzip_loop (A @ [NUL]) (length A) (length A) = None"
    by (subst gzip_loop.simps) simp
  show "gzip_loop (NUL # SP # ''gzip'' @ [NUL]) 0 0 = Some True" by code_simp
qed

end
