(* ===== verification/Nx_Queue.thy ===== *)
theory Nx_Queue
  imports Nx_Prelude
begin

text \<open>
  The bounded ring queue of \<^verbatim>\<open>include/nxweb/nx_queue_tpl.h\<close>, used between a network thread
  and the worker or accept threads: a sequential model with its FIFO contract as a locale, and
  the concurrent one, in which one producer and one consumer interleave between the full
  memory barriers of \<^verbatim>\<open>push\<close> and \<^verbatim>\<open>pop\<close>.
\<close>

section \<open>The operations\<close>

record 'a nx_queue =
  q_head :: nat
  q_tail :: nat
  q_items :: "'a list"

abbreviation max_items :: "'a nx_queue \<Rightarrow> nat" where
  "max_items q \<equiv> length (q_items q)"

definition nx_queue_init :: "'a list \<Rightarrow> 'a nx_queue" where
  "nx_queue_init items = \<lparr>q_head = 0, q_tail = 0, q_items = items\<rparr>"

definition nx_queue_is_empty :: "'a nx_queue \<Rightarrow> bool" where
  "nx_queue_is_empty q \<longleftrightarrow> q_head q = q_tail q"

definition nx_queue_is_full :: "'a nx_queue \<Rightarrow> bool" where
  "nx_queue_is_full q \<longleftrightarrow> q_head q = (q_tail q + 1) mod max_items q"

definition nx_queue_length :: "'a nx_queue \<Rightarrow> int" where
  "nx_queue_length q =
     (let nitems = int (q_tail q) - int (q_head q) in
      if nitems \<ge> 0 then nitems else nitems + int (max_items q))"

text \<open>\<open>None\<close> is the return value -1 of an empty or full queue.\<close>

definition nx_queue_pop :: "'a nx_queue \<Rightarrow> ('a \<times> 'a nx_queue) option" where
  "nx_queue_pop q =
     (if nx_queue_is_empty q then None
      else Some (q_items q ! q_head q, q\<lparr>q_head := (q_head q + 1) mod max_items q\<rparr>))"

definition nx_queue_push :: "'a nx_queue \<Rightarrow> 'a \<Rightarrow> 'a nx_queue option" where
  "nx_queue_push q item =
     (if nx_queue_is_full q then None
      else Some (q\<lparr>q_items := (q_items q)[q_tail q := item], q_tail := (q_tail q + 1) mod max_items q\<rparr>))"

section \<open>Contents\<close>

definition q_ok :: "'a nx_queue \<Rightarrow> bool" where
  "q_ok q \<longleftrightarrow> q_head q < max_items q \<and> q_tail q < max_items q"

definition q_count :: "'a nx_queue \<Rightarrow> nat" where
  "q_count q = (if q_head q \<le> q_tail q then q_tail q - q_head q else q_tail q + max_items q - q_head q)"

definition q_content :: "'a nx_queue \<Rightarrow> 'a list" where
  "q_content q = map (\<lambda>i. q_items q ! ((q_head q + i) mod max_items q)) [0..<q_count q]"

lemma length_q_content [simp]: "length (q_content q) = q_count q"
  by (simp add: q_content_def)

lemma q_count_less: "q_ok q \<Longrightarrow> q_count q < max_items q"
  by (auto simp: q_ok_def q_count_def)

lemma nx_queue_length_count: "q_ok q \<Longrightarrow> nx_queue_length q = int (q_count q)"
  by (auto simp: nx_queue_length_def q_count_def q_ok_def Let_def)

lemma Suc_mod_if: "i < n \<Longrightarrow> Suc i mod n = (if Suc i = n then 0 else Suc i)"
  by auto

lemma q_empty_iff: "q_ok q \<Longrightarrow> nx_queue_is_empty q \<longleftrightarrow> q_content q = []"
  by (auto simp: nx_queue_is_empty_def q_content_def q_count_def q_ok_def)

lemma q_full_iff: "q_ok q \<Longrightarrow> nx_queue_is_full q \<longleftrightarrow> q_count q = max_items q - 1"
  by (auto simp: nx_queue_is_full_def q_count_def q_ok_def Suc_mod_if split: if_splits)

lemma q_end_index: "q_ok q \<Longrightarrow> (q_head q + q_count q) mod max_items q = q_tail q"
  by (auto simp: q_count_def q_ok_def)

text \<open>Storing at the tail does not touch what the queue holds.\<close>

lemma q_index_not_tail:
  assumes "q_ok q" "i < q_count q"
  shows "(q_head q + i) mod max_items q \<noteq> q_tail q"
proof (cases "q_head q \<le> q_tail q")
  case True
  with assms have "q_head q + i < q_tail q" "q_tail q < max_items q"
    by (auto simp: q_ok_def q_count_def)
  then show ?thesis by simp
next
  case False
  with assms have i: "i < q_tail q + max_items q - q_head q" by (simp add: q_count_def)
  show ?thesis
  proof (cases "q_head q + i < max_items q")
    case True
    with False show ?thesis by simp
  next
    case nf: False
    with i have "(q_head q + i) mod max_items q = q_head q + i - max_items q"
      using assms(1) False unfolding q_ok_def by (subst le_mod_geq) (auto intro!: mod_less)
    with i nf False show ?thesis by linarith
  qed
qed

lemma q_content_store:
  "q_ok q \<Longrightarrow> q_content (q\<lparr>q_items := (q_items q)[q_tail q := x]\<rparr>) = q_content q"
proof -
  assume ok: "q_ok q"
  have "q_count (q\<lparr>q_items := (q_items q)[q_tail q := x]\<rparr>) = q_count q" by (simp add: q_count_def)
  moreover have "(q_items q)[q_tail q := x] ! ((q_head q + i) mod max_items q) = q_items q ! ((q_head q + i) mod max_items q)"
    if "i < q_count q" for i using q_index_not_tail [OF ok that] by simp
  ultimately show ?thesis by (simp add: q_content_def)
qed

lemma q_content_publish:
  assumes ok: "q_ok q" and nf: "\<not> nx_queue_is_full q"
  shows "q_content (q\<lparr>q_tail := (q_tail q + 1) mod max_items q\<rparr>) = q_content q @ [q_items q ! q_tail q]"
    "q_ok (q\<lparr>q_tail := (q_tail q + 1) mod max_items q\<rparr>)"
proof -
  have "q_count (q\<lparr>q_tail := (q_tail q + 1) mod max_items q\<rparr>) = Suc (q_count q)"
    using ok nf by (auto simp: q_count_def q_ok_def nx_queue_is_full_def Suc_mod_if)
  then show "q_content (q\<lparr>q_tail := (q_tail q + 1) mod max_items q\<rparr>) = q_content q @ [q_items q ! q_tail q]"
    using q_end_index [OF ok] by (simp add: q_content_def)
  show "q_ok (q\<lparr>q_tail := (q_tail q + 1) mod max_items q\<rparr>)"
    using ok by (auto simp: q_ok_def intro!: mod_less_divisor)
qed

lemma q_content_advance:
  assumes ok: "q_ok q" and ne: "\<not> nx_queue_is_empty q"
  shows "q_content q = q_items q ! q_head q # q_content (q\<lparr>q_head := (q_head q + 1) mod max_items q\<rparr>)"
    "q_ok (q\<lparr>q_head := (q_head q + 1) mod max_items q\<rparr>)"
proof -
  let ?q = "q\<lparr>q_head := (q_head q + 1) mod max_items q\<rparr>"
  have c: "q_count q = Suc (q_count ?q)"
    using ok ne by (auto simp: q_count_def q_ok_def nx_queue_is_empty_def Suc_mod_if)
  have "((q_head q + 1) mod max_items q + i) mod max_items q = (q_head q + Suc i) mod max_items q" for i
    by (simp add: mod_simps)
  then show "q_content q = q_items q ! q_head q # q_content ?q"
    using ok unfolding q_content_def c upt_conv_Cons [OF zero_less_Suc]
    by (simp add: q_ok_def map_Suc_upt [symmetric] comp_def del: upt_Suc)
  show "q_ok ?q" using ok by (auto simp: q_ok_def intro!: mod_less_divisor)
qed

section \<open>The FIFO contract\<close>

text \<open>A run of pushes and pops: the items taken in, those given out, and the final queue.\<close>

datatype 'a qop = Push 'a | Pop

fun fifo_run :: "('q \<Rightarrow> 'a \<Rightarrow> 'q option) \<Rightarrow> ('q \<Rightarrow> ('a \<times> 'q) option) \<Rightarrow> 'a qop list \<Rightarrow> 'q
    \<Rightarrow> 'a list \<times> 'a list \<times> 'q" where
  "fifo_run push pop [] q = ([], [], q)"
| "fifo_run push pop (Push x # ops) q =
     (case push q x of
        None \<Rightarrow> fifo_run push pop ops q
      | Some q' \<Rightarrow> (case fifo_run push pop ops q' of (ins, outs, r) \<Rightarrow> (x # ins, outs, r)))"
| "fifo_run push pop (Pop # ops) q =
     (case pop q of
        None \<Rightarrow> fifo_run push pop ops q
      | Some (x, q') \<Rightarrow> (case fifo_run push pop ops q' of (ins, outs, r) \<Rightarrow> (ins, x # outs, r)))"

locale bounded_fifo =
  fixes push :: "'q \<Rightarrow> 'a \<Rightarrow> 'q option"
    and pop :: "'q \<Rightarrow> ('a \<times> 'q) option"
    and content :: "'q \<Rightarrow> 'a list"
    and invar :: "'q \<Rightarrow> bool"
    and cap :: "'q \<Rightarrow> nat"
  assumes push_None: "invar q \<Longrightarrow> push q x = None \<longleftrightarrow> length (content q) = cap q"
    and push_Some: "invar q \<Longrightarrow> push q x = Some q' \<Longrightarrow> content q' = content q @ [x] \<and> invar q' \<and> cap q' = cap q"
    and pop_None: "invar q \<Longrightarrow> pop q = None \<longleftrightarrow> content q = []"
    and pop_Some: "invar q \<Longrightarrow> pop q = Some (x, q') \<Longrightarrow> content q = x # content q' \<and> invar q' \<and> cap q' = cap q"
    and bounded: "invar q \<Longrightarrow> length (content q) \<le> cap q"
begin

lemma run_order:
  "invar q \<Longrightarrow> fifo_run push pop ops q = (ins, outs, r) \<Longrightarrow>
     content q @ ins = outs @ content r \<and> invar r \<and> cap r = cap q"
proof (induction ops arbitrary: q ins outs r)
  case Nil
  then show ?case by simp
next
  case (Cons p ops)
  show ?case
  proof (cases p)
    case (Push x)
    show ?thesis
    proof (cases "push q x")
      case None
      with Cons Push show ?thesis by simp
    next
      case (Some q')
      with Cons.prems Push obtain ins' where r: "fifo_run push pop ops q' = (ins', outs, r)" "ins = x # ins'"
        by (auto split: prod.splits)
      from push_Some [OF Cons.prems(1) Some] have q': "content q' = content q @ [x]" "invar q'" "cap q' = cap q"
        by auto
      from Cons.IH [OF q'(2) r(1)] q' r(2) show ?thesis by simp
    qed
  next
    case Pop
    show ?thesis
    proof (cases "pop q")
      case None
      with Cons Pop show ?thesis by simp
    next
      case (Some xq)
      then obtain x q' where x: "pop q = Some (x, q')" by (cases xq) auto
      with Cons.prems Pop obtain outs' where r: "fifo_run push pop ops q' = (ins, outs', r)" "outs = x # outs'"
        by (auto split: prod.splits)
      from pop_Some [OF Cons.prems(1) x] have q': "content q = x # content q'" "invar q'" "cap q' = cap q" by auto
      from Cons.IH [OF q'(2) r(1)] q' r(2) show ?thesis by simp
    qed
  qed
qed

end

interpretation ring: bounded_fifo nx_queue_push nx_queue_pop q_content q_ok "\<lambda>q. max_items q - 1"
proof unfold_locales
  fix q :: "'a nx_queue" and q' x
  assume ok: "q_ok q"
  show "nx_queue_push q x = None \<longleftrightarrow> length (q_content q) = max_items q - 1"
    using ok by (simp add: nx_queue_push_def q_full_iff)
  show "nx_queue_pop q = None \<longleftrightarrow> q_content q = []"
    using ok by (simp add: nx_queue_pop_def q_empty_iff)
  show "length (q_content q) \<le> max_items q - 1"
    using q_count_less [OF ok] by simp
  show "q_content q' = q_content q @ [x] \<and> q_ok q' \<and> max_items q' - 1 = max_items q - 1"
    if p: "nx_queue_push q x = Some q'"
  proof -
    define s where "s = q\<lparr>q_items := (q_items q)[q_tail q := x]\<rparr>"
    have nf: "\<not> nx_queue_is_full s" and oks: "q_ok s"
      using p ok by (auto simp: nx_queue_push_def s_def nx_queue_is_full_def q_ok_def split: if_splits)
    have q': "q' = s\<lparr>q_tail := (q_tail s + 1) mod max_items s\<rparr>"
      using p by (simp add: nx_queue_push_def s_def split: if_splits)
    have "q_content s = q_content q" "q_items s ! q_tail s = x"
      using q_content_store [OF ok] ok by (simp_all add: s_def q_ok_def)
    with q_content_publish [OF oks nf] show ?thesis by (simp add: q') (simp add: s_def)
  qed
  show "q_content q = x # q_content q' \<and> q_ok q' \<and> max_items q' - 1 = max_items q - 1"
    if p: "nx_queue_pop q = Some (x, q')"
  proof -
    have ne: "\<not> nx_queue_is_empty q" and q': "x = q_items q ! q_head q"
      "q' = q\<lparr>q_head := (q_head q + 1) mod max_items q\<rparr>"
      using p by (auto simp: nx_queue_pop_def split: if_splits)
    with q_content_advance [OF ok ne] show ?thesis by simp
  qed
qed

text \<open>
  Over any sequence of pushes and pops on a well-formed queue, what was in the queue
  followed by the accepted items is exactly what was popped followed by what is left: items
  leave in the order they came, none lost, none duplicated, and never more than
  \<^verbatim>\<open>max_items - 1\<close> wait.
\<close>

theorem nx_queue_fifo:
  assumes "q_ok q" "fifo_run nx_queue_push nx_queue_pop ops q = (ins, outs, r)"
  shows "q_content q @ ins = outs @ q_content r \<and> q_ok r \<and> length (q_content r) \<le> max_items q - 1"
  using ring.run_order [OF assms] ring.bounded [of r] by auto

section \<open>One producer, one consumer\<close>

text \<open>
  The barriers of \<^verbatim>\<open>push\<close> and \<^verbatim>\<open>pop\<close> cut each into three steps: the test, the access to the
  slot, the update of the index.  The two threads may interleave anywhere between them.  The
  state also records the history: the items whose push has returned 0 and those popped.
\<close>

datatype 'a producer = PIdle | PChecked 'a | PStored 'a
datatype 'a consumer = CIdle | CChecked | CRead 'a

record 'a qsys =
  qs_queue :: "'a nx_queue"
  qs_prod :: "'a producer"
  qs_cons :: "'a consumer"
  qs_pushed :: "'a list"
  qs_popped :: "'a list"

inductive qsys_step :: "'a qsys \<Rightarrow> 'a qsys \<Rightarrow> bool" where
  push_test: "qs_prod s = PIdle \<Longrightarrow> \<not> nx_queue_is_full (qs_queue s) \<Longrightarrow> qsys_step s (s\<lparr>qs_prod := PChecked x\<rparr>)"
| push_full: "qs_prod s = PIdle \<Longrightarrow> nx_queue_is_full (qs_queue s) \<Longrightarrow> qsys_step s s"
| push_store: "qs_prod s = PChecked x \<Longrightarrow> q = qs_queue s \<Longrightarrow>
    qsys_step s (s\<lparr>qs_queue := q\<lparr>q_items := (q_items q)[q_tail q := x]\<rparr>, qs_prod := PStored x\<rparr>)"
| push_publish: "qs_prod s = PStored x \<Longrightarrow> q = qs_queue s \<Longrightarrow>
    qsys_step s (s\<lparr>qs_queue := q\<lparr>q_tail := (q_tail q + 1) mod max_items q\<rparr>, qs_prod := PIdle,
                    qs_pushed := qs_pushed s @ [x]\<rparr>)"
| pop_test: "qs_cons s = CIdle \<Longrightarrow> \<not> nx_queue_is_empty (qs_queue s) \<Longrightarrow> qsys_step s (s\<lparr>qs_cons := CChecked\<rparr>)"
| pop_empty: "qs_cons s = CIdle \<Longrightarrow> nx_queue_is_empty (qs_queue s) \<Longrightarrow> qsys_step s s"
| pop_read: "qs_cons s = CChecked \<Longrightarrow> q = qs_queue s \<Longrightarrow>
    qsys_step s (s\<lparr>qs_cons := CRead (q_items q ! q_head q)\<rparr>)"
| pop_advance: "qs_cons s = CRead x \<Longrightarrow> q = qs_queue s \<Longrightarrow>
    qsys_step s (s\<lparr>qs_queue := q\<lparr>q_head := (q_head q + 1) mod max_items q\<rparr>, qs_cons := CIdle,
                    qs_popped := qs_popped s @ [x]\<rparr>)"

definition qsys_init :: "'a list \<Rightarrow> 'a qsys" where
  "qsys_init items = \<lparr>qs_queue = nx_queue_init items, qs_prod = PIdle, qs_cons = CIdle, qs_pushed = [], qs_popped = []\<rparr>"

inductive qsys_reachable :: "'a list \<Rightarrow> 'a qsys \<Rightarrow> bool" for items where
  start: "qsys_reachable items (qsys_init items)"
| step: "qsys_reachable items s \<Longrightarrow> qsys_step s t \<Longrightarrow> qsys_reachable items t"

text \<open>
  What the threads rely on: a producer that has tested still finds room (only it adds), its
  stored item is the one in the tail slot; a consumer that has tested still finds an item, and
  what it read is the oldest one.
\<close>

fun prod_ok :: "'a nx_queue \<Rightarrow> 'a producer \<Rightarrow> bool" where
  "prod_ok q PIdle = True"
| "prod_ok q (PChecked x) = (\<not> nx_queue_is_full q)"
| "prod_ok q (PStored x) = (\<not> nx_queue_is_full q \<and> q_items q ! q_tail q = x)"

fun cons_ok :: "'a nx_queue \<Rightarrow> 'a consumer \<Rightarrow> bool" where
  "cons_ok q CIdle = True"
| "cons_ok q CChecked = (\<not> nx_queue_is_empty q)"
| "cons_ok q (CRead x) = (\<not> nx_queue_is_empty q \<and> q_items q ! q_head q = x)"

definition qsys_inv :: "nat \<Rightarrow> 'a qsys \<Rightarrow> bool" where
  "qsys_inv n s \<longleftrightarrow>
     q_ok (qs_queue s) \<and> max_items (qs_queue s) = n
     \<and> qs_pushed s = qs_popped s @ q_content (qs_queue s)
     \<and> prod_ok (qs_queue s) (qs_prod s) \<and> cons_ok (qs_queue s) (qs_cons s)"

lemma cons_ok_store:
  assumes "q_ok q" "cons_ok q c"
  shows "cons_ok (q\<lparr>q_items := (q_items q)[q_tail q := x]\<rparr>) c"
  using assms by (cases c) (auto simp: nx_queue_is_empty_def)

lemma cons_ok_publish:
  assumes "q_ok q" "\<not> nx_queue_is_full q" "cons_ok q c"
  shows "cons_ok (q\<lparr>q_tail := (q_tail q + 1) mod max_items q\<rparr>) c"
  using assms by (cases c) (auto simp: nx_queue_is_empty_def nx_queue_is_full_def)

lemma not_full_advance:
  assumes "q_ok q" "\<not> nx_queue_is_empty q"
  shows "\<not> nx_queue_is_full (q\<lparr>q_head := (q_head q + 1) mod max_items q\<rparr>)"
  using assms by (auto simp: nx_queue_is_full_def nx_queue_is_empty_def q_ok_def Suc_mod_if split: if_splits)

lemma prod_ok_advance:
  assumes "q_ok q" "\<not> nx_queue_is_empty q" "prod_ok q p"
  shows "prod_ok (q\<lparr>q_head := (q_head q + 1) mod max_items q\<rparr>) p"
  using assms not_full_advance [OF assms(1,2)] by (cases p) auto

lemma qsys_step_inv: "qsys_step s t \<Longrightarrow> qsys_inv n s \<Longrightarrow> qsys_inv n t"
proof (induction rule: qsys_step.induct)
  case (push_store s x q)
  let ?q = "q\<lparr>q_items := (q_items q)[q_tail q := x]\<rparr>"
  have ok: "q_ok q" "\<not> nx_queue_is_full q" "cons_ok q (qs_cons s)"
    using push_store by (simp_all add: qsys_inv_def)
  have "q_ok ?q" "\<not> nx_queue_is_full ?q" "q_items ?q ! q_tail ?q = x"
    using ok by (simp_all add: q_ok_def nx_queue_is_full_def)
  with ok cons_ok_store [of q] q_content_store [of q] push_store show ?case by (simp add: qsys_inv_def)
next
  case (push_publish s x q)
  have ok: "q_ok q" "\<not> nx_queue_is_full q" "cons_ok q (qs_cons s)" "q_items q ! q_tail q = x"
    using push_publish by (simp_all add: qsys_inv_def)
  with q_content_publish [of q] cons_ok_publish [of q] push_publish show ?case
    by (simp add: qsys_inv_def)
next
  case (pop_advance s x q)
  have ok: "q_ok q" "\<not> nx_queue_is_empty q" "prod_ok q (qs_prod s)" "q_items q ! q_head q = x"
    using pop_advance by (simp_all add: qsys_inv_def)
  with q_content_advance [of q] prod_ok_advance [of q] pop_advance show ?case
    by (simp add: qsys_inv_def)
qed (auto simp: qsys_inv_def)

lemma qsys_init_inv: "items \<noteq> [] \<Longrightarrow> qsys_inv (length items) (qsys_init items)"
  by (simp add: qsys_inv_def qsys_init_def nx_queue_init_def q_ok_def q_content_def q_count_def)

lemma qsys_reachable_inv: "qsys_reachable items s \<Longrightarrow> items \<noteq> [] \<Longrightarrow> qsys_inv (length items) s"
  by (induction rule: qsys_reachable.induct) (auto intro: qsys_init_inv qsys_step_inv)

text \<open>
  C25: however the steps of one producer and one consumer interleave, the items popped so far
  are a prefix of the items pushed so far, in order, and the difference is exactly what the
  ring holds, never more than \<^verbatim>\<open>max_items - 1\<close> items: no lock is needed.
\<close>

theorem nx_queue_spsc_linear:
  assumes "qsys_reachable items s" "items \<noteq> []"
  shows "qs_pushed s = qs_popped s @ q_content (qs_queue s) \<and> length (q_content (qs_queue s)) \<le> length items - 1"
  using qsys_reachable_inv [OF assms] ring.bounded [of "qs_queue s"] by (simp add: qsys_inv_def)

lemma qsys_push_reachable:
  "qsys_reachable [0, 0, 0 :: nat]
     ((qsys_init [0, 0, 0])\<lparr>qs_queue := \<lparr>q_head = 0, q_tail = 1, q_items = [7, 0, 0]\<rparr>, qs_pushed := [7]\<rparr>)"
proof -
  let ?s0 = "qsys_init [0, 0, 0 :: nat]"
  let ?s1 = "?s0\<lparr>qs_prod := PChecked 7\<rparr>"
  let ?s2 = "?s1\<lparr>qs_queue := \<lparr>q_head = 0, q_tail = 0, q_items = [7, 0, 0]\<rparr>, qs_prod := PStored 7\<rparr>"
  have "qsys_step ?s0 ?s1"
    by (rule push_test) (simp_all add: qsys_init_def nx_queue_init_def nx_queue_is_full_def)
  then have 1: "qsys_reachable [0, 0, 0] ?s1" by (rule qsys_reachable.step [OF start])
  have "qsys_step ?s1 ?s2"
    using push_store [of ?s1 7, OF _ refl] by (simp add: qsys_init_def nx_queue_init_def)
  with 1 have 2: "qsys_reachable [0, 0, 0] ?s2" by (rule qsys_reachable.step)
  show ?thesis
    using qsys_reachable.step [OF 2 push_publish [of ?s2 7, OF _ refl]]
    by (simp add: qsys_init_def nx_queue_init_def)
qed

theorem nx_queue_spsc_linear_witness:
  "[7 :: nat] = [] @ q_content \<lparr>q_head = 0, q_tail = 1, q_items = [7, 0, 0]\<rparr>"
  using nx_queue_spsc_linear [OF qsys_push_reachable] by (simp add: qsys_init_def)

end
