(* ===== verification/Nx_Gmtime.thy ===== *)
theory Nx_Gmtime
  imports Nx_Http_Time
begin

text \<open>
  \<^verbatim>\<open>gmtime_r\<close> of the C library, which the code calls before it formats a date: seconds since 1970 to
  a broken-down time of the proleptic Gregorian calendar, for times from 1970 on.  It is the
  inverse of \<^verbatim>\<open>timegm\<close>, so a date sent in a header is read back as the time it was made from.
\<close>

section \<open>The calendar\<close>

lemma div_pred: "0 < k \<Longrightarrow> (y :: int) div k = (y - 1) div k + (if y mod k = 0 then 1 else 0)"
proof -
  assume k: "0 < k"
  show ?thesis
  proof (cases "y mod k = 0")
    case True
    have "y - 1 = k * (y div k - 1) + (k - 1)" using True mult_div_mod_eq [of k y] by (simp add: algebra_simps)
    then have "(y - 1) div k = y div k - 1" using k by (intro int_div_pos_eq [of _ k _ "k - 1"]) auto
    with True show ?thesis by simp
  next
    case False
    have "y - 1 = k * (y div k) + (y mod k - 1)" using mult_div_mod_eq [of k y] by simp
    moreover have "0 \<le> y mod k" "y mod k < k" using k by simp_all
    ultimately have "(y - 1) div k = y div k" using False by (intro int_div_pos_eq [of _ k _ "y mod k - 1"]) auto
    with False show ?thesis by simp
  qed
qed

lemma days_before_year_step: "days_before_year (y + 1) = days_before_year y + (if leap_year y then 366 else 365)"
proof -
  define a b c where "a = (y - 1) div 4" and "b = (y - 1) div 100" and "c = (y - 1) div 400"
  define p q r where "p = y mod 4" and "q = y mod 100" and "r = y mod 400"
  have step: "y div 4 = a + (if p = 0 then 1 else 0)" "y div 100 = b + (if q = 0 then 1 else 0)"
    "y div 400 = c + (if r = 0 then 1 else 0)"
    unfolding a_def b_def c_def p_def q_def r_def by (rule div_pred, simp)+
  have nest: "r = 0 \<Longrightarrow> q = 0" "q = 0 \<Longrightarrow> p = 0"
    using dvd_trans [of 100 400 y] dvd_trans [of 4 100 y] by (simp_all add: p_def q_def r_def mod_eq_0_iff_dvd)
  have "days_before_year (y + 1) - days_before_year y = 365 + (y div 4 - a) - (y div 100 - b) + (y div 400 - c)"
    by (simp add: days_before_year_def a_def b_def c_def)
  then show ?thesis unfolding step leap_year_def p_def [symmetric] q_def [symmetric] r_def [symmetric]
    using nest by (cases "p = 0"; cases "q = 0"; cases "r = 0") simp_all
qed

lemma days_before_year_estimate: "days_before_year (1970 + int q) \<le> 366 * int q"
proof (induction q)
  case 0
  show ?case by (simp add: days_before_year_def)
next
  case (Suc q)
  have "1970 + int (Suc q) = (1970 + int q) + 1" by simp
  then show ?case using Suc days_before_year_step [of "1970 + int q"] by (auto split: if_splits)
qed

function year_of_day :: "int \<Rightarrow> int \<Rightarrow> int" where
  "year_of_day y d = (if days_before_year (y + 1) \<le> d then year_of_day (y + 1) d else y)"
  by pat_completeness auto
termination
proof (relation "measure (\<lambda>(y, d). nat (d + 1 - days_before_year y))")
  fix y d :: int
  assume "days_before_year (y + 1) \<le> d"
  moreover have "days_before_year y < days_before_year (y + 1)" using days_before_year_step [of y] by simp
  ultimately show "((y + 1, d), (y, d)) \<in> measure (\<lambda>(y, d). nat (d + 1 - days_before_year y))" by simp
qed simp

declare year_of_day.simps [simp del]

function month_of_day :: "int \<Rightarrow> int \<Rightarrow> int \<Rightarrow> int" where
  "month_of_day y mon yd =
     (if mon < 11 \<and> days_before_month y (mon + 1) \<le> yd then month_of_day y (mon + 1) yd else mon)"
  by pat_completeness auto
termination
  by (relation "measure (\<lambda>(y, mon, yd). nat (11 - mon))") auto

declare month_of_day.simps [simp del]

definition gmtime :: "int \<Rightarrow> tm" where
  "gmtime t =
     (let d = t div 86400; s = t mod 86400;
          y = year_of_day (1970 + d div 366) d;
          yd = d - days_before_year y;
          mon = month_of_day y 0 yd
      in \<lparr>tm_sec = s mod 60, tm_min = s div 60 mod 60, tm_hour = s div 3600,
          tm_mday = yd - days_before_month y mon + 1, tm_mon = mon, tm_year = y - 1900,
          tm_wday = (d + 4) mod 7\<rparr>)"

section \<open>The inverse of timegm\<close>

lemma year_of_day_bounds:
  "days_before_year y \<le> d \<Longrightarrow> days_before_year (year_of_day y d) \<le> d \<and> d < days_before_year (year_of_day y d + 1) \<and> y \<le> year_of_day y d"
proof (induction y d rule: year_of_day.induct)
  case (1 y d)
  show ?case
  proof (cases "days_before_year (y + 1) \<le> d")
    case True
    then have "year_of_day y d = year_of_day (y + 1) d" by (subst year_of_day.simps) simp
    with 1 True show ?thesis by auto
  next
    case False
    then have "year_of_day y d = y" by (subst year_of_day.simps) simp
    with 1 False show ?thesis by auto
  qed
qed

lemma month_of_day_bounds:
  assumes "0 \<le> mon" "mon \<le> 11" "days_before_month y mon \<le> yd"
  shows "mon \<le> month_of_day y mon yd \<and> month_of_day y mon yd \<le> 11 \<and> days_before_month y (month_of_day y mon yd) \<le> yd
    \<and> (month_of_day y mon yd < 11 \<longrightarrow> yd < days_before_month y (month_of_day y mon yd + 1))"
  using assms
proof (induction y mon yd rule: month_of_day.induct)
  case (1 y mon yd)
  show ?case
  proof (cases "mon < 11 \<and> days_before_month y (mon + 1) \<le> yd")
    case True
    then have "month_of_day y mon yd = month_of_day y (mon + 1) yd" by (subst month_of_day.simps) simp
    with 1 True show ?thesis by auto
  next
    case False
    then have "month_of_day y mon yd = mon" by (subst month_of_day.simps) auto
    with 1 False show ?thesis by auto
  qed
qed

lemma month_length:
  assumes "0 \<le> mon" "mon < 11"
  shows "days_before_month y (mon + 1) \<le> days_before_month y mon + 31"
proof -
  have "mon \<in> {0, 1, 2, 3, 4, 5, 6, 7, 8, 9, 10}" using assms by (simp, presburger)
  then show ?thesis by (auto simp: days_before_month_def)
qed

lemma days_before_december: "days_before_month y 11 = 334 + (if leap_year y then 1 else 0)"
  by (simp add: days_before_month_def)

text \<open>The largest time the date parser accepts: the end of the year 2900.\<close>

definition MAX_TIME :: int where "MAX_TIME = days_before_year 2901 * 86400"

lemma days_before_year_mono: "y \<le> z \<Longrightarrow> days_before_year y \<le> days_before_year z"
proof -
  have "days_before_year y \<le> days_before_year (y + int n)" for n
  proof (induction n)
    case (Suc n)
    have "y + int (Suc n) = (y + int n) + 1" by simp
    with Suc days_before_year_step [of "y + int n"] show ?case by (simp only: split: if_splits) linarith+
  qed simp
  from this [of "nat (z - y)"] show "y \<le> z \<Longrightarrow> days_before_year y \<le> days_before_year z" by simp
qed

lemma gmtime_facts:
  assumes "0 \<le> t"
  shows "timegm (gmtime t) = t" and "t < MAX_TIME \<Longrightarrow> tm_ok (gmtime t)"
proof -
  define d s where "d = t div 86400" and "s = t mod 86400"
  define y where "y = year_of_day (1970 + d div 366) d"
  define yd where "yd = d - days_before_year y"
  define mon where "mon = month_of_day y 0 yd"
  have d0: "0 \<le> d" using assms by (simp add: d_def pos_imp_zdiv_nonneg_iff)
  have t: "t = d * 86400 + s" "0 \<le> s" "s < 86400" by (simp_all add: d_def s_def)
  have "days_before_year (1970 + d div 366) \<le> d"
    using days_before_year_estimate [of "nat (d div 366)"] d0 by (simp add: pos_imp_zdiv_nonneg_iff)
  then have y: "days_before_year y \<le> d" "d < days_before_year (y + 1)" "1970 + d div 366 \<le> y"
    using year_of_day_bounds by (auto simp: y_def)
  have y70: "1970 \<le> y" using y(3) d0 by (simp add: pos_imp_zdiv_nonneg_iff)
  have yd: "0 \<le> yd" "yd < (if leap_year y then 366 else 365)"
    using y days_before_year_step [of y] by (auto simp: yd_def)
  have "days_before_month y 0 \<le> yd" using yd(1) by (simp add: days_before_month_def)
  from month_of_day_bounds [OF _ _ this] have mon: "0 \<le> mon" "mon \<le> 11" "days_before_month y mon \<le> yd"
    "mon < 11 \<Longrightarrow> yd < days_before_month y (mon + 1)" by (auto simp: mon_def)
  have "yd < days_before_month y mon + 31"
  proof (cases "mon < 11")
    case True
    with mon month_length [of mon y] show ?thesis by auto
  next
    case False
    then have "mon = 11" using mon(2) by simp
    with yd(2) show ?thesis by (auto simp: days_before_december split: if_splits)
  qed
  note mday = this mon(3)
  have g: "gmtime t = \<lparr>tm_sec = s mod 60, tm_min = s div 60 mod 60, tm_hour = s div 3600,
          tm_mday = yd - days_before_month y mon + 1, tm_mon = mon, tm_year = y - 1900, tm_wday = (d + 4) mod 7\<rparr>"
    by (simp add: gmtime_def Let_def d_def s_def y_def yd_def mon_def)
  have "s div 3600 = s div 60 div 60" using zdiv_zmult2_eq [of 60 s 60] by simp
  then have hms: "s div 3600 * 3600 + s div 60 mod 60 * 60 + s mod 60 = s"
    using div_mult_mod_eq [of s 60] div_mult_mod_eq [of "s div 60" 60] by linarith
  have "mon div 12 = 0" using mon(1,2) by (simp add: div_pos_pos_trivial)
  moreover have "d * 86400 + s div 3600 * 3600 + s div 60 mod 60 * 60 + s mod 60 = t" using hms t(1) by linarith
  ultimately show "timegm (gmtime t) = t" unfolding g by (simp add: timegm_def Let_def yd_def)
  assume "t < MAX_TIME"
  then have "d * 86400 + s < days_before_year 2901 * 86400" using t(1) by (simp add: MAX_TIME_def)
  then have "d < days_before_year 2901" using t(2) by auto
  have "y \<le> 2900"
  proof (rule ccontr)
    assume "\<not> y \<le> 2900"
    then have "days_before_year 2901 \<le> days_before_year y" by (intro days_before_year_mono) simp
    with y(1) \<open>d < days_before_year 2901\<close> show False by simp
  qed
  moreover have "s div 3600 < 24" "0 \<le> s div 3600" using t by (simp_all add: div_less_iff_less_mult pos_imp_zdiv_nonneg_iff)
  ultimately show "tm_ok (gmtime t)" using mon mday y70 by (simp add: g tm_ok_def)
qed

text \<open>
  C34: a time from 1970 to 2900, broken down by the C library, formatted into a header and parsed
  back, is the same time, except that the time 0 itself is also what the parser answers to an error.
\<close>

theorem http_date_of_time_roundtrip:
  assumes "0 \<le> t" "t < MAX_TIME" "30 \<le> length ys"
  shows "\<exists>zs. nxweb_format_http_time (xs @ ys) (length xs) (gmtime t) = Some (xs @ http_date (gmtime t) @ NUL # zs, length (http_date (gmtime t)))
    \<and> nxweb_parse_http_time (http_date (gmtime t) @ NUL # zs) = Some t"
proof -
  note ok = gmtime_facts(2) [OF assms(1,2)]
  obtain zs where "nxweb_format_http_time (xs @ ys) (length xs) (gmtime t) = Some (xs @ http_date (gmtime t) @ NUL # zs, length (http_date (gmtime t)))"
    using format_http_time_end [OF ok assms(3)] by blast
  moreover have "nxweb_parse_http_time (http_date (gmtime t) @ NUL # zs) = Some t"
    using parse_http_date [OF ok] gmtime_facts(1) [OF assms(1)] assms(1) by simp
  ultimately show ?thesis by blast
qed

theorem http_date_of_time_roundtrip_witness:
  "\<exists>zs. nxweb_format_http_time ([] @ replicate 32 NUL) (length ([] :: string)) (gmtime 1327410354)
      = Some ([] @ http_date (gmtime 1327410354) @ NUL # zs, length (http_date (gmtime 1327410354)))
    \<and> nxweb_parse_http_time (http_date (gmtime 1327410354) @ NUL # zs) = Some 1327410354"
proof (rule http_date_of_time_roundtrip)
  show "1327410354 < MAX_TIME" by (simp add: MAX_TIME_def days_before_year_def)
qed simp_all

end
