(* ===== verification/Nx_Mime.thy ===== *)
theory Nx_Mime
  imports Nx_Misc Nx_Strings
begin

text \<open>
  The table of MIME types and its two lookups (\<^verbatim>\<open>lib/mime.c\<close>).  The hash tables by extension and by
  type name are finite maps: \<^verbatim>\<open>alignhash_set\<close> followed by the store of the value is a map update,
  and \<^verbatim>\<open>alignhash_get\<close> a lookup.
\<close>

section \<open>Types\<close>

record nxweb_mime_type =
  mt_ext :: string
  mt_mime :: string
  mt_charset_required :: bool
  mt_gzippable :: bool
  mt_image :: bool
  mt_ssi_on :: bool
  mt_templates_on :: bool

definition mime_entry :: "string \<Rightarrow> string \<Rightarrow> bool \<Rightarrow> bool \<Rightarrow> bool \<Rightarrow> bool \<Rightarrow> bool \<Rightarrow> nxweb_mime_type" where
  "mime_entry e m cs gz im ssi tp =
     \<lparr>mt_ext = e, mt_mime = m, mt_charset_required = cs, mt_gzippable = gz, mt_image = im, mt_ssi_on = ssi, mt_templates_on = tp\<rparr>"

definition mime_types :: "nxweb_mime_type list" where
  "mime_types =
     [mime_entry ''htm'' ''text/html'' True True False False False,
      mime_entry ''html'' ''text/html'' True True False False False,
      mime_entry ''shtml'' ''text/html'' True True False True False,
      mime_entry ''shtm'' ''text/html'' True True False True False,
      mime_entry ''thtml'' ''text/html'' True True False False True,
      mime_entry ''thtm'' ''text/html'' True True False False True,
      mime_entry ''txt'' ''text/plain'' True True False False False,
      mime_entry ''c'' ''text/plain'' True True False False False,
      mime_entry ''h'' ''text/plain'' True True False False False,
      mime_entry ''java'' ''text/plain'' True True False False False,
      mime_entry ''bmp'' ''image/bmp'' False False False False False,
      mime_entry ''gif'' ''image/gif'' False False True False False,
      mime_entry ''jpg'' ''image/jpeg'' False False True False False,
      mime_entry ''jpeg'' ''image/jpeg'' False False True False False,
      mime_entry ''jpe'' ''image/jpeg'' False False True False False,
      mime_entry ''png'' ''image/png'' False False True False False,
      mime_entry ''svg'' ''image/svg+xml'' False True False False False,
      mime_entry ''tif'' ''image/tiff'' False False False False False,
      mime_entry ''tiff'' ''image/tiff'' False False False False False,
      mime_entry ''wbmp'' ''image/vnd.wap.wbmp'' False False False False False,
      mime_entry ''ico'' ''image/x-icon'' False True False False False,
      mime_entry ''js'' ''application/x-javascript'' True True False False False,
      mime_entry ''json'' ''application/json'' True True False False False,
      mime_entry ''css'' ''text/css'' True True False False False,
      mime_entry ''xhtml'' ''application/xhtml+xml'' True True False False False,
      mime_entry ''xht'' ''application/xhtml+xml'' True True False False False,
      mime_entry ''xml'' ''application/xml'' True True False False False,
      mime_entry ''xml'' ''text/xml'' True True False False False,
      mime_entry ''xsl'' ''application/xml'' True True False False False,
      mime_entry ''xslt'' ''application/xml'' True True False False False,
      mime_entry ''atom'' ''application/atom+xml'' True True False False False,
      mime_entry ''dtd'' ''application/xml-dtd'' True True False False False,
      mime_entry ''doc'' ''application/msword'' False True False False False,
      mime_entry ''pdf'' ''application/pdf'' False False False False False,
      mime_entry ''ps'' ''application/postscript'' False False False False False,
      mime_entry ''eps'' ''application/postscript'' False False False False False,
      mime_entry ''ai'' ''application/postscript'' False False False False False,
      mime_entry ''rdf'' ''application/rdf+xml'' True False False False False,
      mime_entry ''smil'' ''application/smil'' False False False False False,
      mime_entry ''xls'' ''application/vnd.ms-excel'' False True False False False,
      mime_entry ''ppt'' ''application/vnd.ms-powerpoint'' False True False False False,
      mime_entry ''pps'' ''application/vnd.ms-powerpoint'' False True False False False,
      mime_entry ''docx'' ''application/vnd.openxmlformats-officedocument.wordprocessingml.document'' False False False False False,
      mime_entry ''xlsx'' ''application/vnd.openxmlformats-officedocument.spreadsheetml.sheet'' False False False False False,
      mime_entry ''pptx'' ''application/vnd.openxmlformats-officedocument.presentationml.presentation'' False False False False False,
      mime_entry ''ppsx'' ''application/vnd.openxmlformats-officedocument.presentationml.slideshow'' False False False False False,
      mime_entry ''swf'' ''application/x-shockwave-flash'' False False False False False,
      mime_entry ''sit'' ''application/x-stuffit'' False False False False False,
      mime_entry ''tar'' ''application/x-tar'' False False False False False,
      mime_entry ''zip'' ''application/zip'' False False False False False,
      mime_entry ''rar'' ''application/rar'' False False False False False,
      mime_entry ''gz'' ''application/x-gunzip'' False False False False False,
      mime_entry ''tgz'' ''application/x-tar-gz'' False False False False False,
      mime_entry ''bz2'' ''application/x-bzip2'' False False False False False,
      mime_entry ''mid'' ''audio/midi'' False False False False False,
      mime_entry ''midi'' ''audio/midi'' False False False False False,
      mime_entry ''kar'' ''audio/midi'' False False False False False,
      mime_entry ''mp3'' ''audio/mpeg'' False False False False False,
      mime_entry ''mpga'' ''audio/mpeg'' False False False False False,
      mime_entry ''mp2'' ''audio/mpeg'' False False False False False,
      mime_entry ''wav'' ''audio/x-wav'' False False False False False,
      mime_entry ''rtf'' ''text/rtf'' False True False False False,
      mime_entry ''wml'' ''text/vnd.wap.wml'' True False False False False,
      mime_entry ''avi'' ''video/x-msvideo'' False False False False False,
      mime_entry ''jad'' ''text/vnd.sun.j2me.app-descriptor'' False False False False False,
      mime_entry ''jar'' ''application/java-archive'' False False False False False,
      mime_entry ''mmf'' ''application/vnd.smaf'' False False False False False,
      mime_entry ''sis'' ''application/vnd.symbian.install'' False False False False False,
      mime_entry ''flv'' ''video/x-flv'' False False False False False,
      mime_entry ''mp4'' ''video/mp4'' False False False False False,
      mime_entry ''3gp'' ''video/3gpp'' False False False False False,
      mime_entry ''wma'' ''audio/x-ms-wma'' False False False False False,
      mime_entry ''wax'' ''audio/x-ms-wax'' False False False False False,
      mime_entry ''wmv'' ''video/x-ms-wmv'' False False False False False,
      mime_entry ''wvx'' ''video/x-ms-wvx'' False False False False False,
      mime_entry ''mpg'' ''video/mpeg'' False False False False False,
      mime_entry ''mpeg'' ''video/mpeg'' False False False False False,
      mime_entry ''mpe'' ''video/mpeg'' False False False False False,
      mime_entry ''mov'' ''video/quicktime'' False False False False False,
      mime_entry ''qt'' ''video/quicktime'' False False False False False,
      mime_entry ''asf'' ''video/x-ms-asf'' False False False False False,
      mime_entry ''asx'' ''video/x-ms-asf'' False False False False False,
      mime_entry ''woff'' ''application/x-font-woff'' False False False False False,
      mime_entry ''eot'' ''application/vnd.ms-fontobject'' False False False False False,
      mime_entry ''ttf'' ''application/x-font-ttf'' False False False False False,
      mime_entry ''otf'' ''application/x-font-otf'' False False False False False,
      mime_entry ''dat'' ''application/octet-stream'' False False False False False]"

section \<open>The cache\<close>

record mime_state =
  mc_by_ext :: "string \<rightharpoonup> nxweb_mime_type"
  mc_by_type :: "string \<rightharpoonup> nxweb_mime_type"
  mc_default :: nxweb_mime_type

definition nxweb_add_mime_type :: "nxweb_mime_type \<Rightarrow> mime_state \<Rightarrow> mime_state" where
  "nxweb_add_mime_type type st =
     st\<lparr>mc_by_ext := (mc_by_ext st)(mt_ext type \<mapsto> type), mc_by_type := (mc_by_type st)(mt_mime type \<mapsto> type)\<rparr>"

text \<open>The loop of the constructor goes from the end of the table to its start.\<close>

fun add_from :: "nat \<Rightarrow> mime_state \<Rightarrow> mime_state" where
  "add_from 0 st = st"
| "add_from (Suc i) st = add_from i (nxweb_add_mime_type (mime_types ! i) st)"

definition init_mime_cache :: mime_state where
  "init_mime_cache =
     add_from (length mime_types) \<lparr>mc_by_ext = Map.empty, mc_by_type = Map.empty, mc_default = mime_types ! 0\<rparr>"

definition nxweb_get_default_mime_type :: "mime_state \<Rightarrow> nxweb_mime_type" where
  "nxweb_get_default_mime_type st = mc_default st"

definition nxweb_set_default_mime_type :: "nxweb_mime_type \<Rightarrow> mime_state \<Rightarrow> mime_state" where
  "nxweb_set_default_mime_type mtype st = st\<lparr>mc_default := mtype\<rparr>"

text \<open>\<^verbatim>\<open>strrchr(s, '.')\<close> and the text behind it, or all of it if there is no dot.\<close>

fun after_last :: "char \<Rightarrow> string \<Rightarrow> string option" where
  "after_last x [] = None"
| "after_last x (c # s) = (case after_last x s of Some t \<Rightarrow> Some t | None \<Rightarrow> if c = x then Some s else None)"

definition file_ext :: "string \<Rightarrow> string" where
  "file_ext fpath_or_ext = (case after_last (CHR ''.'') fpath_or_ext of Some ext \<Rightarrow> ext | None \<Rightarrow> fpath_or_ext)"

definition nxweb_get_mime_type_by_ext :: "mime_state \<Rightarrow> string \<Rightarrow> nxweb_mime_type" where
  "nxweb_get_mime_type_by_ext st fpath_or_ext =
     (let ext = file_ext fpath_or_ext in
      if length ext > 31 then mc_default st
      else case mc_by_ext st (map nx_tolower ext) of Some t \<Rightarrow> t | None \<Rightarrow> mc_default st)"

text \<open>
  The name of a type may carry parameters behind a semicolon; they are cut off in a buffer of 512
  bytes.  A null name is the default type.  The outer option is undefined behaviour.
\<close>

definition nxweb_get_mime_type :: "mime_state \<Rightarrow> string option \<Rightarrow> nxweb_mime_type option option" where
  "nxweb_get_mime_type st type_name =
     (case type_name of None \<Rightarrow> Some (Some (mc_default st))
      | Some type_name \<Rightarrow>
          if CHR '';'' \<in> set type_name then
            (let name = takeWhile (\<lambda>c. c \<noteq> CHR '';'') type_name in
             if length name > 511 then Some None
             else do {
               (buf, p) \<leftarrow> nxweb_trunc_space (name @ [NUL]) 0;
               Some (mc_by_type st (cstr buf p)) })
          else Some (mc_by_type st type_name))"

section \<open>Properties\<close>

lemma add_from_eq: "n \<le> length mime_types \<Longrightarrow> add_from n st = foldr nxweb_add_mime_type (take n mime_types) st"
  by (induction n arbitrary: st) (simp_all add: take_Suc_conv_app_nth)

lemma foldr_add:
  "mc_by_ext (foldr nxweb_add_mime_type ts st) e = (case find (\<lambda>t. mt_ext t = e) ts of Some t \<Rightarrow> Some t | None \<Rightarrow> mc_by_ext st e)"
  "mc_by_type (foldr nxweb_add_mime_type ts st) e = (case find (\<lambda>t. mt_mime t = e) ts of Some t \<Rightarrow> Some t | None \<Rightarrow> mc_by_type st e)"
  "mc_default (foldr nxweb_add_mime_type ts st) = mc_default st"
  by (induction ts) (auto simp: nxweb_add_mime_type_def)

lemma init_lookup:
  "mc_by_ext init_mime_cache e = find (\<lambda>t. mt_ext t = e) mime_types"
  "mc_by_type init_mime_cache e = find (\<lambda>t. mt_mime t = e) mime_types"
  "mc_default init_mime_cache = mime_types ! 0"
  by (simp_all add: init_mime_cache_def add_from_eq foldr_add option.case_eq_if split: option.splits)

lemma after_last_app: "after_last x (s @ x # e) = (case after_last x e of Some t \<Rightarrow> Some t | None \<Rightarrow> Some e)"
  by (induction s) (auto split: option.splits)

lemma after_last_none: "x \<notin> set e \<Longrightarrow> after_last x e = None"
  by (induction e) auto

lemma file_ext_dot: "CHR ''.'' \<notin> set e \<Longrightarrow> file_ext (base @ CHR ''.'' # e) = e"
  by (simp add: file_ext_def after_last_app after_last_none)

text \<open>
  The type of a file is that of the first entry of the table with the file's extension, in any
  case of letters, and the default type if there is none: although the table is loaded backwards into a
  hash table, an earlier entry wins over a later one with the same extension.
\<close>

theorem mime_type_by_ext_first:
  assumes "CHR ''.'' \<notin> set e" "length e \<le> 31"
  shows "nxweb_get_mime_type_by_ext init_mime_cache (base @ CHR ''.'' # e) =
    (case find (\<lambda>t. mt_ext t = map nx_tolower e) mime_types of Some t \<Rightarrow> t | None \<Rightarrow> hd mime_types)"
proof -
  have "mime_types ! 0 = hd mime_types" by (simp add: mime_types_def)
  then show ?thesis using assms by (simp add: nxweb_get_mime_type_by_ext_def file_ext_dot init_lookup split: option.split)
qed

text \<open>
  A content type with parameters is looked up by its name alone, whatever blanks surround the
  name and whatever follows the semicolon, and the lookup stays inside its buffer of 512 bytes.
\<close>

theorem mime_type_parameters_ignored:
  assumes "NUL \<notin> set name" "CHR '';'' \<notin> set name" "length name \<le> 511"
  shows "nxweb_get_mime_type st (Some (name @ CHR '';'' # params)) = Some (mc_by_type st (trim name))"
proof -
  have tw: "takeWhile (\<lambda>c. c \<noteq> CHR '';'') (name @ CHR '';'' # params) = name"
    using assms(2) by (auto simp: takeWhile_append)
  have "NUL \<notin> set (trim name)" using assms(1) set_trim [of name] by blast
  then obtain m p where m: "nxweb_trunc_space (name @ [NUL]) 0 = Some (m, p)" "cstr m p = trim name"
    using nxweb_trunc_space_correct [OF assms(1), of "[]" "[]"]
    by (auto simp: replicate_append_same)
  show ?thesis using assms(3) m by (simp add: nxweb_get_mime_type_def tw)
qed

end
