(* ===== verification/Nx_Http_Response.thy ===== *)
theory Nx_Http_Response
  imports Nx_Buffer Nx_Gmtime Nx_Http_Request Nx_Mime
begin

text \<open>
  Building responses and client requests (\<^verbatim>\<open>lib/http_utils.c\<close>, \<^verbatim>\<open>_nxweb_http_response_init\<close> to
  \<^verbatim>\<open>_nxweb_prepare_client_request_headers\<close>) and the date the event loop keeps for them
  (\<^verbatim>\<open>lib/nx_event.c\<close>).

  The type parameter of a response is what its string fields are: strings, where a response is
  built, and positions in the received bytes, where one is parsed.  Strings a builder is given are
  constant for it, so they are passed by value.  \<^verbatim>\<open>REVISION\<close> is the version the build puts in; it is
  the argument \<open>rev\<close>.
\<close>

section \<open>The response\<close>

text \<open>What the code uses of \<^verbatim>\<open>struct stat\<close>, with the file type in the upper bits of the mode.\<close>

record file_stat =
  st_ino :: nat
  st_mode :: nat
  st_size :: int
  st_mtime :: int

definition S_ISDIR :: "nat \<Rightarrow> bool" where "S_ISDIR mode \<longleftrightarrow> mode div 4096 mod 16 = 4"
definition S_ISREG :: "nat \<Rightarrow> bool" where "S_ISREG mode \<longleftrightarrow> mode div 4096 mod 16 = 8"

record 's nxweb_http_response =
  rs_host :: "'s option"
  rs_raw_headers :: "nat option"
  rs_content :: "cptr option"
  rs_content_length :: int
  rs_keep_alive :: bool
  rs_http11 :: bool
  rs_chunked_encoding :: bool
  rs_gzip_encoded :: bool
  rs_ssi_on :: bool
  rs_templates_on :: bool
  rs_no_cache :: bool
  rs_cache_private :: bool
  rs_status :: "'s option"
  rs_content_type :: "'s option"
  rs_content_charset :: "'s option"
  rs_cache_control :: "'s option"
  rs_etag :: "'s option"
  rs_headers :: "('s \<times> 's) list"
  rs_extra_raw_headers :: "'s option"
  rs_date :: int
  rs_last_modified :: int
  rs_expires :: int
  rs_max_age :: int
  rs_status_code :: int
  rs_mtype :: "nxweb_mime_type option"
  rs_sendfile_path :: "'s option"
  rs_sendfile_fd :: int
  rs_sendfile_offset :: int
  rs_sendfile_end :: int
  rs_sendfile_info :: file_stat
  rs_content_out :: "nat option"

definition response_zero :: "'s nxweb_http_response" where
  "response_zero = \<lparr>rs_host = None, rs_raw_headers = None, rs_content = None, rs_content_length = 0,
     rs_keep_alive = False, rs_http11 = False, rs_chunked_encoding = False, rs_gzip_encoded = False,
     rs_ssi_on = False, rs_templates_on = False, rs_no_cache = False, rs_cache_private = False,
     rs_status = None, rs_content_type = None, rs_content_charset = None, rs_cache_control = None,
     rs_etag = None, rs_headers = [], rs_extra_raw_headers = None, rs_date = 0, rs_last_modified = 0,
     rs_expires = 0, rs_max_age = 0, rs_status_code = 0, rs_mtype = None, rs_sendfile_path = None,
     rs_sendfile_fd = 0, rs_sendfile_offset = 0, rs_sendfile_end = 0,
     rs_sendfile_info = \<lparr>st_ino = 0, st_mode = 0, st_size = 0, st_mtime = 0\<rparr>, rs_content_out = None\<rparr>"

text \<open>\<^verbatim>\<open>req\<close> may be null; its host, version and keep-alive flag are taken over.\<close>

definition nxweb_http_response_init :: "'s nxweb_http_response \<Rightarrow> ('s option \<times> bool \<times> bool) option \<Rightarrow> 's nxweb_http_response" where
  "nxweb_http_response_init resp req =
     (case req of None \<Rightarrow> resp
      | Some (host, http11, keep_alive) \<Rightarrow> resp\<lparr>rs_host := host, rs_http11 := http11, rs_keep_alive := keep_alive\<rparr>)"

definition nxweb_set_response_status :: "int \<Rightarrow> 's \<Rightarrow> 's nxweb_http_response \<Rightarrow> 's nxweb_http_response" where
  "nxweb_set_response_status status_code message resp = resp\<lparr>rs_status_code := status_code, rs_status := Some message\<rparr>"

definition nxweb_set_response_content_type :: "'s option \<Rightarrow> 's nxweb_http_response \<Rightarrow> 's nxweb_http_response" where
  "nxweb_set_response_content_type content_type resp = resp\<lparr>rs_content_type := content_type\<rparr>"

definition nxweb_set_response_charset :: "'s option \<Rightarrow> 's nxweb_http_response \<Rightarrow> 's nxweb_http_response" where
  "nxweb_set_response_charset charset resp = resp\<lparr>rs_content_charset := charset\<rparr>"

definition nxweb_add_response_header :: "'s \<Rightarrow> 's \<Rightarrow> 's nxweb_http_response \<Rightarrow> 's nxweb_http_response" where
  "nxweb_add_response_header name v resp = resp\<lparr>rs_headers := (name, v) # rs_headers resp\<rparr>"

definition nxweb_send_data :: "cptr \<Rightarrow> nat \<Rightarrow> 's option \<Rightarrow> 's nxweb_http_response \<Rightarrow> 's nxweb_http_response" where
  "nxweb_send_data data sz content_type resp =
     resp\<lparr>rs_content_type := content_type, rs_content := Some data, rs_content_length := int sz\<rparr>"

section \<open>Request data\<close>

text \<open>
  The chain of keyed data of a request.  Keys are pointers, 0 the null pointer; a null key is never
  found, so it only installs a finalizer.
\<close>

record ('v, 'f) nxweb_http_request_data =
  rd_key :: nat
  rd_value :: 'v
  rd_finalize :: 'f

fun nxweb_find_request_data :: "('v, 'f) nxweb_http_request_data list \<Rightarrow> nat \<Rightarrow> nat option" where
  "nxweb_find_request_data [] key = None"
| "nxweb_find_request_data (r # rs) key =
     (if rd_key r \<noteq> 0 \<and> rd_key r = key then Some 0 else map_option Suc (nxweb_find_request_data rs key))"

definition nxweb_set_request_data :: "nat \<Rightarrow> 'v \<Rightarrow> 'f \<Rightarrow> ('v, 'f) nxweb_http_request_data list
    \<Rightarrow> ('v, 'f) nxweb_http_request_data list" where
  "nxweb_set_request_data key v fin data_chain =
     (case nxweb_find_request_data data_chain key of
        None \<Rightarrow> \<lparr>rd_key = key, rd_value = v, rd_finalize = fin\<rparr> # data_chain
      | Some i \<Rightarrow> data_chain[i := (data_chain ! i)\<lparr>rd_value := v, rd_finalize := fin\<rparr>])"

definition nxweb_get_request_data :: "('v, 'f) nxweb_http_request_data list \<Rightarrow> nat \<Rightarrow> 'v option" where
  "nxweb_get_request_data data_chain key =
     map_option (\<lambda>i. rd_value (data_chain ! i)) (nxweb_find_request_data data_chain key)"

lemma find_request_data_bound: "nxweb_find_request_data ds key = Some i \<Longrightarrow> i < length ds \<and> rd_key (ds ! i) = key \<and> key \<noteq> 0"
  by (induction ds arbitrary: i) (auto split: if_splits)

lemma find_request_data_update:
  "nxweb_find_request_data ds key = Some i \<Longrightarrow> rd_key d = key \<Longrightarrow>
   nxweb_find_request_data (ds[i := d]) key' = nxweb_find_request_data ds key'"
proof (induction ds arbitrary: i)
  case (Cons r ds)
  then show ?case by (cases i) (auto split: if_splits)
qed simp

lemma find_request_data_other:
  "nxweb_find_request_data ds key = Some i \<Longrightarrow> nxweb_find_request_data ds key' = Some i \<Longrightarrow> key' = key"
  using find_request_data_bound [of ds key i] find_request_data_bound [of ds key' i] by simp

text \<open>
  Request data behaves as a map from non-null keys: after storing a value under a key, that key
  gives the value and every other key gives what it gave before; a null key is never found.
\<close>

theorem request_data_get_set:
  "nxweb_get_request_data (nxweb_set_request_data key v fin ds) key' =
    (if key' = key \<and> key \<noteq> 0 then Some v else nxweb_get_request_data ds key')"
proof (cases "nxweb_find_request_data ds key")
  case None
  have "nxweb_find_request_data ds key' = Some i \<Longrightarrow> rd_key (ds ! i) = key'" for i
    using find_request_data_bound by blast
  with None show ?thesis
    by (cases "nxweb_find_request_data ds key'") (auto simp: nxweb_get_request_data_def nxweb_set_request_data_def)
next
  case (Some i)
  note b = find_request_data_bound [OF Some]
  have up: "nxweb_find_request_data (ds[i := (ds ! i)\<lparr>rd_value := v, rd_finalize := fin\<rparr>]) k = nxweb_find_request_data ds k" for k
    by (rule find_request_data_update [OF Some]) (simp add: b)
  show ?thesis
  proof (cases "key' = key")
    case True
    with Some b show ?thesis by (simp add: nxweb_get_request_data_def nxweb_set_request_data_def up)
  next
    case False
    then have "nxweb_find_request_data ds key' \<noteq> Some i" using find_request_data_other [OF Some] by blast
    with False Some show ?thesis
      by (cases "nxweb_find_request_data ds key'") (auto simp: nxweb_get_request_data_def nxweb_set_request_data_def up)
  qed
qed

section \<open>The clock of the event loop\<close>

record nxe_clock =
  lp_current_time :: int
  lp_last_http_time :: int
  lp_http_time :: int
  lp_http_time_str :: mem
  lp_iso8601_time_str :: mem

text \<open>\<open>now\<close> is what \<^verbatim>\<open>time\<close> returns.\<close>

text \<open>Times are unsigned 64-bit numbers of microseconds; their difference wraps.\<close>

definition elapsed :: "nxe_clock \<Rightarrow> int" where
  "elapsed lp = (lp_current_time lp - lp_last_http_time lp) mod 2 ^ 64"

definition nxe_get_current_http_time :: "int \<Rightarrow> nxe_clock \<Rightarrow> int \<times> nxe_clock" where
  "nxe_get_current_http_time now lp =
     (let lp = (if elapsed lp \<ge> 1000000
                then lp\<lparr>lp_http_time := now, lp_last_http_time := lp_current_time lp,
                        lp_http_time_str := (lp_http_time_str lp)[0 := NUL], lp_iso8601_time_str := (lp_iso8601_time_str lp)[0 := NUL]\<rparr>
                else lp)
      in (lp_http_time lp, lp))"

definition nxe_get_current_http_time_str :: "int \<Rightarrow> nxe_clock \<Rightarrow> (string \<times> nxe_clock) option" where
  "nxe_get_current_http_time_str now lp = do {
     let (t, lp) = nxe_get_current_http_time now lp;
     c \<leftarrow> rd (lp_http_time_str lp) 0;
     lp \<leftarrow> (if c = NUL then do {
              (m, _) \<leftarrow> nxweb_format_http_time (lp_http_time_str lp) 0 (gmtime (lp_http_time lp));
              Some (lp\<lparr>lp_http_time_str := m\<rparr>) }
            else Some lp);
     Some (cstr (lp_http_time_str lp) 0, lp) }"

text \<open>The time of day in the local zone: \<open>localtime\<close> stands for \<^verbatim>\<open>localtime_r\<close>, which reads the zone of the host.\<close>

definition nxe_get_current_iso8601_time_str :: "(int \<Rightarrow> tm) \<Rightarrow> int \<Rightarrow> nxe_clock \<Rightarrow> (string \<times> nxe_clock) option" where
  "nxe_get_current_iso8601_time_str localtime now lp = do {
     let (t, lp) = nxe_get_current_http_time now lp;
     c \<leftarrow> rd (lp_iso8601_time_str lp) 0;
     lp \<leftarrow> (if c = NUL then do {
              (m, _) \<leftarrow> nxweb_format_iso8601_time (lp_iso8601_time_str lp) 0 (localtime (lp_http_time lp));
              Some (lp\<lparr>lp_iso8601_time_str := m\<rparr>) }
            else Some lp);
     Some (cstr (lp_iso8601_time_str lp) 0, lp) }"

text \<open>
  What the loop maintains: the string is empty (it is formatted again when it is asked for) or the
  date of the time kept.
\<close>

definition clock_ok :: "nxe_clock \<Rightarrow> bool" where
  "clock_ok lp \<longleftrightarrow> length (lp_http_time_str lp) = 32 \<and> 0 \<le> lp_http_time lp \<and> lp_http_time lp < MAX_TIME
     \<and> (lp_http_time_str lp ! 0 = NUL
        \<or> cstr_at (lp_http_time_str lp) 0 (http_date (gmtime (lp_http_time lp))))"

lemma http_date_head: "tm_ok t \<Longrightarrow> \<exists>c s. http_date t = c # s \<and> c \<noteq> NUL"
proof -
  assume "tm_ok t"
  then have "nat (tm_wday t) < length WEEK_DAY" by (auto simp: tm_ok_def WEEK_DAY_def)
  moreover have "list_all (\<lambda>s. s \<noteq> [] \<and> hd s \<noteq> NUL) WEEK_DAY" by code_simp
  ultimately have "WEEK_DAY ! nat (tm_wday t) \<noteq> []" "hd (WEEK_DAY ! nat (tm_wday t)) \<noteq> NUL" by (auto simp: list_all_length)
  then show ?thesis by (cases "WEEK_DAY ! nat (tm_wday t)") (auto simp: http_date_def)
qed

lemma http_date_no_NUL: "tm_ok t \<Longrightarrow> NUL \<notin> set (http_date t)"
proof -
  assume t: "tm_ok t"
  have "list_all (\<lambda>s. NUL \<notin> set s) WEEK_DAY" "list_all (\<lambda>s. NUL \<notin> set s) MONTH" by code_simp+
  moreover have "nat (tm_wday t) < length WEEK_DAY" "nat (tm_mon t) < length MONTH"
    using t by (auto simp: tm_ok_def WEEK_DAY_def MONTH_def)
  ultimately have "NUL \<notin> set (WEEK_DAY ! nat (tm_wday t))" "NUL \<notin> set (MONTH ! nat (tm_mon t))"
    by (auto simp: list_all_length)
  then show ?thesis by (simp add: http_date_def)
qed

lemma current_http_time_str:
  assumes "clock_ok lp" "0 \<le> now" "now < MAX_TIME"
  shows "\<exists>lp'. nxe_get_current_http_time_str now lp = Some (http_date (gmtime (lp_http_time lp')), lp') \<and> clock_ok lp'
    \<and> elapsed lp' < 1000000
    \<and> (elapsed lp \<ge> 1000000 \<longrightarrow> lp_http_time lp' = now)
    \<and> (elapsed lp < 1000000 \<longrightarrow> lp_http_time lp' = lp_http_time lp)"
proof -
  define lp1 where "lp1 = snd (nxe_get_current_http_time now lp)"
  have len: "lp_http_time_str lp \<noteq> []" using assms(1) by (auto simp: clock_ok_def)
  have ok1: "clock_ok lp1" "elapsed lp1 < 1000000"
    "elapsed lp \<ge> 1000000 \<longrightarrow> lp_http_time lp1 = now"
    "elapsed lp < 1000000 \<longrightarrow> lp_http_time lp1 = lp_http_time lp"
    using assms len by (auto simp: lp1_def nxe_get_current_http_time_def clock_ok_def elapsed_def Let_def)
  let ?d = "http_date (gmtime (lp_http_time lp1))"
  have tm: "tm_ok (gmtime (lp_http_time lp1))" using ok1(1) by (intro gmtime_facts) (auto simp: clock_ok_def)
  have fst: "nxe_get_current_http_time now lp = (lp_http_time lp1, lp1)"
    by (simp add: lp1_def nxe_get_current_http_time_def Let_def)
  have l32: "length (lp_http_time_str lp1) = 32" using ok1(1) by (simp add: clock_ok_def)
  then have r0: "rd (lp_http_time_str lp1) 0 = Some (lp_http_time_str lp1 ! 0)" by (simp add: rd_def)
  show ?thesis
  proof (cases "lp_http_time_str lp1 ! 0 = NUL")
    case True
    obtain zs where zs: "nxweb_format_http_time (lp_http_time_str lp1) 0 (gmtime (lp_http_time lp1)) = Some (?d @ NUL # zs, length ?d)"
      "length zs = 32 - length ?d - 1"
      using format_http_time_end [OF tm, of "lp_http_time_str lp1" "[]"] l32 by auto
    define lp2 where "lp2 = lp1\<lparr>lp_http_time_str := ?d @ NUL # zs\<rparr>"
    have at: "cstr_at (?d @ NUL # zs) 0 ?d" using cstr_atI [OF http_date_no_NUL [OF tm], of 0 "[]" zs] by simp
    have "nxe_get_current_http_time_str now lp = Some (?d, lp2)"
      using True zs(1) r0 cstr_at_cstr [OF at] by (simp add: nxe_get_current_http_time_str_def fst lp2_def)
    moreover have "length (?d @ NUL # zs) = 32" using zs(2) length_http_date [OF tm] by simp
    then have "clock_ok lp2" using ok1(1) at by (simp add: clock_ok_def lp2_def)
    ultimately show ?thesis using ok1(2-4) by (intro exI [of _ lp2]) (simp add: lp2_def elapsed_def)
  next
    case False
    then have at: "cstr_at (lp_http_time_str lp1) 0 ?d" using ok1(1) by (simp add: clock_ok_def)
    have "nxe_get_current_http_time_str now lp = Some (?d, lp1)"
      using False r0 cstr_at_cstr [OF at] by (simp add: nxe_get_current_http_time_str_def fst)
    with ok1 show ?thesis by (intro exI [of _ lp1]) simp
  qed
qed

text \<open>
  The \<^verbatim>\<open>Date\<close> of a response is always the correct date of a time at most a second old: the cached
  string is thrown away when a second has passed and is formatted again within its 32 bytes, and
  otherwise stays the date of the time it was made from.
\<close>

theorem http_date_cache_correct:
  assumes "clock_ok lp" "0 \<le> now" "now < MAX_TIME"
  shows "\<exists>lp'. nxe_get_current_http_time_str now lp = Some (http_date (gmtime (lp_http_time lp')), lp') \<and> clock_ok lp'
    \<and> elapsed lp' < 1000000
    \<and> lp_http_time lp' = (if elapsed lp \<ge> 1000000 then now else lp_http_time lp)"
  using current_http_time_str [OF assms] by auto

definition sample_clock :: nxe_clock where
  "sample_clock = \<lparr>lp_current_time = 5000000, lp_last_http_time = 0, lp_http_time = 0, lp_http_time_str = replicate 32 NUL, lp_iso8601_time_str = replicate 24 NUL\<rparr>"

lemma sample_clock_ok: "clock_ok sample_clock"
  by (simp add: clock_ok_def sample_clock_def MAX_TIME_def days_before_year_def)

end
