(* ===== verification/Nx_Http_Head.thy ===== *)
theory Nx_Http_Head
  imports Nx_Http_Response
begin

text \<open>
  The heads of responses and of client requests as they are written into the request's arena
  (\<^verbatim>\<open>lib/http_utils.c\<close>: \<^verbatim>\<open>_nxweb_prepare_response_headers\<close>, \<^verbatim>\<open>nxweb_send_redirect2\<close>,
  \<^verbatim>\<open>nxweb_send_http_error\<close>, \<^verbatim>\<open>_nxweb_prepare_client_request_headers\<close>).  The code reserves room now and then and
  appends most of the text unchecked; the \<open>emits\<close> rules account for the room.
\<close>

section \<open>Writers\<close>

text \<open>\<^verbatim>\<open>uint_to_decimal_string(n, buf, sizeof(buf))\<close> with \<^verbatim>\<open>char buf[32]\<close>\<close>

definition num32 :: "int \<Rightarrow> string option" where
  "num32 v = do {
     (buf, q) \<leftarrow> uint_to_decimal_string (to_ulong v) (replicate 32 NUL) 0 32;
     Some (cstr buf q) }"

text \<open>\<^verbatim>\<open>nxb_blank_fast(nxb, nxweb_format_http_time(nxb_get_room(nxb, 0), &tm))\<close>\<close>

definition nxb_put_time :: "int \<Rightarrow> nxb_buffer \<Rightarrow> nxb_buffer option" where
  "nxb_put_time t nb = do {
     (b, n) \<leftarrow> nxweb_format_http_time (mem_read (nb_mem nb) (nb_ptr nb) (nb_end nb - nb_ptr nb)) 0 (gmtime t);
     nxb_blank_fast n (nb\<lparr>nb_mem := mem_write (nb_mem nb) (nb_ptr nb) b\<rparr>) }"

text \<open>The headers a response sets itself are not taken from the list of added headers.\<close>

definition own_header :: "nxweb_http_header_name \<Rightarrow> bool" where
  "own_header hid \<longleftrightarrow> hid \<in> {NXWEB_HTTP_CONNECTION, NXWEB_HTTP_SERVER, NXWEB_HTTP_CONTENT_TYPE,
     NXWEB_HTTP_CONTENT_LENGTH, NXWEB_HTTP_TRANSFER_ENCODING, NXWEB_HTTP_DATE, NXWEB_HTTP_CACHE_CONTROL,
     NXWEB_HTTP_EXPIRES, NXWEB_HTTP_LAST_MODIFIED, NXWEB_HTTP_ETAG, NXWEB_HTTP_ACCEPT_RANGES}"

fun nxweb_add_extra_response_headers :: "(string \<times> string) list \<Rightarrow> nxb_buffer \<Rightarrow> nxb_buffer option" where
  "nxweb_add_extra_response_headers [] nb = Some nb"
| "nxweb_add_extra_response_headers ((name, v) # hs) nb = do {
     hid \<leftarrow> identify_http_header (name @ [NUL]) 0 0;
     if own_header hid then nxweb_add_extra_response_headers hs nb
     else do {
       nb \<leftarrow> nxb_append_str name nb;
       nb \<leftarrow> nxb_append '': '' nb;
       nb \<leftarrow> nxb_append_str v nb;
       nb \<leftarrow> nxb_append_str CRLF nb;
       nxweb_add_extra_response_headers hs nb } }"

section \<open>The head of a response\<close>

definition put_status_line :: "string \<Rightarrow> string \<Rightarrow> string nxweb_http_response \<Rightarrow> nxb_buffer \<Rightarrow> nxb_buffer option" where
  "put_status_line ver date resp nb = do {
     nb \<leftarrow> nxb_reserve 200 nb;
     nb \<leftarrow> nxb_append_fast ''HTTP/1.'' nb;
     nb \<leftarrow> nxb_append_char_fast (if rs_http11 resp then CHR ''1'' else CHR ''0'') nb;
     nb \<leftarrow> nxb_append_char_fast SP nb;
     n \<leftarrow> num32 (if rs_status_code resp \<noteq> 0 then rs_status_code resp else 200);
     nb \<leftarrow> nxb_append_str_fast n nb;
     nb \<leftarrow> nxb_append_char_fast SP nb;
     nb \<leftarrow> nxb_append_str (case rs_status resp of Some s \<Rightarrow> s | None \<Rightarrow> ''OK'') nb;
     nb \<leftarrow> nxb_reserve 200 nb;
     nb \<leftarrow> nxb_append_str_fast (CRLF @ ''Server: nxweb/'' @ ver @ CRLF @ ''Date: '') nb;
     nb \<leftarrow> nxb_append_str_fast date nb;
     nb \<leftarrow> nxb_append_str_fast (CRLF @ ''Connection: '') nb;
     nb \<leftarrow> nxb_append_str_fast (if rs_keep_alive resp then ''keep-alive'' else ''close'') nb;
     nxb_append_str_fast CRLF nb }"

definition put_content_type :: "string nxweb_http_response \<Rightarrow> nxb_buffer \<Rightarrow> nxb_buffer option" where
  "put_content_type resp nb =
     (if rs_content_length resp \<noteq> 0 then do {
        nb \<leftarrow> nxb_append_str ''Content-Type: '' nb;
        nb \<leftarrow> nxb_append_str (case rs_content_type resp of Some s \<Rightarrow> s | None \<Rightarrow> ''text/html'') nb;
        nb \<leftarrow> (case rs_content_charset resp of None \<Rightarrow> Some nb
               | Some cs \<Rightarrow> do { nb \<leftarrow> nxb_append_str ''; charset='' nb; nxb_append_str cs nb });
        nb \<leftarrow> nxb_append_str CRLF nb;
        if rs_gzip_encoded resp then nxb_append_str (''Content-Encoding: gzip'' @ CRLF) nb else Some nb }
      else Some nb)"

text \<open>A header with a date: \<open>room\<close> is what is reserved for it.\<close>

definition put_date_header :: "nat \<Rightarrow> string \<Rightarrow> int \<Rightarrow> nxb_buffer \<Rightarrow> nxb_buffer option" where
  "put_date_header room name t nb =
     (if t \<noteq> 0 then do {
        nb \<leftarrow> nxb_reserve room nb;
        nb \<leftarrow> nxb_append_str_fast name nb;
        nb \<leftarrow> nxb_put_time t nb;
        nxb_append_str_fast CRLF nb }
      else Some nb)"

definition put_etag :: "string nxweb_http_response \<Rightarrow> nxb_buffer \<Rightarrow> nxb_buffer option" where
  "put_etag resp nb =
     (case rs_etag resp of None \<Rightarrow> Some nb
      | Some etag \<Rightarrow> do {
          nb \<leftarrow> nxb_append_str ''ETag: '' nb;
          nb \<leftarrow> nxb_append_str etag nb;
          nxb_append CRLF nb })"

text \<open>Here \<open>comma\<close> is the variable of the code: whether something was written before.\<close>

definition put_comma :: "bool \<Rightarrow> nxb_buffer \<Rightarrow> nxb_buffer option" where
  "put_comma comma nb = (if comma then nxb_append '', '' nb else Some nb)"

definition put_max_age :: "int \<Rightarrow> nxb_buffer \<Rightarrow> nxb_buffer option" where
  "put_max_age max_age nb =
     (if max_age = -1 then nxb_append_char (CHR ''0'') nb
      else do { n \<leftarrow> num32 max_age; nxb_append_str n nb })"

definition put_cache_control :: "string nxweb_http_response \<Rightarrow> nxb_buffer \<Rightarrow> nxb_buffer option" where
  "put_cache_control resp nb =
     (case rs_cache_control resp of
        Some cc \<Rightarrow> do {
          nb \<leftarrow> nxb_append_str ''Cache-Control: '' nb;
          nb \<leftarrow> nxb_append_str cc nb;
          nxb_append CRLF nb }
      | None \<Rightarrow>
          if rs_no_cache resp \<or> rs_cache_private resp \<or> rs_max_age resp \<noteq> 0 then do {
            nb \<leftarrow> nxb_append_str ''Cache-Control: '' nb;
            let comma = False;
            (nb, comma) \<leftarrow> (if rs_cache_private resp
               then do { nb \<leftarrow> put_comma comma nb; nb \<leftarrow> nxb_append_str ''private'' nb; Some (nb, True) }
               else Some (nb, comma));
            (nb, comma) \<leftarrow> (if rs_no_cache resp
               then do { nb \<leftarrow> put_comma comma nb; nb \<leftarrow> nxb_append_str ''no-cache'' nb; Some (nb, True) }
               else Some (nb, comma));
            nb \<leftarrow> (if rs_max_age resp \<noteq> 0
               then do { nb \<leftarrow> put_comma comma nb; nb \<leftarrow> nxb_append_str ''max-age='' nb; put_max_age (rs_max_age resp) nb }
               else Some nb);
            nxb_append CRLF nb }
          else Some nb)"

definition put_length :: "string nxweb_http_response \<Rightarrow> nxb_buffer \<Rightarrow> nxb_buffer option" where
  "put_length resp nb =
     (if rs_content_length resp \<noteq> 0 \<or> rs_status_code resp \<notin> {304, 204, 205} then do {
        nb \<leftarrow> nxb_reserve 48 nb;
        nb \<leftarrow> (if rs_content_length resp \<ge> 0 then do {
                 nb \<leftarrow> nxb_append_str_fast ''Content-Length: '' nb;
                 n \<leftarrow> num32 (rs_content_length resp);
                 nxb_append_str_fast n nb }
               else nxb_append_str_fast ''Transfer-Encoding: chunked'' nb);
        nxb_append_fast CRLF nb }
      else Some nb)"

text \<open>
  \<^verbatim>\<open>_nxweb_prepare_response_headers\<close>.  It drops what is unfinished in the stream, writes the head with a
  terminator and leaves its address in \<^verbatim>\<open>raw_headers\<close>.  The warnings it may log are left out.
\<close>

definition put_response_head :: "string \<Rightarrow> string \<Rightarrow> string nxweb_http_response \<Rightarrow> nxb_buffer \<Rightarrow> nxb_buffer option" where
  "put_response_head ver date resp nb = do {
     nb \<leftarrow> put_status_line ver date resp nb;
     nb \<leftarrow> nxweb_add_extra_response_headers (rs_headers resp) nb;
     nb \<leftarrow> (case rs_extra_raw_headers resp of None \<Rightarrow> Some nb | Some s \<Rightarrow> nxb_append_str s nb);
     nb \<leftarrow> put_content_type resp nb;
     nb \<leftarrow> put_date_header 48 ''Last-Modified: '' (rs_last_modified resp) nb;
     nb \<leftarrow> put_etag resp nb;
     nb \<leftarrow> put_date_header 42 ''Expires: '' (rs_expires resp) nb;
     nb \<leftarrow> put_cache_control resp nb;
     nb \<leftarrow> put_length resp nb;
     nxb_append (CRLF @ [NUL]) nb }"

definition nxweb_prepare_response_headers :: "string \<Rightarrow> int \<Rightarrow> nxe_clock \<Rightarrow> string nxweb_http_response \<Rightarrow> nxb_buffer
    \<Rightarrow> (string nxweb_http_response \<times> nxe_clock \<times> nxb_buffer) option" where
  "nxweb_prepare_response_headers ver now lp resp nb = do {
     (date, lp) \<leftarrow> nxe_get_current_http_time_str now lp;
     nb \<leftarrow> put_response_head ver date resp (nxb_start_stream nb);
     let (raw_headers, _, nb) = nxb_finish_stream nb;
     Some (resp\<lparr>rs_raw_headers := Some raw_headers\<rparr>, lp, nb) }"

section \<open>More rules for emitted text\<close>

lemma emits_text: "emits r f s r' \<Longrightarrow> s = t \<Longrightarrow> emits r f t r'" by simp

lemma emits_reserve_to: "emits r (nxb_reserve n) [] n"
  by (rule emits_weaken [OF emits_reserve]) auto

lemma emits_any: "emits r f s r' \<Longrightarrow> emits r f s 0"
  by (rule emits_weaken) auto

lemma emits_start: "emits 0 f s r' \<Longrightarrow> emits r f s 0"
  by (rule emits_weaken) auto

lemma emits_str: "emits r (nxb_append_str s) s 0" "emits r (nxb_append s) s 0" "emits r (nxb_append_char c) [c] 0"
  by (rule emits_any, rule emits_append_str, rule emits_any, rule emits_append, rule emits_any, rule emits_append_char)

lemma emits_opt:
  assumes "\<And>x. v = Some x \<Longrightarrow> emits r (f x) (s x) 0"
  shows "emits r (\<lambda>nb. case v of None \<Rightarrow> Some nb | Some x \<Rightarrow> f x nb) (case v of None \<Rightarrow> [] | Some x \<Rightarrow> s x) 0"
  using assms emits_any [OF emits_Some] by (cases v) auto

lemma emits_when:
  assumes "b \<Longrightarrow> emits r f s 0"
  shows "emits r (\<lambda>nb. if b then f nb else Some nb) (if b then s else []) 0"
  using assms emits_any [OF emits_Some] by (cases b) auto

lemma emits_bind0:
  assumes "emits r f s 0" "emits 0 g t 0"
  shows "emits r (\<lambda>nb. f nb \<bind> g) (s @ t) 0"
  by (rule emits_bind [OF assms])

lemma num32_ulong: "num32 v = Some (dec (to_ulong v))"
proof -
  have "to_ulong v < 2 ^ 64" by (simp add: to_ulong_def nat_less_iff)
  then have len: "length (dec (to_ulong v)) \<le> 20" by (rule length_dec_ulong)
  have "uint_to_decimal_string (to_ulong v) (replicate 32 NUL) 0 32
      = Some (replicate (31 - length (dec (to_ulong v))) NUL @ dec (to_ulong v) @ [NUL], 31 - length (dec (to_ulong v)))"
    using uint_to_decimal_string_correct [of "to_ulong v" "replicate 32 NUL" "[]" "[]"] len by simp
  then show ?thesis
    using cstr_split [of "dec (to_ulong v)" "replicate (31 - length (dec (to_ulong v))) NUL" "[]"] by (simp add: num32_def)
qed

lemma length_dec_to_ulong: "length (dec (to_ulong v)) \<le> 20"
  by (rule length_dec_ulong) (simp add: to_ulong_def nat_less_iff)

lemma identify_zero_length: "NUL \<notin> set name \<Longrightarrow> identify_http_header (name @ [NUL]) 0 0 = Some (header_id name)"
proof -
  assume n: "NUL \<notin> set name"
  then have "c_strlen (name @ [NUL]) 0 = Some (length name)" using c_strlen_split [of name "[]" "[]"] by simp
  then have "identify_http_header (name @ [NUL]) 0 0 = identify_http_header (name @ [NUL]) 0 (length name)"
    by (cases "name = []") (simp_all add: identify_http_header_def)
  with identify_split [OF n, of "[]" "[]"] show ?thesis by simp
qed

lemma emits_put_time:
  assumes "tm_ok (gmtime t)" "30 \<le> r"
  shows "emits r (nxb_put_time t) (http_date (gmtime t)) (r - length (http_date (gmtime t)))"
proof (rule emitsI)
  fix nb
  assume ok: "nxb_ok nb" and lim: "nb_limit nb = None" and room: "r \<le> nxb_room nb"
  let ?d = "http_date (gmtime t)" let ?k = "nb_end nb - nb_ptr nb"
  obtain zs where zs: "nxweb_format_http_time (mem_read (nb_mem nb) (nb_ptr nb) ?k) 0 (gmtime t) = Some (?d @ NUL # zs, length ?d)"
    "length zs = ?k - length ?d - 1"
    using format_http_time_end [OF assms(1), of "mem_read (nb_mem nb) (nb_ptr nb) ?k" "[]"] assms(2) room
    by (auto simp: nxb_room_def)
  have len: "length ?d \<le> 29" by (rule length_http_date [OF assms(1)])
  have k: "length (?d @ NUL # zs) = ?k" using zs(2) len assms(2) room by (simp add: nxb_room_def)
  define nb' where "nb' = nb\<lparr>nb_mem := mem_write (nb_mem nb) (nb_ptr nb) (?d @ NUL # zs), nb_ptr := nb_ptr nb + length ?d\<rparr>"
  have "emits ?k (\<lambda>nb'. do { b \<leftarrow> Some (?d @ NUL # zs);
      Some (nb'\<lparr>nb_mem := mem_write (nb_mem nb') (nb_ptr nb') b, nb_ptr := nb_ptr nb' + length ?d\<rparr>) }) ?d (?k - length ?d)"
    using k by (intro emits_uint_buffer [where k = ?k and f = "\<lambda>_. Some (?d @ NUL # zs)"]) auto
  then obtain nb2 where nb2: "nb' = nb2" "nxb_ok nb2" "nb_limit nb2 = None" "nxb_stream nb2 = nxb_stream nb @ ?d"
    "nxb_frame nb nb2" "?k - length ?d \<le> nxb_room nb2"
    using ok lim unfolding nb'_def by (elim emitsE [where nb = nb]) (auto simp: nxb_room_def)
  have "nxb_put_time t nb = Some nb'"
    using zs(1) len assms(2) room by (simp add: nxb_put_time_def nxb_blank_fast_def nb'_def nxb_room_def)
  moreover have "r - length ?d \<le> nxb_room nb2" using nb2(6) room by (simp add: nxb_room_def)
  ultimately show "\<exists>nb'. nxb_put_time t nb = Some nb' \<and> nxb_ok nb' \<and> nb_limit nb' = None
      \<and> nxb_stream nb' = nxb_stream nb @ ?d \<and> nxb_frame nb nb' \<and> r - length ?d \<le> nxb_room nb'"
    using nb2 by blast
qed

section \<open>The text of a head\<close>

definition header_line :: "string \<times> string \<Rightarrow> string" where
  "header_line h = fst h @ '': '' @ snd h @ CRLF"

definition header_lines :: "(string \<times> string) list \<Rightarrow> string" where
  "header_lines hs = concat (map header_line hs)"

lemma header_lines_simps [simp]:
  "header_lines [] = []" "header_lines (h # hs) = header_line h @ header_lines hs"
  "header_lines (hs @ hs') = header_lines hs @ header_lines hs'"
  by (simp_all add: header_lines_def)

definition status_text :: "bool \<Rightarrow> int \<Rightarrow> string \<Rightarrow> string" where
  "status_text http11 n message =
     ''HTTP/1.'' @ [if http11 then CHR ''1'' else CHR ''0''] @ '' '' @ dec (to_ulong n) @ '' '' @ message @ CRLF"

definition opt_field :: "string \<Rightarrow> string option \<Rightarrow> (string \<times> string) list" where
  "opt_field name v = (case v of None \<Rightarrow> [] | Some v \<Rightarrow> [(name, v)])"

definition date_field :: "string \<Rightarrow> int \<Rightarrow> (string \<times> string) list" where
  "date_field name t = (if t \<noteq> 0 then [(name, http_date (gmtime t))] else [])"

definition type_fields :: "string nxweb_http_response \<Rightarrow> (string \<times> string) list" where
  "type_fields resp =
     (if rs_content_length resp \<noteq> 0
      then (''Content-Type'', (case rs_content_type resp of Some s \<Rightarrow> s | None \<Rightarrow> ''text/html'')
              @ (case rs_content_charset resp of None \<Rightarrow> [] | Some cs \<Rightarrow> ''; charset='' @ cs))
           # (if rs_gzip_encoded resp then [(''Content-Encoding'', ''gzip'')] else [])
      else [])"

fun commas :: "string list \<Rightarrow> string" where
  "commas [] = []"
| "commas [s] = s"
| "commas (s # t # ss) = s @ '', '' @ commas (t # ss)"

definition age_text :: "int \<Rightarrow> string" where
  "age_text a = (if a = -1 then ''0'' else dec (to_ulong a))"

definition cache_directives :: "string nxweb_http_response \<Rightarrow> string list" where
  "cache_directives resp =
     (if rs_cache_private resp then [''private''] else []) @ (if rs_no_cache resp then [''no-cache''] else [])
     @ (if rs_max_age resp \<noteq> 0
        then [''max-age='' @ age_text (rs_max_age resp)] else [])"

definition cache_field :: "string nxweb_http_response \<Rightarrow> (string \<times> string) list" where
  "cache_field resp =
     (case rs_cache_control resp of Some cc \<Rightarrow> [(''Cache-Control'', cc)]
      | None \<Rightarrow> if cache_directives resp = [] then [] else [(''Cache-Control'', commas (cache_directives resp))])"

definition length_field :: "string nxweb_http_response \<Rightarrow> (string \<times> string) list" where
  "length_field resp =
     (if rs_content_length resp > 0 \<or> rs_content_length resp = 0 \<and> rs_status_code resp \<notin> {304, 204, 205}
      then [(''Content-Length'', dec (to_ulong (rs_content_length resp)))]
      else if rs_content_length resp < 0 then [(''Transfer-Encoding'', ''chunked'')] else [])"

text \<open>The headers in front of the raw ones, and those behind them.\<close>

definition head_fields :: "string \<Rightarrow> string \<Rightarrow> string nxweb_http_response \<Rightarrow> (string \<times> string) list" where
  "head_fields ver date resp =
     [(''Server'', ''nxweb/'' @ ver), (''Date'', date),
      (''Connection'', if rs_keep_alive resp then ''keep-alive'' else ''close'')]
     @ filter (\<lambda>h. \<not> own_header (header_id (fst h))) (rs_headers resp)"

definition entity_fields :: "string nxweb_http_response \<Rightarrow> (string \<times> string) list" where
  "entity_fields resp =
     type_fields resp @ date_field ''Last-Modified'' (rs_last_modified resp) @ opt_field ''ETag'' (rs_etag resp)
     @ date_field ''Expires'' (rs_expires resp) @ cache_field resp @ length_field resp"

definition response_head :: "string \<Rightarrow> string \<Rightarrow> string nxweb_http_response \<Rightarrow> string" where
  "response_head ver date resp =
     status_text (rs_http11 resp) (if rs_status_code resp \<noteq> 0 then rs_status_code resp else 200)
       (case rs_status resp of Some s \<Rightarrow> s | None \<Rightarrow> ''OK'')
     @ header_lines (head_fields ver date resp)
     @ (case rs_extra_raw_headers resp of None \<Rightarrow> [] | Some s \<Rightarrow> s)
     @ header_lines (entity_fields resp) @ CRLF"

section \<open>What the writers emit\<close>

lemma emits_num32: "emits r (f (dec (to_ulong v))) s r' \<Longrightarrow> emits r (\<lambda>nb. num32 v \<bind> (\<lambda>n. f n nb)) s r'"
  by (simp add: num32_ulong)

lemma emits_status_line:
  assumes "length ver \<le> 80" "length date \<le> 32"
  shows "emits r (put_status_line ver date resp)
    (status_text (rs_http11 resp) (if rs_status_code resp \<noteq> 0 then rs_status_code resp else 200)
       (case rs_status resp of Some s \<Rightarrow> s | None \<Rightarrow> ''OK'')
     @ header_lines [(''Server'', ''nxweb/'' @ ver), (''Date'', date),
        (''Connection'', if rs_keep_alive resp then ''keep-alive'' else ''close'')]) 0"
proof -
  let ?n = "dec (to_ulong (if rs_status_code resp \<noteq> 0 then rs_status_code resp else 200))"
  have n: "length ?n \<le> 20" by (rule length_dec_to_ulong)
  have tail: "emits 200 (\<lambda>nb. nxb_append_str_fast (CRLF @ ''Server: nxweb/'' @ ver @ CRLF @ ''Date: '') nb \<bind>
      (\<lambda>nb. nxb_append_str_fast date nb \<bind> (\<lambda>nb. nxb_append_str_fast (CRLF @ ''Connection: '') nb \<bind>
      (\<lambda>nb. nxb_append_str_fast (if rs_keep_alive resp then ''keep-alive'' else ''close'') nb \<bind> nxb_append_str_fast CRLF))))
    ((CRLF @ ''Server: nxweb/'' @ ver @ CRLF @ ''Date: '') @ date @ (CRLF @ ''Connection: '')
      @ (if rs_keep_alive resp then ''keep-alive'' else ''close'') @ CRLF) 0"
    by (intro emits_bind [OF emits_append_str_fast] emits_any [OF emits_append_str_fast]) (use assms in auto)
  have "emits r (put_status_line ver date resp)
    ([] @ ''HTTP/1.'' @ [if rs_http11 resp then CHR ''1'' else CHR ''0''] @ [SP] @ ?n @ [SP]
     @ (case rs_status resp of Some s \<Rightarrow> s | None \<Rightarrow> ''OK'') @ []
     @ ((CRLF @ ''Server: nxweb/'' @ ver @ CRLF @ ''Date: '') @ date @ (CRLF @ ''Connection: '')
        @ (if rs_keep_alive resp then ''keep-alive'' else ''close'') @ CRLF)) 0"
    unfolding put_status_line_def [abs_def] num32_ulong bind.simps
    by (intro emits_bind [OF emits_reserve_to] emits_bind [OF emits_append_fast] emits_bind [OF emits_append_char_fast]
        emits_bind [OF emits_append_str_fast] emits_bind [OF emits_str(1)] tail) (use n in auto)
  then show ?thesis by (rule emits_text) (simp add: status_text_def header_line_def)
qed

lemma emits_extra_headers:
  "\<forall>h \<in> set hs. NUL \<notin> set (fst h) \<Longrightarrow>
   emits r (nxweb_add_extra_response_headers hs) (header_lines (filter (\<lambda>h. \<not> own_header (header_id (fst h))) hs)) 0"
proof (induction hs arbitrary: r)
  case Nil
  then show ?case using emits_any [OF emits_Some] by (simp add: nxweb_add_extra_response_headers.simps [abs_def])
next
  case (Cons h hs)
  obtain name v where h: "h = (name, v)" by (cases h)
  have hid: "identify_http_header (name @ [NUL]) 0 0 = Some (header_id name)"
    using Cons.prems h by (intro identify_zero_length) auto
  have IH: "emits q (nxweb_add_extra_response_headers hs) (header_lines (filter (\<lambda>h. \<not> own_header (header_id (fst h))) hs)) 0" for q
    using Cons by simp
  show ?case
  proof (cases "own_header (header_id name)")
    case True
    then have "nxweb_add_extra_response_headers (h # hs) = nxweb_add_extra_response_headers hs"
      by (simp add: fun_eq_iff h hid)
    with True IH show ?thesis by (simp add: h)
  next
    case False
    have "nxweb_add_extra_response_headers (h # hs) = (\<lambda>nb. nxb_append_str name nb \<bind> (\<lambda>nb. nxb_append '': '' nb \<bind>
        (\<lambda>nb. nxb_append_str v nb \<bind> (\<lambda>nb. nxb_append_str CRLF nb \<bind> nxweb_add_extra_response_headers hs))))"
      using False by (simp add: fun_eq_iff h hid)
    moreover have "emits r (\<lambda>nb. nxb_append_str name nb \<bind> (\<lambda>nb. nxb_append '': '' nb \<bind>
        (\<lambda>nb. nxb_append_str v nb \<bind> (\<lambda>nb. nxb_append_str CRLF nb \<bind> nxweb_add_extra_response_headers hs))))
      (name @ '': '' @ v @ CRLF @ header_lines (filter (\<lambda>h. \<not> own_header (header_id (fst h))) hs)) 0"
      by (intro emits_bind [OF emits_str(1)] emits_bind [OF emits_str(2)] IH)
    ultimately show ?thesis using False by (simp add: h header_line_def)
  qed
qed

lemma emits_content_type: "emits r (put_content_type resp) (header_lines (type_fields resp)) 0"
  unfolding put_content_type_def [abs_def]
  by (rule emits_text, (rule emits_when emits_bind [OF emits_str(1)] emits_bind0 emits_opt emits_str)+)
    (auto simp: type_fields_def header_line_def split: option.splits)

lemma emits_date_header:
  assumes "t \<noteq> 0 \<Longrightarrow> tm_ok (gmtime t)" "length name + 32 \<le> room" "name = name' @ '': ''"
  shows "emits r (put_date_header room name t) (header_lines (date_field name' t)) 0"
proof (cases "t = 0")
  case True
  then show ?thesis using emits_any [OF emits_Some] by (simp add: put_date_header_def [abs_def] date_field_def)
next
  case False
  have "emits r (\<lambda>nb. nxb_reserve room nb \<bind> (\<lambda>nb. nxb_append_str_fast name nb \<bind> (\<lambda>nb. nxb_put_time t nb \<bind> nxb_append_str_fast CRLF)))
    ([] @ name @ http_date (gmtime t) @ CRLF) 0"
    using assms False length_http_date [of "gmtime t"]
    by (intro emits_bind [OF emits_reserve_to] emits_bind [OF emits_append_str_fast] emits_bind [OF emits_put_time]
        emits_any [OF emits_append_str_fast]) auto
  with False assms(3) show ?thesis by (simp add: put_date_header_def [abs_def] date_field_def header_line_def)
qed

lemma emits_etag: "emits r (put_etag resp) (header_lines (opt_field ''ETag'' (rs_etag resp))) 0"
  unfolding put_etag_def [abs_def]
  by (rule emits_text, (rule emits_opt emits_bind [OF emits_str(1)] emits_str)+)
    (auto simp: opt_field_def header_line_def split: option.splits)

lemma emits_max_age: "emits r (put_max_age a) (age_text a) 0"
  using emits_str by (cases "a = -1") (simp_all add: age_text_def put_max_age_def [abs_def] num32_ulong)

lemma emits_cache_control: "emits r (put_cache_control resp) (header_lines (cache_field resp)) 0"
proof (cases "rs_cache_control resp")
  case (Some cc)
  have "emits r (\<lambda>nb. nxb_append_str ''Cache-Control: '' nb \<bind> (\<lambda>nb. nxb_append_str cc nb \<bind> nxb_append CRLF))
    (''Cache-Control: '' @ cc @ CRLF) 0"
    by (intro emits_bind [OF emits_str(1)] emits_str)
  with Some show ?thesis by (simp add: put_cache_control_def [abs_def] cache_field_def header_line_def)
next
  case None
  define M where "M = put_max_age (rs_max_age resp)"
  have M: "emits q M (age_text (rs_max_age resp)) 0" for q
    unfolding M_def by (rule emits_max_age)
  define age where "age = age_text (rs_max_age resp)"
  note rules = emits_bind [OF emits_str(1)] emits_bind [OF emits_str(2)] emits_bind [OF M [folded age_def]] emits_str
  have spec: "cache_field resp = (if cache_directives resp = [] then [] else [(''Cache-Control'', commas (cache_directives resp))])"
    by (simp add: cache_field_def None)
  have dirs: "cache_directives resp = (if rs_cache_private resp then [''private''] else []) @ (if rs_no_cache resp then [''no-cache''] else [])
     @ (if rs_max_age resp \<noteq> 0 then [''max-age='' @ age] else [])" by (simp add: cache_directives_def age_def)
  show ?thesis
    unfolding put_cache_control_def [abs_def] None option.case put_comma_def M_def [symmetric] Let_def spec dirs
    by (cases "rs_cache_private resp"; cases "rs_no_cache resp"; cases "rs_max_age resp = 0";
        (simp add: emits_any [OF emits_Some]; fail | simp add: header_line_def, rule emits_text, (rule rules)+, simp))
qed

lemma emits_length: "emits r (put_length resp) (header_lines (length_field resp)) 0"
proof -
  define n where "n = dec (to_ulong (rs_content_length resp))"
  have n: "length n \<le> 20" unfolding n_def by (rule length_dec_to_ulong)
  have len: "emits r (\<lambda>nb. nxb_reserve 48 nb \<bind> (\<lambda>nb. (nxb_append_str_fast ''Content-Length: '' nb \<bind> nxb_append_str_fast n) \<bind> nxb_append_fast CRLF))
    ([] @ (''Content-Length: '' @ n) @ CRLF) 0"
    by (intro emits_bind [OF emits_reserve_to] emits_bind [OF emits_bind [OF emits_append_str_fast emits_append_str_fast]] emits_any [OF emits_append_fast])
      (use n in auto)
  have chk: "emits r (\<lambda>nb. nxb_reserve 48 nb \<bind> (\<lambda>nb. nxb_append_str_fast ''Transfer-Encoding: chunked'' nb \<bind> nxb_append_fast CRLF))
    ([] @ ''Transfer-Encoding: chunked'' @ CRLF) 0"
    by (intro emits_bind [OF emits_reserve_to] emits_bind [OF emits_append_str_fast] emits_any [OF emits_append_fast]) auto
  consider "rs_content_length resp < 0"
    | "rs_content_length resp > 0 \<or> rs_content_length resp = 0 \<and> rs_status_code resp \<notin> {304, 204, 205}"
    | "rs_content_length resp = 0" "rs_status_code resp \<in> {304, 204, 205}" by linarith
  then show ?thesis
  proof cases
    case 1
    with chk show ?thesis by (simp add: put_length_def [abs_def] length_field_def header_line_def)
  next
    case 2
    then have "put_length resp = (\<lambda>nb. nxb_reserve 48 nb \<bind> (\<lambda>nb. (nxb_append_str_fast ''Content-Length: '' nb \<bind> nxb_append_str_fast n) \<bind> nxb_append_fast CRLF))"
      by (auto simp: put_length_def fun_eq_iff num32_ulong n_def)
    with 2 len show ?thesis by (simp add: length_field_def header_line_def n_def)
  next
    case 3
    then show ?thesis using emits_any [OF emits_Some] by (auto simp: put_length_def [abs_def] length_field_def)
  qed
qed

text \<open>
  What a builder relies on: a date of a time before the year 2901, a version that is not longer
  than its reservation allows for, and names that are C strings.
\<close>

definition response_ok :: "string nxweb_http_response \<Rightarrow> bool" where
  "response_ok resp \<longleftrightarrow>
     0 \<le> rs_last_modified resp \<and> rs_last_modified resp < MAX_TIME \<and> 0 \<le> rs_expires resp \<and> rs_expires resp < MAX_TIME
     \<and> (\<forall>h \<in> set (rs_headers resp). NUL \<notin> set (fst h))"

lemma emits_response_head:
  assumes "response_ok resp" "length ver \<le> 80" "length date \<le> 32"
  shows "emits r (put_response_head ver date resp) (response_head ver date resp @ [NUL]) 0"
proof -
  have tms: "tm_ok (gmtime (rs_last_modified resp))" "tm_ok (gmtime (rs_expires resp))"
    using assms(1) gmtime_facts(2) by (auto simp: response_ok_def)
  have hs: "\<forall>h \<in> set (rs_headers resp). NUL \<notin> set (fst h)" using assms(1) by (simp add: response_ok_def)
  have lm: "emits q (put_date_header 48 ''Last-Modified: '' (rs_last_modified resp)) (header_lines (date_field ''Last-Modified'' (rs_last_modified resp))) 0"
    and ex: "emits q (put_date_header 42 ''Expires: '' (rs_expires resp)) (header_lines (date_field ''Expires'' (rs_expires resp))) 0" for q
    by (rule emits_date_header; simp add: tms)+
  note parts = emits_status_line [OF assms(2,3), of _ resp] emits_extra_headers [OF hs] emits_content_type
    emits_etag emits_cache_control emits_length emits_str
    lm ex
  show ?thesis unfolding put_response_head_def [abs_def]
    by (rule emits_text, (rule parts emits_bind0 emits_opt)+)
      (auto simp: response_head_def head_fields_def entity_fields_def)
qed

section \<open>A finished text\<close>

text \<open>
  \<open>finished nb s a n nb'\<close>: a stream begun in \<open>nb\<close> was finished as an object at \<open>a\<close> that holds the \<open>n\<close>
  bytes \<open>s\<close>; the arena is well formed, ready for a new stream, and no other object changed.
\<close>

definition finished :: "nxb_buffer \<Rightarrow> string \<Rightarrow> nat \<Rightarrow> nat \<Rightarrow> nxb_buffer \<Rightarrow> bool" where
  "finished nb s a n nb' \<longleftrightarrow>
     mem_read (nb_mem nb') a n = s \<and> n = length s \<and> nxb_ok nb' \<and> nb_limit nb' = None \<and> nxb_stream nb' = []
     \<and> nxb_frame (nxb_start_stream nb) nb'"

lemma start_stream_ok:
  assumes "nxb_ok nb"
  shows "nxb_ok (nxb_start_stream nb)" "nxb_stream (nxb_start_stream nb) = []" "nb_limit (nxb_start_stream nb) = nb_limit nb"
  using assms by (auto simp: nxb_start_stream_def nxb_unfinish_stream_def nxb_ok_def nxb_stream_def)

lemma emits_finished_room:
  assumes "emits r f s 0" "nxb_ok nb" "nb_limit nb = None" "r \<le> nxb_room (nxb_start_stream nb)"
  obtains nb1 a n nb2 where "f (nxb_start_stream nb) = Some nb1" "nxb_finish_stream nb1 = (a, n, nb2)" "finished nb s a n nb2"
proof -
  note st = start_stream_ok [OF assms(2)]
  obtain nb1 where 1: "f (nxb_start_stream nb) = Some nb1" "nxb_ok nb1" "nb_limit nb1 = None"
    "nxb_stream nb1 = nxb_stream (nxb_start_stream nb) @ s" "nxb_frame (nxb_start_stream nb) nb1"
    using emitsE [OF assms(1) st(1) _ assms(4)] st(3) assms(3) by auto
  have s: "mem_read (nb_mem nb1) (nb_base nb1) (nb_ptr nb1 - nb_base nb1) = s"
    using 1(4) st(2) by (simp add: nxb_stream_def)
  then have "nb_ptr nb1 - nb_base nb1 = length s" by auto
  moreover have "nxb_ok (nb1\<lparr>nb_base := nb_ptr nb1\<rparr>)" using 1(2) by (auto simp: nxb_ok_def)
  moreover have "nxb_frame (nxb_start_stream nb) (nb1\<lparr>nb_base := nb_ptr nb1\<rparr>)"
    using 1(5) by (simp add: nxb_frame_def)
  ultimately show ?thesis using 1(1,3) s
    by (intro that [OF 1(1)]) (auto simp: nxb_finish_stream_def finished_def nxb_stream_def)
qed

lemma emits_finished:
  assumes "emits 0 f s 0" "nxb_ok nb" "nb_limit nb = None"
  obtains nb1 a n nb2 where "f (nxb_start_stream nb) = Some nb1" "nxb_finish_stream nb1 = (a, n, nb2)" "finished nb s a n nb2"
  by (rule emits_finished_room [OF assms]) (auto intro: that)

lemma prepare_response_headers_run:
  assumes "response_ok resp" "length ver \<le> 80" "clock_ok lp" "0 \<le> now" "now < MAX_TIME" "nxb_ok nb" "nb_limit nb = None"
  shows "\<exists>a n lp' nb'. nxweb_prepare_response_headers ver now lp resp nb = Some (resp\<lparr>rs_raw_headers := Some a\<rparr>, lp', nb')
    \<and> finished nb (response_head ver (http_date (gmtime (lp_http_time lp'))) resp @ [NUL]) a n nb' \<and> clock_ok lp'"
proof -
  obtain lp' where lp': "nxe_get_current_http_time_str now lp = Some (http_date (gmtime (lp_http_time lp')), lp')" "clock_ok lp'"
    using current_http_time_str [OF assms(3-5)] by blast
  let ?d = "http_date (gmtime (lp_http_time lp'))"
  have "tm_ok (gmtime (lp_http_time lp'))" using lp'(2) by (intro gmtime_facts) (auto simp: clock_ok_def)
  then have "length ?d \<le> 32" using length_http_date by fastforce
  then obtain nb1 a n nb2 where out: "put_response_head ver ?d resp (nxb_start_stream nb) = Some nb1"
    "nxb_finish_stream nb1 = (a, n, nb2)" "finished nb (response_head ver ?d resp @ [NUL]) a n nb2"
    using emits_finished [OF emits_response_head [OF assms(1,2)] assms(6,7)] by metis
  have "nxweb_prepare_response_headers ver now lp resp nb = Some (resp\<lparr>rs_raw_headers := Some a\<rparr>, lp', nb2)"
    by (simp add: nxweb_prepare_response_headers_def lp'(1) out(1,2))
  with out(3) lp'(2) show ?thesis by blast
qed

text \<open>
  C29: The head of a response is written correctly and safely.  For every response the head in the
  arena is exactly the status line, the server's own headers, the added ones that do not clash with
  them, the raw ones, and the entity headers (type, length or chunked coding, validators, cache directives), ended
  by an empty line and a terminator; every unchecked append stays inside the room reserved before
  it, and no other byte of the arena changes.
\<close>

theorem prepare_response_headers_correct:
  assumes "response_ok resp" "length ver \<le> 80" "clock_ok lp" "0 \<le> now" "now < MAX_TIME" "nxb_ok nb" "nb_limit nb = None"
  shows "\<exists>a n lp' nb'. nxweb_prepare_response_headers ver now lp resp nb = Some (resp\<lparr>rs_raw_headers := Some a\<rparr>, lp', nb')
    \<and> finished nb (response_head ver (http_date (gmtime (lp_http_time lp'))) resp @ [NUL]) a n nb' \<and> clock_ok lp'"
  by (rule prepare_response_headers_run [OF assms])

definition sample_response :: "string nxweb_http_response" where
  "sample_response = response_zero\<lparr>rs_http11 := True, rs_keep_alive := True, rs_content_length := 5, rs_gzip_encoded := True,
     rs_content_charset := Some ''utf-8'', rs_headers := [(''X-A'', ''1''), (''Server'', ''other'')], rs_last_modified := 1327410354,
     rs_no_cache := True, rs_max_age := -1\<rparr>"

theorem prepare_response_headers_correct_witness:
  "\<exists>a n lp' nb'. nxweb_prepare_response_headers ''3.2'' 1327410354 sample_clock sample_response fresh_nxb
      = Some (sample_response\<lparr>rs_raw_headers := Some a\<rparr>, lp', nb')
    \<and> finished fresh_nxb (response_head ''3.2'' (http_date (gmtime (lp_http_time lp'))) sample_response @ [NUL]) a n nb' \<and> clock_ok lp'"
proof (rule prepare_response_headers_correct [OF _ _ sample_clock_ok])
  show "response_ok sample_response"
    by (simp add: response_ok_def sample_response_def response_zero_def MAX_TIME_def days_before_year_def)
  show "1327410354 < MAX_TIME" by (simp add: MAX_TIME_def days_before_year_def)
  show "nxb_ok fresh_nxb" "nb_limit fresh_nxb = None" using fresh_nxb_ok(1) fresh_nxb_eval(4) by simp_all
qed simp_all

end
