(* ===== verification/Nx_Http_Client.thy ===== *)
theory Nx_Http_Client
  imports Nx_Http_Head
begin

text \<open>
  The head of a request the server sends as a client, to a proxied back end
  (\<^verbatim>\<open>lib/http_utils.c\<close>, \<^verbatim>\<open>_nxweb_prepare_client_request_headers\<close>).
\<close>

section \<open>The request of a client\<close>

text \<open>
  The fields of \<^verbatim>\<open>nxweb_http_request\<close> that the function reads, with strings by value; \<open>cr_parents\<close> has the
  identifiers of the chain of parent requests, the root last.
\<close>

record client_request =
  cr_head_method :: bool
  cr_method :: string
  cr_uri :: string
  cr_http11 :: bool
  cr_host :: string
  cr_keep_alive :: bool
  cr_if_modified_since :: int
  cr_expect_100_continue :: bool
  cr_x_forwarded_ssl :: bool
  cr_x_forwarded_host :: "string option"
  cr_x_forwarded_for :: "string option"
  cr_uid :: nat
  cr_parents :: "nat list"
  cr_user_agent :: "string option"
  cr_cookie :: "string option"
  cr_headers :: "(string \<times> string) list"
  cr_accept_encoding :: "string option"
  cr_content_length :: int
  cr_content_type :: "string option"

section \<open>Writers\<close>

definition put_request_line :: "client_request \<Rightarrow> nxb_buffer \<Rightarrow> nxb_buffer option" where
  "put_request_line req nb = do {
     nb \<leftarrow> nxb_reserve 250 nb;
     nb \<leftarrow> nxb_append_str (if cr_head_method req then ''HEAD'' else cr_method req) nb;
     nb \<leftarrow> nxb_append_char_fast SP nb;
     nb \<leftarrow> nxb_append_str (cr_uri req) nb;
     nb \<leftarrow> nxb_append_fast '' HTTP/1.'' nb;
     nb \<leftarrow> nxb_append_char_fast (if cr_http11 req then CHR ''1'' else CHR ''0'') nb;
     nb \<leftarrow> nxb_reserve 100 nb;
     nb \<leftarrow> nxb_append_str_fast (CRLF @ ''Host: '') nb;
     nb \<leftarrow> nxb_append_str (cr_host req) nb;
     nb \<leftarrow> nxb_reserve 100 nb;
     nb \<leftarrow> nxb_append_str_fast (CRLF @ ''Connection: '') nb;
     nb \<leftarrow> nxb_append_str_fast (if cr_keep_alive req then ''keep-alive'' else ''close'') nb;
     nxb_append_str_fast CRLF nb }"

definition put_flags :: "client_request \<Rightarrow> nxb_buffer \<Rightarrow> nxb_buffer option" where
  "put_flags req nb = do {
     nb \<leftarrow> put_date_header 52 ''If-Modified-Since: '' (cr_if_modified_since req) nb;
     nb \<leftarrow> (if cr_expect_100_continue req then nxb_append_str_fast (''Expect: 100-continue'' @ CRLF) nb else Some nb);
     (if cr_x_forwarded_ssl req then nxb_append_str_fast (''X-NXWEB-Forwarded-SSL: ON'' @ CRLF) nb else Some nb) }"

definition put_opt_header :: "string \<Rightarrow> string option \<Rightarrow> nxb_buffer \<Rightarrow> nxb_buffer option" where
  "put_opt_header name v nb =
     (case v of None \<Rightarrow> Some nb
      | Some v \<Rightarrow> do {
          nb \<leftarrow> nxb_append_str name nb;
          nb \<leftarrow> nxb_append_str v nb;
          nxb_append_str CRLF nb })"

definition put_uid :: "string \<Rightarrow> nat \<Rightarrow> nxb_buffer \<Rightarrow> nxb_buffer option" where
  "put_uid name uid nb =
     (if uid \<noteq> 0 then do {
        nb \<leftarrow> nxb_append_str name nb;
        nb \<leftarrow> nxb_append_uint_hex_zeropad uid 16 nb;
        nxb_append_str CRLF nb }
      else Some nb)"

fun put_headers :: "(string \<times> string) list \<Rightarrow> nxb_buffer \<Rightarrow> nxb_buffer option" where
  "put_headers [] nb = Some nb"
| "put_headers ((name, v) # hs) nb = do {
     nb \<leftarrow> nxb_append_str name nb;
     nb \<leftarrow> nxb_append_char (CHR '':'') nb;
     nb \<leftarrow> nxb_append_char SP nb;
     nb \<leftarrow> nxb_append_str v nb;
     nb \<leftarrow> nxb_append_str CRLF nb;
     put_headers hs nb }"

definition put_content :: "client_request \<Rightarrow> nxb_buffer \<Rightarrow> nxb_buffer option" where
  "put_content req nb =
     (if cr_content_length req \<noteq> 0 then do {
        nb \<leftarrow> nxb_append_str ''Content-Type: '' nb;
        nb \<leftarrow> nxb_append_str (case cr_content_type req of Some s \<Rightarrow> s | None \<Rightarrow> ''application/x-www-form-urlencoded'') nb;
        nb \<leftarrow> nxb_append_str CRLF nb;
        nb \<leftarrow> nxb_reserve 48 nb;
        nb \<leftarrow> (if cr_content_length req \<ge> 0 then do {
                 nb \<leftarrow> nxb_append_str_fast ''Content-Length: '' nb;
                 n \<leftarrow> num32 (cr_content_length req);
                 nxb_append_str_fast n nb }
               else nxb_append_str_fast ''Transfer-Encoding: chunked'' nb);
        nxb_append_str CRLF nb }
      else Some nb)"

definition put_client_head :: "string \<Rightarrow> client_request \<Rightarrow> nxb_buffer \<Rightarrow> nxb_buffer option" where
  "put_client_head ver req nb = do {
     nb \<leftarrow> put_request_line req nb;
     nb \<leftarrow> put_flags req nb;
     nb \<leftarrow> put_opt_header ''X-NXWEB-Forwarded-Host: '' (cr_x_forwarded_host req) nb;
     nb \<leftarrow> put_opt_header ''X-NXWEB-Forwarded-IP: '' (cr_x_forwarded_for req) nb;
     nb \<leftarrow> put_uid ''X-NXWEB-Request-ID: '' (cr_uid req) nb;
     nb \<leftarrow> (if cr_parents req \<noteq> [] then put_uid ''X-NXWEB-Root-Request-ID: '' (last (cr_parents req)) nb else Some nb);
     nb \<leftarrow> (case cr_user_agent req of
              Some ua \<Rightarrow> put_opt_header ''User-Agent: '' (Some ua) nb
            | None \<Rightarrow> nxb_append_str (''User-Agent: nxweb/'' @ ver @ CRLF) nb);
     nb \<leftarrow> put_opt_header ''Cookie: '' (cr_cookie req) nb;
     nb \<leftarrow> put_headers (cr_headers req) nb;
     nb \<leftarrow> put_opt_header ''Accept-Encoding: '' (cr_accept_encoding req) nb;
     nb \<leftarrow> put_content req nb;
     nxb_append_fast (CRLF @ [NUL]) nb }"

definition nxweb_prepare_client_request_headers :: "string \<Rightarrow> client_request \<Rightarrow> nxb_buffer \<Rightarrow> (nat \<times> nxb_buffer) option" where
  "nxweb_prepare_client_request_headers ver req nb = do {
     nb \<leftarrow> put_client_head ver req (nxb_start_stream nb);
     let (a, _, nb) = nxb_finish_stream nb;
     Some (a, nb) }"

section \<open>The text of the head\<close>

definition uid_field :: "string \<Rightarrow> nat \<Rightarrow> (string \<times> string) list" where
  "uid_field name uid = (if uid \<noteq> 0 then [(name, hex_pad 16 uid)] else [])"

definition flag_field :: "string \<Rightarrow> string \<Rightarrow> bool \<Rightarrow> (string \<times> string) list" where
  "flag_field name v b = (if b then [(name, v)] else [])"

definition content_fields :: "client_request \<Rightarrow> (string \<times> string) list" where
  "content_fields req =
     (if cr_content_length req = 0 then []
      else [(''Content-Type'', case cr_content_type req of Some s \<Rightarrow> s | None \<Rightarrow> ''application/x-www-form-urlencoded''),
            (if cr_content_length req \<ge> 0 then (''Content-Length'', dec (to_ulong (cr_content_length req)))
             else (''Transfer-Encoding'', ''chunked''))])"

definition client_fields :: "string \<Rightarrow> client_request \<Rightarrow> (string \<times> string) list" where
  "client_fields ver req =
     [(''Host'', cr_host req), (''Connection'', if cr_keep_alive req then ''keep-alive'' else ''close'')]
     @ date_field ''If-Modified-Since'' (cr_if_modified_since req)
     @ flag_field ''Expect'' ''100-continue'' (cr_expect_100_continue req)
     @ flag_field ''X-NXWEB-Forwarded-SSL'' ''ON'' (cr_x_forwarded_ssl req)
     @ opt_field ''X-NXWEB-Forwarded-Host'' (cr_x_forwarded_host req)
     @ opt_field ''X-NXWEB-Forwarded-IP'' (cr_x_forwarded_for req)
     @ uid_field ''X-NXWEB-Request-ID'' (cr_uid req)
     @ (if cr_parents req \<noteq> [] then uid_field ''X-NXWEB-Root-Request-ID'' (last (cr_parents req)) else [])
     @ [(''User-Agent'', case cr_user_agent req of Some ua \<Rightarrow> ua | None \<Rightarrow> ''nxweb/'' @ ver)]
     @ opt_field ''Cookie'' (cr_cookie req) @ cr_headers req @ opt_field ''Accept-Encoding'' (cr_accept_encoding req)
     @ content_fields req"

definition client_head :: "string \<Rightarrow> client_request \<Rightarrow> string" where
  "client_head ver req =
     (if cr_head_method req then ''HEAD'' else cr_method req) @ '' '' @ cr_uri req @ '' HTTP/1.''
     @ [if cr_http11 req then CHR ''1'' else CHR ''0''] @ CRLF @ header_lines (client_fields ver req) @ CRLF"

section \<open>Numbers in hexadecimal\<close>

lemma emits_hex: "emits r (nxb_append_uint_hex_zeropad n k) (hex_pad k n) (r - k)"
proof (rule emitsI)
  fix nb
  assume a: "nxb_ok nb" "nb_limit nb = None" and r: "r \<le> nxb_room nb"
  obtain nb1 where 1: "nxb_make_room k nb = Some (True, nb1)" "nxb_ok nb1" "nb_limit nb1 = None"
    "nxb_stream nb1 = nxb_stream nb" "nxb_frame nb nb1" "max (nxb_room nb) k \<le> nxb_room nb1"
    using a by (rule nxb_make_room_ok)
  have "emits (max r k) (\<lambda>nb. do { b \<leftarrow> uint_to_hex_string_zeropad n (mem_read (nb_mem nb) (nb_ptr nb) k) 0 k False;
      Some (nb\<lparr>nb_mem := mem_write (nb_mem nb) (nb_ptr nb) b, nb_ptr := nb_ptr nb + length (hex_pad k n)\<rparr>) }) (hex_pad k n) (max r k - length (hex_pad k n))"
    by (rule emits_uint_buffer [where b = "hex_pad k n"])
      (use uint_to_hex_string_zeropad_correct [where xs = "[]" and ys = "[]" and k = k and n = n] in auto)
  from emitsE [OF this 1(2,3)] 1(6) r obtain nb2 where 2: "uint_to_hex_string_zeropad n (mem_read (nb_mem nb1) (nb_ptr nb1) k) 0 k False
      \<bind> (\<lambda>b. Some (nb1\<lparr>nb_mem := mem_write (nb_mem nb1) (nb_ptr nb1) b, nb_ptr := nb_ptr nb1 + length (hex_pad k n)\<rparr>)) = Some nb2"
    "nxb_ok nb2" "nb_limit nb2 = None" "nxb_stream nb2 = nxb_stream nb1 @ hex_pad k n" "nxb_frame nb1 nb2" "max r k - length (hex_pad k n) \<le> nxb_room nb2"
    by auto
  have "\<not> nb_end nb1 - nb_ptr nb1 < k" using 1(6) by (simp add: nxb_room_def)
  then have "nxb_append_uint_hex_zeropad n k nb = Some nb2" using 1(1) 2(1) by (simp add: nxb_append_uint_hex_zeropad_def)
  with 1 2 nxb_frame_trans [OF 1(5) 2(5)] show "\<exists>nb'. nxb_append_uint_hex_zeropad n k nb = Some nb' \<and> nxb_ok nb'
      \<and> nb_limit nb' = None \<and> nxb_stream nb' = nxb_stream nb @ hex_pad k n \<and> nxb_frame nb nb' \<and> r - k \<le> nxb_room nb'"
    by auto
qed

section \<open>Writers that fit\<close>

text \<open>
  \<open>fits f s\<close>: with room for its text \<open>s\<close> and 32 bytes more (the formatter of dates needs two), \<open>f\<close> emits exactly that text and uses no more of the
  room than its length.  Unlike \<open>emits\<close> with fixed numbers, this composes without any reservation,
  so it tells what the function does when the arena has room for all of the head.
\<close>

definition fits :: "(nxb_buffer \<Rightarrow> nxb_buffer option) \<Rightarrow> string \<Rightarrow> bool" where
  "fits f s \<longleftrightarrow> (\<forall>r. length s + 32 \<le> r \<longrightarrow> emits r f s (r - length s))"

named_theorems fits_rules "writers that fit"

lemma fits_bind [fits_rules]: "fits f s \<Longrightarrow> fits g t \<Longrightarrow> fits (\<lambda>nb. f nb \<bind> g) (s @ t)"
  unfolding fits_def
proof (intro allI impI)
  fix r
  assume f: "\<forall>r. length s + 32 \<le> r \<longrightarrow> emits r f s (r - length s)" and g: "\<forall>r. length t + 32 \<le> r \<longrightarrow> emits r g t (r - length t)"
    and r: "length (s @ t) + 32 \<le> r"
  have "emits r (\<lambda>nb. f nb \<bind> g) (s @ t) (r - length s - length t)"
  proof (rule emits_bind [of r f s "r - length s"])
    show "emits r f s (r - length s)" using f r by simp
    show "emits (r - length s) g t (r - length s - length t)" using g r by (auto dest: spec [of _ "r - length s"])
  qed
  then show "emits r (\<lambda>nb. f nb \<bind> g) (s @ t) (r - length (s @ t))" by simp
qed

lemma fits_if [fits_rules]: "(b \<Longrightarrow> fits f s) \<Longrightarrow> fits (\<lambda>nb. if b then f nb else Some nb) (if b then s else [])"
  using emits_Some by (cases b) (auto simp: fits_def)

lemma fits_opt [fits_rules]:
  "(\<And>x. v = Some x \<Longrightarrow> fits (f x) (s x)) \<Longrightarrow> fits (\<lambda>nb. case v of None \<Rightarrow> Some nb | Some x \<Rightarrow> f x nb) (case v of None \<Rightarrow> [] | Some x \<Rightarrow> s x)"
  using emits_Some by (cases v) (auto simp: fits_def)

lemma fits_text: "fits f s \<Longrightarrow> s = t \<Longrightarrow> fits f t" by simp

lemma fits_reserve [fits_rules]: "fits (nxb_reserve n) []"
  by (auto simp: fits_def intro: emits_weaken [OF emits_reserve])

lemma fits_append [fits_rules]:
  "fits (nxb_append s) s" "fits (nxb_append_str s) s" "fits (nxb_append_char c) [c]"
  "fits (nxb_append_fast s) s" "fits (nxb_append_str_fast s) s" "fits (nxb_append_char_fast c) [c]"
  using emits_append emits_append_str emits_append_char [of _ c] emits_append_fast emits_append_str_fast emits_append_char_fast [of _ c]
  by (auto simp: fits_def)

lemma fits_time [fits_rules]: "tm_ok (gmtime t) \<Longrightarrow> fits (nxb_put_time t) (http_date (gmtime t))"
  by (auto simp: fits_def intro!: emits_put_time)

lemma fits_num [fits_rules]: "fits (\<lambda>nb. num32 v \<bind> (\<lambda>n. nxb_append_str_fast n nb)) (dec (to_ulong v))"
  by (simp add: num32_ulong fits_append)

lemma fits_hex [fits_rules]: "fits (nxb_append_uint_hex_zeropad n k) (hex_pad k n)"
  using emits_hex by (simp add: fits_def)

lemma fits_headers: "fits (put_headers hs) (header_lines hs)"
proof (induction hs)
  case Nil
  have "put_headers [] = Some" by (simp add: fun_eq_iff)
  then show ?case using emits_Some by (simp add: fits_def)
next
  case (Cons h hs)
  obtain name v where h: "h = (name, v)" by (cases h)
  have eq: "put_headers (h # hs) = (\<lambda>nb. nxb_append_str name nb \<bind> (\<lambda>nb. nxb_append_char (CHR '':'') nb \<bind>
      (\<lambda>nb. nxb_append_char SP nb \<bind> (\<lambda>nb. nxb_append_str v nb \<bind> (\<lambda>nb. nxb_append_str CRLF nb \<bind> put_headers hs)))))"
    by (simp add: fun_eq_iff h)
  show ?case unfolding eq by (rule fits_text, (rule fits_bind fits_append Cons.IH)+) (simp add: h header_line_def)
qed

lemma fits_opt_header: "name = name' @ '': '' \<Longrightarrow> fits (put_opt_header name v) (header_lines (opt_field name' v))"
  unfolding put_opt_header_def [abs_def]
  by (rule fits_text, (rule fits_opt fits_bind fits_append)+) (auto simp: opt_field_def header_line_def split: option.split)

lemma fits_uid: "name = name' @ '': '' \<Longrightarrow> fits (put_uid name uid) (header_lines (uid_field name' uid))"
  unfolding put_uid_def [abs_def]
  by (rule fits_text, (rule fits_if fits_bind fits_append fits_hex)+) (auto simp: uid_field_def header_line_def)

lemma fits_date_header:
  assumes "t \<noteq> 0 \<Longrightarrow> tm_ok (gmtime t)" "name = name' @ '': ''"
  shows "fits (put_date_header room name t) (header_lines (date_field name' t))"
  unfolding put_date_header_def [abs_def]
  by (rule fits_text, (rule fits_if fits_bind fits_append fits_reserve fits_time assms(1) | assumption)+)
    (auto simp: date_field_def header_line_def assms(2))

lemma fits_content: "fits (put_content req) (header_lines (content_fields req))"
proof -
  have num: "fits (\<lambda>nb. if cr_content_length req \<ge> 0 then nxb_append_str_fast ''Content-Length: '' nb \<bind>
      (\<lambda>nb. num32 (cr_content_length req) \<bind> (\<lambda>n. nxb_append_str_fast n nb)) else nxb_append_str_fast ''Transfer-Encoding: chunked'' nb)
    (if cr_content_length req \<ge> 0 then ''Content-Length: '' @ dec (to_ulong (cr_content_length req)) else ''Transfer-Encoding: chunked'')"
    using fits_bind [OF fits_append(5) [of "''Content-Length: ''"] fits_num [of "cr_content_length req"]] fits_append(5) by (cases "cr_content_length req \<ge> 0") simp_all
  show ?thesis unfolding put_content_def [abs_def]
    by (rule fits_text, (rule fits_if fits_bind fits_append fits_reserve num)+)
      (auto simp: content_fields_def header_line_def)
qed

lemma fits_user_agent:
  "fits (\<lambda>nb. case ua of Some ua \<Rightarrow> put_opt_header ''User-Agent: '' (Some ua) nb | None \<Rightarrow> nxb_append_str (''User-Agent: nxweb/'' @ ver @ CRLF) nb)
    (header_line (''User-Agent'', case ua of Some ua \<Rightarrow> ua | None \<Rightarrow> ''nxweb/'' @ ver))"
proof (cases ua)
  case None
  then show ?thesis using fits_append(2) [of "''User-Agent: nxweb/'' @ ver @ CRLF"] by (simp add: header_line_def)
next
  case (Some u)
  then show ?thesis using fits_opt_header [of "''User-Agent: ''" "''User-Agent''" "Some u"] by (simp add: opt_field_def)
qed

lemma fits_client_head:
  assumes "cr_if_modified_since req \<noteq> 0 \<Longrightarrow> tm_ok (gmtime (cr_if_modified_since req))"
  shows "fits (put_client_head ver req) (client_head ver req @ [NUL])"
proof -
  have line: "fits (put_request_line req) ((if cr_head_method req then ''HEAD'' else cr_method req) @ [SP] @ cr_uri req @ '' HTTP/1.''
     @ [if cr_http11 req then CHR ''1'' else CHR ''0''] @ CRLF
     @ header_lines [(''Host'', cr_host req), (''Connection'', if cr_keep_alive req then ''keep-alive'' else ''close'')])"
    unfolding put_request_line_def [abs_def]
    by (rule fits_text, (rule fits_bind fits_append fits_reserve)+) (simp add: header_line_def)
  have flags: "fits (put_flags req) (header_lines (date_field ''If-Modified-Since'' (cr_if_modified_since req)
     @ flag_field ''Expect'' ''100-continue'' (cr_expect_100_continue req) @ flag_field ''X-NXWEB-Forwarded-SSL'' ''ON'' (cr_x_forwarded_ssl req)))"
    unfolding put_flags_def [abs_def]
    by (rule fits_text, (rule fits_bind fits_date_header [OF assms] fits_if fits_append | simp; fail)+)
      (simp add: flag_field_def header_line_def)
  have root: "fits (\<lambda>nb. if cr_parents req \<noteq> [] then put_uid ''X-NXWEB-Root-Request-ID: '' (last (cr_parents req)) nb else Some nb)
    (if cr_parents req \<noteq> [] then header_lines (uid_field ''X-NXWEB-Root-Request-ID'' (last (cr_parents req))) else [])"
    by (rule fits_if, rule fits_uid) simp
  note hs = fits_opt_header [of "''X-NXWEB-Forwarded-Host: ''" "''X-NXWEB-Forwarded-Host''"]
    fits_opt_header [of "''X-NXWEB-Forwarded-IP: ''" "''X-NXWEB-Forwarded-IP''"] fits_uid [of "''X-NXWEB-Request-ID: ''" "''X-NXWEB-Request-ID''"]
    fits_opt_header [of "''Cookie: ''" "''Cookie''"] fits_opt_header [of "''Accept-Encoding: ''" "''Accept-Encoding''"]
  show ?thesis unfolding put_client_head_def [abs_def]
    by (rule fits_text, (rule line flags root fits_user_agent fits_headers fits_content fits_append hs fits_bind | simp; fail)+)
      (simp add: client_head_def client_fields_def)
qed

section \<open>Writers within their reservations\<close>

text \<open>
  The other way to write the head safely: every unchecked append is inside the room reserved before it.  The method, the address and the version share 250
  bytes; the line after the host's, the date and the two flags share 100; the empty line at the end has no reservation
  of its own, but lives on the 48 bytes reserved for the length of a body.
\<close>

definition request_line :: "client_request \<Rightarrow> string" where
  "request_line req = (if cr_head_method req then ''HEAD'' else cr_method req) @ '' '' @ cr_uri req @ '' HTTP/1.''
     @ [if cr_http11 req then CHR ''1'' else CHR ''0'']"

definition flag_fields :: "client_request \<Rightarrow> (string \<times> string) list" where
  "flag_fields req = (''Connection'', if cr_keep_alive req then ''keep-alive'' else ''close'')
     # date_field ''If-Modified-Since'' (cr_if_modified_since req)
     @ flag_field ''Expect'' ''100-continue'' (cr_expect_100_continue req) @ flag_field ''X-NXWEB-Forwarded-SSL'' ''ON'' (cr_x_forwarded_ssl req)"

definition within_reserved :: "client_request \<Rightarrow> bool" where
  "within_reserved req \<longleftrightarrow> length (request_line req) \<le> 250 \<and> length (CRLF @ header_lines (flag_fields req)) \<le> 100 \<and> cr_content_length req \<noteq> 0"

lemma emits_in_room_if: "(b \<Longrightarrow> emits r f s (r - length s)) \<Longrightarrow> emits r (\<lambda>nb. if b then f nb else Some nb) (if b then s else []) (r - length (if b then s else []))"
  using emits_Some by (cases b) auto

lemma emits_date_in:
  assumes "t \<noteq> 0 \<Longrightarrow> tm_ok (gmtime t)" "length name + 32 \<le> n" "name = name' @ '': ''" "n \<le> r"
  shows "emits r (put_date_header n name t) (header_lines (date_field name' t)) (r - length (header_lines (date_field name' t)))"
proof (cases "t = 0")
  case True
  then show ?thesis using emits_Some by (simp add: put_date_header_def [abs_def] date_field_def)
next
  case False
  have l: "length (http_date (gmtime t)) \<le> 29" using length_http_date assms(1) False by blast
  have "emits r (\<lambda>nb. nxb_reserve n nb \<bind> (\<lambda>nb. nxb_append_str_fast name nb \<bind> (\<lambda>nb. nxb_put_time t nb \<bind> nxb_append_str_fast CRLF)))
      ([] @ name @ http_date (gmtime t) @ CRLF) (max r n - length name - length (http_date (gmtime t)) - length CRLF)"
    using assms False l
    by (intro emits_bind [OF emits_reserve] emits_bind [OF emits_append_str_fast] emits_bind [OF emits_put_time] emits_append_str_fast) auto
  then show ?thesis using False assms(3,4) by (simp add: put_date_header_def [abs_def] date_field_def header_line_def max_absorb1)
qed

lemma emits_request_line:
  assumes "length (request_line req) \<le> 250"
  shows "emits 0 (put_request_line req) (request_line req @ CRLF @ header_lines [(''Host'', cr_host req), (''Connection'', if cr_keep_alive req then ''keep-alive'' else ''close'')])
    (100 - length (CRLF @ header_lines [(''Connection'', if cr_keep_alive req then ''keep-alive'' else ''close'')]))"
proof -
  have l: "length (if cr_head_method req then ''HEAD'' else cr_method req) + length (cr_uri req) + 10 \<le> 250"
    using assms by (simp add: request_line_def)
  let ?c = "if cr_keep_alive req then ''keep-alive'' else ''close''"
  have c: "length ?c \<le> 10" by simp
  have tail: "emits r (\<lambda>nb. nxb_reserve 100 nb \<bind> (\<lambda>nb. nxb_append_str_fast (CRLF @ ''Host: '') nb \<bind> (\<lambda>nb. nxb_append_str (cr_host req) nb \<bind>
      (\<lambda>nb. nxb_reserve 100 nb \<bind> (\<lambda>nb. nxb_append_str_fast (CRLF @ ''Connection: '') nb \<bind> (\<lambda>nb. nxb_append_str_fast ?c nb \<bind> nxb_append_str_fast CRLF))))))
    ([] @ (CRLF @ ''Host: '') @ cr_host req @ [] @ (CRLF @ ''Connection: '') @ ?c @ CRLF) (100 - length (CRLF @ ''Connection: '') - length ?c - length CRLF)" for r
    by (intro emits_bind [OF emits_reserve_to] emits_bind [OF emits_append_str_fast] emits_bind [OF emits_append_str] emits_append_str_fast) auto
  have "emits 0 (put_request_line req) ([] @ (if cr_head_method req then ''HEAD'' else cr_method req) @ [SP] @ cr_uri req @ '' HTTP/1.''
      @ [if cr_http11 req then CHR ''1'' else CHR ''0''] @ ([] @ (CRLF @ ''Host: '') @ cr_host req @ [] @ (CRLF @ ''Connection: '') @ ?c @ CRLF))
      (100 - length (CRLF @ ''Connection: '') - length ?c - length CRLF)"
    unfolding put_request_line_def [abs_def]
    by (intro emits_bind [OF emits_reserve_to] emits_bind [OF emits_append_str] emits_bind [OF emits_append_char_fast]
        emits_bind [OF emits_append_fast] tail) (use l in auto)
  then show ?thesis by (simp add: request_line_def header_line_def)
qed

lemma emits_flags:
  assumes "cr_if_modified_since req \<noteq> 0 \<Longrightarrow> tm_ok (gmtime (cr_if_modified_since req))" "length (header_lines (tl (flag_fields req))) \<le> r" "52 \<le> r"
  shows "emits r (put_flags req) (header_lines (tl (flag_fields req))) 0"
proof -
  let ?d = "header_lines (date_field ''If-Modified-Since'' (cr_if_modified_since req))"
  let ?e = "if cr_expect_100_continue req then ''Expect: 100-continue'' @ CRLF else []"
  let ?f = "if cr_x_forwarded_ssl req then ''X-NXWEB-Forwarded-SSL: ON'' @ CRLF else []"
  have eq: "header_lines (tl (flag_fields req)) = ?d @ ?e @ ?f" by (simp add: flag_fields_def flag_field_def header_line_def)
  have l: "length ?d + length ?e + length ?f \<le> r" using assms(2) unfolding eq by simp
  have "emits r (put_flags req) (?d @ ?e @ ?f) (r - length ?d - length ?e - length ?f)"
    unfolding put_flags_def [abs_def]
    by (intro emits_bind [OF emits_date_in] emits_bind [OF emits_in_room_if] emits_in_room_if emits_append_str_fast) (use assms(1,3) l in auto)
  then show ?thesis unfolding eq by (rule emits_any)
qed

lemma emits_headers: "emits r (put_headers hs) (header_lines hs) 0"
proof (induction hs arbitrary: r)
  case Nil
  have "put_headers [] = Some" by (simp add: fun_eq_iff)
  then show ?case using emits_any [OF emits_Some] by simp
next
  case (Cons h hs)
  obtain name v where h: "h = (name, v)" by (cases h)
  have eq: "put_headers (h # hs) = (\<lambda>nb. nxb_append_str name nb \<bind> (\<lambda>nb. nxb_append_char (CHR '':'') nb \<bind>
      (\<lambda>nb. nxb_append_char SP nb \<bind> (\<lambda>nb. nxb_append_str v nb \<bind> (\<lambda>nb. nxb_append_str CRLF nb \<bind> put_headers hs)))))"
    by (simp add: fun_eq_iff h)
  show ?case unfolding eq
    by (rule emits_text, (rule emits_bind [OF emits_str(1)] emits_bind [OF emits_str(3)] Cons.IH)+) (simp add: h header_line_def)
qed

lemma emits_opt_header: "name = name' @ '': '' \<Longrightarrow> emits r (put_opt_header name v) (header_lines (opt_field name' v)) 0"
  unfolding put_opt_header_def [abs_def]
  by (rule emits_text, (rule emits_opt emits_bind [OF emits_str(1)] emits_str)+) (auto simp: opt_field_def header_line_def split: option.split)

lemma emits_uid: "name = name' @ '': '' \<Longrightarrow> emits r (put_uid name uid) (header_lines (uid_field name' uid)) 0"
  unfolding put_uid_def [abs_def]
  by (rule emits_text, (rule emits_when emits_bind [OF emits_str(1)] emits_bind [OF emits_any [OF emits_hex]] emits_str)+)
    (auto simp: uid_field_def header_line_def)

lemma emits_user_agent:
  "emits r (\<lambda>nb. case ua of Some ua \<Rightarrow> put_opt_header ''User-Agent: '' (Some ua) nb | None \<Rightarrow> nxb_append_str (''User-Agent: nxweb/'' @ ver @ CRLF) nb)
    (header_line (''User-Agent'', case ua of Some ua \<Rightarrow> ua | None \<Rightarrow> ''nxweb/'' @ ver)) 0"
proof (cases ua)
  case None
  then show ?thesis using emits_str(1) [of r "''User-Agent: nxweb/'' @ ver @ CRLF"] by (simp add: header_line_def)
next
  case (Some u)
  then show ?thesis using emits_opt_header [of "''User-Agent: ''" "''User-Agent''" r "Some u"] by (simp add: opt_field_def)
qed

lemma emits_content:
  assumes "cr_content_length req \<noteq> 0"
  shows "emits r (put_content req) (header_lines (content_fields req)) 3"
proof -
  let ?t = "case cr_content_type req of Some s \<Rightarrow> s | None \<Rightarrow> ''application/x-www-form-urlencoded''"
  let ?v = "if cr_content_length req \<ge> 0 then ''Content-Length: '' @ dec (to_ulong (cr_content_length req)) else ''Transfer-Encoding: chunked''"
  have d: "length (dec (to_ulong (cr_content_length req))) \<le> 20" by (rule length_dec_to_ulong)
  have num: "emits 48 (\<lambda>nb. if cr_content_length req \<ge> 0 then nxb_append_str_fast ''Content-Length: '' nb \<bind>
      (\<lambda>nb. num32 (cr_content_length req) \<bind> (\<lambda>n. nxb_append_str_fast n nb)) else nxb_append_str_fast ''Transfer-Encoding: chunked'' nb) ?v 5"
  proof (cases "cr_content_length req \<ge> 0")
    case True
    have "emits 48 (\<lambda>nb. nxb_append_str_fast ''Content-Length: '' nb \<bind> nxb_append_str_fast (dec (to_ulong (cr_content_length req))))
      (''Content-Length: '' @ dec (to_ulong (cr_content_length req))) (48 - length ''Content-Length: '' - length (dec (to_ulong (cr_content_length req))))"
      by (intro emits_bind [OF emits_append_str_fast] emits_append_str_fast) (use d in auto)
    then show ?thesis using True d by (simp add: num32_ulong emits_weaken)
  next
    case False
    have "emits 48 (nxb_append_str_fast ''Transfer-Encoding: chunked'') ''Transfer-Encoding: chunked'' (48 - length ''Transfer-Encoding: chunked'')"
      by (rule emits_append_str_fast) simp
    then show ?thesis using False by (simp add: emits_weaken)
  qed
  have "emits r (put_content req) (''Content-Type: '' @ ?t @ CRLF @ [] @ ?v @ CRLF) (5 - length CRLF)"
    unfolding put_content_def [abs_def] if_P [OF assms]
    by (intro emits_bind [OF emits_append_str] emits_bind [OF emits_reserve_to] emits_bind [OF num] emits_append_str)
  then show ?thesis by (rule emits_text [OF emits_weaken]) (use assms in \<open>auto simp: content_fields_def header_line_def\<close>)
qed

lemma emits_client_head:
  assumes "cr_if_modified_since req \<noteq> 0 \<Longrightarrow> tm_ok (gmtime (cr_if_modified_since req))" "within_reserved req"
  shows "emits 0 (put_client_head ver req) (client_head ver req @ [NUL]) 0"
proof -
  note within = assms(2) [unfolded within_reserved_def]
  let ?c = "100 - length (CRLF @ header_lines [(''Connection'', if cr_keep_alive req then ''keep-alive'' else ''close'')])"
  note line = emits_request_line [OF conjunct1 [OF within]]
  have fl: "header_lines (flag_fields req) = header_lines [(''Connection'', if cr_keep_alive req then ''keep-alive'' else ''close'')] @ header_lines (tl (flag_fields req))"
    by (simp add: flag_fields_def)
  have flags: "emits ?c (put_flags req) (header_lines (tl (flag_fields req))) 0"
    by (rule emits_flags [OF assms(1)]) (use within fl in \<open>auto simp: header_line_def\<close>)
  have root: "emits r (\<lambda>nb. if cr_parents req \<noteq> [] then put_uid ''X-NXWEB-Root-Request-ID: '' (last (cr_parents req)) nb else Some nb)
    (if cr_parents req \<noteq> [] then header_lines (uid_field ''X-NXWEB-Root-Request-ID'' (last (cr_parents req))) else []) 0" for r
    by (rule emits_when, rule emits_uid) simp
  have content: "emits r (put_content req) (header_lines (content_fields req)) 3" for r by (rule emits_content) (use within in simp)
  have fin: "emits 3 (nxb_append_fast (CRLF @ [NUL])) (CRLF @ [NUL]) 0" by (rule emits_any [OF emits_append_fast]) simp
  note hs = emits_opt_header [of "''X-NXWEB-Forwarded-Host: ''" "''X-NXWEB-Forwarded-Host''"]
    emits_opt_header [of "''X-NXWEB-Forwarded-IP: ''" "''X-NXWEB-Forwarded-IP''"] emits_uid [of "''X-NXWEB-Request-ID: ''" "''X-NXWEB-Request-ID''"]
    emits_opt_header [of "''Cookie: ''" "''Cookie''"] emits_opt_header [of "''Accept-Encoding: ''" "''Accept-Encoding''"]
  have rest: "emits 0 (\<lambda>nb. put_opt_header ''X-NXWEB-Forwarded-Host: '' (cr_x_forwarded_host req) nb \<bind>
      (\<lambda>nb. put_opt_header ''X-NXWEB-Forwarded-IP: '' (cr_x_forwarded_for req) nb \<bind>
      (\<lambda>nb. put_uid ''X-NXWEB-Request-ID: '' (cr_uid req) nb \<bind>
      (\<lambda>nb. (if cr_parents req \<noteq> [] then put_uid ''X-NXWEB-Root-Request-ID: '' (last (cr_parents req)) nb else Some nb) \<bind>
      (\<lambda>nb. (case cr_user_agent req of Some ua \<Rightarrow> put_opt_header ''User-Agent: '' (Some ua) nb
            | None \<Rightarrow> nxb_append_str (''User-Agent: nxweb/'' @ ver @ CRLF) nb) \<bind>
      (\<lambda>nb. put_opt_header ''Cookie: '' (cr_cookie req) nb \<bind> (\<lambda>nb. put_headers (cr_headers req) nb \<bind>
      (\<lambda>nb. put_opt_header ''Accept-Encoding: '' (cr_accept_encoding req) nb \<bind> (\<lambda>nb. put_content req nb \<bind> nxb_append_fast (CRLF @ [NUL]))))))))))
    (header_lines (opt_field ''X-NXWEB-Forwarded-Host'' (cr_x_forwarded_host req)) @ header_lines (opt_field ''X-NXWEB-Forwarded-IP'' (cr_x_forwarded_for req))
     @ header_lines (uid_field ''X-NXWEB-Request-ID'' (cr_uid req))
     @ (if cr_parents req \<noteq> [] then header_lines (uid_field ''X-NXWEB-Root-Request-ID'' (last (cr_parents req))) else [])
     @ header_line (''User-Agent'', case cr_user_agent req of Some ua \<Rightarrow> ua | None \<Rightarrow> ''nxweb/'' @ ver)
     @ header_lines (opt_field ''Cookie'' (cr_cookie req)) @ header_lines (cr_headers req)
     @ header_lines (opt_field ''Accept-Encoding'' (cr_accept_encoding req)) @ header_lines (content_fields req) @ CRLF @ [NUL]) 0"
    by (intro emits_bind [OF hs(1)] emits_bind [OF hs(2)] emits_bind [OF hs(3)] emits_bind [OF root] emits_bind [OF emits_user_agent]
        emits_bind [OF hs(4)] emits_bind [OF emits_headers] emits_bind [OF hs(5)] emits_bind [OF content] fin) simp_all
  show ?thesis unfolding put_client_head_def [abs_def]
    by (rule emits_text [OF emits_bind [OF line emits_bind [OF flags rest]]])
      (simp add: client_head_def client_fields_def flag_fields_def request_line_def)
qed

section \<open>Properties\<close>

text \<open>
  C31: The head of a client request is written exactly: request line, host, connection, validators, forwarding headers, identifiers, user agent,
  cookie, added headers, accepted codings and the framing of the body, each once and in order, ended by an empty line and a
  terminator, with no append outside the arena and no other object changed.  This holds in any arena for a request with a body
  whose method and address take no more than the 250 bytes and whose connection line, date and flags take no more than the 100 bytes that the
  code reserves for them; and for any request in an arena with room for all of it.
\<close>

theorem client_request_head_correct:
  assumes "cr_if_modified_since req \<noteq> 0 \<longrightarrow> 0 \<le> cr_if_modified_since req \<and> cr_if_modified_since req < MAX_TIME"
    "nxb_ok nb" "nb_limit nb = None" "within_reserved req \<or> length (client_head ver req) + 33 \<le> nxb_room (nxb_start_stream nb)"
  shows "\<exists>a n nb'. nxweb_prepare_client_request_headers ver req nb = Some (a, nb') \<and> finished nb (client_head ver req @ [NUL]) a n nb'"
proof -
  let ?s = "client_head ver req @ [NUL]"
  have tm: "cr_if_modified_since req \<noteq> 0 \<Longrightarrow> tm_ok (gmtime (cr_if_modified_since req))" using assms(1) gmtime_facts(2) by auto
  have em: "emits (nxb_room (nxb_start_stream nb)) (put_client_head ver req) ?s 0" using assms(4)
  proof
    assume "within_reserved req"
    from emits_client_head [OF tm this] show ?thesis by (rule emits_start)
  next
    assume "length (client_head ver req) + 33 \<le> nxb_room (nxb_start_stream nb)"
    then show ?thesis using fits_client_head [OF tm, where ver = ver] unfolding fits_def
      by (auto intro: emits_any dest!: spec [of _ "nxb_room (nxb_start_stream nb)"])
  qed
  obtain nb1 a n nb2 where "put_client_head ver req (nxb_start_stream nb) = Some nb1" "nxb_finish_stream nb1 = (a, n, nb2)"
    "finished nb ?s a n nb2"
    by (rule emits_finished_room [OF em assms(2,3)]) simp
  then show ?thesis by (auto simp: nxweb_prepare_client_request_headers_def)
qed

definition sample_client :: client_request where
  "sample_client = \<lparr>cr_head_method = False, cr_method = ''GET'', cr_uri = ''/'', cr_http11 = True, cr_host = ''h'', cr_keep_alive = True,
     cr_if_modified_since = 0, cr_expect_100_continue = False, cr_x_forwarded_ssl = False, cr_x_forwarded_host = None,
     cr_x_forwarded_for = None, cr_uid = 0, cr_parents = [], cr_user_agent = Some ''u'', cr_cookie = None, cr_headers = [],
     cr_accept_encoding = None, cr_content_length = 0, cr_content_type = None\<rparr>"

text \<open>An arena as \<^verbatim>\<open>nxb_create(256)\<close> makes it\<close>

definition nxb_256 :: nxb_buffer where
  "nxb_256 = snd (nxb_create 256 \<lparr>nb_base = 0, nb_ptr = 0, nb_end = 0, nb_chunks = [], nb_mem = (\<lambda>_. NUL),
     nb_brk = 4096, nb_limit = None, nb_freed = []\<rparr>)"

lemma nxb_256_eval:
  "nb_base nxb_256 = 4145" "nb_ptr nxb_256 = 4145" "nb_end nxb_256 = 4408" "nb_limit nxb_256 = None"
  "nb_brk nxb_256 = 4472" "nb_chunks nxb_256 = [\<lparr>nc_addr = 4128, nc_end = 4408, nc_should_free = False, nc_dirty = False\<rparr>]"
  by (simp_all add: nxb_256_def nxb_create_def nx_alloc_def nxb_init_def nxb_init_chunk_def align_up_def
      nc_buf_def nxb_consts Let_def)

lemma nxb_256_ok: "nxb_ok nxb_256" "nxb_start_stream nxb_256 = nxb_256"
  by (simp_all add: nxb_ok_def chunks_ok_def nxb_256_eval nc_buf_def nxb_consts nxb_start_stream_def)

text \<open>A request with a body, and a full arena.\<close>

definition sample_post :: client_request where
  "sample_post = sample_client\<lparr>cr_method := ''POST'', cr_uri := ''/form'', cr_if_modified_since := 1327410354, cr_expect_100_continue := True, cr_content_length := 7\<rparr>"

definition full_nxb :: nxb_buffer where
  "full_nxb = nxb_256\<lparr>nb_base := nb_end nxb_256, nb_ptr := nb_end nxb_256\<rparr>"

lemma full_nxb_ok: "nxb_ok full_nxb" "nb_limit full_nxb = None" "nxb_room full_nxb = 0"
  by (simp_all add: full_nxb_def nxb_room_def nxb_ok_def chunks_ok_def nxb_256_eval nc_buf_def nxb_consts)

theorem client_request_head_correct_witness:
  "(\<exists>a n nb'. nxweb_prepare_client_request_headers ''3.2'' sample_client nxb_256 = Some (a, nb')
     \<and> finished nxb_256 (client_head ''3.2'' sample_client @ [NUL]) a n nb')
   \<and> (\<exists>a n nb'. nxweb_prepare_client_request_headers ''3.2'' sample_post full_nxb = Some (a, nb')
     \<and> finished full_nxb (client_head ''3.2'' sample_post @ [NUL]) a n nb')"
proof
  have "length (client_head ''3.2'' sample_client) \<le> 100" by code_simp
  then have room: "length (client_head ''3.2'' sample_client) + 33 \<le> nxb_room (nxb_start_stream nxb_256)"
    by (simp add: nxb_256_ok nxb_256_eval nxb_room_def)
  show "\<exists>a n nb'. nxweb_prepare_client_request_headers ''3.2'' sample_client nxb_256 = Some (a, nb')
     \<and> finished nxb_256 (client_head ''3.2'' sample_client @ [NUL]) a n nb'"
    by (rule client_request_head_correct) (use room in \<open>simp_all add: nxb_256_ok nxb_256_eval sample_client_def\<close>)
  have tm: "0 \<le> cr_if_modified_since sample_post" "cr_if_modified_since sample_post < MAX_TIME"
    by (simp_all add: sample_post_def MAX_TIME_def days_before_year_def)
  have "length (http_date (gmtime 1327410354)) \<le> 29"
    by (rule length_http_date, rule gmtime_facts(2)) (simp_all add: MAX_TIME_def days_before_year_def)
  then have "within_reserved sample_post"
    by (simp add: within_reserved_def request_line_def flag_fields_def date_field_def flag_field_def sample_post_def sample_client_def header_line_def)
  then show "\<exists>a n nb'. nxweb_prepare_client_request_headers ''3.2'' sample_post full_nxb = Some (a, nb')
     \<and> finished full_nxb (client_head ''3.2'' sample_post @ [NUL]) a n nb'"
    by (intro client_request_head_correct) (use tm full_nxb_ok in auto)
qed

text \<open>
  The reservations of the client head are not enough: the room for the rest of the request
  line is reserved before a URI of any length is appended, so with a URI that just fits the
  arena the next unchecked append leaves it.
\<close>

lemma client_request_head_overruns:
  "nxb_ok nxb_256 \<and> nb_limit nxb_256 = None \<and>
   nxweb_prepare_client_request_headers ver (sample_client\<lparr>cr_uri := replicate 255 (CHR ''/'')\<rparr>) nxb_256 = None"
proof -
  let ?req = "sample_client\<lparr>cr_uri := replicate 255 (CHR ''/'')\<rparr>"
  have "put_request_line ?req nxb_256 = None"
    by (simp add: put_request_line_def sample_client_def nxb_reserve_def nxb_make_room_def nxb_append_str_def nxb_append_def
        nxb_append_char_fast_def nxb_append_fast_def nxb_256_eval)
  then have "put_client_head ver ?req nxb_256 = None" by (simp add: put_client_head_def)
  then show ?thesis by (simp add: nxweb_prepare_client_request_headers_def nxb_256_ok nxb_256_eval)
qed

end
