(* ===== verification/Nx_Http_Send.thy ===== *)
theory Nx_Http_Send
  imports Nx_Http_Head
begin

text \<open>
  The other ways to answer a request (\<^verbatim>\<open>lib/http_utils.c\<close>: \<^verbatim>\<open>nxweb_send_redirect2\<close>,
  \<^verbatim>\<open>nxweb_send_http_error\<close>, \<^verbatim>\<open>nxweb_send_file\<close>, \<^verbatim>\<open>nxweb_add_response_header_safe\<close>).
\<close>

section \<open>Cache directives\<close>

text \<open>
  The loop over the directives of \<^verbatim>\<open>Cache-Control\<close>, which occurs twice in the code.  It works on a
  copy of the value.  The state is the response and whether a directive was not recognised.
\<close>

definition cc_directive :: "mem \<Rightarrow> nat \<Rightarrow> nat option \<Rightarrow> 's nxweb_http_response \<times> bool \<Rightarrow> ('s nxweb_http_response \<times> bool) option" where
  "cc_directive m cc_name cc_value = (\<lambda>(resp, dirty). do {
     is_nc \<leftarrow> eq_lit m cc_name ''no-cache'';
     if is_nc then Some (resp\<lparr>rs_no_cache := True\<rparr>, dirty)
     else do {
       is_priv \<leftarrow> eq_lit m cc_name ''private'';
       if is_priv then Some (resp\<lparr>rs_cache_private := True\<rparr>, dirty)
       else do {
         is_age \<leftarrow> eq_lit m cc_name ''max-age'';
         case (is_age, cc_value) of
           (True, Some q) \<Rightarrow> do {
             c0 \<leftarrow> rd m q;
             zero \<leftarrow> (if c0 = CHR ''0'' then do { c1 \<leftarrow> rd m (q + 1); Some (c1 = NUL) } else Some False);
             if zero then Some (resp\<lparr>rs_max_age := -1\<rparr>, dirty)
             else do { n \<leftarrow> c_atol (drop q m); Some (resp\<lparr>rs_max_age := n\<rparr>, dirty) } }
         | _ \<Rightarrow> Some (resp, True) } } })"

definition cc_step :: "mem \<Rightarrow> nat \<Rightarrow> 's nxweb_http_response \<times> bool
    \<Rightarrow> (mem \<times> nat option \<times> 's nxweb_http_response \<times> bool) option" where
  "cc_step m p1 st = do {
     (m, p) \<leftarrow> cut_at (CHR '','') m p1;
     cc_name \<leftarrow> skip_leading m p1;
     (m, cc_value) \<leftarrow> cut_at (CHR ''='') m cc_name;
     (m, cc_value) \<leftarrow> (case cc_value of None \<Rightarrow> Some (m, None)
        | Some q \<Rightarrow> do { (m, q) \<leftarrow> nxweb_trunc_space m q; Some (m, Some q) });
     st \<leftarrow> cc_directive m cc_name cc_value st;
     Some (m, p, st) }"

lemma cc_step_next:
  assumes "cc_step m p1 st = Some (m', p, st')"
  shows "length m' = length m \<and> (\<forall>q. p = Some q \<longrightarrow> p1 < q \<and> q \<le> length m)"
proof -
  from assms obtain m1 nm m2 v where s: "cut_at (CHR '','') m p1 = Some (m1, p)" "cut_at (CHR ''='') m1 nm = Some (m2, v)"
    "m' = m2 \<or> (\<exists>q q'. nxweb_trunc_space m2 q = Some (m', q'))"
    unfolding cc_step_def by (fastforce simp: bind_Some_iff split: option.splits)
  then have "length m' = length m2" by (auto dest!: trunc_space_length)
  with cut_at_next [OF s(1)] cut_at_next [OF s(2)] show ?thesis by simp
qed

function cc_loop :: "mem \<Rightarrow> nat option \<Rightarrow> 's nxweb_http_response \<times> bool \<Rightarrow> ('s nxweb_http_response \<times> bool) option" where
  "cc_loop m None st = Some st"
| "cc_loop m (Some p1) st = do { (m, p, st) \<leftarrow> cc_step m p1 st; cc_loop m p st }"
  by pat_completeness auto
termination
  by (relation "measure (\<lambda>(m, p, st). case p of None \<Rightarrow> 0 | Some q \<Rightarrow> Suc (length m - q))")
    (auto split: option.split dest!: cc_step_next, linarith)

section \<open>Adding a header safely\<close>

text \<open>
  \<^verbatim>\<open>nxweb_add_response_header_safe\<close> files a header under the field it belongs to, or drops it when the
  server sets it itself.  \<open>keep s\<close> is \<^verbatim>\<open>nxb_copy_str\<close>: the copy lives in the arena.
\<close>

definition keep :: "string \<Rightarrow> nxb_buffer \<Rightarrow> nxb_buffer option" where
  "keep s nb = map_option snd (nxb_copy_str s nb)"

text \<open>\<^verbatim>\<open>sizeof(nxweb_http_header)\<close>: three pointers of eight bytes.\<close>

definition SIZEOF_HTTP_HEADER :: nat where
  "SIZEOF_HTTP_HEADER = 24"

definition store_cache_control :: "string \<Rightarrow> string nxweb_http_response \<Rightarrow> nxb_buffer
    \<Rightarrow> (string nxweb_http_response \<times> nxb_buffer) option" where
  "store_cache_control v resp nb =
     (if v = [] then Some (resp, nb)
      else do {
        nb \<leftarrow> keep v nb;
        (resp, dirty) \<leftarrow> cc_loop (v @ [NUL]) (Some 0) (resp, False);
        if dirty then do { nb \<leftarrow> keep v nb; Some (resp\<lparr>rs_cache_control := Some v\<rparr>, nb) }
        else Some (resp, nb) })"

definition nxweb_add_response_header_safe :: "string \<Rightarrow> string \<Rightarrow> string nxweb_http_response \<Rightarrow> nxb_buffer
    \<Rightarrow> (string nxweb_http_response \<times> nxb_buffer) option" where
  "nxweb_add_response_header_safe name v resp nb = do {
     hid \<leftarrow> identify_http_header (name @ [NUL]) 0 (length name);
     if hid = NXWEB_HTTP_CONTENT_TYPE then do { nb \<leftarrow> keep v nb; Some (resp\<lparr>rs_content_type := Some v\<rparr>, nb) }
     else if hid \<in> {NXWEB_HTTP_CONTENT_LENGTH, NXWEB_HTTP_TRANSFER_ENCODING, NXWEB_HTTP_CONNECTION,
                    NXWEB_HTTP_KEEP_ALIVE, NXWEB_HTTP_DATE} then Some (resp, nb)
     else if hid = NXWEB_HTTP_X_NXWEB_SSI then do { on \<leftarrow> eq_lit (v @ [NUL]) 0 ''ON''; Some (resp\<lparr>rs_ssi_on := on\<rparr>, nb) }
     else if hid = NXWEB_HTTP_X_NXWEB_TEMPLATES then do { on \<leftarrow> eq_lit (v @ [NUL]) 0 ''ON''; Some (resp\<lparr>rs_templates_on := on\<rparr>, nb) }
     else if hid = NXWEB_HTTP_LAST_MODIFIED then do { t \<leftarrow> nxweb_parse_http_time (v @ [NUL]); Some (resp\<lparr>rs_last_modified := t\<rparr>, nb) }
     else if hid = NXWEB_HTTP_EXPIRES then do { t \<leftarrow> nxweb_parse_http_time (v @ [NUL]); Some (resp\<lparr>rs_expires := t\<rparr>, nb) }
     else if hid = NXWEB_HTTP_CACHE_CONTROL then store_cache_control v resp nb
     else if hid = NXWEB_HTTP_ETAG then do { nb \<leftarrow> keep v nb; Some (resp\<lparr>rs_etag := Some v\<rparr>, nb) }
     else do {
       (_, nb) \<leftarrow> nxb_calloc_obj SIZEOF_HTTP_HEADER nb;
       nb \<leftarrow> keep name nb; nb \<leftarrow> keep v nb;
       Some (resp\<lparr>rs_headers := (name, v) # rs_headers resp\<rparr>, nb) } }"

section \<open>Redirects and errors\<close>

text \<open>
  Dropping a file that was to be sent; the result has the descriptors that are closed.
\<close>

definition drop_sendfile :: "'s nxweb_http_response \<Rightarrow> int list \<times> 's nxweb_http_response" where
  "drop_sendfile resp =
     (if rs_sendfile_fd resp > 0 then [rs_sendfile_fd resp] else [],
      resp\<lparr>rs_sendfile_path := None, rs_sendfile_fd := 0, rs_content_out := None\<rparr>)"

definition redirect_status :: "int \<Rightarrow> string" where
  "redirect_status n = (if n = 302 then ''Found'' else if n = 301 then ''Moved Permanently'' else ''Redirect'')"

text \<open>
  \<^verbatim>\<open>strncmp(location, "http://", 7)\<close> and \<^verbatim>\<open>strncmp(location, "https://", 7)\<close>: of the second
  literal only seven characters are compared.
\<close>

definition absolute_location :: "string \<Rightarrow> bool option" where
  "absolute_location location = do {
     http \<leftarrow> has_prefix (location @ [NUL]) ''http://'';
     if http then Some True else has_prefix (location @ [NUL]) ''https:/'' }"

definition put_location :: "string option \<Rightarrow> string \<Rightarrow> string option \<Rightarrow> bool \<Rightarrow> nxb_buffer \<Rightarrow> nxb_buffer option" where
  "put_location host location path_info secure nb = do {
     abs \<leftarrow> absolute_location location;
     nb \<leftarrow> (if abs then nxb_append_str location nb
            else do {
              nb \<leftarrow> nxb_append_str ''http'' nb;
              nb \<leftarrow> (if secure then nxb_append_char (CHR ''s'') nb else Some nb);
              nb \<leftarrow> nxb_append_str ''://'' nb;
              host \<leftarrow> host;
              nb \<leftarrow> nxb_append_str host nb;
              nxb_append_str location nb });
     (case path_info of None \<Rightarrow> Some nb | Some s \<Rightarrow> nxb_append_str s nb) }"

definition put_redirect_head :: "string \<Rightarrow> string \<Rightarrow> int \<Rightarrow> string nxweb_http_response \<Rightarrow> string \<Rightarrow> string option \<Rightarrow> bool
    \<Rightarrow> nxb_buffer \<Rightarrow> nxb_buffer option" where
  "put_redirect_head ver date n resp location path_info secure nb = do {
     nb \<leftarrow> nxb_reserve 250 nb;
     nb \<leftarrow> nxb_append_fast ''HTTP/1.'' nb;
     nb \<leftarrow> nxb_append_char_fast (if rs_http11 resp then CHR ''1'' else CHR ''0'') nb;
     nb \<leftarrow> nxb_append_char_fast SP nb;
     num \<leftarrow> num32 n;
     nb \<leftarrow> nxb_append_str_fast num nb;
     nb \<leftarrow> nxb_append_char_fast SP nb;
     nb \<leftarrow> nxb_append_str (redirect_status n) nb;
     nb \<leftarrow> nxb_append_str_fast (CRLF @ ''Server: nxweb/'' @ ver @ CRLF @ ''Date: '') nb;
     nb \<leftarrow> nxb_append_str_fast date nb;
     nb \<leftarrow> nxb_append_str_fast (CRLF @ ''Connection: '') nb;
     nb \<leftarrow> nxb_append_str_fast (if rs_keep_alive resp then ''keep-alive'' else ''close'') nb;
     nb \<leftarrow> nxb_append_str_fast (CRLF @ ''Content-Length: 0'' @ CRLF @ ''Location: '') nb;
     nb \<leftarrow> put_location (rs_host resp) location path_info secure nb;
     nxb_append (CRLF @ CRLF @ [NUL]) nb }"

definition nxweb_send_redirect2 :: "string \<Rightarrow> int \<Rightarrow> nxe_clock \<Rightarrow> int \<Rightarrow> string \<Rightarrow> string option \<Rightarrow> bool
    \<Rightarrow> string nxweb_http_response \<Rightarrow> nxb_buffer
    \<Rightarrow> (int list \<times> string nxweb_http_response \<times> nxe_clock \<times> nxb_buffer) option" where
  "nxweb_send_redirect2 ver now lp n location location_path_info secure resp nb = do {
     let nb = nxb_start_stream nb;
     let resp = resp\<lparr>rs_status_code := n, rs_status := Some (redirect_status n), rs_content := None,
                     rs_content_type := None, rs_content_length := 0\<rparr>;
     let (closed, resp) = drop_sendfile resp;
     (date, lp) \<leftarrow> nxe_get_current_http_time_str now lp;
     nb \<leftarrow> put_redirect_head ver date n resp location location_path_info secure nb;
     let (raw_headers, _, nb) = nxb_finish_stream nb;
     Some (closed, resp\<lparr>rs_raw_headers := Some raw_headers\<rparr>, lp, nb) }"

definition nxweb_send_redirect :: "string \<Rightarrow> int \<Rightarrow> nxe_clock \<Rightarrow> int \<Rightarrow> string \<Rightarrow> bool
    \<Rightarrow> string nxweb_http_response \<Rightarrow> nxb_buffer
    \<Rightarrow> (int list \<times> string nxweb_http_response \<times> nxe_clock \<times> nxb_buffer) option" where
  "nxweb_send_redirect ver now lp n location secure resp nb = nxweb_send_redirect2 ver now lp n location None secure resp nb"

definition put_error_body :: "string \<Rightarrow> string \<Rightarrow> nxb_buffer \<Rightarrow> nxb_buffer option" where
  "put_error_body ver message nb = do {
     nb \<leftarrow> nxb_append_str (''<html>'' @ [LF] @ ''<head><title>'') nb;
     nb \<leftarrow> nxb_append_str message nb;
     nb \<leftarrow> nxb_append_str (''</title></head>'' @ [LF] @ ''<body>'' @ [LF] @ ''<h1>'') nb;
     nb \<leftarrow> nxb_append_str message nb;
     nxb_append_str (''</h1>'' @ [LF] @ ''<p>nxweb/'' @ ver @ ''</p>'' @ [LF] @ ''</body>'' @ [LF] @ ''</html>'') nb }"

definition nxweb_send_http_error :: "string \<Rightarrow> int \<Rightarrow> string \<Rightarrow> string nxweb_http_response \<Rightarrow> nxb_buffer
    \<Rightarrow> (int list \<times> string nxweb_http_response \<times> nxb_buffer) option" where
  "nxweb_send_http_error ver n message resp nb = do {
     let resp = nxweb_set_response_status n message resp;
     nb \<leftarrow> put_error_body ver message (nxb_start_stream nb);
     let (content, sz, nb) = nxb_finish_stream nb;
     let resp = resp\<lparr>rs_content := Some (Ptr content), rs_content_length := int sz, rs_content_type := Some ''text/html''\<rparr>;
     let (closed, resp) = drop_sendfile resp;
     Some (closed, resp, nb) }"

section \<open>Sending a file\<close>

text \<open>
  \<open>stat\<close> is the system call, \<open>mime\<close> the state of the MIME table.  A null path cancels.  The result
  has the return value, the descriptors closed and the response.  With a gzipped file of unknown type the
  name is looked up without its \<^verbatim>\<open>.gz\<close>; a name of fewer than three bytes is read before its start.
\<close>

definition ends_with_gz :: "string \<Rightarrow> bool option" where
  "ends_with_gz fpath =
     (let n = length fpath in
      if n < 3 then None else Some (fpath ! (n - 3) = CHR ''.'' \<and> fpath ! (n - 2) = CHR ''g'' \<and> fpath ! (n - 1) = CHR ''z''))"

definition guess_type :: "mime_state \<Rightarrow> bool \<Rightarrow> string \<Rightarrow> nxweb_mime_type option" where
  "guess_type mime gzip_encoded fpath = do {
     gz \<leftarrow> (if gzip_encoded then ends_with_gz fpath else Some False);
     Some (nxweb_get_mime_type_by_ext mime (if gz then take (length fpath - 3) fpath else fpath)) }"

definition sendfile_fields :: "string \<Rightarrow> file_stat \<Rightarrow> bool \<Rightarrow> int \<Rightarrow> int \<Rightarrow> string nxweb_http_response \<Rightarrow> string nxweb_http_response" where
  "sendfile_fields fpath finfo gzip_encoded offset sz resp =
     (let len = (if sz \<noteq> 0 then sz else st_size finfo - offset) in
      resp\<lparr>rs_sendfile_path := Some fpath, rs_sendfile_offset := offset, rs_content_length := len,
           rs_sendfile_end := offset + len, rs_last_modified := st_mtime finfo, rs_gzip_encoded := gzip_encoded\<rparr>)"

definition type_fields_of :: "nxweb_mime_type \<Rightarrow> string option \<Rightarrow> string nxweb_http_response \<Rightarrow> string nxweb_http_response" where
  "type_fields_of mtype charset resp =
     (let resp = resp\<lparr>rs_mtype := Some mtype, rs_content_type := Some (mt_mime mtype)\<rparr> in
      if mt_charset_required mtype then resp\<lparr>rs_content_charset := charset\<rparr> else resp)"

definition nxweb_send_file :: "(string \<Rightarrow> file_stat option) \<Rightarrow> mime_state \<Rightarrow> string nxweb_http_response \<Rightarrow> string option
    \<Rightarrow> file_stat option \<Rightarrow> bool \<Rightarrow> int \<Rightarrow> int \<Rightarrow> nxweb_mime_type option \<Rightarrow> string option
    \<Rightarrow> (int \<times> int list \<times> string nxweb_http_response) option" where
  "nxweb_send_file stat mime resp fpath finfo gzip_encoded offset sz mtype charset =
     (case fpath of
        None \<Rightarrow> Some (0, if rs_sendfile_fd resp \<noteq> 0 then [rs_sendfile_fd resp] else [],
          resp\<lparr>rs_sendfile_fd := 0, rs_sendfile_offset := 0, rs_sendfile_end := 0, rs_content_type := None, rs_content_length := 0\<rparr>)
      | Some fpath \<Rightarrow>
          (let given = (case finfo of None \<Rightarrow> None | Some f \<Rightarrow> if st_ino f = 0 then None else Some f) in
           case (case given of None \<Rightarrow> stat fpath | Some f \<Rightarrow> Some f) of
             None \<Rightarrow> Some (-1, [], resp)
           | Some f \<Rightarrow>
               (let resp = (if given = None then resp\<lparr>rs_sendfile_info := f\<rparr> else resp) in
                if S_ISDIR (st_mode f) then Some (-2, [], resp)
                else if \<not> S_ISREG (st_mode f) then Some (-3, [], resp)
                else do {
                  let resp = sendfile_fields fpath f gzip_encoded offset sz resp;
                  mtype \<leftarrow> (case mtype of Some t \<Rightarrow> Some t | None \<Rightarrow> guess_type mime gzip_encoded fpath);
                  Some (0, [], type_fields_of mtype charset (resp\<lparr>rs_sendfile_info := f\<rparr>)) })))"

section \<open>What the directives mean\<close>

fun split_on :: "char \<Rightarrow> string \<Rightarrow> string list" where
  "split_on x [] = [[]]"
| "split_on x (c # s) = (if c = x then [] # split_on x s else (c # hd (split_on x s)) # tl (split_on x s))"

lemma split_on_nonempty [simp]: "split_on x s \<noteq> []"
  by (cases s) auto

lemma split_on_single: "x \<notin> set s \<Longrightarrow> split_on x s = [s]"
  by (induction s) auto

lemma split_on_append: "x \<notin> set u \<Longrightarrow> split_on x (u @ x # w) = u # split_on x w"
  by (induction u) auto

definition directive_name :: "string \<Rightarrow> string" where
  "directive_name d = takeWhile (\<lambda>c. c \<noteq> CHR ''='') (dropWhile le_sp d)"

definition directive_value :: "string \<Rightarrow> string option" where
  "directive_value d =
     (if CHR ''='' \<in> set (dropWhile le_sp d) then Some (trim (drop (length (directive_name d) + 1) (dropWhile le_sp d))) else None)"

definition cc_apply :: "string \<Rightarrow> 's nxweb_http_response \<times> bool \<Rightarrow> 's nxweb_http_response \<times> bool" where
  "cc_apply d = (\<lambda>(resp, dirty).
     if same_nocase (directive_name d) ''no-cache'' then (resp\<lparr>rs_no_cache := True\<rparr>, dirty)
     else if same_nocase (directive_name d) ''private'' then (resp\<lparr>rs_cache_private := True\<rparr>, dirty)
     else case (same_nocase (directive_name d) ''max-age'', directive_value d) of
       (True, Some v) \<Rightarrow> (resp\<lparr>rs_max_age := (if v = ''0'' then -1 else the (c_atol (v @ [NUL])))\<rparr>, dirty)
     | _ \<Rightarrow> (resp, True))"

lemma cc_directive_refines:
  assumes n: "NUL \<notin> set n" "m = A @ n @ NUL # R" "p = length A"
    and v: "case (q, v) of (None, None) \<Rightarrow> True | (Some q, Some v) \<Rightarrow> cstr_at m q v | _ \<Rightarrow> False"
    and d: "directive_name d = n" "directive_value d = v"
  shows "cc_directive m p q st = Some (cc_apply d st)"
proof -
  obtain resp dirty where st: "st = (resp, dirty)" by (cases st)
  have e: "eq_lit m p lit = Some (same_nocase n lit)" if "NUL \<notin> set lit" for lit
    using eq_lit_split [OF n(1) that] n(2,3) by simp
  note lits = e [of "''no-cache''"] e [of "''private''"] e [of "''max-age''"]
  show ?thesis
  proof (cases q)
    case None
    with v have "v = None" by (cases v) auto
    with None lits show ?thesis by (simp add: cc_directive_def cc_apply_def d st split: bool.split)
  next
    case (Some q')
    with v obtain w where w: "v = Some w" "cstr_at m q' w" by (cases v) auto
    from w(2) obtain xs ys where m: "m = xs @ w @ NUL # ys" "length xs = q'" "NUL \<notin> set w" by (rule cstr_at_decomp)
    have zero: "do { c0 \<leftarrow> rd m q'; zero \<leftarrow> (if c0 = CHR ''0'' then do { c1 \<leftarrow> rd m (q' + 1); Some (c1 = NUL) } else Some False);
        if zero then Some (resp\<lparr>rs_max_age := -1\<rparr>, dirty)
        else do { n \<leftarrow> c_atol (drop q' m); Some (resp\<lparr>rs_max_age := n\<rparr>, dirty) } }
      = Some (resp\<lparr>rs_max_age := (if w = ''0'' then -1 else the (c_atol (w @ [NUL])))\<rparr>, dirty)"
    proof -
      have num: "c_atol (drop q' m) = Some (the (c_atol (w @ [NUL])))"
        using c_atol_total [of w] c_atol_NUL [of w ys] m by auto
      show ?thesis
      proof (cases w)
        case Nil
        with m num show ?thesis by auto
      next
        case (Cons c w')
        have "rd m q' = Some c" using m Cons by auto
        moreover have "rd m (q' + 1) = Some (case w' of [] \<Rightarrow> NUL | x # _ \<Rightarrow> x)"
          using m Cons rd_split [of "xs @ [c]" "hd (w' @ [NUL])" "tl (w' @ [NUL]) @ ys"] by (cases w') auto
        moreover have "(case w' of [] \<Rightarrow> NUL | x # _ \<Rightarrow> x) = NUL \<longleftrightarrow> w' = []" using m(3) Cons by (cases w') auto
        ultimately show ?thesis using num Cons by auto
      qed
    qed
    from lits zero Some w(1) show ?thesis by (simp add: cc_directive_def cc_apply_def d st split: bool.split)
  qed
qed

lemma cc_step_refines:
  assumes nn: "NUL \<notin> set d" "CHR '','' \<notin> set d"
    and cut: "cut_at (CHR '','') m (length A) = Some (A @ d @ NUL # R, p)"
  shows "\<exists>d'. length d' = length d \<and> cc_step m (length A) st = Some (A @ d' @ NUL # R, p, cc_apply d st)"
proof -
  define lead e where "lead = takeWhile le_sp d" and "e = dropWhile le_sp d"
  have d: "d = lead @ e" by (simp add: lead_def e_def)
  have nl: "NUL \<notin> set lead" "NUL \<notin> set e" using nn(1) by (auto simp: d)
  have skip: "skip_leading (A @ d @ NUL # R) (length A) = Some (length (A @ lead))"
    using skip_leading_split [OF nn(1), of A R] by (simp add: lead_def)
  show ?thesis
  proof (cases "CHR ''='' \<in> set e")
    case False
    have name: "directive_name d = e" and val: "directive_value d = None"
      using False by (auto simp: directive_name_def directive_value_def e_def [symmetric] takeWhile_eq_all_conv)
    have "cut_at (CHR ''='') (A @ d @ NUL # R) (length (A @ lead)) = Some (A @ d @ NUL # R, None)"
      using cut_at_none [OF nl(2) False, of "A @ lead" R] by (simp add: d)
    moreover have "cc_directive (A @ d @ NUL # R) (length (A @ lead)) None st = Some (cc_apply d st)"
      by (rule cc_directive_refines [OF nl(2), of _ "A @ lead" R _ _ None]) (use name val in \<open>auto simp: d\<close>)
    ultimately show ?thesis using cut skip by (intro exI [of _ d]) (simp add: cc_step_def)
  next
    case True
    then obtain n w where e: "e = n @ CHR ''='' # w" "CHR ''='' \<notin> set n" by (rule split_first)
    have nw: "NUL \<notin> set n" "NUL \<notin> set w" "NUL \<notin> set (trim w)" using nl(2) set_trim [of w] by (auto simp: e)
    let ?l2 = "takeWhile le_sp w" let ?k = "length w - length ?l2 - length (trim w)"
    define P where "P = A @ lead @ n @ NUL # ?l2"
    have c: "cut_at (CHR ''='') (A @ d @ NUL # R) (length (A @ lead)) = Some (A @ lead @ n @ NUL # w @ NUL # R, Some (length A + length lead + length n + 1))"
      using cut_at_found [OF nw(1) e(2), of "A @ lead" "w @ NUL # R"] by (simp add: d e)
    have shift: "replicate k NUL @ NUL # R = NUL # replicate k NUL @ R" for k
      by (metis append_Cons replicate_Suc replicate_app_Cons_same)
    have t: "nxweb_trunc_space (A @ lead @ n @ NUL # w @ NUL # R) (length A + length lead + length n + 1)
        = Some (P @ trim w @ NUL # replicate ?k NUL @ R, length P)"
      using nxweb_trunc_space_correct [OF nw(2), of "A @ lead @ n @ [NUL]" R] shift by (simp add: P_def add.assoc)
    have name: "directive_name d = n" using e(2) by (simp add: directive_name_def e_def [symmetric] e(1) takeWhile_append)
    have val: "directive_value d = Some (trim w)"
      using True by (simp add: directive_value_def e_def [symmetric] name) (simp add: e)
    have at: "cstr_at (P @ trim w @ NUL # replicate ?k NUL @ R) (length P) (trim w)" by (rule cstr_atI [OF nw(3)]) simp
    have dir: "cc_directive (P @ trim w @ NUL # replicate ?k NUL @ R) (length (A @ lead)) (Some (length P)) st = Some (cc_apply d st)"
      by (rule cc_directive_refines [OF nw(1), of _ "A @ lead" "?l2 @ trim w @ NUL # replicate ?k NUL @ R" _ _ "Some (trim w)"])
        (use at name val in \<open>auto simp: P_def\<close>)
    let ?d' = "lead @ n @ NUL # ?l2 @ trim w @ replicate ?k NUL"
    have "length ?d' = length d" using length_trim [of w] by (simp add: d e)
    moreover have "P @ trim w @ NUL # replicate ?k NUL @ R = A @ ?d' @ NUL # R" by (simp add: P_def shift)
    ultimately show ?thesis using cut skip c t dir by (intro exI [of _ ?d']) (simp add: cc_step_def)
  qed
qed

lemma cc_loop_refines:
  "NUL \<notin> set s \<Longrightarrow> cc_loop (A @ s @ NUL # R) (Some (length A)) st = Some (fold cc_apply (split_on (CHR '','') s) st)"
proof (induction "length s" arbitrary: s A st rule: less_induct)
  case less
  show ?case
  proof (cases "CHR '','' \<in> set s")
    case False
    have "cut_at (CHR '','') (A @ s @ NUL # R) (length A) = Some (A @ s @ NUL # R, None)"
      by (rule cut_at_none [OF less.prems False]) simp
    from cc_step_refines [OF less.prems False this] obtain d' where
      "cc_step (A @ s @ NUL # R) (length A) st = Some (A @ d' @ NUL # R, None, cc_apply s st)" by blast
    with False show ?thesis by (simp add: split_on_single)
  next
    case True
    then obtain u w where s: "s = u @ CHR '','' # w" "CHR '','' \<notin> set u" by (rule split_first)
    have nn: "NUL \<notin> set u" "NUL \<notin> set w" using less.prems by (auto simp: s)
    have "cut_at (CHR '','') (A @ s @ NUL # R) (length A) = Some (A @ u @ NUL # w @ NUL # R, Some (length A + length u + 1))"
      using cut_at_found [OF nn(1) s(2), of A "w @ NUL # R"] by (simp add: s)
    from cc_step_refines [OF nn(1) s(2) this] obtain d' where d': "length d' = length u"
      "cc_step (A @ s @ NUL # R) (length A) st = Some (A @ d' @ NUL # w @ NUL # R, Some (length A + length u + 1), cc_apply u st)"
      by blast
    have "cc_loop ((A @ d' @ [NUL]) @ w @ NUL # R) (Some (length (A @ d' @ [NUL]))) (cc_apply u st)
        = Some (fold cc_apply (split_on (CHR '','') w) (cc_apply u st))"
      by (rule less.hyps) (use nn s in auto)
    with d' show ?thesis by (simp add: s split_on_append)
  qed
qed

section \<open>Headers set by the application\<close>

definition arena_ok :: "nxb_buffer \<Rightarrow> bool" where
  "arena_ok nb \<longleftrightarrow> nxb_ok nb \<and> nb_limit nb = None \<and> 36 \<le> nxb_capacity nb"

lemma alloc_fill_ok:
  assumes "arena_ok nb"
  shows "\<exists>obj nb1. nxb_alloc_obj (length bs) nb = Some (obj, nb1)
    \<and> arena_ok (nb1\<lparr>nb_mem := mem_write (nb_mem nb1) obj bs\<rparr>)
    \<and> nxb_stream (nb1\<lparr>nb_mem := mem_write (nb_mem nb1) obj bs\<rparr>) = nxb_stream nb"
proof -
  obtain obj nb1 where o: "nxb_alloc_obj (length bs) nb = Some (obj, nb1)" "nxb_ok nb1" "nb_ptr nb1 \<le> obj"
    "nxb_stream nb1 = nxb_stream nb" "nb_limit nb1 = None" "nxb_capacity nb \<le> nxb_capacity nb1"
    using nxb_alloc_obj_ok [of nb "length bs"] assms unfolding arena_ok_def by auto
  define nb2 where "nb2 = nb1\<lparr>nb_mem := mem_write (nb_mem nb1) obj bs\<rparr>"
  have "nb_base nb1 + (nb_ptr nb1 - nb_base nb1) \<le> obj" using o(2,3) by (auto simp: nxb_ok_def)
  then have "nxb_stream nb2 = nxb_stream nb1" by (simp add: nxb_stream_def nb2_def mem_read_write_below)
  moreover have "nxb_ok nb2" "nb_limit nb2 = None" "nxb_capacity nb2 = nxb_capacity nb1"
    using o(2,5) by (simp_all add: nb2_def nxb_ok_def nxb_capacity_def)
  ultimately show ?thesis using assms o(1,4,6) by (auto simp: arena_ok_def nb2_def)
qed

lemma keep_ok: "arena_ok nb \<Longrightarrow> \<exists>nb'. keep s nb = Some nb' \<and> arena_ok nb' \<and> nxb_stream nb' = nxb_stream nb"
  using alloc_fill_ok [of nb "s @ [NUL]"] by (auto simp: keep_def nxb_copy_str_def nxb_copy_obj_def)

lemma calloc_obj_ok: "arena_ok nb \<Longrightarrow> \<exists>obj nb'. nxb_calloc_obj n nb = Some (obj, nb') \<and> arena_ok nb'"
  using alloc_fill_ok [of nb "replicate n NUL"] by (auto simp: nxb_calloc_obj_def)

definition safe_cache_control :: "string \<Rightarrow> string nxweb_http_response \<Rightarrow> string nxweb_http_response" where
  "safe_cache_control v resp =
     (if v = [] then resp
      else case fold cc_apply (split_on (CHR '','') v) (resp, False) of
        (resp, dirty) \<Rightarrow> if dirty then resp\<lparr>rs_cache_control := Some v\<rparr> else resp)"

definition safe_header :: "string \<Rightarrow> string \<Rightarrow> string nxweb_http_response \<Rightarrow> string nxweb_http_response" where
  "safe_header name v resp =
     (case header_id name of
        NXWEB_HTTP_CONTENT_TYPE \<Rightarrow> resp\<lparr>rs_content_type := Some v\<rparr>
      | NXWEB_HTTP_CONTENT_LENGTH \<Rightarrow> resp | NXWEB_HTTP_TRANSFER_ENCODING \<Rightarrow> resp
      | NXWEB_HTTP_CONNECTION \<Rightarrow> resp | NXWEB_HTTP_KEEP_ALIVE \<Rightarrow> resp | NXWEB_HTTP_DATE \<Rightarrow> resp
      | NXWEB_HTTP_X_NXWEB_SSI \<Rightarrow> resp\<lparr>rs_ssi_on := same_nocase v ''ON''\<rparr>
      | NXWEB_HTTP_X_NXWEB_TEMPLATES \<Rightarrow> resp\<lparr>rs_templates_on := same_nocase v ''ON''\<rparr>
      | NXWEB_HTTP_LAST_MODIFIED \<Rightarrow> resp\<lparr>rs_last_modified := the (nxweb_parse_http_time (v @ [NUL]))\<rparr>
      | NXWEB_HTTP_EXPIRES \<Rightarrow> resp\<lparr>rs_expires := the (nxweb_parse_http_time (v @ [NUL]))\<rparr>
      | NXWEB_HTTP_CACHE_CONTROL \<Rightarrow> safe_cache_control v resp
      | NXWEB_HTTP_ETAG \<Rightarrow> resp\<lparr>rs_etag := Some v\<rparr>
      | _ \<Rightarrow> resp\<lparr>rs_headers := (name, v) # rs_headers resp\<rparr>)"

text \<open>What decides how a response is framed on the connection\<close>

definition framing :: "'s nxweb_http_response \<Rightarrow> int \<times> bool \<times> bool \<times> bool \<times> int" where
  "framing resp = (rs_content_length resp, rs_keep_alive resp, rs_http11 resp, rs_chunked_encoding resp, rs_status_code resp)"

lemma framing_cc_apply: "framing (fst (cc_apply d st)) = framing (fst st)"
  by (cases st) (auto simp: cc_apply_def framing_def split: bool.splits option.splits)

lemma framing_fold: "framing (fst (fold cc_apply ds st)) = framing (fst st)"
  by (induction ds arbitrary: st) (simp_all add: framing_cc_apply)

lemma framing_safe_header: "framing (safe_header name v resp) = framing resp"
proof -
  have "framing (safe_cache_control v resp) = framing resp"
    using framing_fold [of "split_on (CHR '','') v" "(resp, False)"]
    by (auto simp: safe_cache_control_def framing_def split: prod.splits)
  then show ?thesis by (auto simp: safe_header_def framing_def split: nxweb_http_header_name.split)
qed

lemma store_cache_control_refines:
  assumes "NUL \<notin> set v" "arena_ok nb"
  shows "\<exists>nb'. store_cache_control v resp nb = Some (safe_cache_control v resp, nb') \<and> arena_ok nb'"
proof (cases "v = []")
  case True
  with assms show ?thesis by (simp add: store_cache_control_def safe_cache_control_def)
next
  case False
  obtain nb1 where 1: "keep v nb = Some nb1" "arena_ok nb1" using keep_ok [OF assms(2)] by blast
  obtain nb2 where 2: "keep v nb1 = Some nb2" "arena_ok nb2" using keep_ok [OF 1(2)] by blast
  have "cc_loop (v @ [NUL]) (Some 0) (resp, False) = Some (fold cc_apply (split_on (CHR '','') v) (resp, False))"
    using cc_loop_refines [OF assms(1), of "[]" "[]"] by simp
  with False 1 2 show ?thesis by (auto simp: store_cache_control_def safe_cache_control_def split: prod.split)
qed

text \<open>
  C32: A header set by the application cannot break the framing of the response: it is filed under the
  field it belongs to, its cache directives are taken apart, the framing headers (length, transfer
  coding, connection) and the date are dropped, and only other names enter the list that is sent.
\<close>

theorem add_response_header_safe_correct:
  assumes "NUL \<notin> set name" "NUL \<notin> set v" "arena_ok nb"
    and "header_id name \<in> {NXWEB_HTTP_LAST_MODIFIED, NXWEB_HTTP_EXPIRES} \<longrightarrow> (\<exists>t. tm_ok t \<and> v = http_date t)"
  shows "\<exists>nb'. nxweb_add_response_header_safe name v resp nb = Some (safe_header name v resp, nb') \<and> arena_ok nb'
    \<and> framing (safe_header name v resp) = framing resp"
proof -
  have hid: "identify_http_header (name @ [NUL]) 0 (length name) = Some (header_id name)"
    using identify_split [OF assms(1), of "[]" "[]"] by simp
  obtain nb1 where 1: "keep v nb = Some nb1" "arena_ok nb1" using keep_ok [OF assms(3)] by blast
  obtain obj nb0 where 0: "nxb_calloc_obj SIZEOF_HTTP_HEADER nb = Some (obj, nb0)" "arena_ok nb0" using calloc_obj_ok [OF assms(3)] by blast
  obtain nb2 where 2: "keep name nb0 = Some nb2" "arena_ok nb2" using keep_ok [OF 0(2)] by blast
  obtain nb3 where 3: "keep v nb2 = Some nb3" "arena_ok nb3" using keep_ok [OF 2(2)] by blast
  obtain nb4 where 4: "store_cache_control v resp nb = Some (safe_cache_control v resp, nb4)" "arena_ok nb4"
    using store_cache_control_refines [OF assms(2,3)] by blast
  have on: "eq_lit (v @ [NUL]) 0 ''ON'' = Some (same_nocase v ''ON'')"
    using eq_lit_split [OF assms(2), of "''ON''" "[]" "[]"] by simp
  have time: "\<exists>t. nxweb_parse_http_time (v @ [NUL]) = Some t" if "header_id name \<in> {NXWEB_HTTP_LAST_MODIFIED, NXWEB_HTTP_EXPIRES}"
    using assms(4) that parse_http_date by fastforce
  have "\<exists>nb'. nxweb_add_response_header_safe name v resp nb = Some (safe_header name v resp, nb') \<and> arena_ok nb'"
    using 0 1 2 3 4 on time assms(3)
    by (cases "header_id name") (auto simp: nxweb_add_response_header_safe_def safe_header_def hid)
  then show ?thesis using framing_safe_header by blast
qed

theorem add_response_header_safe_correct_witness:
  "\<exists>nb'. nxweb_add_response_header_safe ''cache-control'' ''private, max-age=0'' response_zero fresh_nxb
      = Some (safe_header ''cache-control'' ''private, max-age=0'' response_zero, nb') \<and> arena_ok nb'
    \<and> framing (safe_header ''cache-control'' ''private, max-age=0'' response_zero) = framing (response_zero :: string nxweb_http_response)"
proof (rule add_response_header_safe_correct)
  show "arena_ok fresh_nxb" using fresh_nxb_ok(1) by (simp add: arena_ok_def fresh_nxb_eval nxb_capacity_def nc_buf_def nxb_consts)
  have "header_id ''cache-control'' = NXWEB_HTTP_CACHE_CONTROL" by code_simp
  then show "header_id ''cache-control'' \<in> {NXWEB_HTTP_LAST_MODIFIED, NXWEB_HTTP_EXPIRES}
      \<longrightarrow> (\<exists>t. tm_ok t \<and> ''private, max-age=0'' = http_date t)" by simp
qed simp_all

section \<open>Redirects\<close>

definition begins :: "string \<Rightarrow> string \<Rightarrow> bool" where
  "begins p s \<longleftrightarrow> take (length p) s = p"

lemma has_prefix_begins: "NUL \<notin> set p \<Longrightarrow> has_prefix (s @ [NUL]) p = Some (begins p s)"
proof (induction p arbitrary: s)
  case (Cons c p)
  then show ?case by (cases s) (auto simp: begins_def)
qed (simp add: begins_def)

definition redirect_target :: "string option \<Rightarrow> string \<Rightarrow> string option \<Rightarrow> bool \<Rightarrow> string" where
  "redirect_target host location path_info secure =
     (if begins ''http://'' location \<or> begins ''https:/'' location then location
      else ''http'' @ (if secure then ''s'' else []) @ ''://'' @ the host @ location)
     @ (case path_info of None \<Rightarrow> [] | Some s \<Rightarrow> s)"

definition redirect_head :: "string \<Rightarrow> string \<Rightarrow> int \<Rightarrow> string nxweb_http_response \<Rightarrow> string \<Rightarrow> string option \<Rightarrow> bool \<Rightarrow> string" where
  "redirect_head ver date n resp location path_info secure =
     status_text (rs_http11 resp) n (redirect_status n)
     @ header_lines [(''Server'', ''nxweb/'' @ ver), (''Date'', date),
        (''Connection'', if rs_keep_alive resp then ''keep-alive'' else ''close''), (''Content-Length'', ''0''),
        (''Location'', redirect_target (rs_host resp) location path_info secure)] @ CRLF"

lemma absolute_location_eq:
  "absolute_location location = Some (begins ''http://'' location \<or> begins ''https:/'' location)"
  by (simp add: absolute_location_def has_prefix_begins)

lemma emits_location:
  assumes "rs_host resp \<noteq> None \<or> begins ''http://'' location \<or> begins ''https:/'' location"
  shows "emits r (put_location (rs_host resp) location path_info secure) (redirect_target (rs_host resp) location path_info secure) 0"
proof -
  define tail where "tail = (\<lambda>nb. case path_info of None \<Rightarrow> Some nb | Some s \<Rightarrow> nxb_append_str s nb)"
  have tail: "emits q tail (case path_info of None \<Rightarrow> [] | Some s \<Rightarrow> s) 0" for q
    unfolding tail_def by (rule emits_opt emits_str)+
  show ?thesis
  proof (cases "begins ''http://'' location \<or> begins ''https:/'' location")
    case True
    then have "put_location (rs_host resp) location path_info secure = (\<lambda>nb. nxb_append_str location nb \<bind> tail)"
      by (auto simp: fun_eq_iff put_location_def absolute_location_eq tail_def)
    with True emits_bind [OF emits_str(1) tail] show ?thesis by (simp add: redirect_target_def)
  next
    case False
    with assms obtain h where h: "rs_host resp = Some h" by auto
    have eq: "put_location (rs_host resp) location path_info secure = (\<lambda>nb. (nxb_append_str ''http'' nb \<bind>
        (\<lambda>nb. (if secure then nxb_append_char (CHR ''s'') nb else Some nb) \<bind> (\<lambda>nb. nxb_append_str ''://'' nb \<bind>
        (\<lambda>nb. nxb_append_str h nb \<bind> nxb_append_str location)))) \<bind> tail)"
      using False by (auto simp: fun_eq_iff put_location_def absolute_location_eq tail_def h)
    have "emits r (put_location (rs_host resp) location path_info secure)
      ((''http'' @ (if secure then [CHR ''s''] else []) @ ''://'' @ h @ location) @ (case path_info of None \<Rightarrow> [] | Some s \<Rightarrow> s)) 0"
      unfolding eq by (intro emits_bind0 emits_when emits_str tail)
    with False h show ?thesis by (simp add: redirect_target_def)
  qed
qed

lemma length_redirect_status: "length (redirect_status n) \<le> 17"
  by (simp add: redirect_status_def)

lemma emits_redirect_head:
  assumes "length ver \<le> 80" "length date \<le> 32"
    and "rs_host resp \<noteq> None \<or> begins ''http://'' location \<or> begins ''https:/'' location"
  shows "emits r (put_redirect_head ver date n resp location path_info secure)
    (redirect_head ver date n resp location path_info secure @ [NUL]) 0"
proof -
  define L where "L = put_location (rs_host resp) location path_info secure"
  define T where "T = redirect_target (rs_host resp) location path_info secure"
  have L: "emits q L T 0" for q unfolding L_def T_def by (rule emits_location [OF assms(3)])
  have num: "length (dec (to_ulong n)) \<le> 20" by (rule length_dec_to_ulong)
  have "emits r (put_redirect_head ver date n resp location path_info secure)
    ([] @ ''HTTP/1.'' @ [if rs_http11 resp then CHR ''1'' else CHR ''0''] @ [SP] @ dec (to_ulong n) @ [SP]
     @ redirect_status n @ (CRLF @ ''Server: nxweb/'' @ ver @ CRLF @ ''Date: '') @ date @ (CRLF @ ''Connection: '')
     @ (if rs_keep_alive resp then ''keep-alive'' else ''close'')
     @ (CRLF @ ''Content-Length: 0'' @ CRLF @ ''Location: '') @ T @ (CRLF @ CRLF @ [NUL])) 0"
    unfolding put_redirect_head_def [abs_def] num32_ulong bind.simps L_def [symmetric]
    by (intro emits_bind [OF emits_reserve_to] emits_bind [OF emits_append_fast] emits_bind [OF emits_append_char_fast]
        emits_bind [OF emits_append_str_fast] emits_bind [OF emits_append_str] emits_bind [OF L] emits_str)
      (use num length_redirect_status [of n] assms(1,2) in auto)
  then show ?thesis by (rule emits_text) (simp add: redirect_head_def status_text_def header_line_def T_def)
qed

text \<open>
  C33: A redirect is answered with exactly its status line, the server's headers, an empty body and
  the target: an absolute location as given, any other one prefixed by the scheme and the host of
  the request, with the path information behind it.  All unchecked appends fit the 250 bytes reserved
  at the start, whatever the status code; a file that was to be sent is closed.
\<close>

theorem send_redirect_correct:
  assumes "length ver \<le> 80" "clock_ok lp" "0 \<le> now" "now < MAX_TIME" "nxb_ok nb" "nb_limit nb = None"
    and "rs_host resp \<noteq> None \<or> begins ''http://'' location \<or> begins ''https:/'' location"
  shows "\<exists>a n resp' lp' nb'. nxweb_send_redirect2 ver now lp status location path_info secure resp nb
      = Some (if rs_sendfile_fd resp > 0 then [rs_sendfile_fd resp] else [], resp', lp', nb')
    \<and> finished nb (redirect_head ver (http_date (gmtime (lp_http_time lp'))) status resp location path_info secure @ [NUL]) a n nb'
    \<and> rs_raw_headers resp' = Some a \<and> rs_status_code resp' = status \<and> rs_content_length resp' = 0 \<and> rs_content resp' = None
    \<and> rs_sendfile_fd resp' = 0 \<and> rs_sendfile_path resp' = None"
proof -
  define resp1 where "resp1 = snd (drop_sendfile (resp\<lparr>rs_status_code := status, rs_status := Some (redirect_status status),
    rs_content := None, rs_content_type := None, rs_content_length := 0\<rparr>))"
  have same: "rs_host resp1 = rs_host resp" "redirect_head ver d status resp1 location path_info secure
      = redirect_head ver d status resp location path_info secure" for d
    by (simp_all add: resp1_def drop_sendfile_def redirect_head_def)
  obtain lp' where lp': "nxe_get_current_http_time_str now lp = Some (http_date (gmtime (lp_http_time lp')), lp')" "clock_ok lp'"
    using current_http_time_str [OF assms(2-4)] by blast
  let ?d = "http_date (gmtime (lp_http_time lp'))"
  have "tm_ok (gmtime (lp_http_time lp'))" using lp'(2) by (intro gmtime_facts) (auto simp: clock_ok_def)
  then have d: "length ?d \<le> 32" using length_http_date by fastforce
  obtain nb1 a n nb2 where out: "put_redirect_head ver ?d status resp1 location path_info secure (nxb_start_stream nb) = Some nb1"
    "nxb_finish_stream nb1 = (a, n, nb2)"
    "finished nb (redirect_head ver ?d status resp1 location path_info secure @ [NUL]) a n nb2"
    by (rule emits_finished [OF emits_redirect_head [OF assms(1) d assms(7) [folded same(1)]] assms(5,6)])
  have "nxweb_send_redirect2 ver now lp status location path_info secure resp nb
      = Some (if rs_sendfile_fd resp > 0 then [rs_sendfile_fd resp] else [], resp1\<lparr>rs_raw_headers := Some a\<rparr>, lp', nb2)"
    using out(1,2) lp'(1) by (simp add: nxweb_send_redirect2_def drop_sendfile_def resp1_def)
  with out(3) [unfolded same(2)] show ?thesis by (intro exI [of _ a] exI [of _ n] exI [of _ "resp1\<lparr>rs_raw_headers := Some a\<rparr>"] exI [of _ lp'] exI [of _ nb2])
      (simp add: resp1_def drop_sendfile_def)
qed

theorem send_redirect_correct_witness:
  "\<exists>a n resp' lp' nb'. nxweb_send_redirect2 ''3.2'' 1327410354 sample_clock 302 ''/b'' (Some ''/c'') True
        (response_zero\<lparr>rs_host := Some ''h'', rs_sendfile_fd := 4\<rparr>) fresh_nxb
      = Some (if rs_sendfile_fd (response_zero\<lparr>rs_host := Some ''h'', rs_sendfile_fd := 4\<rparr>) > 0
          then [rs_sendfile_fd (response_zero\<lparr>rs_host := Some ''h'', rs_sendfile_fd := 4\<rparr>)] else [], resp', lp', nb')
    \<and> finished fresh_nxb (redirect_head ''3.2'' (http_date (gmtime (lp_http_time lp'))) 302
        (response_zero\<lparr>rs_host := Some ''h'', rs_sendfile_fd := 4\<rparr>) ''/b'' (Some ''/c'') True @ [NUL]) a n nb'
    \<and> rs_raw_headers resp' = Some a \<and> rs_status_code resp' = 302 \<and> rs_content_length resp' = 0 \<and> rs_content resp' = None
    \<and> rs_sendfile_fd resp' = 0 \<and> rs_sendfile_path resp' = None"
proof (rule send_redirect_correct [OF _ sample_clock_ok])
  show "1327410354 < MAX_TIME" by (simp add: MAX_TIME_def days_before_year_def)
  show "nxb_ok fresh_nxb" "nb_limit fresh_nxb = None" using fresh_nxb_ok(1) fresh_nxb_eval(4) by simp_all
qed simp_all

end
