(* ===== verification/Nx_Http_Response_Parse.thy ===== *)
theory Nx_Http_Response_Parse
  imports Nx_Http_Send
begin

text \<open>
  Parsing the head of a response from a back end (\<^verbatim>\<open>lib/http_utils.c\<close>,
  \<^verbatim>\<open>_nxweb_parse_http_response\<close>), what it means on strings, and that it reads back what the server
  itself writes.
\<close>

section \<open>The parser\<close>

text \<open>\<^verbatim>\<open>while ((unsigned char)*p>=SPACE && p<pl) p++;\<close>\<close>

function skip_text :: "mem \<Rightarrow> nat \<Rightarrow> nat \<Rightarrow> nat option" where
  "skip_text m p pl = do { c \<leftarrow> rd m p; if \<not> code c < 32 \<and> p < pl then skip_text m (p + 1) pl else Some p }"
  by pat_completeness auto
termination
  by (relation "measure (\<lambda>(m, p, pl). pl - p)") auto

declare skip_text.simps [simp del]

definition parse_status_line :: "mem \<Rightarrow> nat \<Rightarrow> nat \<Rightarrow> nat nxweb_http_response
    \<Rightarrow> (int \<times> mem \<times> nat nxweb_http_response + mem \<times> nat nxweb_http_response) option" where
  "parse_status_line m headers pl resp = do {
     let http_version = headers;
     (m, p) \<leftarrow> cut_token m headers;
     p \<leftarrow> skip_blanks m p pl;
     if p \<ge> pl then Some (Inl (-1, m, resp))
     else do {
       let status_code = p;
       (m, p) \<leftarrow> cut_token m p;
       p \<leftarrow> skip_blanks m p pl;
       if p \<ge> pl then Some (Inl (-1, m, resp))
       else do {
         let resp = resp\<lparr>rs_status := Some p\<rparr>;
         p \<leftarrow> skip_text m p pl;
         m \<leftarrow> wr m p NUL;
         http10 \<leftarrow> eq_lit m http_version ''HTTP/1.0'';
         n \<leftarrow> c_atol (drop status_code m);
         Some (Inr (m, resp\<lparr>rs_keep_alive := \<not> http10, rs_http11 := \<not> http10, rs_content_length := -1,
                            rs_status_code := to_int32 n\<rparr>)) } } }"

text \<open>The state of the header loop: the response, the header list and the transfer coding.\<close>

type_synonym resp_header_state = "nat nxweb_http_response \<times> (nat \<times> nat) list \<times> nat option"

definition store_resp_header :: "resp_header_state header_sink" where
  "store_resp_header hid m name v = (\<lambda>(resp, hm, te).
     if hid = NXWEB_HTTP_CONTENT_TYPE then Some (Some (m, resp\<lparr>rs_content_type := Some v\<rparr>, hm, te))
     else if hid = NXWEB_HTTP_CONTENT_LENGTH then do {
       n \<leftarrow> c_atol (drop v m);
       Some (Some (m, resp\<lparr>rs_content_length := n\<rparr>, hm, te)) }
     else if hid = NXWEB_HTTP_TRANSFER_ENCODING then Some (Some (m, resp, hm, Some v))
     else if hid = NXWEB_HTTP_CONNECTION then do {
       ka \<leftarrow> eq_lit m v ''keep-alive'';
       Some (Some (m, resp\<lparr>rs_keep_alive := ka\<rparr>, hm, te)) }
     else if hid = NXWEB_HTTP_KEEP_ALIVE then Some (Some (m, resp, hm, te))
     else if hid = NXWEB_HTTP_X_NXWEB_SSI then do {
       on \<leftarrow> eq_lit m v ''ON'';
       Some (Some (m, resp\<lparr>rs_ssi_on := on\<rparr>, hm, te)) }
     else if hid = NXWEB_HTTP_X_NXWEB_TEMPLATES then do {
       on \<leftarrow> eq_lit m v ''ON'';
       Some (Some (m, resp\<lparr>rs_templates_on := on\<rparr>, hm, te)) }
     else if hid = NXWEB_HTTP_DATE then do {
       t \<leftarrow> nxweb_parse_http_time (drop v m);
       Some (Some (m, resp\<lparr>rs_date := t\<rparr>, hm, te)) }
     else if hid = NXWEB_HTTP_LAST_MODIFIED then do {
       t \<leftarrow> nxweb_parse_http_time (drop v m);
       Some (Some (m, resp\<lparr>rs_last_modified := t\<rparr>, hm, te)) }
     else if hid = NXWEB_HTTP_EXPIRES then do {
       t \<leftarrow> nxweb_parse_http_time (drop v m);
       Some (Some (m, resp\<lparr>rs_expires := t\<rparr>, hm, te)) }
     else if hid = NXWEB_HTTP_CACHE_CONTROL then Some (Some (m, resp\<lparr>rs_cache_control := Some v\<rparr>, hm, te))
     else if hid = NXWEB_HTTP_ETAG then Some (Some (m, resp\<lparr>rs_etag := Some v\<rparr>, hm, te))
     else Some (Some (m, resp, (name, v) # hm, te)))"

text \<open>
  The cache directives are read from a copy of their header.  A body without a length is chunked,
  or lasts until the connection closes, which a kept connection does not allow.
\<close>

definition finish_response :: "mem \<Rightarrow> resp_header_state \<Rightarrow> nat nxweb_http_response option" where
  "finish_response m = (\<lambda>(resp, hm, te). do {
     let resp = resp\<lparr>rs_headers := hm\<rparr>;
     resp \<leftarrow> (case rs_cache_control resp of None \<Rightarrow> Some resp
        | Some cc \<Rightarrow> do {
            n \<leftarrow> c_strlen m cc;
            (resp, _) \<leftarrow> cc_loop (take (n + 1) (drop cc m)) (Some 0) (resp, False);
            Some resp });
     chunked \<leftarrow> opt_eq_lit m te ''chunked'';
     Some (if chunked then resp\<lparr>rs_chunked_encoding := True, rs_content_length := -1\<rparr>
           else if rs_keep_alive resp \<and> rs_content_length resp = -1 then resp\<lparr>rs_content_length := 0\<rparr>
           else resp) })"

definition nxweb_parse_http_response :: "mem \<Rightarrow> nat nxweb_http_response \<Rightarrow> nat \<Rightarrow> nat
    \<Rightarrow> (int \<times> mem \<times> nat nxweb_http_response) option" where
  "nxweb_parse_http_response m resp headers end_of_headers = do {
     m \<leftarrow> wr m end_of_headers NUL;
     nl \<leftarrow> c_strchr m headers LF;
     (m, pl) \<leftarrow> (case nl of None \<Rightarrow> Some (m, end_of_headers) | Some q \<Rightarrow> do { m \<leftarrow> wr m q NUL; Some (m, q) });
     line \<leftarrow> parse_status_line m headers pl resp;
     case line of Inl r \<Rightarrow> Some r
     | Inr (m, resp) \<Rightarrow> do {
         r \<leftarrow> parse_headers_loop store_resp_header m (pl + 1) end_of_headers None (resp, [], None);
         case r of Inl e \<Rightarrow> None
         | Inr (m, st) \<Rightarrow> do { resp \<leftarrow> finish_response m st; Some (0, m, resp) } } }"

section \<open>Specification on strings\<close>

text \<open>The abstract state: a response with strings for its fields, and the transfer coding.\<close>

type_synonym aresp = "string nxweb_http_response \<times> string option"

definition spec_resp_header :: "string \<Rightarrow> string \<Rightarrow> aresp \<Rightarrow> aresp option" where
  "spec_resp_header name v = (\<lambda>(a, te). Some
     (case header_id name of
        NXWEB_HTTP_CONTENT_TYPE \<Rightarrow> (a\<lparr>rs_content_type := Some v\<rparr>, te)
      | NXWEB_HTTP_CONTENT_LENGTH \<Rightarrow> (a\<lparr>rs_content_length := the (c_atol (v @ [NUL]))\<rparr>, te)
      | NXWEB_HTTP_TRANSFER_ENCODING \<Rightarrow> (a, Some v)
      | NXWEB_HTTP_CONNECTION \<Rightarrow> (a\<lparr>rs_keep_alive := same_nocase v ''keep-alive''\<rparr>, te)
      | NXWEB_HTTP_KEEP_ALIVE \<Rightarrow> (a, te)
      | NXWEB_HTTP_X_NXWEB_SSI \<Rightarrow> (a\<lparr>rs_ssi_on := same_nocase v ''ON''\<rparr>, te)
      | NXWEB_HTTP_X_NXWEB_TEMPLATES \<Rightarrow> (a\<lparr>rs_templates_on := same_nocase v ''ON''\<rparr>, te)
      | NXWEB_HTTP_DATE \<Rightarrow> (a\<lparr>rs_date := the (nxweb_parse_http_time (v @ [NUL]))\<rparr>, te)
      | NXWEB_HTTP_LAST_MODIFIED \<Rightarrow> (a\<lparr>rs_last_modified := the (nxweb_parse_http_time (v @ [NUL]))\<rparr>, te)
      | NXWEB_HTTP_EXPIRES \<Rightarrow> (a\<lparr>rs_expires := the (nxweb_parse_http_time (v @ [NUL]))\<rparr>, te)
      | NXWEB_HTTP_CACHE_CONTROL \<Rightarrow> (a\<lparr>rs_cache_control := Some v\<rparr>, te)
      | NXWEB_HTTP_ETAG \<Rightarrow> (a\<lparr>rs_etag := Some v\<rparr>, te)
      | _ \<Rightarrow> (a\<lparr>rs_headers := (name, v) # rs_headers a\<rparr>, te)))"

definition resp_value_ok :: "nxweb_http_header_name \<Rightarrow> string \<Rightarrow> bool" where
  "resp_value_ok hid v \<longleftrightarrow>
     (hid \<in> {NXWEB_HTTP_DATE, NXWEB_HTTP_LAST_MODIFIED, NXWEB_HTTP_EXPIRES} \<longrightarrow> (\<exists>t. tm_ok t \<and> v = http_date t))"

definition spec_finish :: "aresp \<Rightarrow> string nxweb_http_response" where
  "spec_finish = (\<lambda>(a, te).
     let a = (case rs_cache_control a of None \<Rightarrow> a | Some cc \<Rightarrow> fst (fold cc_apply (split_on (CHR '','') cc) (a, False))) in
     if te \<noteq> None \<and> same_nocase (the te) ''chunked'' then a\<lparr>rs_chunked_encoding := True, rs_content_length := -1\<rparr>
     else if rs_keep_alive a \<and> rs_content_length a = -1 then a\<lparr>rs_content_length := 0\<rparr> else a)"

section \<open>The relation of a response in memory to its strings\<close>

definition pair_at :: "mem \<Rightarrow> nat \<times> nat \<Rightarrow> string \<times> string \<Rightarrow> bool" where
  "pair_at A e s \<longleftrightarrow> cstr_at A (fst e) (fst s) \<and> cstr_at A (snd e) (snd s)"

text \<open>The fields that are no strings, which the two have in common\<close>

definition plain_part :: "'s nxweb_http_response \<Rightarrow> (int \<times> int \<times> int \<times> int \<times> int \<times> int) \<times> bool list" where
  "plain_part r = ((rs_content_length r, rs_date r, rs_last_modified r, rs_expires r, rs_max_age r, rs_status_code r),
     [rs_keep_alive r, rs_http11 r, rs_chunked_encoding r, rs_ssi_on r, rs_templates_on r, rs_no_cache r, rs_cache_private r])"

definition strings_at :: "mem \<Rightarrow> nat nxweb_http_response \<Rightarrow> string nxweb_http_response \<Rightarrow> bool" where
  "strings_at A r a \<longleftrightarrow>
     rel_option (cstr_at A) (rs_status r) (rs_status a)
     \<and> rel_option (cstr_at A) (rs_content_type r) (rs_content_type a)
     \<and> rel_option (cstr_at A) (rs_cache_control r) (rs_cache_control a)
     \<and> rel_option (cstr_at A) (rs_etag r) (rs_etag a)"

definition resp_rel :: "mem \<Rightarrow> resp_header_state \<Rightarrow> aresp \<Rightarrow> bool" where
  "resp_rel A st a \<longleftrightarrow>
     (case (st, a) of ((r, hm, te), (a, ate)) \<Rightarrow>
        strings_at A r a \<and> plain_part r = plain_part a \<and> rel_option (cstr_at A) te ate
        \<and> list_all2 (pair_at A) hm (rs_headers a))"

lemma rel_option_cstr_append: "rel_option (cstr_at A) p s \<Longrightarrow> rel_option (cstr_at (A @ B)) p s"
  by (erule option.rel_mono_strong) (rule cstr_at_append)

lemma strings_at_append: "strings_at A r a \<Longrightarrow> strings_at (A @ B) r a"
  by (simp add: strings_at_def rel_option_cstr_append)

lemma resp_rel_append: "resp_rel A st a \<Longrightarrow> resp_rel (A @ B) st a"
proof -
  have l: "list_all2 (pair_at A) xs ys \<Longrightarrow> list_all2 (pair_at (A @ B)) xs ys" for xs ys
    by (erule list_all2_mono) (auto simp: pair_at_def dest: cstr_at_append)
  show "resp_rel A st a \<Longrightarrow> resp_rel (A @ B) st a"
    by (cases st; cases a) (simp add: resp_rel_def strings_at_append rel_option_cstr_append l)
qed

lemma store_resp_header_refines:
  assumes rel: "resp_rel A st a" and nn: "NUL \<notin> set name" "NUL \<notin> set v"
    and vok: "resp_value_ok (header_id name) v" and P_def: "P = A @ name @ NUL # lead"
  shows "case spec_resp_header name v a of
      None \<Rightarrow> store_resp_header (header_id name) (P @ v @ NUL # Z) (length A) (length P) st = Some None
    | Some a' \<Rightarrow> \<exists>v' st'. length v' = length v \<and> resp_rel (P @ v' @ [NUL]) st' a'
        \<and> store_resp_header (header_id name) (P @ v @ NUL # Z) (length A) (length P) st = Some (Some (P @ v' @ NUL # Z, st'))"
proof -
  obtain r hm te where st: "st = (r, hm, te)" by (cases st)
  obtain b ate where a: "a = (b, ate)" by (cases a)
  have hr: "resp_rel (P @ v @ [NUL]) st a" unfolding P_def using resp_rel_append [OF rel] by simp
  have nm: "cstr_at (P @ v @ [NUL]) (length A) name"
    using cstr_atI [OF nn(1), of "length A" A "lead @ v @ [NUL]"] by (simp add: P_def)
  have val: "cstr_at (P @ v @ [NUL]) (length P) v"
    using cstr_atI [OF nn(2), of "length P" P "[]"] by simp
  have num: "c_atol (drop (length P) (P @ v @ NUL # Z)) = Some (the (c_atol (v @ [NUL])))"
    using c_atol_total [of v] c_atol_NUL [of v Z] by auto
  have time: "nxweb_parse_http_time (drop (length P) (P @ v @ NUL # Z)) = Some (the (nxweb_parse_http_time (v @ [NUL])))"
    if "header_id name \<in> {NXWEB_HTTP_DATE, NXWEB_HTTP_LAST_MODIFIED, NXWEB_HTTP_EXPIRES}"
  proof -
    from that vok obtain t where "tm_ok t" "v = http_date t" by (auto simp: resp_value_ok_def)
    then show ?thesis by (simp add: parse_http_date)
  qed
  have lit: "eq_lit (P @ v @ NUL # Z) (length P) l = Some (same_nocase v l)" if "NUL \<notin> set l" for l
    by (rule eq_lit_split [OF nn(2) that])
  note lits = lit [of "''keep-alive''"] lit [of "''ON''"]
  define st' where "st' = (case store_resp_header (header_id name) (P @ v @ NUL # Z) (length A) (length P) st of
    Some (Some (_, s)) \<Rightarrow> s | _ \<Rightarrow> st)"
  define a' where "a' = the (spec_resp_header name v a)"
  have a': "spec_resp_header name v a = Some a'" by (simp add: a'_def spec_resp_header_def a)
  have "store_resp_header (header_id name) (P @ v @ NUL # Z) (length A) (length P) st = Some (Some (P @ v @ NUL # Z, st'))"
    using num lits time by (auto simp: st'_def store_resp_header_def st)
  moreover have "resp_rel (P @ v @ [NUL]) st' a'"
    using hr nm val num lits time
    by (cases "header_id name") (simp_all add: st'_def a'_def store_resp_header_def spec_resp_header_def st a resp_rel_def strings_at_def plain_part_def pair_at_def)
  ultimately show ?thesis unfolding a' option.case by blast
qed

interpretation response_headers: header_store store_resp_header spec_resp_header resp_rel resp_value_ok
  by unfold_locales (rule resp_rel_append, assumption, rule store_resp_header_refines)

section \<open>The status line\<close>

definition status_line_ok :: "string \<Rightarrow> string \<Rightarrow> string \<Rightarrow> string \<Rightarrow> bool" where
  "status_line_ok ver num msg w \<longleftrightarrow>
     token ver \<and> token num \<and> msg \<noteq> [] \<and> \<not> le_sp (hd msg) \<and> (\<forall>c \<in> set msg. 32 \<le> code c)
     \<and> (w = [] \<or> code (hd w) < 32) \<and> NUL \<notin> set w \<and> LF \<notin> set w"

definition status_line :: "string \<Rightarrow> string \<Rightarrow> string \<Rightarrow> string \<Rightarrow> string" where
  "status_line ver num msg w = ver @ SP # num @ SP # msg @ w"

definition cut_status :: "string \<Rightarrow> string \<Rightarrow> string \<Rightarrow> string \<Rightarrow> string" where
  "cut_status ver num msg w = ver @ NUL # num @ NUL # msg @ NUL # tl (w @ [NUL])"

lemma cut_status_length: "length (cut_status ver num msg w) = length (status_line ver num msg w) + 1"
  by (cases w) (simp_all add: cut_status_def status_line_def)

definition aresp_init :: "string \<Rightarrow> string \<Rightarrow> string \<Rightarrow> aresp" where
  "aresp_init ver num msg = (response_zero\<lparr>rs_status := Some msg, rs_keep_alive := \<not> same_nocase ver ''HTTP/1.0'',
     rs_http11 := \<not> same_nocase ver ''HTTP/1.0'', rs_content_length := -1,
     rs_status_code := to_int32 (the (c_atol (num @ [NUL])))\<rparr>, None)"

lemma skip_text_split:
  "\<forall>c \<in> set s. 32 \<le> code c \<Longrightarrow> code d < 32 \<Longrightarrow> length A + length s \<le> pl
   \<Longrightarrow> skip_text (A @ s @ d # R) (length A) pl = Some (length A + length s)"
proof (induction s arbitrary: A)
  case Nil
  then show ?case by (subst skip_text.simps) (simp add: rd_split)
next
  case (Cons c s)
  with Cons.IH [of "A @ [c]"] show ?case by (subst skip_text.simps) (simp add: not_less)
qed

lemma skip_blanks_text: "s \<noteq> [] \<Longrightarrow> \<not> le_sp (hd s) \<Longrightarrow> skip_blanks (A @ s @ R) (length A) pl = Some (length A)"
  by (cases s) (auto simp: skip_blanks.simps)

lemma parse_status_line_refines:
  assumes "status_line_ok ver num msg w"
  obtains resp where
    "parse_status_line (X @ status_line ver num msg w @ NUL # R) (length X) (length X + length (status_line ver num msg w))
       response_zero = Some (Inr (X @ cut_status ver num msg w @ R, resp))"
    "resp_rel (X @ cut_status ver num msg w) (resp, [], None) (aresp_init ver num msg)"
proof -
  have tok: "token ver" "token num" and msg: "msg \<noteq> []" "\<not> le_sp (hd msg)" "\<forall>c \<in> set msg. 32 \<le> code c"
    using assms by (auto simp: status_line_ok_def)
  have nn: "NUL \<notin> set ver" "NUL \<notin> set num" "NUL \<notin> set msg" using tok msg(3) by (auto simp: tokenD code_def)
  obtain d W where dW: "w @ NUL # R = d # W" "code d < 32" "W = tl (w @ [NUL]) @ R"
    using assms by (cases w) (auto simp: status_line_ok_def code_def)
  let ?p1 = "length X + length ver + 1" let ?p2 = "?p1 + length num + 1"
  let ?m = "X @ cut_status ver num msg w @ R"
  have m: "?m = X @ ver @ NUL # num @ NUL # msg @ NUL # W" using dW(3) by (simp add: cut_status_def)
  have line: "X @ status_line ver num msg w @ NUL # R = X @ ver @ SP # num @ SP # msg @ d # W"
    using dW(1) by (simp add: status_line_def)
  have len: "length (status_line ver num msg w) = length ver + (length num + (length msg + (length w + 2)))"
    by (simp add: status_line_def)
  note cuts = cut_token_split [OF tok(1), of SP X "num @ SP # msg @ d # W"]
    cut_token_split [OF tok(2), of SP "X @ ver @ [NUL]" "msg @ d # W"]
  note blanks = skip_blanks_token [OF tok(2), of "X @ ver @ [NUL]"] skip_blanks_text [OF msg(1,2), of "X @ ver @ NUL # num @ [NUL]"]
  have txtp: "skip_text (X @ ver @ NUL # num @ NUL # msg @ d # W) ?p2 (length X + length (status_line ver num msg w)) = Some (?p2 + length msg)"
    using skip_text_split [OF msg(3) dW(2), of "X @ ver @ NUL # num @ [NUL]" "length X + length (status_line ver num msg w)" W]
    by (simp add: len add.assoc)
  have stop: "wr (X @ ver @ NUL # num @ NUL # msg @ d # W) (?p2 + length msg) NUL = Some ?m"
    using wr_split [of "X @ ver @ NUL # num @ NUL # msg" d W NUL] unfolding m by (simp add: add.assoc)
  have http: "eq_lit ?m (length X) ''HTTP/1.0'' = Some (same_nocase ver ''HTTP/1.0'')"
    using eq_lit_split [OF nn(1), of "''HTTP/1.0''" X "num @ NUL # msg @ NUL # W"] unfolding m by simp
  have "drop ?p1 ?m = num @ NUL # msg @ NUL # W" unfolding m by (simp add: add.assoc)
  then have num: "c_atol (drop ?p1 ?m) = Some (the (c_atol (num @ [NUL])))"
    using c_atol_total [of num] c_atol_NUL [of num "msg @ NUL # W"] by auto
  define resp where "resp = response_zero\<lparr>rs_status := Some ?p2, rs_keep_alive := \<not> same_nocase ver ''HTTP/1.0'',
     rs_http11 := \<not> same_nocase ver ''HTTP/1.0'', rs_content_length := -1,
     rs_status_code := to_int32 (the (c_atol (num @ [NUL])))\<rparr>"
  show thesis
  proof (rule that [of resp])
    show "parse_status_line (X @ status_line ver num msg w @ NUL # R) (length X) (length X + length (status_line ver num msg w))
       response_zero = Some (Inr (?m, resp))"
      using cuts blanks txtp stop http num tok(2) msg(1) unfolding m line
      by (simp add: parse_status_line_def resp_def add.assoc len token_def)
    have "cstr_at (X @ cut_status ver num msg w) ?p2 msg"
      using cstr_atI [OF nn(3), of ?p2 "X @ ver @ NUL # num @ [NUL]" "tl (w @ [NUL])"] by (simp add: cut_status_def add.assoc)
    then show "resp_rel (X @ cut_status ver num msg w) (resp, [], None) (aresp_init ver num msg)"
      by (simp add: resp_rel_def resp_def aresp_init_def strings_at_def plain_part_def response_zero_def)
  qed
qed

section \<open>The end of the head\<close>

lemma cc_apply_plain: "plain_part r = plain_part a \<Longrightarrow> plain_part (fst (cc_apply d (r, x))) = plain_part (fst (cc_apply d (a, y)))"
  by (auto simp: cc_apply_def plain_part_def split: bool.split option.split)

lemma cc_apply_strings:
  "strings_at m (fst (cc_apply d (r, x))) (fst (cc_apply d' (a, y))) = strings_at m r a"
  by (auto simp: cc_apply_def strings_at_def split: bool.split option.split)

lemma cc_apply_headers: "rs_headers (fst (cc_apply d (r, x))) = rs_headers r"
  by (auto simp: cc_apply_def split: bool.split option.split)

lemma fold_cc_related:
  "plain_part r = plain_part a \<Longrightarrow> strings_at m r a \<Longrightarrow>
   plain_part (fst (fold cc_apply ds (r, x))) = plain_part (fst (fold cc_apply ds (a, y)))
   \<and> strings_at m (fst (fold cc_apply ds (r, x))) (fst (fold cc_apply ds (a, y)))
   \<and> rs_headers (fst (fold cc_apply ds (r, x))) = rs_headers r \<and> rs_headers (fst (fold cc_apply ds (a, y))) = rs_headers a"
proof (induction ds arbitrary: r a x y)
  case (Cons d ds)
  obtain r1 x1 where r1: "cc_apply d (r, x) = (r1, x1)" by fastforce
  obtain a1 y1 where a1: "cc_apply d (a, y) = (a1, y1)" by fastforce
  have "plain_part r1 = plain_part a1" "strings_at m r1 a1" "rs_headers r1 = rs_headers r" "rs_headers a1 = rs_headers a"
    using Cons.prems cc_apply_plain [of r a d x y] cc_apply_strings [of m d r x d a y] cc_apply_headers [of d r x] cc_apply_headers [of d a y]
    by (simp_all add: r1 a1)
  with Cons.IH [of r1 a1 x1 y1] show ?case by (simp add: r1 a1)
qed simp

lemma finish_response_refines:
  assumes "resp_rel m st a"
  shows "\<exists>resp. finish_response m st = Some resp \<and> strings_at m resp (spec_finish a) \<and> plain_part resp = plain_part (spec_finish a)
    \<and> list_all2 (pair_at m) (rs_headers resp) (rs_headers (spec_finish a))"
proof -
  obtain r hm te where st: "st = (r, hm, te)" by (cases st)
  obtain b ate where a: "a = (b, ate)" by (cases a)
  note rel = assms [unfolded resp_rel_def st a prod.case]
  define r1 where "r1 = r\<lparr>rs_headers := hm\<rparr>"
  have r1: "strings_at m r1 b" "plain_part r1 = plain_part b" "list_all2 (pair_at m) (rs_headers r1) (rs_headers b)"
    using rel by (simp_all add: r1_def strings_at_def plain_part_def)
  have te: "opt_eq_lit m te ''chunked'' = Some (ate \<noteq> None \<and> same_nocase (the ate) ''chunked'')"
  proof -
    have "rel_option (cstr_at m) te ate" using rel by simp
    then show ?thesis by (cases te; cases ate) (auto simp: opt_eq_lit_def eq_lit_cstr)
  qed
  define b2 where "b2 = (case rs_cache_control b of None \<Rightarrow> b | Some cc \<Rightarrow> fst (fold cc_apply (split_on (CHR '','') cc) (b, False)))"
  have "\<exists>r2. (case rs_cache_control r1 of None \<Rightarrow> Some r1 | Some cc \<Rightarrow> do { n \<leftarrow> c_strlen m cc;
      (resp, _) \<leftarrow> cc_loop (take (n + 1) (drop cc m)) (Some 0) (r1, False); Some resp }) = Some r2
    \<and> strings_at m r2 b2 \<and> plain_part r2 = plain_part b2 \<and> list_all2 (pair_at m) (rs_headers r2) (rs_headers b2)"
  proof (cases "rs_cache_control b")
    case None
    then have "rs_cache_control r1 = None" using r1(1) by (simp add: strings_at_def)
    with None r1 show ?thesis by (simp add: b2_def)
  next
    case (Some cc)
    then obtain p where p: "rs_cache_control r1 = Some p" "cstr_at m p cc" using r1(1) by (cases "rs_cache_control r1") (auto simp: strings_at_def)
    from p(2) obtain xs ys where m: "m = xs @ cc @ NUL # ys" "length xs = p" "NUL \<notin> set cc" by (rule cstr_at_decomp)
    have "take (length cc + 1) (drop p m) = cc @ [NUL]" using m(1,2) by auto
    then have loop: "cc_loop (take (length cc + 1) (drop p m)) (Some 0) (r1, False) = Some (fold cc_apply (split_on (CHR '','') cc) (r1, False))"
      using cc_loop_refines [OF m(3), of "[]" "[]"] by simp
    have "c_strlen m p = Some (length cc)" by (rule c_strlen_at [OF p(2)])
    with loop fold_cc_related [OF r1(2,1), of "split_on (CHR '','') cc" False False] r1(3) p(1) Some show ?thesis
      by (auto simp: b2_def split: prod.split simp del: cc_loop.simps)
  qed
  then obtain r2 where r2: "(case rs_cache_control r1 of None \<Rightarrow> Some r1 | Some cc \<Rightarrow> do { n \<leftarrow> c_strlen m cc;
      (resp, _) \<leftarrow> cc_loop (take (n + 1) (drop cc m)) (Some 0) (r1, False); Some resp }) = Some r2"
    "strings_at m r2 b2" "plain_part r2 = plain_part b2" "list_all2 (pair_at m) (rs_headers r2) (rs_headers b2)" by blast
  have ka: "rs_keep_alive r2 = rs_keep_alive b2" "rs_content_length r2 = rs_content_length b2"
    using r2(3) by (simp_all add: plain_part_def)
  show ?thesis
    using r2 te ka unfolding st a finish_response_def spec_finish_def prod.case r1_def [symmetric] b2_def [symmetric] Let_def
    by (auto simp: strings_at_def plain_part_def)
qed

section \<open>The parser implements the specification\<close>

definition response_at :: "mem \<Rightarrow> nat nxweb_http_response \<Rightarrow> string nxweb_http_response \<Rightarrow> bool" where
  "response_at m resp a \<longleftrightarrow> strings_at m resp a \<and> plain_part resp = plain_part a \<and> list_all2 (pair_at m) (rs_headers resp) (rs_headers a)"

definition resp_apply :: "string \<times> string \<Rightarrow> aresp \<Rightarrow> aresp" where
  "resp_apply h a = the (spec_resp_header (fst h) (snd h) a)"

lemma spec_resp_header_total: "spec_resp_header name v a = Some (resp_apply (name, v) a)"
  by (cases a) (simp add: spec_resp_header_def resp_apply_def)

lemma spec_lines_total: "\<exists>a'. spec_lines spec_resp_header Ls a = Some a'"
  by (induction Ls arbitrary: a) (simp_all add: spec_line_def spec_resp_header_total)

lemma response_head_start:
  assumes "status_line_ok ver num msg w" "NUL \<notin> set (lines_text Ls)"
  obtains resp where
    "resp_rel (X @ cut_status ver num msg w) (resp, [], None) (aresp_init ver num msg)"
    "nxweb_parse_http_response (X @ status_line ver num msg w @ LF # lines_text Ls @ e # Y) response_zero (length X)
       (length X + length (status_line ver num msg w) + 1 + length (lines_text Ls))
     = do { r \<leftarrow> parse_headers_loop store_resp_header ((X @ cut_status ver num msg w) @ lines_text Ls @ NUL # Y)
                 (length (X @ cut_status ver num msg w))
                 (length (X @ cut_status ver num msg w) + length (lines_text Ls)) None (resp, [], None);
            case r of Inl e \<Rightarrow> None
            | Inr (m, st) \<Rightarrow> do { resp \<leftarrow> finish_response m st; Some (0, m, resp) } }"
proof -
  let ?L = "status_line ver num msg w"
  have clean: "NUL \<notin> set ?L" "LF \<notin> set ?L"
    using assms(1) by (auto simp: status_line_def status_line_ok_def code_def dest: tokenD)
  obtain resp where resp: "parse_status_line (X @ ?L @ NUL # lines_text Ls @ NUL # Y) (length X) (length X + length ?L) response_zero
      = Some (Inr (X @ cut_status ver num msg w @ lines_text Ls @ NUL # Y, resp))"
    "resp_rel (X @ cut_status ver num msg w) (resp, [], None) (aresp_init ver num msg)"
    using parse_status_line_refines [OF assms(1), of X "lines_text Ls @ NUL # Y"] by blast
  have "nxweb_parse_http_response (X @ ?L @ LF # lines_text Ls @ e # Y) response_zero (length X)
       (length X + length ?L + 1 + length (lines_text Ls))
     = do { r \<leftarrow> parse_headers_loop store_resp_header (X @ cut_status ver num msg w @ lines_text Ls @ NUL # Y)
                 (length X + length ?L + 1)
                 (length X + length ?L + 1 + length (lines_text Ls)) None (resp, [], None);
            case r of Inl e \<Rightarrow> None
            | Inr (m, st) \<Rightarrow> do { resp \<leftarrow> finish_response m st; Some (0, m, resp) } }"
    using resp(1) wr_split [of "X @ ?L @ LF # lines_text Ls" e Y NUL] c_strchr_found [OF _ clean(2), of X "lines_text Ls @ NUL # Y"] clean(1)
      wr_split [of "X @ ?L" LF "lines_text Ls @ NUL # Y" NUL]
    by (simp add: nxweb_parse_http_response_def add.assoc cong: sum.case_cong)
  then show thesis
    by (intro that [OF resp(2)]) (simp add: cut_status_length add.assoc)
qed

lemma parse_response_run:
  assumes "status_line_ok ver num msg w" "Ls \<noteq> []" "\<forall>L \<in> set Ls. line_ok resp_value_ok L"
    and spec: "spec_lines spec_resp_header Ls (aresp_init ver num msg) = Some a"
  shows "\<exists>m resp. nxweb_parse_http_response (X @ status_line ver num msg w @ LF # lines_text Ls @ e # Y) response_zero (length X)
      (length X + length (status_line ver num msg w) + 1 + length (lines_text Ls)) = Some (0, m, resp)
    \<and> response_at m resp (spec_finish a)"
proof -
  have "NUL \<notin> set (lines_text Ls)" using assms(3) by (induction Ls rule: lines_text.induct) (auto simp: line_ok_def)
  then obtain resp where rel: "resp_rel (X @ cut_status ver num msg w) (resp, [], None) (aresp_init ver num msg)"
    and run: "nxweb_parse_http_response (X @ status_line ver num msg w @ LF # lines_text Ls @ e # Y) response_zero (length X)
       (length X + length (status_line ver num msg w) + 1 + length (lines_text Ls))
     = do { r \<leftarrow> parse_headers_loop store_resp_header ((X @ cut_status ver num msg w) @ lines_text Ls @ NUL # Y)
                 (length (X @ cut_status ver num msg w))
                 (length (X @ cut_status ver num msg w) + length (lines_text Ls)) None (resp, [], None);
            case r of Inl e \<Rightarrow> None
            | Inr (m, st) \<Rightarrow> do { resp \<leftarrow> finish_response m st; Some (0, m, resp) } }"
    using response_head_start [OF assms(1)] by blast
  obtain A' st' where st': "resp_rel A' st' a"
    "parse_headers_loop store_resp_header ((X @ cut_status ver num msg w) @ lines_text Ls @ NUL # Y)
        (length (X @ cut_status ver num msg w)) (length (X @ cut_status ver num msg w) + length (lines_text Ls)) None (resp, [], None)
        = Some (Inr (A' @ Y, st'))"
    using response_headers.parse_headers_loop_refines [OF assms(2,3) rel, of Y None] unfolding spec option.case by blast
  from finish_response_refines [OF resp_rel_append [OF st'(1)], of Y] obtain r where
    "finish_response (A' @ Y) st' = Some r" "response_at (A' @ Y) r (spec_finish a)"
    unfolding response_at_def by blast
  then show ?thesis unfolding run st'(2) by auto
qed

text \<open>
  C30: Parsing the head of a response implements the specification on strings.  For a status line of
  a version, a number and a message, and well-formed header lines, the parser returns 0 with the
  status, every known header in its field (lengths, dates, validators, cache directives, framing) and the
  others in the header list, whatever bytes stand before and behind the head.
\<close>

theorem parse_http_response_refines:
  assumes "status_line_ok ver num msg w" "Ls \<noteq> []" "\<forall>L \<in> set Ls. line_ok resp_value_ok L"
  shows "\<exists>a m resp. spec_lines spec_resp_header Ls (aresp_init ver num msg) = Some a
    \<and> nxweb_parse_http_response (X @ status_line ver num msg w @ LF # lines_text Ls @ e # Y) response_zero (length X)
      (length X + length (status_line ver num msg w) + 1 + length (lines_text Ls)) = Some (0, m, resp)
    \<and> response_at m resp (spec_finish a)"
proof -
  obtain a where "spec_lines spec_resp_header Ls (aresp_init ver num msg) = Some a" using spec_lines_total by blast
  with parse_response_run [OF assms this] show ?thesis by blast
qed

lemma resp_line_ok_plain:
  "NUL \<notin> set L \<Longrightarrow> LF \<notin> set L \<Longrightarrow> \<not> le_sp (hd L)
   \<Longrightarrow> header_id (header_name_of L) \<notin> {NXWEB_HTTP_DATE, NXWEB_HTTP_LAST_MODIFIED, NXWEB_HTTP_EXPIRES} \<Longrightarrow> line_ok resp_value_ok L"
  by (simp add: line_ok_def resp_value_ok_def)

theorem parse_http_response_refines_witness:
  "\<exists>a m resp. spec_lines spec_resp_header [''Content-Length: 5'', ''x: y''] (aresp_init ''HTTP/1.1'' ''200'' ''OK'') = Some a
    \<and> nxweb_parse_http_response ([] @ status_line ''HTTP/1.1'' ''200'' ''OK'' [CR] @ LF # lines_text [''Content-Length: 5'', ''x: y''] @ LF # [])
      response_zero (length ([] :: string))
      (length ([] :: string) + length (status_line ''HTTP/1.1'' ''200'' ''OK'' [CR]) + 1 + length (lines_text [''Content-Length: 5'', ''x: y''])) = Some (0, m, resp)
    \<and> response_at m resp (spec_finish a)"
proof (rule parse_http_response_refines)
  show "status_line_ok ''HTTP/1.1'' ''200'' ''OK'' [CR]" by code_simp
  show "\<forall>L \<in> set [''Content-Length: 5'', ''x: y'']. line_ok resp_value_ok L"
    by (simp only: list.set ball_simps insert_iff simp_thms) (intro conjI resp_line_ok_plain; code_simp)
qed simp

end
