(* ===== verification/Nx_Http_Roundtrip.thy ===== *)
theory Nx_Http_Roundtrip
  imports Nx_Http_Response_Parse
begin

text \<open>
  The two halves of the program meet on the wire: the head that
  \<^verbatim>\<open>_nxweb_prepare_response_headers\<close> writes is read by \<^verbatim>\<open>_nxweb_parse_http_response\<close>, in a
  proxy of the same program.  What is read is what was meant.
\<close>

section \<open>Values on the wire\<close>

lemma trim_blanks: "\<forall>c \<in> set b. le_sp c \<Longrightarrow> trim (v @ b) = trim v"
proof -
  assume b: "\<forall>c \<in> set b. le_sp c"
  show ?thesis
  proof (cases "\<forall>c \<in> set v. le_sp c")
    case True
    with b have "dropWhile le_sp v = []" "dropWhile le_sp (v @ b) = []" by auto
    then show ?thesis by (simp only: trim_def rev.simps dropWhile.simps)
  next
    case False
    then show ?thesis using b by (auto simp: trim_def dropWhile_append)
  qed
qed

lemma trim_lead: "le_sp c \<Longrightarrow> trim (c # v) = trim v"
  by (simp add: trim_def)

lemma trim_id: "s \<noteq> [] \<Longrightarrow> \<not> le_sp (hd s) \<Longrightarrow> \<not> le_sp (last s) \<Longrightarrow> trim s = s"
proof -
  assume a: "s \<noteq> []" "\<not> le_sp (hd s)" "\<not> le_sp (last s)"
  from a(1,2) have d: "dropWhile le_sp s = s" by (cases s) auto
  obtain u c where s: "s = u @ [c]" using a(1) by (cases s rule: rev_cases) auto
  with a(3) have "dropWhile le_sp (rev s) = rev s" by simp
  with d show ?thesis by (simp add: trim_def)
qed

lemma digit_not_blank: "c \<in> set (dec n) \<Longrightarrow> \<not> le_sp c"
  using set_dec [of c n] by (auto simp: le_sp_def)

lemma trim_dec: "trim (dec n) = dec n"
  using digit_not_blank [of _ n] by (intro trim_id) (auto intro: hd_in_set last_in_set)

lemma c_atol_dec: "n < 2 ^ 63 \<Longrightarrow> c_atol (dec n @ NUL # r) = Some (int n)"
proof -
  assume n: "n < 2 ^ 63"
  obtain d ds where "dec n = digit_char d # ds" "d < 10" using dec_digit_Cons by blast
  with c_strtol_digits [OF scan_digits_dec [of NUL n r] _ _ n] show ?thesis by (simp add: c_atol_def)
qed

section \<open>A list of fields as header lines\<close>

definition field_line :: "string \<times> string \<Rightarrow> string" where
  "field_line h = fst h @ '': '' @ snd h"

definition field_ok :: "string \<times> string \<Rightarrow> bool" where
  "field_ok h \<longleftrightarrow> fst h \<noteq> [] \<and> \<not> le_sp (hd (fst h)) \<and> NUL \<notin> set (fst h) \<and> LF \<notin> set (fst h) \<and> CHR '':'' \<notin> set (fst h)
     \<and> NUL \<notin> set (snd h) \<and> LF \<notin> set (snd h) \<and> trim (snd h) = snd h \<and> resp_value_ok (header_id (fst h)) (snd h)"

text \<open>The lines as the loop sees them: each but the last still has its carriage return.\<close>

fun wire_lines :: "(string \<times> string) list \<Rightarrow> string list" where
  "wire_lines [] = []"
| "wire_lines [h] = [field_line h]"
| "wire_lines (h # g # hs) = (field_line h @ [CR]) # wire_lines (g # hs)"

lemma header_lines_wire: "hs \<noteq> [] \<Longrightarrow> header_lines hs @ Z = lines_text (wire_lines hs) @ CR # LF # Z"
proof (induction hs rule: wire_lines.induct)
  case (3 h g hs)
  obtain L Ls where "wire_lines (g # hs) = L # Ls" by (cases hs) auto
  with 3 show ?case by (simp add: header_line_def field_line_def)
qed (simp_all add: header_line_def field_line_def)

lemma wire_lines_nonempty: "hs \<noteq> [] \<Longrightarrow> wire_lines hs \<noteq> []"
  by (cases hs rule: wire_lines.cases) auto

lemma field_line_parts:
  assumes "field_ok h" "x \<in> {[], [CR]}"
  shows "header_name_of (field_line h @ x) = fst h" "header_value_of (field_line h @ x) = snd h" "CHR '':'' \<in> set (field_line h @ x)"
proof -
  have n: "CHR '':'' \<notin> set (fst h)" using assms(1) by (simp add: field_ok_def)
  show name: "header_name_of (field_line h @ x) = fst h"
    using n by (auto simp: header_name_of_def field_line_def takeWhile_append)
  have "trim (SP # snd h @ x) = snd h" using assms by (auto simp: trim_lead trim_blanks field_ok_def)
  then show "header_value_of (field_line h @ x) = snd h"
    by (simp add: header_value_of_def name) (simp add: field_line_def)
  show "CHR '':'' \<in> set (field_line h @ x)" by (simp add: field_line_def)
qed

lemma field_line_ok: "field_ok h \<Longrightarrow> x \<in> {[], [CR]} \<Longrightarrow> line_ok resp_value_ok (field_line h @ x)"
  using field_line_parts [of h x] by (cases "fst h") (auto simp: line_ok_def field_ok_def field_line_def)

lemma wire_lines_ok: "\<forall>h \<in> set hs. field_ok h \<Longrightarrow> \<forall>L \<in> set (wire_lines hs). line_ok resp_value_ok L"
proof (induction hs rule: wire_lines.induct)
  case (2 h)
  then show ?case using field_line_ok [of h "[]"] by simp
next
  case (3 h g hs)
  then show ?case using field_line_ok [of h "[CR]"] by simp
qed simp

lemma spec_wire_lines:
  "\<forall>h \<in> set hs. field_ok h \<Longrightarrow> spec_lines spec_resp_header (wire_lines hs) a = Some (fold resp_apply hs a)"
proof (induction hs arbitrary: a rule: wire_lines.induct)
  case (2 h)
  then show ?case using field_line_parts [of h "[]"] by (simp add: spec_line_def spec_resp_header_total)
next
  case (3 h g hs)
  then show ?case using field_line_parts [of h "[CR]"] by (simp add: spec_line_def spec_resp_header_total)
qed simp

section \<open>Reading the fields of a response\<close>

lemma header_ids:
  "header_id ''Server'' = NXWEB_HTTP_SERVER" "header_id ''Date'' = NXWEB_HTTP_DATE"
  "header_id ''Connection'' = NXWEB_HTTP_CONNECTION" "header_id ''Content-Type'' = NXWEB_HTTP_CONTENT_TYPE"
  "header_id ''Content-Encoding'' = NXWEB_HTTP_UNKNOWN" "header_id ''Last-Modified'' = NXWEB_HTTP_LAST_MODIFIED"
  "header_id ''ETag'' = NXWEB_HTTP_ETAG" "header_id ''Expires'' = NXWEB_HTTP_EXPIRES"
  "header_id ''Cache-Control'' = NXWEB_HTTP_CACHE_CONTROL" "header_id ''Content-Length'' = NXWEB_HTTP_CONTENT_LENGTH"
  "header_id ''Transfer-Encoding'' = NXWEB_HTTP_TRANSFER_ENCODING"
  by code_simp+

definition apply_other :: "string \<times> string \<Rightarrow> aresp \<Rightarrow> aresp" where
  "apply_other h = (\<lambda>(a, te). (a\<lparr>rs_headers := h # rs_headers a\<rparr>, te))"

lemma resp_apply_ids:
  "resp_apply (''Server'', v) = apply_other (''Server'', v)"
  "resp_apply (''Content-Encoding'', v) = apply_other (''Content-Encoding'', v)"
  "resp_apply (''Date'', v) (a, te) = (a\<lparr>rs_date := the (nxweb_parse_http_time (v @ [NUL]))\<rparr>, te)"
  "resp_apply (''Connection'', v) (a, te) = (a\<lparr>rs_keep_alive := same_nocase v ''keep-alive''\<rparr>, te)"
  "resp_apply (''Content-Type'', v) (a, te) = (a\<lparr>rs_content_type := Some v\<rparr>, te)"
  "resp_apply (''Last-Modified'', v) (a, te) = (a\<lparr>rs_last_modified := the (nxweb_parse_http_time (v @ [NUL]))\<rparr>, te)"
  "resp_apply (''ETag'', v) (a, te) = (a\<lparr>rs_etag := Some v\<rparr>, te)"
  "resp_apply (''Expires'', v) (a, te) = (a\<lparr>rs_expires := the (nxweb_parse_http_time (v @ [NUL]))\<rparr>, te)"
  "resp_apply (''Cache-Control'', v) (a, te) = (a\<lparr>rs_cache_control := Some v\<rparr>, te)"
  "resp_apply (''Content-Length'', v) (a, te) = (a\<lparr>rs_content_length := the (c_atol (v @ [NUL]))\<rparr>, te)"
  "resp_apply (''Transfer-Encoding'', v) (a, te) = (a, Some v)"
  by (simp_all add: fun_eq_iff resp_apply_def spec_resp_header_def header_ids apply_other_def)

lemma resp_apply_unknown: "header_id (fst h) = NXWEB_HTTP_UNKNOWN \<Longrightarrow> resp_apply h = apply_other h"
  by (simp add: fun_eq_iff resp_apply_def spec_resp_header_def apply_other_def)

lemma fold_apply_other: "\<forall>h \<in> set hs. header_id (fst h) = NXWEB_HTTP_UNKNOWN \<Longrightarrow>
  fold resp_apply hs (a, te) = (a\<lparr>rs_headers := rev hs @ rs_headers a\<rparr>, te)"
proof (induction hs arbitrary: a)
  case (Cons h hs)
  then show ?case by (simp add: resp_apply_unknown apply_other_def)
qed simp

lemma keep_alive_words: "same_nocase ''keep-alive'' ''keep-alive''" "\<not> same_nocase ''close'' ''keep-alive''"
  by code_simp+

lemma parse_date_back: "0 \<le> t \<Longrightarrow> t < MAX_TIME \<Longrightarrow> nxweb_parse_http_time (http_date (gmtime t) @ r) = Some t"
  using parse_http_date [OF gmtime_facts(2), of t r] gmtime_facts(1) [of t] by simp

section \<open>Cache directives\<close>

lemma split_commas:
  "d \<noteq> [] \<or> ds \<noteq> [] \<Longrightarrow> \<forall>e \<in> set (d # ds). CHR '','' \<notin> set e \<Longrightarrow> split_on (CHR '','') (commas (d # ds)) = d # map (\<lambda>e. SP # e) ds"
proof (induction ds arbitrary: d)
  case Nil
  then show ?case by (simp add: split_on_single)
next
  case (Cons e ds)
  have "split_on (CHR '','') (commas (d # e # ds)) = d # split_on (CHR '','') (SP # commas (e # ds))"
    using split_on_append [of "CHR '',''" d "SP # commas (e # ds)"] Cons.prems by simp
  also have "split_on (CHR '','') (SP # commas (e # ds)) = map (\<lambda>e. SP # e) (e # ds)"
  proof (cases "ds = [] \<and> e = []")
    case True
    then show ?thesis by simp
  next
    case False
    with Cons.IH [of e] Cons.prems have "split_on (CHR '','') (commas (e # ds)) = e # map (\<lambda>e. SP # e) ds" by auto
    then show ?thesis by simp
  qed
  finally show ?case .
qed

lemma cc_apply_blank: "cc_apply (SP # d) = cc_apply d"
proof -
  have n: "directive_name (SP # d) = directive_name d" by (simp add: directive_name_def)
  then have "directive_value (SP # d) = directive_value d" by (simp add: directive_value_def)
  with n show ?thesis by (simp add: fun_eq_iff cc_apply_def)
qed

lemma same_nocase_refl [simp]: "same_nocase s s"
  by (simp add: same_nocase_def)

lemma fold_cc_commas:
  assumes "\<forall>e \<in> set ds. CHR '','' \<notin> set e" "ds \<noteq> []" "hd ds \<noteq> []"
  shows "fold cc_apply (split_on (CHR '','') (commas ds)) st = fold cc_apply ds st"
proof -
  obtain d es where ds: "ds = d # es" using assms(2) by (cases ds) auto
  have "fold cc_apply (map (\<lambda>e. SP # e) es) st = fold cc_apply es st" for st :: "'a nxweb_http_response \<times> bool"
    by (induction es arbitrary: st) (simp_all add: cc_apply_blank)
  then show ?thesis using split_commas [of d es] assms(1,3) by (simp add: ds)
qed

lemma directive_words:
  "directive_name ''private'' = ''private''" "directive_name ''no-cache'' = ''no-cache''"
  "\<not> same_nocase ''private'' ''no-cache''" "\<not> same_nocase ''max-age'' ''no-cache''" "\<not> same_nocase ''max-age'' ''private''"
  by code_simp+

lemma directive_max_age: "directive_name (''max-age='' @ v) = ''max-age''" "trim v = v \<Longrightarrow> directive_value (''max-age='' @ v) = Some v"
proof -
  have "dropWhile le_sp (''max-age='' @ v) = ''max-age='' @ v" by (simp add: le_sp_def code_def)
  then show n: "directive_name (''max-age='' @ v) = ''max-age''" and "trim v = v \<Longrightarrow> directive_value (''max-age='' @ v) = Some v"
    by (simp_all add: directive_name_def directive_value_def)
qed

lemma age_text_back:
  assumes "a = -1 \<or> 0 < a \<and> a < 2 ^ 63"
  shows "(if age_text a = ''0'' then -1 else the (c_atol (age_text a @ [NUL]))) = a" "trim (age_text a) = age_text a" "CHR '','' \<notin> set (age_text a)"
proof -
  have z: "trim ''0'' = ''0''" "c_atol ''0'' = c_atol ''0''" by code_simp+
  have zero: "c_atol (''0'' @ [NUL]) = Some 0" by code_simp
  show "(if age_text a = ''0'' then -1 else the (c_atol (age_text a @ [NUL]))) = a"
  proof (cases "a = -1")
    case False
    with assms have a: "0 < a" "a < 2 ^ 63" by auto
    then have u: "to_ulong a = nat a" by (simp add: to_ulong_def)
    have lt: "nat a < 2 ^ 63" using a by (simp add: nat_less_iff)
    have v: "c_atol (age_text a @ [NUL]) = Some a" using c_atol_dec [OF lt, of "[]"] False u a(1) by (simp add: age_text_def)
    then have "age_text a \<noteq> ''0''" using zero a(1) by auto
    with v show ?thesis by simp
  qed (simp add: age_text_def)
  show "trim (age_text a) = age_text a" using z(1) by (simp add: age_text_def trim_dec)
  have "CHR '','' \<notin> set (dec n)" for n using set_dec [of "CHR '',''" n] by (auto simp: code_def)
  then show "CHR '','' \<notin> set (age_text a)" by (simp add: age_text_def)
qed

lemma cache_directives_back:
  fixes a :: "'s nxweb_http_response"
  assumes "rs_max_age resp = 0 \<or> rs_max_age resp = -1 \<or> 0 < rs_max_age resp \<and> rs_max_age resp < 2 ^ 63"
    "cache_directives resp \<noteq> []" "\<not> rs_no_cache a" "\<not> rs_cache_private a" "rs_max_age a = 0"
  shows "fst (fold cc_apply (split_on (CHR '','') (commas (cache_directives resp))) (a, x))
    = a\<lparr>rs_cache_private := rs_cache_private resp, rs_no_cache := rs_no_cache resp, rs_max_age := rs_max_age resp\<rparr>"
proof -
  define D where "D = ''max-age='' @ age_text (rs_max_age resp)"
  have age: "cc_apply D (b, y) = (b\<lparr>rs_max_age := rs_max_age resp\<rparr>, y)"
    if "rs_max_age resp \<noteq> 0" for b :: "'s nxweb_http_response" and y
  proof -
    have ok: "rs_max_age resp = -1 \<or> 0 < rs_max_age resp \<and> rs_max_age resp < 2 ^ 63" using assms(1) that by simp
    have "directive_name D = ''max-age''" "directive_value D = Some (age_text (rs_max_age resp))"
      unfolding D_def using directive_max_age age_text_back(2) [OF ok] by blast+
    then show ?thesis using directive_words(4,5) age_text_back(1) [OF ok] by (simp add: cc_apply_def)
  qed
  have words: "cc_apply ''private'' (b, y) = (b\<lparr>rs_cache_private := True\<rparr>, y)" "cc_apply ''no-cache'' (b, y) = (b\<lparr>rs_no_cache := True\<rparr>, y)"
    for b :: "'s nxweb_http_response" and y
    using directive_words by (simp_all add: cc_apply_def)
  have cm: "\<forall>e \<in> set (cache_directives resp). CHR '','' \<notin> set e"
    using age_text_back(3) [of "rs_max_age resp"] assms(1) by (auto simp: cache_directives_def)
  have "hd (cache_directives resp) \<noteq> []" using assms(2) by (auto simp: cache_directives_def)
  note fold_eq = fold_cc_commas [OF cm assms(2) this]
  have dirs: "cache_directives resp = (if rs_cache_private resp then [''private''] else []) @ (if rs_no_cache resp then [''no-cache''] else [])
     @ (if rs_max_age resp \<noteq> 0 then [D] else [])" by (simp add: cache_directives_def D_def)
  show ?thesis unfolding fold_eq unfolding dirs using assms(3-5)
    by (cases "rs_cache_private resp"; cases "rs_no_cache resp"; cases "rs_max_age resp = 0")
      (simp_all add: age words)
qed

section \<open>What is received\<close>

definition sent_code :: "string nxweb_http_response \<Rightarrow> int" where
  "sent_code resp = (if rs_status_code resp \<noteq> 0 then rs_status_code resp else 200)"

definition sent_status :: "string nxweb_http_response \<Rightarrow> string" where
  "sent_status resp = (case rs_status resp of Some s \<Rightarrow> s | None \<Rightarrow> ''OK'')"

definition sent_others :: "string \<Rightarrow> string nxweb_http_response \<Rightarrow> (string \<times> string) list" where
  "sent_others ver resp = (''Server'', ''nxweb/'' @ ver) # filter (\<lambda>h. \<not> own_header (header_id (fst h))) (rs_headers resp)
     @ (if rs_content_length resp \<noteq> 0 \<and> rs_gzip_encoded resp then [(''Content-Encoding'', ''gzip'')] else [])"

text \<open>
  The response as its receiver sees it.  A body of unknown length arrives chunked; a response that must not
  have a body is sent without a length, which a receiver that keeps the connection takes for 0.
\<close>

definition received :: "string \<Rightarrow> int \<Rightarrow> string nxweb_http_response \<Rightarrow> string nxweb_http_response" where
  "received ver t resp = response_zero\<lparr>
     rs_status := Some (sent_status resp), rs_status_code := sent_code resp,
     rs_http11 := rs_http11 resp, rs_keep_alive := rs_keep_alive resp,
     rs_content_length :=
       (if rs_content_length resp < 0 then -1
        else if rs_content_length resp = 0 \<and> rs_status_code resp \<in> {304, 204, 205} \<and> \<not> rs_keep_alive resp then -1
        else rs_content_length resp),
     rs_chunked_encoding := rs_content_length resp < 0,
     rs_content_type := map_of (type_fields resp) ''Content-Type'',
     rs_date := t, rs_last_modified := rs_last_modified resp, rs_etag := rs_etag resp, rs_expires := rs_expires resp,
     rs_cache_control := map_of (cache_field resp) ''Cache-Control'',
     rs_no_cache := rs_no_cache resp, rs_cache_private := rs_cache_private resp, rs_max_age := rs_max_age resp,
     rs_headers := rev (sent_others ver resp)\<rparr>"

definition value_plain :: "string \<Rightarrow> bool" where
  "value_plain v \<longleftrightarrow> NUL \<notin> set v \<and> LF \<notin> set v \<and> trim v = v"

definition wire_ok :: "string \<Rightarrow> string nxweb_http_response \<Rightarrow> bool" where
  "wire_ok ver resp \<longleftrightarrow> response_ok resp \<and> rs_extra_raw_headers resp = None \<and> rs_cache_control resp = None
     \<and> 0 \<le> rs_status_code resp \<and> rs_status_code resp < 1000 \<and> rs_content_length resp < 2 ^ 63
     \<and> (rs_max_age resp = 0 \<or> rs_max_age resp = -1 \<or> 0 < rs_max_age resp \<and> rs_max_age resp < 2 ^ 63)
     \<and> (case rs_status resp of None \<Rightarrow> True | Some s \<Rightarrow> s \<noteq> [] \<and> \<not> le_sp (hd s) \<and> (\<forall>c \<in> set s. 32 \<le> code c))
     \<and> (\<forall>h \<in> set (rs_headers resp). field_ok h \<and> (own_header (header_id (fst h)) \<or> header_id (fst h) = NXWEB_HTTP_UNKNOWN))
     \<and> value_plain (''nxweb/'' @ ver) \<and> (\<forall>h \<in> set (type_fields resp @ opt_field ''ETag'' (rs_etag resp)). value_plain (snd h))"

lemma fold_type: "fold resp_apply (type_fields resp) (a, te) = (a\<lparr>rs_content_type := (if rs_content_length resp \<noteq> 0 then map_of (type_fields resp) ''Content-Type'' else rs_content_type a),
    rs_headers := rev (if rs_content_length resp \<noteq> 0 \<and> rs_gzip_encoded resp then [(''Content-Encoding'', ''gzip'')] else []) @ rs_headers a\<rparr>, te)"
  by (simp add: type_fields_def resp_apply_ids apply_other_def)

lemma fold_dates:
  "0 \<le> t \<Longrightarrow> t < MAX_TIME \<Longrightarrow> fold resp_apply (date_field ''Last-Modified'' t) (a, te) = (a\<lparr>rs_last_modified := if t \<noteq> 0 then t else rs_last_modified a\<rparr>, te)"
  "0 \<le> t \<Longrightarrow> t < MAX_TIME \<Longrightarrow> fold resp_apply (date_field ''Expires'' t) (a, te) = (a\<lparr>rs_expires := if t \<noteq> 0 then t else rs_expires a\<rparr>, te)"
  by (simp_all add: date_field_def resp_apply_ids parse_date_back)

lemma fold_etag: "fold resp_apply (opt_field ''ETag'' e) (a, te) = (a\<lparr>rs_etag := if e \<noteq> None then e else rs_etag a\<rparr>, te)"
  by (cases e) (simp_all add: opt_field_def resp_apply_ids)

lemma fold_cache:
  "rs_cache_control resp = None \<Longrightarrow> fold resp_apply (cache_field resp) (a, te)
    = (a\<lparr>rs_cache_control := if cache_directives resp \<noteq> [] then map_of (cache_field resp) ''Cache-Control'' else rs_cache_control a\<rparr>, te)"
  by (simp add: cache_field_def resp_apply_ids)

lemma fold_length:
  assumes "rs_content_length resp < 2 ^ 63"
  shows "fold resp_apply (length_field resp) (a, te) =
    (a\<lparr>rs_content_length := (if rs_content_length resp < 0 \<or> rs_content_length resp = 0 \<and> rs_status_code resp \<in> {304, 204, 205}
        then rs_content_length a else rs_content_length resp)\<rparr>,
     if rs_content_length resp < 0 then Some ''chunked'' else te)"
proof (cases "rs_content_length resp < 0")
  case True
  then show ?thesis by (simp add: length_field_def resp_apply_ids)
next
  case False
  then have "to_ulong (rs_content_length resp) = nat (rs_content_length resp)" "nat (rs_content_length resp) < 2 ^ 63"
    using assms by (simp_all add: to_ulong_def nat_less_iff)
  then have "c_atol (dec (to_ulong (rs_content_length resp)) @ [NUL]) = Some (rs_content_length resp)"
    using c_atol_dec [of "nat (rs_content_length resp)" "[]"] False by simp
  with False show ?thesis by (auto simp: length_field_def resp_apply_ids)
qed

lemma fold_head:
  assumes "\<forall>h \<in> set (rs_headers resp). own_header (header_id (fst h)) \<or> header_id (fst h) = NXWEB_HTTP_UNKNOWN" "0 \<le> t" "t < MAX_TIME"
  shows "fold resp_apply (head_fields ver (http_date (gmtime t)) resp) (a, te) = (a\<lparr>rs_date := t, rs_keep_alive := rs_keep_alive resp,
    rs_headers := rev (filter (\<lambda>h. \<not> own_header (header_id (fst h))) (rs_headers resp)) @ (''Server'', ''nxweb/'' @ ver) # rs_headers a\<rparr>, te)"
proof -
  have "\<forall>h \<in> set (filter (\<lambda>h. \<not> own_header (header_id (fst h))) (rs_headers resp)). header_id (fst h) = NXWEB_HTTP_UNKNOWN"
    using assms(1) by auto
  then show ?thesis using assms(2,3) keep_alive_words
    by (simp add: head_fields_def fold_apply_other resp_apply_ids apply_other_def parse_date_back)
qed

lemma received_spec:
  assumes ok: "wire_ok ver resp" and t: "0 \<le> t" "t < MAX_TIME"
    and num: "to_int32 (the (c_atol (dec (to_ulong (sent_code resp)) @ [NUL]))) = sent_code resp"
    and http: "same_nocase v ''HTTP/1.0'' = (\<not> rs_http11 resp)"
  shows "spec_finish (fold resp_apply (head_fields ver (http_date (gmtime t)) resp @ entity_fields resp)
      (aresp_init v (dec (to_ulong (sent_code resp))) (sent_status resp))) = received ver t resp"
proof -
  note ok' = ok [unfolded wire_ok_def response_ok_def]
  have lm: "0 \<le> rs_last_modified resp" "rs_last_modified resp < MAX_TIME" "0 \<le> rs_expires resp" "rs_expires resp < MAX_TIME"
    and cc: "rs_cache_control resp = None" and cl: "rs_content_length resp < 2 ^ 63"
    and hs: "\<forall>h \<in> set (rs_headers resp). own_header (header_id (fst h)) \<or> header_id (fst h) = NXWEB_HTTP_UNKNOWN"
    and age: "rs_max_age resp = 0 \<or> rs_max_age resp = -1 \<or> 0 < rs_max_age resp \<and> rs_max_age resp < 2 ^ 63"
    using ok' by auto
  have chunked: "same_nocase ''chunked'' ''chunked''" by simp
  have nodir: "\<not> rs_no_cache resp \<and> \<not> rs_cache_private resp \<and> rs_max_age resp = 0" if "cache_directives resp = []"
    using that by (auto simp: cache_directives_def split: if_splits)
  have mo: "map_of (cache_field resp) ''Cache-Control'' = (if cache_directives resp = [] then None else Some (commas (cache_directives resp)))"
    using cc by (simp add: cache_field_def)
  note folds = fold_head [OF hs t] fold_type fold_dates(1) [OF lm(1,2)] fold_etag fold_dates(2) [OF lm(3,4)] fold_cache [OF cc] fold_length [OF cl]
  have ct: "rs_content_length resp = 0 \<Longrightarrow> map_of (type_fields resp) ''Content-Type'' = None" by (simp add: type_fields_def)
  define b where "b = (response_zero :: string nxweb_http_response)\<lparr>rs_status := Some (sent_status resp), rs_status_code := sent_code resp,
     rs_http11 := rs_http11 resp, rs_keep_alive := rs_keep_alive resp,
     rs_content_length := (if rs_content_length resp < 0 \<or> rs_content_length resp = 0 \<and> rs_status_code resp \<in> {304, 204, 205} then -1 else rs_content_length resp),
     rs_content_type := map_of (type_fields resp) ''Content-Type'', rs_date := t, rs_last_modified := rs_last_modified resp,
     rs_etag := rs_etag resp, rs_expires := rs_expires resp, rs_cache_control := map_of (cache_field resp) ''Cache-Control'',
     rs_headers := rev (sent_others ver resp)\<rparr>"
  have run: "fold resp_apply (head_fields ver (http_date (gmtime t)) resp @ entity_fields resp)
      (aresp_init v (dec (to_ulong (sent_code resp))) (sent_status resp)) = (b, if rs_content_length resp < 0 then Some ''chunked'' else None)"
    unfolding aresp_init_def num http fold_append comp_apply entity_fields_def folds
    using ct mo by (simp add: b_def response_zero_def sent_others_def)
  define b2 where "b2 = b\<lparr>rs_cache_private := rs_cache_private resp, rs_no_cache := rs_no_cache resp, rs_max_age := rs_max_age resp\<rparr>"
  have b2: "(case rs_cache_control b of None \<Rightarrow> b | Some c \<Rightarrow> fst (fold cc_apply (split_on (CHR '','') c) (b, False))) = b2"
  proof (cases "cache_directives resp = []")
    case True
    with nodir show ?thesis by (simp add: b2_def b_def mo response_zero_def)
  next
    case False
    have "fst (fold cc_apply (split_on (CHR '','') (commas (cache_directives resp))) (b, False)) = b2"
      unfolding b2_def by (rule cache_directives_back [OF age False]) (simp_all add: b_def response_zero_def)
    with False show ?thesis by (simp add: b_def mo)
  qed
  show ?thesis unfolding run spec_finish_def prod.case b2 Let_def
    by (auto simp: b2_def b_def received_def response_zero_def)
qed

section \<open>The fields are well formed\<close>

definition solid :: "string \<Rightarrow> bool" where
  "solid s \<longleftrightarrow> s \<noteq> [] \<and> \<not> le_sp (hd s) \<and> \<not> le_sp (last s) \<and> (\<forall>c \<in> set s. 32 \<le> code c)"

lemma solid_plain: "solid s \<Longrightarrow> value_plain s"
  by (auto simp: solid_def value_plain_def trim_id code_def)

lemma solid_append: "solid s \<Longrightarrow> solid t \<Longrightarrow> \<forall>c \<in> set u. 32 \<le> code c \<Longrightarrow> solid (s @ u @ t)"
  by (auto simp: solid_def)

lemma solid_commas: "ds \<noteq> [] \<Longrightarrow> \<forall>d \<in> set ds. solid d \<Longrightarrow> solid (commas ds)"
proof (induction ds rule: commas.induct)
  case (3 d e ds)
  then have "solid d" "solid (commas (e # ds))" by auto
  with solid_append [of d "commas (e # ds)" "'', ''"] show ?case by (simp add: code_def)
qed auto

lemma solid_digits: "s \<noteq> [] \<Longrightarrow> \<forall>c \<in> set s. 48 \<le> code c \<Longrightarrow> solid s"
proof -
  assume s: "s \<noteq> []" "\<forall>c \<in> set s. 48 \<le> code c"
  have "\<not> code (hd s) \<le> 32" using bspec [OF s(2) hd_in_set [OF s(1)]] by linarith
  moreover have "\<not> code (last s) \<le> 32" using bspec [OF s(2) last_in_set [OF s(1)]] by linarith
  ultimately show ?thesis unfolding solid_def le_sp_def using s by fastforce
qed

lemma solid_dec: "solid (dec n)"
  using set_dec [of _ n] by (intro solid_digits) auto

lemma solid_http_date:
  assumes "tm_ok t"
  shows "solid (http_date t)"
proof -
  have tabs: "list_all (\<lambda>s. list_all (\<lambda>c. 48 \<le> code c) s \<and> s \<noteq> []) (WEEK_DAY @ MONTH)" by code_simp
  have "nat (tm_wday t) < length WEEK_DAY" "nat (tm_mon t) < length MONTH"
    using assms by (auto simp: tm_ok_def WEEK_DAY_def MONTH_def)
  then have "WEEK_DAY ! nat (tm_wday t) \<in> set (WEEK_DAY @ MONTH)" "MONTH ! nat (tm_mon t) \<in> set (WEEK_DAY @ MONTH)" by auto
  with tabs have w: "solid (WEEK_DAY ! nat (tm_wday t))" "solid (MONTH ! nat (tm_mon t))"
    by (auto simp: list_all_iff intro!: solid_digits)
  have pad: "solid (dec_pad 2 n)" for n
  proof (rule solid_digits)
    have "length (dec_pad 2 n) = 2" by simp
    then show "dec_pad 2 n \<noteq> []" by (metis list.size(3) zero_neq_numeral)
    show "\<forall>c \<in> set (dec_pad 2 n). 48 \<le> code c" using set_dec_pad by blast
  qed
  have sep: "solid (a @ u @ b)" if "u \<in> {'', '', '' '', '':''}" "solid a" "solid b" for a u b
    by (rule solid_append [OF that(2,3)]) (use that(1) in \<open>auto simp: code_def\<close>)
  have gmt: "solid (a @ '' GMT'')" if "solid a" for a
    using that by (auto simp: solid_def le_sp_def code_def)
  show ?thesis unfolding http_date_def by (intro sep gmt w pad solid_dec) auto
qed

lemma field_okI:
  assumes "list_all (\<lambda>c. 33 \<le> code c \<and> c \<noteq> CHR '':'') (fst h)" "fst h \<noteq> []" "value_plain (snd h)" "resp_value_ok (header_id (fst h)) (snd h)"
  shows "field_ok h"
proof -
  have a: "\<forall>c \<in> set (fst h). 33 \<le> code c" "CHR '':'' \<notin> set (fst h)" using assms(1) by (auto simp: list_all_iff)
  have low: "code NUL < 33" "code LF < 33" by (simp_all add: code_def)
  have "NUL \<notin> set (fst h)" "LF \<notin> set (fst h)" using a(1) low by (metis not_less)+
  moreover have "\<not> le_sp (hd (fst h))" using bspec [OF a(1) hd_in_set [OF assms(2)]] by (simp add: le_sp_def)
  ultimately show ?thesis using assms(2-4) a(2) unfolding field_ok_def value_plain_def by blast
qed

lemma names_printable:
  "list_all (\<lambda>n. n \<noteq> [] \<and> list_all (\<lambda>c. 33 \<le> code c \<and> c \<noteq> CHR '':'') n)
    [''Server'', ''Date'', ''Connection'', ''Content-Type'', ''Content-Encoding'', ''Last-Modified'', ''ETag'', ''Expires'',
     ''Cache-Control'', ''Content-Length'', ''Transfer-Encoding'']"
  by code_simp

lemma solid_words: "solid ''keep-alive''" "solid ''close''" "solid ''gzip''" "solid ''chunked''" "solid ''private''" "solid ''no-cache''" "solid ''max-age=''"
  by (simp_all add: solid_def le_sp_def code_def)

lemma date_field_ok:
  assumes "0 \<le> t" "t < MAX_TIME" "n \<in> {''Date'', ''Last-Modified'', ''Expires''}"
  shows "field_ok (n, http_date (gmtime t))"
proof -
  have tm: "tm_ok (gmtime t)" by (rule gmtime_facts(2) [OF assms(1,2)])
  show ?thesis
    by (rule field_okI) (use names_printable assms(3) solid_plain [OF solid_http_date [OF tm]] tm in \<open>auto simp: resp_value_ok_def\<close>)
qed

lemma sent_fields_ok:
  assumes ok: "wire_ok ver resp" and t: "0 \<le> t" "t < MAX_TIME"
  shows "\<forall>h \<in> set (head_fields ver (http_date (gmtime t)) resp @ entity_fields resp). field_ok h"
proof -
  note ok' = ok [unfolded wire_ok_def response_ok_def]
  have plain: "field_ok (n, v)" if "value_plain v"
    "n \<in> {''Server'', ''Connection'', ''Content-Type'', ''Content-Encoding'', ''ETag'', ''Cache-Control'', ''Content-Length'', ''Transfer-Encoding''}" for n v
    by (rule field_okI) (use names_printable that in \<open>auto simp: resp_value_ok_def header_ids\<close>)
  have age: "solid (''max-age='' @ age_text (rs_max_age resp))"
    using solid_append [OF solid_words(7) solid_dec, of "[]"] by (simp add: age_text_def) (simp add: solid_def le_sp_def code_def)
  have "\<forall>d \<in> set (cache_directives resp). solid d"
    using age solid_words by (auto simp: cache_directives_def)
  have cc: "\<forall>h \<in> set (cache_field resp). field_ok h"
  proof -
    have "rs_cache_control resp = None" using ok' by blast
    with \<open>\<forall>d \<in> set (cache_directives resp). solid d\<close> show ?thesis
      by (auto simp: cache_field_def intro!: plain solid_plain solid_commas)
  qed
  have len: "\<forall>h \<in> set (length_field resp). field_ok h"
    by (auto simp: length_field_def intro!: plain solid_plain solid_dec solid_words)
  have vp: "\<forall>h \<in> set (type_fields resp @ opt_field ''ETag'' (rs_etag resp)). value_plain (snd h)" using ok' by blast
  have names: "\<forall>h \<in> set (type_fields resp @ opt_field ''ETag'' (rs_etag resp)). fst h \<in> {''Content-Type'', ''Content-Encoding'', ''ETag''}"
    by (auto simp: type_fields_def opt_field_def split: option.splits)
  have te: "\<forall>h \<in> set (type_fields resp @ opt_field ''ETag'' (rs_etag resp)). field_ok h"
  proof
    fix h
    assume h: "h \<in> set (type_fields resp @ opt_field ''ETag'' (rs_etag resp))"
    have "field_ok (fst h, snd h)" by (rule plain) (use bspec [OF vp h] bspec [OF names h] in auto)
    then show "field_ok h" by simp
  qed
  have ranges: "0 \<le> rs_last_modified resp" "rs_last_modified resp < MAX_TIME" "0 \<le> rs_expires resp" "rs_expires resp < MAX_TIME"
    "\<forall>h \<in> set (rs_headers resp). field_ok h" "value_plain (''nxweb/'' @ ver)" "rs_cache_control resp = None" using ok' by auto
  have lm: "\<forall>h \<in> set (date_field ''Last-Modified'' (rs_last_modified resp) @ date_field ''Expires'' (rs_expires resp)). field_ok h"
    using ranges(1-4) by (auto simp: date_field_def intro!: date_field_ok)
  have "\<forall>h \<in> set (head_fields ver (http_date (gmtime t)) resp). field_ok h"
  proof -
    have "field_ok (''Server'', ''nxweb/'' @ ver)" by (rule plain [OF ranges(6)]) simp
    moreover have "field_ok (''Date'', http_date (gmtime t))" by (rule date_field_ok [OF t]) simp
    moreover have "field_ok (''Connection'', if rs_keep_alive resp then ''keep-alive'' else ''close'')"
      by (rule plain) (simp_all add: solid_plain solid_words)
    ultimately show ?thesis using ranges(5) by (auto simp: head_fields_def)
  qed
  with cc len te lm show ?thesis by (auto simp: entity_fields_def)
qed

section \<open>Finding the end of the head\<close>

lemma c_memchr_found:
  "x \<notin> set s \<Longrightarrow> length s < n \<Longrightarrow> c_memchr (A @ s @ x # R) (length A) x n = Some (Some (length A + length s))"
proof (induction s arbitrary: A n)
  case Nil
  then show ?case by (cases n) (simp_all add: rd_split)
next
  case (Cons c s)
  then obtain k where n: "n = Suc k" by (cases n) auto
  have "c \<noteq> x" using Cons.prems(1) by auto
  with n Cons.IH [of k "A @ [c]"] Cons.prems show ?case by (simp add: rd_split)
qed

text \<open>A line that is not empty is passed over, an empty one is the end.\<close>

lemma find_end_line:
  assumes "LF \<notin> set s" "s \<noteq> []" "A \<noteq> []" "length (A @ s) + 2 \<le> buf + len"
  shows "find_end_loop (A @ s @ CR # LF # R) buf len (length A) = find_end_loop (A @ s @ CR # LF # R) buf len (length (A @ s @ CRLF))"
proof -
  let ?m = "A @ s @ CR # LF # R" let ?p = "length A + length s + 1"
  have mc: "c_memchr ?m (length A) LF (buf + len - length A) = Some (Some ?p)"
    using c_memchr_found [of LF "s @ [CR]" "buf + len - length A" A R] assms(1,4) by simp
  have c1: "rd ?m (?p - 1) = Some CR" using rd_split [of "A @ s" CR "LF # R"] by simp
  obtain u z where u: "s = u @ [z]" using assms(2) by (cases s rule: rev_cases) auto
  have c2: "rd ?m (?p - 2) = Some (last s)"
    using rd_split [of "A @ u" z "CR # LF # R"] by (simp add: u)
  have "?p - 3 < length ?m" by simp
  then obtain c3 where c3: "rd ?m (?p - 3) = Some c3" by (simp add: rd_def)
  have "last s \<noteq> LF" using assms(1,2) last_in_set by metis
  with mc c1 c2 c3 show ?thesis by (subst find_end_loop.simps) simp
qed

lemma find_end_empty:
  assumes "length A + 4 \<le> buf + len"
  shows "find_end_loop (A @ CR # LF # CR # LF # R) buf len (length A + 2) = Some (Some (length A, length A + 4))"
proof -
  let ?m = "A @ CR # LF # CR # LF # R"
  have "c_memchr ?m (length A + 2) LF (buf + len - (length A + 2)) = Some (Some (length A + 3))"
    using c_memchr_found [of LF "[CR]" "buf + len - (length A + 2)" "A @ CRLF" R] assms by (simp add: eval_nat_numeral)
  moreover have "rd ?m (length A + 2) = Some CR" "rd ?m (length A + 1) = Some LF" "rd ?m (length A) = Some CR"
    using rd_split [of "A @ CRLF" CR "LF # R"] rd_split [of "A @ [CR]" LF "CR # LF # R"] rd_split [of A CR "LF # CR # LF # R"]
    by (simp_all add: eval_nat_numeral)
  ultimately show ?thesis by (subst find_end_loop.simps) (simp add: eval_nat_numeral)
qed

lemma find_end_headers:
  assumes "\<forall>h \<in> set hs. field_ok h" "A = B @ CRLF" "length (A @ header_lines hs) + 2 \<le> buf + len"
  shows "find_end_loop (A @ header_lines hs @ CRLF @ R) buf len (length A)
    = Some (Some (length (A @ header_lines hs) - 2, length (A @ header_lines hs) + 2))"
  using assms
proof (induction hs arbitrary: A B)
  case Nil
  then show ?case using find_end_empty [of B buf len R] by simp
next
  case (Cons h hs)
  let ?s = "field_line h"
  have h: "field_ok h" using Cons.prems(1) by simp
  have s: "LF \<notin> set ?s" "?s \<noteq> []" using h by (auto simp: field_ok_def field_line_def)
  have eq: "A @ header_lines (h # hs) @ CRLF @ R = A @ ?s @ CR # LF # header_lines hs @ CRLF @ R"
    by (simp add: header_line_def field_line_def)
  have len: "length (header_line h) = length ?s + 2" by (simp add: header_line_def field_line_def)
  have "find_end_loop (A @ ?s @ CR # LF # header_lines hs @ CRLF @ R) buf len (length A)
      = find_end_loop ((A @ ?s @ CRLF) @ header_lines hs @ CRLF @ R) buf len (length (A @ ?s @ CRLF))"
    using find_end_line [OF s, of A buf len "header_lines hs @ CRLF @ R"] Cons.prems len by simp
  also have "\<dots> = Some (Some (length ((A @ ?s @ CRLF) @ header_lines hs) - 2, length ((A @ ?s @ CRLF) @ header_lines hs) + 2))"
    using Cons.IH [of "A @ ?s @ CRLF" "A @ ?s"] Cons.prems len by simp
  finally show ?case unfolding eq using len by simp
qed

section \<open>The round trip\<close>

lemma long_list:
  assumes "8 \<le> length xs"
  obtains a b c s where "xs = a # b # c # s" "s \<noteq> []"
  using assms by (cases xs; cases "tl xs"; cases "tl (tl xs)"; cases "tl (tl (tl xs))") auto

lemma http_words: "same_nocase (''HTTP/1.'' @ [CHR ''0'']) ''HTTP/1.0''" "\<not> same_nocase (''HTTP/1.'' @ [CHR ''1'']) ''HTTP/1.0''"
  by (simp_all add: same_nocase_def, code_simp)

lemma response_head_lines:
  assumes "rs_extra_raw_headers resp = None"
  shows "response_head ver date resp = status_line (''HTTP/1.'' @ [if rs_http11 resp then CHR ''1'' else CHR ''0'']) (dec (to_ulong (sent_code resp)))
      (sent_status resp) [CR] @ LF # header_lines (head_fields ver date resp @ entity_fields resp) @ CRLF"
  using assms by (simp add: response_head_def status_text_def status_line_def sent_code_def sent_status_def)

lemma sent_status_line_ok:
  assumes "wire_ok ver resp"
  shows "status_line_ok (''HTTP/1.'' @ [if rs_http11 resp then CHR ''1'' else CHR ''0'']) (dec (to_ulong (sent_code resp))) (sent_status resp) [CR]"
proof -
  have "token (dec n)" for n using digit_not_blank [of _ n] by (auto simp: token_def)
  moreover have "token (''HTTP/1.'' @ [if rs_http11 resp then CHR ''1'' else CHR ''0''])" by (auto simp: token_def le_sp_def code_def)
  moreover have "case rs_status resp of None \<Rightarrow> True | Some s \<Rightarrow> s \<noteq> [] \<and> \<not> le_sp (hd s) \<and> (\<forall>c \<in> set s. 32 \<le> code c)"
    using assms unfolding wire_ok_def by blast
  then have "sent_status resp \<noteq> []" "\<not> le_sp (hd (sent_status resp))" "\<forall>c \<in> set (sent_status resp). 32 \<le> code c"
    by (cases "rs_status resp"; simp add: sent_status_def le_sp_def code_def)+
  ultimately show ?thesis by (simp add: status_line_ok_def code_def)
qed

lemma sent_number_back:
  assumes "wire_ok ver resp"
  shows "to_int32 (the (c_atol (dec (to_ulong (sent_code resp)) @ [NUL]))) = sent_code resp"
proof -
  have c: "0 \<le> sent_code resp" "sent_code resp < 1000" using assms by (auto simp: wire_ok_def sent_code_def)
  then have "to_ulong (sent_code resp) = nat (sent_code resp)" "nat (sent_code resp) < 2 ^ 63" by (simp_all add: to_ulong_def)
  with c_atol_dec [of "nat (sent_code resp)" "[]"] c show ?thesis by (simp add: to_int32_id)
qed

lemma head_read_back:
  assumes ok: "wire_ok ver resp" and t: "0 \<le> t" "t < MAX_TIME"
  shows "let head = response_head ver (http_date (gmtime t)) resp; e = length X + length head - 4 in
    nxweb_find_end_of_http_headers (X @ head @ Y) (length X) (length head + length Y) = Some (Some (e, length X + length head))
    \<and> (\<exists>m r. nxweb_parse_http_response (X @ head @ Y) response_zero (length X) e = Some (0, m, r) \<and> response_at m r (received ver t resp))"
proof -
  let ?v = "''HTTP/1.'' @ [if rs_http11 resp then CHR ''1'' else CHR ''0'']" let ?n = "dec (to_ulong (sent_code resp))"
  define F where "F = head_fields ver (http_date (gmtime t)) resp @ entity_fields resp"
  define S where "S = status_line ?v ?n (sent_status resp)"
  define head where "head = response_head ver (http_date (gmtime t)) resp"
  have raw: "rs_extra_raw_headers resp = None" using ok unfolding wire_ok_def by blast
  have head: "head = S [CR] @ LF # header_lines F @ CRLF"
    unfolding head_def S_def F_def by (rule response_head_lines [OF raw])
  have F: "F \<noteq> []" "\<forall>h \<in> set F. field_ok h" unfolding F_def using sent_fields_ok [OF ok t] by (simp_all add: head_fields_def)
  note line = sent_status_line_ok [OF ok]
  have Sl: "S [CR] = S [] @ [CR]" "LF \<notin> set (S [])" "8 \<le> length (S [])"
    using line by (auto simp: S_def status_line_def status_line_ok_def code_def dest: tokenD)
  have http: "same_nocase ?v ''HTTP/1.0'' = (\<not> rs_http11 resp)" using http_words by (cases "rs_http11 resp") simp_all
  have tail: "header_lines F @ CRLF @ Y = lines_text (wire_lines F) @ CR # LF # CRLF @ Y"
    by (rule header_lines_wire [OF F(1)])
  have len: "length (header_lines F) = length (lines_text (wire_lines F)) + 2"
    using arg_cong [OF header_lines_wire [OF F(1), of "[]"], of length] by simp
  have e: "length X + length head - 4 = length X + length (S [CR]) + 1 + length (lines_text (wire_lines F))"
    unfolding head using len by simp
  have mem: "X @ head @ Y = X @ S [CR] @ LF # lines_text (wire_lines F) @ CR # (LF # CRLF @ Y)"
    unfolding head using tail by simp
  have "\<exists>m r. nxweb_parse_http_response (X @ head @ Y) response_zero (length X) (length X + length head - 4) = Some (0, m, r)
      \<and> response_at m r (received ver t resp)"
    using parse_response_run [OF line wire_lines_nonempty [OF F(1)] wire_lines_ok [OF F(2)] spec_wire_lines [OF F(2)], of X CR "LF # CRLF @ Y"]
    unfolding mem e S_def F_def received_spec [OF ok t sent_number_back [OF ok] http] .
  moreover have "nxweb_find_end_of_http_headers (X @ head @ Y) (length X) (length head + length Y)
      = Some (Some (length X + length head - 4, length X + length head))"
  proof -
    obtain a b c s where s: "S [] = a # b # c # s" "s \<noteq> []" by (rule long_list [OF Sl(3)])
    let ?A = "X @ [a, b, c]" let ?B = "X @ S [] @ CRLF"
    have m: "X @ head @ Y = ?A @ s @ CR # LF # header_lines F @ CRLF @ Y" unfolding head Sl(1) s(1) by simp
    have m2: "?A @ s @ CR # LF # header_lines F @ CRLF @ Y = ?B @ header_lines F @ CRLF @ Y" by (simp add: s(1))
    have nl: "LF \<notin> set s" using Sl(2) s(1) by simp
    have hl: "length head = length s + length (header_lines F) + 7" unfolding head Sl(1) s(1) by simp
    have "find_end_loop (X @ head @ Y) (length X) (length head + length Y) (length ?A)
        = find_end_loop (?B @ header_lines F @ CRLF @ Y) (length X) (length head + length Y) (length ?B)"
      unfolding m using find_end_line [OF nl s(2), of ?A "length X" "length head + length Y" "header_lines F @ CRLF @ Y"] hl m2 s(1) by simp
    also have "\<dots> = Some (Some (length (?B @ header_lines F) - 2, length (?B @ header_lines F) + 2))"
      by (rule find_end_headers [OF F(2), of _ "X @ S []"]) (use hl s(1) in auto)
    finally show ?thesis using hl s(1) by (simp add: nxweb_find_end_of_http_headers_def eval_nat_numeral)
  qed
  ultimately show ?thesis by (simp add: Let_def head_def)
qed

lemma head_no_NUL:
  assumes ok: "wire_ok ver resp" and t: "0 \<le> t" "t < MAX_TIME"
  shows "NUL \<notin> set (response_head ver (http_date (gmtime t)) resp)"
proof -
  let ?F = "head_fields ver (http_date (gmtime t)) resp @ entity_fields resp"
  have raw: "rs_extra_raw_headers resp = None" using ok unfolding wire_ok_def by blast
  have F: "NUL \<notin> set (header_lines hs)" if "\<forall>h \<in> set hs. field_ok h" for hs
    using that by (induction hs) (auto simp: header_line_def field_ok_def)
  have "NUL \<notin> set (status_line (''HTTP/1.'' @ [if rs_http11 resp then CHR ''1'' else CHR ''0'']) (dec (to_ulong (sent_code resp))) (sent_status resp) [CR])"
    using sent_status_line_ok [OF ok] by (auto simp: status_line_def status_line_ok_def code_def dest: tokenD)
  with F [OF sent_fields_ok [OF ok t]] show ?thesis unfolding response_head_lines [OF raw] by simp
qed

text \<open>
  C2: A response that the server writes is understood by a client of the same program.  The routine that
  prepares the headers leaves a C string at \<^verbatim>\<open>raw_headers\<close>; when its bytes reach a client, whatever stands
  before them in the buffer and follows them, the client finds the end of the headers where the string ends,
  and its parser reads back the status, the version, the framing, the entity headers, the validators, the
  cache directives and the added headers of the response, and the time of sending as the date.
\<close>

theorem response_roundtrip:
  assumes "wire_ok ver resp" "length ver \<le> 80" "clock_ok lp" "0 \<le> now" "now < MAX_TIME" "nxb_ok nb" "nb_limit nb = None"
  shows "\<exists>a lp' nb' head. nxweb_prepare_response_headers ver now lp resp nb = Some (resp\<lparr>rs_raw_headers := Some a\<rparr>, lp', nb')
    \<and> mem_read (nb_mem nb') a (length head + 1) = head @ [NUL] \<and> NUL \<notin> set head
    \<and> (\<forall>X Y. nxweb_find_end_of_http_headers (X @ head @ Y) (length X) (length head + length Y)
            = Some (Some (length X + length head - 4, length X + length head))
         \<and> (\<exists>m r. nxweb_parse_http_response (X @ head @ Y) response_zero (length X) (length X + length head - 4) = Some (0, m, r)
              \<and> response_at m r (received ver (lp_http_time lp') resp)))"
proof -
  have "response_ok resp" using assms(1) unfolding wire_ok_def by blast
  from prepare_response_headers_run [OF this assms(2-7)] obtain a n lp' nb' where
    run: "nxweb_prepare_response_headers ver now lp resp nb = Some (resp\<lparr>rs_raw_headers := Some a\<rparr>, lp', nb')"
    and fin: "finished nb (response_head ver (http_date (gmtime (lp_http_time lp'))) resp @ [NUL]) a n nb'" and lp': "clock_ok lp'" by blast
  have t: "0 \<le> lp_http_time lp'" "lp_http_time lp' < MAX_TIME" using lp' by (auto simp: clock_ok_def)
  define head where "head = response_head ver (http_date (gmtime (lp_http_time lp'))) resp"
  have "mem_read (nb_mem nb') a (length head + 1) = head @ [NUL]" using fin by (auto simp: finished_def head_def)
  with run head_no_NUL [OF assms(1) t] head_read_back [OF assms(1) t] show ?thesis
    unfolding Let_def head_def [symmetric] by blast
qed

lemma sample_wire_ids: "header_id ''X-A'' = NXWEB_HTTP_UNKNOWN" "header_id ''Server'' = NXWEB_HTTP_SERVER"
  by code_simp+

lemma sample_wire_values:
  "value_plain ''nxweb/3.2''" "value_plain ''text/html; charset=utf-8''" "value_plain ''gzip''" "value_plain ''1''" "value_plain ''other''"
  by code_simp+

lemma sample_wire_parts:
  "field_ok (''X-A'', ''1'')" "field_ok (''Server'', ''other'')"
  using sample_wire_values by (auto intro!: field_okI simp: sample_wire_ids resp_value_ok_def code_def)

lemma sample_wire_ok: "wire_ok ''3.2'' sample_response"
proof -
  have "response_ok sample_response"
    by (simp add: response_ok_def sample_response_def response_zero_def MAX_TIME_def days_before_year_def)
  moreover have "type_fields sample_response = [(''Content-Type'', ''text/html; charset=utf-8''), (''Content-Encoding'', ''gzip'')]"
    by code_simp
  ultimately show ?thesis unfolding wire_ok_def
    using sample_wire_parts sample_wire_ids sample_wire_values by (simp add: own_header_def opt_field_def sample_response_def response_zero_def)
qed

theorem response_roundtrip_witness:
  "\<exists>a lp' nb' head. nxweb_prepare_response_headers ''3.2'' 1327410354 sample_clock sample_response fresh_nxb
        = Some (sample_response\<lparr>rs_raw_headers := Some a\<rparr>, lp', nb')
    \<and> mem_read (nb_mem nb') a (length head + 1) = head @ [NUL] \<and> NUL \<notin> set head
    \<and> (\<forall>X Y. nxweb_find_end_of_http_headers (X @ head @ Y) (length X) (length head + length Y)
            = Some (Some (length X + length head - 4, length X + length head))
         \<and> (\<exists>m r. nxweb_parse_http_response (X @ head @ Y) response_zero (length X) (length X + length head - 4) = Some (0, m, r)
              \<and> response_at m r (received ''3.2'' (lp_http_time lp') sample_response)))"
proof (rule response_roundtrip [OF sample_wire_ok _ sample_clock_ok])
  show "1327410354 < MAX_TIME" by (simp add: MAX_TIME_def days_before_year_def)
  show "nxb_ok fresh_nxb" "nb_limit fresh_nxb = None" using fresh_nxb_ok(1) fresh_nxb_eval(4) by simp_all
qed simp_all

end
