(* ===== verification/Nx_Links.thy ===== *)
theory Nx_Links
  imports Nx_Prelude
begin

text \<open>
  The doubly linked lists that the program threads through its own objects: free objects of a pool,
  events of a loop, timers of a timer queue.  The link fields are functions from object references to
  references (a field is an array indexed by objects), a null pointer is \<open>None\<close>.  Every list operation of
  the sources is one of the operations below.
\<close>

section \<open>Operations\<close>

record 'p links =
  l_next :: "'p \<Rightarrow> 'p option"
  l_prev :: "'p \<Rightarrow> 'p option"
  l_first :: "'p option"
  l_last :: "'p option"

definition set_next :: "'p \<Rightarrow> 'p option \<Rightarrow> 'p links \<Rightarrow> 'p links" where
  "set_next p v L = L\<lparr>l_next := (l_next L)(p := v)\<rparr>"

definition set_prev :: "'p \<Rightarrow> 'p option \<Rightarrow> 'p links \<Rightarrow> 'p links" where
  "set_prev p v L = L\<lparr>l_prev := (l_prev L)(p := v)\<rparr>"

text \<open>Append \<open>p\<close>.\<close>

definition link_last :: "'p \<Rightarrow> 'p links \<Rightarrow> 'p links" where
  "link_last p L =
     (let L = set_prev p (l_last L) (set_next p None L);
          L = (case l_last L of Some q \<Rightarrow> set_next q (Some p) L | None \<Rightarrow> L\<lparr>l_first := Some p\<rparr>)
      in L\<lparr>l_last := Some p\<rparr>)"

text \<open>Put \<open>p\<close> in front.\<close>

definition link_first :: "'p \<Rightarrow> 'p links \<Rightarrow> 'p links" where
  "link_first p L =
     (case l_first L of
        Some q \<Rightarrow> set_prev p None ((set_next p (l_first L) (set_prev q (Some p) L))\<lparr>l_first := Some p\<rparr>)
      | None \<Rightarrow> set_prev p None (set_next p None (L\<lparr>l_first := Some p, l_last := Some p\<rparr>)))"

text \<open>Take \<open>p\<close> out, leaving its own links as they are.\<close>

definition cut_out :: "'p \<Rightarrow> 'p links \<Rightarrow> 'p links" where
  "cut_out p L =
     (let L = (case l_prev L p of Some q \<Rightarrow> set_next q (l_next L p) L | None \<Rightarrow> L\<lparr>l_first := l_next L p\<rparr>)
      in case l_next L p of Some q \<Rightarrow> set_prev q (l_prev L p) L | None \<Rightarrow> L\<lparr>l_last := l_prev L p\<rparr>)"

definition unlink :: "'p \<Rightarrow> 'p links \<Rightarrow> 'p links" where
  "unlink p L = set_prev p None (set_next p None (cut_out p L))"

section \<open>The list that the links hold\<close>

definition head_or :: "'p list \<Rightarrow> 'p option \<Rightarrow> 'p option" where
  "head_or ps e = (case ps of [] \<Rightarrow> e | q # _ \<Rightarrow> Some q)"

fun chain :: "('p \<Rightarrow> 'p option) \<Rightarrow> 'p list \<Rightarrow> 'p option \<Rightarrow> bool" where
  "chain f [] e = True"
| "chain f (p # ps) e = (f p = head_or ps e \<and> chain f ps e)"

definition dlist :: "'p links \<Rightarrow> 'p list \<Rightarrow> bool" where
  "dlist L xs \<longleftrightarrow> distinct xs \<and> l_first L = head_or xs None \<and> l_last L = head_or (rev xs) None
     \<and> chain (l_next L) xs None \<and> chain (l_prev L) (rev xs) None"

lemma head_or_simps [simp]:
  "head_or [] e = e" "head_or (p # ps) e = Some p" "head_or (xs @ ys) e = head_or xs (head_or ys e)"
  by (simp_all add: head_or_def split: list.split)

lemma head_or_eq_None [simp]: "head_or xs None = None \<longleftrightarrow> xs = []" "None = head_or xs None \<longleftrightarrow> xs = []"
    "head_or xs (Some p) \<noteq> None" "None \<noteq> head_or xs (Some p)"
  by (cases xs; simp)+

lemma chain_append [simp]: "chain f (xs @ ys) e \<longleftrightarrow> chain f xs (head_or ys e) \<and> chain f ys e"
  by (induction xs) auto

lemma chain_upd [simp]: "p \<notin> set ps \<Longrightarrow> chain (f(p := v)) ps e = chain f ps e"
  by (induction ps) auto

lemma chain_cong: "(\<And>p. p \<in> set ps \<Longrightarrow> f p = g p) \<Longrightarrow> chain f ps e = chain g ps e"
  by (induction ps) auto

lemma chain_unique: "chain f xs None \<Longrightarrow> chain f ys None \<Longrightarrow> head_or xs None = head_or ys None \<Longrightarrow> xs = ys"
proof (induction xs arbitrary: ys)
  case Nil
  then show ?case by (cases ys) simp_all
next
  case (Cons x xs)
  then show ?case by (cases ys) auto
qed

lemma dlist_unique: "dlist L xs \<Longrightarrow> dlist L ys \<Longrightarrow> xs = ys"
  by (auto simp: dlist_def intro: chain_unique)

lemma dlist_cong:
  assumes "\<And>p. p \<in> set xs \<Longrightarrow> l_next L p = l_next L' p \<and> l_prev L p = l_prev L' p"
    "l_first L = l_first L'" "l_last L = l_last L'"
  shows "dlist L xs = dlist L' xs"
  using assms chain_cong [of xs "l_next L" "l_next L'" None] chain_cong [of "rev xs" "l_prev L" "l_prev L'" None]
  by (simp add: dlist_def)

lemma dlist_empty: "l_first L = None \<Longrightarrow> l_last L = None \<Longrightarrow> dlist L []"
  by (simp add: dlist_def)

lemma dlist_first: "dlist L xs \<Longrightarrow> l_first L = head_or xs None"
  by (simp add: dlist_def)

lemma dlist_distinct: "dlist L xs \<Longrightarrow> distinct xs"
  by (simp add: dlist_def)

lemmas links_defs = set_next_def set_prev_def link_last_def link_first_def cut_out_def unlink_def Let_def

lemma dlist_last:
  assumes "dlist L xs" "p \<notin> set xs"
  shows "dlist (link_last p L) (xs @ [p])"
  using assms by (cases xs rule: rev_cases) (auto simp: dlist_def links_defs)

lemma dlist_link_first:
  assumes "dlist L xs" "p \<notin> set xs"
  shows "dlist (link_first p L) (p # xs)"
  using assms by (cases xs) (auto simp: dlist_def links_defs)

lemma dlist_cut:
  assumes "dlist L (xs @ p # ys)"
  shows "dlist (cut_out p L) (xs @ ys)"
proof (cases xs rule: rev_cases)
  case Nil
  with assms show ?thesis by (cases ys) (auto simp: dlist_def links_defs)
next
  case (snoc xs' q)
  with assms show ?thesis by (cases ys) (auto simp: dlist_def links_defs)
qed

lemma dlist_unlink:
  assumes "dlist L (xs @ p # ys)"
  shows "dlist (unlink p L) (xs @ ys)"
proof -
  have "p \<notin> set (xs @ ys)" using dlist_distinct [OF assms] by auto
  then have "dlist (unlink p L) (xs @ ys) = dlist (cut_out p L) (xs @ ys)"
    by (intro dlist_cong) (auto simp: unlink_def set_next_def set_prev_def)
  with dlist_cut [OF assms] show ?thesis by simp
qed

lemma dlist_link_all:
  assumes "dlist L xs" "distinct ps" "set ps \<inter> set xs = {}"
  shows "dlist (fold link_last ps L) (xs @ ps)"
  using assms
proof (induction ps arbitrary: L xs)
  case (Cons p ps)
  then show ?case using dlist_last [of L xs p] Cons.IH [of "link_last p L" "xs @ [p]"] by auto
qed simp

text \<open>Taking out a whole set of members, one after the other.\<close>

lemma dlist_cut_all:
  assumes "dlist L xs" "set ps \<subseteq> set xs" "distinct ps"
  shows "dlist (fold cut_out ps L) (filter (\<lambda>x. x \<notin> set ps) xs)"
  using assms
proof (induction ps arbitrary: L xs)
  case Nil
  then show ?case by simp
next
  case (Cons p ps)
  then obtain as bs where xs: "xs = as @ p # bs" by (auto dest: split_list)
  have d: "distinct xs" using dlist_distinct [OF Cons.prems(1)] .
  have "dlist (cut_out p L) (as @ bs)" using dlist_cut Cons.prems(1) xs by auto
  moreover have "set ps \<subseteq> set (as @ bs)" using Cons.prems(2,3) xs by auto
  ultimately have "dlist (fold cut_out ps (cut_out p L)) (filter (\<lambda>x. x \<notin> set ps) (as @ bs))"
    using Cons.IH [of "cut_out p L" "as @ bs"] Cons.prems(3) by simp
  moreover have "filter (\<lambda>x. x \<notin> set ps) (as @ bs) = filter (\<lambda>x. x \<notin> set (p # ps)) xs"
  proof -
    have "filter (\<lambda>x. x \<notin> set ps) ys = filter (\<lambda>x. x \<notin> set (p # ps)) ys" if "p \<notin> set ys" for ys
      by (rule filter_cong) (use that in auto)
    then show ?thesis using d by (simp add: xs)
  qed
  ultimately show ?case by simp
qed

section \<open>What the operations leave alone\<close>

text \<open>A list whose members the operated list does not have keeps its links.\<close>

lemma links_frame:
  assumes "dlist L xs" "q \<notin> set xs" "q \<noteq> p"
  shows "l_next (link_last p L) q = l_next L q" "l_prev (link_last p L) q = l_prev L q"
proof -
  have "l_last L \<noteq> Some q" using assms by (cases xs rule: rev_cases) (auto simp: dlist_def)
  then show "l_next (link_last p L) q = l_next L q" "l_prev (link_last p L) q = l_prev L q"
    using assms(3) by (auto simp: links_defs split: option.split)
qed

lemma links_frame_unlink:
  assumes "dlist L (xs @ p # ys)" "q \<notin> set (xs @ p # ys)"
  shows "l_next (unlink p L) q = l_next L q" "l_prev (unlink p L) q = l_prev L q"
proof -
  have "l_prev L p \<noteq> Some q" using assms by (cases xs rule: rev_cases) (auto simp: dlist_def)
  moreover have "l_next L p \<noteq> Some q" using assms by (cases ys) (auto simp: dlist_def)
  ultimately show "l_next (unlink p L) q = l_next L q" "l_prev (unlink p L) q = l_prev L q"
    using assms(2) by (auto simp: links_defs split: option.split)
qed

lemma unlink_clears: "l_next (unlink p L) p = None" "l_prev (unlink p L) p = None"
  by (simp_all add: unlink_def set_next_def set_prev_def)

end
