(* ===== verification/Nx_Pool.thy ===== *)
theory Nx_Pool
  imports Nx_Links
begin

text \<open>
  The object pool (\<^verbatim>\<open>include/nxweb/nx_pool.h\<close>, \<^verbatim>\<open>lib/nx_pool.c\<close>).  An object is the pair of the chunk it lies
  in and its index there; stepping a pointer by \<^verbatim>\<open>object_size\<close> is stepping the index.  The pool's
  chunks form a stack, the newest first (\<^verbatim>\<open>chunk\<close>, \<^verbatim>\<open>prev\<close>).  What \<^verbatim>\<open>nx_alloc\<close> returns for a new chunk is an
  argument of the operations: an address, or \<open>None\<close> when it fails.  The result \<open>None\<close> of an operation is a
  failed assertion or a null pointer dereferenced.
\<close>

section \<open>The pool\<close>

type_synonym nxp_object = "nat \<times> nat"

record nxp_chunk =
  pc_addr :: nat
  pc_nitems :: nat
  pc_id :: nat

record nxp_pool =
  po_chunks :: "nxp_chunk list"
  po_initial_chunk :: nat
  po_free :: "nxp_object links"
  po_in_use :: "nxp_object \<Rightarrow> bool"
  po_chunk_id :: "nxp_object \<Rightarrow> nat"
  po_object_size :: nat

definition SIZEOF_NXP_OBJECT :: nat where "SIZEOF_NXP_OBJECT = 24"

definition SIZEOF_NXP_CHUNK :: nat where "SIZEOF_NXP_CHUNK = 16"

text \<open>
  The loop of \<^verbatim>\<open>nxp_init_chunk\<close> over the \<open>n\<close> objects that remain; \<open>pool_link\<close> are the assignments for one of
  them.
\<close>

definition pool_link :: "nat \<Rightarrow> nxp_object \<Rightarrow> nxp_object option \<Rightarrow> nxp_pool \<Rightarrow> nxp_pool" where
  "pool_link cid obj prev P =
     (let P = P\<lparr>po_in_use := (po_in_use P)(obj := False), po_chunk_id := (po_chunk_id P)(obj := cid),
               po_free := set_prev obj prev (po_free P)\<rparr>
      in case prev of Some q \<Rightarrow> P\<lparr>po_free := set_next q (Some obj) (po_free P)\<rparr> | None \<Rightarrow> P)"

fun init_chunk_loop :: "nat \<Rightarrow> nat \<Rightarrow> nat \<Rightarrow> nat \<Rightarrow> nxp_object option \<Rightarrow> nxp_pool \<Rightarrow> nxp_object option \<times> nxp_pool" where
  "init_chunk_loop cid a i 0 prev P = (prev, P)"
| "init_chunk_loop cid a i (Suc n) prev P = init_chunk_loop cid a (Suc i) n (Some (a, i)) (pool_link cid (a, i) prev P)"

definition nxp_init_chunk :: "nxp_pool \<Rightarrow> nxp_pool option" where
  "nxp_init_chunk P =
     (case po_chunks P of [] \<Rightarrow> None | c # _ \<Rightarrow>
        (case init_chunk_loop (pc_id c) (pc_addr c) 0 (pc_nitems c) (l_last (po_free P)) P of
           (prev, P) \<Rightarrow>
             (let P = P\<lparr>po_free := (po_free P)\<lparr>l_last := prev\<rparr>\<rparr> in
              case prev of None \<Rightarrow> None | Some q \<Rightarrow>
                (let P = P\<lparr>po_free := set_next q None (po_free P)\<rparr>
                 in Some (if l_first (po_free P) = None then P\<lparr>po_free := (po_free P)\<lparr>l_first := Some (pc_addr c, 0)\<rparr>\<rparr> else P)))))"

definition no_links :: "'p links" where
  "no_links = \<lparr>l_next = \<lambda>_. None, l_prev = \<lambda>_. None, l_first = None, l_last = None\<rparr>"

definition nxp_init :: "nat \<Rightarrow> nat \<Rightarrow> nat \<Rightarrow> nxp_pool option" where
  "nxp_init object_size initial_chunk chunk_allocated_size =
     (let object_size = object_size + SIZEOF_NXP_OBJECT
      in nxp_init_chunk
           \<lparr>po_chunks = [\<lparr>pc_addr = initial_chunk, pc_nitems = (chunk_allocated_size - SIZEOF_NXP_CHUNK) div object_size, pc_id = 1\<rparr>],
            po_initial_chunk = initial_chunk, po_free = no_links, po_in_use = \<lambda>_. False, po_chunk_id = \<lambda>_. 0,
            po_object_size = object_size\<rparr>)"

definition nxp_create :: "nat option \<Rightarrow> nat \<Rightarrow> nat \<Rightarrow> nxp_pool option" where
  "nxp_create al object_size initial_chunk_size =
     (let object_size = (object_size + 7) div 8 * 8;
          alloc_size = (SIZEOF_NXP_OBJECT + object_size) * initial_chunk_size
      in case al of None \<Rightarrow> None | Some a \<Rightarrow> nxp_init object_size a (SIZEOF_NXP_CHUNK + alloc_size))"

text \<open>The chunks freed, in order; the initial chunk belongs to the owner of the pool.\<close>

fun finalize_loop :: "nat \<Rightarrow> nxp_chunk list \<Rightarrow> nat list option" where
  "finalize_loop init [] = None"
| "finalize_loop init (c # cs) = (if pc_addr c = init then Some [] else map_option ((#) (pc_addr c)) (finalize_loop init cs))"

definition nxp_finalize :: "nxp_pool \<Rightarrow> nat list option" where
  "nxp_finalize P = finalize_loop (po_initial_chunk P) (po_chunks P)"

text \<open>\<^verbatim>\<open>nxp_destroy\<close> then frees the block of the pool, which for \<^verbatim>\<open>nxp_create\<close> holds the initial chunk.\<close>

definition nxp_destroy :: "nxp_pool \<Rightarrow> nat list option" where
  "nxp_destroy P = map_option (\<lambda>fs. fs @ [po_initial_chunk P]) (nxp_finalize P)"

definition new_chunk :: "nat \<Rightarrow> nxp_pool \<Rightarrow> nxp_pool option" where
  "new_chunk a P =
     (case po_chunks P of [] \<Rightarrow> None | c # cs \<Rightarrow>
        (let nitems = pc_nitems c * 2; nitems = (if nitems > 1024 then 1024 else nitems)
         in nxp_init_chunk (P\<lparr>po_chunks := \<lparr>pc_addr = a, pc_nitems = nitems, pc_id = (pc_id c + 1) mod 2 ^ 32\<rparr> # c # cs\<rparr>)))"

definition take_free :: "nxp_object \<Rightarrow> nxp_pool \<Rightarrow> nxp_pool" where
  "take_free obj P =
     (let F = po_free P;
          F = (case l_next F obj of Some q \<Rightarrow> set_prev q None (F\<lparr>l_first := Some q\<rparr>) | None \<Rightarrow> F\<lparr>l_first := None, l_last := None\<rparr>)
      in P\<lparr>po_in_use := (po_in_use P)(obj := True), po_free := set_next obj None (set_prev obj None F)\<rparr>)"

definition nxp_alloc :: "nat option \<Rightarrow> nxp_pool \<Rightarrow> (nxp_object option \<times> nxp_pool) option" where
  "nxp_alloc al P =
     (case l_first (po_free P) of
        Some obj \<Rightarrow> Some (Some obj, take_free obj P)
      | None \<Rightarrow>
          (case al of None \<Rightarrow> Some (None, P) | Some a \<Rightarrow>
             (case new_chunk a P of None \<Rightarrow> None | Some P \<Rightarrow>
                (case l_first (po_free P) of None \<Rightarrow> None | Some obj \<Rightarrow> Some (Some obj, take_free obj P)))))"

definition nxp_free :: "nxp_object \<Rightarrow> nxp_pool \<Rightarrow> nxp_pool option" where
  "nxp_free obj P =
     (if \<not> po_in_use P obj then None
      else let P = P\<lparr>po_in_use := (po_in_use P)(obj := False)\<rparr>
           in case po_chunks P of [] \<Rightarrow> None | c # _ \<Rightarrow>
                if po_chunk_id P obj = pc_id c then Some (P\<lparr>po_free := link_last obj (po_free P)\<rparr>)
                else if \<not> po_chunk_id P obj < pc_id c then None
                else Some (P\<lparr>po_free := link_first obj (po_free P)\<rparr>))"

text \<open>Garbage collection gives the address of the chunk it freed, if any.\<close>

definition nxp_gc :: "nxp_pool \<Rightarrow> (nat option \<times> nxp_pool) option" where
  "nxp_gc P =
     (case po_chunks P of [] \<Rightarrow> None
      | [c] \<Rightarrow> Some (None, P)
      | c # cs \<Rightarrow>
          (let objs = map (\<lambda>i. (pc_addr c, i)) [0..<pc_nitems c] in
           if \<exists>obj \<in> set objs. po_in_use P obj then Some (None, P)
           else Some (Some (pc_addr c), P\<lparr>po_free := fold cut_out objs (po_free P), po_chunks := cs\<rparr>)))"

text \<open>The iterator: the chunks that remain, the current one first, and the index reached in it.\<close>

fun iterate_objects :: "(nxp_object \<Rightarrow> bool) \<Rightarrow> nxp_chunk list \<Rightarrow> nat \<Rightarrow> nat \<Rightarrow> nxp_object option \<times> (nxp_chunk list \<times> nat)" where
  "iterate_objects used [] i n = (None, ([], i))"
| "iterate_objects used (c # cs) i 0 = (case cs of [] \<Rightarrow> (None, ([], 0)) | d # _ \<Rightarrow> iterate_objects used cs 0 (pc_nitems d))"
| "iterate_objects used (c # cs) i (Suc n) =
     (if used (pc_addr c, i) then (Some (pc_addr c, i), (c # cs, Suc i)) else iterate_objects used (c # cs) (Suc i) n)"

definition nxp_iterate_next :: "nxp_pool \<Rightarrow> nxp_chunk list \<times> nat \<Rightarrow> nxp_object option \<times> (nxp_chunk list \<times> nat)" where
  "nxp_iterate_next P it =
     (case it of ([], i) \<Rightarrow> (None, ([], i)) | (c # cs, i) \<Rightarrow> iterate_objects (po_in_use P) (c # cs) i (pc_nitems c - i))"

definition nxp_iterate_allocated_objects :: "nxp_pool \<Rightarrow> nxp_object option \<times> (nxp_chunk list \<times> nat)" where
  "nxp_iterate_allocated_objects P = nxp_iterate_next P (po_chunks P, 0)"

section \<open>The invariant\<close>

definition chunk_objs :: "nxp_chunk \<Rightarrow> nxp_object list" where
  "chunk_objs c = map (\<lambda>i. (pc_addr c, i)) [0..<pc_nitems c]"

definition pool_objs :: "nxp_pool \<Rightarrow> nxp_object set" where
  "pool_objs P = (\<Union>c \<in> set (po_chunks P). set (chunk_objs c))"

definition live :: "nxp_pool \<Rightarrow> nxp_object set" where
  "live P = {obj \<in> pool_objs P. po_in_use P obj}"

definition chunk_addrs :: "nxp_pool \<Rightarrow> nat set" where
  "chunk_addrs P = pc_addr ` set (po_chunks P)"

text \<open>
  Chunk identifiers count the chunks from the initial one, so that an object's chunk is the newest one
  exactly when its identifier is the identifier of the newest.
\<close>

definition chunks_ok :: "nxp_chunk list \<Rightarrow> bool" where
  "chunks_ok cs \<longleftrightarrow> distinct (map pc_addr cs) \<and> (\<forall>c \<in> set cs. 0 < pc_nitems c)
     \<and> map pc_id cs = rev [1..<Suc (length cs)] \<and> length cs < 2 ^ 32"

definition pool_ok :: "nxp_pool \<Rightarrow> bool" where
  "pool_ok P \<longleftrightarrow> po_chunks P \<noteq> [] \<and> chunks_ok (po_chunks P) \<and> pc_addr (last (po_chunks P)) = po_initial_chunk P
     \<and> (\<forall>c \<in> set (po_chunks P). \<forall>obj \<in> set (chunk_objs c). po_chunk_id P obj = pc_id c)
     \<and> (\<exists>fs. dlist (po_free P) fs \<and> set fs = pool_objs P - live P)"

lemma chunk_objs_facts [simp]: "distinct (chunk_objs c)" "(a, i) \<in> set (chunk_objs c) \<longleftrightarrow> a = pc_addr c \<and> i < pc_nitems c"
  by (auto simp: chunk_objs_def distinct_map inj_on_def)

lemma chunk_objs_disjoint: "pc_addr c \<noteq> pc_addr d \<Longrightarrow> set (chunk_objs c) \<inter> set (chunk_objs d) = {}"
  by (auto simp: chunk_objs_def)

section \<open>Adding a chunk\<close>

text \<open>The list as it is once the loop of \<^verbatim>\<open>nxp_init_chunk\<close> is left at object \<open>prev\<close>.\<close>

definition close_list :: "nxp_object \<Rightarrow> nxp_object option \<Rightarrow> nxp_object links \<Rightarrow> nxp_object links" where
  "close_list start prev F =
     (case prev of None \<Rightarrow> F\<lparr>l_last := None\<rparr>
      | Some q \<Rightarrow> (let F = set_next q None (F\<lparr>l_last := prev\<rparr>) in if l_first F = None then F\<lparr>l_first := Some start\<rparr> else F))"

lemma close_step:
  assumes "prev = None \<Longrightarrow> l_first (po_free P) = None \<and> obj = start" "prev \<noteq> Some obj"
  shows "close_list start (Some obj) (po_free (pool_link cid obj prev P)) = link_last obj (close_list start prev (po_free P))"
proof (cases prev)
  case None
  with assms show ?thesis
    by (simp add: close_list_def pool_link_def link_last_def set_next_def set_prev_def Let_def)
next
  case (Some q)
  with assms(2) show ?thesis
    by (auto simp: close_list_def pool_link_def link_last_def set_next_def set_prev_def Let_def fun_upd_twist)
qed

lemma init_chunk_loop_run:
  assumes "prev = None \<Longrightarrow> l_first (po_free P) = None \<and> i = 0" "\<forall>j \<ge> i. prev \<noteq> Some (a, j)"
    "init_chunk_loop cid a i n prev P = (prev', P')"
  shows "close_list (a, 0) prev' (po_free P') = fold link_last (map (Pair a) [i..<i + n]) (close_list (a, 0) prev (po_free P))
    \<and> po_in_use P' = (\<lambda>obj. if obj \<in> Pair a ` {i..<i + n} then False else po_in_use P obj)
    \<and> po_chunk_id P' = (\<lambda>obj. if obj \<in> Pair a ` {i..<i + n} then cid else po_chunk_id P obj)
    \<and> po_chunks P' = po_chunks P \<and> po_initial_chunk P' = po_initial_chunk P \<and> (prev' = None \<longleftrightarrow> prev = None \<and> n = 0)"
  using assms
proof (induction n arbitrary: i prev P)
  case 0
  then show ?case by auto
next
  case (Suc n)
  let ?P = "pool_link cid (a, i) prev P"
  have st: "close_list (a, 0) (Some (a, i)) (po_free ?P) = link_last (a, i) (close_list (a, 0) prev (po_free P))"
    by (rule close_step) (use Suc.prems(1,2) in auto)
  have other: "po_in_use ?P = (po_in_use P)((a, i) := False)" "po_chunk_id ?P = (po_chunk_id P)((a, i) := cid)"
    "po_chunks ?P = po_chunks P" "po_initial_chunk ?P = po_initial_chunk P"
    by (simp_all add: pool_link_def Let_def split: option.split)
  have up: "[i..<i + Suc n] = i # [Suc i..<Suc i + n]" by (simp add: upt_conv_Cons)
  have iv: "Pair a ` {i..<i + Suc n} = insert (a, i) (Pair a ` {Suc i..<Suc i + n})" by auto
  show ?case
    using Suc.IH [of "Some (a, i)" ?P "Suc i"] Suc.prems(3) unfolding up iv by (auto simp: st other fun_eq_iff)
qed

lemma init_chunk_run:
  assumes cs: "po_chunks P = c # cs" "0 < pc_nitems c" and d: "dlist (po_free P) fs" and new: "\<forall>obj \<in> set fs. fst obj \<noteq> pc_addr c"
  obtains P' where "nxp_init_chunk P = Some P'" "dlist (po_free P') (fs @ chunk_objs c)"
    "po_in_use P' = (\<lambda>obj. if obj \<in> set (chunk_objs c) then False else po_in_use P obj)"
    "po_chunk_id P' = (\<lambda>obj. if obj \<in> set (chunk_objs c) then pc_id c else po_chunk_id P obj)"
    "po_chunks P' = po_chunks P" "po_initial_chunk P' = po_initial_chunk P"
proof -
  let ?a = "pc_addr c" let ?prev = "l_last (po_free P)"
  obtain prev P1 where run: "init_chunk_loop (pc_id c) ?a 0 (pc_nitems c) ?prev P = (prev, P1)" by fastforce
  have 1: "l_first (po_free P) = None \<and> (0::nat) = 0" if "?prev = None" using d that by (cases fs rule: rev_cases) (auto simp: dlist_def)
  have 2: "\<forall>j \<ge> 0. ?prev \<noteq> Some (?a, j)" using d new by (cases fs rule: rev_cases) (auto simp: dlist_def)
  have cl: "close_list (?a, 0) ?prev (po_free P) = po_free P"
    using d by (cases fs rule: rev_cases; cases fs) (auto simp: dlist_def close_list_def set_next_def Let_def fun_upd_idem)
  have objs: "map (Pair ?a) [0..<0 + pc_nitems c] = chunk_objs c" "Pair ?a ` {0..<0 + pc_nitems c} = set (chunk_objs c)"
    by (auto simp: chunk_objs_def)
  note r = init_chunk_loop_run [OF 1 2 run, unfolded objs cl]
  then obtain q where q: "prev = Some q" using cs(2) by auto
  define P' where "P' = P1\<lparr>po_free := close_list (?a, 0) prev (po_free P1)\<rparr>"
  have "nxp_init_chunk P = Some P'"
    by (simp add: nxp_init_chunk_def cs(1) run q P'_def close_list_def set_next_def Let_def)
  moreover have "dlist (po_free P') (fs @ chunk_objs c)"
  proof -
    have "set (chunk_objs c) \<inter> set fs = {}" using new by (auto simp: chunk_objs_def)
    with dlist_link_all [OF d, of "chunk_objs c"] r show ?thesis by (simp add: P'_def)
  qed
  ultimately show ?thesis using r that by (simp add: P'_def)
qed

section \<open>What the operations do\<close>

definition fits_pool :: "nat option \<Rightarrow> nxp_pool \<Rightarrow> bool" where
  "fits_pool al P \<longleftrightarrow> (case al of None \<Rightarrow> True | Some a \<Rightarrow> a \<notin> chunk_addrs P \<and> length (po_chunks P) + 1 < 2 ^ 32)"

lemma pool_okE:
  assumes "pool_ok P"
  obtains fs c cs where "dlist (po_free P) fs" "set fs = pool_objs P - live P" "po_chunks P = c # cs" "chunks_ok (c # cs)"
    "pc_addr (last (c # cs)) = po_initial_chunk P" "\<forall>c \<in> set (po_chunks P). \<forall>obj \<in> set (chunk_objs c). po_chunk_id P obj = pc_id c"
proof -
  obtain fs where "dlist (po_free P) fs" "set fs = pool_objs P - live P" using assms unfolding pool_ok_def by blast
  moreover obtain c cs where "po_chunks P = c # cs" using assms by (cases "po_chunks P") (auto simp: pool_ok_def)
  ultimately show ?thesis using assms that by (simp add: pool_ok_def)
qed

lemma pool_objs_addr: "obj \<in> pool_objs P \<Longrightarrow> fst obj \<in> chunk_addrs P"
  by (cases obj) (auto simp: pool_objs_def chunk_addrs_def)

lemma chunks_okD: "chunks_ok (c # cs) \<Longrightarrow> pc_id c = Suc (length cs) \<and> 0 < pc_nitems c \<and> chunks_ok cs \<and> pc_addr c \<notin> pc_addr ` set cs"
  by (auto simp: chunks_ok_def)

lemma chunks_ok_new:
  "chunks_ok cs \<Longrightarrow> pc_addr c \<notin> pc_addr ` set cs \<Longrightarrow> 0 < pc_nitems c \<Longrightarrow> pc_id c = Suc (length cs) \<Longrightarrow> Suc (length cs) < 2 ^ 32 \<Longrightarrow> chunks_ok (c # cs)"
  by (auto simp: chunks_ok_def)

lemma new_chunk_ok:
  assumes ok: "pool_ok P" and fit: "fits_pool (Some a) P"
  obtains P' where "new_chunk a P = Some P'" "pool_ok P'" "live P' = live P" "l_first (po_free P') \<noteq> None"
proof -
  obtain fs c cs where fs: "dlist (po_free P) fs" "set fs = pool_objs P - live P" and cs: "po_chunks P = c # cs" "chunks_ok (c # cs)"
    and init: "pc_addr (last (c # cs)) = po_initial_chunk P" and ids: "\<forall>c \<in> set (po_chunks P). \<forall>obj \<in> set (chunk_objs c). po_chunk_id P obj = pc_id c"
    using ok by (rule pool_okE)
  define d where "d = \<lparr>pc_addr = a, pc_nitems = min 1024 (pc_nitems c * 2), pc_id = (pc_id c + 1) mod 2 ^ 32\<rparr>"
  let ?P = "P\<lparr>po_chunks := d # c # cs\<rparr>"
  have a: "a \<notin> chunk_addrs P" "Suc (Suc (length cs)) < 2 ^ 32" using fit cs(1) by (simp_all add: fits_pool_def)
  have old: "obj \<notin> set (chunk_objs d)" if "obj \<in> pool_objs P" for obj
    using that a(1) pool_objs_addr [of obj P] by (cases obj) (auto simp: d_def)
  have d0: "0 < pc_nitems d" using chunks_okD [OF cs(2)] by (simp add: d_def)
  have nf: "\<forall>obj \<in> set fs. fst obj \<noteq> pc_addr d" using fs(2) pool_objs_addr a(1) by (auto simp: d_def)
  have idd: "pc_id d = Suc (length (c # cs))" using chunks_okD [OF cs(2)] a(2) by (simp add: d_def)
  have da: "pc_addr d \<notin> pc_addr ` set (c # cs)" using a(1) cs(1) by (simp add: d_def chunk_addrs_def)
  have cok: "chunks_ok (d # c # cs)"
    by (rule chunks_ok_new [OF cs(2) da d0 idd]) (use a(2) in simp)
  obtain P' where P': "nxp_init_chunk ?P = Some P'" "dlist (po_free P') (fs @ chunk_objs d)"
      "po_in_use P' = (\<lambda>obj. if obj \<in> set (chunk_objs d) then False else po_in_use ?P obj)"
      "po_chunk_id P' = (\<lambda>obj. if obj \<in> set (chunk_objs d) then pc_id d else po_chunk_id ?P obj)"
      "po_chunks P' = po_chunks ?P" "po_initial_chunk P' = po_initial_chunk ?P"
    by (rule init_chunk_run [of ?P d "c # cs" fs]) (use d0 fs(1) nf in auto)
  have nc: "new_chunk a P = Some P'"
  proof -
    have "(if pc_nitems c * 2 > 1024 then 1024 else pc_nitems c * 2) = min 1024 (pc_nitems c * 2)" by simp
    then show ?thesis using P'(1) by (simp only: new_chunk_def cs(1) d_def Let_def list.case)
  qed
  have objs: "pool_objs P' = pool_objs P \<union> set (chunk_objs d)" by (auto simp: pool_objs_def P'(5) cs(1))
  have lv: "live P' = live P" using old by (auto simp: live_def objs P'(3))
  have "\<forall>e \<in> set (po_chunks P'). \<forall>obj \<in> set (chunk_objs e). po_chunk_id P' obj = pc_id e"
    using ids old by (auto simp: P'(4,5) cs(1) pool_objs_def)
  moreover have "set (fs @ chunk_objs d) = pool_objs P' - live P'" using fs(2) old lv by (auto simp: objs live_def)
  ultimately have "pool_ok P'" unfolding pool_ok_def using cok init P'(2,5,6) by auto
  moreover have "chunk_objs d \<noteq> []" using d0 by (simp add: chunk_objs_def)
  then have "l_first (po_free P') \<noteq> None" unfolding dlist_first [OF P'(2)] head_or_eq_None by simp
  ultimately show ?thesis using nc lv that by blast
qed

lemma take_free_ok:
  assumes ok: "pool_ok P" and first: "l_first (po_free P) = Some obj"
  shows "pool_ok (take_free obj P)" "live (take_free obj P) = insert obj (live P)" "obj \<in> pool_objs P" "obj \<notin> live P"
proof -
  obtain fs c cs where fs: "dlist (po_free P) fs" "set fs = pool_objs P - live P" and cs: "po_chunks P = c # cs" "chunks_ok (c # cs)"
    and init: "pc_addr (last (c # cs)) = po_initial_chunk P" and ids: "\<forall>c \<in> set (po_chunks P). \<forall>obj \<in> set (chunk_objs c). po_chunk_id P obj = pc_id c"
    using ok by (rule pool_okE)
  obtain gs where gs: "fs = obj # gs" using fs(1) first by (cases fs) (auto simp: dlist_def)
  have same: "po_chunks (take_free obj P) = po_chunks P" "po_initial_chunk (take_free obj P) = po_initial_chunk P"
    "po_chunk_id (take_free obj P) = po_chunk_id P" "po_in_use (take_free obj P) = (po_in_use P)(obj := True)"
    by (simp_all add: take_free_def Let_def)
  have objs: "pool_objs (take_free obj P) = pool_objs P" by (simp add: pool_objs_def same)
  show o: "obj \<in> pool_objs P" "obj \<notin> live P" using fs(2) gs by auto
  show lv: "live (take_free obj P) = insert obj (live P)" using o by (auto simp: live_def objs same)
  have "dlist (po_free (take_free obj P)) gs"
    using fs(1) unfolding gs by (cases gs) (auto simp: dlist_def take_free_def set_next_def set_prev_def Let_def)
  moreover have "set gs = pool_objs (take_free obj P) - live (take_free obj P)"
    using fs(2) dlist_distinct [OF fs(1)] by (auto simp: gs objs lv)
  ultimately show "pool_ok (take_free obj P)" unfolding pool_ok_def using cs init ids by (auto simp: same)
qed

lemma nxp_alloc_ok:
  assumes ok: "pool_ok P" and fit: "fits_pool al P"
  shows "\<exists>r P'. nxp_alloc al P = Some (r, P') \<and> pool_ok P'
    \<and> (case r of None \<Rightarrow> al = None \<and> P' = P \<and> live P = pool_objs P | Some obj \<Rightarrow> obj \<notin> live P \<and> live P' = insert obj (live P))"
proof (cases "l_first (po_free P)")
  case (Some obj)
  then show ?thesis using take_free_ok [OF ok Some] by (simp add: nxp_alloc_def)
next
  case None
  show ?thesis
  proof (cases al)
    case None': None
    have "pool_objs P = live P" using ok \<open>l_first (po_free P) = None\<close> unfolding pool_ok_def
      by (auto simp: dlist_def live_def)
    with None None' ok show ?thesis by (simp add: nxp_alloc_def)
  next
    case (Some a)
    obtain P1 where P1: "new_chunk a P = Some P1" "pool_ok P1" "live P1 = live P" "l_first (po_free P1) \<noteq> None"
      by (rule new_chunk_ok [OF ok]) (use fit Some in auto)
    then obtain obj where obj: "l_first (po_free P1) = Some obj" by auto
    show ?thesis using take_free_ok [OF P1(2) obj] P1 obj None Some by (simp add: nxp_alloc_def)
  qed
qed

lemma nxp_free_ok:
  assumes ok: "pool_ok P" and obj: "obj \<in> live P"
  shows "\<exists>P'. nxp_free obj P = Some P' \<and> pool_ok P' \<and> live P' = live P - {obj}"
proof -
  obtain fs c cs where fs: "dlist (po_free P) fs" "set fs = pool_objs P - live P" and cs: "po_chunks P = c # cs" "chunks_ok (c # cs)"
    and init: "pc_addr (last (c # cs)) = po_initial_chunk P" and ids: "\<forall>c \<in> set (po_chunks P). \<forall>obj \<in> set (chunk_objs c). po_chunk_id P obj = pc_id c"
    using ok by (rule pool_okE)
  have used: "po_in_use P obj" "obj \<in> pool_objs P" "obj \<notin> set fs" using obj fs(2) by (auto simp: live_def)
  obtain e where e: "e \<in> set (c # cs)" "obj \<in> set (chunk_objs e)" using used(2) cs(1) by (auto simp: pool_objs_def)
  have "pc_id e \<le> pc_id c"
  proof -
    have "pc_id e \<in> set (map pc_id (c # cs))" using e(1) by auto
    also have "set (map pc_id (c # cs)) = {1..<Suc (length (c # cs))}" using cs(2) unfolding chunks_ok_def by (metis set_rev set_upt)
    finally show ?thesis using chunks_okD [OF cs(2)] by simp
  qed
  then have le: "po_chunk_id P obj \<le> pc_id c" using ids e cs(1) by auto
  define F where "F = (if po_chunk_id P obj = pc_id c then link_last obj (po_free P) else link_first obj (po_free P))"
  define P' where "P' = P\<lparr>po_in_use := (po_in_use P)(obj := False), po_free := F\<rparr>"
  have "nxp_free obj P = Some P'" using used(1) le by (simp add: nxp_free_def cs(1) P'_def F_def Let_def)
  moreover have objs: "pool_objs P' = pool_objs P" by (simp add: pool_objs_def P'_def)
  moreover have lv: "live P' = live P - {obj}" unfolding live_def objs by (auto simp: P'_def)
  moreover have "\<exists>gs. dlist (po_free P') gs \<and> set gs = pool_objs P' - live P'"
  proof -
    have "insert obj (set fs) = pool_objs P' - live P'" using fs(2) used(2) unfolding objs lv by auto
    moreover have "dlist F (if po_chunk_id P obj = pc_id c then fs @ [obj] else obj # fs)"
      unfolding F_def using dlist_last [OF fs(1) used(3)] dlist_link_first [OF fs(1) used(3)] by simp
    ultimately show ?thesis by (intro exI [of _ "if po_chunk_id P obj = pc_id c then fs @ [obj] else obj # fs"]) (simp add: P'_def)
  qed
  then have "pool_ok P'" unfolding pool_ok_def using cs init ids by (auto simp: P'_def)
  ultimately show ?thesis by blast
qed

lemma nxp_gc_ok:
  assumes ok: "pool_ok P"
  shows "\<exists>r P'. nxp_gc P = Some (r, P') \<and> pool_ok P' \<and> live P' = live P
    \<and> (case r of None \<Rightarrow> P' = P | Some a \<Rightarrow> chunk_addrs P' = chunk_addrs P - {a} \<and> a \<in> chunk_addrs P \<and> a \<noteq> po_initial_chunk P
        \<and> (\<forall>obj \<in> live P. fst obj \<noteq> a))"
proof -
  obtain fs c cs where fs: "dlist (po_free P) fs" "set fs = pool_objs P - live P" and cs: "po_chunks P = c # cs" "chunks_ok (c # cs)"
    and init: "pc_addr (last (c # cs)) = po_initial_chunk P" and ids: "\<forall>c \<in> set (po_chunks P). \<forall>obj \<in> set (chunk_objs c). po_chunk_id P obj = pc_id c"
    using ok by (rule pool_okE)
  consider "cs = [] \<or> (\<exists>obj \<in> set (chunk_objs c). po_in_use P obj)" | "cs \<noteq> []" "\<forall>obj \<in> set (chunk_objs c). \<not> po_in_use P obj" by blast
  then show ?thesis
  proof cases
    case 1
    then have "nxp_gc P = Some (None, P)" by (cases cs) (auto simp: nxp_gc_def cs(1) chunk_objs_def Let_def)
    with ok show ?thesis by simp
  next
    case 2
    define P' where "P' = P\<lparr>po_free := fold cut_out (chunk_objs c) (po_free P), po_chunks := cs\<rparr>"
    have gc: "nxp_gc P = Some (Some (pc_addr c), P')"
      using 2 by (cases cs) (auto simp: nxp_gc_def cs(1) chunk_objs_def P'_def Let_def)
    have c: "pc_addr c \<notin> pc_addr ` set cs" "chunks_ok cs" using chunks_okD [OF cs(2)] by auto
    have split: "pool_objs P = pool_objs P' \<union> set (chunk_objs c)" "pool_objs P' \<inter> set (chunk_objs c) = {}"
      using c(1) by (auto simp: pool_objs_def P'_def cs(1))
    have lv: "live P' = live P" using split(1) 2(2) by (auto simp: live_def P'_def)
    have sub: "set (chunk_objs c) \<subseteq> set fs" using fs(2) split(1) 2(2) by (auto simp: live_def)
    have "dlist (po_free P') (filter (\<lambda>x. x \<notin> set (chunk_objs c)) fs)"
      using dlist_cut_all [OF fs(1) sub] by (simp add: P'_def)
    moreover have "set (filter (\<lambda>x. x \<notin> set (chunk_objs c)) fs) = pool_objs P' - live P'"
      using fs(2) split by (auto simp: lv)
    moreover have "\<forall>e \<in> set (po_chunks P'). \<forall>obj \<in> set (chunk_objs e). po_chunk_id P' obj = pc_id e"
      using ids by (simp add: P'_def cs(1))
    ultimately have "pool_ok P'" unfolding pool_ok_def using c(2) init 2(1) by (auto simp: P'_def)
    moreover have "chunk_addrs P' = chunk_addrs P - {pc_addr c}" "pc_addr c \<in> chunk_addrs P" using c(1) by (auto simp: chunk_addrs_def P'_def cs(1))
    moreover have "pc_addr c \<noteq> po_initial_chunk P" using init c(1) 2(1) by (metis image_eqI last_ConsR last_in_set)
    moreover have "fst obj \<noteq> pc_addr c" if "obj \<in> live P" for obj
    proof -
      have "obj \<in> pool_objs P'" using that unfolding lv [symmetric] by (simp add: live_def)
      from pool_objs_addr [OF this] show ?thesis using c(1) by (auto simp: chunk_addrs_def P'_def)
    qed
    ultimately show ?thesis using gc lv by simp
  qed
qed

section \<open>Creation\<close>

lemma nxp_init_ok:
  assumes "SIZEOF_NXP_CHUNK + (object_size + SIZEOF_NXP_OBJECT) \<le> chunk_allocated_size"
  shows "\<exists>P. nxp_init object_size a chunk_allocated_size = Some P \<and> pool_ok P \<and> live P = {} \<and> chunk_addrs P = {a}"
proof -
  let ?os = "object_size + SIZEOF_NXP_OBJECT"
  define c where "c = \<lparr>pc_addr = a, pc_nitems = (chunk_allocated_size - SIZEOF_NXP_CHUNK) div ?os, pc_id = 1\<rparr>"
  have pos: "0 < pc_nitems c" using assms by (simp add: c_def SIZEOF_NXP_OBJECT_def div_greater_zero_iff)
  let ?P = "\<lparr>po_chunks = [c], po_initial_chunk = a, po_free = no_links, po_in_use = \<lambda>_. False, po_chunk_id = \<lambda>_. 0, po_object_size = ?os\<rparr>"
  have nil: "dlist (po_free ?P) []" by (simp add: dlist_def no_links_def)
  obtain P' where P': "nxp_init_chunk ?P = Some P'" "dlist (po_free P') ([] @ chunk_objs c)"
      "po_in_use P' = (\<lambda>obj. if obj \<in> set (chunk_objs c) then False else po_in_use ?P obj)"
      "po_chunk_id P' = (\<lambda>obj. if obj \<in> set (chunk_objs c) then pc_id c else po_chunk_id ?P obj)"
      "po_chunks P' = po_chunks ?P" "po_initial_chunk P' = po_initial_chunk ?P"
    by (rule init_chunk_run [of ?P c "[]", OF _ pos nil]) auto
  have "nxp_init object_size a chunk_allocated_size = Some P'" using P'(1) by (simp add: nxp_init_def c_def Let_def)
  moreover have "live P' = {}" by (auto simp: live_def P'(3))
  moreover have "pool_objs P' = set (chunk_objs c)" "chunk_addrs P' = {a}" by (simp_all add: pool_objs_def chunk_addrs_def P'(5) c_def)
  moreover have "chunks_ok [c]" using pos by (simp add: chunks_ok_def c_def)
  ultimately show ?thesis using P'(2,4,5,6) by (auto simp: pool_ok_def c_def)
qed

lemma nxp_create_ok:
  assumes "0 < n"
  shows "\<exists>P. nxp_create (Some a) object_size n = Some P \<and> pool_ok P \<and> live P = {} \<and> chunk_addrs P = {a}"
proof -
  have "x + SIZEOF_NXP_OBJECT \<le> (SIZEOF_NXP_OBJECT + x) * n" for x using assms by (cases n) auto
  then show ?thesis using nxp_init_ok by (simp add: nxp_create_def Let_def)
qed

section \<open>Iteration and destruction\<close>

text \<open>The objects that an iterator has still to deliver.\<close>

definition remaining :: "nxp_pool \<Rightarrow> nxp_chunk list \<times> nat \<Rightarrow> nxp_object list" where
  "remaining P it = (case it of ([], i) \<Rightarrow> []
     | (c # cs, i) \<Rightarrow> filter (po_in_use P) (map (Pair (pc_addr c)) [i..<pc_nitems c] @ concat (map chunk_objs cs)))"

definition iterator_ok :: "nxp_chunk list \<times> nat \<Rightarrow> bool" where
  "iterator_ok it \<longleftrightarrow> (case it of ([], i) \<Rightarrow> True | (c # cs, i) \<Rightarrow> i \<le> pc_nitems c)"

lemma iterate_objects_run:
  "i + n = pc_nitems c \<Longrightarrow> (case iterate_objects (po_in_use P) (c # cs) i n of
     (None, it) \<Rightarrow> remaining P (c # cs, i) = []
   | (Some obj, it) \<Rightarrow> remaining P (c # cs, i) = obj # remaining P it \<and> iterator_ok it)"
proof (induction "po_in_use P" "c # cs" i n arbitrary: c cs rule: iterate_objects.induct)
  case (2 c cs i)
  show ?case
  proof (cases cs)
    case Nil
    with 2 show ?thesis by (simp add: remaining_def)
  next
    case (Cons d ds)
    have r: "remaining P (c # cs, i) = remaining P (d # ds, 0)"
      using 2(2) by (simp add: remaining_def Cons chunk_objs_def)
    show ?thesis using 2(1) [OF Cons Cons] unfolding r by (simp add: Cons)
  qed
next
  case (3 c cs i n)
  have up: "[i..<pc_nitems c] = i # [Suc i..<pc_nitems c]" using 3(2) by (intro upt_conv_Cons) simp
  show ?case
  proof (cases "po_in_use P (pc_addr c, i)")
    case True
    then show ?thesis using 3(2) by (simp add: remaining_def up iterator_ok_def)
  next
    case False
    have r: "remaining P (c # cs, i) = remaining P (c # cs, Suc i)" using False by (simp add: remaining_def up)
    show ?thesis unfolding r using 3 False by simp
  qed
qed

lemma iterate_next_run:
  assumes "iterator_ok it"
  shows "case nxp_iterate_next P it of (None, it') \<Rightarrow> remaining P it = []
    | (Some obj, it') \<Rightarrow> remaining P it = obj # remaining P it' \<and> iterator_ok it'"
proof -
  obtain cs i where it: "it = (cs, i)" by (cases it)
  show ?thesis
  proof (cases cs)
    case Nil
    then show ?thesis by (simp add: it nxp_iterate_next_def remaining_def)
  next
    case (Cons c ds)
    then have "i + (pc_nitems c - i) = pc_nitems c" using assms by (simp add: it iterator_ok_def)
    from iterate_objects_run [OF this, of P ds] show ?thesis unfolding it Cons nxp_iterate_next_def by simp
  qed
qed

text \<open>The loop \<^verbatim>\<open>for (o=nxp_iterate_allocated_objects(pool, &itr); o; o=nxp_iterate_allocated_objects(0, &itr))\<close>.\<close>

fun iterate_all :: "nat \<Rightarrow> nxp_pool \<Rightarrow> nxp_chunk list \<times> nat \<Rightarrow> nxp_object list" where
  "iterate_all 0 P it = []"
| "iterate_all (Suc n) P it = (case nxp_iterate_next P it of (None, it') \<Rightarrow> [] | (Some obj, it') \<Rightarrow> obj # iterate_all n P it')"

lemma iterate_all_run: "iterator_ok it \<Longrightarrow> length (remaining P it) < n \<Longrightarrow> iterate_all n P it = remaining P it"
proof (induction n arbitrary: it)
  case (Suc n)
  then show ?case using iterate_next_run [OF Suc.prems(1), of P] by (auto split: prod.splits option.splits)
qed simp

lemma concat_chunks:
  "chunks_ok cs \<Longrightarrow> distinct (concat (map chunk_objs cs))"
proof (induction cs)
  case (Cons c cs)
  then show ?case using chunks_okD [OF Cons.prems] by (auto simp: disjoint_iff)
qed simp

lemma remaining_start:
  assumes "pool_ok P"
  shows "distinct (remaining P (po_chunks P, 0))" "set (remaining P (po_chunks P, 0)) = live P" "iterator_ok (po_chunks P, 0)"
proof -
  obtain c cs where c: "po_chunks P = c # cs" "chunks_ok (po_chunks P)" using assms by (cases "po_chunks P") (auto simp: pool_ok_def)
  have "remaining P (po_chunks P, 0) = filter (po_in_use P) (concat (map chunk_objs (po_chunks P)))"
    by (simp add: remaining_def c(1) chunk_objs_def)
  then show "distinct (remaining P (po_chunks P, 0))" "set (remaining P (po_chunks P, 0)) = live P" "iterator_ok (po_chunks P, 0)"
    using concat_chunks [OF c(2)] by (auto simp: live_def pool_objs_def iterator_ok_def c(1))
qed

lemma finalize_run:
  "cs \<noteq> [] \<Longrightarrow> distinct (map pc_addr cs) \<Longrightarrow> finalize_loop (pc_addr (last cs)) cs = Some (map pc_addr (butlast cs))"
proof (induction cs)
  case (Cons c cs)
  then show ?case by (cases "cs = []") (auto simp: image_iff)
qed simp

lemma nxp_destroy_ok:
  assumes "pool_ok P"
  shows "nxp_destroy P = Some (map pc_addr (po_chunks P))" "distinct (map pc_addr (po_chunks P))"
proof -
  have ok: "po_chunks P \<noteq> []" "distinct (map pc_addr (po_chunks P))" "po_initial_chunk P = pc_addr (last (po_chunks P))"
    using assms by (auto simp: pool_ok_def chunks_ok_def)
  show "distinct (map pc_addr (po_chunks P))" by (fact ok(2))
  have "map pc_addr (butlast (po_chunks P)) @ [pc_addr (last (po_chunks P))] = map pc_addr (butlast (po_chunks P) @ [last (po_chunks P)])"
    by simp
  also have "\<dots> = map pc_addr (po_chunks P)" unfolding append_butlast_last_id [OF ok(1)] ..
  finally show "nxp_destroy P = Some (map pc_addr (po_chunks P))"
    using finalize_run [OF ok(1,2)] by (simp add: nxp_destroy_def nxp_finalize_def ok(3))
qed

section \<open>The interface of the pool\<close>

text \<open>
  What a client of a pool relies on: an allocator whose objects are not in use by anybody else, and that
  takes every object back.
\<close>

locale object_pool =
  fixes ok :: "'pool \<Rightarrow> bool" and in_use :: "'pool \<Rightarrow> 'obj set" and room :: "'al \<Rightarrow> 'pool \<Rightarrow> bool"
    and get :: "'al \<Rightarrow> 'pool \<Rightarrow> ('obj option \<times> 'pool) option" and put :: "'obj \<Rightarrow> 'pool \<Rightarrow> 'pool option"
  assumes get_ok: "ok P \<Longrightarrow> room al P \<Longrightarrow> \<exists>r P'. get al P = Some (r, P') \<and> ok P'
      \<and> (case r of None \<Rightarrow> in_use P' = in_use P | Some obj \<Rightarrow> obj \<notin> in_use P \<and> in_use P' = insert obj (in_use P))"
    and put_ok: "ok P \<Longrightarrow> obj \<in> in_use P \<Longrightarrow> \<exists>P'. put obj P = Some P' \<and> ok P' \<and> in_use P' = in_use P - {obj}"
begin

lemma get_cases:
  assumes "ok P" "room al P"
  obtains (none) P' where "get al P = Some (None, P')" "ok P'" "in_use P' = in_use P"
    | (some) obj P' where "get al P = Some (Some obj, P')" "ok P'" "obj \<notin> in_use P" "in_use P' = insert obj (in_use P)"
proof -
  obtain r P' where r: "get al P = Some (r, P')" "ok P'"
    "case r of None \<Rightarrow> in_use P' = in_use P | Some obj \<Rightarrow> obj \<notin> in_use P \<and> in_use P' = insert obj (in_use P)"
    using get_ok [OF assms] by blast
  then show thesis using none some by (cases r) auto
qed

text \<open>Giving back a list of objects in any order.\<close>

lemma put_list:
  assumes "ok P" "set xs \<subseteq> in_use P" "distinct xs"
  shows "\<exists>P'. fold (\<lambda>x Q. Option.bind Q (put x)) xs (Some P) = Some P' \<and> ok P' \<and> in_use P' = in_use P - set xs"
  using assms
proof (induction xs arbitrary: P)
  case (Cons x xs)
  obtain Q where Q: "put x P = Some Q" "ok Q" "in_use Q = in_use P - {x}" using put_ok [of P x] Cons.prems by auto
  have "set xs \<subseteq> in_use Q" "distinct xs" using Q(3) Cons.prems by auto
  then obtain P' where P': "fold (\<lambda>x Q. Option.bind Q (put x)) xs (Some Q) = Some P'" "ok P'" "in_use P' = in_use Q - set xs"
    using Cons.IH [OF Q(2)] by blast
  have "in_use P' = in_use P - set (x # xs)" unfolding P'(3) Q(3) by auto
  with Q(1) P'(1,2) show ?case by simp
qed simp

end

interpretation event_pool: object_pool pool_ok live fits_pool nxp_alloc nxp_free
proof
  fix P al assume "pool_ok P" "fits_pool al P"
  from nxp_alloc_ok [OF this] obtain r P' where "nxp_alloc al P = Some (r, P')" "pool_ok P'"
    "case r of None \<Rightarrow> al = None \<and> P' = P \<and> live P = pool_objs P | Some obj \<Rightarrow> obj \<notin> live P \<and> live P' = insert obj (live P)" by blast
  then show "\<exists>r P'. nxp_alloc al P = Some (r, P') \<and> pool_ok P'
      \<and> (case r of None \<Rightarrow> live P' = live P | Some obj \<Rightarrow> obj \<notin> live P \<and> live P' = insert obj (live P))"
    by (cases r) simp_all
qed (rule nxp_free_ok)

section \<open>Every use of a pool\<close>

text \<open>The pools a program can have: it frees only what it holds, and a new chunk is a block nobody uses.\<close>

inductive pool_reach :: "nxp_pool \<Rightarrow> bool" where
  create: "nxp_create (Some a) object_size n = Some P \<Longrightarrow> 0 < n \<Longrightarrow> pool_reach P"
| alloc: "pool_reach P \<Longrightarrow> fits_pool al P \<Longrightarrow> nxp_alloc al P = Some (r, P') \<Longrightarrow> pool_reach P'"
| free: "pool_reach P \<Longrightarrow> obj \<in> live P \<Longrightarrow> nxp_free obj P = Some P' \<Longrightarrow> pool_reach P'"
| gc: "pool_reach P \<Longrightarrow> nxp_gc P = Some (r, P') \<Longrightarrow> pool_reach P'"

lemma pool_reach_ok: "pool_reach P \<Longrightarrow> pool_ok P"
proof (induction rule: pool_reach.induct)
  case (create a object_size n P)
  then show ?case using nxp_create_ok [of n a object_size] by auto
next
  case (alloc P al r P')
  then show ?case using nxp_alloc_ok [of P al] by auto
next
  case (free P obj P')
  then show ?case using nxp_free_ok [of P obj] by auto
next
  case (gc P r P')
  then show ?case using nxp_gc_ok [of P] by auto
qed

text \<open>
  C8: However a pool is used, no assertion of its code fails and no null pointer is followed: an allocation
  returns an object that nobody holds (or null when the memory is exhausted and nothing is free), a live object
  can be freed and is then no longer live, garbage collection keeps every live object and frees only
  a chunk without any, iteration visits each live object once, and destruction frees every chunk once.
\<close>

theorem pool_sound:
  assumes "pool_reach P"
  shows "(fits_pool al P \<longrightarrow> (\<exists>r P'. nxp_alloc al P = Some (r, P')
        \<and> (case r of None \<Rightarrow> al = None \<and> P' = P \<and> live P = pool_objs P | Some obj \<Rightarrow> obj \<notin> live P \<and> live P' = insert obj (live P))))
    \<and> (obj \<in> live P \<longrightarrow> (\<exists>P'. nxp_free obj P = Some P' \<and> live P' = live P - {obj}))
    \<and> (\<exists>r P'. nxp_gc P = Some (r, P') \<and> live P' = live P
        \<and> (case r of None \<Rightarrow> P' = P | Some a \<Rightarrow> chunk_addrs P' = chunk_addrs P - {a} \<and> (\<forall>obj \<in> live P. fst obj \<noteq> a)))
    \<and> (card (live P) < n \<longrightarrow> distinct (iterate_all n P (po_chunks P, 0)) \<and> set (iterate_all n P (po_chunks P, 0)) = live P)
    \<and> (\<exists>as. nxp_destroy P = Some as \<and> distinct as \<and> set as = chunk_addrs P)"
proof -
  have ok: "pool_ok P" by (rule pool_reach_ok [OF assms])
  have it: "distinct (iterate_all n P (po_chunks P, 0)) \<and> set (iterate_all n P (po_chunks P, 0)) = live P" if "card (live P) < n"
  proof -
    note r = remaining_start [OF ok]
    have "length (remaining P (po_chunks P, 0)) < n" using that r(1,2) distinct_card by metis
    with iterate_all_run [OF r(3)] r(1,2) show ?thesis by metis
  qed
  have al: "fits_pool al P \<longrightarrow> (\<exists>r P'. nxp_alloc al P = Some (r, P')
        \<and> (case r of None \<Rightarrow> al = None \<and> P' = P \<and> live P = pool_objs P | Some obj \<Rightarrow> obj \<notin> live P \<and> live P' = insert obj (live P)))"
    using nxp_alloc_ok [OF ok] by blast
  have gc: "\<exists>r P'. nxp_gc P = Some (r, P') \<and> live P' = live P
        \<and> (case r of None \<Rightarrow> P' = P | Some a \<Rightarrow> chunk_addrs P' = chunk_addrs P - {a} \<and> (\<forall>obj \<in> live P. fst obj \<noteq> a))"
  proof -
    obtain r P' where "nxp_gc P = Some (r, P')" "live P' = live P" "case r of None \<Rightarrow> P' = P
        | Some a \<Rightarrow> chunk_addrs P' = chunk_addrs P - {a} \<and> a \<in> chunk_addrs P \<and> a \<noteq> po_initial_chunk P \<and> (\<forall>obj \<in> live P. fst obj \<noteq> a)"
      using nxp_gc_ok [OF ok] by blast
    then show ?thesis by (cases r) simp_all
  qed
  have fr: "obj \<in> live P \<longrightarrow> (\<exists>P'. nxp_free obj P = Some P' \<and> live P' = live P - {obj})" using nxp_free_ok [OF ok] by blast
  have de: "\<exists>as. nxp_destroy P = Some as \<and> distinct as \<and> set as = chunk_addrs P"
    using nxp_destroy_ok [OF ok] by (auto simp: chunk_addrs_def)
  from al fr gc it de show ?thesis by blast
qed

text \<open>A pool of two objects of which one is in use\<close>

definition sample_pool :: nxp_pool where
  "sample_pool = snd (the (nxp_alloc None (the (nxp_create (Some 64) 20 2))))"

lemma sample_pool_facts: "fst (the (nxp_alloc None (the (nxp_create (Some 64) 20 2)))) = Some (64, 0)"
  "po_chunks sample_pool = [\<lparr>pc_addr = 64, pc_nitems = 2, pc_id = 1\<rparr>]" "po_in_use sample_pool (64, 0)" "\<not> po_in_use sample_pool (64, 1)"
  by code_simp+

lemma sample_pool_reach: "pool_reach sample_pool"
proof -
  obtain P where P: "nxp_create (Some 64) 20 2 = Some P" "pool_ok P" using nxp_create_ok [of 2 64 20] by auto
  have r: "pool_reach P" by (rule pool_reach.create [OF P(1)]) simp
  obtain q P' where q: "nxp_alloc None P = Some (q, P')" using nxp_alloc_ok [OF P(2), of None] by (auto simp: fits_pool_def)
  have "pool_reach P'" by (rule pool_reach.alloc [OF r _ q]) (simp add: fits_pool_def)
  then show ?thesis using P(1) q by (simp add: sample_pool_def)
qed

lemma sample_pool_live: "live sample_pool = {(64, 0)}"
  using sample_pool_facts(2-4) by (auto simp: live_def pool_objs_def less_2_cases_iff)

theorem pool_sound_witness:
  "(\<exists>r P'. nxp_alloc (Some 640) sample_pool = Some (r, P') \<and> (case r of None \<Rightarrow> False | Some obj \<Rightarrow> obj \<noteq> (64, 0) \<and> live P' = {obj, (64, 0)}))
   \<and> (\<exists>P'. nxp_free (64, 0) sample_pool = Some P' \<and> live P' = {})
   \<and> set (iterate_all 2 sample_pool (po_chunks sample_pool, 0)) = {(64, 0)}
   \<and> (\<exists>as. nxp_destroy sample_pool = Some as \<and> distinct as \<and> set as = {64})"
proof -
  have f: "fits_pool (Some 640) sample_pool" "(64, 0) \<in> live sample_pool" "card (live sample_pool) < 2" "chunk_addrs sample_pool = {64}"
    by (simp_all add: fits_pool_def chunk_addrs_def sample_pool_facts(2) sample_pool_live)
  note p = pool_sound [OF sample_pool_reach, of "Some 640" "(64, 0)" 2]
  obtain r P' where r: "nxp_alloc (Some 640) sample_pool = Some (r, P')" "case r of None \<Rightarrow> Some (640::nat) = None \<and> P' = sample_pool \<and> live sample_pool = pool_objs sample_pool
      | Some obj \<Rightarrow> obj \<notin> live sample_pool \<and> live P' = insert obj (live sample_pool)"
    using p f(1) by blast
  have "\<exists>r P'. nxp_alloc (Some 640) sample_pool = Some (r, P') \<and> (case r of None \<Rightarrow> False | Some obj \<Rightarrow> obj \<noteq> (64, 0) \<and> live P' = {obj, (64, 0)})"
    using r by (cases r) (auto simp: sample_pool_live)
  moreover have "\<exists>P'. nxp_free (64, 0) sample_pool = Some P' \<and> live P' = live sample_pool - {(64, 0)}" using p f(2) by blast
  moreover have "set (iterate_all 2 sample_pool (po_chunks sample_pool, 0)) = live sample_pool" using p f(3) by blast
  moreover have "\<exists>as. nxp_destroy sample_pool = Some as \<and> distinct as \<and> set as = chunk_addrs sample_pool" using p by blast
  ultimately show ?thesis by (simp add: sample_pool_live f(4))
qed

end
