(* ===== verification/Nx_Event.thy ===== *)
theory Nx_Event
  imports Nx_Pool "HOL-Library.Monad_Syntax"
begin

text \<open>
  The events of the loop (\<^verbatim>\<open>include/nxweb/nx_event.h\<close>, \<^verbatim>\<open>lib/nx_event.c\<close>): publishers and subscribers, stream
  connections, callbacks, the queue of pending events and its processing.  Interfaces are references and their fields are functions of
  them; a pointer to the loop is a truth value (there is one loop per thread).  An event is an object of the
  loop's pool or the event embedded in an input stream.  The result \<open>None\<close> is a failed assertion, a
  null pointer followed or a loop that does not end.
\<close>

section \<open>State\<close>

datatype event = Pooled nxp_object | Stream nat

datatype event_class = NXE_EV_STREAM | NXE_EV_MESSAGE | NXE_EV_CALLBACK

datatype receiver = To_Ostream nat | To_Sub nat | To_Callback nat

record nxe_events =
  ev_queue :: "event links"
  ev_loop :: "event \<Rightarrow> bool"
  ev_cls :: "event \<Rightarrow> event_class"
  ev_receiver :: "event \<Rightarrow> receiver option"
  ev_data :: "event \<Rightarrow> int"
  ev_next_by_receiver :: "event \<Rightarrow> event option"
  ev_pool :: nxp_pool
  ev_batch_write_fd :: nat
  sub_pub :: "nat \<Rightarrow> nat option"
  sub_next :: "nat \<Rightarrow> nat option"
  sub_evt :: "nat \<Rightarrow> event option"
  sub_loop :: "nat \<Rightarrow> bool"
  pub_sub :: "nat \<Rightarrow> nat option"
  pub_loop :: "nat \<Rightarrow> bool"
  is_ready :: "nat \<Rightarrow> bool"
  is_pair :: "nat \<Rightarrow> nat option"
  is_loop :: "nat \<Rightarrow> bool"
  os_ready :: "nat \<Rightarrow> bool"
  os_pair :: "nat \<Rightarrow> nat option"
  os_loop :: "nat \<Rightarrow> bool"

section \<open>The queue\<close>

definition nxe_link :: "event \<Rightarrow> nxe_events \<Rightarrow> nxe_events option" where
  "nxe_link evt st =
     (if ev_receiver st evt = None \<or> ev_loop st evt then None
      else Some (st\<lparr>ev_queue := link_last evt (ev_queue st), ev_loop := (ev_loop st)(evt := True)\<rparr>))"

definition nxe_unlink :: "event \<Rightarrow> nxe_events \<Rightarrow> nxe_events option" where
  "nxe_unlink evt st =
     (if \<not> ev_loop st evt then None
      else Some (st\<lparr>ev_queue := unlink evt (ev_queue st), ev_loop := (ev_loop st)(evt := False)\<rparr>))"

section \<open>Publishers and subscribers\<close>

definition nxe_subscribe :: "nat \<Rightarrow> nat \<Rightarrow> nxe_events \<Rightarrow> nxe_events option" where
  "nxe_subscribe pub sub st =
     (if sub_pub st sub \<noteq> None \<or> sub_next st sub \<noteq> None then None
      else Some (st\<lparr>pub_loop := (pub_loop st)(pub := True), sub_loop := (sub_loop st)(sub := True),
        sub_pub := (sub_pub st)(sub := Some pub), sub_next := (sub_next st)(sub := pub_sub st pub),
        pub_sub := (pub_sub st)(pub := Some sub)\<rparr>))"

text \<open>The search for the subscriber before \<open>sub\<close>: the outer option is its termination, the inner one its result.\<close>

partial_function (option) find_before :: "(nat \<Rightarrow> nat option) \<Rightarrow> nat \<Rightarrow> nat option \<Rightarrow> nat option option" where
  "find_before next sub s =
     (case s of None \<Rightarrow> Some None
      | Some x \<Rightarrow> if next x = Some sub then Some (Some x) else find_before next sub (next x))"

definition take_off :: "nat \<Rightarrow> nat \<Rightarrow> nxe_events \<Rightarrow> nxe_events option" where
  "take_off pub sub st =
     (if pub_sub st pub = Some sub
      then Some (st\<lparr>pub_sub := (pub_sub st)(pub := sub_next st sub), sub_pub := (sub_pub st)(sub := None), sub_next := (sub_next st)(sub := None)\<rparr>)
      else case find_before (sub_next st) sub (pub_sub st pub) of
             None \<Rightarrow> None
           | Some None \<Rightarrow> Some st
           | Some (Some s) \<Rightarrow> Some (st\<lparr>sub_pub := (sub_pub st)(sub := None), sub_next := (sub_next st)(s := sub_next st sub, sub := None)\<rparr>))"

definition free_event :: "event \<Rightarrow> nxe_events \<Rightarrow> nxe_events option" where
  "free_event evt st =
     (case evt of Stream _ \<Rightarrow> None | Pooled obj \<Rightarrow> map_option (\<lambda>P. st\<lparr>ev_pool := P\<rparr>) (nxp_free obj (ev_pool st)))"

partial_function (option) drop_events :: "event option \<Rightarrow> nxe_events \<Rightarrow> nxe_events option" where
  "drop_events next_evt st =
     (case next_evt of None \<Rightarrow> Some st
      | Some evt \<Rightarrow>
          (let next_evt = ev_next_by_receiver st evt
           in Option.bind (nxe_unlink evt st) (\<lambda>st. Option.bind (free_event evt st) (drop_events next_evt))))"

definition nxe_unsubscribe :: "nat \<Rightarrow> nat \<Rightarrow> nxe_events \<Rightarrow> nxe_events option" where
  "nxe_unsubscribe pub sub st =
     (if sub_pub st sub \<noteq> Some pub then None
      else do {
        st \<leftarrow> take_off pub sub st;
        st \<leftarrow> drop_events (sub_evt st sub) st;
        Some (st\<lparr>sub_evt := (sub_evt st)(sub := None)\<rparr>) })"

text \<open>
  A new event.  \<open>mem\<close> stands for the system's allocator: the address of a block for a new chunk of the pool,
  if there is memory.  The source does not check that it got an event.
\<close>

definition new_event :: "(nxp_pool \<Rightarrow> nat option) \<Rightarrow> event_class \<Rightarrow> receiver \<Rightarrow> int \<Rightarrow> nxe_events \<Rightarrow> (event \<times> nxe_events) option" where
  "new_event mem c r d st =
     (case nxp_alloc (mem (ev_pool st)) (ev_pool st) of
        Some (Some obj, P) \<Rightarrow>
          (let evt = Pooled obj;
               st = st\<lparr>ev_pool := P, ev_cls := (ev_cls st)(evt := c), ev_receiver := (ev_receiver st)(evt := Some r),
                 ev_data := (ev_data st)(evt := d), ev_next_by_receiver := (ev_next_by_receiver st)(evt := None), ev_loop := (ev_loop st)(evt := False)\<rparr>
           in map_option (Pair evt) (nxe_link evt st))
      | _ \<Rightarrow> None)"

partial_function (option) last_by_receiver :: "(event \<Rightarrow> event option) \<Rightarrow> event \<Rightarrow> event option" where
  "last_by_receiver next e = (case next e of None \<Rightarrow> Some e | Some e' \<Rightarrow> last_by_receiver next e')"

definition publish_to :: "(nxp_pool \<Rightarrow> nat option) \<Rightarrow> int \<Rightarrow> nat \<Rightarrow> nxe_events \<Rightarrow> nxe_events option" where
  "publish_to mem d sub st = do {
     (evt, st) \<leftarrow> new_event mem NXE_EV_MESSAGE (To_Sub sub) d st;
     (case sub_evt st sub of
        None \<Rightarrow> Some (st\<lparr>sub_evt := (sub_evt st)(sub := Some evt)\<rparr>)
      | Some e \<Rightarrow> do {
          e \<leftarrow> last_by_receiver (ev_next_by_receiver st) e;
          Some (st\<lparr>ev_next_by_receiver := (ev_next_by_receiver st)(e := Some evt)\<rparr>) }) }"

partial_function (option) publish_loop :: "(nxp_pool \<Rightarrow> nat option) \<Rightarrow> int \<Rightarrow> nat option \<Rightarrow> nxe_events \<Rightarrow> nxe_events option" where
  "publish_loop mem d s st =
     (case s of None \<Rightarrow> Some st
      | Some sub \<Rightarrow> Option.bind (publish_to mem d sub st) (\<lambda>st. publish_loop mem d (sub_next st sub) st))"

definition nxe_publish :: "(nxp_pool \<Rightarrow> nat option) \<Rightarrow> nat \<Rightarrow> int \<Rightarrow> nxe_events \<Rightarrow> nxe_events option" where
  "nxe_publish mem pub d st = (if \<not> pub_loop st pub then Some st else publish_loop mem d (pub_sub st pub) st)"

definition nxe_schedule_callback :: "(nxp_pool \<Rightarrow> nat option) \<Rightarrow> nat \<Rightarrow> int \<Rightarrow> nxe_events \<Rightarrow> nxe_events option" where
  "nxe_schedule_callback mem func d st = map_option snd (new_event mem NXE_EV_CALLBACK (To_Callback func) d st)"

section \<open>Stream connections\<close>

definition emit_stream :: "nat \<Rightarrow> nat \<Rightarrow> nxe_events \<Rightarrow> nxe_events option" where
  "emit_stream i o' st = nxe_link (Stream i) (st\<lparr>ev_receiver := (ev_receiver st)(Stream i := Some (To_Ostream o'))\<rparr>)"

definition nxe_connect_streams :: "nat \<Rightarrow> nat \<Rightarrow> nxe_events \<Rightarrow> nxe_events option" where
  "nxe_connect_streams i o' st =
     (let st = st\<lparr>is_loop := (is_loop st)(i := True), os_loop := (os_loop st)(o' := True),
                 is_pair := (is_pair st)(i := Some o'), os_pair := (os_pair st)(o' := Some i)\<rparr>
      in if is_ready st i \<and> os_ready st o' then emit_stream i o' st else Some st)"

definition nxe_disconnect_streams :: "nat \<Rightarrow> nat \<Rightarrow> nxe_events \<Rightarrow> nxe_events option" where
  "nxe_disconnect_streams i o' st =
     (let st = st\<lparr>is_pair := (is_pair st)(i := None), os_pair := (os_pair st)(o' := None)\<rparr>
      in if ev_loop st (Stream i) then nxe_unlink (Stream i) st else Some st)"

definition nxe_istream_set_ready :: "nat \<Rightarrow> nxe_events \<Rightarrow> nxe_events option" where
  "nxe_istream_set_ready i st =
     (if is_ready st i then Some st
      else let st = st\<lparr>is_ready := (is_ready st)(i := True)\<rparr>
           in case is_pair st i of
                Some o' \<Rightarrow> if os_ready st o' \<and> \<not> ev_loop st (Stream i) then emit_stream i o' st else Some st
              | None \<Rightarrow> Some st)"

definition nxe_istream_unset_ready :: "nat \<Rightarrow> nxe_events \<Rightarrow> nxe_events" where
  "nxe_istream_unset_ready i st = st\<lparr>is_ready := (is_ready st)(i := False)\<rparr>"

definition nxe_ostream_set_ready :: "nat \<Rightarrow> nxe_events \<Rightarrow> nxe_events option" where
  "nxe_ostream_set_ready o' st =
     (let st = st\<lparr>os_ready := (os_ready st)(o' := True)\<rparr>
      in case os_pair st o' of
           Some i \<Rightarrow> if is_ready st i \<and> \<not> ev_loop st (Stream i) then emit_stream i o' st else Some st
         | None \<Rightarrow> Some st)"

definition nxe_ostream_unset_ready :: "nat \<Rightarrow> nxe_events \<Rightarrow> nxe_events" where
  "nxe_ostream_unset_ready o' st = st\<lparr>os_ready := (os_ready st)(o' := False)\<rparr>"

section \<open>Delivery\<close>

text \<open>
  The code that the loop calls.  \<open>run\<close> is what such a call does to the loop and to the rest of the program;
  \<open>cl\<close> says which methods the classes of the interfaces have.
\<close>

datatype action =
  Do_write nat nat | Do_read nat nat | Do_publish nat nat int | On_message nat nat int | Callback nat int | Batch_write_end nat

record classes =
  has_do_write :: "nat \<Rightarrow> bool"
  has_do_read :: "nat \<Rightarrow> bool"
  has_do_publish :: "nat \<Rightarrow> bool"

type_synonym 'w handler = "action \<Rightarrow> nxe_events \<times> 'w \<Rightarrow> (nxe_events \<times> 'w) option"

fun stream_loop :: "'w handler \<Rightarrow> action \<Rightarrow> nat \<Rightarrow> nat \<Rightarrow> event \<Rightarrow> nat \<Rightarrow> nxe_events \<times> 'w \<Rightarrow> (nxe_events \<times> 'w) option" where
  "stream_loop run act i o' evt n s =
     (if is_ready (fst s) i \<and> os_ready (fst s) o' \<and> os_pair (fst s) o' = Some i then
        (case n of
           0 \<Rightarrow> if \<not> os_loop (fst s) o' then None else map_option (\<lambda>st. (st, snd s)) (nxe_link evt (fst s))
         | Suc n \<Rightarrow> Option.bind (run act s) (stream_loop run act i o' evt n))
      else Some s)"

declare stream_loop.simps [simp del]

definition stream_event_deliver :: "classes \<Rightarrow> 'w handler \<Rightarrow> event \<Rightarrow> nxe_events \<times> 'w \<Rightarrow> (nxe_events \<times> 'w) option" where
  "stream_event_deliver cl run evt s =
     (case ev_receiver (fst s) evt of
        Some (To_Ostream o') \<Rightarrow>
          (case os_pair (fst s) o' of None \<Rightarrow> Some s
           | Some i \<Rightarrow>
               if has_do_write cl i then stream_loop run (Do_write i o') i o' evt 50 s
               else if has_do_read cl o' then stream_loop run (Do_read o' i) i o' evt 50 s
               else None)
      | _ \<Rightarrow> None)"

definition message_event_deliver :: "classes \<Rightarrow> 'w handler \<Rightarrow> event \<Rightarrow> nxe_events \<times> 'w \<Rightarrow> (nxe_events \<times> 'w) option" where
  "message_event_deliver cl run evt s =
     (case ev_receiver (fst s) evt of
        Some (To_Sub sub) \<Rightarrow>
          if sub_evt (fst s) sub \<noteq> Some evt then None
          else let s = ((fst s)\<lparr>sub_evt := (sub_evt (fst s))(sub := ev_next_by_receiver (fst s) evt)\<rparr>, snd s)
               in case sub_pub (fst s) sub of None \<Rightarrow> None
                  | Some pub \<Rightarrow> run (if has_do_publish cl pub then Do_publish pub sub (ev_data (fst s) evt) else On_message sub pub (ev_data (fst s) evt)) s
      | _ \<Rightarrow> None)"

definition callback_event_deliver :: "'w handler \<Rightarrow> event \<Rightarrow> nxe_events \<times> 'w \<Rightarrow> (nxe_events \<times> 'w) option" where
  "callback_event_deliver run evt s =
     (case ev_receiver (fst s) evt of Some (To_Callback f) \<Rightarrow> run (Callback f (ev_data (fst s) evt)) s | _ \<Rightarrow> None)"

definition deliver :: "classes \<Rightarrow> 'w handler \<Rightarrow> event \<Rightarrow> nxe_events \<times> 'w \<Rightarrow> (nxe_events \<times> 'w) option" where
  "deliver cl run evt s =
     (case ev_cls (fst s) evt of
        NXE_EV_STREAM \<Rightarrow> stream_event_deliver cl run evt s
      | NXE_EV_MESSAGE \<Rightarrow> message_event_deliver cl run evt s
      | NXE_EV_CALLBACK \<Rightarrow> callback_event_deliver run evt s)"

definition after_deliver :: "'w handler \<Rightarrow> event \<Rightarrow> nxe_events \<times> 'w \<Rightarrow> (nxe_events \<times> 'w) option" where
  "after_deliver run evt s = do {
     s \<leftarrow> (if ev_batch_write_fd (fst s) \<noteq> 0
           then map_option (\<lambda>s. ((fst s)\<lparr>ev_batch_write_fd := 0\<rparr>, snd s)) (run (Batch_write_end (ev_batch_write_fd (fst s))) s)
           else Some s);
     (if ev_cls (fst s) evt = NXE_EV_STREAM then Some s else map_option (\<lambda>st. (st, snd s)) (free_event evt (fst s))) }"

definition process_event :: "classes \<Rightarrow> 'w handler \<Rightarrow> event \<Rightarrow> nxe_events \<times> 'w \<Rightarrow> (nxe_events \<times> 'w) option" where
  "process_event cl run evt s = do {
     let st = (fst s)\<lparr>ev_queue := (ev_queue (fst s))\<lparr>l_first := l_next (ev_queue (fst s)) evt\<rparr>\<rparr>;
     st \<leftarrow> nxe_unlink evt st;
     s \<leftarrow> deliver cl run evt (st, snd s);
     after_deliver run evt s }"

partial_function (option) nxe_process_loop :: "classes \<Rightarrow> 'w handler \<Rightarrow> nxe_events \<times> 'w \<Rightarrow> (nxe_events \<times> 'w) option" where
  "nxe_process_loop cl run s =
     (case l_first (ev_queue (fst s)) of None \<Rightarrow> Some s
      | Some evt \<Rightarrow> Option.bind (process_event cl run evt s) (nxe_process_loop cl run))"

section \<open>The invariant\<close>

text \<open>
  \<open>q\<close> is the list of pending events, \<open>H\<close> the events that are being delivered (taken from the queue, not yet freed) and
  \<open>ss p\<close> the subscribers of \<open>p\<close>.  Every object of the pool that is in use is a pending event or one being delivered;
  a pending message has a subscriber that is subscribed; and the list of events that a subscriber keeps is the list of the pending
  messages to it, in the order of the queue.
\<close>

definition queue_ok :: "event list \<Rightarrow> nxe_events \<Rightarrow> bool" where
  "queue_ok q st \<longleftrightarrow> dlist (ev_queue st) q \<and> (\<forall>e. ev_loop st e \<longleftrightarrow> e \<in> set q)"

definition pooled :: "event list \<Rightarrow> nxp_object set" where
  "pooled q = {obj. Pooled obj \<in> set q}"

definition pool_part :: "nxp_object set \<Rightarrow> event list \<Rightarrow> nxe_events \<Rightarrow> bool" where
  "pool_part H q st \<longleftrightarrow> pool_ok (ev_pool st) \<and> live (ev_pool st) = H \<union> pooled q \<and> H \<inter> pooled q = {}"

definition typed :: "event list \<Rightarrow> nxe_events \<Rightarrow> bool" where
  "typed q st \<longleftrightarrow> (\<forall>i. ev_cls st (Stream i) = NXE_EV_STREAM) \<and> (\<forall>e \<in> set q. case e of
     Stream i \<Rightarrow> \<exists>o'. ev_receiver st e = Some (To_Ostream o')
   | Pooled obj \<Rightarrow> ev_cls st e = NXE_EV_MESSAGE \<and> (\<exists>s. ev_receiver st e = Some (To_Sub s) \<and> sub_pub st s \<noteq> None)
       \<or> ev_cls st e = NXE_EV_CALLBACK \<and> (\<exists>f. ev_receiver st e = Some (To_Callback f)))"

definition mail :: "event list \<Rightarrow> nxe_events \<Rightarrow> nat \<Rightarrow> event list" where
  "mail q st s = filter (\<lambda>e. ev_receiver st e = Some (To_Sub s)) q"

definition mail_ok :: "event list \<Rightarrow> nxe_events \<Rightarrow> bool" where
  "mail_ok q st \<longleftrightarrow> (\<forall>s. sub_evt st s = head_or (mail q st s) None \<and> chain (ev_next_by_receiver st) (mail q st s) None)"

definition subs_ok :: "(nat \<Rightarrow> nat list) \<Rightarrow> nxe_events \<Rightarrow> bool" where
  "subs_ok ss st \<longleftrightarrow> (\<forall>s. sub_pub st s = None \<longrightarrow> sub_next st s = None)
     \<and> (\<forall>p. distinct (ss p) \<and> pub_sub st p = head_or (ss p) None \<and> chain (sub_next st) (ss p) None
          \<and> (\<forall>s. s \<in> set (ss p) \<longleftrightarrow> sub_pub st s = Some p) \<and> (ss p \<noteq> [] \<longrightarrow> pub_loop st p))"

definition ev_inv :: "nxp_object set \<Rightarrow> event list \<Rightarrow> (nat \<Rightarrow> nat list) \<Rightarrow> nxe_events \<Rightarrow> bool" where
  "ev_inv H q ss st \<longleftrightarrow> queue_ok q st \<and> pool_part H q st \<and> typed q st \<and> mail_ok q st \<and> subs_ok ss st"

lemma pooled_simps [simp]: "pooled [] = {}" "pooled (Pooled x # q) = insert x (pooled q)" "pooled (Stream i # q) = pooled q"
    "pooled (xs @ ys) = pooled xs \<union> pooled ys" "obj \<in> pooled q \<longleftrightarrow> Pooled obj \<in> set q"
  by (auto simp: pooled_def)

lemma finite_pooled [simp]: "finite (pooled q)"
proof -
  have "Pooled ` pooled q \<subseteq> set q" by auto
  then have "finite (Pooled ` pooled q)" using finite_subset by blast
  then show ?thesis by (rule finite_imageD) (simp add: inj_on_def)
qed

lemma card_pooled: "card (pooled q) \<le> length q"
proof -
  have "Pooled ` pooled q \<subseteq> set q" by auto
  then have "card (Pooled ` pooled q) \<le> card (set q)" by (rule card_mono [rotated]) simp
  also have "card (Pooled ` pooled q) = card (pooled q)" by (rule card_image) (simp add: inj_on_def)
  finally show ?thesis using card_length [of q] by linarith
qed

lemma typed_mono:
  assumes "typed q st" "set q' \<subseteq> set q" "\<And>e. e \<in> set q' \<Longrightarrow> ev_receiver st' e = ev_receiver st e \<and> ev_cls st' e = ev_cls st e"
    "\<And>i. ev_cls st' (Stream i) = ev_cls st (Stream i)"
    "\<And>e s. e \<in> set q' \<Longrightarrow> ev_receiver st e = Some (To_Sub s) \<Longrightarrow> sub_pub st s \<noteq> None \<Longrightarrow> sub_pub st' s \<noteq> None"
  shows "typed q' st'"
proof -
  have "case e of Stream i \<Rightarrow> \<exists>o'. ev_receiver st' e = Some (To_Ostream o')
     | Pooled obj \<Rightarrow> ev_cls st' e = NXE_EV_MESSAGE \<and> (\<exists>s. ev_receiver st' e = Some (To_Sub s) \<and> sub_pub st' s \<noteq> None)
       \<or> ev_cls st' e = NXE_EV_CALLBACK \<and> (\<exists>f. ev_receiver st' e = Some (To_Callback f))" if e: "e \<in> set q'" for e
  proof -
    have "e \<in> set q" using e assms(2) by blast
    then have t: "case e of Stream i \<Rightarrow> \<exists>o'. ev_receiver st e = Some (To_Ostream o')
     | Pooled obj \<Rightarrow> ev_cls st e = NXE_EV_MESSAGE \<and> (\<exists>s. ev_receiver st e = Some (To_Sub s) \<and> sub_pub st s \<noteq> None)
       \<or> ev_cls st e = NXE_EV_CALLBACK \<and> (\<exists>f. ev_receiver st e = Some (To_Callback f))" using assms(1) unfolding typed_def by blast
    show ?thesis
    proof (cases e)
      case (Pooled obj)
      then show ?thesis using t assms(3) [OF e] assms(5) [OF e] by auto
    next
      case (Stream i)
      then show ?thesis using t assms(3) [OF e] by simp
    qed
  qed
  then show ?thesis using assms(1,4) unfolding typed_def by simp
qed

lemmas ev_inv_defs = ev_inv_def queue_ok_def pool_part_def typed_def mail_ok_def subs_ok_def

section \<open>Allocation\<close>

definition mem_ok :: "(nxp_pool \<Rightarrow> nat option) \<Rightarrow> bool" where
  "mem_ok mem \<longleftrightarrow> (\<forall>P. pool_ok P \<longrightarrow> (\<exists>a. mem P = Some a \<and> a \<notin> chunk_addrs P))"

text \<open>A chunk is added only when every object is in use, so the number of chunks is bounded by the events in use.\<close>

lemma chunks_le_objs: "pool_ok P \<Longrightarrow> length (po_chunks P) \<le> card (pool_objs P)"
proof -
  assume "pool_ok P"
  then have ok: "chunks_ok (po_chunks P)" by (simp add: pool_ok_def)
  have "pc_addr ` set (po_chunks P) \<subseteq> fst ` pool_objs P"
  proof
    fix a assume "a \<in> pc_addr ` set (po_chunks P)"
    then obtain c where c: "c \<in> set (po_chunks P)" "a = pc_addr c" by auto
    then have "(a, 0) \<in> pool_objs P" using ok by (auto simp: pool_objs_def chunks_ok_def)
    then show "a \<in> fst ` pool_objs P" by force
  qed
  moreover have fin: "finite (pool_objs P)" by (simp add: pool_objs_def)
  ultimately have "card (pc_addr ` set (po_chunks P)) \<le> card (pool_objs P)"
    by (meson card_image_le card_mono finite_imageI order_trans)
  also have "card (pc_addr ` set (po_chunks P)) = length (map pc_addr (po_chunks P))"
    using ok distinct_card [of "map pc_addr (po_chunks P)"] by (simp add: chunks_ok_def)
  finally show ?thesis by simp
qed

lemma alloc_succeeds:
  assumes ok: "pool_ok P" and mem: "mem_ok mem" and few: "card (live P) + 1 < 2 ^ 32"
  obtains obj P' where "nxp_alloc (mem P) P = Some (Some obj, P')" "pool_ok P'" "obj \<notin> live P" "live P' = insert obj (live P)"
proof (cases "l_first (po_free P)")
  case (Some x)
  have eq: "nxp_alloc (mem P) P = nxp_alloc None P" by (simp add: nxp_alloc_def Some)
  have nn: "nxp_alloc None P \<noteq> Some (None, P')" for P' by (simp add: nxp_alloc_def Some)
  show ?thesis
  proof (rule event_pool.get_cases [OF ok, of None])
    show "fits_pool None P" by (simp add: fits_pool_def)
  qed (use that nn eq in auto)
next
  case None
  obtain a where a: "mem P = Some a" "a \<notin> chunk_addrs P" using mem ok unfolding mem_ok_def by blast
  have "live P = pool_objs P" using ok None unfolding pool_ok_def by (auto simp: dlist_def live_def)
  then have fit: "fits_pool (Some a) P" using chunks_le_objs [OF ok] few a(2) by (simp add: fits_pool_def)
  have nn: "nxp_alloc (Some a) P \<noteq> Some (None, P')" for P' by (auto simp: nxp_alloc_def None split: option.splits)
  show ?thesis by (rule event_pool.get_cases [OF ok fit]) (use that nn a(1) in auto)
qed

lemma card_live_new:
  assumes "pool_part H q st" "pool_part H (q @ [Pooled obj]) st'" "Pooled obj \<notin> set q" "obj \<notin> H"
  shows "card (live (ev_pool st')) = Suc (card (live (ev_pool st)))"
proof -
  have "finite (live (ev_pool st))" by (simp add: live_def pool_objs_def)
  moreover have "live (ev_pool st') = insert obj (live (ev_pool st))" "obj \<notin> live (ev_pool st)"
    using assms by (auto simp: pool_part_def)
  ultimately show ?thesis by simp
qed

lemma new_event_run:
  assumes inv: "queue_ok q st" "pool_part H q st" "typed q st" and mem: "mem_ok mem" and few: "card (live (ev_pool st)) + 1 < 2 ^ 32"
    and r: "c = NXE_EV_MESSAGE \<and> (\<exists>s. r = To_Sub s \<and> sub_pub st s \<noteq> None) \<or> c = NXE_EV_CALLBACK \<and> (\<exists>f. r = To_Callback f)"
  obtains obj P st' where "new_event mem c r d st = Some (Pooled obj, st')" "Pooled obj \<notin> set q" "obj \<notin> H"
    "queue_ok (q @ [Pooled obj]) st'" "pool_part H (q @ [Pooled obj]) st'" "typed (q @ [Pooled obj]) st'"
    "st' = st\<lparr>ev_pool := P, ev_cls := (ev_cls st)(Pooled obj := c), ev_receiver := (ev_receiver st)(Pooled obj := Some r),
      ev_data := (ev_data st)(Pooled obj := d), ev_next_by_receiver := (ev_next_by_receiver st)(Pooled obj := None),
      ev_loop := (ev_loop st)(Pooled obj := True), ev_queue := link_last (Pooled obj) (ev_queue st)\<rparr>"
proof -
  obtain obj P where o: "nxp_alloc (mem (ev_pool st)) (ev_pool st) = Some (Some obj, P)" "pool_ok P" "obj \<notin> live (ev_pool st)"
    "live P = insert obj (live (ev_pool st))"
    using alloc_succeeds [OF _ mem few] inv(2) by (auto simp: pool_part_def)
  have new: "Pooled obj \<notin> set q" "obj \<notin> H" using o(3) inv(2) by (auto simp: pool_part_def)
  define st' where "st' = st\<lparr>ev_pool := P, ev_cls := (ev_cls st)(Pooled obj := c), ev_receiver := (ev_receiver st)(Pooled obj := Some r),
      ev_data := (ev_data st)(Pooled obj := d), ev_next_by_receiver := (ev_next_by_receiver st)(Pooled obj := None),
      ev_loop := (ev_loop st)(Pooled obj := True), ev_queue := link_last (Pooled obj) (ev_queue st)\<rparr>"
  have "new_event mem c r d st = Some (Pooled obj, st')" by (simp add: new_event_def o(1) nxe_link_def st'_def Let_def)
  moreover have "queue_ok (q @ [Pooled obj]) st'" using inv(1) new dlist_last by (auto simp: queue_ok_def st'_def)
  moreover have "pool_part H (q @ [Pooled obj]) st'" using inv(2) o new by (auto simp: pool_part_def st'_def)
  moreover have "typed (q @ [Pooled obj]) st'"
  proof -
    have "case e of Stream i \<Rightarrow> \<exists>o'. ev_receiver st' e = Some (To_Ostream o')
      | Pooled obj \<Rightarrow> ev_cls st' e = NXE_EV_MESSAGE \<and> (\<exists>s. ev_receiver st' e = Some (To_Sub s) \<and> sub_pub st' s \<noteq> None)
         \<or> ev_cls st' e = NXE_EV_CALLBACK \<and> (\<exists>f. ev_receiver st' e = Some (To_Callback f))" if "e \<in> set (q @ [Pooled obj])" for e
    proof (cases "e = Pooled obj")
      case True
      with r show ?thesis by (auto simp: st'_def)
    next
      case False
      then have "e \<in> set q" using that by simp
      with inv(3) False show ?thesis by (auto simp: typed_def st'_def split: event.splits)
    qed
    moreover have "ev_cls st' (Stream i) = NXE_EV_STREAM" for i using inv(3) by (simp add: typed_def st'_def)
    ultimately show ?thesis unfolding typed_def by blast
  qed
  ultimately show ?thesis using new that st'_def by blast
qed

section \<open>Publishing\<close>

lemma last_by_receiver_run: "chain f (e # es) None \<Longrightarrow> last_by_receiver f e = Some (last (e # es))"
proof (induction es arbitrary: e)
  case Nil
  then show ?case by (subst last_by_receiver.simps) simp
next
  case (Cons x es)
  then show ?case by (subst last_by_receiver.simps) simp
qed

text \<open>What publishing changes of the fields that belong to the subscribers.\<close>

definition same_subs :: "nxe_events \<Rightarrow> nxe_events \<Rightarrow> bool" where
  "same_subs st st' \<longleftrightarrow> sub_pub st' = sub_pub st \<and> sub_next st' = sub_next st \<and> pub_sub st' = pub_sub st \<and> pub_loop st' = pub_loop st"

definition same_cls :: "nxp_object set \<Rightarrow> nxe_events \<Rightarrow> nxe_events \<Rightarrow> bool" where
  "same_cls H st st' \<longleftrightarrow> (\<forall>obj \<in> H. ev_cls st' (Pooled obj) = ev_cls st (Pooled obj)) \<and> os_pair st' = os_pair st \<and> os_loop st' = os_loop st
     \<and> (\<forall>i. ev_receiver st' (Stream i) = ev_receiver st (Stream i)) \<and> ev_batch_write_fd st' = ev_batch_write_fd st"

lemma subs_ok_same: "same_subs st st' \<Longrightarrow> subs_ok ss st' = subs_ok ss st"
  by (simp add: same_subs_def subs_ok_def)

lemma publish_to_run:
  assumes inv: "ev_inv H q ss st" and mem: "mem_ok mem" and few: "card (live (ev_pool st)) + 1 < 2 ^ 32" and sub: "sub_pub st s \<noteq> None"
  obtains obj st' where "publish_to mem d s st = Some st'" "ev_inv H (q @ [Pooled obj]) ss st'" "same_subs st st'" "Pooled obj \<notin> set q"
    "ev_receiver st' = (ev_receiver st)(Pooled obj := Some (To_Sub s))" "ev_data st' = (ev_data st)(Pooled obj := d)" "same_cls H st st'" "obj \<notin> H"
proof -
  have parts: "queue_ok q st" "pool_part H q st" "typed q st" "mail_ok q st" "subs_ok ss st" using inv by (simp_all add: ev_inv_def)
  obtain obj P st1 where ev: "new_event mem NXE_EV_MESSAGE (To_Sub s) d st = Some (Pooled obj, st1)" "Pooled obj \<notin> set q" "obj \<notin> H"
    and ok1: "queue_ok (q @ [Pooled obj]) st1" "pool_part H (q @ [Pooled obj]) st1" "typed (q @ [Pooled obj]) st1"
    and st1: "st1 = st\<lparr>ev_pool := P, ev_cls := (ev_cls st)(Pooled obj := NXE_EV_MESSAGE), ev_receiver := (ev_receiver st)(Pooled obj := Some (To_Sub s)),
      ev_data := (ev_data st)(Pooled obj := d), ev_next_by_receiver := (ev_next_by_receiver st)(Pooled obj := None),
      ev_loop := (ev_loop st)(Pooled obj := True), ev_queue := link_last (Pooled obj) (ev_queue st)\<rparr>"
    by (rule new_event_run [OF parts(1-3) mem few, of NXE_EV_MESSAGE "To_Sub s" d]) (use sub in auto)
  let ?e = "Pooled obj"
  define st' where "st' = (case mail q st s of [] \<Rightarrow> st1\<lparr>sub_evt := (sub_evt st1)(s := Some ?e)\<rparr>
      | es \<Rightarrow> st1\<lparr>ev_next_by_receiver := (ev_next_by_receiver st1)(last es := Some ?e)\<rparr>)"
  have es: "sub_evt st s = head_or (mail q st s) None" "chain (ev_next_by_receiver st) (mail q st s) None" for s
    using parts(4) by (simp_all add: mail_ok_def)
  have new: "?e \<notin> set (mail q st u)" for u using ev(2) by (simp add: mail_def)
  have "publish_to mem d s st = Some st'"
  proof (cases "mail q st s")
    case Nil
    then show ?thesis using es(1) [of s] by (simp add: publish_to_def ev(1) st'_def st1)
  next
    case (Cons x xs)
    have c: "chain (ev_next_by_receiver st1) (x # xs) None" using es(2) [of s] new [of s] unfolding Cons by (simp add: st1 chain_upd del: chain.simps)
    have "sub_evt st1 s = Some x" using es(1) [of s] by (simp add: st1 Cons)
    then show ?thesis using last_by_receiver_run [OF c] by (simp add: publish_to_def ev(1) st'_def Cons)
  qed
  moreover have rest: "ev_queue st' = ev_queue st1" "ev_loop st' = ev_loop st1" "ev_pool st' = ev_pool st1" "ev_cls st' = ev_cls st1" "ev_receiver st' = ev_receiver st1"
      "ev_data st' = ev_data st1" "sub_pub st' = sub_pub st1"
    by (simp_all add: st'_def split: list.split)
  moreover have sm: "same_subs st st'" by (simp add: same_subs_def st'_def st1 split: list.split)
  moreover have "mail_ok (q @ [?e]) st'"
  proof -
    have m: "mail (q @ [?e]) st' u = (if u = s then mail q st u @ [?e] else mail q st u)" for u
      using ev(2) by (auto simp: mail_def rest(5) st1 intro!: filter_cong)
    have nx: "ev_next_by_receiver st' e = (if e = ?e then None else if mail q st s \<noteq> [] \<and> e = last (mail q st s) then Some ?e else ev_next_by_receiver st e)" for e
      using new [of s] by (auto simp: st'_def st1 split: list.split)
    have dq: "distinct (mail q st u)" for u using parts(1) by (auto simp: queue_ok_def mail_def dest: dlist_distinct)
    have "sub_evt st' u = head_or (mail (q @ [?e]) st' u) None \<and> chain (ev_next_by_receiver st') (mail (q @ [?e]) st' u) None" for u
    proof (cases "u = s")
      case True
      show ?thesis
      proof (cases "mail q st s" rule: rev_cases)
        case Nil
        then have "sub_evt st' s = Some ?e" by (simp add: st'_def)
        with Nil show ?thesis using nx by (simp add: m True)
      next
        case (snoc xs x)
        have "chain (ev_next_by_receiver st') (xs @ [x, ?e]) None"
        proof -
          have "chain (ev_next_by_receiver st') xs (Some x) = chain (ev_next_by_receiver st) xs (Some x)"
            by (rule chain_cong) (use nx new [of s] dq [of s] snoc in auto)
          then show ?thesis using es(2) [of s] nx new [of s] by (auto simp: snoc)
        qed
        moreover have "sub_evt st' s = sub_evt st s" by (simp add: st'_def st1 snoc split: list.split)
        ultimately show ?thesis using es(1) [of s] by (cases xs) (simp_all add: m True snoc)
      qed
    next
      case False
      have "last (mail q st s) \<notin> set (mail q st u)" if "mail q st s \<noteq> []"
      proof -
        have "last (mail q st s) \<in> set (mail q st s)" using that by simp
        then show ?thesis using False by (auto simp: mail_def)
      qed
      then have "chain (ev_next_by_receiver st') (mail q st u) None = chain (ev_next_by_receiver st) (mail q st u) None"
        by (intro chain_cong) (use nx new [of u] in auto)
      moreover have "sub_evt st' u = sub_evt st u" using False by (simp add: st'_def st1 split: list.split)
      ultimately show ?thesis using es [of u] False by (simp add: m)
    qed
    then show ?thesis by (simp add: mail_ok_def)
  qed
  moreover have "queue_ok (q @ [?e]) st'" using ok1(1) by (simp add: queue_ok_def rest)
  moreover have "pool_part H (q @ [?e]) st'" using ok1(2) by (simp add: pool_part_def rest)
  moreover have "typed (q @ [?e]) st'" using ok1(3) unfolding typed_def rest by simp
  moreover have "same_cls H st st'" using ev(3) by (auto simp: same_cls_def st'_def st1 split: list.split)
  ultimately show ?thesis using that [of st' obj] parts(5) subs_ok_same [OF sm] ev(2,3) by (simp add: ev_inv_def st1)
qed

text \<open>The pending events keep what they carry.\<close>

definition same_events :: "event list \<Rightarrow> nxe_events \<Rightarrow> nxe_events \<Rightarrow> bool" where
  "same_events q st st' \<longleftrightarrow> (\<forall>e \<in> set q. ev_receiver st' e = ev_receiver st e \<and> ev_data st' e = ev_data st e)"

lemma publish_loop_run:
  assumes "ev_inv H q ss st" "mem_ok mem" "card (live (ev_pool st)) + length xs + 1 < 2 ^ 32"
    "chain (sub_next st) xs None" "\<forall>s \<in> set xs. sub_pub st s \<noteq> None"
  shows "\<exists>st' evs. publish_loop mem d (head_or xs None) st = Some st' \<and> ev_inv H (q @ evs) ss st' \<and> same_subs st st' \<and> same_events q st st'
    \<and> map (ev_receiver st') evs = map (\<lambda>s. Some (To_Sub s)) xs \<and> (\<forall>e \<in> set evs. ev_data st' e = d) \<and> same_cls H st st'"
  using assms
proof (induction xs arbitrary: q st)
  case Nil
  have "publish_loop mem d None st = Some st" by (subst publish_loop.simps) simp
  with Nil.prems(1) show ?case by (intro exI [of _ st] exI [of _ "[]"]) (simp add: same_subs_def same_events_def same_cls_def)
next
  case (Cons s xs)
  obtain obj st1 where st1: "publish_to mem d s st = Some st1" "ev_inv H (q @ [Pooled obj]) ss st1" "same_subs st st1" "Pooled obj \<notin> set q"
    "ev_receiver st1 = (ev_receiver st)(Pooled obj := Some (To_Sub s))" "ev_data st1 = (ev_data st)(Pooled obj := d)" "same_cls H st st1" "obj \<notin> H"
    by (rule publish_to_run [OF Cons.prems(1,2), of s d]) (use Cons.prems(3,5) in auto)
  have card: "card (live (ev_pool st1)) = Suc (card (live (ev_pool st)))"
    by (rule card_live_new [of H q]) (use Cons.prems(1) st1(2,4,8) in \<open>auto simp: ev_inv_def\<close>)
  have nx: "sub_next st1 s = head_or xs None" using Cons.prems(4) st1(3) by (simp add: same_subs_def)
  obtain st' evs where st': "publish_loop mem d (head_or xs None) st1 = Some st'" "ev_inv H ((q @ [Pooled obj]) @ evs) ss st'" "same_subs st1 st'"
    "same_events (q @ [Pooled obj]) st1 st'" "map (ev_receiver st') evs = map (\<lambda>s. Some (To_Sub s)) xs" "\<forall>e \<in> set evs. ev_data st' e = d" "same_cls H st1 st'"
    using Cons.IH [OF st1(2) Cons.prems(2)] Cons.prems(3-5) st1(3) card by (auto simp: same_subs_def)
  have "publish_loop mem d (head_or (s # xs) None) st = Some st'"
    by (subst publish_loop.simps) (simp add: st1(1) nx st'(1))
  moreover have "same_subs st st'" using st1(3) st'(3) by (simp add: same_subs_def)
  moreover have "same_events q st st'" using st'(4) st1(4-6) by (auto simp: same_events_def)
  moreover have "same_cls H st st'" using st1(7) st'(7) by (simp add: same_cls_def)
  moreover have "map (ev_receiver st') (Pooled obj # evs) = map (\<lambda>s. Some (To_Sub s)) (s # xs)" "\<forall>e \<in> set (Pooled obj # evs). ev_data st' e = d"
    using st'(4-6) st1(5,6) by (auto simp: same_events_def)
  ultimately show ?case using st'(2) by (intro exI [of _ st'] exI [of _ "Pooled obj # evs"]) simp
qed

lemma nxe_publish_run:
  assumes inv: "ev_inv H q ss st" and mem: "mem_ok mem" and few: "card (live (ev_pool st)) + length (ss p) + 1 < 2 ^ 32"
  shows "\<exists>st' evs. nxe_publish mem p d st = Some st' \<and> ev_inv H (q @ evs) ss st' \<and> same_subs st st' \<and> same_events q st st'
    \<and> map (ev_receiver st') evs = map (\<lambda>s. Some (To_Sub s)) (ss p) \<and> (\<forall>e \<in> set evs. ev_data st' e = d) \<and> same_cls H st st'"
proof -
  have sub: "pub_sub st p = head_or (ss p) None" "chain (sub_next st) (ss p) None" "\<forall>s \<in> set (ss p). sub_pub st s \<noteq> None" "ss p \<noteq> [] \<longrightarrow> pub_loop st p"
    using inv by (auto simp: ev_inv_def subs_ok_def)
  show ?thesis
  proof (cases "pub_loop st p")
    case True
    then show ?thesis using publish_loop_run [OF inv mem few sub(2,3), of d] sub(1) by (simp add: nxe_publish_def)
  next
    case False
    then have "ss p = []" using sub(4) by blast
    with False inv show ?thesis by (intro exI [of _ st] exI [of _ "[]"]) (simp add: nxe_publish_def same_subs_def same_events_def same_cls_def)
  qed
qed

lemma schedule_callback_run:
  assumes inv: "ev_inv H q ss st" and mem: "mem_ok mem" and few: "card (live (ev_pool st)) + 1 < 2 ^ 32"
  shows "\<exists>st' obj. nxe_schedule_callback mem f d st = Some st' \<and> ev_inv H (q @ [Pooled obj]) ss st' \<and> same_subs st st' \<and> same_events q st st'
    \<and> ev_receiver st' (Pooled obj) = Some (To_Callback f) \<and> ev_data st' (Pooled obj) = d \<and> same_cls H st st'"
proof -
  have parts: "queue_ok q st" "pool_part H q st" "typed q st" "mail_ok q st" "subs_ok ss st" using inv by (simp_all add: ev_inv_def)
  obtain obj P st1 where ev: "new_event mem NXE_EV_CALLBACK (To_Callback f) d st = Some (Pooled obj, st1)" "Pooled obj \<notin> set q" "obj \<notin> H"
    and ok1: "queue_ok (q @ [Pooled obj]) st1" "pool_part H (q @ [Pooled obj]) st1" "typed (q @ [Pooled obj]) st1"
    and st1: "st1 = st\<lparr>ev_pool := P, ev_cls := (ev_cls st)(Pooled obj := NXE_EV_CALLBACK), ev_receiver := (ev_receiver st)(Pooled obj := Some (To_Callback f)),
      ev_data := (ev_data st)(Pooled obj := d), ev_next_by_receiver := (ev_next_by_receiver st)(Pooled obj := None),
      ev_loop := (ev_loop st)(Pooled obj := True), ev_queue := link_last (Pooled obj) (ev_queue st)\<rparr>"
    by (rule new_event_run [OF parts(1-3) mem few, of NXE_EV_CALLBACK "To_Callback f" d]) auto
  have m: "mail (q @ [Pooled obj]) st1 u = mail q st u" for u
    using ev(2) by (auto simp: mail_def st1 intro!: filter_cong)
  have "chain (ev_next_by_receiver st1) (mail q st u) None = chain (ev_next_by_receiver st) (mail q st u) None" for u
    by (rule chain_cong) (use ev(2) in \<open>auto simp: st1 mail_def\<close>)
  then have "mail_ok (q @ [Pooled obj]) st1" using parts(4) unfolding mail_ok_def m by (simp add: st1)
  moreover have sm: "same_subs st st1" by (simp add: same_subs_def st1)
  moreover have "same_events q st st1" using ev(2) by (auto simp: same_events_def st1)
  moreover have "same_cls H st st1" using ev(3) by (auto simp: same_cls_def st1)
  ultimately show ?thesis using ok1 parts(5) subs_ok_same [OF sm] ev(1)
    by (intro exI [of _ st1] exI [of _ obj]) (simp add: nxe_schedule_callback_def ev_inv_def st1)
qed

section \<open>Subscribing and unsubscribing\<close>

lemma subscribe_run:
  assumes inv: "ev_inv H q ss st" and s: "sub_pub st s = None"
  shows "\<exists>st'. nxe_subscribe p s st = Some st' \<and> ev_inv H q (ss(p := s # ss p)) st' \<and> sub_pub st' = (sub_pub st)(s := Some p) \<and> same_events q st st'"
proof -
  have subs: "subs_ok ss st" using inv by (simp add: ev_inv_def)
  have nx: "sub_next st s = None" using subs s by (simp add: subs_ok_def)
  have sp: "s \<notin> set (ss r)" for r using subs s by (simp add: subs_ok_def)
  define st' where "st' = st\<lparr>pub_loop := (pub_loop st)(p := True), sub_loop := (sub_loop st)(s := True),
        sub_pub := (sub_pub st)(s := Some p), sub_next := (sub_next st)(s := pub_sub st p), pub_sub := (pub_sub st)(p := Some s)\<rparr>"
  have "nxe_subscribe p s st = Some st'" using s nx by (simp add: nxe_subscribe_def st'_def)
  moreover have "subs_ok (ss(p := s # ss p)) st'" using subs sp by (simp add: subs_ok_def st'_def)
  moreover have "typed q st'"
  proof (rule typed_mono)
    show "typed q st" using inv by (simp add: ev_inv_def)
  qed (simp_all add: st'_def)
  moreover have "mail q st' = mail q st" by (simp add: mail_def st'_def fun_eq_iff)
  ultimately show ?thesis using inv
    by (intro exI [of _ st']) (simp add: ev_inv_def queue_ok_def pool_part_def mail_ok_def same_events_def st'_def)
qed

lemma find_before_run:
  "distinct (xs @ x # s # ys) \<Longrightarrow> chain f (xs @ x # s # ys) None \<Longrightarrow> find_before f s (head_or (xs @ x # s # ys) None) = Some (Some x)"
proof (induction xs)
  case Nil
  then show ?case by (subst find_before.simps) simp
next
  case (Cons y xs)
  have "f y \<noteq> Some s" using Cons.prems by (cases xs) auto
  then show ?case using Cons by (subst find_before.simps) auto
qed

lemma take_off_run:
  assumes subs: "subs_ok ss st" and s: "sub_pub st s = Some p"
  shows "\<exists>ps nx. take_off p s st = Some (st\<lparr>pub_sub := ps, sub_pub := (sub_pub st)(s := None), sub_next := nx\<rparr>)
    \<and> subs_ok (ss(p := remove1 s (ss p))) (st\<lparr>pub_sub := ps, sub_pub := (sub_pub st)(s := None), sub_next := nx\<rparr>)"
proof -
  have p: "distinct (ss r)" "pub_sub st r = head_or (ss r) None" "chain (sub_next st) (ss r) None" "u \<in> set (ss r) \<longleftrightarrow> sub_pub st u = Some r"
    "ss r \<noteq> [] \<longrightarrow> pub_loop st r" "sub_pub st u = None \<longrightarrow> sub_next st u = None" for r u
    using subs by (simp_all add: subs_ok_def)
  have other: "u \<notin> set (ss r)" if "u \<in> set (ss p)" "r \<noteq> p" for u r using that p(4) by simp
  obtain as bs where ss: "ss p = as @ s # bs" using p(4) [of s p] s by (auto dest: split_list)
  have rm: "remove1 s (ss p) = as @ bs" using p(1) [of p] by (simp add: ss remove1_append)
  have mem: "u \<in> set (as @ bs) \<longleftrightarrow> u \<noteq> s \<and> sub_pub st u = Some p" for u using p(1) [of p] p(4) [of u p] by (auto simp: ss)
  have notin: "u \<notin> set (ss r)" if "r \<noteq> p" "u \<in> set (as @ s # bs)" for u r using other [of u r] that by (simp add: ss)
  show ?thesis
  proof (cases as rule: rev_cases)
    case Nil
    let ?st = "st\<lparr>pub_sub := (pub_sub st)(p := sub_next st s), sub_pub := (sub_pub st)(s := None), sub_next := (sub_next st)(s := None)\<rparr>"
    have "take_off p s st = Some ?st" using p(2) [of p] by (simp add: take_off_def ss Nil)
    moreover have "subs_ok (ss(p := remove1 s (ss p))) ?st"
      unfolding subs_ok_def rm
    proof (intro conjI allI)
      fix r show "chain (sub_next ?st) ((ss(p := as @ bs)) r) None"
        using p(1) [of p] p(3) [of r] notin [of r s] by (cases "r = p") (auto simp: ss Nil)
      show "pub_sub ?st r = head_or ((ss(p := as @ bs)) r) None" using p(2) [of r] p(3) [of p] by (auto simp: ss Nil)
      show "distinct ((ss(p := as @ bs)) r)" using p(1) [of r] p(1) [of p] by (auto simp: ss)
      show "(ss(p := as @ bs)) r \<noteq> [] \<longrightarrow> pub_loop ?st r" using p(5) [of r] by (auto simp: ss)
      fix u show "u \<in> set ((ss(p := as @ bs)) r) \<longleftrightarrow> sub_pub ?st u = Some r"
        using mem [of u] p(4) [of u r] notin [of r s] by (cases "r = p") auto
      show "sub_pub ?st r = None \<longrightarrow> sub_next ?st r = None" using p(6) [of r] by simp
    qed
    ultimately show ?thesis by blast
  next
    case (snoc cs x)
    let ?st = "st\<lparr>sub_pub := (sub_pub st)(s := None), sub_next := (sub_next st)(x := sub_next st s, s := None)\<rparr>"
    have fb: "find_before (sub_next st) s (pub_sub st p) = Some (Some x)"
      using find_before_run [of cs x s bs "sub_next st"] p(1,3) [of p] by (simp add: p(2) ss snoc)
    have "pub_sub st p \<noteq> Some s" using p(2) [of p] p(1) [of p] by (cases cs) (auto simp: ss snoc)
    then have "take_off p s st = Some ?st" by (simp add: take_off_def fb)
    then have to: "take_off p s st = Some (st\<lparr>pub_sub := pub_sub st, sub_pub := (sub_pub st)(s := None), sub_next := (sub_next st)(x := sub_next st s, s := None)\<rparr>)"
      by simp
    have xp: "x \<in> set (ss p)" "x \<noteq> s" using p(1) [of p] by (auto simp: ss snoc)
    have "subs_ok (ss(p := remove1 s (ss p))) ?st"
      unfolding subs_ok_def rm
    proof (intro conjI allI)
      fix r show "chain (sub_next ?st) ((ss(p := as @ bs)) r) None"
        using p(1) [of p] p(3) [of r] notin [of r s] notin [of r x] by (cases "r = p") (auto simp: ss snoc)
      show "pub_sub ?st r = head_or ((ss(p := as @ bs)) r) None" using p(2) [of r] by (cases cs) (auto simp: ss snoc)
      show "distinct ((ss(p := as @ bs)) r)" using p(1) [of r] p(1) [of p] by (auto simp: ss)
      show "(ss(p := as @ bs)) r \<noteq> [] \<longrightarrow> pub_loop ?st r" using p(5) [of r] by (auto simp: ss)
      fix u show "u \<in> set ((ss(p := as @ bs)) r) \<longleftrightarrow> sub_pub ?st u = Some r"
        using mem [of u] p(4) [of u r] notin [of r s] by (cases "r = p") auto
      show "sub_pub ?st r = None \<longrightarrow> sub_next ?st r = None" using p(6) [of r] p(4) [of x p] xp by auto
    qed
    then show ?thesis using to by (intro exI [of _ "pub_sub st"] exI [of _ "(sub_next st)(x := sub_next st s, s := None)"]) simp
  qed
qed

lemma drop_events_run:
  assumes "queue_ok q st" "pool_part H q st" "chain (ev_next_by_receiver st) es None" "set es \<subseteq> set q" "distinct es" "\<forall>e \<in> set es. \<exists>obj. e = Pooled obj"
  shows "\<exists>Q L P. drop_events (head_or es None) st = Some (st\<lparr>ev_queue := Q, ev_loop := L, ev_pool := P\<rparr>)
    \<and> queue_ok (filter (\<lambda>e. e \<notin> set es) q) (st\<lparr>ev_queue := Q, ev_loop := L, ev_pool := P\<rparr>)
    \<and> pool_part H (filter (\<lambda>e. e \<notin> set es) q) (st\<lparr>ev_queue := Q, ev_loop := L, ev_pool := P\<rparr>)"
  using assms
proof (induction es arbitrary: q st)
  case Nil
  have "drop_events None st = Some st" by (subst drop_events.simps) simp
  with Nil show ?case by (intro exI [of _ "ev_queue st"] exI [of _ "ev_loop st"] exI [of _ "ev_pool st"]) simp
next
  case (Cons e es)
  obtain obj where e: "e = Pooled obj" using Cons.prems(6) by auto
  obtain as bs where q: "q = as @ e # bs" using Cons.prems(4) by (auto dest: split_list)
  have dq: "distinct q" using Cons.prems(1) by (auto simp: queue_ok_def dest: dlist_distinct)
  let ?st1 = "st\<lparr>ev_queue := unlink e (ev_queue st), ev_loop := (ev_loop st)(e := False)\<rparr>"
  have un: "nxe_unlink e st = Some ?st1" using Cons.prems(1) q by (simp add: nxe_unlink_def queue_ok_def)
  have lv: "obj \<in> live (ev_pool st)" using Cons.prems(2) q e by (auto simp: pool_part_def)
  obtain P where P: "nxp_free obj (ev_pool st) = Some P" "pool_ok P" "live P = live (ev_pool st) - {obj}"
    using event_pool.put_ok [of "ev_pool st" obj] Cons.prems(2) lv by (auto simp: pool_part_def)
  let ?st2 = "?st1\<lparr>ev_pool := P\<rparr>"
  have fr: "free_event e ?st1 = Some ?st2" by (simp add: free_event_def e P(1))
  have q2: "queue_ok (as @ bs) ?st2" using Cons.prems(1) dlist_unlink [of "ev_queue st" as e bs] dq by (auto simp: queue_ok_def q)
  have p2: "pool_part H (as @ bs) ?st2" using Cons.prems(2) P dq by (auto simp: pool_part_def q e)
  have "\<exists>Q L P. drop_events (head_or es None) ?st2 = Some (?st2\<lparr>ev_queue := Q, ev_loop := L, ev_pool := P\<rparr>)
    \<and> queue_ok (filter (\<lambda>e. e \<notin> set es) (as @ bs)) (?st2\<lparr>ev_queue := Q, ev_loop := L, ev_pool := P\<rparr>)
    \<and> pool_part H (filter (\<lambda>e. e \<notin> set es) (as @ bs)) (?st2\<lparr>ev_queue := Q, ev_loop := L, ev_pool := P\<rparr>)"
    by (rule Cons.IH [OF q2 p2]) (use Cons.prems(3-6) q in auto)
  moreover have "filter (\<lambda>e. e \<notin> set es) (as @ bs) = filter (\<lambda>x. x \<notin> set (e # es)) q"
  proof -
    have "filter (\<lambda>x. x \<notin> set es) ys = filter (\<lambda>x. x \<notin> set (e # es)) ys" if "e \<notin> set ys" for ys
      by (rule filter_cong) (use that in auto)
    then show ?thesis using dq by (simp add: q)
  qed
  moreover have "drop_events (head_or (e # es) None) st = drop_events (head_or es None) ?st2"
    using Cons.prems(3) un fr by (subst drop_events.simps) (simp add: Let_def)
  ultimately show ?case by simp
qed

lemma unsubscribe_run:
  assumes inv: "ev_inv H q ss st" and s: "sub_pub st s = Some p"
  defines "q' \<equiv> filter (\<lambda>e. ev_receiver st e \<noteq> Some (To_Sub s)) q"
  shows "\<exists>st'. nxe_unsubscribe p s st = Some st' \<and> ev_inv H q' (ss(p := remove1 s (ss p))) st'
    \<and> sub_pub st' = (sub_pub st)(s := None) \<and> ev_receiver st' = ev_receiver st \<and> ev_data st' = ev_data st \<and> ev_cls st' = ev_cls st
    \<and> os_pair st' = os_pair st \<and> os_loop st' = os_loop st \<and> ev_batch_write_fd st' = ev_batch_write_fd st \<and> is_pair st' = is_pair st"
proof -
  have parts: "queue_ok q st" "pool_part H q st" "typed q st" "mail_ok q st" "subs_ok ss st" using inv by (simp_all add: ev_inv_def)
  obtain ps nx where off: "take_off p s st = Some (st\<lparr>pub_sub := ps, sub_pub := (sub_pub st)(s := None), sub_next := nx\<rparr>)"
    "subs_ok (ss(p := remove1 s (ss p))) (st\<lparr>pub_sub := ps, sub_pub := (sub_pub st)(s := None), sub_next := nx\<rparr>)"
    using take_off_run [OF parts(5) s] by blast
  define st1 where "st1 = st\<lparr>pub_sub := ps, sub_pub := (sub_pub st)(s := None), sub_next := nx\<rparr>"
  let ?es = "mail q st s"
  have es: "sub_evt st u = head_or (mail q st u) None" "chain (ev_next_by_receiver st) (mail q st u) None" for u using parts(4) by (simp_all add: mail_ok_def)
  have "\<exists>obj. e = Pooled obj" if "e \<in> set ?es" for e
  proof (cases e)
    case (Stream i)
    then show ?thesis using that parts(3) by (auto simp: mail_def typed_def)
  qed simp
  then have "\<exists>Q L P. drop_events (head_or ?es None) st1 = Some (st1\<lparr>ev_queue := Q, ev_loop := L, ev_pool := P\<rparr>)
    \<and> queue_ok (filter (\<lambda>e. e \<notin> set ?es) q) (st1\<lparr>ev_queue := Q, ev_loop := L, ev_pool := P\<rparr>)
    \<and> pool_part H (filter (\<lambda>e. e \<notin> set ?es) q) (st1\<lparr>ev_queue := Q, ev_loop := L, ev_pool := P\<rparr>)"
    using parts(1,2) es(2) [of s] by (intro drop_events_run) (auto simp: st1_def queue_ok_def pool_part_def mail_def dest: dlist_distinct)
  moreover have fq: "filter (\<lambda>e. e \<notin> set ?es) q = q'" unfolding q'_def by (rule filter_cong) (auto simp: mail_def)
  ultimately obtain Q L P where d: "drop_events (head_or ?es None) st1 = Some (st1\<lparr>ev_queue := Q, ev_loop := L, ev_pool := P\<rparr>)"
    "queue_ok q' (st1\<lparr>ev_queue := Q, ev_loop := L, ev_pool := P\<rparr>)" "pool_part H q' (st1\<lparr>ev_queue := Q, ev_loop := L, ev_pool := P\<rparr>)"
    unfolding fq by blast
  define st' where "st' = st1\<lparr>ev_queue := Q, ev_loop := L, ev_pool := P, sub_evt := (sub_evt st)(s := None)\<rparr>"
  have "nxe_unsubscribe p s st = Some st'"
    using d(1) es(1) [of s] by (simp add: nxe_unsubscribe_def s off(1) st1_def st'_def)
  moreover have "queue_ok q' st'" "pool_part H q' st'" using d(2,3) by (simp_all add: queue_ok_def pool_part_def st'_def)
  moreover have "typed q' st'" by (rule typed_mono [OF parts(3)]) (auto simp: q'_def st'_def st1_def)
  moreover have "subs_ok (ss(p := remove1 s (ss p))) st'" using off(2) by (simp add: subs_ok_def st'_def st1_def)
  moreover have "mail_ok q' st'"
  proof -
    have "mail q' st' u = (if u = s then [] else mail q st u)" for u
      by (auto simp: mail_def q'_def st'_def st1_def intro!: filter_cong)
    then show ?thesis using es by (simp add: mail_ok_def st'_def st1_def)
  qed
  ultimately show ?thesis by (intro exI [of _ st']) (simp add: ev_inv_def st'_def st1_def)
qed

section \<open>Streams\<close>

text \<open>Operations on streams change the queue by at most the stream's own event.\<close>

lemma emit_stream_run:
  assumes inv: "ev_inv H q ss st" and i: "\<not> ev_loop st (Stream i)"
  shows "\<exists>st'. emit_stream i o' st = Some st' \<and> ev_inv H (q @ [Stream i]) ss st' \<and> same_subs st st' \<and> same_events q st st' \<and> ev_cls st' = ev_cls st"
proof -
  have new: "Stream i \<notin> set q" using inv i by (simp add: ev_inv_def queue_ok_def)
  define st' where "st' = st\<lparr>ev_receiver := (ev_receiver st)(Stream i := Some (To_Ostream o')), ev_queue := link_last (Stream i) (ev_queue st), ev_loop := (ev_loop st)(Stream i := True)\<rparr>"
  have "emit_stream i o' st = Some st'" using i by (simp add: emit_stream_def nxe_link_def st'_def)
  moreover have "queue_ok (q @ [Stream i]) st'" using inv new dlist_last by (auto simp: ev_inv_def queue_ok_def st'_def)
  moreover have "pool_part H (q @ [Stream i]) st'" using inv by (simp add: ev_inv_def pool_part_def st'_def)
  moreover have "typed q st'"
  proof (rule typed_mono)
    show "typed q st" using inv by (simp add: ev_inv_def)
  qed (use new in \<open>auto simp: st'_def\<close>)
  then have "typed (q @ [Stream i]) st'" unfolding typed_def by (simp add: st'_def)
  moreover have "mail (q @ [Stream i]) st' = mail q st" using new by (auto simp: mail_def st'_def fun_eq_iff intro!: filter_cong)
  moreover have sm: "same_subs st st'" by (simp add: same_subs_def st'_def)
  moreover have "same_events q st st'" using new by (auto simp: same_events_def st'_def)
  ultimately show ?thesis using inv subs_ok_same [OF sm]
    by (intro exI [of _ st']) (simp add: ev_inv_def mail_ok_def st'_def)
qed

text \<open>The fields of the streams do not matter to the invariant.\<close>

lemma inv_stream_fields:
  "ev_inv H q ss (st\<lparr>is_ready := a\<rparr>) = ev_inv H q ss st" "ev_inv H q ss (st\<lparr>os_ready := a\<rparr>) = ev_inv H q ss st"
  "ev_inv H q ss (st\<lparr>is_pair := b\<rparr>) = ev_inv H q ss st" "ev_inv H q ss (st\<lparr>os_pair := b\<rparr>) = ev_inv H q ss st"
  "ev_inv H q ss (st\<lparr>is_loop := a\<rparr>) = ev_inv H q ss st" "ev_inv H q ss (st\<lparr>os_loop := a\<rparr>) = ev_inv H q ss st"
  "ev_inv H q ss (st\<lparr>ev_batch_write_fd := n\<rparr>) = ev_inv H q ss st"
  by (simp_all add: ev_inv_defs mail_def cong: event.case_cong)

lemma unlink_stream_run:
  assumes inv: "ev_inv H q ss st" and i: "ev_loop st (Stream i)"
  shows "\<exists>st'. nxe_unlink (Stream i) st = Some st' \<and> ev_inv H (remove1 (Stream i) q) ss st' \<and> ev_cls st' = ev_cls st"
proof -
  have parts: "queue_ok q st" "pool_part H q st" "typed q st" "mail_ok q st" "subs_ok ss st" using inv by (simp_all add: ev_inv_def)
  obtain as bs where q: "q = as @ Stream i # bs" using i parts(1) by (auto simp: queue_ok_def dest: split_list)
  have dq: "distinct q" using parts(1) by (auto simp: queue_ok_def dest: dlist_distinct)
  then have rm: "remove1 (Stream i) q = as @ bs" by (simp add: q remove1_append)
  define st' where "st' = st\<lparr>ev_queue := unlink (Stream i) (ev_queue st), ev_loop := (ev_loop st)(Stream i := False)\<rparr>"
  have "nxe_unlink (Stream i) st = Some st'" using i by (simp add: nxe_unlink_def st'_def)
  moreover have "queue_ok (as @ bs) st'" using parts(1) dlist_unlink [of "ev_queue st" as "Stream i" bs] dq by (auto simp: queue_ok_def q st'_def)
  moreover have "pool_part H (as @ bs) st'" using parts(2) by (simp add: pool_part_def q st'_def)
  moreover have "typed (as @ bs) st'" by (rule typed_mono [OF parts(3)]) (auto simp: q st'_def)
  moreover have "ev_receiver st (Stream i) \<noteq> Some (To_Sub s)" for s using parts(3) by (auto simp: typed_def q)
  then have "mail (as @ bs) st' = mail q st" by (simp add: mail_def q st'_def fun_eq_iff)
  then have "mail_ok (as @ bs) st'" using parts(4) by (simp add: mail_ok_def st'_def)
  moreover have "subs_ok ss st'" using parts(5) by (simp add: subs_ok_def st'_def)
  ultimately show ?thesis by (intro exI [of _ st']) (simp add: ev_inv_def rm st'_def)
qed

section \<open>Everything the program does with the loop\<close>

definition subscribers :: "nxe_events \<Rightarrow> nat \<Rightarrow> nat set" where
  "subscribers st p = {s. sub_pub st s = Some p}"

text \<open>
  The calls of the interface.  A program keeps the rules of the header file: it subscribes a free subscriber, connects an
  input stream whose event is not pending, and has fewer than \<open>2 ^ 32\<close> events at a time.
\<close>

inductive api :: "(nxp_pool \<Rightarrow> nat option) \<Rightarrow> nxe_events \<Rightarrow> nxe_events \<Rightarrow> bool" for mem where
  subscribe: "sub_pub st s = None \<Longrightarrow> nxe_subscribe p s st = Some st' \<Longrightarrow> api mem st st'"
| unsubscribe: "nxe_unsubscribe p s st = Some st' \<Longrightarrow> api mem st st'"
| publish: "card (live (ev_pool st)) + card (subscribers st p) + 1 < 2 ^ 32 \<Longrightarrow> nxe_publish mem p d st = Some st' \<Longrightarrow> api mem st st'"
| callback: "card (live (ev_pool st)) + 1 < 2 ^ 32 \<Longrightarrow> nxe_schedule_callback mem f d st = Some st' \<Longrightarrow> api mem st st'"
| connect: "\<not> ev_loop st (Stream i) \<Longrightarrow> nxe_connect_streams i o' st = Some st' \<Longrightarrow> api mem st st'"
| disconnect: "nxe_disconnect_streams i o' st = Some st' \<Longrightarrow> api mem st st'"
| is_ready: "nxe_istream_set_ready i st = Some st' \<Longrightarrow> api mem st st'"
| is_unready: "api mem st (nxe_istream_unset_ready i st)"
| os_ready: "nxe_ostream_set_ready o' st = Some st' \<Longrightarrow> api mem st st'"
| os_unready: "api mem st (nxe_ostream_unset_ready o' st)"
| batch: "api mem st (st\<lparr>ev_batch_write_fd := n\<rparr>)"
| gc: "nxp_gc (ev_pool st) = Some (r, P) \<Longrightarrow> api mem st (st\<lparr>ev_pool := P\<rparr>)"

text \<open>The loop is in order while the events \<open>H\<close> are being delivered.\<close>

definition streams_ok :: "nxe_events \<Rightarrow> bool" where
  "streams_ok st \<longleftrightarrow> (\<forall>o'. os_pair st o' \<noteq> None \<longrightarrow> os_loop st o') \<and> (\<forall>i r. ev_receiver st (Stream i) = Some r \<longrightarrow> (\<exists>o'. r = To_Ostream o'))"

definition loop_ok :: "nxp_object set \<Rightarrow> nxe_events \<Rightarrow> bool" where
  "loop_ok H st \<longleftrightarrow> (\<exists>q ss. ev_inv H q ss st) \<and> streams_ok st"

lemma subscribers_ss: "subs_ok ss st \<Longrightarrow> card (subscribers st p) = length (ss p)"
proof -
  assume "subs_ok ss st"
  then have "distinct (ss p)" "subscribers st p = set (ss p)" by (auto simp: subs_ok_def subscribers_def)
  then show ?thesis by (simp add: distinct_card)
qed

lemma inv_gc:
  assumes inv: "ev_inv H q ss st" and gc: "nxp_gc (ev_pool st) = Some (r, P)"
  shows "ev_inv H q ss (st\<lparr>ev_pool := P\<rparr>)"
proof -
  have "pool_ok P" "live P = live (ev_pool st)" using nxp_gc_ok [of "ev_pool st"] inv gc by (auto simp: ev_inv_def pool_part_def)
  with inv show ?thesis by (simp add: ev_inv_defs mail_def cong: event.case_cong)
qed

lemma emit_ok:
  assumes "ev_inv H q ss st" "\<not> ev_loop st (Stream i)" "emit_stream i o' st = Some st'"
  shows "\<exists>q ss. ev_inv H q ss st'" "ev_cls st' = ev_cls st" "os_pair st' = os_pair st" "os_loop st' = os_loop st"
    "ev_receiver st' = (ev_receiver st)(Stream i := Some (To_Ostream o'))"
  using emit_stream_run [OF assms(1,2), of o'] assms(2,3) by (auto simp: emit_stream_def nxe_link_def)

text \<open>What a call leaves alone: the loop stays in order and the events being delivered keep their class.\<close>

definition keeps :: "nxp_object set \<Rightarrow> nxe_events \<Rightarrow> nxe_events \<Rightarrow> bool" where
  "keeps H st st' \<longleftrightarrow> loop_ok H st' \<and> (\<forall>obj \<in> H. ev_cls st' (Pooled obj) = ev_cls st (Pooled obj))
     \<and> (\<forall>i. ev_receiver st (Stream i) \<noteq> None \<longrightarrow> ev_receiver st' (Stream i) \<noteq> None)"

lemma keepsI: "loop_ok H st \<Longrightarrow> ev_inv H q ss st' \<Longrightarrow> same_cls H st st' \<Longrightarrow> keeps H st st'"
  by (auto simp: keeps_def loop_ok_def same_cls_def streams_ok_def)

lemma keeps_emit:
  assumes inv: "ev_inv H q ss st" and pair: "streams_ok st"
    and emit: "\<not> ev_loop st (Stream i)" "emit_stream i o' st = Some st'"
  shows "keeps H st st'"
  using emit_ok [OF inv emit] pair by (auto simp: keeps_def loop_ok_def streams_ok_def)

lemma keeps_from: "keeps H st1 st' \<Longrightarrow> ev_cls st1 = ev_cls st \<Longrightarrow> ev_receiver st1 = ev_receiver st \<Longrightarrow> keeps H st st'"
  by (simp add: keeps_def)

lemma keeps_self: "ev_inv H q ss st \<Longrightarrow> streams_ok st \<Longrightarrow> keeps H st st"
  by (auto simp: keeps_def loop_ok_def)

lemma set_ready_cases:
  assumes "nxe_istream_set_ready i st = Some st'"
  shows "st' = st \<or> st' = st\<lparr>is_ready := (is_ready st)(i := True)\<rparr>
    \<or> (\<exists>o'. emit_stream i o' (st\<lparr>is_ready := (is_ready st)(i := True)\<rparr>) = Some st' \<and> \<not> ev_loop st (Stream i))"
  using assms unfolding nxe_istream_set_ready_def Let_def
  by (cases "is_ready st i"; cases "is_pair st i") (simp_all split: if_split_asm, blast?)

lemma set_ready_cases_os:
  assumes "nxe_ostream_set_ready o' st = Some st'"
  shows "st' = st\<lparr>os_ready := (os_ready st)(o' := True)\<rparr>
    \<or> (\<exists>i. emit_stream i o' (st\<lparr>os_ready := (os_ready st)(o' := True)\<rparr>) = Some st' \<and> \<not> ev_loop st (Stream i))"
  using assms unfolding nxe_ostream_set_ready_def Let_def
  by (cases "os_pair st o'") (simp_all split: if_split_asm, blast?)

lemma api_ok:
  assumes mem: "mem_ok mem" and step: "api mem st st'" and ok: "loop_ok H st"
  shows "keeps H st st'"
proof -
  obtain q ss where inv: "ev_inv H q ss st" and pair: "streams_ok st" using ok unfolding loop_ok_def by blast
  have subs: "subs_ok ss st" using inv by (simp add: ev_inv_def)
  note here = keepsI [OF ok]
  from step show ?thesis
  proof cases
    case (subscribe s p)
    then obtain q' ss' where "ev_inv H q' ss' st'" using subscribe_run [OF inv, of s p] by auto
    then show ?thesis by (rule here) (use subscribe in \<open>auto simp: same_cls_def nxe_subscribe_def split: if_splits\<close>)
  next
    case (unsubscribe p s)
    then have "sub_pub st s = Some p" by (auto simp: nxe_unsubscribe_def split: if_splits)
    from unsubscribe_run [OF inv this] unsubscribe
    obtain q' ss' where q': "ev_inv H q' ss' st'" "ev_cls st' = ev_cls st" "os_pair st' = os_pair st" "os_loop st' = os_loop st" "ev_receiver st' = ev_receiver st"
      "ev_batch_write_fd st' = ev_batch_write_fd st" by auto
    from q'(1) show ?thesis by (rule here) (use q' in \<open>auto simp: same_cls_def\<close>)
  next
    case (publish p d)
    then show ?thesis using nxe_publish_run [OF inv mem, of p d] subscribers_ss [OF subs, of p] here by auto
  next
    case (callback f d)
    then show ?thesis using schedule_callback_run [OF inv mem, of f d] here by auto
  next
    case (connect i o')
    let ?st = "st\<lparr>is_loop := (is_loop st)(i := True), os_loop := (os_loop st)(o' := True), is_pair := (is_pair st)(i := Some o'), os_pair := (os_pair st)(o' := Some i)\<rparr>"
    have i1: "ev_inv H q ss ?st" using inv by (simp add: inv_stream_fields)
    have p1: "streams_ok ?st" using pair by (simp add: streams_ok_def)
    show ?thesis
    proof (cases "is_ready ?st i \<and> os_ready ?st o'")
      case True
      then have "emit_stream i o' ?st = Some st'" using connect by (simp add: nxe_connect_streams_def Let_def)
      moreover have "\<not> ev_loop ?st (Stream i)" using connect by simp
      ultimately have "keeps H ?st st'" using keeps_emit [OF i1 p1] by blast
      then show ?thesis by (rule keeps_from) simp_all
    next
      case False
      then have "st' = ?st" using connect unfolding nxe_connect_streams_def Let_def by (simp split: if_splits)
      then show ?thesis using keeps_from [OF keeps_self [OF i1 p1]] by simp
    qed
  next
    case (disconnect i o')
    let ?st = "st\<lparr>is_pair := (is_pair st)(i := None), os_pair := (os_pair st)(o' := None)\<rparr>"
    have i1: "ev_inv H q ss ?st" using inv by (simp add: inv_stream_fields)
    have p1: "streams_ok ?st" using pair by (simp add: streams_ok_def)
    show ?thesis
    proof (cases "ev_loop ?st (Stream i)")
      case True
      then have un: "nxe_unlink (Stream i) ?st = Some st'" using disconnect by (simp add: nxe_disconnect_streams_def Let_def)
      then have st': "os_pair st' = os_pair ?st" "os_loop st' = os_loop ?st" "ev_receiver st' = ev_receiver ?st" by (auto simp: nxe_unlink_def split: if_splits)
      obtain q' where "ev_inv H q' ss st'" "ev_cls st' = ev_cls ?st" using unlink_stream_run [OF i1 True] un by auto
      then have "keeps H ?st st'" using st' p1 by (auto simp: keeps_def loop_ok_def streams_ok_def)
      then show ?thesis by (rule keeps_from) simp_all
    next
      case False
      then have "st' = ?st" using disconnect by (simp add: nxe_disconnect_streams_def Let_def)
      then show ?thesis using keeps_from [OF keeps_self [OF i1 p1]] by simp
    qed
  next
    case (is_ready i)
    let ?st = "st\<lparr>is_ready := (is_ready st)(i := True)\<rparr>"
    have i1: "ev_inv H q ss ?st" using inv by (simp add: inv_stream_fields)
    have p1: "streams_ok ?st" using pair by (simp add: streams_ok_def)
    have lp: "ev_loop ?st (Stream i) = ev_loop st (Stream i)" by simp
    consider "st' = st" | "st' = ?st" | o' where "emit_stream i o' ?st = Some st'" "\<not> ev_loop ?st (Stream i)"
      using set_ready_cases [OF is_ready] unfolding lp by blast
    then show ?thesis
    proof cases
      case 1
      then show ?thesis using ok by (simp add: keeps_def)
    next
      case 2
      then show ?thesis using keeps_from [OF keeps_self [OF i1 p1]] by simp
    next
      case 3
      then show ?thesis using keeps_from [OF keeps_emit [OF i1 p1 3(2,1)]] by simp
    qed
  next
    case (is_unready i)
    then show ?thesis using inv pair by (auto simp: keeps_def loop_ok_def streams_ok_def nxe_istream_unset_ready_def inv_stream_fields)
  next
    case (os_ready o')
    let ?st = "st\<lparr>os_ready := (os_ready st)(o' := True)\<rparr>"
    have i1: "ev_inv H q ss ?st" using inv by (simp add: inv_stream_fields)
    have p1: "streams_ok ?st" using pair by (simp add: streams_ok_def)
    have lp: "ev_loop ?st (Stream i) = ev_loop st (Stream i)" for i by simp
    consider "st' = ?st" | i where "emit_stream i o' ?st = Some st'" "\<not> ev_loop ?st (Stream i)"
      using set_ready_cases_os [OF os_ready] unfolding lp by blast
    then show ?thesis
    proof cases
      case 1
      then show ?thesis using keeps_from [OF keeps_self [OF i1 p1]] by simp
    next
      case 2
      then show ?thesis using keeps_from [OF keeps_emit [OF i1 p1 2(2,1)]] by simp
    qed
  next
    case (os_unready o')
    then show ?thesis using inv pair by (auto simp: keeps_def loop_ok_def streams_ok_def nxe_ostream_unset_ready_def inv_stream_fields)
  next
    case (batch n)
    then show ?thesis using inv pair by (auto simp: keeps_def loop_ok_def streams_ok_def inv_stream_fields)
  next
    case (gc r P)
    then show ?thesis using inv_gc [OF inv] pair by (auto simp: keeps_def loop_ok_def streams_ok_def)
  qed
qed

lemma api_steps_ok:
  assumes "mem_ok mem" "(api mem)\<^sup>*\<^sup>* st st'" "loop_ok H st"
  shows "keeps H st st'"
  using assms(2)
proof (induction rule: rtranclp_induct)
  case base
  then show ?case using assms(3) by (simp add: keeps_def)
next
  case (step st1 st2)
  have "keeps H st1 st2" by (rule api_ok [OF assms(1) step.hyps(2)]) (use step.IH in \<open>simp add: keeps_def\<close>)
  with step.IH show ?case by (simp add: keeps_def)
qed

end
