(* ===== verification/Nx_Event_Delivery.thy ===== *)
theory Nx_Event_Delivery
  imports Nx_Event
begin

text \<open>
  Delivery of events: what the loop guarantees to the handlers it calls and what it relies on them for.  The invariant
  of the events is kept while a handler runs, although the event that is being delivered is no longer in the queue.
\<close>

section \<open>Delivery is safe\<close>

text \<open>
  A handler returns, and changes the loop only by calls of its interface.  \<open>quiet\<close>: a stream handler that leaves both
  streams ready has not made the event that is being delivered pending again.
\<close>

definition good_handler :: "(nxp_pool \<Rightarrow> nat option) \<Rightarrow> 'w handler \<Rightarrow> bool" where
  "good_handler mem run \<longleftrightarrow> (\<forall>a H st w. loop_ok H st \<longrightarrow> (\<exists>st' w'. run a (st, w) = Some (st', w') \<and> (api mem)\<^sup>*\<^sup>* st st'))"

definition quiet :: "'w handler \<Rightarrow> event \<Rightarrow> bool" where
  "quiet run evt \<longleftrightarrow> (\<forall>a i o' st w st' w'. a \<in> {Do_write i o', Do_read o' i} \<longrightarrow> run a (st, w) = Some (st', w') \<longrightarrow> \<not> ev_loop st evt
     \<longrightarrow> is_ready st' i \<and> os_ready st' o' \<and> os_pair st' o' = Some i \<longrightarrow> \<not> ev_loop st' evt)"

lemma run_keeps:
  assumes "mem_ok mem" "good_handler mem run" "loop_ok H st"
  obtains st' w' where "run a (st, w) = Some (st', w')" "keeps H st st'"
  using assms api_steps_ok [OF assms(1) _ assms(3)] unfolding good_handler_def by blast

lemma keeps_ok: "keeps H st st' \<Longrightarrow> loop_ok H st'"
  by (simp add: keeps_def)

lemma unlink_first: "l_prev L p = None \<Longrightarrow> unlink p (L\<lparr>l_first := l_next L p\<rparr>) = unlink p L"
  by (simp add: unlink_def cut_out_def Let_def set_next_def set_prev_def split: option.split)

lemma relink_ok:
  assumes ok: "loop_ok H st" and i: "\<not> ev_loop st (Stream i)" "ev_receiver st (Stream i) \<noteq> None"
  shows "\<exists>st'. nxe_link (Stream i) st = Some st' \<and> loop_ok H st'"
proof -
  obtain q ss where inv: "ev_inv H q ss st" and sok: "streams_ok st" using ok unfolding loop_ok_def by blast
  obtain o' where o': "ev_receiver st (Stream i) = Some (To_Ostream o')" using sok i(2) unfolding streams_ok_def by blast
  have same: "st\<lparr>ev_receiver := (ev_receiver st)(Stream i := Some (To_Ostream o'))\<rparr> = st" using o' by (simp add: fun_upd_idem)
  obtain st' where "emit_stream i o' st = Some st'" using emit_stream_run [OF inv i(1)] by blast
  moreover from keeps_emit [OF inv sok i(1) this] have "loop_ok H st'" by (rule keeps_ok)
  ultimately show ?thesis by (simp add: emit_stream_def same)
qed

lemma stream_loop_ok:
  assumes mem: "mem_ok mem" and good: "good_handler mem run" and q: "quiet run (Stream j)" "a \<in> {Do_write i o', Do_read o' i}"
  shows "loop_ok H st \<Longrightarrow> \<not> ev_loop st (Stream j) \<or> \<not> (is_ready st i \<and> os_ready st o' \<and> os_pair st o' = Some i) \<Longrightarrow> ev_receiver st (Stream j) \<noteq> None
    \<Longrightarrow> \<exists>s'. stream_loop run a i o' (Stream j) n (st, w) = Some s' \<and> loop_ok H (fst s')"
proof (induction n arbitrary: st w)
  case 0
  show ?case
  proof (cases "is_ready st i \<and> os_ready st o' \<and> os_pair st o' = Some i")
    case True
    then have "os_loop st o'" using 0(1) by (auto simp: loop_ok_def streams_ok_def)
    then show ?thesis using True relink_ok [of H st j] 0 by (subst stream_loop.simps) auto
  next
    case False
    then show ?thesis using 0(1) by (subst stream_loop.simps) auto
  qed
next
  case (Suc n)
  show ?case
  proof (cases "is_ready st i \<and> os_ready st o' \<and> os_pair st o' = Some i")
    case True
    obtain st' w' where r: "run a (st, w) = Some (st', w')" "keeps H st st'" by (rule run_keeps [OF mem good Suc.prems(1)])
    have "\<not> ev_loop st' (Stream j) \<or> \<not> (is_ready st' i \<and> os_ready st' o' \<and> os_pair st' o' = Some i)"
      using q r(1) Suc.prems(2) True unfolding quiet_def by blast
    moreover have "ev_receiver st' (Stream j) \<noteq> None" using r(2) Suc.prems(3) by (simp add: keeps_def)
    ultimately show ?thesis using Suc.IH [OF keeps_ok [OF r(2)], of w'] True r(1) by (subst stream_loop.simps) simp
  next
    case False
    then show ?thesis using Suc.prems(1) by (subst stream_loop.simps) auto
  qed
qed

text \<open>The event that is taken from the queue.\<close>

lemma take_event:
  assumes inv: "ev_inv {} (evt # q) ss st"
  obtains st1 where "nxe_unlink evt (st\<lparr>ev_queue := (ev_queue st)\<lparr>l_first := l_next (ev_queue st) evt\<rparr>\<rparr>) = Some st1"
    "st1 = st\<lparr>ev_queue := unlink evt (ev_queue st), ev_loop := (ev_loop st)(evt := False)\<rparr>" "queue_ok q st1" "evt \<notin> set q"
proof -
  let ?st1 = "st\<lparr>ev_queue := unlink evt (ev_queue st), ev_loop := (ev_loop st)(evt := False)\<rparr>"
  have d: "dlist (ev_queue st) (evt # q)" "\<And>e. ev_loop st e \<longleftrightarrow> e \<in> set (evt # q)" using inv by (simp_all add: ev_inv_def queue_ok_def)
  have "l_prev (ev_queue st) evt = None" using d(1) by (simp add: dlist_def)
  from unlink_first [OF this] have "nxe_unlink evt (st\<lparr>ev_queue := (ev_queue st)\<lparr>l_first := l_next (ev_queue st) evt\<rparr>\<rparr>) = Some ?st1"
    using d(2) by (simp add: nxe_unlink_def)
  moreover have "evt \<notin> set q" using dlist_distinct [OF d(1)] by simp
  moreover have "queue_ok q ?st1" using dlist_unlink [of "ev_queue st" "[]" evt q] d calculation(2) by (auto simp: queue_ok_def)
  ultimately show ?thesis using that by blast
qed

lemma held_callback:
  assumes inv: "ev_inv {} (Pooled obj # q) ss st" and cb: "ev_receiver st (Pooled obj) = Some (To_Callback f)"
    and st1: "st1 = st\<lparr>ev_queue := unlink (Pooled obj) (ev_queue st), ev_loop := (ev_loop st)(Pooled obj := False)\<rparr>" "queue_ok q st1" "Pooled obj \<notin> set q"
  shows "ev_inv {obj} q ss st1"
proof -
  have parts: "pool_part {} (Pooled obj # q) st" "typed (Pooled obj # q) st" "mail_ok (Pooled obj # q) st" "subs_ok ss st" using inv by (simp_all add: ev_inv_def)
  have "mail q st1 = mail (Pooled obj # q) st" using cb by (simp add: mail_def st1(1) fun_eq_iff)
  then have "mail_ok q st1" using parts(3) by (simp add: mail_ok_def st1(1))
  moreover have "typed q st1" by (rule typed_mono [OF parts(2)]) (auto simp: st1(1))
  moreover have "pool_part {obj} q st1" using parts(1) st1(3) by (auto simp: pool_part_def st1(1))
  moreover have "subs_ok ss st1" using parts(4) by (simp add: subs_ok_def st1(1))
  ultimately show ?thesis using st1(2) by (simp add: ev_inv_def)
qed

lemma held_message:
  assumes inv: "ev_inv {} (Pooled obj # q) ss st" and ms: "ev_receiver st (Pooled obj) = Some (To_Sub s)"
    and st1: "st1 = st\<lparr>ev_queue := unlink (Pooled obj) (ev_queue st), ev_loop := (ev_loop st)(Pooled obj := False)\<rparr>" "queue_ok q st1" "Pooled obj \<notin> set q"
  shows "sub_evt st1 s = Some (Pooled obj)" "ev_inv {obj} q ss (st1\<lparr>sub_evt := (sub_evt st1)(s := ev_next_by_receiver st1 (Pooled obj))\<rparr>)"
proof -
  let ?st = "st1\<lparr>sub_evt := (sub_evt st1)(s := ev_next_by_receiver st1 (Pooled obj))\<rparr>"
  have parts: "pool_part {} (Pooled obj # q) st" "typed (Pooled obj # q) st" "mail_ok (Pooled obj # q) st" "subs_ok ss st" using inv by (simp_all add: ev_inv_def)
  have m: "mail (Pooled obj # q) st u = (if u = s then Pooled obj # mail q ?st u else mail q ?st u)" for u
    using ms by (auto simp: mail_def st1(1))
  have mk: "sub_evt st u = head_or (mail (Pooled obj # q) st u) None" "chain (ev_next_by_receiver st) (mail (Pooled obj # q) st u) None" for u
    using parts(3) by (simp_all add: mail_ok_def)
  show "sub_evt st1 s = Some (Pooled obj)" using mk(1) [of s] by (simp add: m st1(1))
  have "mail_ok q ?st"
    unfolding mail_ok_def
  proof (intro allI conjI)
    fix u
    show "sub_evt ?st u = head_or (mail q ?st u) None" using mk(1) [of u] mk(2) [of s] unfolding m by (auto simp: st1(1))
    show "chain (ev_next_by_receiver ?st) (mail q ?st u) None" using mk(2) [of u] unfolding m by (auto simp: st1(1) split: if_splits)
  qed
  moreover have "typed q ?st" by (rule typed_mono [OF parts(2)]) (auto simp: st1(1))
  moreover have "pool_part {obj} q ?st" using parts(1) st1(3) by (auto simp: pool_part_def st1(1))
  moreover have "subs_ok ss ?st" using parts(4) by (simp add: subs_ok_def st1(1))
  moreover have "queue_ok q ?st" using st1(2) by (simp add: queue_ok_def)
  ultimately show "ev_inv {obj} q ss ?st" by (simp add: ev_inv_def)
qed

lemma free_held:
  assumes inv: "ev_inv {obj} q ss st"
  shows "\<exists>P. free_event (Pooled obj) st = Some (st\<lparr>ev_pool := P\<rparr>) \<and> ev_inv {} q ss (st\<lparr>ev_pool := P\<rparr>)"
proof -
  have p: "pool_ok (ev_pool st)" "live (ev_pool st) = {obj} \<union> pooled q" "{obj} \<inter> pooled q = {}" using inv by (auto simp: ev_inv_def pool_part_def)
  obtain P where P: "nxp_free obj (ev_pool st) = Some P" "pool_ok P" "live P = live (ev_pool st) - {obj}"
    using event_pool.put_ok [OF p(1), of obj] p(2) by auto
  let ?st = "st\<lparr>ev_pool := P\<rparr>"
  have "live P = pooled q" using P(3) p(2,3) by auto
  then have "pool_part {} q ?st" using P(2) by (simp add: pool_part_def)
  then have "ev_inv {} q ss ?st" using inv by (simp add: ev_inv_def queue_ok_def typed_def mail_ok_def mail_def subs_ok_def cong: event.case_cong)
  then show ?thesis using P(1) by (auto simp: free_event_def)
qed

lemma after_deliver_ok:
  assumes mem: "mem_ok mem" and good: "good_handler mem run" and ok: "loop_ok H st"
    and H: "evt = Pooled obj \<and> H = {obj} \<and> ev_cls st evt \<noteq> NXE_EV_STREAM \<or> evt = Stream i \<and> H = {}"
  shows "\<exists>s'. after_deliver run evt (st, w) = Some s' \<and> loop_ok {} (fst s')"
proof -
  obtain st1 w1 where s1: "(if ev_batch_write_fd st \<noteq> 0
           then map_option (\<lambda>s. ((fst s)\<lparr>ev_batch_write_fd := 0\<rparr>, snd s)) (run (Batch_write_end (ev_batch_write_fd st)) (st, w))
           else Some (st, w)) = Some (st1, w1)" "keeps H st st1"
  proof (cases "ev_batch_write_fd st \<noteq> 0")
    case True
    obtain st' w' where r: "run (Batch_write_end (ev_batch_write_fd st)) (st, w) = Some (st', w')" "keeps H st st'" by (rule run_keeps [OF mem good ok])
    have "keeps H st (st'\<lparr>ev_batch_write_fd := 0\<rparr>)" using r(2) by (auto simp: keeps_def loop_ok_def streams_ok_def inv_stream_fields)
    with True r(1) that show ?thesis by simp
  next
    case False
    with ok that show ?thesis by (simp add: keeps_def)
  qed
  have ok1: "loop_ok H st1" using s1(2) by (rule keeps_ok)
  show ?thesis
  proof (cases evt)
    case (Pooled x)
    then have x: "H = {x}" "ev_cls st1 evt \<noteq> NXE_EV_STREAM" using H s1(2) by (auto simp: keeps_def)
    obtain q ss where inv1: "ev_inv {x} q ss st1" "streams_ok st1" using ok1 x(1) unfolding loop_ok_def by blast
    obtain P where P: "free_event evt st1 = Some (st1\<lparr>ev_pool := P\<rparr>)" "ev_inv {} q ss (st1\<lparr>ev_pool := P\<rparr>)" using free_held [OF inv1(1)] Pooled by auto
    then have "loop_ok {} (st1\<lparr>ev_pool := P\<rparr>)" using inv1(2) by (auto simp: loop_ok_def streams_ok_def)
    moreover have "after_deliver run evt (st, w) = Some (st1\<lparr>ev_pool := P\<rparr>, w1)"
      unfolding after_deliver_def fst_conv s1(1) by (simp add: x(2) P(1))
    ultimately show ?thesis by simp
  next
    case (Stream k)
    then have "H = {}" "ev_cls st1 evt = NXE_EV_STREAM" using H ok1 by (auto simp: loop_ok_def ev_inv_def typed_def)
    then have "after_deliver run evt (st, w) = Some (st1, w1)" unfolding after_deliver_def fst_conv s1(1) by simp
    with ok1 \<open>H = {}\<close> show ?thesis by simp
  qed
qed

lemma loop_okI: "ev_inv H q ss st \<Longrightarrow> streams_ok st0 \<Longrightarrow> os_pair st = os_pair st0 \<Longrightarrow> os_loop st = os_loop st0 \<Longrightarrow> ev_receiver st = ev_receiver st0 \<Longrightarrow> loop_ok H st"
  by (auto simp: loop_ok_def streams_ok_def)

lemma first_event:
  assumes "ev_inv H q ss st"
  shows "l_first (ev_queue st) = head_or q None"
  using assms by (simp add: ev_inv_def queue_ok_def dlist_def)

lemma deliver_pooled_ok:
  assumes mem: "mem_ok mem" and good: "good_handler mem run" and inv: "ev_inv {} (Pooled obj # q) ss st" and sok: "streams_ok st"
    and st1: "st1 = st\<lparr>ev_queue := unlink (Pooled obj) (ev_queue st), ev_loop := (ev_loop st)(Pooled obj := False)\<rparr>" "queue_ok q st1" "Pooled obj \<notin> set q"
  obtains st2 w2 where "deliver cl run (Pooled obj) (st1, w) = Some (st2, w2)" "loop_ok {obj} st2" "ev_cls st2 (Pooled obj) \<noteq> NXE_EV_STREAM"
proof -
  let ?e = "Pooled obj"
  have ty: "typed (?e # q) st" using inv by (simp add: ev_inv_def)
  consider (msg) s where "ev_cls st ?e = NXE_EV_MESSAGE" "ev_receiver st ?e = Some (To_Sub s)" "sub_pub st s \<noteq> None"
    | (cb) f where "ev_cls st ?e = NXE_EV_CALLBACK" "ev_receiver st ?e = Some (To_Callback f)"
    using ty by (auto simp: typed_def)
  then show ?thesis
  proof cases
    case msg
    let ?st2 = "st1\<lparr>sub_evt := (sub_evt st1)(s := ev_next_by_receiver st1 ?e)\<rparr>"
    note h = held_message [OF inv msg(2) st1]
    obtain p where p: "sub_pub st s = Some p" using msg(3) by blast
    have ok2: "loop_ok {obj} ?st2" by (rule loop_okI [OF h(2) sok]) (simp_all add: st1(1))
    obtain st3 w3 where r: "run (if has_do_publish cl p then Do_publish p s (ev_data st ?e) else On_message s p (ev_data st ?e)) (?st2, w) = Some (st3, w3)"
      "keeps {obj} ?st2 st3" by (rule run_keeps [OF mem good ok2])
    have "deliver cl run ?e (st1, w) = Some (st3, w3)"
      using r(1) h(1) msg(1,2) p by (cases "has_do_publish cl p") (simp_all add: deliver_def message_event_deliver_def st1(1) Let_def)
    moreover have "ev_cls st3 ?e \<noteq> NXE_EV_STREAM" using r(2) msg(1) by (simp add: keeps_def st1(1))
    ultimately show ?thesis using keeps_ok [OF r(2)] that by blast
  next
    case cb
    have ok2: "loop_ok {obj} st1" by (rule loop_okI [OF held_callback [OF inv cb(2) st1] sok]) (simp_all add: st1(1))
    obtain st3 w3 where r: "run (Callback f (ev_data st1 ?e)) (st1, w) = Some (st3, w3)" "keeps {obj} st1 st3" by (rule run_keeps [OF mem good ok2])
    have "deliver cl run ?e (st1, w) = Some (st3, w3)" using r(1) cb by (simp add: deliver_def callback_event_deliver_def st1(1))
    moreover have "ev_cls st3 ?e \<noteq> NXE_EV_STREAM" using r(2) cb(1) by (simp add: keeps_def st1(1))
    ultimately show ?thesis using keeps_ok [OF r(2)] that by blast
  qed
qed

lemma deliver_stream_ok:
  assumes mem: "mem_ok mem" and good: "good_handler mem run" and q: "quiet run (Stream j)" and cl: "\<And>i o'. has_do_write cl i \<or> has_do_read cl o'"
    and ok1: "loop_ok {} st1" and r: "ev_receiver st1 (Stream j) = Some (To_Ostream o')" "\<not> ev_loop st1 (Stream j)"
  obtains st2 w2 where "deliver cl run (Stream j) (st1, w) = Some (st2, w2)" "loop_ok {} st2"
proof (cases "os_pair st1 o'")
  case None
  have "ev_cls st1 (Stream j) = NXE_EV_STREAM" using ok1 by (auto simp: loop_ok_def ev_inv_def typed_def)
  with None show ?thesis using r ok1 that by (simp add: deliver_def stream_event_deliver_def)
next
  case (Some i)
  have c: "ev_cls st1 (Stream j) = NXE_EV_STREAM" using ok1 by (auto simp: loop_ok_def ev_inv_def typed_def)
  have lp: "\<exists>s'. stream_loop run a i o' (Stream j) 50 (st1, w) = Some s' \<and> loop_ok {} (fst s')" if "a \<in> {Do_write i o', Do_read o' i}" for a
    by (rule stream_loop_ok [OF mem good q that ok1]) (use r in auto)
  show ?thesis
  proof (cases "has_do_write cl i")
    case True
    obtain s' where "stream_loop run (Do_write i o') i o' (Stream j) 50 (st1, w) = Some s'" "loop_ok {} (fst s')" using lp by blast
    with that [of "fst s'" "snd s'"] True Some c r show ?thesis by (simp add: deliver_def stream_event_deliver_def)
  next
    case False
    obtain s' where "stream_loop run (Do_read o' i) i o' (Stream j) 50 (st1, w) = Some s'" "loop_ok {} (fst s')" using lp by blast
    with that [of "fst s'" "snd s'"] False cl [of i o'] Some c r show ?thesis by (simp add: deliver_def stream_event_deliver_def)
  qed
qed

section \<open>The fresh loop\<close>

definition SIZEOF_NXE_EVENT :: nat where "SIZEOF_NXE_EVENT = 56"

definition NXE_FREE_EVENT_POOL_INITIAL_SIZE :: nat where "NXE_FREE_EVENT_POOL_INITIAL_SIZE = 16"

text \<open>The events of a loop just created; its initial chunk is at \<open>a\<close>.\<close>

definition nxe_create_events :: "nat \<Rightarrow> nxe_events option" where
  "nxe_create_events a =
     map_option (\<lambda>P. \<lparr>ev_queue = no_links, ev_loop = \<lambda>_. False, ev_cls = \<lambda>_. NXE_EV_STREAM, ev_receiver = \<lambda>_. None, ev_data = \<lambda>_. 0,
        ev_next_by_receiver = \<lambda>_. None, ev_pool = P, ev_batch_write_fd = 0, sub_pub = \<lambda>_. None, sub_next = \<lambda>_. None, sub_evt = \<lambda>_. None,
        sub_loop = \<lambda>_. False, pub_sub = \<lambda>_. None, pub_loop = \<lambda>_. False, is_ready = \<lambda>_. False, is_pair = \<lambda>_. None, is_loop = \<lambda>_. False,
        os_ready = \<lambda>_. False, os_pair = \<lambda>_. None, os_loop = \<lambda>_. False\<rparr>)
       (nxp_init SIZEOF_NXE_EVENT a (SIZEOF_NXP_CHUNK + (SIZEOF_NXP_OBJECT + SIZEOF_NXE_EVENT) * NXE_FREE_EVENT_POOL_INITIAL_SIZE))"

lemma nxe_create_ok: "\<exists>st. nxe_create_events a = Some st \<and> ev_inv {} [] (\<lambda>_. []) st \<and> streams_ok st \<and> ev_batch_write_fd st = 0"
proof -
  obtain P where "nxp_init SIZEOF_NXE_EVENT a (SIZEOF_NXP_CHUNK + (SIZEOF_NXP_OBJECT + SIZEOF_NXE_EVENT) * NXE_FREE_EVENT_POOL_INITIAL_SIZE) = Some P"
    "pool_ok P" "live P = {}"
    using nxp_init_ok [of SIZEOF_NXE_EVENT "SIZEOF_NXP_CHUNK + (SIZEOF_NXP_OBJECT + SIZEOF_NXE_EVENT) * NXE_FREE_EVENT_POOL_INITIAL_SIZE" a]
    by (auto simp: NXE_FREE_EVENT_POOL_INITIAL_SIZE_def)
  then show ?thesis
    by (simp add: nxe_create_events_def ev_inv_defs mail_def streams_ok_def no_links_def dlist_def)
qed

lemma reach_ok:
  assumes "mem_ok mem" "nxe_create_events a = Some st0" "(api mem)\<^sup>*\<^sup>* st0 st"
  shows "loop_ok {} st"
  using api_steps_ok [OF assms(1,3), of "{}"] nxe_create_ok [of a] assms(2) by (auto simp: keeps_def loop_ok_def)

section \<open>A loop with a pending message\<close>

definition fresh_mem :: "nxp_pool \<Rightarrow> nat option" where
  "fresh_mem P = Some (Suc (sum_list (map pc_addr (po_chunks P))))"

lemma fresh_mem_ok: "mem_ok fresh_mem"
proof -
  have "Suc (sum_list (map pc_addr (po_chunks P))) \<notin> chunk_addrs P" for P
  proof
    assume "Suc (sum_list (map pc_addr (po_chunks P))) \<in> chunk_addrs P"
    then have "Suc (sum_list (map pc_addr (po_chunks P))) \<in> set (map pc_addr (po_chunks P))" by (simp add: chunk_addrs_def)
    then show False using member_le_sum_list by fastforce
  qed
  then show ?thesis by (simp add: mem_ok_def fresh_mem_def)
qed

definition fresh_loop :: nxe_events where "fresh_loop = the (nxe_create_events 8)"

definition sample_loop :: nxe_events where
  "sample_loop = the (nxe_publish fresh_mem 3 7 (the (nxe_subscribe 3 5 fresh_loop)))"

lemma fresh_loop_facts: "nxe_create_events 8 = Some fresh_loop" "ev_inv {} [] (\<lambda>_. []) fresh_loop" "ev_batch_write_fd fresh_loop = 0" "sub_pub fresh_loop = (\<lambda>_. None)"
  "live (ev_pool fresh_loop) = {}"
proof -
  obtain st where st: "nxe_create_events 8 = Some st" "ev_inv {} [] (\<lambda>_. []) st" "ev_batch_write_fd st = 0" using nxe_create_ok by blast
  then show "nxe_create_events 8 = Some fresh_loop" "ev_inv {} [] (\<lambda>_. []) fresh_loop" "ev_batch_write_fd fresh_loop = 0" by (simp_all add: fresh_loop_def)
  then show "live (ev_pool fresh_loop) = {}" by (auto simp: ev_inv_def pool_part_def)
  show "sub_pub fresh_loop = (\<lambda>_. None)"
    using st(1) unfolding fresh_loop_def nxe_create_events_def map_option_case by (auto split: option.splits)
qed

lemma subscribe_fields: "nxe_subscribe p s st = Some st' \<Longrightarrow> ev_pool st' = ev_pool st \<and> ev_batch_write_fd st' = ev_batch_write_fd st"
  by (auto simp: nxe_subscribe_def split: if_splits)

lemma sample_loop_facts:
  obtains obj where "(api fresh_mem)\<^sup>*\<^sup>* fresh_loop sample_loop" "dlist (ev_queue sample_loop) [Pooled obj]" "ev_receiver sample_loop (Pooled obj) = Some (To_Sub 5)"
    "ev_data sample_loop (Pooled obj) = 7" "sub_pub sample_loop 5 = Some 3" "live (ev_pool sample_loop) = {obj}" "ev_batch_write_fd sample_loop = 0"
proof -
  obtain st1 where st1: "nxe_subscribe 3 5 fresh_loop = Some st1" "ev_inv {} [] ((\<lambda>_. [])(3 := [5])) st1" "sub_pub st1 = (\<lambda>_. None)(5 := Some 3)"
    using subscribe_run [OF fresh_loop_facts(2), of 5 3] fresh_loop_facts(4) by auto
  have lv: "live (ev_pool st1) = {}" using subscribe_fields [OF st1(1)] fresh_loop_facts(5) by simp
  obtain st2 evs where st2: "nxe_publish fresh_mem 3 7 st1 = Some st2" "ev_inv {} ([] @ evs) ((\<lambda>_. [])(3 := [5])) st2" "same_subs st1 st2"
    "map (ev_receiver st2) evs = map (\<lambda>s. Some (To_Sub s)) (((\<lambda>_. [])(3 := [5])) 3)" "\<forall>e \<in> set evs. ev_data st2 e = 7" "same_cls {} st1 st2"
    using nxe_publish_run [OF st1(2) fresh_mem_ok, of 3 7] lv by auto
  have st: "sample_loop = st2" by (simp add: sample_loop_def st1(1) st2(1))
  obtain e where e: "evs = [e]" "ev_receiver st2 e = Some (To_Sub 5)" using st2(4) by auto
  obtain obj where obj: "e = Pooled obj" using st2(2) e by (cases e) (auto simp: ev_inv_def typed_def)
  have a1: "api fresh_mem fresh_loop st1" by (rule api.subscribe [OF _ st1(1)]) (simp add: fresh_loop_facts(4))
  have sb: "subscribers st1 3 = {5}" by (auto simp: subscribers_def st1(3))
  have a2: "api fresh_mem st1 st2" by (rule api.publish [OF _ st2(1)]) (simp add: lv sb)
  have "(api fresh_mem)\<^sup>*\<^sup>* fresh_loop st2" using a1 a2 by (meson r_into_rtranclp rtranclp_trans)
  moreover have "dlist (ev_queue st2) [Pooled obj]" "live (ev_pool st2) = {obj}" using st2(2) e obj by (simp_all add: ev_inv_def queue_ok_def pool_part_def)
  moreover have "sub_pub st2 5 = Some 3" using st2(3) st1(3) by (simp add: same_subs_def)
  moreover have "ev_batch_write_fd st2 = 0" using st2(6) subscribe_fields [OF st1(1)] fresh_loop_facts(3) by (simp add: same_cls_def)
  ultimately show ?thesis using that st e obj st2(5) by auto
qed

section \<open>Safety\<close>

text \<open>
  C5: Processing an event is safe whatever the handlers do with the loop: they may subscribe, unsubscribe,
  publish, connect and disconnect while an event is being delivered to them.  No assertion fails, no event is used after it was freed, the event is
  returned to the pool after its delivery, and the loop is in order again.
\<close>

theorem process_event_safe:
  assumes mem: "mem_ok mem" and good: "good_handler mem run" and ok: "loop_ok {} st" and first: "l_first (ev_queue st) = Some evt"
    and q: "quiet run evt" and cl: "\<And>i o'. has_do_write cl i \<or> has_do_read cl o'"
  shows "\<exists>st' w'. process_event cl run evt (st, w) = Some (st', w') \<and> loop_ok {} st'"
proof -
  obtain q0 ss where inv: "ev_inv {} q0 ss st" and sok: "streams_ok st" using ok unfolding loop_ok_def by blast
  obtain q where q0: "q0 = evt # q" using first_event [OF inv] first by (cases q0) auto
  obtain st1 where un: "nxe_unlink evt (st\<lparr>ev_queue := (ev_queue st)\<lparr>l_first := l_next (ev_queue st) evt\<rparr>\<rparr>) = Some st1"
    and st1: "st1 = st\<lparr>ev_queue := unlink evt (ev_queue st), ev_loop := (ev_loop st)(evt := False)\<rparr>" "queue_ok q st1" "evt \<notin> set q"
    by (rule take_event [OF inv [unfolded q0]])
  obtain st2 w2 H where d: "deliver cl run evt (st1, w) = Some (st2, w2)" "loop_ok H st2"
    "(\<exists>obj. evt = Pooled obj \<and> H = {obj} \<and> ev_cls st2 evt \<noteq> NXE_EV_STREAM) \<or> (\<exists>i. evt = Stream i \<and> H = {})"
  proof (cases evt)
    case (Pooled obj)
    obtain st2 w2 where "deliver cl run (Pooled obj) (st1, w) = Some (st2, w2)" "loop_ok {obj} st2" "ev_cls st2 (Pooled obj) \<noteq> NXE_EV_STREAM"
      by (rule deliver_pooled_ok [OF mem good inv [unfolded q0 Pooled] sok st1 [unfolded Pooled]])
    then show ?thesis using that Pooled by simp
  next
    case (Stream j)
    have lp: "ev_loop st (Stream j)" using inv by (simp add: ev_inv_def queue_ok_def q0 Stream)
    obtain st' where "nxe_unlink (Stream j) st = Some st'" "ev_inv {} (remove1 (Stream j) q0) ss st'" using unlink_stream_run [OF inv lp] by blast
    then have inv1: "ev_inv {} q ss st1" using lp by (simp add: q0 Stream st1(1) nxe_unlink_def)
    have ok1: "loop_ok {} st1" by (rule loop_okI [OF inv1 sok]) (simp_all add: st1(1))
    have "typed (evt # q) st" using inv by (simp add: ev_inv_def q0)
    then obtain o' where "ev_receiver st1 (Stream j) = Some (To_Ostream o')" by (auto simp: typed_def Stream st1(1))
    moreover have "\<not> ev_loop st1 (Stream j)" by (simp add: st1(1) Stream)
    ultimately obtain st2 w2 where "deliver cl run (Stream j) (st1, w) = Some (st2, w2)" "loop_ok {} st2"
      by (rule deliver_stream_ok [OF mem good q [unfolded Stream] cl ok1])
    then show ?thesis using that Stream by simp
  qed
  obtain s3 where "after_deliver run evt (st2, w2) = Some s3" "loop_ok {} (fst s3)"
    using after_deliver_ok [OF mem good d(2), of evt] d(3) by blast
  then show ?thesis using un d(1) by (cases s3) (simp add: process_event_def Let_def)
qed

text \<open>A handler that unsubscribes whoever gets a message\<close>

definition once :: "unit handler" where
  "once a s = (case a of On_message sb p d \<Rightarrow> if sub_pub (fst s) sb = Some p then map_option (\<lambda>st. (st, snd s)) (nxe_unsubscribe p sb (fst s)) else Some s
     | _ \<Rightarrow> Some s)"

lemma once_good: "good_handler fresh_mem once"
  unfolding good_handler_def
proof (intro allI impI)
  fix a H st and w :: unit assume "loop_ok H st"
  then obtain q ss where inv: "ev_inv H q ss st" unfolding loop_ok_def by blast
  show "\<exists>st' w'. once a (st, w) = Some (st', w') \<and> (api fresh_mem)\<^sup>*\<^sup>* st st'"
  proof (cases "\<exists>sb p d. a = On_message sb p d \<and> sub_pub st sb = Some p")
    case True
    then obtain sb p d where a: "a = On_message sb p d" "sub_pub st sb = Some p" by blast
    obtain st' where "nxe_unsubscribe p sb st = Some st'" using unsubscribe_run [OF inv a(2)] by blast
    then show ?thesis using a api.unsubscribe by (auto simp: once_def)
  next
    case False
    then have "once a (st, w) = Some (st, w)" by (auto simp: once_def split: action.split)
    then show ?thesis by auto
  qed
qed

theorem process_event_safe_witness:
  "\<exists>evt st' w'. l_first (ev_queue sample_loop) = Some evt
    \<and> process_event \<lparr>has_do_write = \<lambda>_. True, has_do_read = \<lambda>_. False, has_do_publish = \<lambda>_. False\<rparr> once evt (sample_loop, ()) = Some (st', w') \<and> loop_ok {} st'"
proof -
  obtain obj where s: "(api fresh_mem)\<^sup>*\<^sup>* fresh_loop sample_loop" "dlist (ev_queue sample_loop) [Pooled obj]" by (rule sample_loop_facts)
  have f: "l_first (ev_queue sample_loop) = Some (Pooled obj)" using dlist_first [OF s(2)] by simp
  have q: "quiet once (Pooled obj)" by (auto simp: quiet_def once_def)
  show ?thesis
    using process_event_safe [OF fresh_mem_ok once_good reach_ok [OF fresh_mem_ok fresh_loop_facts(1) s(1)] f q, of "\<lparr>has_do_write = \<lambda>_. True, has_do_read = \<lambda>_. False, has_do_publish = \<lambda>_. False\<rparr>" "()"]
      f by auto
qed

text \<open>
  C13: However the loop was used before, unsubscribing succeeds, leaves no pending event for the
  subscriber and returns exactly those events to the pool; all other events stay pending.  A subscriber may therefore be
  freed as soon as it is unsubscribed.
\<close>

theorem unsubscribe_drops_events:
  assumes mem: "mem_ok mem" and reach: "nxe_create_events a = Some st0" "(api mem)\<^sup>*\<^sup>* st0 st" and s: "sub_pub st s = Some p"
  shows "\<exists>st'. nxe_unsubscribe p s st = Some st' \<and> sub_pub st' s = None \<and> sub_evt st' s = None
    \<and> (\<forall>e. ev_loop st' e \<longleftrightarrow> ev_loop st e \<and> ev_receiver st e \<noteq> Some (To_Sub s)) \<and> ev_receiver st' = ev_receiver st
    \<and> live (ev_pool st') = live (ev_pool st) - {obj. ev_loop st (Pooled obj) \<and> ev_receiver st (Pooled obj) = Some (To_Sub s)}"
proof -
  obtain q ss where inv: "ev_inv {} q ss st" using reach_ok [OF mem reach] unfolding loop_ok_def by blast
  let ?q = "filter (\<lambda>e. ev_receiver st e \<noteq> Some (To_Sub s)) q"
  obtain st' where st': "nxe_unsubscribe p s st = Some st'" "ev_inv {} ?q (ss(p := remove1 s (ss p))) st'" "sub_pub st' = (sub_pub st)(s := None)"
    "ev_receiver st' = ev_receiver st"
    using unsubscribe_run [OF inv s] by blast
  have lp: "ev_loop st e \<longleftrightarrow> e \<in> set q" "ev_loop st' e \<longleftrightarrow> e \<in> set ?q" for e using inv st'(2) by (simp_all add: ev_inv_def queue_ok_def)
  have lv: "live (ev_pool st) = pooled q" "live (ev_pool st') = pooled ?q" using inv st'(2) by (simp_all add: ev_inv_def pool_part_def)
  have "mail ?q st' s = []" by (simp add: mail_def st'(4))
  then have "sub_evt st' s = None" using st'(2) by (simp add: ev_inv_def mail_ok_def)
  moreover have "live (ev_pool st') = live (ev_pool st) - {obj. ev_loop st (Pooled obj) \<and> ev_receiver st (Pooled obj) = Some (To_Sub s)}"
    unfolding lv lp by (auto simp: pooled_def)
  ultimately show ?thesis using st'(1,3,4) lp by (intro exI [of _ st']) auto
qed

theorem unsubscribe_drops_events_witness:
  "\<exists>st'. nxe_unsubscribe 3 5 sample_loop = Some st' \<and> live (ev_pool sample_loop) \<noteq> {} \<and> live (ev_pool st') = {}"
proof -
  obtain obj where s: "(api fresh_mem)\<^sup>*\<^sup>* fresh_loop sample_loop" "dlist (ev_queue sample_loop) [Pooled obj]" "ev_receiver sample_loop (Pooled obj) = Some (To_Sub 5)"
    "sub_pub sample_loop 5 = Some 3" "live (ev_pool sample_loop) = {obj}" by (rule sample_loop_facts)
  obtain q ss where inv: "ev_inv {} q ss sample_loop" using reach_ok [OF fresh_mem_ok fresh_loop_facts(1) s(1)] unfolding loop_ok_def by blast
  have "q = [Pooled obj]" using inv s(2) dlist_unique by (auto simp: ev_inv_def queue_ok_def)
  then have "ev_loop sample_loop (Pooled obj)" using inv by (simp add: ev_inv_def queue_ok_def)
  then show ?thesis using unsubscribe_drops_events [OF fresh_mem_ok fresh_loop_facts(1) s(1,4)] s(3,5) by auto
qed

section \<open>Order of delivery\<close>

definition delivers :: "classes \<Rightarrow> nxe_events \<Rightarrow> event \<Rightarrow> action" where
  "delivers cl st e = (case ev_receiver st e of
     Some (To_Callback f) \<Rightarrow> Callback f (ev_data st e)
   | Some (To_Sub s) \<Rightarrow> (let p = the (sub_pub st s) in if has_do_publish cl p then Do_publish p s (ev_data st e) else On_message s p (ev_data st e))
   | _ \<Rightarrow> Batch_write_end 0)"

text \<open>
  What a program sends through the loop: a message to the subscribers of a publisher, or a call of a function.  \<open>actions_of\<close> are the calls that this is to
  lead to, one for each subscriber in the order of the list of the publisher.
\<close>

datatype sending = Publish nat int | Schedule nat int

fun send_all :: "(nxp_pool \<Rightarrow> nat option) \<Rightarrow> sending list \<Rightarrow> nxe_events \<Rightarrow> nxe_events option" where
  "send_all mem [] st = Some st"
| "send_all mem (Publish p d # xs) st = Option.bind (nxe_publish mem p d st) (send_all mem xs)"
| "send_all mem (Schedule g d # xs) st = Option.bind (nxe_schedule_callback mem g d st) (send_all mem xs)"

fun actions_of :: "classes \<Rightarrow> (nat \<Rightarrow> nat list) \<Rightarrow> sending \<Rightarrow> action list" where
  "actions_of cl subs (Publish p d) = map (\<lambda>s. if has_do_publish cl p then Do_publish p s d else On_message s p d) (subs p)"
| "actions_of cl subs (Schedule g d) = [Callback g d]"

definition calls_of :: "classes \<Rightarrow> (nat \<Rightarrow> nat list) \<Rightarrow> sending list \<Rightarrow> action list" where
  "calls_of cl subs xs = concat (map (actions_of cl subs) xs)"

lemma calls_of_simps [simp]: "calls_of cl subs [] = []" "calls_of cl subs (x # xs) = actions_of cl subs x @ calls_of cl subs xs"
  by (simp_all add: calls_of_def)

text \<open>The subscribers of a publisher, as they are linked.\<close>

definition subscriber_list :: "nxe_events \<Rightarrow> nat \<Rightarrow> nat list \<Rightarrow> bool" where
  "subscriber_list st p xs \<longleftrightarrow> pub_sub st p = head_or xs None \<and> chain (sub_next st) xs None"

text \<open>
  The reference: a queue of calls.  The first is carried out, changing \<open>w\<close> by \<open>f\<close>, and what it sends comes last; there are less than \<open>2 ^ 32\<close> at a
  time.  \<open>k\<close> bounds the number of calls.
\<close>

fun fifo :: "(action \<Rightarrow> 'w \<Rightarrow> action list) \<Rightarrow> (action \<Rightarrow> 'w \<Rightarrow> 'w) \<Rightarrow> nat \<Rightarrow> action list \<Rightarrow> 'w \<Rightarrow> 'w option" where
  "fifo next_calls f k [] w = Some w"
| "fifo next_calls f 0 (a # as) w = None"
| "fifo next_calls f (Suc k) (a # as) w =
     (let bs = as @ next_calls a w in if 2 ^ 32 \<le> length bs + 2 then None else fifo next_calls f k bs (f a w))"

lemma delivers_same:
  assumes "same_subs st st'" "same_events q st st'" "e \<in> set q"
  shows "delivers cl st' e = delivers cl st e"
proof -
  have e: "ev_receiver st' e = ev_receiver st e" "ev_data st' e = ev_data st e" "sub_pub st' = sub_pub st" using assms by (simp_all add: same_subs_def same_events_def)
  show ?thesis unfolding delivers_def e ..
qed

lemma card_live_le:
  assumes "ev_inv H q ss st" "finite H"
  shows "card (live (ev_pool st)) \<le> card H + length q"
proof -
  have "live (ev_pool st) = H \<union> pooled q" using assms(1) by (simp add: ev_inv_def pool_part_def)
  then have "card (live (ev_pool st)) \<le> card H + card (pooled q)" by (simp add: card_Un_le)
  then show ?thesis using card_pooled [of q] by simp
qed

lemma pooled_receiver:
  assumes "ev_inv H q ss st" "e \<in> set q" "ev_receiver st e = Some (To_Sub s) \<or> ev_receiver st e = Some (To_Callback g)"
  shows "\<exists>obj. e = Pooled obj"
  using assms by (cases e) (auto simp: ev_inv_def typed_def)

lemma send_one_run:
  assumes inv: "ev_inv H q ss st" "finite H" and mem: "mem_ok mem" and few: "card H + length q + length (actions_of cl ss x) + 1 < 2 ^ 32"
  shows "\<exists>st' evs. send_all mem [x] st = Some st' \<and> ev_inv H (q @ evs) ss st' \<and> same_subs st st' \<and> same_events q st st' \<and> same_cls H st st'
    \<and> map (delivers cl st') evs = actions_of cl ss x \<and> (\<forall>e \<in> set evs. \<exists>obj. e = Pooled obj)"
proof (cases x)
  case (Publish p d)
  have "card (live (ev_pool st)) + length (ss p) + 1 < 2 ^ 32" using few card_live_le [OF inv] Publish by simp
  from nxe_publish_run [OF inv(1) mem this, of d] obtain st' evs where
    r: "nxe_publish mem p d st = Some st'" "ev_inv H (q @ evs) ss st'" "same_subs st st'" "same_events q st st'"
      "map (ev_receiver st') evs = map (\<lambda>s. Some (To_Sub s)) (ss p)" "\<forall>e \<in> set evs. ev_data st' e = d" "same_cls H st st'" by blast
  have len: "length evs = length (ss p)" using arg_cong [OF r(5), of length] by simp
  have rec: "ev_receiver st' (evs ! i) = Some (To_Sub (ss p ! i))" if "i < length (ss p)" for i
    using arg_cong [OF r(5), of "\<lambda>xs. xs ! i"] that len by simp
  have sp: "sub_pub st' s = Some p" if "s \<in> set (ss p)" for s using r(2) that by (auto simp: ev_inv_def subs_ok_def)
  have "map (delivers cl st') evs = actions_of cl ss x"
    by (rule nth_equalityI) (use len rec sp r(6) Publish in \<open>auto simp: delivers_def\<close>)
  moreover have "\<exists>obj. e = Pooled obj" if e: "e \<in> set evs" for e
  proof -
    obtain i where "i < length evs" "e = evs ! i" using e by (metis in_set_conv_nth)
    then show ?thesis using pooled_receiver [OF r(2), of e] rec [of i] len e by auto
  qed
  ultimately show ?thesis using r(1-4,7) Publish by (intro exI [of _ st'] exI [of _ evs]) simp
next
  case (Schedule g d)
  have "card (live (ev_pool st)) + 1 < 2 ^ 32" using few card_live_le [OF inv] Schedule by simp
  from schedule_callback_run [OF inv(1) mem this, of g d] obtain st' obj where
    "nxe_schedule_callback mem g d st = Some st'" "ev_inv H (q @ [Pooled obj]) ss st'" "same_subs st st'" "same_events q st st'"
      "ev_receiver st' (Pooled obj) = Some (To_Callback g)" "ev_data st' (Pooled obj) = d" "same_cls H st st'" by blast
  then show ?thesis using Schedule by (intro exI [of _ st'] exI [of _ "[Pooled obj]"]) (simp add: delivers_def)
qed

lemma send_all_Cons: "send_all mem (x # xs) st = Option.bind (send_all mem [x] st) (send_all mem xs)"
  by (cases x) (simp_all cong: bind_option_cong)

lemma send_all_run:
  assumes "ev_inv H q ss st" "finite H" "mem_ok mem" "card H + length q + length (calls_of cl ss xs) + 1 < 2 ^ 32"
  shows "\<exists>st' evs. send_all mem xs st = Some st' \<and> ev_inv H (q @ evs) ss st' \<and> same_subs st st' \<and> same_events q st st' \<and> same_cls H st st'
    \<and> map (delivers cl st') evs = calls_of cl ss xs \<and> (\<forall>e \<in> set evs. \<exists>obj. e = Pooled obj)"
  using assms
proof (induction xs arbitrary: q st)
  case Nil
  then show ?case by (intro exI [of _ st] exI [of _ "[]"]) (simp add: same_subs_def same_events_def same_cls_def)
next
  case (Cons x xs)
  obtain st1 es where 1: "send_all mem [x] st = Some st1" "ev_inv H (q @ es) ss st1" "same_subs st st1" "same_events q st st1" "same_cls H st st1"
    "map (delivers cl st1) es = actions_of cl ss x" "\<forall>e \<in> set es. \<exists>obj. e = Pooled obj"
    using send_one_run [OF Cons.prems(1-3), of cl x] Cons.prems(4) by auto
  have len: "length es = length (actions_of cl ss x)" using arg_cong [OF 1(6), of length] by simp
  have few: "card H + length (q @ es) + length (calls_of cl ss xs) + 1 < 2 ^ 32" using Cons.prems(4) len by simp
  obtain st' evs where 2: "send_all mem xs st1 = Some st'" "ev_inv H ((q @ es) @ evs) ss st'" "same_subs st1 st'" "same_events (q @ es) st1 st'" "same_cls H st1 st'"
    "map (delivers cl st') evs = calls_of cl ss xs" "\<forall>e \<in> set evs. \<exists>obj. e = Pooled obj"
    using Cons.IH [OF 1(2) Cons.prems(2,3) few] by blast
  have "send_all mem (x # xs) st = Some st'" using send_all_Cons [of mem x xs st] 1(1) 2(1) by simp
  moreover have "map (delivers cl st') (es @ evs) = calls_of cl ss (x # xs)"
    using 1(6) 2(6) delivers_same [OF 2(3,4), of _ cl] by (simp cong: map_cong)
  moreover have "same_subs st st'" "same_events q st st'" "same_cls H st st'"
    using 1(3,4,5) 2(3,4,5) by (auto simp: same_subs_def same_events_def same_cls_def)
  moreover have "\<forall>e \<in> set (es @ evs). \<exists>obj. e = Pooled obj" using 1(7) 2(7) by auto
  ultimately show ?case using 2(2) by (intro exI [of _ st'] exI [of _ "es @ evs"]) simp
qed

text \<open>Handlers that send.\<close>

definition sending_handler :: "(nxp_pool \<Rightarrow> nat option) \<Rightarrow> (action \<Rightarrow> 'w \<Rightarrow> sending list) \<Rightarrow> (action \<Rightarrow> 'w \<Rightarrow> 'w) \<Rightarrow> 'w handler" where
  "sending_handler mem sends f a s = map_option (\<lambda>st. (st, f a (snd s))) (send_all mem (sends a (snd s)) (fst s))"

lemma deliver_held:
  fixes run :: "'w handler"
  assumes inv: "ev_inv {} (Pooled obj # q) ss st"
  obtains st0 where "\<And>w. process_event cl run (Pooled obj) (st, w) = Option.bind (run (delivers cl st (Pooled obj)) (st0, w)) (after_deliver run (Pooled obj))"
    "ev_inv {obj} q ss st0" "ev_cls st0 (Pooled obj) \<noteq> NXE_EV_STREAM" "same_subs st st0" "same_events q st st0" "ev_batch_write_fd st0 = ev_batch_write_fd st"
proof -
  let ?e = "Pooled obj"
  obtain st1 where un: "nxe_unlink ?e (st\<lparr>ev_queue := (ev_queue st)\<lparr>l_first := l_next (ev_queue st) ?e\<rparr>\<rparr>) = Some st1"
    and st1: "st1 = st\<lparr>ev_queue := unlink ?e (ev_queue st), ev_loop := (ev_loop st)(?e := False)\<rparr>" "queue_ok q st1" "?e \<notin> set q"
    by (rule take_event [OF inv])
  have ty: "typed (?e # q) st" using inv by (simp add: ev_inv_def)
  then consider (msg) s p where "ev_cls st ?e = NXE_EV_MESSAGE" "ev_receiver st ?e = Some (To_Sub s)" "sub_pub st s = Some p"
    | (cb) g where "ev_cls st ?e = NXE_EV_CALLBACK" "ev_receiver st ?e = Some (To_Callback g)"
    by (auto simp: typed_def)
  then show ?thesis
  proof cases
    case msg
    let ?st2 = "st1\<lparr>sub_evt := (sub_evt st1)(s := ev_next_by_receiver st1 ?e)\<rparr>"
    note hm = held_message [OF inv msg(2) st1]
    have "deliver cl run ?e (st1, w) = run (delivers cl st ?e) (?st2, w)" for w
      using hm(1) msg by (simp add: deliver_def message_event_deliver_def delivers_def st1(1) Let_def)
    then have "process_event cl run ?e (st, w) = Option.bind (run (delivers cl st ?e) (?st2, w)) (after_deliver run ?e)" for w
      using un by (simp add: process_event_def Let_def)
    then show ?thesis by (rule that) (use hm(2) msg(1) in \<open>simp_all add: st1(1) same_subs_def same_events_def\<close>)
  next
    case cb
    have "deliver cl run ?e (st1, w) = run (delivers cl st ?e) (st1, w)" for w
      using cb by (simp add: deliver_def callback_event_deliver_def delivers_def st1(1))
    then have "process_event cl run ?e (st, w) = Option.bind (run (delivers cl st ?e) (st1, w)) (after_deliver run ?e)" for w
      using un by (simp add: process_event_def Let_def)
    then show ?thesis by (rule that) (use held_callback [OF inv cb(2) st1] cb(1) in \<open>simp_all add: st1(1) same_subs_def same_events_def\<close>)
  qed
qed

lemma process_sending:
  assumes mem: "mem_ok mem" and inv: "ev_inv {} (Pooled obj # q) ss st" and fd: "ev_batch_write_fd st = 0"
    and few: "length q + length (calls_of cl ss (sends (delivers cl st (Pooled obj)) w)) + 2 < 2 ^ 32"
  shows "\<exists>st' evs. process_event cl (sending_handler mem sends f) (Pooled obj) (st, w) = Some (st', f (delivers cl st (Pooled obj)) w) \<and> ev_inv {} (q @ evs) ss st'
    \<and> map (delivers cl st') (q @ evs) = map (delivers cl st) q @ calls_of cl ss (sends (delivers cl st (Pooled obj)) w)
    \<and> (\<forall>e \<in> set evs. \<exists>obj. e = Pooled obj) \<and> ev_batch_write_fd st' = 0"
proof -
  let ?e = "Pooled obj" and ?a = "delivers cl st (Pooled obj)"
  obtain st0 where st0: "\<And>w. process_event cl (sending_handler mem sends f) ?e (st, w)
        = Option.bind (sending_handler mem sends f ?a (st0, w)) (after_deliver (sending_handler mem sends f) ?e)"
    "ev_inv {obj} q ss st0" "ev_cls st0 ?e \<noteq> NXE_EV_STREAM" "same_subs st st0" "same_events q st st0" "ev_batch_write_fd st0 = 0"
    using deliver_held [OF inv, of cl "sending_handler mem sends f" thesis] fd by simp
  obtain st1 evs where st1: "send_all mem (sends ?a w) st0 = Some st1" "ev_inv {obj} (q @ evs) ss st1" "same_subs st0 st1" "same_events q st0 st1" "same_cls {obj} st0 st1"
    "map (delivers cl st1) evs = calls_of cl ss (sends ?a w)" "\<forall>e \<in> set evs. \<exists>obj. e = Pooled obj"
    using send_all_run [OF st0(2) _ mem, of cl "sends ?a w"] few by auto
  obtain P where P: "free_event ?e st1 = Some (st1\<lparr>ev_pool := P\<rparr>)" "ev_inv {} (q @ evs) ss (st1\<lparr>ev_pool := P\<rparr>)" using free_held [OF st1(2)] by blast
  have c: "ev_cls st1 ?e \<noteq> NXE_EV_STREAM" "ev_batch_write_fd st1 = 0" using st1(5) st0(3,6) by (simp_all add: same_cls_def)
  have "process_event cl (sending_handler mem sends f) ?e (st, w) = Some (st1\<lparr>ev_pool := P\<rparr>, f ?a w)"
    using st0(1) [of w] st1(1) P(1) c by (simp add: sending_handler_def after_deliver_def)
  moreover have d: "delivers cl (st1\<lparr>ev_pool := P\<rparr>) = delivers cl st1" by (rule ext) (auto simp: delivers_def Let_def split: option.split receiver.split)
  have "map (delivers cl st1) q = map (delivers cl st) q"
    using delivers_same [OF st0(4,5), of _ cl] delivers_same [OF st1(3,4), of _ cl] by simp
  then have "map (delivers cl (st1\<lparr>ev_pool := P\<rparr>)) (q @ evs) = map (delivers cl st) q @ calls_of cl ss (sends ?a w)" unfolding d using st1(6) by simp
  ultimately show ?thesis using P(2) st1(7) c(2) by (intro exI [of _ "st1\<lparr>ev_pool := P\<rparr>"] exI [of _ evs]) simp
qed

lemma process_loop_sending:
  assumes mem: "mem_ok mem"
  shows "ev_inv {} q ss st \<Longrightarrow> ev_batch_write_fd st = 0 \<Longrightarrow> \<forall>e \<in> set q. \<exists>obj. e = Pooled obj
    \<Longrightarrow> fifo (\<lambda>a w. calls_of cl ss (sends a w)) f k (map (delivers cl st) q) w = Some w'
    \<Longrightarrow> \<exists>st'. nxe_process_loop cl (sending_handler mem sends f) (st, w) = Some (st', w') \<and> ev_inv {} [] ss st'"
proof (induction k arbitrary: q st w)
  case 0
  then have "q = []" by (cases q) simp_all
  with 0 show ?case using first_event [OF 0(1)] by (subst nxe_process_loop.simps) simp
next
  case (Suc k)
  show ?case
  proof (cases q)
    case Nil
    with Suc.prems show ?thesis using first_event [OF Suc.prems(1)] by (subst nxe_process_loop.simps) simp
  next
    case (Cons e q')
    then obtain obj where e: "e = Pooled obj" using Suc.prems(3) by auto
    let ?a = "delivers cl st e"
    have fi: "length q' + length (calls_of cl ss (sends ?a w)) + 2 < 2 ^ 32"
      "fifo (\<lambda>a w. calls_of cl ss (sends a w)) f k (map (delivers cl st) q' @ calls_of cl ss (sends ?a w)) (f ?a w) = Some w'"
      using Suc.prems(4) Cons by (auto simp: Let_def split: if_splits)
    obtain st1 evs where st1: "process_event cl (sending_handler mem sends f) e (st, w) = Some (st1, f ?a w)" "ev_inv {} (q' @ evs) ss st1"
      "map (delivers cl st1) (q' @ evs) = map (delivers cl st) q' @ calls_of cl ss (sends ?a w)" "\<forall>e \<in> set evs. \<exists>obj. e = Pooled obj" "ev_batch_write_fd st1 = 0"
      using process_sending [OF mem, of obj q' ss st cl sends w f] Suc.prems(1,2) Cons e fi(1) by auto
    have "\<forall>e \<in> set (q' @ evs). \<exists>obj. e = Pooled obj" using Suc.prems(3) Cons st1(4) by auto
    from Suc.IH [OF st1(2,5) this, unfolded st1(3), OF fi(2)] obtain st' where
      "nxe_process_loop cl (sending_handler mem sends f) (st1, f ?a w) = Some (st', w')" "ev_inv {} [] ss st'" by blast
    moreover have "nxe_process_loop cl (sending_handler mem sends f) (st, w) = nxe_process_loop cl (sending_handler mem sends f) (st1, f ?a w)"
      using first_event [OF Suc.prems(1)] Cons st1(1) by (subst nxe_process_loop.simps) simp
    ultimately show ?thesis by auto
  qed
qed

lemma subscribers_linked:
  assumes "ev_inv H q ss st" "\<forall>p. subscriber_list st p (subs p)"
  shows "ss = subs"
proof
  fix p
  show "ss p = subs p" using assms chain_unique [of "sub_next st" "ss p" "subs p"] by (auto simp: ev_inv_def subs_ok_def subscriber_list_def)
qed

text \<open>
  C6: Messages and callbacks are delivered in the order in which they were published or scheduled, each exactly once to each subscriber.  In a loop with nothing pending, a program
  publishes messages and schedules callbacks; then events are processed, and the handlers, which do anything with their own state and, of the loop, use publishing and
  scheduling, send more.  What happens is what a plain queue of calls gives, whenever that comes to an end: the calls are made in the order in which they were sent, those of a message in the order of the
  subscribers.  Processing then returns, with nothing pending and every event back in the pool.
\<close>

theorem messages_delivered_in_order:
  assumes mem: "mem_ok mem" and reach: "nxe_create_events a = Some st0" "(api mem)\<^sup>*\<^sup>* st0 st" and idle: "l_first (ev_queue st) = None" "ev_batch_write_fd st = 0"
    and subs: "\<forall>p. subscriber_list st p (subs p)" and few: "length (calls_of cl subs xs) + 1 < 2 ^ 32"
    and ref: "fifo (\<lambda>a w. calls_of cl subs (sends a w)) f k (calls_of cl subs xs) w = Some w'"
  shows "\<exists>st1 st'. send_all mem xs st = Some st1 \<and> nxe_process_loop cl (sending_handler mem sends f) (st1, w) = Some (st', w')
    \<and> l_first (ev_queue st') = None \<and> live (ev_pool st') = {}"
proof -
  obtain q ss where inv: "ev_inv {} q ss st" using reach_ok [OF mem reach] unfolding loop_ok_def by blast
  then have q: "q = []" using first_event [OF inv] idle(1) by (cases q) simp_all
  have ss: "ss = subs" by (rule subscribers_linked [OF inv subs])
  obtain st1 evs where st1: "send_all mem xs st = Some st1" "ev_inv {} evs subs st1" "map (delivers cl st1) evs = calls_of cl subs xs" "\<forall>e \<in> set evs. \<exists>obj. e = Pooled obj"
    "ev_batch_write_fd st1 = 0"
    using send_all_run [OF inv _ mem, of cl xs] few idle(2) q ss by (auto simp: same_cls_def)
  obtain st' where st': "nxe_process_loop cl (sending_handler mem sends f) (st1, w) = Some (st', w')" "ev_inv {} [] subs st'"
    using process_loop_sending [OF mem st1(2,5,4), of cl sends f k w w'] ref st1(3) by auto
  have "l_first (ev_queue st') = None" "live (ev_pool st') = {}" using first_event [OF st'(2)] st'(2) by (auto simp: ev_inv_def pool_part_def)
  then show ?thesis using st1(1) st'(1) by blast
qed

text \<open>Two messages to one subscriber, which answers the first with a callback.\<close>

theorem messages_delivered_in_order_witness:
  "\<exists>st st1 st'. send_all fresh_mem [Publish 3 7, Publish 3 8] st = Some st1
    \<and> nxe_process_loop \<lparr>has_do_write = \<lambda>_. False, has_do_read = \<lambda>_. False, has_do_publish = \<lambda>_. False\<rparr>
        (sending_handler fresh_mem (\<lambda>a w. if a = On_message 5 3 7 then [Schedule 9 1] else []) (\<lambda>a w. w @ [a])) (st1, [])
      = Some (st', [On_message 5 3 7, On_message 5 3 8, Callback 9 1])"
proof -
  obtain st where st: "nxe_subscribe 3 5 fresh_loop = Some st" "ev_inv {} [] ((\<lambda>_. [])(3 := [5])) st"
    using subscribe_run [OF fresh_loop_facts(2), of 5 3] fresh_loop_facts(4) by auto
  have r: "(api fresh_mem)\<^sup>*\<^sup>* fresh_loop st" using api.subscribe [OF _ st(1)] fresh_loop_facts(4) by (meson r_into_rtranclp)
  have fd: "ev_batch_write_fd st = 0" using subscribe_fields [OF st(1)] fresh_loop_facts(3) by simp
  have sl: "\<forall>p. subscriber_list st p (((\<lambda>_. [])(3 := [5])) p)" using st(2) unfolding ev_inv_def subs_ok_def subscriber_list_def by blast
  have idle: "l_first (ev_queue st) = None" using first_event [OF st(2)] by simp
  let ?cl = "\<lparr>has_do_write = \<lambda>_. False, has_do_read = \<lambda>_. False, has_do_publish = \<lambda>_. False\<rparr> :: classes"
  have "fifo (\<lambda>a w. calls_of ?cl ((\<lambda>_. [])(3 := [5])) (if a = On_message 5 3 7 then [Schedule 9 1] else [])) (\<lambda>a w. w @ [a]) 3
      (calls_of ?cl ((\<lambda>_. [])(3 := [5])) [Publish 3 7, Publish 3 8]) [] = Some [On_message 5 3 7, On_message 5 3 8, Callback 9 1]"
    by (simp add: numeral_3_eq_3)
  from messages_delivered_in_order [OF fresh_mem_ok fresh_loop_facts(1) r idle fd sl _ this] show ?thesis by auto
qed

section \<open>A stream that becomes ready while it is served\<close>

text \<open>A writer that finds its source empty and refilled: it clears the ready flag and sets it again\<close>

definition toggle :: "unit handler" where
  "toggle a s = (case a of Do_write i o' \<Rightarrow> map_option (\<lambda>st. (st, snd s)) (nxe_istream_set_ready i (nxe_istream_unset_ready i (fst s))) | _ \<Rightarrow> Some s)"

lemma set_ready_returns:
  assumes "loop_ok H st"
  shows "\<exists>st'. nxe_istream_set_ready i st = Some st'"
proof -
  obtain q ss where inv: "ev_inv H q ss st" using assms unfolding loop_ok_def by blast
  have i1: "ev_inv H q ss (st\<lparr>is_ready := (is_ready st)(i := True)\<rparr>)" using inv by (simp add: inv_stream_fields)
  have "\<exists>st'. emit_stream i o' (st\<lparr>is_ready := (is_ready st)(i := True)\<rparr>) = Some st'" if "\<not> ev_loop st (Stream i)" for o'
    using emit_stream_run [OF i1, of i o'] that by auto
  then show ?thesis by (auto simp: nxe_istream_set_ready_def Let_def split: option.split)
qed

lemma toggle_good: "good_handler fresh_mem toggle"
  unfolding good_handler_def
proof (intro allI impI)
  fix a H st and w :: unit assume ok: "loop_ok H st"
  show "\<exists>st' w'. toggle a (st, w) = Some (st', w') \<and> (api fresh_mem)\<^sup>*\<^sup>* st st'"
  proof (cases "\<exists>i o'. a = Do_write i o'")
    case True
    then obtain i o' where a: "a = Do_write i o'" by blast
    let ?st = "nxe_istream_unset_ready i st"
    have u: "api fresh_mem st ?st" by (rule api.is_unready)
    obtain st' where st': "nxe_istream_set_ready i ?st = Some st'" using set_ready_returns keeps_ok [OF api_ok [OF fresh_mem_ok u ok]] by blast
    have "(api fresh_mem)\<^sup>*\<^sup>* st st'" using u api.is_ready [OF st'] by (meson r_into_rtranclp rtranclp_trans)
    with a st' show ?thesis by (simp add: toggle_def)
  next
    case False
    then have "toggle a (st, w) = Some (st, w)" by (auto simp: toggle_def split: action.split)
    then show ?thesis by auto
  qed
qed

lemma stream_loop_stuck:
  "ev_loop st (Stream i) \<Longrightarrow> is_ready st i \<Longrightarrow> os_ready st o' \<Longrightarrow> os_pair st o' = Some i
    \<Longrightarrow> stream_loop toggle (Do_write i o') i o' (Stream i) n (st, ()) = None"
proof (induction n arbitrary: st)
  case 0
  then show ?case by (subst stream_loop.simps) (simp add: nxe_link_def)
next
  case (Suc n)
  let ?st = "st\<lparr>is_ready := (is_ready st)(i := False, i := True)\<rparr>"
  have "toggle (Do_write i o') (st, ()) = Some (?st, ())"
    using Suc.prems by (simp add: toggle_def nxe_istream_set_ready_def nxe_istream_unset_ready_def Let_def split: option.split)
  moreover have "stream_loop toggle (Do_write i o') i o' (Stream i) n (?st, ()) = None" by (rule Suc.IH) (use Suc.prems in simp_all)
  ultimately show ?case using Suc.prems by (subst stream_loop.simps) simp
qed

definition ready_loop :: nxe_events where
  "ready_loop = the (nxe_ostream_set_ready 0 (the (nxe_istream_set_ready 0 (the (nxe_connect_streams 0 0 fresh_loop)))))"

lemma fresh_loop_fields: "is_ready fresh_loop = (\<lambda>_. False)" "os_ready fresh_loop = (\<lambda>_. False)" "ev_loop fresh_loop = (\<lambda>_. False)" "ev_queue fresh_loop = no_links"
    "ev_cls fresh_loop = (\<lambda>_. NXE_EV_STREAM)"
  using fresh_loop_facts(1) unfolding fresh_loop_def nxe_create_events_def map_option_case by (auto split: option.splits)

lemmas ready_defs = nxe_connect_streams_def nxe_istream_set_ready_def nxe_ostream_set_ready_def emit_stream_def nxe_link_def Let_def fresh_loop_fields

lemma ready_loop_reach: "(api fresh_mem)\<^sup>*\<^sup>* fresh_loop ready_loop"
proof -
  obtain st1 where st1: "nxe_connect_streams 0 0 fresh_loop = Some st1" by (simp add: ready_defs)
  obtain st2 where st2: "nxe_istream_set_ready 0 st1 = Some st2" using st1 by (auto simp: ready_defs)
  have st3: "nxe_ostream_set_ready 0 st2 = Some ready_loop" using st1 st2 by (auto simp: ready_loop_def ready_defs)
  have "api fresh_mem fresh_loop st1" by (rule api.connect [OF _ st1]) (simp add: fresh_loop_fields)
  moreover have "api fresh_mem st1 st2" by (rule api.is_ready [OF st2])
  moreover have "api fresh_mem st2 ready_loop" by (rule api.os_ready [OF st3])
  ultimately show ?thesis by (meson r_into_rtranclp rtranclp_trans)
qed

lemma ready_loop_fields: "is_ready ready_loop 0" "os_ready ready_loop 0" "os_pair ready_loop 0 = Some 0" "is_pair ready_loop 0 = Some 0" "ev_loop ready_loop (Stream 0)"
    "ev_cls ready_loop (Stream 0) = NXE_EV_STREAM" "ev_receiver ready_loop (Stream 0) = Some (To_Ostream 0)"
  by (simp_all add: ready_loop_def ready_defs)

text \<open>
  The guard against endless loops can itself abort the program.  After fifty rounds of a transfer the event of the stream is linked again, although
  it is linked already when the stream was made ready during the transfer: the assertion of \<^verbatim>\<open>nxe_link\<close> fails.  The handler and the loop
  follow every rule of the interface.
\<close>

theorem stream_relink_aborts:
  "(api fresh_mem)\<^sup>*\<^sup>* fresh_loop ready_loop \<and> good_handler fresh_mem toggle
    \<and> process_event \<lparr>has_do_write = \<lambda>_. True, has_do_read = \<lambda>_. False, has_do_publish = \<lambda>_. False\<rparr> toggle (Stream 0) (ready_loop, ()) = None"
proof -
  let ?cl = "\<lparr>has_do_write = \<lambda>_. True, has_do_read = \<lambda>_. False, has_do_publish = \<lambda>_. False\<rparr>"
  define st0 where "st0 = ready_loop\<lparr>ev_queue := (ev_queue ready_loop)\<lparr>l_first := l_next (ev_queue ready_loop) (Stream 0)\<rparr>\<rparr>"
  define st1 where "st1 = st0\<lparr>ev_queue := unlink (Stream 0) (ev_queue st0), ev_loop := (ev_loop st0)(Stream 0 := False)\<rparr>"
  have un: "nxe_unlink (Stream 0) st0 = Some st1" using ready_loop_fields(5) by (simp add: nxe_unlink_def st1_def) (simp add: st0_def)
  have f: "is_ready st1 0" "os_ready st1 0" "os_pair st1 0 = Some 0" "is_pair st1 0 = Some 0" "\<not> ev_loop st1 (Stream 0)"
    "ev_cls st1 (Stream 0) = NXE_EV_STREAM" "ev_receiver st1 (Stream 0) = Some (To_Ostream 0)"
    using ready_loop_fields by (simp_all add: st1_def st0_def)
  obtain st2 where t: "toggle (Do_write 0 0) (st1, ()) = Some (st2, ())" "ev_loop st2 (Stream 0)" "is_ready st2 0" "os_ready st2 0" "os_pair st2 0 = Some 0"
    using f by (simp add: toggle_def nxe_istream_set_ready_def nxe_istream_unset_ready_def emit_stream_def nxe_link_def Let_def)
  have "stream_loop toggle (Do_write 0 0) 0 0 (Stream 0) (Suc 49) (st1, ()) = None"
    using f t stream_loop_stuck [OF t(2-5), of 49] by (subst stream_loop.simps) simp
  then have "deliver ?cl toggle (Stream 0) (st1, ()) = None"
    using f by (simp add: deliver_def stream_event_deliver_def)
  then have "process_event ?cl toggle (Stream 0) (ready_loop, ()) = None"
    using un by (simp add: process_event_def st0_def Let_def)
  with ready_loop_reach toggle_good show ?thesis by blast
qed

end
