(* ===== verification/Nx_Timers.thy ===== *)
theory Nx_Timers
  imports Nx_Links
begin

text \<open>
  The timers of the event loop (\<^verbatim>\<open>lib/nx_event.c\<close>, \<^verbatim>\<open>nxe_set_timer\<close> to \<^verbatim>\<open>nxe_closest_tq\<close>).  All timers of one queue have
  the same timeout, so a queue is a list in the order of expiry and a timer is set and unset in
  constant time.  Times are unsigned 64-bit microseconds; a timer is a reference, its fields are functions of it.  The result
  \<open>None\<close> is a failed assertion.
\<close>

section \<open>Queues\<close>

definition NXE_NUMBER_OF_TIMER_QUEUES :: nat where "NXE_NUMBER_OF_TIMER_QUEUES = 8"

type_synonym timer = nat

record nxe_timers =
  tl_current_time :: nat
  tq_timeout :: "nat \<Rightarrow> nat"
  tq_first :: "nat \<Rightarrow> timer option"
  tq_last :: "nat \<Rightarrow> timer option"
  tm_next :: "timer \<Rightarrow> timer option"
  tm_prev :: "timer \<Rightarrow> timer option"
  tm_abs_time :: "timer \<Rightarrow> nat"

text \<open>The links of queue \<open>q\<close>; the link fields of the timers are shared by all queues.\<close>

definition tq :: "nat \<Rightarrow> nxe_timers \<Rightarrow> timer links" where
  "tq q ts = \<lparr>l_next = tm_next ts, l_prev = tm_prev ts, l_first = tq_first ts q, l_last = tq_last ts q\<rparr>"

definition set_tq :: "nat \<Rightarrow> timer links \<Rightarrow> nxe_timers \<Rightarrow> nxe_timers" where
  "set_tq q L ts = ts\<lparr>tm_next := l_next L, tm_prev := l_prev L, tq_first := (tq_first ts)(q := l_first L), tq_last := (tq_last ts)(q := l_last L)\<rparr>"

definition set_abs_time :: "timer \<Rightarrow> nat \<Rightarrow> nxe_timers \<Rightarrow> nxe_timers" where
  "set_abs_time t a ts = ts\<lparr>tm_abs_time := (tm_abs_time ts)(t := a)\<rparr>"

section \<open>Operations\<close>

definition nxe_set_timer_queue_timeout :: "nat \<Rightarrow> nat \<Rightarrow> nxe_timers \<Rightarrow> nxe_timers option" where
  "nxe_set_timer_queue_timeout q usec ts =
     (if q < NXE_NUMBER_OF_TIMER_QUEUES then Some (ts\<lparr>tq_timeout := (tq_timeout ts)(q := usec)\<rparr>) else None)"

definition nxe_set_timer :: "nat \<Rightarrow> timer \<Rightarrow> nxe_timers \<Rightarrow> nxe_timers option" where
  "nxe_set_timer q t ts =
     (if \<not> q < NXE_NUMBER_OF_TIMER_QUEUES then None
      else if \<not> (tm_abs_time ts t = 0 \<and> tm_next ts t = None \<and> tm_prev ts t = None) then None
      else Some (set_tq q (link_last t (tq q ts)) (set_abs_time t ((tl_current_time ts + tq_timeout ts q) mod 2 ^ 64) ts)))"

definition nxe_unset_timer :: "nat \<Rightarrow> timer \<Rightarrow> nxe_timers \<Rightarrow> nxe_timers option" where
  "nxe_unset_timer q t ts =
     (if tm_abs_time ts t = 0 then Some ts
      else if \<not> q < NXE_NUMBER_OF_TIMER_QUEUES then None
      else Some (set_abs_time t 0 (set_tq q (unlink t (tq q ts)) ts)))"

text \<open>A timer is due a quarter of a second before its time; the subtraction wraps.\<close>

definition due :: "nxe_timers \<Rightarrow> timer \<Rightarrow> bool" where
  "due ts t \<longleftrightarrow> nat ((int (tm_abs_time ts t) - 250000) mod 2 ^ 64) \<le> tl_current_time ts"

definition pop_first :: "timer \<Rightarrow> timer links \<Rightarrow> timer links" where
  "pop_first t L =
     (let L = L\<lparr>l_first := l_next L t\<rparr>;
          L = (case l_first L of Some q \<Rightarrow> set_prev q None L | None \<Rightarrow> L\<lparr>l_last := None\<rparr>)
      in set_prev t None (set_next t None L))"

definition pop_timer :: "nat \<Rightarrow> timer \<Rightarrow> nxe_timers \<Rightarrow> nxe_timers" where
  "pop_timer q t ts = set_abs_time t 0 (set_tq q (pop_first t (tq q ts)) ts)"

text \<open>
  The inner loop of \<^verbatim>\<open>nxe_process_timers\<close>.  The handler may do anything with the timers and the rest of the
  program, so the loop need not end.
\<close>

partial_function (option) process_queue ::
  "(timer \<Rightarrow> nxe_timers \<times> 'w \<Rightarrow> (nxe_timers \<times> 'w) option) \<Rightarrow> nat \<Rightarrow> nxe_timers \<times> 'w \<Rightarrow> (nxe_timers \<times> 'w) option" where
  "process_queue on_timeout q s =
     (case tq_first (fst s) q of None \<Rightarrow> Some s
      | Some t \<Rightarrow> if due (fst s) t then Option.bind (on_timeout t (pop_timer q t (fst s), snd s)) (process_queue on_timeout q) else Some s)"

fun process_queues ::
  "(timer \<Rightarrow> nxe_timers \<times> 'w \<Rightarrow> (nxe_timers \<times> 'w) option) \<Rightarrow> nat list \<Rightarrow> nxe_timers \<times> 'w \<Rightarrow> (nxe_timers \<times> 'w) option" where
  "process_queues on_timeout [] s = Some s"
| "process_queues on_timeout (q # qs) s = Option.bind (process_queue on_timeout q s) (process_queues on_timeout qs)"

definition nxe_process_timers ::
  "(timer \<Rightarrow> nxe_timers \<times> 'w \<Rightarrow> (nxe_timers \<times> 'w) option) \<Rightarrow> nxe_timers \<times> 'w \<Rightarrow> (nxe_timers \<times> 'w) option" where
  "nxe_process_timers on_timeout s = process_queues on_timeout [0..<NXE_NUMBER_OF_TIMER_QUEUES] s"

fun closest_loop :: "nxe_timers \<Rightarrow> nat list \<Rightarrow> nat option \<Rightarrow> nat option" where
  "closest_loop ts [] best = best"
| "closest_loop ts (q # qs) best =
     closest_loop ts qs
       (case tq_first ts q of None \<Rightarrow> best
        | Some t \<Rightarrow> (case best of None \<Rightarrow> Some q
                     | Some b \<Rightarrow> if tm_abs_time ts t < tm_abs_time ts (the (tq_first ts b)) then Some q else best))"

definition nxe_closest_tq :: "nxe_timers \<Rightarrow> nat option" where
  "nxe_closest_tq ts = closest_loop ts [0..<NXE_NUMBER_OF_TIMER_QUEUES] None"

section \<open>The invariant\<close>

text \<open>
  The queues hold disjoint lists, in the order of expiry; a timer that is in none of them has its fields clear,
  and one that is in a queue expires within the timeout of the queue from now.  The clock counts from
  the start of the host; times in the first quarter of a second, for which the test of \<open>due\<close> wraps, are excluded.
\<close>

definition in_range :: "nat \<Rightarrow> bool" where
  "in_range a \<longleftrightarrow> 250000 \<le> a \<and> a < 2 ^ 64"

lemma in_range_pos: "in_range a \<Longrightarrow> 0 < a"
  by (simp add: in_range_def)

definition queues :: "nxe_timers \<Rightarrow> (nat \<Rightarrow> timer list) \<Rightarrow> bool" where
  "queues ts qs \<longleftrightarrow> (\<forall>q < NXE_NUMBER_OF_TIMER_QUEUES. dlist (tq q ts) (qs q) \<and> sorted (map (tm_abs_time ts) (qs q))
       \<and> (\<forall>t \<in> set (qs q). in_range (tm_abs_time ts t) \<and> tm_abs_time ts t \<le> tl_current_time ts + tq_timeout ts q))
     \<and> (\<forall>q < NXE_NUMBER_OF_TIMER_QUEUES. \<forall>r < NXE_NUMBER_OF_TIMER_QUEUES. q \<noteq> r \<longrightarrow> set (qs q) \<inter> set (qs r) = {})
     \<and> (\<forall>t. (\<forall>q < NXE_NUMBER_OF_TIMER_QUEUES. t \<notin> set (qs q)) \<longrightarrow> tm_abs_time ts t = 0 \<and> tm_next ts t = None \<and> tm_prev ts t = None)"

lemma queuesD:
  assumes "queues ts qs" "q < NXE_NUMBER_OF_TIMER_QUEUES"
  shows "dlist (tq q ts) (qs q)" "sorted (map (tm_abs_time ts) (qs q))"
    "t \<in> set (qs q) \<Longrightarrow> in_range (tm_abs_time ts t)" "t \<in> set (qs q) \<Longrightarrow> tm_abs_time ts t \<le> tl_current_time ts + tq_timeout ts q"
    "r < NXE_NUMBER_OF_TIMER_QUEUES \<Longrightarrow> r \<noteq> q \<Longrightarrow> t \<in> set (qs q) \<Longrightarrow> t \<notin> set (qs r)"
  using assms unfolding queues_def by blast+

lemma queues_clear:
  "queues ts qs \<Longrightarrow> (\<And>q. q < NXE_NUMBER_OF_TIMER_QUEUES \<Longrightarrow> t \<notin> set (qs q)) \<Longrightarrow> tm_abs_time ts t = 0 \<and> tm_next ts t = None \<and> tm_prev ts t = None"
  unfolding queues_def by blast

lemma queues_set: "queues ts qs \<Longrightarrow> tm_abs_time ts t = 0 \<longleftrightarrow> (\<forall>q < NXE_NUMBER_OF_TIMER_QUEUES. t \<notin> set (qs q))"
  using queuesD(3) [of ts qs _ t] queues_clear [of ts qs t] in_range_pos [of "tm_abs_time ts t"] by (metis less_irrefl)

lemma queue_first: "queues ts qs \<Longrightarrow> q < NXE_NUMBER_OF_TIMER_QUEUES \<Longrightarrow> tq_first ts q = head_or (qs q) None"
  using dlist_first [OF queuesD(1)] by (simp add: tq_def)

text \<open>Changing one queue: the others are lists of other timers, whose links are not touched.\<close>

lemma queues_change:
  assumes qs: "queues ts qs" "q < NXE_NUMBER_OF_TIMER_QUEUES"
    and new: "dlist L xs" "sorted (map (tm_abs_time ts') xs)"
      "\<And>t. t \<in> set xs \<Longrightarrow> in_range (tm_abs_time ts' t) \<and> tm_abs_time ts' t \<le> tl_current_time ts + tq_timeout ts q"
    and frame: "\<And>t. t \<notin> set (qs q) \<Longrightarrow> t \<notin> set xs \<Longrightarrow> l_next L t = tm_next ts t \<and> l_prev L t = tm_prev ts t \<and> tm_abs_time ts' t = tm_abs_time ts t"
    and gone: "\<And>t. t \<in> set (qs q) \<Longrightarrow> t \<notin> set xs \<Longrightarrow> l_next L t = None \<and> l_prev L t = None \<and> tm_abs_time ts' t = 0"
    and own: "\<And>t r. t \<in> set xs \<Longrightarrow> r < NXE_NUMBER_OF_TIMER_QUEUES \<Longrightarrow> r \<noteq> q \<Longrightarrow> t \<notin> set (qs r)"
    and ts': "tm_next ts' = l_next L" "tm_prev ts' = l_prev L" "tq_first ts' = (tq_first ts)(q := l_first L)" "tq_last ts' = (tq_last ts)(q := l_last L)"
      "tl_current_time ts' = tl_current_time ts" "tq_timeout ts' = tq_timeout ts"
  shows "queues ts' (qs(q := xs))"
proof -
  have other: "dlist (tq r ts') (qs r) \<and> sorted (map (tm_abs_time ts') (qs r))
      \<and> (\<forall>t \<in> set (qs r). in_range (tm_abs_time ts' t) \<and> tm_abs_time ts' t \<le> tl_current_time ts' + tq_timeout ts' r)"
    if r: "r < NXE_NUMBER_OF_TIMER_QUEUES" "r \<noteq> q" for r
  proof -
    have fr: "l_next L t = tm_next ts t \<and> l_prev L t = tm_prev ts t \<and> tm_abs_time ts' t = tm_abs_time ts t" if "t \<in> set (qs r)" for t
      by (rule frame) (use that r own queuesD(5) [OF qs(1) r(1) qs(2)] in auto)
    have "dlist (tq r ts') (qs r) = dlist (tq r ts) (qs r)"
      by (rule dlist_cong) (use fr r(2) in \<open>simp_all add: tq_def ts'\<close>)
    moreover have eq: "map (tm_abs_time ts') (qs r) = map (tm_abs_time ts) (qs r)" using fr by simp
    moreover have "sorted (map (tm_abs_time ts') (qs r))" unfolding eq by (rule queuesD(2) [OF qs(1) r(1)])
    ultimately show ?thesis using queuesD(1,3,4) [OF qs(1) r(1)] fr by (auto simp: ts')
  qed
  have "tq q ts' = L" by (simp add: tq_def ts')
  with new have mine: "dlist (tq q ts') xs \<and> sorted (map (tm_abs_time ts') xs)
      \<and> (\<forall>t \<in> set xs. in_range (tm_abs_time ts' t) \<and> tm_abs_time ts' t \<le> tl_current_time ts' + tq_timeout ts' q)" by (simp add: ts')
  have clear: "tm_abs_time ts' t = 0 \<and> tm_next ts' t = None \<and> tm_prev ts' t = None"
    if t: "\<forall>r < NXE_NUMBER_OF_TIMER_QUEUES. t \<notin> set ((qs(q := xs)) r)" for t
  proof -
    have nx: "t \<notin> set xs" using t qs(2) by auto
    show ?thesis
    proof (cases "t \<in> set (qs q)")
      case True
      then show ?thesis using gone nx by (simp add: ts')
    next
      case False
      have "t \<notin> set (qs r)" if "r < NXE_NUMBER_OF_TIMER_QUEUES" for r using t that False by (cases "r = q") auto
      from queues_clear [OF qs(1) this] frame [OF False nx] show ?thesis by (simp add: ts')
    qed
  qed
  have dis: "set ((qs(q := xs)) r) \<inter> set ((qs(q := xs)) u) = {}"
    if "r < NXE_NUMBER_OF_TIMER_QUEUES" "u < NXE_NUMBER_OF_TIMER_QUEUES" "r \<noteq> u" for r u
  proof -
    consider "r = q" "u \<noteq> q" | "u = q" "r \<noteq> q" | "r \<noteq> q" "u \<noteq> q" using \<open>r \<noteq> u\<close> by blast
    then show ?thesis
    proof cases
      case 1
      then show ?thesis using own [OF _ \<open>u < _\<close>] by auto
    next
      case 2
      then show ?thesis using own [OF _ \<open>r < _\<close>] by auto
    next
      case 3
      then show ?thesis using queuesD(5) [OF qs(1) \<open>r < _\<close> \<open>u < _\<close>] \<open>r \<noteq> u\<close> by auto
    qed
  qed
  have all: "dlist (tq r ts') ((qs(q := xs)) r) \<and> sorted (map (tm_abs_time ts') ((qs(q := xs)) r))
      \<and> (\<forall>t \<in> set ((qs(q := xs)) r). in_range (tm_abs_time ts' t) \<and> tm_abs_time ts' t \<le> tl_current_time ts' + tq_timeout ts' r)"
    if "r < NXE_NUMBER_OF_TIMER_QUEUES" for r
  proof (cases "r = q")
    case True
    show ?thesis unfolding True fun_upd_same by (fact mine)
  next
    case False
    show ?thesis unfolding fun_upd_other [OF False] by (rule other [OF that False])
  qed
  show ?thesis unfolding queues_def using all clear dis by blast
qed

section \<open>The operations keep it\<close>

lemma set_timer_ok:
  assumes qs: "queues ts qs" "q < NXE_NUMBER_OF_TIMER_QUEUES" and t: "tm_abs_time ts t = 0" and r: "in_range (tl_current_time ts + tq_timeout ts q)"
  shows "\<exists>ts'. nxe_set_timer q t ts = Some ts' \<and> queues ts' (qs(q := qs q @ [t])) \<and> tm_abs_time ts' t = tl_current_time ts + tq_timeout ts q"
proof -
  have nt: "t \<notin> set (qs r)" if "r < NXE_NUMBER_OF_TIMER_QUEUES" for r using queues_set [OF qs(1)] t that by blast
  let ?a = "tl_current_time ts + tq_timeout ts q"
  define ts' where "ts' = set_tq q (link_last t (tq q ts)) (set_abs_time t ?a ts)"
  have "nxe_set_timer q t ts = Some ts'"
    using qs(2) t queues_clear [OF qs(1) nt] r by (simp add: nxe_set_timer_def ts'_def in_range_def)
  moreover have abs: "tm_abs_time ts' = (tm_abs_time ts)(t := ?a)" by (simp add: ts'_def set_tq_def set_abs_time_def)
  moreover have "queues ts' (qs(q := qs q @ [t]))"
  proof (rule queues_change [OF qs])
    show "dlist (link_last t (tq q ts)) (qs q @ [t])" using dlist_last [OF queuesD(1) [OF qs] nt [OF qs(2)]] .
    have eq: "map (tm_abs_time ts') (qs q @ [t]) = map (tm_abs_time ts) (qs q) @ [?a]" using nt [OF qs(2)] by (auto simp: abs)
    show "sorted (map (tm_abs_time ts') (qs q @ [t]))"
      unfolding eq using queuesD(2,4) [OF qs] by (auto simp: sorted_append)
    show "in_range (tm_abs_time ts' x) \<and> tm_abs_time ts' x \<le> ?a" if "x \<in> set (qs q @ [t])" for x
      using that queuesD(3,4) [OF qs] r by (auto simp: abs)
    show "l_next (link_last t (tq q ts)) x = tm_next ts x \<and> l_prev (link_last t (tq q ts)) x = tm_prev ts x \<and> tm_abs_time ts' x = tm_abs_time ts x"
      if "x \<notin> set (qs q)" "x \<notin> set (qs q @ [t])" for x
      using links_frame [OF queuesD(1) [OF qs] that(1), of t] that(2) by (simp add: tq_def abs)
  qed (use nt queuesD(5) [OF qs(1)] qs(2) in \<open>auto simp: ts'_def set_tq_def set_abs_time_def\<close>)
  ultimately show ?thesis by simp
qed

lemma unlink_timer_ok:
  assumes qs: "queues ts qs" "q < NXE_NUMBER_OF_TIMER_QUEUES" and t: "qs q = xs @ t # ys"
  shows "queues (set_abs_time t 0 (set_tq q (unlink t (tq q ts)) ts)) (qs(q := xs @ ys))"
proof -
  define ts' where "ts' = set_abs_time t 0 (set_tq q (unlink t (tq q ts)) ts)"
  have d: "dlist (tq q ts) (xs @ t # ys)" using queuesD(1) [OF qs] t by simp
  have abs: "tm_abs_time ts' = (tm_abs_time ts)(t := 0)" by (simp add: ts'_def set_tq_def set_abs_time_def)
  have nt: "t \<notin> set (xs @ ys)" using dlist_distinct [OF d] by auto
  have "queues ts' (qs(q := xs @ ys))"
  proof (rule queues_change [OF qs])
    show "dlist (unlink t (tq q ts)) (xs @ ys)" by (rule dlist_unlink [OF d])
    have eq: "map (tm_abs_time ts') (xs @ ys) = map (tm_abs_time ts) (xs @ ys)" using nt by (auto simp: abs)
    show "sorted (map (tm_abs_time ts') (xs @ ys))"
      unfolding eq using queuesD(2) [OF qs] by (simp add: t sorted_append)
    show "in_range (tm_abs_time ts' x) \<and> tm_abs_time ts' x \<le> tl_current_time ts + tq_timeout ts q" if "x \<in> set (xs @ ys)" for x
      using that queuesD(3,4) [OF qs, of x] nt by (auto simp: abs t)
    show "l_next (unlink t (tq q ts)) x = tm_next ts x \<and> l_prev (unlink t (tq q ts)) x = tm_prev ts x \<and> tm_abs_time ts' x = tm_abs_time ts x"
      if "x \<notin> set (qs q)" for x
      using links_frame_unlink [OF d, of x] that by (simp add: tq_def abs t)
    show "l_next (unlink t (tq q ts)) x = None \<and> l_prev (unlink t (tq q ts)) x = None \<and> tm_abs_time ts' x = 0"
      if "x \<in> set (qs q)" "x \<notin> set (xs @ ys)" for x
      using that unlink_clears [of t "tq q ts"] by (auto simp: t abs)
    show "x \<notin> set (qs r)" if "x \<in> set (xs @ ys)" "r < NXE_NUMBER_OF_TIMER_QUEUES" "r \<noteq> q" for x r
      using that queuesD(5) [OF qs that(2,3), of x] by (auto simp: t)
  qed (simp_all add: ts'_def set_tq_def set_abs_time_def)
  then show ?thesis by (simp add: ts'_def)
qed

lemma unset_timer_ok:
  assumes "queues ts qs" "q < NXE_NUMBER_OF_TIMER_QUEUES" "t \<in> set (qs q)"
  shows "\<exists>ts'. nxe_unset_timer q t ts = Some ts' \<and> queues ts' (qs(q := remove1 t (qs q))) \<and> tm_abs_time ts' t = 0"
proof -
  obtain xs ys where t: "qs q = xs @ t # ys" using assms(3) by (auto dest: split_list)
  have "t \<notin> set xs" using dlist_distinct [OF queuesD(1) [OF assms(1,2)]] by (auto simp: t)
  then have "remove1 t (qs q) = xs @ ys" by (simp add: t remove1_append)
  moreover have "tm_abs_time ts t \<noteq> 0" using queuesD(3) [OF assms] in_range_pos by auto
  ultimately show ?thesis using unlink_timer_ok [OF assms(1,2) t] assms(2)
    by (simp add: nxe_unset_timer_def) (simp add: set_abs_time_def)
qed

lemma pop_first_unlink: "dlist L (t # xs) \<Longrightarrow> pop_first t L = unlink t L"
  by (cases xs) (auto simp: dlist_def pop_first_def links_defs)

lemma pop_timer_ok:
  assumes "queues ts qs" "q < NXE_NUMBER_OF_TIMER_QUEUES" "qs q = t # xs"
  shows "queues (pop_timer q t ts) (qs(q := xs))"
  using unlink_timer_ok [OF assms(1,2), of "[]" t xs] pop_first_unlink [of "tq q ts" t xs] queuesD(1) [OF assms(1,2)] assms(3)
  by (simp add: pop_timer_def)

lemma queue_timeout_ok:
  assumes "queues ts qs" "nxe_set_timer_queue_timeout q u ts = Some ts'" "qs q = [] \<or> tq_timeout ts q \<le> u"
  shows "queues ts' qs"
proof -
  have ts': "ts' = ts\<lparr>tq_timeout := (tq_timeout ts)(q := u)\<rparr>" using assms(2) by (auto simp: nxe_set_timer_queue_timeout_def split: if_splits)
  have "tq r ts' = tq r ts" for r by (simp add: tq_def ts')
  moreover have "tm_abs_time ts t \<le> tl_current_time ts + ((tq_timeout ts)(q := u)) r" if "t \<in> set (qs r)" "r < NXE_NUMBER_OF_TIMER_QUEUES" for r t
    using queuesD(4) [OF assms(1) that(2,1)] assms(3) that(1) by (cases "r = q") auto
  ultimately show ?thesis using assms(1) unfolding queues_def by (simp add: ts')
qed

lemma clock_ok_timers:
  assumes "queues ts qs" "tl_current_time ts \<le> c"
  shows "queues (ts\<lparr>tl_current_time := c\<rparr>) qs"
proof -
  have "tq r (ts\<lparr>tl_current_time := c\<rparr>) = tq r ts" for r by (simp add: tq_def)
  moreover have "tm_abs_time ts t \<le> c + tq_timeout ts r" if "t \<in> set (qs r)" "r < NXE_NUMBER_OF_TIMER_QUEUES" for r t
    using queuesD(4) [OF assms(1) that(2,1)] assms(2) by simp
  ultimately show ?thesis using assms(1) unfolding queues_def by simp
qed

section \<open>Firing\<close>

lemma due_in_range: "in_range (tm_abs_time ts t) \<Longrightarrow> due ts t \<longleftrightarrow> tm_abs_time ts t \<le> tl_current_time ts + 250000"
proof -
  assume r: "in_range (tm_abs_time ts t)"
  then have "(int (tm_abs_time ts t) - 250000) mod 2 ^ 64 = int (tm_abs_time ts t) - 250000"
    by (intro mod_pos_pos_trivial) (simp_all add: in_range_def)
  with r show ?thesis by (auto simp: due_def in_range_def)
qed

lemma take_due:
  assumes "sorted (map (tm_abs_time ts) xs)" "\<forall>t \<in> set xs. in_range (tm_abs_time ts t)"
  shows "takeWhile (due ts) xs = filter (due ts) xs" "dropWhile (due ts) xs = filter (\<lambda>t. \<not> due ts t) xs"
proof -
  have "takeWhile (due ts) xs = filter (due ts) xs \<and> dropWhile (due ts) xs = filter (\<lambda>t. \<not> due ts t) xs"
    using assms
  proof (induction xs)
    case (Cons t xs)
    have "\<not> due ts x" if "\<not> due ts t" "x \<in> set xs" for x
      using that Cons.prems due_in_range [of ts t] due_in_range [of ts x] by force
    with Cons show ?case by (auto simp: filter_empty_conv intro: filter_True [symmetric])
  qed simp
  then show "takeWhile (due ts) xs = filter (due ts) xs" "dropWhile (due ts) xs = filter (\<lambda>t. \<not> due ts t) xs" by simp_all
qed

text \<open>What firing a set of timers changes besides the queues.\<close>

definition fired_from :: "timer set \<Rightarrow> nxe_timers \<Rightarrow> nxe_timers \<Rightarrow> bool" where
  "fired_from F ts ts' \<longleftrightarrow> tl_current_time ts' = tl_current_time ts \<and> tq_timeout ts' = tq_timeout ts
     \<and> tm_abs_time ts' = (\<lambda>t. if t \<in> F then 0 else tm_abs_time ts t)"

lemma pop_fired: "fired_from {t} ts (pop_timer q t ts)"
  by (auto simp: fired_from_def pop_timer_def set_abs_time_def set_tq_def)

lemma fired_trans: "fired_from F ts ts1 \<Longrightarrow> fired_from G ts1 ts2 \<Longrightarrow> fired_from (F \<union> G) ts ts2"
  by (auto simp: fired_from_def)

lemma fired_due: "fired_from F ts ts' \<Longrightarrow> t \<notin> F \<Longrightarrow> due ts' t = due ts t"
  by (simp add: fired_from_def due_def)

lemma process_queue_fires:
  assumes h: "\<And>t ts w. on_timeout t (ts, w) = Some (ts, f t w)" and qs: "queues ts qs" "q < NXE_NUMBER_OF_TIMER_QUEUES"
  shows "\<exists>ts'. process_queue on_timeout q (ts, w) = Some (ts', fold f (takeWhile (due ts) (qs q)) w)
    \<and> queues ts' (qs(q := dropWhile (due ts) (qs q))) \<and> fired_from (set (takeWhile (due ts) (qs q))) ts ts'"
  using qs
proof (induction "qs q" arbitrary: qs ts w)
  case Nil
  then have "tq_first ts q = None" using queue_first [OF Nil(2,3)] by simp
  moreover have "qs(q := []) = qs" using Nil(1) by auto
  ultimately show ?case using Nil(2) by (subst process_queue.simps) (simp add: Nil(1) [symmetric] fired_from_def)
next
  case (Cons t xs)
  have first: "tq_first ts q = Some t" using queue_first [OF Cons(3,4)] by (simp add: Cons(2) [symmetric])
  show ?case
  proof (cases "due ts t")
    case True
    let ?ts = "pop_timer q t ts"
    have q1: "queues ?ts (qs(q := xs))" by (rule pop_timer_ok [OF Cons(3,4)]) (simp add: Cons(2))
    obtain ts' where ts': "process_queue on_timeout q (?ts, f t w) = Some (ts', fold f (takeWhile (due ?ts) xs) (f t w))"
      "queues ts' (qs(q := dropWhile (due ?ts) xs))" "fired_from (set (takeWhile (due ?ts) xs)) ?ts ts'"
      using Cons(1) [of "qs(q := xs)" ?ts "f t w"] q1 Cons(4) by auto
    have "t \<notin> set xs" using dlist_distinct [OF queuesD(1) [OF Cons(3,4)]] by (simp add: Cons(2) [symmetric])
    then have same: "takeWhile (due ?ts) xs = takeWhile (due ts) xs" "dropWhile (due ?ts) xs = dropWhile (due ts) xs"
      using fired_due [OF pop_fired, of _ t q ts] by (metis (no_types, lifting) singletonD takeWhile_cong, metis (no_types, lifting) singletonD dropWhile_cong)
    have "process_queue on_timeout q (ts, w) = process_queue on_timeout q (?ts, f t w)"
      by (subst process_queue.simps) (simp add: first True h)
    then show ?thesis using ts' fired_trans [OF pop_fired ts'(3)] True by (auto simp: same Cons(2) [symmetric])
  next
    case False
    then have "process_queue on_timeout q (ts, w) = Some (ts, w)" by (subst process_queue.simps) (simp add: first)
    moreover have "qs(q := t # xs) = qs" using Cons(2) by auto
    ultimately show ?thesis using False Cons(3) by (simp add: Cons(2) [symmetric] fired_from_def)
  qed
qed

definition due_of :: "nxe_timers \<Rightarrow> (nat \<Rightarrow> timer list) \<Rightarrow> nat list \<Rightarrow> timer list" where
  "due_of ts qs rs = concat (map (\<lambda>r. filter (due ts) (qs r)) rs)"

lemma process_queues_fires:
  assumes h: "\<And>t ts w. on_timeout t (ts, w) = Some (ts, f t w)" and qs: "queues ts qs"
    and rs: "distinct rs" "\<forall>r \<in> set rs. r < NXE_NUMBER_OF_TIMER_QUEUES"
  shows "\<exists>ts'. process_queues on_timeout rs (ts, w) = Some (ts', fold f (due_of ts qs rs) w)
    \<and> queues ts' (\<lambda>r. if r \<in> set rs then filter (\<lambda>t. \<not> due ts t) (qs r) else qs r) \<and> fired_from (set (due_of ts qs rs)) ts ts'"
  using qs rs
proof (induction rs arbitrary: qs ts w)
  case Nil
  then show ?case by (simp add: due_of_def fired_from_def)
next
  case (Cons q rs)
  have q: "q < NXE_NUMBER_OF_TIMER_QUEUES" "q \<notin> set rs" using Cons.prems by auto
  note d = queuesD [OF Cons.prems(1) q(1)]
  have tk: "takeWhile (due ts) (qs q) = filter (due ts) (qs q)" "dropWhile (due ts) (qs q) = filter (\<lambda>t. \<not> due ts t) (qs q)"
    using take_due [OF d(2)] d(3) by auto
  let ?qs = "qs(q := filter (\<lambda>t. \<not> due ts t) (qs q))"
  obtain ts1 where ts1: "process_queue on_timeout q (ts, w) = Some (ts1, fold f (filter (due ts) (qs q)) w)"
    "queues ts1 ?qs" "fired_from (set (filter (due ts) (qs q))) ts ts1"
    using process_queue_fires [where on_timeout = on_timeout and f = f, OF h Cons.prems(1) q(1), of w] unfolding tk by blast
  have same: "filter (due ts1) (qs r) = filter (due ts) (qs r)" "filter (\<lambda>t. \<not> due ts1 t) (qs r) = filter (\<lambda>t. \<not> due ts t) (qs r)"
    if r: "r \<in> set rs" for r
  proof -
    have "t \<notin> set (filter (due ts) (qs q))" if "t \<in> set (qs r)" for t
      using d(5) [of r t] that r q Cons.prems(3) by auto
    with fired_due [OF ts1(3)] show "filter (due ts1) (qs r) = filter (due ts) (qs r)" "filter (\<lambda>t. \<not> due ts1 t) (qs r) = filter (\<lambda>t. \<not> due ts t) (qs r)"
      by (auto intro!: filter_cong)
  qed
  have dof: "due_of ts1 ?qs rs = due_of ts qs rs"
    unfolding due_of_def by (rule arg_cong [of _ _ concat], rule map_cong) (use same q(2) in auto)
  have fq: "(\<lambda>r. if r \<in> set rs then filter (\<lambda>t. \<not> due ts1 t) (?qs r) else ?qs r)
      = (\<lambda>r. if r \<in> set (q # rs) then filter (\<lambda>t. \<not> due ts t) (qs r) else qs r)"
    using same q(2) by (auto simp: fun_eq_iff)
  obtain ts' where ts': "process_queues on_timeout rs (ts1, fold f (filter (due ts) (qs q)) w)
        = Some (ts', fold f (due_of ts qs rs) (fold f (filter (due ts) (qs q)) w))"
    "queues ts' (\<lambda>r. if r \<in> set (q # rs) then filter (\<lambda>t. \<not> due ts t) (qs r) else qs r)" "fired_from (set (due_of ts qs rs)) ts1 ts'"
    using Cons.IH [OF ts1(2), of "fold f (filter (due ts) (qs q)) w"] Cons.prems(2,3) unfolding dof fq by auto
  show ?case
    using ts' fired_trans [OF ts1(3) ts'(3)] ts1(1) by (intro exI [of _ ts']) (simp add: due_of_def)
qed

lemma due_of_distinct:
  assumes "queues ts qs" "distinct rs" "\<forall>r \<in> set rs. r < NXE_NUMBER_OF_TIMER_QUEUES"
  shows "distinct (due_of ts qs rs)"
  using assms(2,3)
proof (induction rs)
  case (Cons q rs)
  have "distinct (qs q)" using dlist_distinct [OF queuesD(1) [OF assms(1)]] Cons.prems by simp
  moreover have "set (due_of ts qs rs) \<inter> set (filter (due ts) (qs q)) = {}"
    using queuesD(5) [OF assms(1), of q] Cons.prems by (auto simp: due_of_def)
  ultimately show ?case using Cons by (auto simp: due_of_def)
qed (simp add: due_of_def)

lemma closest_loop_best:
  assumes qs: "queues ts qs" and rs: "\<forall>r \<in> set rs. r < NXE_NUMBER_OF_TIMER_QUEUES"
    and best: "case best of None \<Rightarrow> \<forall>r \<in> R. qs r = [] | Some b \<Rightarrow> b < NXE_NUMBER_OF_TIMER_QUEUES \<and> qs b \<noteq> []
        \<and> (\<forall>r \<in> R. \<forall>t \<in> set (qs r). tm_abs_time ts (hd (qs b)) \<le> tm_abs_time ts t)"
  shows "case closest_loop ts rs best of None \<Rightarrow> \<forall>r \<in> R \<union> set rs. qs r = [] | Some b \<Rightarrow> b < NXE_NUMBER_OF_TIMER_QUEUES \<and> qs b \<noteq> []
        \<and> (\<forall>r \<in> R \<union> set rs. \<forall>t \<in> set (qs r). tm_abs_time ts (hd (qs b)) \<le> tm_abs_time ts t)"
  using rs best
proof (induction rs arbitrary: best R)
  case (Cons q rs)
  have q: "q < NXE_NUMBER_OF_TIMER_QUEUES" using Cons.prems by simp
  have fst: "tq_first ts r = (case qs r of [] \<Rightarrow> None | t # _ \<Rightarrow> Some t)" if "r < NXE_NUMBER_OF_TIMER_QUEUES" for r
    using queue_first [OF qs that] by (cases "qs r") simp_all
  have low: "tm_abs_time ts (hd (qs q)) \<le> tm_abs_time ts t" if "t \<in> set (qs q)" for t
    using queuesD(2) [OF qs q] that by (cases "qs q") auto
  let ?best = "case tq_first ts q of None \<Rightarrow> best | Some t \<Rightarrow> (case best of None \<Rightarrow> Some q
      | Some b \<Rightarrow> if tm_abs_time ts t < tm_abs_time ts (the (tq_first ts b)) then Some q else best)"
  have "case ?best of None \<Rightarrow> \<forall>r \<in> insert q R. qs r = [] | Some b \<Rightarrow> b < NXE_NUMBER_OF_TIMER_QUEUES \<and> qs b \<noteq> []
        \<and> (\<forall>r \<in> insert q R. \<forall>t \<in> set (qs r). tm_abs_time ts (hd (qs b)) \<le> tm_abs_time ts t)"
  proof (cases "qs q")
    case Nil
    then show ?thesis using Cons.prems(2) fst [OF q] by (cases best) auto
  next
    case q': (Cons t ts')
    show ?thesis
    proof (cases best)
      case None
      then show ?thesis using Cons.prems(2) fst [OF q] q low by (simp add: q')
    next
      case (Some b)
      then obtain u us where b: "qs b = u # us" "b < NXE_NUMBER_OF_TIMER_QUEUES" using Cons.prems(2) by (cases "qs b") auto
      have all: "\<forall>r \<in> R. \<forall>t \<in> set (qs r). tm_abs_time ts u \<le> tm_abs_time ts t" using Cons.prems(2) Some b(1) by simp
      have qt: "\<forall>x \<in> set (qs q). tm_abs_time ts t \<le> tm_abs_time ts x" using low by (simp add: q')
      show ?thesis
      proof (cases "tm_abs_time ts t < tm_abs_time ts u")
        case True
        then have "\<forall>r \<in> R. \<forall>x \<in> set (qs r). tm_abs_time ts t \<le> tm_abs_time ts x" using all by fastforce
        with True show ?thesis using fst [OF q] fst [OF b(2)] q qt by (simp add: q' Some b(1))
      next
        case False
        then have "\<forall>x \<in> set (qs q). tm_abs_time ts u \<le> tm_abs_time ts x" using qt by fastforce
        with False show ?thesis using fst [OF q] fst [OF b(2)] b(2) all by (simp add: q' Some b(1))
      qed
    qed
  qed
  then have "case closest_loop ts rs ?best of None \<Rightarrow> \<forall>r \<in> insert q R \<union> set rs. qs r = [] | Some b \<Rightarrow> b < NXE_NUMBER_OF_TIMER_QUEUES \<and> qs b \<noteq> []
        \<and> (\<forall>r \<in> insert q R \<union> set rs. \<forall>t \<in> set (qs r). tm_abs_time ts (hd (qs b)) \<le> tm_abs_time ts t)"
    by (rule Cons.IH [rotated]) (use Cons.prems(1) in simp)
  moreover have "insert q R \<union> set rs = R \<union> set (q # rs)" by auto
  ultimately show ?case by (simp only: closest_loop.simps)
next
  case Nil
  then show ?case by (cases best) simp_all
qed

section \<open>Every use of the timers\<close>

text \<open>
  The timers that the program can have, with the contents of the queues.  It follows the rules of the
  interface: a timer is unset in the queue it was set in, and the timeout of a queue is lowered only while it is empty.
\<close>

inductive timers_reach :: "nxe_timers \<Rightarrow> (nat \<Rightarrow> timer list) \<Rightarrow> bool" where
  init: "timers_reach \<lparr>tl_current_time = c, tq_timeout = \<lambda>_. 0, tq_first = \<lambda>_. None, tq_last = \<lambda>_. None,
      tm_next = \<lambda>_. None, tm_prev = \<lambda>_. None, tm_abs_time = \<lambda>_. 0\<rparr> (\<lambda>_. [])"
| timeout: "timers_reach ts qs \<Longrightarrow> qs q = [] \<or> tq_timeout ts q \<le> u \<Longrightarrow> nxe_set_timer_queue_timeout q u ts = Some ts' \<Longrightarrow> timers_reach ts' qs"
| set: "timers_reach ts qs \<Longrightarrow> in_range (tl_current_time ts + tq_timeout ts q) \<Longrightarrow> nxe_set_timer q t ts = Some ts' \<Longrightarrow> timers_reach ts' (qs(q := qs q @ [t]))"
| unset: "timers_reach ts qs \<Longrightarrow> q < NXE_NUMBER_OF_TIMER_QUEUES \<Longrightarrow> t \<in> set (qs q) \<Longrightarrow> nxe_unset_timer q t ts = Some ts' \<Longrightarrow> timers_reach ts' (qs(q := remove1 t (qs q)))"
| clock: "timers_reach ts qs \<Longrightarrow> tl_current_time ts \<le> c \<Longrightarrow> timers_reach (ts\<lparr>tl_current_time := c\<rparr>) qs"
| fire: "timers_reach ts qs \<Longrightarrow> q < NXE_NUMBER_OF_TIMER_QUEUES \<Longrightarrow> tq_first ts q = Some t \<Longrightarrow> timers_reach (pop_timer q t ts) (qs(q := tl (qs q)))"

lemma timers_reach_ok: "timers_reach ts qs \<Longrightarrow> queues ts qs"
proof (induction rule: timers_reach.induct)
  case (init c)
  show ?case by (simp add: queues_def tq_def dlist_def)
next
  case (timeout ts qs q u ts')
  show ?case by (rule queue_timeout_ok [OF timeout.IH timeout.hyps(3,2)])
next
  case (set ts qs q t ts')
  then have "q < NXE_NUMBER_OF_TIMER_QUEUES" "tm_abs_time ts t = 0" by (auto simp: nxe_set_timer_def split: if_splits)
  from set_timer_ok [OF set.IH this set.hyps(2)] set.hyps(3) show ?case by (auto simp del: fun_upd_apply)
next
  case (unset ts qs q t ts')
  from unset_timer_ok [OF unset.IH unset.hyps(2,3)] unset.hyps(4) show ?case by (auto simp del: fun_upd_apply)
next
  case (clock ts qs c)
  show ?case by (rule clock_ok_timers [OF clock.IH clock.hyps(2)])
next
  case (fire ts qs q t)
  then have "qs q = t # tl (qs q)" using queue_first [of ts qs q] by (cases "qs q") auto
  with pop_timer_ok [OF fire.IH fire.hyps(2)] show ?case by blast
qed

lemma in_queues: "queues ts qs \<Longrightarrow> 0 < tm_abs_time ts t \<Longrightarrow> \<exists>q < NXE_NUMBER_OF_TIMER_QUEUES. t \<in> set (qs q)"
  using queues_set [of ts qs t] by auto

lemma filter_one_queue:
  assumes "queues ts qs" "q < NXE_NUMBER_OF_TIMER_QUEUES" "set rs \<subseteq> {..<NXE_NUMBER_OF_TIMER_QUEUES}" "distinct rs"
  shows "filter (\<lambda>t. t \<in> set (qs q)) (due_of ts qs rs) = (if q \<in> set rs then filter (due ts) (qs q) else [])"
  using assms(3,4)
proof (induction rs)
  case Nil
  then show ?case by (simp add: due_of_def)
next
  case (Cons r rs)
  have c: "due_of ts qs (r # rs) = filter (due ts) (qs r) @ due_of ts qs rs" by (simp add: due_of_def)
  have "filter (\<lambda>t. t \<in> set (qs q)) (filter (due ts) (qs r)) = (if q = r then filter (due ts) (qs r) else [])"
    using queuesD(5) [OF assms(1), of r q] assms(2) Cons.prems(1) by (auto simp: filter_empty_conv intro: filter_cong)
  then show ?case using Cons by (auto simp: c)
qed

lemma due_of_sorted:
  assumes "queues ts qs" "q < NXE_NUMBER_OF_TIMER_QUEUES"
  shows "sorted (map (tm_abs_time ts) (filter (\<lambda>t. t \<in> set (qs q)) (due_of ts qs [0..<NXE_NUMBER_OF_TIMER_QUEUES])))"
proof -
  have "sorted (map (tm_abs_time ts) (filter (due ts) (qs q)))" using queuesD(2) [OF assms] by (rule sorted_filter)
  then show ?thesis using filter_one_queue [OF assms, of "[0..<NXE_NUMBER_OF_TIMER_QUEUES]"] assms(2) by (simp add: lessThan_atLeast0)
qed

text \<open>
  C7: When timers are processed, exactly the set timers that are due (a quarter of a second early) fire, each
  once, queue after queue and in each queue in the order of their expiry, and they are no longer set; every other timer stays set and none of those left is due.
  This is for handlers that do not set or unset timers; with them processing ends.
\<close>

theorem timers_fire_when_due:
  assumes reach: "timers_reach ts qs" and h: "\<And>t ts w. on_timeout t (ts, w) = Some (ts, f t w)"
  shows "\<exists>ts' fired. nxe_process_timers on_timeout (ts, w) = Some (ts', fold f fired w) \<and> distinct fired
    \<and> fired = concat (map (\<lambda>q. filter (\<lambda>t. tm_abs_time ts t \<le> tl_current_time ts + 250000) (qs q)) [0..<NXE_NUMBER_OF_TIMER_QUEUES])
    \<and> (\<forall>q < NXE_NUMBER_OF_TIMER_QUEUES. sorted (map (tm_abs_time ts) (filter (\<lambda>t. t \<in> set (qs q)) fired)))
    \<and> set fired = {t. tm_abs_time ts t \<noteq> 0 \<and> tm_abs_time ts t \<le> tl_current_time ts + 250000}
    \<and> tm_abs_time ts' = (\<lambda>t. if t \<in> set fired then 0 else tm_abs_time ts t)
    \<and> (\<forall>t. tm_abs_time ts' t \<noteq> 0 \<longrightarrow> tl_current_time ts' + 250000 < tm_abs_time ts' t)"
proof -
  have qs: "queues ts qs" by (rule timers_reach_ok [OF reach])
  let ?rs = "[0..<NXE_NUMBER_OF_TIMER_QUEUES]"
  obtain ts' where ts': "process_queues on_timeout ?rs (ts, w) = Some (ts', fold f (due_of ts qs ?rs) w)"
    "queues ts' (\<lambda>r. if r \<in> set ?rs then filter (\<lambda>t. \<not> due ts t) (qs r) else qs r)" "fired_from (set (due_of ts qs ?rs)) ts ts'"
    using process_queues_fires [where on_timeout = on_timeout and f = f, OF h qs, of ?rs w] by auto
  have fired: "set (due_of ts qs ?rs) = {t. tm_abs_time ts t \<noteq> 0 \<and> tm_abs_time ts t \<le> tl_current_time ts + 250000}"
  proof (intro set_eqI iffI)
    fix t assume "t \<in> set (due_of ts qs ?rs)"
    then obtain q where "q < NXE_NUMBER_OF_TIMER_QUEUES" "t \<in> set (qs q)" "due ts t" by (auto simp: due_of_def)
    then show "t \<in> {t. tm_abs_time ts t \<noteq> 0 \<and> tm_abs_time ts t \<le> tl_current_time ts + 250000}"
      using queuesD(3) [OF qs, of q t] due_in_range in_range_pos by auto
  next
    fix t assume "t \<in> {t. tm_abs_time ts t \<noteq> 0 \<and> tm_abs_time ts t \<le> tl_current_time ts + 250000}"
    then obtain q where "q < NXE_NUMBER_OF_TIMER_QUEUES" "t \<in> set (qs q)" "tm_abs_time ts t \<le> tl_current_time ts + 250000"
      using in_queues [OF qs, of t] by auto
    then show "t \<in> set (due_of ts qs ?rs)" using queuesD(3) [OF qs, of q t] due_in_range by (auto simp: due_of_def)
  qed
  have "tl_current_time ts' + 250000 < tm_abs_time ts' t" if "tm_abs_time ts' t \<noteq> 0" for t
    using that ts'(3) fired by (auto simp: fired_from_def split: if_splits)
  moreover have "distinct (due_of ts qs ?rs)" by (rule due_of_distinct [OF qs]) auto
  moreover have "due_of ts qs ?rs = concat (map (\<lambda>q. filter (\<lambda>t. tm_abs_time ts t \<le> tl_current_time ts + 250000) (qs q)) ?rs)"
    unfolding due_of_def by (intro arg_cong [of _ _ concat] map_cong filter_cong refl due_in_range) (use queuesD(3) [OF qs] in auto)
  moreover have "\<forall>q < NXE_NUMBER_OF_TIMER_QUEUES. sorted (map (tm_abs_time ts) (filter (\<lambda>t. t \<in> set (qs q)) (due_of ts qs ?rs)))"
    using due_of_sorted [OF qs] by blast
  moreover have "tm_abs_time ts' = (\<lambda>t. if t \<in> set (due_of ts qs ?rs) then 0 else tm_abs_time ts t)" using ts'(3) by (simp add: fired_from_def)
  ultimately show ?thesis using ts'(1) fired unfolding nxe_process_timers_def by blast
qed

text \<open>Two timers of a second, set half a second apart, 0.8 seconds after the first was set\<close>

definition sample_timers :: nxe_timers where
  "sample_timers = (the (nxe_set_timer 0 2 ((the (nxe_set_timer 0 1 (the (nxe_set_timer_queue_timeout 0 1000000
     \<lparr>tl_current_time = 300000, tq_timeout = \<lambda>_. 0, tq_first = \<lambda>_. None, tq_last = \<lambda>_. None,
      tm_next = \<lambda>_. None, tm_prev = \<lambda>_. None, tm_abs_time = \<lambda>_. 0\<rparr>))))\<lparr>tl_current_time := 800000\<rparr>)))\<lparr>tl_current_time := 1100000\<rparr>"

lemmas sample_timers_defs = nxe_set_timer_queue_timeout_def nxe_set_timer_def NXE_NUMBER_OF_TIMER_QUEUES_def in_range_def
  set_tq_def set_abs_time_def tq_def link_last_def set_next_def set_prev_def Let_def

lemma sample_timers_reach: "timers_reach sample_timers ((\<lambda>_. [])(0 := [] @ [1], 0 := ([] @ [1]) @ [2]))"
proof -
  define t0 where "t0 = \<lparr>tl_current_time = 300000, tq_timeout = \<lambda>_. 0, tq_first = \<lambda>_. None, tq_last = \<lambda>_. None,
      tm_next = \<lambda>_. None, tm_prev = \<lambda>_. None, tm_abs_time = \<lambda>_. 0\<rparr>"
  define t1 where "t1 = the (nxe_set_timer_queue_timeout 0 1000000 t0)"
  define t2 where "t2 = the (nxe_set_timer 0 1 t1)"
  define t3 where "t3 = t2\<lparr>tl_current_time := 800000\<rparr>"
  define t4 where "t4 = the (nxe_set_timer 0 2 t3)"
  note ds = t4_def t3_def t2_def t1_def t0_def sample_timers_defs
  have "timers_reach t0 (\<lambda>_. [])" unfolding t0_def by (rule timers_reach.init)
  then have "timers_reach t1 (\<lambda>_. [])" by (rule timers_reach.timeout [where q = 0 and u = 1000000]) (simp_all add: ds)
  then have r2: "timers_reach t2 ((\<lambda>_. [])(0 := [] @ [1]))"
    by (rule timers_reach.set [where qs = "\<lambda>_. []" and q = 0 and t = 1]) (simp_all add: ds)
  have r3: "timers_reach t3 ((\<lambda>_. [])(0 := [] @ [1]))" unfolding t3_def by (rule timers_reach.clock [OF r2]) (simp add: ds)
  define Q :: "nat \<Rightarrow> timer list" where "Q = (\<lambda>_. [])(0 := [] @ [1])"
  have "timers_reach t4 (Q(0 := Q 0 @ [2]))"
    by (rule timers_reach.set [OF r3 [folded Q_def]]) (simp_all add: ds)
  then have "timers_reach t4 ((\<lambda>_. [])(0 := [] @ [1], 0 := ([] @ [1]) @ [2]))" by (simp add: Q_def)
  then have "timers_reach (t4\<lparr>tl_current_time := 1100000\<rparr>) ((\<lambda>_. [])(0 := [] @ [1], 0 := ([] @ [1]) @ [2]))"
    by (rule timers_reach.clock) (simp add: ds)
  then show ?thesis by (simp add: sample_timers_def t4_def t3_def t2_def t1_def t0_def)
qed

lemma sample_timers_facts: "tl_current_time sample_timers = 1100000" "tm_abs_time sample_timers = (\<lambda>_. 0)(1 := 1300000, 2 := 1800000)"
  by (simp_all add: sample_timers_def sample_timers_defs)

theorem timers_fire_when_due_witness:
  "\<exists>ts'. nxe_process_timers (\<lambda>t (ts, w). Some (ts, w @ [t])) (sample_timers, []) = Some (ts', [1])
    \<and> tm_abs_time ts' = (\<lambda>_. 0)(2 := 1800000)"
proof -
  have h: "(\<lambda>t (ts, w). Some (ts, w @ [t])) t (ts, w) = Some (ts, w @ [t])" for t :: timer and ts :: nxe_timers and w by simp
  obtain ts' fired where r: "nxe_process_timers (\<lambda>t (ts, w). Some (ts, w @ [t])) (sample_timers, []) = Some (ts', fold (\<lambda>t w. w @ [t]) fired [])"
    "distinct fired" "set fired = {t. tm_abs_time sample_timers t \<noteq> 0 \<and> tm_abs_time sample_timers t \<le> tl_current_time sample_timers + 250000}"
    "tm_abs_time ts' = (\<lambda>t. if t \<in> set fired then 0 else tm_abs_time sample_timers t)"
    using timers_fire_when_due [where f = "\<lambda>t w. w @ [t]", OF sample_timers_reach h, of "[]"] by blast
  have "set fired = {1}" unfolding r(3) sample_timers_facts by auto
  with r(2) have "fired = [1]" by (cases fired; cases "tl fired") auto
  with r(1,4) show ?thesis by (auto simp: sample_timers_facts fun_eq_iff)
qed

text \<open>
  The queue found for the next wait is the one whose first timer is the earliest of all timers set, and none
  is found only when no timer is set.
\<close>

lemma closest_timer_is_first:
  assumes reach: "timers_reach ts qs"
  shows "case nxe_closest_tq ts of None \<Rightarrow> \<forall>t. tm_abs_time ts t = 0
    | Some q \<Rightarrow> \<exists>t. tq_first ts q = Some t \<and> tm_abs_time ts t \<noteq> 0 \<and> (\<forall>u. tm_abs_time ts u \<noteq> 0 \<longrightarrow> tm_abs_time ts t \<le> tm_abs_time ts u)"
proof -
  have qs: "queues ts qs" by (rule timers_reach_ok [OF reach])
  have best: "case nxe_closest_tq ts of None \<Rightarrow> \<forall>r \<in> {} \<union> set [0..<NXE_NUMBER_OF_TIMER_QUEUES]. qs r = []
     | Some b \<Rightarrow> b < NXE_NUMBER_OF_TIMER_QUEUES \<and> qs b \<noteq> []
        \<and> (\<forall>r \<in> {} \<union> set [0..<NXE_NUMBER_OF_TIMER_QUEUES]. \<forall>t \<in> set (qs r). tm_abs_time ts (hd (qs b)) \<le> tm_abs_time ts t)"
    unfolding nxe_closest_tq_def by (rule closest_loop_best [OF qs]) auto
  show ?thesis
  proof (cases "nxe_closest_tq ts")
    case None
    with best in_queues [OF qs] show ?thesis by fastforce
  next
    case (Some b)
    with best have b: "b < NXE_NUMBER_OF_TIMER_QUEUES" "qs b \<noteq> []"
      "\<And>r t. r < NXE_NUMBER_OF_TIMER_QUEUES \<Longrightarrow> t \<in> set (qs r) \<Longrightarrow> tm_abs_time ts (hd (qs b)) \<le> tm_abs_time ts t" by auto
    then obtain t xs where t: "qs b = t # xs" by (cases "qs b") auto
    have "tq_first ts b = Some t" "tm_abs_time ts t \<noteq> 0"
      using queue_first [OF qs b(1)] queuesD(3) [OF qs b(1), of t] in_range_pos by (auto simp: t)
    moreover have "tm_abs_time ts t \<le> tm_abs_time ts u" if "tm_abs_time ts u \<noteq> 0" for u
      using in_queues [OF qs, of u] that b(3) [of _ u] by (auto simp: t)
    ultimately show ?thesis using Some by auto
  qed
qed

end
