(* ===== verification/Nx_Loop.thy ===== *)
theory Nx_Loop
  imports Nx_Event_Delivery Nx_Timers
begin

text \<open>
  The event loop as a whole (\<^verbatim>\<open>lib/nx_event.c\<close>): sources of events that are registered with \<^verbatim>\<open>epoll\<close>, what they
  emit, garbage collection and one round of \<^verbatim>\<open>nxe_run\<close>.  What the kernel answers (the result of \<^verbatim>\<open>epoll_ctl\<close>,
  the events reported by \<^verbatim>\<open>epoll_wait\<close>, the time) is an argument.
\<close>

section \<open>Sources\<close>

definition NXE_ERROR :: int where "NXE_ERROR = -1"
definition NXE_RDHUP :: int where "NXE_RDHUP = -2"
definition NXE_HUP :: int where "NXE_HUP = -3"

text \<open>The bits of the event mask that \<^verbatim>\<open>epoll_wait\<close> reports.\<close>

record epoll_events =
  ep_in :: bool
  ep_out :: bool
  ep_err :: bool
  ep_rdhup :: bool
  ep_hup :: bool

record nxe_fd_source =
  fs_fd :: nat
  fs_data_is :: nat
  fs_data_os :: nat
  fs_data_error :: nat

record nxe_notify_source =
  ns_fd :: nat
  ns_data_notify :: nat

datatype source = Fd nxe_fd_source | Eventfd nxe_notify_source | Listenfd nxe_notify_source

definition publish_failure :: "(nxp_pool \<Rightarrow> nat option) \<Rightarrow> nat \<Rightarrow> epoll_events \<Rightarrow> nxe_events \<Rightarrow> nxe_events option" where
  "publish_failure mem pub ev st =
     (if ep_err ev then nxe_publish mem pub NXE_ERROR st
      else if ep_rdhup ev then nxe_publish mem pub NXE_RDHUP st
      else if ep_hup ev then nxe_publish mem pub NXE_HUP st
      else Some st)"

definition fd_source_emit :: "(nxp_pool \<Rightarrow> nat option) \<Rightarrow> nxe_fd_source \<Rightarrow> epoll_events \<Rightarrow> nxe_events \<Rightarrow> nxe_events option" where
  "fd_source_emit mem fs ev st = do {
     st \<leftarrow> (if ep_in ev then nxe_istream_set_ready (fs_data_is fs) st else Some st);
     st \<leftarrow> (if ep_out ev then nxe_ostream_set_ready (fs_data_os fs) st else Some st);
     publish_failure mem (fs_data_error fs) ev st }"

text \<open>The eventfd source also reads the counter of its descriptor to rearm it.\<close>

definition eventfd_source_emit :: "(nxp_pool \<Rightarrow> nat option) \<Rightarrow> nxe_notify_source \<Rightarrow> epoll_events \<Rightarrow> nxe_events \<Rightarrow> nxe_events option" where
  "eventfd_source_emit mem efs ev st = do {
     st \<leftarrow> (if ep_in ev then nxe_publish mem (ns_data_notify efs) 0 st else Some st);
     publish_failure mem (ns_data_notify efs) ev st }"

definition listenfd_source_emit :: "(nxp_pool \<Rightarrow> nat option) \<Rightarrow> nxe_notify_source \<Rightarrow> epoll_events \<Rightarrow> nxe_events \<Rightarrow> nxe_events option" where
  "listenfd_source_emit mem lfs ev st = do {
     st \<leftarrow> (if ep_in ev then nxe_publish mem (ns_data_notify lfs) 0 st else Some st);
     publish_failure mem (ns_data_notify lfs) ev st }"

definition emit :: "(nxp_pool \<Rightarrow> nat option) \<Rightarrow> source \<Rightarrow> epoll_events \<Rightarrow> nxe_events \<Rightarrow> nxe_events option" where
  "emit mem src ev st =
     (case src of Fd fs \<Rightarrow> fd_source_emit mem fs ev st | Eventfd efs \<Rightarrow> eventfd_source_emit mem efs ev st
      | Listenfd lfs \<Rightarrow> listenfd_source_emit mem lfs ev st)"

section \<open>Registration\<close>

text \<open>
  \<open>ctl\<close> is whether \<^verbatim>\<open>epoll_ctl\<close> succeeded; the number beside the events is the loop's reference count.
\<close>

type_synonym counted = "nxe_events \<times> int"

definition nxe_register_fd_source :: "bool \<Rightarrow> nxe_fd_source \<Rightarrow> counted \<Rightarrow> counted option" where
  "nxe_register_fd_source ctl fs s =
     (case s of (st, rc) \<Rightarrow>
        if is_loop st (fs_data_is fs) then None
        else if \<not> ctl then Some s
        else Some (st\<lparr>is_loop := (is_loop st)(fs_data_is fs := True)\<rparr>, rc + 1))"

text \<open>The loop \<^verbatim>\<open>while (pub->sub) nxe_unsubscribe(pub, pub->sub)\<close>.\<close>

partial_function (option) unsubscribe_all :: "nat \<Rightarrow> nxe_events \<Rightarrow> nxe_events option" where
  "unsubscribe_all pub st =
     (case pub_sub st pub of None \<Rightarrow> Some st | Some s \<Rightarrow> Option.bind (nxe_unsubscribe pub s st) (unsubscribe_all pub))"

definition disconnect_source :: "nxe_fd_source \<Rightarrow> nxe_events \<Rightarrow> nxe_events option" where
  "disconnect_source fs st = do {
     st \<leftarrow> (case is_pair st (fs_data_is fs) of Some o' \<Rightarrow> nxe_disconnect_streams (fs_data_is fs) o' st | None \<Rightarrow> Some st);
     (case os_pair st (fs_data_os fs) of Some i \<Rightarrow> nxe_disconnect_streams i (fs_data_os fs) st | None \<Rightarrow> Some st) }"

definition nxe_unregister_fd_source :: "bool \<Rightarrow> nxe_fd_source \<Rightarrow> counted \<Rightarrow> counted option" where
  "nxe_unregister_fd_source ctl fs s =
     (case s of (st, rc) \<Rightarrow>
        if \<not> is_loop st (fs_data_is fs) then None
        else if \<not> ctl then Some s
        else do {
          st \<leftarrow> disconnect_source fs st;
          st \<leftarrow> unsubscribe_all (fs_data_error fs) st;
          Some (st\<lparr>is_loop := (is_loop st)(fs_data_is fs := False)\<rparr>, rc - 1) })"

text \<open>
  A source that only notifies.  On failure the descriptor of an eventfd source is closed (its number becomes
  0), that of a listening source is not.
\<close>

definition nxe_register_listenfd_source :: "bool \<Rightarrow> nxe_notify_source \<Rightarrow> counted \<Rightarrow> counted option" where
  "nxe_register_listenfd_source ctl lfs s =
     (case s of (st, rc) \<Rightarrow>
        if pub_loop st (ns_data_notify lfs) then None
        else if \<not> ctl then Some s
        else Some (st\<lparr>pub_loop := (pub_loop st)(ns_data_notify lfs := True)\<rparr>, rc + 1))"

definition nxe_register_eventfd_source :: "bool \<Rightarrow> nxe_notify_source \<Rightarrow> counted \<Rightarrow> (nxe_notify_source \<times> counted) option" where
  "nxe_register_eventfd_source ctl efs s =
     (case s of (st, rc) \<Rightarrow>
        if pub_loop st (ns_data_notify efs) then None
        else if \<not> ctl then Some (efs\<lparr>ns_fd := 0\<rparr>, s)
        else Some (efs, st\<lparr>pub_loop := (pub_loop st)(ns_data_notify efs := True)\<rparr>, rc + 1))"

text \<open>The result of \<^verbatim>\<open>epoll_ctl\<close> is only logged here.\<close>

definition unregister_notify :: "nxe_notify_source \<Rightarrow> counted \<Rightarrow> counted option" where
  "unregister_notify ns s =
     (case s of (st, rc) \<Rightarrow>
        if \<not> pub_loop st (ns_data_notify ns) then None
        else do {
          st \<leftarrow> unsubscribe_all (ns_data_notify ns) st;
          Some (st\<lparr>pub_loop := (pub_loop st)(ns_data_notify ns := False)\<rparr>, rc - 1) })"

definition nxe_unregister_listenfd_source :: "nxe_notify_source \<Rightarrow> counted \<Rightarrow> counted option" where
  "nxe_unregister_listenfd_source lfs s = unregister_notify lfs s"

definition nxe_unregister_eventfd_source :: "nxe_notify_source \<Rightarrow> counted \<Rightarrow> counted option" where
  "nxe_unregister_eventfd_source efs s = unregister_notify efs s"

definition nxe_unref :: "counted \<Rightarrow> counted" where
  "nxe_unref s = (fst s, snd s - 1)"

section \<open>A round of the loop\<close>

definition nxe_loop_gc :: "(nxp_pool \<Rightarrow> nat option) \<Rightarrow> nat \<Rightarrow> nxe_events \<Rightarrow> nxe_events option" where
  "nxe_loop_gc mem gc_pub st = do {
     st \<leftarrow> nxe_publish mem gc_pub 0 st;
     (_, P) \<leftarrow> nxp_gc (ev_pool st);
     Some (st\<lparr>ev_pool := P\<rparr>) }"

text \<open>The milliseconds to wait: the difference of the unsigned times is cut to an \<^verbatim>\<open>int\<close> and clamped.\<close>

definition to_c_int :: "int \<Rightarrow> int" where
  "to_c_int x = (x + 2 ^ 31) mod 2 ^ 32 - 2 ^ 31"

definition time_to_wait :: "nxe_timers \<Rightarrow> nat option \<Rightarrow> int" where
  "time_to_wait ts closest =
     (let t = (case closest of Some q \<Rightarrow> to_c_int ((int (tm_abs_time ts (the (tq_first ts q))) - int (tl_current_time ts)) mod 2 ^ 64 div 1000) | None \<Rightarrow> 1000);
          t = (if t > 1000 then 1000 else t)
      in if t < 0 then 0 else t)"

text \<open>
  The state of a round is the events, the timers and the rest of the program.  \<open>on_timeout\<close> is the handler of the
  timers.
\<close>

type_synonym 'v rest = "nxe_timers \<times> 'v"

definition run_timers :: "(timer \<Rightarrow> nxe_timers \<times> (nxe_events \<times> 'v) \<Rightarrow> (nxe_timers \<times> (nxe_events \<times> 'v)) option)
    \<Rightarrow> nxe_events \<times> 'v rest \<Rightarrow> (nxe_events \<times> 'v rest) option" where
  "run_timers on_timeout s =
     (case s of (st, ts, v) \<Rightarrow> map_option (\<lambda>(ts, st, v). (st, ts, v)) (nxe_process_timers on_timeout (ts, st, v)))"

definition run_events :: "(nxp_pool \<Rightarrow> nat option) \<Rightarrow> nat \<Rightarrow> classes \<Rightarrow> 'v rest handler \<Rightarrow> nxe_events \<times> 'v rest \<Rightarrow> (nxe_events \<times> 'v rest) option" where
  "run_events mem gc_pub cl run s =
     (if l_first (ev_queue (fst s)) \<noteq> None then nxe_process_loop cl run s
      else do {
        st \<leftarrow> nxe_loop_gc mem gc_pub (fst s);
        (if l_first (ev_queue st) \<noteq> None then nxe_process_loop cl run (st, snd s) else Some (st, snd s)) })"

fun emit_all :: "(nxp_pool \<Rightarrow> nat option) \<Rightarrow> (source \<times> epoll_events) list \<Rightarrow> nxe_events \<Rightarrow> nxe_events option" where
  "emit_all mem [] st = Some st"
| "emit_all mem ((src, ev) # evs) st = Option.bind (emit mem src ev st) (emit_all mem evs)"

text \<open>
  One round of \<^verbatim>\<open>nxe_run\<close>.  \<open>broken\<close> and \<open>ref_count\<close> read these fields from the program's state; \<open>wait\<close> stands for \<^verbatim>\<open>epoll_wait\<close> and
  the clock after it: for the time to wait it gives the reported events (\<open>None\<close> for an error) and the time.  The
  result is \<open>Inl\<close> when the loop is left.
\<close>

definition nxe_run_round :: "(nxp_pool \<Rightarrow> nat option) \<Rightarrow> nat \<Rightarrow> classes \<Rightarrow> 'v rest handler
    \<Rightarrow> (timer \<Rightarrow> nxe_timers \<times> (nxe_events \<times> 'v) \<Rightarrow> (nxe_timers \<times> (nxe_events \<times> 'v)) option)
    \<Rightarrow> ('v \<Rightarrow> bool) \<Rightarrow> ('v \<Rightarrow> int) \<Rightarrow> (int \<Rightarrow> (source \<times> epoll_events) list option \<times> nat)
    \<Rightarrow> nxe_events \<times> 'v rest \<Rightarrow> ((nxe_events \<times> 'v rest) + (nxe_events \<times> 'v rest)) option" where
  "nxe_run_round mem gc_pub cl run on_timeout broken ref_count wait s =
     (if broken (snd (snd s)) then Some (Inl s)
      else do {
        s \<leftarrow> run_timers on_timeout s;
        (st, ts, v) \<leftarrow> run_events mem gc_pub cl run s;
        let closest = nxe_closest_tq ts;
        (if l_first (ev_queue st) = None \<and> closest = None \<and> ref_count v \<le> 0 then Some (Inl (st, ts, v))
         else case wait (time_to_wait ts closest) of (evs, now) \<Rightarrow>
           (let ts = ts\<lparr>tl_current_time := now\<rparr> in
            case evs of None \<Rightarrow> Some (Inr (st, ts, v))
            | Some evs \<Rightarrow> map_option (\<lambda>st. Inr (st, ts, v)) (emit_all mem evs st))) })"

text \<open>The rounds; \<open>wait n\<close> is what the kernel answers in round \<open>n\<close>.\<close>

partial_function (option) run_rounds :: "(nat \<Rightarrow> 'a \<Rightarrow> ('a + 'a) option) \<Rightarrow> nat \<Rightarrow> 'a \<Rightarrow> 'a option" where
  "run_rounds step n s = Option.bind (step n s) (\<lambda>r. case r of Inl s \<Rightarrow> Some s | Inr s \<Rightarrow> run_rounds step (Suc n) s)"

definition nxe_run :: "(nxp_pool \<Rightarrow> nat option) \<Rightarrow> nat \<Rightarrow> classes \<Rightarrow> 'v rest handler
    \<Rightarrow> (timer \<Rightarrow> nxe_timers \<times> (nxe_events \<times> 'v) \<Rightarrow> (nxe_timers \<times> (nxe_events \<times> 'v)) option)
    \<Rightarrow> ('v \<Rightarrow> bool) \<Rightarrow> ('v \<Rightarrow> int) \<Rightarrow> nat \<Rightarrow> (nat \<Rightarrow> int \<Rightarrow> (source \<times> epoll_events) list option \<times> nat)
    \<Rightarrow> nxe_events \<times> 'v rest \<Rightarrow> (nxe_events \<times> 'v rest) option" where
  "nxe_run mem gc_pub cl run on_timeout broken ref_count now wait s =
     (case s of (st, ts, v) \<Rightarrow>
        run_rounds (\<lambda>n. nxe_run_round mem gc_pub cl run on_timeout broken ref_count (wait n)) 0 (st, ts\<lparr>tl_current_time := now\<rparr>, v))"

section \<open>Unregistering a source\<close>

lemma unsubscribe_all_run:
  "ev_inv H q ss st \<Longrightarrow> \<exists>st' q'. unsubscribe_all p st = Some st' \<and> ev_inv H q' (ss(p := [])) st' \<and> set q' \<subseteq> set q
     \<and> (\<forall>s. sub_pub st' s = (if sub_pub st s = Some p then None else sub_pub st s))
     \<and> ev_receiver st' = ev_receiver st \<and> os_pair st' = os_pair st \<and> os_loop st' = os_loop st \<and> is_pair st' = is_pair st"
proof (induction "ss p" arbitrary: q ss st)
  case Nil
  have sub: "\<forall>p. pub_sub st p = head_or (ss p) None" "\<forall>p s. s \<in> set (ss p) \<longleftrightarrow> sub_pub st s = Some p"
    using Nil(2) unfolding ev_inv_def subs_ok_def by simp_all
  have "pub_sub st p = None" "sub_pub st s \<noteq> Some p" for s
    using sub(1) [rule_format, of p] sub(2) [rule_format, of s p] Nil(1) [symmetric] by simp_all
  moreover have "ss(p := []) = ss" using Nil(1) by auto
  ultimately show ?case using Nil(2) by (intro exI [of _ st] exI [of _ q]) (subst unsubscribe_all.simps, simp)
next
  case (Cons s xs)
  have subs: "pub_sub st p = Some s" "sub_pub st s = Some p"
    using Cons(2,3) unfolding ev_inv_def subs_ok_def by (metis head_or_simps(2), metis list.set_intros(1))
  let ?q = "filter (\<lambda>e. ev_receiver st e \<noteq> Some (To_Sub s)) q"
  obtain st1 where st1: "nxe_unsubscribe p s st = Some st1" "ev_inv H ?q (ss(p := remove1 s (ss p))) st1" "sub_pub st1 = (sub_pub st)(s := None)"
    "ev_receiver st1 = ev_receiver st" "os_pair st1 = os_pair st" "os_loop st1 = os_loop st" "is_pair st1 = is_pair st"
    using unsubscribe_run [OF Cons(3) subs(2)] by auto
  have xs: "remove1 s (ss p) = xs" by (simp add: Cons(2) [symmetric])
  obtain st' q' where st': "unsubscribe_all p st1 = Some st'" "ev_inv H q' (ss(p := [])) st'" "set q' \<subseteq> set ?q"
    "\<forall>u. sub_pub st' u = (if sub_pub st1 u = Some p then None else sub_pub st1 u)" "ev_receiver st' = ev_receiver st1" "os_pair st' = os_pair st1"
    "os_loop st' = os_loop st1" "is_pair st' = is_pair st1"
    using Cons(1) [of "ss(p := xs)" ?q st1] st1(2) unfolding xs by auto
  have "unsubscribe_all p st = Some st'" by (subst unsubscribe_all.simps) (simp add: subs(1) st1(1) st'(1))
  moreover have "\<forall>u. sub_pub st' u = (if sub_pub st u = Some p then None else sub_pub st u)" using st'(4) st1(3) subs(2) by auto
  ultimately show ?case using st' st1 by (intro exI [of _ st'] exI [of _ q']) auto
qed

lemma disconnect_run:
  assumes "loop_ok H st"
  shows "\<exists>st'. nxe_disconnect_streams i o' st = Some st' \<and> loop_ok H st' \<and> is_pair st' = (is_pair st)(i := None) \<and> os_pair st' = (os_pair st)(o' := None)
    \<and> (\<forall>e. ev_loop st' e \<longleftrightarrow> ev_loop st e \<and> e \<noteq> Stream i) \<and> is_loop st' = is_loop st \<and> sub_pub st' = sub_pub st"
proof -
  let ?st = "st\<lparr>is_pair := (is_pair st)(i := None), os_pair := (os_pair st)(o' := None)\<rparr>"
  obtain st' where st': "nxe_disconnect_streams i o' st = Some st'"
    "st' = ?st \<and> \<not> ev_loop st (Stream i) \<or> st' = ?st\<lparr>ev_queue := unlink (Stream i) (ev_queue st), ev_loop := (ev_loop st)(Stream i := False)\<rparr>"
    by (cases "ev_loop st (Stream i)") (simp_all add: nxe_disconnect_streams_def nxe_unlink_def Let_def)
  have "loop_ok H st'" using keeps_ok [OF api_ok [OF fresh_mem_ok api.disconnect [OF st'(1)] assms]] .
  with st' show ?thesis by (intro exI [of _ st']) (auto split: if_splits)
qed

lemma disconnect_source_run:
  assumes "loop_ok H st"
  shows "\<exists>st'. disconnect_source fs st = Some st' \<and> loop_ok H st' \<and> is_pair st' (fs_data_is fs) = None \<and> os_pair st' (fs_data_os fs) = None
    \<and> (is_pair st (fs_data_is fs) \<noteq> None \<longrightarrow> \<not> ev_loop st' (Stream (fs_data_is fs))) \<and> sub_pub st' = sub_pub st"
proof -
  obtain st1 where st1: "(case is_pair st (fs_data_is fs) of Some o' \<Rightarrow> nxe_disconnect_streams (fs_data_is fs) o' st | None \<Rightarrow> Some st) = Some st1"
    "loop_ok H st1" "is_pair st1 (fs_data_is fs) = None" "is_pair st (fs_data_is fs) \<noteq> None \<longrightarrow> \<not> ev_loop st1 (Stream (fs_data_is fs))" "sub_pub st1 = sub_pub st"
  proof (cases "is_pair st (fs_data_is fs)")
    case None
    then show ?thesis using that assms by simp
  next
    case (Some o')
    then show ?thesis using that disconnect_run [OF assms, of "fs_data_is fs" o'] by auto
  qed
  show ?thesis
  proof (cases "os_pair st1 (fs_data_os fs)")
    case None
    then show ?thesis using st1 by (auto simp: disconnect_source_def)
  next
    case (Some i)
    then show ?thesis using st1 disconnect_run [OF st1(2), of i "fs_data_os fs"] by (auto simp: disconnect_source_def)
  qed
qed

text \<open>
  C14: A source that is unregistered leaves nothing behind in the loop: its streams are disconnected, the event of its
  input stream is not pending, nobody is subscribed to its errors and no error message is pending, so that the connection it belongs to can be freed.  The
  call always returns and the loop stays in order.
\<close>

theorem unregister_leaves_nothing:
  assumes mem: "mem_ok mem" and reach: "nxe_create_events a = Some st0" "(api mem)\<^sup>*\<^sup>* st0 st" and reg: "is_loop st (fs_data_is fs)"
  shows "\<exists>st'. nxe_unregister_fd_source True fs (st, rc) = Some (st', rc - 1) \<and> loop_ok {} st' \<and> \<not> is_loop st' (fs_data_is fs)
    \<and> is_pair st' (fs_data_is fs) = None \<and> os_pair st' (fs_data_os fs) = None \<and> pub_sub st' (fs_data_error fs) = None
    \<and> (is_pair st (fs_data_is fs) \<noteq> None \<longrightarrow> \<not> ev_loop st' (Stream (fs_data_is fs)))
    \<and> (\<forall>e s. ev_loop st' e \<and> ev_receiver st' e = Some (To_Sub s) \<longrightarrow> sub_pub st s \<noteq> Some (fs_data_error fs))"
proof -
  let ?err = "fs_data_error fs"
  obtain st1 where st1: "disconnect_source fs st = Some st1" "loop_ok {} st1" "is_pair st1 (fs_data_is fs) = None" "os_pair st1 (fs_data_os fs) = None"
    "is_pair st (fs_data_is fs) \<noteq> None \<longrightarrow> \<not> ev_loop st1 (Stream (fs_data_is fs))" "sub_pub st1 = sub_pub st"
    using disconnect_source_run [OF reach_ok [OF mem reach], of fs] by blast
  obtain q ss where inv1: "ev_inv {} q ss st1" and sok: "streams_ok st1" using st1(2) unfolding loop_ok_def by blast
  obtain st2 q' where st2: "unsubscribe_all ?err st1 = Some st2" "ev_inv {} q' (ss(?err := [])) st2" "set q' \<subseteq> set q"
    "\<forall>s. sub_pub st2 s = (if sub_pub st1 s = Some ?err then None else sub_pub st1 s)"
    "ev_receiver st2 = ev_receiver st1" "os_pair st2 = os_pair st1" "os_loop st2 = os_loop st1" "is_pair st2 = is_pair st1"
    using unsubscribe_all_run [OF inv1, of ?err] by blast
  define st' where "st' = st2\<lparr>is_loop := (is_loop st2)(fs_data_is fs := False)\<rparr>"
  have un: "nxe_unregister_fd_source True fs (st, rc) = Some (st', rc - 1)"
    using reg st1(1) st2(1) by (simp add: nxe_unregister_fd_source_def st'_def)
  have inv2: "ev_inv {} q' (ss(?err := [])) st'" using st2(2) by (simp add: st'_def inv_stream_fields)
  have ok: "loop_ok {} st'" by (rule loop_okI [OF inv2 sok]) (simp_all add: st'_def st2)
  have lp: "ev_loop st' e \<longleftrightarrow> e \<in> set q'" "ev_loop st1 e \<longleftrightarrow> e \<in> set q" for e using inv1 inv2 by (simp_all add: ev_inv_def queue_ok_def)
  have pend: "sub_pub st s \<noteq> Some ?err" if "ev_loop st' e" "ev_receiver st' e = Some (To_Sub s)" for e s
  proof -
    have ty: "typed q' st'" using inv2 by (simp add: ev_inv_def)
    have "sub_pub st' s \<noteq> None"
      using ty that lp(1) [of e] unfolding typed_def by (cases e) fastforce+
    then show ?thesis using st2(4) st1(6) by (auto simp: st'_def split: if_splits)
  qed
  have "pub_sub st' ?err = None" using inv2 by (auto simp: ev_inv_def subs_ok_def)
  with un ok pend show ?thesis using st1(3-5) st2(3,6,8) lp
    by (intro exI [of _ st']) (auto simp: st'_def)
qed

text \<open>A loop with one registered source: streams 1 and 2 connected, a subscriber of its errors, an error pending.\<close>

definition sample_source :: nxe_fd_source where
  "sample_source = \<lparr>fs_fd = 9, fs_data_is = 1, fs_data_os = 2, fs_data_error = 3\<rparr>"

lemma connect_returns: "\<not> ev_loop st (Stream i) \<Longrightarrow> \<exists>st'. nxe_connect_streams i o' st = Some st' \<and> is_loop st' i"
  by (simp add: nxe_connect_streams_def Let_def emit_stream_def nxe_link_def)

lemma sample_source_reached: "\<exists>st. (api fresh_mem)\<^sup>*\<^sup>* fresh_loop st \<and> is_loop st 1"
proof -
  obtain obj where s: "(api fresh_mem)\<^sup>*\<^sup>* fresh_loop sample_loop" "dlist (ev_queue sample_loop) [Pooled obj]" by (rule sample_loop_facts)
  obtain q ss where inv: "ev_inv {} q ss sample_loop" using reach_ok [OF fresh_mem_ok fresh_loop_facts(1) s(1)] unfolding loop_ok_def by blast
  have "q = [Pooled obj]" using inv s(2) dlist_unique by (auto simp: ev_inv_def queue_ok_def)
  then have un: "\<not> ev_loop sample_loop (Stream 1)" using inv by (simp add: ev_inv_def queue_ok_def)
  then obtain st where st: "nxe_connect_streams 1 2 sample_loop = Some st" "is_loop st 1"
    using connect_returns [of sample_loop 1 2] by blast
  show ?thesis using rtranclp.rtrancl_into_rtrancl [OF s(1) api.connect [OF un st(1)]] st(2) by blast
qed

theorem unregister_leaves_nothing_witness:
  "\<exists>st st'. is_loop st 1 \<and> nxe_unregister_fd_source True sample_source (st, 1) = Some (st', 0) \<and> \<not> is_loop st' 1 \<and> pub_sub st' 3 = None"
proof -
  obtain st where st: "(api fresh_mem)\<^sup>*\<^sup>* fresh_loop st" "is_loop st 1" using sample_source_reached by blast
  then show ?thesis using unregister_leaves_nothing [OF fresh_mem_ok fresh_loop_facts(1) st(1), of sample_source 1] by (auto simp: sample_source_def)
qed

section \<open>Waiting\<close>

lemma less_div_mult: "x < 1000 * (x div 1000 + 1)" for x :: int
  by presburger

lemma to_c_int_id: "0 \<le> x \<Longrightarrow> x < 2 ^ 31 \<Longrightarrow> to_c_int x = x"
  by (simp add: to_c_int_def)

lemma to_c_int_le: "0 \<le> x \<Longrightarrow> to_c_int x \<le> x"
proof -
  assume "0 \<le> x"
  then have "(x + 2 ^ 31) mod 2 ^ 32 \<le> x + 2 ^ 31" by (intro zmod_le_nonneg_dividend) simp
  then show ?thesis by (simp add: to_c_int_def)
qed

lemma abs_time_word: "timers_reach ts qs \<Longrightarrow> tm_abs_time ts t < 2 ^ 64"
proof -
  assume "timers_reach ts qs"
  then have qs: "queues ts qs" by (rule timers_reach_ok)
  show ?thesis
  proof (cases "tm_abs_time ts t")
    case (Suc n)
    then obtain q where q: "q < NXE_NUMBER_OF_TIMER_QUEUES" "t \<in> set (qs q)" using in_queues [OF qs, of t] by auto
    from queuesD(3) [OF qs q] show ?thesis unfolding in_range_def by (rule conjunct2)
  qed simp
qed

text \<open>
  C15: The loop never sleeps past a timer and never more than a second: waiting the number of milliseconds
  computed ends before the time of every timer that is set, provided none is overdue at the start.  When no timer is
  \<open>2 ^ 31\<close> milliseconds or more away it sleeps as long as these limits allow: one millisecond more would pass a timer.
\<close>

theorem wait_ends_before_timers:
  assumes reach: "timers_reach ts qs" and late: "\<And>t. tm_abs_time ts t \<noteq> 0 \<Longrightarrow> tl_current_time ts \<le> tm_abs_time ts t"
  defines "w \<equiv> time_to_wait ts (nxe_closest_tq ts)"
  shows "0 \<le> w \<and> w \<le> 1000 \<and> (\<forall>t. tm_abs_time ts t \<noteq> 0 \<longrightarrow> int (tl_current_time ts) + 1000 * w \<le> int (tm_abs_time ts t))
    \<and> (w < 1000 \<and> (\<forall>t. int (tm_abs_time ts t) - int (tl_current_time ts) < 1000 * 2 ^ 31)
          \<longrightarrow> (\<exists>t. tm_abs_time ts t \<noteq> 0 \<and> int (tm_abs_time ts t) < int (tl_current_time ts) + 1000 * (w + 1)))"
proof (cases "nxe_closest_tq ts")
  case None
  then have "tm_abs_time ts t = 0" for t using closest_timer_is_first [OF reach] by simp
  moreover have "w = 1000" by (simp add: w_def time_to_wait_def None)
  ultimately show ?thesis by simp
next
  case (Some q)
  obtain t where t: "tq_first ts q = Some t" "tm_abs_time ts t \<noteq> 0" "\<And>u. tm_abs_time ts u \<noteq> 0 \<Longrightarrow> tm_abs_time ts t \<le> tm_abs_time ts u"
    using closest_timer_is_first [OF reach] Some by auto
  let ?d = "int (tm_abs_time ts t) - int (tl_current_time ts)"
  have lt: "tm_abs_time ts t < 2 ^ 64" using abs_time_word [OF reach] .
  have d: "0 \<le> ?d" "?d < 2 ^ 64" using late [OF t(2)] lt by simp_all
  then have wd: "w = (let x = to_c_int (?d div 1000); x = (if x > 1000 then 1000 else x) in if x < 0 then 0 else x)"
    by (simp add: w_def time_to_wait_def Some t(1) Let_def)
  have w: "0 \<le> w" "w \<le> 1000" by (simp_all add: wd Let_def)
  have "to_c_int (?d div 1000) \<le> ?d div 1000" using d(1) by (intro to_c_int_le) simp
  then have "w \<le> ?d div 1000" using d(1) by (auto simp: wd Let_def)
  then have "1000 * w \<le> ?d" by linarith
  then have before: "int (tl_current_time ts) + 1000 * w \<le> int (tm_abs_time ts u)" if "tm_abs_time ts u \<noteq> 0" for u
    using t(3) [OF that] by linarith
  have "?d < 1000 * (w + 1)" if "w < 1000" "?d < 1000 * 2 ^ 31"
  proof -
    have "to_c_int (?d div 1000) = ?d div 1000" using d(1) that(2) by (intro to_c_int_id) linarith+
    then have "w = ?d div 1000" using that(1) d(1) by (auto simp: wd Let_def split: if_splits)
    moreover have "?d < 1000 * (?d div 1000 + 1)" by (rule less_div_mult)
    ultimately show ?thesis by (simp only:)
  qed
  then have "int (tm_abs_time ts t) < int (tl_current_time ts) + 1000 * (w + 1)" if "w < 1000 \<and> (\<forall>t. int (tm_abs_time ts t) - int (tl_current_time ts) < 1000 * 2 ^ 31)"
    using that by (metis add.commute diff_less_eq)
  with w before t(2) show ?thesis by blast
qed

theorem wait_ends_before_timers_witness:
  "0 \<le> time_to_wait sample_timers (nxe_closest_tq sample_timers) \<and> time_to_wait sample_timers (nxe_closest_tq sample_timers) \<le> 200"
proof -
  have late: "tl_current_time sample_timers \<le> tm_abs_time sample_timers t" if "tm_abs_time sample_timers t \<noteq> 0" for t
    using that by (auto simp: sample_timers_facts split: if_splits)
  note w = wait_ends_before_timers [OF sample_timers_reach late]
  have a: "tm_abs_time sample_timers 1 = 1300000" "tl_current_time sample_timers = 1100000" by (simp_all add: sample_timers_facts)
  from w have "tm_abs_time sample_timers 1 \<noteq> 0 \<longrightarrow>
      int (tl_current_time sample_timers) + 1000 * time_to_wait sample_timers (nxe_closest_tq sample_timers) \<le> int (tm_abs_time sample_timers 1)"
    by blast
  then show ?thesis using w unfolding a by simp
qed

end
