(* ===== verification/Nx_Cache.thy ===== *)
theory Nx_Cache
  imports Nx_Http_Send Nx_Links
begin

text \<open>
  The memory cache of small files (\<^verbatim>\<open>lib/cache.c\<close>): a hash table from keys to records, a list of the records in the
  order of their last use, and a count of the responses that point into each record.  Records live in a heap: a record
  that was freed has no entry, so that an access to it, like a failed assertion or a loop that does not end, is \<open>None\<close>.
  The hash table is represented by what its operations do: an association list without double keys.  Each operation below
  runs while the mutex is held.
\<close>

section \<open>State\<close>

definition NXWEB_DEFAULT_CACHED_TIME :: nat where "NXWEB_DEFAULT_CACHED_TIME = 30000000"
definition NXWEB_MAX_CACHED_ITEMS :: nat where "NXWEB_MAX_CACHED_ITEMS = 500"
definition NXWEB_MAX_CACHED_ITEM_SIZE :: int where "NXWEB_MAX_CACHED_ITEM_SIZE = 32768"

datatype nxweb_result = NXWEB_OK | NXWEB_NEXT | NXWEB_ASYNC | NXWEB_DELAY | NXWEB_ERROR | NXWEB_REVALIDATE | NXWEB_MISS

text \<open>\<open>cr_content\<close> holds the content, a NUL, the key and a NUL; the links of a record are kept beside it.\<close>

record nxweb_cache_rec =
  cr_content_length :: int
  cr_content_type :: "string option"
  cr_content_charset :: "string option"
  cr_expires_time :: nat
  cr_last_modified :: int
  cr_ref_count :: nat
  cr_gzip_encoded :: bool
  cr_content :: mem

definition OFFSETOF_CONTENT :: nat where "OFFSETOF_CONTENT = 65"

definition rec_key :: "nxweb_cache_rec \<Rightarrow> string" where
  "rec_key rec = cstr (cr_content rec) (nat (cr_content_length rec) + 1)"

record nxweb_cache =
  ca_table :: "(string \<times> nat) list"
  ca_list :: "nat links"
  ca_rec :: "nat \<Rightarrow> nxweb_cache_rec option"

text \<open>The fields of the connection that the cache uses: the record in use, and whether it is released at the end of the request.\<close>

record cache_conn =
  cc_req_data :: "nat option"
  cc_req_finalize :: bool

definition alive :: "nxweb_cache \<Rightarrow> nat option \<Rightarrow> bool" where
  "alive c r = (case r of None \<Rightarrow> True | Some r \<Rightarrow> ca_rec c r \<noteq> None)"

definition set_rec :: "nat \<Rightarrow> nxweb_cache_rec \<Rightarrow> nxweb_cache \<Rightarrow> nxweb_cache" where
  "set_rec r rec c = c\<lparr>ca_rec := (ca_rec c)(r := Some rec)\<rparr>"

definition free_rec :: "nat \<Rightarrow> nxweb_cache \<Rightarrow> nxweb_cache option" where
  "free_rec r c = (if ca_rec c r = None then None else Some (c\<lparr>ca_rec := (ca_rec c)(r := None)\<rparr>))"

definition table_del :: "string \<Rightarrow> nxweb_cache \<Rightarrow> nxweb_cache" where
  "table_del k c = c\<lparr>ca_table := filter (\<lambda>e. fst e \<noteq> k) (ca_table c)\<rparr>"

section \<open>Operations\<close>

definition IS_LINKED :: "nat \<Rightarrow> nxweb_cache \<Rightarrow> bool" where
  "IS_LINKED r c \<longleftrightarrow> l_prev (ca_list c) r \<noteq> None \<or> l_first (ca_list c) = Some r"

definition cache_rec_link :: "nat \<Rightarrow> nxweb_cache \<Rightarrow> nxweb_cache option" where
  "cache_rec_link r c =
     (if alive c (Some r) \<and> alive c (l_first (ca_list c)) then Some (c\<lparr>ca_list := link_first r (ca_list c)\<rparr>) else None)"

definition cache_rec_unlink :: "nat \<Rightarrow> nxweb_cache \<Rightarrow> nxweb_cache option" where
  "cache_rec_unlink r c =
     (if alive c (Some r) \<and> alive c (l_prev (ca_list c) r) \<and> alive c (l_next (ca_list c) r)
      then Some (c\<lparr>ca_list := unlink r (ca_list c)\<rparr>) else None)"

definition cache_init :: nxweb_cache where
  "cache_init = \<lparr>ca_table = [], ca_list = \<lparr>l_next = \<lambda>_. None, l_prev = \<lambda>_. None, l_first = None, l_last = None\<rparr>, ca_rec = \<lambda>_. None\<rparr>"

fun finalize_entries :: "(string \<times> nat) list \<Rightarrow> nxweb_cache \<Rightarrow> nxweb_cache option" where
  "finalize_entries [] c = Some c"
| "finalize_entries ((k, r) # es) c = do { c \<leftarrow> cache_rec_unlink r c; c \<leftarrow> free_rec r c; finalize_entries es c }"

definition cache_finalize :: "nxweb_cache \<Rightarrow> nxweb_cache option" where
  "cache_finalize c = map_option (\<lambda>c. c\<lparr>ca_table := []\<rparr>) (finalize_entries (ca_table c) c)"

text \<open>The search from the end of the list for a record that is not in use.\<close>

partial_function (option) find_unused :: "nxweb_cache \<Rightarrow> nat option \<Rightarrow> nat option option" where
  "find_unused c p =
     (case p of None \<Rightarrow> Some None
      | Some r \<Rightarrow> Option.bind (ca_rec c r) (\<lambda>rec. if cr_ref_count rec \<noteq> 0 then find_unused c (l_prev (ca_list c) r) else Some (Some r)))"

partial_function (option) cache_check_size :: "nxweb_cache \<Rightarrow> nxweb_cache option" where
  "cache_check_size c =
     (if NXWEB_MAX_CACHED_ITEMS < length (ca_table c)
      then Option.bind (find_unused c (l_last (ca_list c))) (\<lambda>p.
        case p of None \<Rightarrow> Some c
        | Some r \<Rightarrow> Option.bind (ca_rec c r) (\<lambda>rec.
            case map_of (ca_table c) (rec_key rec) of None \<Rightarrow> cache_check_size c
            | Some r' \<Rightarrow>
                if r \<noteq> r' then None
                else Option.bind (cache_rec_unlink r c) (\<lambda>c. Option.bind (free_rec r (table_del (rec_key rec) c)) cache_check_size)))
      else Some c)"

definition cache_rec_unref :: "nat \<Rightarrow> nat \<Rightarrow> nxweb_cache \<Rightarrow> nxweb_cache option" where
  "cache_rec_unref loop_time r c = do {
     rec \<leftarrow> ca_rec c r;
     (if cr_ref_count rec = 0 then None
      else do {
        let rec = rec\<lparr>cr_ref_count := cr_ref_count rec - 1\<rparr>;
        let c = set_rec r rec c;
        c \<leftarrow> (if cr_ref_count rec = 0 \<and> (cr_expires_time rec < loop_time \<or> \<not> IS_LINKED r c)
              then do {
                c \<leftarrow> (if map_of (ca_table c) (rec_key rec) = Some r then cache_rec_unlink r (table_del (rec_key rec) c) else Some c);
                free_rec r c }
              else Some c);
        cache_check_size c }) }"

text \<open>What a response served from record \<open>r\<close> gets, and the record put in use.\<close>

definition serve_rec :: "nat \<Rightarrow> nxweb_cache_rec \<Rightarrow> string nxweb_http_response \<Rightarrow> string nxweb_http_response" where
  "serve_rec r rec resp = resp\<lparr>rs_content_length := cr_content_length rec, rs_content := Some (Ptr (r + OFFSETOF_CONTENT)),
     rs_content_type := cr_content_type rec, rs_content_charset := cr_content_charset rec,
     rs_last_modified := cr_last_modified rec, rs_gzip_encoded := cr_gzip_encoded rec\<rparr>"

definition count_ref :: "nxweb_cache_rec \<Rightarrow> nxweb_cache_rec" where
  "count_ref rec = rec\<lparr>cr_ref_count := (cr_ref_count rec + 1) mod 2 ^ 32\<rparr>"

definition hold_rec :: "nat \<Rightarrow> cache_conn" where
  "hold_rec r = \<lparr>cc_req_data = Some r, cc_req_finalize = True\<rparr>"

type_synonym cache_answer = "nxweb_result \<times> cache_conn \<times> string nxweb_http_response \<times> nxweb_cache"

definition cache_hit :: "nat \<Rightarrow> nxweb_cache_rec \<Rightarrow> int \<Rightarrow> cache_conn \<Rightarrow> string nxweb_http_response \<Rightarrow> nxweb_cache \<Rightarrow> cache_answer option" where
  "cache_hit r rec if_modified_since conn resp c = do {
     c \<leftarrow> (if l_first (ca_list c) \<noteq> Some r then Option.bind (cache_rec_unlink r c) (cache_rec_link r) else Some c);
     (if if_modified_since \<noteq> 0 \<and> cr_last_modified rec \<le> if_modified_since
      then Some (NXWEB_OK, conn, resp\<lparr>rs_status_code := 304, rs_status := Some ''Not Modified''\<rparr>, c)
      else Some (NXWEB_OK, hold_rec r, serve_rec r rec resp, set_rec r (count_ref rec) c)) }"

definition cache_drop :: "nat \<Rightarrow> nxweb_cache_rec \<Rightarrow> string \<Rightarrow> nxweb_cache \<Rightarrow> nxweb_cache option" where
  "cache_drop r rec key c = do {
     c \<leftarrow> cache_rec_unlink r (table_del key c);
     (if cr_ref_count rec = 0 then free_rec r c else Some c) }"

definition revalidate :: "nat \<Rightarrow> int \<Rightarrow> nxweb_cache_rec \<Rightarrow> nxweb_cache_rec" where
  "revalidate t mtime rec = (if cr_last_modified rec = mtime then rec\<lparr>cr_expires_time := (t + NXWEB_DEFAULT_CACHED_TIME) mod 2 ^ 64\<rparr> else rec)"

definition unsupported_key :: "string \<Rightarrow> bool" where
  "unsupported_key key \<longleftrightarrow> key \<noteq> [] \<and> (hd key = SP \<or> hd key = CHR ''*'')"

definition nxweb_cache_try :: "nat \<Rightarrow> string \<Rightarrow> int \<Rightarrow> int \<Rightarrow> cache_conn \<Rightarrow> string nxweb_http_response \<Rightarrow> nxweb_cache \<Rightarrow> cache_answer option" where
  "nxweb_cache_try loop_time key if_modified_since revalidated_mtime conn resp c =
     (if unsupported_key key then Some (NXWEB_MISS, conn, resp, c)
      else case map_of (ca_table c) key of
        None \<Rightarrow> Some (NXWEB_MISS, conn, resp, c)
      | Some r \<Rightarrow> do {
          rec \<leftarrow> ca_rec c r;
          let rec = revalidate loop_time revalidated_mtime rec;
          let c = set_rec r rec c;
          (if loop_time \<le> cr_expires_time rec then cache_hit r rec if_modified_since conn resp c
           else if revalidated_mtime = 0 then Some (NXWEB_REVALIDATE, conn, resp, c)
           else map_option (\<lambda>c. (NXWEB_MISS, conn, resp, c)) (cache_drop r rec key c)) })"

text \<open>
  Storing a response.  \<open>read_file path n\<close> are the \<open>n\<close> bytes of the file, if it can be opened and has them; \<open>mem\<close> is the address
  of the new block; \<open>room\<close> is whether the hash table found room for a new key.  The second part runs after the lock was given up,
  so another thread may have stored the key meanwhile.
\<close>

definition cacheable :: "string nxweb_http_response \<Rightarrow> nxweb_cache \<Rightarrow> bool" where
  "cacheable resp c \<longleftrightarrow> rs_status_code resp = 200 \<and> rs_sendfile_path resp \<noteq> None \<and> 0 \<le> rs_content_length resp
     \<and> rs_content_length resp \<le> NXWEB_MAX_CACHED_ITEM_SIZE \<and> rs_sendfile_offset resp = 0
     \<and> rs_sendfile_end resp = rs_content_length resp \<and> st_size (rs_sendfile_info resp) \<le> rs_sendfile_end resp
     \<and> length (ca_table c) < NXWEB_MAX_CACHED_ITEMS + 16"

definition new_rec :: "nat \<Rightarrow> string \<Rightarrow> string nxweb_http_response \<Rightarrow> string \<Rightarrow> nxweb_cache_rec" where
  "new_rec loop_time key resp content =
     \<lparr>cr_content_length = rs_content_length resp, cr_content_type = rs_content_type resp, cr_content_charset = rs_content_charset resp,
      cr_expires_time = (loop_time + NXWEB_DEFAULT_CACHED_TIME) mod 2 ^ 64, cr_last_modified = rs_last_modified resp, cr_ref_count = 0,
      cr_gzip_encoded = rs_gzip_encoded resp, cr_content = content @ NUL # key @ [NUL]\<rparr>"

definition cache_insert :: "bool \<Rightarrow> nat \<Rightarrow> string \<Rightarrow> cache_conn \<Rightarrow> string nxweb_http_response \<Rightarrow> nxweb_cache \<Rightarrow> cache_answer option" where
  "cache_insert room r key conn resp c =
     (let resp = resp\<lparr>rs_content := Some (Ptr (r + OFFSETOF_CONTENT))\<rparr> in
      case map_of (ca_table c) key of
        Some r' \<Rightarrow> do {
          c \<leftarrow> free_rec r c;
          rec \<leftarrow> ca_rec c r';
          (if cc_req_finalize conn then None else Some (NXWEB_OK, hold_rec r', serve_rec r' rec resp, set_rec r' (count_ref rec) c)) }
      | None \<Rightarrow>
          if room then do {
            c \<leftarrow> cache_rec_link r (c\<lparr>ca_table := (key, r) # ca_table c\<rparr>);
            rec \<leftarrow> ca_rec c r;
            c \<leftarrow> cache_check_size (set_rec r (count_ref rec) c);
            (if cc_req_finalize conn then None else Some (NXWEB_OK, hold_rec r, resp, c)) }
          else map_option (\<lambda>c. (NXWEB_OK, conn, resp, c)) (free_rec r c))"

text \<open>A new record is all zero before it is filled in, its links too.\<close>

definition calloc_rec :: "nat \<Rightarrow> nxweb_cache_rec \<Rightarrow> nxweb_cache \<Rightarrow> nxweb_cache" where
  "calloc_rec r rec c = (set_rec r rec c)\<lparr>ca_list := set_prev r None (set_next r None (ca_list c))\<rparr>"

definition cache_fill :: "(string \<Rightarrow> int \<Rightarrow> string option) \<Rightarrow> string \<Rightarrow> nat \<Rightarrow> nat option \<Rightarrow> bool \<Rightarrow> string \<Rightarrow> cache_conn \<Rightarrow> string nxweb_http_response \<Rightarrow> nxb_buffer
    \<Rightarrow> nxweb_cache \<Rightarrow> (cache_answer \<times> nxb_buffer) option" where
  "cache_fill read_file ver loop_time mem room key conn resp nb c =
     (case mem of None \<Rightarrow> None
      | Some r \<Rightarrow>
          (case read_file (the (rs_sendfile_path resp)) (rs_content_length resp) of
             None \<Rightarrow> do {
               (_, resp, nb) \<leftarrow> nxweb_send_http_error ver 500 ''Internal Server Error'' resp nb;
               Some ((NXWEB_ERROR, conn, resp, c), nb) }
           | Some content \<Rightarrow>
               map_option (\<lambda>a. (a, nb)) (cache_insert room r key conn resp (calloc_rec r (new_rec loop_time key resp content) c))))"

definition nxweb_cache_store_response :: "(string \<Rightarrow> int \<Rightarrow> string option) \<Rightarrow> string \<Rightarrow> nat \<Rightarrow> nat option \<Rightarrow> bool \<Rightarrow> string \<Rightarrow> cache_conn
    \<Rightarrow> string nxweb_http_response \<Rightarrow> nxb_buffer \<Rightarrow> nxweb_cache \<Rightarrow> (cache_answer \<times> nxb_buffer) option" where
  "nxweb_cache_store_response read_file ver loop_time mem room key conn resp nb c =
     (let resp = (if rs_status_code resp = 0 then resp\<lparr>rs_status_code := 200\<rparr> else resp) in
      if cacheable resp c then do {
        (res, conn', resp', c) \<leftarrow> nxweb_cache_try loop_time key 0 (rs_last_modified resp) conn resp c;
        (if res \<noteq> NXWEB_MISS then Some ((NXWEB_OK, conn', resp', c), nb)
         else cache_fill read_file ver loop_time mem room key conn' resp' nb c) }
      else Some ((NXWEB_OK, conn, resp, c), nb))"

text \<open>The end of a request (\<^verbatim>\<open>lib/nxd_http_server_proto.c\<close>) releases the record.\<close>

definition request_finalize :: "nat \<Rightarrow> cache_conn \<Rightarrow> nxweb_cache \<Rightarrow> (cache_conn \<times> nxweb_cache) option" where
  "request_finalize loop_time conn c =
     (if cc_req_finalize conn
      then do { r \<leftarrow> cc_req_data conn; c \<leftarrow> cache_rec_unref loop_time r c; Some (\<lparr>cc_req_data = None, cc_req_finalize = False\<rparr>, c) }
      else Some (conn, c))"

section \<open>The invariant\<close>

text \<open>
  \<open>xs\<close> are the records in the order of their last use, \<open>n r\<close> the number of responses that use record \<open>r\<close>, and \<open>G\<close> the
  records about to be freed.  Table and list have the same records; a record outside of them lives only while it is used.
\<close>

definition linked_recs :: "nat list \<Rightarrow> (nat \<Rightarrow> nat) \<Rightarrow> nxweb_cache \<Rightarrow> bool" where
  "linked_recs xs n c \<longleftrightarrow> dlist (ca_list c) xs \<and> distinct (map fst (ca_table c)) \<and> length (ca_table c) = length xs
     \<and> (\<forall>k r. (k, r) \<in> set (ca_table c) \<longleftrightarrow> r \<in> set xs \<and> (\<exists>rec. ca_rec c r = Some rec \<and> rec_key rec = k))
     \<and> (\<forall>r \<in> set xs. ca_rec c r \<noteq> None)
     \<and> (\<forall>r rec. ca_rec c r = Some rec \<longrightarrow> cr_ref_count rec = n r)
     \<and> (\<forall>r. 0 < n r \<longrightarrow> ca_rec c r \<noteq> None)
     \<and> (\<forall>r. r \<notin> set xs \<longrightarrow> l_prev (ca_list c) r = None)"

definition cinv :: "nat set \<Rightarrow> nat list \<Rightarrow> (nat \<Rightarrow> nat) \<Rightarrow> nxweb_cache \<Rightarrow> bool" where
  "cinv G xs n c \<longleftrightarrow> linked_recs xs n c \<and> (\<forall>r. ca_rec c r \<noteq> None \<and> r \<notin> set xs \<longrightarrow> r \<in> G \<or> 0 < n r)"

lemma cinvD:
  assumes "cinv G xs n c"
  shows "dlist (ca_list c) xs" "distinct (map fst (ca_table c))" "length (ca_table c) = length xs"
    "(k, r) \<in> set (ca_table c) \<longleftrightarrow> r \<in> set xs \<and> (\<exists>rec. ca_rec c r = Some rec \<and> rec_key rec = k)"
    "r \<in> set xs \<Longrightarrow> \<exists>rec. ca_rec c r = Some rec" "ca_rec c r = Some rec \<Longrightarrow> cr_ref_count rec = n r"
    "0 < n r \<Longrightarrow> \<exists>rec. ca_rec c r = Some rec" "ca_rec c r = Some rec \<Longrightarrow> r \<notin> set xs \<Longrightarrow> r \<in> G \<or> 0 < n r"
    "r \<notin> set xs \<Longrightarrow> l_prev (ca_list c) r = None"
  using assms unfolding cinv_def linked_recs_def by auto

lemma cinvI:
  assumes "dlist (ca_list c) xs" "distinct (map fst (ca_table c))" "length (ca_table c) = length xs"
    "\<And>k r. (k, r) \<in> set (ca_table c) \<longleftrightarrow> r \<in> set xs \<and> (\<exists>rec. ca_rec c r = Some rec \<and> rec_key rec = k)"
    "\<And>r. r \<in> set xs \<Longrightarrow> ca_rec c r \<noteq> None" "\<And>r rec. ca_rec c r = Some rec \<Longrightarrow> cr_ref_count rec = n r"
    "\<And>r. 0 < n r \<Longrightarrow> ca_rec c r \<noteq> None" "\<And>r. ca_rec c r \<noteq> None \<Longrightarrow> r \<notin> set xs \<Longrightarrow> r \<in> G \<or> 0 < n r"
    "\<And>r. r \<notin> set xs \<Longrightarrow> l_prev (ca_list c) r = None"
  shows "cinv G xs n c"
  unfolding cinv_def linked_recs_def using assms by auto

lemma table_lookup:
  assumes inv: "cinv G xs n c"
  shows "map_of (ca_table c) k = Some r \<longleftrightarrow> r \<in> set xs \<and> (\<exists>rec. ca_rec c r = Some rec \<and> rec_key rec = k)"
  using map_of_eq_Some_iff [OF cinvD(2) [OF inv]] cinvD(4) [OF inv] by simp

lemma cinv_mono:
  assumes inv: "cinv G xs n c" and G: "\<And>r. r \<in> G \<Longrightarrow> r \<in> G' \<or> r \<in> set xs \<or> 0 < n r \<or> ca_rec c r = None"
  shows "cinv G' xs n c"
proof -
  have "\<forall>r. ca_rec c r \<noteq> None \<and> r \<notin> set xs \<longrightarrow> r \<in> G' \<or> 0 < n r" using cinvD(8) [OF inv] G by fastforce
  with inv show ?thesis by (simp add: cinv_def)
qed

lemma neighbours_alive:
  assumes inv: "cinv G xs n c" and r: "r \<in> set xs"
  shows "alive c (Some r)" "alive c (l_prev (ca_list c) r)" "alive c (l_next (ca_list c) r)" "alive c (l_first (ca_list c))"
proof -
  have al: "alive c p" if "p = None \<or> (\<exists>q \<in> set xs. p = Some q)" for p
    using that cinvD(5) [OF inv] by (auto simp: alive_def split: option.split)
  obtain as bs where xs: "xs = as @ r # bs" using split_list [OF r] by blast
  have d: "dlist (ca_list c) (as @ r # bs)" using cinvD(1) [OF inv] xs by simp
  show "alive c (Some r)" using r by (intro al) simp
  show "alive c (l_prev (ca_list c) r)" using d xs by (intro al) (cases as rule: rev_cases; auto simp: dlist_def)
  show "alive c (l_next (ca_list c) r)" using d xs by (intro al) (cases bs; auto simp: dlist_def)
  show "alive c (l_first (ca_list c))" using d xs by (intro al) (cases as; auto simp: dlist_def)
qed

lemma table_del_list: "ca_list (table_del k c) = ca_list c" "ca_rec (table_del k c) = ca_rec c" "alive (table_del k c) = alive c"
  by (simp_all add: table_del_def alive_def fun_eq_iff split: option.split)

lemma length_filter_key:
  assumes "distinct (map fst t)" "(k, r) \<in> set t"
  shows "length (filter (\<lambda>e. fst e \<noteq> k) t) = length t - 1"
proof -
  obtain as bs where t: "t = as @ (k, r) # bs" using split_list [OF assms(2)] by blast
  have "filter (\<lambda>e. fst e \<noteq> k) as = as" "filter (\<lambda>e. fst e \<noteq> k) bs = bs" using assms(1) unfolding t by (auto simp: filter_id_conv)
  then show ?thesis by (simp add: t)
qed

text \<open>Taking a record out of the table and the list.\<close>

lemma remove_ok:
  assumes inv: "cinv G xs n c" and r: "r \<in> set xs" "ca_rec c r = Some rec"
  defines "c1 \<equiv> (table_del (rec_key rec) c)\<lparr>ca_list := unlink r (ca_list c)\<rparr>"
  shows "cache_rec_unlink r c = Some (c\<lparr>ca_list := unlink r (ca_list c)\<rparr>)" "cache_rec_unlink r (table_del (rec_key rec) c) = Some c1"
    "cinv (insert r G) (remove1 r xs) n c1" "r \<notin> set (remove1 r xs)"
proof -
  note al = neighbours_alive [OF inv r(1)]
  show "cache_rec_unlink r c = Some (c\<lparr>ca_list := unlink r (ca_list c)\<rparr>)" "cache_rec_unlink r (table_del (rec_key rec) c) = Some c1"
    using al by (simp_all add: cache_rec_unlink_def table_del_list c1_def)
  obtain as bs where xs: "xs = as @ r # bs" using split_list [OF r(1)] by blast
  have d: "dlist (ca_list c) (as @ r # bs)" using cinvD(1) [OF inv] xs by simp
  have rm: "remove1 r xs = as @ bs" "r \<notin> set (as @ bs)" using dlist_distinct [OF d] by (simp_all add: xs remove1_append)
  then show "r \<notin> set (remove1 r xs)" by simp
  have tab: "(rec_key rec, r) \<in> set (ca_table c)" using cinvD(4) [OF inv] r by blast
  have uniq: "r' = r" if "r' \<in> set xs" "ca_rec c r' = Some rec'" "rec_key rec' = rec_key rec" for r' rec'
    using table_lookup [OF inv, of "rec_key rec" r'] table_lookup [OF inv, of "rec_key rec" r] r that by auto
  show "cinv (insert r G) (remove1 r xs) n c1" unfolding rm(1)
  proof (rule cinvI)
    show "dlist (ca_list c1) (as @ bs)" using dlist_unlink [OF d] by (simp add: c1_def)
    show "distinct (map fst (ca_table c1))" using cinvD(2) [OF inv] by (simp add: c1_def table_del_def distinct_map_filter)
    show "length (ca_table c1) = length (as @ bs)"
      using length_filter_key [OF cinvD(2) [OF inv] tab] cinvD(3) [OF inv] by (simp add: c1_def table_del_def xs)
    show "(k, r') \<in> set (ca_table c1) \<longleftrightarrow> r' \<in> set (as @ bs) \<and> (\<exists>rec. ca_rec c1 r' = Some rec \<and> rec_key rec = k)" for k r'
    proof -
      have "(k, r') \<in> set (ca_table c1) \<longleftrightarrow> k \<noteq> rec_key rec \<and> r' \<in> set xs \<and> (\<exists>rec. ca_rec c r' = Some rec \<and> rec_key rec = k)"
        using cinvD(4) [OF inv, of k r'] by (auto simp: c1_def table_del_def)
      also have "\<dots> \<longleftrightarrow> r' \<in> set (as @ bs) \<and> (\<exists>rec. ca_rec c r' = Some rec \<and> rec_key rec = k)"
        using uniq [of r'] rm(2) r(2) by (auto simp: xs)
      finally show ?thesis by (simp add: c1_def table_del_list)
    qed
    show "ca_rec c1 r' \<noteq> None" if "r' \<in> set (as @ bs)" for r' using that cinvD(5) [OF inv, of r'] by (auto simp: c1_def table_del_list xs)
    show "cr_ref_count rec' = n r'" if "ca_rec c1 r' = Some rec'" for r' rec' using that cinvD(6) [OF inv] by (simp add: c1_def table_del_list)
    show "ca_rec c1 r' \<noteq> None" if "0 < n r'" for r' using that cinvD(7) [OF inv] by (simp add: c1_def table_del_list)
    show "r' \<in> insert r G \<or> 0 < n r'" if "ca_rec c1 r' \<noteq> None" "r' \<notin> set (as @ bs)" for r'
      using that cinvD(8) [OF inv, of r'] by (auto simp: c1_def table_del_list xs)
    show "l_prev (ca_list c1) r' = None" if "r' \<notin> set (as @ bs)" for r'
      using that cinvD(9) [OF inv, of r'] links_frame_unlink(2) [OF d, of r'] unlink_clears(2) [of r "ca_list c"]
      by (cases "r' = r") (auto simp: c1_def xs)
  qed
qed

lemma free_ok:
  assumes inv: "cinv (insert r G) xs n c" and r: "r \<notin> set xs" "n r = 0" "ca_rec c r \<noteq> None"
  shows "free_rec r c = Some (c\<lparr>ca_rec := (ca_rec c)(r := None)\<rparr>)" "cinv G xs n (c\<lparr>ca_rec := (ca_rec c)(r := None)\<rparr>)"
proof -
  show "free_rec r c = Some (c\<lparr>ca_rec := (ca_rec c)(r := None)\<rparr>)" using r(3) by (simp add: free_rec_def)
  show "cinv G xs n (c\<lparr>ca_rec := (ca_rec c)(r := None)\<rparr>)"
    by (rule cinvI) (use inv r in \<open>auto simp: cinv_def linked_recs_def split: if_splits\<close>)
qed

text \<open>Changing a record without changing its key.\<close>

lemma set_rec_ok:
  assumes inv: "cinv G xs n c" and r: "ca_rec c r = Some rec" "rec_key rec' = rec_key rec"
  shows "cinv (insert r G) xs (n(r := cr_ref_count rec')) (set_rec r rec' c)"
proof (rule cinvI)
  let ?c = "set_rec r rec' c"
  have f: "ca_list ?c = ca_list c" "ca_table ?c = ca_table c" "ca_rec ?c = (ca_rec c)(r := Some rec')" by (simp_all add: set_rec_def)
  show "dlist (ca_list ?c) xs" "distinct (map fst (ca_table ?c))" "length (ca_table ?c) = length xs"
    using cinvD(1-3) [OF inv] by (simp_all add: f)
  show "(k, q) \<in> set (ca_table ?c) \<longleftrightarrow> q \<in> set xs \<and> (\<exists>rec. ca_rec ?c q = Some rec \<and> rec_key rec = k)" for k q
    using cinvD(4) [OF inv, of k q] r by (auto simp: f)
  show "ca_rec ?c q \<noteq> None" if "q \<in> set xs" for q using that cinvD(5) [OF inv] by (auto simp: f)
  show "cr_ref_count rec'' = (n(r := cr_ref_count rec')) q" if "ca_rec ?c q = Some rec''" for q rec''
    using that cinvD(6) [OF inv, of q] by (auto simp: f split: if_splits)
  show "ca_rec ?c q \<noteq> None" if "0 < (n(r := cr_ref_count rec')) q" for q using that cinvD(7) [OF inv, of q] by (auto simp: f split: if_splits)
  show "q \<in> insert r G \<or> 0 < (n(r := cr_ref_count rec')) q" if "ca_rec ?c q \<noteq> None" "q \<notin> set xs" for q
    using that cinvD(8) [OF inv, of q] by (auto simp: f split: if_splits)
  show "l_prev (ca_list ?c) q = None" if "q \<notin> set xs" for q using that cinvD(9) [OF inv] by (simp add: f)
qed

lemma rec_key_fields [simp]: "rec_key (rec\<lparr>cr_ref_count := k\<rparr>) = rec_key rec" "rec_key (rec\<lparr>cr_expires_time := t\<rparr>) = rec_key rec"
    "rec_key (count_ref rec) = rec_key rec"
  by (simp_all add: rec_key_def count_ref_def)

text \<open>A new block.\<close>

lemma calloc_ok:
  assumes inv: "cinv G xs n c" and r: "ca_rec c r = None" "cr_ref_count rec = 0"
  shows "cinv (insert r G) xs n (calloc_rec r rec c)" "r \<notin> set xs"
proof -
  show new: "r \<notin> set xs" using cinvD(5) [OF inv, of r] r by auto
  have n: "n r = 0" using cinvD(7) [OF inv, of r] r by auto
  let ?c = "calloc_rec r rec c"
  have f: "ca_table ?c = ca_table c" "ca_rec ?c = (ca_rec c)(r := Some rec)" "ca_list ?c = set_prev r None (set_next r None (ca_list c))"
    by (simp_all add: calloc_rec_def set_rec_def)
  show "cinv (insert r G) xs n ?c"
  proof (rule cinvI)
    have "dlist (ca_list ?c) xs = dlist (ca_list c) xs" using new by (intro dlist_cong) (auto simp: f set_prev_def set_next_def)
    then show "dlist (ca_list ?c) xs" using cinvD(1) [OF inv] by simp
    show "distinct (map fst (ca_table ?c))" "length (ca_table ?c) = length xs" using cinvD(2,3) [OF inv] by (simp_all add: f)
    show "(k, q) \<in> set (ca_table ?c) \<longleftrightarrow> q \<in> set xs \<and> (\<exists>rec. ca_rec ?c q = Some rec \<and> rec_key rec = k)" for k q
      using cinvD(4) [OF inv, of k q] new by (auto simp: f)
    show "ca_rec ?c q \<noteq> None" if "q \<in> set xs" for q using that cinvD(5) [OF inv] by (auto simp: f)
    show "cr_ref_count rec' = n q" if "ca_rec ?c q = Some rec'" for q rec' using that cinvD(6) [OF inv, of q] n r by (auto simp: f split: if_splits)
    show "ca_rec ?c q \<noteq> None" if "0 < n q" for q using that cinvD(7) [OF inv, of q] by (auto simp: f)
    show "q \<in> insert r G \<or> 0 < n q" if "ca_rec ?c q \<noteq> None" "q \<notin> set xs" for q
      using that cinvD(8) [OF inv, of q] by (auto simp: f split: if_splits)
    show "l_prev (ca_list ?c) q = None" if "q \<notin> set xs" for q using that cinvD(9) [OF inv, of q] by (simp add: f set_prev_def set_next_def)
  qed
qed

text \<open>Linking at the front.\<close>

lemma link_first_prev: "dlist L xs \<Longrightarrow> q \<notin> set xs \<Longrightarrow> q \<noteq> r \<Longrightarrow> l_prev (link_first r L) q = l_prev L q"
  by (cases xs) (auto simp: dlist_def links_defs)

lemma head_alive: "cinv G xs n c \<Longrightarrow> alive c (l_first (ca_list c))"
  using neighbours_alive(4) [of G xs n c] dlist_first [OF cinvD(1), of G xs n c] by (cases xs) (auto simp: alive_def)

lemma insert_ok:
  assumes inv: "cinv (insert r G) xs n c" and r: "r \<notin> set xs" "ca_rec c r = Some rec" "map_of (ca_table c) (rec_key rec) = None"
  defines "c1 \<equiv> c\<lparr>ca_table := (rec_key rec, r) # ca_table c\<rparr>"
  shows "cache_rec_link r c1 = Some (c1\<lparr>ca_list := link_first r (ca_list c)\<rparr>)" "cinv G (r # xs) n (c1\<lparr>ca_list := link_first r (ca_list c)\<rparr>)"
proof -
  have "alive c1 = alive c" by (simp add: c1_def alive_def fun_eq_iff split: option.split)
  then show "cache_rec_link r c1 = Some (c1\<lparr>ca_list := link_first r (ca_list c)\<rparr>)"
    using head_alive [OF inv] r(2) by (simp add: cache_rec_link_def c1_def alive_def)
  let ?c = "c1\<lparr>ca_list := link_first r (ca_list c)\<rparr>"
  have f: "ca_table ?c = (rec_key rec, r) # ca_table c" "ca_rec ?c = ca_rec c" "ca_list ?c = link_first r (ca_list c)" by (simp_all add: c1_def)
  have fresh: "rec_key rec \<notin> fst ` set (ca_table c)" using r(3) by (simp add: map_of_eq_None_iff)
  show "cinv G (r # xs) n ?c"
  proof (rule cinvI)
    show "dlist (ca_list ?c) (r # xs)" using dlist_link_first [OF cinvD(1) [OF inv] r(1)] by (simp add: f)
    show "distinct (map fst (ca_table ?c))" "length (ca_table ?c) = length (r # xs)" using cinvD(2,3) [OF inv] fresh by (simp_all add: f)
    show "(k, q) \<in> set (ca_table ?c) \<longleftrightarrow> q \<in> set (r # xs) \<and> (\<exists>rec. ca_rec ?c q = Some rec \<and> rec_key rec = k)" for k q
      using cinvD(4) [OF inv, of k q] r(1,2) by (auto simp: f)
    show "ca_rec ?c q \<noteq> None" if "q \<in> set (r # xs)" for q using that cinvD(5) [OF inv, of q] r(2) by (auto simp: f)
    show "cr_ref_count rec' = n q" if "ca_rec ?c q = Some rec'" for q rec' using that cinvD(6) [OF inv, of q] by (simp add: f)
    show "ca_rec ?c q \<noteq> None" if "0 < n q" for q using that cinvD(7) [OF inv, of q] by (simp add: f)
    show "q \<in> G \<or> 0 < n q" if "ca_rec ?c q \<noteq> None" "q \<notin> set (r # xs)" for q using that cinvD(8) [OF inv, of q] by (auto simp: f)
    show "l_prev (ca_list ?c) q = None" if "q \<notin> set (r # xs)" for q
      using that cinvD(9) [OF inv, of q] link_first_prev [OF cinvD(1) [OF inv], of q r] by (simp add: f)
  qed
qed

lemma move_front_ok:
  assumes inv: "cinv G xs n c" and r: "r \<in> set xs"
  obtains L where "(if l_first (ca_list c) \<noteq> Some r then Option.bind (cache_rec_unlink r c) (cache_rec_link r) else Some c) = Some (c\<lparr>ca_list := L\<rparr>)"
    "cinv G (r # remove1 r xs) n (c\<lparr>ca_list := L\<rparr>)"
proof (cases "l_first (ca_list c) = Some r")
  case True
  then have "r # remove1 r xs = xs" using dlist_first [OF cinvD(1) [OF inv]] r by (cases xs) auto
  then show ?thesis using that [of "ca_list c"] True inv by simp
next
  case False
  obtain as bs where xs: "xs = as @ r # bs" using split_list [OF r] by blast
  have d: "dlist (ca_list c) (as @ r # bs)" using cinvD(1) [OF inv] xs by simp
  have rm: "remove1 r xs = as @ bs" "r \<notin> set (as @ bs)" using dlist_distinct [OF d] by (simp_all add: xs remove1_append)
  let ?L = "link_first r (unlink r (ca_list c))"
  have dl: "dlist ?L (r # as @ bs)" by (rule dlist_link_first [OF dlist_unlink [OF d] rm(2)])
  obtain rec where rec: "ca_rec c r = Some rec" using cinvD(5) [OF inv r] by blast
  have al: "alive (c\<lparr>ca_list := L\<rparr>) = alive c" for L by (simp add: alive_def fun_eq_iff split: option.split)
  have "l_first (unlink r (ca_list c)) = None \<or> (\<exists>q \<in> set xs. l_first (unlink r (ca_list c)) = Some q)"
    using dlist_first [OF dlist_unlink [OF d]] xs by (cases as; cases bs) auto
  then have "alive c (l_first (unlink r (ca_list c)))" using cinvD(5) [OF inv] by (auto simp: alive_def)
  then have "Option.bind (cache_rec_unlink r c) (cache_rec_link r) = Some (c\<lparr>ca_list := ?L\<rparr>)"
    using neighbours_alive [OF inv r] by (simp add: remove_ok(1) [OF inv r rec] cache_rec_link_def al)
  moreover have "cinv G (r # remove1 r xs) n (c\<lparr>ca_list := ?L\<rparr>)"
  proof (rule cinvI)
    show "dlist (ca_list (c\<lparr>ca_list := ?L\<rparr>)) (r # remove1 r xs)" using dl rm(1) by simp
    have set: "set (r # remove1 r xs) = set xs" "length (r # remove1 r xs) = length xs" unfolding rm(1) by (auto simp: xs)
    show "l_prev (ca_list (c\<lparr>ca_list := ?L\<rparr>)) q = None" if "q \<notin> set (r # remove1 r xs)" for q
      using that link_first_prev [OF dlist_unlink [OF d], of q r] links_frame_unlink(2) [OF d, of q] cinvD(9) [OF inv, of q]
      unfolding set by (auto simp: xs)
    show "distinct (map fst (ca_table (c\<lparr>ca_list := ?L\<rparr>)))" "length (ca_table (c\<lparr>ca_list := ?L\<rparr>)) = length (r # remove1 r xs)"
      using cinvD(2,3) [OF inv] unfolding set by simp_all
    show "(k, q) \<in> set (ca_table (c\<lparr>ca_list := ?L\<rparr>)) \<longleftrightarrow> q \<in> set (r # remove1 r xs) \<and> (\<exists>rec. ca_rec (c\<lparr>ca_list := ?L\<rparr>) q = Some rec \<and> rec_key rec = k)" for k q
      unfolding set using cinvD(4) [OF inv] by simp
    show "ca_rec (c\<lparr>ca_list := ?L\<rparr>) q \<noteq> None" if "q \<in> set (r # remove1 r xs)" for q using that cinvD(5) [OF inv, of q] unfolding set by simp
    show "cr_ref_count rec' = n q" if "ca_rec (c\<lparr>ca_list := ?L\<rparr>) q = Some rec'" for q rec' using that cinvD(6) [OF inv, of q] by simp
    show "ca_rec (c\<lparr>ca_list := ?L\<rparr>) q \<noteq> None" if "0 < n q" for q using that cinvD(7) [OF inv, of q] by simp
    show "q \<in> G \<or> 0 < n q" if "ca_rec (c\<lparr>ca_list := ?L\<rparr>) q \<noteq> None" "q \<notin> set (r # remove1 r xs)" for q
      using that cinvD(8) [OF inv, of q] unfolding set by auto
  qed
  ultimately show ?thesis using that False by simp
qed

section \<open>Eviction\<close>

text \<open>The policy: of the records that are not in use, the least recently used go first, until the limit is kept.\<close>

fun drop_unused :: "nat \<Rightarrow> ('a \<Rightarrow> bool) \<Rightarrow> 'a list \<Rightarrow> 'a list" where
  "drop_unused 0 used ys = ys"
| "drop_unused (Suc k) used [] = []"
| "drop_unused (Suc k) used (y # ys) = (if used y then y # drop_unused (Suc k) used ys else drop_unused k used ys)"

definition evict :: "nat \<Rightarrow> ('a \<Rightarrow> bool) \<Rightarrow> 'a list \<Rightarrow> 'a list" where
  "evict m used xs = rev (drop_unused (length xs - m) used (rev xs))"

lemma drop_unused_none: "\<forall>y \<in> set ys. used y \<Longrightarrow> drop_unused k used ys = ys"
  by (induction k used ys rule: drop_unused.induct) auto

lemma drop_unused_next: "\<forall>y \<in> set ps. used y \<Longrightarrow> \<not> used r \<Longrightarrow> drop_unused (Suc k) used (ps @ r # qs) = drop_unused k used (ps @ qs)"
proof (induction ps)
  case (Cons p ps)
  then show ?case by (cases k) simp_all
qed simp

lemma drop_unused_set: "set (drop_unused k used ys) \<subseteq> set ys" "used y \<Longrightarrow> y \<in> set ys \<Longrightarrow> y \<in> set (drop_unused k used ys)"
  by (induction k used ys rule: drop_unused.induct) auto

lemma drop_unused_length: "length (drop_unused k used ys) \<le> length ys - k \<or> (\<forall>y \<in> set (drop_unused k used ys). used y)"
proof (induction k used ys rule: drop_unused.induct)
  case (3 k used y ys)
  show ?case
  proof (cases "used y")
    case True
    then show ?thesis using 3(1) by (cases "length ys \<le> k") (auto simp: Suc_diff_le)
  qed (use 3(2) in auto)
qed auto

lemma evict_set: "set (evict m used xs) \<subseteq> set xs" "used y \<Longrightarrow> y \<in> set xs \<Longrightarrow> y \<in> set (evict m used xs)"
  using drop_unused_set(1) [of "length xs - m" used "rev xs"] drop_unused_set(2) [of used y "rev xs" "length xs - m"] by (auto simp: evict_def)

lemma evict_length: "length (evict m used xs) \<le> m \<or> (\<forall>y \<in> set (evict m used xs). used y)"
  using drop_unused_length [of "length xs - m" used "rev xs"] by (auto simp: evict_def)

lemma evict_small: "length xs \<le> m \<Longrightarrow> evict m used xs = xs"
  by (simp add: evict_def)

lemma evict_next:
  assumes "m < length (as @ r # bs)" "\<forall>y \<in> set bs. used y" "\<not> used r"
  shows "evict m used (as @ r # bs) = evict m used (as @ bs)"
proof -
  obtain k where k: "length (as @ r # bs) - m = Suc k" using assms(1) by (cases "length (as @ r # bs) - m") auto
  then have k': "length (as @ bs) - m = k" by simp
  show ?thesis unfolding evict_def k k' using drop_unused_next [of "rev bs" used r k "rev as"] assms(2,3) by simp
qed

lemma find_split:
  assumes "find (\<lambda>r. n r = (0 :: nat)) ys = Some r"
  obtains ps qs where "ys = ps @ r # qs" "n r = 0" "\<forall>y \<in> set ps. 0 < n y"
proof -
  from assms have "\<exists>ps qs. ys = ps @ r # qs \<and> n r = 0 \<and> (\<forall>y \<in> set ps. 0 < n y)"
  proof (induction ys)
    case (Cons y ys)
    show ?case
    proof (cases "n y = 0")
      case True
      then show ?thesis using Cons.prems by (intro exI [of _ "[]"] exI [of _ ys]) simp
    next
      case False
      then obtain ps qs where "ys = ps @ r # qs \<and> n r = 0 \<and> (\<forall>y \<in> set ps. 0 < n y)" using Cons by auto
      then show ?thesis using False by (intro exI [of _ "y # ps"] exI [of _ qs]) simp
    qed
  qed simp
  then show ?thesis using that by blast
qed

lemma find_unused_run:
  assumes "chain (l_prev (ca_list c)) ys None" "\<And>r. r \<in> set ys \<Longrightarrow> \<exists>rec. ca_rec c r = Some rec \<and> cr_ref_count rec = n r"
  shows "find_unused c (head_or ys None) = Some (find (\<lambda>r. n r = 0) ys)"
  using assms
proof (induction ys)
  case Nil
  then show ?case by (subst find_unused.simps) simp
next
  case (Cons y ys)
  obtain rec where rec: "ca_rec c y = Some rec" "cr_ref_count rec = n y" using Cons.prems(2) [of y] by auto
  have "find_unused c (head_or ys None) = Some (find (\<lambda>r. n r = 0) ys)" using Cons by simp
  then show ?case using Cons.prems(1) rec by (subst find_unused.simps) simp
qed

text \<open>
  The size check returns: the record it finds is in the table.  It keeps every record that is in use.
\<close>

lemma check_size_run:
  assumes "cinv {} xs n c"
  shows "\<exists>c'. cache_check_size c = Some c' \<and> cinv {} (evict NXWEB_MAX_CACHED_ITEMS (\<lambda>r. 0 < n r) xs) n c'
    \<and> (\<forall>r. r \<in> set (evict NXWEB_MAX_CACHED_ITEMS (\<lambda>r. 0 < n r) xs) \<or> 0 < n r \<longrightarrow> ca_rec c' r = ca_rec c r)"
  using assms
proof (induction "length xs" arbitrary: xs c)
  case 0
  then have "length (ca_table c) \<le> NXWEB_MAX_CACHED_ITEMS" using cinvD(3) [OF 0(2)] by simp
  then show ?case using 0 by (subst cache_check_size.simps) (simp add: evict_small)
next
  case (Suc m)
  note inv = Suc.prems
  let ?used = "\<lambda>r. 0 < n r"
  show ?case
  proof (cases "NXWEB_MAX_CACHED_ITEMS < length (ca_table c)")
    case False
    then show ?thesis using inv cinvD(3) [OF inv] by (subst cache_check_size.simps) (simp add: evict_small)
  next
    case big: True
    have "find_unused c (head_or (rev xs) None) = Some (find (\<lambda>r. n r = 0) (rev xs))"
    proof (rule find_unused_run)
      show "chain (l_prev (ca_list c)) (rev xs) None" using cinvD(1) [OF inv] by (simp add: dlist_def)
      show "\<exists>rec. ca_rec c r = Some rec \<and> cr_ref_count rec = n r" if "r \<in> set (rev xs)" for r
        using cinvD(5) [OF inv, of r] cinvD(6) [OF inv, of r] that by auto
    qed
    then have fu: "find_unused c (l_last (ca_list c)) = Some (find (\<lambda>r. n r = 0) (rev xs))" using cinvD(1) [OF inv] by (simp add: dlist_def)
    show ?thesis
    proof (cases "find (\<lambda>r. n r = 0) (rev xs)")
      case None
      then have "\<forall>y \<in> set (rev xs). ?used y" by (auto simp: find_None_iff)
      then have "evict NXWEB_MAX_CACHED_ITEMS ?used xs = xs" by (simp add: evict_def drop_unused_none)
      then show ?thesis using big fu None inv by (subst cache_check_size.simps) simp
    next
      case (Some r)
      obtain ps qs where split: "rev xs = ps @ r # qs" "n r = 0" "\<forall>y \<in> set ps. ?used y" by (rule find_split [OF Some])
      then have xs: "xs = rev qs @ r # rev ps" by (metis append.assoc append_Cons append_Nil rev.simps(2) rev_append rev_rev_ident)
      have rx: "r \<in> set xs" by (simp add: xs)
      obtain rec where rec: "ca_rec c r = Some rec" using cinvD(5) [OF inv rx] by blast
      let ?c1 = "(table_del (rec_key rec) c)\<lparr>ca_list := unlink r (ca_list c)\<rparr>"
      let ?c2 = "?c1\<lparr>ca_rec := (ca_rec c)(r := None)\<rparr>"
      note rm = remove_ok [OF inv rx rec]
      have fr: "free_rec r ?c1 = Some ?c2" "cinv {} (remove1 r xs) n ?c2"
        using free_ok [OF rm(3,4) split(2)] rec by (simp_all add: table_del_list)
      have comm: "table_del (rec_key rec) (c\<lparr>ca_list := unlink r (ca_list c)\<rparr>) = ?c1" by (simp add: table_del_def)
      have mo: "map_of (ca_table c) (rec_key rec) = Some r" using table_lookup [OF inv] rx rec by blast
      have step: "cache_check_size c = cache_check_size ?c2"
        by (subst cache_check_size.simps) (simp add: big fu Some rec mo rm(1) comm fr(1))
      have dx: "distinct xs" using cinvD(1) [OF inv] by (rule dlist_distinct)
      then have rx1: "remove1 r xs = rev qs @ rev ps" by (simp add: xs remove1_append)
      have ev: "evict NXWEB_MAX_CACHED_ITEMS ?used xs = evict NXWEB_MAX_CACHED_ITEMS ?used (remove1 r xs)"
        unfolding rx1 unfolding xs by (rule evict_next) (use big cinvD(3) [OF inv] split in \<open>auto simp: xs\<close>)
      have len: "m = length (remove1 r xs)" using Suc(2) rx by (simp add: length_remove1)
      from Suc(1) [OF len fr(2)] obtain c' where c': "cache_check_size ?c2 = Some c'" "cinv {} (evict NXWEB_MAX_CACHED_ITEMS ?used (remove1 r xs)) n c'"
        "\<forall>q. q \<in> set (evict NXWEB_MAX_CACHED_ITEMS ?used (remove1 r xs)) \<or> 0 < n q \<longrightarrow> ca_rec c' q = ca_rec ?c2 q" by blast
      have "r \<notin> set (evict NXWEB_MAX_CACHED_ITEMS ?used (remove1 r xs))" using evict_set(1) rm(4) by fastforce
      then have "ca_rec c' q = ca_rec c q" if "q \<in> set (evict NXWEB_MAX_CACHED_ITEMS ?used (remove1 r xs)) \<or> 0 < n q" for q
        using that c'(3) split(2) by (cases "q = r") auto
      then show ?thesis using step c'(1,2) by (simp add: ev)
    qed
  qed
qed

section \<open>Every operation keeps the cache in order\<close>

text \<open>The bytes of the records in use do not change.\<close>

definition same_bytes :: "(nat \<Rightarrow> nat) \<Rightarrow> nxweb_cache \<Rightarrow> nxweb_cache \<Rightarrow> bool" where
  "same_bytes n c c' \<longleftrightarrow> (\<forall>q. 0 < n q \<longrightarrow> map_option cr_content (ca_rec c' q) = map_option cr_content (ca_rec c q))"

lemma unref_run:
  assumes inv: "cinv {} xs n c" and r: "0 < n r"
  shows "\<exists>c' xs'. cache_rec_unref t r c = Some c' \<and> cinv {} (evict NXWEB_MAX_CACHED_ITEMS (\<lambda>q. 0 < (n(r := n r - 1)) q) xs') (n(r := n r - 1)) c'
    \<and> (xs' = xs \<or> xs' = remove1 r xs \<and> n r = 1) \<and> same_bytes (n(r := n r - 1)) c c'"
proof -
  obtain rec where rec: "ca_rec c r = Some rec" "cr_ref_count rec = n r" using cinvD(7) [OF inv r] cinvD(6) [OF inv] by auto
  let ?rec = "rec\<lparr>cr_ref_count := n r - 1\<rparr>" and ?n = "n(r := n r - 1)"
  let ?c = "set_rec r ?rec c"
  have inv1: "cinv {r} xs ?n ?c" using set_rec_ok [OF inv rec(1), of ?rec] by simp
  have get: "ca_rec ?c r = Some ?rec" "ca_table ?c = ca_table c" by (simp_all add: set_rec_def)
  define dead where "dead \<longleftrightarrow> n r - 1 = 0 \<and> (cr_expires_time ?rec < t \<or> \<not> IS_LINKED r ?c)"
  have linked: "IS_LINKED r ?c \<longleftrightarrow> r \<in> set xs"
  proof
    assume "r \<in> set xs"
    then obtain as bs where xs: "xs = as @ r # bs" using split_list by fast
    then show "IS_LINKED r ?c" using cinvD(1) [OF inv1] by (cases as rule: rev_cases) (auto simp: IS_LINKED_def dlist_def)
  next
    assume "IS_LINKED r ?c"
    moreover have "l_first (ca_list ?c) = Some r \<Longrightarrow> r \<in> set xs" using dlist_first [OF cinvD(1) [OF inv1]] by (cases xs) auto
    ultimately show "r \<in> set xs" using cinvD(9) [OF inv1, of r] unfolding IS_LINKED_def by (cases "r \<in> set xs") simp_all
  qed
  have "\<exists>c2 xs'. (if dead then do { c \<leftarrow> (if map_of (ca_table ?c) (rec_key ?rec) = Some r then cache_rec_unlink r (table_del (rec_key ?rec) ?c) else Some ?c); free_rec r c } else Some ?c) = Some c2
      \<and> cinv {} xs' ?n c2 \<and> (xs' = xs \<or> xs' = remove1 r xs \<and> n r = 1) \<and> (\<forall>q. 0 < ?n q \<longrightarrow> ca_rec c2 q = ca_rec ?c q)"
  proof (cases dead)
    case False
    then have "r \<in> set xs \<or> 0 < ?n r" using linked by (auto simp: dead_def)
    then have "cinv {} xs ?n ?c" using cinv_mono [OF inv1] by blast
    then show ?thesis using False by auto
  next
    case True
    then have n0: "?n r = 0" "n r = 1" using r by (auto simp: dead_def)
    show ?thesis
    proof (cases "r \<in> set xs")
      case rx: True
      then have mo: "map_of (ca_table ?c) (rec_key ?rec) = Some r" using table_lookup [OF inv1, of "rec_key ?rec" r] get(1) by blast
      note rm = remove_ok [OF inv1 rx get(1)]
      have rm3: "cinv {r} (remove1 r xs) ?n ((table_del (rec_key ?rec) ?c)\<lparr>ca_list := unlink r (ca_list ?c)\<rparr>)" using rm(3) by simp
      define c1 where "c1 = (table_del (rec_key ?rec) ?c)\<lparr>ca_list := unlink r (ca_list ?c)\<rparr>"
      have c1: "ca_rec c1 = ca_rec ?c" by (simp add: c1_def table_del_list)
      have al: "ca_rec c1 r \<noteq> None" unfolding c1 get(1) by simp
      note fr = free_ok [OF rm3 [folded c1_def] rm(4) n0(1) al]
      show ?thesis
        by (intro exI [of _ "c1\<lparr>ca_rec := (ca_rec c1)(r := None)\<rparr>"] exI [of _ "remove1 r xs"] conjI fr(2))
          (use True mo rm(2) [folded c1_def] fr(1) n0 in \<open>auto simp: c1\<close>)
    next
      case rx: False
      then have mo: "map_of (ca_table ?c) (rec_key ?rec) \<noteq> Some r" using table_lookup [OF inv1, of "rec_key ?rec" r] by blast
      have al: "ca_rec ?c r \<noteq> None" unfolding get(1) by simp
      note fr = free_ok [OF inv1 rx n0(1) al]
      show ?thesis
        by (intro exI [of _ "?c\<lparr>ca_rec := (ca_rec ?c)(r := None)\<rparr>"] exI [of _ xs] conjI fr(2)) (use True mo fr(1) n0 in auto)
    qed
  qed
  then obtain c2 xs' where c2: "(if dead then do { c \<leftarrow> (if map_of (ca_table ?c) (rec_key ?rec) = Some r then cache_rec_unlink r (table_del (rec_key ?rec) ?c) else Some ?c); free_rec r c } else Some ?c) = Some c2"
    "cinv {} xs' ?n c2" "xs' = xs \<or> xs' = remove1 r xs \<and> n r = 1" "\<forall>q. 0 < ?n q \<longrightarrow> ca_rec c2 q = ca_rec ?c q" by blast
  obtain c' where c': "cache_check_size c2 = Some c'" "cinv {} (evict NXWEB_MAX_CACHED_ITEMS (\<lambda>q. 0 < ?n q) xs') ?n c'"
    "\<forall>q. q \<in> set (evict NXWEB_MAX_CACHED_ITEMS (\<lambda>q. 0 < ?n q) xs') \<or> 0 < ?n q \<longrightarrow> ca_rec c' q = ca_rec c2 q" using check_size_run [OF c2(2)] by blast
  have "cache_rec_unref t r c = Some c'"
    unfolding cache_rec_unref_def using r rec c2(1) c'(1) by (simp add: Let_def dead_def cong: if_cong)
  moreover have "same_bytes ?n c c'" using c'(3) c2(4) rec(1) by (simp add: set_rec_def same_bytes_def)
  ultimately show ?thesis using c'(2) c2(3) by blast
qed

lemma drop_run:
  assumes inv: "cinv {} xs n c" and r: "r \<in> set xs" "ca_rec c r = Some rec"
  shows "\<exists>c'. cache_drop r rec (rec_key rec) c = Some c' \<and> cinv {} (remove1 r xs) n c' \<and> (\<forall>q. q \<noteq> r \<or> 0 < n r \<longrightarrow> ca_rec c' q = ca_rec c q)"
proof -
  note rm = remove_ok [OF inv r]
  let ?c1 = "(table_del (rec_key rec) c)\<lparr>ca_list := unlink r (ca_list c)\<rparr>"
  have n: "cr_ref_count rec = n r" using cinvD(6) [OF inv r(2)] .
  show ?thesis
  proof (cases "n r = 0")
    case True
    have "free_rec r ?c1 = Some (?c1\<lparr>ca_rec := (ca_rec ?c1)(r := None)\<rparr>)" "cinv {} (remove1 r xs) n (?c1\<lparr>ca_rec := (ca_rec ?c1)(r := None)\<rparr>)"
      using free_ok [OF rm(3,4) True] r(2) by (simp_all add: table_del_list)
    then show ?thesis using True n rm(2) by (intro exI conjI) (auto simp: cache_drop_def table_del_list)
  next
    case False
    then have "cinv {} (remove1 r xs) n ?c1" using cinv_mono [OF rm(3), of "{}"] by blast
    then show ?thesis using False n rm(2) by (intro exI [of _ ?c1]) (auto simp: cache_drop_def table_del_list)
  qed
qed

text \<open>A record is put in use once more.\<close>

lemma count_run:
  assumes inv: "cinv {} xs n c" and r: "r \<in> set xs" "ca_rec c r = Some rec" and n: "n r + 1 < 2 ^ 32"
  shows "cinv {} xs (n(r := n r + 1)) (set_rec r (count_ref rec) c)"
proof -
  have "cr_ref_count (count_ref rec) = n r + 1" using cinvD(6) [OF inv r(2)] n by (simp add: count_ref_def)
  then show ?thesis using set_rec_ok [OF inv r(2), of "count_ref rec"] cinv_mono r(1) by (metis empty_iff insert_iff rec_key_fields(3))
qed

lemma revalidate_fields [simp]: "rec_key (revalidate t m rec) = rec_key rec" "cr_ref_count (revalidate t m rec) = cr_ref_count rec"
    "cr_last_modified (revalidate t m rec) = cr_last_modified rec"
  by (simp_all add: revalidate_def)

lemma revalidate_run:
  assumes inv: "cinv {} xs n c" and r: "r \<in> set xs" "ca_rec c r = Some rec"
  shows "cinv {} xs n (set_rec r (revalidate t m rec) c)"
proof -
  have "n(r := cr_ref_count (revalidate t m rec)) = n" using cinvD(6) [OF inv r(2)] by auto
  then show ?thesis using set_rec_ok [OF inv r(2), of "revalidate t m rec"] cinv_mono [of "{r}" xs n] r(1) by auto
qed

lemma try_found:
  assumes "\<not> unsupported_key key" "map_of (ca_table c) key = Some r" "ca_rec c r = Some rec"
  shows "nxweb_cache_try t key ims m conn resp c = (let rec = revalidate t m rec; c = set_rec r rec c in
      if t \<le> cr_expires_time rec then cache_hit r rec ims conn resp c
      else if m = 0 then Some (NXWEB_REVALIDATE, conn, resp, c) else map_option (\<lambda>c. (NXWEB_MISS, conn, resp, c)) (cache_drop r rec key c))"
  using assms by (simp add: nxweb_cache_try_def)

lemma hit_moved:
  assumes "(if l_first (ca_list c) \<noteq> Some r then Option.bind (cache_rec_unlink r c) (cache_rec_link r) else Some c) = Some c'"
  shows "cache_hit r rec ims conn resp c = (if ims \<noteq> 0 \<and> cr_last_modified rec \<le> ims
      then Some (NXWEB_OK, conn, resp\<lparr>rs_status_code := 304, rs_status := Some ''Not Modified''\<rparr>, c')
      else Some (NXWEB_OK, hold_rec r, serve_rec r rec resp, set_rec r (count_ref rec) c'))"
  unfolding cache_hit_def assms by simp

text \<open>All outcomes of a lookup.\<close>

lemma try_run:
  assumes inv: "cinv {} xs n c" and n: "\<And>r. n r + 1 < 2 ^ 32"
  shows "\<exists>res conn' resp' c'. nxweb_cache_try t key ims m conn resp c = Some (res, conn', resp', c')
    \<and> same_bytes n c c'
    \<and> (conn' = conn \<and> (\<exists>xs'. cinv {} xs' n c' \<and> set xs' \<subseteq> set xs \<and> length xs' \<le> length xs)
        \<and> (res = NXWEB_MISS \<longrightarrow> resp' = resp \<and> (unsupported_key key \<or> map_of (ca_table c') key = None))
      \<or> (\<exists>r. conn' = hold_rec r \<and> res = NXWEB_OK \<and> r \<in> set xs \<and> cinv {} (r # remove1 r xs) (n(r := n r + 1)) c'))"
proof (cases "unsupported_key key \<or> map_of (ca_table c) key = None")
  case True
  then show ?thesis using inv by (intro exI conjI disjI1) (auto simp: nxweb_cache_try_def same_bytes_def)
next
  case False
  then obtain r where mo: "map_of (ca_table c) key = Some r" by auto
  obtain rec where r: "r \<in> set xs" "ca_rec c r = Some rec" "rec_key rec = key" using table_lookup [OF inv] mo by blast
  define rec' where "rec' = revalidate t m rec"
  let ?c = "set_rec r rec' c"
  have inv1: "cinv {} xs n ?c" unfolding rec'_def by (rule revalidate_run [OF inv r(1,2)])
  have get: "ca_rec ?c r = Some rec'" by (simp add: set_rec_def)
  have bytes: "same_bytes n c (?c\<lparr>ca_list := L\<rparr>)" "same_bytes n c (set_rec r (count_ref rec') (?c\<lparr>ca_list := L\<rparr>))" for L
    using r(2) by (simp_all add: same_bytes_def set_rec_def rec'_def revalidate_def count_ref_def)
  have tr: "nxweb_cache_try t key ims m conn resp c = (if t \<le> cr_expires_time rec' then cache_hit r rec' ims conn resp ?c
      else if m = 0 then Some (NXWEB_REVALIDATE, conn, resp, ?c) else map_option (\<lambda>c. (NXWEB_MISS, conn, resp, c)) (cache_drop r rec' key ?c))"
    using try_found [OF _ mo r(2)] False by (simp add: rec'_def Let_def)
  consider "t \<le> cr_expires_time rec'" | "\<not> t \<le> cr_expires_time rec'" "m = 0" | "\<not> t \<le> cr_expires_time rec'" "m \<noteq> 0" by blast
  then show ?thesis
  proof cases
    case 1
    obtain L where L: "(if l_first (ca_list ?c) \<noteq> Some r then Option.bind (cache_rec_unlink r ?c) (cache_rec_link r) else Some ?c) = Some (?c\<lparr>ca_list := L\<rparr>)"
      "cinv {} (r # remove1 r xs) n (?c\<lparr>ca_list := L\<rparr>)" by (rule move_front_ok [OF inv1 r(1)])
    have sets: "set (r # remove1 r xs) \<subseteq> set xs" "length (r # remove1 r xs) \<le> length xs"
      using r(1) set_remove1_subset [of r xs] length_pos_if_in_set [OF r(1)] by (auto simp: length_remove1)
    show ?thesis
    proof (cases "ims \<noteq> 0 \<and> cr_last_modified rec' \<le> ims")
      case True
      then show ?thesis using tr 1 L sets bytes(1) [of L] by (intro exI conjI disjI1) (auto simp: cache_hit_def)
    next
      case False
      have "cinv {} (r # remove1 r xs) (n(r := n r + 1)) (set_rec r (count_ref rec') (?c\<lparr>ca_list := L\<rparr>))"
        by (rule count_run [OF L(2) _ _ n]) (simp_all add: get)
      then show ?thesis using tr 1 L(1) False r(1) bytes(2) [of L] by (intro exI conjI disjI2) (auto simp: cache_hit_def)
    qed
  next
    case 2
    then show ?thesis using tr inv1 bytes(1) [of "ca_list ?c"] by (intro exI conjI disjI1) auto
  next
    case 3
    obtain c' where c': "cache_drop r rec' key ?c = Some c'" "cinv {} (remove1 r xs) n c'" "\<forall>q. q \<noteq> r \<or> 0 < n r \<longrightarrow> ca_rec c' q = ca_rec ?c q"
      using drop_run [OF inv1 r(1) get] r(3) by (auto simp: rec'_def)
    have "same_bytes n c c'" using c'(3) bytes(1) [of "ca_list ?c"] by (auto simp: same_bytes_def)
    moreover have "map_of (ca_table c') key = None"
    proof (rule ccontr)
      assume "map_of (ca_table c') key \<noteq> None"
      then obtain q where q: "map_of (ca_table c') key = Some q" by blast
      have "(key, q) \<in> set (ca_table c')" using q by (rule map_of_SomeD)
      moreover have "ca_table c' = filter (\<lambda>e. fst e \<noteq> key) (ca_table c)"
        using c'(1) by (auto simp: cache_drop_def cache_rec_unlink_def free_rec_def table_del_def set_rec_def split: if_splits)
      ultimately show False by simp
    qed
    ultimately show ?thesis using tr 3 c'(1,2) set_remove1_subset [of r xs] by (intro exI conjI disjI1) (auto simp: length_remove1)
  qed
qed

lemma rec_key_new: "NUL \<notin> set key \<Longrightarrow> length content = nat (rs_content_length resp) \<Longrightarrow> rec_key (new_rec t key resp content) = key"
  unfolding rec_key_def new_rec_def by (simp add: cstr_def)

text \<open>The second part of storing, when the lock is taken again.\<close>

lemma fill_run:
  fixes t :: nat
  assumes inv: "cinv {} xs n c" and n: "\<And>r. n r + 1 < 2 ^ 32" and key: "NUL \<notin> set key" and new: "ca_rec c a = None"
    and len: "length content = nat (rs_content_length resp)" and conn: "\<not> cc_req_finalize conn"
  defines "c0 \<equiv> calloc_rec a (new_rec t key resp content) c"
  shows "\<exists>conn' resp' c'. cache_insert room a key conn resp c0 = Some (NXWEB_OK, conn', resp', c') \<and> same_bytes n c c'
    \<and> (conn' = conn \<and> \<not> room \<and> cinv {} xs n c'
      \<or> (\<exists>r \<in> set xs. conn' = hold_rec r \<and> map_of (ca_table c) key = Some r \<and> cinv {} xs (n(r := n r + 1)) c')
      \<or> conn' = hold_rec a \<and> resp' = resp\<lparr>rs_content := Some (Ptr (a + OFFSETOF_CONTENT))\<rparr> \<and> map_of (ca_table c) key = None
         \<and> cinv {} (evict NXWEB_MAX_CACHED_ITEMS (\<lambda>q. 0 < (n(a := 1)) q) (a # xs)) (n(a := 1)) c'
         \<and> ca_rec c' a = Some ((new_rec t key resp content)\<lparr>cr_ref_count := 1\<rparr>))"
proof -
  let ?rec = "new_rec t key resp content"
  have k: "rec_key ?rec = key" by (rule rec_key_new [OF key len])
  have inv0: "cinv {a} xs n c0" "a \<notin> set xs" unfolding c0_def using calloc_ok [OF inv new, of ?rec] by (auto simp: new_rec_def)
  have get: "ca_rec c0 a = Some ?rec" "ca_table c0 = ca_table c" by (simp_all add: c0_def calloc_rec_def set_rec_def)
  have na: "n a = 0" using cinvD(7) [OF inv, of a] new by auto
  let ?resp = "resp\<lparr>rs_content := Some (Ptr (a + OFFSETOF_CONTENT))\<rparr>"
  note fr = free_ok [OF inv0 na, unfolded get(1)]
  have other: "q \<noteq> a" if "0 < n q" for q using that na by auto
  have b0: "ca_rec c0 q = ca_rec c q" if "0 < n q" for q using other [OF that] by (simp add: c0_def calloc_rec_def set_rec_def)
  let ?c1 = "c0\<lparr>ca_rec := (ca_rec c0)(a := None)\<rparr>"
  have inv1: "free_rec a c0 = Some ?c1" "cinv {} xs n ?c1" using fr by simp_all
  show ?thesis
  proof (cases "map_of (ca_table c) key")
    case (Some r)
    have mo: "map_of (ca_table ?c1) key = Some r" by (simp add: get Some)
    obtain rec where r: "r \<in> set xs" "ca_rec ?c1 r = Some rec" using table_lookup [OF inv1(2), of key r] mo by blast
    have "cinv {} xs (n(r := n r + 1)) (set_rec r (count_ref rec) ?c1)" by (rule count_run [OF inv1(2) r n])
    moreover have "cache_insert room a key conn resp c0 = Some (NXWEB_OK, hold_rec r, serve_rec r rec ?resp, set_rec r (count_ref rec) ?c1)"
      unfolding cache_insert_def get(2) Some using inv1(1) r(2) conn by (simp add: Let_def)
    moreover have "same_bytes n c (set_rec r (count_ref rec) ?c1)" using b0 other r(2) by (auto simp: same_bytes_def set_rec_def count_ref_def)
    ultimately show ?thesis using r(1) Some by blast
  next
    case None
    show ?thesis
    proof (cases room)
      case False
      moreover have "same_bytes n c ?c1" using b0 other by (simp add: same_bytes_def)
      ultimately show ?thesis using inv1 None by (intro exI conjI disjI1) (auto simp: cache_insert_def get)
    next
      case True
      have mo: "map_of (ca_table c0) (rec_key ?rec) = None" using None by (simp add: get k)
      note ins = insert_ok [OF inv0(1) inv0(2) get(1) mo, unfolded k]
      let ?c2 = "c0\<lparr>ca_table := (key, a) # ca_table c0, ca_list := link_first a (ca_list c0)\<rparr>"
      have g2: "ca_rec ?c2 a = Some ?rec" by (simp add: get)
      have inv2: "cinv {} (a # xs) (n(a := n a + 1)) (set_rec a (count_ref ?rec) ?c2)" by (rule count_run [OF ins(2) _ g2 n]) simp
      then have inv3: "cinv {} (a # xs) (n(a := 1)) (set_rec a (count_ref ?rec) ?c2)" by (simp add: na)
      obtain c' where c': "cache_check_size (set_rec a (count_ref ?rec) ?c2) = Some c'"
        "cinv {} (evict NXWEB_MAX_CACHED_ITEMS (\<lambda>q. 0 < (n(a := 1)) q) (a # xs)) (n(a := 1)) c'"
        "\<forall>r. r \<in> set (evict NXWEB_MAX_CACHED_ITEMS (\<lambda>q. 0 < (n(a := 1)) q) (a # xs)) \<or> 0 < (n(a := 1)) r \<longrightarrow> ca_rec c' r = ca_rec (set_rec a (count_ref ?rec) ?c2) r"
        using check_size_run [OF inv3] by blast
      have "ca_rec c' a = Some (?rec\<lparr>cr_ref_count := 1\<rparr>)" using c'(3) [rule_format, of a] by (simp add: set_rec_def count_ref_def new_rec_def)
      moreover have "cache_insert room a key conn resp c0 = Some (NXWEB_OK, hold_rec a, ?resp, c')"
        unfolding cache_insert_def get(2) None using ins(1) g2 c'(1) True conn by (simp add: Let_def get)
      moreover have "same_bytes n c c'" using c'(3) b0 other by (simp add: same_bytes_def set_rec_def)
      ultimately show ?thesis using c'(2) None by blast
    qed
  qed
qed

section \<open>What the records hold\<close>

text \<open>A record without its count and its time: this part is written once, before the record is shared.\<close>

definition rec_body :: "nxweb_cache_rec \<Rightarrow> nxweb_cache_rec" where
  "rec_body rec = rec\<lparr>cr_ref_count := 0, cr_expires_time := 0\<rparr>"

lemma rec_body_simps [simp]:
  "rec_body (count_ref rec) = rec_body rec" "rec_body (revalidate t m rec) = rec_body rec" "rec_body (rec\<lparr>cr_ref_count := k\<rparr>) = rec_body rec"
  "cr_content_length (rec_body rec) = cr_content_length rec" "cr_content_type (rec_body rec) = cr_content_type rec"
  "cr_content_charset (rec_body rec) = cr_content_charset rec" "cr_last_modified (rec_body rec) = cr_last_modified rec"
  "cr_gzip_encoded (rec_body rec) = cr_gzip_encoded rec" "cr_content (rec_body rec) = cr_content rec"
  by (simp_all add: rec_body_def count_ref_def revalidate_def)

text \<open>No operation writes into the body of a record.\<close>

definition old_bytes :: "nxweb_cache \<Rightarrow> nxweb_cache \<Rightarrow> bool" where
  "old_bytes c c' \<longleftrightarrow> (\<forall>q rec'. ca_rec c' q = Some rec' \<longrightarrow> (\<exists>rec. ca_rec c q = Some rec \<and> rec_body rec' = rec_body rec))"

lemma old_bytes_refl: "old_bytes c c"
  by (simp add: old_bytes_def)

lemma old_bytes_trans [trans]: "old_bytes c c' \<Longrightarrow> old_bytes c' c'' \<Longrightarrow> old_bytes c c''"
  unfolding old_bytes_def by metis

lemma old_bytes_links:
  "cache_rec_unlink r c = Some c' \<Longrightarrow> old_bytes c c'" "cache_rec_link r c = Some c' \<Longrightarrow> old_bytes c c'" "free_rec r c = Some c' \<Longrightarrow> old_bytes c c'"
  by (auto simp: cache_rec_unlink_def cache_rec_link_def free_rec_def old_bytes_def split: if_splits)

lemma old_bytes_same: "ca_rec c' = ca_rec c \<Longrightarrow> old_bytes c c'"
  by (simp add: old_bytes_def)

lemma old_bytes_set: "ca_rec c r = Some rec \<Longrightarrow> rec_body rec' = rec_body rec \<Longrightarrow> old_bytes c (set_rec r rec' c)"
  by (simp add: old_bytes_def set_rec_def)

lemma old_bytes_del: "old_bytes (table_del k c) c' \<longleftrightarrow> old_bytes c c'"
  by (simp add: old_bytes_def table_del_list)

lemma old_bytes_check: "cache_check_size c = Some c' \<Longrightarrow> old_bytes c c'"
proof (induction rule: cache_check_size.raw_induct [rotated, consumes 1, case_names step])
  case (step f c c')
  show ?case
  proof (cases "NXWEB_MAX_CACHED_ITEMS < length (ca_table c)")
    case False
    then show ?thesis using step(2) by (simp add: old_bytes_refl)
  next
    case True
    with step(2) obtain p where p: "find_unused c (l_last (ca_list c)) = Some p"
      by (auto simp: bind_eq_Some_conv)
    have del: "old_bytes c c'" if "cache_rec_unlink r c = Some c1" "free_rec r (table_del k c1) = Some c2" "f c2 = Some c'" for r k c1 c2
      using old_bytes_links(1) [OF that(1)] old_bytes_links(3) [OF that(2)] step(1) [OF that(3)] old_bytes_trans by (metis old_bytes_del)
    show ?thesis using step True p del
      by (auto simp: bind_eq_Some_conv old_bytes_refl split: option.splits if_splits)
  qed
qed

lemma old_bytes_unref:
  assumes "cache_rec_unref t r c = Some c'"
  shows "old_bytes c c'"
proof -
  obtain rec where rec: "ca_rec c r = Some rec" using assms by (auto simp: cache_rec_unref_def bind_eq_Some_conv)
  let ?rec = "rec\<lparr>cr_ref_count := cr_ref_count rec - 1\<rparr>" let ?c = "set_rec r ?rec c"
  obtain c2 where c2: "cache_check_size c2 = Some c'" "(if cr_ref_count ?rec = 0 \<and> (cr_expires_time ?rec < t \<or> \<not> IS_LINKED r ?c)
      then do { c \<leftarrow> (if map_of (ca_table ?c) (rec_key ?rec) = Some r then cache_rec_unlink r (table_del (rec_key ?rec) ?c) else Some ?c); free_rec r c }
      else Some ?c) = Some c2"
    using assms rec by (auto simp: cache_rec_unref_def Let_def bind_eq_Some_conv split: if_splits)
  have unl: "old_bytes ?c c1" if "cache_rec_unlink r (table_del k ?c) = Some c1" for k c1
    using old_bytes_links(1) [OF that] by (simp add: old_bytes_del)
  have "old_bytes ?c c2"
  proof (cases "c2 = ?c")
    case False
    then obtain c1 where "c1 = ?c \<or> cache_rec_unlink r (table_del (rec_key ?rec) ?c) = Some c1" "free_rec r c1 = Some c2"
      using c2(2) by (auto simp: bind_eq_Some_conv split: if_splits)
    then show ?thesis using unl old_bytes_links(3) old_bytes_trans by blast
  qed (simp add: old_bytes_refl)
  moreover have "old_bytes c ?c" by (rule old_bytes_set [OF rec]) simp
  ultimately show ?thesis using old_bytes_check [OF c2(1)] old_bytes_trans by blast
qed

lemma old_bytes_finalize: "request_finalize t conn c = Some (conn', c') \<Longrightarrow> old_bytes c c'"
  by (auto simp: request_finalize_def bind_eq_Some_conv old_bytes_refl split: if_splits intro: old_bytes_unref)

text \<open>\<open>points r rec resp\<close>: the response has its content in record \<open>r\<close>, with the length and the description that are kept there.\<close>

definition points :: "nat \<Rightarrow> nxweb_cache_rec \<Rightarrow> string nxweb_http_response \<Rightarrow> bool" where
  "points r rec resp \<longleftrightarrow> rs_content resp = Some (Ptr (r + OFFSETOF_CONTENT)) \<and> rs_content_length resp = cr_content_length rec
     \<and> rs_content_type resp = cr_content_type rec \<and> rs_content_charset resp = cr_content_charset rec
     \<and> rs_last_modified resp = cr_last_modified rec \<and> rs_gzip_encoded resp = cr_gzip_encoded rec"

lemma points_body: "rec_body rec' = rec_body rec \<Longrightarrow> points r rec' resp = points r rec resp"
  unfolding points_def by (metis rec_body_simps(4-8))

lemma points_serve: "points r rec (serve_rec r rec resp)" "points r (count_ref rec) (serve_rec r rec resp)"
    "points a (new_rec t key resp content) (resp\<lparr>rs_content := Some (Ptr (a + OFFSETOF_CONTENT))\<rparr>)"
  by (simp_all add: points_def serve_rec_def new_rec_def count_ref_def)

text \<open>What an operation leaves to the connection: as it was, or a record that the response points into.\<close>

definition answered :: "cache_conn \<Rightarrow> cache_conn \<Rightarrow> string nxweb_http_response \<Rightarrow> nxweb_cache \<Rightarrow> bool" where
  "answered conn conn' resp c \<longleftrightarrow> conn' = conn \<or> (\<exists>r. conn' = hold_rec r \<and> (\<forall>rec. ca_rec c r = Some rec \<longrightarrow> points r rec resp))"

lemma hit_answer:
  assumes "cache_hit r rec ims conn resp c = Some (res, conn', resp', c')" "ca_rec c r = Some rec"
  shows "old_bytes c c'" "answered conn conn' resp' c'"
proof -
  obtain c1 where c1: "(if l_first (ca_list c) \<noteq> Some r then Option.bind (cache_rec_unlink r c) (cache_rec_link r) else Some c) = Some c1"
    using assms(1) unfolding cache_hit_def bind_eq_Some_conv by blast
  have rec: "ca_rec c1 = ca_rec c"
    using c1 by (auto simp: bind_eq_Some_conv cache_rec_unlink_def cache_rec_link_def split: if_splits)
  have "old_bytes c c1" by (rule old_bytes_same [OF rec])
  moreover have "old_bytes c1 (set_rec r (count_ref rec) c1)" by (rule old_bytes_set) (simp_all add: rec assms(2))
  ultimately show "old_bytes c c'" using assms(1) old_bytes_trans unfolding hit_moved [OF c1] by (auto split: if_splits)
  show "answered conn conn' resp' c'"
    using assms(1) points_serve(2) unfolding hit_moved [OF c1] answered_def by (auto simp: set_rec_def split: if_splits)
qed

lemma try_answer:
  assumes "nxweb_cache_try t key ims m conn resp c = Some (res, conn', resp', c')"
  shows "old_bytes c c'" "answered conn conn' resp' c'"
proof -
  have "old_bytes c c' \<and> answered conn conn' resp' c'"
  proof (cases "unsupported_key key \<or> map_of (ca_table c) key = None")
    case True
    then have "nxweb_cache_try t key ims m conn resp c = Some (NXWEB_MISS, conn, resp, c)" by (auto simp: nxweb_cache_try_def split: option.split)
    then show ?thesis using assms by (simp add: answered_def old_bytes_refl)
  next
    case False
    then obtain r where r: "map_of (ca_table c) key = Some r" by blast
    then obtain rec where rec: "ca_rec c r = Some rec" using assms False by (auto simp: nxweb_cache_try_def bind_eq_Some_conv)
    define rec' where "rec' = revalidate t m rec"
    have set: "old_bytes c (set_rec r rec' c)" by (rule old_bytes_set [OF rec]) (simp add: rec'_def)
    have get: "ca_rec (set_rec r rec' c) r = Some rec'" by (simp add: set_rec_def)
    have run: "nxweb_cache_try t key ims m conn resp c = (if t \<le> cr_expires_time rec' then cache_hit r rec' ims conn resp (set_rec r rec' c)
        else if m = 0 then Some (NXWEB_REVALIDATE, conn, resp, set_rec r rec' c)
        else map_option (\<lambda>c. (NXWEB_MISS, conn, resp, c)) (cache_drop r rec' key (set_rec r rec' c)))"
      using try_found [OF _ r rec] False by (simp add: rec'_def Let_def)
    consider "cache_hit r rec' ims conn resp (set_rec r rec' c) = Some (res, conn', resp', c')"
      | "conn' = conn" "c' = set_rec r rec' c" | "conn' = conn" "cache_drop r rec' key (set_rec r rec' c) = Some c'"
      using assms unfolding run by (auto split: if_splits)
    then show ?thesis
    proof cases
      case 1
      then show ?thesis using hit_answer [OF _ get] old_bytes_trans [OF set] by blast
    next
      case 2
      then show ?thesis using set by (simp add: answered_def)
    next
      case 3
      obtain c1 where c1: "cache_rec_unlink r (table_del key (set_rec r rec' c)) = Some c1" "c' = c1 \<or> free_rec r c1 = Some c'"
        using 3(2) by (auto simp: cache_drop_def bind_eq_Some_conv split: if_splits)
      have "old_bytes (set_rec r rec' c) c1" using old_bytes_links(1) [OF c1(1)] by (simp add: old_bytes_del)
      then have "old_bytes (set_rec r rec' c) c'" using c1(2) old_bytes_links(3) old_bytes_trans by blast
      then show ?thesis using 3(1) old_bytes_trans [OF set] by (simp add: answered_def)
    qed
  qed
  then show "old_bytes c c'" "answered conn conn' resp' c'" by simp_all
qed

lemma insert_answer:
  assumes "cache_insert room a key conn resp c = Some (res, conn', resp', c')" "ca_rec c a = Some (new_rec t key resp content)"
  shows "old_bytes c c'" "answered conn conn' resp' c'"
proof -
  let ?resp = "resp\<lparr>rs_content := Some (Ptr (a + OFFSETOF_CONTENT))\<rparr>"
  have "old_bytes c c' \<and> answered conn conn' resp' c'"
  proof (cases "map_of (ca_table c) key")
    case (Some r')
    obtain c1 rec where c1: "free_rec a c = Some c1" "ca_rec c1 r' = Some rec" "conn' = hold_rec r'" "resp' = serve_rec r' rec ?resp" "c' = set_rec r' (count_ref rec) c1"
      using assms(1) by (auto simp: cache_insert_def Some bind_eq_Some_conv Let_def split: if_splits)
    have "old_bytes c1 c'" unfolding c1(5) by (rule old_bytes_set [OF c1(2)]) simp
    with old_bytes_links(3) [OF c1(1)] have "old_bytes c c'" by (rule old_bytes_trans)
    moreover have "answered conn conn' resp' c'" unfolding answered_def c1(3-5) using points_serve(2) by (auto simp: set_rec_def)
    ultimately show ?thesis ..
  next
    case None
    show ?thesis
    proof (cases room)
      case True
      let ?c0 = "c\<lparr>ca_table := (key, a) # ca_table c\<rparr>"
      obtain c1 rec where c1: "cache_rec_link a ?c0 = Some c1" "ca_rec c1 a = Some rec" "cache_check_size (set_rec a (count_ref rec) c1) = Some c'"
        "conn' = hold_rec a" "resp' = ?resp"
        using assms(1) True by (auto simp: cache_insert_def None bind_eq_Some_conv Let_def split: if_splits)
      have "old_bytes ?c0 c1" by (rule old_bytes_links(2) [OF c1(1)])
      then have "old_bytes c c1" by (simp add: old_bytes_def)
      moreover have "old_bytes c1 c'" using old_bytes_trans [OF old_bytes_set [OF c1(2)] old_bytes_check [OF c1(3)]] by simp
      ultimately have old: "old_bytes c c'" by (rule old_bytes_trans)
      have "points a rec' ?resp" if "ca_rec c' a = Some rec'" for rec'
        using old that assms(2) points_body points_serve(3) unfolding old_bytes_def by (metis option.inject)
      with old show ?thesis unfolding answered_def c1(4,5) by blast
    next
      case False
      then have "conn' = conn" "free_rec a c = Some c'" using assms(1) by (auto simp: cache_insert_def None)
      then show ?thesis using old_bytes_links(3) by (auto simp: answered_def)
    qed
  qed
  then show "old_bytes c c'" "answered conn conn' resp' c'" by simp_all
qed

section \<open>Connections of several threads\<close>

text \<open>
  Connections look up, store and finish in any order; between the two parts of storing, other connections run.  The state has
  the cache, and for each connection what it holds and its response.  While a connection holds no record its handler
  may put anything into the response; what the operations make of it is kept until the request is finished.  A response that is stored was found
  to be cacheable; a file that is read has the length asked for, an address given by the allocator is not in use, and there are
  fewer than \<open>2 ^ 32\<close> connections.  \<open>t\<close> is the time of the loop that runs the step.
\<close>

type_synonym cache_state = "nxweb_cache \<times> (nat \<Rightarrow> cache_conn) \<times> (nat \<Rightarrow> string nxweb_http_response)"

definition busy :: "(nat \<Rightarrow> cache_conn) \<Rightarrow> nat set" where
  "busy cs = {i. cc_req_finalize (cs i)}"

definition holders :: "(nat \<Rightarrow> cache_conn) \<Rightarrow> nat \<Rightarrow> nat" where
  "holders cs r = card {i. cs i = hold_rec r}"

definition whole_files :: "(string \<Rightarrow> int \<Rightarrow> string option) \<Rightarrow> bool" where
  "whole_files read_file \<longleftrightarrow> (\<forall>p n s. read_file p n = Some s \<longrightarrow> length s = nat n)"

inductive cache_step :: "nat \<Rightarrow> cache_state \<Rightarrow> cache_state \<Rightarrow> bool" for t where
  handle: "\<not> cc_req_finalize (cs i) \<Longrightarrow> cache_step t (c, cs, rs) (c, cs, rs(i := resp))"
| lookup: "\<not> cc_req_finalize (cs i) \<Longrightarrow> card (busy cs) + 1 < 2 ^ 32
    \<Longrightarrow> nxweb_cache_try t key ims m (cs i) (rs i) c = Some (res, conn', resp', c')
    \<Longrightarrow> cache_step t (c, cs, rs) (c', cs(i := conn'), rs(i := resp'))"
| fill: "\<not> cc_req_finalize (cs i) \<Longrightarrow> card (busy cs) + 1 < 2 ^ 32 \<Longrightarrow> NUL \<notin> set key \<Longrightarrow> ca_rec c a = None \<Longrightarrow> whole_files read_file
    \<Longrightarrow> cacheable (rs i) c0
    \<Longrightarrow> cache_fill read_file ver t (Some a) room key (cs i) (rs i) nb c = Some ((res, conn', resp', c'), nb')
    \<Longrightarrow> cache_step t (c, cs, rs) (c', cs(i := conn'), rs(i := resp'))"
| finish: "request_finalize t (cs i) c = Some (conn', c') \<Longrightarrow> cache_step t (c, cs, rs) (c', cs(i := conn'), rs)"

abbreviation idle_conn :: cache_conn where
  "idle_conn \<equiv> \<lparr>cc_req_data = None, cc_req_finalize = False\<rparr>"

abbreviation cache_start :: cache_state where
  "cache_start \<equiv> (cache_init, \<lambda>_. idle_conn, \<lambda>_. response_zero)"

abbreviation cache_reach :: "cache_state \<Rightarrow> bool" where
  "cache_reach \<equiv> (\<lambda>s s'. \<exists>t. cache_step t s s')\<^sup>*\<^sup>* cache_start"

definition bounded_by :: "(nat \<Rightarrow> nat) \<Rightarrow> nat list \<Rightarrow> bool" where
  "bounded_by n xs \<longleftrightarrow> length xs \<le> NXWEB_MAX_CACHED_ITEMS \<or> (\<forall>r \<in> set xs. 0 < n r)"

definition cache_ok :: "nxweb_cache \<times> (nat \<Rightarrow> cache_conn) \<Rightarrow> bool" where
  "cache_ok s \<longleftrightarrow> finite (busy (snd s)) \<and> (\<forall>i \<in> busy (snd s). \<exists>r. snd s i = hold_rec r)
     \<and> (\<exists>xs. cinv {} xs (holders (snd s)) (fst s) \<and> bounded_by (holders (snd s)) xs)"

lemma hold_simps [simp]: "cc_req_finalize (hold_rec r)" "cc_req_data (hold_rec r) = Some r" "hold_rec r = hold_rec q \<longleftrightarrow> r = q"
    "\<not> cc_req_finalize conn \<Longrightarrow> conn \<noteq> hold_rec r"
  by (auto simp: hold_rec_def)

lemma holders_le: "finite (busy cs) \<Longrightarrow> holders cs r \<le> card (busy cs)"
  unfolding holders_def by (rule card_mono) (auto simp: busy_def)

lemma holders_pos: "finite (busy cs) \<Longrightarrow> 0 < holders cs r \<longleftrightarrow> (\<exists>i. cs i = hold_rec r)"
proof -
  assume "finite (busy cs)"
  then have "finite {i. cs i = hold_rec r}" by (rule rev_finite_subset) (auto simp: busy_def)
  then show ?thesis by (auto simp: holders_def card_gt_0_iff)
qed

lemma holders_same: "\<not> cc_req_finalize (cs i) \<Longrightarrow> \<not> cc_req_finalize conn \<Longrightarrow> holders (cs(i := conn)) = holders cs" "\<not> cc_req_finalize (cs i) \<Longrightarrow> \<not> cc_req_finalize conn \<Longrightarrow> busy (cs(i := conn)) = busy cs"
proof -
  assume a: "\<not> cc_req_finalize (cs i)" "\<not> cc_req_finalize conn"
  have "{j. (cs(i := conn)) j = hold_rec r} = {j. cs j = hold_rec r}" for r using a by auto
  then show "holders (cs(i := conn)) = holders cs" by (simp add: holders_def fun_eq_iff)
  show "busy (cs(i := conn)) = busy cs" using a by (auto simp: busy_def)
qed

lemma holders_hold:
  assumes "finite (busy cs)" "\<not> cc_req_finalize (cs i)"
  shows "holders (cs(i := hold_rec r)) = (holders cs)(r := holders cs r + 1)"
proof
  fix q
  have fin: "finite {j. cs j = hold_rec q}" by (rule finite_subset [OF _ assms(1)]) (auto simp: busy_def)
  have "{j. (cs(i := hold_rec r)) j = hold_rec q} = (if q = r then insert i {j. cs j = hold_rec q} else {j. cs j = hold_rec q})"
    using assms(2) by auto
  moreover have "i \<notin> {j. cs j = hold_rec q}" using assms(2) by auto
  ultimately show "holders (cs(i := hold_rec r)) q = ((holders cs)(r := holders cs r + 1)) q" using fin by (cases "q = r") (simp_all add: holders_def)
qed

lemma holders_release:
  assumes "finite (busy cs)" "cs i = hold_rec r"
  shows "holders (cs(i := idle_conn)) = (holders cs)(r := holders cs r - 1)"
proof
  fix q
  have fin: "finite {j. cs j = hold_rec q}" by (rule finite_subset [OF _ assms(1)]) (auto simp: busy_def)
  have "{j. (cs(i := idle_conn)) j = hold_rec q} = (if q = r then {j. cs j = hold_rec q} - {i} else {j. cs j = hold_rec q})"
    using assms(2) by (auto simp: hold_rec_def)
  then show "holders (cs(i := idle_conn)) q = ((holders cs)(r := holders cs r - 1)) q" using assms(2) fin by (simp add: holders_def)
qed

lemma bounded_subset: "bounded_by n xs \<Longrightarrow> set ys \<subseteq> set xs \<Longrightarrow> length ys \<le> length xs \<Longrightarrow> bounded_by n ys"
  unfolding bounded_by_def by auto

lemma bounded_more: "bounded_by n xs \<Longrightarrow> bounded_by (n(r := n r + 1)) xs"
  unfolding bounded_by_def by auto

lemma bounded_evict: "bounded_by n (evict NXWEB_MAX_CACHED_ITEMS (\<lambda>q. 0 < n q) xs)"
  unfolding bounded_by_def by (rule evict_length)

lemma cache_okI:
  assumes "finite (busy cs)" "\<forall>i \<in> busy cs. \<exists>r. cs i = hold_rec r" "cinv {} xs (holders cs) c" "bounded_by (holders cs) xs"
  shows "cache_ok (c, cs)"
  unfolding cache_ok_def using assms by auto

text \<open>A connection that had no record gets one, or stays as it is.\<close>

lemma cache_ok_hold:
  assumes ok: "finite (busy cs)" "\<forall>i \<in> busy cs. \<exists>r. cs i = hold_rec r" "\<not> cc_req_finalize (cs i)"
    and inv: "cinv {} xs ((holders cs)(r := holders cs r + 1)) c" "bounded_by ((holders cs)(r := holders cs r + 1)) xs"
  shows "cache_ok (c, cs(i := hold_rec r))"
proof (rule cache_okI)
  have b: "busy (cs(i := hold_rec r)) = insert i (busy cs)" by (auto simp: busy_def)
  show "finite (busy (cs(i := hold_rec r)))" "\<forall>j \<in> busy (cs(i := hold_rec r)). \<exists>q. (cs(i := hold_rec r)) j = hold_rec q"
    using ok unfolding b by auto
  show "cinv {} xs (holders (cs(i := hold_rec r))) c" "bounded_by (holders (cs(i := hold_rec r))) xs"
    using inv unfolding holders_hold [OF ok(1,3)] by simp_all
qed

lemma holders_room: "finite (busy cs) \<Longrightarrow> card (busy cs) + 1 < 2 ^ 32 \<Longrightarrow> holders cs r + 1 < 2 ^ 32"
  using holders_le [of cs r] by linarith

lemma lookup_ok:
  assumes ok: "cache_ok (c, cs)" and i: "\<not> cc_req_finalize (cs i)" and room: "card (busy cs) + 1 < 2 ^ 32"
  shows "\<exists>res conn' resp' c'. nxweb_cache_try t key ims m (cs i) resp c = Some (res, conn', resp', c') \<and> cache_ok (c', cs(i := conn')) \<and> same_bytes (holders cs) c c'
    \<and> (res = NXWEB_MISS \<longrightarrow> conn' = cs i \<and> resp' = resp)"
proof -
  obtain xs where inv: "finite (busy cs)" "\<forall>j \<in> busy cs. \<exists>r. cs j = hold_rec r" "cinv {} xs (holders cs) c" "bounded_by (holders cs) xs"
    using ok unfolding cache_ok_def by auto
  obtain res conn' resp' c' where t: "nxweb_cache_try t key ims m (cs i) resp c = Some (res, conn', resp', c')" "same_bytes (holders cs) c c'"
    "conn' = cs i \<and> (\<exists>xs'. cinv {} xs' (holders cs) c' \<and> set xs' \<subseteq> set xs \<and> length xs' \<le> length xs)
        \<and> (res = NXWEB_MISS \<longrightarrow> resp' = resp \<and> (unsupported_key key \<or> map_of (ca_table c') key = None))
      \<or> (\<exists>r. conn' = hold_rec r \<and> res = NXWEB_OK \<and> r \<in> set xs \<and> cinv {} (r # remove1 r xs) ((holders cs)(r := holders cs r + 1)) c')"
    using try_run [OF inv(3) holders_room [OF inv(1) room], of t key ims m "cs i" resp] by blast
  have "cache_ok (c', cs(i := conn')) \<and> (res = NXWEB_MISS \<longrightarrow> conn' = cs i \<and> resp' = resp)" using t(3)
  proof (elim disjE)
    assume a: "conn' = cs i \<and> (\<exists>xs'. cinv {} xs' (holders cs) c' \<and> set xs' \<subseteq> set xs \<and> length xs' \<le> length xs)
        \<and> (res = NXWEB_MISS \<longrightarrow> resp' = resp \<and> (unsupported_key key \<or> map_of (ca_table c') key = None))"
    then have "cs(i := conn') = cs" by auto
    then show ?thesis using a inv(1,2) bounded_subset [OF inv(4)] by (auto intro: cache_okI)
  next
    assume "\<exists>r. conn' = hold_rec r \<and> res = NXWEB_OK \<and> r \<in> set xs \<and> cinv {} (r # remove1 r xs) ((holders cs)(r := holders cs r + 1)) c'"
    then obtain r where r: "conn' = hold_rec r" "res = NXWEB_OK" "r \<in> set xs" "cinv {} (r # remove1 r xs) ((holders cs)(r := holders cs r + 1)) c'" by blast
    have "bounded_by (holders cs) (r # remove1 r xs)"
      using bounded_subset [OF inv(4)] r(3) set_remove1_subset [of r xs] length_pos_if_in_set [OF r(3)] by (simp add: length_remove1)
    then have "cache_ok (c', cs(i := hold_rec r))" by (intro cache_ok_hold [OF inv(1,2) i r(4)] bounded_more)
    then show ?thesis using r(1,2) by simp
  qed
  with t(1,2) show ?thesis by blast
qed

lemma fill_ok:
  assumes ok: "cache_ok (c, cs)" and i: "\<not> cc_req_finalize (cs i)" and room: "card (busy cs) + 1 < 2 ^ 32"
    and new: "NUL \<notin> set key" "ca_rec c a = None" "length content = nat (rs_content_length resp)"
  shows "\<exists>conn' resp' c'. cache_insert b a key (cs i) resp (calloc_rec a (new_rec t key resp content) c) = Some (NXWEB_OK, conn', resp', c')
    \<and> cache_ok (c', cs(i := conn')) \<and> same_bytes (holders cs) c c'"
proof -
  obtain xs where inv: "finite (busy cs)" "\<forall>j \<in> busy cs. \<exists>r. cs j = hold_rec r" "cinv {} xs (holders cs) c" "bounded_by (holders cs) xs"
    using ok unfolding cache_ok_def by auto
  have na: "holders cs a = 0" using cinvD(7) [OF inv(3), of a] new(2) by auto
  let ?n = "(holders cs)(a := 1)" and ?m = "\<lambda>r. (holders cs)(r := holders cs r + 1)"
  have nm: "?n = ?m a" by (simp add: na)
  obtain conn' resp' c' where f: "cache_insert b a key (cs i) resp (calloc_rec a (new_rec t key resp content) c) = Some (NXWEB_OK, conn', resp', c')"
    "same_bytes (holders cs) c c'" "conn' = cs i \<and> cinv {} xs (holders cs) c' \<or> (\<exists>r \<in> set xs. conn' = hold_rec r \<and> cinv {} xs (?m r) c')
      \<or> conn' = hold_rec a \<and> cinv {} (evict NXWEB_MAX_CACHED_ITEMS (\<lambda>q. 0 < ?n q) (a # xs)) ?n c'"
    using fill_run [OF inv(3) holders_room [OF inv(1) room] new i, of b t] by blast
  have "cache_ok (c', cs(i := conn'))" using f(3)
  proof (elim disjE bexE conjE)
    assume "conn' = cs i" "cinv {} xs (holders cs) c'"
    then show ?thesis using inv(1,2,4) by (auto intro: cache_okI)
  next
    fix r assume "conn' = hold_rec r" "cinv {} xs (?m r) c'"
    then show ?thesis using cache_ok_hold [OF inv(1,2) i] bounded_more [OF inv(4)] by simp
  next
    assume a: "conn' = hold_rec a" "cinv {} (evict NXWEB_MAX_CACHED_ITEMS (\<lambda>q. 0 < ?n q) (a # xs)) ?n c'"
    show ?thesis unfolding a(1) by (rule cache_ok_hold [OF inv(1,2) i a(2) [unfolded nm] bounded_evict])
  qed
  with f(1,2) show ?thesis by blast
qed

lemma finish_ok:
  assumes ok: "cache_ok (c, cs)"
  shows "\<exists>conn' c'. request_finalize t (cs i) c = Some (conn', c') \<and> cache_ok (c', cs(i := conn')) \<and> same_bytes (holders (cs(i := conn'))) c c'"
proof -
  obtain xs where inv: "finite (busy cs)" "\<forall>j \<in> busy cs. \<exists>r. cs j = hold_rec r" "cinv {} xs (holders cs) c" "bounded_by (holders cs) xs"
    using ok unfolding cache_ok_def by auto
  show ?thesis
  proof (cases "cc_req_finalize (cs i)")
    case False
    then show ?thesis using ok by (auto simp: request_finalize_def same_bytes_def)
  next
    case True
    then obtain r where r: "cs i = hold_rec r" using inv(2) unfolding busy_def by blast
    have pos: "0 < holders cs r" using holders_pos [OF inv(1)] r by blast
    let ?cs = "cs(i := idle_conn)"
    have n: "holders ?cs = (holders cs)(r := holders cs r - 1)" by (rule holders_release [OF inv(1) r])
    have b: "finite (busy ?cs)" "\<forall>j \<in> busy ?cs. \<exists>q. ?cs j = hold_rec q" using inv(1,2) by (auto simp: busy_def elim: rev_finite_subset)
    obtain c' xs' where u: "cache_rec_unref t r c = Some c'" "cinv {} (evict NXWEB_MAX_CACHED_ITEMS (\<lambda>q. 0 < holders ?cs q) xs') (holders ?cs) c'"
      "same_bytes (holders ?cs) c c'" using unref_run [OF inv(3) pos, of t] unfolding n by blast
    have "cache_ok (c', ?cs)" by (rule cache_okI [OF b u(2) bounded_evict])
    then show ?thesis using u(1,3) r by (auto simp: request_finalize_def)
  qed
qed

lemma fill_cases:
  assumes "cache_fill read_file ver t (Some a) room key conn resp nb c = Some ((res, conn', resp', c'), nb')" "whole_files read_file"
  obtains "c' = c" "conn' = conn"
  | content where "length content = nat (rs_content_length resp)" "read_file (the (rs_sendfile_path resp)) (rs_content_length resp) = Some content"
    "cache_insert room a key conn resp (calloc_rec a (new_rec t key resp content) c) = Some (res, conn', resp', c')"
proof (cases "read_file (the (rs_sendfile_path resp)) (rs_content_length resp)")
  case None
  then show ?thesis using that(1) assms(1) by (auto simp: cache_fill_def bind_eq_Some_conv)
next
  case (Some content)
  then show ?thesis using that(2) assms unfolding whole_files_def by (auto simp: cache_fill_def)
qed

lemma cache_step_ok: "cache_step t s s' \<Longrightarrow> cache_ok (fst s, fst (snd s)) \<Longrightarrow> cache_ok (fst s', fst (snd s'))"
proof (induction rule: cache_step.induct)
  case (lookup cs i key ims m rs c res conn' resp' c')
  then have "cache_ok (c, cs)" by simp
  from lookup_ok [OF this lookup.hyps(1,2), of t key ims m "rs i"] lookup.hyps(3) have "cache_ok (c', cs(i := conn'))" by auto
  then show ?case by (simp add: fun_upd_def)
next
  case (fill cs i key c a read_file rs c0 ver room nb res conn' resp' c' nb')
  note ok = fill.prems [simplified]
  have "cache_ok (c', cs(i := conn'))"
    by (rule fill_cases [OF fill.hyps(7,5)]) (use fill_ok [OF ok fill.hyps(1-4), of _ "rs i" room t] ok in force)+
  then show ?case by (simp add: fun_upd_def)
next
  case (finish cs i c conn' c' rs)
  then have "cache_ok (c', cs(i := conn'))" using finish_ok [of c cs t i] by auto
  then show ?case by (simp add: fun_upd_def)
qed simp

lemma cache_init_ok: "cache_ok (cache_init, \<lambda>_. idle_conn)"
proof -
  have "holders (\<lambda>_. idle_conn) = (\<lambda>_. 0)" by (simp add: holders_def hold_rec_def fun_eq_iff)
  then have "cinv {} [] (holders (\<lambda>_. idle_conn)) cache_init" by (simp add: cinv_def linked_recs_def cache_init_def dlist_def)
  then show ?thesis by (intro cache_okI) (auto simp: busy_def bounded_by_def)
qed

text \<open>A record has room for its content; a connection that holds a record has a response that points into it.\<close>

definition whole_rec :: "nxweb_cache_rec \<Rightarrow> bool" where
  "whole_rec rec \<longleftrightarrow> 0 \<le> cr_content_length rec \<and> nat (cr_content_length rec) + 1 + length (rec_key rec) < length (cr_content rec)"

definition serving :: "cache_state \<Rightarrow> bool" where
  "serving s \<longleftrightarrow> (case s of (c, cs, rs) \<Rightarrow> cache_ok (c, cs) \<and> (\<forall>r rec. ca_rec c r = Some rec \<longrightarrow> whole_rec rec)
     \<and> (\<forall>i r rec. cs i = hold_rec r \<longrightarrow> ca_rec c r = Some rec \<longrightarrow> points r rec (rs i)))"

lemma whole_body: "rec_body rec' = rec_body rec \<Longrightarrow> whole_rec rec' = whole_rec rec"
  unfolding whole_rec_def rec_key_def by (metis rec_body_simps(4,9))

lemma whole_new: "0 \<le> rs_content_length resp \<Longrightarrow> length content = nat (rs_content_length resp) \<Longrightarrow> NUL \<notin> set key \<Longrightarrow> whole_rec (new_rec t key resp content)"
  using rec_key_new [of key content resp t] by (simp add: whole_rec_def new_rec_def)

lemma held_alive: "cache_ok (c, cs) \<Longrightarrow> cs i = hold_rec r \<Longrightarrow> \<exists>rec. ca_rec c r = Some rec"
  unfolding cache_ok_def using cinvD(7) holders_pos by fastforce

text \<open>A step that writes nothing into old records, but may add one at \<open>a\<close>.\<close>

lemma serving_step:
  assumes s: "serving (c, cs, rs)" and ok: "cache_ok (c', cs')" and old: "old_bytes c0 c'" "\<And>r. r \<noteq> a \<Longrightarrow> ca_rec c0 r = ca_rec c r"
    and new: "ca_rec c0 a = ca_rec c a \<or> ca_rec c a = None \<and> (\<exists>rec. ca_rec c0 a = Some rec \<and> whole_rec rec)"
    and others: "\<And>j r. j \<noteq> i \<Longrightarrow> cs' j = hold_rec r \<Longrightarrow> cs j = hold_rec r \<and> rs' j = rs j"
    and mine: "\<And>r rec. cs' i = hold_rec r \<Longrightarrow> ca_rec c' r = Some rec \<Longrightarrow> points r rec (rs' i)"
  shows "serving (c', cs', rs')"
proof -
  have whole: "whole_rec rec" if "ca_rec c0 r = Some rec" for r rec
    using s new old(2) [of r] that by (cases "r = a") (auto simp: serving_def)
  have "whole_rec rec'" if "ca_rec c' r = Some rec'" for r rec'
    using old(1) that whole whole_body unfolding old_bytes_def by metis
  moreover have "points r rec' (rs' j)" if j: "cs' j = hold_rec r" "ca_rec c' r = Some rec'" for j r rec'
  proof (cases "j = i")
    case False
    note oth = others [OF False j(1)]
    obtain rec where rec: "ca_rec c r = Some rec" using held_alive [of c cs j r] s oth by (auto simp: serving_def)
    then have "ca_rec c0 r = Some rec" using old(2) [of r] new by (cases "r = a") auto
    then have "rec_body rec' = rec_body rec" using old(1) j(2) unfolding old_bytes_def by (metis option.inject)
    moreover have "points r rec (rs j)" using s oth rec by (auto simp: serving_def)
    ultimately show ?thesis using oth points_body by metis
  qed (use mine j in blast)
  ultimately show ?thesis using ok by (auto simp: serving_def)
qed

lemma cache_step_serving: "cache_step t s s' \<Longrightarrow> serving s \<Longrightarrow> serving s'"
proof (induction rule: cache_step.induct)
  case (handle cs i c rs resp)
  then have "cs i \<noteq> hold_rec r" for r by auto
  with handle.prems show ?case by (auto simp: serving_def)
next
  case (lookup cs i key ims m rs c res conn' resp' c')
  have idle: "hold_rec r \<noteq> cs i" for r using lookup.hyps(1) by (metis hold_simps(1))
  have "cache_step t (c, cs, rs) (c', cs(i := conn'), rs(i := resp'))" using lookup.hyps by (rule cache_step.lookup)
  from cache_step_ok [OF this] lookup.prems have ok: "cache_ok (c', cs(i := conn'))" by (simp add: serving_def fun_upd_def)
  show ?case
    by (rule serving_step [OF lookup.prems ok try_answer(1) [OF lookup.hyps(3)], of 0 i])
      (use try_answer(2) [OF lookup.hyps(3)] idle in \<open>auto simp: answered_def\<close>)
next
  case (fill cs i key c a read_file rs c0 ver room nb res conn' resp' c' nb')
  have idle: "hold_rec r \<noteq> cs i" for r using fill.hyps(1) by (metis hold_simps(1))
  have "cache_step t (c, cs, rs) (c', cs(i := conn'), rs(i := resp'))" using fill.hyps by (rule cache_step.fill)
  from cache_step_ok [OF this] fill.prems have ok: "cache_ok (c', cs(i := conn'))" by (simp add: serving_def fun_upd_def)
  show ?case
  proof (rule fill_cases [OF fill.hyps(7,5)])
    assume "c' = c" "conn' = cs i"
    then show ?thesis using fill.prems fill.hyps(1) by (auto simp: serving_def dest: hold_simps(4))
  next
    fix content
    assume len: "length content = nat (rs_content_length (rs i))"
      and ins: "cache_insert room a key (cs i) (rs i) (calloc_rec a (new_rec t key (rs i) content) c) = Some (res, conn', resp', c')"
    let ?c = "calloc_rec a (new_rec t key (rs i) content) c"
    have c: "ca_rec ?c = (ca_rec c)(a := Some (new_rec t key (rs i) content))" by (simp add: calloc_rec_def set_rec_def)
    then have get: "ca_rec ?c a = Some (new_rec t key (rs i) content)" by simp
    have "0 \<le> rs_content_length (rs i)" using fill.hyps(6) by (simp add: cacheable_def)
    note whole = whole_new [OF this len fill.hyps(3), of t]
    show ?thesis
      by (rule serving_step [OF fill.prems ok insert_answer(1) [OF ins get], of a i])
        (use insert_answer(2) [OF ins get] idle fill.hyps(4) whole in \<open>auto simp: c answered_def\<close>)
  qed
next
  case (finish cs i c conn' c' rs)
  have "cache_step t (c, cs, rs) (c', cs(i := conn'), rs)" using finish.hyps by (rule cache_step.finish)
  from cache_step_ok [OF this] finish.prems have ok: "cache_ok (c', cs(i := conn'))" by (simp add: serving_def fun_upd_def)
  have conn: "conn' \<noteq> hold_rec r" for r using finish.hyps by (auto simp: request_finalize_def bind_eq_Some_conv hold_rec_def split: if_splits)
  show ?case by (rule serving_step [OF finish.prems ok old_bytes_finalize [OF finish.hyps], of 0 i]) (use conn in auto)
qed

lemma cache_reach_serving: "cache_reach s \<Longrightarrow> serving s"
proof (induction rule: rtranclp_induct)
  case base
  then show ?case using cache_init_ok by (simp add: serving_def cache_init_def hold_rec_def)
qed (auto intro: cache_step_serving)

lemma table_bounded:
  assumes fin: "finite (busy cs)" and inv: "cinv {} xs (holders cs) c" "bounded_by (holders cs) xs"
  shows "length (ca_table c) \<le> max NXWEB_MAX_CACHED_ITEMS (card (busy cs))"
proof -
  have "length xs \<le> card (busy cs)" if used: "\<forall>r \<in> set xs. 0 < holders cs r"
  proof -
    have "set xs \<subseteq> (\<lambda>i. the (cc_req_data (cs i))) ` busy cs"
    proof
      fix r assume "r \<in> set xs"
      then obtain i where "cs i = hold_rec r" using used holders_pos [OF fin] by blast
      then show "r \<in> (\<lambda>i. the (cc_req_data (cs i))) ` busy cs" by (auto simp: busy_def intro!: rev_image_eqI [of i])
    qed
    then have "card (set xs) \<le> card (busy cs)" using fin by (rule surj_card_le [rotated])
    then show ?thesis using dlist_distinct [OF cinvD(1) [OF inv(1)]] by (simp add: distinct_card)
  qed
  then show ?thesis using inv(2) cinvD(3) [OF inv(1)] unfolding bounded_by_def by auto
qed

text \<open>What a step leaves of the records that stay in use.\<close>

lemma step_keeps_bytes:
  assumes st: "cache_step t (c, cs, rs) (c', cs', rs')" and ok: "cache_ok (c, cs)" and held: "cs j = hold_rec r" "cs' j = hold_rec r"
  shows "map_option rec_body (ca_rec c' r) = map_option rec_body (ca_rec c r)"
proof -
  have ok': "cache_ok (c', cs')" using cache_step_ok [OF st] ok by simp
  obtain rec rec' where recs: "ca_rec c r = Some rec" "ca_rec c' r = Some rec'" using held_alive [OF ok held(1)] held_alive [OF ok' held(2)] by blast
  have "\<exists>c0. old_bytes c0 c' \<and> ca_rec c0 r = ca_rec c r" using st
  proof cases
    case (lookup i key ims m res conn' resp')
    then show ?thesis using try_answer(1) by blast
  next
    case (fill i key a read_file c0 ver room nb res conn' resp' nb')
    have ra: "r \<noteq> a" using recs(1) fill by auto
    show ?thesis
    proof (rule fill_cases [OF fill(9,7)])
      fix content
      assume ins: "cache_insert room a key (cs i) (rs i) (calloc_rec a (new_rec t key (rs i) content) c) = Some (res, conn', resp', c')"
      have "ca_rec (calloc_rec a (new_rec t key (rs i) content) c) a = Some (new_rec t key (rs i) content)"
        "ca_rec (calloc_rec a (new_rec t key (rs i) content) c) r = ca_rec c r" using ra by (simp_all add: calloc_rec_def set_rec_def)
      then show ?thesis using insert_answer(1) [OF ins] by blast
    qed (auto intro: old_bytes_refl)
  next
    case (finish i conn')
    then show ?thesis using old_bytes_finalize by blast
  qed (auto intro: old_bytes_refl)
  then show ?thesis using recs unfolding old_bytes_def by fastforce
qed

text \<open>
  C9: However connections of all threads interleave, a connection that holds a record has a response whose content, length, type and
  validators are those of that record; the record is allocated, has all the bytes of the content, and counts exactly the
  connections that hold it.  No step of any connection, lookups, stores and releases included, changes the content of a record that stays
  held.  A record is either in the table under its own key or held, so that none leaks; the table has at most 500 records, or as many
  as there are requests in progress if that is more.  Looking up and finishing a request always return: no record is freed twice or while in use.
  (A response that found no room in the hash table holds no record, and its content pointer is not covered.)
\<close>

theorem cache_memory_safe:
  assumes reach: "cache_reach (c, cs, rs)"
  shows "(\<forall>i. cc_req_finalize (cs i) \<longrightarrow> (\<exists>r rec. cs i = hold_rec r \<and> ca_rec c r = Some rec \<and> cr_ref_count rec = card {j. cs j = hold_rec r}
        \<and> points r rec (rs i) \<and> 0 \<le> rs_content_length (rs i) \<and> nat (rs_content_length (rs i)) < length (cr_content rec)))
    \<and> (\<forall>t c' cs' rs'. cache_step t (c, cs, rs) (c', cs', rs') \<longrightarrow> (\<forall>j r. cs j = hold_rec r \<and> cs' j = hold_rec r \<longrightarrow>
          map_option cr_content (ca_rec c' r) = map_option cr_content (ca_rec c r)))
    \<and> (\<forall>r rec. ca_rec c r = Some rec \<longrightarrow> map_of (ca_table c) (rec_key rec) = Some r \<or> (\<exists>i. cs i = hold_rec r))
    \<and> (\<forall>k r. map_of (ca_table c) k = Some r \<longrightarrow> (\<exists>rec. ca_rec c r = Some rec \<and> rec_key rec = k))
    \<and> length (ca_table c) \<le> max NXWEB_MAX_CACHED_ITEMS (card {i. cc_req_finalize (cs i)})
    \<and> (\<forall>t i. request_finalize t (cs i) c \<noteq> None)
    \<and> (\<forall>t key ims m i. \<not> cc_req_finalize (cs i) \<and> card {i. cc_req_finalize (cs i)} + 1 < 2 ^ 32
          \<longrightarrow> nxweb_cache_try t key ims m (cs i) (rs i) c \<noteq> None)"
proof (intro conjI)
  have sv: "serving (c, cs, rs)" by (rule cache_reach_serving [OF reach])
  then have ok: "cache_ok (c, cs)" by (simp add: serving_def)
  then obtain xs where inv: "finite (busy cs)" "\<forall>j \<in> busy cs. \<exists>r. cs j = hold_rec r" "cinv {} xs (holders cs) c" "bounded_by (holders cs) xs"
    unfolding cache_ok_def by auto
  note pos = holders_pos [OF inv(1)]
  show "\<forall>i. cc_req_finalize (cs i) \<longrightarrow> (\<exists>r rec. cs i = hold_rec r \<and> ca_rec c r = Some rec \<and> cr_ref_count rec = card {j. cs j = hold_rec r}
        \<and> points r rec (rs i) \<and> 0 \<le> rs_content_length (rs i) \<and> nat (rs_content_length (rs i)) < length (cr_content rec))"
  proof (intro allI impI)
    fix i
    assume "cc_req_finalize (cs i)"
    then obtain r where r: "cs i = hold_rec r" using inv(2) unfolding busy_def by blast
    then obtain rec where rec: "ca_rec c r = Some rec" using held_alive [OF ok] by blast
    then have "whole_rec rec" "points r rec (rs i)" using sv r by (auto simp: serving_def)
    moreover have "cr_ref_count rec = card {j. cs j = hold_rec r}" using cinvD(6) [OF inv(3) rec] by (simp add: holders_def)
    ultimately show "\<exists>r rec. cs i = hold_rec r \<and> ca_rec c r = Some rec \<and> cr_ref_count rec = card {j. cs j = hold_rec r}
        \<and> points r rec (rs i) \<and> 0 \<le> rs_content_length (rs i) \<and> nat (rs_content_length (rs i)) < length (cr_content rec)"
      using r rec by (intro exI [of _ r] exI [of _ rec]) (auto simp: whole_rec_def points_def)
  qed
  have body: "map_option cr_content (ca_rec c' r) = map_option cr_content (ca_rec c r)"
    if "map_option rec_body (ca_rec c' r) = map_option rec_body (ca_rec c r)" for c' r
    using arg_cong [OF that, of "map_option cr_content"] by (simp add: option.map_comp comp_def)
  show "\<forall>t c' cs' rs'. cache_step t (c, cs, rs) (c', cs', rs') \<longrightarrow> (\<forall>j r. cs j = hold_rec r \<and> cs' j = hold_rec r \<longrightarrow>
          map_option cr_content (ca_rec c' r) = map_option cr_content (ca_rec c r))"
    using step_keeps_bytes [OF _ ok] body by blast
  show "\<forall>r rec. ca_rec c r = Some rec \<longrightarrow> map_of (ca_table c) (rec_key rec) = Some r \<or> (\<exists>i. cs i = hold_rec r)"
    using cinvD(8) [OF inv(3)] table_lookup [OF inv(3)] pos by blast
  show "\<forall>k r. map_of (ca_table c) k = Some r \<longrightarrow> (\<exists>rec. ca_rec c r = Some rec \<and> rec_key rec = k)" using table_lookup [OF inv(3)] by blast
  show "length (ca_table c) \<le> max NXWEB_MAX_CACHED_ITEMS (card {i. cc_req_finalize (cs i)})"
    using table_bounded [OF inv(1,3,4)] by (simp add: busy_def)
  show "\<forall>t i. request_finalize t (cs i) c \<noteq> None" using finish_ok [OF ok] by (metis option.distinct(1))
  show "\<forall>t key ims m i. \<not> cc_req_finalize (cs i) \<and> card {i. cc_req_finalize (cs i)} + 1 < 2 ^ 32
      \<longrightarrow> nxweb_cache_try t key ims m (cs i) (rs i) c \<noteq> None"
    using lookup_ok [OF ok, unfolded busy_def] by (metis option.distinct(1))
qed

text \<open>A sample: a file of two bytes stored in an empty cache.\<close>

definition small_file :: "string \<Rightarrow> int \<Rightarrow> string option" where
  "small_file path n = (if n = 2 then Some ''hi'' else None)"

definition small_response :: "string nxweb_http_response" where
  "small_response = response_zero\<lparr>rs_status_code := 200, rs_sendfile_path := Some ''/f'', rs_content_length := 2, rs_sendfile_end := 2\<rparr>"

lemma small_response_fields: "cacheable small_response c \<longleftrightarrow> length (ca_table c) < 516" "rs_content_length small_response = 2"
    "small_file (the (rs_sendfile_path small_response)) 2 = Some ''hi''"
  by (simp_all add: cacheable_def small_response_def response_zero_def NXWEB_MAX_CACHED_ITEM_SIZE_def NXWEB_MAX_CACHED_ITEMS_def small_file_def)

lemma small_files: "whole_files small_file"
  by (simp add: whole_files_def small_file_def)

lemma busy_idle: "busy (\<lambda>_. idle_conn) = {}"
  by (simp add: busy_def)

abbreviation sample_start :: cache_state where
  "sample_start \<equiv> (cache_init, \<lambda>_. idle_conn, (\<lambda>_. response_zero)(0 := small_response))"

lemma sample_start_reach: "cache_reach sample_start"
proof -
  have "cache_step 0 cache_start sample_start" by (rule cache_step.handle) simp
  then show ?thesis by (intro r_into_rtranclp exI)
qed

lemma sample_stored:
  obtains c resp' where "cache_reach (c, (\<lambda>_. idle_conn)(0 := hold_rec 100), (\<lambda>_. response_zero)(0 := small_response, 0 := resp'))"
    "ca_rec c 100 = Some ((new_rec 0 ''k'' small_response ''hi'')\<lparr>cr_ref_count := 1\<rparr>)" "length (ca_table c) = 1"
    "nxweb_cache_store_response small_file [] 0 (Some 100) True ''k'' idle_conn small_response undefined cache_init = Some ((NXWEB_OK, hold_rec 100, resp', c), undefined)"
proof -
  let ?cs = "\<lambda>_ :: nat. idle_conn" and ?rec = "new_rec 0 ''k'' small_response ''hi''" and ?rs = "(\<lambda>_ :: nat. response_zero)(0 := small_response)"
  have inv: "cinv {} [] (\<lambda>_. 0) cache_init" by (simp add: cinv_def linked_recs_def cache_init_def dlist_def)
  have e: "ca_rec cache_init 100 = None" "map_of (ca_table cache_init) ''k'' = None" "\<not> cc_req_finalize idle_conn" "NUL \<notin> set ''k''" by (simp_all add: cache_init_def)
  have len: "length ''hi'' = nat (rs_content_length small_response)" by (simp add: small_response_fields)
  have ev: "evict NXWEB_MAX_CACHED_ITEMS u [100 :: nat] = [100]" for u by (rule evict_small) (simp add: NXWEB_MAX_CACHED_ITEMS_def)
  obtain resp' c where c: "cache_insert True 100 ''k'' idle_conn small_response (calloc_rec 100 ?rec cache_init) = Some (NXWEB_OK, hold_rec 100, resp', c)"
    "cinv {} [100] ((\<lambda>_. 0)(100 := 1)) c" "ca_rec c 100 = Some (?rec\<lparr>cr_ref_count := 1\<rparr>)"
    using fill_run [OF inv _ e(4,1) len e(3), of True 0] e(2) unfolding ev by (auto simp: cache_init_def)
  have fil: "cache_fill small_file [] 0 (Some 100) True ''k'' (?cs 0) (?rs 0) undefined cache_init = Some ((NXWEB_OK, hold_rec 100, resp', c), undefined)"
    using c(1) by (simp add: cache_fill_def small_response_fields)
  have f: "cache_step 0 (cache_init, ?cs, ?rs) (c, ?cs(0 := hold_rec 100), ?rs(0 := resp'))"
    by (rule cache_step.fill [where cs = ?cs and i = 0 and rs = ?rs, OF _ _ e(4,1) small_files _ fil, of cache_init])
      (simp_all add: busy_idle small_response_fields cache_init_def)
  have reach: "cache_reach (c, ?cs(0 := hold_rec 100), ?rs(0 := resp'))"
    using sample_start_reach by (rule rtranclp.rtrancl_into_rtrancl) (rule exI [of _ 0], rule f)
  have "rs_status_code small_response = 200" by (simp add: small_response_def)
  then have "nxweb_cache_store_response small_file [] 0 (Some 100) True ''k'' idle_conn small_response undefined cache_init = Some ((NXWEB_OK, hold_rec 100, resp', c), undefined)"
    using fil e(2) by (simp add: nxweb_cache_store_response_def nxweb_cache_try_def small_response_fields cache_init_def)
  then show ?thesis using that [OF reach c(3)] cinvD(3) [OF c(2)] by simp
qed

theorem cache_memory_safe_witness:
  "\<exists>c (cs :: nat \<Rightarrow> cache_conn) (rs :: nat \<Rightarrow> string nxweb_http_response). cs 0 = hold_rec 100 \<and> map_option cr_ref_count (ca_rec c 100) = Some (card {j. cs j = hold_rec 100})
    \<and> rs_content (rs 0) = Some (Ptr 165) \<and> rs_content_length (rs 0) = 2 \<and> request_finalize 5 (cs 0) c \<noteq> None"
proof -
  define cs :: "nat \<Rightarrow> cache_conn" where "cs = (\<lambda>_. idle_conn)(0 := hold_rec 100)"
  obtain c rs where c: "cache_reach (c, cs, rs)" "ca_rec c 100 = Some ((new_rec 0 ''k'' small_response ''hi'')\<lparr>cr_ref_count := 1\<rparr>)"
    unfolding cs_def by (rule sample_stored)
  note safe = cache_memory_safe [OF c(1)]
  have h: "cc_req_finalize (cs 0)" "cs 0 = hold_rec 100" by (simp_all add: cs_def)
  obtain r rec where r: "cs 0 = hold_rec r" "ca_rec c r = Some rec" "cr_ref_count rec = card {j. cs j = hold_rec r}" "points r rec (rs 0)"
    using conjunct1 [OF safe] h(1) by blast
  have "r = 100" using r(1) h(2) by simp
  moreover have "request_finalize 5 (cs 0) c \<noteq> None" using safe by blast
  ultimately show ?thesis using r(2-4) h(2) c(2)
    by (intro exI [of _ c] exI [of _ cs] exI [of _ rs]) (auto simp: points_def OFFSETOF_CONTENT_def new_rec_def small_response_fields)
qed

section \<open>How long a record is found\<close>





















section \<open>Keys that are not looked up\<close>

text \<open>
  A key that starts with a blank or a star is never found by a lookup, but storing does not look at it.  While there is a record for such a
  key, the response of every further request for it is replaced by that record, however old it is, and the bytes read anew are thrown away.
\<close>

lemma unsupported_key_stale:
  assumes idle: "\<not> cc_req_finalize conn" and key: "unsupported_key key" "map_of (ca_table c) key = Some r" and rec: "ca_rec c r = Some rec"
    and a: "ca_rec c a = None" and resp: "cacheable resp c" and fil: "read_file (the (rs_sendfile_path resp)) (rs_content_length resp) = Some content"
  shows "\<exists>c'. nxweb_cache_store_response read_file ver t (Some a) room key conn resp nb c = Some ((NXWEB_OK, hold_rec r, serve_rec r rec resp, c'), nb)"
proof -
  have miss: "nxweb_cache_try t key ims m conn resp c = Some (NXWEB_MISS, conn, resp, c)" for t ims m using key(1) by (simp add: nxweb_cache_try_def)
  have ne: "r \<noteq> a" using rec a by auto
  let ?c0 = "calloc_rec a (new_rec t key resp content) c"
  let ?c1 = "?c0\<lparr>ca_rec := (ca_rec ?c0)(a := None)\<rparr>"
  have "cache_insert room a key conn resp ?c0
      = Some (NXWEB_OK, hold_rec r, serve_rec r rec (resp\<lparr>rs_content := Some (Ptr (a + OFFSETOF_CONTENT))\<rparr>), set_rec r (count_ref rec) ?c1)"
    using key(2) rec ne idle by (simp add: cache_insert_def calloc_rec_def set_rec_def free_rec_def Let_def)
  moreover have "serve_rec r rec (resp\<lparr>rs_content := Some (Ptr (a + OFFSETOF_CONTENT))\<rparr>) = serve_rec r rec resp" by (simp add: serve_rec_def)
  moreover have "rs_status_code resp = 200" using resp by (simp add: cacheable_def)
  ultimately show ?thesis using resp miss fil by (simp add: nxweb_cache_store_response_def cache_fill_def)
qed

end
