(* ===== verification/Nx_Streams.thy ===== *)
theory Nx_Streams
  imports Nx_Event_Delivery Nx_Buffer
begin

text \<open>
  The stream ends of \<^verbatim>\<open>lib/nxd_buffer.c\<close> (declared in \<^verbatim>\<open>include/nxweb/nxd.h\<close>): a ring buffer between two streams, buffers that collect
  input in memory or in a file, and buffers that send memory or a file.  The other end of a connected stream is an
  argument: \<open>reader n\<close> is its \<^verbatim>\<open>read\<close> method with room for \<open>n\<close> bytes, giving the bytes stored there and whether it set the flag
  \<^verbatim>\<open>NXEF_EOF\<close>; \<open>writer bytes eof\<close> is its \<^verbatim>\<open>write\<close> method, giving its return value.  Both may change the loop.
\<close>

type_synonym 'w env = "nxe_events \<times> 'w"
type_synonym 'w reader = "nat \<Rightarrow> 'w env \<Rightarrow> (string \<times> bool) \<times> 'w env"
type_synonym 'w writer = "string \<Rightarrow> bool \<Rightarrow> 'w env \<Rightarrow> int \<times> 'w env"

section \<open>The ring buffer\<close>

text \<open>Pointers are offsets from \<^verbatim>\<open>start_ptr\<close>; \<open>rb_mem\<close> are the bytes up to \<^verbatim>\<open>end_ptr\<close>.\<close>

record nxd_rbuffer =
  rb_data_out :: nat
  rb_data_in :: nat
  rb_mem :: mem
  rb_read :: nat
  rb_write :: nat
  rb_last_write :: bool
  rb_eof :: bool

definition rb_size :: "nxd_rbuffer \<Rightarrow> nat" where
  "rb_size rb = length (rb_mem rb)"

definition nxd_rbuffer_init_ptr :: "mem \<Rightarrow> nxd_rbuffer \<Rightarrow> nxd_rbuffer" where
  "nxd_rbuffer_init_ptr buf rb = rb\<lparr>rb_mem := buf, rb_read := 0, rb_write := 0, rb_last_write := False\<rparr>"

text \<open>The streams \<open>i\<close> and \<open>o'\<close> are embedded in the buffer and cleared with it.\<close>

definition clear_istream :: "nat \<Rightarrow> nxe_events \<Rightarrow> nxe_events" where
  "clear_istream i st = st\<lparr>is_ready := (is_ready st)(i := False), is_pair := (is_pair st)(i := None), is_loop := (is_loop st)(i := False),
     ev_loop := (ev_loop st)(Stream i := False), ev_receiver := (ev_receiver st)(Stream i := None), ev_cls := (ev_cls st)(Stream i := NXE_EV_STREAM)\<rparr>"

definition clear_ostream :: "nat \<Rightarrow> nxe_events \<Rightarrow> nxe_events" where
  "clear_ostream o' st = st\<lparr>os_ready := (os_ready st)(o' := False), os_pair := (os_pair st)(o' := None), os_loop := (os_loop st)(o' := False)\<rparr>"

definition nxd_rbuffer_init :: "nat \<Rightarrow> nat \<Rightarrow> mem \<Rightarrow> nxe_events \<Rightarrow> nxd_rbuffer \<times> nxe_events" where
  "nxd_rbuffer_init i o' buf st =
     (let st = clear_ostream o' (clear_istream i st);
          rb = \<lparr>rb_data_out = i, rb_data_in = o', rb_mem = [], rb_read = 0, rb_write = 0, rb_last_write = False, rb_eof = False\<rparr>
      in (nxd_rbuffer_init_ptr buf rb, st\<lparr>os_ready := (os_ready st)(o' := True)\<rparr>))"

definition nxd_rbuffer_is_empty :: "nxd_rbuffer \<Rightarrow> bool" where
  "nxd_rbuffer_is_empty rb \<longleftrightarrow> rb_read rb = rb_write rb \<and> \<not> rb_last_write rb"

definition nxd_rbuffer_is_full :: "nxd_rbuffer \<Rightarrow> bool" where
  "nxd_rbuffer_is_full rb \<longleftrightarrow> rb_read rb = rb_write rb \<and> rb_last_write rb"

definition nxd_rbuffer_get_write_ptr :: "nxd_rbuffer \<Rightarrow> nat \<times> nat" where
  "nxd_rbuffer_get_write_ptr rb =
     (rb_write rb, if nxd_rbuffer_is_full rb then 0
        else if rb_write rb < rb_read rb then rb_read rb - rb_write rb else rb_size rb - rb_write rb)"

text \<open>The position, the number of bytes and whether they are the last.\<close>

definition nxd_rbuffer_get_read_ptr :: "nxd_rbuffer \<Rightarrow> nat \<times> nat \<times> bool" where
  "nxd_rbuffer_get_read_ptr rb =
     (let n = (if nxd_rbuffer_is_empty rb then 0
               else if rb_read rb < rb_write rb then rb_write rb - rb_read rb else rb_size rb - rb_read rb)
      in (rb_read rb, n, rb_eof rb \<and> (n = 0 \<or> rb_read rb < rb_write rb \<or> rb_write rb = 0)))"

text \<open>Setting a flag; in the loop it may make the event of the stream pending.\<close>

definition data_in_ready :: "nxd_rbuffer \<Rightarrow> nxe_events \<Rightarrow> nxe_events option" where
  "data_in_ready rb st =
     (if rb_eof rb then Some st
      else if os_loop st (rb_data_in rb) then nxe_ostream_set_ready (rb_data_in rb) st
      else Some (st\<lparr>os_ready := (os_ready st)(rb_data_in rb := True)\<rparr>))"

definition data_out_ready :: "nxd_rbuffer \<Rightarrow> nxe_events \<Rightarrow> nxe_events option" where
  "data_out_ready rb st =
     (if is_loop st (rb_data_out rb) then nxe_istream_set_ready (rb_data_out rb) st
      else Some (st\<lparr>is_ready := (is_ready st)(rb_data_out rb := True)\<rparr>))"

definition move_read :: "nat \<Rightarrow> nxd_rbuffer \<Rightarrow> nxd_rbuffer" where
  "move_read n rb = rb\<lparr>rb_read := (if rb_size rb \<le> rb_read rb + n then 0 else rb_read rb + n), rb_last_write := False\<rparr>"

definition move_write :: "nat \<Rightarrow> nxd_rbuffer \<Rightarrow> nxd_rbuffer" where
  "move_write n rb = rb\<lparr>rb_write := (if rb_size rb \<le> rb_write rb + n then 0 else rb_write rb + n), rb_last_write := True\<rparr>"

definition nxd_rbuffer_read :: "nat \<Rightarrow> nxd_rbuffer \<times> nxe_events \<Rightarrow> (nxd_rbuffer \<times> nxe_events) option" where
  "nxd_rbuffer_read n s =
     (case s of (rb, st) \<Rightarrow>
        if n = 0 then Some s
        else if rb_size rb < rb_read rb + n then None
        else do {
          let rb = move_read n rb;
          st \<leftarrow> data_in_ready rb st;
          Some (rb, if rb_read rb = rb_write rb \<and> \<not> rb_eof rb then nxe_istream_unset_ready (rb_data_out rb) st else st) })"

definition nxd_rbuffer_write :: "nat \<Rightarrow> nxd_rbuffer \<times> nxe_events \<Rightarrow> (nxd_rbuffer \<times> nxe_events) option" where
  "nxd_rbuffer_write n s =
     (case s of (rb, st) \<Rightarrow>
        if n = 0 then Some s
        else if rb_size rb < rb_write rb + n then None
        else do {
          let rb = move_write n rb;
          st \<leftarrow> data_out_ready rb st;
          Some (rb, if rb_read rb = rb_write rb then nxe_ostream_unset_ready (rb_data_in rb) st else st) })"

text \<open>The bytes that \<^verbatim>\<open>read\<close> stored at the write pointer; more than it had room for is an overflow.\<close>

definition store_bytes :: "nat \<Rightarrow> string \<Rightarrow> mem \<Rightarrow> mem" where
  "store_bytes p bs m = take p m @ bs @ drop (p + length bs) m"

definition rbuffer_data_in_do_read :: "'w reader \<Rightarrow> nxd_rbuffer \<Rightarrow> 'w env \<Rightarrow> (nxd_rbuffer \<times> 'w env) option" where
  "rbuffer_data_in_do_read reader rb s =
     (case nxd_rbuffer_get_write_ptr rb of (p, n) \<Rightarrow>
        if n = 0 then None
        else (case reader n s of ((bs, eof), (st, w)) \<Rightarrow>
          if n < length bs then None
          else do {
            (rb, st) \<leftarrow> nxd_rbuffer_write (length bs) (rb\<lparr>rb_mem := store_bytes p bs (rb_mem rb)\<rparr>, st);
            (if eof then
               if os_loop st (rb_data_in rb) then do { st \<leftarrow> nxe_istream_set_ready (rb_data_out rb) st; Some (rb\<lparr>rb_eof := True\<rparr>, st, w) } else None
             else Some (rb, st, w)) }))"

definition rbuffer_data_out_do_write :: "'w writer \<Rightarrow> nxd_rbuffer \<Rightarrow> 'w env \<Rightarrow> (nxd_rbuffer \<times> 'w env) option" where
  "rbuffer_data_out_do_write writer rb s =
     (case nxd_rbuffer_get_read_ptr rb of (p, n, eof) \<Rightarrow>
        (case writer (take n (drop p (rb_mem rb))) eof s of (sent, (st, w)) \<Rightarrow>
          if 0 < sent then map_option (\<lambda>(rb, st). (rb, st, w)) (nxd_rbuffer_read (nat sent) (rb, st))
          else Some (rb, st, w)))"

section \<open>Collecting input in memory\<close>

record nxd_ibuffer =
  ib_data_in :: nat
  ib_data_complete :: nat
  ib_data_ptr :: "nat option"
  ib_data_size :: int
  ib_max_data_size :: int

definition nxd_ibuffer_init :: "nat \<Rightarrow> nat \<Rightarrow> nxb_buffer \<Rightarrow> int \<Rightarrow> nxe_events \<Rightarrow> nxd_ibuffer \<times> nxb_buffer \<times> nxe_events" where
  "nxd_ibuffer_init o' pub nb max_data_size st =
     (\<lparr>ib_data_in = o', ib_data_complete = pub, ib_data_ptr = None, ib_data_size = 0, ib_max_data_size = max_data_size\<rparr>,
      nxb_start_stream nb,
      (clear_ostream o' st)\<lparr>os_ready := (os_ready st)(o' := True), pub_sub := (pub_sub st)(pub := None), pub_loop := (pub_loop st)(pub := False)\<rparr>)"

definition nxd_ibuffer_make_room :: "nat \<Rightarrow> nxd_ibuffer \<Rightarrow> nxb_buffer \<Rightarrow> nxb_buffer option" where
  "nxd_ibuffer_make_room n ib nb = (if ib_max_data_size ib < ib_data_size ib + int n then None else nxb_reserve n nb)"

definition nxd_ibuffer_get_result :: "nxd_ibuffer \<Rightarrow> nxb_buffer \<Rightarrow> ((nat \<times> int) \<times> nxd_ibuffer \<times> nxb_buffer) option" where
  "nxd_ibuffer_get_result ib nb =
     (case ib_data_ptr ib of
        Some p \<Rightarrow> Some ((p, ib_data_size ib), ib, nb)
      | None \<Rightarrow> do {
          nb \<leftarrow> nxb_append_char NUL nb;
          (case nxb_finish_stream nb of (p, _, nb) \<Rightarrow> Some ((p, ib_data_size ib), ib\<lparr>ib_data_ptr := Some p\<rparr>, nb)) })"

text \<open>The end of the data: the bytes are terminated and \<open>d\<close> is published.\<close>

definition ibuffer_complete :: "(nxp_pool \<Rightarrow> nat option) \<Rightarrow> int \<Rightarrow> nxd_ibuffer \<times> nxb_buffer \<times> nxe_events \<Rightarrow> (nxd_ibuffer \<times> nxb_buffer \<times> nxe_events) option" where
  "ibuffer_complete mem d s =
     (case s of (ib, nb, st) \<Rightarrow> do {
        nb \<leftarrow> nxb_append_char_fast NUL nb;
        (case nxb_finish_stream nb of (p, _, nb) \<Rightarrow>
           map_option (\<lambda>st. (ib\<lparr>ib_data_ptr := Some p\<rparr>, nb, st)) (nxe_publish mem (ib_data_complete ib) d st)) })"

text \<open>The room offered to \<^verbatim>\<open>read\<close>, one byte less than there is; as a size it must not be negative.\<close>

definition ibuffer_room :: "nxd_ibuffer \<Rightarrow> nxb_buffer \<Rightarrow> int" where
  "ibuffer_room ib nb =
     (let n = int (snd (nxb_get_room nb)) - 1
      in if ib_max_data_size ib < ib_data_size ib + n then ib_max_data_size ib - ib_data_size ib - 1 else n)"

definition ibuffer_data_in_do_read :: "(nxp_pool \<Rightarrow> nat option) \<Rightarrow> 'w reader \<Rightarrow> nxd_ibuffer \<Rightarrow> nxb_buffer \<Rightarrow> 'w env \<Rightarrow> (nxd_ibuffer \<times> nxb_buffer \<times> 'w env) option" where
  "ibuffer_data_in_do_read mem reader ib nb s =
     (if ib_data_ptr ib \<noteq> None then
        (case reader 16384 s of ((_, eof), (st, w)) \<Rightarrow>
           Some (ib, nb, (if eof then nxe_ostream_unset_ready (ib_data_in ib) st else st), w))
      else do {
        nb \<leftarrow> nxb_reserve 32 nb;
        (if ibuffer_room ib nb < 0 then None
         else case reader (nat (ibuffer_room ib nb)) s of ((bs, eof), (st, w)) \<Rightarrow>
           if ibuffer_room ib nb < int (length bs) then None
           else do {
             (ib, nb, st) \<leftarrow> (if bs = [] then Some (ib, nb, st)
                else do {
                  nb \<leftarrow> nxb_blank_fast (length bs) (nb\<lparr>nb_mem := mem_write (nb_mem nb) (nb_ptr nb) bs\<rparr>);
                  let ib = ib\<lparr>ib_data_size := ib_data_size ib + int (length bs)\<rparr>;
                  (if ib_max_data_size ib - 1 \<le> ib_data_size ib then ibuffer_complete mem (-1) (ib, nb, st) else Some (ib, nb, st)) });
             (if eof then do {
                (ib, nb, st) \<leftarrow> (if ib_data_ptr ib = None then ibuffer_complete mem 0 (ib, nb, st) else Some (ib, nb, st));
                Some (ib, nb, nxe_ostream_unset_ready (ib_data_in ib) st, w) }
              else Some (ib, nb, st, w)) }) })"

section \<open>Sending memory\<close>

record nxd_obuffer =
  ob_data_out :: nat
  ob_mem :: mem
  ob_data_ptr :: nat
  ob_data_size :: nat

definition nxd_obuffer_init :: "nat \<Rightarrow> mem \<Rightarrow> nat \<Rightarrow> nat \<Rightarrow> nxe_events \<Rightarrow> nxd_obuffer \<times> nxe_events" where
  "nxd_obuffer_init i m p n st =
     (let st = clear_istream i st
      in (\<lparr>ob_data_out = i, ob_mem = m, ob_data_ptr = p, ob_data_size = n\<rparr>, st\<lparr>is_ready := (is_ready st)(i := True)\<rparr>))"

definition obuffer_data_out_do_write :: "'w writer \<Rightarrow> nxd_obuffer \<Rightarrow> 'w env \<Rightarrow> nxd_obuffer \<times> 'w env" where
  "obuffer_data_out_do_write writer ob s =
     (if ob_data_size ob = 0 then (ob, snd (writer [] True s))
      else case writer (take (ob_data_size ob) (drop (ob_data_ptr ob) (ob_mem ob))) True s of (sent, s) \<Rightarrow>
        (if 0 < sent then ob\<lparr>ob_data_ptr := ob_data_ptr ob + nat sent, ob_data_size := ob_data_size ob - nat sent\<rparr> else ob, s))"

section \<open>Files\<close>

text \<open>\<open>fwriter offset n\<close> is the \<^verbatim>\<open>write\<close> method for the part of the file that starts at \<open>offset\<close>, always with the flag \<^verbatim>\<open>NXEF_EOF\<close>.\<close>

record nxd_fbuffer =
  fb_data_out :: nat
  fb_fd :: int
  fb_offset :: int
  fb_end :: int

definition nxd_fbuffer_init :: "nat \<Rightarrow> int \<Rightarrow> int \<Rightarrow> int \<Rightarrow> nxe_events \<Rightarrow> (nxd_fbuffer \<times> nxe_events) option" where
  "nxd_fbuffer_init i fd offset end_offset st =
     (let st = clear_istream i st
      in if \<not> 0 < fd then None
         else Some (\<lparr>fb_data_out = i, fb_fd = fd, fb_offset = offset, fb_end = end_offset\<rparr>, st\<lparr>is_ready := (is_ready st)(i := True)\<rparr>))"

definition fbuffer_data_out_do_write :: "(int \<Rightarrow> int \<Rightarrow> int \<Rightarrow> 'w env \<Rightarrow> int \<times> 'w env) \<Rightarrow> nxd_fbuffer \<Rightarrow> 'w env \<Rightarrow> nxd_fbuffer \<times> 'w env" where
  "fbuffer_data_out_do_write fwriter fb s =
     (let n = fb_end fb - fb_offset fb in
      if n = 0 then (fb, snd (fwriter (fb_fd fb) (fb_offset fb) 0 s))
      else case fwriter (fb_fd fb) (fb_offset fb) n s of (sent, s) \<Rightarrow>
        (if 0 < sent then fb\<lparr>fb_offset := fb_offset fb + sent\<rparr> else fb, s))"

text \<open>\<open>file_write\<close> is the system call \<^verbatim>\<open>write\<close> on the file: the number of bytes written and \<^verbatim>\<open>errno\<close>.  \<open>fwb_file\<close> are the bytes in the file.\<close>

definition EFBIG :: int where "EFBIG = 27"

record nxd_fwbuffer =
  fwb_data_in :: nat
  fwb_fd :: int
  fwb_error :: int
  fwb_size :: nat
  fwb_max_size :: nat
  fwb_file :: string

definition nxd_fwbuffer_init :: "nat \<Rightarrow> int \<Rightarrow> nat \<Rightarrow> nxe_events \<Rightarrow> nxd_fwbuffer \<times> nxe_events" where
  "nxd_fwbuffer_init o' fd max_size st =
     (let st = clear_ostream o' st
      in (\<lparr>fwb_data_in = o', fwb_fd = fd, fwb_error = 0, fwb_size = 0, fwb_max_size = max_size, fwb_file = []\<rparr>, st\<lparr>os_ready := (os_ready st)(o' := True)\<rparr>))"

definition store_in_file :: "(string \<Rightarrow> nat \<times> int) \<Rightarrow> string \<Rightarrow> nxd_fwbuffer \<Rightarrow> nxd_fwbuffer" where
  "store_in_file file_write bs fwb =
     (if bs = [] then fwb
      else case file_write bs of (n, err) \<Rightarrow>
        (let fwb = fwb\<lparr>fwb_file := fwb_file fwb @ take n bs\<rparr> in if n \<noteq> length bs then fwb\<lparr>fwb_error := err\<rparr> else fwb))"

definition fwbuffer_data_in_do_read :: "(string \<Rightarrow> nat \<times> int) \<Rightarrow> 'w reader \<Rightarrow> nxd_fwbuffer \<Rightarrow> 'w env \<Rightarrow> (nxd_fwbuffer \<times> 'w env) option" where
  "fwbuffer_data_in_do_read file_write reader fwb s =
     (let room = (if fwb_size fwb < fwb_max_size fwb then fwb_max_size fwb - fwb_size fwb else 0);
          room = (if 16384 < room then 16384 else room)
      in case reader 16384 s of ((bs, eof), (st, w)) \<Rightarrow>
        if 16384 < length bs then None
        else let fwb = (if bs = [] then fwb
               else let fwb = fwb\<lparr>fwb_size := fwb_size fwb + length bs\<rparr> in
                 if fwb_error fwb \<noteq> 0 then fwb
                 else if room < length bs then store_in_file file_write (take room bs) (fwb\<lparr>fwb_error := EFBIG\<rparr>)
                 else store_in_file file_write bs fwb)
             in Some (fwb, (if eof then nxe_ostream_unset_ready (fwb_data_in fwb) st else st), w))"

definition nxd_fwbuffer_finalize :: "nxd_fwbuffer \<Rightarrow> nxd_fwbuffer" where
  "nxd_fwbuffer_finalize fwb = fwb\<lparr>fwb_fd := 0\<rparr>"

section \<open>The ring buffer is a pipe\<close>

text \<open>The bytes in the buffer, in the order in which they came.\<close>

definition rb_content :: "nxd_rbuffer \<Rightarrow> string" where
  "rb_content rb =
     (if rb_read rb < rb_write rb then take (rb_write rb - rb_read rb) (drop (rb_read rb) (rb_mem rb))
      else if nxd_rbuffer_is_empty rb then [] else drop (rb_read rb) (rb_mem rb) @ take (rb_write rb) (rb_mem rb))"

definition rb_ok :: "nxd_rbuffer \<Rightarrow> bool" where
  "rb_ok rb \<longleftrightarrow> rb_read rb < rb_size rb \<and> rb_write rb < rb_size rb"

lemmas rb_defs = rb_size_def nxd_rbuffer_is_empty_def nxd_rbuffer_is_full_def rb_content_def rb_ok_def

lemma rb_length: "rb_ok rb \<Longrightarrow> length (rb_content rb) \<le> rb_size rb"
  "rb_ok rb \<Longrightarrow> nxd_rbuffer_is_full rb \<longleftrightarrow> length (rb_content rb) = rb_size rb"
  "rb_ok rb \<Longrightarrow> nxd_rbuffer_is_empty rb \<longleftrightarrow> rb_content rb = []"
  by (auto simp: rb_defs)

text \<open>The space after the write pointer.\<close>

lemma write_room:
  assumes "rb_ok rb" "nxd_rbuffer_get_write_ptr rb = (p, n)"
  shows "p = rb_write rb" "p + n \<le> rb_size rb" "length (rb_content rb) + n \<le> rb_size rb" "n = 0 \<longleftrightarrow> nxd_rbuffer_is_full rb"
  using assms by (auto simp: nxd_rbuffer_get_write_ptr_def rb_defs split: if_splits)

definition after_write :: "string \<Rightarrow> nxd_rbuffer \<Rightarrow> nxd_rbuffer" where
  "after_write bs rb = rb\<lparr>rb_mem := store_bytes (rb_write rb) bs (rb_mem rb),
     rb_write := (if rb_size rb \<le> rb_write rb + length bs then 0 else rb_write rb + length bs), rb_last_write := True\<rparr>"

lemma after_write_content:
  assumes ok: "rb_ok rb" and p: "nxd_rbuffer_get_write_ptr rb = (p, n)" and bs: "bs \<noteq> []" "length bs \<le> n"
  shows "rb_content (after_write bs rb) = rb_content rb @ bs" "rb_ok (after_write bs rb)" "rb_size (after_write bs rb) = rb_size rb"
proof -
  note room = write_room [OF ok p]
  let ?m = "rb_mem rb" and ?w = "rb_write rb" and ?r = "rb_read rb"
  have len: "?w + length bs \<le> length ?m" using room(1,2) bs(2) by (simp add: rb_size_def)
  have st: "length (store_bytes ?w bs ?m) = length ?m" using len by (simp add: store_bytes_def)
  show "rb_size (after_write bs rb) = rb_size rb" "rb_ok (after_write bs rb)"
    using st ok by (auto simp: after_write_def rb_defs)
  have nf: "\<not> nxd_rbuffer_is_full rb" using room(4) bs by auto
  show "rb_content (after_write bs rb) = rb_content rb @ bs"
  proof (cases "?r \<le> ?w")
    case True
    \<comment> \<open>the free space is the end of the buffer\<close>
    then have c: "rb_content rb = take (?w - ?r) (drop ?r ?m)" using nf by (auto simp: rb_defs)
    have tk: "drop ?r (take ?w ?m) = take (?w - ?r) (drop ?r ?m)" by (simp add: drop_take)
    show ?thesis
    proof (cases "length ?m \<le> ?w + length bs")
      case True
      then have "drop (?w + length bs) ?m = []" by simp
      then have "drop ?r (store_bytes ?w bs ?m) = rb_content rb @ bs" using \<open>?r \<le> ?w\<close> len c tk by (simp add: store_bytes_def)
      then show ?thesis using True by (simp add: after_write_def rb_defs)
    next
      case False
      have "take (?w + length bs - ?r) (drop ?r (store_bytes ?w bs ?m)) = rb_content rb @ bs" using \<open>?r \<le> ?w\<close> len c tk by (simp add: store_bytes_def)
      then show ?thesis using False \<open>?r \<le> ?w\<close> bs(1) by (auto simp: after_write_def rb_defs)
    qed
  next
    case False
    then have n: "?w + length bs \<le> ?r" using p bs(2) nf by (auto simp: nxd_rbuffer_get_write_ptr_def)
    have c: "rb_content rb = drop ?r ?m @ take ?w ?m" using False by (simp add: rb_defs)
    have d: "drop ?r (store_bytes ?w bs ?m) = drop ?r ?m" "take (?w + length bs) (store_bytes ?w bs ?m) = take ?w ?m @ bs"
      using n len by (simp_all add: store_bytes_def)
    have "\<not> length ?m \<le> ?w + length bs" using n ok by (simp add: rb_defs)
    then show ?thesis using n d c by (simp add: after_write_def rb_defs)
  qed
qed

text \<open>The bytes after the read pointer are the first of the content; the flag says when they are all.\<close>

lemma read_part:
  assumes ok: "rb_ok rb" and p: "nxd_rbuffer_get_read_ptr rb = (p, n, eof)"
  shows "p = rb_read rb" "take n (drop p (rb_mem rb)) = take n (rb_content rb)" "n \<le> length (rb_content rb)" "n = 0 \<longleftrightarrow> rb_content rb = []"
    "eof \<longleftrightarrow> rb_eof rb \<and> n = length (rb_content rb)" "rb_read rb + n \<le> rb_size rb"
  using assms by (auto simp: nxd_rbuffer_get_read_ptr_def rb_defs Let_def split: if_splits)

lemma after_read_content:
  assumes ok: "rb_ok rb" and p: "nxd_rbuffer_get_read_ptr rb = (p, n, eof)" and k: "0 < k" "k \<le> n"
  shows "rb_content (move_read k rb) = drop k (rb_content rb)" "rb_ok (move_read k rb)" "rb_size (move_read k rb) = rb_size rb"
proof -
  note part = read_part [OF ok p]
  show "rb_size (move_read k rb) = rb_size rb" "rb_ok (move_read k rb)" using ok by (auto simp: move_read_def rb_defs)
  show "rb_content (move_read k rb) = drop k (rb_content rb)"
  proof (cases "rb_read rb < rb_write rb")
    case True
    then have n: "n = rb_write rb - rb_read rb" using p by (auto simp: nxd_rbuffer_get_read_ptr_def rb_defs Let_def)
    then have kw: "rb_read rb + k \<le> rb_write rb" using k True by simp
    have c: "rb_content rb = take (rb_write rb - rb_read rb) (drop (rb_read rb) (rb_mem rb))" using True by (simp add: rb_content_def)
    have "\<not> rb_size rb \<le> rb_read rb + k" using kw ok by (simp add: rb_defs)
    then show ?thesis using k n c by (auto simp: move_read_def rb_defs drop_take add.commute)
  next
    case False
    then have ne: "\<not> nxd_rbuffer_is_empty rb" and n: "n = rb_size rb - rb_read rb" using p k by (auto simp: nxd_rbuffer_get_read_ptr_def Let_def split: if_splits)
    have c: "rb_content rb = drop (rb_read rb) (rb_mem rb) @ take (rb_write rb) (rb_mem rb)" using False ne by (simp add: rb_content_def)
    show ?thesis
    proof (cases "rb_size rb \<le> rb_read rb + k")
      case True
      then have "k = length (drop (rb_read rb) (rb_mem rb))" using k n by (simp add: rb_size_def)
      then have "drop k (rb_content rb) = take (rb_write rb) (rb_mem rb)" using c by simp
      then show ?thesis using True by (simp add: move_read_def rb_defs)
    next
      case f: False
      then have "drop k (rb_content rb) = drop (rb_read rb + k) (rb_mem rb) @ take (rb_write rb) (rb_mem rb)"
        using c by (simp add: rb_size_def add.commute)
      then show ?thesis using f False k by (simp add: move_read_def rb_defs)
    qed
  qed
qed

lemma istream_ready_run:
  "\<exists>st'. nxe_istream_set_ready i st = Some st' \<and> is_ready st' = (is_ready st)(i := True) \<and> os_ready st' = os_ready st"
  by (auto simp: nxe_istream_set_ready_def emit_stream_def nxe_link_def Let_def fun_upd_idem split: option.split)

lemma ostream_ready_run:
  "\<exists>st'. nxe_ostream_set_ready o' st = Some st' \<and> os_ready st' = (os_ready st)(o' := True) \<and> is_ready st' = is_ready st"
  by (auto simp: nxe_ostream_set_ready_def emit_stream_def nxe_link_def Let_def split: option.split)

text \<open>
  The flags: the buffer accepts data exactly while it is not full (after the end of the input it may stop), and
  offers data while it has some, or to pass on the end.
\<close>

definition rb_flags :: "nxd_rbuffer \<Rightarrow> nxe_events \<Rightarrow> bool" where
  "rb_flags rb st \<longleftrightarrow> (os_ready st (rb_data_in rb) \<longrightarrow> length (rb_content rb) < rb_size rb)
     \<and> (\<not> rb_eof rb \<longrightarrow> length (rb_content rb) < rb_size rb \<longrightarrow> os_ready st (rb_data_in rb))
     \<and> (is_ready st (rb_data_out rb) \<longleftrightarrow> rb_content rb \<noteq> [] \<or> rb_eof rb)"

definition same_ready :: "nxd_rbuffer \<Rightarrow> nxe_events \<Rightarrow> nxe_events \<Rightarrow> bool" where
  "same_ready rb st st' \<longleftrightarrow> is_ready st' (rb_data_out rb) = is_ready st (rb_data_out rb) \<and> os_ready st' (rb_data_in rb) = os_ready st (rb_data_in rb)"

lemma rbuffer_write_run:
  assumes ok: "rb_ok rb" "rb_flags rb st" "os_ready st (rb_data_in rb)" and p: "nxd_rbuffer_get_write_ptr rb = (p, n)" and bs: "length bs \<le> n"
  shows "\<exists>rb' st'. nxd_rbuffer_write (length bs) (rb\<lparr>rb_mem := store_bytes p bs (rb_mem rb)\<rparr>, st) = Some (rb', st') \<and> rb_ok rb' \<and> rb_flags rb' st'
    \<and> rb_content rb' = rb_content rb @ bs \<and> rb_eof rb' = rb_eof rb \<and> rb_size rb' = rb_size rb \<and> rb_data_in rb' = rb_data_in rb \<and> rb_data_out rb' = rb_data_out rb"
proof (cases "bs = []")
  case True
  then have "store_bytes p bs (rb_mem rb) = rb_mem rb" by (simp add: store_bytes_def)
  then show ?thesis using True ok by (auto simp: nxd_rbuffer_write_def)
next
  case False
  note room = write_room [OF ok(1) p]
  have c: "rb_content (after_write bs rb) = rb_content rb @ bs" "rb_ok (after_write bs rb)" "rb_size (after_write bs rb) = rb_size rb"
    using after_write_content [OF ok(1) p False bs] by auto
  obtain st1 where st1: "data_out_ready (after_write bs rb) st = Some st1" "is_ready st1 = (is_ready st)(rb_data_out rb := True)" "os_ready st1 = os_ready st"
    using istream_ready_run [of "rb_data_out rb" st] by (cases "is_loop st (rb_data_out rb)") (auto simp: data_out_ready_def after_write_def)
  let ?rb = "after_write bs rb"
  let ?st = "if rb_read ?rb = rb_write ?rb then nxe_ostream_unset_ready (rb_data_in rb) st1 else st1"
  have len: "length (store_bytes p bs (rb_mem rb)) = rb_size rb" using room(1,2) bs by (simp add: store_bytes_def rb_size_def)
  have fields: "rb_eof ?rb = rb_eof rb" "rb_data_in ?rb = rb_data_in rb" "rb_data_out ?rb = rb_data_out rb" by (simp_all add: after_write_def)
  have mv: "move_write (length bs) (rb\<lparr>rb_mem := store_bytes p bs (rb_mem rb)\<rparr>) = ?rb" using len room(1) by (simp add: move_write_def after_write_def rb_size_def)
  have run: "nxd_rbuffer_write (length bs) (rb\<lparr>rb_mem := store_bytes p bs (rb_mem rb)\<rparr>, st) = Some (?rb, ?st)"
    using False room(1,2) bs st1(1) len fields unfolding nxd_rbuffer_write_def by (simp add: rb_size_def mv [unfolded room(1)] Let_def)
  have full: "rb_read ?rb = rb_write ?rb \<longleftrightarrow> length (rb_content ?rb) = rb_size ?rb"
    using rb_length(2) [OF c(2)] by (simp add: nxd_rbuffer_is_full_def after_write_def)
  have "rb_flags ?rb ?st"
    using full ok(3) st1(2,3) c rb_length(1) [OF c(2)] False by (auto simp: rb_flags_def fields nxe_ostream_unset_ready_def)
  then show ?thesis using run c fields by blast
qed

lemma rbuffer_read_run:
  assumes ok: "rb_ok rb" "rb_flags rb st" and p: "nxd_rbuffer_get_read_ptr rb = (p, n, eof)" and k: "k \<le> n"
  shows "\<exists>rb' st'. nxd_rbuffer_read k (rb, st) = Some (rb', st') \<and> rb_ok rb' \<and> rb_flags rb' st' \<and> rb_content rb' = drop k (rb_content rb)
    \<and> rb_eof rb' = rb_eof rb \<and> rb_size rb' = rb_size rb \<and> rb_data_in rb' = rb_data_in rb \<and> rb_data_out rb' = rb_data_out rb"
proof (cases "k = 0")
  case True
  then show ?thesis using ok by (auto simp: nxd_rbuffer_read_def)
next
  case False
  note part = read_part [OF ok(1) p]
  have c: "rb_content (move_read k rb) = drop k (rb_content rb)" "rb_ok (move_read k rb)" "rb_size (move_read k rb) = rb_size rb"
    using after_read_content [OF ok(1) p _ k] False by auto
  obtain st1 where st1: "data_in_ready (move_read k rb) st = Some st1" "os_ready st1 = (if rb_eof rb then os_ready st else (os_ready st)(rb_data_in rb := True))"
      "is_ready st1 = is_ready st"
    using ostream_ready_run [of "rb_data_in rb" st] by (cases "rb_eof rb"; cases "os_loop st (rb_data_in rb)") (auto simp: data_in_ready_def move_read_def)
  let ?rb = "move_read k rb"
  let ?st = "if rb_read ?rb = rb_write ?rb \<and> \<not> rb_eof rb then nxe_istream_unset_ready (rb_data_out rb) st1 else st1"
  have fields: "rb_eof ?rb = rb_eof rb" "rb_data_in ?rb = rb_data_in rb" "rb_data_out ?rb = rb_data_out rb" by (simp_all add: move_read_def)
  have run: "nxd_rbuffer_read k (rb, st) = Some (?rb, ?st)"
    using False k part(6) st1(1) fields unfolding nxd_rbuffer_read_def by (simp add: rb_size_def Let_def)
  have empty: "rb_read ?rb = rb_write ?rb \<longleftrightarrow> rb_content ?rb = []"
    using rb_length(3) [OF c(2)] by (simp add: nxd_rbuffer_is_empty_def move_read_def)
  have ne: "rb_content rb \<noteq> []" using False k part(4) by auto
  have less: "length (rb_content ?rb) < rb_size ?rb" using c(1,3) ne False rb_length(1) [OF ok(1)] by (cases "rb_content rb") auto
  have "rb_flags ?rb ?st"
    using empty less ne ok(2) st1(2,3) by (auto simp: rb_flags_def fields nxe_istream_unset_ready_def)
  then show ?thesis using run c fields by blast
qed

lemma same_ready_flags: "rb_flags rb st \<Longrightarrow> same_ready rb st st' \<Longrightarrow> rb_flags rb st'"
  by (simp add: rb_flags_def same_ready_def)

lemma data_out_ready_loop: "data_out_ready rb st = Some st' \<Longrightarrow> os_loop st' = os_loop st"
  by (auto simp: data_out_ready_def nxe_istream_set_ready_def emit_stream_def nxe_link_def Let_def split: option.splits if_splits)

lemma rbuffer_write_loop: "nxd_rbuffer_write n (rb, st) = Some (rb', st') \<Longrightarrow> os_loop st' = os_loop st"
  using data_out_ready_loop by (fastforce simp: nxd_rbuffer_write_def nxe_ostream_unset_ready_def Let_def split: if_splits bind_splits)

lemma receive_run:
  assumes ok: "rb_ok rb" "rb_flags rb st" "os_ready st (rb_data_in rb)" and rd: "reader (snd (nxd_rbuffer_get_write_ptr rb)) (st, w) = ((bs, e), (st1, w'))"
    and bs: "length bs \<le> snd (nxd_rbuffer_get_write_ptr rb)" and st1: "same_ready rb st st1" "os_loop st1 (rb_data_in rb)"
  shows "\<exists>rb' st'. rbuffer_data_in_do_read reader rb (st, w) = Some (rb', st', w') \<and> rb_ok rb' \<and> rb_flags rb' st'
    \<and> rb_content rb' = rb_content rb @ bs \<and> rb_size rb' = rb_size rb \<and> rb_eof rb' = (rb_eof rb \<or> e)"
proof -
  obtain p n where p: "nxd_rbuffer_get_write_ptr rb = (p, n)" by fastforce
  have fl: "rb_flags rb st1" "os_ready st1 (rb_data_in rb)" using same_ready_flags [OF ok(2) st1(1)] st1 ok(3) by (simp_all add: same_ready_def)
  have n: "n \<noteq> 0" using write_room(4) [OF ok(1) p] rb_length(2) [OF ok(1)] ok(2,3) by (auto simp: rb_flags_def)
  obtain rb1 st2 where w: "nxd_rbuffer_write (length bs) (rb\<lparr>rb_mem := store_bytes p bs (rb_mem rb)\<rparr>, st1) = Some (rb1, st2)" "rb_ok rb1" "rb_flags rb1 st2"
    "rb_content rb1 = rb_content rb @ bs" "rb_eof rb1 = rb_eof rb" "rb_size rb1 = rb_size rb" "rb_data_in rb1 = rb_data_in rb" "rb_data_out rb1 = rb_data_out rb"
    using rbuffer_write_run [OF ok(1) fl p, of bs] bs p by auto
  have lp: "os_loop st2 (rb_data_in rb1)" using rbuffer_write_loop [OF w(1)] st1(2) w(7) by simp
  show ?thesis
  proof (cases e)
    case False
    then show ?thesis using w bs n p rd by (auto simp: rbuffer_data_in_do_read_def)
  next
    case True
    obtain st3 where st3: "nxe_istream_set_ready (rb_data_out rb1) st2 = Some st3" "is_ready st3 = (is_ready st2)(rb_data_out rb1 := True)" "os_ready st3 = os_ready st2"
      using istream_ready_run by blast
    have c: "rb_content (rb1\<lparr>rb_eof := True\<rparr>) = rb_content rb1" "rb_ok (rb1\<lparr>rb_eof := True\<rparr>) = rb_ok rb1" "rb_size (rb1\<lparr>rb_eof := True\<rparr>) = rb_size rb1" by (simp_all add: rb_defs)
    have "rb_flags (rb1\<lparr>rb_eof := True\<rparr>) st3" using w(3) st3(2,3) by (auto simp: rb_flags_def c)
    then show ?thesis using w(1,2,4-6) True bs n p rd st3(1) c lp by (auto simp: rbuffer_data_in_do_read_def)
  qed
qed

text \<open>What is offered to the writer: the first \<open>n\<close> bytes of the content, and whether they are the last ones.\<close>

lemma send_run:
  assumes ok: "rb_ok rb" "rb_flags rb st" and p: "nxd_rbuffer_get_read_ptr rb = (p, n, e)"
    and wr: "writer (take n (rb_content rb)) (rb_eof rb \<and> n = length (rb_content rb)) (st, w) = (k, (st1, w'))" and k: "k \<le> int n" and st1: "same_ready rb st st1"
  shows "\<exists>rb' st'. rbuffer_data_out_do_write writer rb (st, w) = Some (rb', st', w') \<and> rb_ok rb' \<and> rb_flags rb' st'
    \<and> rb_content rb' = drop (nat k) (rb_content rb) \<and> rb_size rb' = rb_size rb \<and> rb_eof rb' = rb_eof rb \<and> (0 < k \<longrightarrow> rb_read rb' = rb_read (move_read (nat k) rb))
    \<and> rb_write rb' = rb_write rb \<and> (0 < k \<longrightarrow> \<not> rb_last_write rb')"
proof -
  note part = read_part [OF ok(1) p]
  have wr': "writer (take n (drop p (rb_mem rb))) e (st, w) = (k, (st1, w'))" using wr part(2,5) by simp
  have fl: "rb_flags rb st1" by (rule same_ready_flags [OF ok(2) st1])
  have kn: "nat k \<le> n" using k by simp
  obtain rb' st' where r: "nxd_rbuffer_read (nat k) (rb, st1) = Some (rb', st')" "rb_ok rb'" "rb_flags rb' st'" "rb_content rb' = drop (nat k) (rb_content rb)"
    "rb_eof rb' = rb_eof rb" "rb_size rb' = rb_size rb"
    using rbuffer_read_run [OF ok(1) fl p kn] by auto
  have nk: "nxd_rbuffer_read 0 (rb, st1) = Some (rb, st1)" by (simp add: nxd_rbuffer_read_def)
  have mv: "rb' = move_read (nat k) rb" if "0 < k"
    using r(1) that by (auto simp: nxd_rbuffer_read_def Let_def split: if_splits bind_splits)
  have "rbuffer_data_out_do_write writer rb (st, w) = Some (rb', st', w')"
  proof (cases "0 < k")
    case True
    then show ?thesis using r(1) p wr' by (simp add: rbuffer_data_out_do_write_def)
  next
    case False
    then have "rb' = rb" "st' = st1" using r(1) nk by simp_all
    then show ?thesis using False p wr' by (simp add: rbuffer_data_out_do_write_def)
  qed
  moreover have "rb_write rb' = rb_write rb" using mv r(1) nk by (cases "0 < k") (simp_all add: move_read_def)
  ultimately show ?thesis using r(2-6) mv by (auto simp: move_read_def)
qed

text \<open>
  The two ends, which keep a record of what passes: the bytes that the source stored, the bytes that the destination took out of those it was given, and
  whether it took all of them when it was told that they are the last.  The source has \<open>bs\<close> for the buffer, and its end if \<open>e\<close> is set; the destination
  takes at most \<open>k\<close> bytes, or fails with a negative \<open>k\<close>.
\<close>

type_synonym pipe_log = "string \<times> string \<times> bool"

definition source :: "string \<Rightarrow> bool \<Rightarrow> nxe_events \<Rightarrow> pipe_log reader" where
  "source bs e st1 n = (\<lambda>(st, (r, s, c)). ((take n bs, e), (st1, (r @ take n bs, s, c))))"

definition destination :: "int \<Rightarrow> nxe_events \<Rightarrow> pipe_log writer" where
  "destination k st1 bs e = (\<lambda>(st, (r, s, c)). (min k (int (length bs)), (st1, (r, s @ take (nat k) bs, c \<or> e \<and> int (length bs) \<le> k))))"

text \<open>
  A buffer in use: its flags stay as they are while the rest of the program runs, its \<^verbatim>\<open>do_read\<close> is called when it accepts data, and not after the end of the
  data; its \<^verbatim>\<open>do_write\<close> is called when it offers data.
\<close>

inductive pipe :: "nxd_rbuffer \<Rightarrow> nxe_events \<Rightarrow> pipe_log \<Rightarrow> bool" where
  init: "buf \<noteq> [] \<Longrightarrow> nxd_rbuffer_init i o' buf st0 = (rb, st) \<Longrightarrow> pipe rb st ([], [], False)"
| other: "pipe rb st w \<Longrightarrow> same_ready rb st st' \<Longrightarrow> pipe rb st' w"
| receive: "pipe rb st w \<Longrightarrow> os_ready st (rb_data_in rb) \<Longrightarrow> \<not> rb_eof rb \<Longrightarrow> same_ready rb st st1 \<Longrightarrow> os_loop st1 (rb_data_in rb)
    \<Longrightarrow> rbuffer_data_in_do_read (source bs e st1) rb (st, w) = Some (rb', st', w') \<Longrightarrow> pipe rb' st' w'"
| send: "pipe rb st w \<Longrightarrow> is_ready st (rb_data_out rb) \<Longrightarrow> same_ready rb st st1
    \<Longrightarrow> rbuffer_data_out_do_write (destination k st1) rb (st, w) = Some (rb', st', w') \<Longrightarrow> pipe rb' st' w'"

definition pipe_inv :: "nxd_rbuffer \<Rightarrow> nxe_events \<Rightarrow> pipe_log \<Rightarrow> bool" where
  "pipe_inv rb st w \<longleftrightarrow> rb_ok rb \<and> rb_flags rb st \<and> (case w of (r, s, c) \<Rightarrow> r = s @ rb_content rb \<and> (c \<longrightarrow> rb_eof rb \<and> rb_content rb = []))"

lemma pipe_receive:
  assumes "pipe_inv rb st w" "os_ready st (rb_data_in rb)" "\<not> rb_eof rb" "same_ready rb st st1" "os_loop st1 (rb_data_in rb)"
  shows "\<exists>rb' st' w'. rbuffer_data_in_do_read (source bs e st1) rb (st, w) = Some (rb', st', w') \<and> pipe_inv rb' st' w'"
proof -
  obtain r s c where w: "w = (r, s, c)" by (cases w) auto
  let ?n = "snd (nxd_rbuffer_get_write_ptr rb)"
  have i: "rb_ok rb" "rb_flags rb st" "r = s @ rb_content rb" "\<not> c" using assms(1,3) w by (auto simp: pipe_inv_def)
  have src: "source bs e st1 ?n (st, w) = ((take ?n bs, e), (st1, (r @ take ?n bs, s, c)))" by (simp add: source_def w)
  obtain rb' st' where "rbuffer_data_in_do_read (source bs e st1) rb (st, w) = Some (rb', st', (r @ take ?n bs, s, c))" "rb_ok rb'" "rb_flags rb' st'"
    "rb_content rb' = rb_content rb @ take ?n bs"
    using receive_run [where reader = "source bs e st1", OF i(1,2) assms(2) src _ assms(4,5)] by auto
  then show ?thesis using i by (auto simp: pipe_inv_def)
qed

lemma pipe_send:
  assumes "pipe_inv rb st w" "same_ready rb st st1"
  shows "\<exists>rb' st' w'. rbuffer_data_out_do_write (destination k st1) rb (st, w) = Some (rb', st', w') \<and> pipe_inv rb' st' w'"
proof -
  obtain r s c where w: "w = (r, s, c)" by (cases w) auto
  obtain p n e where p: "nxd_rbuffer_get_read_ptr rb = (p, n, e)" by (cases "nxd_rbuffer_get_read_ptr rb") auto
  have i: "rb_ok rb" "rb_flags rb st" "r = s @ rb_content rb" "c \<longrightarrow> rb_eof rb \<and> rb_content rb = []" using assms(1) w by (auto simp: pipe_inv_def)
  note part = read_part [OF i(1) p]
  let ?bs = "take n (rb_content rb)" and ?e = "rb_eof rb \<and> n = length (rb_content rb)"
  have l: "length ?bs = n" using part(3) by simp
  have dst: "destination k st1 ?bs ?e (st, w) = (min k (int n), (st1, (r, s @ take (nat k) ?bs, c \<or> ?e \<and> int n \<le> k)))" using l by (simp add: destination_def w)
  obtain rb' st' where r: "rbuffer_data_out_do_write (destination k st1) rb (st, w) = Some (rb', st', (r, s @ take (nat k) ?bs, c \<or> ?e \<and> int n \<le> k))"
    "rb_ok rb'" "rb_flags rb' st'" "rb_content rb' = drop (nat (min k (int n))) (rb_content rb)" "rb_eof rb' = rb_eof rb"
    using send_run [where writer = "destination k st1", OF i(1,2) p dst _ assms(2)] by auto
  have t: "take (nat k) ?bs = take (nat (min k (int n))) (rb_content rb)" by (simp add: min_def nat_le_iff)
  have "s @ rb_content rb = (s @ take (nat k) ?bs) @ rb_content rb'" unfolding t r(4) by simp
  then show ?thesis using r i by (auto simp: pipe_inv_def min_def split: if_splits)
qed

lemma pipe_ok: "pipe rb st w \<Longrightarrow> pipe_inv rb st w"
proof (induction rule: pipe.induct)
  case (init buf i o' st0 rb st)
  then show ?case by (auto simp: pipe_inv_def nxd_rbuffer_init_def nxd_rbuffer_init_ptr_def Let_def rb_defs rb_flags_def clear_ostream_def clear_istream_def)
next
  case (other rb st w st')
  then show ?case using same_ready_flags by (auto simp: pipe_inv_def)
next
  case (receive rb st w st1 bs e rb' st' w')
  then show ?case using pipe_receive [of rb st w st1 bs e] by simp
next
  case (send rb st w st1 k rb' st' w')
  then show ?case using pipe_send [of rb st w st1 k] by simp
qed

lemma same_ready_refl [simp]: "same_ready rb st st"
  by (simp add: same_ready_def)

text \<open>The content is in two parts at most: after the first has been taken, the second begins at the start of the buffer.\<close>

lemma greedy_send:
  assumes i: "pipe_inv rb st (r, s, c)" and p: "nxd_rbuffer_get_read_ptr rb = (p, n, e)"
  shows "\<exists>rb' st'. rbuffer_data_out_do_write (destination (int (rb_size rb)) st) rb (st, (r, s, c))
      = Some (rb', st', (r, s @ take n (rb_content rb), c \<or> rb_eof rb \<and> n = length (rb_content rb)))
    \<and> pipe_inv rb' st' (r, s @ take n (rb_content rb), c \<or> rb_eof rb \<and> n = length (rb_content rb)) \<and> rb_size rb' = rb_size rb \<and> rb_eof rb' = rb_eof rb
    \<and> rb_content rb' = drop n (rb_content rb) \<and> fst (snd (nxd_rbuffer_get_read_ptr rb')) = length (rb_content rb')"
proof -
  have ok: "rb_ok rb" "rb_flags rb st" using i by (auto simp: pipe_inv_def)
  note part = read_part [OF ok(1) p]
  let ?bs = "take n (rb_content rb)" and ?e = "rb_eof rb \<and> n = length (rb_content rb)" and ?k = "int (rb_size rb)"
  have n: "length ?bs = n" "n \<le> rb_size rb" using part(3,6) by simp_all
  have dst: "destination ?k st ?bs ?e (st, (r, s, c)) = (int n, (st, (r, s @ ?bs, c \<or> ?e)))" using n by (simp add: destination_def)
  obtain rb' st' where r: "rbuffer_data_out_do_write (destination ?k st) rb (st, (r, s, c)) = Some (rb', st', (r, s @ ?bs, c \<or> ?e))"
    "rb_ok rb'" "rb_content rb' = drop n (rb_content rb)" "rb_size rb' = rb_size rb" "rb_eof rb' = rb_eof rb"
    "0 < n \<longrightarrow> rb_read rb' = rb_read (move_read n rb)" "rb_write rb' = rb_write rb" "0 < n \<longrightarrow> \<not> rb_last_write rb'"
    using send_run [where writer = "destination ?k st", OF ok p dst _ same_ready_refl] by auto
  have inv: "pipe_inv rb' st' (r, s @ ?bs, c \<or> ?e)" using pipe_send [OF i same_ready_refl, of ?k] r(1) by auto
  have "fst (snd (nxd_rbuffer_get_read_ptr rb')) = length (rb_content rb')"
  proof (cases "n = length (rb_content rb)")
    case True
    then have "rb_content rb' = []" using r(3) by simp
    then show ?thesis using read_part(4) [OF r(2)] by (cases "nxd_rbuffer_get_read_ptr rb'") auto
  next
    case False
    then have lt: "\<not> rb_read rb < rb_write rb" "n = rb_size rb - rb_read rb" "0 < n" using p part(3,4) ok(1)
      by (auto simp: nxd_rbuffer_get_read_ptr_def rb_defs Let_def split: if_splits)
    then have "rb_read rb' = 0" using r(6) ok(1) by (auto simp: move_read_def rb_defs)
    then show ?thesis using r(2,7,8) lt(3) by (auto simp: nxd_rbuffer_get_read_ptr_def rb_defs Let_def)
  qed
  then show ?thesis using r(1,3,4,5) inv by blast
qed

lemma drained:
  assumes i: "pipe_inv rb st (r, s, c)"
  shows "\<exists>rb1 st1 w1 rb2 st2. rbuffer_data_out_do_write (destination (int (rb_size rb)) st) rb (st, (r, s, c)) = Some (rb1, st1, w1)
    \<and> rbuffer_data_out_do_write (destination (int (rb_size rb)) st1) rb1 (st1, w1) = Some (rb2, st2, (r, r, c \<or> rb_eof rb))"
proof -
  obtain p n e where p: "nxd_rbuffer_get_read_ptr rb = (p, n, e)" by (cases "nxd_rbuffer_get_read_ptr rb") auto
  let ?C = "rb_content rb" and ?c1 = "c \<or> rb_eof rb \<and> n = length (rb_content rb)"
  obtain rb1 st1 where 1: "rbuffer_data_out_do_write (destination (int (rb_size rb)) st) rb (st, (r, s, c)) = Some (rb1, st1, (r, s @ take n ?C, ?c1))"
    "pipe_inv rb1 st1 (r, s @ take n ?C, ?c1)" "rb_size rb1 = rb_size rb" "rb_eof rb1 = rb_eof rb" "rb_content rb1 = drop n ?C"
    "fst (snd (nxd_rbuffer_get_read_ptr rb1)) = length (rb_content rb1)" using greedy_send [OF i p] by auto
  obtain p1 n1 e1 where p1: "nxd_rbuffer_get_read_ptr rb1 = (p1, n1, e1)" by (cases "nxd_rbuffer_get_read_ptr rb1") auto
  have n1: "n1 = length (rb_content rb1)" using 1(6) p1 by simp
  have "r = s @ ?C" using i by (simp add: pipe_inv_def)
  then have "\<exists>rb2 st2. rbuffer_data_out_do_write (destination (int (rb_size rb)) st1) rb1 (st1, (r, s @ take n ?C, ?c1)) = Some (rb2, st2, (r, r, c \<or> rb_eof rb))"
    using greedy_send [OF 1(2) p1] 1(3,4,5) n1 by auto
  then show ?thesis using 1(1) by blast
qed

text \<open>
  C11: A ring buffer is a pipe: whatever parts its source offers and its destination takes, the bytes that the destination was given and took, in order, followed by the
  bytes in the buffer are the bytes that the source stored.  It accepts data exactly while it is not full (until the end of the input), offers data exactly while it has
  some or has the end to pass on; the destination has been told of the end only when it has all the bytes, and two calls with a destination that takes all are enough for that.
  No assertion fails: reading and writing always return.
\<close>

theorem rbuffer_is_pipe:
  assumes reach: "pipe rb st (r, s, c)"
  shows "r = s @ rb_content rb \<and> length (rb_content rb) \<le> rb_size rb
    \<and> (is_ready st (rb_data_out rb) \<longleftrightarrow> rb_content rb \<noteq> [] \<or> rb_eof rb)
    \<and> (\<not> rb_eof rb \<longrightarrow> (os_ready st (rb_data_in rb) \<longleftrightarrow> length (rb_content rb) < rb_size rb))
    \<and> (c \<longrightarrow> rb_eof rb \<and> s = r)
    \<and> (\<forall>k st1. same_ready rb st st1 \<longrightarrow> rbuffer_data_out_do_write (destination k st1) rb (st, (r, s, c)) \<noteq> None)
    \<and> (\<forall>bs e st1. os_ready st (rb_data_in rb) \<and> \<not> rb_eof rb \<and> same_ready rb st st1 \<and> os_loop st1 (rb_data_in rb)
         \<longrightarrow> rbuffer_data_in_do_read (source bs e st1) rb (st, (r, s, c)) \<noteq> None)
    \<and> (\<exists>rb1 st1 w1 rb2 st2. rbuffer_data_out_do_write (destination (int (rb_size rb)) st) rb (st, (r, s, c)) = Some (rb1, st1, w1)
         \<and> rbuffer_data_out_do_write (destination (int (rb_size rb)) st1) rb1 (st1, w1) = Some (rb2, st2, (r, r, c \<or> rb_eof rb)))"
proof (intro conjI)
  have i: "pipe_inv rb st (r, s, c)" by (rule pipe_ok [OF reach])
  then have ok: "rb_ok rb" "rb_flags rb st" "r = s @ rb_content rb" "c \<longrightarrow> rb_eof rb \<and> rb_content rb = []" by (simp_all add: pipe_inv_def)
  show "r = s @ rb_content rb" "length (rb_content rb) \<le> rb_size rb" "c \<longrightarrow> rb_eof rb \<and> s = r" using ok(3,4) rb_length(1) [OF ok(1)] by simp_all
  show "is_ready st (rb_data_out rb) \<longleftrightarrow> rb_content rb \<noteq> [] \<or> rb_eof rb" using ok(2) by (simp add: rb_flags_def)
  show "\<not> rb_eof rb \<longrightarrow> (os_ready st (rb_data_in rb) \<longleftrightarrow> length (rb_content rb) < rb_size rb)" using ok(2) unfolding rb_flags_def by blast
  show "\<forall>k st1. same_ready rb st st1 \<longrightarrow> rbuffer_data_out_do_write (destination k st1) rb (st, (r, s, c)) \<noteq> None" using pipe_send [OF i] by fastforce
  show "\<forall>bs e st1. os_ready st (rb_data_in rb) \<and> \<not> rb_eof rb \<and> same_ready rb st st1 \<and> os_loop st1 (rb_data_in rb)
      \<longrightarrow> rbuffer_data_in_do_read (source bs e st1) rb (st, (r, s, c)) \<noteq> None" using pipe_receive [OF i] by fastforce
qed (rule drained [OF pipe_ok [OF reach]])

theorem rbuffer_is_pipe_witness: "\<exists>rb st. pipe rb st (''abc'', [], False) \<and> rb_content rb = ''abc'' \<and> is_ready st (rb_data_out rb)
    \<and> (\<exists>rb1 st1 w1 rb2 st2. rbuffer_data_out_do_write (destination (int (rb_size rb)) st) rb (st, (''abc'', [], False)) = Some (rb1, st1, w1)
         \<and> rbuffer_data_out_do_write (destination (int (rb_size rb)) st1) rb1 (st1, w1) = Some (rb2, st2, (''abc'', ''abc'', False \<or> rb_eof rb)))"
proof -
  obtain rb st0 where i: "nxd_rbuffer_init 1 2 ''....'' fresh_loop = (rb, st0)" by fastforce
  have p0: "pipe rb st0 ([], [], False)" by (rule pipe.init [OF _ i]) simp
  define st where "st = st0\<lparr>os_loop := (os_loop st0)(2 := True)\<rparr>"
  have f: "rb_data_in rb = 2" "rb_data_out rb = 1" "\<not> rb_eof rb" "os_ready st 2" "rb_mem rb = ''....''" "rb_read rb = 0" "rb_write rb = 0" "\<not> rb_last_write rb"
    using i by (auto simp: nxd_rbuffer_init_def nxd_rbuffer_init_ptr_def Let_def st_def)
  have same: "same_ready rb st0 st" "same_ready rb st st" by (simp_all add: same_ready_def st_def)
  have p1: "pipe rb st ([], [], False)" by (rule pipe.other [OF p0 same(1)])
  have lp: "os_loop st (rb_data_in rb)" by (simp add: st_def f(1))
  have "nxd_rbuffer_get_write_ptr rb = (0, 4)" using f by (simp add: nxd_rbuffer_get_write_ptr_def rb_defs)
  then have src: "source ''abc'' False st (snd (nxd_rbuffer_get_write_ptr rb)) (st, ([], [], False)) = ((''abc'', False), (st, (''abc'', [], False)))"
    by (simp add: source_def)
  have inv: "rb_ok rb" "rb_flags rb st" using pipe_ok [OF p1] by (auto simp: pipe_inv_def)
  obtain rb' st' where r: "rbuffer_data_in_do_read (source ''abc'' False st) rb (st, ([], [], False)) = Some (rb', st', (''abc'', [], False))"
    "rb_content rb' = rb_content rb @ ''abc''"
    using receive_run [where reader = "source ''abc'' False st", OF inv _ src _ same(2) lp] f \<open>nxd_rbuffer_get_write_ptr rb = (0, 4)\<close> by auto
  have p2: "pipe rb' st' (''abc'', [], False)" by (rule pipe.receive [OF p1 _ _ same(2) lp r(1)]) (use f in auto)
  have c: "rb_content rb = []" using f by (simp add: rb_defs)
  then have c': "rb_content rb' = ''abc''" using r(2) by simp
  have pip: "''abc'' = [] @ rb_content rb'" "is_ready st' (rb_data_out rb') \<longleftrightarrow> rb_content rb' \<noteq> [] \<or> rb_eof rb'"
    "\<exists>rb1 st1 w1 rb2 st2. rbuffer_data_out_do_write (destination (int (rb_size rb')) st') rb' (st', (''abc'', [], False)) = Some (rb1, st1, w1)
         \<and> rbuffer_data_out_do_write (destination (int (rb_size rb')) st1) rb1 (st1, w1) = Some (rb2, st2, (''abc'', ''abc'', False \<or> rb_eof rb'))"
    using rbuffer_is_pipe [OF p2] by blast+
  have "is_ready st' (rb_data_out rb')" using pip(2) c' by simp
  then show ?thesis using p2 c' pip(3) by blast
qed

section \<open>Collected input\<close>

lemma publish_returns:
  assumes "loop_ok H st" "mem_ok mem" "card (live (ev_pool st)) + card (subscribers st p) + 1 < 2 ^ 32"
  shows "\<exists>st'. nxe_publish mem p d st = Some st'"
proof -
  obtain q ss where inv: "ev_inv H q ss st" using assms(1) unfolding loop_ok_def by blast
  have "card (subscribers st p) = length (ss p)" using inv subscribers_ss unfolding ev_inv_def by blast
  then show ?thesis using nxe_publish_run [OF inv assms(2), of p d] assms(3) by auto
qed

lemma blank_is_append: "nxb_blank_fast (length bs) (nb\<lparr>nb_mem := mem_write (nb_mem nb) (nb_ptr nb) bs\<rparr>) = nxb_append_fast bs nb"
  by (simp add: nxb_blank_fast_def nxb_append_fast_def)

lemma mem_write_nil: "mem_write m a [] = m"
  by (auto simp: mem_write_def fun_eq_iff)

lemma complete_run:
  assumes nb: "nxb_ok nb" "nb_limit nb = None" "1 \<le> nxb_room nb" and pub: "nxe_publish mem (ib_data_complete ib) d st = Some st'"
  shows "\<exists>p nb'. ibuffer_complete mem d (ib, nb, st) = Some (ib\<lparr>ib_data_ptr := Some p\<rparr>, nb', st') \<and> nxb_ok nb'
    \<and> mem_read (nb_mem nb') p (length (nxb_stream nb) + 1) = nxb_stream nb @ [NUL]"
proof -
  obtain nb1 where nb1: "nxb_append_char_fast NUL nb = Some nb1" "nxb_ok nb1" "nxb_stream nb1 = nxb_stream nb @ [NUL]"
    using emitsE [OF emits_append_char_fast [OF nb(3)] nb(1,2) order.refl] by blast
  have len: "nb_ptr nb1 - nb_base nb1 = length (nxb_stream nb) + 1" using arg_cong [OF nb1(3), of length] by (simp add: nxb_stream_def)
  have "nxb_ok (nb1\<lparr>nb_base := nb_ptr nb1\<rparr>)" using nb1(2) by (auto simp: nxb_ok_def)
  then have "nxb_ok (set_dirty (nb1\<lparr>nb_base := nb_ptr nb1\<rparr>))" by simp
  moreover have "mem_read (nb_mem (set_dirty (nb1\<lparr>nb_base := nb_ptr nb1\<rparr>))) (nb_base nb1) (length (nxb_stream nb) + 1) = nxb_stream nb @ [NUL]"
    using nb1(3) len by (simp add: nxb_stream_def)
  ultimately show ?thesis using nb1(1) pub by (auto simp: ibuffer_complete_def nxb_finish_stream_def)
qed

text \<open>
  C12: A buffer that collects input stores the bytes it is given, in order, and never more than its limit.  When
  only one byte below the limit is left or the input ends it is closed: the result is all bytes with a terminator, and its subscribers are told \<open>-1\<close> or
  \<open>0\<close>.  Until then it offers room for at least one byte.  (The other end has the bytes \<open>bs\<close> and stores as many of them as there is room for.)
\<close>

theorem ibuffer_collects:
  assumes nb: "nxb_ok nb" "nb_limit nb = None" and ib: "ib_data_ptr ib = None" "ib_data_size ib = int (length (nxb_stream nb))" "ib_data_size ib < ib_max_data_size ib - 1"
    and loop: "loop_ok H st1" "mem_ok mem" "card (live (ev_pool st1)) + card (subscribers st1 (ib_data_complete ib)) + 1 < 2 ^ 32"
  shows "\<exists>k ib' nb' st'. ibuffer_data_in_do_read mem (\<lambda>n (x, w). ((take n bs, eof), (st1, w))) ib nb (st, w) = Some (ib', nb', st', w)
    \<and> 0 < k \<and> nxb_ok nb' \<and> ib_data_size ib' = int (length (nxb_stream nb @ take k bs)) \<and> ib_data_size ib' \<le> ib_max_data_size ib
    \<and> (if ib_max_data_size ib - 1 \<le> ib_data_size ib' \<or> eof
       then (\<exists>p st2. ib_data_ptr ib' = Some p \<and> mem_read (nb_mem nb') p (length (nxb_stream nb @ take k bs) + 1) = (nxb_stream nb @ take k bs) @ [NUL]
         \<and> nxe_publish mem (ib_data_complete ib) (if ib_max_data_size ib - 1 \<le> ib_data_size ib' then -1 else 0) st1 = Some st2
         \<and> st' = (if eof then nxe_ostream_unset_ready (ib_data_in ib) st2 else st2))
       else ib_data_ptr ib' = None \<and> nxb_stream nb' = nxb_stream nb @ take k bs \<and> st' = st1)"
proof -
  obtain nb1 where nb1: "nxb_make_room 32 nb = Some (True, nb1)" "nxb_ok nb1" "nb_limit nb1 = None" "nxb_stream nb1 = nxb_stream nb" "32 \<le> nxb_room nb1"
    by (rule nxb_make_room_ok [OF nb, of 32]) auto
  have res: "nxb_reserve 32 nb = Some nb1" by (simp add: nxb_reserve_def nb1(1))
  let ?room = "ibuffer_room ib nb1"
  have room: "0 < ?room" "?room \<le> int (nxb_room nb1) - 1" "?room \<le> ib_max_data_size ib - ib_data_size ib"
    using nb1(5) ib(3) by (auto simp: ibuffer_room_def nxb_get_room_def nxb_room_def Let_def)
  define k where "k = nat ?room"
  define cs where "cs = take k bs"
  have lcs: "int (length cs) \<le> ?room" using room(1) by (simp add: cs_def k_def)
  have fits: "length cs + 1 \<le> nxb_room nb1" using lcs room(2) by linarith
  obtain nb2 where nb2: "nxb_append_fast cs nb1 = Some nb2" "nxb_ok nb2" "nb_limit nb2 = None" "nxb_stream nb2 = nxb_stream nb @ cs" "1 \<le> nxb_room nb2"
    using emitsE [OF emits_append_fast [of cs "length cs + 1"] nb1(2,3) fits] nb1(4) by auto
  define ib1 where "ib1 = ib\<lparr>ib_data_size := ib_data_size ib + int (length cs)\<rparr>"
  have max: "ib_data_size ib1 \<le> ib_max_data_size ib" using room(3) lcs by (simp add: ib1_def)
  have sz: "ib_data_size ib1 = int (length (nxb_stream nb2))" by (simp add: ib1_def nb2(4) ib(2))
  have f1: "ib_data_complete ib1 = ib_data_complete ib" "ib_data_ptr ib1 = None" "ib_data_in ib1 = ib_data_in ib" by (simp_all add: ib1_def ib(1))
  have e: "ib1 = ib" "nb2 = nb1" if "cs = []" using that nb2(1) by (simp_all add: ib1_def nxb_append_fast_def mem_write_nil)
  have nfull: "\<not> ib_max_data_size ib - 1 \<le> ib_data_size ib1" if "cs = []" using e(1) [OF that] ib(3) by simp
  obtain stm sto where pub: "nxe_publish mem (ib_data_complete ib1) (-1) st1 = Some stm" "nxe_publish mem (ib_data_complete ib1) 0 st1 = Some sto"
    unfolding f1(1) using publish_returns [OF loop] by blast
  obtain p nbm where m: "ibuffer_complete mem (-1) (ib1, nb2, st1) = Some (ib1\<lparr>ib_data_ptr := Some p\<rparr>, nbm, stm)" "nxb_ok nbm"
    "mem_read (nb_mem nbm) p (length (nxb_stream nb2) + 1) = nxb_stream nb2 @ [NUL]" using complete_run [OF nb2(2,3,5) pub(1)] by blast
  obtain q nbo where o: "ibuffer_complete mem 0 (ib1, nb2, st1) = Some (ib1\<lparr>ib_data_ptr := Some q\<rparr>, nbo, sto)" "nxb_ok nbo"
    "mem_read (nb_mem nbo) q (length (nxb_stream nb2) + 1) = nxb_stream nb2 @ [NUL]" using complete_run [OF nb2(2,3,5) pub(2)] by blast
  have first: "(if cs = [] then Some (ib, nb1, st1) else do {
        nb \<leftarrow> nxb_blank_fast (length cs) (nb1\<lparr>nb_mem := mem_write (nb_mem nb1) (nb_ptr nb1) cs\<rparr>);
        let ib = ib1;
        (if ib_max_data_size ib - 1 \<le> ib_data_size ib then ibuffer_complete mem (-1) (ib, nb, st1) else Some (ib, nb, st1)) })
      = (if ib_max_data_size ib - 1 \<le> ib_data_size ib1 then Some (ib1\<lparr>ib_data_ptr := Some p\<rparr>, nbm, stm) else Some (ib1, nb2, st1))"
    using nb2(1) m(1) e nfull by (auto simp: blank_is_append ib1_def)
  let ?d = "if ib_max_data_size ib - 1 \<le> ib_data_size ib1 then (-1 :: int) else 0"
  have run: "ibuffer_data_in_do_read mem (\<lambda>n (x, w). ((take n bs, eof), (st1, w))) ib nb (st, w) =
      (if ib_max_data_size ib - 1 \<le> ib_data_size ib1
       then Some (ib1\<lparr>ib_data_ptr := Some p\<rparr>, nbm, (if eof then nxe_ostream_unset_ready (ib_data_in ib) stm else stm), w)
       else if eof then Some (ib1\<lparr>ib_data_ptr := Some q\<rparr>, nbo, nxe_ostream_unset_ready (ib_data_in ib) sto, w) else Some (ib1, nb2, st1, w))"
    using res room(1) lcs first o(1) f1 ib(1) unfolding ibuffer_data_in_do_read_def cs_def k_def ib1_def by (simp add: Let_def)
  have tk: "take k bs = cs" "0 < k" using room(1) by (simp_all add: cs_def k_def)
  show ?thesis
    by (intro exI [of _ k]) (use run tk(2) max sz nb2 m o pub f1 in \<open>auto simp: tk(1)\<close>)
qed

theorem ibuffer_collects_witness:
  "\<exists>k ib' nb' st'. ibuffer_data_in_do_read fresh_mem (\<lambda>n (x, w). ((take n ''hello'', True), (fresh_loop, w)))
      \<lparr>ib_data_in = 2, ib_data_complete = 3, ib_data_ptr = None, ib_data_size = 0, ib_max_data_size = 100\<rparr> fresh_nxb (fresh_loop, ()) = Some (ib', nb', st', ())
    \<and> 0 < k \<and> ib_data_size ib' = int (length (take k ''hello''))"
proof -
  have few: "card (live (ev_pool fresh_loop)) + card (subscribers fresh_loop 3) + 1 < 2 ^ 32" by (simp add: fresh_loop_facts(4,5) subscribers_def)
  let ?ib = "\<lparr>ib_data_in = 2, ib_data_complete = 3, ib_data_ptr = None, ib_data_size = 0, ib_max_data_size = 100\<rparr>"
  note ok = reach_ok [OF fresh_mem_ok fresh_loop_facts(1) rtranclp.rtrancl_refl]
  have lim: "nb_limit fresh_nxb = None" by (simp add: fresh_nxb_eval)
  show ?thesis using ibuffer_collects [of fresh_nxb ?ib "{}" fresh_loop fresh_mem "''hello''" True fresh_loop "()"] fresh_nxb_ok lim fresh_mem_ok ok few by auto
qed

section \<open>Input stored in a file\<close>

text \<open>The file never grows past the limit, and while there was no error it has all bytes received.\<close>

definition fwb_ok :: "string \<Rightarrow> nxd_fwbuffer \<Rightarrow> bool" where
  "fwb_ok r fwb \<longleftrightarrow> fwb_size fwb = length r \<and> length (fwb_file fwb) \<le> fwb_max_size fwb
     \<and> (fwb_error fwb = 0 \<longrightarrow> fwb_file fwb = r) \<and> (length (fwb_file fwb) \<le> length r)"

lemma store_in_file_fields:
  "fwb_size (store_in_file f bs fwb) = fwb_size fwb" "fwb_max_size (store_in_file f bs fwb) = fwb_max_size fwb"
  "length (fwb_file (store_in_file f bs fwb)) \<le> length (fwb_file fwb) + length bs"
  "fwb_error fwb \<noteq> 0 \<Longrightarrow> (\<And>xs. snd (f xs) \<noteq> 0) \<Longrightarrow> fwb_error (store_in_file f bs fwb) \<noteq> 0"
  "(\<And>xs. snd (f xs) \<noteq> 0) \<Longrightarrow> fwb_error (store_in_file f bs fwb) = 0 \<Longrightarrow> fwb_file (store_in_file f bs fwb) = fwb_file fwb @ bs"
  by (auto simp: store_in_file_def Let_def split: prod.splits if_splits dest: spec)
    (metis snd_conv)+

lemma fwbuffer_keeps:
  assumes ok: "fwb_ok r fwb" and err: "\<And>xs. snd (f xs) \<noteq> 0" and run: "fwbuffer_data_in_do_read f reader fwb s = Some (fwb', s')"
    and rd: "reader 16384 s = ((bs, eof), s1)"
  shows "fwb_ok (r @ bs) fwb'"
proof (cases "bs = []")
  case True
  then show ?thesis using ok run rd by (auto simp: fwbuffer_data_in_do_read_def Let_def split: prod.splits if_splits)
next
  case False
  define room where "room = (let n = (if fwb_size fwb < fwb_max_size fwb then fwb_max_size fwb - fwb_size fwb else 0) in if 16384 < n then 16384 else n)"
  define fwb1 where "fwb1 = fwb\<lparr>fwb_size := fwb_size fwb + length bs\<rparr>"
  have le: "length bs \<le> 16384" and res: "fwb' = (if fwb_error fwb \<noteq> 0 then fwb1 else if room < length bs then store_in_file f (take room bs) (fwb1\<lparr>fwb_error := EFBIG\<rparr>) else store_in_file f bs fwb1)"
    using run rd False by (auto simp: fwbuffer_data_in_do_read_def Let_def room_def fwb1_def split: prod.splits if_splits)
  have eq: "fwb_error fwb = 0 \<Longrightarrow> fwb_file fwb = r" "fwb_size fwb = length r" "length (fwb_file fwb) \<le> fwb_max_size fwb" "length (fwb_file fwb) \<le> length r"
    using ok by (simp_all add: fwb_ok_def)
  have max: "fwb_error fwb = 0 \<Longrightarrow> length (fwb_file fwb) + room \<le> fwb_max_size fwb"
    using eq by (auto simp: room_def Let_def)
  have big: "fwb_error (fwb1\<lparr>fwb_error := EFBIG\<rparr>) \<noteq> 0" by (simp add: EFBIG_def)
  note st = store_in_file_fields [where f = f]
  consider "fwb_error fwb \<noteq> 0" | "fwb_error fwb = 0" "room < length bs" | "fwb_error fwb = 0" "\<not> room < length bs" by blast
  then show ?thesis
  proof cases
    case 1
    then show ?thesis using res eq by (auto simp: fwb_ok_def fwb1_def)
  next
    case 2
    then have f: "fwb' = store_in_file f (take room bs) (fwb1\<lparr>fwb_error := EFBIG\<rparr>)" using res by simp
    have "length (fwb_file fwb') \<le> length (fwb_file fwb) + room" using st(3) [of "take room bs" "fwb1\<lparr>fwb_error := EFBIG\<rparr>"] 2 by (simp add: f fwb1_def)
    moreover have "fwb_error fwb' \<noteq> 0" using st(4) [OF big err] by (simp add: f)
    moreover have "fwb_size fwb' = length (r @ bs)" "fwb_max_size fwb' = fwb_max_size fwb" using eq(2) by (simp_all add: f st fwb1_def)
    ultimately show ?thesis using max 2 eq by (auto simp: fwb_ok_def)
  next
    case 3
    then have f: "fwb' = store_in_file f bs fwb1" using res by simp
    have "length (fwb_file fwb') \<le> length (fwb_file fwb) + length bs" using st(3) [of bs fwb1] by (simp add: f fwb1_def)
    moreover have "fwb_error fwb' = 0 \<Longrightarrow> fwb_file fwb' = fwb_file fwb @ bs" using st(5) [OF err, of bs fwb1] by (simp add: f fwb1_def)
    moreover have "fwb_size fwb' = length (r @ bs)" "fwb_max_size fwb' = fwb_max_size fwb" using eq(2) by (simp_all add: f st fwb1_def)
    ultimately show ?thesis using max 3 eq by (auto simp: fwb_ok_def)
  qed
qed

end
