(* ===== verification/Nx_Dispatch.thy ===== *)
theory Nx_Dispatch
  imports Nx_Cache Nx_Streams Nx_Event_Delivery
begin

text \<open>
  Handlers and the dispatch of requests to them (\<^verbatim>\<open>lib/http_server.c\<close>, \<^verbatim>\<open>include/nxweb/http_server.h\<close>, and the
  end of a response in \<^verbatim>\<open>lib/nxd_http_server_proto.c\<close>): registration in the order of priorities, the choice of a
  handler for a request, the filters around it, the caches asked before it runs.

  Handlers and filters are tables of callbacks, written by users of the server; each is a function on
  the state \<open>hst\<close> of one connection, the part of connection, request and response the code here reads or writes, with
  \<open>hs_world\<close> for all the rest.  A callback is \<open>None\<close> where the table has a null pointer, and a call is
  \<open>None\<close> where it has undefined behaviour.  A handler is a number, its record is in a table.
\<close>

unbundle bit_operations_syntax

section \<open>Data\<close>

definition NXWEB_MAX_FILTERS :: nat where "NXWEB_MAX_FILTERS = 16"

type_synonym nxweb_handler_flags = "32 word"

definition NXWEB_INWORKER :: nxweb_handler_flags where "NXWEB_INWORKER = 1"
definition NXWEB_PARSE_PARAMETERS :: nxweb_handler_flags where "NXWEB_PARSE_PARAMETERS = 2"
definition NXWEB_PARSE_COOKIES :: nxweb_handler_flags where "NXWEB_PARSE_COOKIES = 8"
definition NXWEB_HANDLE_GET :: nxweb_handler_flags where "NXWEB_HANDLE_GET = 0x10"
definition NXWEB_HANDLE_POST :: nxweb_handler_flags where "NXWEB_HANDLE_POST = 0x20"
definition NXWEB_HANDLE_OTHER :: nxweb_handler_flags where "NXWEB_HANDLE_OTHER = 0x40"
definition NXWEB_HANDLE_ANY :: nxweb_handler_flags where "NXWEB_HANDLE_ANY = 0x70"
definition NXWEB_ACCEPT_CONTENT :: nxweb_handler_flags where "NXWEB_ACCEPT_CONTENT = 0x80"
definition NXWEB_HANDLE_MASK :: nxweb_handler_flags where "NXWEB_HANDLE_MASK = 0x70"
definition NXWEB_HOST_DEPENDENT_DIR :: nxweb_handler_flags where "NXWEB_HOST_DEPENDENT_DIR = 0x1000"

lemmas flag_defs = NXWEB_INWORKER_def NXWEB_PARSE_PARAMETERS_def NXWEB_PARSE_COOKIES_def NXWEB_HANDLE_GET_def
  NXWEB_HANDLE_POST_def NXWEB_HANDLE_OTHER_def NXWEB_HANDLE_ANY_def NXWEB_ACCEPT_CONTENT_def NXWEB_HANDLE_MASK_def
  NXWEB_HOST_DEPENDENT_DIR_def

text \<open>What a filter keeps for one request; \<^verbatim>\<open>fcache\<close> belongs to the filter and is part of the world.\<close>

record nxweb_filter_data =
  fd_cache_key :: "string option"
  fd_bypass :: bool

record 'w hst =
  hs_handler :: "nat option"
  hs_handler_param :: nat
  hs_secure :: bool
  hs_uri :: string
  hs_path_info :: "string option"
  hs_host :: "string option"
  hs_if_modified_since :: int
  hs_get_method :: bool
  hs_post_method :: bool
  hs_other_method :: bool
  hs_content_length :: int
  hs_filter_data :: "nat \<Rightarrow> nxweb_filter_data option"
  hs_resp :: "string nxweb_http_response"
  hs_cache_key :: "string option"
  hs_run_filter_idx :: nat
  hs_conn :: cache_conn
  hs_nb :: nxb_buffer
  hs_cache :: nxweb_cache
  hs_events :: nxe_events
  hs_ob :: nxd_obuffer
  hs_fb :: nxd_fbuffer
  hs_closed :: "int list"
  hs_world :: 'w

type_synonym 'w handler_callback = "'w hst \<Rightarrow> (nxweb_result \<times> 'w hst) option"

text \<open>The number given to a filter's callback is its place: it stands for its data, \<^verbatim>\<open>filter_data[i]\<close>.\<close>

record 'w nxweb_filter =
  fl_init :: "('w hst \<Rightarrow> (nxweb_filter_data option \<times> 'w hst) option) option"
  fl_decode_uri :: "(nat \<Rightarrow> string \<Rightarrow> 'w hst \<Rightarrow> (string \<times> 'w hst) option) option"
  fl_translate_cache_key :: "(nat \<Rightarrow> string \<Rightarrow> 'w handler_callback) option"
  fl_serve_from_cache :: "(nat \<Rightarrow> int \<Rightarrow> 'w handler_callback) option"
  fl_do_filter :: "(nat \<Rightarrow> 'w handler_callback) option"
  fl_finalize :: "(nat \<Rightarrow> 'w hst \<Rightarrow> 'w hst option) option"

record 'w nxweb_handler =
  hn_prefix :: "string option"
  hn_prefix_len :: nat
  hn_vhost :: "string option"
  hn_vhost_len :: nat
  hn_priority :: int
  hn_flags :: nxweb_handler_flags
  hn_param :: nat
  hn_host :: "string option"
  hn_dir :: "string option"
  hn_charset :: "string option"
  hn_index_file :: "string option"
  hn_memcache :: bool
  hn_secure_only :: bool
  hn_insecure_only :: bool
  hn_next :: "nat option"
  hn_filters :: "'w nxweb_filter option list"
  hn_num_filters :: nat
  hn_on_generate_cache_key :: "'w handler_callback option"
  hn_on_select :: "'w handler_callback option"
  hn_on_headers :: "'w handler_callback option"
  hn_on_post_data :: "'w handler_callback option"
  hn_on_post_data_complete :: "'w handler_callback option"
  hn_on_request :: "'w handler_callback option"
  hn_on_complete :: "'w handler_callback option"
  hn_on_error :: "'w handler_callback option"

text \<open>
  What the routines are given by the rest of the server: the handlers, the protocol's method that starts the
  response, the time of the loop and its date, and what the caches need (see \<^verbatim>\<open>Nx_Cache\<close>).  \<open>e_load p n\<close> reads \<open>n\<close> bytes of memory,
  \<open>e_open\<close> opens a file.
\<close>

record 'w server_env =
  e_handler :: "nat \<Rightarrow> 'w nxweb_handler"
  e_default_handler :: nat
  e_start_sending_response :: "'w hst \<Rightarrow> 'w hst option"
  e_loop_time :: nat
  e_http_time :: int
  e_read_file :: "string \<Rightarrow> int \<Rightarrow> string option"
  e_open :: "string \<Rightarrow> 'w \<Rightarrow> int \<times> 'w"
  e_load :: "'w hst \<Rightarrow> nat \<Rightarrow> nat \<Rightarrow> string"
  e_version :: string
  e_malloc :: "nxweb_cache \<Rightarrow> nat option"
  e_table_room :: "nxweb_cache \<Rightarrow> bool"
  e_ob_data_out :: nat
  e_fb_data_out :: nat

section \<open>Registration\<close>

text \<open>
  Handlers and modules hang in chains ordered by priority.  \<open>after_le\<close> is the walk over the chain: the last member
  before the first one of higher priority.
\<close>

partial_function (option) after_le :: "(nat \<Rightarrow> int) \<Rightarrow> (nat \<Rightarrow> nat option) \<Rightarrow> int \<Rightarrow> nat \<Rightarrow> nat option" where
  "after_le prio nxt p h =
     (case nxt h of None \<Rightarrow> Some h
      | Some h' \<Rightarrow> if prio h' \<le> p then after_le prio nxt p h' else Some h)"

definition chain_register :: "(nat \<Rightarrow> int) \<Rightarrow> nat \<Rightarrow> nat option \<times> (nat \<Rightarrow> nat option) \<Rightarrow> (nat option \<times> (nat \<Rightarrow> nat option)) option" where
  "chain_register prio x = (\<lambda>(first, nxt).
     case first of None \<Rightarrow> Some (Some x, nxt(x := None))
     | Some h \<Rightarrow>
         if prio x < prio h then Some (Some x, nxt(x := Some h))
         else do {
           h \<leftarrow> after_le prio nxt (prio x) h;
           let nxt = nxt(x := nxt h);
           Some (first, nxt(h := Some x)) })"

definition or_base :: "'a option \<Rightarrow> 'a option \<Rightarrow> 'a option" where
  "or_base own base = (case own of None \<Rightarrow> base | Some x \<Rightarrow> Some x)"

definition inherit_from :: "'w nxweb_handler \<Rightarrow> 'w nxweb_handler \<Rightarrow> 'w nxweb_handler" where
  "inherit_from base h = h\<lparr>
     hn_on_generate_cache_key := or_base (hn_on_generate_cache_key h) (hn_on_generate_cache_key base),
     hn_on_select := or_base (hn_on_select h) (hn_on_select base),
     hn_on_headers := or_base (hn_on_headers h) (hn_on_headers base),
     hn_on_post_data := or_base (hn_on_post_data h) (hn_on_post_data base),
     hn_on_post_data_complete := or_base (hn_on_post_data_complete h) (hn_on_post_data_complete base),
     hn_on_request := or_base (hn_on_request h) (hn_on_request base),
     hn_on_complete := or_base (hn_on_complete h) (hn_on_complete base),
     hn_on_error := or_base (hn_on_error h) (hn_on_error base),
     hn_flags := (if hn_flags h = 0 then hn_flags base else hn_flags h)\<rparr>"

fun count_filters :: "nat \<Rightarrow> 'a option list \<Rightarrow> nat" where
  "count_filters 0 fs = 0"
| "count_filters (Suc n) (Some f # fs) = Suc (count_filters n fs)"
| "count_filters (Suc n) _ = 0"

text \<open>\<^verbatim>\<open>strstr(handler->dir, "{host}")\<close>: the place of the first occurrence.\<close>

fun strstr :: "string \<Rightarrow> string \<Rightarrow> nat option" where
  "strstr [] pat = (if pat = [] then Some 0 else None)"
| "strstr (c # s) pat = (if take (length pat) (c # s) = pat then Some 0 else map_option Suc (strstr s pat))"

definition HOST_PLACEHOLDER :: string where "HOST_PLACEHOLDER = ''{host}''"

definition opt_strlen :: "string option \<Rightarrow> nat" where
  "opt_strlen s = (case s of None \<Rightarrow> 0 | Some s \<Rightarrow> length s)"

definition host_dependent :: "'w nxweb_handler \<Rightarrow> bool" where
  "host_dependent h = (case hn_dir h of None \<Rightarrow> False | Some d \<Rightarrow> strstr d HOST_PLACEHOLDER \<noteq> None)"

text \<open>The fields filled in on registration; \<open>None\<close> is the end of the process, on a prefix without a slash.\<close>

definition prepare_handler :: "'w nxweb_handler option \<Rightarrow> 'w nxweb_handler \<Rightarrow> 'w nxweb_handler option" where
  "prepare_handler base h =
     (let h = h\<lparr>hn_prefix_len := opt_strlen (hn_prefix h)\<rparr> in
      if hn_prefix_len h \<noteq> 0 \<and> hd (the (hn_prefix h)) \<noteq> CHR ''/'' then None
      else let h = h\<lparr>hn_vhost_len := opt_strlen (hn_vhost h)\<rparr>;
               h = h\<lparr>hn_flags := (if host_dependent h then hn_flags h OR NXWEB_HOST_DEPENDENT_DIR
                                 else hn_flags h AND NOT NXWEB_HOST_DEPENDENT_DIR)\<rparr>;
               h = (case base of None \<Rightarrow> h | Some b \<Rightarrow> inherit_from b h)
           in Some (h\<lparr>hn_num_filters := count_filters NXWEB_MAX_FILTERS (hn_filters h)\<rparr>))"

record 'w server_config =
  sc_handler :: "nat \<Rightarrow> 'w nxweb_handler"
  sc_handler_list :: "nat option"
  sc_module_priority :: "nat \<Rightarrow> int"
  sc_module_next :: "nat \<Rightarrow> nat option"
  sc_module_list :: "nat option"

definition nxweb_register_module :: "nat \<Rightarrow> 'w server_config \<Rightarrow> 'w server_config option" where
  "nxweb_register_module m sc = do {
     (first, nxt) \<leftarrow> chain_register (sc_module_priority sc) m (sc_module_list sc, sc_module_next sc);
     Some (sc\<lparr>sc_module_list := first, sc_module_next := nxt\<rparr>) }"

definition set_nexts :: "(nat \<Rightarrow> nat option) \<Rightarrow> (nat \<Rightarrow> 'w nxweb_handler) \<Rightarrow> nat \<Rightarrow> 'w nxweb_handler" where
  "set_nexts nxt tab = (\<lambda>h. (tab h)\<lparr>hn_next := nxt h\<rparr>)"

definition nxweb_register_handler :: "nat \<Rightarrow> 'w nxweb_handler option \<Rightarrow> 'w server_config \<Rightarrow> 'w server_config option" where
  "nxweb_register_handler h base sc = do {
     hn \<leftarrow> prepare_handler base (sc_handler sc h);
     let tab = (sc_handler sc)(h := hn);
     (first, nxt) \<leftarrow> chain_register (\<lambda>x. hn_priority (tab x)) h (sc_handler_list sc, \<lambda>x. hn_next (tab x));
     Some (sc\<lparr>sc_handler := set_nexts nxt tab, sc_handler_list := first\<rparr>) }"

section \<open>The end of a response\<close>

text \<open>
  An unfinished stream in the arena becomes the content, unless there is content already
  (\<^verbatim>\<open>lib/nxd_http_server_proto.c\<close>).
\<close>

definition nxd_http_server_proto_finish_response :: "string nxweb_http_response \<times> nxb_buffer \<Rightarrow> string nxweb_http_response \<times> nxb_buffer" where
  "nxd_http_server_proto_finish_response = (\<lambda>(resp, nb).
     if snd (nxb_get_unfinished nb) \<noteq> 0 then
       (if rs_content resp = None \<and> rs_sendfile_path resp = None \<and> rs_sendfile_fd resp = 0
        then let (p, n, nb) = nxb_finish_stream nb in (resp\<lparr>rs_content := Some (Ptr p), rs_content_length := int n\<rparr>, nb)
        else (resp, nxb_unfinish_stream nb))
     else (resp, nb))"

definition hst_finish_response :: "'w hst \<Rightarrow> 'w hst" where
  "hst_finish_response s = (let (resp, nb) = nxd_http_server_proto_finish_response (hs_resp s, hs_nb s) in s\<lparr>hs_resp := resp, hs_nb := nb\<rparr>)"

definition content_bytes :: "'w server_env \<Rightarrow> cptr \<Rightarrow> nat \<Rightarrow> 'w hst \<Rightarrow> string" where
  "content_bytes env c n s = (case c of Lit str \<Rightarrow> str | Ptr p \<Rightarrow> e_load env s p n)"

definition file_content_out :: "'w server_env \<Rightarrow> 'w hst \<Rightarrow> 'w hst option" where
  "file_content_out env s =
     (if rs_sendfile_end (hs_resp s) - rs_sendfile_offset (hs_resp s) \<noteq> rs_content_length (hs_resp s) \<or> fb_fd (hs_fb s) \<noteq> 0 then None
      else do {
        (fb, st) \<leftarrow> nxd_fbuffer_init (e_fb_data_out env) (rs_sendfile_fd (hs_resp s)) (rs_sendfile_offset (hs_resp s)) (rs_sendfile_end (hs_resp s)) (hs_events s);
        Some (s\<lparr>hs_fb := fb, hs_events := st, hs_resp := (hs_resp s)\<lparr>rs_content_out := Some (e_fb_data_out env)\<rparr>\<rparr>) })"

definition nxd_http_server_proto_setup_content_out :: "'w server_env \<Rightarrow> 'w hst \<Rightarrow> 'w hst option" where
  "nxd_http_server_proto_setup_content_out env s =
     (if rs_content_out (hs_resp s) \<noteq> None then Some s
      else let s = hst_finish_response s; resp = hs_resp s in
        if rs_content resp \<noteq> None \<and> 0 < rs_content_length resp
        then let n = nat (rs_content_length resp);
                 (ob, st) = nxd_obuffer_init (e_ob_data_out env) (content_bytes env (the (rs_content resp)) n s) 0 n (hs_events s)
             in Some (s\<lparr>hs_ob := ob, hs_events := st, hs_resp := resp\<lparr>rs_content_out := Some (e_ob_data_out env)\<rparr>\<rparr>)
        else if rs_sendfile_fd resp \<noteq> 0 \<and> 0 < rs_content_length resp then file_content_out env s
        else if rs_sendfile_path resp \<noteq> None \<and> 0 < rs_content_length resp
        then let (fd, w) = e_open env (the (rs_sendfile_path resp)) (hs_world s);
                 s = s\<lparr>hs_world := w, hs_resp := resp\<lparr>rs_sendfile_fd := fd\<rparr>\<rparr>
             in if fd \<noteq> -1 then file_content_out env s else Some s
        else Some s)"

section \<open>Filters\<close>

text \<open>The filters of a handler with their places.\<close>

definition placed_filters :: "'w nxweb_handler \<Rightarrow> (nat \<times> 'w nxweb_filter) list" where
  "placed_filters h = enumerate 0 (map the (take (hn_num_filters h) (hn_filters h)))"

definition runs :: "nat \<Rightarrow> 'w hst \<Rightarrow> bool" where
  "runs i s = (case hs_filter_data s i of None \<Rightarrow> False | Some fd \<Rightarrow> \<not> fd_bypass fd)"

fun init_filters :: "(nat \<times> 'w nxweb_filter) list \<Rightarrow> 'w hst \<Rightarrow> 'w hst option" where
  "init_filters [] s = Some s"
| "init_filters ((i, f) # fs) s = do {
     ini \<leftarrow> fl_init f;
     (fd, s) \<leftarrow> ini s;
     init_filters fs (s\<lparr>hs_filter_data := (hs_filter_data s)(i := fd)\<rparr>) }"

fun decode_uris :: "(nat \<times> 'w nxweb_filter) list \<Rightarrow> string \<Rightarrow> 'w hst \<Rightarrow> (string \<times> 'w hst) option" where
  "decode_uris [] uri s = Some (uri, s)"
| "decode_uris ((i, f) # fs) uri s =
     (case (if runs i s then fl_decode_uri f else None) of
        None \<Rightarrow> decode_uris fs uri s
      | Some decode \<Rightarrow> do { (uri, s) \<leftarrow> decode i uri s; decode_uris fs uri s })"

fun translate_cache_keys :: "(nat \<times> 'w nxweb_filter) list \<Rightarrow> string \<Rightarrow> 'w hst \<Rightarrow> (string \<times> 'w hst) option" where
  "translate_cache_keys [] key s = Some (key, s)"
| "translate_cache_keys ((i, f) # fs) key s =
     (case (if runs i s then fl_translate_cache_key f else None) of
        None \<Rightarrow> translate_cache_keys fs key s
      | Some tr \<Rightarrow> do {
          (r, s) \<leftarrow> tr i key s;
          (if r = NXWEB_NEXT then translate_cache_keys fs key s
           else do {
             fd \<leftarrow> hs_filter_data s i;
             key \<leftarrow> fd_cache_key fd;
             (if key = [] then None else translate_cache_keys fs key s) }) })"

text \<open>Running filters over a response; the flag tells that one of them delayed it.\<close>

fun run_filters :: "(nat \<times> 'w nxweb_filter) list \<Rightarrow> 'w hst \<Rightarrow> (bool \<times> 'w hst) option" where
  "run_filters [] s = Some (False, s)"
| "run_filters ((i, f) # fs) s =
     (case (if runs i s then fl_do_filter f else None) of
        None \<Rightarrow> run_filters fs s
      | Some flt \<Rightarrow> do {
          (r, s) \<leftarrow> flt i s;
          (if r = NXWEB_DELAY then Some (True, s\<lparr>hs_run_filter_idx := i + 1\<rparr>) else run_filters fs s) })"

fun finalize_filters :: "(nat \<times> 'w nxweb_filter) list \<Rightarrow> 'w hst \<Rightarrow> 'w hst option" where
  "finalize_filters [] s = Some s"
| "finalize_filters ((i, f) # fs) s = do {
     s \<leftarrow> (case (if hs_filter_data s i \<noteq> None then fl_finalize f else None) of None \<Rightarrow> Some s | Some fin \<Rightarrow> fin i s);
     finalize_filters fs (s\<lparr>hs_filter_data := (hs_filter_data s)(i := None)\<rparr>) }"

section \<open>Sending\<close>

text \<open>The key of a response may be null, which the cache only finds out when it has something to store.\<close>

definition cache_store :: "'w server_env \<Rightarrow> 'w hst \<Rightarrow> 'w hst option" where
  "cache_store env s =
     (case hs_cache_key s of
        None \<Rightarrow>
          let resp = (if rs_status_code (hs_resp s) = 0 then (hs_resp s)\<lparr>rs_status_code := 200\<rparr> else hs_resp s)
          in if cacheable resp (hs_cache s) then None else Some (s\<lparr>hs_resp := resp\<rparr>)
      | Some key \<Rightarrow> do {
          ((_, conn, resp, c), nb) \<leftarrow> nxweb_cache_store_response (e_read_file env) (e_version env) (e_loop_time env) (e_malloc env (hs_cache s))
             (e_table_room env (hs_cache s)) key (hs_conn s) (hs_resp s) (hs_nb s) (hs_cache s);
          Some (s\<lparr>hs_conn := conn, hs_resp := resp, hs_nb := nb, hs_cache := c\<rparr>) })"

definition handler_of :: "'w server_env \<Rightarrow> 'w hst \<Rightarrow> 'w nxweb_handler option" where
  "handler_of env s = map_option (e_handler env) (hs_handler s)"

definition store_and_send :: "'w server_env \<Rightarrow> bool \<Rightarrow> 'w hst \<Rightarrow> 'w hst option" where
  "store_and_send env memcache s = do {
     s \<leftarrow> (if memcache then cache_store env s else Some s);
     e_start_sending_response env s }"

definition nxweb_start_sending_response :: "'w server_env \<Rightarrow> 'w hst \<Rightarrow> 'w hst option" where
  "nxweb_start_sending_response env s = do {
     s \<leftarrow> nxd_http_server_proto_setup_content_out env s;
     (case handler_of env s of
        None \<Rightarrow> e_start_sending_response env s
      | Some h \<Rightarrow> do {
          (delayed, s) \<leftarrow> run_filters (drop (hs_run_filter_idx s) (placed_filters h)) s;
          (if delayed then Some s
           else store_and_send env (case handler_of env s of None \<Rightarrow> False | Some h \<Rightarrow> hn_memcache h) s) }) }"

section \<open>Selecting a handler\<close>

text \<open>The caches; the result \<open>None\<close> inside is that none of them answers, and the handler runs.\<close>

definition filter_serves :: "'w server_env \<Rightarrow> 'w nxweb_handler \<Rightarrow> nat \<Rightarrow> 'w hst \<Rightarrow> 'w hst option" where
  "filter_serves env h i s = do {
     (delayed, s) \<leftarrow> run_filters (drop (i + 1) (placed_filters h)) s;
     (if delayed then Some s else store_and_send env (hn_memcache h) s) }"

fun serve_from_filters :: "'w server_env \<Rightarrow> 'w nxweb_handler \<Rightarrow> int \<Rightarrow> (nat \<times> 'w nxweb_filter) list \<Rightarrow> 'w hst
    \<Rightarrow> (nxweb_result option \<times> 'w hst) option" where
  "serve_from_filters env h check_time [] s = Some (None, s)"
| "serve_from_filters env h check_time ((i, f) # fs) s =
     (case (if runs i s then fl_serve_from_cache f else None) of
        None \<Rightarrow> serve_from_filters env h check_time fs s
      | Some serve \<Rightarrow> do {
          (r, s) \<leftarrow> serve i check_time s;
          (if r = NXWEB_OK then map_option (\<lambda>s. (Some NXWEB_OK, s)) (filter_serves env h i s)
           else serve_from_filters env h check_time fs s) })"

definition try_memcache :: "'w server_env \<Rightarrow> 'w nxweb_handler \<Rightarrow> string \<Rightarrow> 'w hst \<Rightarrow> (nxweb_result option \<times> 'w hst) option" where
  "try_memcache env h key s =
     (if \<not> hn_memcache h then Some (None, s)
      else do {
        (res, conn, resp, c) \<leftarrow> nxweb_cache_try (e_loop_time env) key (hs_if_modified_since s) 0 (hs_conn s) (hs_resp s) (hs_cache s);
        let s = s\<lparr>hs_conn := conn, hs_resp := resp, hs_cache := c\<rparr>;
        (if res = NXWEB_OK then map_option (\<lambda>s. (Some NXWEB_OK, s)) (e_start_sending_response env s)
         else if res = NXWEB_REVALIDATE \<or> res = NXWEB_MISS then Some (None, s)
         else Some (Some res, s)) })"

definition not_modified :: "'w hst \<Rightarrow> bool" where
  "not_modified s \<longleftrightarrow> rs_last_modified (hs_resp s) \<noteq> 0 \<and> hs_if_modified_since s \<noteq> 0
     \<and> rs_last_modified (hs_resp s) \<le> hs_if_modified_since s"

definition try_filters :: "'w server_env \<Rightarrow> 'w nxweb_handler \<Rightarrow> 'w hst \<Rightarrow> (nxweb_result option \<times> 'w hst) option" where
  "try_filters env h s =
     (if not_modified s
      then map_option (\<lambda>s. (Some NXWEB_OK, s))
             (e_start_sending_response env (s\<lparr>hs_resp := (hs_resp s)\<lparr>rs_status_code := 304, rs_status := Some ''Not Modified''\<rparr>\<rparr>))
      else serve_from_filters env h (if rs_last_modified (hs_resp s) \<noteq> 0 then rs_last_modified (hs_resp s) else e_http_time env)
             (rev (placed_filters h)) s)"

definition try_caches :: "'w server_env \<Rightarrow> 'w nxweb_handler \<Rightarrow> 'w hst \<Rightarrow> (nxweb_result option \<times> 'w hst) option" where
  "try_caches env h s =
     (case (if hs_get_method s \<and> hs_content_length s = 0 then hn_on_generate_cache_key h else None) of
        None \<Rightarrow> Some (None, s)
      | Some generate \<Rightarrow> do {
          (r, s) \<leftarrow> generate s;
          (if r = NXWEB_NEXT then Some (Some NXWEB_NEXT, s)
           else case hs_cache_key s of
             None \<Rightarrow> Some (None, s)
           | Some key \<Rightarrow>
               if key = [] then Some (None, s)
               else do {
                 (key, s) \<leftarrow> translate_cache_keys (placed_filters h) key s;
                 let s = s\<lparr>hs_cache_key := Some key\<rparr>;
                 (res, s) \<leftarrow> try_memcache env h key s;
                 (if res \<noteq> None then Some (res, s) else try_filters env h s) }) })"

text \<open>A handler that does not take the request leaves no trace: the fields it may have set are set back.\<close>

definition reset_response :: "string nxweb_http_response \<Rightarrow> string nxweb_http_response" where
  "reset_response resp = resp\<lparr>rs_last_modified := 0, rs_mtype := None, rs_content_type := None, rs_content_charset := None,
     rs_sendfile_path := None, rs_sendfile_fd := 0,
     rs_sendfile_info := (if st_ino (rs_sendfile_info resp) \<noteq> 0 then \<lparr>st_ino = 0, st_mode = 0, st_size = 0, st_mtime = 0\<rparr> else rs_sendfile_info resp)\<rparr>"

definition undo_select :: "string \<Rightarrow> int \<Rightarrow> 'w hst \<Rightarrow> 'w hst" where
  "undo_select uri ims s = s\<lparr>hs_uri := uri, hs_if_modified_since := ims, hs_handler := None, hs_handler_param := 0, hs_cache_key := None,
     hs_resp := reset_response (hs_resp s),
     hs_closed := (if 0 < rs_sendfile_fd (hs_resp s) then [rs_sendfile_fd (hs_resp s)] else []) @ hs_closed s\<rparr>"

definition set_path_info :: "nat \<Rightarrow> 'w hst \<Rightarrow> 'w hst option" where
  "set_path_info prefix_len s =
     (if prefix_len \<le> length (hs_uri s) then Some (s\<lparr>hs_path_info := Some (drop prefix_len (hs_uri s))\<rparr>) else None)"

definition start_filters :: "'w nxweb_handler \<Rightarrow> 'w hst \<Rightarrow> 'w hst option" where
  "start_filters h s = do {
     s \<leftarrow> init_filters (placed_filters h) s;
     (uri, s) \<leftarrow> decode_uris (rev (placed_filters h)) (hs_uri s) s;
     Some (s\<lparr>hs_uri := uri\<rparr>) }"

definition call_on_select :: "'w nxweb_handler \<Rightarrow> string \<Rightarrow> int \<Rightarrow> 'w hst \<Rightarrow> (nxweb_result \<times> 'w hst) option" where
  "call_on_select h uri ims s = do {
     (r, s) \<leftarrow> (case hn_on_select h of None \<Rightarrow> Some (NXWEB_OK, s) | Some sel \<Rightarrow> sel s);
     (if r = NXWEB_OK then Some (r, s)
      else map_option (\<lambda>s. (r, undo_select uri ims s)) (finalize_filters (placed_filters h) s)) }"

definition nxweb_select_handler :: "'w server_env \<Rightarrow> nat \<Rightarrow> nat \<Rightarrow> 'w hst \<Rightarrow> (nxweb_result \<times> 'w hst) option" where
  "nxweb_select_handler env handler handler_param s =
     (let h = e_handler env handler; uri = hs_uri s; ims = hs_if_modified_since s in do {
        s \<leftarrow> start_filters h (s\<lparr>hs_handler := Some handler, hs_handler_param := handler_param\<rparr>);
        s \<leftarrow> set_path_info (hn_prefix_len h) s;
        (res, s) \<leftarrow> try_caches env h s;
        (case res of Some r \<Rightarrow> Some (r, s) | None \<Rightarrow> call_on_select h uri ims s) })"

section \<open>Dispatching\<close>

definition is_method_allowed :: "'w hst \<Rightarrow> nxweb_handler_flags \<Rightarrow> bool" where
  "is_method_allowed s flags =
     (if flags AND NXWEB_HANDLE_MASK = 0 then True
      else if hs_get_method s then flags AND NXWEB_HANDLE_GET \<noteq> 0
      else if hs_post_method s then flags AND NXWEB_HANDLE_POST \<noteq> 0
      else if hs_other_method s then flags AND NXWEB_HANDLE_OTHER \<noteq> 0
      else False)"

definition host_name :: "string option \<Rightarrow> string" where
  "host_name host = (case host of None \<Rightarrow> [] | Some h \<Rightarrow> takeWhile (\<lambda>c. c \<noteq> CHR '':'') h)"

text \<open>The tests of the loop, on the uri and host of the request as it came.\<close>

definition handler_matches :: "'w nxweb_handler \<Rightarrow> string \<Rightarrow> string \<Rightarrow> 'w hst \<Rightarrow> bool option" where
  "handler_matches h uri host s =
     (if \<not> (hs_secure s \<and> \<not> hn_insecure_only h \<or> \<not> hs_secure s \<and> \<not> hn_secure_only h) then Some False
      else if \<not> is_method_allowed s (hn_flags h) then Some False
      else do {
        v \<leftarrow> (if hn_vhost_len h = 0 then Some True else if host = [] then Some False else nxweb_vhost_match host (the (hn_vhost h)));
        (if \<not> v then Some False
         else if hn_prefix_len h = 0 then Some True
         else nxweb_url_prefix_match uri (the (hn_prefix h))) })"

definition dispatch_default :: "'w server_env \<Rightarrow> 'w hst \<Rightarrow> (nxweb_result \<times> 'w hst) option" where
  "dispatch_default env s = do {
     (_, s) \<leftarrow> nxweb_select_handler env (e_default_handler env) 0 (s\<lparr>hs_path_info := None\<rparr>);
     Some (NXWEB_OK, s) }"

definition refuse_request :: "'w server_env \<Rightarrow> 'w hst \<Rightarrow> (nxweb_result \<times> 'w hst) option" where
  "refuse_request env s = do {
     let s = (if hs_content_length s \<noteq> 0 then s\<lparr>hs_resp := (hs_resp s)\<lparr>rs_keep_alive := False\<rparr>\<rparr> else s);
     s \<leftarrow> nxweb_start_sending_response env s;
     Some (NXWEB_ERROR, s) }"

partial_function (option) dispatch_loop :: "'w server_env \<Rightarrow> string \<Rightarrow> string \<Rightarrow> nat option \<Rightarrow> 'w hst \<Rightarrow> (nxweb_result \<times> 'w hst) option" where
  "dispatch_loop env uri host h s =
     (case h of None \<Rightarrow> dispatch_default env s
      | Some h \<Rightarrow> do {
          m \<leftarrow> handler_matches (e_handler env h) uri host s;
          (if \<not> m then dispatch_loop env uri host (hn_next (e_handler env h)) s
           else do {
             (res, s) \<leftarrow> nxweb_select_handler env h (hn_param (e_handler env h)) s;
             (if res = NXWEB_NEXT then dispatch_loop env uri host (hn_next (e_handler env h)) s
              else if res = NXWEB_ERROR then refuse_request env s
              else if res \<noteq> NXWEB_OK then dispatch_default env s
              else Some (NXWEB_OK, s)) }) })"

definition nxweb_default_request_dispatcher :: "'w server_env \<Rightarrow> nat option \<Rightarrow> 'w hst \<Rightarrow> (nxweb_result \<times> 'w hst) option" where
  "nxweb_default_request_dispatcher env handler_list s = dispatch_loop env (hs_uri s) (host_name (hs_host s)) handler_list s"

section \<open>Registration keeps the handlers in order\<close>

text \<open>The new member goes behind all members of its priority and before the ones of higher priority.\<close>

fun insert_prio :: "('a \<Rightarrow> int) \<Rightarrow> 'a \<Rightarrow> 'a list \<Rightarrow> 'a list" where
  "insert_prio prio x [] = [x]"
| "insert_prio prio x (y # ys) = (if prio x < prio y then x # y # ys else y # insert_prio prio x ys)"

lemma set_insert_prio [simp]: "set (insert_prio prio x ys) = insert x (set ys)"
  by (induction ys) auto

lemma insert_prio_cong: "\<forall>y \<in> set (x # ys). f y = g y \<Longrightarrow> insert_prio f x ys = insert_prio g x ys"
  by (induction ys) auto

lemma insert_prio_sort:
  "insert_prio prio x (sort_key prio ys) = sort_key prio (ys @ [x])"
proof -
  have "insert_prio prio x (insort_key prio y zs) = insort_key prio y (insert_prio prio x zs)" if "sorted (map prio zs)" for y zs
    using that by (induction zs) auto
  then show ?thesis by (induction ys) auto
qed

lemma after_le_run:
  "distinct (h # ys) \<Longrightarrow> chain nxt (h # ys) None \<Longrightarrow> prio h \<le> p \<Longrightarrow> sorted (map prio (h # ys))
    \<Longrightarrow> \<exists>as b bs. h # ys = as @ b # bs \<and> after_le prio nxt p h = Some b \<and> (\<forall>z \<in> set (as @ [b]). prio z \<le> p) \<and> (\<forall>z \<in> set bs. p < prio z)"
proof (induction ys arbitrary: h)
  case Nil
  then show ?case by (intro exI [of _ "[]"] exI [of _ h]) (simp add: after_le.simps)
next
  case (Cons y ys)
  then have n: "nxt h = Some y" by simp
  show ?case
  proof (cases "prio y \<le> p")
    case True
    have "distinct (y # ys)" "chain nxt (y # ys) None" "sorted (map prio (y # ys))" using Cons.prems by simp_all
    with True Cons.IH [of y] obtain as b bs where "y # ys = as @ b # bs" "after_le prio nxt p y = Some b"
      "\<forall>z \<in> set (as @ [b]). prio z \<le> p" "\<forall>z \<in> set bs. p < prio z" by blast
    then show ?thesis using Cons.prems(3) n True by (intro exI [of _ "h # as"] exI [of _ b] exI [of _ bs]) (simp add: after_le.simps [of _ _ _ h])
  next
    case False
    then show ?thesis using Cons.prems n by (intro exI [of _ "[]"] exI [of _ h] exI [of _ "y # ys"]) (auto simp: after_le.simps [of _ _ _ h])
  qed
qed

lemma insert_prio_split:
  "\<forall>z \<in> set as. prio z \<le> prio x \<Longrightarrow> \<forall>z \<in> set bs. prio x < prio z \<Longrightarrow> insert_prio prio x (as @ bs) = as @ x # bs"
  by (induction as) (auto, cases bs, auto)

lemma chain_register_run:
  assumes "distinct (x # xs)" "chain nxt xs None" "sorted (map prio xs)"
  shows "\<exists>nxt'. chain_register prio x (head_or xs None, nxt) = Some (head_or (insert_prio prio x xs) None, nxt')
    \<and> chain nxt' (insert_prio prio x xs) None \<and> (\<forall>h. h \<notin> set (x # xs) \<longrightarrow> nxt' h = nxt h)"
proof (cases xs)
  case Nil
  then show ?thesis by (simp add: chain_register_def)
next
  case (Cons y ys)
  show ?thesis
  proof (cases "prio x < prio y")
    case True
    then show ?thesis using Cons assms by (simp add: chain_register_def)
  next
    case False
    then obtain as b bs where s: "y # ys = as @ b # bs" "after_le prio nxt (prio x) y = Some b"
        "\<forall>z \<in> set (as @ [b]). prio z \<le> prio x" "\<forall>z \<in> set bs. prio x < prio z"
      using after_le_run [of y ys nxt prio "prio x"] Cons assms by auto
    have ins: "insert_prio prio x xs = as @ b # x # bs"
      using insert_prio_split [of "as @ [b]" prio x bs] s(3,4) by (simp add: Cons s(1))
    have "chain_register prio x (head_or xs None, nxt) = Some (head_or xs None, nxt(x := nxt b, b := Some x))"
      using False s(2) assms(1) by (simp add: chain_register_def Cons)
    moreover have xs: "xs = as @ b # bs" using Cons s(1) by simp
    moreover have "head_or xs None = head_or (insert_prio prio x xs) None" unfolding ins by (simp add: xs)
    moreover have "chain (nxt(x := nxt b, b := Some x)) (insert_prio prio x xs) None"
      unfolding ins using assms(1,2) by (auto simp: xs)
    moreover have "b \<in> set xs" by (simp add: xs)
    ultimately show ?thesis by (intro exI [of _ "nxt(x := nxt b, b := Some x)"]) auto
  qed
qed

fun register_handlers :: "(nat \<times> 'w nxweb_handler option) list \<Rightarrow> 'w server_config \<Rightarrow> 'w server_config option" where
  "register_handlers [] sc = Some sc"
| "register_handlers ((h, base) # hs) sc = Option.bind (nxweb_register_handler h base sc) (register_handlers hs)"

definition prefix_ok :: "'w nxweb_handler \<Rightarrow> bool" where
  "prefix_ok h = (case hn_prefix h of None \<Rightarrow> True | Some p \<Rightarrow> p = [] \<or> hd p = CHR ''/'')"

text \<open>The list of the handlers: \<open>hs\<close> in their order.\<close>

definition routing_list :: "'w server_config \<Rightarrow> nat list \<Rightarrow> bool" where
  "routing_list sc hs \<longleftrightarrow> distinct hs \<and> sc_handler_list sc = head_or hs None \<and> chain (\<lambda>h. hn_next (sc_handler sc h)) hs None"

text \<open>A handler without its link.\<close>

definition unlinked :: "'w nxweb_handler \<Rightarrow> 'w nxweb_handler" where
  "unlinked h = h\<lparr>hn_next := None\<rparr>"

lemma unlinked_simps [simp]:
  "hn_priority (unlinked h) = hn_priority h" "prefix_ok (unlinked h) = prefix_ok h" "unlinked (unlinked h) = unlinked h"
  by (simp_all add: unlinked_def prefix_ok_def)

lemma prepare_handler_unlinked: "prepare_handler base (unlinked h) = map_option unlinked (prepare_handler base h)"
  by (cases base) (simp_all add: unlinked_def prepare_handler_def Let_def inherit_from_def host_dependent_def)

lemma unlinked_eqD:
  assumes "unlinked a = unlinked b"
  shows "hn_priority a = hn_priority b" "prefix_ok a = prefix_ok b"
  using arg_cong [OF assms, of hn_priority] arg_cong [OF assms, of prefix_ok] by simp_all

lemma prepare_handler_ok:
  "prefix_ok h \<Longrightarrow> \<exists>h'. prepare_handler base h = Some h' \<and> hn_priority h' = hn_priority h \<and> hn_prefix h' = hn_prefix h \<and> hn_prefix_len h' = opt_strlen (hn_prefix h)
     \<and> hn_vhost h' = hn_vhost h \<and> hn_vhost_len h' = opt_strlen (hn_vhost h)"
  by (auto simp: prepare_handler_def prefix_ok_def Let_def opt_strlen_def inherit_from_def split: option.splits)

lemma register_handler_run:
  assumes "routing_list sc hs" "sorted (map (\<lambda>h. hn_priority (sc_handler sc h)) hs)" "x \<notin> set hs" "prefix_ok (sc_handler sc x)"
  shows "\<exists>sc' hn. nxweb_register_handler x base sc = Some sc' \<and> prepare_handler base (sc_handler sc x) = Some hn
    \<and> routing_list sc' (insert_prio (\<lambda>h. hn_priority (sc_handler sc h)) x hs)
    \<and> (\<forall>h. h \<noteq> x \<longrightarrow> unlinked (sc_handler sc' h) = unlinked (sc_handler sc h)) \<and> unlinked (sc_handler sc' x) = unlinked hn"
proof -
  let ?p = "\<lambda>h. hn_priority (sc_handler sc h)"
  obtain hn where hn: "prepare_handler base (sc_handler sc x) = Some hn" "hn_priority hn = ?p x"
    using prepare_handler_ok [OF assms(4)] by blast
  define tab where "tab = (sc_handler sc)(x := hn)"
  have p: "(\<lambda>h. hn_priority (tab h)) = ?p" using hn(2) by (auto simp: tab_def)
  have "chain (\<lambda>h. hn_next (tab h)) hs None = chain (\<lambda>h. hn_next (sc_handler sc h)) hs None"
    using assms(3) by (intro chain_cong) (auto simp: tab_def)
  then have "chain (\<lambda>h. hn_next (tab h)) hs None" using assms(1) by (simp add: routing_list_def)
  moreover have "distinct (x # hs)" using assms(1,3) by (simp add: routing_list_def)
  ultimately obtain nxt where n: "chain_register ?p x (head_or hs None, \<lambda>h. hn_next (tab h)) = Some (head_or (insert_prio ?p x hs) None, nxt)"
    "chain nxt (insert_prio ?p x hs) None"
    using chain_register_run assms(2) by blast
  have "distinct (insert_prio ?p x hs)" using \<open>distinct (x # hs)\<close> by (induction hs) auto
  define sc' where "sc' = sc\<lparr>sc_handler := set_nexts nxt tab, sc_handler_list := head_or (insert_prio ?p x hs) None\<rparr>"
  have "routing_list sc' (insert_prio ?p x hs)"
    using n(2) \<open>distinct (insert_prio ?p x hs)\<close> by (simp add: routing_list_def set_nexts_def sc'_def)
  moreover have "nxweb_register_handler x base sc = Some sc'"
    using assms(1) n(1) unfolding nxweb_register_handler_def hn(1) Option.bind_lunit Let_def tab_def [symmetric] p
    by (simp add: routing_list_def sc'_def)
  moreover have "sc_handler sc' = set_nexts nxt tab" by (simp add: sc'_def)
  ultimately show ?thesis using hn by (intro exI [of _ sc'] exI [of _ hn]) (simp add: set_nexts_def tab_def unlinked_def)
qed

lemma register_handlers_append: "register_handlers (hs @ gs) sc = Option.bind (register_handlers hs sc) (register_handlers gs)"
proof (induction hs arbitrary: sc)
  case (Cons a hs)
  then show ?case by (cases a) (simp split: option.splits bind_splits)
qed simp

text \<open>After registering: the given handlers as prepared, all others as they were.\<close>

definition registered :: "(nat \<times> 'w nxweb_handler option) list \<Rightarrow> 'w server_config \<Rightarrow> 'w server_config \<Rightarrow> bool" where
  "registered hs sc sc' \<longleftrightarrow>
     routing_list sc' (sort_key (\<lambda>h. hn_priority (sc_handler sc h)) (map fst hs))
     \<and> (\<forall>(h, base) \<in> set hs. map_option unlinked (prepare_handler base (sc_handler sc h)) = Some (unlinked (sc_handler sc' h)))
     \<and> (\<forall>h. h \<notin> fst ` set hs \<longrightarrow> unlinked (sc_handler sc' h) = unlinked (sc_handler sc h))"

lemma registered_priority:
  assumes "registered hs sc sc'" "\<forall>(h, base) \<in> set hs. prefix_ok (sc_handler sc h)"
  shows "hn_priority (sc_handler sc' h) = hn_priority (sc_handler sc h)"
proof (cases "h \<in> fst ` set hs")
  case True
  then obtain base where b: "(h, base) \<in> set hs" by auto
  then have "prefix_ok (sc_handler sc h)" using assms(2) by auto
  then obtain hn where "prepare_handler base (sc_handler sc h) = Some hn" "hn_priority hn = hn_priority (sc_handler sc h)"
    using prepare_handler_ok by blast
  moreover have "map_option unlinked (prepare_handler base (sc_handler sc h)) = Some (unlinked (sc_handler sc' h))"
    using b assms(1) by (auto simp: registered_def)
  ultimately show ?thesis using unlinked_eqD(1) by fastforce
next
  case False
  then have "unlinked (sc_handler sc' h) = unlinked (sc_handler sc h)" using assms(1) by (simp add: registered_def)
  then show ?thesis by (rule unlinked_eqD)
qed

text \<open>The lengths kept beside the strings of a handler.\<close>

definition sized_handler :: "'w nxweb_handler \<Rightarrow> bool" where
  "sized_handler h \<longleftrightarrow> hn_prefix_len h = opt_strlen (hn_prefix h) \<and> hn_vhost_len h = opt_strlen (hn_vhost h)"

lemma registered_sized:
  assumes "registered hs sc sc'" "\<forall>(h, base) \<in> set hs. prefix_ok (sc_handler sc h)" "h \<in> fst ` set hs"
  shows "sized_handler (sc_handler sc' h)"
proof -
  from assms(3) obtain base where b: "(h, base) \<in> set hs" by auto
  then have "prefix_ok (sc_handler sc h)" using assms(2) by auto
  then obtain hn where hn: "prepare_handler base (sc_handler sc h) = Some hn" "sized_handler hn"
    using prepare_handler_ok [of "sc_handler sc h" base] by (auto simp: sized_handler_def)
  have "map_option unlinked (prepare_handler base (sc_handler sc h)) = Some (unlinked (sc_handler sc' h))"
    using b assms(1) by (auto simp: registered_def)
  then have "unlinked hn = unlinked (sc_handler sc' h)" using hn(1) by simp
  from arg_cong [OF this, of sized_handler] hn(2) show ?thesis by (simp add: unlinked_def sized_handler_def)
qed

lemma register_handlers_run:
  "distinct (map fst hs) \<Longrightarrow> sc_handler_list sc = None \<Longrightarrow> \<forall>(h, base) \<in> set hs. prefix_ok (sc_handler sc h)
    \<Longrightarrow> \<exists>sc'. register_handlers hs sc = Some sc' \<and> registered hs sc sc'"
proof (induction hs rule: rev_induct)
  case Nil
  then show ?case by (simp add: registered_def routing_list_def)
next
  case (snoc a hs)
  obtain x base where a: "a = (x, base)" by (cases a)
  from snoc obtain sc1 where s1: "register_handlers hs sc = Some sc1" "registered hs sc sc1" by auto
  have x: "x \<notin> fst ` set hs" "prefix_ok (sc_handler sc x)" using snoc.prems by (auto simp: a)
  define L where "L = sort_key (\<lambda>h. hn_priority (sc_handler sc h)) (map fst hs)"
  have pr: "(\<lambda>h. hn_priority (sc_handler sc1 h)) = (\<lambda>h. hn_priority (sc_handler sc h))"
    using registered_priority [OF s1(2)] snoc.prems(3) by auto
  have x1: "unlinked (sc_handler sc1 x) = unlinked (sc_handler sc x)" using s1(2) x(1) by (simp add: registered_def)
  have "prefix_ok (sc_handler sc1 x)" using unlinked_eqD(2) [OF x1] x(2) by simp
  moreover have "routing_list sc1 L" "sorted (map (\<lambda>h. hn_priority (sc_handler sc1 h)) L)" "x \<notin> set L"
    using s1(2) x(1) by (simp_all add: registered_def L_def pr)
  ultimately obtain sc2 hn where s2: "nxweb_register_handler x base sc1 = Some sc2" "prepare_handler base (sc_handler sc1 x) = Some hn"
    "routing_list sc2 (insert_prio (\<lambda>h. hn_priority (sc_handler sc h)) x L)"
    "\<forall>h. h \<noteq> x \<longrightarrow> unlinked (sc_handler sc2 h) = unlinked (sc_handler sc1 h)" "unlinked (sc_handler sc2 x) = unlinked hn"
    using register_handler_run [of sc1 L x base] unfolding pr by blast
  have "insert_prio (\<lambda>h. hn_priority (sc_handler sc h)) x L = sort_key (\<lambda>h. hn_priority (sc_handler sc h)) (map fst (hs @ [a]))"
    by (simp only: L_def insert_prio_sort) (simp add: a)
  then have r: "routing_list sc2 (sort_key (\<lambda>h. hn_priority (sc_handler sc h)) (map fst (hs @ [a])))" using s2(3) by (simp only:)
  have hx: "map_option unlinked (prepare_handler base (sc_handler sc x)) = Some (unlinked (sc_handler sc2 x))"
    using prepare_handler_unlinked [of base "sc_handler sc1 x"] prepare_handler_unlinked [of base "sc_handler sc x"] by (simp add: x1 s2(2,5))
  have old: "map_option unlinked (prepare_handler b (sc_handler sc h)) = Some (unlinked (sc_handler sc2 h))" if "(h, b) \<in> set hs" for h b
  proof -
    have "h \<noteq> x" using that x(1) by force
    then show ?thesis using that s1(2) s2(4) by (auto simp: registered_def)
  qed
  have "registered (hs @ [a]) sc sc2"
    unfolding registered_def using r hx old s1(2) s2(4) by (auto simp: a registered_def)
  then show ?case using s1(1) s2(1) by (simp add: register_handlers_append a)
qed

section \<open>Handlers that pass a request on\<close>

text \<open>
  What the callbacks of a handler may do to the request: its address and \<^verbatim>\<open>if_modified_since\<close> may change (the code sets them back),
  the rest of it and the presence of filter data may not.
\<close>

definition keeps_request :: "'w hst \<Rightarrow> 'w hst \<Rightarrow> bool" where
  "keeps_request s s' \<longleftrightarrow> hs_secure s' = hs_secure s \<and> hs_host s' = hs_host s \<and> hs_get_method s' = hs_get_method s
     \<and> hs_post_method s' = hs_post_method s \<and> hs_other_method s' = hs_other_method s \<and> hs_content_length s' = hs_content_length s"

definition same_slots :: "'w hst \<Rightarrow> 'w hst \<Rightarrow> bool" where
  "same_slots s s' \<longleftrightarrow> (\<forall>i. hs_filter_data s' i = None \<longleftrightarrow> hs_filter_data s i = None)"

definition polite :: "'w hst \<Rightarrow> 'w hst \<Rightarrow> bool" where
  "polite s s' \<longleftrightarrow> keeps_request s s' \<and> same_slots s s'"

definition polite_filter :: "'w nxweb_filter \<Rightarrow> bool" where
  "polite_filter f \<longleftrightarrow>
     (\<forall>g s fd s'. fl_init f = Some g \<longrightarrow> g s = Some (fd, s') \<longrightarrow> polite s s')
     \<and> (\<forall>g i uri s uri' s'. fl_decode_uri f = Some g \<longrightarrow> g i uri s = Some (uri', s') \<longrightarrow> polite s s')
     \<and> (\<forall>g i key s r s'. fl_translate_cache_key f = Some g \<longrightarrow> g i key s = Some (r, s') \<longrightarrow> polite s s')
     \<and> (\<forall>g i t s r s'. fl_serve_from_cache f = Some g \<longrightarrow> g i t s = Some (r, s') \<longrightarrow> polite s s')
     \<and> (\<forall>g i s s'. fl_finalize f = Some g \<longrightarrow> g i s = Some s' \<longrightarrow> polite s s')"

text \<open>A request as the parser delivers it, before any handler saw it.\<close>

definition fresh_request :: "'w hst \<Rightarrow> bool" where
  "fresh_request s \<longleftrightarrow> hs_cache_key s = None \<and> (\<forall>i. hs_filter_data s i = None) \<and> reset_response (hs_resp s) = hs_resp s"

text \<open>
  A handler that refuses in \<^verbatim>\<open>on_generate_cache_key\<close> is not undone, so it must have changed nothing and must have no filters.
\<close>

definition polite_handler :: "'w nxweb_handler \<Rightarrow> bool" where
  "polite_handler h \<longleftrightarrow> (\<forall>(i, f) \<in> set (placed_filters h). polite_filter f)
     \<and> (\<forall>g s r s'. hn_on_generate_cache_key h = Some g \<longrightarrow> g s = Some (r, s') \<longrightarrow> polite s s'
          \<and> (r = NXWEB_NEXT \<longrightarrow> placed_filters h = [] \<and> hs_uri s' = hs_uri s \<and> hs_if_modified_since s' = hs_if_modified_since s
               \<and> hs_cache_key s' = hs_cache_key s \<and> hs_resp s' = hs_resp s))
     \<and> (\<forall>g s r s'. hn_on_select h = Some g \<longrightarrow> g s = Some (r, s') \<longrightarrow> r \<noteq> NXWEB_OK \<longrightarrow> polite s s')"

text \<open>The state in which the next handler is tried if this one passes the request on.\<close>

definition same_request :: "'w hst \<Rightarrow> 'w hst \<Rightarrow> bool" where
  "same_request s s' \<longleftrightarrow> keeps_request s s' \<and> hs_uri s' = hs_uri s \<and> hs_if_modified_since s' = hs_if_modified_since s"

lemma polite_refl [simp]: "polite s s"
  by (simp add: polite_def keeps_request_def same_slots_def)

lemma polite_trans: "polite s t \<Longrightarrow> polite t u \<Longrightarrow> polite s u"
  by (simp add: polite_def keeps_request_def same_slots_def)

lemma keeps_request_trans: "keeps_request s t \<Longrightarrow> keeps_request t u \<Longrightarrow> keeps_request s u"
  by (simp add: keeps_request_def)

lemma polite_updates [simp]:
  "polite s (t\<lparr>hs_uri := u\<rparr>) = polite s t" "polite s (t\<lparr>hs_cache_key := k\<rparr>) = polite s t" "polite s (t\<lparr>hs_path_info := p\<rparr>) = polite s t"
  "polite s (t\<lparr>hs_conn := cn, hs_resp := rsp, hs_cache := c\<rparr>) = polite s t"
  by (simp_all add: polite_def keeps_request_def same_slots_def)

lemma init_filters_keeps:
  "init_filters fs s = Some s' \<Longrightarrow> \<forall>(i, f) \<in> set fs. polite_filter f
    \<Longrightarrow> keeps_request s s' \<and> (\<forall>i. i \<notin> fst ` set fs \<longrightarrow> (hs_filter_data s' i = None) = (hs_filter_data s i = None))"
proof (induction fs arbitrary: s)
  case Nil
  then show ?case by (simp add: keeps_request_def)
next
  case (Cons a fs)
  obtain i f where a: "a = (i, f)" by (cases a)
  from Cons.prems(1) obtain ini fd t where t: "fl_init f = Some ini" "ini s = Some (fd, t)"
      "init_filters fs (t\<lparr>hs_filter_data := (hs_filter_data t)(i := fd)\<rparr>) = Some s'"
    by (auto simp: a split: bind_splits)
  have "polite s t" using Cons.prems(2) t(1,2) unfolding a polite_filter_def by (auto simp del: polite_updates)
  moreover have "keeps_request (t\<lparr>hs_filter_data := (hs_filter_data t)(i := fd)\<rparr>) s'
      \<and> (\<forall>j. j \<notin> fst ` set fs \<longrightarrow> (hs_filter_data s' j = None) = (((hs_filter_data t)(i := fd)) j = None))"
    using Cons.IH [OF t(3)] Cons.prems(2) by simp
  ultimately show ?case by (auto simp: a polite_def keeps_request_def same_slots_def)
qed

lemma decode_uris_polite:
  "decode_uris fs uri s = Some (uri', s') \<Longrightarrow> \<forall>(i, f) \<in> set fs. polite_filter f \<Longrightarrow> polite s s'"
proof (induction fs arbitrary: uri s)
  case (Cons a fs)
  obtain i f where a: "a = (i, f)" by (cases a)
  show ?case
  proof (cases "if runs i s then fl_decode_uri f else None")
    case None
    then show ?thesis using Cons by (simp add: a)
  next
    case (Some g)
    with Cons.prems(1) obtain u t where t: "g i uri s = Some (u, t)" "decode_uris fs u t = Some (uri', s')"
      by (auto simp: a split: bind_splits)
    have "fl_decode_uri f = Some g" using Some by (auto split: if_splits)
    then have "polite s t" using Cons.prems(2) t(1) unfolding a polite_filter_def by auto
    moreover have "polite t s'" using Cons.IH [OF t(2)] Cons.prems(2) by simp
    ultimately show ?thesis by (rule polite_trans)
  qed
qed simp

lemma translate_cache_keys_polite:
  "translate_cache_keys fs key s = Some (key', s') \<Longrightarrow> \<forall>(i, f) \<in> set fs. polite_filter f \<Longrightarrow> polite s s'"
proof (induction fs arbitrary: key s)
  case (Cons a fs)
  obtain i f where a: "a = (i, f)" by (cases a)
  show ?case
  proof (cases "if runs i s then fl_translate_cache_key f else None")
    case None
    then show ?thesis using Cons by (simp add: a)
  next
    case (Some g)
    with Cons.prems(1) obtain r t key1 where t: "g i key s = Some (r, t)" "translate_cache_keys fs key1 t = Some (key', s')"
      by (auto simp: a split: bind_splits if_splits)
    have "fl_translate_cache_key f = Some g" using Some by (auto split: if_splits)
    then have "polite s t" using Cons.prems(2) t(1) unfolding a polite_filter_def by auto
    moreover have "polite t s'" using Cons.IH [OF t(2)] Cons.prems(2) by simp
    ultimately show ?thesis by (rule polite_trans)
  qed
qed simp

lemma serve_from_filters_polite:
  "serve_from_filters env h t fs s = Some (res, s') \<Longrightarrow> \<forall>(i, f) \<in> set fs. polite_filter f
    \<Longrightarrow> res = Some NXWEB_OK \<or> res = None \<and> polite s s'"
proof (induction fs arbitrary: s)
  case (Cons a fs)
  obtain i f where a: "a = (i, f)" by (cases a)
  show ?case
  proof (cases "if runs i s then fl_serve_from_cache f else None")
    case None
    then show ?thesis using Cons by (simp add: a)
  next
    case (Some g)
    with Cons.prems(1) obtain r u where u: "g i t s = Some (r, u)" "r = NXWEB_OK \<and> res = Some NXWEB_OK \<or> serve_from_filters env h t fs u = Some (res, s')"
      by (auto simp: a split: bind_splits if_splits)
    have "fl_serve_from_cache f = Some g" using Some by (auto split: if_splits)
    then have "polite s u" using Cons.prems(2) u(1) unfolding a polite_filter_def by auto
    moreover have "serve_from_filters env h t fs u = Some (res, s') \<Longrightarrow> res = Some NXWEB_OK \<or> res = None \<and> polite u s'"
      using Cons.IH Cons.prems(2) by simp
    ultimately show ?thesis using u(2) polite_trans by blast
  qed
qed simp

lemma finalize_filters_keeps:
  "finalize_filters fs s = Some s' \<Longrightarrow> \<forall>(i, f) \<in> set fs. polite_filter f
    \<Longrightarrow> keeps_request s s' \<and> (\<forall>i. hs_filter_data s' i = None \<longleftrightarrow> i \<in> fst ` set fs \<or> hs_filter_data s i = None)"
proof (induction fs arbitrary: s)
  case Nil
  then show ?case by (simp add: keeps_request_def)
next
  case (Cons a fs)
  obtain i f where a: "a = (i, f)" by (cases a)
  from Cons.prems(1) obtain t where t: "(case (if hs_filter_data s i \<noteq> None then fl_finalize f else None) of None \<Rightarrow> Some s | Some fin \<Rightarrow> fin i s) = Some t"
      "finalize_filters fs (t\<lparr>hs_filter_data := (hs_filter_data t)(i := None)\<rparr>) = Some s'"
    by (auto simp: a split: bind_splits)
  have "polite s t" using Cons.prems(2) t(1) unfolding a polite_filter_def by (auto split: option.splits if_splits)
  moreover have "keeps_request (t\<lparr>hs_filter_data := (hs_filter_data t)(i := None)\<rparr>) s'
      \<and> (\<forall>j. hs_filter_data s' j = None \<longleftrightarrow> j \<in> fst ` set fs \<or> ((hs_filter_data t)(i := None)) j = None)"
    using Cons.IH [OF t(2)] Cons.prems(2) by simp
  ultimately show ?case by (auto simp: a polite_def keeps_request_def same_slots_def)
qed

lemma cache_try_results:
  "nxweb_cache_try t key ims rm conn resp c = Some (res, x) \<Longrightarrow> res \<in> {NXWEB_OK, NXWEB_MISS, NXWEB_REVALIDATE}"
  by (auto simp: nxweb_cache_try_def cache_hit_def Let_def split: if_splits option.splits bind_splits)

lemma try_memcache_polite:
  assumes "try_memcache env h key s = Some (res, s')"
  shows "res = Some NXWEB_OK \<or> res = None \<and> polite s s'"
proof (cases "hn_memcache h")
  case True
  with assms obtain r conn resp c where c: "nxweb_cache_try (e_loop_time env) key (hs_if_modified_since s) 0 (hs_conn s) (hs_resp s) (hs_cache s) = Some (r, conn, resp, c)"
    by (auto simp: try_memcache_def split: bind_splits)
  from cache_try_results [OF c] assms True c show ?thesis by (auto simp: try_memcache_def)
next
  case False
  then show ?thesis using assms by (simp add: try_memcache_def)
qed

lemma try_caches_polite:
  assumes "try_caches env h s = Some (res, s')" "polite_handler h"
  shows "case res of None \<Rightarrow> polite s s'
    | Some r \<Rightarrow> r = NXWEB_NEXT \<longrightarrow> polite s s' \<and> placed_filters h = [] \<and> hs_uri s' = hs_uri s \<and> hs_if_modified_since s' = hs_if_modified_since s
        \<and> hs_cache_key s' = hs_cache_key s \<and> hs_resp s' = hs_resp s"
proof (cases "if hs_get_method s \<and> hs_content_length s = 0 then hn_on_generate_cache_key h else None")
  case None
  then show ?thesis using assms(1) by (simp add: try_caches_def)
next
  case (Some g)
  then have g: "hn_on_generate_cache_key h = Some g" by (auto split: if_splits)
  have fs: "\<forall>(i, f) \<in> set (placed_filters h). polite_filter f" using assms(2) by (simp add: polite_handler_def)
  from assms(1) Some obtain r t where t: "g s = Some (r, t)" by (auto simp: try_caches_def split: bind_splits)
  have "polite s t \<and> (r = NXWEB_NEXT \<longrightarrow> placed_filters h = [] \<and> hs_uri t = hs_uri s \<and> hs_if_modified_since t = hs_if_modified_since s
      \<and> hs_cache_key t = hs_cache_key s \<and> hs_resp t = hs_resp s)"
    using assms(2) g t unfolding polite_handler_def by blast
  then have pt: "polite s t" and nx: "r = NXWEB_NEXT \<Longrightarrow> placed_filters h = [] \<and> hs_uri t = hs_uri s \<and> hs_if_modified_since t = hs_if_modified_since s
      \<and> hs_cache_key t = hs_cache_key s \<and> hs_resp t = hs_resp s" by blast+
  consider "r = NXWEB_NEXT" "res = Some NXWEB_NEXT" "s' = t" | "res = None" "s' = t"
    | key where "r \<noteq> NXWEB_NEXT" "hs_cache_key t = Some key" "key \<noteq> []"
    using assms(1) Some t by (auto simp: try_caches_def split: if_splits option.splits)
  then show ?thesis
  proof cases
    case 3
    with assms(1) Some t obtain key' u res1 v where u: "translate_cache_keys (placed_filters h) key t = Some (key', u)"
        "try_memcache env h key' (u\<lparr>hs_cache_key := Some key'\<rparr>) = Some (res1, v)"
        "if res1 \<noteq> None then res = res1 \<and> s' = v else try_filters env h v = Some (res, s')"
      by (auto simp: try_caches_def split: bind_splits if_splits)
    have "polite t u" by (rule translate_cache_keys_polite [OF u(1) fs])
    then have pu: "polite s u" using pt by (blast intro: polite_trans)
    show ?thesis
    proof (cases res1)
      case None
      then have "polite s v" using try_memcache_polite [OF u(2)] pu polite_trans [of s "u\<lparr>hs_cache_key := Some key'\<rparr>" v] by simp
      moreover have "res = Some NXWEB_OK \<or> res = None \<and> polite v s'"
      proof (cases "not_modified v")
        case True
        then show ?thesis using u(3) None by (auto simp: try_filters_def)
      next
        case False
        then show ?thesis using u(3) None serve_from_filters_polite [of env h _ "rev (placed_filters h)" v res s'] fs by (simp add: try_filters_def)
      qed
      ultimately show ?thesis by (auto intro: polite_trans)
    next
      case (Some r')
      then show ?thesis using try_memcache_polite [OF u(2)] u(3) by auto
    qed
  qed (use pt nx in auto)
qed

lemma call_on_select_passes_on:
  assumes "call_on_select h uri ims s = Some (r, s')" "r \<noteq> NXWEB_OK" "polite_handler h"
    and "\<And>i. i \<notin> fst ` set (placed_filters h) \<Longrightarrow> hs_filter_data s i = None"
  shows "keeps_request s s' \<and> hs_uri s' = uri \<and> hs_if_modified_since s' = ims \<and> fresh_request s'"
proof -
  from assms(1,2) obtain g t u where t: "hn_on_select h = Some g" "g s = Some (r, t)"
      "finalize_filters (placed_filters h) t = Some u" "s' = undo_select uri ims u"
    by (auto simp: call_on_select_def bind_eq_Some_conv split: option.splits if_splits)
  have "polite s t" using assms(2,3) t(1,2) unfolding polite_handler_def by blast
  moreover have "keeps_request t u \<and> (\<forall>i. hs_filter_data u i = None \<longleftrightarrow> i \<in> fst ` set (placed_filters h) \<or> hs_filter_data t i = None)"
    using finalize_filters_keeps [OF t(3)] assms(3) by (simp add: polite_handler_def)
  ultimately have "keeps_request s u" "\<forall>i. hs_filter_data u i = None"
    using assms(4) by (auto simp: polite_def same_slots_def intro: keeps_request_trans)
  then show ?thesis by (simp add: t(4) undo_select_def fresh_request_def reset_response_def keeps_request_def)
qed

lemma select_passes_on:
  assumes "nxweb_select_handler env handler p s = Some (NXWEB_NEXT, s')" "polite_handler (e_handler env handler)" "fresh_request s"
  shows "same_request s s' \<and> fresh_request s'"
proof -
  define h where "h = e_handler env handler"
  define s0 where "s0 = s\<lparr>hs_handler := Some handler, hs_handler_param := p\<rparr>"
  have fs: "\<forall>(i, f) \<in> set (placed_filters h). polite_filter f" using assms(2) by (simp add: polite_handler_def h_def)
  obtain s1 u s2 s3 res s4 where
      s1: "init_filters (placed_filters h) s0 = Some s1" and
      s2: "decode_uris (rev (placed_filters h)) (hs_uri s1) s1 = Some (u, s2)" and
      s3: "set_path_info (hn_prefix_len h) (s2\<lparr>hs_uri := u\<rparr>) = Some s3" and
      s4: "try_caches env h s3 = Some (res, s4)" and
      rest: "(case res of Some r \<Rightarrow> Some (r, s4) | None \<Rightarrow> call_on_select h (hs_uri s) (hs_if_modified_since s) s4) = Some (NXWEB_NEXT, s')"
    using assms(1) [unfolded nxweb_select_handler_def Let_def start_filters_def, folded h_def s0_def]
    by (auto simp: bind_eq_Some_conv)
  have k1: "keeps_request s s1" "\<And>i. i \<notin> fst ` set (placed_filters h) \<Longrightarrow> hs_filter_data s1 i = None"
    using init_filters_keeps [OF s1 fs] assms(3) by (auto simp: fresh_request_def s0_def keeps_request_def)
  have "polite s1 s2" using decode_uris_polite [OF s2] fs by simp
  moreover have "polite s2 s3" using s3 by (auto simp: set_path_info_def split: if_splits)
  ultimately have p3: "polite s1 s3" by (rule polite_trans)
  show ?thesis
  proof (cases res)
    case (Some r)
    then have r: "res = Some NXWEB_NEXT" "s4 = s'" using rest by simp_all
    with try_caches_polite [OF s4] assms(2) have n: "polite s3 s'" "placed_filters h = []" "hs_uri s' = hs_uri s3"
        "hs_if_modified_since s' = hs_if_modified_since s3" "hs_cache_key s' = hs_cache_key s3" "hs_resp s' = hs_resp s3"
      by (simp_all add: h_def)
    obtain pi where "s3 = s0\<lparr>hs_path_info := pi\<rparr>" using s1 s2 s3 n(2) by (auto simp: set_path_info_def split: if_splits)
    then show ?thesis using n assms(3) by (simp add: s0_def same_request_def fresh_request_def polite_def keeps_request_def same_slots_def)
  next
    case None
    then have "polite s3 s4" using try_caches_polite [OF s4] assms(2) by (simp add: h_def)
    with p3 have "polite s1 s4" by (rule polite_trans)
    then have "keeps_request s s4" "\<And>i. i \<notin> fst ` set (placed_filters h) \<Longrightarrow> hs_filter_data s4 i = None"
      using k1 by (auto simp: polite_def same_slots_def intro: keeps_request_trans)
    moreover from this(2) have "keeps_request s4 s' \<and> hs_uri s' = hs_uri s \<and> hs_if_modified_since s' = hs_if_modified_since s \<and> fresh_request s'"
      using call_on_select_passes_on [of h "hs_uri s" "hs_if_modified_since s" s4 NXWEB_NEXT s'] rest None assms(2) by (simp add: h_def)
    ultimately show ?thesis by (auto simp: same_request_def intro: keeps_request_trans)
  qed
qed

section \<open>Dispatch\<close>

text \<open>
  The reference: the handlers that match the request as it was received are tried in their order, and each is given the request as it
  was received.
\<close>

definition put_back :: "'w hst \<Rightarrow> 'w hst \<Rightarrow> 'w hst" where
  "put_back s0 s = s\<lparr>hs_secure := hs_secure s0, hs_uri := hs_uri s0, hs_host := hs_host s0, hs_if_modified_since := hs_if_modified_since s0,
     hs_get_method := hs_get_method s0, hs_post_method := hs_post_method s0, hs_other_method := hs_other_method s0,
     hs_content_length := hs_content_length s0, hs_filter_data := (\<lambda>_. None), hs_cache_key := None, hs_resp := reset_response (hs_resp s)\<rparr>"

fun dispatch_ref :: "'w server_env \<Rightarrow> 'w hst \<Rightarrow> nat list \<Rightarrow> 'w hst \<Rightarrow> (nxweb_result \<times> 'w hst) option" where
  "dispatch_ref env s0 [] s = dispatch_default env s"
| "dispatch_ref env s0 (h # hs) s = do {
     (res, s) \<leftarrow> nxweb_select_handler env h (hn_param (e_handler env h)) (put_back s0 s);
     (if res = NXWEB_NEXT then dispatch_ref env s0 hs s
      else if res = NXWEB_ERROR then refuse_request env s
      else if res \<noteq> NXWEB_OK then dispatch_default env s
      else Some (NXWEB_OK, s)) }"

text \<open>
  Which handlers want a request, as their declarations mean it.  Bits 4, 5 and 6 of the flags ask for GET, POST and the other methods; a handler
  with none of them takes every method.  A virtual host that starts with a dot stands for the name behind the dot and every name below it.  A prefix
  ends at the end of the address, a slash, a question mark or a semicolon; of a prefix of one character only the length counts, since prefixes start with a slash.
\<close>

definition method_wanted :: "nxweb_handler_flags \<Rightarrow> 'w hst \<Rightarrow> bool" where
  "method_wanted flags s \<longleftrightarrow>
     \<not> bit flags 4 \<and> \<not> bit flags 5 \<and> \<not> bit flags 6
     \<or> hs_get_method s \<and> bit flags 4
     \<or> \<not> hs_get_method s \<and> hs_post_method s \<and> bit flags 5
     \<or> \<not> hs_get_method s \<and> \<not> hs_post_method s \<and> hs_other_method s \<and> bit flags 6"

definition vhost_wanted :: "string \<Rightarrow> string \<Rightarrow> bool" where
  "vhost_wanted vhost host \<longleftrightarrow> vhost = []
     \<or> host \<noteq> [] \<and> (if hd vhost = CHR ''.'' then \<exists>sub. CHR ''.'' # host = sub @ vhost else host = vhost)"

definition prefix_wanted :: "string \<Rightarrow> string \<Rightarrow> bool" where
  "prefix_wanted pre uri \<longleftrightarrow> pre = []
     \<or> (\<exists>p rest. uri = p @ rest \<and> (p = pre \<or> length p = 1 \<and> length pre = 1) \<and> (rest = [] \<or> hd rest \<in> {CHR ''/'', CHR ''?'', CHR '';''}))"

definition wanted :: "'w server_env \<Rightarrow> 'w hst \<Rightarrow> nat \<Rightarrow> bool" where
  "wanted env s n \<longleftrightarrow> (let h = e_handler env n in
     (if hs_secure s then \<not> hn_insecure_only h else \<not> hn_secure_only h)
     \<and> method_wanted (hn_flags h) s
     \<and> (case hn_vhost h of None \<Rightarrow> True | Some v \<Rightarrow> vhost_wanted v (host_name (hs_host s)))
     \<and> (case hn_prefix h of None \<Rightarrow> True | Some p \<Rightarrow> prefix_wanted p (hs_uri s)))"

lemma is_method_allowed_iff: "is_method_allowed s flags = method_wanted flags s"
proof -
  have p: "(0x10 :: nxweb_handler_flags) = 2 ^ 4" "(0x20 :: nxweb_handler_flags) = 2 ^ 5" "(0x40 :: nxweb_handler_flags) = 2 ^ 6" by simp_all
  have m: "(0x70 :: nxweb_handler_flags) = 0x10 OR 0x20 OR 0x40" by simp
  have "flags AND 0x10 = 0 \<longleftrightarrow> \<not> bit flags 4" "flags AND 0x20 = 0 \<longleftrightarrow> \<not> bit flags 5" "flags AND 0x40 = 0 \<longleftrightarrow> \<not> bit flags 6"
    unfolding p by (simp_all only: and_exp_eq_0_iff_not_bit)
  moreover from this have "flags AND 0x70 = 0 \<longleftrightarrow> \<not> bit flags 4 \<and> \<not> bit flags 5 \<and> \<not> bit flags 6"
    unfolding m by (simp only: bit.conj_disj_distrib or_eq_0_iff)
  ultimately show ?thesis by (auto simp: is_method_allowed_def method_wanted_def flag_defs)
qed

lemma vhost_match_iff:
  assumes "vhost \<noteq> []" "host \<noteq> []"
  shows "nxweb_vhost_match host vhost = Some (vhost_wanted vhost host)"
proof -
  obtain c v where v: "vhost = c # v" using assms(1) by (cases vhost) auto
  have sub: "(\<exists>sub. CHR ''.'' # host = sub @ vhost) \<longleftrightarrow> length vhost \<le> length host + 1 \<and> drop (length host + 1 - length vhost) (CHR ''.'' # host) = vhost"
  proof
    assume "length vhost \<le> length host + 1 \<and> drop (length host + 1 - length vhost) (CHR ''.'' # host) = vhost"
    then have "CHR ''.'' # host = take (length host + 1 - length vhost) (CHR ''.'' # host) @ vhost" by (metis append_take_drop_id)
    then show "\<exists>sub. CHR ''.'' # host = sub @ vhost" by blast
  next
    assume "\<exists>sub. CHR ''.'' # host = sub @ vhost"
    then obtain sub where s: "CHR ''.'' # host = sub @ vhost" by blast
    from arg_cong [OF s, of length] have "length host + 1 - length vhost = length sub" "length vhost \<le> length host + 1" by simp_all
    then show "length vhost \<le> length host + 1 \<and> drop (length host + 1 - length vhost) (CHR ''.'' # host) = vhost" by (simp add: s)
  qed
  have d: "drop (length host + 1 - length vhost) (CHR ''.'' # host) = drop (length host - length vhost) host" if "length vhost \<le> length host"
    using that by (simp add: Suc_diff_le)
  have "at0 vhost 0 = Some (hd vhost)" by (simp add: at0_def rd_def v)
  then show ?thesis unfolding nxweb_vhost_match_def vhost_wanted_def sub using assms d v
    by (cases "length vhost = length host + 1"; cases "length vhost \<le> length host") auto
qed

lemma prefix_match_iff:
  assumes "pre \<noteq> []" "NUL \<notin> set uri"
  shows "nxweb_url_prefix_match uri pre = Some (prefix_wanted pre uri)"
proof (cases "length uri < length pre")
  case True
  then have "\<not> prefix_wanted pre uri" using assms(1) by (auto simp: prefix_wanted_def)
  then show ?thesis using True by (simp add: nxweb_url_prefix_match_def)
next
  case False
  define p rest where "p = take (length pre) uri" and "rest = drop (length pre) uri"
  have uri: "uri = p @ rest" "length p = length pre" using False by (simp_all add: p_def rest_def)
  have spec: "prefix_wanted pre uri \<longleftrightarrow> (p = pre \<or> length pre = 1) \<and> (rest = [] \<or> hd rest \<in> {CHR ''/'', CHR ''?'', CHR '';''})"
  proof
    assume "prefix_wanted pre uri"
    then show "(p = pre \<or> length pre = 1) \<and> (rest = [] \<or> hd rest \<in> {CHR ''/'', CHR ''?'', CHR '';''})"
      using assms(1) uri by (auto simp: prefix_wanted_def append_eq_append_conv)
  next
    assume "(p = pre \<or> length pre = 1) \<and> (rest = [] \<or> hd rest \<in> {CHR ''/'', CHR ''?'', CHR '';''})"
    then show "prefix_wanted pre uri" unfolding prefix_wanted_def using uri by (intro disjI2 exI [of _ p] exI [of _ rest]) auto
  qed
  obtain e where e: "at0 uri (length pre) = Some e" "e \<in> {NUL, CHR ''/'', CHR ''?'', CHR '';''} \<longleftrightarrow> rest = [] \<or> hd rest \<in> {CHR ''/'', CHR ''?'', CHR '';''}"
  proof (cases rest)
    case Nil
    then show ?thesis using that [of NUL] uri by (simp add: at0_def rd_def nth_append)
  next
    case (Cons c r)
    then have "c \<noteq> NUL" using assms(2) uri by auto
    then show ?thesis using that [of c] uri Cons by (simp add: at0_def rd_def nth_append)
  qed
  have take: "take (length pre) uri = pre \<longleftrightarrow> p = pre" by (simp add: p_def)
  show ?thesis
  proof (cases "length pre = 1")
    case True
    then show ?thesis using e False spec by (auto simp: nxweb_url_prefix_match_def)
  next
    case big: False
    then have l: "1 < length pre" using assms(1) by (cases pre) auto
    have "at0 uri 1 = Some (p ! 1)" "at0 pre 1 = Some (pre ! 1)" using l uri assms(1) by (auto simp: at0_def rd_def nth_append)
    then show ?thesis using e False big spec take by (auto simp: nxweb_url_prefix_match_def)
  qed
qed

text \<open>The tests of the loop decide just this.\<close>

lemma handler_matches_iff:
  assumes "sized_handler (e_handler env n)" "NUL \<notin> set (hs_uri s)"
  shows "handler_matches (e_handler env n) (hs_uri s) (host_name (hs_host s)) s = Some (wanted env s n)"
proof -
  let ?h = "e_handler env n" let ?host = "host_name (hs_host s)"
  have v: "(if hn_vhost_len ?h = 0 then Some True else if ?host = [] then Some False else nxweb_vhost_match ?host (the (hn_vhost ?h)))
      = Some (case hn_vhost ?h of None \<Rightarrow> True | Some v \<Rightarrow> vhost_wanted v ?host)"
    using assms(1) vhost_match_iff [of "the (hn_vhost ?h)" ?host]
    by (auto simp: sized_handler_def opt_strlen_def vhost_wanted_def split: option.split)
  have p: "(if hn_prefix_len ?h = 0 then Some True else nxweb_url_prefix_match (hs_uri s) (the (hn_prefix ?h)))
      = Some (case hn_prefix ?h of None \<Rightarrow> True | Some p \<Rightarrow> prefix_wanted p (hs_uri s))"
    using assms prefix_match_iff [of "the (hn_prefix ?h)" "hs_uri s"]
    by (auto simp: sized_handler_def opt_strlen_def prefix_wanted_def split: option.split)
  show ?thesis unfolding handler_matches_def v p wanted_def Let_def is_method_allowed_iff by (auto split: if_split)
qed

lemma put_back_id: "same_request s0 s \<Longrightarrow> fresh_request s \<Longrightarrow> put_back s0 s = s"
proof -
  assume "same_request s0 s" "fresh_request s"
  moreover from this(2) have "hs_filter_data s = (\<lambda>_. None)" by (auto simp: fresh_request_def)
  ultimately show ?thesis by (simp add: put_back_def same_request_def keeps_request_def fresh_request_def)
qed

lemma handler_matches_cong: "keeps_request s t \<Longrightarrow> handler_matches h uri host t = handler_matches h uri host s"
  by (simp add: handler_matches_def is_method_allowed_def keeps_request_def)

text \<open>The contract of the handlers in the routing list.\<close>

locale routes =
  fixes env :: "'w server_env" and hs :: "nat list"
  assumes linked: "chain (\<lambda>h. hn_next (e_handler env h)) hs None"
    and polite: "h \<in> set hs \<Longrightarrow> polite_handler (e_handler env h)"
    and sized: "h \<in> set hs \<Longrightarrow> sized_handler (e_handler env h)"
begin

lemma dispatch_loop_refines:
  assumes "chain (\<lambda>h. hn_next (e_handler env h)) gs None" "set gs \<subseteq> set hs" "same_request s0 s" "fresh_request s" "NUL \<notin> set (hs_uri s0)"
  shows "dispatch_loop env (hs_uri s0) (host_name (hs_host s0)) (head_or gs None) s = dispatch_ref env s0 (filter (wanted env s0) gs) s"
  using assms
proof (induction gs arbitrary: s)
  case Nil
  then show ?case by (simp add: dispatch_loop.simps)
next
  case (Cons g gs)
  have nxt: "hn_next (e_handler env g) = head_or gs None" and g: "g \<in> set hs" using Cons.prems by simp_all
  have "keeps_request s0 s" using Cons.prems(3) by (simp add: same_request_def)
  then have m: "handler_matches (e_handler env g) (hs_uri s0) (host_name (hs_host s0)) s = Some (wanted env s0 g)"
    using handler_matches_iff [OF sized [OF g] Cons.prems(5)] by (simp add: handler_matches_cong)
  have IH: "dispatch_loop env (hs_uri s0) (host_name (hs_host s0)) (head_or gs None) t = dispatch_ref env s0 (filter (wanted env s0) gs) t"
    if "same_request s0 t" "fresh_request t" for t
    using Cons.IH Cons.prems that by simp
  show ?case
  proof (cases "wanted env s0 g")
    case False
    then show ?thesis using IH [OF Cons.prems(3,4)] by (simp add: dispatch_loop.simps [of _ _ _ "Some g"] m nxt)
  next
    case True
    have pb: "put_back s0 s = s" by (rule put_back_id [OF Cons.prems(3,4)])
    show ?thesis
    proof (cases "nxweb_select_handler env g (hn_param (e_handler env g)) s")
      case None
      then show ?thesis using True by (simp add: dispatch_loop.simps [of _ _ _ "Some g"] m pb)
    next
      case (Some x)
      obtain r t where x: "x = (r, t)" by (cases x)
      have "same_request s0 t \<and> fresh_request t" if "r = NXWEB_NEXT"
        using select_passes_on [of env g _ s t] Some x that polite [OF g] Cons.prems(3,4) by (auto simp: same_request_def keeps_request_def)
      then show ?thesis using True Some IH by (simp add: dispatch_loop.simps [of _ _ _ "Some g"] m pb x nxt)
    qed
  qed
qed

lemma dispatcher_refines:
  "fresh_request s \<Longrightarrow> NUL \<notin> set (hs_uri s) \<Longrightarrow> nxweb_default_request_dispatcher env (head_or hs None) s = dispatch_ref env s (filter (wanted env s) hs) s"
  unfolding nxweb_default_request_dispatcher_def
  by (rule dispatch_loop_refines) (simp_all add: linked same_request_def keeps_request_def)

end

section \<open>Properties\<close>

text \<open>A handler and a request with all fields zero, and a server around them.\<close>

definition handler_zero :: "'w nxweb_handler" where
  "handler_zero = \<lparr>hn_prefix = None, hn_prefix_len = 0, hn_vhost = None, hn_vhost_len = 0, hn_priority = 0, hn_flags = 0, hn_param = 0,
     hn_host = None, hn_dir = None, hn_charset = None, hn_index_file = None, hn_memcache = False, hn_secure_only = False,
     hn_insecure_only = False, hn_next = None, hn_filters = [], hn_num_filters = 0, hn_on_generate_cache_key = None, hn_on_select = None,
     hn_on_headers = None, hn_on_post_data = None, hn_on_post_data_complete = None, hn_on_request = None, hn_on_complete = None,
     hn_on_error = None\<rparr>"

definition request_for :: "string \<Rightarrow> unit hst" where
  "request_for uri = \<lparr>hs_handler = None, hs_handler_param = 0, hs_secure = False, hs_uri = uri, hs_path_info = None, hs_host = None,
     hs_if_modified_since = 0, hs_get_method = True, hs_post_method = False, hs_other_method = False, hs_content_length = 0,
     hs_filter_data = (\<lambda>_. None), hs_resp = response_zero, hs_cache_key = None, hs_run_filter_idx = 0,
     hs_conn = \<lparr>cc_req_data = None, cc_req_finalize = False\<rparr>, hs_nb = fresh_nxb, hs_cache = cache_init, hs_events = fresh_loop,
     hs_ob = \<lparr>ob_data_out = 0, ob_mem = [], ob_data_ptr = 0, ob_data_size = 0\<rparr>,
     hs_fb = \<lparr>fb_data_out = 0, fb_fd = 0, fb_offset = 0, fb_end = 0\<rparr>, hs_closed = [], hs_world = ()\<rparr>"

definition plain_env :: "(nat \<Rightarrow> unit nxweb_handler) \<Rightarrow> unit server_env" where
  "plain_env tab = \<lparr>e_handler = tab, e_default_handler = 0, e_start_sending_response = Some, e_loop_time = 0, e_http_time = 0,
     e_read_file = (\<lambda>_ _. None), e_open = (\<lambda>_ w. (-1, w)), e_load = (\<lambda>_ _ _. []), e_version = [], e_malloc = (\<lambda>_. None),
     e_table_room = (\<lambda>_. False), e_ob_data_out = 0, e_fb_data_out = 1\<rparr>"

lemma fresh_request_for: "fresh_request (request_for uri)"
  by (simp add: fresh_request_def request_for_def reset_response_def response_zero_def)

text \<open>
  C16: Handlers registered in any order are asked in the order of their priorities, those of equal priority in the order of
  registration, exactly the ones whose kind of connection, methods, virtual host and prefix are those of the request; and each is asked about the
  request as it was received, even if an earlier one whose \<^verbatim>\<open>on_select\<close> passed it on had changed its address, its response or its filters' data.
  The handlers are \<open>polite\<close>: they leave the method, host and length of a request alone; and one that passes it on already in
  \<^verbatim>\<open>on_generate_cache_key\<close>, where the code does not set its changes back, has no filters and changed nothing.
\<close>

theorem dispatch_in_priority_order:
  assumes "distinct (map fst hs)" "sc_handler_list sc = None" "\<forall>(h, base) \<in> set hs. prefix_ok (sc_handler sc h)"
  shows "\<exists>sc'. register_handlers hs sc = Some sc'
    \<and> (\<forall>env s. e_handler env = sc_handler sc' \<longrightarrow> (\<forall>h \<in> fst ` set hs. polite_handler (sc_handler sc' h)) \<longrightarrow> fresh_request s \<longrightarrow> NUL \<notin> set (hs_uri s)
         \<longrightarrow> nxweb_default_request_dispatcher env (sc_handler_list sc') s
             = dispatch_ref env s (filter (wanted env s) (sort_key (\<lambda>h. hn_priority (sc_handler sc h)) (map fst hs))) s)"
proof -
  define L where "L = sort_key (\<lambda>h. hn_priority (sc_handler sc h)) (map fst hs)"
  obtain sc' where sc': "register_handlers hs sc = Some sc'" "registered hs sc sc'" using register_handlers_run [OF assms] by blast
  then have L: "routing_list sc' L" "set L = fst ` set hs" by (simp_all add: registered_def L_def)
  have "nxweb_default_request_dispatcher env (sc_handler_list sc') s = dispatch_ref env s (filter (wanted env s) L) s"
    if "e_handler env = sc_handler sc'" "\<forall>h \<in> fst ` set hs. polite_handler (sc_handler sc' h)" "fresh_request s" "NUL \<notin> set (hs_uri s)" for env and s
  proof -
    have "routes env L"
    proof
      show "chain (\<lambda>h. hn_next (e_handler env h)) L None" using L(1) that(1) by (simp add: routing_list_def)
    next
      fix h assume "h \<in> set L"
      then show "polite_handler (e_handler env h)" using L(2) that(1,2) by auto
    next
      fix h assume "h \<in> set L"
      then show "sized_handler (e_handler env h)"
        using registered_sized [OF sc'(2)] L(2) assms(3) that(1) by simp
    qed
    then show ?thesis using routes.dispatcher_refines that(3,4) L(1) by (simp add: routing_list_def)
  qed
  then show ?thesis using sc'(1) by (auto simp: L_def)
qed

definition two_handlers :: "unit server_config" where
  "two_handlers = \<lparr>sc_handler = (\<lambda>h. if h = 1 then handler_zero\<lparr>hn_priority := 5, hn_on_select := Some (\<lambda>s. Some (NXWEB_OK, s))\<rparr>
       else handler_zero\<lparr>hn_priority := 1, hn_on_select := Some (\<lambda>s. Some (NXWEB_NEXT, s\<lparr>hs_uri := ''/other''\<rparr>))\<rparr>),
     sc_handler_list = None, sc_module_priority = (\<lambda>_. 0), sc_module_next = (\<lambda>_. None), sc_module_list = None\<rparr>"

lemma count_filters_Nil [simp]: "count_filters n [] = 0"
  by (cases n) simp_all

lemma two_handlers_registered:
  "register_handlers [(1, None), (2, None)] two_handlers
    = Some (two_handlers\<lparr>sc_handler := (\<lambda>h. (sc_handler two_handlers h)\<lparr>hn_next := (if h = 2 then Some 1 else None)\<rparr>), sc_handler_list := Some 2\<rparr>)"
  by (auto simp: two_handlers_def nxweb_register_handler_def prepare_handler_def handler_zero_def opt_strlen_def host_dependent_def
      chain_register_def set_nexts_def fun_eq_iff)

lemma polite_two: "polite_handler ((sc_handler two_handlers h)\<lparr>hn_next := n\<rparr>)"
  by (auto simp: two_handlers_def handler_zero_def polite_handler_def placed_filters_def)

theorem dispatch_in_priority_order_witness:
  "\<exists>sc' s'. register_handlers [(1, None), (2, None)] two_handlers = Some sc'
     \<and> nxweb_default_request_dispatcher (plain_env (sc_handler sc')) (sc_handler_list sc') (request_for ''/a'') = Some (NXWEB_OK, s')
     \<and> hs_handler s' = Some 1 \<and> hs_uri s' = ''/a''"
proof -
  define sc' where "sc' = two_handlers\<lparr>sc_handler := (\<lambda>h. (sc_handler two_handlers h)\<lparr>hn_next := (if h = 2 then Some 1 else None)\<rparr>), sc_handler_list := Some 2\<rparr>"
  have r: "register_handlers [(1, None), (2, None)] two_handlers = Some sc'" unfolding sc'_def by (rule two_handlers_registered)
  have ok: "\<forall>h \<in> fst ` set [(1, None), (2, None)]. polite_handler (sc_handler sc' h)" by (simp add: sc'_def polite_two)
  have 1: "distinct (map fst [(1::nat, None), (2, None)])" "sc_handler_list two_handlers = None"
    "\<forall>(h, base) \<in> set [(1, None), (2, None)]. prefix_ok (sc_handler two_handlers h)"
    by (simp_all add: two_handlers_def handler_zero_def prefix_ok_def)
  define e where "e = plain_env (sc_handler sc')"
  define q where "q = request_for ''/a''"
  have "nxweb_default_request_dispatcher e (sc_handler_list sc') q
      = dispatch_ref e q (filter (wanted e q) (sort_key (\<lambda>h. hn_priority (sc_handler two_handlers h)) [1, 2])) q"
    using dispatch_in_priority_order [OF 1] r ok fresh_request_for [of "''/a''"] by (auto simp: e_def q_def plain_env_def request_for_def)
  moreover have "\<exists>s'. dispatch_ref e q (filter (wanted e q) (sort_key (\<lambda>h. hn_priority (sc_handler two_handlers h)) [1, 2])) q = Some (NXWEB_OK, s')
      \<and> hs_handler s' = Some 1 \<and> hs_uri s' = ''/a''"
    by (simp add: e_def q_def two_handlers_def sc'_def handler_zero_def plain_env_def wanted_def method_wanted_def request_for_def put_back_def
        nxweb_select_handler_def start_filters_def placed_filters_def set_path_info_def try_caches_def call_on_select_def undo_select_def)
  ultimately obtain s' where "nxweb_default_request_dispatcher e (sc_handler_list sc') q = Some (NXWEB_OK, s')" "hs_handler s' = Some 1" "hs_uri s' = ''/a''"
    by (simp only:) blast
  then show ?thesis using r unfolding e_def q_def by blast
qed

definition refusing_handler :: "unit nxweb_handler" where
  "refusing_handler = handler_zero\<lparr>hn_num_filters := 1,
     hn_filters := [Some \<lparr>fl_init = Some (\<lambda>s. Some (Some \<lparr>fd_cache_key = None, fd_bypass = False\<rparr>, s)),
       fl_decode_uri = Some (\<lambda>i uri s. Some (''/decoded'', s)), fl_translate_cache_key = None, fl_serve_from_cache = None,
       fl_do_filter = None, fl_finalize = Some (\<lambda>i s. Some s)\<rparr>],
     hn_on_generate_cache_key := Some (\<lambda>s. Some (NXWEB_NEXT, s))\<rparr>"

text \<open>
  A handler that refuses a request in \<^verbatim>\<open>on_generate_cache_key\<close> is left at once, without the code that sets its changes back:
  the next handler is asked about the address its filters decoded, and the data of its filters is still there, never to be
  finalized once another handler's filters take its place.
\<close>

lemma cache_key_refusal_leaks:
  "map_option (\<lambda>(r, s). (r, hs_uri s, hs_filter_data s 0, hs_handler s)) (nxweb_select_handler (plain_env (\<lambda>_. refusing_handler)) 1 0 (request_for ''/a''))
     = Some (NXWEB_NEXT, ''/decoded'', Some \<lparr>fd_cache_key = None, fd_bypass = False\<rparr>, Some 1)"
  by (simp add: refusing_handler_def plain_env_def handler_zero_def request_for_def nxweb_select_handler_def start_filters_def placed_filters_def
      set_path_info_def try_caches_def runs_def)

end
