(* ===== verification/Nx_Sendfile.thy ===== *)
theory Nx_Sendfile
  imports Nx_Dispatch Nx_Path Nx_Http_Send
begin

text \<open>
  Two handlers of the server: static files (\<^verbatim>\<open>lib/modules/sendfile.c\<close>) and the redirect to the canonical
  host (\<^verbatim>\<open>lib/modules/host_redirect.c\<close>).  The path of a file is built in the arena of the request, decoded and
  normalised in place; the result is shown to stay below the directory of the handler.
\<close>

section \<open>Working on an object of the arena\<close>

text \<open>A routine on bytes, run on the \<open>n\<close> bytes at address \<open>p\<close>; it has undefined behaviour outside of them.\<close>

definition on_object :: "nat \<Rightarrow> nat \<Rightarrow> (mem \<Rightarrow> ('a \<times> mem) option) \<Rightarrow> nxb_buffer \<Rightarrow> ('a \<times> nxb_buffer) option" where
  "on_object p n f nb = do {
     (r, m) \<leftarrow> f (mem_read (nb_mem nb) p n);
     Some (r, nb\<lparr>nb_mem := mem_write (nb_mem nb) p m\<rparr>) }"

text \<open>\<^verbatim>\<open>strcat(p, s)\<close> where \<open>p\<close> is the end of the string.\<close>

definition c_strcat_end :: "mem \<Rightarrow> nat \<Rightarrow> string \<Rightarrow> mem option" where
  "c_strcat_end m p s = (if p + length s < length m then Some (take p m @ s @ NUL # drop (p + length s + 1) m) else None)"

section \<open>Static files\<close>

text \<open>What the handler asks of the system: \<^verbatim>\<open>stat\<close>, the MIME table, the time, and the date the loop keeps.\<close>

record 'w file_env =
  fe_stat :: "string \<Rightarrow> file_stat option"
  fe_mime :: mime_state
  fe_now :: int
  fe_clock :: "'w \<Rightarrow> nxe_clock"
  fe_set_clock :: "nxe_clock \<Rightarrow> 'w \<Rightarrow> 'w"

text \<open>The root directory, with the host in place of \<^verbatim>\<open>{host}\<close>; no result (\<open>Some None\<close>) for a host that is not a name.\<close>

definition host_allowed :: "string \<Rightarrow> bool" where
  "host_allowed host \<longleftrightarrow> (case host of [] \<Rightarrow> True | c # _ \<Rightarrow> c \<noteq> CHR ''.'') \<and> CHR ''/'' \<notin> set host"

definition put_root :: "'w nxweb_handler \<Rightarrow> string option \<Rightarrow> string \<Rightarrow> nxb_buffer \<Rightarrow> ((nat \<times> nxb_buffer) option) option" where
  "put_root h host dir nb =
     (if hn_flags h AND NXWEB_HOST_DEPENDENT_DIR \<noteq> 0 then do {
        host \<leftarrow> host;
        (if \<not> host_allowed host then Some None
         else do {
           let name = takeWhile (\<lambda>c. c \<noteq> CHR '':'') host;
           k \<leftarrow> strstr dir HOST_PLACEHOLDER;
           nb \<leftarrow> nxb_append (take k dir) (nxb_start_stream nb);
           nb \<leftarrow> nxb_append name nb;
           nb \<leftarrow> nxb_append_str (drop (k + length HOST_PLACEHOLDER) dir) nb;
           Some (Some (length dir - length HOST_PLACEHOLDER + length name, nb)) }) }
      else do {
        nb \<leftarrow> nxb_append dir (nxb_start_stream nb);
        Some (Some (length dir, nb)) })"

text \<open>Decoding and normalising the path behind the root; the flag is that the path is valid.\<close>

definition resolve_path :: "string \<Rightarrow> mem \<Rightarrow> (bool \<times> mem) option" where
  "resolve_path index_file m = do {
     m \<leftarrow> nxweb_url_decode m 0 None;
     plen \<leftarrow> c_strlen m 0;
     m \<leftarrow> (if 0 < plen \<and> m ! (plen - 1) = CHR ''/'' then c_strcat_end m plen index_file else Some m);
     (r, m) \<leftarrow> nxweb_remove_dots_from_uri_path m 0;
     Some (r = 0, m) }"

definition path_of :: "string \<Rightarrow> string" where
  "path_of path_info = takeWhile (\<lambda>c. c \<noteq> CHR ''?'') path_info"

definition set_file_type :: "nxweb_mime_type \<Rightarrow> string option \<Rightarrow> string nxweb_http_response \<Rightarrow> string nxweb_http_response" where
  "set_file_type mtype charset resp =
     (let resp = resp\<lparr>rs_mtype := Some mtype, rs_content_type := Some (mt_mime mtype)\<rparr>
      in if mt_charset_required mtype then resp\<lparr>rs_content_charset := charset\<rparr> else resp)"

text \<open>The key and the fields a found path sets.\<close>

definition found_file :: "'w file_env \<Rightarrow> 'w nxweb_handler \<Rightarrow> string \<Rightarrow> 'w hst \<Rightarrow> 'w hst" where
  "found_file fe h path s = s\<lparr>hs_cache_key := Some path,
     hs_resp := set_file_type (nxweb_get_mime_type_by_ext (fe_mime fe) path) (hn_charset h) ((hs_resp s)\<lparr>rs_sendfile_path := Some path\<rparr>)\<rparr>"

definition sendfile_generate_cache_key :: "'w file_env \<Rightarrow> 'w nxweb_handler \<Rightarrow> 'w handler_callback" where
  "sendfile_generate_cache_key fe h s =
     (if \<not> hs_get_method s \<or> hs_content_length s \<noteq> 0 then Some (NXWEB_NEXT, s)
      else do {
        dir \<leftarrow> hn_dir h;
        index_file \<leftarrow> hn_index_file h;
        root \<leftarrow> put_root h (hs_host s) dir (hs_nb s);
        (case root of None \<Rightarrow> Some (NXWEB_NEXT, s)
         | Some (rlen, nb) \<Rightarrow> do {
             path_info \<leftarrow> hs_path_info s;
             nb \<leftarrow> nxb_append (path_of path_info) nb;
             nb \<leftarrow> nxb_append_char NUL nb;
             nb \<leftarrow> nxb_blank (length index_file) nb;
             let (fpath, n, nb) = nxb_finish_stream nb;
             (ok, nb) \<leftarrow> on_object (fpath + rlen) (n - rlen) (resolve_path index_file) nb;
             let s = s\<lparr>hs_nb := nb\<rparr>;
             (if \<not> ok then Some (NXWEB_NEXT, s)
              else Some (NXWEB_OK, found_file fe h (cstr (mem_read (nb_mem nb) fpath n) 0) s)) }) })"

text \<open>A directory asked for without its slash: the client is sent to the address with it.\<close>

definition with_clock :: "'w file_env \<Rightarrow> (int list \<times> string nxweb_http_response \<times> nxe_clock \<times> nxb_buffer) option \<Rightarrow> 'w hst \<Rightarrow> 'w hst option" where
  "with_clock fe x s = map_option (\<lambda>(closed, resp, lp, nb). s\<lparr>hs_closed := closed @ hs_closed s, hs_resp := resp, hs_nb := nb,
     hs_world := fe_set_clock fe lp (hs_world s)\<rparr>) x"

definition redirect_to_directory :: "'w server_env \<Rightarrow> 'w file_env \<Rightarrow> 'w hst \<Rightarrow> 'w hst option" where
  "redirect_to_directory env fe s =
     (if CHR ''?'' \<in> set (hs_uri s) then do {
        let path = path_of (hs_uri s);
        nb \<leftarrow> nxb_append path (nxb_start_stream (hs_nb s));
        nb \<leftarrow> nxb_append_char (CHR ''/'') nb;
        nb \<leftarrow> nxb_append_str (drop (length path) (hs_uri s)) nb;
        nb \<leftarrow> nxb_append_char NUL nb;
        let (p, n, nb) = nxb_finish_stream nb;
        let new_uri = cstr (mem_read (nb_mem nb) p n) 0;
        with_clock fe (nxweb_send_redirect (e_version env) (fe_now fe) (fe_clock fe (hs_world s)) 302 new_uri (hs_secure s) (hs_resp s) nb) s }
      else with_clock fe (nxweb_send_redirect2 (e_version env) (fe_now fe) (fe_clock fe (hs_world s)) 302 (hs_uri s) (Some ''/'') (hs_secure s)
             (hs_resp s) (hs_nb s)) s)"

definition send_and_finish :: "'w server_env \<Rightarrow> 'w hst \<Rightarrow> (nxweb_result \<times> 'w hst) option" where
  "send_and_finish env s = map_option (\<lambda>s. (NXWEB_OK, s)) (nxweb_start_sending_response env s)"

definition unmodified_file :: "file_stat \<Rightarrow> 'w hst \<Rightarrow> bool" where
  "unmodified_file finfo s \<longleftrightarrow> hs_if_modified_since s \<noteq> 0 \<and> st_mtime finfo \<le> hs_if_modified_since s
     \<and> (case rs_mtype (hs_resp s) of None \<Rightarrow> False | Some t \<Rightarrow> \<not> mt_ssi_on t \<and> \<not> mt_templates_on t)"

definition S_ISVTX :: "nat \<Rightarrow> bool" where "S_ISVTX mode \<longleftrightarrow> mode div 512 mod 2 = 1"

definition serve_file :: "'w server_env \<Rightarrow> 'w file_env \<Rightarrow> 'w nxweb_handler \<Rightarrow> string \<Rightarrow> file_stat \<Rightarrow> 'w handler_callback" where
  "serve_file env fe h fpath finfo s = do {
     (result, closed, resp) \<leftarrow> nxweb_send_file (fe_stat fe) (fe_mime fe) (hs_resp s) (Some fpath) (Some finfo) False 0 0 (rs_mtype (hs_resp s)) (hn_charset h);
     let s = s\<lparr>hs_resp := resp, hs_closed := closed @ hs_closed s\<rparr>;
     (if result \<noteq> 0 then do {
        (closed, resp, nb) \<leftarrow> nxweb_send_http_error (e_version env) 500 ''Internal Server Error'' (hs_resp s) (hs_nb s);
        Some (NXWEB_ERROR, s\<lparr>hs_closed := closed @ hs_closed s, hs_resp := resp, hs_nb := nb\<rparr>) }
      else send_and_finish env (if S_ISVTX (st_mode finfo) then s\<lparr>hs_resp := (hs_resp s)\<lparr>rs_templates_on := True\<rparr>\<rparr> else s)) }"

definition answer_file :: "'w server_env \<Rightarrow> 'w file_env \<Rightarrow> 'w nxweb_handler \<Rightarrow> string \<Rightarrow> file_stat \<Rightarrow> 'w handler_callback" where
  "answer_file env fe h fpath finfo s =
     (if S_ISDIR (st_mode finfo) then Option.bind (redirect_to_directory env fe s) (send_and_finish env)
      else if unmodified_file finfo s
      then send_and_finish env (s\<lparr>hs_resp := (hs_resp s)\<lparr>rs_status_code := 304, rs_status := Some ''Not Modified''\<rparr>\<rparr>)
      else serve_file env fe h fpath finfo s)"

definition file_info :: "'w file_env \<Rightarrow> string \<Rightarrow> 'w hst \<Rightarrow> file_stat option" where
  "file_info fe fpath s = (if st_ino (rs_sendfile_info (hs_resp s)) \<noteq> 0 then Some (rs_sendfile_info (hs_resp s)) else fe_stat fe fpath)"

definition sendfile_on_select :: "'w server_env \<Rightarrow> 'w file_env \<Rightarrow> 'w nxweb_handler \<Rightarrow> 'w handler_callback" where
  "sendfile_on_select env fe h s =
     (if \<not> hs_get_method s \<or> hs_content_length s \<noteq> 0 then Some (NXWEB_NEXT, s)
      else do {
        fpath \<leftarrow> rs_sendfile_path (hs_resp s);
        (case file_info fe fpath s of
           None \<Rightarrow> Some (NXWEB_NEXT, s)
         | Some finfo \<Rightarrow> answer_file env fe h fpath finfo (s\<lparr>hs_resp := (hs_resp s)\<lparr>rs_sendfile_info := finfo\<rparr>\<rparr>)) })"

section \<open>Redirect to the canonical host\<close>

text \<open>\<open>is_sub\<close> tells a subrequest, \<open>pass\<close> is the list of other hosts that are let through (\<^verbatim>\<open>config.cptr\<close>).\<close>

definition host_redirect_on_select :: "'w server_env \<Rightarrow> 'w file_env \<Rightarrow> ('w hst \<Rightarrow> bool) \<Rightarrow> string list option \<Rightarrow> 'w nxweb_handler \<Rightarrow> 'w handler_callback" where
  "host_redirect_on_select env fe is_sub pass h s =
     (if is_sub s then Some (NXWEB_NEXT, s)
      else do {
        host_wanted \<leftarrow> hn_host h;
        (if hs_host s = Some host_wanted then Some (NXWEB_NEXT, s)
         else if (case (hs_host s, pass) of (Some host, Some ph) \<Rightarrow> host \<in> set ph | _ \<Rightarrow> False) then Some (NXWEB_NEXT, s)
         else do {
           s \<leftarrow> with_clock fe (nxweb_send_redirect2 (e_version env) (fe_now fe) (fe_clock fe (hs_world s)) 301 (hs_uri s) None (hs_secure s)
                  ((hs_resp s)\<lparr>rs_host := Some host_wanted\<rparr>) (hs_nb s)) s;
           Some (NXWEB_ERROR, s) }) })"

section \<open>The segments of a path\<close>

lemma join_slash_Cons_char: "join_slash ((c # a) # ss) = c # join_slash (a # ss)"
  by (cases ss) simp_all

lemma join_slash_split_on [simp]: "join_slash (split_on (CHR ''/'') u) = u"
proof (induction u)
  case (Cons c u)
  then show ?case by (cases "split_on (CHR ''/'') u") (auto simp: join_slash_Cons join_slash_Cons_char)
qed simp

lemma split_on_plain: "NUL \<notin> set u \<Longrightarrow> \<forall>x \<in> set (split_on (CHR ''/'') u). NUL \<notin> set x \<and> CHR ''/'' \<notin> set x"
proof (induction u)
  case (Cons c u)
  then show ?case by (cases "split_on (CHR ''/'') u") auto
qed simp

lemma last_split_on_append: "last (split_on x (v @ x # w)) = last (split_on x w)"
proof -
  have "\<exists>a as. split_on x (v @ x # w) = a # as @ split_on x w"
  proof (induction v)
    case Nil
    have "split_on x ([] @ x # w) = [] # [] @ split_on x w" by simp
    then show ?case by blast
  next
    case (Cons c v)
    then obtain a as where a: "split_on x (v @ x # w) = a # as @ split_on x w" by blast
    have "split_on x ((c # v) @ x # w) = (if c = x then [] # (a # as) @ split_on x w else (c # a) # as @ split_on x w)" by (simp add: a)
    then show ?case by (metis (full_types))
  qed
  then obtain a as where "split_on x (v @ x # w) = a # as @ split_on x w" by blast
  then show ?thesis by simp
qed

lemma last_split_on_Nil: "last (split_on x u) = [] \<Longrightarrow> u = [] \<or> last u = x"
proof (induction u)
  case (Cons c u)
  then show ?case by (cases u; cases "split_on x u") (auto split: if_splits)
qed simp

text \<open>The path a request names: decoded, up to the first zero byte, with the index file behind a slash.\<close>

definition file_path :: "string \<Rightarrow> string \<Rightarrow> string" where
  "file_path index_file path_info =
     (let t = takeWhile (\<lambda>c. c \<noteq> NUL) (url_dec (path_of path_info))
      in if t \<noteq> [] \<and> last t = CHR ''/'' then t @ index_file else t)"

definition index_ok :: "string \<Rightarrow> bool" where
  "index_ok i \<longleftrightarrow> i \<notin> {[], ''.'', ''..''} \<and> NUL \<notin> set i \<and> CHR ''/'' \<notin> set i"

lemma file_path_last:
  assumes "index_ok i" "file_path i p = CHR ''/'' # v" "last (split_on (CHR ''/'') v) \<notin> {''.'', ''..''}"
  shows "last (split_on (CHR ''/'') v) \<noteq> []"
proof -
  define t where "t = takeWhile (\<lambda>c. c \<noteq> NUL) (url_dec (path_of p))"
  show ?thesis
  proof (cases "t \<noteq> [] \<and> last t = CHR ''/''")
    case True
    then have e: "t @ i = CHR ''/'' # v" using assms(2) by (simp add: file_path_def t_def)
    obtain t0 where t0: "t = t0 @ [CHR ''/'']" using True by (metis append_butlast_last_id)
    then have "last (split_on (CHR ''/'') (CHR ''/'' # v)) = i"
      using assms(1) last_split_on_append [of "CHR ''/''" t0 i] by (simp add: e [symmetric] split_on_single index_ok_def del: split_on.simps(2))
    then show ?thesis using assms(1) by (simp add: index_ok_def)
  next
    case False
    then have "t = CHR ''/'' # v" using assms(2) by (auto simp: file_path_def t_def Let_def split: if_splits)
    then have "v \<noteq> []" "last v \<noteq> CHR ''/''" using False by (cases v; simp)+
    then show ?thesis using last_split_on_Nil by blast
  qed
qed

lemma length_url_dec: "length (url_dec s) \<le> length s"
proof (induction s rule: length_induct)
  case (1 s)
  show ?case
  proof (cases s)
    case (Cons c r)
    have "length (url_dec x) \<le> length x" if "length x < length s" for x using 1 that by blast
    from this [of r] this [of "drop 2 r"] show ?thesis by (auto simp: Cons split: list.splits)
  qed simp
qed

lemma takeWhile_split: "x \<in> set xs \<Longrightarrow> \<exists>r. xs = takeWhile (\<lambda>c. c \<noteq> x) xs @ x # r"
  by (induction xs) auto

lemma resolve_path_appends:
  assumes "NUL \<notin> set (path_of p)" "length g = length i" "NUL \<notin> set i"
  obtains Y where "length (file_path i p @ NUL # Y) = length (path_of p @ NUL # g)" "NUL \<notin> set (file_path i p)"
    "resolve_path i (path_of p @ NUL # g) = do { (r, m) \<leftarrow> nxweb_remove_dots_from_uri_path (file_path i p @ NUL # Y) 0; Some (r = 0, m) }"
proof -
  define q where "q = path_of p"
  define m1 where "m1 = url_dec q @ NUL # drop (length (url_dec q) + 1) (q @ [NUL]) @ g"
  define t where "t = takeWhile (\<lambda>c. c \<noteq> NUL) (url_dec q)"
  have m1: "nxweb_url_decode (q @ NUL # g) 0 None = Some m1"
    using url_decode_loop_dec [of q "[]" "[]" g] assms(1) by (simp add: nxweb_url_decode_def m1_def q_def)
  have len: "length m1 = length (q @ NUL # g)" using length_url_dec [of q] by (simp add: m1_def)
  have "\<exists>Y. m1 = t @ NUL # Y"
  proof (cases "NUL \<in> set (url_dec q)")
    case True
    then obtain r where "url_dec q = t @ NUL # r"
      unfolding t_def using takeWhile_split by metis
    then show ?thesis by (simp add: m1_def)
  next
    case False
    then have "t = url_dec q" unfolding t_def by (intro takeWhile_eq_all_conv [THEN iffD2]) auto
    then show ?thesis by (simp add: m1_def)
  qed
  then obtain Y where Y: "m1 = t @ NUL # Y" by blast
  have t: "NUL \<notin> set t" "length t \<le> length q" using length_url_dec [of q] length_takeWhile_le [of _ "url_dec q"]
    by (auto simp: t_def dest: set_takeWhileD intro: order_trans)
  have sl: "c_strlen m1 0 = Some (length t)" using c_strlen_split [of t "[]" Y] t(1) by (simp add: Y)
  show ?thesis
  proof (cases "t \<noteq> [] \<and> last t = CHR ''/''")
    case True
    then have l: "m1 ! (length t - 1) = CHR ''/''" using last_conv_nth [of t] by (simp add: Y nth_append)
    define Y2 where "Y2 = drop (length t + length i + 1) m1"
    have fp: "file_path i p = t @ i" using True by (simp add: file_path_def t_def q_def)
    have fit: "length t + length i < length m1" using len t(2) assms(2) by simp
    then have "c_strcat_end m1 (length t) i = Some (file_path i p @ NUL # Y2)" by (simp add: c_strcat_end_def fp Y2_def Y)
    then have "resolve_path i (q @ NUL # g) = do { (r, m) \<leftarrow> nxweb_remove_dots_from_uri_path (file_path i p @ NUL # Y2) 0; Some (r = 0, m) }"
      using True l by (simp add: resolve_path_def m1 sl)
    moreover have "length (file_path i p @ NUL # Y2) = length (q @ NUL # g)" using fit len by (simp add: fp Y2_def)
    ultimately show ?thesis using that t(1) assms(3) by (simp add: fp q_def)
  next
    case False
    then have fp: "file_path i p = t" by (auto simp: file_path_def t_def q_def Let_def)
    have "\<not> (0 < length t \<and> m1 ! (length t - 1) = CHR ''/'')" using False by (auto simp: Y nth_append last_conv_nth)
    then have "resolve_path i (q @ NUL # g) = do { (r, m) \<leftarrow> nxweb_remove_dots_from_uri_path (file_path i p @ NUL # Y) 0; Some (r = 0, m) }"
      unfolding fp Y [symmetric] by (auto simp: resolve_path_def m1 sl)
    then show ?thesis using that len t(1) by (simp add: fp q_def Y)
  qed
qed

lemma resolve_path_run:
  assumes "NUL \<notin> set (path_of p)" "length g = length i" "index_ok i" "file_path i p = CHR ''/'' # v"
    "last (split_on (CHR ''/'') v) \<notin> {''.'', ''..''}"
  shows "case norm_segs [] (split_on (CHR ''/'') v) of
      None \<Rightarrow> \<exists>m. length m = length (path_of p @ NUL # g) \<and> resolve_path i (path_of p @ NUL # g) = Some (False, m)
    | Some out \<Rightarrow> set out \<inter> {[], ''.'', ''..''} = {}
        \<and> (\<exists>Z. length (CHR ''/'' # join_slash out @ NUL # Z) = length (path_of p @ NUL # g)
          \<and> resolve_path i (path_of p @ NUL # g) = Some (True, CHR ''/'' # join_slash out @ NUL # Z))"
proof -
  obtain Y where Y: "length (file_path i p @ NUL # Y) = length (path_of p @ NUL # g)" "NUL \<notin> set (file_path i p)"
    "resolve_path i (path_of p @ NUL # g) = do { (r, m) \<leftarrow> nxweb_remove_dots_from_uri_path (file_path i p @ NUL # Y) 0; Some (r = 0, m) }"
    using resolve_path_appends [OF assms(1,2)] assms(3) by (auto simp: index_ok_def)
  have l: "last (split_on (CHR ''/'') v) \<notin> {[], ''.'', ''..''}" using file_path_last [OF assms(3-5)] assms(5) by simp
  have pl: "\<forall>s \<in> set (split_on (CHR ''/'') v). NUL \<notin> set s \<and> CHR ''/'' \<notin> set s" using split_on_plain Y(2) assms(4) by simp
  from remove_dots_normal [OF split_on_nonempty l pl, of "[]" Y] Y assms(4)
  show ?thesis by (cases "norm_segs [] (split_on (CHR ''/'') v)") (fastforce, auto)
qed

section \<open>The path is built in the arena\<close>

lemma strstr_bound: "strstr s pat = Some k \<Longrightarrow> k + length pat \<le> length s"
proof (induction s arbitrary: k)
  case Nil
  then show ?case by (simp split: if_splits)
next
  case (Cons c s)
  show ?case
  proof (cases "take (length pat) (c # s) = pat")
    case True
    then have "length pat \<le> length (c # s)" by (metis length_take min.bounded_iff order_refl)
    then show ?thesis using Cons.prems True by simp
  next
    case False
    then obtain j where "strstr s pat = Some j" "k = Suc j" using Cons.prems by (cases "strstr s pat") (simp_all split: if_splits)
    then show ?thesis using Cons.IH [of j] by simp
  qed
qed

definition root_dir :: "'w nxweb_handler \<Rightarrow> string option \<Rightarrow> string \<Rightarrow> string" where
  "root_dir h host dir =
     (if hn_flags h AND NXWEB_HOST_DEPENDENT_DIR \<noteq> 0
      then let k = the (strstr dir HOST_PLACEHOLDER) in take k dir @ host_name host @ drop (k + length HOST_PLACEHOLDER) dir
      else dir)"

definition root_known :: "'w nxweb_handler \<Rightarrow> string option \<Rightarrow> string \<Rightarrow> bool" where
  "root_known h host dir \<longleftrightarrow> (hn_flags h AND NXWEB_HOST_DEPENDENT_DIR \<noteq> 0 \<longrightarrow>
     strstr dir HOST_PLACEHOLDER \<noteq> None \<and> (case host of None \<Rightarrow> False | Some host \<Rightarrow> host_allowed host))"

lemma put_root_run:
  assumes "root_known h host dir" "nxb_ok nb" "nb_limit nb = None"
  obtains nb' where "put_root h host dir nb = Some (Some (length (root_dir h host dir), nb'))" "nxb_ok nb'" "nb_limit nb' = None"
    "nxb_stream nb' = root_dir h host dir"
proof -
  note st = start_stream_ok [OF assms(2)]
  show ?thesis
  proof (cases "hn_flags h AND NXWEB_HOST_DEPENDENT_DIR = 0")
    case True
    obtain nb' where "nxb_append dir (nxb_start_stream nb) = Some nb'" "nxb_ok nb'" "nb_limit nb' = None" "nxb_stream nb' = dir"
      using emitsE [OF emits_append [of 0 dir] st(1)] st(2,3) assms(3) by auto
    then show ?thesis using True by (intro that [of nb']) (simp_all add: put_root_def root_dir_def)
  next
    case False
    then obtain hst k where h: "host = Some hst" "host_allowed hst" "strstr dir HOST_PLACEHOLDER = Some k"
      using assms(1) by (auto simp: root_known_def split: option.splits)
    define a n b where "a = take k dir" and "n = takeWhile (\<lambda>c. c \<noteq> CHR '':'') hst" and "b = drop (k + length HOST_PLACEHOLDER) dir"
    have "emits 0 (\<lambda>nb. nxb_append a nb \<bind> (\<lambda>nb. nxb_append n nb \<bind> nxb_append_str b)) (a @ n @ b) 0"
      by (rule emits_weaken [OF emits_bind [OF emits_append emits_bind [OF emits_append emits_append_str]]]) simp_all
    then obtain nb' where nb': "nxb_append a (nxb_start_stream nb) \<bind> (\<lambda>nb. nxb_append n nb \<bind> nxb_append_str b) = Some nb'"
      "nxb_ok nb'" "nb_limit nb' = None" "nxb_stream nb' = a @ n @ b"
      using emitsE [of 0 _ _ 0 "nxb_start_stream nb"] st assms(3) by force
    have root: "root_dir h host dir = a @ n @ b" using False by (simp add: root_dir_def h(1,3) a_def n_def b_def host_name_def)
    have "length (a @ n @ b) = length dir - length HOST_PLACEHOLDER + length n" using strstr_bound [OF h(3)] by (simp add: a_def b_def)
    moreover have "put_root h host dir nb = Some (Some (length dir - length HOST_PLACEHOLDER + length n, nb'))"
      using False nb'(1) h(2) unfolding put_root_def h(1,3) Let_def a_def [symmetric] n_def [symmetric] b_def [symmetric] Option.bind_lunit
      by (auto simp: bind_eq_Some_conv)
    ultimately show ?thesis using nb'(2-4) root by (intro that [of nb']) simp_all
  qed
qed

lemma nxb_blank_run:
  assumes "nxb_ok nb" "nb_limit nb = None"
  obtains nb' g where "nxb_blank n nb = Some nb'" "nxb_ok nb'" "nb_limit nb' = None" "nxb_stream nb' = nxb_stream nb @ g" "length g = n"
proof -
  obtain nb1 where 1: "nxb_make_room n nb = Some (True, nb1)" "nxb_ok nb1" "nb_limit nb1 = None"
    "nxb_stream nb1 = nxb_stream nb" "max (nxb_room nb) n \<le> nxb_room nb1"
    using nxb_make_room_ok [OF assms] by metis
  define nb2 where "nb2 = nb1\<lparr>nb_ptr := nb_ptr nb1 + n\<rparr>"
  have fits: "nb_ptr nb1 + n \<le> nb_end nb1" using 1(2,5) unfolding nxb_room_def nxb_ok_def by linarith
  obtain k where k: "nb_ptr nb1 = nb_base nb1 + k" using 1(2) by (metis le_iff_add nxb_ok_def)
  have "nxb_blank n nb = Some nb2" using fits by (simp add: nxb_blank_def 1(1) nxb_blank_fast_def nb2_def)
  moreover have "nxb_ok nb2" using 1(2) fits by (auto simp: nb2_def nxb_ok_def)
  moreover have "nxb_stream nb2 = nxb_stream nb @ mem_read (nb_mem nb1) (nb_ptr nb1) n"
    using 1(4) by (simp add: nxb_stream_def nb2_def k mem_read_append)
  ultimately show ?thesis using that [of nb2] 1(3) by (simp add: nb2_def)
qed

lemma on_object_run:
  assumes "mem_read (nb_mem nb) a n = r @ m" "f m = Some (x, m')" "length m' = length m"
  shows "\<exists>nb'. on_object (a + length r) (n - length r) f nb = Some (x, nb') \<and> mem_read (nb_mem nb') a n = r @ m'"
proof -
  have n: "n = length r + length m" using arg_cong [OF assms(1), of length] by simp
  then have "mem_read (nb_mem nb) a (length r) = r" "mem_read (nb_mem nb) (a + length r) (length m) = m"
    using assms(1) mem_read_append [of "nb_mem nb" a "length r" "length m"] by (simp_all add: append_eq_append_conv)
  moreover have "mem_read (mem_write (nb_mem nb) (a + length r) m') a n = mem_read (nb_mem nb) a (length r) @ m'"
    using assms(3) by (simp add: n mem_read_append mem_read_write_below mem_write_same)
  ultimately show ?thesis using assms(2) n by (simp add: on_object_def)
qed

lemma put_path_run:
  assumes "nxb_ok nb" "nb_limit nb = None"
  obtains nb' g where "do { nb \<leftarrow> nxb_append q nb; nb \<leftarrow> nxb_append_char NUL nb; nxb_blank n nb } = Some nb'"
    "nxb_stream nb' = nxb_stream nb @ q @ NUL # g" "length g = n"
proof -
  have "emits 0 (\<lambda>nb. nxb_append q nb \<bind> nxb_append_char NUL) (q @ [NUL]) 0"
    by (rule emits_weaken [OF emits_bind [OF emits_append emits_append_char]]) simp_all
  then obtain nb1 where 1: "nxb_append q nb \<bind> nxb_append_char NUL = Some nb1" "nxb_ok nb1" "nb_limit nb1 = None"
      "nxb_stream nb1 = nxb_stream nb @ q @ [NUL]"
    using emitsE [of 0 _ _ 0 nb] assms by force
  obtain nb2 g where 2: "nxb_blank n nb1 = Some nb2" "nxb_stream nb2 = nxb_stream nb1 @ g" "length g = n"
    using nxb_blank_run [OF 1(2,3)] by metis
  show ?thesis by (rule that [of nb2 g]) (use 1(1,4) 2 in \<open>auto simp: bind_eq_Some_conv\<close>)
qed

lemma generate_cache_key_run:
  assumes "hs_get_method s" "hs_content_length s = 0" "hn_dir h = Some dir" "hn_index_file h = Some i" "hs_path_info s = Some p"
    and "root_known h (hs_host s) dir" "NUL \<notin> set (root_dir h (hs_host s) dir)" "nxb_ok (hs_nb s)" "nb_limit (hs_nb s) = None"
    and res: "\<And>g. length g = length i \<Longrightarrow> \<exists>m. resolve_path i (path_of p @ NUL # g) = Some (ok, m) \<and> length m = length (path_of p @ NUL # g)
      \<and> (ok \<longrightarrow> (\<exists>Z. m = t @ NUL # Z))" "NUL \<notin> set t"
  shows "\<exists>nb'. sendfile_generate_cache_key fe h s = Some (if ok then (NXWEB_OK, found_file fe h (root_dir h (hs_host s) dir @ t) (s\<lparr>hs_nb := nb'\<rparr>))
     else (NXWEB_NEXT, s\<lparr>hs_nb := nb'\<rparr>))"
proof -
  define r where "r = root_dir h (hs_host s) dir"
  obtain nb1 where 1: "put_root h (hs_host s) dir (hs_nb s) = Some (Some (length r, nb1))" "nxb_ok nb1" "nb_limit nb1 = None" "nxb_stream nb1 = r"
    using put_root_run [OF assms(6,8,9)] r_def by metis
  obtain nb2 g where 2: "do { nb \<leftarrow> nxb_append (path_of p) nb1; nb \<leftarrow> nxb_append_char NUL nb; nxb_blank (length i) nb } = Some nb2"
      "nxb_stream nb2 = r @ path_of p @ NUL # g" "length g = length i"
    using put_path_run [OF 1(2,3)] 1(4) by metis
  define a n nb3 where "a = fst (nxb_finish_stream nb2)" and "n = fst (snd (nxb_finish_stream nb2))" and "nb3 = snd (snd (nxb_finish_stream nb2))"
  have fin: "nxb_finish_stream nb2 = (a, n, nb3)" by (simp add: a_def n_def nb3_def)
  have obj: "mem_read (nb_mem nb3) a n = r @ path_of p @ NUL # g" using 2(2) by (simp add: a_def n_def nb3_def nxb_finish_stream_def nxb_stream_def)
  obtain m where m: "resolve_path i (path_of p @ NUL # g) = Some (ok, m)" "length m = length (path_of p @ NUL # g)" "ok \<longrightarrow> (\<exists>Z. m = t @ NUL # Z)"
    using res(1) [OF 2(3)] by blast
  obtain nb4 where 4: "on_object (a + length r) (n - length r) (resolve_path i) nb3 = Some (ok, nb4)" "mem_read (nb_mem nb4) a n = r @ m"
    using on_object_run [where f = "resolve_path i", OF obj m(1,2)] by blast
  have key: "cstr (mem_read (nb_mem nb4) a n) 0 = r @ t" if ok: ok
  proof -
    obtain Z where "m = t @ NUL # Z" using m(3) ok by blast
    then show ?thesis using takeWhile_NUL [of "r @ t" Z] res(2) assms(7) by (simp add: 4(2) cstr_def r_def)
  qed
  have "nxb_append (path_of p) nb1 \<bind> (\<lambda>nb. nxb_append_char NUL nb \<bind> (\<lambda>nb. nxb_blank (length i) nb \<bind> f)) = f nb2" for f :: "nxb_buffer \<Rightarrow> (nxweb_result \<times> 'a hst) option"
    using 2(1) by (auto simp: bind_eq_Some_conv)
  then show ?thesis using assms(1-5) key
    by (intro exI [of _ nb4]) (simp add: sendfile_generate_cache_key_def 1(1) fin 4(1) r_def [symmetric])
qed

section \<open>Properties\<close>

text \<open>
  C17: for every address that, decoded, does not end in \<^verbatim>\<open>.\<close> or \<^verbatim>\<open>..\<close>, the file handler names a file below its directory: the address is decoded (a zero byte ends
  it, a slash at its end stands for the index file), refused exactly if its segments climb above the directory, and
  otherwise the path is the directory - with the host in it, if the handler says so - and the normalised segments, none of which is empty,
  \<^verbatim>\<open>.\<close> or \<^verbatim>\<open>..\<close>; all of it without an access outside the object made for it in the arena.
  (What happens to the path of the others says \<open>remove_dots_trailing\<close>.)
\<close>

theorem sendfile_confined:
  assumes "hs_get_method s" "hs_content_length s = 0" "hn_dir h = Some dir" "hn_index_file h = Some i" "hs_path_info s = Some p"
    and "root_known h (hs_host s) dir" "NUL \<notin> set (root_dir h (hs_host s) dir)" "nxb_ok (hs_nb s)" "nb_limit (hs_nb s) = None"
    and "index_ok i" "NUL \<notin> set p" "file_path i p = CHR ''/'' # v" "last (split_on (CHR ''/'') v) \<notin> {''.'', ''..''}"
  shows "case norm_segs [] (split_on (CHR ''/'') v) of
      None \<Rightarrow> \<exists>nb'. sendfile_generate_cache_key fe h s = Some (NXWEB_NEXT, s\<lparr>hs_nb := nb'\<rparr>)
    | Some out \<Rightarrow> set out \<inter> {[], ''.'', ''..''} = {} \<and> (\<forall>x \<in> set out. CHR ''/'' \<notin> set x)
        \<and> (\<exists>nb'. sendfile_generate_cache_key fe h s
             = Some (NXWEB_OK, found_file fe h (root_dir h (hs_host s) dir @ CHR ''/'' # join_slash out) (s\<lparr>hs_nb := nb'\<rparr>)))"
proof -
  have q: "NUL \<notin> set (path_of p)" using assms(11) by (auto simp: path_of_def dest: set_takeWhileD)
  have nv: "NUL \<notin> set v" using resolve_path_appends [of p i i] q assms(10,12) by (auto simp: index_ok_def)
  note run = resolve_path_run [OF q _ assms(10,12,13)] and gen = generate_cache_key_run [OF assms(1-9)]
  show ?thesis
  proof (cases "norm_segs [] (split_on (CHR ''/'') v)")
    case None
    have "\<exists>nb'. sendfile_generate_cache_key fe h s = Some (if False then (NXWEB_OK, found_file fe h (root_dir h (hs_host s) dir @ []) (s\<lparr>hs_nb := nb'\<rparr>))
        else (NXWEB_NEXT, s\<lparr>hs_nb := nb'\<rparr>))"
      by (rule gen) (use run None in auto)
    then show ?thesis using None by simp
  next
    case (Some out)
    have out: "set out \<subseteq> set (split_on (CHR ''/'') v)" using norm_segs_clean [OF Some] by auto
    then have pl: "\<forall>x \<in> set out. NUL \<notin> set x \<and> CHR ''/'' \<notin> set x" using split_on_plain [OF nv] by auto
    have js: "NUL \<notin> set (join_slash xs)" if "\<forall>x \<in> set xs. NUL \<notin> set x" for xs
      using that by (induction xs rule: join_slash.induct) auto
    have cl: "set out \<inter> {[], ''.'', ''..''} = {}" using run [of i] Some by simp
    have "\<exists>nb'. sendfile_generate_cache_key fe h s = Some (if True then (NXWEB_OK, found_file fe h (root_dir h (hs_host s) dir @ CHR ''/'' # join_slash out) (s\<lparr>hs_nb := nb'\<rparr>))
        else (NXWEB_NEXT, s\<lparr>hs_nb := nb'\<rparr>))"
    proof (rule gen)
      fix g :: string
      assume g: "length g = length i"
      obtain Z where "length (CHR ''/'' # join_slash out @ NUL # Z) = length (path_of p @ NUL # g)"
          "resolve_path i (path_of p @ NUL # g) = Some (True, CHR ''/'' # join_slash out @ NUL # Z)"
        using run [OF g] Some by auto
      then show "\<exists>m. resolve_path i (path_of p @ NUL # g) = Some (True, m) \<and> length m = length (path_of p @ NUL # g)
          \<and> (True \<longrightarrow> (\<exists>Z. m = (CHR ''/'' # join_slash out) @ NUL # Z))"
        by (intro exI [of _ "CHR ''/'' # join_slash out @ NUL # Z"]) simp
    qed (use pl js in auto)
    then show ?thesis using Some cl pl by simp
  qed
qed

definition www_handler :: "unit nxweb_handler" where
  "www_handler = handler_zero\<lparr>hn_dir := Some ''/www'', hn_index_file := Some ''index.htm''\<rparr>"

definition no_files :: "unit file_env" where
  "no_files = \<lparr>fe_stat = (\<lambda>_. None), fe_mime = init_mime_cache, fe_now = 0, fe_clock = (\<lambda>_. \<lparr>lp_current_time = 0, lp_last_http_time = 0, lp_http_time = 0, lp_http_time_str = [], lp_iso8601_time_str = []\<rparr>), fe_set_clock = (\<lambda>_ w. w)\<rparr>"

theorem sendfile_confined_witness:
  "\<exists>s'. sendfile_generate_cache_key no_files www_handler ((request_for ''/a'')\<lparr>hs_path_info := Some ''/a/%2E%2E/b/?x=/..''\<rparr>) = Some (NXWEB_OK, s')
     \<and> hs_cache_key s' = Some ''/www/b/index.htm''"
proof -
  let ?s = "(request_for ''/a'')\<lparr>hs_path_info := Some ''/a/%2E%2E/b/?x=/..''\<rparr>"
  let ?v = "''a/../b/index.htm''"
  have "HEX_DIGIT 2 = CHR ''2''" "HEX_DIGIT 14 = CHR ''E''" by code_simp+
  then have hex: "HEX_DIGIT_VALUE (CHR ''2'') = 2" "HEX_DIGIT_VALUE (CHR ''E'') = 14"
    using HEX_DIGIT_VALUE_HEX_DIGIT [of 2] HEX_DIGIT_VALUE_HEX_DIGIT [of 14] by simp_all
  have dot: "chr_of 46 = CHR ''.''" by code_simp
  have fp: "file_path ''index.htm'' ''/a/%2E%2E/b/?x=/..'' = CHR ''/'' # ?v"
    by (simp add: file_path_def path_of_def hex dot)
  have sp: "split_on (CHR ''/'') ?v = [''a'', ''..'', ''b'', ''index.htm'']" by simp
  have ok: "hs_get_method ?s" "hs_content_length ?s = 0" "hn_dir www_handler = Some ''/www''" "hn_index_file www_handler = Some ''index.htm''"
    "hs_path_info ?s = Some ''/a/%2E%2E/b/?x=/..''" "root_known www_handler (hs_host ?s) ''/www''" "NUL \<notin> set (root_dir www_handler (hs_host ?s) ''/www'')"
    "nxb_ok (hs_nb ?s)" "nb_limit (hs_nb ?s) = None" "index_ok ''index.htm''" "NUL \<notin> set ''/a/%2E%2E/b/?x=/..''"
    by (simp_all add: request_for_def www_handler_def handler_zero_def root_known_def root_dir_def index_ok_def fresh_nxb_ok fresh_nxb_eval flag_defs)
  from sendfile_confined [OF ok(1-11) fp, of no_files] obtain nb' where
    "sendfile_generate_cache_key no_files www_handler ?s = Some (NXWEB_OK, found_file no_files www_handler (root_dir www_handler (hs_host ?s) ''/www'' @ ''/b/index.htm'') (?s\<lparr>hs_nb := nb'\<rparr>))"
    by (auto simp: sp)
  then show ?thesis by (simp add: found_file_def root_dir_def www_handler_def handler_zero_def)
qed

section \<open>Both handlers respect the dispatcher\<close>

lemma with_clock_polite: "with_clock fe x s = Some s' \<Longrightarrow> polite s s'"
  by (auto simp: with_clock_def polite_def keeps_request_def same_slots_def)

lemma host_redirect_polite: "host_redirect_on_select env fe is_sub pass h s = Some (r, s') \<Longrightarrow> polite s s'"
  by (auto simp: host_redirect_on_select_def bind_eq_Some_conv split: if_splits dest: with_clock_polite)

lemma generate_cache_key_cases:
  assumes "sendfile_generate_cache_key fe h s = Some (r, s')"
  obtains nb where "r = NXWEB_NEXT" "s' = s\<lparr>hs_nb := nb\<rparr>" | nb path where "r = NXWEB_OK" "s' = found_file fe h path (s\<lparr>hs_nb := nb\<rparr>)"
proof (cases "\<not> hs_get_method s \<or> hs_content_length s \<noteq> 0")
  case True
  then show ?thesis using assms that(1) [of "hs_nb s"] by (simp add: sendfile_generate_cache_key_def)
next
  case False
  then obtain dir i root where d: "hn_dir h = Some dir" "hn_index_file h = Some i" "put_root h (hs_host s) dir (hs_nb s) = Some root"
    using assms by (auto simp: sendfile_generate_cache_key_def bind_eq_Some_conv)
  show ?thesis
  proof (cases root)
    case None
    then show ?thesis using assms False d that(1) [of "hs_nb s"] by (simp add: sendfile_generate_cache_key_def)
  next
    case (Some x)
    obtain rlen nb0 where x: "x = (rlen, nb0)" by (cases x)
    with assms False d Some show ?thesis
      by (auto simp: sendfile_generate_cache_key_def bind_eq_Some_conv nxb_finish_stream_def Let_def split: if_splits intro: that)
  qed
qed

lemma generate_cache_key_polite:
  assumes "sendfile_generate_cache_key fe h s = Some (r, s')"
  shows "polite s s' \<and> (r = NXWEB_NEXT \<longrightarrow> hs_uri s' = hs_uri s \<and> hs_if_modified_since s' = hs_if_modified_since s \<and> hs_cache_key s' = hs_cache_key s \<and> hs_resp s' = hs_resp s)"
  using assms by (cases rule: generate_cache_key_cases) (simp_all add: found_file_def polite_def keeps_request_def same_slots_def)

lemma serve_file_polite:
  assumes "serve_file env fe h fpath finfo s = Some (r, s')" "r \<noteq> NXWEB_OK"
  shows "polite s s'"
proof -
  from assms obtain closed resp nb where "s' = s\<lparr>hs_closed := closed, hs_resp := resp, hs_nb := nb\<rparr>"
    by (auto simp: serve_file_def send_and_finish_def bind_eq_Some_conv Let_def split: if_splits)
  then show ?thesis by (simp add: polite_def keeps_request_def same_slots_def)
qed

lemma answer_file_polite:
  assumes "answer_file env fe h fpath finfo s = Some (r, s')" "r \<noteq> NXWEB_OK"
  shows "polite s s'"
proof -
  have "serve_file env fe h fpath finfo s = Some (r, s')"
    using assms by (auto simp: answer_file_def send_and_finish_def bind_eq_Some_conv split: if_splits)
  then show ?thesis using assms(2) by (rule serve_file_polite)
qed

lemma sendfile_on_select_polite:
  assumes "sendfile_on_select env fe h s = Some (r, s')" "r \<noteq> NXWEB_OK"
  shows "polite s s'"
proof (cases "\<not> hs_get_method s \<or> hs_content_length s \<noteq> 0")
  case True
  then show ?thesis using assms by (simp add: sendfile_on_select_def)
next
  case False
  then obtain fpath where f: "rs_sendfile_path (hs_resp s) = Some fpath" using assms by (auto simp: sendfile_on_select_def bind_eq_Some_conv)
  show ?thesis
  proof (cases "file_info fe fpath s")
    case None
    then show ?thesis using assms False f by (simp add: sendfile_on_select_def)
  next
    case (Some finfo)
    then have "answer_file env fe h fpath finfo (s\<lparr>hs_resp := (hs_resp s)\<lparr>rs_sendfile_info := finfo\<rparr>\<rparr>) = Some (r, s')"
      using assms False f by (simp add: sendfile_on_select_def)
    from answer_file_polite [OF this assms(2)] show ?thesis by (simp add: polite_def keeps_request_def same_slots_def)
  qed
qed

text \<open>
  A site of two handlers: the redirect to the canonical host, then the files below a directory.
\<close>

definition site_handler :: "unit file_env \<Rightarrow> string \<Rightarrow> string \<Rightarrow> nat \<Rightarrow> unit nxweb_handler" where
  "site_handler fe host dir n =
     (let h = handler_zero\<lparr>hn_host := Some host, hn_dir := Some dir, hn_index_file := Some ''index.htm''\<rparr>; env = plain_env (\<lambda>_. h)
      in if n = 1 then h\<lparr>hn_flags := NXWEB_HANDLE_ANY, hn_next := Some 2, hn_on_select := Some (host_redirect_on_select env fe (\<lambda>_. False) None h)\<rparr>
         else h\<lparr>hn_flags := NXWEB_HANDLE_GET, hn_on_generate_cache_key := Some (sendfile_generate_cache_key fe h), hn_on_select := Some (sendfile_on_select env fe h)\<rparr>)"

interpretation site: routes "plain_env (site_handler fe host dir)" "[1, 2]" for fe host dir
proof
  show "chain (\<lambda>h. hn_next (e_handler (plain_env (site_handler fe host dir)) h)) [1, 2] None"
    by (simp add: plain_env_def site_handler_def handler_zero_def Let_def)
next
  fix n :: nat
  assume "n \<in> set [1, 2]"
  show "sized_handler (e_handler (plain_env (site_handler fe host dir)) n)"
    by (simp add: sized_handler_def plain_env_def site_handler_def handler_zero_def opt_strlen_def Let_def)
  show "polite_handler (e_handler (plain_env (site_handler fe host dir)) n)"
    by (auto simp: polite_handler_def plain_env_def site_handler_def handler_zero_def placed_filters_def Let_def
        dest: host_redirect_polite generate_cache_key_polite sendfile_on_select_polite split: if_splits)
qed

lemma site_dispatch:
  "fresh_request s \<Longrightarrow> NUL \<notin> set (hs_uri s) \<Longrightarrow> nxweb_default_request_dispatcher (plain_env (site_handler fe host dir)) (Some 1) s
     = dispatch_ref (plain_env (site_handler fe host dir)) s (filter (wanted (plain_env (site_handler fe host dir)) s) [1, 2]) s"
  using site.dispatcher_refines [of s fe host dir] by simp

end
