(* ===== verification/Nx_File_Reader.thy ===== *)
theory Nx_File_Reader
  imports Nx_Streams
begin

text \<open>
  The file reader (\<^verbatim>\<open>lib/nx_file_reader.c\<close>, \<^verbatim>\<open>include/nxweb/nx_file_reader.h\<close>): one window of a file in memory, read into allocated
  memory near the end of the file and mapped otherwise.  The system calls are arguments; \<open>None\<close> is undefined behaviour.
\<close>

section \<open>The reader\<close>

definition NX_FILE_READER_MALLOC_SIZE :: nat where "NX_FILE_READER_MALLOC_SIZE = 32768"
definition NX_FILE_READER_MMAP_THRESHOLD :: nat where "NX_FILE_READER_MMAP_THRESHOLD = 32768 * 8"
definition NX_FILE_READER_MMAP_SIZE :: nat where "NX_FILE_READER_MMAP_SIZE = 67108864"

lemmas fr_consts = NX_FILE_READER_MALLOC_SIZE_def NX_FILE_READER_MMAP_THRESHOLD_def NX_FILE_READER_MMAP_SIZE_def

text \<open>\<open>fr_mbuf\<close> are the bytes of the window.\<close>

record nx_file_reader =
  fr_fd :: int
  fr_mbuf :: "string option"
  fr_mbuf_offset :: nat
  fr_mbuf_size :: nat
  fr_file_size :: nat
  fr_mmapped :: bool

text \<open>
  The system: a page is \<open>fs_page_size\<close> bytes; \<open>fs_alloc n\<close> is a block of \<open>n\<close> bytes with whatever they hold; \<open>fs_read fd p n\<close> is the
  result of \<^verbatim>\<open>read\<close> at position \<open>p\<close> and the bytes it stored; \<open>fs_mmap fd p n\<close> are the bytes mapped.
\<close>

record file_sys =
  fs_page_size :: nat
  fs_alloc :: "nat \<Rightarrow> string option"
  fs_lseek :: "int \<Rightarrow> nat \<Rightarrow> int"
  fs_read :: "int \<Rightarrow> nat \<Rightarrow> nat \<Rightarrow> int \<times> string"
  fs_mmap :: "int \<Rightarrow> nat \<Rightarrow> nat \<Rightarrow> string option"

definition nx_file_reader_init :: nx_file_reader where
  "nx_file_reader_init = \<lparr>fr_fd = 0, fr_mbuf = None, fr_mbuf_offset = 0, fr_mbuf_size = 0, fr_file_size = 0, fr_mmapped = False\<rparr>"

text \<open>The windows given back, and whether they were mapped.\<close>

definition nx_file_reader_finalize :: "nx_file_reader \<Rightarrow> (bool \<times> string) list \<times> nx_file_reader" where
  "nx_file_reader_finalize fr =
     (if fr_fd fr \<noteq> 0
      then (case fr_mbuf fr of None \<Rightarrow> ([], fr\<lparr>fr_fd := 0\<rparr>) | Some m \<Rightarrow> ([(fr_mmapped fr, m)], fr\<lparr>fr_mbuf := None, fr_fd := 0\<rparr>))
      else ([], fr))"

text \<open>
  The result of \<^verbatim>\<open>read\<close> is signed and the size is not: the comparison is made on unsigned numbers of 64 bits.
\<close>

definition short_read :: "int \<Rightarrow> nat \<Rightarrow> bool" where
  "short_read r n \<longleftrightarrow> r mod 2 ^ 64 < int n"

definition blank_page :: "nat \<Rightarrow> string" where
  "blank_page n = replicate n SP"

definition load_page :: "file_sys \<Rightarrow> nat \<Rightarrow> nx_file_reader \<Rightarrow> (int \<times> nx_file_reader) option" where
  "load_page sys offset fr =
     (if fr_file_size fr - offset \<le> NX_FILE_READER_MMAP_THRESHOLD then
        (let n = min NX_FILE_READER_MALLOC_SIZE (fr_file_size fr - offset);
             fr = fr\<lparr>fr_mmapped := False, fr_mbuf_offset := offset, fr_mbuf_size := n\<rparr>
         in do {
           junk \<leftarrow> fs_alloc sys n;
           (if fs_lseek sys (fr_fd fr) offset mod 2 ^ 64 \<noteq> int offset then Some (-1, fr\<lparr>fr_mbuf := Some (blank_page n)\<rparr>)
            else let (r, bs) = fs_read sys (fr_fd fr) offset n in
              if short_read r n then Some (-1, fr\<lparr>fr_mbuf := Some (blank_page n)\<rparr>)
              else Some (0, fr\<lparr>fr_mbuf := Some (bs @ drop (length bs) junk)\<rparr>)) })
      else
        (let start = offset - offset mod fs_page_size sys;
             n = min NX_FILE_READER_MMAP_SIZE (fr_file_size fr - start);
             fr = fr\<lparr>fr_mmapped := True, fr_mbuf_offset := start, fr_mbuf_size := n\<rparr>
         in case fs_mmap sys (fr_fd fr) start n of
              Some m \<Rightarrow> Some (0, fr\<lparr>fr_mbuf := Some m\<rparr>)
            | None \<Rightarrow> do {
                junk \<leftarrow> fs_alloc sys n;
                Some (-1, fr\<lparr>fr_mmapped := False, fr_mbuf := Some (blank_page n)\<rparr>) }))"

text \<open>The result is the place in the window, or no place (the code returns the reader itself), with the number of bytes there.\<close>

definition keeps_window :: "int \<Rightarrow> nat \<Rightarrow> nat \<Rightarrow> nx_file_reader \<Rightarrow> bool" where
  "keeps_window fd file_size offset fr \<longleftrightarrow> fr_fd fr = fd \<and> fr_file_size fr = file_size
     \<and> fr_mbuf_offset fr \<le> offset \<and> offset < fr_mbuf_offset fr + fr_mbuf_size fr"

definition nx_file_reader_get_mbuf_ptr ::
  "file_sys \<Rightarrow> nx_file_reader \<Rightarrow> int \<Rightarrow> nat \<Rightarrow> nat \<Rightarrow> ((bool \<times> string) list \<times> nat option \<times> nat \<times> nx_file_reader) option" where
  "nx_file_reader_get_mbuf_ptr sys fr fd file_size offset =
     (if file_size \<le> offset then Some ([], None, 0, fr)
      else let (released, fr) = (if fr_fd fr \<noteq> 0 \<and> \<not> keeps_window fd file_size offset fr then nx_file_reader_finalize fr else ([], fr)) in
        do {
          (r, fr) \<leftarrow> (if fr_fd fr = 0 then load_page sys offset (fr\<lparr>fr_fd := fd, fr_file_size := file_size\<rparr>) else Some (0, fr));
          let p = offset - fr_mbuf_offset fr;
          Some (released, Some p, fr_mbuf_size fr - p, fr) })"

text \<open>
  The bytes at the place returned; \<open>eof\<close> is the flag \<^verbatim>\<open>NXEF_EOF\<close>, taken back while the window ends before the data.  Without a
  descriptor the data is in memory already, and nothing changes.
\<close>

definition nx_file_reader_to_mem_ptr ::
  "file_sys \<Rightarrow> int \<Rightarrow> nx_file_reader \<Rightarrow> nat \<Rightarrow> nat \<Rightarrow> bool
    \<Rightarrow> ((bool \<times> string) list \<times> string option \<times> bool \<times> nx_file_reader) option" where
  "nx_file_reader_to_mem_ptr sys fd fr offs n eof =
     (if fd = 0 then Some ([], None, eof, fr)
      else do {
        (released, p, fr_size, fr) \<leftarrow> nx_file_reader_get_mbuf_ptr sys fr fd (offs + n) offs;
        let bs = (case p of None \<Rightarrow> [] | Some p \<Rightarrow> take fr_size (drop p (the (fr_mbuf fr))));
        Some (released, Some bs, eof \<and> fr_size = n, fr) })"

section \<open>The window shows the file\<close>

text \<open>\<open>files fd\<close> are the bytes of the open file \<open>fd\<close>; \<open>sys_ok\<close> is what the system calls promise for it.\<close>

definition sys_ok :: "file_sys \<Rightarrow> (int \<Rightarrow> string) \<Rightarrow> bool" where
  "sys_ok sys files \<longleftrightarrow> 0 < fs_page_size sys \<and> fs_page_size sys \<le> NX_FILE_READER_MMAP_THRESHOLD
     \<and> (\<forall>n. \<exists>junk. fs_alloc sys n = Some junk \<and> length junk = n)
     \<and> (\<forall>fd p. p < 2 ^ 63 \<longrightarrow> fs_lseek sys fd p = int p)
     \<and> (\<forall>fd p n. p + n \<le> length (files fd) \<longrightarrow> fs_read sys fd p n = (int n, take n (drop p (files fd))))
     \<and> (\<forall>fd p n. p mod fs_page_size sys = 0 \<longrightarrow> p + n \<le> length (files fd) \<longrightarrow> fs_mmap sys fd p n = Some (take n (drop p (files fd))))"

definition window_ok :: "(int \<Rightarrow> string) \<Rightarrow> nx_file_reader \<Rightarrow> bool" where
  "window_ok files fr \<longleftrightarrow> fr_mbuf_offset fr + fr_mbuf_size fr \<le> length (files (fr_fd fr)) \<and> fr_mbuf_offset fr + fr_mbuf_size fr \<le> fr_file_size fr
     \<and> fr_mbuf fr = Some (take (fr_mbuf_size fr) (drop (fr_mbuf_offset fr) (files (fr_fd fr))))"

definition reader_ok :: "(int \<Rightarrow> string) \<Rightarrow> nx_file_reader \<Rightarrow> bool" where
  "reader_ok files fr \<longleftrightarrow> fr_fd fr \<noteq> 0 \<longrightarrow> window_ok files fr"

lemma load_page_run:
  assumes sys: "sys_ok sys files" and len: "fr_file_size fr \<le> length (files (fr_fd fr))" "length (files (fr_fd fr)) < 2 ^ 63" and off: "offset < fr_file_size fr"
  obtains fr' where "load_page sys offset fr = Some (0, fr')" "window_ok files fr'" "keeps_window (fr_fd fr) (fr_file_size fr) offset fr'"
proof (cases "fr_file_size fr - offset \<le> NX_FILE_READER_MMAP_THRESHOLD")
  case True
  define n where "n = min NX_FILE_READER_MALLOC_SIZE (fr_file_size fr - offset)"
  have n: "offset + n \<le> fr_file_size fr" "0 < n" "n \<le> 32768" using off by (auto simp: n_def fr_consts)
  obtain junk where junk: "fs_alloc sys n = Some junk" "length junk = n" using sys unfolding sys_ok_def by blast
  have seek: "fs_lseek sys (fr_fd fr) offset = int offset" using sys off len unfolding sys_ok_def by simp
  have rd: "fs_read sys (fr_fd fr) offset n = (int n, take n (drop offset (files (fr_fd fr))))" using sys n(1) len unfolding sys_ok_def by simp
  define fr' where "fr' = fr\<lparr>fr_mmapped := False, fr_mbuf_offset := offset, fr_mbuf_size := n,
      fr_mbuf := Some (take n (drop offset (files (fr_fd fr))))\<rparr>"
  have "offset < 2 ^ 63" using off len by linarith
  then have "int offset mod 2 ^ 64 = int offset" by simp
  moreover have "\<not> short_read (int n) n" using n(3) by (simp add: short_read_def)
  ultimately have "load_page sys offset fr = Some (0, fr')"
    using True n(1) len by (simp add: load_page_def Let_def n_def [symmetric] junk seek rd fr'_def min_absorb2)
  moreover have "window_ok files fr'" "keeps_window (fr_fd fr) (fr_file_size fr) offset fr'"
    using n len by (simp_all add: window_ok_def keeps_window_def fr'_def)
  ultimately show ?thesis by (rule that)
next
  case False
  define start where "start = offset - offset mod fs_page_size sys"
  define n where "n = min NX_FILE_READER_MMAP_SIZE (fr_file_size fr - start)"
  have pg: "0 < fs_page_size sys" "fs_page_size sys \<le> NX_FILE_READER_MMAP_THRESHOLD" using sys unfolding sys_ok_def by auto
  have st: "start \<le> offset" "start mod fs_page_size sys = 0" "offset - start < fs_page_size sys"
    using pg mod_less_eq_dividend [of offset "fs_page_size sys"] by (simp_all add: start_def minus_mod_eq_mult_div [symmetric] del: mod_less_eq_dividend)
  have n: "start + n \<le> fr_file_size fr" "offset < start + n" using st pg off by (auto simp: n_def fr_consts)
  have mm: "fs_mmap sys (fr_fd fr) start n = Some (take n (drop start (files (fr_fd fr))))" using sys st(2) n(1) len unfolding sys_ok_def by simp
  define fr' where "fr' = fr\<lparr>fr_mmapped := True, fr_mbuf_offset := start, fr_mbuf_size := n,
      fr_mbuf := Some (take n (drop start (files (fr_fd fr))))\<rparr>"
  have "load_page sys offset fr = Some (0, fr')"
    using False by (simp add: load_page_def Let_def start_def [symmetric] n_def [symmetric] mm fr'_def)
  moreover have "window_ok files fr'" "keeps_window (fr_fd fr) (fr_file_size fr) offset fr'"
    using n st len by (simp_all add: window_ok_def keeps_window_def fr'_def)
  ultimately show ?thesis by (rule that)
qed

lemma get_mbuf_ptr_run:
  assumes sys: "sys_ok sys files" and fr: "reader_ok files fr" and fd: "fd \<noteq> 0"
    and len: "file_size \<le> length (files fd)" "length (files fd) < 2 ^ 63" and off: "offset < file_size"
  obtains released p n fr' where "nx_file_reader_get_mbuf_ptr sys fr fd file_size offset = Some (released, Some p, n, fr')" "reader_ok files fr'"
    "0 < n" "offset + n \<le> file_size" "take n (drop p (the (fr_mbuf fr'))) = take n (drop offset (files fd))"
proof -
  define get where "get = nx_file_reader_get_mbuf_ptr sys fr fd file_size offset"
  note result = that
  have fin: thesis if g: "get = Some (released, Some (offset - fr_mbuf_offset fr'), fr_mbuf_size fr' - (offset - fr_mbuf_offset fr'), fr')"
    and ok: "window_ok files fr'" "keeps_window fd file_size offset fr'" for released fr'
  proof (rule result [OF g [unfolded get_def]])
    let ?p = "offset - fr_mbuf_offset fr'"
    show "reader_ok files fr'" "0 < fr_mbuf_size fr' - ?p" "offset + (fr_mbuf_size fr' - ?p) \<le> file_size"
      using ok by (auto simp: reader_ok_def keeps_window_def window_ok_def)
    show "take (fr_mbuf_size fr' - ?p) (drop ?p (the (fr_mbuf fr'))) = take (fr_mbuf_size fr' - ?p) (drop offset (files fd))"
      using ok by (simp add: keeps_window_def window_ok_def drop_take)
  qed
  show ?thesis
  proof (cases "fr_fd fr \<noteq> 0 \<and> keeps_window fd file_size offset fr")
    case True
    then show ?thesis using fin [of "[]" fr] fr off by (simp add: get_def nx_file_reader_get_mbuf_ptr_def reader_ok_def Let_def)
  next
    case False
    define r where "r = (if fr_fd fr \<noteq> 0 \<and> \<not> keeps_window fd file_size offset fr then nx_file_reader_finalize fr else ([], fr))"
    have r: "fr_fd (snd r) = 0" using False by (auto simp: r_def nx_file_reader_finalize_def split: option.split)
    define f1 where "f1 = (snd r)\<lparr>fr_fd := fd, fr_file_size := file_size\<rparr>"
    obtain fr' where "load_page sys offset f1 = Some (0, fr')" "window_ok files fr'" "keeps_window fd file_size offset fr'"
      using load_page_run [OF sys, of f1 offset] len off by (auto simp: f1_def)
    then show ?thesis using fin [of "fst r" fr'] r off by (simp add: get_def nx_file_reader_get_mbuf_ptr_def r_def [symmetric] f1_def split_beta Let_def)
  qed
qed

section \<open>Properties\<close>

text \<open>A client that takes all it is shown, until the end is flagged; each turn shows at least one byte.\<close>

fun send_windows :: "nat \<Rightarrow> file_sys \<Rightarrow> int \<Rightarrow> nx_file_reader \<Rightarrow> nat \<Rightarrow> nat \<Rightarrow> (string \<times> nx_file_reader) option" where
  "send_windows 0 sys fd fr offs n = None"
| "send_windows (Suc k) sys fd fr offs n = do {
     (_, bs, eof, fr) \<leftarrow> nx_file_reader_to_mem_ptr sys fd fr offs n True;
     bs \<leftarrow> bs;
     (if eof then Some (bs, fr)
      else do {
        (rest, fr) \<leftarrow> send_windows k sys fd fr (offs + length bs) (n - length bs);
        Some (bs @ rest, fr) }) }"

lemma to_mem_ptr_run:
  assumes sys: "sys_ok sys files" and fr: "reader_ok files fr" and fd: "fd \<noteq> 0"
    and len: "offs + n \<le> length (files fd)" "length (files fd) < 2 ^ 63" and n: "0 < n"
  obtains released m fr' where "nx_file_reader_to_mem_ptr sys fd fr offs n True = Some (released, Some (take m (drop offs (files fd))), m = n, fr')"
    "0 < m" "m \<le> n" "reader_ok files fr'"
proof -
  obtain released p m fr' where g: "nx_file_reader_get_mbuf_ptr sys fr fd (offs + n) offs = Some (released, Some p, m, fr')" "reader_ok files fr'"
    "0 < m" "offs + m \<le> offs + n" "take m (drop p (the (fr_mbuf fr'))) = take m (drop offs (files fd))"
    by (rule get_mbuf_ptr_run [OF sys fr fd len, of offs]) (use n in auto)
  show ?thesis by (rule that [of released m fr']) (use g fd in \<open>simp_all add: nx_file_reader_to_mem_ptr_def\<close>)
qed

lemma send_windows_run:
  assumes "sys_ok sys files" "reader_ok files fr" "fd \<noteq> 0" "offs + n \<le> length (files fd)" "length (files fd) < 2 ^ 63" "0 < n" "n \<le> k"
  shows "\<exists>fr'. send_windows k sys fd fr offs n = Some (take n (drop offs (files fd)), fr') \<and> reader_ok files fr'"
  using assms
proof (induction k arbitrary: fr offs n)
  case (Suc k)
  obtain released m fr' where t: "nx_file_reader_to_mem_ptr sys fd fr offs n True = Some (released, Some (take m (drop offs (files fd))), m = n, fr')"
    "0 < m" "m \<le> n" "reader_ok files fr'" by (rule to_mem_ptr_run [OF Suc.prems(1-6)])
  have l: "length (take m (drop offs (files fd))) = m" using t(3) Suc.prems(4) by simp
  show ?case
  proof (cases "m = n")
    case False
    have "\<exists>fr''. send_windows k sys fd fr' (offs + m) (n - m) = Some (take (n - m) (drop (offs + m) (files fd)), fr'') \<and> reader_ok files fr''"
      by (rule Suc.IH) (use Suc.prems t False in auto)
    moreover have "take n (drop offs (files fd)) = take m (drop offs (files fd)) @ take (n - m) (drop (offs + m) (files fd))"
      using take_add [of m "n - m" "drop offs (files fd)"] t(3) by (simp add: add.commute)
    ultimately show ?thesis using t False l by (auto simp del: length_take length_drop)
  qed (use t in simp)
qed simp

text \<open>
  C19: a client that asks the file reader for a part of a file and takes what it is shown until the end is flagged
  gets exactly the bytes of that part, whatever window of whatever file the reader held before, and comes to the end: every
  window shows at least one byte.
\<close>

theorem file_reader_streams:
  assumes "sys_ok sys files" "reader_ok files fr" "fd \<noteq> 0" "offs + n \<le> length (files fd)" "length (files fd) < 2 ^ 63" "0 < n"
  shows "\<exists>fr'. send_windows n sys fd fr offs n = Some (take n (drop offs (files fd)), fr') \<and> reader_ok files fr'"
  by (rule send_windows_run [OF assms]) simp

definition text_files :: "int \<Rightarrow> string" where
  "text_files fd = (if fd = 4 then ''hello'' else [])"

definition exact_sys :: "(int \<Rightarrow> string) \<Rightarrow> file_sys" where
  "exact_sys files = \<lparr>fs_page_size = 4096, fs_alloc = (\<lambda>n. Some (replicate n NUL)), fs_lseek = (\<lambda>fd p. int p),
     fs_read = (\<lambda>fd p n. (int (length (take n (drop p (files fd)))), take n (drop p (files fd)))), fs_mmap = (\<lambda>fd p n. Some (take n (drop p (files fd))))\<rparr>"

lemma exact_sys_ok: "sys_ok (exact_sys files) files"
  by (auto simp: sys_ok_def exact_sys_def fr_consts min_def)

theorem file_reader_streams_witness:
  "\<exists>fr'. send_windows 3 (exact_sys text_files) 4 nx_file_reader_init 1 3 = Some (''ell'', fr') \<and> reader_ok text_files fr'"
proof -
  have "reader_ok text_files nx_file_reader_init" by (simp add: reader_ok_def nx_file_reader_init_def)
  from file_reader_streams [OF exact_sys_ok this, of 4 1 3] show ?thesis by (simp add: text_files_def)
qed

text \<open>
  C37: an error of \<^verbatim>\<open>read\<close> is not noticed: its result -1 is compared as an unsigned number, so that the
  page counts as loaded and the client is shown what the allocated memory held before.
\<close>

theorem read_error_shows_memory:
  assumes "fs_read sys fd p n = (-1, [])" "fs_lseek sys fd p = int p" "p < 2 ^ 63" "fs_alloc sys n = Some junk" "length junk = n" "0 < n" "n \<le> 32768" "fd \<noteq> 0"
  shows "map_option (\<lambda>(_, bs, eof, _). (bs, eof)) (nx_file_reader_to_mem_ptr sys fd nx_file_reader_init p n True) = Some (Some junk, True)"
proof -
  have "\<not> short_read (-1) n" using assms(7) by (simp add: short_read_def)
  moreover have "int p mod 2 ^ 64 = int p" using assms(3) by simp
  ultimately have "load_page sys p (nx_file_reader_init\<lparr>fr_fd := fd, fr_file_size := p + n\<rparr>)
      = Some (0, nx_file_reader_init\<lparr>fr_fd := fd, fr_file_size := p + n, fr_mmapped := False, fr_mbuf_offset := p, fr_mbuf_size := n, fr_mbuf := Some junk\<rparr>)"
    using assms by (simp add: load_page_def nx_file_reader_init_def fr_consts min_def)
  then show ?thesis
    using assms(5-8) by (simp add: nx_file_reader_to_mem_ptr_def nx_file_reader_get_mbuf_ptr_def nx_file_reader_init_def)
qed

theorem read_error_shows_memory_witness:
  "map_option (\<lambda>(_, bs, eof, _). (bs, eof))
     (nx_file_reader_to_mem_ptr \<lparr>fs_page_size = 4096, fs_alloc = (\<lambda>n. Some (replicate n (CHR ''x''))), fs_lseek = (\<lambda>fd p. int p), fs_read = (\<lambda>fd p n. (-1, [])),
        fs_mmap = (\<lambda>fd p n. None)\<rparr> 4 nx_file_reader_init 0 3 True) = Some (Some ''xxx'', True)"
  by (subst read_error_shows_memory [where junk = "''xxx''"]) (simp_all add: numeral_3_eq_3)

end
