(* ===== verification/Nx_Socket.thy ===== *)
theory Nx_Socket
  imports Nx_Loop Nx_File_Reader
begin

text \<open>
  Plain sockets as a pair of streams (\<^verbatim>\<open>lib/nxd_socket.c\<close>), and the end of a file buffer (\<^verbatim>\<open>lib/nxd_buffer.c\<close>).  A \<^verbatim>\<open>read\<close> or \<^verbatim>\<open>write\<close> method that
  can fail an assertion is of the types below; the system calls are arguments that work on the rest of the world.
\<close>

type_synonym 'w read_method = "nat \<Rightarrow> 'w env \<Rightarrow> ((string \<times> bool) \<times> 'w env) option"
type_synonym 'w write_method = "string \<Rightarrow> bool \<Rightarrow> 'w env \<Rightarrow> (int \<times> 'w env) option"

definition NXE_RDCLOSED :: int where "NXE_RDCLOSED = -5"
definition NXE_WRITTEN_NONE :: int where "NXE_WRITTEN_NONE = -6"
definition EAGAIN :: int where "EAGAIN = 11"

text \<open>
  \<open>sk_read fd n\<close> gives the result of \<^verbatim>\<open>read\<close>, the bytes stored and \<^verbatim>\<open>errno\<close>; \<open>sk_write fd file bytes\<close> the result of
  \<^verbatim>\<open>write\<close>, or of \<^verbatim>\<open>sendfile\<close> for bytes of a file, and \<^verbatim>\<open>errno\<close>; \<open>sk_cork\<close> holds partial packets back.
\<close>

record 'w sock_sys =
  sk_read :: "nat \<Rightarrow> nat \<Rightarrow> 'w \<Rightarrow> (int \<times> string \<times> int) \<times> 'w"
  sk_write :: "nat \<Rightarrow> bool \<Rightarrow> string \<Rightarrow> 'w \<Rightarrow> (int \<times> int) \<times> 'w"
  sk_cork :: "nat \<Rightarrow> 'w \<Rightarrow> 'w"
  sk_shutdown :: "nat \<Rightarrow> 'w \<Rightarrow> 'w"

definition sock_data_recv_read :: "'w sock_sys \<Rightarrow> (nxp_pool \<Rightarrow> nat option) \<Rightarrow> nxe_fd_source \<Rightarrow> 'w read_method" where
  "sock_data_recv_read sys mem fs n s =
     (case s of (st, w) \<Rightarrow>
        if n = 0 then Some (([], False), s)
        else case sk_read sys (fs_fd fs) n w of ((r, bs, errno), w) \<Rightarrow>
          if r < 0 then do {
            let st = nxe_istream_unset_ready (fs_data_is fs) st;
            st \<leftarrow> (if errno \<noteq> EAGAIN then nxe_publish mem (fs_data_error fs) NXE_ERROR st else Some st);
            Some (([], False), st, w) }
          else do {
            let st = (if r < int n then nxe_istream_unset_ready (fs_data_is fs) st else st);
            st \<leftarrow> (if r < int n \<and> r = 0 then nxe_publish mem (fs_data_error fs) NXE_RDCLOSED st else Some st);
            Some ((take (nat r) bs, False), st, w) })"

text \<open>\<open>file\<close> tells that the bytes are those of a file, sent with \<^verbatim>\<open>sendfile\<close>.\<close>

definition sock_data_send_write :: "'w sock_sys \<Rightarrow> (nxp_pool \<Rightarrow> nat option) \<Rightarrow> nxe_fd_source \<Rightarrow> bool \<Rightarrow> 'w write_method" where
  "sock_data_send_write sys mem fs file bs eof s =
     (case s of (st, w) \<Rightarrow>
        if bs = [] then Some (0, s)
        else
          (let (st, w) = (if ev_batch_write_fd st = 0 then (st\<lparr>ev_batch_write_fd := fs_fd fs\<rparr>, sk_cork sys (fs_fd fs) w) else (st, w))
           in case sk_write sys (fs_fd fs) file bs w of ((r, errno), w) \<Rightarrow>
             if r < 0 then do {
               let st = nxe_ostream_unset_ready (fs_data_os fs) st;
               st \<leftarrow> (if errno \<noteq> EAGAIN then nxe_publish mem (fs_data_error fs) NXE_ERROR st else Some st);
               Some (0, st, w) }
             else do {
               let st = (if r < int (length bs) then nxe_ostream_unset_ready (fs_data_os fs) st else st);
               st \<leftarrow> (if r < int (length bs) \<and> r = 0 \<and> \<not> file then nxe_publish mem (fs_data_error fs) NXE_WRITTEN_NONE st else Some st);
               Some (r, st, w) }))"

definition sock_data_send_shutdown :: "'w sock_sys \<Rightarrow> nxe_fd_source \<Rightarrow> 'w env \<Rightarrow> 'w env" where
  "sock_data_send_shutdown sys fs s = (case s of (st, w) \<Rightarrow> (st, sk_shutdown sys (fs_fd fs) w))"

definition socket_shutdown :: "'w sock_sys \<Rightarrow> nxe_fd_source \<Rightarrow> 'w \<Rightarrow> 'w" where
  "socket_shutdown sys fs w = sk_shutdown sys (fs_fd fs) w"

text \<open>Fields of a source cleared with its socket; the streams and the publisher are embedded in it.\<close>

definition nxd_socket_init :: "nxe_fd_source \<Rightarrow> nxe_events \<Rightarrow> nx_file_reader \<times> nxe_fd_source \<times> nxe_events" where
  "nxd_socket_init fs st =
     (let st = clear_ostream (fs_data_os fs) (clear_istream (fs_data_is fs) st)
      in (nx_file_reader_init, fs\<lparr>fs_fd := 0\<rparr>, st\<lparr>pub_sub := (pub_sub st)(fs_data_error fs := None), pub_loop := (pub_loop st)(fs_data_error fs := False)\<rparr>))"

text \<open>The result tells how the descriptor is closed: \<open>True\<close> in the good way, \<open>False\<close> with a reset.\<close>

definition nxd_socket_finalize :: "bool \<Rightarrow> nxe_fd_source \<Rightarrow> bool \<Rightarrow> nx_file_reader \<Rightarrow> counted \<Rightarrow> ((nat \<times> bool) \<times> nx_file_reader \<times> counted) option" where
  "nxd_socket_finalize ctl fs good fr s = do {
     s \<leftarrow> (if is_loop (fst s) (fs_data_is fs) then nxe_unregister_fd_source ctl fs s else Some s);
     let (_, fr) = nx_file_reader_finalize fr;
     Some ((fs_fd fs, good), fr, s) }"

definition nxd_fbuffer_finalize :: "nxd_fbuffer \<Rightarrow> nx_file_reader \<Rightarrow> nxe_events \<Rightarrow> (nxd_fbuffer \<times> nx_file_reader \<times> nxe_events) option" where
  "nxd_fbuffer_finalize fb fr st = do {
     st \<leftarrow> (case is_pair st (fb_data_out fb) of Some o' \<Rightarrow> nxe_disconnect_streams (fb_data_out fb) o' st | None \<Rightarrow> Some st);
     let (_, fr) = nx_file_reader_finalize fr;
     Some (fb\<lparr>fb_fd := 0\<rparr>, fr, st) }"

end
