(* ===== verification/Nx_Server_Proto.thy ===== *)
theory Nx_Server_Proto
  imports Nx_Socket Nx_Dispatch Nx_Chunked_Encoder Nx_Http_Request Nx_Http_Send
begin

text \<open>
  The server side of HTTP on one connection (\<^verbatim>\<open>lib/nxd_http_server_proto.c\<close>): a machine with six states between the streams of the socket
  and those of the handler.  It receives a request into the arena, passes its body on, sends the response that a handler
  has made and gets ready for the next request; three timers guard the connection.

  The connection is the state \<open>hst\<close> of the dispatcher whose world is the record \<open>hsp\<close> of the protocol.  The other ends of the streams are
  arguments: \<open>reader\<close> and \<open>writer\<close> are the methods of the socket, \<open>do_read\<close> and \<open>do_write\<close> those of the streams at the body's ends, which in
  turn call the methods defined here.  \<open>None\<close> is a failed assertion or undefined behaviour.
\<close>

section \<open>State\<close>

datatype nxd_http_server_proto_state =
  HSP_WAITING_FOR_REQUEST | HSP_RECEIVING_HEADERS | HSP_RECEIVING_BODY | HSP_HANDLING | HSP_SENDING_HEADERS | HSP_SENDING_BODY

definition NXWEB_TIMER_KEEP_ALIVE :: nat where "NXWEB_TIMER_KEEP_ALIVE = 0"
definition NXWEB_TIMER_READ :: nat where "NXWEB_TIMER_READ = 1"
definition NXWEB_TIMER_WRITE :: nat where "NXWEB_TIMER_WRITE = 2"

definition NXWEB_MAX_REQUEST_HEADERS_SIZE :: nat where "NXWEB_MAX_REQUEST_HEADERS_SIZE = 4096"
definition NXWEB_CONN_NXB_SIZE :: nat where "NXWEB_CONN_NXB_SIZE = NXWEB_MAX_REQUEST_HEADERS_SIZE + 1024"

definition NXD_HSP_KEEP_ALIVE_TIMEOUT :: int where "NXD_HSP_KEEP_ALIVE_TIMEOUT = -27001"
definition NXD_HSP_READ_TIMEOUT :: int where "NXD_HSP_READ_TIMEOUT = -27002"
definition NXD_HSP_WRITE_TIMEOUT :: int where "NXD_HSP_WRITE_TIMEOUT = -27003"
definition NXD_HSP_REQUEST_CHUNKED_ENCODING_ERROR :: int where "NXD_HSP_REQUEST_CHUNKED_ENCODING_ERROR = -27004"
definition NXD_HSP_REQUEST_RECEIVED :: int where "NXD_HSP_REQUEST_RECEIVED = 27101"
definition NXD_HSP_REQUEST_BODY_RECEIVED :: int where "NXD_HSP_REQUEST_BODY_RECEIVED = 27102"
definition NXD_HSP_REQUEST_COMPLETE :: int where "NXD_HSP_REQUEST_COMPLETE = 27109"

definition response_100_continue :: string where
  "response_100_continue = ''HTTP/1.1 100 Continue'' @ CRLF @ CRLF"

text \<open>
  The protocol's own fields, the timers of the loop, and those fields of request and response that only the protocol uses.
  \<open>hp_nxb\<close> is the object of the pool that holds the arena; \<open>hp_resp\<close> tells that \<^verbatim>\<open>resp\<close> is set (it is the embedded response then); the bytes between
  \<^verbatim>\<open>first_body_chunk\<close> and \<^verbatim>\<open>first_body_chunk_end\<close> are a string, \<^verbatim>\<open>resp_headers_ptr\<close> points into a literal or the arena.
  Finalizers of request data are numbers, given a meaning by the environment.  \<open>hp_no_complete h\<close> tells that the field \<^verbatim>\<open>on_complete\<close> of handler \<open>h\<close>
  has been cleared.
\<close>

record 'v hsp =
  hp_state :: nxd_http_server_proto_state
  hp_timers :: nxe_timers
  hp_nxb_pool :: nxp_pool
  hp_nxb :: "nxp_object option"
  hp_request_count :: int
  hp_headers_bytes_received :: nat
  hp_req :: nxweb_http_request
  hp_uid :: nat
  hp_sending_100_continue :: bool
  hp_content_received :: nat
  hp_chunked_content_complete :: bool
  hp_cdstate :: nxweb_chunked_decoder_state
  hp_data_chain :: "(nat, nat option) nxweb_http_request_data list"
  hp_access_log :: bool
  hp_resp :: bool
  hp_chunked_autoencode :: bool
  hp_cestate :: nxweb_chunked_encoder_state
  hp_bytes_sent :: int
  hp_first_body_chunk :: "string option"
  hp_resp_headers_ptr :: "cptr option"
  hp_fr :: nx_file_reader
  hp_req_finalize :: bool
  hp_no_complete :: "nat \<Rightarrow> bool"
  hp_rest :: 'v

type_synonym 'v conn = "'v hsp hst"

text \<open>
  What the protocol is given: the numbers of its streams, its publisher and its timers; memory for events and arenas; and the code
  of the other components that it calls.
\<close>

record 'v proto_env =
  p_server :: "'v hsp server_env"
  p_data_in :: nat
  p_data_out :: nat
  p_req_body_out :: nat
  p_resp_body_in :: nat
  p_data_error :: nat
  p_events_pub :: nat
  p_timer_keep_alive :: nat
  p_timer_read :: nat
  p_timer_write :: nat
  p_mem :: "nxp_pool \<Rightarrow> nat option"
  p_nxb_mem :: "nxp_pool \<Rightarrow> nat option"
  p_nxb_addr :: "nxp_object \<Rightarrow> nat"
  p_generate_unique_id :: "'v \<Rightarrow> nat \<times> 'v"
  p_finalize_subrequests :: "'v conn \<Rightarrow> 'v conn option"
  p_log_complete :: "'v conn \<Rightarrow> 'v conn option"
  p_req_finalizer :: "'v conn \<Rightarrow> 'v conn option"
  p_data_finalizer :: "nat \<Rightarrow> nat \<Rightarrow> 'v conn \<Rightarrow> 'v conn option"
  p_shutdown :: "'v env \<Rightarrow> 'v env option"
  p_now :: int
  p_clock :: "'v \<Rightarrow> nxe_clock"
  p_set_clock :: "nxe_clock \<Rightarrow> 'v \<Rightarrow> 'v"

section \<open>Access to the parts\<close>

definition upd :: "('v hsp \<Rightarrow> 'v hsp) \<Rightarrow> 'v conn \<Rightarrow> 'v conn" where
  "upd f s = s\<lparr>hs_world := f (hs_world s)\<rparr>"

definition on_events :: "(nxe_events \<Rightarrow> nxe_events option) \<Rightarrow> 'v conn \<Rightarrow> 'v conn option" where
  "on_events f s = map_option (\<lambda>st. s\<lparr>hs_events := st\<rparr>) (f (hs_events s))"

definition is_unready :: "nat \<Rightarrow> 'v conn \<Rightarrow> 'v conn" where
  "is_unready i s = s\<lparr>hs_events := nxe_istream_unset_ready i (hs_events s)\<rparr>"

definition os_unready :: "nat \<Rightarrow> 'v conn \<Rightarrow> 'v conn" where
  "os_unready i s = s\<lparr>hs_events := nxe_ostream_unset_ready i (hs_events s)\<rparr>"

definition on_timers :: "(nxe_timers \<Rightarrow> nxe_timers option) \<Rightarrow> 'v conn \<Rightarrow> 'v conn option" where
  "on_timers f s = map_option (\<lambda>ts. upd (\<lambda>h. h\<lparr>hp_timers := ts\<rparr>) s) (f (hp_timers (hs_world s)))"

definition publish :: "'v proto_env \<Rightarrow> int \<Rightarrow> 'v conn \<Rightarrow> 'v conn option" where
  "publish p d = on_events (nxe_publish (p_mem p) (p_events_pub p) d)"

text \<open>A method of a peer, run on the loop and the rest of the world.\<close>

definition on_peer :: "('v env \<Rightarrow> ('a \<times> 'v env) option) \<Rightarrow> 'v conn \<Rightarrow> ('a \<times> 'v conn) option" where
  "on_peer f s = map_option (\<lambda>(r, st, v). (r, upd (\<lambda>h. h\<lparr>hp_rest := v\<rparr>) (s\<lparr>hs_events := st\<rparr>))) (f (hs_events s, hp_rest (hs_world s)))"

text \<open>\<^verbatim>\<open>if (x.pair) nxe_disconnect_streams(...)\<close>, for an input and for an output stream.\<close>

definition disconnect_is :: "nat \<Rightarrow> 'v conn \<Rightarrow> 'v conn option" where
  "disconnect_is i s = (case is_pair (hs_events s) i of None \<Rightarrow> Some s | Some o' \<Rightarrow> on_events (nxe_disconnect_streams i o') s)"

definition disconnect_os :: "nat \<Rightarrow> 'v conn \<Rightarrow> 'v conn option" where
  "disconnect_os o' s = (case os_pair (hs_events s) o' of None \<Rightarrow> Some s | Some i \<Rightarrow> on_events (nxe_disconnect_streams i o') s)"

text \<open>The string at an address of the arena; it need not end.\<close>

partial_function (option) str_at :: "(nat \<Rightarrow> char) \<Rightarrow> nat \<Rightarrow> string option" where
  "str_at m a = (if m a = NUL then Some [] else do { r \<leftarrow> str_at m (a + 1); Some (m a # r) })"

definition load_str :: "cptr \<Rightarrow> 'v conn \<Rightarrow> string option" where
  "load_str c s = (case c of Lit str \<Rightarrow> Some str | Ptr a \<Rightarrow> str_at (nb_mem (hs_nb s)) a)"

definition ptr_add :: "nat \<Rightarrow> cptr \<Rightarrow> cptr" where
  "ptr_add n c = (case c of Lit str \<Rightarrow> Lit (drop n str) | Ptr a \<Rightarrow> Ptr (a + n))"

section \<open>The end of a request\<close>

text \<open>The chain of request data; new entries are put in front of it, so that a position is counted from the end.\<close>

fun finalize_chain :: "'v proto_env \<Rightarrow> nat \<Rightarrow> 'v conn \<Rightarrow> 'v conn option" where
  "finalize_chain p 0 s = Some s"
| "finalize_chain p (Suc k) s =
     (let ds = hp_data_chain (hs_world s); i = length ds - Suc k in
      case rd_finalize (ds ! i) of
        None \<Rightarrow> finalize_chain p k s
      | Some f \<Rightarrow> do {
          s \<leftarrow> p_data_finalizer p f (rd_value (ds ! i)) s;
          let ds = hp_data_chain (hs_world s);
          let i = length ds - Suc k;
          finalize_chain p k (upd (\<lambda>h. h\<lparr>hp_data_chain := ds[i := (ds ! i)\<lparr>rd_finalize := None\<rparr>]\<rparr>) s) })"

definition log_request :: "'v proto_env \<Rightarrow> 'v conn \<Rightarrow> 'v conn option" where
  "log_request p s =
     (if hp_access_log (hs_world s) then map_option (upd (\<lambda>h. h\<lparr>hp_access_log := False\<rparr>)) (p_log_complete p s) else Some s)"

text \<open>\<^verbatim>\<open>req_finalize\<close> is the finalizer of the cache (\<^verbatim>\<open>Nx_Cache\<close>) or, with \<open>hp_req_finalize\<close>, that of another module.\<close>

definition run_req_finalize :: "'v proto_env \<Rightarrow> 'v conn \<Rightarrow> 'v conn option" where
  "run_req_finalize p s =
     (if hp_req_finalize (hs_world s) then map_option (upd (\<lambda>h. h\<lparr>hp_req_finalize := False\<rparr>)) (p_req_finalizer p s)
      else map_option (\<lambda>(conn, c). s\<lparr>hs_conn := conn, hs_cache := c\<rparr>) (request_finalize (e_loop_time (p_server p)) (hs_conn s) (hs_cache s)))"

definition finalize_handler_filters :: "'v proto_env \<Rightarrow> 'v conn \<Rightarrow> 'v conn option" where
  "finalize_handler_filters p s =
     (case handler_of (p_server p) s of None \<Rightarrow> Some s
      | Some h \<Rightarrow> if hn_num_filters h \<noteq> 0 then finalize_filters (placed_filters h) s else Some s)"

definition call_on_complete :: "'v proto_env \<Rightarrow> 'v conn \<Rightarrow> 'v conn option" where
  "call_on_complete p s =
     (case hs_handler s of None \<Rightarrow> Some s
      | Some h \<Rightarrow>
          (case hn_on_complete (e_handler (p_server p) h) of None \<Rightarrow> Some s
           | Some on_complete \<Rightarrow>
               if hp_no_complete (hs_world s) h then Some s
               else map_option (\<lambda>(_, s). upd (\<lambda>hp. hp\<lparr>hp_no_complete := (hp_no_complete hp)(h := True)\<rparr>) s) (on_complete s)))"

definition nxweb_call_request_finalizers :: "'v proto_env \<Rightarrow> 'v conn \<Rightarrow> 'v conn option" where
  "nxweb_call_request_finalizers p s = do {
     s \<leftarrow> p_finalize_subrequests p s;
     s \<leftarrow> (if hp_resp (hs_world s) then case rs_content_out (hs_resp s) of None \<Rightarrow> Some s | Some i \<Rightarrow> disconnect_is i s else Some s);
     s \<leftarrow> log_request p s;
     s \<leftarrow> run_req_finalize p s;
     s \<leftarrow> finalize_chain p (length (hp_data_chain (hs_world s))) s;
     s \<leftarrow> finalize_handler_filters p s;
     s \<leftarrow> call_on_complete p s;
     Some (s\<lparr>hs_handler := None, hs_handler_param := 0\<rparr>) }"

definition finalize_fb :: "'v conn \<Rightarrow> 'v conn option" where
  "finalize_fb s = map_option (\<lambda>(fb, fr, st). upd (\<lambda>h. h\<lparr>hp_fr := fr\<rparr>) (s\<lparr>hs_fb := fb, hs_events := st\<rparr>))
     (nxd_fbuffer_finalize (hs_fb s) (hp_fr (hs_world s)) (hs_events s))"

definition close_sendfile :: "'v conn \<Rightarrow> 'v conn" where
  "close_sendfile s = (if hp_resp (hs_world s) \<and> rs_sendfile_fd (hs_resp s) \<noteq> 0 then s\<lparr>hs_closed := rs_sendfile_fd (hs_resp s) # hs_closed s\<rparr> else s)"

definition release_nxb :: "nxp_object \<Rightarrow> 'v conn \<Rightarrow> 'v conn option" where
  "release_nxb obj s = do {
     nb \<leftarrow> nxb_empty (hs_nb s);
     pool \<leftarrow> nxp_free obj (hp_nxb_pool (hs_world s));
     Some (upd (\<lambda>h. h\<lparr>hp_nxb_pool := pool\<rparr>) (s\<lparr>hs_nb := nb\<rparr>)) }"

text \<open>\<^verbatim>\<open>memset\<close> of request and response.\<close>

definition clear_request :: "'v conn \<Rightarrow> 'v conn" where
  "clear_request s = upd (\<lambda>h. h\<lparr>hp_req := request_zero, hp_uid := 0, hp_sending_100_continue := False, hp_content_received := 0, hp_chunked_content_complete := False,
       hp_cdstate := cds_zero, hp_data_chain := [], hp_access_log := False\<rparr>)
     (s\<lparr>hs_uri := [], hs_path_info := None, hs_host := None, hs_if_modified_since := 0, hs_get_method := False, hs_post_method := False,
       hs_other_method := False, hs_content_length := 0, hs_filter_data := (\<lambda>_. None)\<rparr>)"

definition ces_zero :: nxweb_chunked_encoder_state where
  "ces_zero = \<lparr>ce_final_chunk = False, ce_header_prepared = False, ce_chunk_size = 0, ce_pos = 0, ce_buf = replicate 8 NUL\<rparr>"

definition clear_response :: "'v conn \<Rightarrow> 'v conn" where
  "clear_response s = upd (\<lambda>h. h\<lparr>hp_chunked_autoencode := False, hp_cestate := ces_zero, hp_bytes_sent := 0, hp_resp := False\<rparr>)
     (s\<lparr>hs_resp := response_zero, hs_cache_key := None, hs_run_filter_idx := 0\<rparr>)"

definition rearm_connection :: "'v proto_env \<Rightarrow> 'v conn \<Rightarrow> 'v conn option" where
  "rearm_connection p s = do {
     s \<leftarrow> (if hp_resp (hs_world s) \<and> rs_keep_alive (hs_resp s) then on_events (nxe_ostream_set_ready (p_data_in p)) s
           else case is_pair (hs_events s) (p_data_out p) of None \<Rightarrow> Some s
                | Some _ \<Rightarrow> map_option snd (on_peer (\<lambda>e. map_option (Pair ()) (p_shutdown p e)) s));
     on_timers (nxe_set_timer NXWEB_TIMER_KEEP_ALIVE (p_timer_keep_alive p)) s }"

definition request_cleanup :: "'v proto_env \<Rightarrow> 'v conn \<Rightarrow> 'v conn option" where
  "request_cleanup p s = do {
     s \<leftarrow> nxweb_call_request_finalizers p s;
     s \<leftarrow> finalize_fb s;
     let s = close_sendfile s;
     obj \<leftarrow> hp_nxb (hs_world s);
     s \<leftarrow> release_nxb obj s;
     let s = upd (\<lambda>h. h\<lparr>hp_nxb := None, hp_request_count := hp_request_count h + 1, hp_state := HSP_WAITING_FOR_REQUEST, hp_headers_bytes_received := 0\<rparr>) s;
     s \<leftarrow> rearm_connection p s;
     Some (clear_response (clear_request s)) }"

definition request_complete :: "'v proto_env \<Rightarrow> 'v conn \<Rightarrow> 'v conn option" where
  "request_complete p s = do {
     let s = is_unready (p_data_out p) s;
     s \<leftarrow> on_timers (nxe_unset_timer NXWEB_TIMER_WRITE (p_timer_write p)) s;
     s \<leftarrow> disconnect_os (p_resp_body_in p) s;
     s \<leftarrow> disconnect_is (p_req_body_out p) s;
     publish p NXD_HSP_REQUEST_COMPLETE s }"

section \<open>Starting the response\<close>

definition nxweb_reset_content_out :: "'v conn \<Rightarrow> 'v conn option" where
  "nxweb_reset_content_out s = do {
     let resp = hs_resp s;
     let s = s\<lparr>hs_resp := resp\<lparr>rs_content_out := None, rs_content := None, rs_content_length := 0, rs_sendfile_path := None\<rparr>,
               hs_closed := (if rs_sendfile_fd resp \<noteq> 0 then rs_sendfile_fd resp # hs_closed s else hs_closed s)\<rparr>;
     s \<leftarrow> (if fb_fd (hs_fb s) \<noteq> 0 then finalize_fb s else Some s);
     Some (upd (\<lambda>h. h\<lparr>hp_chunked_autoencode := False\<rparr>)
       (s\<lparr>hs_resp := (hs_resp s)\<lparr>rs_sendfile_fd := 0, rs_chunked_encoding := False, rs_gzip_encoded := False\<rparr>\<rparr>)) }"

definition fresh_enough :: "'v conn \<Rightarrow> bool" where
  "fresh_enough s \<longleftrightarrow> hs_if_modified_since s \<noteq> 0 \<and> rs_last_modified (hs_resp s) \<noteq> 0
     \<and> rs_last_modified (hs_resp s) \<le> hs_if_modified_since s \<and> rs_status_code (hs_resp s) \<noteq> 304"

definition answer_not_modified :: "'v conn \<Rightarrow> 'v conn option" where
  "answer_not_modified s = map_option (\<lambda>s. s\<lparr>hs_resp := (hs_resp s)\<lparr>rs_status_code := 304, rs_status := Some ''Not Modified''\<rparr>\<rparr>) (nxweb_reset_content_out s)"

definition prepare_headers :: "'v proto_env \<Rightarrow> 'v conn \<Rightarrow> 'v conn option" where
  "prepare_headers p s =
     (if rs_raw_headers (hs_resp s) \<noteq> None then Some s
      else map_option (\<lambda>(resp, lp, nb). upd (\<lambda>h. h\<lparr>hp_rest := p_set_clock p lp (hp_rest h)\<rparr>) (s\<lparr>hs_resp := resp, hs_nb := nb\<rparr>))
        (nxweb_prepare_response_headers (e_version (p_server p)) (p_now p) (p_clock p (hp_rest (hs_world s))) (hs_resp s) (hs_nb s)))"

text \<open>Content and headers are set up: the body is connected, the headers are offered to the socket.\<close>

definition offer_response :: "'v proto_env \<Rightarrow> 'v conn \<Rightarrow> 'v conn option" where
  "offer_response p s = do {
     s \<leftarrow> nxd_http_server_proto_setup_content_out (p_server p) s;
     s \<leftarrow> (case rs_content_out (hs_resp s) of None \<Rightarrow> Some s | Some i \<Rightarrow> on_events (nxe_connect_streams i (p_resp_body_in p)) s);
     s \<leftarrow> prepare_headers p s;
     (if \<not> hp_sending_100_continue (hs_world s)
      then on_events (nxe_istream_set_ready (p_data_out p)) (upd (\<lambda>h. h\<lparr>hp_resp_headers_ptr := map_option Ptr (rs_raw_headers (hs_resp s))\<rparr>) s)
      else Some s) }"

definition init_encoder :: "'v conn \<Rightarrow> 'v conn" where
  "init_encoder s = (if hp_chunked_autoencode (hs_world s) then upd (\<lambda>h. h\<lparr>hp_cestate := nxweb_encode_chunked_init\<rparr>) s else s)"

definition begin_response :: "'v proto_env \<Rightarrow> 'v conn \<Rightarrow> 'v conn option" where
  "begin_response p s =
     (if hp_chunked_autoencode (hs_world s) \<and> rs_content_length (hs_resp s) \<noteq> -1 then None
      else do {
        s \<leftarrow> (if fresh_enough s then answer_not_modified s else Some s);
        offer_response p (init_encoder s) })"

text \<open>
  Everything in this theory answers with the connection's own response (\<^verbatim>\<open>&hsp->_resp\<close>), whose
  \<^verbatim>\<open>nxb\<close> is the arena of the connection from \<^verbatim>\<open>nxweb_http_response_init\<close> on: the default that
  the C function fills in for a response without arena (\<^verbatim>\<open>if (!resp->nxb)\<close>) has no effect on it.
\<close>

definition nxd_http_server_proto_start_sending_response :: "'v proto_env \<Rightarrow> 'v conn \<Rightarrow> 'v conn option" where
  "nxd_http_server_proto_start_sending_response p s =
     (if hp_state (hs_world s) \<notin> {HSP_RECEIVING_HEADERS, HSP_RECEIVING_BODY, HSP_HANDLING} then Some s
      else do {
        s \<leftarrow> on_timers (nxe_unset_timer NXWEB_TIMER_READ (p_timer_read p)) (upd (\<lambda>h. h\<lparr>hp_resp := True\<rparr>) s);
        s \<leftarrow> begin_response p s;
        on_timers (nxe_set_timer NXWEB_TIMER_WRITE (p_timer_write p)) (upd (\<lambda>h. h\<lparr>hp_state := HSP_SENDING_HEADERS\<rparr>) s) })"

section \<open>Receiving a request\<close>

definition start_request :: "'v proto_env \<Rightarrow> 'v conn \<Rightarrow> 'v conn option" where
  "start_request p s =
     (case nxp_alloc (p_nxb_mem p (hp_nxb_pool (hs_world s))) (hp_nxb_pool (hs_world s)) of
        Some (Some obj, pool) \<Rightarrow> do {
          nb \<leftarrow> nxb_reserve NXWEB_MAX_REQUEST_HEADERS_SIZE (nxb_init (p_nxb_addr p obj) NXWEB_CONN_NXB_SIZE (hs_nb s));
          let s = upd (\<lambda>h. h\<lparr>hp_nxb_pool := pool, hp_nxb := Some obj\<rparr>) (s\<lparr>hs_nb := nb\<rparr>);
          s \<leftarrow> on_timers (nxe_unset_timer NXWEB_TIMER_KEEP_ALIVE (p_timer_keep_alive p)) s;
          s \<leftarrow> on_timers (nxe_set_timer NXWEB_TIMER_READ (p_timer_read p)) s;
          Some (upd (\<lambda>h. h\<lparr>hp_state := HSP_RECEIVING_HEADERS\<rparr>) s) }
      | _ \<Rightarrow> None)"

definition bad_request :: "'v proto_env \<Rightarrow> 'v conn \<Rightarrow> 'v conn option" where
  "bad_request p s = do {
     s \<leftarrow> on_timers (nxe_unset_timer NXWEB_TIMER_READ (p_timer_read p)) s;
     let s = os_unready (p_data_in p) s;
     let resp = nxweb_http_response_init (hs_resp s) None;
     (closed, resp, nb) \<leftarrow> nxweb_send_http_error (e_version (p_server p)) 400 ''Bad Request'' resp (hs_nb s);
     nxd_http_server_proto_start_sending_response p
       (s\<lparr>hs_closed := closed @ hs_closed s, hs_resp := resp\<lparr>rs_keep_alive := False\<rparr>, hs_nb := nb\<rparr>) }"

text \<open>The parsed request, whose fields are strings in the received bytes \<open>m\<close>.\<close>

definition load_request :: "mem \<Rightarrow> nxweb_http_request \<Rightarrow> 'v conn \<Rightarrow> 'v conn" where
  "load_request m req s = upd (\<lambda>h. h\<lparr>hp_req := req\<rparr>)
     (s\<lparr>hs_uri := (case rq_uri req of None \<Rightarrow> [] | Some u \<Rightarrow> cstr m u), hs_host := map_option (cstr m) (rq_host req),
        hs_path_info := map_option (cstr m) (rq_path_info req), hs_if_modified_since := rq_if_modified_since req, hs_get_method := rq_get_method req,
        hs_post_method := rq_post_method req, hs_other_method := rq_other_method req, hs_content_length := rq_content_length req\<rparr>)"

text \<open>The bytes that came with the headers, or a client that waits for the interim response.\<close>

definition keep_first_chunk :: "'v proto_env \<Rightarrow> string \<Rightarrow> 'v conn \<Rightarrow> 'v conn option" where
  "keep_first_chunk p bs s =
     (if bs \<noteq> [] then Some (upd (\<lambda>h. h\<lparr>hp_first_body_chunk := Some bs\<rparr>) s)
      else let s = upd (\<lambda>h. h\<lparr>hp_first_body_chunk := None\<rparr>) s in
        if rq_expect_100_continue (hp_req (hs_world s))
        then on_events (nxe_istream_set_ready (p_data_out p))
          (upd (\<lambda>h. h\<lparr>hp_sending_100_continue := True, hp_resp_headers_ptr := Some (Lit response_100_continue)\<rparr>) s)
        else Some s)"

definition request_received :: "'v proto_env \<Rightarrow> string \<Rightarrow> 'v conn \<Rightarrow> 'v conn option" where
  "request_received p rest s = do {
     s \<leftarrow> keep_first_chunk p rest s;
     let s = os_unready (p_data_in p) s;
     let req = hp_req (hs_world s);
     let s = upd (\<lambda>h. h\<lparr>hp_resp := True\<rparr>)
       (s\<lparr>hs_resp := nxweb_http_response_init (hs_resp s) (Some (hs_host s, rq_http11 req, rq_keep_alive req))\<rparr>);
     s \<leftarrow> publish p NXD_HSP_REQUEST_RECEIVED s;
     (if rq_content_length (hp_req (hs_world s)) \<noteq> 0
      then on_events (nxe_istream_set_ready (p_req_body_out p)) (upd (\<lambda>h. h\<lparr>hp_state := HSP_RECEIVING_BODY\<rparr>) s)
      else map_option (upd (\<lambda>h. h\<lparr>hp_state := HSP_HANDLING\<rparr>)) (on_timers (nxe_unset_timer NXWEB_TIMER_READ (p_timer_read p)) s)) }"

text \<open>The end of the headers was found at \<open>e\<close> in the \<open>n\<close> bytes at \<open>base\<close>, the body starts at \<open>b\<close>.\<close>

definition headers_received :: "'v proto_env \<Rightarrow> nat \<Rightarrow> nat \<Rightarrow> nat \<Rightarrow> nat \<Rightarrow> 'v conn \<Rightarrow> 'v conn option" where
  "headers_received p base n e b s = do {
     let s = s\<lparr>hs_nb := snd (snd (nxb_finish_stream (hs_nb s)))\<rparr>;
     let (uid, v) = p_generate_unique_id p (hp_rest (hs_world s));
     let s = upd (\<lambda>h. h\<lparr>hp_uid := uid, hp_rest := v\<rparr>) s;
     (r, m, req) \<leftarrow> nxweb_parse_http_request (mem_read (nb_mem (hs_nb s)) base n) (hp_req (hs_world s)) 0 (Some e);
     let s = load_request m req (s\<lparr>hs_nb := (hs_nb s)\<lparr>nb_mem := mem_write (nb_mem (hs_nb s)) base m\<rparr>\<rparr>);
     (if r \<noteq> 0 then bad_request p s else request_received p (drop b m) s) }"

text \<open>New bytes at the end of the stream in the arena.\<close>

definition search_headers :: "'v proto_env \<Rightarrow> 'v conn \<Rightarrow> 'v conn option" where
  "search_headers p s = do {
     let (base, n) = nxb_get_unfinished (hs_nb s);
     let s = upd (\<lambda>h. h\<lparr>hp_headers_bytes_received := n\<rparr>) s;
     found \<leftarrow> nxweb_find_end_of_http_headers (mem_read (nb_mem (hs_nb s)) base n) 0 n;
     (case found of
        Some (e, b) \<Rightarrow> headers_received p base n e b s
      | None \<Rightarrow> if NXWEB_MAX_REQUEST_HEADERS_SIZE \<le> n then bad_request p s else Some s) }"

definition receive_headers :: "'v proto_env \<Rightarrow> 'v read_method \<Rightarrow> 'v conn \<Rightarrow> 'v conn option" where
  "receive_headers p reader s = do {
     let (ptr, n) = nxb_get_room (hs_nb s);
     ((bs, _), s) \<leftarrow> on_peer (reader n) s;
     (if n < length bs then None
      else if bs = [] then Some s
      else do {
        nb \<leftarrow> nxb_blank_fast (length bs) ((hs_nb s)\<lparr>nb_mem := mem_write (nb_mem (hs_nb s)) ptr bs\<rparr>);
        search_headers p (s\<lparr>hs_nb := nb\<rparr>) }) }"

definition pass_body :: "'v proto_env \<Rightarrow> ('v conn \<Rightarrow> 'v conn option) \<Rightarrow> 'v conn \<Rightarrow> 'v conn option" where
  "pass_body p do_read s =
     (case is_pair (hs_events s) (p_req_body_out p) of
        None \<Rightarrow> Some (os_unready (p_data_in p) s)
      | Some next_os \<Rightarrow> do {
          s \<leftarrow> (if os_ready (hs_events s) next_os then do_read s else Some s);
          (if \<not> os_ready (hs_events s) next_os
           then on_events (nxe_istream_set_ready (p_req_body_out p)) (os_unready (p_data_in p) s)
           else Some s) })"

definition data_in_do_read :: "'v proto_env \<Rightarrow> 'v read_method \<Rightarrow> ('v conn \<Rightarrow> 'v conn option) \<Rightarrow> 'v conn \<Rightarrow> 'v conn option" where
  "data_in_do_read p reader do_read s = do {
     s \<leftarrow> (if hp_state (hs_world s) = HSP_WAITING_FOR_REQUEST then start_request p s else Some s);
     (case hp_state (hs_world s) of
        HSP_RECEIVING_HEADERS \<Rightarrow> receive_headers p reader s
      | HSP_RECEIVING_BODY \<Rightarrow> pass_body p do_read s
      | _ \<Rightarrow> Some s) }"

section \<open>Passing the body of the request on\<close>

definition is_request_body_complete :: "'v conn \<Rightarrow> bool" where
  "is_request_body_complete s \<longleftrightarrow> 0 < rq_content_length (hp_req (hs_world s)) \<and> rq_content_length (hp_req (hs_world s)) \<le> int (hp_content_received (hs_world s))
     \<or> hp_chunked_content_complete (hs_world s)"

text \<open>Bytes that arrived, decoded in place if the body is chunked, and counted.\<close>

definition decode_body :: "'v proto_env \<Rightarrow> string \<Rightarrow> 'v conn \<Rightarrow> (string \<times> 'v conn) option" where
  "decode_body p bs s =
     (if rq_chunked_encoding (hp_req (hs_world s)) then do {
        (r, ds, m, n) \<leftarrow> nxweb_decode_chunked_stream (hp_cdstate (hs_world s)) bs 0 (length bs);
        let s = upd (\<lambda>h. h\<lparr>hp_cdstate := ds\<rparr>) s;
        s \<leftarrow> (if r < 0 then publish p NXD_HSP_REQUEST_CHUNKED_ENCODING_ERROR s
              else Some (if 0 < r then upd (\<lambda>h. h\<lparr>hp_chunked_content_complete := True\<rparr>) s else s));
        Some (take n m, s) }
      else Some (bs, s))"

definition count_body :: "'v proto_env \<Rightarrow> string \<Rightarrow> 'v conn \<Rightarrow> (string \<times> 'v conn) option" where
  "count_body p bs s = map_option (\<lambda>(bs, s). (bs, upd (\<lambda>h. h\<lparr>hp_content_received := hp_content_received h + length bs\<rparr>) s)) (decode_body p bs s)"

definition body_received :: "'v proto_env \<Rightarrow> 'v conn \<Rightarrow> 'v conn option" where
  "body_received p s = map_option (\<lambda>s. is_unready (p_req_body_out p) (os_unready (p_data_in p) (upd (\<lambda>h. h\<lparr>hp_state := HSP_HANDLING\<rparr>) s)))
     (publish p NXD_HSP_REQUEST_BODY_RECEIVED s)"

text \<open>The bytes that came with the headers; the flag is that the body is complete.\<close>

definition take_first_chunk :: "'v proto_env \<Rightarrow> nat \<Rightarrow> 'v conn \<Rightarrow> (bool \<times> string \<times> 'v conn) option" where
  "take_first_chunk p n s =
     (case hp_first_body_chunk (hs_world s) of
        None \<Rightarrow> Some (False, [], s)
      | Some fb \<Rightarrow> do {
          let s = upd (\<lambda>h. h\<lparr>hp_first_body_chunk := (if length fb \<le> n then None else Some (drop n fb))\<rparr>) s;
          (bs, s) \<leftarrow> count_body p (take n fb) s;
          (if is_request_body_complete s then do { s \<leftarrow> body_received p s; Some (True, bs, s) } else Some (False, bs, s)) })"

text \<open>The rest comes from the socket.\<close>

definition read_more :: "'v proto_env \<Rightarrow> 'v read_method \<Rightarrow> nat \<Rightarrow> 'v conn \<Rightarrow> (bool \<times> string \<times> 'v conn) option" where
  "read_more p reader n s =
     (case os_pair (hs_events s) (p_data_in p) of
        None \<Rightarrow> Some (False, [], is_unready (p_req_body_out p) s)
      | Some prev_is \<Rightarrow> do {
          ((bs, _), s) \<leftarrow> (if is_ready (hs_events s) prev_is then on_peer (reader n) s else Some (([], False), s));
          (if n < length bs then None
           else do {
             s \<leftarrow> (if \<not> is_ready (hs_events s) prev_is then on_events (nxe_ostream_set_ready (p_data_in p)) (is_unready (p_req_body_out p) s) else Some s);
             (bs, s) \<leftarrow> count_body p bs s;
             (if is_request_body_complete s then do { s \<leftarrow> body_received p s; Some (True, bs, s) } else Some (False, bs, s)) }) })"

definition read_rest :: "'v proto_env \<Rightarrow> 'v read_method \<Rightarrow> nat \<Rightarrow> string \<Rightarrow> 'v conn \<Rightarrow> ((string \<times> bool) \<times> 'v conn) option" where
  "read_rest p reader n bs s = do {
     (complete, bs2, s) \<leftarrow> (if 0 < n - length bs then read_more p reader (n - length bs) s else Some (False, [], s));
     (if complete then Some ((bs @ bs2, True), s)
      else map_option (Pair (bs @ bs2, False)) (on_timers (nxe_set_timer NXWEB_TIMER_READ (p_timer_read p)) s)) }"

definition req_body_out_read :: "'v proto_env \<Rightarrow> 'v read_method \<Rightarrow> nat \<Rightarrow> 'v conn \<Rightarrow> ((string \<times> bool) \<times> 'v conn) option" where
  "req_body_out_read p reader n s =
     (if hp_state (hs_world s) = HSP_HANDLING then Some (([], True), is_unready (p_req_body_out p) s)
      else if hp_state (hs_world s) \<noteq> HSP_RECEIVING_BODY
      then map_option (Pair ([], False)) (on_events (nxe_ostream_set_ready (p_data_in p)) (is_unready (p_req_body_out p) s))
      else do {
        s \<leftarrow> on_timers (nxe_unset_timer NXWEB_TIMER_READ (p_timer_read p)) s;
        (complete, bs, s) \<leftarrow> take_first_chunk p n s;
        (if complete then Some ((bs, True), s) else read_rest p reader n bs s) })"

section \<open>Sending the response\<close>

text \<open>A write of the bytes at \<^verbatim>\<open>resp_headers_ptr\<close>; the pointer moves by the number of bytes taken, which is the result with the number offered.\<close>

definition write_headers :: "'v proto_env \<Rightarrow> (bool \<Rightarrow> 'v write_method) \<Rightarrow> cptr \<Rightarrow> string \<Rightarrow> 'v conn \<Rightarrow> (nat \<times> 'v conn) option" where
  "write_headers p writer c str s = do {
     (r, s) \<leftarrow> on_peer (writer False str True) s;
     (if r < 0 \<or> int (length str) < r then None
      else Some (nat r, upd (\<lambda>h. h\<lparr>hp_resp_headers_ptr := Some (ptr_add (nat r) c)\<rparr>) s)) }"

text \<open>\<^verbatim>\<open>resp_headers_ptr && *resp_headers_ptr\<close>: what is left to send there.\<close>

definition headers_left :: "'v conn \<Rightarrow> (cptr \<times> string) option option" where
  "headers_left s =
     (case hp_resp_headers_ptr (hs_world s) of None \<Rightarrow> Some None
      | Some c \<Rightarrow> map_option (\<lambda>str. if str = [] then None else Some (c, str)) (load_str c s))"

text \<open>The interim response; the flag is that the method returns after it.\<close>

definition send_100_continue :: "'v proto_env \<Rightarrow> (bool \<Rightarrow> 'v write_method) \<Rightarrow> 'v conn \<Rightarrow> (bool \<times> 'v conn) option" where
  "send_100_continue p writer s =
     (if \<not> hp_sending_100_continue (hs_world s) then Some (False, s)
      else do {
        left \<leftarrow> headers_left s;
        (case left of None \<Rightarrow> Some (False, s)
         | Some (c, str) \<Rightarrow> do {
             (n, s) \<leftarrow> write_headers p writer c str s;
             (if n \<noteq> length str then Some (True, s)
              else let s = upd (\<lambda>h. h\<lparr>hp_sending_100_continue := False\<rparr>) s in
                if hp_state (hs_world s) = HSP_SENDING_HEADERS
                then Some (False, upd (\<lambda>h. h\<lparr>hp_resp_headers_ptr := map_option Ptr (rs_raw_headers (hs_resp s))\<rparr>) s)
                else Some (True, is_unready (p_data_out p) s)) }) })"

definition send_headers :: "'v proto_env \<Rightarrow> (bool \<Rightarrow> 'v write_method) \<Rightarrow> 'v conn \<Rightarrow> (bool \<times> 'v conn) option" where
  "send_headers p writer s =
     (if hp_state (hs_world s) \<noteq> HSP_SENDING_HEADERS then Some (False, s)
      else do {
        left \<leftarrow> headers_left s;
        (stop, s) \<leftarrow> (case left of None \<Rightarrow> Some (False, s)
           | Some (c, str) \<Rightarrow> do {
               (n, s) \<leftarrow> write_headers p writer c str s;
               (if n < length str then Some (True, s) else Some (False, upd (\<lambda>h. h\<lparr>hp_resp_headers_ptr := None\<rparr>) s)) });
        (if stop then Some (True, s)
         else if rs_content_length (hs_resp s) = 0 \<or> rq_head_method (hp_req (hs_world s))
         then map_option (Pair True) (request_complete p s)
         else Some (False, upd (\<lambda>h. h\<lparr>hp_state := HSP_SENDING_BODY\<rparr>) s)) })"

definition send_body_part :: "'v proto_env \<Rightarrow> ('v conn \<Rightarrow> 'v conn option) \<Rightarrow> 'v conn \<Rightarrow> 'v conn option" where
  "send_body_part p do_write s =
     (case (if hp_state (hs_world s) = HSP_SENDING_BODY then os_pair (hs_events s) (p_resp_body_in p) else None) of
        None \<Rightarrow> Some (is_unready (p_data_out p) s)
      | Some prev_is \<Rightarrow> do {
          s \<leftarrow> (if is_ready (hs_events s) prev_is
                then do_write (s\<lparr>hs_events := (hs_events s)\<lparr>os_ready := (os_ready (hs_events s))(p_resp_body_in p := True)\<rparr>\<rparr>)
                else Some s);
          (if \<not> is_ready (hs_events s) prev_is
           then on_events (nxe_ostream_set_ready (p_resp_body_in p)) (is_unready (p_data_out p) s)
           else Some s) })"

definition data_out_do_write :: "'v proto_env \<Rightarrow> (bool \<Rightarrow> 'v write_method) \<Rightarrow> ('v conn \<Rightarrow> 'v conn option) \<Rightarrow> 'v conn \<Rightarrow> 'v conn option" where
  "data_out_do_write p writer do_write s = do {
     (stop, s) \<leftarrow> send_100_continue p writer s;
     (if stop then Some s
      else do {
        s \<leftarrow> on_timers (nxe_unset_timer NXWEB_TIMER_WRITE (p_timer_write p)) s;
        s \<leftarrow> on_timers (nxe_set_timer NXWEB_TIMER_WRITE (p_timer_write p)) s;
        (stop, s) \<leftarrow> send_headers p writer s;
        (if stop then Some s else send_body_part p do_write s) }) }"

text \<open>One write through the chunked encoder, and whether not all was taken.\<close>

definition write_encoded :: "(bool \<Rightarrow> 'v write_method) \<Rightarrow> bool \<Rightarrow> string \<Rightarrow> bool \<Rightarrow> 'v conn \<Rightarrow> (nat \<times> bool \<times> 'v conn) option" where
  "write_encoded writer file bs eof s = do {
     (r, s) \<leftarrow> on_peer (writer file bs eof) s;
     (if r < 0 then None
      else Some (nat r, nat r \<noteq> length bs, upd (\<lambda>h. h\<lparr>hp_cestate := nxweb_encode_chunked_advance (hp_cestate h) (nat r)\<rparr>) s)) }"

definition write_frame :: "(bool \<Rightarrow> 'v write_method) \<Rightarrow> nat \<Rightarrow> bool \<Rightarrow> 'v conn \<Rightarrow> (bool \<times> nat \<times> bool \<times> 'v conn) option" where
  "write_frame writer n eof s = do {
     (r, es, chunk_size, send_ptr, send_size, cwf) \<leftarrow> nxweb_encode_chunked_stream (hp_cestate (hs_world s)) n eof;
     let s = upd (\<lambda>h. h\<lparr>hp_cestate := es\<rparr>) s;
     (if r then map_option (\<lambda>(_, skip, s). (skip, chunk_size, cwf, s)) (write_encoded writer False (frame_bytes es send_ptr send_size) cwf s)
      else Some (False, chunk_size, cwf, s)) }"

definition write_data :: "(bool \<Rightarrow> 'v write_method) \<Rightarrow> bool \<Rightarrow> string \<Rightarrow> bool \<times> nat \<times> bool \<times> 'v conn \<Rightarrow> (nat \<times> bool \<times> nat \<times> 'v conn) option" where
  "write_data writer file bs = (\<lambda>(skip, chunk_size, cwf, s).
     if \<not> skip \<and> chunk_size \<noteq> 0
     then map_option (\<lambda>(sent, skip, s). (sent, skip, chunk_size, s)) (write_encoded writer file (take chunk_size bs) cwf s)
     else Some (0, skip, chunk_size, s))"

definition write_trailer :: "(bool \<Rightarrow> 'v write_method) \<Rightarrow> string \<Rightarrow> bool \<Rightarrow> nat \<times> bool \<times> nat \<times> 'v conn \<Rightarrow> (nat \<times> 'v conn) option" where
  "write_trailer writer bs eof = (\<lambda>(sent, skip, chunk_size, s).
     if skip then Some (sent, s)
     else map_option (\<lambda>(_, _, _, s). (sent, s)) (write_frame writer 0 (if chunk_size = length bs then eof else False) s))"

text \<open>The frame before the data, the data of the chunk, and the frame after it.\<close>

definition write_chunk :: "(bool \<Rightarrow> 'v write_method) \<Rightarrow> bool \<Rightarrow> string \<Rightarrow> bool \<Rightarrow> 'v conn \<Rightarrow> (nat \<times> 'v conn) option" where
  "write_chunk writer file bs eof s = do {
     before_data \<leftarrow> write_frame writer (length bs) eof s;
     after_data \<leftarrow> write_data writer file bs before_data;
     write_trailer writer bs eof after_data }"

definition write_plain :: "(bool \<Rightarrow> 'v write_method) \<Rightarrow> bool \<Rightarrow> string \<Rightarrow> bool \<Rightarrow> 'v conn \<Rightarrow> (nat \<times> 'v conn) option" where
  "write_plain writer file bs eof s = do {
     (r, s) \<leftarrow> on_peer (writer file bs eof) s;
     (if r < 0 \<or> int (length bs) < r then None else Some (nat r, s)) }"

definition write_out :: "(bool \<Rightarrow> 'v write_method) \<Rightarrow> nat \<Rightarrow> bool \<Rightarrow> string \<Rightarrow> bool \<Rightarrow> 'v conn \<Rightarrow> (nat \<times> 'v conn) option" where
  "write_out writer next_os file bs eof s =
     (if \<not> os_ready (hs_events s) next_os then Some (0, s)
      else if hp_chunked_autoencode (hs_world s) then write_chunk writer file bs eof s
      else write_plain writer file bs eof s)"

definition write_body :: "'v proto_env \<Rightarrow> (bool \<Rightarrow> 'v write_method) \<Rightarrow> bool \<Rightarrow> string \<Rightarrow> bool \<Rightarrow> 'v conn \<Rightarrow> (nat \<times> 'v conn) option" where
  "write_body p writer file bs eof s =
     (case is_pair (hs_events s) (p_data_out p) of
        None \<Rightarrow> Some (0, os_unready (p_resp_body_in p) s)
      | Some next_os \<Rightarrow> do {
          (sent, s) \<leftarrow> write_out writer next_os file bs eof s;
          (if \<not> os_ready (hs_events s) next_os
           then map_option (Pair sent) (on_events (nxe_istream_set_ready (p_data_out p)) (os_unready (p_resp_body_in p) s))
           else Some (sent, s)) })"

text \<open>After a write of the body: the request is complete, or the timer for writing is set again.\<close>

definition body_sent :: "'v proto_env \<Rightarrow> nat \<Rightarrow> bool \<Rightarrow> nat \<Rightarrow> 'v conn \<Rightarrow> 'v conn option" where
  "body_sent p n eof sent s =
     (let s = upd (\<lambda>h. h\<lparr>hp_bytes_sent := hp_bytes_sent h + int sent\<rparr>) s in
      if eof \<and> sent = n \<and> (\<not> hp_chunked_autoencode (hs_world s) \<or> nxweb_encode_chunked_is_complete (hp_cestate (hs_world s)))
      then request_complete p s
      else on_timers (nxe_set_timer NXWEB_TIMER_WRITE (p_timer_write p)) s)"

definition resp_body_in_write_or_sendfile :: "'v proto_env \<Rightarrow> (bool \<Rightarrow> 'v write_method) \<Rightarrow> bool \<Rightarrow> string \<Rightarrow> bool \<Rightarrow> 'v conn \<Rightarrow> (nat \<times> 'v conn) option" where
  "resp_body_in_write_or_sendfile p writer file bs eof s =
     (if hp_state (hs_world s) \<noteq> HSP_SENDING_BODY
      then map_option (Pair 0) (on_events (nxe_istream_set_ready (p_data_out p)) (os_unready (p_resp_body_in p) s))
      else do {
        s \<leftarrow> on_timers (nxe_unset_timer NXWEB_TIMER_WRITE (p_timer_write p)) s;
        (sent, s) \<leftarrow> (if bs \<noteq> [] \<or> hp_chunked_autoencode (hs_world s) then write_body p writer file bs eof s else Some (0, s));
        map_option (Pair sent) (body_sent p (length bs) eof sent s) })"

section \<open>Errors, timeouts, connecting and closing\<close>

definition data_error_on_message :: "'v proto_env \<Rightarrow> int \<Rightarrow> 'v conn \<Rightarrow> 'v conn option" where
  "data_error_on_message p d s = publish p d s"

definition timer_keep_alive_on_timeout :: "'v proto_env \<Rightarrow> 'v conn \<Rightarrow> 'v conn option" where
  "timer_keep_alive_on_timeout p s = publish p NXD_HSP_KEEP_ALIVE_TIMEOUT s"

definition timer_read_on_timeout :: "'v proto_env \<Rightarrow> 'v conn \<Rightarrow> 'v conn option" where
  "timer_read_on_timeout p s = publish p NXD_HSP_READ_TIMEOUT s"

definition timer_write_on_timeout :: "'v proto_env \<Rightarrow> 'v conn \<Rightarrow> 'v conn option" where
  "timer_write_on_timeout p s = publish p NXD_HSP_WRITE_TIMEOUT s"

definition nxd_http_server_proto_finalize :: "'v proto_env \<Rightarrow> 'v conn \<Rightarrow> 'v conn option" where
  "nxd_http_server_proto_finalize p s = do {
     s \<leftarrow> nxweb_call_request_finalizers p s;
     s \<leftarrow> on_timers (nxe_unset_timer NXWEB_TIMER_KEEP_ALIVE (p_timer_keep_alive p)) s;
     s \<leftarrow> on_timers (nxe_unset_timer NXWEB_TIMER_READ (p_timer_read p)) s;
     s \<leftarrow> on_timers (nxe_unset_timer NXWEB_TIMER_WRITE (p_timer_write p)) s;
     s \<leftarrow> (case sub_pub (hs_events s) (p_data_error p) of None \<Rightarrow> Some s | Some pub \<Rightarrow> on_events (nxe_unsubscribe pub (p_data_error p)) s);
     s \<leftarrow> on_events (unsubscribe_all (p_events_pub p)) s;
     s \<leftarrow> disconnect_os (p_data_in p) s;
     s \<leftarrow> disconnect_is (p_data_out p) s;
     s \<leftarrow> disconnect_os (p_resp_body_in p) s;
     s \<leftarrow> disconnect_is (p_req_body_out p) s;
     s \<leftarrow> finalize_fb s;
     let s = close_sendfile s;
     (case hp_nxb (hs_world s) of None \<Rightarrow> Some s | Some obj \<Rightarrow> release_nxb obj s) }"

definition connect_request_body_out :: "'v proto_env \<Rightarrow> nat \<Rightarrow> 'v conn \<Rightarrow> 'v conn option" where
  "connect_request_body_out p os = on_events (nxe_connect_streams (p_req_body_out p) os)"

definition get_request_body_out_pair :: "'v proto_env \<Rightarrow> 'v conn \<Rightarrow> nat option" where
  "get_request_body_out_pair p s = is_pair (hs_events s) (p_req_body_out p)"

definition start_receiving_request_body :: "'v proto_env \<Rightarrow> 'v conn \<Rightarrow> 'v conn option" where
  "start_receiving_request_body p = on_events (nxe_ostream_set_ready (p_data_in p))"

definition init_streams :: "'v proto_env \<Rightarrow> nxe_events \<Rightarrow> nxe_events" where
  "init_streams p st =
     (let st = clear_istream (e_ob_data_out (p_server p)) (clear_istream (e_fb_data_out (p_server p)) st);
          st = clear_istream (p_req_body_out p) (clear_istream (p_data_out p) (clear_ostream (p_resp_body_in p) (clear_ostream (p_data_in p) st)))
      in st\<lparr>os_ready := (os_ready st)(p_data_in p := True, p_resp_body_in p := True),
            pub_sub := (pub_sub st)(p_events_pub p := None), pub_loop := (pub_loop st)(p_events_pub p := False),
            sub_pub := (sub_pub st)(p_data_error p := None), sub_next := (sub_next st)(p_data_error p := None),
            sub_evt := (sub_evt st)(p_data_error p := None), sub_loop := (sub_loop st)(p_data_error p := False)\<rparr>)"

text \<open>Cleared fields of a timer.\<close>

definition clear_timer :: "nat \<Rightarrow> nxe_timers \<Rightarrow> nxe_timers" where
  "clear_timer t ts = ts\<lparr>tm_next := (tm_next ts)(t := None), tm_prev := (tm_prev ts)(t := None), tm_abs_time := (tm_abs_time ts)(t := 0)\<rparr>"

definition nxd_http_server_proto_init :: "'v proto_env \<Rightarrow> nxp_pool \<Rightarrow> 'v conn \<Rightarrow> 'v conn" where
  "nxd_http_server_proto_init p nxb_pool s = clear_response (clear_request
     (upd (\<lambda>h. h\<lparr>hp_state := HSP_WAITING_FOR_REQUEST, hp_nxb_pool := nxb_pool, hp_nxb := None, hp_request_count := 0, hp_headers_bytes_received := 0,
         hp_first_body_chunk := None, hp_resp_headers_ptr := None, hp_fr := nx_file_reader_init, hp_req_finalize := False,
         hp_timers := clear_timer (p_timer_write p) (clear_timer (p_timer_read p) (clear_timer (p_timer_keep_alive p) (hp_timers h)))\<rparr>)
       (s\<lparr>hs_events := init_streams p (hs_events s), hs_conn := \<lparr>cc_req_data = None, cc_req_finalize = False\<rparr>,
          hs_fb := (hs_fb s)\<lparr>fb_fd := 0, fb_offset := 0, fb_end := 0\<rparr>, hs_ob := (hs_ob s)\<lparr>ob_mem := [], ob_data_ptr := 0, ob_data_size := 0\<rparr>\<rparr>)))"

definition nxd_http_server_proto_connect :: "'v proto_env \<Rightarrow> 'v conn \<Rightarrow> 'v conn option" where
  "nxd_http_server_proto_connect p s =
     on_timers (nxe_set_timer NXWEB_TIMER_KEEP_ALIVE (p_timer_keep_alive p)) (upd (\<lambda>h. h\<lparr>hp_state := HSP_WAITING_FOR_REQUEST\<rparr>) s)"

section \<open>The handler's last callback\<close>

text \<open>
  The field \<^verbatim>\<open>on_complete\<close> that is cleared belongs to the handler, which all requests share: once a request of the handler has ended, the callback
  is not called at the end of any other.
\<close>

lemma on_complete_cleared:
  assumes "hs_handler s = Some h" "hn_on_complete (e_handler (p_server p) h) = Some on_complete" "on_complete s = Some (r, s1)"
  shows "\<exists>s'. call_on_complete p s = Some s' \<and> (\<not> hp_no_complete (hs_world s) h \<longrightarrow> hp_no_complete (hs_world s') h)"
    "hp_no_complete (hs_world later) h \<Longrightarrow> hs_handler later = Some h \<Longrightarrow> call_on_complete p later = Some later"
  using assms by (simp_all add: call_on_complete_def upd_def)

end
