(* ===== verification/Nx_Server_Timers.thy ===== *)
theory Nx_Server_Timers
  imports Nx_Server_Proto
begin

text \<open>
  The states of the server protocol and their timers: whatever the order in which the streams, the handler and the loop call the protocol,
  each of its three timers is set exactly in the states it guards.
\<close>

section \<open>What the loop's routines do to streams\<close>

definition streams_kept :: "nxe_events \<Rightarrow> nxe_events \<Rightarrow> bool" where
  "streams_kept st st' \<longleftrightarrow> is_ready st' = is_ready st \<and> os_pair st' = os_pair st \<and> is_pair st' = is_pair st \<and> os_ready st' = os_ready st"

lemma streams_kept_refl [simp]: "streams_kept st st"
  by (simp add: streams_kept_def)

lemma streams_kept_trans: "streams_kept a b \<Longrightarrow> streams_kept b c \<Longrightarrow> streams_kept a c"
  by (simp add: streams_kept_def)

lemma link_keeps: "nxe_link e st = Some st' \<Longrightarrow> streams_kept st st'"
  by (auto simp: nxe_link_def streams_kept_def split: if_splits)

lemma unlink_keeps: "nxe_unlink e st = Some st' \<Longrightarrow> streams_kept st st'"
  by (auto simp: nxe_unlink_def streams_kept_def split: if_splits)

lemma new_event_keeps: "new_event mem c r d st = Some (e, st') \<Longrightarrow> streams_kept st st'"
  by (auto simp: new_event_def Let_def streams_kept_def dest!: link_keeps split: option.splits)

lemma publish_to_keeps: "publish_to mem d sub st = Some st' \<Longrightarrow> streams_kept st st'"
  by (auto simp: publish_to_def streams_kept_def bind_eq_Some_conv dest!: new_event_keeps split: option.splits)

lemma publish_loop_keeps:
  assumes "publish_loop mem d x st = Some st'"
  shows "streams_kept st st'"
proof (rule publish_loop.raw_induct [where P = "\<lambda>mem d x st st'. streams_kept st st'", OF _ assms])
  fix run mem' d' x' st1 st2
  assume "\<And>a b c e r. run a b c e = Some r \<Longrightarrow> streams_kept e r"
    and "(case x' of None \<Rightarrow> Some st1 | Some sub \<Rightarrow> Option.bind (publish_to mem' d' sub st1) (\<lambda>st. run mem' d' (sub_next st sub) st)) = Some st2"
  then show "streams_kept st1 st2"
    by (auto simp: bind_eq_Some_conv split: option.splits dest!: publish_to_keeps intro: streams_kept_trans)
qed

lemma publish_keeps: "nxe_publish mem pub d st = Some st' \<Longrightarrow> streams_kept st st'"
  using publish_loop_keeps by (auto simp: nxe_publish_def split: if_splits)

lemma emit_keeps: "emit_stream i o' st = Some st' \<Longrightarrow> streams_kept st st'"
  by (auto simp: emit_stream_def streams_kept_def dest!: link_keeps)

lemma is_set_ready_streams:
  "nxe_istream_set_ready i st = Some st' \<Longrightarrow> is_ready st' = (is_ready st)(i := True) \<and> os_pair st' = os_pair st"
  by (auto simp: nxe_istream_set_ready_def streams_kept_def Let_def dest!: emit_keeps split: if_splits option.splits)

lemma os_set_ready_streams:
  "nxe_ostream_set_ready o' st = Some st' \<Longrightarrow> is_ready st' = is_ready st \<and> os_pair st' = os_pair st"
  by (auto simp: nxe_ostream_set_ready_def streams_kept_def Let_def dest!: emit_keeps split: if_splits option.splits)

lemma connect_streams: "nxe_connect_streams i o' st = Some st' \<Longrightarrow> is_ready st' = is_ready st \<and> os_pair st' = (os_pair st)(o' := Some i)"
  by (auto simp: nxe_connect_streams_def streams_kept_def Let_def dest!: emit_keeps split: if_splits)

lemma disconnect_streams: "nxe_disconnect_streams i o' st = Some st' \<Longrightarrow> is_ready st' = is_ready st \<and> os_pair st' = (os_pair st)(o' := None)"
  by (auto simp: nxe_disconnect_streams_def streams_kept_def Let_def dest!: unlink_keeps split: if_splits)

section \<open>The part of the state that matters\<close>

record hsp_key =
  k_state :: nxd_http_server_proto_state
  k_keep_alive :: bool
  k_read :: bool
  k_write :: bool
  k_time :: bool
  k_100 :: bool
  k_ptr :: "cptr option"
  k_out :: bool
  k_body :: bool

text \<open>A timer is set when its time is not zero; the sums of now and the timeouts must not wrap to zero.\<close>

definition armed :: "nat \<Rightarrow> 'v conn \<Rightarrow> bool" where
  "armed t s \<longleftrightarrow> tm_abs_time (hp_timers (hs_world s)) t \<noteq> 0"

definition time_ok :: "nxe_timers \<Rightarrow> bool" where
  "time_ok ts \<longleftrightarrow> (\<forall>q \<in> {NXWEB_TIMER_KEEP_ALIVE, NXWEB_TIMER_READ, NXWEB_TIMER_WRITE}. (tl_current_time ts + tq_timeout ts q) mod 2 ^ 64 \<noteq> 0)"

definition key :: "'v proto_env \<Rightarrow> 'v conn \<Rightarrow> hsp_key" where
  "key p s = \<lparr>k_state = hp_state (hs_world s), k_keep_alive = armed (p_timer_keep_alive p) s, k_read = armed (p_timer_read p) s,
     k_write = armed (p_timer_write p) s, k_time = time_ok (hp_timers (hs_world s)), k_100 = hp_sending_100_continue (hs_world s),
     k_ptr = hp_resp_headers_ptr (hs_world s), k_out = is_ready (hs_events s) (p_data_out p), k_body = (os_pair (hs_events s) (p_resp_body_in p) \<noteq> None)\<rparr>"

lemmas key_defs = key_def armed_def upd_def

definition sending :: "nxd_http_server_proto_state \<Rightarrow> bool" where
  "sending x \<longleftrightarrow> x = HSP_SENDING_HEADERS \<or> x = HSP_SENDING_BODY"

definition receiving :: "nxd_http_server_proto_state \<Rightarrow> bool" where
  "receiving x \<longleftrightarrow> x = HSP_RECEIVING_HEADERS \<or> x = HSP_RECEIVING_BODY"

text \<open>
  The invariant: each timer in its states; a response without its timer is complete, it no longer writes; the socket is offered data only by
  a response or an interim response; and an interim response still has bytes to send.
\<close>

definition key_ok :: "hsp_key \<Rightarrow> bool" where
  "key_ok k \<longleftrightarrow> k_time k
     \<and> (k_keep_alive k \<longleftrightarrow> k_state k = HSP_WAITING_FOR_REQUEST)
     \<and> (k_read k \<longleftrightarrow> receiving (k_state k))
     \<and> (k_write k \<longrightarrow> sending (k_state k))
     \<and> (sending (k_state k) \<and> \<not> k_write k \<longrightarrow> \<not> k_out k \<and> \<not> k_body k)
     \<and> (k_body k \<longrightarrow> sending (k_state k))
     \<and> (k_out k \<longrightarrow> sending (k_state k) \<or> k_100 k)
     \<and> (k_100 k \<longrightarrow> k_state k \<notin> {HSP_WAITING_FOR_REQUEST, HSP_RECEIVING_HEADERS, HSP_SENDING_BODY} \<and> (\<exists>c str. k_ptr k = Some (Lit (c # str))))"

lemma key_same [simp]: "k\<lparr>k_out := k_out k\<rparr> = k" "k\<lparr>k_body := k_body k\<rparr> = k" for k :: hsp_key
  by simp_all

text \<open>A response offered to the socket, unless an interim response is still on its way.\<close>

definition offered :: "bool \<Rightarrow> cptr option \<Rightarrow> hsp_key \<Rightarrow> hsp_key" where
  "offered b c k = k\<lparr>k_body := b, k_ptr := (if k_100 k then k_ptr k else c), k_out := (\<not> k_100 k \<or> k_out k)\<rparr>"

definition started :: "bool \<Rightarrow> cptr option \<Rightarrow> hsp_key \<Rightarrow> hsp_key" where
  "started b c k = (offered b c (k\<lparr>k_read := False\<rparr>))\<lparr>k_state := HSP_SENDING_HEADERS, k_write := True\<rparr>"

definition can_start :: "hsp_key \<Rightarrow> bool" where
  "can_start k \<longleftrightarrow> k_state k \<in> {HSP_RECEIVING_HEADERS, HSP_RECEIVING_BODY, HSP_HANDLING}"

lemma started_ok: "key_ok k \<Longrightarrow> can_start k \<Longrightarrow> key_ok (started b c k)"
  by (cases k) (auto simp: key_ok_def started_def offered_def can_start_def sending_def receiving_def)

lemma started_unread [simp]: "started b c (k\<lparr>k_read := False\<rparr>) = started b c k"
  by (simp add: started_def)

lemma waiting_ok: "key_ok k \<Longrightarrow> k_state k = HSP_WAITING_FOR_REQUEST \<Longrightarrow> key_ok (k\<lparr>k_keep_alive := False, k_read := True, k_state := HSP_RECEIVING_HEADERS\<rparr>)"
  by (cases k) (auto simp: key_ok_def sending_def receiving_def)

text \<open>The headers are there: the client may wait for the interim response, and there may be a body.\<close>

definition interim :: "hsp_key \<Rightarrow> hsp_key" where
  "interim k = k\<lparr>k_100 := True, k_ptr := Some (Lit response_100_continue), k_out := True\<rparr>"

lemma received_ok:
  assumes "key_ok k" "k_state k = HSP_RECEIVING_HEADERS" "k' = k \<or> k' = interim k"
  shows "key_ok (k'\<lparr>k_state := HSP_RECEIVING_BODY\<rparr>)" "key_ok (k'\<lparr>k_read := False, k_state := HSP_HANDLING\<rparr>)"
  using assms by (cases k; auto simp: key_ok_def sending_def receiving_def interim_def response_100_continue_def)+

lemma body_ok: "key_ok k \<Longrightarrow> k_state k = HSP_RECEIVING_BODY \<Longrightarrow> key_ok (k\<lparr>k_read := False, k_state := HSP_HANDLING\<rparr>)"
  by (cases k) (auto simp: key_ok_def sending_def receiving_def)

definition completed :: "hsp_key \<Rightarrow> hsp_key" where
  "completed k = k\<lparr>k_out := False, k_write := False, k_body := False\<rparr>"

lemma sending_ok:
  assumes "key_ok k" "sending (k_state k)" "\<not> k_100 k" "k_write k"
  shows "key_ok (k\<lparr>k_out := o'\<rparr>)" "key_ok (completed k)" "key_ok (k\<lparr>k_ptr := c\<rparr>)" "key_ok (k\<lparr>k_ptr := c, k_state := HSP_SENDING_BODY\<rparr>)"
proof -
  note f = assms [unfolded key_ok_def sending_def receiving_def]
  show "key_ok (k\<lparr>k_out := o'\<rparr>)" using f by (cases "k_state k") (simp_all add: key_ok_def sending_def receiving_def)
  show "key_ok (completed k)" using f by (cases "k_state k") (simp_all add: key_ok_def sending_def receiving_def completed_def)
  show "key_ok (k\<lparr>k_ptr := c\<rparr>)" using f by (cases "k_state k") (simp_all add: key_ok_def sending_def receiving_def)
  show "key_ok (k\<lparr>k_ptr := c, k_state := HSP_SENDING_BODY\<rparr>)" using f by (cases "k_state k") (simp_all add: key_ok_def sending_def receiving_def)
qed

lemma out_off_ok: "key_ok k \<Longrightarrow> key_ok (k\<lparr>k_out := False\<rparr>)"
  by (cases k) (auto simp: key_ok_def)

lemma out_on_ok: "key_ok k \<Longrightarrow> k_body k \<Longrightarrow> key_ok (k\<lparr>k_out := True\<rparr>)"
  by (cases k) (auto simp: key_ok_def)

lemma body_facts: "key_ok k \<Longrightarrow> k_body k \<Longrightarrow> sending (k_state k) \<and> k_write k \<and> k_time k"
  by (cases k) (auto simp: key_ok_def)

lemma out_facts: "key_ok k \<Longrightarrow> k_out k \<Longrightarrow> \<not> k_100 k \<Longrightarrow> sending (k_state k) \<and> k_write k"
  by (cases k) (auto simp: key_ok_def)

lemma interim_ok:
  assumes "key_ok k" "k_100 k"
  shows "key_ok (k\<lparr>k_ptr := Some (Lit (c # str))\<rparr>)" "key_ok (k\<lparr>k_100 := False, k_ptr := cp, k_out := False\<rparr>)"
    "k_state k = HSP_SENDING_HEADERS \<Longrightarrow> key_ok (k\<lparr>k_ptr := cp, k_100 := False\<rparr>)"
proof -
  note f = assms [unfolded key_ok_def sending_def receiving_def]
  show "key_ok (k\<lparr>k_ptr := Some (Lit (c # str))\<rparr>)" using f by (cases "k_state k") (simp_all add: key_ok_def sending_def receiving_def)
  show "key_ok (k\<lparr>k_100 := False, k_ptr := cp, k_out := False\<rparr>)" using f by (cases "k_state k") (simp_all add: key_ok_def sending_def receiving_def)
  show "k_state k = HSP_SENDING_HEADERS \<Longrightarrow> key_ok (k\<lparr>k_ptr := cp, k_100 := False\<rparr>)" using f by (cases "k_state k") (simp_all add: key_ok_def sending_def receiving_def)
qed

lemma cleaned_ok:
  "key_ok k \<Longrightarrow> sending (k_state k) \<Longrightarrow> \<not> k_write k \<Longrightarrow> key_ok (k\<lparr>k_state := HSP_WAITING_FOR_REQUEST, k_keep_alive := True, k_100 := False\<rparr>)"
  by (cases k) (auto simp: key_ok_def sending_def receiving_def)

lemma can_start_facts: "key_ok k \<Longrightarrow> can_start k \<Longrightarrow> \<not> k_body k \<and> k_time k"
  by (cases k) (auto simp: key_ok_def can_start_def sending_def)

section \<open>What the primitives do to it\<close>

definition ids_ok :: "'v proto_env \<Rightarrow> bool" where
  "ids_ok p \<longleftrightarrow> distinct [p_timer_keep_alive p, p_timer_read p, p_timer_write p]
     \<and> p_data_out p \<notin> {p_req_body_out p, e_ob_data_out (p_server p), e_fb_data_out (p_server p)}"

lemma set_timer_effect:
  assumes "nxe_set_timer q t ts = Some ts'" "(tl_current_time ts + tq_timeout ts q) mod 2 ^ 64 \<noteq> 0"
  shows "(tm_abs_time ts' x \<noteq> 0) = (t = x \<or> tm_abs_time ts x \<noteq> 0)" "time_ok ts' = time_ok ts"
  using assms by (auto simp: nxe_set_timer_def set_tq_def set_abs_time_def time_ok_def split: if_splits)

lemma unset_timer_effect:
  assumes "nxe_unset_timer q t ts = Some ts'"
  shows "(tm_abs_time ts' x \<noteq> 0) = (t \<noteq> x \<and> tm_abs_time ts x \<noteq> 0)" "time_ok ts' = time_ok ts"
  using assms by (auto simp: nxe_unset_timer_def set_tq_def set_abs_time_def time_ok_def split: if_splits)

lemma on_timers_Some: "on_timers f s = Some s' \<longleftrightarrow> (\<exists>ts. f (hp_timers (hs_world s)) = Some ts \<and> s' = upd (\<lambda>h. h\<lparr>hp_timers := ts\<rparr>) s)"
  by (auto simp: on_timers_def)

lemma on_events_Some: "on_events f s = Some s' \<longleftrightarrow> (\<exists>st. f (hs_events s) = Some st \<and> s' = s\<lparr>hs_events := st\<rparr>)"
  by (auto simp: on_events_def)

lemma key_timers:
  assumes "ids_ok p"
  shows "on_timers (nxe_set_timer NXWEB_TIMER_KEEP_ALIVE (p_timer_keep_alive p)) s = Some s' \<Longrightarrow> k_time (key p s) \<Longrightarrow> key p s' = (key p s)\<lparr>k_keep_alive := True\<rparr>"
    "on_timers (nxe_set_timer NXWEB_TIMER_READ (p_timer_read p)) s = Some s' \<Longrightarrow> k_time (key p s) \<Longrightarrow> key p s' = (key p s)\<lparr>k_read := True\<rparr>"
    "on_timers (nxe_set_timer NXWEB_TIMER_WRITE (p_timer_write p)) s = Some s' \<Longrightarrow> k_time (key p s) \<Longrightarrow> key p s' = (key p s)\<lparr>k_write := True\<rparr>"
    "on_timers (nxe_unset_timer NXWEB_TIMER_KEEP_ALIVE (p_timer_keep_alive p)) s = Some s' \<Longrightarrow> key p s' = (key p s)\<lparr>k_keep_alive := False\<rparr>"
    "on_timers (nxe_unset_timer NXWEB_TIMER_READ (p_timer_read p)) s = Some s' \<Longrightarrow> key p s' = (key p s)\<lparr>k_read := False\<rparr>"
    "on_timers (nxe_unset_timer NXWEB_TIMER_WRITE (p_timer_write p)) s = Some s' \<Longrightarrow> key p s' = (key p s)\<lparr>k_write := False\<rparr>"
proof -
  have set: "key p s' = (key p s)\<lparr>k_keep_alive := (t = p_timer_keep_alive p \<or> k_keep_alive (key p s)), k_read := (t = p_timer_read p \<or> k_read (key p s)),
      k_write := (t = p_timer_write p \<or> k_write (key p s))\<rparr>"
    if run: "on_timers (nxe_set_timer q t) s = Some s'" and tm: "k_time (key p s)" "q \<in> {NXWEB_TIMER_KEEP_ALIVE, NXWEB_TIMER_READ, NXWEB_TIMER_WRITE}" for q t
  proof -
    obtain ts where ts: "nxe_set_timer q t (hp_timers (hs_world s)) = Some ts" "s' = upd (\<lambda>h. h\<lparr>hp_timers := ts\<rparr>) s"
      using run by (auto simp: on_timers_Some)
    have "(tl_current_time (hp_timers (hs_world s)) + tq_timeout (hp_timers (hs_world s)) q) mod 2 ^ 64 \<noteq> 0"
      using tm unfolding key_def time_ok_def by auto
    note eff = set_timer_effect [OF ts(1) this]
    show ?thesis using ts(2) by (simp add: key_defs eff del: neq0_conv)
  qed
  have unset: "key p s' = (key p s)\<lparr>k_keep_alive := (t \<noteq> p_timer_keep_alive p \<and> k_keep_alive (key p s)), k_read := (t \<noteq> p_timer_read p \<and> k_read (key p s)),
      k_write := (t \<noteq> p_timer_write p \<and> k_write (key p s))\<rparr>"
    if run: "on_timers (nxe_unset_timer q t) s = Some s'" for q t
  proof -
    obtain ts where ts: "nxe_unset_timer q t (hp_timers (hs_world s)) = Some ts" "s' = upd (\<lambda>h. h\<lparr>hp_timers := ts\<rparr>) s"
      using run by (auto simp: on_timers_Some)
    note eff = unset_timer_effect [OF ts(1)]
    show ?thesis using ts(2) by (simp add: key_defs eff del: neq0_conv)
  qed
  note d = assms [unfolded ids_ok_def]
  show "on_timers (nxe_set_timer NXWEB_TIMER_KEEP_ALIVE (p_timer_keep_alive p)) s = Some s' \<Longrightarrow> k_time (key p s) \<Longrightarrow> key p s' = (key p s)\<lparr>k_keep_alive := True\<rparr>"
    by (drule set) (use d in simp_all)
  show "on_timers (nxe_set_timer NXWEB_TIMER_READ (p_timer_read p)) s = Some s' \<Longrightarrow> k_time (key p s) \<Longrightarrow> key p s' = (key p s)\<lparr>k_read := True\<rparr>"
    by (drule set) (use d in simp_all)
  show "on_timers (nxe_set_timer NXWEB_TIMER_WRITE (p_timer_write p)) s = Some s' \<Longrightarrow> k_time (key p s) \<Longrightarrow> key p s' = (key p s)\<lparr>k_write := True\<rparr>"
    by (drule set) (use d in simp_all)
  show "on_timers (nxe_unset_timer NXWEB_TIMER_KEEP_ALIVE (p_timer_keep_alive p)) s = Some s' \<Longrightarrow> key p s' = (key p s)\<lparr>k_keep_alive := False\<rparr>"
    by (drule unset) (use d in simp_all)
  show "on_timers (nxe_unset_timer NXWEB_TIMER_READ (p_timer_read p)) s = Some s' \<Longrightarrow> key p s' = (key p s)\<lparr>k_read := False\<rparr>"
    by (drule unset) (use d in simp_all)
  show "on_timers (nxe_unset_timer NXWEB_TIMER_WRITE (p_timer_write p)) s = Some s' \<Longrightarrow> key p s' = (key p s)\<lparr>k_write := False\<rparr>"
    by (drule unset) (use d in simp_all)
qed

lemma key_publish: "publish p d s = Some s' \<Longrightarrow> key p s' = key p s"
  by (auto simp: publish_def on_events_Some key_defs streams_kept_def dest!: publish_keeps)

lemma key_is_ready:
  "on_events (nxe_istream_set_ready i) s = Some s' \<Longrightarrow> key p s' = (key p s)\<lparr>k_out := (i = p_data_out p \<or> k_out (key p s))\<rparr>"
  by (auto simp: on_events_Some key_defs dest!: is_set_ready_streams split: if_splits)

lemma key_os_ready: "on_events (nxe_ostream_set_ready o') s = Some s' \<Longrightarrow> key p s' = key p s"
  by (auto simp: on_events_Some key_defs dest!: os_set_ready_streams)

lemma key_connect:
  "on_events (nxe_connect_streams i (p_resp_body_in p)) s = Some s' \<Longrightarrow> key p s' = (key p s)\<lparr>k_body := True\<rparr>"
  by (auto simp: on_events_Some key_defs dest!: connect_streams)

lemma key_disconnect:
  assumes "on_events (nxe_disconnect_streams i o') s = Some s'"
  shows "key p s' = (key p s)\<lparr>k_body := (o' \<noteq> p_resp_body_in p \<and> k_body (key p s))\<rparr>"
  using assms by (auto simp: on_events_Some key_defs dest!: disconnect_streams split: if_splits)

lemma key_unready [simp]:
  "key p (is_unready i s) = (key p s)\<lparr>k_out := (i \<noteq> p_data_out p \<and> k_out (key p s))\<rparr>"
  "key p (os_unready o' s) = key p s"
  by (auto simp: key_defs is_unready_def os_unready_def nxe_istream_unset_ready_def nxe_ostream_unset_ready_def)

lemma key_disconnect_os: "disconnect_os (p_resp_body_in p) s = Some s' \<Longrightarrow> key p s' = (key p s)\<lparr>k_body := False\<rparr>"
  by (auto simp: disconnect_os_def key_def dest!: key_disconnect [of _ _ _ _ p] split: option.splits)

lemma key_disconnect_is: "disconnect_is i s = Some s' \<Longrightarrow> \<not> k_body (key p s) \<Longrightarrow> key p s' = key p s"
  by (auto simp: disconnect_is_def dest!: key_disconnect [of _ _ _ _ p] split: option.splits)

text \<open>Updates of other fields.\<close>

lemma key_upd_other [simp]:
  "key p (upd (\<lambda>h. h\<lparr>hp_resp := b\<rparr>) s) = key p s" "key p (upd (\<lambda>h. h\<lparr>hp_cestate := es\<rparr>) s) = key p s"
  "key p (upd (\<lambda>h. h\<lparr>hp_cdstate := ds\<rparr>) s) = key p s" "key p (upd (\<lambda>h. h\<lparr>hp_chunked_content_complete := b\<rparr>) s) = key p s"
  "key p (upd (\<lambda>h. h\<lparr>hp_content_received := f h\<rparr>) s) = key p s" "key p (upd (\<lambda>h. h\<lparr>hp_bytes_sent := g h\<rparr>) s) = key p s"
  "key p (upd (\<lambda>h. h\<lparr>hp_cestate := e h\<rparr>) s) = key p s" "key p (upd (\<lambda>h. h\<lparr>hp_first_body_chunk := fb\<rparr>) s) = key p s"
  "key p (upd (\<lambda>h. h\<lparr>hp_state := x\<rparr>) s) = (key p s)\<lparr>k_state := x\<rparr>" "key p (upd (\<lambda>h. h\<lparr>hp_resp_headers_ptr := c\<rparr>) s) = (key p s)\<lparr>k_ptr := c\<rparr>"
  "key p (upd (\<lambda>h. h\<lparr>hp_sending_100_continue := b\<rparr>) s) = (key p s)\<lparr>k_100 := b\<rparr>"
  "key p (upd (\<lambda>h. h\<lparr>hp_sending_100_continue := b, hp_resp_headers_ptr := c\<rparr>) s) = (key p s)\<lparr>k_100 := b, k_ptr := c\<rparr>"
  "key p (upd (\<lambda>h. h\<lparr>hp_nxb_pool := P\<rparr>) s) = key p s" "key p (upd (\<lambda>h. h\<lparr>hp_nxb_pool := P, hp_nxb := n\<rparr>) s) = key p s"
  "key p (upd (\<lambda>h. h\<lparr>hp_rest := r h\<rparr>) s) = key p s" "key p (upd (\<lambda>h. h\<lparr>hp_uid := u, hp_rest := v\<rparr>) s) = key p s"
  "key p (upd (\<lambda>h. h\<lparr>hp_headers_bytes_received := k\<rparr>) s) = key p s" "key p (upd (\<lambda>h. h\<lparr>hp_access_log := b\<rparr>) s) = key p s"
  "key p (upd (\<lambda>h. h\<lparr>hp_req_finalize := b\<rparr>) s) = key p s" "key p (upd (\<lambda>h. h\<lparr>hp_data_chain := dc\<rparr>) s) = key p s"
  "key p (upd (\<lambda>h. h\<lparr>hp_no_complete := nc h\<rparr>) s) = key p s" "key p (upd (\<lambda>h. h\<lparr>hp_fr := fr\<rparr>) s) = key p s"
  "key p (upd (\<lambda>h. h\<lparr>hp_chunked_autoencode := b\<rparr>) s) = key p s" "key p (upd (\<lambda>h. h\<lparr>hp_req := rq\<rparr>) s) = key p s"
  by (simp_all add: key_defs)

lemma key_hst_other [simp]:
  "key p (s\<lparr>hs_resp := resp\<rparr>) = key p s" "key p (s\<lparr>hs_nb := nb\<rparr>) = key p s" "key p (s\<lparr>hs_closed := cl\<rparr>) = key p s"
  "key p (s\<lparr>hs_handler := h, hs_handler_param := hpar\<rparr>) = key p s" "key p (s\<lparr>hs_conn := cn, hs_cache := ca\<rparr>) = key p s"
  "key p (s\<lparr>hs_resp := resp, hs_nb := nb\<rparr>) = key p s" "key p (s\<lparr>hs_resp := resp, hs_closed := cl\<rparr>) = key p s"
  "key p (s\<lparr>hs_closed := cl, hs_resp := resp, hs_nb := nb\<rparr>) = key p s"
  "key p (load_request m req s) = key p s"
  by (simp_all add: key_def armed_def load_request_def upd_def)

lemma key_filter_data [simp]: "key p (s\<lparr>hs_filter_data := fd\<rparr>) = key p s"
  by (simp add: key_def armed_def)

section \<open>The interface to the peers\<close>

text \<open>The two facts about the streams of the protocol that its peers leave alone.\<close>

definition own_kept :: "'v proto_env \<Rightarrow> nxe_events \<Rightarrow> nxe_events \<Rightarrow> bool" where
  "own_kept p st st' \<longleftrightarrow> is_ready st' (p_data_out p) = is_ready st (p_data_out p) \<and> os_pair st' (p_resp_body_in p) = os_pair st (p_resp_body_in p)"

locale hsp_peers =
  fixes p :: "'v proto_env" and reader :: "'v read_method" and writer :: "bool \<Rightarrow> 'v write_method"
  assumes ids: "ids_ok p"
    and reader_kept: "reader n (st, v) = Some (r, st', v') \<Longrightarrow> own_kept p st st'"
    and writer_kept: "writer file bs eof (st, v) = Some (k, st', v') \<Longrightarrow> own_kept p st st'"
    and shutdown_kept: "p_shutdown p (st, v) = Some (st', v') \<Longrightarrow> own_kept p st st'"
    and subrequests_kept: "p_finalize_subrequests p s = Some s' \<Longrightarrow> key p s' = key p s"
    and log_kept: "p_log_complete p s = Some s' \<Longrightarrow> key p s' = key p s"
    and req_finalizer_kept: "p_req_finalizer p s = Some s' \<Longrightarrow> key p s' = key p s"
    and data_finalizer_kept: "p_data_finalizer p f d s = Some s' \<Longrightarrow> key p s' = key p s"
    and filter_kept: "(i, fl) \<in> set (placed_filters (e_handler (p_server p) h)) \<Longrightarrow> fl_finalize fl = Some fin \<Longrightarrow> fin i s = Some s' \<Longrightarrow> key p s' = key p s"
    and on_complete_kept: "hn_on_complete (e_handler (p_server p) h) = Some cb \<Longrightarrow> cb s = Some (r', s') \<Longrightarrow> key p s' = key p s"
    and open_kept: "e_open (p_server p) path (hs_world s) = (fd, w') \<Longrightarrow> key p (s\<lparr>hs_world := w'\<rparr>) = key p s"
begin

lemma key_peer:
  assumes "on_peer f s = Some (r, s')" "\<And>st v r st' v'. f (st, v) = Some (r, st', v') \<Longrightarrow> own_kept p st st'"
  shows "key p s' = key p s"
proof -
  obtain st v where "f (hs_events s, hp_rest (hs_world s)) = Some (r, st, v)" "s' = upd (\<lambda>h. h\<lparr>hp_rest := v\<rparr>) (s\<lparr>hs_events := st\<rparr>)"
    using assms(1) by (auto simp: on_peer_def)
  then show ?thesis using assms(2) by (auto simp: key_defs own_kept_def)
qed

lemma key_read: "on_peer (reader n) s = Some (r, s') \<Longrightarrow> key p s' = key p s"
  by (erule key_peer) (rule reader_kept)

lemma key_write: "on_peer (writer file bs eof) s = Some (r, s') \<Longrightarrow> key p s' = key p s"
  by (erule key_peer) (rule writer_kept)

lemmas prim = key_timers [OF ids] key_publish [of p] key_is_ready [of _ _ _ p] key_os_ready [of _ _ _ p] key_connect [of _ p]
  key_disconnect_os [of p] key_read key_write

lemma key_data_out [simp]: "p_req_body_out p \<noteq> p_data_out p" "e_ob_data_out (p_server p) \<noteq> p_data_out p" "e_fb_data_out (p_server p) \<noteq> p_data_out p"
    "p_data_out p \<noteq> p_req_body_out p" "p_data_out p \<noteq> e_ob_data_out (p_server p)" "p_data_out p \<noteq> e_fb_data_out (p_server p)"
  using ids by (auto simp: ids_ok_def)

subsection \<open>The end of a request\<close>

lemma request_complete_key:
  assumes "request_complete p s = Some s'"
  shows "key p s' = completed (key p s)"
proof -
  obtain s1 s2 s3 where r: "on_timers (nxe_unset_timer NXWEB_TIMER_WRITE (p_timer_write p)) (is_unready (p_data_out p) s) = Some s1"
    "disconnect_os (p_resp_body_in p) s1 = Some s2" "disconnect_is (p_req_body_out p) s2 = Some s3" "publish p NXD_HSP_REQUEST_COMPLETE s3 = Some s'"
    using assms by (auto simp: request_complete_def bind_eq_Some_conv)
  have "key p s2 = (key p s)\<lparr>k_out := False, k_write := False, k_body := False\<rparr>" using prim(6) [OF r(1)] key_disconnect_os [OF r(2)] by simp
  then show ?thesis using key_disconnect_is [OF r(3), of p] key_publish [OF r(4)] by (simp add: completed_def)
qed

lemma finalize_chain_key: "finalize_chain p k s = Some s' \<Longrightarrow> key p s' = key p s"
proof (induction k arbitrary: s)
  case (Suc k)
  then show ?case by (auto simp: Let_def bind_eq_Some_conv dest!: data_finalizer_kept split: option.splits)
qed simp

lemma finalize_filters_key:
  "set fs \<subseteq> set (placed_filters (e_handler (p_server p) h)) \<Longrightarrow> finalize_filters fs s = Some s' \<Longrightarrow> key p s' = key p s"
proof (induction fs s rule: finalize_filters.induct)
  case (2 i f fs s)
  obtain s1 where s1: "(case (if hs_filter_data s i \<noteq> None then fl_finalize f else None) of None \<Rightarrow> Some s | Some fin \<Rightarrow> fin i s) = Some s1"
    "finalize_filters fs (s1\<lparr>hs_filter_data := (hs_filter_data s1)(i := None)\<rparr>) = Some s'"
    using 2(3) by (auto simp: bind_eq_Some_conv)
  have "key p s1 = key p s" using s1(1) 2(2) filter_kept by (auto split: option.splits if_splits)
  then show ?case using 2(1) [OF s1(1)] 2(2) s1(2) by simp
qed simp

lemma call_on_complete_key: "call_on_complete p s = Some s' \<Longrightarrow> key p s' = key p s"
  by (auto simp: call_on_complete_def dest!: on_complete_kept split: option.splits if_splits)

lemma finalizers_key:
  assumes run: "nxweb_call_request_finalizers p s = Some s'" and body: "\<not> k_body (key p s)"
  shows "key p s' = key p s"
proof -
  obtain s1 s2 s3 s4 s5 s6 s7 where r: "p_finalize_subrequests p s = Some s1"
    "(if hp_resp (hs_world s1) then case rs_content_out (hs_resp s1) of None \<Rightarrow> Some s1 | Some i \<Rightarrow> disconnect_is i s1 else Some s1) = Some s2"
    "log_request p s2 = Some s3" "run_req_finalize p s3 = Some s4" "finalize_chain p (length (hp_data_chain (hs_world s4))) s4 = Some s5"
    "finalize_handler_filters p s5 = Some s6" "call_on_complete p s6 = Some s7" "s' = s7\<lparr>hs_handler := None, hs_handler_param := 0\<rparr>"
    using run by (auto simp: nxweb_call_request_finalizers_def bind_eq_Some_conv)
  have 1: "key p s1 = key p s" by (rule subrequests_kept [OF r(1)])
  have 2: "key p s2 = key p s1" using r(2) key_disconnect_is [of _ s1 s2 p] body 1 by (auto split: if_splits option.splits)
  have 3: "key p s3 = key p s2" using r(3) by (auto simp: log_request_def dest!: log_kept split: if_splits)
  have 4: "key p s4 = key p s3" using r(4) by (auto simp: run_req_finalize_def dest!: req_finalizer_kept split: if_splits)
  have 5: "key p s5 = key p s4" by (rule finalize_chain_key [OF r(5)])
  have 6: "key p s6 = key p s5"
    using r(6) finalize_filters_key [OF subset_refl] by (auto simp: finalize_handler_filters_def handler_of_def split: option.splits if_splits)
  have "key p s7 = key p s6" by (rule call_on_complete_key [OF r(7)])
  then show ?thesis using 1 2 3 4 5 6 r(8) by simp
qed

lemma finalize_fb_key:
  assumes "finalize_fb s = Some s'" "\<not> k_body (key p s)"
  shows "key p s' = key p s"
proof -
  obtain fb fr st where f: "nxd_fbuffer_finalize (hs_fb s) (hp_fr (hs_world s)) (hs_events s) = Some (fb, fr, st)"
    "s' = upd (\<lambda>h. h\<lparr>hp_fr := fr\<rparr>) (s\<lparr>hs_fb := fb, hs_events := st\<rparr>)" using assms(1) by (auto simp: finalize_fb_def)
  then have "is_ready st = is_ready (hs_events s)" "os_pair st = os_pair (hs_events s) \<or> (\<exists>o'. os_pair st = (os_pair (hs_events s))(o' := None))"
    by (auto simp: nxd_fbuffer_finalize_def bind_eq_Some_conv split_beta dest!: disconnect_streams split: option.splits)
  then show ?thesis using f(2) assms(2) by (auto simp: key_defs)
qed

lemma release_nxb_key: "release_nxb obj s = Some s' \<Longrightarrow> key p s' = key p s"
  by (auto simp: release_nxb_def bind_eq_Some_conv)

lemma close_sendfile_key [simp]: "key p (close_sendfile s) = key p s"
  by (simp add: close_sendfile_def)

lemma clear_key [simp]: "key p (clear_response (clear_request s)) = (key p s)\<lparr>k_100 := False\<rparr>"
  by (simp add: clear_response_def clear_request_def key_defs)

lemma rearm_key:
  assumes "rearm_connection p s = Some s'" "k_time (key p s)"
  shows "key p s' = (key p s)\<lparr>k_keep_alive := True\<rparr>"
proof -
  obtain s1 where s1: "(if hp_resp (hs_world s) \<and> rs_keep_alive (hs_resp s) then on_events (nxe_ostream_set_ready (p_data_in p)) s
           else case is_pair (hs_events s) (p_data_out p) of None \<Rightarrow> Some s
                | Some _ \<Rightarrow> map_option snd (on_peer (\<lambda>e. map_option (Pair ()) (p_shutdown p e)) s)) = Some s1"
    "on_timers (nxe_set_timer NXWEB_TIMER_KEEP_ALIVE (p_timer_keep_alive p)) s1 = Some s'"
    using assms(1) by (auto simp: rearm_connection_def bind_eq_Some_conv)
  have "key p s1 = key p s" if "on_peer (\<lambda>e. map_option (Pair ()) (p_shutdown p e)) s = Some (r, s1)" for r
    by (rule key_peer [OF that]) (auto dest: shutdown_kept)
  then have "key p s1 = key p s" using s1(1) by (auto dest!: key_os_ready [of _ _ _ p] split: if_splits option.splits)
  then show ?thesis using prim(1) [OF s1(2)] assms(2) by simp
qed

lemma cleanup_key:
  assumes run: "request_cleanup p s = Some s'" and k: "\<not> k_body (key p s)" "k_time (key p s)"
  shows "key p s' = (key p s)\<lparr>k_state := HSP_WAITING_FOR_REQUEST, k_keep_alive := True, k_100 := False\<rparr>"
proof -
  obtain s1 s2 obj s3 s4 s5 where r: "nxweb_call_request_finalizers p s = Some s1" "finalize_fb s1 = Some s2" "release_nxb obj (close_sendfile s2) = Some s3"
    "s4 = upd (\<lambda>h. h\<lparr>hp_nxb := None, hp_request_count := hp_request_count h + 1, hp_state := HSP_WAITING_FOR_REQUEST, hp_headers_bytes_received := 0\<rparr>) s3"
    "rearm_connection p s4 = Some s5" "s' = clear_response (clear_request s5)"
    using run by (auto simp: request_cleanup_def bind_eq_Some_conv Let_def)
  have 1: "key p s1 = key p s" by (rule finalizers_key [OF r(1) k(1)])
  have 2: "key p s2 = key p s" using finalize_fb_key [OF r(2)] 1 k(1) by simp
  have 3: "key p s3 = key p s" using release_nxb_key [OF r(3)] 2 by simp
  have 4: "key p s4 = (key p s)\<lparr>k_state := HSP_WAITING_FOR_REQUEST\<rparr>" unfolding 3 [symmetric] r(4) by (simp add: key_defs)
  show ?thesis using rearm_key [OF r(5)] 4 k(2) r(6) by simp
qed

subsection \<open>Starting a response\<close>

lemma reset_content_out_key:
  assumes run: "nxweb_reset_content_out s = Some s'" and body: "\<not> k_body (key p s)"
  shows "key p s' = key p s"
proof -
  define s1 where "s1 = s\<lparr>hs_resp := (hs_resp s)\<lparr>rs_content_out := None, rs_content := None, rs_content_length := 0, rs_sendfile_path := None\<rparr>,
    hs_closed := (if rs_sendfile_fd (hs_resp s) \<noteq> 0 then rs_sendfile_fd (hs_resp s) # hs_closed s else hs_closed s)\<rparr>"
  have 1: "key p s1 = key p s" by (simp add: s1_def)
  obtain s2 where r: "(if fb_fd (hs_fb s1) \<noteq> 0 then finalize_fb s1 else Some s1) = Some s2" "key p s' = key p s2"
    using run unfolding nxweb_reset_content_out_def Let_def s1_def [symmetric] by (auto simp: bind_eq_Some_conv)
  then have "key p s2 = key p s" using finalize_fb_key [of s1 s2] body 1 by (auto split: if_splits)
  then show ?thesis using r(2) by simp
qed

lemma hst_finish_response_key [simp]: "key p (hst_finish_response s) = key p s"
  by (simp add: hst_finish_response_def split_beta)

lemma file_content_out_key: "file_content_out (p_server p) s = Some s' \<Longrightarrow> key p s' = key p s"
  by (auto simp: file_content_out_def nxd_fbuffer_init_def clear_istream_def key_def armed_def Let_def bind_eq_Some_conv split: if_splits)

lemma setup_content_out_key:
  assumes "nxd_http_server_proto_setup_content_out (p_server p) s = Some s'"
  shows "key p s' = key p s"
proof -
  define s1 where "s1 = hst_finish_response s"
  have k1: "key p s1 = key p s" by (simp add: s1_def)
  have ob: "key p (s1\<lparr>hs_ob := ob, hs_events := st, hs_resp := r\<rparr>) = key p s1"
    if "nxd_obuffer_init (e_ob_data_out (p_server p)) m a n (hs_events s1) = (ob, st)" for ob st r m a n
    using that by (auto simp: nxd_obuffer_init_def clear_istream_def Let_def key_def armed_def)
  have op: "key p (s1\<lparr>hs_world := w, hs_resp := r\<rparr>) = key p s1"
    if "e_open (p_server p) path (hs_world s1) = (fd, w)" for path fd w r
  proof -
    have "key p (s1\<lparr>hs_world := w, hs_resp := r\<rparr>) = key p ((s1\<lparr>hs_world := w\<rparr>)\<lparr>hs_resp := r\<rparr>)" by simp
    then show ?thesis using open_kept [OF that] by (simp only: key_hst_other)
  qed
  have "key p s' = key p s1 \<or> s' = s"
    using assms ob op file_content_out_key
    unfolding nxd_http_server_proto_setup_content_out_def s1_def [symmetric] Let_def
    by (auto split: if_splits prod.splits)
  then show ?thesis using k1 by auto
qed

lemma prepare_headers_key: "prepare_headers p s = Some s' \<Longrightarrow> key p s' = key p s"
  by (auto simp: prepare_headers_def split: if_splits)

lemma offer_response_key:
  assumes "offer_response p s = Some s'"
  shows "\<exists>b c. key p s' = offered b c (key p s)"
proof -
  obtain s1 s2 s3 where r: "nxd_http_server_proto_setup_content_out (p_server p) s = Some s1"
    "(case rs_content_out (hs_resp s1) of None \<Rightarrow> Some s1 | Some i \<Rightarrow> on_events (nxe_connect_streams i (p_resp_body_in p)) s1) = Some s2"
    "prepare_headers p s2 = Some s3"
    "(if \<not> hp_sending_100_continue (hs_world s3)
      then on_events (nxe_istream_set_ready (p_data_out p)) (upd (\<lambda>h. h\<lparr>hp_resp_headers_ptr := map_option Ptr (rs_raw_headers (hs_resp s3))\<rparr>) s3)
      else Some s3) = Some s'"
    using assms by (auto simp: offer_response_def bind_eq_Some_conv)
  have 1: "key p s1 = key p s" by (rule setup_content_out_key [OF r(1)])
  obtain b where 2: "key p s2 = (key p s)\<lparr>k_body := b\<rparr>"
  proof (cases "rs_content_out (hs_resp s1)")
    case None
    then show ?thesis using that [of "k_body (key p s)"] r(2) 1 by simp
  next
    case (Some i)
    then show ?thesis using that [of True] r(2) 1 by (auto dest: key_connect [of _ p])
  qed
  have 3: "key p s3 = (key p s)\<lparr>k_body := b\<rparr>" using prepare_headers_key [OF r(3)] 2 by simp
  have h: "hp_sending_100_continue (hs_world s3) = k_100 (key p s)" using arg_cong [OF 3, of k_100] by (simp add: key_def)
  show ?thesis
  proof (cases "k_100 (key p s)")
    case True
    then show ?thesis using r(4) h 3 by (intro exI [of _ b]) (auto simp: offered_def)
  next
    case False
    then have "on_events (nxe_istream_set_ready (p_data_out p)) (upd (\<lambda>h. h\<lparr>hp_resp_headers_ptr := map_option Ptr (rs_raw_headers (hs_resp s3))\<rparr>) s3) = Some s'"
      using r(4) h by simp
    from key_is_ready [OF this, of p] show ?thesis using 3 False
      by (intro exI [of _ b] exI [of _ "map_option Ptr (rs_raw_headers (hs_resp s3))"]) (simp add: offered_def)
  qed
qed

lemma begin_response_key:
  assumes run: "begin_response p s = Some s'" and body: "\<not> k_body (key p s)"
  shows "\<exists>b c. key p s' = offered b c (key p s)"
proof -
  obtain s1 where r: "(if fresh_enough s then answer_not_modified s else Some s) = Some s1" "offer_response p (init_encoder s1) = Some s'"
    using run by (auto simp: begin_response_def bind_eq_Some_conv split: if_split_asm)
  have "key p s1 = key p s"
    using r(1) body reset_content_out_key [of s] by (auto simp: answer_not_modified_def split: if_splits)
  then have "key p (init_encoder s1) = key p s" by (simp add: init_encoder_def)
  then show ?thesis using offer_response_key [OF r(2)] by simp
qed

text \<open>A response is started from the states in which one is due; otherwise nothing happens.\<close>

lemma start_sending_key:
  assumes run: "nxd_http_server_proto_start_sending_response p s = Some s'" and k: "\<not> k_body (key p s)" "k_time (key p s)" "can_start (key p s)"
  shows "\<exists>b c. key p s' = started b c (key p s)"
proof -
  have st: "hp_state (hs_world s) \<in> {HSP_RECEIVING_HEADERS, HSP_RECEIVING_BODY, HSP_HANDLING}" using k(3) by (simp add: key_def can_start_def)
  obtain s1 s4 where r: "on_timers (nxe_unset_timer NXWEB_TIMER_READ (p_timer_read p)) (upd (\<lambda>h. h\<lparr>hp_resp := True\<rparr>) s) = Some s1"
    "begin_response p s1 = Some s4"
    "on_timers (nxe_set_timer NXWEB_TIMER_WRITE (p_timer_write p)) (upd (\<lambda>h. h\<lparr>hp_state := HSP_SENDING_HEADERS\<rparr>) s4) = Some s'"
    using run st unfolding nxd_http_server_proto_start_sending_response_def by (auto simp only: bind_eq_Some_conv not_not if_False simp_thms)
  have 1: "key p s1 = (key p s)\<lparr>k_read := False\<rparr>" using prim(5) [OF r(1)] by simp
  obtain b c where 4: "key p s4 = offered b c ((key p s)\<lparr>k_read := False\<rparr>)" using begin_response_key [OF r(2)] 1 k(1) by auto
  have "key p s' = started b c (key p s)" using prim(3) [OF r(3)] 4 k(2) by (simp add: started_def offered_def)
  then show ?thesis by blast
qed

lemma start_sending_other: "nxd_http_server_proto_start_sending_response p s = Some s' \<Longrightarrow> \<not> can_start (key p s) \<Longrightarrow> s' = s"
  by (simp add: nxd_http_server_proto_start_sending_response_def key_def can_start_def)

lemma start_sending_ok:
  assumes "nxd_http_server_proto_start_sending_response p s = Some s'" "key_ok (key p s)"
  shows "key_ok (key p s')"
proof (cases "can_start (key p s)")
  case True
  note f = can_start_facts [OF assms(2) True]
  obtain b c where "key p s' = started b c (key p s)" using start_sending_key [OF assms(1) _ _ True] f by blast
  then show ?thesis using started_ok [OF assms(2) True] by simp
next
  case False
  then show ?thesis using start_sending_other [OF assms(1)] assms(2) by simp
qed

subsection \<open>Receiving\<close>

lemma start_request_key:
  assumes run: "start_request p s = Some s'" and k: "k_time (key p s)"
  shows "key p s' = (key p s)\<lparr>k_keep_alive := False, k_read := True, k_state := HSP_RECEIVING_HEADERS\<rparr>"
proof -
  obtain s1 s2 s3 where r: "key p s1 = key p s" "on_timers (nxe_unset_timer NXWEB_TIMER_KEEP_ALIVE (p_timer_keep_alive p)) s1 = Some s2"
    "on_timers (nxe_set_timer NXWEB_TIMER_READ (p_timer_read p)) s2 = Some s3" "s' = upd (\<lambda>h. h\<lparr>hp_state := HSP_RECEIVING_HEADERS\<rparr>) s3"
  proof -
    obtain obj pool where "nxp_alloc (p_nxb_mem p (hp_nxb_pool (hs_world s))) (hp_nxb_pool (hs_world s)) = Some (Some obj, pool)"
      using run unfolding start_request_def by (cases "nxp_alloc (p_nxb_mem p (hp_nxb_pool (hs_world s))) (hp_nxb_pool (hs_world s))") (auto split: option.splits)
    then obtain nb where nb: "nxb_reserve NXWEB_MAX_REQUEST_HEADERS_SIZE (nxb_init (p_nxb_addr p obj) NXWEB_CONN_NXB_SIZE (hs_nb s)) = Some nb"
      and rest: "Option.bind (on_timers (nxe_unset_timer NXWEB_TIMER_KEEP_ALIVE (p_timer_keep_alive p))
           (upd (\<lambda>h. h\<lparr>hp_nxb_pool := pool, hp_nxb := Some obj\<rparr>) (s\<lparr>hs_nb := nb\<rparr>)))
         (\<lambda>s. Option.bind (on_timers (nxe_set_timer NXWEB_TIMER_READ (p_timer_read p)) s) (\<lambda>s. Some (upd (\<lambda>h. h\<lparr>hp_state := HSP_RECEIVING_HEADERS\<rparr>) s))) = Some s'"
      using run by (auto simp: start_request_def bind_eq_Some_conv)
    define s1 where "s1 = upd (\<lambda>h. h\<lparr>hp_nxb_pool := pool, hp_nxb := Some obj\<rparr>) (s\<lparr>hs_nb := nb\<rparr>)"
    have "key p s1 = key p s" by (simp add: s1_def)
    moreover obtain s2 where "on_timers (nxe_unset_timer NXWEB_TIMER_KEEP_ALIVE (p_timer_keep_alive p)) s1 = Some s2"
      "Option.bind (on_timers (nxe_set_timer NXWEB_TIMER_READ (p_timer_read p)) s2) (\<lambda>s. Some (upd (\<lambda>h. h\<lparr>hp_state := HSP_RECEIVING_HEADERS\<rparr>) s)) = Some s'"
      using rest unfolding s1_def [symmetric] by (auto simp: bind_eq_Some_conv)
    ultimately show ?thesis using that by (auto simp: bind_eq_Some_conv)
  qed
  have "key p s2 = (key p s)\<lparr>k_keep_alive := False\<rparr>" using prim(4) [OF r(2)] r(1) by simp
  then show ?thesis using prim(2) [OF r(3)] k r(4) by simp
qed

lemma bad_request_key:
  assumes run: "bad_request p s = Some s'" and k: "\<not> k_body (key p s)" "k_time (key p s)" "can_start (key p s)"
  shows "\<exists>b c. key p s' = started b c (key p s)"
proof -
  obtain s1 s2 cl resp nb where r: "on_timers (nxe_unset_timer NXWEB_TIMER_READ (p_timer_read p)) s = Some s1"
    "s2 = (os_unready (p_data_in p) s1)\<lparr>hs_closed := cl, hs_resp := resp, hs_nb := nb\<rparr>" "nxd_http_server_proto_start_sending_response p s2 = Some s'"
    using run by (auto simp: bad_request_def bind_eq_Some_conv Let_def)
  have 1: "key p s2 = (key p s)\<lparr>k_read := False\<rparr>" using prim(5) [OF r(1)] r(2) by simp
  have "can_start (key p s2)" using 1 k(3) by (simp add: can_start_def)
  then show ?thesis using start_sending_key [OF r(3)] 1 k by auto
qed

lemma keep_first_chunk_key:
  assumes "keep_first_chunk p bs s = Some s'"
  shows "key p s' = key p s \<or> key p s' = interim (key p s)"
proof (cases "bs \<noteq> [] \<or> \<not> rq_expect_100_continue (hp_req (hs_world s))")
  case True
  then show ?thesis using assms by (auto simp: keep_first_chunk_def upd_def [of "\<lambda>h. h\<lparr>hp_first_body_chunk := None\<rparr>"] key_defs split: if_splits)
next
  case False
  then have "on_events (nxe_istream_set_ready (p_data_out p)) (upd (\<lambda>h. h\<lparr>hp_sending_100_continue := True, hp_resp_headers_ptr := Some (Lit response_100_continue)\<rparr>)
      (upd (\<lambda>h. h\<lparr>hp_first_body_chunk := None\<rparr>) s)) = Some s'"
    using assms by (simp add: keep_first_chunk_def Let_def upd_def)
  from key_is_ready [OF this, of p] show ?thesis by (simp add: interim_def)
qed

lemma request_received_ok:
  assumes run: "request_received p bs s = Some s'" and k: "key_ok (key p s)" "k_state (key p s) = HSP_RECEIVING_HEADERS"
  shows "key_ok (key p s')"
proof -
  obtain s1 s2 s3 resp where r: "keep_first_chunk p bs s = Some s1" "s2 = upd (\<lambda>h. h\<lparr>hp_resp := True\<rparr>) ((os_unready (p_data_in p) s1)\<lparr>hs_resp := resp\<rparr>)" "publish p NXD_HSP_REQUEST_RECEIVED s2 = Some s3"
    "(if rq_content_length (hp_req (hs_world s3)) \<noteq> 0
      then on_events (nxe_istream_set_ready (p_req_body_out p)) (upd (\<lambda>h. h\<lparr>hp_state := HSP_RECEIVING_BODY\<rparr>) s3)
      else map_option (upd (\<lambda>h. h\<lparr>hp_state := HSP_HANDLING\<rparr>)) (on_timers (nxe_unset_timer NXWEB_TIMER_READ (p_timer_read p)) s3)) = Some s'"
    using run by (auto simp: request_received_def bind_eq_Some_conv Let_def)
  have k3: "key p s3 = key p s1" using key_publish [OF r(3)] r(2) by simp
  have k1: "key p s1 = key p s \<or> key p s1 = interim (key p s)" by (rule keep_first_chunk_key [OF r(1)])
  show ?thesis
  proof (cases "rq_content_length (hp_req (hs_world s3)) \<noteq> 0")
    case True
    then have "key p s' = (key p s1)\<lparr>k_state := HSP_RECEIVING_BODY\<rparr>" using r(4) k3 by (auto dest!: key_is_ready [of _ _ _ p])
    then show ?thesis using received_ok(1) [OF k k1] by simp
  next
    case False
    then have "key p s' = (key p s1)\<lparr>k_read := False, k_state := HSP_HANDLING\<rparr>" using r(4) k3 by (auto dest!: prim(5))
    then show ?thesis using received_ok(2) [OF k k1] by simp
  qed
qed

lemma headers_received_ok:
  assumes run: "headers_received p base n e b s = Some s'" and k: "key_ok (key p s)" "k_state (key p s) = HSP_RECEIVING_HEADERS"
  shows "key_ok (key p s')"
proof -
  obtain r m req uid v nb nb' bs s1 where
    r: "s1 = load_request m req ((upd (\<lambda>h. h\<lparr>hp_uid := uid, hp_rest := v\<rparr>) (s\<lparr>hs_nb := nb\<rparr>))\<lparr>hs_nb := nb'\<rparr>)" "(if r \<noteq> (0::int) then bad_request p s1 else request_received p bs s1) = Some s'"
    using run by (auto simp: headers_received_def Let_def bind_eq_Some_conv split: prod.splits)
  have k1: "key p s1 = key p s" by (simp add: r(1))
  then have cs: "can_start (key p s1)" using k(2) by (simp add: can_start_def)
  show ?thesis
  proof (cases "r = 0")
    case True
    then show ?thesis using request_received_ok [of bs s1 s'] r(2) k1 k by simp
  next
    case False
    obtain b' c' where "key p s' = started b' c' (key p s1)" using bad_request_key [of s1 s'] False r(2) k1 cs can_start_facts [OF k(1)] by auto
    then show ?thesis using started_ok [of "key p s1"] k1 k(1) cs by simp
  qed
qed

lemma search_headers_ok:
  assumes run: "search_headers p s = Some s'" and k: "key_ok (key p s)" "k_state (key p s) = HSP_RECEIVING_HEADERS"
  shows "key_ok (key p s')"
proof -
  obtain base n where u: "nxb_get_unfinished (hs_nb s) = (base, n)" by (cases "nxb_get_unfinished (hs_nb s)")
  define s2 where "s2 = upd (\<lambda>h. h\<lparr>hp_headers_bytes_received := n\<rparr>) s"
  have k2: "key p s2 = key p s" by (simp add: s2_def)
  have cs: "can_start (key p s2)" using k(2) k2 by (simp add: can_start_def)
  have bad: "key_ok (key p s')" if b: "bad_request p s2 = Some s'"
    using bad_request_key [OF b] started_ok [of "key p s2"] cs can_start_facts [OF _ cs] k(1) k2 by auto
  obtain found where "(case found of Some (e, b) \<Rightarrow> headers_received p base n e b s2
      | None \<Rightarrow> if NXWEB_MAX_REQUEST_HEADERS_SIZE \<le> n then bad_request p s2 else Some s2) = Some s'"
    using run unfolding search_headers_def u Let_def prod.case s2_def [symmetric] by (auto simp: bind_eq_Some_conv)
  then show ?thesis using bad headers_received_ok [of _ _ _ _ s2 s'] k k2 by (auto split: option.splits if_splits)
qed

lemma receive_headers_ok:
  assumes run: "receive_headers p reader s = Some s'" and k: "key_ok (key p s)" "k_state (key p s) = HSP_RECEIVING_HEADERS"
  shows "key_ok (key p s')"
proof -
  obtain ptr n where u: "nxb_get_room (hs_nb s) = (ptr, n)" by (cases "nxb_get_room (hs_nb s)")
  obtain bs x s1 where s1: "on_peer (reader n) s = Some ((bs, x), s1)" "s' = s1 \<or> (\<exists>nb. search_headers p (s1\<lparr>hs_nb := nb\<rparr>) = Some s')"
    using run by (auto simp: receive_headers_def u bind_eq_Some_conv split: if_split_asm)
  have "key p s1 = key p s" by (rule key_read [OF s1(1)])
  then show ?thesis using s1(2) k search_headers_ok [of "s1\<lparr>hs_nb := _\<rparr>" s'] by auto
qed

lemma pass_body_ok:
  assumes run: "pass_body p do_read s = Some s'" and k: "key_ok (key p s)"
    and do_read: "\<And>s s'. do_read s = Some s' \<Longrightarrow> key_ok (key p s) \<Longrightarrow> key_ok (key p s')"
  shows "key_ok (key p s')"
  using assms by (auto simp: pass_body_def bind_eq_Some_conv dest!: key_is_ready [of _ _ _ p] split: option.splits if_splits)

lemma data_in_ok:
  assumes run: "data_in_do_read p reader do_read s = Some s'" and k: "key_ok (key p s)"
    and do_read: "\<And>s s'. do_read s = Some s' \<Longrightarrow> key_ok (key p s) \<Longrightarrow> key_ok (key p s')"
  shows "key_ok (key p s')"
proof -
  obtain s1 where s1: "(if hp_state (hs_world s) = HSP_WAITING_FOR_REQUEST then start_request p s else Some s) = Some s1"
    "(case hp_state (hs_world s1) of HSP_RECEIVING_HEADERS \<Rightarrow> receive_headers p reader s1 | HSP_RECEIVING_BODY \<Rightarrow> pass_body p do_read s1 | _ \<Rightarrow> Some s1) = Some s'"
    using run by (auto simp: data_in_do_read_def bind_eq_Some_conv)
  have "key_ok (key p s1)"
  proof (cases "hp_state (hs_world s) = HSP_WAITING_FOR_REQUEST")
    case True
    then have "k_state (key p s) = HSP_WAITING_FOR_REQUEST" "k_time (key p s)" using k by (simp_all add: key_def key_ok_def)
    then show ?thesis using start_request_key [of s s1] waiting_ok [OF k] s1(1) True by simp
  qed (use s1(1) k in simp)
  then show ?thesis
    using s1(2) receive_headers_ok [of s1 s'] pass_body_ok [of do_read s1 s'] do_read
    by (cases "hp_state (hs_world s1)") (simp_all add: key_def)
qed

lemma count_body_key: "count_body p bs s = Some (bs', s') \<Longrightarrow> key p s' = key p s"
  by (auto simp: count_body_def decode_body_def bind_eq_Some_conv Let_def dest!: key_publish split: if_splits)

lemma body_received_key: "body_received p s = Some s' \<Longrightarrow> key p s' = (key p s)\<lparr>k_state := HSP_HANDLING\<rparr>"
  by (auto simp: body_received_def dest!: key_publish)

lemma take_first_chunk_key:
  assumes "take_first_chunk p n s = Some (complete, bs, s')"
  shows "key p s' = (if complete then (key p s)\<lparr>k_state := HSP_HANDLING\<rparr> else key p s)"
  using assms by (auto simp: take_first_chunk_def bind_eq_Some_conv Let_def dest!: count_body_key body_received_key split: option.splits if_splits)

lemma read_more_key:
  assumes "read_more p reader n s = Some (complete, bs, s')"
  shows "key p s' = (if complete then (key p s)\<lparr>k_state := HSP_HANDLING\<rparr> else key p s)"
  using assms
  by (auto simp: read_more_def bind_eq_Some_conv dest!: count_body_key body_received_key key_os_ready [of _ _ _ p] key_read split: option.splits if_splits)

lemma body_read_ok:
  assumes run: "req_body_out_read p reader n s = Some (r, s')" and k: "key_ok (key p s)"
  shows "key_ok (key p s')"
proof (cases "hp_state (hs_world s) = HSP_RECEIVING_BODY")
  case True
  then have st: "k_state (key p s) = HSP_RECEIVING_BODY" "k_read (key p s)" "k_time (key p s)" using k by (simp_all add: key_def key_ok_def receiving_def)
  obtain s1 c1 bs s2 where r: "on_timers (nxe_unset_timer NXWEB_TIMER_READ (p_timer_read p)) s = Some s1" "take_first_chunk p n s1 = Some (c1, bs, s2)"
    "(if c1 then Some ((bs, True), s2) else read_rest p reader n bs s2) = Some (r, s')"
    using run True by (auto simp: req_body_out_read_def bind_eq_Some_conv)
  have k1: "key p s1 = (key p s)\<lparr>k_read := False\<rparr>" using prim(5) [OF r(1)] .
  note k2 = take_first_chunk_key [OF r(2)]
  have H: "key_ok ((key p s)\<lparr>k_read := False, k_state := HSP_HANDLING\<rparr>)" by (rule body_ok [OF k st(1)])
  show ?thesis
  proof (cases c1)
    case True
    then show ?thesis using r(3) k1 k2 H by simp
  next
    case False
    then obtain c2 bs2 s3 where s3: "(if 0 < n - length bs then read_more p reader (n - length bs) s2 else Some (False, [], s2)) = Some (c2, bs2, s3)"
      "if c2 then s' = s3 else on_timers (nxe_set_timer NXWEB_TIMER_READ (p_timer_read p)) s3 = Some s'"
      using r(3) by (auto simp: read_rest_def bind_eq_Some_conv split: if_split_asm)
    have k3: "key p s3 = (if c2 then (key p s1)\<lparr>k_state := HSP_HANDLING\<rparr> else key p s1)"
      using s3(1) k2 False by (auto dest!: read_more_key split: if_split_asm)
    have same: "(key p s)\<lparr>k_read := True\<rparr> = key p s" using st(2) by simp
    show ?thesis
    proof (cases c2)
      case True
      then show ?thesis using s3(2) k3 k1 H by simp
    next
      case False
      then have "key p s' = (key p s)\<lparr>k_read := True\<rparr>" using s3(2) k3 k1 prim(2) [of s3 s'] st(3) by simp
      then show ?thesis using same k by simp
    qed
  qed
next
  case False
  then show ?thesis using run k
    by (auto simp: req_body_out_read_def dest!: key_os_ready [of _ _ _ p] split: if_split_asm)
qed

subsection \<open>Sending\<close>

lemma write_headers_key:
  assumes "write_headers p writer c str s = Some (n, s')"
  shows "key p s' = (key p s)\<lparr>k_ptr := Some (ptr_add n c)\<rparr>" "n \<le> length str"
proof -
  obtain r s1 where "on_peer (writer False str True) s = Some (r, s1)" "0 \<le> r" "r \<le> int (length str)" "n = nat r"
    "s' = upd (\<lambda>h. h\<lparr>hp_resp_headers_ptr := Some (ptr_add (nat r) c)\<rparr>) s1"
    using assms by (auto simp: write_headers_def bind_eq_Some_conv split: if_split_asm)
  then show "key p s' = (key p s)\<lparr>k_ptr := Some (ptr_add n c)\<rparr>" "n \<le> length str" using key_write by auto
qed

lemma send_100_ok:
  assumes run: "send_100_continue p writer s = Some (stop, s')" and k: "key_ok (key p s)" "k_out (key p s)"
  shows "key_ok (key p s') \<and> (\<not> stop \<longrightarrow> \<not> k_100 (key p s') \<and> sending (k_state (key p s')) \<and> k_write (key p s'))"
proof (cases "k_100 (key p s)")
  case False
  then have "s' = s" "\<not> stop" using run by (auto simp: send_100_continue_def key_def)
  then show ?thesis using out_facts [OF k False] False k by simp
next
  case True
  then obtain c str where ptr: "hp_resp_headers_ptr (hs_world s) = Some (Lit (c # str))" using k(1) by (auto simp: key_ok_def key_def)
  have left: "headers_left s = Some (Some (Lit (c # str), c # str))" by (simp add: headers_left_def ptr load_str_def)
  have s100: "hp_sending_100_continue (hs_world s)" using True by (simp add: key_def)
  obtain n s1 where s1: "write_headers p writer (Lit (c # str)) (c # str) s = Some (n, s1)"
    "(if n \<noteq> length (c # str) then Some (True, s1)
      else let s = upd (\<lambda>h. h\<lparr>hp_sending_100_continue := False\<rparr>) s1 in
        if hp_state (hs_world s) = HSP_SENDING_HEADERS
        then Some (False, upd (\<lambda>h. h\<lparr>hp_resp_headers_ptr := map_option Ptr (rs_raw_headers (hs_resp s))\<rparr>) s)
        else Some (True, is_unready (p_data_out p) s)) = Some (stop, s')"
    using run s100 by (auto simp: send_100_continue_def left bind_eq_Some_conv)
  note k1 = write_headers_key [OF s1(1)]
  have st: "hp_state (hs_world s1) = k_state (key p s)" using arg_cong [OF k1(1), of k_state] by (simp add: key_def)
  show ?thesis
  proof (cases "n = length (c # str)")
    case False
    then have s': "stop" "s' = s1" using s1(2) by simp_all
    obtain d ds where "drop n (c # str) = d # ds" using k1(2) False by (cases "drop n (c # str)") auto
    then show ?thesis using s' interim_ok(1) [OF k(1) True, of d ds] k1(1) by (simp add: ptr_add_def)
  next
    case n: True
    define s2 where "s2 = upd (\<lambda>h. h\<lparr>hp_sending_100_continue := False\<rparr>) s1"
    have k2: "key p s2 = (key p s)\<lparr>k_100 := False, k_ptr := Some (ptr_add n (Lit (c # str)))\<rparr>" using k1(1) by (simp add: s2_def)
    have st2: "hp_state (hs_world s2) = k_state (key p s)" using st by (simp add: s2_def upd_def)
    have r2: "(if hp_state (hs_world s2) = HSP_SENDING_HEADERS
        then Some (False, upd (\<lambda>h. h\<lparr>hp_resp_headers_ptr := map_option Ptr (rs_raw_headers (hs_resp s2))\<rparr>) s2)
        else Some (True, is_unready (p_data_out p) s2)) = Some (stop, s')" using s1(2) n unfolding s2_def [symmetric] Let_def by simp
    show ?thesis
    proof (cases "k_state (key p s) = HSP_SENDING_HEADERS")
      case True
      then have "key p s' = (key p s)\<lparr>k_ptr := map_option Ptr (rs_raw_headers (hs_resp s2)), k_100 := False\<rparr>" "\<not> stop"
        using r2 st2 k2 by auto
      moreover have "k_write (key p s)" using k True by (auto simp: key_ok_def sending_def)
      ultimately show ?thesis using interim_ok(3) [OF k(1) \<open>k_100 (key p s)\<close> True] True by (simp add: sending_def)
    next
      case False
      then have "key p s' = (key p s)\<lparr>k_100 := False, k_ptr := Some (ptr_add n (Lit (c # str))), k_out := False\<rparr>" "stop"
        using r2 st2 k2 by auto
      then show ?thesis using interim_ok(2) [OF k(1) True] by simp
    qed
  qed
qed

lemma send_headers_ok:
  assumes run: "send_headers p writer s = Some (stop, s')" and k: "key_ok (key p s)" "\<not> k_100 (key p s)" "sending (k_state (key p s))" "k_write (key p s)"
  shows "key_ok (key p s')"
proof (cases "hp_state (hs_world s) = HSP_SENDING_HEADERS")
  case True
  obtain left stop1 s1 where s1: "(case left of None \<Rightarrow> Some (False, s)
       | Some (c, str) \<Rightarrow> do {
           (n, s) \<leftarrow> write_headers p writer c str s;
           (if n < length str then Some (True, s) else Some (False, upd (\<lambda>h. h\<lparr>hp_resp_headers_ptr := None\<rparr>) s)) }) = Some (stop1, s1)"
    "(if stop1 then Some (True, s1)
      else if rs_content_length (hs_resp s1) = 0 \<or> rq_head_method (hp_req (hs_world s1)) then map_option (Pair True) (request_complete p s1)
      else Some (False, upd (\<lambda>h. h\<lparr>hp_state := HSP_SENDING_BODY\<rparr>) s1)) = Some (stop, s')"
    using run True by (auto simp: send_headers_def bind_eq_Some_conv)
  obtain c where k1: "key p s1 = (key p s)\<lparr>k_ptr := c\<rparr>"
  proof (cases left)
    case None
    then show ?thesis using that [of "k_ptr (key p s)"] s1(1) by simp
  next
    case (Some cs)
    then show ?thesis using that s1(1) by (auto simp: bind_eq_Some_conv dest!: write_headers_key(1) split: prod.splits if_split_asm)
  qed
  have k1': "key_ok (key p s1)" using k1 sending_ok(3) [OF k(1,3,2,4)] by simp
  have f1: "sending (k_state (key p s1))" "\<not> k_100 (key p s1)" "k_write (key p s1)" using k1 k by simp_all
  have fin: "key_ok (key p s')" if "request_complete p s1 = Some s'"
    using request_complete_key [OF that] sending_ok(2) [OF k1' f1] by simp
  show ?thesis using s1(2) k1' fin sending_ok(4) [OF k(1,3,2,4), of c] k1 by (auto split: if_split_asm)
next
  case False
  then show ?thesis using run k by (simp add: send_headers_def)
qed

lemma send_body_part_ok:
  assumes run: "send_body_part p do_write s = Some s'" and k: "key_ok (key p s)"
    and do_write: "\<And>s s'. do_write s = Some s' \<Longrightarrow> key_ok (key p s) \<Longrightarrow> key_ok (key p s')"
  shows "key_ok (key p s')"
proof (cases "if hp_state (hs_world s) = HSP_SENDING_BODY then os_pair (hs_events s) (p_resp_body_in p) else None")
  case None
  then show ?thesis using run out_off_ok [OF k] by (auto simp: send_body_part_def)
next
  case (Some prev)
  define s0 where "s0 = s\<lparr>hs_events := (hs_events s)\<lparr>os_ready := (os_ready (hs_events s))(p_resp_body_in p := True)\<rparr>\<rparr>"
  have k0: "key_ok (key p s0)" using k by (simp add: s0_def key_def armed_def)
  obtain s1 where s1: "(if is_ready (hs_events s) prev then do_write s0 else Some s) = Some s1"
    "(if \<not> is_ready (hs_events s1) prev then on_events (nxe_ostream_set_ready (p_resp_body_in p)) (is_unready (p_data_out p) s1) else Some s1) = Some s'"
    using run unfolding send_body_part_def Some option.case s0_def [symmetric] by (auto simp: bind_eq_Some_conv)
  have "key_ok (key p s1)" using s1(1) do_write k k0 by (auto split: if_split_asm)
  then show ?thesis using s1(2) out_off_ok [of "key p s1"] by (auto dest!: key_os_ready [of _ _ _ p] split: if_split_asm)
qed

lemma data_out_ok:
  assumes run: "data_out_do_write p writer do_write s = Some s'" and k: "key_ok (key p s)" "k_out (key p s)"
    and do_write: "\<And>s s'. do_write s = Some s' \<Longrightarrow> key_ok (key p s) \<Longrightarrow> key_ok (key p s')"
  shows "key_ok (key p s')"
proof -
  obtain stop s1 where s1: "send_100_continue p writer s = Some (stop, s1)" using run by (auto simp: data_out_do_write_def bind_eq_Some_conv)
  note k1 = send_100_ok [OF s1 k]
  show ?thesis
  proof (cases stop)
    case True
    then show ?thesis using run s1 k1 by (simp add: data_out_do_write_def)
  next
    case False
    obtain s2 s3 stop2 s4 where r: "on_timers (nxe_unset_timer NXWEB_TIMER_WRITE (p_timer_write p)) s1 = Some s2"
      "on_timers (nxe_set_timer NXWEB_TIMER_WRITE (p_timer_write p)) s2 = Some s3" "send_headers p writer s3 = Some (stop2, s4)"
      "(if stop2 then Some s4 else send_body_part p do_write s4) = Some s'"
      using run s1 False by (auto simp: data_out_do_write_def bind_eq_Some_conv)
    have t: "k_time (key p s1)" "k_write (key p s1)" using k1 False by (auto simp: key_ok_def)
    have k3: "key p s3 = key p s1" using prim(6) [OF r(1)] prim(3) [OF r(2)] t by simp
    have k4: "key_ok (key p s4)" using send_headers_ok [OF r(3)] k1 False k3 by simp
    then show ?thesis using r(4) send_body_part_ok [of do_write s4 s'] do_write by (auto split: if_split_asm)
  qed
qed

lemma write_encoded_key: "write_encoded writer file bs eof s = Some (n, skip, s') \<Longrightarrow> key p s' = key p s"
  by (auto simp: write_encoded_def bind_eq_Some_conv dest!: key_write split: if_split_asm)

lemma write_frame_key: "write_frame writer n eof s = Some (skip, k, cwf, s') \<Longrightarrow> key p s' = key p s"
  by (auto simp: write_frame_def bind_eq_Some_conv Let_def dest!: write_encoded_key split: if_split_asm)

lemma write_data_key: "write_data writer file bs (skip, k, cwf, s) = Some (n, skip', k', s') \<Longrightarrow> key p s' = key p s"
  by (auto simp: write_data_def dest!: write_encoded_key split: if_split_asm)

lemma write_trailer_key: "write_trailer writer bs eof (sent, skip, k, s) = Some (n, s') \<Longrightarrow> key p s' = key p s"
  by (auto simp: write_trailer_def dest!: write_frame_key split: if_split_asm)

lemma write_chunk_key:
  assumes "write_chunk writer file bs eof s = Some (n, s')"
  shows "key p s' = key p s"
proof -
  obtain skip k cwf s1 sent skip2 k2 s2 where "write_frame writer (length bs) eof s = Some (skip, k, cwf, s1)"
    "write_data writer file bs (skip, k, cwf, s1) = Some (sent, skip2, k2, s2)" "write_trailer writer bs eof (sent, skip2, k2, s2) = Some (n, s')"
    using assms unfolding write_chunk_def bind_eq_Some_conv by fast
  then show ?thesis using write_frame_key write_data_key write_trailer_key by simp
qed

lemma write_out_key: "write_out writer next_os file bs eof s = Some (n, s') \<Longrightarrow> key p s' = key p s"
  by (auto simp: write_out_def write_plain_def bind_eq_Some_conv dest!: write_chunk_key key_write split: if_split_asm)

lemma write_body_key:
  assumes "write_body p writer file bs eof s = Some (n, s')"
  shows "\<exists>o'. key p s' = (key p s)\<lparr>k_out := o'\<rparr>"
proof (cases "is_pair (hs_events s) (p_data_out p)")
  case None
  then show ?thesis using assms by (intro exI [of _ "k_out (key p s)"]) (auto simp: write_body_def)
next
  case (Some next_os)
  then obtain s1 where r: "write_out writer next_os file bs eof s = Some (n, s1)"
    "s' = s1 \<or> on_events (nxe_istream_set_ready (p_data_out p)) (os_unready (p_resp_body_in p) s1) = Some s'"
    using assms by (auto simp: write_body_def bind_eq_Some_conv split: if_split_asm)
  have k1: "key p s1 = key p s" by (rule write_out_key [OF r(1)])
  from r(2) show ?thesis
  proof
    assume "s' = s1"
    then show ?thesis using k1 by (intro exI [of _ "k_out (key p s)"]) simp
  next
    assume "on_events (nxe_istream_set_ready (p_data_out p)) (os_unready (p_resp_body_in p) s1) = Some s'"
    from key_is_ready [OF this, of p] show ?thesis using k1 by (intro exI [of _ True]) simp
  qed
qed

lemma body_sent_key:
  assumes "body_sent p n eof sent s = Some s'" "k_time (key p s)"
  shows "key p s' = completed (key p s) \<or> key p s' = (key p s)\<lparr>k_write := True\<rparr>"
  using assms by (auto simp: body_sent_def Let_def dest!: request_complete_key prim(3) split: if_split_asm)

text \<open>A write of the body: it comes from a stream that is connected, so that a response is being sent.\<close>

lemma body_write_ok:
  assumes run: "resp_body_in_write_or_sendfile p writer file bs eof s = Some (n, s')" and k: "key_ok (key p s)" "k_body (key p s)"
  shows "key_ok (key p s')"
proof (cases "hp_state (hs_world s) = HSP_SENDING_BODY")
  case False
  then obtain s1 where s1: "on_events (nxe_istream_set_ready (p_data_out p)) (os_unready (p_resp_body_in p) s) = Some s'"
    using run by (auto simp: resp_body_in_write_or_sendfile_def)
  from key_is_ready [OF this, of p] have "key p s' = (key p s)\<lparr>k_out := True\<rparr>" by simp
  then show ?thesis using out_on_ok [OF k] by simp
next
  case True
  then have st: "k_state (key p s) = HSP_SENDING_BODY" by (simp add: key_def)
  have f: "sending (k_state (key p s))" "k_write (key p s)" "k_time (key p s)" using body_facts [OF k] by simp_all
  have no100: "\<not> k_100 (key p s)" using k(1) st by (auto simp: key_ok_def)
  obtain s1 s2 where r: "on_timers (nxe_unset_timer NXWEB_TIMER_WRITE (p_timer_write p)) s = Some s1"
    "(if bs \<noteq> [] \<or> hp_chunked_autoencode (hs_world s1) then write_body p writer file bs eof s1 else Some (0, s1)) = Some (n, s2)"
    "body_sent p (length bs) eof n s2 = Some s'"
    using run True by (auto simp: resp_body_in_write_or_sendfile_def bind_eq_Some_conv)
  have k1: "key p s1 = (key p s)\<lparr>k_write := False\<rparr>" using prim(6) [OF r(1)] .
  obtain o' where k2: "key p s2 = (key p s)\<lparr>k_write := False, k_out := o'\<rparr>"
  proof (cases "bs \<noteq> [] \<or> hp_chunked_autoencode (hs_world s1)")
    case True
    then have "write_body p writer file bs eof s1 = Some (n, s2)" using r(2) by simp
    from write_body_key [OF this] show ?thesis using that k1 by auto
  next
    case False
    then show ?thesis using that [of "k_out (key p s)"] r(2) k1 by simp
  qed
  have rearmed: "(key p s)\<lparr>k_out := o', k_write := True\<rparr> = (key p s)\<lparr>k_out := o'\<rparr>" using f(2) by simp
  have "key p s' = completed (key p s) \<or> key p s' = (key p s)\<lparr>k_out := o'\<rparr>"
    using body_sent_key [OF r(3)] k2 f(3) rearmed by (simp add: completed_def)
  then show ?thesis using sending_ok(1,2) [OF k(1) f(1) no100 f(2)] by auto
qed

end

section \<open>Runs of a connection\<close>

text \<open>
  What a peer at the end of a body does: it calls the methods of the protocol, writes only while it is connected, and
  leaves the part of the state that matters alone otherwise.
\<close>

inductive peer_run :: "'v proto_env \<Rightarrow> 'v read_method \<Rightarrow> (bool \<Rightarrow> 'v write_method) \<Rightarrow> 'v conn \<Rightarrow> 'v conn \<Rightarrow> bool" for p reader writer where
  peer_rests: "peer_run p reader writer s s"
| peer_reads: "peer_run p reader writer s s1 \<Longrightarrow> req_body_out_read p reader n s1 = Some (r, s2) \<Longrightarrow> peer_run p reader writer s s2"
| peer_writes: "peer_run p reader writer s s1 \<Longrightarrow> os_pair (hs_events s1) (p_resp_body_in p) \<noteq> None \<Longrightarrow>
    resp_body_in_write_or_sendfile p writer file bs eof s1 = Some (k, s2) \<Longrightarrow> peer_run p reader writer s s2"
| peer_else: "peer_run p reader writer s s1 \<Longrightarrow> key p s2 = key p s1 \<Longrightarrow> peer_run p reader writer s s2"

text \<open>
  The loop calls the protocol: bytes may be received at any time, they are sent when \<^verbatim>\<open>data_out\<close> is ready, a handler starts a response whenever it
  likes, and a request is cleaned up when it is complete.  A timer that goes off or an error ends the run: the connection is closed then.
\<close>

inductive hsp_reach :: "'v proto_env \<Rightarrow> 'v read_method \<Rightarrow> (bool \<Rightarrow> 'v write_method) \<Rightarrow> 'v conn \<Rightarrow> bool" for p reader writer where
  connected: "time_ok (hp_timers (hs_world s)) \<Longrightarrow> nxd_http_server_proto_connect p (nxd_http_server_proto_init p nxb_pool s) = Some s' \<Longrightarrow> hsp_reach p reader writer s'"
| receives: "hsp_reach p reader writer s \<Longrightarrow> (\<And>a b. do_read a = Some b \<Longrightarrow> peer_run p reader writer a b) \<Longrightarrow>
    data_in_do_read p reader do_read s = Some s' \<Longrightarrow> hsp_reach p reader writer s'"
| sends: "hsp_reach p reader writer s \<Longrightarrow> is_ready (hs_events s) (p_data_out p) \<Longrightarrow> (\<And>a b. do_write a = Some b \<Longrightarrow> peer_run p reader writer a b) \<Longrightarrow>
    data_out_do_write p writer do_write s = Some s' \<Longrightarrow> hsp_reach p reader writer s'"
| responds: "hsp_reach p reader writer s \<Longrightarrow> nxd_http_server_proto_start_sending_response p s = Some s' \<Longrightarrow> hsp_reach p reader writer s'"
| cleans_up: "hsp_reach p reader writer s \<Longrightarrow> sending (hp_state (hs_world s)) \<Longrightarrow> \<not> armed (p_timer_write p) s \<Longrightarrow>
    request_cleanup p s = Some s' \<Longrightarrow> hsp_reach p reader writer s'"
| peers_run: "hsp_reach p reader writer s \<Longrightarrow> peer_run p reader writer s s' \<Longrightarrow> hsp_reach p reader writer s'"

lemma connected_key:
  assumes "ids_ok p" "time_ok (hp_timers (hs_world s))" "nxd_http_server_proto_connect p (nxd_http_server_proto_init p nxb_pool s) = Some s'"
  shows "key_ok (key p s')"
proof -
  define s1 where "s1 = upd (\<lambda>h. h\<lparr>hp_state := HSP_WAITING_FOR_REQUEST\<rparr>) (nxd_http_server_proto_init p nxb_pool s)"
  have ts: "hp_timers (hs_world s1) = clear_timer (p_timer_write p) (clear_timer (p_timer_read p) (clear_timer (p_timer_keep_alive p) (hp_timers (hs_world s))))"
    by (simp add: s1_def nxd_http_server_proto_init_def clear_request_def clear_response_def upd_def)
  have k1: "key p s1 = \<lparr>k_state = HSP_WAITING_FOR_REQUEST, k_keep_alive = False, k_read = False, k_write = False, k_time = True, k_100 = False, k_ptr = None,
      k_out = False, k_body = False\<rparr>"
    using assms(1,2) by (simp add: key_def armed_def ts clear_timer_def time_ok_def)
      (simp add: s1_def nxd_http_server_proto_init_def clear_request_def clear_response_def upd_def init_streams_def clear_istream_def clear_ostream_def Let_def ids_ok_def)
  have "key p s' = (key p s1)\<lparr>k_keep_alive := True\<rparr>"
    using key_timers(1) [OF assms(1), of s1 s'] assms(3) k1 unfolding nxd_http_server_proto_connect_def s1_def [symmetric] by simp
  then show ?thesis using k1 by (simp add: key_ok_def sending_def receiving_def)
qed

context hsp_peers
begin

lemma peer_run_ok: "peer_run p reader writer s s' \<Longrightarrow> key_ok (key p s) \<Longrightarrow> key_ok (key p s')"
proof (induction rule: peer_run.induct)
  case (peer_reads s s1 n r s2)
  then show ?case using body_read_ok by blast
next
  case (peer_writes s s1 fl bs eof k s2)
  then have "k_body (key p s1)" by (simp add: key_def)
  then show ?case using peer_writes body_write_ok by blast
qed simp_all

lemma run_key_ok: "hsp_reach p reader writer s \<Longrightarrow> key_ok (key p s)"
proof (induction rule: hsp_reach.induct)
  case (connected s nxb_pool s')
  then show ?case using connected_key [OF ids] by blast
next
  case (receives s do_read s')
  then show ?case using data_in_ok [of do_read s s'] peer_run_ok by blast
next
  case (sends s do_write s')
  then have "k_out (key p s)" by (simp add: key_def)
  then show ?case using sends data_out_ok [of do_write s s'] peer_run_ok by blast
next
  case (responds s s')
  then show ?case using start_sending_ok by blast
next
  case (cleans_up s s')
  then have k: "sending (k_state (key p s))" "\<not> k_write (key p s)" by (simp_all add: key_def)
  then have "\<not> k_body (key p s)" "k_time (key p s)" using cleans_up(5) by (auto simp: key_ok_def)
  then show ?case using cleanup_key [OF cleans_up(4)] cleaned_ok [OF cleans_up(5) k] by simp
next
  case (peers_run s s')
  then show ?case using peer_run_ok by blast
qed

end

section \<open>A server on plain sockets\<close>

text \<open>
  The streams of the socket \<open>fs\<close> around the protocol, with the numbers of the protocol's streams after that of the socket's; no module, filter or
  handler hooks into the end of a request, and files cannot be opened.
\<close>

definition plain_server :: "'v sock_sys \<Rightarrow> nxe_fd_source \<Rightarrow> 'v proto_env \<Rightarrow> 'v proto_env" where
  "plain_server sys fs p = p\<lparr>
     p_server := (p_server p)\<lparr>e_handler := (\<lambda>h. (e_handler (p_server p) h)\<lparr>hn_filters := [], hn_num_filters := 0, hn_on_complete := None\<rparr>),
       e_open := (\<lambda>_ w. (-1, w)), e_ob_data_out := fs_data_is fs + 3, e_fb_data_out := fs_data_is fs + 4\<rparr>,
     p_data_out := fs_data_is fs + 1, p_req_body_out := fs_data_is fs + 2, p_timer_keep_alive := 0, p_timer_read := 1, p_timer_write := 2,
     p_finalize_subrequests := Some, p_log_complete := Some, p_req_finalizer := Some, p_data_finalizer := (\<lambda>_ _. Some),
     p_shutdown := (\<lambda>e. Some (sock_data_send_shutdown sys fs e))\<rparr>"

lemma sock_read_kept: "sock_data_recv_read sys mem fs n (st, v) = Some (r, st', v') \<Longrightarrow> fs_data_is fs \<noteq> p_data_out p \<Longrightarrow> own_kept p st st'"
  by (auto simp: sock_data_recv_read_def own_kept_def streams_kept_def nxe_istream_unset_ready_def Let_def bind_eq_Some_conv
      dest!: publish_keeps split: if_split_asm prod.splits)

lemma sock_write_kept: "sock_data_send_write sys mem fs fl bs eof (st, v) = Some (k, st', v') \<Longrightarrow> own_kept p st st'"
  by (auto simp: sock_data_send_write_def own_kept_def streams_kept_def nxe_ostream_unset_ready_def Let_def bind_eq_Some_conv
      dest!: publish_keeps split: if_split_asm prod.splits)

interpretation sock: hsp_peers "plain_server sys fs p" "sock_data_recv_read sys mem fs" "sock_data_send_write sys mem fs" for sys fs p mem
proof
  show "ids_ok (plain_server sys fs p)" by (simp add: ids_ok_def plain_server_def)
  show "own_kept (plain_server sys fs p) st st'" if "sock_data_recv_read sys mem fs n (st, v) = Some (r, st', v')" for n st v r st' v'
    by (rule sock_read_kept [OF that]) (simp add: plain_server_def)
  show "own_kept (plain_server sys fs p) st st'" if "p_shutdown (plain_server sys fs p) (st, v) = Some (st', v')" for st v st' v'
    using that by (simp add: plain_server_def sock_data_send_shutdown_def own_kept_def)
qed (auto simp: plain_server_def placed_filters_def dest: sock_write_kept)

text \<open>A connection whose socket has nothing to read yet.\<close>

definition sample_sock :: "unit sock_sys" where
  "sample_sock = \<lparr>sk_read = (\<lambda>fd n w. ((-1, [], EAGAIN), w)), sk_write = (\<lambda>fd fl bs w. ((int (length bs), 0), w)),
     sk_cork = (\<lambda>_ w. w), sk_shutdown = (\<lambda>_ w. w)\<rparr>"

definition sample_fs :: nxe_fd_source where
  "sample_fs = \<lparr>fs_fd = 5, fs_data_is = 10, fs_data_os = 11, fs_data_error = 12\<rparr>"

definition sample_env :: "unit proto_env" where
  "sample_env = \<lparr>p_server = \<lparr>e_handler = (\<lambda>_. handler_zero), e_default_handler = 0, e_start_sending_response = Some, e_loop_time = 0, e_http_time = 0,
       e_read_file = (\<lambda>_ _. None), e_open = (\<lambda>_ w. (-1, w)), e_load = (\<lambda>_ _ _. []), e_version = [], e_malloc = (\<lambda>_. None),
       e_table_room = (\<lambda>_. False), e_ob_data_out = 0, e_fb_data_out = 1\<rparr>,
     p_data_in = 20, p_data_out = 0, p_req_body_out = 0, p_resp_body_in = 21, p_data_error = 22, p_events_pub = 23,
     p_timer_keep_alive = 0, p_timer_read = 1, p_timer_write = 2, p_mem = (\<lambda>_. None), p_nxb_mem = (\<lambda>_. None), p_nxb_addr = (\<lambda>_. 4096),
     p_generate_unique_id = (\<lambda>v. (7, v)), p_finalize_subrequests = Some, p_log_complete = Some, p_req_finalizer = Some,
     p_data_finalizer = (\<lambda>_ _. Some), p_shutdown = Some, p_now = 0,
     p_clock = (\<lambda>_. \<lparr>lp_current_time = 0, lp_last_http_time = 0, lp_http_time = 0, lp_http_time_str = [], lp_iso8601_time_str = []\<rparr>), p_set_clock = (\<lambda>_ v. v)\<rparr>"

definition sample_pool :: nxp_pool where
  "sample_pool = \<lparr>po_chunks = [\<lparr>pc_addr = 0, pc_nitems = 1, pc_id = 1\<rparr>], po_initial_chunk = 0,
     po_free = \<lparr>l_next = (\<lambda>_. None), l_prev = (\<lambda>_. None), l_first = Some (0, 0), l_last = Some (0, 0)\<rparr>, po_in_use = (\<lambda>_. False), po_chunk_id = (\<lambda>_. 1),
     po_object_size = NXWEB_CONN_NXB_SIZE\<rparr>"

definition sample_conn :: "unit conn" where
  "sample_conn = \<lparr>hs_handler = None, hs_handler_param = 0, hs_secure = False, hs_uri = [], hs_path_info = None, hs_host = None,
     hs_if_modified_since = 0, hs_get_method = False, hs_post_method = False, hs_other_method = False, hs_content_length = 0,
     hs_filter_data = (\<lambda>_. None), hs_resp = response_zero, hs_cache_key = None, hs_run_filter_idx = 0,
     hs_conn = \<lparr>cc_req_data = None, cc_req_finalize = False\<rparr>, hs_nb = fresh_nxb, hs_cache = cache_init, hs_events = fresh_loop,
     hs_ob = \<lparr>ob_data_out = 0, ob_mem = [], ob_data_ptr = 0, ob_data_size = 0\<rparr>,
     hs_fb = \<lparr>fb_data_out = 0, fb_fd = 0, fb_offset = 0, fb_end = 0\<rparr>, hs_closed = [],
     hs_world = \<lparr>hp_state = HSP_WAITING_FOR_REQUEST,
       hp_timers = \<lparr>tl_current_time = 1000000, tq_timeout = (\<lambda>_. 5000000), tq_first = (\<lambda>_. None), tq_last = (\<lambda>_. None),
         tm_next = (\<lambda>_. None), tm_prev = (\<lambda>_. None), tm_abs_time = (\<lambda>_. 0)\<rparr>,
       hp_nxb_pool = sample_pool, hp_nxb = None, hp_request_count = 0, hp_headers_bytes_received = 0,
       hp_req = request_zero, hp_uid = 0, hp_sending_100_continue = False, hp_content_received = 0, hp_chunked_content_complete = False, hp_cdstate = cds_zero,
       hp_data_chain = [], hp_access_log = False, hp_resp = False, hp_chunked_autoencode = False, hp_cestate = ces_zero, hp_bytes_sent = 0,
       hp_first_body_chunk = None, hp_resp_headers_ptr = None, hp_fr = nx_file_reader_init, hp_req_finalize = False, hp_no_complete = (\<lambda>_. False),
       hp_rest = ()\<rparr>\<rparr>"

definition sample_server :: "unit proto_env" where
  "sample_server = plain_server sample_sock sample_fs sample_env"

lemma sample_connected:
  "\<exists>s. nxd_http_server_proto_connect sample_server (nxd_http_server_proto_init sample_server sample_pool sample_conn) = Some s
    \<and> hp_state (hs_world s) = HSP_WAITING_FOR_REQUEST \<and> tm_abs_time (hp_timers (hs_world s)) 1 = 0
    \<and> (\<forall>t. tm_next (hp_timers (hs_world s)) t = None \<and> tm_prev (hp_timers (hs_world s)) t = None) \<and> hp_nxb_pool (hs_world s) = sample_pool"
  by (simp add: nxd_http_server_proto_connect_def nxd_http_server_proto_init_def on_timers_def nxe_set_timer_def upd_def clear_request_def clear_response_def
      clear_timer_def sample_conn_def sample_server_def plain_server_def sample_env_def set_tq_def tq_def link_last_def set_next_def set_prev_def set_abs_time_def
      NXE_NUMBER_OF_TIMER_QUEUES_def NXWEB_TIMER_KEEP_ALIVE_def NXWEB_TIMER_READ_def NXWEB_TIMER_WRITE_def)

lemma sample_received:
  assumes "hp_state (hs_world s) = HSP_WAITING_FOR_REQUEST" "tm_abs_time (hp_timers (hs_world s)) 1 = 0"
    "\<forall>t. tm_next (hp_timers (hs_world s)) t = None \<and> tm_prev (hp_timers (hs_world s)) t = None" "hp_nxb_pool (hs_world s) = sample_pool"
  shows "\<exists>s'. data_in_do_read sample_server (sock_data_recv_read sample_sock (\<lambda>_. None) sample_fs) Some s = Some s' \<and> hp_state (hs_world s') = HSP_RECEIVING_HEADERS"
proof -
  have "\<exists>s1. start_request sample_server s = Some s1 \<and> hp_state (hs_world s1) = HSP_RECEIVING_HEADERS"
    using assms by (simp add: start_request_def nxp_alloc_def sample_pool_def nxb_reserve_def nxb_make_room_def nxb_init_def nxb_init_chunk_def nc_buf_def align_up_def
      NXB_DEFAULT_ALIGNMENT_def SIZEOF_NXB_BUFFER_def NXWEB_CONN_NXB_SIZE_def NXWEB_MAX_REQUEST_HEADERS_SIZE_def sample_server_def plain_server_def sample_env_def
      on_timers_def nxe_unset_timer_def nxe_set_timer_def NXE_NUMBER_OF_TIMER_QUEUES_def NXWEB_TIMER_KEEP_ALIVE_def NXWEB_TIMER_READ_def upd_def set_abs_time_def set_tq_def
      tq_def unlink_def cut_out_def set_next_def set_prev_def OFFSETOF_BUF_def Let_def)
  then obtain s1 where s1: "start_request sample_server s = Some s1" "hp_state (hs_world s1) = HSP_RECEIVING_HEADERS" by blast
  have "\<exists>s'. receive_headers sample_server (sock_data_recv_read sample_sock (\<lambda>_. None) sample_fs) s1 = Some s' \<and> hp_state (hs_world s') = hp_state (hs_world s1)"
    by (simp add: receive_headers_def on_peer_def sock_data_recv_read_def sample_sock_def split_beta upd_def)
  then show ?thesis using s1 assms(1) by (auto simp: data_in_do_read_def)
qed

text \<open>
  C18: whatever the order in which the socket, the peers of the bodies, the handler and the loop call the protocol, as long as no timer has
  gone off, each timer is set exactly when it is needed: keep-alive while the connection waits for a request, read while a request is received.
  Write is set only while a response is sent, and a response without it is complete: nothing is offered to the socket and no body is connected.
\<close>

theorem timers_guard_states:
  assumes "hsp_peers p reader writer" "hsp_reach p reader writer s"
  shows "(armed (p_timer_keep_alive p) s \<longleftrightarrow> hp_state (hs_world s) = HSP_WAITING_FOR_REQUEST)
    \<and> (armed (p_timer_read p) s \<longleftrightarrow> hp_state (hs_world s) \<in> {HSP_RECEIVING_HEADERS, HSP_RECEIVING_BODY})
    \<and> (armed (p_timer_write p) s \<longrightarrow> hp_state (hs_world s) \<in> {HSP_SENDING_HEADERS, HSP_SENDING_BODY})
    \<and> (hp_state (hs_world s) \<in> {HSP_SENDING_HEADERS, HSP_SENDING_BODY} \<and> \<not> armed (p_timer_write p) s
        \<longrightarrow> \<not> is_ready (hs_events s) (p_data_out p) \<and> os_pair (hs_events s) (p_resp_body_in p) = None)"
  using hsp_peers.run_key_ok [OF assms] by (simp add: key_ok_def key_def sending_def receiving_def)

theorem timers_guard_states_witness:
  "\<exists>s. hsp_reach sample_server (sock_data_recv_read sample_sock (\<lambda>_. None) sample_fs) (sock_data_send_write sample_sock (\<lambda>_. None) sample_fs) s
     \<and> hp_state (hs_world s) = HSP_RECEIVING_HEADERS \<and> armed (p_timer_read sample_server) s \<and> \<not> armed (p_timer_keep_alive sample_server) s
     \<and> \<not> armed (p_timer_write sample_server) s"
proof -
  let ?r = "sock_data_recv_read sample_sock (\<lambda>_. None) sample_fs" and ?w = "sock_data_send_write sample_sock (\<lambda>_. None) sample_fs"
  obtain s where s: "nxd_http_server_proto_connect sample_server (nxd_http_server_proto_init sample_server sample_pool sample_conn) = Some s"
    "hp_state (hs_world s) = HSP_WAITING_FOR_REQUEST" "tm_abs_time (hp_timers (hs_world s)) 1 = 0"
    "\<forall>t. tm_next (hp_timers (hs_world s)) t = None \<and> tm_prev (hp_timers (hs_world s)) t = None" "hp_nxb_pool (hs_world s) = sample_pool"
    using sample_connected by blast
  obtain s' where s': "data_in_do_read sample_server ?r Some s = Some s'" "hp_state (hs_world s') = HSP_RECEIVING_HEADERS"
    using sample_received [OF s(2-5)] by blast
  have "time_ok (hp_timers (hs_world sample_conn))" by (simp add: time_ok_def sample_conn_def)
  then have "hsp_reach sample_server ?r ?w s" using s(1) by (rule hsp_reach.connected)
  then have reach: "hsp_reach sample_server ?r ?w s'" by (rule hsp_reach.receives [OF _ _ s'(1)]) (auto intro: peer_rests)
  have "hsp_peers sample_server ?r ?w" unfolding sample_server_def by (rule sock.hsp_peers_axioms)
  from timers_guard_states [OF this reach] show ?thesis using s'(2) reach by auto
qed

end
