(* ===== verification/Nx_Json.thy ===== *)
theory Nx_Json
  imports Nx_Misc
begin

text \<open>
  The JSON reader (\<^verbatim>\<open>lib/nxjson.c\<close>), which reads the configuration of the server: a recursive descent over a C string that unescapes strings in
  place.  Keys and strings of a tree are pointers into the text.  An outer \<open>None\<close> is undefined behaviour or a reader that does not return, an inner
  \<open>None\<close> is the null pointer that the routines return for an error.
\<close>

section \<open>The reader\<close>

datatype nx_json_type = NX_JSON_NULL | NX_JSON_OBJECT | NX_JSON_ARRAY | NX_JSON_STRING | NX_JSON_INTEGER | NX_JSON_DOUBLE | NX_JSON_BOOL

text \<open>\<^verbatim>\<open>length\<close> is the number of children.\<close>

datatype 'd nx_json = Nx_Json (js_type: nx_json_type) (js_key: "nat option") (js_text_value: "nat option") (js_int_value: int) (js_dbl_value: 'd)
  (js_children: "'d nx_json list")

text \<open>
  Doubles are an argument: \<open>js_strtod\<close> gives the value that \<^verbatim>\<open>strtod\<close> reads from a string, whether it is out of range, and the number of characters read;
  \<open>js_dbl\<close> converts an integer.
\<close>

record 'd json_sys =
  js_strtod :: "string \<Rightarrow> 'd \<times> bool \<times> nat"
  js_dbl :: "int \<Rightarrow> 'd"

type_synonym nx_json_unicode_encoder = "nat \<Rightarrow> string option"

definition create_json :: "'d json_sys \<Rightarrow> nx_json_type \<Rightarrow> nat option \<Rightarrow> 'd nx_json" where
  "create_json sys t key = Nx_Json t key None 0 (js_dbl sys 0) []"

definition unicode_to_utf8 :: nx_json_unicode_encoder where
  "unicode_to_utf8 cp =
     (if cp < 0x80 then Some [chr_of cp]
      else if cp < 0x800 then Some [chr_of (192 + cp div 64), chr_of (128 + cp mod 64)]
      else if 0xd800 \<le> cp \<and> cp < 0xe000 then None
      else if cp < 0x10000 then Some [chr_of (224 + cp div 4096), chr_of (128 + cp div 64 mod 64), chr_of (128 + cp mod 64)]
      else if cp < 0x110000
      then Some [chr_of (240 + cp div 262144), chr_of (128 + cp div 4096 mod 64), chr_of (128 + cp div 64 mod 64), chr_of (128 + cp mod 64)]
      else None)"

definition hex_val :: "char \<Rightarrow> nat option" where
  "hex_val c =
     (if 48 \<le> code c \<and> code c \<le> 57 then Some (code c - 48)
      else if 97 \<le> code c \<and> code c \<le> 102 then Some (code c - 97 + 10)
      else if 65 \<le> code c \<and> code c \<le> 70 then Some (code c - 65 + 10)
      else None)"

text \<open>The digits that follow \<^verbatim>\<open>p\<close>, from left to right.\<close>

fun hex_scan :: "mem \<Rightarrow> nat \<Rightarrow> nat \<Rightarrow> nat \<Rightarrow> nat option option" where
  "hex_scan m p 0 acc = Some (Some acc)"
| "hex_scan m p (Suc n) acc = do {
     c \<leftarrow> rd m p;
     (case hex_val c of None \<Rightarrow> Some None | Some h \<Rightarrow> hex_scan m (p + 1) n (acc * 16 + h)) }"

definition hex4 :: "mem \<Rightarrow> nat \<Rightarrow> nat option option" where
  "hex4 m p = hex_scan m (p + 1) 4 0"

fun put_bytes :: "mem \<Rightarrow> nat \<Rightarrow> string \<Rightarrow> mem option" where
  "put_bytes m d [] = Some m"
| "put_bytes m d (c # cs) = do { m \<leftarrow> wr m d c; put_bytes m (d + 1) cs }"

text \<open>The second half of a surrogate pair, six characters on.\<close>

definition low_surrogate :: "mem \<Rightarrow> nat \<Rightarrow> nat \<Rightarrow> (nat \<times> nat) option option" where
  "low_surrogate m p cp = do {
     c \<leftarrow> rd m (p + 5);
     (if c \<noteq> CHR 0x5C then Some None
      else do {
        c \<leftarrow> rd m (p + 6);
        (if c \<noteq> CHR ''u'' then Some None
         else do {
           r \<leftarrow> hex4 m (p + 6);
           Some (case r of None \<Rightarrow> None
             | Some cp2 \<Rightarrow> if cp2 div 1024 \<noteq> 55 then None else Some (0x10000 + (cp - 0xd800) * 1024 + (cp2 - 0xdc00), p + 6)) }) }) }"

definition codepoint_at :: "mem \<Rightarrow> nat \<Rightarrow> (nat \<times> nat) option option" where
  "codepoint_at m p = do {
     r \<leftarrow> hex4 m p;
     (case r of None \<Rightarrow> Some None
      | Some cp \<Rightarrow> if cp div 1024 = 54 then low_surrogate m p cp else Some (Some (cp, p))) }"

definition unescape_unicode :: "nx_json_unicode_encoder \<Rightarrow> mem \<Rightarrow> nat \<Rightarrow> nat \<Rightarrow> (mem \<times> nat \<times> nat) option option" where
  "unescape_unicode encoder m p d = do {
     r \<leftarrow> codepoint_at m p;
     (case r of None \<Rightarrow> Some None
      | Some (cp, p) \<Rightarrow>
          (case encoder cp of None \<Rightarrow> Some None
           | Some bs \<Rightarrow> do { m \<leftarrow> put_bytes m d bs; Some (Some (m, p + 5, d + length bs)) })) }"

definition esc_char :: "char \<Rightarrow> char option" where
  "esc_char e =
     (if e \<in> {CHR 0x5C, CHR ''/'', DQ} then Some e
      else if e = CHR ''b'' then Some (CHR 0x08) else if e = CHR ''f'' then Some (CHR 0x0C)
      else if e = CHR ''n'' then Some LF else if e = CHR ''r'' then Some CR else if e = CHR ''t'' then Some TAB
      else None)"

partial_function (option) unescape_loop :: "nx_json_unicode_encoder option \<Rightarrow> mem \<Rightarrow> nat \<Rightarrow> nat \<Rightarrow> (mem \<times> nat) option option" where
  "unescape_loop encoder m p d = do {
     c \<leftarrow> rd m p;
     (if c = NUL then Some None
      else if c = DQ then do { m \<leftarrow> wr m d NUL; Some (Some (m, p + 1)) }
      else if c = CHR 0x5C then do {
        e \<leftarrow> rd m (p + 1);
        (case esc_char e of
           Some x \<Rightarrow> do { m \<leftarrow> wr m d x; unescape_loop encoder m (p + 2) (d + 1) }
         | None \<Rightarrow>
             (case (if e = CHR ''u'' then encoder else None) of
                None \<Rightarrow> do { m \<leftarrow> wr m d c; unescape_loop encoder m (p + 1) (d + 1) }
              | Some enc \<Rightarrow> do {
                  r \<leftarrow> unescape_unicode enc m (p + 1) d;
                  (case r of None \<Rightarrow> Some None | Some (m, p, d) \<Rightarrow> unescape_loop encoder m p d) })) }
      else do { m \<leftarrow> wr m d c; unescape_loop encoder m (p + 1) (d + 1) }) }"

definition unescape_string :: "nx_json_unicode_encoder option \<Rightarrow> mem \<Rightarrow> nat \<Rightarrow> (mem \<times> nat) option option" where
  "unescape_string encoder m s = unescape_loop encoder m s s"

partial_function (option) block_loop :: "mem \<Rightarrow> nat \<Rightarrow> nat option option" where
  "block_loop m p = do {
     r \<leftarrow> c_strchr m (p + 1) (CHR ''/'');
     (case r of None \<Rightarrow> Some None
      | Some q \<Rightarrow> do { c \<leftarrow> rd m (q - 1); (if c \<noteq> CHR ''*'' then block_loop m q else Some (Some (q + 1))) }) }"

definition skip_block_comment :: "mem \<Rightarrow> nat \<Rightarrow> nat option option" where
  "skip_block_comment m p = do { c \<leftarrow> rd m p; (if c = NUL then Some None else block_loop m p) }"

text \<open>A comment, whose first slash is at \<open>p - 1\<close>.\<close>

definition skip_comment :: "mem \<Rightarrow> nat \<Rightarrow> nat option option" where
  "skip_comment m p = do {
     e \<leftarrow> rd m p;
     (if e = CHR ''/'' then do {
        r \<leftarrow> c_strchr m (p + 1) LF;
        Some (case r of None \<Rightarrow> None | Some q \<Rightarrow> Some (q + 1)) }
      else if e = CHR ''*'' then skip_block_comment m (p + 1)
      else Some None) }"

partial_function (option) skip_white :: "mem \<Rightarrow> nat \<Rightarrow> nat option" where
  "skip_white m p = do { c \<leftarrow> rd m p; (if c \<noteq> NUL \<and> le_sp c then skip_white m (p + 1) else Some p) }"

text \<open>The key is not set when the end of the object is found.\<close>

partial_function (option) parse_key :: "nx_json_unicode_encoder option \<Rightarrow> mem \<Rightarrow> nat \<Rightarrow> (mem \<times> nat \<times> nat option) option option" where
  "parse_key encoder m p = do {
     c \<leftarrow> rd m p;
     (if c = NUL then Some None
      else if c = DQ then do {
        r \<leftarrow> unescape_string encoder m (p + 1);
        (case r of None \<Rightarrow> Some None
         | Some (m, q) \<Rightarrow> do {
             q \<leftarrow> skip_white m q;
             c \<leftarrow> rd m q;
             Some (if c = CHR '':'' then Some (m, q + 1, Some (p + 1)) else None) }) }
      else if le_sp c \<or> c = CHR '','' then parse_key encoder m (p + 1)
      else if c = CHR ''}'' then Some (Some (m, p, None))
      else if c = CHR ''/'' then do {
        r \<leftarrow> skip_comment m (p + 1);
        (case r of None \<Rightarrow> Some None | Some q \<Rightarrow> parse_key encoder m q) }
      else Some None) }"

text \<open>\<^verbatim>\<open>strtoll\<close> in base 0: the value, whether it is out of range, and the rest; the rest is the whole input when there is no number.\<close>

definition base_of :: "cursor \<Rightarrow> nat" where
  "base_of s = (if skip_0x 16 s \<noteq> s then 16 else if cur s = Some (CHR ''0'') then 8 else 10)"

definition c_strtoll0 :: "cursor \<Rightarrow> (int \<times> bool \<times> cursor) option" where
  "c_strtoll0 s0 = do {
     s1 \<leftarrow> skip_cspace s0;
     let (neg, s2) = take_sign s1;
     let b = base_of s2;
     let s3 = skip_0x b s2;
     if s3 = [] then None
     else if \<not> starts_digit b s3 then Some (0, False, s0)
     else do {
       (n, r) \<leftarrow> scan_digits b 0 s3;
       let v = (if neg then - int n else int n);
       Some (clamp_long v, clamp_long v \<noteq> v, r) } }"

text \<open>\<open>erange\<close>: \<^verbatim>\<open>errno\<close> is \<^verbatim>\<open>ERANGE\<close> already; nothing here resets it.\<close>

definition parse_number :: "'d json_sys \<Rightarrow> bool \<Rightarrow> nat option \<Rightarrow> mem \<Rightarrow> nat \<Rightarrow> (nat \<times> 'd nx_json) option option" where
  "parse_number sys erange key m p = do {
     (v, over, r) \<leftarrow> c_strtoll0 (drop p m);
     let pe = length m - length r;
     (if pe = p \<or> over \<or> erange then Some None
      else do {
        c \<leftarrow> rd m pe;
        (if c \<in> {CHR ''.'', CHR ''e'', CHR ''E''}
         then (case js_strtod sys (cstr m p) of (x, over, n) \<Rightarrow>
                 if n = 0 \<or> over \<or> erange then Some None
                 else Some (Some (p + n, Nx_Json NX_JSON_DOUBLE key None v x [])))
         else Some (Some (pe, Nx_Json NX_JSON_INTEGER key None v (js_dbl sys v) []))) }) }"

text \<open>\<^verbatim>\<open>!strncmp(p, lit, n)\<close>, for a literal of \<open>n\<close> characters.\<close>

fun lit_at :: "mem \<Rightarrow> nat \<Rightarrow> string \<Rightarrow> bool option" where
  "lit_at m p [] = Some True"
| "lit_at m p (x # xs) = do { c \<leftarrow> rd m p; (if c = x then lit_at m (p + 1) xs else Some False) }"

definition parse_literal :: "'d json_sys \<Rightarrow> string \<Rightarrow> nx_json_type \<Rightarrow> int \<Rightarrow> nat option \<Rightarrow> mem \<Rightarrow> nat \<Rightarrow> (mem \<times> nat \<times> 'd nx_json list) option option" where
  "parse_literal sys lit t v key m p = do {
     ok \<leftarrow> lit_at m p lit;
     Some (if ok then Some (m, p + length lit, [Nx_Json t key None v (js_dbl sys 0) []]) else None) }"

definition parse_string :: "'d json_sys \<Rightarrow> nx_json_unicode_encoder option \<Rightarrow> nat option \<Rightarrow> mem \<Rightarrow> nat \<Rightarrow> (mem \<times> nat \<times> 'd nx_json list) option option" where
  "parse_string sys encoder key m p = do {
     r \<leftarrow> unescape_string encoder m p;
     Some (case r of None \<Rightarrow> None | Some (m, q) \<Rightarrow> Some (m, q, [Nx_Json NX_JSON_STRING key (Some p) 0 (js_dbl sys 0) []])) }"

text \<open>
  \<^verbatim>\<open>parse_value\<close> with its two loops: over a value with the given key, over the members of an object, over the items of an array.  The nodes are those
  that are added to the parent.
\<close>

datatype parse_mode = Value_of "nat option" | Members | Items

partial_function (option) parse_value ::
  "'d json_sys \<Rightarrow> nx_json_unicode_encoder option \<Rightarrow> bool \<Rightarrow> parse_mode \<Rightarrow> mem \<Rightarrow> nat \<Rightarrow> (mem \<times> nat \<times> 'd nx_json list) option option" where
  "parse_value sys encoder erange mode m p =
     (case mode of
        Value_of key \<Rightarrow> do {
          c \<leftarrow> rd m p;
          (if c = NUL then Some None
           else if c \<in> {SP, TAB, LF, CR, CHR '',''} then parse_value sys encoder erange mode m (p + 1)
           else if c = CHR ''{'' then do {
             r \<leftarrow> parse_value sys encoder erange Members m (p + 1);
             (case r of None \<Rightarrow> Some None | Some (m, p, cs) \<Rightarrow> Some (Some (m, p, [Nx_Json NX_JSON_OBJECT key None 0 (js_dbl sys 0) cs]))) }
           else if c = CHR ''['' then do {
             r \<leftarrow> parse_value sys encoder erange Items m (p + 1);
             (case r of None \<Rightarrow> Some None | Some (m, p, cs) \<Rightarrow> Some (Some (m, p, [Nx_Json NX_JSON_ARRAY key None 0 (js_dbl sys 0) cs]))) }
           else if c = CHR '']'' then Some (Some (m, p, []))
           else if c = DQ then parse_string sys encoder key m (p + 1)
           else if c = CHR ''-'' \<or> 48 \<le> code c \<and> code c \<le> 57 then do {
             r \<leftarrow> parse_number sys erange key m p;
             (case r of None \<Rightarrow> Some None | Some (p, js) \<Rightarrow> Some (Some (m, p, [js]))) }
           else if c = CHR ''t'' then parse_literal sys ''true'' NX_JSON_BOOL 1 key m p
           else if c = CHR ''f'' then parse_literal sys ''false'' NX_JSON_BOOL 0 key m p
           else if c = CHR ''n'' then parse_literal sys ''null'' NX_JSON_NULL 0 key m p
           else if c = CHR ''/'' then do {
             r \<leftarrow> skip_comment m (p + 1);
             (case r of None \<Rightarrow> Some None | Some q \<Rightarrow> parse_value sys encoder erange mode m q) }
           else Some None) }
      | Members \<Rightarrow> do {
          r \<leftarrow> parse_key encoder m p;
          (case r of None \<Rightarrow> Some None
           | Some (m, p, key) \<Rightarrow> do {
               c \<leftarrow> rd m p;
               (if c = CHR ''}'' then Some (Some (m, p + 1, []))
                else do {
                  r \<leftarrow> parse_value sys encoder erange (Value_of key) m p;
                  (case r of None \<Rightarrow> Some None
                   | Some (m, p, cs) \<Rightarrow> do {
                       r \<leftarrow> parse_value sys encoder erange Members m p;
                       (case r of None \<Rightarrow> Some None | Some (m, p, cs') \<Rightarrow> Some (Some (m, p, cs @ cs'))) }) }) }) }
      | Items \<Rightarrow> do {
          r \<leftarrow> parse_value sys encoder erange (Value_of None) m p;
          (case r of None \<Rightarrow> Some None
           | Some (m, p, cs) \<Rightarrow> do {
               c \<leftarrow> rd m p;
               (if c = CHR '']'' then Some (Some (m, p + 1, cs))
                else do {
                  r \<leftarrow> parse_value sys encoder erange Items m p;
                  (case r of None \<Rightarrow> Some None | Some (m, p, cs') \<Rightarrow> Some (Some (m, p, cs @ cs'))) }) }) })"

text \<open>The text is changed in place; there is no tree when the text is the end of an array.\<close>

definition nx_json_parse :: "'d json_sys \<Rightarrow> nx_json_unicode_encoder option \<Rightarrow> bool \<Rightarrow> mem \<Rightarrow> (mem \<times> 'd nx_json) option option" where
  "nx_json_parse sys encoder erange m = do {
     r \<leftarrow> parse_value sys encoder erange (Value_of None) m 0;
     Some (case r of None \<Rightarrow> None | Some (m, _, cs) \<Rightarrow> (case cs of [] \<Rightarrow> None | js # _ \<Rightarrow> Some (m, js))) }"

definition nx_json_parse_utf8 :: "'d json_sys \<Rightarrow> bool \<Rightarrow> mem \<Rightarrow> (mem \<times> 'd nx_json) option option" where
  "nx_json_parse_utf8 sys erange m = nx_json_parse sys (Some unicode_to_utf8) erange m"

section \<open>Access to a tree\<close>

definition dummy :: "'d json_sys \<Rightarrow> 'd nx_json" where
  "dummy sys = create_json sys NX_JSON_NULL None"

definition nx_json_get :: "'d json_sys \<Rightarrow> mem \<Rightarrow> 'd nx_json option \<Rightarrow> string option \<Rightarrow> 'd nx_json" where
  "nx_json_get sys m json key =
     (case (json, key) of
        (Some js, Some k) \<Rightarrow>
          (case find (\<lambda>c. case js_key c of None \<Rightarrow> False | Some a \<Rightarrow> cstr m a = k) (js_children js) of None \<Rightarrow> dummy sys | Some c \<Rightarrow> c)
      | _ \<Rightarrow> dummy sys)"

definition nx_json_item :: "'d json_sys \<Rightarrow> 'd nx_json option \<Rightarrow> int \<Rightarrow> 'd nx_json" where
  "nx_json_item sys json idx =
     (case json of None \<Rightarrow> dummy sys
      | Some js \<Rightarrow> if 0 \<le> idx \<and> idx < int (length (js_children js)) then js_children js ! nat idx else dummy sys)"

text \<open>The nodes given back, in this order.\<close>

fun nx_json_free :: "'d nx_json \<Rightarrow> 'd nx_json list" where
  "nx_json_free (Nx_Json t k s i d cs) = concat (map nx_json_free cs) @ [Nx_Json t k s i d cs]"

section \<open>JSON texts\<close>

text \<open>
  The specification: a value, and a text of it as a tree of its concrete syntax.  A string is a list of pieces: plain characters, escapes, and
  the two forms of \<^verbatim>\<open>\u\<close>.  Between the tokens are gaps of blanks, commas and comments.
\<close>

datatype 'd jval = JNull | JBool bool | JInt int | JDbl 'd | JStr string | JArr "'d jval list" | JObj "(string \<times> 'd jval) list"

datatype piece = Plain char | Escape char | Unicode string | Surrogates string string

definition hex_value :: "string \<Rightarrow> nat" where
  "hex_value hs = foldl (\<lambda>acc c. acc * 16 + the (hex_val c)) 0 hs"

definition four_hex :: "string \<Rightarrow> bool" where
  "four_hex hs \<longleftrightarrow> length hs = 4 \<and> (\<forall>c \<in> set hs. hex_val c \<noteq> None)"

definition pair_value :: "string \<Rightarrow> string \<Rightarrow> nat" where
  "pair_value hs ls = 0x10000 + (hex_value hs - 0xd800) * 1024 + (hex_value ls - 0xdc00)"

fun piece_text :: "piece \<Rightarrow> string" where
  "piece_text (Plain c) = [c]"
| "piece_text (Escape e) = [CHR 0x5C, e]"
| "piece_text (Unicode hs) = CHR 0x5C # CHR ''u'' # hs"
| "piece_text (Surrogates hs ls) = CHR 0x5C # CHR ''u'' # hs @ CHR 0x5C # CHR ''u'' # ls"

fun piece_bytes :: "piece \<Rightarrow> string" where
  "piece_bytes (Plain c) = [c]"
| "piece_bytes (Escape e) = [the (esc_char e)]"
| "piece_bytes (Unicode hs) = the (unicode_to_utf8 (hex_value hs))"
| "piece_bytes (Surrogates hs ls) = the (unicode_to_utf8 (pair_value hs ls))"

fun piece_ok :: "piece \<Rightarrow> bool" where
  "piece_ok (Plain c) \<longleftrightarrow> c \<notin> {NUL, DQ, CHR 0x5C}"
| "piece_ok (Escape e) \<longleftrightarrow> esc_char e \<noteq> None"
| "piece_ok (Unicode hs) \<longleftrightarrow> four_hex hs \<and> hex_value hs \<noteq> 0 \<and> hex_value hs div 2048 \<noteq> 27"
| "piece_ok (Surrogates hs ls) \<longleftrightarrow> four_hex hs \<and> four_hex ls \<and> hex_value hs div 1024 = 54 \<and> hex_value ls div 1024 = 55"

definition str_text :: "piece list \<Rightarrow> string" where
  "str_text ps = concat (map piece_text ps)"

definition str_value :: "piece list \<Rightarrow> string" where
  "str_value ps = concat (map piece_bytes ps)"

subsection \<open>Strings in place\<close>

lemma put_bytes_front: "length x = length b \<Longrightarrow> put_bytes (a @ x @ y) (length a) b = Some (a @ b @ y)"
proof (induction b arbitrary: a x)
  case (Cons c b)
  then obtain d x' where x: "x = d # x'" "length x' = length b" by (cases x) auto
  then show ?case using Cons.IH [of x' "a @ [c]"] by simp
qed simp

lemma wr_front: "0 < length z \<Longrightarrow> wr (a @ z) (length a) c = Some (a @ c # tl z)"
  by (cases z) auto

lemma hex_scan_run:
  assumes "\<forall>c \<in> set hs. hex_val c \<noteq> None"
  shows "hex_scan (a @ hs @ y) (length a) (length hs) acc = Some (Some (foldl (\<lambda>acc c. acc * 16 + the (hex_val c)) acc hs))"
  using assms
proof (induction hs arbitrary: a acc)
  case (Cons h hs)
  then show ?case using Cons.IH [of "a @ [h]"] by auto
qed simp

lemma hex4_run:
  assumes "four_hex hs" "p + 1 = length a"
  shows "hex4 (a @ hs @ y) p = Some (Some (hex_value hs))"
  using hex_scan_run [of hs a y 0] assms by (simp add: hex4_def four_hex_def hex_value_def)

lemma hex_val_less: "hex_val c = Some h \<Longrightarrow> h < 16"
  by (auto simp: hex_val_def split: if_splits)

lemma hex_value_less:
  assumes "four_hex hs"
  shows "hex_value hs < 65536"
proof -
  have "length hs = Suc (Suc (Suc (Suc 0)))" using assms by (simp add: four_hex_def)
  then obtain a b c d where hs: "hs = [a, b, c, d]" by (auto simp: length_Suc_conv)
  obtain a' b' c' d' where v: "hex_val a = Some a'" "hex_val b = Some b'" "hex_val c = Some c'" "hex_val d = Some d'"
    using assms by (auto simp: four_hex_def hs)
  show ?thesis using v [THEN hex_val_less] by (simp add: hex_value_def hs v)
qed

lemma unicode_to_utf8_length: "unicode_to_utf8 cp = Some bs \<Longrightarrow> 0 < length bs \<and> length bs \<le> 4 \<and> (cp < 0x10000 \<longrightarrow> length bs \<le> 3)"
  by (auto simp: unicode_to_utf8_def split: if_splits)

lemma chr_of_NUL: "chr_of n = NUL \<longleftrightarrow> n mod 256 = 0"
  using code_eq_0_iff [of "chr_of n"] by simp

lemma unicode_to_utf8_NUL: "unicode_to_utf8 cp = Some bs \<Longrightarrow> cp \<noteq> 0 \<Longrightarrow> NUL \<notin> set bs"
  by (auto simp: unicode_to_utf8_def chr_of_NUL eq_commute [of NUL] split: if_splits)

lemma unicode_some: "cp < 0x110000 \<Longrightarrow> cp div 2048 \<noteq> 27 \<Longrightarrow> unicode_to_utf8 cp \<noteq> None"
  by (auto simp: unicode_to_utf8_def)

lemma pair_value_bounds: "hex_value hs div 1024 = 54 \<Longrightarrow> hex_value ls div 1024 = 55 \<Longrightarrow> 0x10000 \<le> pair_value hs ls \<and> pair_value hs ls < 0x110000"
  by (auto simp: pair_value_def)

lemma piece_unicode:
  assumes "piece_ok (Unicode hs)"
  obtains bs where "unicode_to_utf8 (hex_value hs) = Some bs" "0 < length bs" "length bs \<le> 3" "NUL \<notin> set bs" "hex_value hs div 1024 \<noteq> 54"
proof -
  have cp: "hex_value hs < 65536" using assms hex_value_less by simp
  obtain bs where bs: "unicode_to_utf8 (hex_value hs) = Some bs" using unicode_some [of "hex_value hs"] cp assms by auto
  show ?thesis using that [OF bs] unicode_to_utf8_length [OF bs] unicode_to_utf8_NUL [OF bs] assms cp by auto
qed

lemma piece_surrogates:
  assumes "piece_ok (Surrogates hs ls)"
  obtains bs where "unicode_to_utf8 (pair_value hs ls) = Some bs" "0 < length bs" "length bs \<le> 4" "NUL \<notin> set bs"
proof -
  have cp: "0x10000 \<le> pair_value hs ls" "pair_value hs ls < 0x110000" using assms pair_value_bounds by auto
  have "pair_value hs ls div 2048 \<noteq> 27" using div_le_mono [OF cp(1), of 2048] by simp
  then obtain bs where bs: "unicode_to_utf8 (pair_value hs ls) = Some bs" using unicode_some [of "pair_value hs ls"] cp(2) by auto
  show ?thesis using that [OF bs] unicode_to_utf8_length [OF bs] unicode_to_utf8_NUL [OF bs] cp by auto
qed

lemma piece_bytes_fit:
  assumes "piece_ok pc"
  shows "length (piece_bytes pc) \<le> length (piece_text pc)" "NUL \<notin> set (piece_bytes pc)"
proof -
  have "length (piece_bytes pc) \<le> length (piece_text pc) \<and> NUL \<notin> set (piece_bytes pc)"
  proof (cases pc)
    case (Escape e)
    then show ?thesis using assms by (auto simp: esc_char_def split: if_splits)
  next
    case (Unicode hs)
    then have ok: "piece_ok (Unicode hs)" using assms by simp
    then obtain bs where "unicode_to_utf8 (hex_value hs) = Some bs" "length bs \<le> 3" "NUL \<notin> set bs" by (rule piece_unicode)
    then show ?thesis using Unicode ok by (simp add: four_hex_def)
  next
    case (Surrogates hs ls)
    then have ok: "piece_ok (Surrogates hs ls)" using assms by simp
    then obtain bs where "unicode_to_utf8 (pair_value hs ls) = Some bs" "length bs \<le> 4" "NUL \<notin> set bs" by (rule piece_surrogates)
    then show ?thesis using Surrogates ok by (simp add: four_hex_def)
  qed (use assms in auto)
  then show "length (piece_bytes pc) \<le> length (piece_text pc)" "NUL \<notin> set (piece_bytes pc)" by auto
qed

text \<open>A piece is read at \<open>length (a @ j)\<close> and its bytes are put at \<open>length a\<close>: the part in between is what earlier pieces left over.\<close>

lemma put_over:
  assumes "length b \<le> length z"
  shows "put_bytes (a @ z @ t) (length a) b = Some (a @ b @ drop (length b) z @ t)"
  using put_bytes_front [of "take (length b) z" b a "drop (length b) z @ t"] assms by (simp flip: append_assoc)

lemma wr_over: "0 < length z \<Longrightarrow> wr (a @ z @ t) (length a) c = Some (a @ [c] @ drop 1 z @ t)"
  using wr_front [of "z @ t" a c] by (cases z) auto

lemma unescape_unicode_run:
  assumes "piece_ok (Unicode hs)"
  shows "unescape_unicode unicode_to_utf8 (a @ j @ piece_text (Unicode hs) @ t) (length a + length j + 1) (length a)
    = Some (Some (a @ piece_bytes (Unicode hs) @ drop (length (piece_bytes (Unicode hs))) (j @ piece_text (Unicode hs)) @ t,
        length a + length j + length (piece_text (Unicode hs)), length a + length (piece_bytes (Unicode hs))))"
proof -
  obtain bs where bs: "unicode_to_utf8 (hex_value hs) = Some bs" "length bs \<le> 3" "hex_value hs div 1024 \<noteq> 54" using piece_unicode [OF assms] by metis
  have h: "four_hex hs" using assms by simp
  have "hex4 (a @ j @ piece_text (Unicode hs) @ t) (length a + length j + 1) = Some (Some (hex_value hs))"
    using hex4_run [OF h, of "length a + length j + 1" "a @ j @ [CHR 0x5C, CHR ''u'']" t] by simp
  then show ?thesis using bs h put_over [of bs "j @ piece_text (Unicode hs)" a t] by (simp add: unescape_unicode_def codepoint_at_def four_hex_def)
qed

lemma unescape_surrogates_run:
  assumes "piece_ok (Surrogates hs ls)"
  shows "unescape_unicode unicode_to_utf8 (a @ j @ piece_text (Surrogates hs ls) @ t) (length a + length j + 1) (length a)
    = Some (Some (a @ piece_bytes (Surrogates hs ls) @ drop (length (piece_bytes (Surrogates hs ls))) (j @ piece_text (Surrogates hs ls)) @ t,
        length a + length j + length (piece_text (Surrogates hs ls)), length a + length (piece_bytes (Surrogates hs ls))))"
proof -
  let ?m = "a @ j @ piece_text (Surrogates hs ls) @ t" and ?p = "length a + length j + 1"
  obtain bs where bs: "unicode_to_utf8 (pair_value hs ls) = Some bs" "length bs \<le> 4" using piece_surrogates [OF assms] by metis
  have h: "four_hex hs" "four_hex ls" "hex_value hs div 1024 = 54" "hex_value ls div 1024 = 55" and len: "length hs = 4" "length ls = 4"
    using assms by (auto simp: four_hex_def)
  have h1: "hex4 ?m ?p = Some (Some (hex_value hs))"
    using hex4_run [OF h(1), of ?p "a @ j @ [CHR 0x5C, CHR ''u'']" "CHR 0x5C # CHR ''u'' # ls @ t"] by simp
  have h2: "hex4 ?m (?p + 6) = Some (Some (hex_value ls))"
    using hex4_run [OF h(2), of "?p + 6" "a @ j @ [CHR 0x5C, CHR ''u''] @ hs @ [CHR 0x5C, CHR ''u'']" t] len by simp
  have r: "rd ?m (?p + 5) = Some (CHR 0x5C)" "rd ?m (?p + 6) = Some (CHR ''u'')"
    using rd_at [of "?p + 5" "a @ j @ [CHR 0x5C, CHR ''u''] @ hs" "CHR 0x5C" "CHR ''u'' # ls @ t"]
      rd_at [of "?p + 6" "a @ j @ [CHR 0x5C, CHR ''u''] @ hs @ [CHR 0x5C]" "CHR ''u''" "ls @ t"] len by simp_all
  have "codepoint_at ?m ?p = Some (Some (pair_value hs ls, ?p + 6))"
    using h1 h2 r h(3,4) by (simp add: codepoint_at_def low_surrogate_def pair_value_def del: piece_text.simps)
  then show ?thesis using bs len put_over [of bs "j @ piece_text (Surrogates hs ls)" a t] by (simp add: unescape_unicode_def)
qed

lemma unescape_piece:
  assumes "piece_ok pc"
  shows "unescape_loop (Some unicode_to_utf8) (a @ j @ piece_text pc @ t) (length a + length j) (length a)
    = unescape_loop (Some unicode_to_utf8) (a @ piece_bytes pc @ drop (length (piece_bytes pc)) (j @ piece_text pc) @ t)
        (length a + length j + length (piece_text pc)) (length a + length (piece_bytes pc))"
proof (cases pc)
  case (Plain c)
  then have c: "c \<noteq> NUL" "c \<noteq> DQ" "c \<noteq> CHR 0x5C" using assms by auto
  have "rd (a @ j @ c # t) (length a + length j) = Some c" by (rule rd_at [of _ "a @ j", simplified]) simp
  then show ?thesis using Plain c wr_over [of "j @ [c]" a t c] by (subst unescape_loop.simps) simp
next
  case (Escape e)
  then obtain x where x: "esc_char e = Some x" using assms by auto
  have "rd (a @ j @ CHR 0x5C # e # t) (length a + length j) = Some (CHR 0x5C)" "rd (a @ j @ CHR 0x5C # e # t) (length a + length j + 1) = Some e"
    using rd_at [of _ "a @ j" "CHR 0x5C" "e # t"] rd_at [of _ "a @ j @ [CHR 0x5C]" e t] by simp_all
  then show ?thesis using Escape x wr_over [of "j @ [CHR 0x5C, e]" a t x] by (subst unescape_loop.simps) simp
next
  case (Unicode hs)
  have "rd (a @ j @ piece_text pc @ t) (length a + length j) = Some (CHR 0x5C)" "rd (a @ j @ piece_text pc @ t) (length a + length j + 1) = Some (CHR ''u'')"
    using rd_at [of _ "a @ j" "CHR 0x5C" "CHR ''u'' # hs @ t"] rd_at [of _ "a @ j @ [CHR 0x5C]" "CHR ''u''" "hs @ t"] by (simp_all add: Unicode)
  then show ?thesis using unescape_unicode_run [of hs a j t] assms unfolding Unicode
    by (subst unescape_loop.simps) (simp add: esc_char_def del: piece_text.simps piece_bytes.simps)
next
  case (Surrogates hs ls)
  have "rd (a @ j @ piece_text pc @ t) (length a + length j) = Some (CHR 0x5C)" "rd (a @ j @ piece_text pc @ t) (length a + length j + 1) = Some (CHR ''u'')"
    using rd_at [of _ "a @ j" "CHR 0x5C" "CHR ''u'' # hs @ CHR 0x5C # CHR ''u'' # ls @ t"]
      rd_at [of _ "a @ j @ [CHR 0x5C]" "CHR ''u''" "hs @ CHR 0x5C # CHR ''u'' # ls @ t"] by (simp_all add: Surrogates)
  then show ?thesis using unescape_surrogates_run [of hs ls a j t] assms unfolding Surrogates
    by (subst unescape_loop.simps) (simp add: esc_char_def del: piece_text.simps piece_bytes.simps)
qed

lemma unescape_run:
  assumes "\<forall>pc \<in> set ps. piece_ok pc"
  shows "\<exists>j'. unescape_loop (Some unicode_to_utf8) (a @ j @ str_text ps @ DQ # t) (length a + length j) (length a)
      = Some (Some (a @ str_value ps @ NUL # j' @ t, length a + length j + length (str_text ps) + 1))
    \<and> length (str_value ps) + length j' = length j + length (str_text ps)"
  using assms
proof (induction ps arbitrary: a j)
  case Nil
  have "rd (a @ j @ DQ # t) (length a + length j) = Some DQ" by (rule rd_at [of _ "a @ j", simplified]) simp
  then show ?case using wr_over [of "j @ [DQ]" a t NUL]
    by (intro exI [of _ "drop 1 (j @ [DQ])"]) (simp add: str_text_def str_value_def unescape_loop.simps)
next
  case (Cons pc ps)
  let ?b = "piece_bytes pc"
  define J where "J = drop (length ?b) (j @ piece_text pc)"
  have fit: "length ?b \<le> length (piece_text pc)" using piece_bytes_fit Cons.prems by simp
  have l: "length a + length j + length (piece_text pc) = length (a @ ?b) + length J" using fit by (simp add: J_def)
  obtain j' where j': "unescape_loop (Some unicode_to_utf8) ((a @ ?b) @ J @ str_text ps @ DQ # t) (length (a @ ?b) + length J) (length (a @ ?b))
      = Some (Some ((a @ ?b) @ str_value ps @ NUL # j' @ t, length (a @ ?b) + length J + length (str_text ps) + 1))"
    "length (str_value ps) + length j' = length J + length (str_text ps)"
    using Cons.IH [of "a @ ?b" J] Cons.prems by auto
  have "unescape_loop (Some unicode_to_utf8) (a @ j @ str_text (pc # ps) @ DQ # t) (length a + length j) (length a)
      = unescape_loop (Some unicode_to_utf8) ((a @ ?b) @ J @ str_text ps @ DQ # t) (length (a @ ?b) + length J) (length (a @ ?b))"
    using unescape_piece [of pc a j "str_text ps @ DQ # t"] Cons.prems unfolding l J_def [symmetric] by (simp add: str_text_def)
  then show ?case using j' l by (intro exI [of _ j']) (simp add: str_text_def str_value_def)
qed

lemma str_value_NUL: "\<forall>pc \<in> set ps. piece_ok pc \<Longrightarrow> NUL \<notin> set (str_value ps)"
  using piece_bytes_fit(2) by (auto simp: str_value_def)

text \<open>The string at the opening quote's end is replaced by its value; nothing else changes.\<close>

lemma unescape_string_correct:
  assumes "\<forall>pc \<in> set ps. piece_ok pc"
  obtains j where "unescape_string (Some unicode_to_utf8) (a @ str_text ps @ DQ # t) (length a)
      = Some (Some (a @ str_value ps @ NUL # j @ t, length a + length (str_text ps) + 1))"
    "length (str_value ps @ NUL # j) = length (str_text ps) + 1" "\<And>a' t'. length a' = length a \<Longrightarrow> cstr (a' @ str_value ps @ NUL # j @ t') (length a) = str_value ps"
proof -
  obtain j where j: "unescape_loop (Some unicode_to_utf8) (a @ str_text ps @ DQ # t) (length a) (length a)
      = Some (Some (a @ str_value ps @ NUL # j @ t, length a + length (str_text ps) + 1))" "length (str_value ps) + length j = length (str_text ps)"
    using unescape_run [OF assms, of a "[]" t] by auto
  have "cstr (a' @ str_value ps @ NUL # j @ t') (length a) = str_value ps" if "length a' = length a" for a' t'
    using cstr_split [OF str_value_NUL [OF assms], of a' "j @ t'"] that by simp
  then show ?thesis using that [of j] j by (simp add: unescape_string_def)
qed

end
