(* ===== verification/Nx_Json_Safe.thy ===== *)
theory Nx_Json_Safe
  imports Nx_Json
begin

text \<open>
  The JSON reader on arbitrary text: it returns, and reads and writes only the text up to its terminator, whatever the text is.
\<close>

section \<open>The terminator\<close>

text \<open>The byte at \<open>z\<close> is a terminator, and the pointer has not passed it.\<close>

definition within :: "nat \<Rightarrow> mem \<Rightarrow> nat \<Rightarrow> bool" where
  "within z m p \<longleftrightarrow> z < length m \<and> m ! z = NUL \<and> p \<le> z"

lemma within_rd: "within z m p \<Longrightarrow> \<exists>c. rd m p = Some c \<and> (c \<noteq> NUL \<longrightarrow> p < z \<and> within z m (Suc p))"
  by (auto simp: within_def rd_def order_le_less)

lemma within_wr: "within z m p \<Longrightarrow> d < z \<Longrightarrow> \<exists>m'. wr m d c = Some m' \<and> length m' = length m \<and> (\<forall>q \<le> z. within z m' q)"
  by (auto simp: within_def wr_def)

lemma within_put: "within z m p \<Longrightarrow> d + length bs \<le> z \<Longrightarrow> \<exists>m'. put_bytes m d bs = Some m' \<and> length m' = length m \<and> (\<forall>q \<le> z. within z m' q)"
proof (induction bs arbitrary: m d)
  case Nil
  then show ?case by (auto simp: within_def)
next
  case (Cons c bs)
  then obtain m' where m': "wr m d c = Some m'" "length m' = length m" "\<forall>q \<le> z. within z m' q" using within_wr [of z m p d c] by auto
  then show ?case using Cons.IH [of m' "d + 1"] Cons.prems by (auto simp: within_def)
qed

lemma within_hex: "within z m p \<Longrightarrow> \<exists>r. hex_scan m p n acc = Some r \<and> (r \<noteq> None \<longrightarrow> p + n \<le> z)"
proof (induction n arbitrary: p acc)
  case (Suc n)
  obtain c where c: "rd m p = Some c" "c \<noteq> NUL \<longrightarrow> p < z \<and> within z m (Suc p)" using within_rd [OF Suc.prems] by blast
  show ?case
  proof (cases "hex_val c")
    case (Some h)
    then have "c \<noteq> NUL" by (auto simp: hex_val_def code_def)
    then show ?thesis using c Some Suc.IH [of "Suc p" "acc * 16 + h"] by auto
  qed (use c in simp)
qed (auto simp: within_def)

lemma hex_scan_less: "hex_scan m p n acc = Some (Some v) \<Longrightarrow> v < (acc + 1) * 16 ^ n"
proof (induction n arbitrary: p acc)
  case (Suc n)
  then obtain c h where "hex_val c = Some h" "hex_scan m (p + 1) n (acc * 16 + h) = Some (Some v)" by (auto simp: bind_eq_Some_conv split: option.splits)
  then have "v < (acc * 16 + h + 1) * 16 ^ n" "acc * 16 + h + 1 \<le> (acc + 1) * 16" using Suc.IH hex_val_less by force+
  from this(1) have "v < (acc + 1) * 16 * 16 ^ n" by (rule less_le_trans) (rule mult_le_mono1, fact)
  then show ?case by (simp add: algebra_simps)
qed simp

lemma within_strchr: "within z m p \<Longrightarrow> x \<noteq> NUL \<Longrightarrow> \<exists>r. c_strchr m p x = Some r \<and> (\<forall>q. r = Some q \<longrightarrow> p \<le> q \<and> q < z)"
proof (induction m p x rule: c_strchr.induct)
  case (1 m p x)
  obtain c where c: "rd m p = Some c" "c \<noteq> NUL \<longrightarrow> p < z \<and> within z m (Suc p)" using within_rd [OF 1(2)] by blast
  show ?case
  proof (cases "c = x \<or> c = NUL")
    case True
    then show ?thesis using c 1(3) by (subst c_strchr.simps) auto
  next
    case False
    then obtain r where "c_strchr m (Suc p) x = Some r" "\<forall>q. r = Some q \<longrightarrow> Suc p \<le> q \<and> q < z" using 1(1) [OF c(1)] c(2) 1(3) by auto
    then show ?thesis using c False by (subst c_strchr.simps) auto
  qed
qed

section \<open>Strings\<close>

lemma within_codepoint:
  assumes "within z m (Suc p)" "rd m p = Some (CHR ''u'')"
  shows "\<exists>r. codepoint_at m p = Some r \<and> (\<forall>cp q. r = Some (cp, q) \<longrightarrow> q + 5 \<le> z \<and> (cp < 65536 \<and> q = p \<or> q = p + 6))"
proof -
  obtain r where r: "hex4 m p = Some r" "r \<noteq> None \<longrightarrow> p + 5 \<le> z" using within_hex [OF assms(1), of 4 0] by (auto simp: hex4_def)
  show ?thesis
  proof (cases r)
    case (Some cp)
    have cp: "cp < 65536" using hex_scan_less [of m "p + 1" 4 0 cp] r(1) Some by (simp add: hex4_def)
    show ?thesis
    proof (cases "cp div 1024 = 54")
      case False
      then show ?thesis using r Some cp by (simp add: codepoint_at_def)
    next
      case True
      have "within z m (p + 5)" using r Some assms(1) by (simp add: within_def)
      then obtain c where c: "rd m (p + 5) = Some c" "c \<noteq> NUL \<longrightarrow> within z m (Suc (p + 5))" using within_rd by blast
      show ?thesis
      proof (cases "c = CHR 0x5C")
        case False
        then show ?thesis using r Some True c by (simp add: codepoint_at_def low_surrogate_def)
      next
        case bs: True
        then have "within z m (p + 6)" using c by (simp add: add.commute)
        then obtain e where e: "rd m (p + 6) = Some e" "e \<noteq> NUL \<longrightarrow> within z m (Suc (p + 6))" using within_rd by blast
        show ?thesis
        proof (cases "e = CHR ''u''")
          case False
          then show ?thesis using r Some True c bs e by (simp add: codepoint_at_def low_surrogate_def)
        next
          case u: True
          then have "within z m (p + 6 + 1)" using e by (simp add: add.commute)
          then obtain r2 where "hex4 m (p + 6) = Some r2" "r2 \<noteq> None \<longrightarrow> p + 11 \<le> z" using within_hex [of z m "p + 6 + 1" 4 0] by (auto simp: hex4_def)
          then show ?thesis using r Some True c bs e u by (auto simp: codepoint_at_def low_surrogate_def split: option.split)
        qed
      qed
    qed
  qed (use r in \<open>simp add: codepoint_at_def\<close>)
qed

lemma within_unicode:
  assumes "within z m (Suc p)" "rd m p = Some (CHR ''u'')" "d < p"
  shows "\<exists>r. unescape_unicode unicode_to_utf8 m p d = Some r \<and> (\<forall>m' q d'. r = Some (m', q, d') \<longrightarrow> length m' = length m \<and> within z m' q \<and> p < q \<and> d' \<le> q)"
proof -
  obtain r where r: "codepoint_at m p = Some r" "\<forall>cp q. r = Some (cp, q) \<longrightarrow> q + 5 \<le> z \<and> (cp < 65536 \<and> q = p \<or> q = p + 6)"
    using within_codepoint [OF assms(1,2)] by blast
  show ?thesis
  proof (cases r)
    case (Some x)
    obtain cp q where x: "x = (cp, q)" by (cases x)
    then have q: "q + 5 \<le> z" "cp < 65536 \<and> q = p \<or> q = p + 6" using r(2) Some by auto
    show ?thesis
    proof (cases "unicode_to_utf8 cp")
      case None
      then show ?thesis using r Some x by (simp add: unescape_unicode_def)
    next
      case bs: (Some bs)
      have "d + length bs \<le> q + 5" using unicode_to_utf8_length [OF bs] q(2) assms(3) by auto
      moreover then obtain m' where "put_bytes m d bs = Some m'" "length m' = length m" "\<forall>q \<le> z. within z m' q"
        using within_put [OF assms(1), of d bs] q(1) by auto
      ultimately show ?thesis using r Some x bs q by (auto simp: unescape_unicode_def)
    qed
  qed (use r in \<open>simp add: unescape_unicode_def\<close>)
qed

definition std_encoder :: "nx_json_unicode_encoder option \<Rightarrow> bool" where
  "std_encoder enc \<longleftrightarrow> enc = None \<or> enc = Some unicode_to_utf8"

text \<open>The result of a string: an error, or text as long as before and a pointer further on.\<close>

definition string_ok :: "nat \<Rightarrow> mem \<Rightarrow> nat \<Rightarrow> (mem \<times> nat) option option \<Rightarrow> bool" where
  "string_ok z m p r \<longleftrightarrow> (\<exists>x. r = Some x \<and> (\<forall>m' q. x = Some (m', q) \<longrightarrow> length m' = length m \<and> within z m' q \<and> p < q))"

lemma string_ok_less: "string_ok z m' q r \<Longrightarrow> length m' = length m \<Longrightarrow> p \<le> q \<Longrightarrow> string_ok z m p r"
  unfolding string_ok_def by fastforce

lemma within_unescape:
  assumes "std_encoder enc" "within z m p" "d \<le> p"
  shows "string_ok z m p (unescape_loop enc m p d)"
  using assms(2,3)
proof (induction "z - p" arbitrary: m p d rule: less_induct)
  case less
  obtain c where c: "rd m p = Some c" "c \<noteq> NUL \<longrightarrow> p < z \<and> within z m (Suc p)" using within_rd [OF less.prems(1)] by blast
  show ?case
  proof (cases "c = NUL")
    case True
    then show ?thesis using c by (subst unescape_loop.simps) (simp add: string_ok_def)
  next
    case nz: False
    then have p: "p < z" "within z m (Suc p)" using c by auto
    have put: "\<exists>m'. wr m d x = Some m' \<and> length m' = length m \<and> (\<forall>q \<le> z. within z m' q)" for x
      using within_wr [OF less.prems(1)] p(1) less.prems(2) by simp
    have go: "string_ok z m p (do { m \<leftarrow> wr m d x; unescape_loop enc m q (d + 1) })" if "p < q" "q \<le> z" for x q
    proof -
      obtain m' where m': "wr m d x = Some m'" "length m' = length m" "\<forall>q \<le> z. within z m' q" using put by blast
      have "string_ok z m' q (unescape_loop enc m' q (d + 1))" by (rule less.hyps) (use that p m' less.prems(2) in auto)
      then show ?thesis using m' string_ok_less [of z m' q _ m p] that by simp
    qed
    show ?thesis
    proof (cases "c = DQ")
      case True
      then show ?thesis using c p put [of NUL] by (subst unescape_loop.simps) (auto simp: string_ok_def)
    next
      case ndq: False
      show ?thesis
      proof (cases "c = CHR 0x5C")
        case False
        then show ?thesis using c nz ndq p go [of "p + 1" c] by (subst unescape_loop.simps) simp
      next
        case bs: True
        obtain e where e: "rd m (p + 1) = Some e" "e \<noteq> NUL \<longrightarrow> Suc p < z \<and> within z m (Suc (Suc p))" using within_rd [OF p(2)] by auto
        show ?thesis
        proof (cases "esc_char e")
          case (Some x)
          then have "e \<noteq> NUL" by (auto simp: esc_char_def)
          then show ?thesis using c bs e Some go [of "p + 2" x] by (subst unescape_loop.simps) simp
        next
          case None
          show ?thesis
          proof (cases "if e = CHR ''u'' then enc else None")
            case plain: None
            then show ?thesis using c bs e None p go [of "p + 1" c] by (subst unescape_loop.simps) simp
          next
            case (Some f)
            then have f: "e = CHR ''u''" "enc = Some f" "f = unicode_to_utf8" using assms(1) by (auto simp: std_encoder_def split: if_splits)
            obtain r where r: "unescape_unicode unicode_to_utf8 m (p + 1) d = Some r"
              "\<forall>m' q d'. r = Some (m', q, d') \<longrightarrow> length m' = length m \<and> within z m' q \<and> p + 1 < q \<and> d' \<le> q"
              using within_unicode [of z m "p + 1" d] e f less.prems(2) by auto
            show ?thesis
            proof (cases r)
              case (Some x)
              then obtain m' q d' where x: "r = Some (m', q, d')" by (cases x) auto
              then have "string_ok z m' q (unescape_loop enc m' q d')" using r(2) p(1) by (intro less.hyps) (auto simp: within_def)
              then show ?thesis using c bs e None f r x string_ok_less [of z m' q _ m p] by (subst unescape_loop.simps) simp
            next
              case fail: None
              then show ?thesis using c bs e None f r by (subst unescape_loop.simps) (simp add: string_ok_def)
            qed
          qed
        qed
      qed
    qed
  qed
qed

lemma within_string: "std_encoder enc \<Longrightarrow> within z m p \<Longrightarrow> string_ok z m p (unescape_string enc m p)"
  unfolding unescape_string_def by (rule within_unescape) auto

section \<open>Comments and keys\<close>

lemma within_block: "within z m (Suc p) \<Longrightarrow> \<exists>r. block_loop m p = Some r \<and> (\<forall>q. r = Some q \<longrightarrow> within z m q \<and> p < q)"
proof (induction "z - p" arbitrary: p rule: less_induct)
  case less
  obtain r where r: "c_strchr m (Suc p) (CHR ''/'') = Some r" "\<forall>q. r = Some q \<longrightarrow> Suc p \<le> q \<and> q < z" using within_strchr [OF less.prems, of "CHR ''/''"] by auto
  show ?case
  proof (cases r)
    case (Some q)
    then have q: "p < q" "q < z" using r(2) by auto
    have "z < length m" using less.prems by (simp add: within_def)
    then have "q - 1 < length m" using q by arith
    then obtain c where c: "rd m (q - 1) = Some c" by (simp add: rd_def)
    show ?thesis
    proof (cases "c = CHR ''*''")
      case True
      then show ?thesis using r(1) Some q c less.prems by (subst block_loop.simps) (simp add: within_def)
    next
      case False
      have "\<exists>r. block_loop m q = Some r \<and> (\<forall>x. r = Some x \<longrightarrow> within z m x \<and> q < x)" by (rule less.hyps) (use q less.prems in \<open>auto simp: within_def\<close>)
      then show ?thesis using r(1) Some q c False by (subst block_loop.simps) auto
    qed
  next
    case None
    then show ?thesis using r(1) by (subst block_loop.simps) simp
  qed
qed

lemma within_comment:
  assumes "within z m p"
  shows "\<exists>r. skip_comment m p = Some r \<and> (\<forall>q. r = Some q \<longrightarrow> within z m q \<and> p < q)"
proof -
  obtain e where e: "rd m p = Some e" "e \<noteq> NUL \<longrightarrow> p < z \<and> within z m (Suc p)" using within_rd [OF assms] by blast
  consider "e = CHR ''/''" | "e = CHR ''*''" | "e \<noteq> CHR ''/''" "e \<noteq> CHR ''*''" by blast
  then show ?thesis
  proof cases
    case 1
    then obtain r where "c_strchr m (Suc p) LF = Some r" "\<forall>q. r = Some q \<longrightarrow> Suc p \<le> q \<and> q < z" using within_strchr [of z m "Suc p" LF] e by auto
    then show ?thesis using 1 e assms by (cases r) (auto simp: skip_comment_def within_def)
  next
    case 2
    then have w: "within z m (Suc p)" using e by simp
    then obtain c where c: "rd m (Suc p) = Some c" "c \<noteq> NUL \<longrightarrow> within z m (Suc (Suc p))" using within_rd by blast
    then show ?thesis using 2 e within_block [of z m "Suc p"] by (cases "c = NUL") (auto simp: skip_comment_def skip_block_comment_def dest: Suc_lessD)
  qed (use e in \<open>simp add: skip_comment_def\<close>)
qed

lemma within_white: "within z m p \<Longrightarrow> \<exists>q. skip_white m p = Some q \<and> within z m q \<and> p \<le> q"
proof (induction "z - p" arbitrary: p rule: less_induct)
  case less
  obtain c where c: "rd m p = Some c" "c \<noteq> NUL \<longrightarrow> p < z \<and> within z m (Suc p)" using within_rd [OF less.prems] by blast
  show ?case
  proof (cases "c \<noteq> NUL \<and> le_sp c")
    case True
    then have "p < z" "within z m (Suc p)" using c by auto
    then obtain q where "skip_white m (Suc p) = Some q" "within z m q" "Suc p \<le> q" using less.hyps [of "Suc p"] diff_less_mono2 [of p "Suc p" z] by auto
    then show ?thesis using c True by (subst skip_white.simps) auto
  next
    case False
    then show ?thesis using c less.prems by (subst skip_white.simps) auto
  qed
qed

text \<open>A key was found and the pointer moved on, or the object ends here.\<close>

definition key_found :: "nat \<Rightarrow> mem \<Rightarrow> nat \<Rightarrow> (mem \<times> nat \<times> nat option) option option \<Rightarrow> bool" where
  "key_found z m p r \<longleftrightarrow> (\<exists>x. r = Some x \<and> (\<forall>m' q k. x = Some (m', q, k) \<longrightarrow>
     length m' = length m \<and> within z m' q \<and> (p < q \<or> p = q \<and> m' ! q = CHR ''}'')))"

lemma key_found_less: "key_found z m q r \<Longrightarrow> p < q \<Longrightarrow> key_found z m p r"
  unfolding key_found_def by fastforce

lemma within_key:
  assumes "std_encoder enc" "within z m p"
  shows "key_found z m p (parse_key enc m p)"
  using assms(2)
proof (induction "z - p" arbitrary: p rule: less_induct)
  case less
  obtain c where c: "rd m p = Some c" "c \<noteq> NUL \<longrightarrow> p < z \<and> within z m (Suc p)" using within_rd [OF less.prems] by blast
  have go: "key_found z m p (parse_key enc m q)" if "p < q" "within z m q" for q
    by (rule key_found_less [OF _ that(1)], rule less.hyps) (use that c in \<open>auto simp: within_def\<close>)
  consider "c = NUL" | "c = DQ" | "c \<noteq> NUL" "le_sp c \<or> c = CHR '',''" | "c = CHR ''}''" | "c = CHR ''/''"
    | "c \<notin> {NUL, DQ, CHR '','', CHR ''}'', CHR ''/''}" "\<not> le_sp c" by auto
  then show ?case
  proof cases
    case 1
    then show ?thesis using c by (subst parse_key.simps) (simp add: key_found_def)
  next
    case 2
    then have "within z m (Suc p)" using c by simp
    then obtain x where x: "unescape_string enc m (Suc p) = Some x" "\<forall>m' q. x = Some (m', q) \<longrightarrow> length m' = length m \<and> within z m' q \<and> Suc p < q"
      using within_string [OF assms(1)] unfolding string_ok_def by blast
    show ?thesis
    proof (cases x)
      case (Some y)
      then obtain m' q where y: "x = Some (m', q)" by (cases y) auto
      then obtain q2 where q2: "skip_white m' q = Some q2" "within z m' q2" "q \<le> q2" using within_white x(2) by blast
      then obtain e where e: "rd m' q2 = Some e" "e \<noteq> NUL \<longrightarrow> within z m' (Suc q2)" using within_rd by blast
      show ?thesis using 2 c x y q2 e by (subst parse_key.simps) (auto simp: key_found_def)
    next
      case None
      then show ?thesis using 2 c x by (subst parse_key.simps) (simp add: key_found_def)
    qed
  next
    case 3
    moreover have "c \<noteq> DQ" using 3 by (auto simp: le_sp_def code_def)
    ultimately show ?thesis using c go [of "Suc p"] by (subst parse_key.simps) simp
  next
    case 4
    then show ?thesis using c less.prems by (subst parse_key.simps) (auto simp: key_found_def le_sp_def code_def rd_def split: if_splits)
  next
    case 5
    then obtain r where r: "skip_comment m (Suc p) = Some r" "\<forall>q. r = Some q \<longrightarrow> within z m q \<and> Suc p < q" using within_comment [of z m "Suc p"] c by auto
    show ?thesis
    proof (cases r)
      case (Some q)
      then show ?thesis using 5 c r go [of q] by (subst parse_key.simps) (simp add: le_sp_def code_def)
    next
      case None
      then show ?thesis using 5 c r by (subst parse_key.simps) (simp add: key_found_def le_sp_def code_def)
    qed
  next
    case 6
    then show ?thesis using c by (subst parse_key.simps) (simp add: key_found_def)
  qed
qed

section \<open>Numbers and literals\<close>

text \<open>What \<^verbatim>\<open>strtoll\<close> reads lies before the terminator.\<close>

lemma scan_prefix: "NUL \<in> set s \<Longrightarrow> \<exists>n u r. scan_digits b acc s = Some (n, r) \<and> s = u @ r \<and> NUL \<notin> set u"
proof (induction s arbitrary: acc)
  case (Cons c s)
  show ?case
  proof (cases "digit_in b c")
    case (Some d)
    then have "c \<noteq> NUL" by auto
    then obtain n u r where "scan_digits b (b * acc + d) s = Some (n, r)" "s = u @ r" "NUL \<notin> set u" using Cons by auto blast
    then have "scan_digits b acc (c # s) = Some (n, r) \<and> c # s = (c # u) @ r \<and> NUL \<notin> set (c # u)" using Some \<open>c \<noteq> NUL\<close> by auto
    then show ?thesis by blast
  qed auto
qed simp

lemma cspace_prefix: "NUL \<in> set s \<Longrightarrow> \<exists>u r. skip_cspace s = Some r \<and> s = u @ r \<and> NUL \<notin> set u"
proof (induction s)
  case (Cons c s)
  show ?case
  proof (cases "is_cspace c")
    case True
    then have "c \<noteq> NUL" by (auto simp: is_cspace_def)
    then obtain u r where "skip_cspace s = Some r" "s = u @ r" "NUL \<notin> set u" using Cons by auto
    then have "skip_cspace (c # s) = Some r \<and> c # s = (c # u) @ r \<and> NUL \<notin> set (c # u)" using True \<open>c \<noteq> NUL\<close> by auto
    then show ?thesis by blast
  qed auto
qed simp

lemma sign_prefix: "\<exists>u. s = u @ snd (take_sign s) \<and> NUL \<notin> set u"
  by (cases s) (auto simp: take_sign_def intro: exI [of _ "[_]"])

lemma skip_0x_prefix: "\<exists>u. s = u @ skip_0x b s \<and> NUL \<notin> set u"
  by (auto simp: skip_0x_def intro: exI [of _ "[_, _]"] split: list.splits)

lemma strtoll_prefix:
  assumes "NUL \<in> set s"
  shows "\<exists>v over u r. c_strtoll0 s = Some (v, over, r) \<and> s = u @ r \<and> NUL \<notin> set u"
proof -
  obtain u1 s1 where 1: "skip_cspace s = Some s1" "s = u1 @ s1" "NUL \<notin> set u1" using cspace_prefix [OF assms] by blast
  obtain neg s2 where 2: "take_sign s1 = (neg, s2)" by (cases "take_sign s1")
  then obtain u2 where u2: "s1 = u2 @ s2" "NUL \<notin> set u2" using sign_prefix [of s1] by auto
  define s3 where "s3 = skip_0x (base_of s2) s2"
  obtain u3 where u3: "s2 = u3 @ s3" "NUL \<notin> set u3" using skip_0x_prefix [of s2 "base_of s2"] by (auto simp: s3_def)
  have in3: "NUL \<in> set s3" using assms 1 u2 u3 by auto
  then obtain n u r where r: "scan_digits (base_of s2) 0 s3 = Some (n, r)" "s3 = u @ r" "NUL \<notin> set u" using scan_prefix by blast
  show ?thesis
  proof (cases "starts_digit (base_of s2) s3")
    case False
    then have "c_strtoll0 s = Some (0, False, s)" using 1(1) 2 in3 unfolding c_strtoll0_def by (auto simp: s3_def Let_def)
    then show ?thesis by (metis append_Nil empty_iff empty_set)
  next
    case True
    then have "\<exists>v over. c_strtoll0 s = Some (v, over, r)" using 1(1) 2 in3 r(1) unfolding c_strtoll0_def by (auto simp: s3_def [symmetric] Let_def)
    moreover have "s = (u1 @ u2 @ u3 @ u) @ r" "NUL \<notin> set (u1 @ u2 @ u3 @ u)" using 1 u2 u3 r by auto
    ultimately show ?thesis by blast
  qed
qed

definition strtod_ok :: "'d json_sys \<Rightarrow> bool" where
  "strtod_ok sys \<longleftrightarrow> (\<forall>s x over n. js_strtod sys s = (x, over, n) \<longrightarrow> n \<le> length s)"

lemma within_prefix:
  assumes "within z m p" "drop p m = u @ r" "NUL \<notin> set u"
  shows "p + length u \<le> z"
proof (rule ccontr)
  assume "\<not> p + length u \<le> z"
  then have "u ! (z - p) = drop p m ! (z - p)" "z - p < length u" using assms by (auto simp: nth_append within_def)
  moreover have "drop p m ! (z - p) = NUL" using assms(1) by (simp add: within_def)
  ultimately show False using assms(3) nth_mem by metis
qed

lemma within_NUL: "within z m p \<Longrightarrow> NUL \<in> set (drop p m)"
  by (auto simp: within_def in_set_conv_nth intro!: exI [of _ "z - p"])

lemma within_number:
  assumes "within z m p" "strtod_ok sys"
  shows "\<exists>r. parse_number sys er key m p = Some r \<and> (\<forall>q js. r = Some (q, js) \<longrightarrow> within z m q \<and> p < q)"
proof -
  obtain v over u r where n: "c_strtoll0 (drop p m) = Some (v, over, r)" "drop p m = u @ r" "NUL \<notin> set u" using strtoll_prefix within_NUL [OF assms(1)] by blast
  have lp: "p + length u \<le> z" by (rule within_prefix [OF assms(1) n(2,3)])
  have len: "length m - p = length u + length r" using arg_cong [OF n(2), of length] by simp
  have pe: "length m - length r = p + length u" using len lp assms(1) by (auto simp: within_def)
  have w: "within z m (p + length u)" using assms(1) lp by (simp add: within_def)
  then obtain c where c: "rd m (p + length u) = Some c" using within_rd by blast
  obtain x ov n' where d: "js_strtod sys (cstr m p) = (x, ov, n')" by (cases "js_strtod sys (cstr m p)")
  have "p + length (cstr m p) \<le> z"
    by (rule within_prefix [OF assms(1), of _ "dropWhile (\<lambda>c. c \<noteq> NUL) (drop p m)"]) (auto simp: cstr_def dest: set_takeWhileD)
  then have "p + n' \<le> z" using assms(2) d unfolding strtod_ok_def by fastforce
  then have "within z m (p + n')" using assms(1) by (simp add: within_def)
  then show ?thesis using n(1) pe w c d unfolding parse_number_def by (auto simp: Let_def)
qed

lemma within_lit: "within z m p \<Longrightarrow> NUL \<notin> set lit \<Longrightarrow> \<exists>b. lit_at m p lit = Some b \<and> (b \<longrightarrow> within z m (p + length lit))"
proof (induction lit arbitrary: p)
  case (Cons x lit)
  obtain c where c: "rd m p = Some c" "c \<noteq> NUL \<longrightarrow> within z m (Suc p)" using within_rd [OF Cons.prems(1)] by blast
  then show ?case using Cons.IH [of "Suc p"] Cons.prems(2) by (cases "c = x") auto
qed auto

section \<open>Values\<close>

text \<open>A value is passed, unless it is the end of an array; the members of an object and the items of an array are passed with their bracket.\<close>

definition passed :: "parse_mode \<Rightarrow> nat \<Rightarrow> mem \<Rightarrow> nat \<Rightarrow> (mem \<times> nat \<times> 'd nx_json list) option option \<Rightarrow> bool" where
  "passed mode z m p r \<longleftrightarrow> (\<exists>x. r = Some x \<and> (\<forall>m' q js. x = Some (m', q, js) \<longrightarrow> length m' = length m \<and> within z m' q
     \<and> (p < q \<or> (\<exists>key. mode = Value_of key) \<and> p = q \<and> m' ! q = CHR '']'')))"

definition weight :: "nat \<Rightarrow> parse_mode \<Rightarrow> nat \<Rightarrow> nat" where
  "weight z mode p = 2 * (z - p) + (case mode of Value_of _ \<Rightarrow> 0 | _ \<Rightarrow> 1)"

lemma passed_none [simp]: "passed mode z m p (Some None)"
  by (simp add: passed_def)

lemma passed_some: "passed mode z m p (Some (Some (m', q, js))) \<longleftrightarrow> length m' = length m \<and> within z m' q
    \<and> (p < q \<or> (\<exists>key. mode = Value_of key) \<and> p = q \<and> m' ! q = CHR '']'')"
  by (auto simp: passed_def)

lemma passedE:
  assumes "passed mode z m p r"
  obtains "r = Some None" | m' q js where "r = Some (Some (m', q, js))" "length m' = length m" "within z m' q"
    "p < q \<or> (\<exists>key. mode = Value_of key) \<and> p = q \<and> m' ! q = CHR '']''"
  using assms unfolding passed_def by (metis not_None_eq prod_cases3)

lemma passed_less: "passed mode z m' q r \<Longrightarrow> p < q \<Longrightarrow> length m' = length m \<Longrightarrow> passed mode' z m p r"
  unfolding passed_def by fastforce

lemma passed_literal:
  assumes "within z m p" "NUL \<notin> set lit" "lit \<noteq> []"
  shows "passed mode z m p (parse_literal sys lit t v key m p)"
  using within_lit [OF assms(1,2)] assms(3) by (auto simp: parse_literal_def passed_def)

lemma passed_string:
  assumes "std_encoder enc" "within z m (Suc p)"
  shows "passed mode z m p (parse_string sys enc key m (Suc p))"
proof -
  obtain x where x: "unescape_string enc m (Suc p) = Some x" "\<forall>m' q. x = Some (m', q) \<longrightarrow> length m' = length m \<and> within z m' q \<and> Suc p < q"
    using within_string [OF assms] unfolding string_ok_def by blast
  then show ?thesis by (cases x) (auto simp: parse_string_def passed_def)
qed

lemma passed_wrap:
  assumes "passed mode' z m (Suc p) r" "mode' \<in> {Members, Items}"
  shows "passed mode z m p (do { r \<leftarrow> r; (case r of None \<Rightarrow> Some None | Some (m, p, cs) \<Rightarrow> Some (Some (m, p, [f cs]))) })"
  using assms(1) by (rule passedE) (use assms(2) in \<open>auto simp: passed_some\<close>)

text \<open>The bytes at a pointer that does not point at the end of an array after a value of no length.\<close>

lemma passed_more:
  assumes "passed (Value_of key) z m p r" "\<And>m' q js. r = Some (Some (m', q, js)) \<Longrightarrow> length m' = length m \<Longrightarrow> within z m' q \<Longrightarrow> p \<le> q \<Longrightarrow> p < q \<or> m' ! q = CHR '']'' \<Longrightarrow>
      passed mode z m p (f m' q js)"
  shows "passed mode z m p (do { r \<leftarrow> r; (case r of None \<Rightarrow> Some None | Some (m, p, cs) \<Rightarrow> f m p cs) })"
  using assms(1) by (rule passedE) (use assms(2) in auto)

lemma passed_append:
  assumes "passed mode z m' q r" "p < q" "length m' = length m" "mode \<in> {Members, Items}"
  shows "passed mode' z m p (do { r \<leftarrow> r; (case r of None \<Rightarrow> Some None | Some (m, p, cs') \<Rightarrow> Some (Some (m, p, cs @ cs'))) })"
  using assms(1) by (rule passedE) (use assms(2-4) in \<open>auto simp: passed_some\<close>)

lemma within_value:
  assumes "std_encoder enc" "strtod_ok sys" "within z m p"
  shows "passed mode z m p (parse_value sys enc er mode m p)"
  using assms(3)
proof (induction "weight z mode p" arbitrary: mode m p rule: less_induct)
  case less
  have IH: "passed mode' z m' q (parse_value sys enc er mode' m' q)" if "within z m' q" "weight z mode' q < weight z mode p" for mode' m' q
    using less.hyps [OF that(2)] that(1) by blast
  show ?case
  proof (cases mode)
    case (Value_of key)
    obtain c where c: "rd m p = Some c" "c \<noteq> NUL \<longrightarrow> p < z \<and> within z m (Suc p)" using within_rd [OF less.prems] by blast
    have go: "passed (Value_of key) z m p (parse_value sys enc er (Value_of key) m q)" if "p < q" "within z m q" "p < z" for q
    proof -
      have "passed (Value_of key) z m q (parse_value sys enc er (Value_of key) m q)"
        by (rule IH [OF that(2)]) (use that diff_less_mono2 [of p q z] in \<open>simp add: Value_of weight_def\<close>)
      then show ?thesis using passed_less that(1) by blast
    qed
    consider "c = NUL" | "c \<in> {SP, TAB, LF, CR, CHR '',''}" | "c = CHR ''{''" | "c = CHR ''[''" | "c = CHR '']''" | "c = DQ"
      | "c = CHR ''-'' \<or> 48 \<le> code c \<and> code c \<le> 57" | "c = CHR ''t''" | "c = CHR ''f''" | "c = CHR ''n''" | "c = CHR ''/''"
      | "c \<notin> {NUL, SP, TAB, LF, CR, CHR '','', CHR ''{'', CHR ''['', CHR '']'', DQ, CHR ''-'', CHR ''t'', CHR ''f'', CHR ''n'', CHR ''/''}" "\<not> (48 \<le> code c \<and> code c \<le> 57)"
      by auto
    then have "passed (Value_of key) z m p (parse_value sys enc er (Value_of key) m p)"
    proof cases
      case 2
      then show ?thesis using c go [of "Suc p"] by (subst parse_value.simps) auto
    next
      case 3
      then have "passed Members z m (Suc p) (parse_value sys enc er Members m (Suc p))" using IH [of m "Suc p" Members] c by (auto simp: Value_of weight_def)
      from passed_wrap [OF this] show ?thesis using 3 c by (subst parse_value.simps) simp
    next
      case 4
      then have "passed Items z m (Suc p) (parse_value sys enc er Items m (Suc p))" using IH [of m "Suc p" Items] c by (auto simp: Value_of weight_def)
      from passed_wrap [OF this] show ?thesis using 4 c by (subst parse_value.simps) simp
    next
      case 5
      then show ?thesis using c less.prems by (subst parse_value.simps) (auto simp: passed_some rd_def split: if_splits)
    next
      case 6
      then show ?thesis using c passed_string [OF assms(1), of z m p] by (subst parse_value.simps) simp
    next
      case 7
      have "c \<notin> {NUL, SP, TAB, LF, CR, CHR '','', CHR ''{'', CHR ''['', CHR '']'', DQ}" using 7 by (auto simp: code_def)
      moreover obtain r where "parse_number sys er key m p = Some r" "\<forall>q js. r = Some (q, js) \<longrightarrow> within z m q \<and> p < q" using within_number [OF less.prems assms(2)] by blast
      ultimately show ?thesis using 7 c by (subst parse_value.simps) (auto simp: passed_def split: option.split)
    next
      case 8
      then show ?thesis using c passed_literal [OF less.prems, of "''true''"] by (subst parse_value.simps) (simp add: code_def)
    next
      case 9
      then show ?thesis using c passed_literal [OF less.prems, of "''false''"] by (subst parse_value.simps) (simp add: code_def)
    next
      case 10
      then show ?thesis using c passed_literal [OF less.prems, of "''null''"] by (subst parse_value.simps) (simp add: code_def)
    next
      case 11
      then obtain r where r: "skip_comment m (Suc p) = Some r" "\<forall>q. r = Some q \<longrightarrow> within z m q \<and> Suc p < q" using within_comment [of z m "Suc p"] c by auto
      then show ?thesis using 11 c go by (cases r) (subst parse_value.simps, simp add: code_def)+
    qed (use c in \<open>subst parse_value.simps, auto\<close>)+
    then show ?thesis by (simp add: Value_of)
  next
    case Members
    obtain x where x: "parse_key enc m p = Some x" "\<forall>m' q k. x = Some (m', q, k) \<longrightarrow> length m' = length m \<and> within z m' q \<and> (p < q \<or> p = q \<and> m' ! q = CHR ''}'')"
      using within_key [OF assms(1) less.prems] unfolding key_found_def by blast
    show ?thesis unfolding Members
    proof (cases x)
      case None
      then show "passed Members z m p (parse_value sys enc er Members m p)" using x by (subst parse_value.simps) simp
    next
      case (Some y)
      then obtain m' q k where y: "x = Some (m', q, k)" by (cases y) auto
      then have q: "length m' = length m" "within z m' q" "p < q \<or> p = q \<and> m' ! q = CHR ''}''" using x(2) by auto
      obtain c where c: "rd m' q = Some c" "m' ! q = c" "c \<noteq> NUL \<longrightarrow> within z m' (Suc q)" using within_rd [OF q(2)] by (auto simp: rd_def split: if_splits)
      show "passed Members z m p (parse_value sys enc er Members m p)"
      proof (cases "c = CHR ''}''")
        case True
        then show ?thesis using x y q c by (subst parse_value.simps) (auto simp: passed_some)
      next
        case False
        then have pq: "p < q" using q(3) c(2) by auto
        have lt: "weight z mode' r < weight z mode p" if "q \<le> r" "within z m'' r" for mode' r m''
          using that pq q(2) by (cases mode') (auto simp: weight_def Members within_def)
        have v: "passed (Value_of k) z m' q (parse_value sys enc er (Value_of k) m' q)" by (rule IH [OF q(2)]) (rule lt [OF order_refl q(2)])
        have "passed Members z m' q (do { r \<leftarrow> parse_value sys enc er (Value_of k) m' q; (case r of None \<Rightarrow> Some None | Some (m, p, cs) \<Rightarrow> do {
            r \<leftarrow> parse_value sys enc er Members m p; (case r of None \<Rightarrow> Some None | Some (m, p, cs') \<Rightarrow> Some (Some (m, p, cs @ cs'))) }) })" (is "passed _ _ _ _ ?rest")
        proof (rule passed_more [OF v])
          fix m2 r js assume r: "length m2 = length m'" "within z m2 r" "q \<le> r"
          have "passed Members z m2 r (parse_value sys enc er Members m2 r)" by (rule IH [OF r(2) lt [OF r(3,2)]])
          then show "passed Members z m' q (do { r \<leftarrow> parse_value sys enc er Members m2 r; (case r of None \<Rightarrow> Some None | Some (m, p, cs') \<Rightarrow> Some (Some (m, p, js @ cs'))) })"
            by (rule passedE) (use r in \<open>auto simp: passed_some\<close>)
        qed
        then have "passed Members z m p ?rest" using passed_less pq q(1) by blast
        then show ?thesis using x y c False by (subst parse_value.simps) simp
      qed
    qed
  next
    case Items
    have v: "passed (Value_of None) z m p (parse_value sys enc er (Value_of None) m p)" by (rule IH [OF less.prems]) (simp add: Items weight_def)
    have "passed Items z m p (do { r \<leftarrow> parse_value sys enc er (Value_of None) m p; (case r of None \<Rightarrow> Some None | Some (m, p, cs) \<Rightarrow> do {
        c \<leftarrow> rd m p; (if c = CHR '']'' then Some (Some (m, p + 1, cs)) else do {
          r \<leftarrow> parse_value sys enc er Items m p; (case r of None \<Rightarrow> Some None | Some (m, p, cs') \<Rightarrow> Some (Some (m, p, cs @ cs'))) }) }) })"
    proof (rule passed_more [OF v])
      fix m2 r js assume r: "length m2 = length m" "within z m2 r" "p \<le> r" "p < r \<or> m2 ! r = CHR '']''"
      obtain c where c: "rd m2 r = Some c" "m2 ! r = c" "c \<noteq> NUL \<longrightarrow> within z m2 (Suc r)" using within_rd [OF r(2)] by (auto simp: rd_def split: if_splits)
      show "passed Items z m p (do { c \<leftarrow> rd m2 r; (if c = CHR '']'' then Some (Some (m2, r + 1, js)) else do {
          r \<leftarrow> parse_value sys enc er Items m2 r; (case r of None \<Rightarrow> Some None | Some (m, p, cs') \<Rightarrow> Some (Some (m, p, js @ cs'))) }) })"
      proof (cases "c = CHR '']''")
        case True
        then show ?thesis using c r by (simp add: passed_some)
      next
        case False
        then have pr: "p < r" using r(4) c(2) by auto
        have "passed Items z m2 r (parse_value sys enc er Items m2 r)" by (rule IH [OF r(2)]) (use pr r(2) in \<open>auto simp: Items weight_def within_def\<close>)
        from passed_append [OF this pr r(1)] show ?thesis using c False by simp
      qed
    qed
    then show ?thesis unfolding Items by (subst parse_value.simps) simp
  qed
qed

lemma parse_returns:
  assumes "strtod_ok sys" "std_encoder enc"
  shows "\<exists>r. nx_json_parse sys enc erange (s @ [NUL]) = Some r \<and> (\<forall>m' js. r = Some (m', js) \<longrightarrow> (\<exists>s'. m' = s' @ [NUL] \<and> length s' = length s))"
proof -
  have "within (length s) (s @ [NUL]) 0" by (simp add: within_def)
  from within_value [OF assms(2,1) this, of "Value_of None" erange]
  obtain x where x: "parse_value sys enc erange (Value_of None) (s @ [NUL]) 0 = Some x"
    "\<forall>m' q js. x = Some (m', q, js) \<longrightarrow> length m' = length (s @ [NUL]) \<and> within (length s) m' q" unfolding passed_def by blast
  have "\<exists>s'. m' = s' @ [NUL] \<and> length s' = length s" if "x = Some (m', q, js)" for m' q js
    using x(2) that by (cases m' rule: rev_cases) (auto simp: within_def nth_append)
  then show ?thesis using x(1) by (auto simp: nx_json_parse_def split: option.splits list.splits)
qed

definition sample_sys :: "string json_sys" where
  "sample_sys = \<lparr>js_strtod = (\<lambda>s. let n = takeWhile (\<lambda>c. c \<in> set ''+-.0123456789Ee'') s in (n, False, length n)), js_dbl = (\<lambda>i. [])\<rparr>"

lemma sample_strtod_ok: "strtod_ok sample_sys"
  by (auto simp: strtod_ok_def sample_sys_def Let_def length_takeWhile_le)

text \<open>
  C21: On any text (the C stack taken as unlimited) the JSON reader returns, with a tree or with an error, and never reads or writes beyond the terminator of the text, whether
  or not it translates \<^verbatim>\<open>\u\<close> escapes and whatever \<^verbatim>\<open>errno\<close> was; the text keeps its length and its terminator.
\<close>

theorem json_parse_returns:
  assumes "strtod_ok sys" "std_encoder enc"
  shows "\<exists>r. nx_json_parse sys enc erange (s @ [NUL]) = Some r \<and> (\<forall>m' js. r = Some (m', js) \<longrightarrow> (\<exists>s'. m' = s' @ [NUL] \<and> length s' = length s))"
  by (rule parse_returns [OF assms])

theorem json_parse_returns_witness:
  "\<exists>r. nx_json_parse sample_sys (Some unicode_to_utf8) False ((''{'' @ [DQ, CHR 0x5C] @ ''ud8'') @ [NUL]) = Some r"
proof -
  have "std_encoder (Some unicode_to_utf8)" by (simp add: std_encoder_def)
  from json_parse_returns [OF sample_strtod_ok this, of False "''{'' @ [DQ, CHR 0x5C] @ ''ud8''"] show ?thesis by blast
qed

end
