(* ===== verification/Nx_Json_Read.thy ===== *)
theory Nx_Json_Read
  imports Nx_Json_Safe
begin

text \<open>
  What the JSON reader makes of a text: every JSON text, with blanks and comments between its tokens, is read as the value it stands for.
\<close>

section \<open>Gaps between tokens\<close>

datatype gap = Blank char | Line_comment string | Block_comment string

fun no_close :: "string \<Rightarrow> bool" where
  "no_close (a # b # r) \<longleftrightarrow> \<not> (a = CHR ''*'' \<and> b = CHR ''/'') \<and> no_close (b # r)"
| "no_close _ \<longleftrightarrow> True"

fun gap_text :: "gap \<Rightarrow> string" where
  "gap_text (Blank c) = [c]"
| "gap_text (Line_comment s) = ''//'' @ s @ [LF]"
| "gap_text (Block_comment s) = ''/*'' @ s @ ''*/''"

fun gap_ok :: "gap \<Rightarrow> bool" where
  "gap_ok (Blank c) \<longleftrightarrow> c \<in> {SP, TAB, LF, CR, CHR '',''}"
| "gap_ok (Line_comment s) \<longleftrightarrow> NUL \<notin> set s \<and> LF \<notin> set s"
| "gap_ok (Block_comment s) \<longleftrightarrow> NUL \<notin> set s \<and> no_close s"

definition gaps_text :: "gap list \<Rightarrow> string" where
  "gaps_text gs = concat (map gap_text gs)"

lemma no_close_append: "no_close (u @ v) \<Longrightarrow> no_close v \<and> (u \<noteq> [] \<and> v \<noteq> [] \<longrightarrow> \<not> (last u = CHR ''*'' \<and> hd v = CHR ''/''))"
proof (induction u)
  case (Cons a u)
  then show ?case by (cases "u @ v"; cases u) auto
qed simp

lemma no_close_star: "no_close s \<Longrightarrow> no_close (s @ [CHR ''*''])"
  by (induction s rule: no_close.induct) auto

lemma rd_last: "u \<noteq> [] \<Longrightarrow> p + 1 = length a + length u \<Longrightarrow> rd (a @ u @ t) p = Some (last u)"
  using rd_at [of p "a @ butlast u" "last u" t] by (cases u rule: rev_cases) auto

lemma block_loop_run:
  assumes "w \<noteq> []" "last w = CHR ''*''" "no_close w" "NUL \<notin> set w"
  shows "block_loop (a @ w @ CHR ''/'' # t) (length a) = Some (Some (length a + length w + 1))"
  using assms
proof (induction "length w" arbitrary: a w rule: less_induct)
  case less
  obtain c s where w: "w = c # s" using less.prems(1) by (cases w) auto
  show ?case
  proof (cases "CHR ''/'' \<in> set s")
    case True
    then obtain u v where s: "s = u @ CHR ''/'' # v" "CHR ''/'' \<notin> set u" by (rule split_first)
    have "c_strchr (a @ w @ CHR ''/'' # t) (length a + 1) (CHR ''/'') = Some (Some (length a + 1 + length u))"
      using c_strchr_found [of u "CHR ''/''" "a @ [c]" "v @ CHR ''/'' # t"] less.prems(4) s by (simp add: w)
    moreover have "rd (a @ w @ CHR ''/'' # t) (length a + length u) = Some (last (c # u))"
      using rd_last [of "c # u" "length a + length u" a "CHR ''/'' # v @ CHR ''/'' # t"] by (simp add: w s)
    moreover have "last (c # u) \<noteq> CHR ''*''" using no_close_append [of "c # u" "CHR ''/'' # v"] less.prems(3) by (simp add: w s)
    moreover have "block_loop ((a @ c # u) @ (CHR ''/'' # v) @ CHR ''/'' # t) (length (a @ c # u)) = Some (Some (length (a @ c # u) + length (CHR ''/'' # v) + 1))"
      using less.prems no_close_append [of "c # u" "CHR ''/'' # v"] by (intro less.hyps) (auto simp: w s)
    ultimately show ?thesis by (subst block_loop.simps) (simp add: w s)
  next
    case False
    have "c_strchr (a @ w @ CHR ''/'' # t) (length a + 1) (CHR ''/'') = Some (Some (length a + length w))"
      using c_strchr_found [of s "CHR ''/''" "a @ [c]" t] less.prems(4) False by (simp add: w)
    moreover have "rd (a @ w @ CHR ''/'' # t) (length a + length w - 1) = Some (CHR ''*'')"
      using rd_last [OF less.prems(1), of "length a + length w - 1" a "CHR ''/'' # t"] less.prems(1,2) by (cases w) simp_all
    ultimately show ?thesis by (subst block_loop.simps) simp
  qed
qed

lemma skip_comment_run:
  assumes "gap_ok g" "gap_text g = CHR ''/'' # s"
  shows "skip_comment (a @ gap_text g @ t) (length a + 1) = Some (Some (length a + length (gap_text g)))"
proof (cases g)
  case (Line_comment l)
  have "rd (a @ gap_text g @ t) (length a + 1) = Some (CHR ''/'')" using rd_at [of _ "a @ ''/''" "CHR ''/''" "l @ LF # t"] by (simp add: Line_comment)
  moreover have "c_strchr (a @ gap_text g @ t) (length a + 2) LF = Some (Some (length a + 2 + length l))"
    using c_strchr_found [of l LF "a @ ''//''" t] assms(1) by (simp add: Line_comment)
  ultimately show ?thesis by (simp add: skip_comment_def Line_comment)
next
  case (Block_comment l)
  have r: "rd (a @ gap_text g @ t) (length a + 1) = Some (CHR ''*'')" using rd_at [of _ "a @ ''/''" "CHR ''*''" "l @ ''*/'' @ t"] by (simp add: Block_comment)
  have "rd (a @ gap_text g @ t) (length a + 2) = Some (hd (l @ ''*/''))"
    using rd_at [of _ "a @ ''/*''" "hd (l @ ''*/'')" "tl (l @ ''*/'') @ t"] by (cases l) (simp_all add: Block_comment)
  moreover have "hd (l @ ''*/'') \<noteq> NUL" using assms(1) by (cases l) (auto simp: Block_comment)
  moreover have "block_loop (a @ gap_text g @ t) (length a + 2) = Some (Some (length a + length (gap_text g)))"
    using block_loop_run [of "l @ ''*''" "a @ ''/*''" t] assms(1) no_close_star [of l] by (simp add: Block_comment)
  ultimately show ?thesis using r by (simp add: skip_comment_def skip_block_comment_def)
next
  case (Blank c)
  then show ?thesis using assms by auto
qed

lemma gap_head:
  assumes "gap_ok g"
  obtains c s where "gap_text g = c # s" "c \<in> {SP, TAB, LF, CR, CHR '',''} \<and> s = [] \<or> c = CHR ''/''"
  using assms by (cases g) auto

lemma value_skips_gap:
  assumes "gap_ok g"
  shows "parse_value sys enc er (Value_of key) (a @ gap_text g @ t) (length a) = parse_value sys enc er (Value_of key) (a @ gap_text g @ t) (length a + length (gap_text g))"
proof -
  obtain c s where g: "gap_text g = c # s" "c \<in> {SP, TAB, LF, CR, CHR '',''} \<and> s = [] \<or> c = CHR ''/''" using assms by (rule gap_head)
  have r: "rd (a @ gap_text g @ t) (length a) = Some c" by (simp add: g)
  show ?thesis
  proof (cases "c = CHR ''/''")
    case True
    then show ?thesis using r skip_comment_run [OF assms, of s a t] g(1) by (subst parse_value.simps) (simp add: code_def)
  next
    case False
    then have c: "c \<in> {SP, TAB, LF, CR, CHR '',''}" "s = []" using g(2) by auto
    then have "parse_value sys enc er (Value_of key) (a @ gap_text g @ t) (length a) = parse_value sys enc er (Value_of key) (a @ gap_text g @ t) (length a + 1)"
      using r by (subst parse_value.simps) auto
    then show ?thesis using c g(1) by simp
  qed
qed

lemma key_skips_gap:
  assumes "gap_ok g"
  shows "parse_key enc (a @ gap_text g @ t) (length a) = parse_key enc (a @ gap_text g @ t) (length a + length (gap_text g))"
proof -
  obtain c s where g: "gap_text g = c # s" "c \<in> {SP, TAB, LF, CR, CHR '',''} \<and> s = [] \<or> c = CHR ''/''" using assms by (rule gap_head)
  have r: "rd (a @ gap_text g @ t) (length a) = Some c" by (simp add: g)
  show ?thesis
  proof (cases "c = CHR ''/''")
    case True
    then show ?thesis using r skip_comment_run [OF assms, of s a t] g(1) by (subst parse_key.simps) (simp add: le_sp_def code_def)
  next
    case False
    then have c: "c \<in> {SP, TAB, LF, CR, CHR '',''}" "s = []" using g(2) by auto
    then have "parse_key enc (a @ gap_text g @ t) (length a) = parse_key enc (a @ gap_text g @ t) (length a + 1)"
      using r by (subst parse_key.simps) (auto simp: le_sp_def code_def)
    then show ?thesis using c g(1) by simp
  qed
qed

lemma value_skips_gaps:
  "\<forall>g \<in> set gs. gap_ok g \<Longrightarrow> parse_value sys enc er (Value_of key) (a @ gaps_text gs @ t) (length a)
    = parse_value sys enc er (Value_of key) (a @ gaps_text gs @ t) (length a + length (gaps_text gs))"
proof (induction gs arbitrary: a)
  case (Cons g gs)
  then show ?case using value_skips_gap [of g sys enc er key a "gaps_text gs @ t"] Cons.IH [of "a @ gap_text g"] by (simp add: gaps_text_def add.assoc)
qed (simp add: gaps_text_def)

lemma key_skips_gaps:
  "\<forall>g \<in> set gs. gap_ok g \<Longrightarrow> parse_key enc (a @ gaps_text gs @ t) (length a) = parse_key enc (a @ gaps_text gs @ t) (length a + length (gaps_text gs))"
proof (induction gs arbitrary: a)
  case (Cons g gs)
  then show ?case using key_skips_gap [of g enc a "gaps_text gs @ t"] Cons.IH [of "a @ gap_text g"] by (simp add: gaps_text_def add.assoc)
qed (simp add: gaps_text_def)

section \<open>Numbers and literals\<close>

definition sign_text :: "bool \<Rightarrow> string" where
  "sign_text neg = (if neg then ''-'' else [])"

definition with_sign :: "bool \<Rightarrow> nat \<Rightarrow> int" where
  "with_sign neg n = (if neg then - int n else int n)"

definition fits_long :: "int \<Rightarrow> bool" where
  "fits_long v \<longleftrightarrow> - (2 ^ 63) \<le> v \<and> v < 2 ^ 63"

text \<open>What may follow a value.\<close>

definition delim :: "char \<Rightarrow> bool" where
  "delim c \<longleftrightarrow> c \<in> {NUL, SP, TAB, LF, CR, CHR '','', CHR ''/'', CHR '']'', CHR ''}'', DQ}"

lemma dec_head: "\<exists>c s. dec n = c # s \<and> 48 \<le> code c \<and> code c \<le> 57 \<and> (0 < n \<longrightarrow> 48 < code c)"
proof (induction n rule: dec.induct)
  case (1 n)
  show ?case
  proof (cases "n < 10")
    case True
    then show ?thesis by (simp add: dec.simps [of n] digit_char_code)
  next
    case False
    then obtain c s where "dec (n div 10) = c # s" "48 \<le> code c" "code c \<le> 57" "48 < code c" using 1 [OF False] by (auto simp: not_less)
    then show ?thesis using False by (simp add: dec.simps [of n])
  qed
qed

lemma digit_code: "48 \<le> code c \<Longrightarrow> code c \<le> 57 \<Longrightarrow> digit_in 10 c = Some (code c - 48) \<and> c \<noteq> CHR ''-'' \<and> c \<noteq> CHR ''+'' \<and> \<not> is_cspace c"
  by (auto simp: digit_in_def digit_val_def is_cspace_def code_def)

lemma zero_code: "c = CHR ''0'' \<longleftrightarrow> code c = 48"
proof -
  have "code (CHR ''0'') = 48" by (simp add: code_def)
  then show ?thesis by (metis code_eq_iff)
qed

lemma scan_dec:
  assumes x: "digit_in 10 x = None" "x \<noteq> CHR ''x''" "x \<noteq> CHR ''X''"
  shows "skip_0x (base_of (dec n @ x # r)) (dec n @ x # r) = dec n @ x # r" "starts_digit (base_of (dec n @ x # r)) (dec n @ x # r)"
    "scan_digits (base_of (dec n @ x # r)) 0 (dec n @ x # r) = Some (n, x # r)"
proof -
  obtain c s where c: "dec n = c # s" "48 \<le> code c" "code c \<le> 57" "0 < n \<longrightarrow> 48 < code c" using dec_head by blast
  have "skip_0x (base_of (dec n @ x # r)) (dec n @ x # r) = dec n @ x # r \<and> starts_digit (base_of (dec n @ x # r)) (dec n @ x # r)
    \<and> scan_digits (base_of (dec n @ x # r)) 0 (dec n @ x # r) = Some (n, x # r)"
  proof (cases "n = 0")
    case True
    have d: "dec 0 = ''0''" by (simp add: dec.simps)
    have x8: "digit_in 8 x = None" using x(1) by (auto simp: digit_in_def split: option.splits if_splits)
    have z: "digit_in 8 (CHR ''0'') = Some 0" by (simp add: digit_in_def digit_val_def code_def)
    show ?thesis using x x8 z True by (simp add: d base_of_def skip_0x_def starts_digit_def)
  next
    case False
    then have "c \<noteq> CHR ''0''" using c(4) by (auto simp: zero_code)
    then have "base_of (dec n @ x # r) = 10" by (auto simp: c(1) base_of_def skip_0x_def split: list.splits)
    then show ?thesis using scan_digits_dec [OF x(1), of n r] digit_code [OF c(2,3)] by (simp add: c(1) skip_0x_def starts_digit_def)
  qed
  then show "skip_0x (base_of (dec n @ x # r)) (dec n @ x # r) = dec n @ x # r" "starts_digit (base_of (dec n @ x # r)) (dec n @ x # r)"
    "scan_digits (base_of (dec n @ x # r)) 0 (dec n @ x # r) = Some (n, x # r)" by auto
qed

lemma strtoll_dec:
  assumes "digit_in 10 x = None" "x \<noteq> CHR ''x''" "x \<noteq> CHR ''X''" "fits_long (with_sign neg n)"
  shows "c_strtoll0 (sign_text neg @ dec n @ x # r) = Some (with_sign neg n, False, x # r)"
proof -
  obtain c s where c: "dec n = c # s" "48 \<le> code c" "code c \<le> 57" using dec_head by blast
  have "skip_cspace (sign_text neg @ dec n @ x # r) = Some (sign_text neg @ dec n @ x # r)" "take_sign (sign_text neg @ dec n @ x # r) = (neg, dec n @ x # r)"
    using digit_code [OF c(2,3)] by (simp_all add: sign_text_def c(1) take_sign_def is_cspace_def)
  moreover have "clamp_long (with_sign neg n) = with_sign neg n" using assms(4) by (simp add: clamp_long_def fits_long_def)
  ultimately show ?thesis using scan_dec [OF assms(1-3), of n r] by (simp add: c_strtoll0_def with_sign_def Let_def)
qed

lemma delim_chars: "delim c \<Longrightarrow> digit_in 10 c = None \<and> c \<noteq> CHR ''x'' \<and> c \<noteq> CHR ''X'' \<and> c \<notin> {CHR ''.'', CHR ''e'', CHR ''E''}"
  by (auto simp: delim_def digit_in_def digit_val_def code_def)

lemma parse_int_run:
  assumes "delim x" "fits_long (with_sign neg n)"
  shows "parse_number sys False key (a @ sign_text neg @ dec n @ x # r) (length a)
    = Some (Some (length a + length (sign_text neg @ dec n), Nx_Json NX_JSON_INTEGER key None (with_sign neg n) (js_dbl sys (with_sign neg n)) []))"
proof -
  note d = delim_chars [OF assms(1)]
  have "c_strtoll0 (drop (length a) (a @ sign_text neg @ dec n @ x # r)) = Some (with_sign neg n, False, x # r)" using strtoll_dec [of x neg n r] d assms(2) by simp
  moreover have "rd (a @ sign_text neg @ dec n @ x # r) (length a + length (sign_text neg @ dec n)) = Some x"
    using rd_at [of _ "a @ sign_text neg @ dec n" x r] by simp
  ultimately show ?thesis using d by (auto simp: parse_number_def)
qed

text \<open>\<^verbatim>\<open>strtod\<close> reads the number \<open>s\<close> as \<open>x\<close>, whatever follows it.\<close>

definition strtod_reads :: "'d json_sys \<Rightarrow> string \<Rightarrow> 'd \<Rightarrow> bool" where
  "strtod_reads sys s x \<longleftrightarrow> (\<forall>r. r = [] \<or> delim (hd r) \<longrightarrow> js_strtod sys (s @ r) = (x, False, length s))"

definition dbl_text :: "bool \<Rightarrow> nat \<Rightarrow> string \<Rightarrow> string" where
  "dbl_text neg n s = sign_text neg @ dec n @ s"

definition dbl_ok :: "'d json_sys \<Rightarrow> bool \<Rightarrow> nat \<Rightarrow> string \<Rightarrow> 'd \<Rightarrow> bool" where
  "dbl_ok sys neg n s x \<longleftrightarrow> fits_long (with_sign neg n) \<and> s \<noteq> [] \<and> hd s \<in> {CHR ''.'', CHR ''e'', CHR ''E''} \<and> NUL \<notin> set s \<and> strtod_reads sys (dbl_text neg n s) x"

lemma cstr_number: "NUL \<notin> set s \<Longrightarrow> delim x \<Longrightarrow> \<exists>q. cstr (a @ s @ x # r) (length a) = s @ q \<and> (q = [] \<or> delim (hd q))"
proof -
  assume s: "NUL \<notin> set s" and x: "delim x"
  have t: "takeWhile (\<lambda>c. c \<noteq> NUL) (s @ x # r) = s @ (if x = NUL then [] else x # takeWhile (\<lambda>c. c \<noteq> NUL) r)" using s by (induction s) auto
  show ?thesis using x unfolding cstr_def by (intro exI [of _ "if x = NUL then [] else x # takeWhile (\<lambda>c. c \<noteq> NUL) r"]) (auto simp: t)
qed

lemma parse_dbl_run:
  assumes "delim y" "dbl_ok sys neg n s x"
  shows "parse_number sys False key (a @ dbl_text neg n s @ y # r) (length a)
    = Some (Some (length a + length (dbl_text neg n s), Nx_Json NX_JSON_DOUBLE key None (with_sign neg n) x []))"
proof -
  obtain c s' where s: "s = c # s'" "c \<in> {CHR ''.'', CHR ''e'', CHR ''E''}" using assms(2) by (cases s) (auto simp: dbl_ok_def)
  have c: "digit_in 10 c = None" "c \<noteq> CHR ''x''" "c \<noteq> CHR ''X''" using s(2) by (auto simp: digit_in_def digit_val_def code_def)
  have n: "fits_long (with_sign neg n)" "NUL \<notin> set s" "strtod_reads sys (dbl_text neg n s) x" using assms(2) by (simp_all add: dbl_ok_def)
  have "c_strtoll0 (drop (length a) (a @ dbl_text neg n s @ y # r)) = Some (with_sign neg n, False, s @ y # r)"
    using strtoll_dec [OF c n(1), of "s' @ y # r"] by (simp add: dbl_text_def s(1))
  moreover have "rd (a @ dbl_text neg n s @ y # r) (length a + length (sign_text neg @ dec n)) = Some c"
    using rd_at [of _ "a @ sign_text neg @ dec n" c "s' @ y # r"] by (simp add: dbl_text_def s(1))
  moreover have "NUL \<notin> set (dbl_text neg n s)" using n(2) by (simp add: dbl_text_def sign_text_def)
  then obtain q where "cstr (a @ dbl_text neg n s @ y # r) (length a) = dbl_text neg n s @ q" "q = [] \<or> delim (hd q)" using cstr_number [OF _ assms(1)] by blast
  then have "js_strtod sys (cstr (a @ dbl_text neg n s @ y # r) (length a)) = (x, False, length (dbl_text neg n s))" using n(3) unfolding strtod_reads_def by metis
  moreover have "length (a @ dbl_text neg n s @ y # r) - length (s @ y # r) = length a + length (sign_text neg @ dec n)" by (simp add: dbl_text_def)
  moreover have "length (sign_text neg @ dec n) \<noteq> 0" "length (dbl_text neg n s) \<noteq> 0" by (simp_all add: dbl_text_def)
  ultimately show ?thesis using s(2) unfolding parse_number_def by auto
qed

lemma lit_at_run: "lit_at (a @ lit @ t) (length a) lit = Some True"
proof (induction lit arbitrary: a)
  case (Cons c lit)
  then show ?case using Cons.IH [of "a @ [c]"] by simp
qed simp

section \<open>Documents\<close>

text \<open>
  The text of a value: the items of an array and the members of an object each with what stands before them, and what stands before the
  closing bracket.  The head of a member is the gap before its key, the key, blanks, and the gap after the colon.
\<close>

datatype head = Head "gap list" "piece list" string "gap list"

datatype 'd doc = DNull | DBool bool | DInt bool nat | DDbl bool nat string 'd | DStr "piece list" | DArr "gap list list" "'d doc list" "gap list"
  | DObj "head list" "'d doc list" "gap list"

fun head_text :: "head \<Rightarrow> string" where
  "head_text (Head g k w g') = gaps_text g @ [DQ] @ str_text k @ [DQ] @ w @ '':'' @ gaps_text g'"

fun head_key :: "head \<Rightarrow> string" where
  "head_key (Head g k w g') = str_value k"

fun head_ok :: "head \<Rightarrow> bool" where
  "head_ok (Head g k w g') \<longleftrightarrow> (\<forall>x \<in> set g. gap_ok x) \<and> (\<forall>x \<in> set k. piece_ok x) \<and> (\<forall>c \<in> set w. c \<noteq> NUL \<and> le_sp c) \<and> (\<forall>x \<in> set g'. gap_ok x)"

text \<open>What stands before the parts, and the parts.\<close>

definition weave :: "string list \<Rightarrow> string list \<Rightarrow> string" where
  "weave gs ts = concat (map2 (@) gs ts)"

fun doc_text :: "'d doc \<Rightarrow> string" where
  "doc_text DNull = ''null''"
| "doc_text (DBool b) = (if b then ''true'' else ''false'')"
| "doc_text (DInt neg n) = sign_text neg @ dec n"
| "doc_text (DDbl neg n s x) = dbl_text neg n s"
| "doc_text (DStr ps) = [DQ] @ str_text ps @ [DQ]"
| "doc_text (DArr gs ds g) = ''['' @ weave (map gaps_text gs) (map doc_text ds) @ gaps_text g @ '']''"
| "doc_text (DObj hs ds g) = ''{'' @ weave (map head_text hs) (map doc_text ds) @ gaps_text g @ ''}''"

fun doc_value :: "'d doc \<Rightarrow> 'd jval" where
  "doc_value DNull = JNull"
| "doc_value (DBool b) = JBool b"
| "doc_value (DInt neg n) = JInt (with_sign neg n)"
| "doc_value (DDbl neg n s x) = JDbl x"
| "doc_value (DStr ps) = JStr (str_value ps)"
| "doc_value (DArr gs ds g) = JArr (map doc_value ds)"
| "doc_value (DObj hs ds g) = JObj (zip (map head_key hs) (map doc_value ds))"

fun doc_ok :: "'d json_sys \<Rightarrow> 'd doc \<Rightarrow> bool" where
  "doc_ok sys DNull \<longleftrightarrow> True"
| "doc_ok sys (DBool b) \<longleftrightarrow> True"
| "doc_ok sys (DInt neg n) \<longleftrightarrow> fits_long (with_sign neg n)"
| "doc_ok sys (DDbl neg n s x) \<longleftrightarrow> dbl_ok sys neg n s x"
| "doc_ok sys (DStr ps) \<longleftrightarrow> (\<forall>x \<in> set ps. piece_ok x)"
| "doc_ok sys (DArr gs ds g) \<longleftrightarrow> length gs = length ds \<and> (\<forall>x \<in> set gs \<union> {g}. \<forall>y \<in> set x. gap_ok y) \<and> (\<forall>x \<in> set (tl gs). x \<noteq> []) \<and> (\<forall>d \<in> set ds. doc_ok sys d)"
| "doc_ok sys (DObj hs ds g) \<longleftrightarrow> length hs = length ds \<and> (\<forall>h \<in> set hs. head_ok h) \<and> (\<forall>y \<in> set g. gap_ok y) \<and> (\<forall>d \<in> set ds. doc_ok sys d)"

text \<open>The value that a tree stands for, its strings read from the text.\<close>

fun jval_of :: "mem \<Rightarrow> 'd nx_json \<Rightarrow> 'd jval" where
  "jval_of m (Nx_Json t k s i d cs) =
     (case t of NX_JSON_NULL \<Rightarrow> JNull | NX_JSON_BOOL \<Rightarrow> JBool (i \<noteq> 0) | NX_JSON_INTEGER \<Rightarrow> JInt i | NX_JSON_DOUBLE \<Rightarrow> JDbl d
      | NX_JSON_STRING \<Rightarrow> JStr (case s of None \<Rightarrow> [] | Some a \<Rightarrow> cstr m a)
      | NX_JSON_ARRAY \<Rightarrow> JArr (map (jval_of m) cs)
      | NX_JSON_OBJECT \<Rightarrow> JObj (zip (map (\<lambda>c. case js_key c of None \<Rightarrow> [] | Some a \<Rightarrow> cstr m a) cs) (map (jval_of m) cs)))"

definition key_of :: "mem \<Rightarrow> 'd nx_json \<Rightarrow> string" where
  "key_of m js = (case js_key js of None \<Rightarrow> [] | Some a \<Rightarrow> cstr m a)"

lemma jval_of_object: "jval_of m (Nx_Json NX_JSON_OBJECT k s i d cs) = JObj (zip (map (key_of m) cs) (map (jval_of m) cs))"
  by (simp add: key_of_def cong: map_cong)

text \<open>
  The text \<open>s\<close> at \<open>length a\<close> is read: the bytes \<open>x\<close> take its place, and the nodes stand for the values whatever comes before and after.
\<close>

definition reads :: "'d json_sys \<Rightarrow> parse_mode \<Rightarrow> string \<Rightarrow> string \<Rightarrow> mem \<Rightarrow> (mem \<Rightarrow> 'd nx_json list \<Rightarrow> bool) \<Rightarrow> bool" where
  "reads sys mode a s t Q \<longleftrightarrow> (\<exists>x js. length x = length s
     \<and> parse_value sys (Some unicode_to_utf8) False mode (a @ s @ t) (length a) = Some (Some (a @ x @ t, length a + length x, js))
     \<and> (\<forall>a' t'. length a' = length a \<longrightarrow> Q (a' @ x @ t') js))"

lemma readsI:
  assumes "length x = length s" "parse_value sys (Some unicode_to_utf8) False mode (a @ s @ t) (length a) = Some (Some (a @ x @ t, length a + length x, js))"
    "\<And>a' t'. length a' = length a \<Longrightarrow> Q (a' @ x @ t') js"
  shows "reads sys mode a s t Q"
  unfolding reads_def using assms by blast

lemma readsE:
  assumes "reads sys mode a s t Q"
  obtains x js where "length x = length s" "parse_value sys (Some unicode_to_utf8) False mode (a @ s @ t) (length a) = Some (Some (a @ x @ t, length a + length x, js))"
    "\<And>a' t'. length a' = length a \<Longrightarrow> Q (a' @ x @ t') js"
  using assms unfolding reads_def by blast

lemma reads_mono: "reads sys mode a s t Q \<Longrightarrow> (\<And>m js. Q m js \<Longrightarrow> Q' m js) \<Longrightarrow> reads sys mode a s t Q'"
  unfolding reads_def by meson

lemma reads_after_gaps:
  assumes "\<forall>g \<in> set gs. gap_ok g" "reads sys (Value_of key) (a @ gaps_text gs) s t Q"
  shows "reads sys (Value_of key) a (gaps_text gs @ s) t Q"
proof -
  obtain x js where x: "length x = length s" "parse_value sys (Some unicode_to_utf8) False (Value_of key) ((a @ gaps_text gs) @ s @ t) (length (a @ gaps_text gs))
      = Some (Some ((a @ gaps_text gs) @ x @ t, length (a @ gaps_text gs) + length x, js))"
    "\<And>a' t'. length a' = length (a @ gaps_text gs) \<Longrightarrow> Q (a' @ x @ t') js" by (rule readsE [OF assms(2)]) blast
  show ?thesis
  proof (rule readsI [of "gaps_text gs @ x"])
    show "parse_value sys (Some unicode_to_utf8) False (Value_of key) (a @ (gaps_text gs @ s) @ t) (length a)
        = Some (Some (a @ (gaps_text gs @ x) @ t, length a + length (gaps_text gs @ x), js))"
      using x(2) value_skips_gaps [OF assms(1), of sys _ False key a "s @ t"] by simp
    show "Q (a' @ (gaps_text gs @ x) @ t') js" if "length a' = length a" for a' t' using x(3) [of "a' @ gaps_text gs"] that by simp
  qed (simp add: x(1))
qed

lemma gaps_head:
  assumes "\<forall>g \<in> set gs. gap_ok g" "gs \<noteq> []"
  obtains c s where "gaps_text gs = c # s" "c \<in> {SP, TAB, LF, CR, CHR '','', CHR ''/''}"
proof -
  obtain g gs' where gs: "gs = g # gs'" using assms(2) by (cases gs) auto
  then obtain c s where "gap_text g = c # s" "c \<in> {SP, TAB, LF, CR, CHR '',''} \<and> s = [] \<or> c = CHR ''/''" using assms(1) gap_head [of g] by auto
  then show ?thesis using that [of c "s @ gaps_text gs'"] by (auto simp: gs gaps_text_def)
qed

lemma doc_head:
  assumes "doc_ok sys d"
  obtains c s where "doc_text d = c # s" "c \<notin> {CHR ''}'', CHR '']'', NUL}"
proof -
  have n: "\<exists>c s. sign_text neg @ dec n = c # s \<and> c \<notin> {CHR ''}'', CHR '']'', NUL}" for neg n
  proof -
    obtain c s where "dec n = c # s" "48 \<le> code c" "code c \<le> 57" using dec_head [of n] by blast
    then show ?thesis by (auto simp: sign_text_def code_def)
  qed
  have "\<exists>c s. doc_text d = c # s \<and> c \<notin> {CHR ''}'', CHR '']'', NUL}"
  proof (cases d)
    case (DDbl neg m r x)
    then show ?thesis using n [of neg m] by (auto simp: dbl_text_def simp flip: append_assoc)
  qed (use n in auto)
  then show ?thesis using that by blast
qed

text \<open>The members of an object have keys.\<close>

definition keyed :: "'d nx_json \<Rightarrow> bool" where
  "keyed j \<longleftrightarrow> (js_type j = NX_JSON_OBJECT \<longrightarrow> (\<forall>c \<in> set (js_children j). js_key c \<noteq> None))"

definition one_value :: "nat option \<Rightarrow> 'd jval \<Rightarrow> mem \<Rightarrow> 'd nx_json list \<Rightarrow> bool" where
  "one_value key v m js \<longleftrightarrow> (case js of [j] \<Rightarrow> js_key j = key \<and> jval_of m j = v \<and> keyed j | _ \<Rightarrow> False)"

lemma one_value_single [simp]: "one_value key v m [j] \<longleftrightarrow> js_key j = key \<and> jval_of m j = v \<and> keyed j"
  by (simp add: one_value_def)

lemma keyed_simps [simp]: "t \<noteq> NX_JSON_OBJECT \<Longrightarrow> keyed (Nx_Json t k s i d cs)" "keyed (Nx_Json NX_JSON_OBJECT k s i d cs) \<longleftrightarrow> (\<forall>c \<in> set cs. js_key c \<noteq> None)"
  by (simp_all add: keyed_def)

lemma one_valueE: "one_value key v m js \<Longrightarrow> \<exists>j. js = [j]"
  by (auto simp: one_value_def split: list.splits)

definition value_read :: "'d json_sys \<Rightarrow> 'd doc \<Rightarrow> bool" where
  "value_read sys d \<longleftrightarrow> (\<forall>key a c t. delim c \<longrightarrow>
     reads sys (Value_of key) a (doc_text d) (c # t) (one_value key (doc_value d)))"

lemma literal_read:
  assumes "ty \<noteq> NX_JSON_OBJECT" "parse_value sys (Some unicode_to_utf8) False (Value_of key) (a @ lit @ t) (length a) = parse_literal sys lit ty v key (a @ lit @ t) (length a)"
    "\<And>m. jval_of m (Nx_Json ty key None v (js_dbl sys 0) []) = w"
  shows "reads sys (Value_of key) a lit t (one_value key (w))"
  by (rule readsI [of lit _ _ _ _ _ "[Nx_Json ty key None v (js_dbl sys 0) []]"]) (use assms lit_at_run [of a lit t] in \<open>simp_all add: parse_literal_def del: jval_of.simps\<close>)

lemma value_read_literals: "value_read sys DNull" "value_read sys (DBool b)"
proof -
  show "value_read sys DNull" unfolding value_read_def
    by (auto intro!: literal_read [where ty = NX_JSON_NULL and v = 0] simp: parse_value.simps code_def)
  have "value_read sys (DBool True)" unfolding value_read_def
    by (auto intro!: literal_read [where ty = NX_JSON_BOOL and v = 1] simp: parse_value.simps code_def)
  moreover have "value_read sys (DBool False)" unfolding value_read_def
    by (auto intro!: literal_read [where ty = NX_JSON_BOOL and v = 0] simp: parse_value.simps code_def)
  ultimately show "value_read sys (DBool b)" by (cases b) auto
qed

lemma number_head:
  assumes "rd m p = Some c" "c = CHR ''-'' \<or> 48 \<le> code c \<and> code c \<le> 57" "parse_number sys False key m p = Some (Some (q, js))"
  shows "parse_value sys enc False (Value_of key) m p = Some (Some (m, q, [js]))"
proof -
  have "c \<notin> {NUL, SP, TAB, LF, CR, CHR '','', CHR ''{'', CHR ''['', CHR '']'', DQ}" using assms(2) by (auto simp: code_def)
  then show ?thesis using assms by (subst parse_value.simps) auto
qed

lemma sign_head:
  obtains c s where "sign_text neg @ dec n = c # s" "c = CHR ''-'' \<or> 48 \<le> code c \<and> code c \<le> 57"
proof -
  obtain c s where "dec n = c # s" "48 \<le> code c" "code c \<le> 57" using dec_head [of n] by blast
  then show ?thesis using that by (cases neg) (auto simp: sign_text_def)
qed

lemma value_read_numbers: "fits_long (with_sign neg n) \<Longrightarrow> value_read sys (DInt neg n)" "dbl_ok sys neg n r x \<Longrightarrow> value_read sys (DDbl neg n r x)"
proof -
  obtain c s where h: "sign_text neg @ dec n = c # s" "c = CHR ''-'' \<or> 48 \<le> code c \<and> code c \<le> 57" by (rule sign_head)
  have rd: "rd (a @ sign_text neg @ dec n @ t) (length a) = Some c" for a t using arg_cong [OF h(1), of "\<lambda>u. rd (a @ u @ t) (length a)"] by simp
  show "value_read sys (DInt neg n)" if "fits_long (with_sign neg n)"
    unfolding value_read_def
  proof (intro allI impI)
    fix key a y t assume "delim y"
    note run = parse_int_run [OF this that, of sys key a t]
    show "reads sys (Value_of key) a (doc_text (DInt neg n)) (y # t) (one_value key (doc_value (DInt neg n)))"
      by (rule readsI [of "sign_text neg @ dec n" _ _ _ _ _ "[Nx_Json NX_JSON_INTEGER key None (with_sign neg n) (js_dbl sys (with_sign neg n)) []]"]) (use number_head [OF rd h(2) run] in simp_all)
  qed
  show "value_read sys (DDbl neg n r x)" if "dbl_ok sys neg n r x"
    unfolding value_read_def
  proof (intro allI impI)
    fix key a y t assume "delim y"
    note run = parse_dbl_run [OF this that, of key a t, unfolded dbl_text_def append_assoc]
    show "reads sys (Value_of key) a (doc_text (DDbl neg n r x)) (y # t) (one_value key (doc_value (DDbl neg n r x)))"
      by (rule readsI [of "sign_text neg @ dec n @ r" _ _ _ _ _ "[Nx_Json NX_JSON_DOUBLE key None (with_sign neg n) x []]"]) (use number_head [OF rd h(2) run] in \<open>simp_all add: dbl_text_def\<close>)
  qed
qed

lemma value_read_string:
  assumes "\<forall>x \<in> set ps. piece_ok x"
  shows "value_read sys (DStr ps)"
  unfolding value_read_def
proof (intro allI impI)
  fix key a c t
  obtain j where j: "unescape_string (Some unicode_to_utf8) ((a @ [DQ]) @ str_text ps @ DQ # c # t) (length (a @ [DQ]))
      = Some (Some ((a @ [DQ]) @ str_value ps @ NUL # j @ c # t, length (a @ [DQ]) + length (str_text ps) + 1))"
    "length (str_value ps @ NUL # j) = length (str_text ps) + 1"
    "\<And>a' t'. length a' = length (a @ [DQ]) \<Longrightarrow> cstr (a' @ str_value ps @ NUL # j @ t') (length (a @ [DQ])) = str_value ps"
    by (rule unescape_string_correct [OF assms]) blast
  show "reads sys (Value_of key) a (doc_text (DStr ps)) (c # t) (one_value key (doc_value (DStr ps)))"
  proof (rule readsI [of "DQ # str_value ps @ NUL # j"])
    show "length (DQ # str_value ps @ NUL # j) = length (doc_text (DStr ps))" using j(2) by simp
    show "parse_value sys (Some unicode_to_utf8) False (Value_of key) (a @ doc_text (DStr ps) @ c # t) (length a)
      = Some (Some (a @ (DQ # str_value ps @ NUL # j) @ c # t, length a + length (DQ # str_value ps @ NUL # j), [Nx_Json NX_JSON_STRING key (Some (length a + 1)) 0 (js_dbl sys 0) []]))"
      using j(1,2) by (subst parse_value.simps) (simp add: parse_string_def)
    show "one_value key (doc_value (DStr ps)) (a' @ (DQ # str_value ps @ NUL # j) @ t') [Nx_Json NX_JSON_STRING key (Some (length a + 1)) 0 (js_dbl sys 0) []]"
      if "length a' = length a" for a' t'
      using j(3) [of "a' @ [DQ]" t'] that by simp
  qed
qed

subsection \<open>Arrays\<close>

lemma items_end:
  assumes "\<forall>y \<in> set g. gap_ok y"
  shows "reads sys Items a (gaps_text g @ '']'') t (\<lambda>m js. js = [])"
proof (rule readsI [of "gaps_text g @ '']''"])
  have "rd (a @ gaps_text g @ '']'' @ t) (length a + length (gaps_text g)) = Some (CHR '']'')" using rd_at [of _ "a @ gaps_text g" "CHR '']''" t] by simp
  then have "parse_value sys (Some unicode_to_utf8) False (Value_of None) (a @ gaps_text g @ '']'' @ t) (length a)
      = Some (Some (a @ gaps_text g @ '']'' @ t, length a + length (gaps_text g), []))"
    using value_skips_gaps [OF assms, of sys "Some unicode_to_utf8" False None a "'']'' @ t"] by (simp add: parse_value.simps [where p = "length a + length (gaps_text g)"])
  then show "parse_value sys (Some unicode_to_utf8) False Items (a @ (gaps_text g @ '']'') @ t) (length a)
      = Some (Some (a @ (gaps_text g @ '']'') @ t, length a + length (gaps_text g @ '']''), []))"
    using rd_at [of _ "a @ gaps_text g" "CHR '']''" t] by (subst parse_value.simps) simp
qed simp_all

text \<open>What follows an item.\<close>

lemma items_rest:
  assumes "\<forall>x \<in> set gs. x \<noteq> [] \<and> (\<forall>y \<in> set x. gap_ok y)" "\<forall>y \<in> set g. gap_ok y" "length gs = length ds"
  obtains c r where "weave (map gaps_text gs) (map doc_text ds) @ gaps_text g @ '']'' = c # r" "delim c" "c = CHR '']'' \<Longrightarrow> gs = [] \<and> g = []"
proof (cases "gs = []")
  case True
  then show ?thesis
  proof (cases "g = []")
    case True
    then show ?thesis using that [of "CHR '']''" "[]"] \<open>gs = []\<close> by (simp add: weave_def gaps_text_def delim_def)
  next
    case False
    then obtain c s where "gaps_text g = c # s" "c \<in> {SP, TAB, LF, CR, CHR '','', CHR ''/''}" using gaps_head [OF assms(2)] by blast
    then show ?thesis using that [of c "s @ '']''"] \<open>gs = []\<close> by (auto simp: weave_def delim_def)
  qed
next
  case False
  then obtain x gs' d ds' where gs: "gs = x # gs'" "ds = d # ds'" using assms(3) by (cases gs; cases ds) auto
  then obtain c s where "gaps_text x = c # s" "c \<in> {SP, TAB, LF, CR, CHR '','', CHR ''/''}" using gaps_head [of x] assms(1) by auto
  then show ?thesis using that [of c "s @ doc_text d @ weave (map gaps_text gs') (map doc_text ds') @ gaps_text g @ '']''"] by (auto simp: gs weave_def delim_def)
qed

lemma items_read:
  assumes "length gs = length ds" "\<forall>x \<in> set gs \<union> {g}. \<forall>y \<in> set x. gap_ok y" "\<forall>x \<in> set (tl gs). x \<noteq> []" "\<forall>d \<in> set ds. value_read sys d"
  shows "reads sys Items a (weave (map gaps_text gs) (map doc_text ds) @ gaps_text g @ '']'') t (\<lambda>m js. map (jval_of m) js = map doc_value ds)"
  using assms
proof (induction ds arbitrary: gs a)
  case Nil
  then show ?case using items_end [of g sys a t] by (simp add: weave_def reads_def)
next
  case (Cons d ds)
  obtain g1 gs' where gs: "gs = g1 # gs'" "length gs' = length ds" using Cons.prems(1) by (cases gs) auto
  define R where "R = weave (map gaps_text gs') (map doc_text ds) @ gaps_text g @ '']''"
  have whole: "weave (map gaps_text gs) (map doc_text (d # ds)) @ gaps_text g @ '']'' = gaps_text g1 @ doc_text d @ R" by (simp add: gs weave_def R_def)
  obtain c r where R: "R = c # r" "delim c" "c = CHR '']'' \<Longrightarrow> gs' = [] \<and> g = []"
    unfolding R_def by (rule items_rest [of gs' g ds]) (use Cons.prems gs in auto)
  have "reads sys (Value_of None) a (gaps_text g1 @ doc_text d) (c # r @ t) (one_value None (doc_value d))"
    using Cons.prems R(2) unfolding gs by (intro reads_after_gaps) (auto simp: value_read_def)
  then obtain x js where x: "length x = length (gaps_text g1 @ doc_text d)"
    "parse_value sys (Some unicode_to_utf8) False (Value_of None) (a @ (gaps_text g1 @ doc_text d) @ c # r @ t) (length a) = Some (Some (a @ x @ c # r @ t, length a + length x, js))"
    "\<And>a' t'. length a' = length a \<Longrightarrow> one_value None (doc_value d) (a' @ x @ t') js" by (rule readsE) blast
  obtain j where j: "js = [j]" using x(3) [of a] one_valueE by blast
  have jv: "jval_of (a' @ x @ t') j = doc_value d" if "length a' = length a" for a' t' using x(3) [OF that, of t'] j by simp
  have rd: "rd (a @ x @ c # r @ t) (length a + length x) = Some c" using rd_at [of _ "a @ x" c "r @ t"] by simp
  show ?case
  proof (cases "c = CHR '']''")
    case True
    then have e: "ds = []" "R = '']''" using R gs(2) by (auto simp: R_def weave_def gaps_text_def)
    then have r: "r = []" using R(1) by simp
    show ?thesis unfolding whole
    proof (rule readsI [of "x @ '']''" _ _ _ _ _ "[j]"])
      show "parse_value sys (Some unicode_to_utf8) False Items (a @ (gaps_text g1 @ doc_text d @ R) @ t) (length a)
          = Some (Some (a @ (x @ '']'') @ t, length a + length (x @ '']''), [j]))"
        using x(2) rd by (subst parse_value.simps) (simp add: R(1) r True j)
      show "map (jval_of (a' @ (x @ '']'') @ t')) [j] = map doc_value (d # ds)" if "length a' = length a" for a' t' using jv [OF that] by (simp add: e)
    qed (simp add: x(1) e)
  next
    case False
    have "reads sys Items (a @ x) R t (\<lambda>m js. map (jval_of m) js = map doc_value ds)"
      unfolding R_def using Cons.IH [of gs' "a @ x"] Cons.prems gs by (cases gs') auto
    then obtain x2 js2 where x2: "length x2 = length R"
      "parse_value sys (Some unicode_to_utf8) False Items ((a @ x) @ R @ t) (length (a @ x)) = Some (Some ((a @ x) @ x2 @ t, length (a @ x) + length x2, js2))"
      "\<And>a' t'. length a' = length (a @ x) \<Longrightarrow> map (jval_of (a' @ x2 @ t')) js2 = map doc_value ds" by (rule readsE) blast
    show ?thesis unfolding whole
    proof (rule readsI [of "x @ x2" _ _ _ _ _ "j # js2"])
      show "parse_value sys (Some unicode_to_utf8) False Items (a @ (gaps_text g1 @ doc_text d @ R) @ t) (length a)
          = Some (Some (a @ (x @ x2) @ t, length a + length (x @ x2), j # js2))"
        using x(2) rd x2(2) False by (subst parse_value.simps) (simp add: R(1) j)
      show "map (jval_of (a' @ (x @ x2) @ t')) (j # js2) = map doc_value (d # ds)" if "length a' = length a" for a' t'
        using jv [OF that, of "x2 @ t'"] x2(3) [of "a' @ x" t'] that by simp
    qed (simp add: x(1) x2(1))
  qed
qed

lemma value_read_array:
  assumes "doc_ok sys (DArr gs ds g)" "\<forall>d \<in> set ds. value_read sys d"
  shows "value_read sys (DArr gs ds g)"
  unfolding value_read_def
proof (intro allI impI)
  fix key a c t
  have "reads sys Items (a @ ''['') (weave (map gaps_text gs) (map doc_text ds) @ gaps_text g @ '']'') (c # t) (\<lambda>m js. map (jval_of m) js = map doc_value ds)"
    by (rule items_read) (use assms in auto)
  then obtain x js where x: "length x = length (weave (map gaps_text gs) (map doc_text ds) @ gaps_text g @ '']'')"
    "parse_value sys (Some unicode_to_utf8) False Items ((a @ ''['') @ (weave (map gaps_text gs) (map doc_text ds) @ gaps_text g @ '']'') @ c # t) (length (a @ ''[''))
      = Some (Some ((a @ ''['') @ x @ c # t, length (a @ ''['') + length x, js))"
    "\<And>a' t'. length a' = length (a @ ''['') \<Longrightarrow> map (jval_of (a' @ x @ t')) js = map doc_value ds" by (rule readsE) blast
  show "reads sys (Value_of key) a (doc_text (DArr gs ds g)) (c # t) (one_value key (doc_value (DArr gs ds g)))"
    by (rule readsI [of "''['' @ x" _ _ _ _ _ "[Nx_Json NX_JSON_ARRAY key None 0 (js_dbl sys 0) js]"])
      (use x(1,2) x(3) [of "_ @ ''[''"] in \<open>simp_all add: parse_value.simps [where mode = "Value_of key"]\<close>)
qed

subsection \<open>Objects\<close>

lemma skip_white_run: "\<forall>c \<in> set w. c \<noteq> NUL \<and> le_sp c \<Longrightarrow> \<not> le_sp x \<Longrightarrow> skip_white (a @ w @ x # t) (length a) = Some (length a + length w)"
proof (induction w arbitrary: a)
  case Nil
  then show ?case by (simp add: skip_white.simps)
next
  case (Cons c w)
  then show ?case using Cons.IH [of "a @ [c]"] by (subst skip_white.simps) auto
qed

text \<open>The head of a member: the key is unescaped in place.\<close>

lemma parse_key_run:
  assumes "head_ok (Head g k w g')"
  obtains kx where "length kx = length (gaps_text g @ [DQ] @ str_text k @ [DQ] @ w @ '':'')"
    "parse_key (Some unicode_to_utf8) (a @ (gaps_text g @ [DQ] @ str_text k @ [DQ] @ w @ '':'') @ t) (length a)
      = Some (Some (a @ kx @ t, length a + length kx, Some (length a + length (gaps_text g) + 1)))"
    "\<And>a' t'. length a' = length a \<Longrightarrow> cstr (a' @ kx @ t') (length a + length (gaps_text g) + 1) = str_value k"
proof -
  define b where "b = a @ gaps_text g @ [DQ]"
  have ok: "\<forall>x \<in> set g. gap_ok x" "\<forall>x \<in> set k. piece_ok x" "\<forall>c \<in> set w. c \<noteq> NUL \<and> le_sp c" using assms by auto
  obtain j where j: "unescape_string (Some unicode_to_utf8) (b @ str_text k @ DQ # w @ CHR '':'' # t) (length b)
      = Some (Some (b @ str_value k @ NUL # j @ w @ CHR '':'' # t, length b + length (str_text k) + 1))"
    "length (str_value k @ NUL # j) = length (str_text k) + 1" "\<And>a' t'. length a' = length b \<Longrightarrow> cstr (a' @ str_value k @ NUL # j @ t') (length b) = str_value k"
    by (rule unescape_string_correct [OF ok(2)]) blast
  define e where "e = b @ str_value k @ NUL # j"
  have e: "length e = length b + length (str_text k) + 1" using j(2) by (simp add: e_def)
  have w: "skip_white (e @ w @ CHR '':'' # t) (length e) = Some (length e + length w)" by (rule skip_white_run [OF ok(3)]) (simp add: le_sp_def code_def)
  have c: "rd (e @ w @ CHR '':'' # t) (length e + length w) = Some (CHR '':'')" using rd_at [of _ "e @ w" "CHR '':''" t] by simp
  have dq: "rd (b @ str_text k @ DQ # w @ CHR '':'' # t) (length a + length (gaps_text g)) = Some DQ"
    using rd_at [of _ "a @ gaps_text g" DQ "str_text k @ DQ # w @ CHR '':'' # t"] by (simp add: b_def)
  have lb: "length a + length (gaps_text g) + 1 = length b" by (simp add: b_def)
  have m: "b @ str_value k @ NUL # j @ w @ CHR '':'' # t = e @ w @ CHR '':'' # t" by (simp add: e_def)
  have "parse_key (Some unicode_to_utf8) (b @ str_text k @ DQ # w @ CHR '':'' # t) (length a)
      = Some (Some (e @ w @ CHR '':'' # t, length e + length w + 1, Some (length b)))"
    using key_skips_gaps [OF ok(1), of "Some unicode_to_utf8" a "DQ # str_text k @ DQ # w @ CHR '':'' # t"] dq j(1) w c
    unfolding lb [symmetric] m by (subst (asm) (2) parse_key.simps) (simp add: b_def e [unfolded b_def])
  then show ?thesis using j(2) j(3) [of "_ @ gaps_text g @ [DQ]" "w @ '':'' @ _"]
    by (intro that [of "gaps_text g @ [DQ] @ str_value k @ NUL # j @ w @ '':''"]) (simp_all add: b_def e_def)
qed

lemma members_end:
  assumes "\<forall>y \<in> set g. gap_ok y"
  shows "reads sys Members a (gaps_text g @ ''}'') t (\<lambda>m js. js = [])"
proof (rule readsI [of "gaps_text g @ ''}''"])
  have r: "rd (a @ gaps_text g @ ''}'' @ t) (length a + length (gaps_text g)) = Some (CHR ''}'')" using rd_at [of _ "a @ gaps_text g" "CHR ''}''" t] by simp
  then have "parse_key (Some unicode_to_utf8) (a @ gaps_text g @ ''}'' @ t) (length a) = Some (Some (a @ gaps_text g @ ''}'' @ t, length a + length (gaps_text g), None))"
    using key_skips_gaps [OF assms, of "Some unicode_to_utf8" a "''}'' @ t"]
    by (simp add: parse_key.simps [where p = "length a + length (gaps_text g)"] le_sp_def code_def)
  then show "parse_value sys (Some unicode_to_utf8) False Members (a @ (gaps_text g @ ''}'') @ t) (length a)
      = Some (Some (a @ (gaps_text g @ ''}'') @ t, length a + length (gaps_text g @ ''}''), []))"
    using r by (subst parse_value.simps) simp
qed simp_all

lemma members_rest:
  assumes "\<forall>h \<in> set hs. head_ok h" "\<forall>y \<in> set g. gap_ok y" "length hs = length ds"
  obtains c r where "weave (map head_text hs) (map doc_text ds) @ gaps_text g @ ''}'' = c # r" "delim c"
proof -
  have gap: "\<exists>c r. gaps_text gs @ s = c # r \<and> delim c" if ok: "\<forall>y \<in> set gs. gap_ok y" and s: "s \<noteq> []" "delim (hd s)" for gs s
  proof (cases "gs = []")
    case True
    then show ?thesis using s by (cases s) (auto simp: gaps_text_def)
  next
    case False
    then obtain c r where "gaps_text gs = c # r" "c \<in> {SP, TAB, LF, CR, CHR '','', CHR ''/''}" using gaps_head [OF ok] by blast
    then show ?thesis by (auto simp: delim_def)
  qed
  have "\<exists>c r. weave (map head_text hs) (map doc_text ds) @ gaps_text g @ ''}'' = c # r \<and> delim c"
  proof (cases hs)
    case Nil
    then show ?thesis using gap [OF assms(2), of "''}''"] by (simp add: weave_def delim_def)
  next
    case (Cons h hs')
    then obtain d ds' where ds: "ds = d # ds'" using assms(3) by (cases ds) auto
    obtain g1 k w g2 where h: "h = Head g1 k w g2" by (cases h)
    show ?thesis using gap [of g1 "[DQ] @ str_text k @ [DQ] @ w @ '':'' @ gaps_text g2 @ doc_text d @ weave (map head_text hs') (map doc_text ds') @ gaps_text g @ ''}''"]
      assms(1) by (simp add: Cons h ds weave_def delim_def)
  qed
  then show ?thesis using that by blast
qed

lemma members_read:
  assumes "length hs = length ds" "\<forall>h \<in> set hs. head_ok h" "\<forall>y \<in> set g. gap_ok y" "\<forall>d \<in> set ds. doc_ok sys d \<and> value_read sys d"
  shows "reads sys Members a (weave (map head_text hs) (map doc_text ds) @ gaps_text g @ ''}'') t
    (\<lambda>m js. map (key_of m) js = map head_key hs \<and> map (jval_of m) js = map doc_value ds \<and> (\<forall>j \<in> set js. js_key j \<noteq> None))"
  using assms
proof (induction ds arbitrary: hs a)
  case Nil
  then show ?case using reads_mono [OF members_end [of g sys a t]] by (simp add: weave_def)
next
  case (Cons d ds)
  obtain h hs' where hs: "hs = h # hs'" "length hs' = length ds" using Cons.prems(1) by (cases hs) auto
  obtain g1 k w g2 where h: "h = Head g1 k w g2" by (cases h)
  define K where "K = gaps_text g1 @ [DQ] @ str_text k @ [DQ] @ w @ '':''"
  define V where "V = gaps_text g2 @ doc_text d"
  define R where "R = weave (map head_text hs') (map doc_text ds) @ gaps_text g @ ''}''"
  have whole: "weave (map head_text hs) (map doc_text (d # ds)) @ gaps_text g @ ''}'' = K @ V @ R" by (simp add: hs h weave_def R_def K_def V_def)
  obtain c r where R: "R = c # r" "delim c" unfolding R_def by (rule members_rest [of hs' g ds]) (use Cons.prems hs in auto)
  obtain kx where kx: "length kx = length K"
    "parse_key (Some unicode_to_utf8) (a @ K @ V @ R @ t) (length a) = Some (Some (a @ kx @ V @ R @ t, length a + length kx, Some (length a + length (gaps_text g1) + 1)))"
    "\<And>a' t'. length a' = length a \<Longrightarrow> cstr (a' @ kx @ t') (length a + length (gaps_text g1) + 1) = str_value k"
    unfolding K_def by (rule parse_key_run [of g1 k w g2 a "V @ R @ t"]) (use Cons.prems hs h in auto)
  obtain v1 v2 where V: "V = v1 # v2" "v1 \<noteq> CHR ''}''"
  proof (cases "g2 = []")
    case True
    have "doc_ok sys d" using Cons.prems(4) by simp
    then obtain c s where "doc_text d = c # s" "c \<notin> {CHR ''}'', CHR '']'', NUL}" by (rule doc_head)
    then show ?thesis using that [of c s] True by (simp add: V_def gaps_text_def)
  next
    case False
    have "\<forall>x \<in> set g2. gap_ok x" using Cons.prems(2) hs h by simp
    then obtain c s where "gaps_text g2 = c # s" "c \<in> {SP, TAB, LF, CR, CHR '','', CHR ''/''}" using False by (rule gaps_head)
    then show ?thesis using that [of c "s @ doc_text d"] by (auto simp: V_def)
  qed
  have rd: "rd (a @ kx @ V @ R @ t) (length a + length kx) = Some v1" using rd_at [of _ "a @ kx" v1 "v2 @ R @ t"] by (simp add: V(1))
  let ?key = "Some (length a + length (gaps_text g1) + 1)"
  have "reads sys (Value_of ?key) (a @ kx) V (R @ t) (one_value ?key (doc_value d))"
    unfolding V_def R(1) using Cons.prems R(2) hs h by (intro reads_after_gaps) (auto simp: value_read_def)
  then obtain x js where x: "length x = length V"
    "parse_value sys (Some unicode_to_utf8) False (Value_of ?key) ((a @ kx) @ V @ R @ t) (length (a @ kx)) = Some (Some ((a @ kx) @ x @ R @ t, length (a @ kx) + length x, js))"
    "\<And>a' t'. length a' = length (a @ kx) \<Longrightarrow> one_value ?key (doc_value d) (a' @ x @ t') js" by (rule readsE) blast
  obtain j where j: "js = [j]" using x(3) [of "a @ kx"] one_valueE by blast
  have jv: "js_key j = ?key" "\<And>a' t'. length a' = length (a @ kx) \<Longrightarrow> jval_of (a' @ x @ t') j = doc_value d"
    using x(3) [of "a @ kx"] x(3) j by auto
  have "reads sys Members ((a @ kx) @ x) R t (\<lambda>m js. map (key_of m) js = map head_key hs' \<and> map (jval_of m) js = map doc_value ds \<and> (\<forall>j \<in> set js. js_key j \<noteq> None))"
    unfolding R_def by (rule Cons.IH) (use Cons.prems hs in auto)
  then obtain x2 js2 where x2: "length x2 = length R"
    "parse_value sys (Some unicode_to_utf8) False Members (((a @ kx) @ x) @ R @ t) (length ((a @ kx) @ x)) = Some (Some (((a @ kx) @ x) @ x2 @ t, length ((a @ kx) @ x) + length x2, js2))"
    "\<And>a' t'. length a' = length ((a @ kx) @ x) \<Longrightarrow> map (key_of (a' @ x2 @ t')) js2 = map head_key hs' \<and> map (jval_of (a' @ x2 @ t')) js2 = map doc_value ds \<and> (\<forall>j \<in> set js2. js_key j \<noteq> None)"
    by (rule readsE) blast
  show ?case unfolding whole
  proof (rule readsI [of "kx @ x @ x2" _ _ _ _ _ "j # js2"])
    show "parse_value sys (Some unicode_to_utf8) False Members (a @ (K @ V @ R) @ t) (length a)
        = Some (Some (a @ (kx @ x @ x2) @ t, length a + length (kx @ x @ x2), j # js2))"
      using kx(2) rd x(2) x2(2) V(2) by (subst parse_value.simps) (simp add: j add.assoc)
    show "map (key_of (a' @ (kx @ x @ x2) @ t')) (j # js2) = map head_key hs \<and> map (jval_of (a' @ (kx @ x @ x2) @ t')) (j # js2) = map doc_value (d # ds)
        \<and> (\<forall>i \<in> set (j # js2). js_key i \<noteq> None)"
      if "length a' = length a" for a' t'
      using jv(1) jv(2) [of "a' @ kx" "x2 @ t'"] x2(3) [of "a' @ kx @ x" t'] kx(3) [OF that, of "x @ x2 @ t'"] that by (simp add: key_of_def hs h)
  qed (simp add: kx(1) x(1) x2(1))
qed

lemma value_read_object:
  assumes "doc_ok sys (DObj hs ds g)" "\<forall>d \<in> set ds. value_read sys d"
  shows "value_read sys (DObj hs ds g)"
  unfolding value_read_def
proof (intro allI impI)
  fix key a c t
  have "reads sys Members (a @ ''{'') (weave (map head_text hs) (map doc_text ds) @ gaps_text g @ ''}'') (c # t)
      (\<lambda>m js. map (key_of m) js = map head_key hs \<and> map (jval_of m) js = map doc_value ds \<and> (\<forall>j \<in> set js. js_key j \<noteq> None))"
    by (rule members_read) (use assms in auto)
  then obtain x js where x: "length x = length (weave (map head_text hs) (map doc_text ds) @ gaps_text g @ ''}'')"
    "parse_value sys (Some unicode_to_utf8) False Members ((a @ ''{'') @ (weave (map head_text hs) (map doc_text ds) @ gaps_text g @ ''}'') @ c # t) (length (a @ ''{''))
      = Some (Some ((a @ ''{'') @ x @ c # t, length (a @ ''{'') + length x, js))"
    "\<And>a' t'. length a' = length (a @ ''{'') \<Longrightarrow> map (key_of (a' @ x @ t')) js = map head_key hs \<and> map (jval_of (a' @ x @ t')) js = map doc_value ds \<and> (\<forall>j \<in> set js. js_key j \<noteq> None)" by (rule readsE) blast
  show "reads sys (Value_of key) a (doc_text (DObj hs ds g)) (c # t) (one_value key (doc_value (DObj hs ds g)))"
    by (rule readsI [of "''{'' @ x" _ _ _ _ _ "[Nx_Json NX_JSON_OBJECT key None 0 (js_dbl sys 0) js]"])
      (use x(1,2) x(3) [of "_ @ ''{''"] in \<open>simp_all add: parse_value.simps [where mode = "Value_of key"] jval_of_object del: jval_of.simps\<close>)
qed

lemma value_read_doc: "doc_ok sys d \<Longrightarrow> value_read sys d"
proof (induction d)
  case (DArr gs ds g)
  then show ?case by (intro value_read_array) auto
next
  case (DObj hs ds g)
  then show ?case by (intro value_read_object) auto
qed (auto intro: value_read_literals value_read_numbers value_read_string)

section \<open>Access by key and by position\<close>

lemma get_found:
  assumes "\<forall>c \<in> set cs. js_key c \<noteq> None"
  shows "(case find (\<lambda>c. case js_key c of None \<Rightarrow> False | Some a \<Rightarrow> cstr m a = k) cs of None \<Rightarrow> JNull | Some c \<Rightarrow> jval_of m c)
    = (case map_of (zip (map (key_of m) cs) (map (jval_of m) cs)) k of None \<Rightarrow> JNull | Some v \<Rightarrow> v)"
  using assms by (induction cs) (auto simp: key_of_def)

lemma get_of_object:
  assumes "jval_of m js = JObj kvs" "keyed js"
  shows "jval_of m (nx_json_get sys m (Some js) (Some k)) = (case map_of kvs k of None \<Rightarrow> JNull | Some v \<Rightarrow> v)"
proof (cases js)
  case (Nx_Json t key s i d cs)
  have t: "t = NX_JSON_OBJECT" using assms(1) by (cases t) (simp_all add: Nx_Json)
  then have "kvs = zip (map (key_of m) cs) (map (jval_of m) cs)" using assms(1) by (simp add: Nx_Json jval_of_object del: jval_of.simps)
  moreover have "\<forall>c \<in> set cs. js_key c \<noteq> None" using assms(2) t by (simp add: Nx_Json)
  moreover have "jval_of m (case F of None \<Rightarrow> dummy sys | Some c \<Rightarrow> c) = (case F of None \<Rightarrow> JNull | Some c \<Rightarrow> jval_of m c)" for F
    by (simp add: dummy_def create_json_def split: option.split)
  ultimately show ?thesis using get_found [of cs m k] by (simp only: Nx_Json nx_json_get_def prod.case option.case nx_json.sel)
qed

lemma item_of_array:
  assumes "jval_of m js = JArr vs"
  shows "jval_of m (nx_json_item sys (Some js) i) = (if 0 \<le> i \<and> i < int (length vs) then vs ! nat i else JNull)"
proof (cases js)
  case (Nx_Json t key s n d cs)
  have t: "t = NX_JSON_ARRAY" using assms(1) by (cases t) (simp_all add: Nx_Json)
  then have "vs = map (jval_of m) cs" using assms(1) by (simp add: Nx_Json)
  then show ?thesis by (auto simp: Nx_Json nx_json_item_def dummy_def create_json_def)
qed

lemma parse_doc:
  assumes "doc_ok sys d" "\<forall>g \<in> set gs. gap_ok g" "delim c"
  shows "\<exists>m' js. nx_json_parse_utf8 sys False (gaps_text gs @ doc_text d @ c # t) = Some (Some (m', js)) \<and> length m' = length (gaps_text gs @ doc_text d @ c # t)
    \<and> jval_of m' js = doc_value d \<and> keyed js"
proof -
  have "reads sys (Value_of None) [] (gaps_text gs @ doc_text d) (c # t) (one_value None (doc_value d))"
    using value_read_doc [OF assms(1)] assms(2,3) by (intro reads_after_gaps) (auto simp: value_read_def)
  then obtain x js where x: "length x = length (gaps_text gs @ doc_text d)"
    "parse_value sys (Some unicode_to_utf8) False (Value_of None) ([] @ (gaps_text gs @ doc_text d) @ c # t) (length ([] :: string)) = Some (Some ([] @ x @ c # t, length ([] :: string) + length x, js))"
    "\<And>a' t'. length a' = length ([] :: string) \<Longrightarrow> one_value None (doc_value d) (a' @ x @ t') js" by (rule readsE) blast
  obtain j where j: "js = [j]" using one_valueE x(3) [of "[]"] by blast
  have v: "one_value None (doc_value d) (x @ c # t) [j]" using x(3) [of "[]" "c # t"] j by simp
  show ?thesis using x(1,2) j v by (intro exI [of _ "x @ c # t"] exI [of _ j]) (simp add: nx_json_parse_utf8_def nx_json_parse_def)
qed

text \<open>A text, for a concrete run.\<close>

definition sample_doc :: "string doc" where
  "sample_doc = DObj [Head [Blank SP] [Plain CHR ''a''] [] [Blank SP], Head [Blank CHR '','', Block_comment ''*x/''] [Unicode ''00e9''] [SP] []]
     [DArr [[], [Blank CHR '','']] [DInt True 7, DDbl False 2 ''.5'' ''2.5''] [Blank LF], DStr [Plain CHR ''h'', Escape CHR ''n'', Surrogates ''d83d'' ''DE00'']] []"

lemma sample_strtod: "strtod_reads sample_sys ''2.5'' ''2.5''"
  unfolding strtod_reads_def
proof (intro allI impI)
  fix r :: string assume "r = [] \<or> delim (hd r)"
  then have "takeWhile (\<lambda>c. c \<in> set ''+-.0123456789Ee'') r = []" by (cases r) (auto simp: delim_def)
  then show "js_strtod sample_sys (''2.5'' @ r) = (''2.5'', False, length ''2.5'')" by (simp add: sample_sys_def Let_def)
qed

lemma sample_doc_ok: "doc_ok sample_sys sample_doc"
proof -
  have "code (digit_char 2) = code (CHR ''2'')" by (simp add: digit_char_code) (simp add: code_def)
  then have "dec 2 = ''2''" by (simp add: dec.simps)
  then have "dbl_ok sample_sys False 2 ''.5'' ''2.5''" using sample_strtod by (simp add: dbl_ok_def fits_long_def with_sign_def dbl_text_def sign_text_def)
  then show ?thesis
    by (simp add: sample_doc_def fits_long_def with_sign_def four_hex_def hex_value_def hex_val_def code_def esc_char_def)
qed

text \<open>
  C20: A text made of blanks, commas and comments and a JSON value, with blanks, commas and comments between its tokens, any escapes in its strings and any
  numbers in range, is read as a tree for exactly that value, in place; looking up a key in the tree of an object gives the first member
  with that key, and a position in the tree of an array the item there.  What follows the value is not looked at.
\<close>

theorem json_parse_correct:
  assumes "doc_ok sys d" "\<forall>g \<in> set gs. gap_ok g" "delim c"
  shows "\<exists>m' js. nx_json_parse_utf8 sys False (gaps_text gs @ doc_text d @ c # t) = Some (Some (m', js)) \<and> length m' = length (gaps_text gs @ doc_text d @ c # t)
    \<and> jval_of m' js = doc_value d
    \<and> (\<forall>kvs k. doc_value d = JObj kvs \<longrightarrow> jval_of m' (nx_json_get sys m' (Some js) (Some k)) = (case map_of kvs k of None \<Rightarrow> JNull | Some v \<Rightarrow> v))
    \<and> (\<forall>vs i. doc_value d = JArr vs \<longrightarrow> jval_of m' (nx_json_item sys (Some js) i) = (if 0 \<le> i \<and> i < int (length vs) then vs ! nat i else JNull))"
proof -
  obtain m' js where r: "nx_json_parse_utf8 sys False (gaps_text gs @ doc_text d @ c # t) = Some (Some (m', js))" "length m' = length (gaps_text gs @ doc_text d @ c # t)"
    "jval_of m' js = doc_value d" "keyed js" using parse_doc [OF assms] by blast
  show ?thesis using r get_of_object [of m' js] item_of_array [of m' js] by auto
qed

theorem json_parse_correct_witness:
  "\<exists>m' js. nx_json_parse_utf8 sample_sys False (gaps_text [Line_comment ''c''] @ doc_text sample_doc @ NUL # []) = Some (Some (m', js))
     \<and> jval_of m' (nx_json_get sample_sys m' (Some js) (Some ''a'')) = JArr [JInt (-7), JDbl ''2.5'']"
proof -
  have ok: "\<forall>g \<in> set [Line_comment ''c'']. gap_ok g" "delim NUL" by (simp_all add: delim_def)
  have v: "doc_value sample_doc = JObj [(''a'', JArr [JInt (-7), JDbl ''2.5'']), (str_value [Unicode ''00e9''], JStr (str_value [Plain CHR ''h'', Escape CHR ''n'', Surrogates ''d83d'' ''DE00'']))]"
    by (simp add: sample_doc_def with_sign_def str_value_def)
  from json_parse_correct [OF sample_doc_ok ok, of "[]"] show ?thesis unfolding v by fastforce
qed

end
