(* ===== verification/Spec2Isabelle.thy ===== *)
theory Spec2Isabelle
  imports Nx_Path Nx_Chunked_Encoder Nx_Http_Request_Spec Nx_Queue Nx_Http_Client Nx_Http_Send Nx_Http_Roundtrip Nx_Loop Nx_Cache Nx_Sendfile Nx_Server_Timers Nx_Json_Read
begin

text \<open>
  A verification library for nxweb, an embeddable event-driven web server in C
  (\<^verbatim>\<open>src/src/include/nxweb\<close>, \<^verbatim>\<open>src/src/lib\<close>).

  \<^bold>\<open>The program.\<close>  Every network thread of the server runs one event loop (\<^verbatim>\<open>nx_event.c\<close>): epoll reports what
  a descriptor can do, the loop turns it into events between publishers and subscribers and between
  pairs of connected streams, and delivers the events one at a time; timers live in queues of equal
  timeouts.  A connection is a small graph of such streams.  Its objects come from pools
  (\<^verbatim>\<open>nx_pool.c\<close>), the memory of its request from an arena (\<^verbatim>\<open>nx_buffer.c\<close>), its bodies go through the
  stream buffers of \<^verbatim>\<open>nxd_buffer.c\<close>.  The text of HTTP - requests, responses, headers, dates, chunks, URLs,
  paths - is read and written by \<^verbatim>\<open>http_utils.c\<close> and the inline functions of \<^verbatim>\<open>nxweb.h\<close>.  Finished responses
  may be kept by the memory cache of \<^verbatim>\<open>cache.c\<close> and shared by all threads; threads pass work through
  the ring queue of \<^verbatim>\<open>nx_queue_tpl.h\<close>.  A server connection is the state machine of \<^verbatim>\<open>nxd_http_server_proto.c\<close> between
  the streams of its socket (\<^verbatim>\<open>nxd_socket.c\<close>) and those of the bodies; when a request has been received, \<^verbatim>\<open>http_server.c\<close> finds
  the handler and its filters, for instance the one for static files (\<^verbatim>\<open>modules/sendfile.c\<close>).

  \<^bold>\<open>Conventions.\<close>  The memory of a C buffer is a list of characters and a pointer an index into it; reading
  or writing outside is \<open>None\<close>, the value every routine has for undefined behaviour, a failed assertion or
  a use of freed memory, so that a theorem with \<open>Some\<close> on its right is also a memory safety theorem.
  C integers are \<open>int\<close> or \<open>nat\<close> with the wrap-around written out, or \<open>None\<close> where a signed type overflows.
  Structures that point at each other (event queues, timer queues, free lists, the cache) are records of
  maps over object numbers; \<^verbatim>\<open>Nx_Links\<close> relates their next and previous pointers to lists.  Callbacks that a
  program hands to the server are parameters.  Loops are recursive functions with a termination
  proof; the loops over pointers (\<open>drop_events\<close>, \<open>process_queue\<close>, \<open>nxe_process_loop\<close>, \<open>run_rounds\<close>, \<open>cache_check_size\<close>,
  \<open>after_le\<close>, \<open>dispatch_loop\<close>, \<open>str_at\<close>, and those of the JSON reader: \<open>unescape_loop\<close>, \<open>block_loop\<close>, \<open>skip_white\<close>, \<open>parse_key\<close>, \<open>parse_value\<close>) are partial functions, where a loop that does not end is \<open>None\<close> as well, and the theorems about them
  show the value that is returned.

  \<^bold>\<open>The theories.\<close>
  \<^item> \<^verbatim>\<open>Nx_Prelude\<close>, \<^verbatim>\<open>Nx_Misc\<close>, \<^verbatim>\<open>Nx_Strings\<close>: byte memory, C library routines, the number printers of \<^verbatim>\<open>misc.h\<close>,
    the string routines and header maps of \<^verbatim>\<open>nxweb.h\<close>.
  \<^item> \<^verbatim>\<open>Nx_Buffer\<close>: \<^verbatim>\<open>nx_buffer.h\<close>, \<^verbatim>\<open>nx_buffer.c\<close>.  An object given out lies inside its chunk and apart from all
    others, the unfinished stream survives a change of chunk, and emptying frees every chunk once.
  \<^item> \<^verbatim>\<open>Nx_Queue\<close>: \<^verbatim>\<open>nx_queue_tpl.h\<close>, and the queue under one producer and one consumer thread whose single
    memory accesses interleave freely: it is a linearizable bounded queue.
  \<^item> \<^verbatim>\<open>Nx_Url\<close>, \<^verbatim>\<open>Nx_Path\<close>: escaping, decoding and dot removal of \<^verbatim>\<open>http_utils.c\<close>; round trips, the in-place
    decoder, and that a path whose last segment is a name is normalised; what becomes of a path that ends in
    a slash or a dot segment, which the routine does not terminate, is a theorem of its own.
  \<^item> \<^verbatim>\<open>Nx_Chunked\<close>, \<^verbatim>\<open>Nx_Chunked_Encoder\<close>: the streaming decoder, which rewrites its buffer in place, equals
    a reference machine on single bytes, whatever way the stream is split; a body written through
    the encoder over a socket that takes arbitrary parts of what it is offered decodes to itself.  Chunk sizes
    are read exactly below \<open>2 ^ 63\<close>, where the counter of the code overflows.
  \<^item> \<^verbatim>\<open>Nx_Http_Time\<close>, \<^verbatim>\<open>Nx_Gmtime\<close>: the HTTP date forms and the calendar of the C library.
  \<^item> \<^verbatim>\<open>Nx_Http_Headers\<close>, \<^verbatim>\<open>Nx_Http_Request\<close>, \<^verbatim>\<open>Nx_Http_Request_Spec\<close>: recognition of header names, the request
    parser, which cuts the request into strings inside the received bytes, and the refinement of a
    specification that reads the request as a list of lines.
  \<^item> \<^verbatim>\<open>Nx_Http_Response\<close>, \<^verbatim>\<open>Nx_Http_Head\<close>, \<^verbatim>\<open>Nx_Http_Send\<close>, \<^verbatim>\<open>Nx_Mime\<close>: the response record, the date kept by the loop,
    the response head, redirects, errors and files, and the table of MIME types.
  \<^item> \<^verbatim>\<open>Nx_Http_Response_Parse\<close>, \<^verbatim>\<open>Nx_Http_Client\<close>, \<^verbatim>\<open>Nx_Http_Roundtrip\<close>: the client side: the head of a request,
    which stays in the room the code reserves if its lines do, and that the text which the writer of response heads leaves in the
    arena is read back by the client with the same meaning.
  \<^item> \<^verbatim>\<open>Nx_Links\<close>, \<^verbatim>\<open>Nx_Pool\<close>, \<^verbatim>\<open>Nx_Timers\<close>: doubly linked lists, the object pool and the timer queues;
    timers fire when due, in each queue in the order of expiry.
  \<^item> \<^verbatim>\<open>Nx_Event\<close>, \<^verbatim>\<open>Nx_Event_Delivery\<close>, \<^verbatim>\<open>Nx_Loop\<close>: events, subscriptions, streams and their delivery, descriptor
    sources, garbage collection and the loop itself.  One invariant covers the event queue, the lists
    of the receivers and the pool of the events; delivery keeps it whatever the callbacks do through
    the interface, messages and callbacks are delivered as by a plain queue of calls, in the order in which they were sent, a source taken off the loop leaves nothing
    behind, and the wait for epoll ends before the first timer is due.
  \<^item> \<^verbatim>\<open>Nx_Cache\<close>: \<^verbatim>\<open>cache.c\<close> as steps of any number of connections, with their responses, over one heap.  The response of a connection
    that holds a record is that record, which is allocated until the last such connection is done; and what is stored under a key is what
    requests for the key are served for thirty seconds, whatever happens in between, unless the table becomes full.
  \<^item> \<^verbatim>\<open>Nx_Streams\<close>: \<^verbatim>\<open>nxd_buffer.c\<close>; the bytes that the destination of a ring buffer took are those that its source stored, in order, each end keeping its own record, and the input
    buffer collects a body up to its limit.
  \<^item> \<^verbatim>\<open>Nx_Dispatch\<close>: of \<^verbatim>\<open>http_server.c\<close>, the registration of modules and handlers, the choice of a handler with its
    filters and caches, and the start of a response.  Handlers are asked in the order of their priorities, exactly those
    that match, each about the request as it was received.
  \<^item> \<^verbatim>\<open>Nx_Sendfile\<close>: \<^verbatim>\<open>modules/sendfile.c\<close>, \<^verbatim>\<open>modules/host_redirect.c\<close>; the path of a static file stays below the directory of the handler
    (for addresses that do not end in a dot segment).
  \<^item> \<^verbatim>\<open>Nx_File_Reader\<close>, \<^verbatim>\<open>Nx_Socket\<close>: \<^verbatim>\<open>nx_file_reader.c\<close>, \<^verbatim>\<open>nxd_socket.c\<close>; a file read window by window gives its bytes, in
    order and once; system calls are arguments.
  \<^item> \<^verbatim>\<open>Nx_Server_Proto\<close>, \<^verbatim>\<open>Nx_Server_Timers\<close>: the server protocol, every method and state of it, and its runs: whatever the order in which
    the socket, the peers of the bodies, the handler and the loop call it, each timer is set exactly in the states it guards.
  \<^item> \<^verbatim>\<open>Nx_Json\<close>, \<^verbatim>\<open>Nx_Json_Safe\<close>, \<^verbatim>\<open>Nx_Json_Read\<close>: the reader of the configuration, \<^verbatim>\<open>nxjson.c\<close>, which decodes strings in place.  On any text it
    returns, without a byte read or written past the terminator; a JSON text, with blanks and comments anywhere they are allowed, is
    read as its value.

  Six locales state contracts between these parts, each interpreted on the definitions of the code:
  \<open>entry_chain\<close> (a header map, with exact and with case-insensitive names), \<open>header_store\<close> (what the header loop
  needs of the sink it fills, for the server and for the client), \<open>object_pool\<close> (what the pool promises the
  event loop), \<open>bounded_fifo\<close> (the ring queue), \<open>routes\<close> (what the dispatcher needs of handlers) and \<open>hsp_peers\<close> (what the server protocol
  needs of the socket and of the code that is called at the end of a request; interpreted on plain sockets).

  \<^bold>\<open>Abstractions.\<close>  The hash table of the cache and of the MIME types is the association of keys with values that its insert, lookup and
  delete give; that it found no memory to grow is an argument.  Sizes of the arena are \<open>nat\<close>: the int arithmetic of the code agrees with it as long as a
  request needs less than 2 GB.  The server protocol answers with the response that is part of the connection.  The instance of \<open>hsp_peers\<close> has the
  socket methods of \<^verbatim>\<open>nxd_socket.c\<close> and plain finalizers, for the theorems hold for any that keep the contract.

  \<^bold>\<open>Not modelled.\<close>  Code whose effect is a call of another library: TLS (\<^verbatim>\<open>nxd_ssl_socket.c\<close>), image processing and
  drawing, gzip, the Python module, process control, the access log.  Of the program's own logic, accepting and closing connections
  and the threads of \<^verbatim>\<open>http_server.c\<close>, subrequests, the protocol of the client and the proxy, the file cache,
  SSI and template filters, the translation of the configuration (\<^verbatim>\<open>json_config.c\<close>), the worker threads and the streamer are outside this library,
  as are the vendored hash table and SHA-1.  \<^verbatim>\<open>_nxweb_decode_chunked\<close> and \<^verbatim>\<open>_nxweb_verify_chunked\<close> of \<^verbatim>\<open>http_utils.c\<close> have
  no caller.
\<close>

end
